(* ===== verification/Prelude.thy ===== *)
theory Prelude
  imports Main "HOL-Library.Word" "HOL-Library.Monad_Syntax"
begin

text \<open>
  Shared ground of the development: the machine integer types of the C code, the loop
  combinator for ``\<open>for\<close> with an early return'', byte-array bitmaps, flat memory, and the
  interface of the slot allocators that several kernel components implement.

  Conventions. A value of an \<open>option\<close> type that stands for a computation is None exactly when
  the C code would access an array out of its bounds (or dereference a pointer that is not
  valid), which C leaves undefined. C \<open>char\<close> data is HOL \<open>char\<close>, \<open>uint8_t\<close> data is an 8-bit
  word; \<open>uintptr_t\<close>, \<open>size_t\<close> and \<open>unsigned int\<close> are 32-bit words (the x86 build uses
  \<open>-m32\<close>), and array indices that the code keeps below an array bound are natural numbers.
\<close>

unbundle bit_operations_syntax

type_synonym u8 = "8 word"
type_synonym u16 = "16 word"
type_synonym u32 = "32 word"
type_synonym u64 = "64 word"

named_theorems byte_simps \<open>bit tests on the byte and word updates of the code\<close>
named_theorems alloc_rules \<open>facts about slot allocators\<close>

subsection \<open>Loops that return early\<close>

text \<open>
  \<open>first_ok p i n\<close> is \<open>for (; i < n; i++) if (p(i)) return i;\<close> where evaluating \<open>p(i)\<close> may be
  an out-of-bounds access.
\<close>

function first_ok :: "(nat \<Rightarrow> bool option) \<Rightarrow> nat \<Rightarrow> nat \<Rightarrow> nat option option" where
  "first_ok p i n =
     (if i < n
      then (case p i of
              None \<Rightarrow> None
            | Some b \<Rightarrow> if b then Some (Some i) else first_ok p (Suc i) n)
      else Some None)"
  by pat_completeness auto
termination
  by (relation "measure (\<lambda>(p, i, n). n - i)") auto

declare first_ok.simps [simp del]

lemma first_ok_eq_find:
  assumes "\<And>j. i \<le> j \<Longrightarrow> j < n \<Longrightarrow> p j = Some (q j)"
  shows "first_ok p i n = Some (find q [i..<n])"
  using assms
proof (induction p i n rule: first_ok.induct)
  case (1 p i n)
  show ?case
  proof (cases "i < n")
    case True
    with 1 have "q i \<or> first_ok p (Suc i) n = Some (find q [Suc i..<n])" by auto
    with True 1(2) [of i] show ?thesis
      by (auto simp: first_ok.simps [of p i n] upt_conv_Cons)
  next
    case False
    then show ?thesis by (simp add: first_ok.simps [of p i n])
  qed
qed

lemma find_upt_Some:
  "find q [i..<n] = Some k \<longleftrightarrow> i \<le> k \<and> k < n \<and> q k \<and> (\<forall>j. i \<le> j \<and> j < k \<longrightarrow> \<not> q j)"
proof (induction "n - i" arbitrary: i)
  case 0
  then show ?case by auto
next
  case (Suc d)
  then have "i < n" by simp
  with Suc(1) [of "Suc i"] Suc(2) show ?case
    by (auto simp: upt_conv_Cons) (metis Suc_leI le_neq_implies_less)+
qed

lemma find_upt_None: "find q [i..<n] = None \<longleftrightarrow> (\<forall>j. i \<le> j \<and> j < n \<longrightarrow> \<not> q j)"
  by (auto simp: find_None_iff)

text \<open>One step of a loop that touches the indices from \<open>i\<close> up to (excluding) \<open>n\<close>.\<close>

lemma range_step: "i < n \<Longrightarrow> (j = i \<or> Suc i \<le> j \<and> j < n) \<longleftrightarrow> i \<le> j \<and> j < n"
  by auto

lemma range_join:
  "(a::nat) \<le> c \<Longrightarrow> c \<le> b \<Longrightarrow> b \<le> d \<Longrightarrow> (a \<le> j \<and> j < b \<or> c \<le> j \<and> j < d) \<longleftrightarrow> a \<le> j \<and> j < d"
  by auto

subsection \<open>Bounds of machine words\<close>

lemma unat_lt: "unat (w :: 'a::len word) < 2 ^ LENGTH('a)"
  by (rule unsigned_less)

lemma unat_u32_lt [simp]: "unat (w :: u32) < 4294967296"
  using unat_lt [of w] by simp

lemma unat_plus1: "Suc (unat (w :: 'a::len word)) < 2 ^ LENGTH('a) \<Longrightarrow> unat (w + 1) = Suc (unat w)"
  by (simp add: unat_word_ariths)

lemma unat_u8_lt [simp]: "unat (w :: u8) < 256"
  using unat_lt [of w] by simp

subsection \<open>Bits of a byte\<close>

text \<open>
  The idioms \<open>b & (1 << k)\<close>, \<open>b |= 1 << k\<close> and \<open>b &= ~(1 << k)\<close>, for words of any width.
\<close>

definition bit_test :: "'a::len word \<Rightarrow> nat \<Rightarrow> bool" where
  "bit_test b k \<longleftrightarrow> b AND push_bit k 1 \<noteq> 0"

definition bit_on :: "'a::len word \<Rightarrow> nat \<Rightarrow> 'a word" where
  "bit_on b k = b OR push_bit k 1"

definition bit_off :: "'a::len word \<Rightarrow> nat \<Rightarrow> 'a word" where
  "bit_off b k = b AND NOT (push_bit k 1)"

lemma bit_test_bit [byte_simps]: "bit_test (b :: 'a::len word) k \<longleftrightarrow> bit b k"
proof
  assume "bit_test b k"
  then obtain j where "bit (b AND push_bit k 1) j"
    by (auto simp: bit_test_def bit_eq_iff)
  then show "bit b k" by (auto simp: bit_simps)
next
  assume "bit b k"
  then have "bit (b AND push_bit k 1) k"
    by (auto simp: bit_simps bit_imp_le_length)
  then show "bit_test b k" by (auto simp: bit_test_def)
qed

lemma bit_bit_on [byte_simps]:
  "bit (bit_on (b :: 'a::len word) k) j \<longleftrightarrow> bit b j \<or> (j = k \<and> j < LENGTH('a))"
  by (auto simp: bit_on_def bit_simps)

lemma bit_bit_off [byte_simps]:
  "bit (bit_off (b :: 'a::len word) k) j \<longleftrightarrow> bit b j \<and> j \<noteq> k"
  by (auto simp: bit_off_def bit_simps bit_imp_le_length)

subsection \<open>Bitmaps kept in arrays of bytes\<close>

definition bm_test :: "u8 list \<Rightarrow> nat \<Rightarrow> bool option" where
  "bm_test bm i = (if i div 8 < length bm then Some (bit_test (bm ! (i div 8)) (i mod 8)) else None)"

definition bm_on :: "u8 list \<Rightarrow> nat \<Rightarrow> u8 list option" where
  "bm_on bm i = (if i div 8 < length bm
     then Some (bm[i div 8 := bit_on (bm ! (i div 8)) (i mod 8)]) else None)"

definition bm_off :: "u8 list \<Rightarrow> nat \<Rightarrow> u8 list option" where
  "bm_off bm i = (if i div 8 < length bm
     then Some (bm[i div 8 := bit_off (bm ! (i div 8)) (i mod 8)]) else None)"

text \<open>The abstraction: which bit is set, as a predicate on indices.\<close>

definition bm_has :: "u8 list \<Rightarrow> nat \<Rightarrow> bool" where
  "bm_has bm i \<longleftrightarrow> i div 8 < length bm \<and> bit (bm ! (i div 8)) (i mod 8)"

lemma bm_test_in: "i < 8 * length bm \<Longrightarrow> bm_test bm i = Some (bm_has bm i)"
  by (simp add: bm_test_def bm_has_def bit_test_bit less_mult_imp_div_less mult.commute)

lemma bm_on_in:
  assumes "i < 8 * length bm"
  shows "\<exists>bm'. bm_on bm i = Some bm' \<and> length bm' = length bm \<and>
    (\<forall>j. bm_has bm' j \<longleftrightarrow> bm_has bm j \<or> j = i)"
proof -
  from assms have d: "i div 8 < length bm"
    by (simp add: less_mult_imp_div_less mult.commute)
  have "bm_has (bm[i div 8 := bit_on (bm ! (i div 8)) (i mod 8)]) j \<longleftrightarrow> bm_has bm j \<or> j = i" for j
  proof (cases "j div 8 = i div 8")
    case True
    then have "j = i \<longleftrightarrow> j mod 8 = i mod 8"
      by (metis div_mult_mod_eq)
    with True d show ?thesis by (auto simp: bm_has_def bit_bit_on)
  next
    case False
    with d show ?thesis by (auto simp: bm_has_def)
  qed
  with d show ?thesis by (simp add: bm_on_def)
qed

lemma bm_off_in:
  assumes "i < 8 * length bm"
  shows "\<exists>bm'. bm_off bm i = Some bm' \<and> length bm' = length bm \<and>
    (\<forall>j. bm_has bm' j \<longleftrightarrow> bm_has bm j \<and> j \<noteq> i)"
proof -
  from assms have d: "i div 8 < length bm"
    by (simp add: less_mult_imp_div_less mult.commute)
  have "bm_has (bm[i div 8 := bit_off (bm ! (i div 8)) (i mod 8)]) j \<longleftrightarrow> bm_has bm j \<and> j \<noteq> i" for j
  proof (cases "j div 8 = i div 8")
    case True
    then have "j = i \<longleftrightarrow> j mod 8 = i mod 8"
      by (metis div_mult_mod_eq)
    with True d show ?thesis by (auto simp: bm_has_def bit_bit_off)
  next
    case False
    with d show ?thesis by (auto simp: bm_has_def)
  qed
  with d show ?thesis by (simp add: bm_off_def)
qed

lemma bm_on_E:
  assumes "bm_on bm i = Some bm'"
  shows "length bm' = length bm \<and> i < 8 * length bm \<and> (\<forall>j. bm_has bm' j \<longleftrightarrow> bm_has bm j \<or> j = i)"
proof -
  from assms have "i div 8 < length bm" by (auto simp: bm_on_def split: if_splits)
  then have "i < 8 * length bm" by (simp add: div_less_iff_less_mult mult.commute)
  with bm_on_in [OF this] assms show ?thesis by auto
qed

lemma bm_off_E:
  assumes "bm_off bm i = Some bm'"
  shows "length bm' = length bm \<and> i < 8 * length bm \<and> (\<forall>j. bm_has bm' j \<longleftrightarrow> bm_has bm j \<and> j \<noteq> i)"
proof -
  from assms have "i div 8 < length bm" by (auto simp: bm_off_def split: if_splits)
  then have "i < 8 * length bm" by (simp add: div_less_iff_less_mult mult.commute)
  with bm_off_in [OF this] assms show ?thesis by auto
qed

lemma bm_has_zero [simp]: "\<not> bm_has (replicate n 0) i"
  by (auto simp: bm_has_def)


subsection \<open>Checked array accesses and checked arithmetic\<close>

definition rd :: "'a list \<Rightarrow> nat \<Rightarrow> 'a option" where
  "rd xs i = (if i < length xs then Some (xs ! i) else None)"

definition wr :: "'a list \<Rightarrow> nat \<Rightarrow> 'a \<Rightarrow> 'a list option" where
  "wr xs i x = (if i < length xs then Some (xs[i := x]) else None)"

lemma rd_in [simp]: "i < length xs \<Longrightarrow> rd xs i = Some (xs ! i)"
  by (simp add: rd_def)

lemma rd_out [simp]: "length xs \<le> i \<Longrightarrow> rd xs i = None"
  by (simp add: rd_def)

lemma wr_in [simp]: "i < length xs \<Longrightarrow> wr xs i x = Some (xs[i := x])"
  by (simp add: wr_def)

lemma wr_out [simp]: "length xs \<le> i \<Longrightarrow> wr xs i x = None"
  by (simp add: wr_def)

lemma wr_Some: "wr xs i x = Some ys \<longleftrightarrow> i < length xs \<and> ys = xs[i := x]"
  by (auto simp: wr_def)

lemma rd_Some: "rd xs i = Some y \<longleftrightarrow> i < length xs \<and> y = xs ! i"
  by (auto simp: rd_def)

text \<open>A signed 32-bit result: overflow is undefined in C.\<close>

definition int32 :: "int \<Rightarrow> int option" where
  "int32 n = (if -(2 ^ 31) \<le> n \<and> n < 2 ^ 31 then Some n else None)"

lemma int32_in [simp]: "-(2 ^ 31) \<le> n \<Longrightarrow> n < 2 ^ 31 \<Longrightarrow> int32 n = Some n"
  by (simp add: int32_def)

abbreviation NUL :: char where "NUL \<equiv> CHR 0x00"


lemma sint_u32: "sint (w :: u32) = (if unat w < 2 ^ 31 then int (unat w) else int (unat w) - 2 ^ 32)"
proof -
  define n where "n = unat w"
  have lt: "n < 2 ^ 32" unfolding n_def using unsigned_less [of w, where 'a = nat] by simp
  let ?k = "if n < 2 ^ 31 then int n else int n - 2 ^ 32"
  have w: "w = of_int ?k" by (simp add: n_def)
  have "sint w = signed_take_bit 31 ?k" by (subst w) (simp only: signed_of_int, simp)
  also have "\<dots> = ?k" using lt by (intro signed_take_bit_int_eq_self) auto
  finally show ?thesis unfolding n_def .
qed

text \<open>Case analysis on a 32-bit word read as a signed number.\<close>

lemma sint_u32_cases:
  fixes w :: u32
  obtains (nonneg) n where "unat w = n" "n < 2 ^ 31" "sint w = int n"
  | (neg) n where "unat w = n" "2 ^ 31 \<le> n" "n < 2 ^ 32" "sint w = int n - 2 ^ 32"
proof (cases "unat w < 2 ^ 31")
  case True
  then show ?thesis using nonneg [OF refl True] sint_u32 [of w] by presburger
next
  case False
  have "unat w < 2 ^ 32" using unsigned_less [of w, where 'a = nat] by simp
  with False show ?thesis using neg [OF refl] sint_u32 [of w] by simp
qed

lemma sint_u32_bounds: "- (2 ^ 31) \<le> sint (w :: u32)" "sint w < 2 ^ 31"
  by (cases w rule: sint_u32_cases; simp)+

lemma sint_u32_mod: "nat (sint (w :: u32) mod 2 ^ 32) = unat w"
proof (cases w rule: sint_u32_cases)
  case (nonneg n)
  then show ?thesis by simp
next
  case (neg n)
  then have "sint w mod 2 ^ 32 = int n mod 2 ^ 32" by simp
  with neg show ?thesis by simp
qed

lemma sint_u32_nonneg: "0 \<le> sint (w :: u32) \<Longrightarrow> unat w < 2 ^ 31 \<and> sint w = int (unat w)"
  by (cases w rule: sint_u32_cases; simp)

subsection \<open>Linked structures\<close>

text \<open>
  A linked list in a store of nodes: \<open>chain st nxt p xs\<close> says that following \<open>nxt\<close> from \<open>p\<close>
  visits exactly the addresses \<open>xs\<close> and ends at NULL.
\<close>

primrec chain :: "(u32 \<Rightarrow> 'n option) \<Rightarrow> ('n \<Rightarrow> u32) \<Rightarrow> u32 \<Rightarrow> u32 list \<Rightarrow> bool" where
  "chain st nxt p [] \<longleftrightarrow> p = 0"
| "chain st nxt p (x # xs) \<longleftrightarrow>
     p = x \<and> x \<noteq> 0 \<and> (case st x of None \<Rightarrow> False | Some n \<Rightarrow> chain st nxt (nxt n) xs)"

lemma chain_Cons_iff:
  "chain st nxt p (x # xs) \<longleftrightarrow> p = x \<and> x \<noteq> 0 \<and> (\<exists>n. st x = Some n \<and> chain st nxt (nxt n) xs)"
  by (cases "st x") auto

lemma chain_null [simp]: "chain st nxt 0 xs \<longleftrightarrow> xs = []"
  by (cases xs) auto

lemma chain_nonnull: "p \<noteq> 0 \<Longrightarrow> chain st nxt p xs \<longleftrightarrow>
    (\<exists>n ys. xs = p # ys \<and> st p = Some n \<and> chain st nxt (nxt n) ys)"
  by (cases xs) (auto simp: chain_Cons_iff simp del: chain.simps(2))

lemma chain_other [simp]: "x \<notin> set xs \<Longrightarrow> chain (st(x \<mapsto> n)) nxt p xs = chain st nxt p xs"
  by (induction xs arbitrary: p) (auto split: option.splits)

lemma chain_unique: "chain st nxt p xs \<Longrightarrow> chain st nxt p ys \<Longrightarrow> xs = ys"
proof (induction xs arbitrary: p ys)
  case (Cons x xs)
  then show ?case by (cases ys) (auto split: option.splits)
qed simp

lemma chain_append: "chain st nxt p (xs @ ys) \<Longrightarrow> \<exists>q. chain st nxt q ys"
  by (induction xs arbitrary: p) (auto split: option.splits)

lemma chain_distinct: "chain st nxt p xs \<Longrightarrow> distinct xs"
proof (induction xs arbitrary: p)
  case (Cons x xs)
  then obtain n where n: "st x = Some n" "chain st nxt (nxt n) xs" "p = x" by (auto split: option.splits)
  have "x \<notin> set xs"
  proof
    assume "x \<in> set xs"
    then obtain as bs where xs: "xs = as @ x # bs" by (meson split_list)
    with n(2) obtain q where q: "chain st nxt q (x # bs)" using chain_append by blast
    then have "q = x" by simp
    with q Cons.prems n(3) have "x # bs = x # xs" using chain_unique by blast
    with xs show False by simp
  qed
  with Cons.IH [OF n(2)] show ?case by simp
qed simp

lemma chain_in_store: "chain st nxt p xs \<Longrightarrow> x \<in> set xs \<Longrightarrow> x \<noteq> 0 \<and> st x \<noteq> None"
  by (induction xs arbitrary: p) (auto split: option.splits)

subsection \<open>Counting loops\<close>

text \<open>\<open>for (; i < n; i++)\<close> over a state, where a step may leave an array.\<close>

function for_up :: "nat \<Rightarrow> nat \<Rightarrow> (nat \<Rightarrow> 's \<Rightarrow> 's option) \<Rightarrow> 's \<Rightarrow> 's option" where
  "for_up i n f s = (if i < n then do { s' \<leftarrow> f i s; for_up (Suc i) n f s' } else Some s)"
  by pat_completeness auto
termination
  by (relation "measure (\<lambda>(i, n, f, s). n - i)") auto

declare for_up.simps [simp del]

lemma for_up_rule:
  assumes "I i s" and "i \<le> n"
    and step: "\<And>j t. j < n \<Longrightarrow> I j t \<Longrightarrow> \<exists>t'. f j t = Some t' \<and> I (Suc j) t'"
  shows "\<exists>s'. for_up i n f s = Some s' \<and> I n s'"
  using assms(1,2)
proof (induction "n - i" arbitrary: i s)
  case 0
  then show ?case by (subst for_up.simps) simp
next
  case (Suc k)
  then have lt: "i < n" by simp
  obtain s1 where s1: "f i s = Some s1" "I (Suc i) s1" using Suc.prems lt step by blast
  have "\<exists>s'. for_up (Suc i) n f s1 = Some s' \<and> I n s'"
    using Suc.hyps lt s1(2) by (intro Suc.hyps(1)) auto
  with s1(1) lt show ?case by (subst for_up.simps) simp
qed

lemma for_up_stuck:
  assumes "i \<le> k" and "k < n" and "\<And>t. f k t = None"
  shows "for_up i n f s = None"
  using assms(1,2)
proof (induction "k - i" arbitrary: i s)
  case 0
  then show ?case using assms(3) by (subst for_up.simps) simp
next
  case (Suc j)
  then have "for_up (Suc i) n f t = None" for t by (intro Suc.hyps(1)) auto
  then show ?case using Suc.prems by (subst for_up.simps) (cases "f i s"; simp)
qed

text \<open>Copying and filling a stretch of an array.\<close>

lemma copy_list_run:
  assumes "n + k \<le> length m"
  shows "for_up 0 n (\<lambda>i t. do { w \<leftarrow> rd t (i + k); wr t i w }) m = Some (take n (drop k m) @ drop n m)"
proof -
  have "\<exists>t. for_up 0 n (\<lambda>i t. do { w \<leftarrow> rd t (i + k); wr t i w }) m = Some t \<and> t = take n (drop k m) @ drop n m"
  proof (rule for_up_rule [where I = "\<lambda>i t. t = take i (drop k m) @ drop i m"])
    fix j t
    assume j: "j < n" and t: "t = take j (drop k m) @ drop j m"
    have "length (take j (drop k m)) = j" using j assms by simp
    then have "rd t (j + k) = Some (m ! (j + k))" "wr t j c = Some (take j (drop k m) @ c # drop (Suc j) m)" for c
      using j assms by (simp_all add: t nth_append wr_def list_update_append upd_conv_take_nth_drop)
    moreover have "take (Suc j) (drop k m) = take j (drop k m) @ [m ! (j + k)]"
      using j assms by (simp add: take_Suc_conv_app_nth add.commute)
    ultimately show "\<exists>t'. (do { w \<leftarrow> rd t (j + k); wr t j w }) = Some t' \<and> t' = take (Suc j) (drop k m) @ drop (Suc j) m"
      by simp
  qed simp_all
  then show ?thesis by simp
qed

lemma fill_list_run:
  assumes "i \<le> n" and "n \<le> length m"
  shows "for_up i n (\<lambda>i t. wr t i w) m = Some (take i m @ replicate (n - i) w @ drop n m)"
proof -
  have "\<exists>t. for_up i n (\<lambda>i t. wr t i w) m = Some t \<and> (i \<le> n \<and> t = take i m @ replicate (n - i) w @ drop n m)"
  proof (rule for_up_rule [where I = "\<lambda>j t. i \<le> j \<and> t = take i m @ replicate (j - i) w @ drop j m"])
    fix j t
    assume j: "j < n" "i \<le> j \<and> t = take i m @ replicate (j - i) w @ drop j m"
    have "drop j m = m ! j # drop (Suc j) m" using j(1) assms by (simp add: Cons_nth_drop_Suc)
    moreover have "replicate (Suc j - i) w = replicate (j - i) w @ [w]" using j by (simp add: Suc_diff_le replicate_append_same)
    ultimately show "\<exists>t'. wr t j w = Some t' \<and> i \<le> Suc j \<and> t' = take i m @ replicate (Suc j - i) w @ drop (Suc j) m"
      using j assms by (simp add: list_update_append)
  qed (use assms in simp_all)
  then show ?thesis by blast
qed

end
