(* ===== verification/Alloc_Iface.thy ===== *)
theory Alloc_Iface
  imports Prelude
begin

text \<open>
  The interface of a slot allocator: page frames, disk blocks, file descriptors, inodes, alarm
  slots and user records are all handed out by code that searches for a free slot and marks
  it. The client's side (a run of several allocations) is proved here once, from the laws of
  one allocation alone; each component interprets the locale on its own code.
\<close>

text \<open>A client that allocates \<open>n\<close> slots one after another and stops at the first failure.\<close>

fun alloc_many :: "('s \<Rightarrow> (nat \<times> 's) option) \<Rightarrow> nat \<Rightarrow> 's \<Rightarrow> (nat list \<times> 's) option" where
  "alloc_many alloc 0 s = Some ([], s)"
| "alloc_many alloc (Suc n) s =
     (case alloc s of
        None \<Rightarrow> None
      | Some (i, s') \<Rightarrow>
          (case alloc_many alloc n s' of
             None \<Rightarrow> None
           | Some (is, s'') \<Rightarrow> Some (i # is, s'')))"

definition free_slots :: "('s \<Rightarrow> nat \<Rightarrow> bool) \<Rightarrow> ('s \<Rightarrow> nat) \<Rightarrow> 's \<Rightarrow> nat set" where
  "free_slots used cap s = {i. i < cap s \<and> \<not> used s i}"

lemma finite_free_slots [simp]: "finite (free_slots used cap s)"
  by (simp add: free_slots_def)

locale slot_allocator =
  fixes alloc :: "'s \<Rightarrow> (nat \<times> 's) option"
    and used :: "'s \<Rightarrow> nat \<Rightarrow> bool"
    and cap :: "'s \<Rightarrow> nat"
    and ok :: "'s \<Rightarrow> bool"
  assumes alloc_gives: "ok s \<Longrightarrow> alloc s = Some (i, s') \<Longrightarrow>
      i < cap s \<and> \<not> used s i \<and> cap s' = cap s \<and> ok s' \<and> (\<forall>j. used s' j \<longleftrightarrow> used s j \<or> j = i)"
    and alloc_full: "ok s \<Longrightarrow> alloc s = None \<Longrightarrow> (\<forall>i < cap s. used s i)"
begin

lemma alloc_free_slots:
  assumes "ok s" and "alloc s = Some (i, s')"
  shows "i \<in> free_slots used cap s" and "free_slots used cap s' = free_slots used cap s - {i}"
  using alloc_gives [OF assms] by (auto simp: free_slots_def)

lemma alloc_succeeds_iff:
  assumes "ok s"
  shows "alloc s \<noteq> None \<longleftrightarrow> free_slots used cap s \<noteq> {}"
proof
  assume "alloc s \<noteq> None"
  then show "free_slots used cap s \<noteq> {}"
    using alloc_free_slots(1) [OF assms] by (cases "alloc s") auto
next
  assume "free_slots used cap s \<noteq> {}"
  then show "alloc s \<noteq> None"
    using alloc_full [OF assms] by (cases "alloc s") (auto simp: free_slots_def)
qed

lemma alloc_many_spec:
  assumes "ok s" and "alloc_many alloc n s = Some (is, s')"
  shows "length is = n \<and> distinct is \<and> set is \<subseteq> free_slots used cap s \<and> ok s' \<and> cap s' = cap s \<and>
    (\<forall>j. used s' j \<longleftrightarrow> used s j \<or> j \<in> set is)"
  using assms
proof (induction n arbitrary: s "is")
  case 0
  then show ?case by simp
next
  case (Suc n)
  then obtain i t js where a: "alloc s = Some (i, t)"
    and m: "alloc_many alloc n t = Some (js, s')" and "is": "is = i # js"
    by (auto split: option.splits prod.splits)
  note g = alloc_gives [OF Suc.prems(1) a]
  note f = alloc_free_slots [OF Suc.prems(1) a]
  from g have "ok t" by simp
  note ih = Suc.IH [OF this m]
  from ih f have "set js \<subseteq> free_slots used cap s - {i}" by simp
  moreover have "used s' j \<longleftrightarrow> used s j \<or> j \<in> set is" for j
    using ih g by (auto simp: "is")
  ultimately show ?case using ih f(1) g by (auto simp: "is")
qed

lemma alloc_many_succeeds_iff:
  assumes "ok s"
  shows "alloc_many alloc n s \<noteq> None \<longleftrightarrow> n \<le> card (free_slots used cap s)"
  using assms
proof (induction n arbitrary: s)
  case 0
  then show ?case by simp
next
  case (Suc n)
  show ?case
  proof (cases "alloc s")
    case None
    with alloc_succeeds_iff [OF Suc.prems] show ?thesis by simp
  next
    case (Some p)
    then obtain i t where a: "alloc s = Some (i, t)" by (cases p) auto
    note f = alloc_free_slots [OF Suc.prems a]
    have "ok t" using alloc_gives [OF Suc.prems a] by simp
    then have "alloc_many alloc n t \<noteq> None \<longleftrightarrow> n \<le> card (free_slots used cap t)"
      by (rule Suc.IH)
    moreover have "card (free_slots used cap s) = Suc (card (free_slots used cap t))"
      unfolding f(2) by (rule card.remove [OF finite_free_slots f(1)])
    ultimately show ?thesis using a by (auto split: option.splits)
  qed
qed

end

end
