(* ===== verification/PhysMem.thy ===== *)
theory PhysMem
  imports Alloc_Iface
begin

text \<open>
  The physical page frame allocators: \<open>arch/common/memory.c\<close> (the universal manager \<open>mm\<close>
  with its usage and protection bitmaps, \<open>kmalloc\<close>), \<open>kernel/mm/pmm.c\<close> (the single-frame
  allocator over the same bitmaps). The pointers \<open>mm.bitmap\<close> and
  \<open>mm.protection_bitmap\<close> are the arrays they point to; before initialisation they are NULL,
  for which the empty list stands (every access is then out of bounds).
\<close>

record mm_state =
  bitmap :: "u8 list"
  protection_bitmap :: "u8 list"
  total_memory :: u32
  total_pages :: u32
  bitmap_size :: u32
  next_free :: u32
  initialized :: bool
  phys_limit_start :: u32
  kaslr_enabled :: bool
  kaslr_slide :: u32

definition BITMAP_SIZE :: nat where "BITMAP_SIZE = 8192"

definition PAGE_SIZE :: u32 where "PAGE_SIZE = 4096"

definition KERNEL_START :: u32 where "KERNEL_START = 0x100000"

definition mm_boot :: mm_state where
  "mm_boot = \<lparr>bitmap = [], protection_bitmap = [], total_memory = 0, total_pages = 0,
     bitmap_size = 0, next_free = 0, initialized = False, phys_limit_start = 0,
     kaslr_enabled = False, kaslr_slide = 0\<rparr>"

subsection \<open>Bit helpers\<close>

definition mm_set_bit :: "nat \<Rightarrow> bool \<Rightarrow> mm_state \<Rightarrow> mm_state option" where
  "mm_set_bit i value mm =
     do { bm \<leftarrow> (if value then bm_on (bitmap mm) i else bm_off (bitmap mm) i);
          Some (mm\<lparr>bitmap := bm\<rparr>) }"

definition mm_get_bit :: "nat \<Rightarrow> mm_state \<Rightarrow> bool option" where
  "mm_get_bit i mm =
     (if i div 8 < length (bitmap mm)
      then Some ((drop_bit (i mod 8) (bitmap mm ! (i div 8))) AND 1 \<noteq> 0) else None)"

definition mm_set_protected :: "nat \<Rightarrow> bool \<Rightarrow> mm_state \<Rightarrow> mm_state option" where
  "mm_set_protected i value mm =
     do { bm \<leftarrow> (if value then bm_on (protection_bitmap mm) i else bm_off (protection_bitmap mm) i);
          Some (mm\<lparr>protection_bitmap := bm\<rparr>) }"

definition mm_get_protected :: "nat \<Rightarrow> mm_state \<Rightarrow> bool option" where
  "mm_get_protected i mm =
     (if i div 8 < length (protection_bitmap mm)
      then Some ((drop_bit (i mod 8) (protection_bitmap mm ! (i div 8))) AND 1 \<noteq> 0) else None)"

definition page_available :: "nat \<Rightarrow> mm_state \<Rightarrow> bool option" where
  "page_available i mm =
     do { b \<leftarrow> mm_get_bit i mm;
          if b then Some False else do { p \<leftarrow> mm_get_protected i mm; Some (\<not> p) } }"

definition mm_is_page_protected :: "nat \<Rightarrow> mm_state \<Rightarrow> bool option" where
  "mm_is_page_protected i mm = mm_get_protected i mm"

definition mm_is_kaslr_enabled :: "mm_state \<Rightarrow> bool" where
  "mm_is_kaslr_enabled mm = kaslr_enabled mm"

definition mm_get_kernel_slide :: "mm_state \<Rightarrow> u32" where
  "mm_get_kernel_slide mm = kaslr_slide mm"

subsection \<open>Initialisation and region protection\<close>

text \<open>The loop that marks the pages \<open>i\<close> up to (excluding) \<open>n\<close> used and protected.\<close>

function mark_range :: "nat \<Rightarrow> nat \<Rightarrow> mm_state \<Rightarrow> mm_state option" where
  "mark_range i n mm =
     (if i < n
      then do { mm1 \<leftarrow> mm_set_bit i True mm;
                mm2 \<leftarrow> mm_set_protected i True mm1;
                mark_range (Suc i) n mm2 }
      else Some mm)"
  by pat_completeness auto
termination
  by (relation "measure (\<lambda>(i, n, mm). n - i)") auto

declare mark_range.simps [simp del]

definition mm_protect_region :: "u32 \<Rightarrow> u32 \<Rightarrow> mm_state \<Rightarrow> mm_state option" where
  "mm_protect_region base sz mm =
     (if \<not> initialized mm \<or> sz = 0 then Some mm
      else
        (let base' = (if base < phys_limit_start mm then phys_limit_start mm else base);
             start_bit = (base' - phys_limit_start mm) div PAGE_SIZE;
             end_bit = ((base' + sz + PAGE_SIZE - 1) - phys_limit_start mm) div PAGE_SIZE
         in mark_range (unat start_bit) (unat end_bit) mm))"

text \<open>\<open>k_start\<close> and \<open>k_end\<close> are the linker symbols \<open>_kernel_start\<close> and \<open>_kernel_end\<close>.\<close>

definition mm_init_universal :: "u32 \<Rightarrow> u32 \<Rightarrow> u32 \<Rightarrow> u64 \<Rightarrow> mm_state \<Rightarrow> mm_state option" where
  "mm_init_universal k_start k_end ram_start ram_size mm =
     (if initialized mm then Some mm
      else
        (let pages = (ucast (ram_size div 4096) :: u32);
             mm1 = mm\<lparr>total_memory := ucast ram_size,
                      total_pages := pages,
                      bitmap := replicate BITMAP_SIZE 0,
                      protection_bitmap := replicate BITMAP_SIZE 0,
                      bitmap_size := (pages + 7) div 8,
                      phys_limit_start := ram_start,
                      kaslr_slide := k_start - KERNEL_START,
                      kaslr_enabled := (k_start - KERNEL_START \<noteq> 0)\<rparr>;
             start_page = (k_start - ram_start) div PAGE_SIZE;
             end_page = (k_end - ram_start + PAGE_SIZE - 1) div PAGE_SIZE
         in do { mm2 \<leftarrow> mark_range (unat start_page) (unat end_page) mm1;
                 mm_protect_region k_end PAGE_SIZE (mm2\<lparr>initialized := True\<rparr>) }))"

record multiboot_info =
  mbi_flags :: u32
  mbi_mem_upper :: u32

definition mm_init :: "u32 \<Rightarrow> u32 \<Rightarrow> multiboot_info \<Rightarrow> mm_state \<Rightarrow> mm_state option" where
  "mm_init k_start k_end mbi mm =
     (if mbi_flags mbi AND 1 = 0 then Some mm
      else mm_init_universal k_start k_end 0x100000 (ucast (mbi_mem_upper mbi) * 1024) mm)"

definition mm_get_total :: "mm_state \<Rightarrow> u32" where
  "mm_get_total mm = (if \<not> initialized mm then 0 else total_memory mm)"

function count_free :: "nat \<Rightarrow> nat \<Rightarrow> u32 \<Rightarrow> mm_state \<Rightarrow> u32 option" where
  "count_free i n free_pages mm =
     (if i < n
      then do { b \<leftarrow> mm_get_bit i mm;
                count_free (Suc i) n (if b then free_pages else free_pages + 1) mm }
      else Some free_pages)"
  by pat_completeness auto
termination
  by (relation "measure (\<lambda>(i, n, f, mm). n - i)") auto

declare count_free.simps [simp del]

definition mm_get_free_memory :: "mm_state \<Rightarrow> u64 option" where
  "mm_get_free_memory mm =
     (if \<not> initialized mm then Some 0
      else do { f \<leftarrow> count_free 0 (unat (total_pages mm)) 0 mm; Some (ucast f * 4096) })"

subsection \<open>First-fit allocation of page runs: kmalloc\<close>

text \<open>
  The scanning loop: \<open>Some (Some s)\<close> is the jump to \<open>found\<close> with \<open>start_page = s\<close>, \<open>Some None\<close>
  the fall through to the out-of-memory return.
\<close>

function kmalloc_scan :: "nat \<Rightarrow> nat \<Rightarrow> nat \<Rightarrow> nat \<Rightarrow> mm_state \<Rightarrow> nat option option" where
  "kmalloc_scan i n consecutive pages_needed mm =
     (if i < n
      then do { av \<leftarrow> page_available i mm;
                if av
                then (if Suc consecutive = pages_needed
                      then Some (Some (Suc i - pages_needed))
                      else kmalloc_scan (Suc i) n (Suc consecutive) pages_needed mm)
                else kmalloc_scan (Suc i) n 0 pages_needed mm }
      else Some None)"
  by pat_completeness auto
termination
  by (relation "measure (\<lambda>(i, n, c, p, mm). n - i)") auto

declare kmalloc_scan.simps [simp del]

function set_bits :: "nat \<Rightarrow> nat \<Rightarrow> nat \<Rightarrow> mm_state \<Rightarrow> mm_state option" where
  "set_bits i n start_page mm =
     (if i < n
      then do { mm1 \<leftarrow> mm_set_bit (start_page + i) True mm; set_bits (Suc i) n start_page mm1 }
      else Some mm)"
  by pat_completeness auto
termination
  by (relation "measure (\<lambda>(i, n, s, mm). n - i)") auto

declare set_bits.simps [simp del]

definition pages_for :: "u32 \<Rightarrow> u32" where
  "pages_for sz = (sz + PAGE_SIZE - 1) div PAGE_SIZE"

text \<open>The pointer returned is a 32-bit address, 0 for NULL.\<close>

definition kmalloc :: "u32 \<Rightarrow> mm_state \<Rightarrow> (u32 \<times> mm_state) option" where
  "kmalloc sz mm =
     (if \<not> initialized mm \<or> sz = 0 then Some (0, mm)
      else
        (let needed = unat (pages_for sz)
         in do { r \<leftarrow> kmalloc_scan (unat (next_free mm)) (unat (total_pages mm)) 0 needed mm;
                 case r of
                   None \<Rightarrow> Some (0, mm)
                 | Some start_page \<Rightarrow>
                     do { mm1 \<leftarrow> set_bits 0 needed start_page mm;
                          Some (of_nat start_page * PAGE_SIZE + phys_limit_start mm,
                                mm1\<lparr>next_free := of_nat start_page + pages_for sz\<rparr>) } }))"

subsection \<open>Single frames: pmm\_alloc\_frame, pmm\_free\_frame\<close>

definition frame_free :: "mm_state \<Rightarrow> nat \<Rightarrow> bool option" where
  "frame_free mm i =
     do { b \<leftarrow> bm_test (bitmap mm) i;
          if b then Some False
          else do { p \<leftarrow> bm_test (protection_bitmap mm) i; Some (\<not> p) } }"

definition take_frame :: "nat \<Rightarrow> mm_state \<Rightarrow> (u32 \<times> mm_state) option" where
  "take_frame i mm =
     do { bm \<leftarrow> bm_on (bitmap mm) i;
          Some (of_nat i * PAGE_SIZE + phys_limit_start mm,
                mm\<lparr>bitmap := bm, next_free := of_nat i + 1\<rparr>) }"

definition pmm_alloc_frame :: "mm_state \<Rightarrow> (u32 \<times> mm_state) option" where
  "pmm_alloc_frame mm =
     (if \<not> initialized mm then Some (0, mm)
      else do { r \<leftarrow> first_ok (frame_free mm) (unat (next_free mm)) (unat (total_pages mm));
                case r of
                  Some i \<Rightarrow> take_frame i mm
                | None \<Rightarrow>
                    do { r2 \<leftarrow> first_ok (frame_free mm) 0 (unat (next_free mm));
                         case r2 of Some i \<Rightarrow> take_frame i mm | None \<Rightarrow> Some (0, mm) } })"

definition pmm_free_frame :: "u32 \<Rightarrow> mm_state \<Rightarrow> mm_state option" where
  "pmm_free_frame phys mm =
     (if phys < phys_limit_start mm then Some mm
      else
        (let frame_index = (phys - phys_limit_start mm) div PAGE_SIZE
         in do { bm \<leftarrow> bm_off (bitmap mm) (unat frame_index);
                 Some (mm\<lparr>bitmap := bm,
                          next_free := (if frame_index < next_free mm then frame_index
                                        else next_free mm)\<rparr>) }))"

subsection \<open>Reading the bitmaps\<close>

definition page_used :: "mm_state \<Rightarrow> nat \<Rightarrow> bool" where
  "page_used mm i \<longleftrightarrow> bm_has (bitmap mm) i"

definition page_locked :: "mm_state \<Rightarrow> nat \<Rightarrow> bool" where
  "page_locked mm i \<longleftrightarrow> bm_has (protection_bitmap mm) i"

definition page_free :: "mm_state \<Rightarrow> nat \<Rightarrow> bool" where
  "page_free mm i \<longleftrightarrow> \<not> page_used mm i \<and> \<not> page_locked mm i"

text \<open>The invariant: both bitmaps cover every managed page, and the hint is within the range.\<close>

definition mm_wf :: "mm_state \<Rightarrow> bool" where
  "mm_wf mm \<longleftrightarrow> length (protection_bitmap mm) = length (bitmap mm) \<and>
     unat (total_pages mm) \<le> 8 * length (bitmap mm) \<and> next_free mm \<le> total_pages mm"

lemma drop_bit_and_1 [byte_simps]: "drop_bit k (b :: 'a::len word) AND 1 \<noteq> 0 \<longleftrightarrow> bit b k"
  by (simp add: and_one_eq bit_iff_odd_drop_bit odd_iff_mod_2_eq_one)

lemma mm_get_bit_eq: "mm_get_bit i mm = bm_test (bitmap mm) i"
  by (simp add: mm_get_bit_def bm_test_def drop_bit_and_1 bit_test_bit)

lemma mm_get_protected_eq: "mm_get_protected i mm = bm_test (protection_bitmap mm) i"
  by (simp add: mm_get_protected_def bm_test_def drop_bit_and_1 bit_test_bit)

lemma page_available_eq: "page_available i mm = frame_free mm i"
  unfolding page_available_def frame_free_def mm_get_bit_eq mm_get_protected_eq ..

lemma frame_free_in:
  "mm_wf mm \<Longrightarrow> i < unat (total_pages mm) \<Longrightarrow> frame_free mm i = Some (page_free mm i)"
  by (simp add: frame_free_def bm_test_in mm_wf_def page_free_def page_used_def page_locked_def)

lemma mm_set_bit_in:
  assumes "i < 8 * length (bitmap mm)"
  shows "\<exists>bm. mm_set_bit i True mm = Some (mm\<lparr>bitmap := bm\<rparr>) \<and> length bm = length (bitmap mm) \<and>
    (\<forall>j. bm_has bm j \<longleftrightarrow> page_used mm j \<or> j = i)"
  using bm_on_in [OF assms] by (auto simp: mm_set_bit_def page_used_def)

lemma mm_set_protected_in:
  assumes "i < 8 * length (protection_bitmap mm)"
  shows "\<exists>bm. mm_set_protected i True mm = Some (mm\<lparr>protection_bitmap := bm\<rparr>) \<and>
    length bm = length (protection_bitmap mm) \<and> (\<forall>j. bm_has bm j \<longleftrightarrow> page_locked mm j \<or> j = i)"
  using bm_on_in [OF assms] by (auto simp: mm_set_protected_def page_locked_def)

subsection \<open>The loops that mark pages\<close>

lemma set_bits_in:
  assumes "start_page + n \<le> 8 * length (bitmap mm)" and "i \<le> n"
  shows "\<exists>bm. set_bits i n start_page mm = Some (mm\<lparr>bitmap := bm\<rparr>) \<and> length bm = length (bitmap mm) \<and>
    (\<forall>j. bm_has bm j \<longleftrightarrow> page_used mm j \<or> start_page + i \<le> j \<and> j < start_page + n)"
  using assms
proof (induction i n start_page mm rule: set_bits.induct)
  case (1 i n start_page mm)
  show ?case
  proof (cases "i < n")
    case False
    then show ?thesis
      by (intro exI [of _ "bitmap mm"]) (auto simp: set_bits.simps [of i n] page_used_def)
  next
    case True
    with "1.prems" have "start_page + i < 8 * length (bitmap mm)" by simp
    from mm_set_bit_in [OF this] obtain b1 where b1:
        "mm_set_bit (start_page + i) True mm = Some (mm\<lparr>bitmap := b1\<rparr>)"
        "length b1 = length (bitmap mm)"
        "\<And>j. bm_has b1 j \<longleftrightarrow> page_used mm j \<or> j = start_page + i" by auto
    from "1.IH" [OF True b1(1)] "1.prems" True b1(2) obtain bm where bm:
        "set_bits (Suc i) n start_page (mm\<lparr>bitmap := b1\<rparr>) = Some (mm\<lparr>bitmap := bm\<rparr>)"
        "length bm = length (bitmap mm)"
        "\<And>j. bm_has bm j \<longleftrightarrow> bm_has b1 j \<or> start_page + Suc i \<le> j \<and> j < start_page + n"
      by (auto simp: page_used_def)
    have "\<forall>j. bm_has bm j \<longleftrightarrow> page_used mm j \<or> start_page + i \<le> j \<and> j < start_page + n"
      using range_step [of "start_page + i" "start_page + n"] True by (simp add: bm(3) b1(3))
    moreover have "set_bits i n start_page mm = Some (mm\<lparr>bitmap := bm\<rparr>)"
      using True b1(1) bm(1) by (simp add: set_bits.simps [of i n])
    ultimately show ?thesis using bm(2) by blast
  qed
qed

lemma mark_range_in:
  assumes "n \<le> 8 * length (bitmap mm)" and "n \<le> 8 * length (protection_bitmap mm)"
  shows "\<exists>bm pm. mark_range i n mm = Some (mm\<lparr>bitmap := bm, protection_bitmap := pm\<rparr>) \<and>
    length bm = length (bitmap mm) \<and> length pm = length (protection_bitmap mm) \<and>
    (\<forall>j. bm_has bm j \<longleftrightarrow> page_used mm j \<or> i \<le> j \<and> j < n) \<and>
    (\<forall>j. bm_has pm j \<longleftrightarrow> page_locked mm j \<or> i \<le> j \<and> j < n)"
  using assms
proof (induction i n mm rule: mark_range.induct)
  case (1 i n mm)
  show ?case
  proof (cases "i < n")
    case False
    then show ?thesis
      by (intro exI [of _ "bitmap mm"] exI [of _ "protection_bitmap mm"])
        (auto simp: mark_range.simps [of i n] page_used_def page_locked_def)
  next
    case True
    with "1.prems" have "i < 8 * length (bitmap mm)" by simp
    from mm_set_bit_in [OF this] obtain b1 where b1:
        "mm_set_bit i True mm = Some (mm\<lparr>bitmap := b1\<rparr>)" "length b1 = length (bitmap mm)"
        "\<And>j. bm_has b1 j \<longleftrightarrow> page_used mm j \<or> j = i" by auto
    from True "1.prems" have "i < 8 * length (protection_bitmap (mm\<lparr>bitmap := b1\<rparr>))" by simp
    from mm_set_protected_in [OF this] obtain p1 where p1:
        "mm_set_protected i True (mm\<lparr>bitmap := b1\<rparr>) =
           Some (mm\<lparr>bitmap := b1, protection_bitmap := p1\<rparr>)"
        "length p1 = length (protection_bitmap mm)"
        "\<And>j. bm_has p1 j \<longleftrightarrow> page_locked mm j \<or> j = i" by (auto simp: page_locked_def)
    from "1.IH" [OF True b1(1) p1(1)] "1.prems" b1(2) p1(2) obtain bm pm where m:
        "mark_range (Suc i) n (mm\<lparr>bitmap := b1, protection_bitmap := p1\<rparr>) =
           Some (mm\<lparr>bitmap := bm, protection_bitmap := pm\<rparr>)"
        "length bm = length (bitmap mm)" "length pm = length (protection_bitmap mm)"
        "\<And>j. bm_has bm j \<longleftrightarrow> bm_has b1 j \<or> Suc i \<le> j \<and> j < n"
        "\<And>j. bm_has pm j \<longleftrightarrow> bm_has p1 j \<or> Suc i \<le> j \<and> j < n"
      by (auto simp: page_used_def page_locked_def)
    have "\<forall>j. bm_has bm j \<longleftrightarrow> page_used mm j \<or> i \<le> j \<and> j < n"
      using range_step [OF True] by (simp add: m(4) b1(3))
    moreover have "\<forall>j. bm_has pm j \<longleftrightarrow> page_locked mm j \<or> i \<le> j \<and> j < n"
      using range_step [OF True] by (simp add: m(5) p1(3))
    moreover have "mark_range i n mm = Some (mm\<lparr>bitmap := bm, protection_bitmap := pm\<rparr>)"
      using True b1(1) p1(1) m(1) by (simp add: mark_range.simps [of i n])
    ultimately show ?thesis using m(2,3) by blast
  qed
qed

subsection \<open>The first-fit scan\<close>

definition free_run :: "mm_state \<Rightarrow> nat \<Rightarrow> nat \<Rightarrow> bool" where
  "free_run mm s n \<longleftrightarrow> (\<forall>k. s \<le> k \<and> k < s + n \<longrightarrow> page_free mm k)"

text \<open>
  The scan's result, as a specification: the lowest run of \<open>need\<close> free pages inside the
  range, or the fact that there is none.
\<close>

definition first_fit :: "mm_state \<Rightarrow> nat \<Rightarrow> nat \<Rightarrow> nat \<Rightarrow> nat option \<Rightarrow> bool" where
  "first_fit mm lo n need r \<longleftrightarrow>
     (case r of
        Some s \<Rightarrow> lo \<le> s \<and> s + need \<le> n \<and> free_run mm s need \<and>
                  (\<forall>t. lo \<le> t \<and> t < s \<longrightarrow> \<not> free_run mm t need)
      | None \<Rightarrow> (\<forall>t. lo \<le> t \<and> t + need \<le> n \<longrightarrow> \<not> free_run mm t need))"

lemma free_run_blocked: "\<not> page_free mm k \<Longrightarrow> t \<le> k \<Longrightarrow> k < t + need \<Longrightarrow> \<not> free_run mm t need"
  by (auto simp: free_run_def)

lemma kmalloc_scan_spec:
  assumes "mm_wf mm" and "n \<le> unat (total_pages mm)" and "c < need" and "lo + c \<le> i" and "i \<le> n"
    and "\<And>k. i - c \<le> k \<Longrightarrow> k < i \<Longrightarrow> page_free mm k"
    and "\<And>t. lo \<le> t \<Longrightarrow> t < i - c \<Longrightarrow> \<not> free_run mm t need"
  shows "\<exists>r. kmalloc_scan i n c need mm = Some r \<and> first_fit mm lo n need r"
  using assms
proof (induction i n c need mm rule: kmalloc_scan.induct)
  case (1 i n c need mm)
  show ?case
  proof (cases "i < n")
    case False
    have "\<not> free_run mm t need" if "lo \<le> t" "t + need \<le> n" for t
      using "1.prems"(3-5,7) that False by auto
    with False show ?thesis
      by (auto simp: kmalloc_scan.simps [of i n] first_fit_def)
  next
    case True
    with "1.prems" have av: "page_available i mm = Some (page_free mm i)"
      by (simp add: page_available_eq frame_free_in)
    show ?thesis
    proof (cases "page_free mm i")
      case free: True
      show ?thesis
      proof (cases "Suc c = need")
        case fin: True
        have "free_run mm (i - c) need"
          using "1.prems"(4,6) free fin by (auto simp: free_run_def le_less_Suc_eq)
            (metis less_Suc_eq)
        with True av free fin "1.prems"(4,7) show ?thesis
          by (auto simp: kmalloc_scan.simps [of i n] first_fit_def)
      next
        case more: False
        have "\<exists>r. kmalloc_scan (Suc i) n (Suc c) need mm = Some r \<and> first_fit mm lo n need r"
          by (rule "1.IH"(1) [OF True av free more])
            (use "1.prems" free more True in \<open>auto simp: less_Suc_eq\<close>)
        with True av free more show ?thesis by (simp add: kmalloc_scan.simps [of i n])
      qed
    next
      case taken: False
      have "\<not> free_run mm t need" if "lo \<le> t" "t < Suc i" for t
        using "1.prems"(3,4,7) that free_run_blocked [OF taken, of t need] by (cases "t < i - c") auto
      then have "\<exists>r. kmalloc_scan (Suc i) n 0 need mm = Some r \<and> first_fit mm lo n need r"
        by (intro "1.IH"(2) [OF True av taken]) (use "1.prems" True in auto)
      with True av taken show ?thesis by (simp add: kmalloc_scan.simps [of i n])
    qed
  qed
qed

lemma unat_of_nat_add:
  assumes "s + unat (w :: u32) \<le> unat (b :: u32)"
  shows "unat (of_nat s + w) = s + unat w"
proof -
  from assms unat_u32_lt [of b] have "s + unat w < 4294967296" by (rule le_less_trans)
  then show ?thesis by (simp add: unat_word_ariths unat_of_nat take_bit_eq_mod)
qed

lemma of_nat_add_le: "s + unat (w :: u32) \<le> unat (b :: u32) \<Longrightarrow> of_nat s + w \<le> b"
  by (simp add: word_le_nat_alt unat_of_nat_add)

lemma kmalloc_scan_zero:
  assumes "mm_wf mm" and "n \<le> unat (total_pages mm)"
  shows "kmalloc_scan i n c 0 mm = Some None"
  using assms
proof (induction i n c "0::nat" mm rule: kmalloc_scan.induct)
  case (1 i n c mm)
  show ?case
  proof (cases "i < n")
    case True
    with "1.prems" have "page_available i mm = Some (page_free mm i)"
      by (simp add: page_available_eq frame_free_in)
    with True 1 show ?thesis by (cases "page_free mm i") (auto simp: kmalloc_scan.simps [of i n])
  qed (simp add: kmalloc_scan.simps [of i n])
qed

text \<open>What \<open>kmalloc\<close> does, on every input of an initialised manager.\<close>

definition kmalloc_effect :: "nat \<Rightarrow> nat option \<Rightarrow> mm_state \<Rightarrow> u32 \<Rightarrow> mm_state \<Rightarrow> bool" where
  "kmalloc_effect need r mm p mm' \<longleftrightarrow>
     (case r of
        None \<Rightarrow> p = 0 \<and> mm' = mm
      | Some s \<Rightarrow>
          p = of_nat s * PAGE_SIZE + phys_limit_start mm \<and>
          (\<exists>bm. mm' = mm\<lparr>bitmap := bm, next_free := of_nat (s + need)\<rparr> \<and>
                length bm = length (bitmap mm) \<and>
                (\<forall>j. bm_has bm j \<longleftrightarrow> page_used mm j \<or> s \<le> j \<and> j < s + need)))"

lemma kmalloc_found:
  assumes wf: "mm_wf mm" and "initialized mm" and "sz \<noteq> 0" and need: "pages_for sz \<noteq> 0"
  shows "\<exists>r p mm'. kmalloc sz mm = Some (p, mm') \<and>
    first_fit mm (unat (next_free mm)) (unat (total_pages mm)) (unat (pages_for sz)) r \<and>
    kmalloc_effect (unat (pages_for sz)) r mm p mm'"
proof -
  let ?need = "unat (pages_for sz)" and ?lo = "unat (next_free mm)" and ?n = "unat (total_pages mm)"
  have "0 < ?need" using need by (simp add: unat_gt_0)
  moreover have "?lo \<le> ?n" using wf by (simp add: mm_wf_def word_le_nat_alt)
  ultimately obtain r where r: "kmalloc_scan ?lo ?n 0 ?need mm = Some r"
      and fit: "first_fit mm ?lo ?n ?need r"
    using kmalloc_scan_spec [OF wf order_refl, of 0 ?need ?lo ?lo] by auto
  show ?thesis
  proof (cases r)
    case None
    with r fit assms show ?thesis
      by (intro exI [of _ None]) (simp add: kmalloc_def kmalloc_effect_def)
  next
    case (Some s)
    with fit have "s + ?need \<le> ?n" by (simp add: first_fit_def)
    with wf have "s + ?need \<le> 8 * length (bitmap mm)" by (simp add: mm_wf_def)
    from set_bits_in [OF this, of 0] obtain bm where bm:
        "set_bits 0 ?need s mm = Some (mm\<lparr>bitmap := bm\<rparr>)" "length bm = length (bitmap mm)"
        "\<forall>j. bm_has bm j \<longleftrightarrow> page_used mm j \<or> s \<le> j \<and> j < s + ?need" by auto
    have "of_nat (s + ?need) = of_nat s + pages_for sz" by simp
    with r Some fit assms bm show ?thesis
      by (intro exI [of _ r]) (auto simp: kmalloc_def kmalloc_effect_def)
  qed
qed

lemma kmalloc_too_big:
  assumes "mm_wf mm" and "pages_for sz = 0"
  shows "kmalloc sz mm = Some (0, mm)"
  using kmalloc_scan_zero [OF assms(1) order_refl] assms(2) by (simp add: kmalloc_def)

lemma kmalloc_effect_wf:
  assumes "mm_wf mm" and "first_fit mm lo (unat (total_pages mm)) need r"
    and "kmalloc_effect need r mm p mm'"
  shows "mm_wf mm'"
proof (cases r)
  case (Some s)
  with assms(2) have "s + need \<le> unat (total_pages mm)" by (simp add: first_fit_def)
  moreover from this have "(of_nat (s + need) :: u32) \<le> total_pages mm"
    using of_nat_add_le [of "s + need" 0 "total_pages mm"] by simp
  ultimately show ?thesis using assms Some by (auto simp: mm_wf_def kmalloc_effect_def)
qed (use assms in \<open>simp add: kmalloc_effect_def\<close>)

lemma kmalloc_total:
  assumes "mm_wf mm"
  shows "\<exists>p mm'. kmalloc sz mm = Some (p, mm') \<and> mm_wf mm'"
proof (cases "initialized mm \<and> sz \<noteq> 0 \<and> pages_for sz \<noteq> 0")
  case True
  then show ?thesis using kmalloc_found [OF assms] kmalloc_effect_wf [OF assms] by blast
next
  case False
  then consider "\<not> initialized mm \<or> sz = 0" | "pages_for sz = 0" by blast
  then show ?thesis
  proof cases
    case 1
    with assms show ?thesis by (auto simp: kmalloc_def)
  next
    case 2
    with assms show ?thesis by (simp add: kmalloc_too_big)
  qed
qed

subsection \<open>Single frames\<close>

lemma take_frame_in:
  assumes "mm_wf mm" and "i < unat (total_pages mm)"
  shows "\<exists>bm. take_frame i mm = Some (of_nat i * PAGE_SIZE + phys_limit_start mm,
      mm\<lparr>bitmap := bm, next_free := of_nat (Suc i)\<rparr>) \<and> length bm = length (bitmap mm) \<and>
    (\<forall>j. bm_has bm j \<longleftrightarrow> page_used mm j \<or> j = i)"
proof -
  from assms have "i < 8 * length (bitmap mm)" by (simp add: mm_wf_def)
  from bm_on_in [OF this] show ?thesis by (auto simp: take_frame_def page_used_def add.commute)
qed

text \<open>The frame the search picks: the first free one from the hint on, else the first below it.\<close>

definition pick_frame :: "mm_state \<Rightarrow> nat option" where
  "pick_frame mm =
     (case find (page_free mm) [unat (next_free mm)..<unat (total_pages mm)] of
        Some i \<Rightarrow> Some i
      | None \<Rightarrow> find (page_free mm) [0..<unat (next_free mm)])"

lemma pmm_alloc_frame_eq:
  assumes wf: "mm_wf mm" and "initialized mm"
  shows "pmm_alloc_frame mm =
    (case pick_frame mm of Some i \<Rightarrow> take_frame i mm | None \<Rightarrow> Some (0, mm))"
proof -
  have le: "unat (next_free mm) \<le> unat (total_pages mm)"
    using wf by (simp add: mm_wf_def word_le_nat_alt)
  have "first_ok (frame_free mm) (unat (next_free mm)) (unat (total_pages mm)) =
      Some (find (page_free mm) [unat (next_free mm)..<unat (total_pages mm)])"
    by (rule first_ok_eq_find) (simp add: frame_free_in [OF wf])
  moreover have "first_ok (frame_free mm) 0 (unat (next_free mm)) =
      Some (find (page_free mm) [0..<unat (next_free mm)])"
    by (rule first_ok_eq_find) (use le in \<open>simp add: frame_free_in [OF wf]\<close>)
  ultimately show ?thesis
    using assms by (simp add: pmm_alloc_frame_def pick_frame_def split: option.splits)
qed

lemma pick_frame_Some:
  assumes "mm_wf mm" and "pick_frame mm = Some i"
  shows "i < unat (total_pages mm) \<and> page_free mm i"
  using assms by (auto simp: pick_frame_def find_upt_Some mm_wf_def word_le_nat_alt split: option.splits)

lemma pick_frame_None:
  assumes "pick_frame mm = None" and "i < unat (total_pages mm)"
  shows "\<not> page_free mm i"
  using assms by (cases "i < unat (next_free mm)")
    (auto simp: pick_frame_def find_upt_None find_upt_Some split: option.splits)

text \<open>
  A manager in service: its frames all have addresses that do not wrap and are not NULL.
\<close>

definition mm_ok :: "mm_state \<Rightarrow> bool" where
  "mm_ok mm \<longleftrightarrow> mm_wf mm \<and> initialized mm \<and> phys_limit_start mm \<noteq> 0 \<and>
     unat (phys_limit_start mm) + unat (total_pages mm) * 4096 \<le> 2 ^ 32"

definition frame_addr :: "mm_state \<Rightarrow> nat \<Rightarrow> u32" where
  "frame_addr mm i = of_nat i * PAGE_SIZE + phys_limit_start mm"

lemma unat_frame_addr:
  assumes "mm_ok mm" and "i < unat (total_pages mm)"
  shows "unat (frame_addr mm i) = i * 4096 + unat (phys_limit_start mm)"
proof -
  from assms have "i * 4096 + unat (phys_limit_start mm) < 2 ^ 32"
    by (simp add: mm_ok_def)
  then show ?thesis
    by (simp add: frame_addr_def PAGE_SIZE_def unat_word_ariths unat_of_nat take_bit_eq_mod
        mod_mult_left_eq mod_add_left_eq)
qed

lemma frame_addr_nonzero: "mm_ok mm \<Longrightarrow> i < unat (total_pages mm) \<Longrightarrow> frame_addr mm i \<noteq> 0"
  using unat_frame_addr [of mm i] by (auto simp: mm_ok_def unat_eq_zero)

lemma frame_addr_index:
  assumes "mm_ok mm" and "i < unat (total_pages mm)"
  shows "unat ((frame_addr mm i - phys_limit_start mm) div PAGE_SIZE) = i"
proof -
  have "unat (of_nat i * PAGE_SIZE) = i * 4096"
    using assms by (simp add: mm_ok_def PAGE_SIZE_def unat_word_ariths unat_of_nat take_bit_eq_mod
        mod_mult_left_eq)
  then show ?thesis by (simp add: frame_addr_def unat_div PAGE_SIZE_def)
qed

lemma frame_addr_ge: "mm_ok mm \<Longrightarrow> i < unat (total_pages mm) \<Longrightarrow> phys_limit_start mm \<le> frame_addr mm i"
  by (simp add: word_le_nat_alt unat_frame_addr)

text \<open>One allocation, on a manager in service.\<close>

lemma pmm_alloc_frame_ok:
  assumes "mm_ok mm"
  shows "case pick_frame mm of
      None \<Rightarrow> pmm_alloc_frame mm = Some (0, mm)
    | Some i \<Rightarrow> (\<exists>bm. pmm_alloc_frame mm =
          Some (frame_addr mm i, mm\<lparr>bitmap := bm, next_free := of_nat (Suc i)\<rparr>) \<and>
        length bm = length (bitmap mm) \<and> (\<forall>j. bm_has bm j \<longleftrightarrow> page_used mm j \<or> j = i))"
proof -
  from assms have wf: "mm_wf mm" and "initialized mm" by (simp_all add: mm_ok_def)
  note e = pmm_alloc_frame_eq [OF this]
  show ?thesis
  proof (cases "pick_frame mm")
    case None
    with e show ?thesis by simp
  next
    case (Some i)
    with take_frame_in [OF wf] pick_frame_Some [OF wf] e show ?thesis
      by (fastforce simp: frame_addr_def)
  qed
qed

lemma mm_ok_update:
  assumes "mm_ok mm" and "length bm = length (bitmap mm)" and "n \<le> unat (total_pages mm)"
  shows "mm_ok (mm\<lparr>bitmap := bm, next_free := of_nat n\<rparr>)"
proof -
  have "(of_nat n :: u32) \<le> total_pages mm"
    using of_nat_add_le [of n 0 "total_pages mm"] assms(3) by simp
  with assms show ?thesis by (simp add: mm_ok_def mm_wf_def)
qed

text \<open>The allocator seen by a client that counts frames instead of addresses.\<close>

definition pmm_slot :: "mm_state \<Rightarrow> (nat \<times> mm_state) option" where
  "pmm_slot mm =
     (case pmm_alloc_frame mm of
        None \<Rightarrow> None
      | Some (p, mm') \<Rightarrow>
          (if p = 0 then None else Some (unat ((p - phys_limit_start mm) div PAGE_SIZE), mm')))"

lemma pmm_slot_eq:
  assumes "mm_ok mm"
  shows "case pick_frame mm of
      None \<Rightarrow> pmm_slot mm = None
    | Some i \<Rightarrow> (\<exists>bm. pmm_slot mm = Some (i, mm\<lparr>bitmap := bm, next_free := of_nat (Suc i)\<rparr>) \<and>
        length bm = length (bitmap mm) \<and> (\<forall>j. bm_has bm j \<longleftrightarrow> page_used mm j \<or> j = i))"
proof (cases "pick_frame mm")
  case None
  with pmm_alloc_frame_ok [OF assms] show ?thesis by (simp add: pmm_slot_def)
next
  case (Some i)
  then have "i < unat (total_pages mm)"
    using pick_frame_Some assms by (simp add: mm_ok_def)
  with Some pmm_alloc_frame_ok [OF assms] frame_addr_nonzero [OF assms] frame_addr_index [OF assms]
  show ?thesis by (auto simp: pmm_slot_def)
qed

interpretation pmm: slot_allocator pmm_slot "\<lambda>mm i. \<not> page_free mm i" "\<lambda>mm. unat (total_pages mm)" mm_ok
proof
  fix mm i mm'
  assume ok: "mm_ok mm" and a: "pmm_slot mm = Some (i, mm')"
  then have p: "pick_frame mm = Some i"
    using pmm_slot_eq [OF ok] by (cases "pick_frame mm") auto
  with pmm_slot_eq [OF ok] a obtain bm where
      mm': "mm' = mm\<lparr>bitmap := bm, next_free := of_nat (Suc i)\<rparr>"
      and bm: "length bm = length (bitmap mm)" "\<And>j. bm_has bm j \<longleftrightarrow> page_used mm j \<or> j = i" by auto
  from ok p have i: "i < unat (total_pages mm)" "page_free mm i"
    using pick_frame_Some by (auto simp: mm_ok_def)
  have "page_free mm' j \<longleftrightarrow> page_free mm j \<and> j \<noteq> i" for j
    by (auto simp: mm' bm(2) page_free_def page_used_def page_locked_def)
  moreover have "mm_ok mm'"
    unfolding mm' by (rule mm_ok_update [OF ok bm(1)]) (use i in simp)
  ultimately show "i < unat (total_pages mm) \<and> \<not> \<not> page_free mm i \<and>
      unat (total_pages mm') = unat (total_pages mm) \<and> mm_ok mm' \<and>
      (\<forall>j. (\<not> page_free mm' j) = (\<not> page_free mm j \<or> j = i))"
    using i by (simp add: mm')
next
  fix mm
  assume ok: "mm_ok mm" and "pmm_slot mm = None"
  then have "pick_frame mm = None"
    using pmm_slot_eq [OF ok] by (cases "pick_frame mm") auto
  then show "\<forall>i < unat (total_pages mm). \<not> page_free mm i"
    using pick_frame_None by blast
qed

subsection \<open>Freeing\<close>

lemma pmm_free_frame_in:
  assumes ok: "mm_ok mm" and i: "i < unat (total_pages mm)"
  shows "\<exists>bm. pmm_free_frame (frame_addr mm i) mm =
      Some (mm\<lparr>bitmap := bm, next_free := min (of_nat i) (next_free mm)\<rparr>) \<and>
    length bm = length (bitmap mm) \<and> (\<forall>j. bm_has bm j \<longleftrightarrow> page_used mm j \<and> j \<noteq> i)"
proof -
  from assms have "i < 8 * length (bitmap mm)" by (simp add: mm_ok_def mm_wf_def)
  from bm_off_in [OF this] obtain bm where bm: "bm_off (bitmap mm) i = Some bm"
      "length bm = length (bitmap mm)" "\<And>j. bm_has bm j \<longleftrightarrow> page_used mm j \<and> j \<noteq> i"
    by (auto simp: page_used_def)
  have idx: "unat ((frame_addr mm i - phys_limit_start mm) div PAGE_SIZE) = i"
    by (rule frame_addr_index [OF assms])
  then have "(frame_addr mm i - phys_limit_start mm) div PAGE_SIZE = of_nat i"
    by (metis of_nat_unat ucast_id)
  with bm idx frame_addr_ge [OF assms] show ?thesis
    by (intro exI [of _ bm]) (auto simp: pmm_free_frame_def Let_def min_def not_less)
qed

text \<open>\<open>pmm_free_frame\<close> keeps the invariant for every address it accepts.\<close>

lemma pmm_free_frame_ok:
  assumes "mm_ok mm" and "pmm_free_frame p mm = Some mm'"
  shows "mm_ok mm'"
proof (cases "p < phys_limit_start mm")
  case False
  let ?i = "(p - phys_limit_start mm) div PAGE_SIZE"
  from False assms(2) obtain bm where bm: "bm_off (bitmap mm) (unat ?i) = Some bm"
      and mm': "mm' = mm\<lparr>bitmap := bm, next_free := if ?i < next_free mm then ?i else next_free mm\<rparr>"
    by (auto simp: pmm_free_frame_def Let_def bind_eq_Some_conv)
  have "length bm = length (bitmap mm)" using bm_off_E [OF bm] by simp
  with assms(1) show ?thesis
    unfolding mm' mm_ok_def mm_wf_def by (auto intro: order_trans [OF less_imp_le])
qed (use assms in \<open>simp add: pmm_free_frame_def\<close>)

lemma find_upt_hit: "q i \<Longrightarrow> i < n \<Longrightarrow> find q [i..<n] = Some i"
  by (simp add: upt_conv_Cons)

text \<open>A freed frame that lies at or below the hint is the next one handed out.\<close>

lemma free_then_alloc:
  assumes ok: "mm_ok mm" and i: "i < unat (total_pages mm)" and "\<not> page_locked mm i"
    and "of_nat i \<le> next_free mm"
    and f: "pmm_free_frame (frame_addr mm i) mm = Some mm'"
  shows "pick_frame mm' = Some i"
proof -
  from pmm_free_frame_in [OF ok i] f obtain bm where
      mm': "mm' = mm\<lparr>bitmap := bm, next_free := min (of_nat i) (next_free mm)\<rparr>"
      and bm: "\<And>j. bm_has bm j \<longleftrightarrow> page_used mm j \<and> j \<noteq> i" by auto
  with assms(4) have nf: "next_free mm' = of_nat i" by (simp add: min_def)
  have "(of_nat i :: u32) \<le> total_pages mm"
    using of_nat_add_le [of i 0 "total_pages mm"] i by simp
  have "unat (next_free mm') = i"
    using i by (simp add: nf unat_of_nat take_bit_eq_mod) (metis mod_less order_less_trans unat_u32_lt)
  moreover have "page_free mm' i"
    using assms(3) by (simp add: mm' page_free_def page_used_def page_locked_def bm)
  ultimately show ?thesis
    using i by (simp add: pick_frame_def find_upt_hit mm')
qed

subsection \<open>Free memory\<close>

lemma count_free_spec:
  assumes "length (bitmap mm) * 8 \<ge> n" and "i \<le> n" and "n < 2 ^ 32" and "unat f + (n - i) < 2 ^ 32"
  shows "\<exists>f'. count_free i n f mm = Some f' \<and>
    unat f' = unat f + card {j. i \<le> j \<and> j < n \<and> \<not> page_used mm j}"
  using assms
proof (induction i n f mm rule: count_free.induct)
  case (1 i n f mm)
  show ?case
  proof (cases "i < n")
    case False
    then have "{j. i \<le> j \<and> j < n \<and> \<not> page_used mm j} = {}" by auto
    with False show ?thesis by (simp add: count_free.simps [of i n])
  next
    case True
    let ?S = "\<lambda>i. {j. i \<le> j \<and> j < n \<and> \<not> page_used mm j}"
    have fin: "finite (?S (Suc i))" by simp
    have g: "mm_get_bit i mm = Some (page_used mm i)"
      using True "1.prems" by (simp add: mm_get_bit_eq bm_test_in page_used_def)
    have S: "?S i = (if page_used mm i then ?S (Suc i) else insert i (?S (Suc i)))"
      using True by (auto simp: Suc_le_eq le_less)
    have "card (?S i) = (if page_used mm i then 0 else 1) + card (?S (Suc i))"
      by (simp add: S)
    moreover have "unat (f + 1) = unat f + 1" if "\<not> page_used mm i"
      using True "1.prems"(4) by (simp add: unat_plus1)
    ultimately show ?thesis
      using "1.IH" [OF True g] "1.prems" True g
      by (cases "page_used mm i") (auto simp: count_free.simps [of i n])
  qed
qed

lemma count_free_overrun:
  assumes "8 * length (bitmap mm) < n" and "i \<le> 8 * length (bitmap mm)"
  shows "count_free i n f mm = None"
  using assms
proof (induction i n f mm rule: count_free.induct)
  case (1 i n f mm)
  show ?case
  proof (cases "i < 8 * length (bitmap mm)")
    case True
    then have g: "mm_get_bit i mm = Some (page_used mm i)"
      by (simp add: mm_get_bit_eq bm_test_in page_used_def)
    with True "1.IH" [OF _ g] "1.prems" show ?thesis
      by (cases "page_used mm i") (simp_all add: count_free.simps [of i n])
  next
    case False
    then have "mm_get_bit i mm = None"
      by (auto simp: mm_get_bit_def dest: div_less_iff_less_mult [THEN iffD1, rotated, of _ _ 8])
    with 1 show ?thesis by (simp add: count_free.simps [of i n])
  qed
qed

subsection \<open>Initialisation\<close>

text \<open>The page numbers, relative to the start of RAM, that cover the bytes from \<open>a\<close> to \<open>b\<close>.\<close>

lemma page_of_byte:
  "(a::nat) \<le> x \<Longrightarrow> x < b \<Longrightarrow> a div 4096 \<le> x div 4096 \<and> x div 4096 < (b + 4095) div 4096"
  by (auto intro: div_le_mono)

lemma mm_protect_region_in:
  assumes "initialized mm" and "phys_limit_start mm \<le> base" and "sz \<noteq> 0"
    and fits: "unat base - unat (phys_limit_start mm) + unat sz + 4095 < 2 ^ 32"
    and "(unat base - unat (phys_limit_start mm) + unat sz + 4095) div 4096 \<le> 8 * length (bitmap mm)"
    and "length (protection_bitmap mm) = length (bitmap mm)"
  shows "\<exists>bm pm. mm_protect_region base sz mm = Some (mm\<lparr>bitmap := bm, protection_bitmap := pm\<rparr>) \<and>
    length bm = length (bitmap mm) \<and> length pm = length (bitmap mm) \<and>
    (\<forall>j. bm_has bm j \<longleftrightarrow> page_used mm j \<or> (unat base - unat (phys_limit_start mm)) div 4096 \<le> j \<and>
       j < (unat base - unat (phys_limit_start mm) + unat sz + 4095) div 4096) \<and>
    (\<forall>j. bm_has pm j \<longleftrightarrow> page_locked mm j \<or> (unat base - unat (phys_limit_start mm)) div 4096 \<le> j \<and>
       j < (unat base - unat (phys_limit_start mm) + unat sz + 4095) div 4096)"
proof -
  let ?d = "base - phys_limit_start mm"
  have d: "unat ?d = unat base - unat (phys_limit_start mm)"
    using assms(2) by (simp add: unat_sub)
  have e: "base + sz + PAGE_SIZE - 1 - phys_limit_start mm = ?d + sz + 4095"
    by (simp add: PAGE_SIZE_def)
  have "unat (?d + sz) = unat ?d + unat sz"
    using fits d by (simp add: unat_word_ariths)
  then have "unat (?d + sz + 4095) = unat ?d + unat sz + 4095"
    using fits d by (simp add: unat_word_ariths)
  with d have "unat ((?d + sz + 4095) div PAGE_SIZE) =
      (unat base - unat (phys_limit_start mm) + unat sz + 4095) div 4096"
    and "unat (?d div PAGE_SIZE) = (unat base - unat (phys_limit_start mm)) div 4096"
    by (simp_all add: unat_div PAGE_SIZE_def)
  then have "mm_protect_region base sz mm =
      mark_range ((unat base - unat (phys_limit_start mm)) div 4096)
        ((unat base - unat (phys_limit_start mm) + unat sz + 4095) div 4096) mm"
    using assms(1,3) leD [OF assms(2)] by (simp add: mm_protect_region_def Let_def e [symmetric])
  then show ?thesis
    using mark_range_in [OF assms(5), unfolded assms(6) [symmetric], OF assms(5) [folded assms(6)]]
    by (simp add: assms(6))
qed

lemma mm_init_universal_in:
  assumes fresh: "\<not> initialized mm" "next_free mm = 0"
    and ram: "unat ram_size \<le> 2 ^ 28"
    and ord: "ram_start \<le> k_start" "k_start \<le> k_end"
    and fits: "unat k_end - unat ram_start + 2 * 4096 \<le> 2 ^ 28"
  shows "\<exists>mm'. mm_init_universal k_start k_end ram_start ram_size mm = Some mm' \<and>
    mm_wf mm' \<and> initialized mm' \<and> phys_limit_start mm' = ram_start \<and>
    unat (total_pages mm') = unat ram_size div 4096 \<and>
    (\<forall>j. page_used mm' j \<longleftrightarrow> page_locked mm' j) \<and>
    (\<forall>j. page_locked mm' j \<longleftrightarrow> (unat k_start - unat ram_start) div 4096 \<le> j \<and>
       j < (unat k_end - unat ram_start + 8191) div 4096)"
proof -
  let ?S = "unat k_start - unat ram_start" and ?K = "unat k_end - unat ram_start"
  let ?pages = "ucast (ram_size div 4096) :: u32"
  let ?mm1 = "mm\<lparr>total_memory := ucast ram_size, total_pages := ?pages,
     bitmap := replicate BITMAP_SIZE 0, protection_bitmap := replicate BITMAP_SIZE 0,
     bitmap_size := (?pages + 7) div 8, phys_limit_start := ram_start,
     kaslr_slide := k_start - KERNEL_START, kaslr_enabled := (k_start - KERNEL_START \<noteq> 0)\<rparr>"
  have SK: "?S \<le> ?K" using ord by (simp add: word_le_nat_alt)
  have "unat (ram_size div 4096) \<le> 65536"
    using ram by (simp add: unat_div)
  then have pages: "unat ?pages = unat ram_size div 4096"
    by (simp add: unsigned_ucast_eq unat_div take_bit_eq_mod)
  have "unat (k_end - ram_start) = ?K" "unat (k_start - ram_start) = ?S"
    using ord by (simp_all add: unat_sub)
  moreover from this have "unat (k_end - ram_start + PAGE_SIZE - 1) = ?K + 4095"
    using fits by (simp add: PAGE_SIZE_def unat_word_ariths)
  ultimately have idx: "unat ((k_start - ram_start) div PAGE_SIZE) = ?S div 4096"
      "unat ((k_end - ram_start + PAGE_SIZE - 1) div PAGE_SIZE) = (?K + 4095) div 4096"
    by (simp_all add: unat_div PAGE_SIZE_def)
  have cov: "(?K + 8191) div 4096 \<le> 65536" using fits by simp
  then have "(?K + 4095) div 4096 \<le> 65536" by simp
  then obtain bm pm where m: "mark_range (?S div 4096) ((?K + 4095) div 4096) ?mm1 =
        Some (?mm1\<lparr>bitmap := bm, protection_bitmap := pm\<rparr>)"
      and len: "length bm = 8192" "length pm = 8192"
      and has: "\<forall>j. bm_has bm j \<longleftrightarrow> ?S div 4096 \<le> j \<and> j < (?K + 4095) div 4096"
        "\<forall>j. bm_has pm j \<longleftrightarrow> ?S div 4096 \<le> j \<and> j < (?K + 4095) div 4096"
    using mark_range_in [of "(?K + 4095) div 4096" ?mm1 "?S div 4096"]
    by (auto simp: BITMAP_SIZE_def page_used_def page_locked_def)
  let ?mm2 = "?mm1\<lparr>bitmap := bm, protection_bitmap := pm, initialized := True\<rparr>"
  have "\<exists>bm' pm'. mm_protect_region k_end PAGE_SIZE ?mm2 =
        Some (?mm2\<lparr>bitmap := bm', protection_bitmap := pm'\<rparr>) \<and>
      length bm' = 8192 \<and> length pm' = 8192 \<and>
      (\<forall>j. bm_has bm' j \<longleftrightarrow> bm_has bm j \<or> ?K div 4096 \<le> j \<and> j < (?K + 8191) div 4096) \<and>
      (\<forall>j. bm_has pm' j \<longleftrightarrow> bm_has pm j \<or> ?K div 4096 \<le> j \<and> j < (?K + 8191) div 4096)"
    using mm_protect_region_in [of ?mm2 k_end PAGE_SIZE] order_trans [OF ord] fits cov len
    by (simp add: PAGE_SIZE_def page_used_def page_locked_def add.commute [of 8191])
  then obtain bm' pm' where r: "mm_protect_region k_end PAGE_SIZE ?mm2 =
        Some (?mm2\<lparr>bitmap := bm', protection_bitmap := pm'\<rparr>)"
      and len': "length bm' = 8192" "length pm' = 8192"
      and has': "\<forall>j. bm_has bm' j \<longleftrightarrow> bm_has bm j \<or> ?K div 4096 \<le> j \<and> j < (?K + 8191) div 4096"
        "\<forall>j. bm_has pm' j \<longleftrightarrow> bm_has pm j \<or> ?K div 4096 \<le> j \<and> j < (?K + 8191) div 4096"
    by auto
  have "?S div 4096 \<le> ?K div 4096" "?K div 4096 \<le> (?K + 4095) div 4096"
      "(?K + 4095) div 4096 \<le> (?K + 8191) div 4096" using SK by (auto intro: div_le_mono)
  note join = range_join [OF this]
  have all: "\<forall>j. bm_has pm' j \<longleftrightarrow> ?S div 4096 \<le> j \<and> j < (?K + 8191) div 4096"
      "\<forall>j. bm_has bm' j \<longleftrightarrow> bm_has pm' j"
    using has has' by (simp_all only: join simp_thms)
  have "mm_init_universal k_start k_end ram_start ram_size mm =
      Some (?mm2\<lparr>bitmap := bm', protection_bitmap := pm'\<rparr>)"
    using fresh m r by (simp add: mm_init_universal_def Let_def idx)
  with pages len' all fresh ram show ?thesis
    by (simp add: mm_wf_def page_used_def page_locked_def)
qed

lemma mark_range_hint: "mark_range i n mm = Some mm' \<Longrightarrow> next_free mm' = next_free mm"
proof (induction i n mm rule: mark_range.induct)
  case (1 i n mm)
  then show ?case
    by (auto simp: mark_range.simps [of i n] mm_set_bit_def mm_set_protected_def bind_eq_Some_conv
        split: if_splits)
qed

lemma mm_init_universal_hint:
  "mm_init_universal ks ke rs sz mm = Some mm' \<Longrightarrow> next_free mm' = next_free mm"
  by (auto simp: mm_init_universal_def mm_protect_region_def Let_def bind_eq_Some_conv
      dest!: mark_range_hint split: if_splits)

end
