(* ===== verification/Paging.thy ===== *)
theory Paging
  imports PhysMem
begin

text \<open>
  The users of the frame allocator: the memory routines of \<open>arch/common/memory.c\<close>, the fixed
  page pool of \<open>kernel/mm/pmm.c\<close>, page protection (\<open>arch/common/mprotect.c\<close>), the swap
  bookkeeping (\<open>arch/common/swap.c\<close>) and demand paging with its fault handler
  (\<open>kernel/mm/demand_paging.c\<close>, \<open>kernel/mm/fault.c\<close>). Memory is flat: a function from 32-bit
  addresses to bytes. Console messages are left out.
\<close>

type_synonym mem = "u32 \<Rightarrow> u8"

subsection \<open>Memory routines\<close>

fun mm_memset :: "nat \<Rightarrow> u32 \<Rightarrow> u8 \<Rightarrow> mem \<Rightarrow> mem" where
  "mm_memset 0 p c m = m"
| "mm_memset (Suc n) p c m = mm_memset n (p + 1) c (m(p := c))"

text \<open>The pointer returned by \<open>mm_memcpy\<close> is the advanced \<open>d\<close>, not \<open>dest\<close>.\<close>

fun mm_memcpy :: "nat \<Rightarrow> u32 \<Rightarrow> u32 \<Rightarrow> mem \<Rightarrow> u32 \<times> mem" where
  "mm_memcpy 0 d s m = (d, m)"
| "mm_memcpy (Suc n) d s m = mm_memcpy n (d + 1) (s + 1) (m(d := m s))"

subsection \<open>The fixed page pool\<close>

definition MAX_PAGES :: nat where "MAX_PAGES = 1024"

record page_pool =
  page_bitmap :: "u8 list"
  pool_mem :: mem

function zero_bytes :: "nat \<Rightarrow> nat \<Rightarrow> u32 \<Rightarrow> mem \<Rightarrow> mem" where
  "zero_bytes b n phys_addr m =
     (if b < n then zero_bytes (Suc b) n phys_addr (m(phys_addr + of_nat b := 0)) else m)"
  by pat_completeness auto
termination
  by (relation "measure (\<lambda>(b, n, p, m). n - b)") auto

declare zero_bytes.simps [simp del]

text \<open>\<open>base\<close> is the address of the linker symbol \<open>_end\<close>.\<close>

definition kalloc_page :: "u32 \<Rightarrow> page_pool \<Rightarrow> (u32 \<times> page_pool) option" where
  "kalloc_page base pool =
     do { r \<leftarrow> first_ok (\<lambda>i. if i < length (page_bitmap pool) then Some (page_bitmap pool ! i = 0) else None)
                 0 MAX_PAGES;
          case r of
            None \<Rightarrow> Some (0, pool)
          | Some i \<Rightarrow>
              (let phys_addr = base + of_nat i * PAGE_SIZE
               in Some (phys_addr, pool\<lparr>page_bitmap := (page_bitmap pool)[i := 1],
                          pool_mem := zero_bytes 0 4096 phys_addr (pool_mem pool)\<rparr>)) }"

definition kfree_page :: "u32 \<Rightarrow> u32 \<Rightarrow> page_pool \<Rightarrow> page_pool option" where
  "kfree_page base addr pool =
     (let index = unat ((addr - base) div PAGE_SIZE)
      in if index < MAX_PAGES
         then (if index < length (page_bitmap pool)
               then Some (pool\<lparr>page_bitmap := (page_bitmap pool)[index := 0]\<rparr>) else None)
         else Some pool)"

subsection \<open>Page protection\<close>

definition PROT_NONE :: int where "PROT_NONE = 0"

function mprotect_loop :: "nat \<Rightarrow> nat \<Rightarrow> int \<Rightarrow> mm_state \<Rightarrow> (int \<times> mm_state) option" where
  "mprotect_loop i end_frame prot_flags mm =
     (if i < end_frame
      then
        (if i \<ge> unat (total_pages mm) then Some (-12, mm)
         else do { locked \<leftarrow> mm_is_page_protected i mm;
                   if locked then Some (-13, mm)
                   else do { pb \<leftarrow> (if prot_flags = PROT_NONE then bm_on (protection_bitmap mm) i
                                    else bm_off (protection_bitmap mm) i);
                             mprotect_loop (Suc i) end_frame prot_flags
                               (mm\<lparr>protection_bitmap := pb\<rparr>) } })
      else Some (0, mm))"
  by pat_completeness auto
termination
  by (relation "measure (\<lambda>(i, n, p, mm). n - i)") auto

declare mprotect_loop.simps [simp del]

definition mm_mprotect_set_flags :: "u32 \<Rightarrow> u32 \<Rightarrow> int \<Rightarrow> mm_state \<Rightarrow> (int \<times> mm_state) option" where
  "mm_mprotect_set_flags address len prot_flags mm =
     (if address < phys_limit_start mm \<or> len = 0 then Some (-22, mm)
      else
        (let start_frame = (address - phys_limit_start mm) div PAGE_SIZE;
             end_frame = ((address + len + PAGE_SIZE - 1) - phys_limit_start mm) div PAGE_SIZE
         in mprotect_loop (unat start_frame) (unat end_frame) prot_flags mm))"

subsection \<open>Swap\<close>

definition PAGES_PER_SECTOR :: u32 where "PAGES_PER_SECTOR = 4096 div 512"

record swap_state =
  swap_mm :: mm_state
  swap_used_slots :: u32

definition mm_swap_out_page :: "u32 \<Rightarrow> swap_state \<Rightarrow> (int \<times> swap_state) option" where
  "mm_swap_out_page frame_index s =
     do { locked \<leftarrow> mm_is_page_protected (unat frame_index) (swap_mm s);
          if locked then Some (-1, s)
          else do { bm \<leftarrow> bm_off (bitmap (swap_mm s)) (unat frame_index);
                    Some (0, s\<lparr>swap_mm := (swap_mm s)\<lparr>bitmap := bm\<rparr>,
                               swap_used_slots := swap_used_slots s + PAGES_PER_SECTOR\<rparr>) } }"

definition mm_swap_in_page :: "swap_state \<Rightarrow> (u32 \<times> swap_state) option" where
  "mm_swap_in_page s =
     do { (frame, mm) \<leftarrow> kmalloc PAGE_SIZE (swap_mm s);
          (if frame = 0 then Some (0, s\<lparr>swap_mm := mm\<rparr>)
           else Some (frame, s\<lparr>swap_mm := mm,
                  swap_used_slots := (if swap_used_slots s \<ge> PAGES_PER_SECTOR
                                      then swap_used_slots s - PAGES_PER_SECTOR
                                      else swap_used_slots s)\<rparr>)) }"

subsection \<open>Demand paging\<close>

text \<open>
  \<open>vmm_map_page\<close> is not part of the repository: it is a parameter that takes the virtual
  address, the physical address, the flags and the page tables, and returns its status and
  the new tables.
\<close>

record 'pt vm_state =
  vm_mm :: mm_state
  vm_mem :: mem
  vm_tables :: 'pt

definition handle_demand_paging ::
    "(u32 \<Rightarrow> u32 \<Rightarrow> u32 \<Rightarrow> 'pt \<Rightarrow> int \<times> 'pt) \<Rightarrow> u32 \<Rightarrow> 'pt vm_state \<Rightarrow> (int \<times> 'pt vm_state) option" where
  "handle_demand_paging vmm_map_page addr s =
     (let aligned_addr = addr AND NOT (PAGE_SIZE - 1)
      in if addr < 0x1000 then Some (0, s)
         else do { (phys_frame, mm) \<leftarrow> pmm_alloc_frame (vm_mm s);
                   (if phys_frame = 0 then Some (0, s\<lparr>vm_mm := mm\<rparr>)
                    else
                      (let m = mm_memset 4096 phys_frame 0 (vm_mem s);
                           (status, pt) = vmm_map_page aligned_addr phys_frame 7 (vm_tables s);
                           s' = s\<lparr>vm_mm := mm, vm_mem := m, vm_tables := pt\<rparr>
                       in if status \<noteq> 0 then Some (0, s') else Some (1, s'))) })"

text \<open>
  The fault handler. \<open>do_exit\<close> never returns when there is a current task (it idles for ever
  after marking the task a zombie) and returns at once when there is none.
\<close>

datatype fault_outcome = Resumed | Exited int

definition do_page_fault ::
    "(u32 \<Rightarrow> u32 \<Rightarrow> u32 \<Rightarrow> 'pt \<Rightarrow> int \<times> 'pt) \<Rightarrow> bool \<Rightarrow> u32 \<Rightarrow> 'pt vm_state \<Rightarrow>
     (fault_outcome \<times> 'pt vm_state) option" where
  "do_page_fault vmm_map_page has_task stval s =
     (if stval = 0 \<and> has_task then Some (Exited (-1), s)
      else do { (ok, s') \<leftarrow> handle_demand_paging vmm_map_page stval s;
                (if ok \<noteq> 0 then Some (Resumed, s')
                 else if has_task then Some (Exited (-11), s')
                 else Some (Resumed, s')) })"

subsection \<open>What the operations keep\<close>

text \<open>
  Two states of the manager are related when only bookkeeping changed: the managed range is
  the same and no page has lost its protection.
\<close>

definition mm_keeps :: "mm_state \<Rightarrow> mm_state \<Rightarrow> bool" where
  "mm_keeps mm mm' \<longleftrightarrow> mm_ok mm' \<and> phys_limit_start mm' = phys_limit_start mm \<and>
     total_pages mm' = total_pages mm \<and> (\<forall>j. page_locked mm j \<longrightarrow> page_locked mm' j)"

named_theorems mm_keep \<open>what each operation of the manager keeps\<close>

lemma mm_keeps_refl [intro]: "mm_ok mm \<Longrightarrow> mm_keeps mm mm"
  by (simp add: mm_keeps_def)

lemma mm_keeps_trans: "mm_keeps a b \<Longrightarrow> mm_keeps b c \<Longrightarrow> mm_keeps a c"
  by (auto simp: mm_keeps_def)

lemma mm_keeps_bitmap:
  assumes "mm_ok mm" and "length bm = length (bitmap mm)" and "n \<le> total_pages mm"
  shows "mm_keeps mm (mm\<lparr>bitmap := bm, next_free := n\<rparr>)"
  using assms by (simp add: mm_keeps_def mm_ok_def mm_wf_def page_locked_def)

lemma mm_keeps_protection:
  assumes "mm_ok mm" and "length bm = length (bitmap mm)" and "length pm = length (bitmap mm)"
    and "\<And>j. page_locked mm j \<Longrightarrow> bm_has pm j"
  shows "mm_keeps mm (mm\<lparr>bitmap := bm, protection_bitmap := pm\<rparr>)"
  using assms by (simp add: mm_keeps_def mm_ok_def mm_wf_def page_locked_def)

lemma mark_range_keeps [mm_keep]:
  assumes "mm_ok mm" and "mark_range i n mm = Some mm'"
  shows "mm_keeps mm mm'"
  using assms
proof (induction i n mm rule: mark_range.induct)
  case (1 i n mm)
  show ?case
  proof (cases "i < n")
    case True
    with "1.prems"(2) obtain b p where
        b: "bm_on (bitmap mm) i = Some b" and p: "bm_on (protection_bitmap mm) i = Some p"
        and rest: "mark_range (Suc i) n (mm\<lparr>bitmap := b, protection_bitmap := p\<rparr>) = Some mm'"
      by (auto simp: mark_range.simps [of i n] mm_set_bit_def mm_set_protected_def bind_eq_Some_conv)
    have "mm_keeps mm (mm\<lparr>bitmap := b, protection_bitmap := p\<rparr>)"
      using bm_on_E [OF b] bm_on_E [OF p] "1.prems"(1)
      by (intro mm_keeps_protection) (auto simp: mm_ok_def mm_wf_def page_locked_def)
    moreover from this have "mm_keeps (mm\<lparr>bitmap := b, protection_bitmap := p\<rparr>) mm'"
      using "1.IH" [of "mm\<lparr>bitmap := b\<rparr>" "mm\<lparr>bitmap := b, protection_bitmap := p\<rparr>"] True b p rest
      by (simp add: mm_set_bit_def mm_set_protected_def mm_keeps_def)
    ultimately show ?thesis by (rule mm_keeps_trans)
  qed (use "1.prems" in \<open>auto simp: mark_range.simps [of i n]\<close>)
qed

lemma mm_protect_region_keeps [mm_keep]:
  "mm_ok mm \<Longrightarrow> mm_protect_region base sz mm = Some mm' \<Longrightarrow> mm_keeps mm mm'"
  by (auto simp: mm_protect_region_def Let_def split: if_splits intro: mark_range_keeps)

lemma kmalloc_keeps [mm_keep]:
  assumes ok: "mm_ok mm" and k: "kmalloc sz mm = Some (p, mm')"
  shows "mm_keeps mm mm'"
proof (cases "sz = 0 \<or> pages_for sz = 0")
  case True
  with ok k kmalloc_too_big [of mm sz] have "mm' = mm"
    by (cases "sz = 0") (auto simp: mm_ok_def kmalloc_def)
  with ok show ?thesis by blast
next
  case False
  from ok have wf: "mm_wf mm" and "initialized mm" by (simp_all add: mm_ok_def)
  with False k obtain r where
      fit: "first_fit mm (unat (next_free mm)) (unat (total_pages mm)) (unat (pages_for sz)) r"
      and eff: "kmalloc_effect (unat (pages_for sz)) r mm p mm'"
    using kmalloc_found by fastforce
  show ?thesis
  proof (cases r)
    case (Some s)
    with fit have "s + unat (pages_for sz) \<le> unat (total_pages mm)" by (simp add: first_fit_def)
    then have le: "of_nat s + pages_for sz \<le> total_pages mm" by (rule of_nat_add_le)
    have "of_nat (s + unat (pages_for sz)) = of_nat s + pages_for sz" by simp
    with eff Some ok le show ?thesis
      by (auto simp: kmalloc_effect_def intro: mm_keeps_bitmap)
  qed (use eff ok in \<open>auto simp: kmalloc_effect_def\<close>)
qed

lemma pmm_alloc_frame_keeps [mm_keep]:
  assumes ok: "mm_ok mm" and a: "pmm_alloc_frame mm = Some (p, mm')"
  shows "mm_keeps mm mm'"
proof (cases "pick_frame mm")
  case None
  with pmm_alloc_frame_ok [OF ok] a ok show ?thesis by auto
next
  case (Some i)
  with pmm_alloc_frame_ok [OF ok] a obtain bm where
      "mm' = mm\<lparr>bitmap := bm, next_free := of_nat (Suc i)\<rparr>" "length bm = length (bitmap mm)" by auto
  moreover have "i < unat (total_pages mm)" using pick_frame_Some Some ok by (simp add: mm_ok_def)
  then have "(of_nat (Suc i) :: u32) \<le> total_pages mm"
    using of_nat_add_le [of "Suc i" 0 "total_pages mm"] by simp
  ultimately show ?thesis using ok by (simp only: mm_keeps_bitmap)
qed

lemma pmm_free_frame_keeps [mm_keep]:
  assumes "mm_ok mm" and f: "pmm_free_frame p mm = Some mm'"
  shows "mm_keeps mm mm'"
proof -
  have "mm_ok mm'" by (rule pmm_free_frame_ok [OF assms])
  moreover have "phys_limit_start mm' = phys_limit_start mm \<and> total_pages mm' = total_pages mm \<and>
      protection_bitmap mm' = protection_bitmap mm"
    using f by (auto simp: pmm_free_frame_def Let_def bind_eq_Some_conv split: if_splits)
  ultimately show ?thesis by (simp add: mm_keeps_def page_locked_def)
qed

text \<open>The loop of \<open>mm_mprotect_set_flags\<close>: with \<open>PROT_NONE\<close> it can only add protection, with any
  other flags it changes nothing, since it refuses the pages it would have to unlock.\<close>

lemma bit_off_same: "\<not> bit b k \<Longrightarrow> bit_off (b :: u8) k = b"
  by (rule bit_word_eqI) (auto simp: bit_bit_off)

lemma bm_off_same: "bm_off bm i = Some bm' \<Longrightarrow> \<not> bm_has bm i \<Longrightarrow> bm' = bm"
  by (auto simp: bm_off_def bm_has_def bit_off_same split: if_splits)

lemma mm_is_page_protected_iff:
  "mm_is_page_protected i mm = Some b \<Longrightarrow> b \<longleftrightarrow> page_locked mm i"
  by (auto simp: mm_is_page_protected_def mm_get_protected_eq bm_test_def page_locked_def bm_has_def
      bit_test_bit split: if_splits)

lemma mprotect_loop_other:
  assumes "mprotect_loop i n f mm = Some (r, mm')" and "f \<noteq> PROT_NONE"
  shows "mm' = mm"
  using assms
proof (induction i n f mm rule: mprotect_loop.induct)
  case (1 i n f mm)
  show ?case
  proof (cases "i < n \<and> i < unat (total_pages mm) \<and> \<not> page_locked mm i")
    case True
    with "1.prems" obtain pb where l: "mm_is_page_protected i mm = Some False"
        and pb: "bm_off (protection_bitmap mm) i = Some pb"
        and rest: "mprotect_loop (Suc i) n f (mm\<lparr>protection_bitmap := pb\<rparr>) = Some (r, mm')"
      using mm_is_page_protected_iff
      by (auto simp: mprotect_loop.simps [of i n] bind_eq_Some_conv split: if_splits)
    from pb True have "pb = protection_bitmap mm"
      using bm_off_same [OF pb] by (simp add: page_locked_def)
    with "1.IH" [of False pb] True l pb rest "1.prems"(2) show ?thesis by simp
  next
    case False
    with "1.prems" mm_is_page_protected_iff show ?thesis
      by (auto simp: mprotect_loop.simps [of i n] bind_eq_Some_conv split: if_splits)
  qed
qed


lemma mprotect_loop_none:
  assumes "mprotect_loop i n PROT_NONE mm = Some (r, mm')"
  shows "\<exists>pb. mm' = mm\<lparr>protection_bitmap := pb\<rparr> \<and> length pb = length (protection_bitmap mm) \<and>
    (\<exists>e. (\<forall>j. bm_has pb j \<longleftrightarrow> page_locked mm j \<or> i \<le> j \<and> j < e) \<and>
      (if r = 0 then e = max i n
       else i \<le> e \<and> e < n \<and>
         (if e \<ge> unat (total_pages mm) then r = -12 else page_locked mm e \<and> r = -13)))"
  using assms
proof (induction i n PROT_NONE mm rule: mprotect_loop.induct)
  case (1 i n mm)
  consider (stop) "\<not> i < n" | (big) "i < n" "unat (total_pages mm) \<le> i"
    | (lock) "i < n" "i < unat (total_pages mm)" "page_locked mm i"
    | (go) "i < n" "i < unat (total_pages mm)" "\<not> page_locked mm i" by linarith
  then show ?case
  proof cases
    case stop
    with "1.prems" have "r = 0" "mm' = mm" by (simp_all add: mprotect_loop.simps [of i n])
    with stop show ?thesis
      by (intro exI [of _ "protection_bitmap mm"] conjI exI [of _ i])
        (auto simp: page_locked_def)
  next
    case big
    with "1.prems" have "r = -12" "mm' = mm" by (simp_all add: mprotect_loop.simps [of i n])
    with big show ?thesis
      by (intro exI [of _ "protection_bitmap mm"] conjI exI [of _ i])
        (auto simp: page_locked_def)
  next
    case lock
    with "1.prems" have "r = -13 \<and> mm' = mm" using mm_is_page_protected_iff
      by (auto simp: mprotect_loop.simps [of i n] bind_eq_Some_conv split: if_splits)
    with lock show ?thesis
      by (intro exI [of _ "protection_bitmap mm"] conjI exI [of _ i])
        (auto simp: page_locked_def)
  next
    case go
    with "1.prems" obtain pb where l: "mm_is_page_protected i mm = Some False"
        and pb: "bm_on (protection_bitmap mm) i = Some pb"
        and rest: "mprotect_loop (Suc i) n PROT_NONE (mm\<lparr>protection_bitmap := pb\<rparr>) = Some (r, mm')"
      using mm_is_page_protected_iff
      by (auto simp: mprotect_loop.simps [of i n] bind_eq_Some_conv split: if_splits)
    note E = bm_on_E [OF pb]
    let ?m1 = "mm\<lparr>protection_bitmap := pb\<rparr>"
    have "\<exists>pb'. mm' = ?m1\<lparr>protection_bitmap := pb'\<rparr> \<and> length pb' = length (protection_bitmap ?m1) \<and>
      (\<exists>e. (\<forall>j. bm_has pb' j \<longleftrightarrow> page_locked ?m1 j \<or> Suc i \<le> j \<and> j < e) \<and>
        (if r = 0 then e = max (Suc i) n
         else Suc i \<le> e \<and> e < n \<and>
           (if e \<ge> unat (total_pages ?m1) then r = -12 else page_locked ?m1 e \<and> r = -13)))"
      by (rule "1.hyps" [of False pb]) (use go l pb rest in simp_all)
    then obtain pb' e where
        1: "mm' = mm\<lparr>protection_bitmap := pb'\<rparr>" "length pb' = length pb"
        and 2: "\<And>j. bm_has pb' j \<longleftrightarrow> bm_has pb j \<or> Suc i \<le> j \<and> j < e"
        and 3: "if r = 0 then e = max (Suc i) n
           else Suc i \<le> e \<and> e < n \<and>
             (if e \<ge> unat (total_pages ?m1) then r = -12 else page_locked ?m1 e \<and> r = -13)"
      by (auto simp: page_locked_def)
    have "i < e" using 3 by (auto split: if_splits)
    have has: "\<And>j. bm_has pb j \<longleftrightarrow> page_locked mm j \<or> j = i" using E by (simp add: page_locked_def)
    have "\<forall>j. bm_has pb' j \<longleftrightarrow> page_locked mm j \<or> i \<le> j \<and> j < e"
      using range_step [OF \<open>i < e\<close>] by (simp add: 2 has)
    moreover have "if r = 0 then e = max i n
       else i \<le> e \<and> e < n \<and>
         (if e \<ge> unat (total_pages mm) then r = -12 else page_locked mm e \<and> r = -13)"
      using 3 E go(1) by (auto simp: page_locked_def split: if_splits)
    moreover have "length pb' = length (protection_bitmap mm)" using 1 E by simp
    ultimately show ?thesis using 1(1) by blast
  qed
qed

lemma mprotect_keeps [mm_keep]:
  assumes ok: "mm_ok mm" and m: "mm_mprotect_set_flags a len f mm = Some (r, mm')"
  shows "mm_keeps mm mm'"
proof (cases "a < phys_limit_start mm \<or> len = 0")
  case True
  with m ok show ?thesis by (auto simp: mm_mprotect_set_flags_def)
next
  case False
  with m obtain i n where l: "mprotect_loop i n f mm = Some (r, mm')"
    by (auto simp: mm_mprotect_set_flags_def Let_def)
  show ?thesis
  proof (cases "f = PROT_NONE")
    case True
    from mprotect_loop_none [OF l [unfolded True]] ok show ?thesis
      by (auto simp: mm_keeps_def mm_ok_def mm_wf_def page_locked_def)
  qed (use mprotect_loop_other [OF l] ok in auto)
qed

lemma swap_out_keeps [mm_keep]:
  assumes ok: "mm_ok (swap_mm s)" and m: "mm_swap_out_page f s = Some (r, s')"
  shows "mm_keeps (swap_mm s) (swap_mm s')"
proof -
  have "s' = s \<or> (\<exists>bm. bm_off (bitmap (swap_mm s)) (unat f) = Some bm \<and>
      swap_mm s' = (swap_mm s)\<lparr>bitmap := bm\<rparr>)"
    using m by (auto simp: mm_swap_out_page_def bind_eq_Some_conv split: if_splits)
  with ok show ?thesis
    by (auto dest: bm_off_E simp: mm_keeps_def mm_ok_def mm_wf_def page_locked_def)
qed

subsection \<open>Everything that changes the frame manager\<close>

text \<open>
  A step of the system, as the frame manager sees it: an allocation, a release, a change of
  protection or a swap-out, in any order and with any arguments.
\<close>

inductive mm_step :: "mm_state \<Rightarrow> mm_state \<Rightarrow> bool" where
  step_kmalloc: "kmalloc sz mm = Some (p, mm') \<Longrightarrow> mm_step mm mm'"
| step_alloc_frame: "pmm_alloc_frame mm = Some (p, mm') \<Longrightarrow> mm_step mm mm'"
| step_free_frame: "pmm_free_frame p mm = Some mm' \<Longrightarrow> mm_step mm mm'"
| step_protect: "mm_protect_region base sz mm = Some mm' \<Longrightarrow> mm_step mm mm'"
| step_mprotect: "mm_mprotect_set_flags a len f mm = Some (r, mm') \<Longrightarrow> mm_step mm mm'"
| step_swap_out: "mm_swap_out_page f \<lparr>swap_mm = mm, swap_used_slots = n\<rparr> = Some (r, s') \<Longrightarrow>
    mm_step mm (swap_mm s')"

inductive_cases mm_stepE: "mm_step mm mm'"

lemma mm_step_keeps: "mm_step mm mm' \<Longrightarrow> mm_ok mm \<Longrightarrow> mm_keeps mm mm'"
  by (induction rule: mm_step.induct) (auto intro: mm_keep dest: swap_out_keeps [rotated])

lemma mm_steps_keep:
  assumes "mm_step\<^sup>*\<^sup>* mm mm'" and "mm_ok mm"
  shows "mm_keeps mm mm'"
  using assms
proof (induction rule: rtranclp_induct)
  case base
  then show ?case by blast
next
  case (step y z)
  then show ?case using mm_step_keeps mm_keeps_trans by (metis mm_keeps_def)
qed

text \<open>The blocks handed out by \<open>kmalloc\<close>, as sets of byte addresses.\<close>

lemma pages_for_covers:
  assumes "pages_for sz \<noteq> 0"
  shows "unat sz \<le> unat (pages_for sz) * 4096"
proof (cases "unat sz + 4095 < 2 ^ 32")
  case True
  then have "unat (sz + PAGE_SIZE - 1) = unat sz + 4095"
    by (simp add: PAGE_SIZE_def unat_word_ariths)
  then have "unat (pages_for sz) = (unat sz + 4095) div 4096"
    by (simp add: pages_for_def unat_div PAGE_SIZE_def)
  then show ?thesis by simp
next
  case False
  have "unat (sz + 4095) = (unat sz + 4095) mod 4294967296" by (simp add: unat_word_ariths)
  moreover have "unat sz + 4095 = 4294967296 + (unat sz + 4095 - 4294967296)" using False by simp
  ultimately have "unat (sz + 4095) = (unat sz + 4095 - 4294967296) mod 4294967296"
    by (metis mod_add_self1)
  moreover have "unat sz + 4095 - 4294967296 < 4096"
    using unat_u32_lt [of sz] by linarith
  ultimately have "unat (4095 + sz) < 4096" by (simp add: add.commute)
  then have "unat (pages_for sz) = 0" by (simp add: pages_for_def unat_div PAGE_SIZE_def)
  with assms show ?thesis by (simp add: unat_eq_zero)
qed

definition block_bytes :: "u32 \<Rightarrow> u32 \<Rightarrow> nat set" where
  "block_bytes p sz = {a. unat p \<le> a \<and> a < unat p + unat sz}"

lemma kmalloc_block:
  assumes ok: "mm_ok mm" and k: "kmalloc sz mm = Some (p, mm')" and "p \<noteq> 0" and a: "a \<in> block_bytes p sz"
  shows "unat (phys_limit_start mm) \<le> a \<and>
    (a - unat (phys_limit_start mm)) div 4096 < unat (total_pages mm) \<and>
    page_free mm ((a - unat (phys_limit_start mm)) div 4096) \<and>
    page_used mm' ((a - unat (phys_limit_start mm)) div 4096)"
proof -
  let ?B = "unat (phys_limit_start mm)" and ?i = "(a - unat (phys_limit_start mm)) div 4096"
  from ok have wf: "mm_wf mm" and init: "initialized mm" by (simp_all add: mm_ok_def)
  have sz: "sz \<noteq> 0" using k \<open>p \<noteq> 0\<close> by (auto simp: kmalloc_def)
  have need: "pages_for sz \<noteq> 0" using k \<open>p \<noteq> 0\<close> kmalloc_too_big [OF wf] by auto
  from kmalloc_found [OF wf init sz need] k obtain r where
      fit: "first_fit mm (unat (next_free mm)) (unat (total_pages mm)) (unat (pages_for sz)) r"
      and eff: "kmalloc_effect (unat (pages_for sz)) r mm p mm'" by auto
  from eff \<open>p \<noteq> 0\<close> obtain s where r: "r = Some s" by (cases r) (auto simp: kmalloc_effect_def)
  from r fit have s: "s + unat (pages_for sz) \<le> unat (total_pages mm)"
      and run: "free_run mm s (unat (pages_for sz))" by (simp_all add: first_fit_def)
  have "0 < unat (pages_for sz)" using need by (simp add: unat_gt_0)
  with s have "s < unat (total_pages mm)" by simp
  from unat_frame_addr [OF ok this] r eff have p: "unat p = s * 4096 + ?B"
    by (simp add: kmalloc_effect_def frame_addr_def)
  from a p pages_for_covers [OF need] have
      "?B \<le> a" "s * 4096 \<le> a - ?B" "a - ?B < (s + unat (pages_for sz)) * 4096"
    by (auto simp: block_bytes_def)
  then have i: "s \<le> ?i" "?i < s + unat (pages_for sz)" by auto
  with run have "page_free mm ?i" by (simp add: free_run_def)
  moreover from r eff i have "page_used mm' ?i" by (auto simp: kmalloc_effect_def page_used_def)
  ultimately show ?thesis using \<open>?B \<le> a\<close> i s by simp
qed


subsection \<open>Zeroing a page\<close>

text \<open>\<open>mm_memset\<close> over a block that does not wrap around the address space.\<close>

lemma mm_memset_get:
  assumes "unat p + n \<le> 2 ^ 32"
  shows "mm_memset n p c m a = (if unat p \<le> unat a \<and> unat a < unat p + n then c else m a)"
  using assms
proof (induction n arbitrary: p m)
  case 0
  then show ?case by auto
next
  case (Suc n)
  show ?case
  proof (cases n)
    case 0
    then show ?thesis by (auto simp: word_unat_eq_iff)
  next
    case (Suc k)
    then have "unat (p + 1) = unat p + 1"
      using Suc.prems by (simp add: unat_plus1)
    moreover have "a \<noteq> p" if "unat a \<noteq> unat p" using that by auto
    moreover have "a = p" if "unat a = unat p" using that by (rule word_unat_eq_iff [THEN iffD2])
    ultimately show ?thesis using Suc.IH [of "p + 1" "m(p := c)"] Suc.prems
      by (cases "unat a = unat p") (auto simp: fun_upd_def)
  qed
qed

text \<open>
  What demand paging does when a frame is available: the picked frame is taken and zeroed, and
  the page is handed to \<open>vmm_map_page\<close>; the frame stays taken whatever the answer is.
\<close>

lemma handle_demand_paging_frame:
  assumes ok: "mm_ok (vm_mm s)" and "0x1000 \<le> addr" and i: "pick_frame (vm_mm s) = Some i"
    and map: "vmm_map_page (addr AND NOT 0xFFF) (frame_addr (vm_mm s) i) 7 (vm_tables s) = (status, pt)"
  shows "\<exists>mm'. handle_demand_paging vmm_map_page addr s =
      Some (if status = 0 then 1 else 0,
        s\<lparr>vm_mm := mm', vm_mem := mm_memset 4096 (frame_addr (vm_mm s) i) 0 (vm_mem s), vm_tables := pt\<rparr>) \<and>
    mm_ok mm' \<and> page_used mm' i \<and> (\<forall>j. page_free mm' j \<longleftrightarrow> page_free (vm_mm s) j \<and> j \<noteq> i)"
proof -
  have lt: "i < unat (total_pages (vm_mm s))" using pick_frame_Some i ok by (simp add: mm_ok_def)
  from pmm_alloc_frame_ok [OF ok] i obtain bm where
      a: "pmm_alloc_frame (vm_mm s) =
        Some (frame_addr (vm_mm s) i, (vm_mm s)\<lparr>bitmap := bm, next_free := of_nat (Suc i)\<rparr>)"
      and len: "length bm = length (bitmap (vm_mm s))"
      and bm: "\<And>j. bm_has bm j \<longleftrightarrow> page_used (vm_mm s) j \<or> j = i" by auto
  let ?mm = "(vm_mm s)\<lparr>bitmap := bm, next_free := of_nat (Suc i)\<rparr>"
  have "mm_ok ?mm" by (rule mm_ok_update [OF ok len]) (use lt in simp)
  moreover have "page_used ?mm i \<and> (\<forall>j. page_free ?mm j \<longleftrightarrow> page_free (vm_mm s) j \<and> j \<noteq> i)"
    using bm by (auto simp: page_used_def page_free_def page_locked_def)
  moreover have "\<not> addr < 0x1000" using assms(2) by (simp add: not_less)
  then have "handle_demand_paging vmm_map_page addr s = Some (if status = 0 then 1 else 0,
        s\<lparr>vm_mm := ?mm, vm_mem := mm_memset 4096 (frame_addr (vm_mm s) i) 0 (vm_mem s), vm_tables := pt\<rparr>)"
    using a map frame_addr_nonzero [OF ok lt] by (simp add: handle_demand_paging_def PAGE_SIZE_def)
  ultimately show ?thesis by (intro exI [of _ ?mm]) simp
qed


subsection \<open>Properties\<close>

text \<open>
  C2: \<open>kmalloc\<close> is a first-fit page allocator. On every well-formed manager it returns without
  leaving its bitmaps. It answers NULL and changes nothing before initialisation, for size 0
  and for sizes whose rounding up wraps; otherwise the block is the lowest run of enough free
  pages at or above \<open>next_free\<close> (NULL when there is none), exactly its pages become used, and
  the hint moves behind it.
\<close>

theorem kmalloc_first_fit:
  assumes "mm_wf mm"
  shows "\<exists>r p mm'. kmalloc sz mm = Some (p, mm') \<and> mm_wf mm' \<and>
    (if \<not> initialized mm \<or> pages_for sz = 0 then p = 0 \<and> mm' = mm
     else first_fit mm (unat (next_free mm)) (unat (total_pages mm)) (unat (pages_for sz)) r \<and>
       kmalloc_effect (unat (pages_for sz)) r mm p mm')"
proof (cases "\<not> initialized mm \<or> pages_for sz = 0")
  case True
  then have "kmalloc sz mm = Some (0, mm)"
  proof
    assume "\<not> initialized mm"
    then show ?thesis by (simp add: kmalloc_def)
  qed (rule kmalloc_too_big [OF assms])
  with True assms show ?thesis by simp
next
  case False
  then have "sz \<noteq> 0" by (auto simp: pages_for_def PAGE_SIZE_def)
  with False kmalloc_found [OF assms] kmalloc_effect_wf [OF assms] show ?thesis by fastforce
qed

lemma booted:
  "\<exists>mm. mm_init_universal 0x100000 0x104000 0x100000 0x1000000 mm_boot = Some mm \<and>
     mm_wf mm \<and> initialized mm \<and> phys_limit_start mm = 0x100000 \<and>
     unat (total_pages mm) = 4096 \<and> mm_ok mm \<and> next_free mm = 0 \<and>
     (\<forall>j. page_used mm j \<longleftrightarrow> page_locked mm j) \<and> (\<forall>j. page_locked mm j \<longleftrightarrow> j < 5)"
proof -
  obtain mm where mm: "mm_init_universal 0x100000 0x104000 0x100000 0x1000000 mm_boot = Some mm"
      "mm_wf mm" "initialized mm" "phys_limit_start mm = 0x100000" "unat (total_pages mm) = 4096"
      "\<forall>j. page_used mm j \<longleftrightarrow> page_locked mm j" "\<forall>j. page_locked mm j \<longleftrightarrow> j < 5"
    using mm_init_universal_in [of mm_boot "0x1000000" "0x100000" "0x100000" "0x104000"]
    by (auto simp: mm_boot_def)
  have "next_free mm = 0" using mm(1) mm_init_universal_hint by (fastforce simp: mm_boot_def)
  with mm show ?thesis by (auto simp: mm_ok_def)
qed

theorem kmalloc_first_fit_witness:
  "\<exists>mm r p mm'. mm_wf mm \<and> initialized mm \<and> kmalloc 5000 mm = Some (p, mm') \<and> mm_wf mm' \<and>
     first_fit mm 0 4096 2 r \<and> kmalloc_effect 2 r mm p mm'"
proof -
  obtain mm where mm: "mm_wf mm" "initialized mm" "unat (total_pages mm) = 4096" "next_free mm = 0"
    using booted by blast
  have "pages_for 5000 = 2" by (simp add: pages_for_def PAGE_SIZE_def)
  with kmalloc_first_fit [OF mm(1), of 5000] mm show ?thesis by auto
qed

text \<open>
  C1: no byte of the kernel image is ever handed out. From initialisation on, after any
  sequence of allocations, releases, protection changes and swap-outs, a block returned by
  \<open>kmalloc\<close> lies inside the managed RAM, its pages were free before and are used after, and it
  contains no address between \<open>k_start\<close> and \<open>k_end\<close>. (The RAM has at most 2^28 bytes, does not begin at
  address 0 or wrap, and the kernel begins in it and ends at least two pages before 2^28 bytes from its
  start.)
\<close>

theorem kernel_never_allocated:
  assumes init: "\<not> initialized mm0" "next_free mm0 = 0"
      "mm_init_universal k_start k_end ram_start ram_size mm0 = Some mm1"
    and ram: "unat ram_size \<le> 2 ^ 28" "ram_start \<noteq> 0" "unat ram_start + unat ram_size \<le> 2 ^ 32"
    and kern: "ram_start \<le> k_start" "k_start \<le> k_end" "unat k_end - unat ram_start + 2 * 4096 \<le> 2 ^ 28"
    and run: "mm_step\<^sup>*\<^sup>* mm1 mm"
    and k: "kmalloc sz mm = Some (p, mm')"
  shows "p = 0 \<or>
    (\<forall>a \<in> block_bytes p sz. unat ram_start \<le> a \<and> a < unat ram_start + unat ram_size \<and>
       page_free mm ((a - unat ram_start) div 4096) \<and> page_used mm' ((a - unat ram_start) div 4096) \<and>
       \<not> (unat k_start \<le> a \<and> a < unat k_end))"
proof -
  from mm_init_universal_in [OF init(1,2) ram(1) kern] init(3) have
      m: "mm_wf mm1" "initialized mm1" "phys_limit_start mm1 = ram_start"
        "unat (total_pages mm1) = unat ram_size div 4096"
      and lock: "\<And>j. page_locked mm1 j \<longleftrightarrow> (unat k_start - unat ram_start) div 4096 \<le> j \<and>
         j < (unat k_end - unat ram_start + 8191) div 4096" by auto
  from m ram have "mm_ok mm1" by (auto simp: mm_ok_def)
  with mm_steps_keep [OF run] have keep: "mm_keeps mm1 mm" by blast
  then have ok: "mm_ok mm" and st: "phys_limit_start mm = ram_start"
      "unat (total_pages mm) = unat ram_size div 4096"
    using m by (simp_all add: mm_keeps_def)
  have "unat ram_start \<le> a \<and> a < unat ram_start + unat ram_size \<and>
       page_free mm ((a - unat ram_start) div 4096) \<and> page_used mm' ((a - unat ram_start) div 4096) \<and>
       \<not> (unat k_start \<le> a \<and> a < unat k_end)" if "p \<noteq> 0" and a: "a \<in> block_bytes p sz" for a
  proof -
    let ?i = "(a - unat ram_start) div 4096"
    have b: "unat ram_start \<le> a" "?i < unat ram_size div 4096" "page_free mm ?i" "page_used mm' ?i"
      using kmalloc_block [OF ok k that] st by simp_all
    from b(2) have "a - unat ram_start < unat ram_size"
      using div_le_mono not_less by blast
    moreover have "\<not> page_locked mm1 ?i"
      using b(3) keep by (auto simp: mm_keeps_def page_free_def)
    have "\<not> (unat k_start \<le> a \<and> a < unat k_end)"
    proof
      assume "unat k_start \<le> a \<and> a < unat k_end"
      then have "unat k_start - unat ram_start \<le> a - unat ram_start"
          "a - unat ram_start < unat k_end - unat ram_start + 4096"
        using b(1) by linarith+
      from page_of_byte [OF this] have "page_locked mm1 ?i" by (simp add: lock add.commute)
      with \<open>\<not> page_locked mm1 ?i\<close> show False ..
    qed
    ultimately show ?thesis using b by simp
  qed
  then show ?thesis by blast
qed

theorem kernel_never_allocated_witness:
  "\<exists>mm p mm'. mm_init_universal 0x100000 0x104000 0x100000 0x1000000 mm_boot = Some mm \<and>
     kmalloc 5000 mm = Some (p, mm') \<and> p \<noteq> 0 \<and>
     (\<forall>a \<in> block_bytes p 5000. \<not> (0x100000 \<le> a \<and> a < 0x104000))"
proof -
  obtain mm where mm: "mm_init_universal 0x100000 0x104000 0x100000 0x1000000 mm_boot = Some mm"
      "mm_wf mm" "initialized mm" "mm_ok mm" "unat (total_pages mm) = 4096" "next_free mm = 0"
      and lock: "\<And>j. page_used mm j \<longleftrightarrow> page_locked mm j" "\<And>j. page_locked mm j \<longleftrightarrow> j < 5"
    using booted by blast
  have need: "pages_for 5000 = 2" by (simp add: pages_for_def PAGE_SIZE_def)
  with kmalloc_found [OF mm(2,3), of 5000] mm(5,6) obtain r p mm' where
      k: "kmalloc 5000 mm = Some (p, mm')" "first_fit mm 0 4096 2 r" "kmalloc_effect 2 r mm p mm'"
    by auto
  have "free_run mm 5 2" by (auto simp: free_run_def page_free_def lock)
  with k(2) obtain s where "r = Some s" "s + 2 \<le> 4096"
    by (cases r) (auto simp: first_fit_def)
  with k(3) frame_addr_nonzero [OF mm(4), of s] mm(5) have "p \<noteq> 0"
    by (simp add: kmalloc_effect_def frame_addr_def)
  moreover have "p = 0 \<or> (\<forall>a \<in> block_bytes p 5000. unat (0x100000 :: u32) \<le> a \<and>
       a < unat (0x100000 :: u32) + unat (0x1000000 :: u64) \<and>
       page_free mm ((a - unat (0x100000 :: u32)) div 4096) \<and>
       page_used mm' ((a - unat (0x100000 :: u32)) div 4096) \<and>
       \<not> (unat (0x100000 :: u32) \<le> a \<and> a < unat (0x104000 :: u32)))"
    by (rule kernel_never_allocated [OF _ _ mm(1) _ _ _ _ _ _ rtranclp.rtrancl_refl k(1)])
      (simp_all add: mm_boot_def)
  ultimately show ?thesis using mm(1) k(1) by auto
qed


text \<open>
  a client of the single-frame allocator that asks for \<open>n\<close> frames gets them exactly when
  that many are free, and the frames it gets are pairwise different, were free and
  unprotected, and are the only ones whose status changes.
\<close>

theorem pmm_alloc_run:
  assumes "mm_ok mm"
  shows "(alloc_many pmm_slot n mm \<noteq> None \<longleftrightarrow> n \<le> card {i. i < unat (total_pages mm) \<and> page_free mm i}) \<and>
    (\<forall>is mm'. alloc_many pmm_slot n mm = Some (is, mm') \<longrightarrow>
       length is = n \<and> distinct is \<and> (\<forall>i \<in> set is. i < unat (total_pages mm) \<and> page_free mm i) \<and>
       mm_ok mm' \<and> (\<forall>j. page_free mm' j \<longleftrightarrow> page_free mm j \<and> j \<notin> set is))"
proof -
  have free: "free_slots (\<lambda>mm i. \<not> page_free mm i) (\<lambda>mm. unat (total_pages mm)) mm =
      {i. i < unat (total_pages mm) \<and> page_free mm i}"
    by (simp add: free_slots_def)
  show ?thesis
    using pmm.alloc_many_succeeds_iff [OF assms, of n] pmm.alloc_many_spec [OF assms, of n]
    unfolding free by blast
qed

theorem pmm_alloc_run_witness:
  "\<exists>mm is mm'. mm_ok mm \<and> alloc_many pmm_slot 3 mm = Some (is, mm') \<and> length is = 3 \<and> distinct is"
proof -
  obtain mm where ok: "mm_ok mm" and n: "unat (total_pages mm) = 4096"
      and lock: "\<And>j. page_used mm j \<longleftrightarrow> page_locked mm j" "\<And>j. page_locked mm j \<longleftrightarrow> j < 5"
    using booted by blast
  have "{i. i < unat (total_pages mm) \<and> page_free mm i} = {5..<4096}"
    by (auto simp: n page_free_def lock)
  then have "3 \<le> card {i. i < unat (total_pages mm) \<and> page_free mm i}" by simp
  with pmm_alloc_run [OF ok, of 3] obtain "is" mm' where
      "alloc_many pmm_slot 3 mm = Some (is, mm')" by auto
  with pmm_alloc_run [OF ok, of 3] ok show ?thesis by blast
qed

text \<open>
  \<open>mm_mprotect_set_flags\<close> is a one-way door. \<open>PROT_NONE\<close> adds protection to a range that
  starts at the first page asked for and, when 0 is returned, ends at the last one (otherwise
  it stops at the first page outside RAM, with -ENOMEM, or already protected, with -EACCES,
  keeping what was done so far); every other flag combination leaves the manager exactly as
  it was, because the pages it would have to unlock are refused.
\<close>

theorem mprotect_only_adds:
  assumes "mm_mprotect_set_flags a len f mm = Some (r, mm')"
  shows "if f \<noteq> PROT_NONE \<or> a < phys_limit_start mm \<or> len = 0 then mm' = mm
    else \<exists>e. let s = unat ((a - phys_limit_start mm) div PAGE_SIZE);
               n = unat ((a + len + PAGE_SIZE - 1 - phys_limit_start mm) div PAGE_SIZE) in
      bitmap mm' = bitmap mm \<and>
      (\<forall>j. page_locked mm' j \<longleftrightarrow> page_locked mm j \<or> s \<le> j \<and> j < e) \<and>
      (if r = 0 then e = max s n
       else s \<le> e \<and> e < n \<and>
         (if e \<ge> unat (total_pages mm) then r = -12 else page_locked mm e \<and> r = -13))"
proof (cases "a < phys_limit_start mm \<or> len = 0")
  case True
  with assms show ?thesis by (auto simp: mm_mprotect_set_flags_def)
next
  case False
  let ?s = "unat ((a - phys_limit_start mm) div PAGE_SIZE)"
  let ?n = "unat ((a + len + PAGE_SIZE - 1 - phys_limit_start mm) div PAGE_SIZE)"
  from False assms have l: "mprotect_loop ?s ?n f mm = Some (r, mm')"
    by (simp add: mm_mprotect_set_flags_def Let_def)
  show ?thesis
  proof (cases "f = PROT_NONE")
    case True
    from mprotect_loop_none [OF l [unfolded True]] obtain pb e where
        "mm' = mm\<lparr>protection_bitmap := pb\<rparr>"
        "\<forall>j. bm_has pb j \<longleftrightarrow> page_locked mm j \<or> ?s \<le> j \<and> j < e"
        "if r = 0 then e = max ?s ?n
         else ?s \<le> e \<and> e < ?n \<and>
           (if e \<ge> unat (total_pages mm) then r = -12 else page_locked mm e \<and> r = -13)"
      by blast
    then have "bitmap mm' = bitmap mm \<and>
      (\<forall>j. page_locked mm' j \<longleftrightarrow> page_locked mm j \<or> ?s \<le> j \<and> j < e) \<and>
      (if r = 0 then e = max ?s ?n
       else ?s \<le> e \<and> e < ?n \<and>
         (if e \<ge> unat (total_pages mm) then r = -12 else page_locked mm e \<and> r = -13))"
      by (simp add: page_locked_def)
    with True False show ?thesis unfolding Let_def by (simp only: if_False simp_thms) blast
  next
    case other: False
    with mprotect_loop_other [OF l] show ?thesis by simp
  qed
qed

definition mm_small :: mm_state where
  "mm_small = mm_boot\<lparr>bitmap := [0], protection_bitmap := [1], total_pages := 8,
     initialized := True, phys_limit_start := 0x100000\<rparr>"

theorem mprotect_only_adds_witness:
  "mm_mprotect_set_flags 0x101000 0x2000 PROT_NONE mm_small =
     Some (0, mm_small\<lparr>protection_bitmap := [7]\<rparr>) \<and>
   (let mm' = mm_small\<lparr>protection_bitmap := [7]\<rparr> in
     bitmap mm' = bitmap mm_small \<and>
     (\<forall>j. page_locked mm' j \<longleftrightarrow> page_locked mm_small j \<or> 1 \<le> j \<and> j < 3)) \<and>
   mm_mprotect_set_flags 0x101000 0x2000 2 (mm_small\<lparr>protection_bitmap := [7]\<rparr>) =
     Some (-13, mm_small\<lparr>protection_bitmap := [7]\<rparr>)"
proof -
  have e: "mm_mprotect_set_flags 0x101000 0x2000 PROT_NONE mm_small =
     Some (0, mm_small\<lparr>protection_bitmap := [7]\<rparr>)"
    "mm_mprotect_set_flags 0x101000 0x2000 2 (mm_small\<lparr>protection_bitmap := [7]\<rparr>) =
     Some (-13, mm_small\<lparr>protection_bitmap := [7]\<rparr>)"
    by (simp_all add: mm_mprotect_set_flags_def mprotect_loop.simps mm_small_def mm_boot_def PAGE_SIZE_def
        mm_is_page_protected_def mm_get_protected_def PROT_NONE_def bm_on_def bit_on_def)
  have "max 1 3 = (3::nat)" by simp
  with mprotect_only_adds [OF e(1)] show ?thesis
    by (simp add: e Let_def) (simp add: mm_small_def PAGE_SIZE_def)
qed


text \<open>
  \<open>mm_get_free_memory\<close> is exact for up to 65536 managed pages (256 MB) and reads past the
  end of the static bitmap for any larger RAM, since \<open>total_pages\<close> is never clamped to
  \<open>BITMAP_SIZE * 8\<close>.
\<close>

theorem free_memory_exact:
  assumes "initialized mm" and "length (bitmap mm) = BITMAP_SIZE"
  shows "mm_get_free_memory mm =
    (if total_pages mm \<le> 65536
     then Some (of_nat (card {j. j < unat (total_pages mm) \<and> \<not> page_used mm j}) * 4096)
     else None)"
proof (cases "total_pages mm \<le> 65536")
  case True
  then have n: "unat (total_pages mm) \<le> 65536" by (simp add: word_le_nat_alt)
  from count_free_spec [of "unat (total_pages mm)" mm 0 0] n assms(2) obtain f where
      f: "count_free 0 (unat (total_pages mm)) 0 mm = Some f"
      "unat f = card {j. j < unat (total_pages mm) \<and> \<not> page_used mm j}"
    by (auto simp: BITMAP_SIZE_def)
  have "(ucast f :: u64) = of_nat (unat f)" by (simp add: unsigned_ucast_eq)
  with f True assms(1) show ?thesis by (simp add: mm_get_free_memory_def)
next
  case False
  then have "65536 < unat (total_pages mm)" by (simp add: word_le_nat_alt)
  with count_free_overrun [of mm "unat (total_pages mm)" 0 0] assms False show ?thesis
    by (simp add: mm_get_free_memory_def BITMAP_SIZE_def)
qed

theorem free_memory_exact_witness:
  "\<exists>mm. initialized mm \<and> length (bitmap mm) = BITMAP_SIZE \<and> total_pages mm = 65537 \<and>
     mm_get_free_memory mm = None \<and> mm_get_free_memory (mm\<lparr>total_pages := 0\<rparr>) = Some 0"
proof -
  let ?mm = "mm_boot\<lparr>bitmap := replicate BITMAP_SIZE 0, total_pages := 65537, initialized := True\<rparr>"
  have "mm_get_free_memory ?mm = None"
    using free_memory_exact [of ?mm] by simp
  moreover have "mm_get_free_memory (?mm\<lparr>total_pages := 0\<rparr>) = Some 0"
    using free_memory_exact [of "?mm\<lparr>total_pages := 0\<rparr>"] by simp
  ultimately show ?thesis by (intro exI [of _ ?mm]) simp
qed

text \<open>
  a page fault above the first page is served with a frame that was free: the frame is
  zeroed (and nothing else is written), it is the one passed to \<open>vmm_map_page\<close> together with
  the page-aligned address, and the fault handler resumes the task exactly when the mapping
  succeeds. When the mapping fails the task is killed and the frame stays marked used: it is
  leaked.
\<close>

theorem page_fault_takes_frame:
  assumes ok: "mm_ok (vm_mm s)" and addr: "0x1000 \<le> stval" and i: "pick_frame (vm_mm s) = Some i"
    and map: "vmm_map_page (stval AND NOT 0xFFF) (frame_addr (vm_mm s) i) 7 (vm_tables s) = (status, pt)"
  shows "\<exists>s'. do_page_fault vmm_map_page True stval s =
      Some (if status = 0 then Resumed else Exited (-11), s') \<and>
    page_free (vm_mm s) i \<and> mm_ok (vm_mm s') \<and> vm_tables s' = pt \<and>
    page_used (vm_mm s') i \<and> (\<forall>j. page_free (vm_mm s') j \<longleftrightarrow> page_free (vm_mm s) j \<and> j \<noteq> i) \<and>
    (\<forall>a. vm_mem s' a =
       (if unat (frame_addr (vm_mm s) i) \<le> unat a \<and> unat a < unat (frame_addr (vm_mm s) i) + 4096
        then 0 else vm_mem s a))"
proof -
  have it: "i < unat (total_pages (vm_mm s)) \<and> page_free (vm_mm s) i"
    using pick_frame_Some i ok by (simp add: mm_ok_def)
  have "unat (frame_addr (vm_mm s) i) + 4096 \<le> 2 ^ 32"
    using unat_frame_addr [OF ok, of i] it ok by (simp add: mm_ok_def)
  note mem = mm_memset_get [OF this]
  from handle_demand_paging_frame [of s stval i vmm_map_page status pt, OF ok addr i map] obtain mm' where
      h: "handle_demand_paging vmm_map_page stval s =
        Some (if status = 0 then 1 else 0,
          s\<lparr>vm_mm := mm', vm_mem := mm_memset 4096 (frame_addr (vm_mm s) i) 0 (vm_mem s), vm_tables := pt\<rparr>)"
      and mm': "mm_ok mm'" "page_used mm' i" "\<forall>j. page_free mm' j \<longleftrightarrow> page_free (vm_mm s) j \<and> j \<noteq> i"
    by auto
  from addr have "stval \<noteq> 0" by auto
  with h have "do_page_fault vmm_map_page True stval s =
      Some (if status = 0 then Resumed else Exited (-11),
        s\<lparr>vm_mm := mm', vm_mem := mm_memset 4096 (frame_addr (vm_mm s) i) 0 (vm_mem s), vm_tables := pt\<rparr>)"
    by (simp add: do_page_fault_def)
  with it mm' mem show ?thesis by (intro exI conjI) (assumption, simp_all)
qed

theorem page_fault_takes_frame_witness:
  "\<exists>s'. do_page_fault (\<lambda>v p f pt. (-12, pt)) True 0x5123
      \<lparr>vm_mm = mm_small, vm_mem = (\<lambda>_. 7), vm_tables = ()\<rparr> = Some (Exited (-11), s') \<and>
    page_free mm_small 1 \<and> page_used (vm_mm s') 1"
proof -
  let ?s = "\<lparr>vm_mm = mm_small, vm_mem = (\<lambda>_. 7), vm_tables = ()\<rparr>"
  have has: "bm_has [0 :: u8] j = False" "bm_has [1 :: u8] j \<longleftrightarrow> j = 0" for j
    by (auto simp: bm_has_def bit_simps)
  have free: "page_free mm_small j \<longleftrightarrow> j \<noteq> 0" for j
    by (simp add: page_free_def page_used_def page_locked_def mm_small_def mm_boot_def has)
  have ok: "mm_ok mm_small"
    by (simp add: mm_ok_def mm_wf_def mm_small_def mm_boot_def)
  have "find (page_free mm_small) [0..<8] = Some 1" by (simp add: find_upt_Some free)
  moreover have "unat (next_free mm_small) = 0" "unat (total_pages mm_small) = 8"
    by (simp_all add: mm_small_def mm_boot_def)
  ultimately have "pick_frame mm_small = Some 1" by (simp only: pick_frame_def option.case)
  with page_fault_takes_frame [of ?s "0x5123" 1 "\<lambda>v p f pt. (-12, pt)" "-12" "()"] ok
  show ?thesis by auto
qed

end
