(* ===== verification/CString.thy ===== *)
theory CString
  imports Prelude "HOL-Library.Sublist"
begin

text \<open>
  The C string library of the kernel, \<open>usr/lib/string.c\<close>. A pointer that is only read is the
  list of the characters from it to the end of its array, so \<open>p++\<close> is the tail and a read of
  the empty list is the over-read (None). A destination is the whole array with an index.
  Destination and source do not overlap (C requires it of these functions' callers).
\<close>

subsection \<open>Length, comparison and search\<close>

fun strlen_from :: "nat \<Rightarrow> char list \<Rightarrow> nat option" where
  "strlen_from len [] = None"
| "strlen_from len (c # str) = (if c \<noteq> NUL then strlen_from (Suc len) str else Some len)"

definition strlen :: "char list \<Rightarrow> nat option" where
  "strlen str = strlen_from 0 str"

text \<open>The difference of two characters taken as \<open>unsigned char\<close>.\<close>

definition uchar_diff :: "char \<Rightarrow> char \<Rightarrow> int" where
  "uchar_diff a b = of_char a - of_char b"

fun strncmp :: "char list \<Rightarrow> char list \<Rightarrow> nat \<Rightarrow> int option" where
  "strncmp str1 str2 0 = Some 0"
| "strncmp (a # str1) (b # str2) (Suc n) =
     (if a \<noteq> NUL \<and> a = b then strncmp str1 str2 n else Some (uchar_diff a b))"
| "strncmp str1 str2 (Suc n) = None"

fun strcmp :: "char list \<Rightarrow> char list \<Rightarrow> int option" where
  "strcmp (a # s1) (b # s2) = (if a \<noteq> NUL \<and> a = b then strcmp s1 s2 else Some (uchar_diff a b))"
| "strcmp s1 s2 = None"

fun memcmp_loop :: "char list \<Rightarrow> char list \<Rightarrow> nat \<Rightarrow> int option" where
  "memcmp_loop p1 p2 0 = Some 0"
| "memcmp_loop (a # p1) (b # p2) (Suc n) =
     (if a \<noteq> b then Some (uchar_diff a b) else memcmp_loop p1 p2 n)"
| "memcmp_loop p1 p2 (Suc n) = None"

text \<open>\<open>n\<close> is an \<open>int\<close>: a negative count runs no iteration.\<close>

definition memcmp :: "char list \<Rightarrow> char list \<Rightarrow> int \<Rightarrow> int option" where
  "memcmp s1 s2 n = memcmp_loop s1 s2 (nat n)"

definition bcmp :: "char list \<Rightarrow> char list \<Rightarrow> int \<Rightarrow> int option" where
  "bcmp s1 s2 n = memcmp s1 s2 n"

text \<open>Searches return the offset found, or None inside for the NULL result.\<close>

fun strchr_from :: "nat \<Rightarrow> char list \<Rightarrow> char \<Rightarrow> nat option option" where
  "strchr_from i [] c = None"
| "strchr_from i (x # s) c =
     (if x \<noteq> c then (if x = NUL then Some None else strchr_from (Suc i) s c) else Some (Some i))"

definition strchr :: "char list \<Rightarrow> char \<Rightarrow> nat option option" where
  "strchr s c = strchr_from 0 s c"

fun strrchr_from :: "nat \<Rightarrow> nat option \<Rightarrow> char list \<Rightarrow> char \<Rightarrow> nat option option" where
  "strrchr_from i found [] c = None"
| "strrchr_from i found (x # s) c =
     (let found' = (if x = c then Some i else found)
      in if x \<noteq> NUL then strrchr_from (Suc i) found' s c else Some found')"

definition strrchr :: "char list \<Rightarrow> char \<Rightarrow> nat option option" where
  "strrchr s c = strrchr_from 0 None s c"

text \<open>The inner loop of \<open>strstr\<close> and its test \<open>!*n\<close>.\<close>

fun strstr_match :: "char list \<Rightarrow> char list \<Rightarrow> bool option" where
  "strstr_match (a # h) (b # n) =
     (if a \<noteq> NUL \<and> b \<noteq> NUL \<and> a = b then strstr_match h n else Some (b = NUL))"
| "strstr_match h n = None"

fun strstr_from :: "nat \<Rightarrow> char list \<Rightarrow> char list \<Rightarrow> nat option option" where
  "strstr_from i [] needle = None"
| "strstr_from i (x # h) needle =
     (if x = NUL then Some None
      else do { n \<leftarrow> rd needle 0;
                if x = n
                then do { m \<leftarrow> strstr_match (x # h) needle;
                          if m then Some (Some i) else strstr_from (Suc i) h needle }
                else strstr_from (Suc i) h needle })"

definition strstr :: "char list \<Rightarrow> char list \<Rightarrow> nat option option" where
  "strstr haystack needle =
     do { n \<leftarrow> rd needle 0; if n = NUL then Some (Some 0) else strstr_from 0 haystack needle }"

subsection \<open>Copying\<close>

function memcpy_loop :: "nat \<Rightarrow> nat \<Rightarrow> char list \<Rightarrow> char list \<Rightarrow> char list option" where
  "memcpy_loop i n d s =
     (if i < n then do { c \<leftarrow> rd s i; d' \<leftarrow> wr d i c; memcpy_loop (Suc i) n d' s } else Some d)"
  by pat_completeness auto
termination
  by (relation "measure (\<lambda>(i, n, d, s). n - i)") auto

definition memcpy :: "char list \<Rightarrow> char list \<Rightarrow> int \<Rightarrow> char list option" where
  "memcpy dest src n = memcpy_loop 0 (nat n) dest src"

text \<open>\<open>while (n--)\<close> with a negative \<open>n\<close> runs past the end of any array.\<close>

function memset_loop :: "nat \<Rightarrow> int \<Rightarrow> char \<Rightarrow> char list \<Rightarrow> char list option" where
  "memset_loop i n c p =
     (if n = 0 then Some p
      else if i < length p then memset_loop (Suc i) (n - 1) c (p[i := c]) else None)"
  by pat_completeness auto
termination
  by (relation "measure (\<lambda>(i, n, c, p). length p - i)") auto

definition memset :: "char list \<Rightarrow> int \<Rightarrow> int \<Rightarrow> char list option" where
  "memset dest c n = memset_loop 0 n (char_of c) dest"

fun strcpy_at :: "char list \<Rightarrow> nat \<Rightarrow> char list \<Rightarrow> char list option" where
  "strcpy_at dest i [] = None"
| "strcpy_at dest i (c # src) =
     (if c \<noteq> NUL then do { d \<leftarrow> wr dest i c; strcpy_at d (Suc i) src } else wr dest i NUL)"

definition strcpy :: "char list \<Rightarrow> char list \<Rightarrow> char list option" where
  "strcpy dest src = strcpy_at dest 0 src"

text \<open>The first loop of \<open>strcat\<close> walks to the terminator, the rest is the loop of \<open>strcpy\<close>.\<close>

definition strcat :: "char list \<Rightarrow> char list \<Rightarrow> char list option" where
  "strcat dest src = do { ptr \<leftarrow> strlen_from 0 dest; strcpy_at dest ptr src }"

function strncpy_fill :: "nat \<Rightarrow> nat \<Rightarrow> char list \<Rightarrow> char list option" where
  "strncpy_fill i n dest =
     (if i < n then do { d \<leftarrow> wr dest i NUL; strncpy_fill (Suc i) n d } else Some dest)"
  by pat_completeness auto
termination
  by (relation "measure (\<lambda>(i, n, d). n - i)") auto

function strncpy_copy :: "nat \<Rightarrow> nat \<Rightarrow> char list \<Rightarrow> char list \<Rightarrow> (nat \<times> char list) option" where
  "strncpy_copy i n dest src =
     (if i < n
      then do { c \<leftarrow> rd src i;
                if c \<noteq> NUL then do { d \<leftarrow> wr dest i c; strncpy_copy (Suc i) n d src }
                else Some (i, dest) }
      else Some (i, dest))"
  by pat_completeness auto
termination
  by (relation "measure (\<lambda>(i, n, d, s). n - i)") auto

declare memcpy_loop.simps [simp del] memset_loop.simps [simp del] strncpy_fill.simps [simp del]
  strncpy_copy.simps [simp del]

definition strncpy :: "char list \<Rightarrow> char list \<Rightarrow> int \<Rightarrow> char list option" where
  "strncpy dest src n =
     do { (i, d) \<leftarrow> strncpy_copy 0 (nat n) dest src; strncpy_fill i (nat n) d }"

subsection \<open>Numbers\<close>

definition is_digit :: "char \<Rightarrow> bool" where
  "is_digit c \<longleftrightarrow> 48 \<le> (of_char c :: nat) \<and> (of_char c :: nat) \<le> 57"

fun atoi_from :: "int \<Rightarrow> char list \<Rightarrow> int option" where
  "atoi_from res [] = None"
| "atoi_from res (c # s) =
     (if is_digit c
      then do { r \<leftarrow> int32 (res * 10); r' \<leftarrow> int32 (r + (of_char c - 48)); atoi_from r' s }
      else Some res)"

definition atoi :: "char list \<Rightarrow> int option" where
  "atoi s = atoi_from 0 s"

definition itoa :: "int \<Rightarrow> char list \<Rightarrow> char list option" where
  "itoa n s = do { s1 \<leftarrow> wr s 0 (char_of (n + 48)); wr s1 1 NUL }"

definition digit_value :: "char \<Rightarrow> nat option" where
  "digit_value c =
     (let v = (of_char c :: nat)
      in if 48 \<le> v \<and> v \<le> 57 then Some (v - 48)
         else if 97 \<le> v \<and> v \<le> 102 then Some (v - 97 + 10)
         else if 65 \<le> v \<and> v \<le> 70 then Some (v - 65 + 10)
         else None)"

text \<open>
  The result is a 32-bit word (\<open>long * unsigned int\<close> is unsigned arithmetic in the \<open>-m32\<close>
  build) with the number of characters consumed, which is where \<open>*endp\<close> points.
\<close>

fun strtol_loop :: "nat \<Rightarrow> u32 \<Rightarrow> u32 \<Rightarrow> char list \<Rightarrow> (u32 \<times> nat) option" where
  "strtol_loop i base res [] = None"
| "strtol_loop i base res (c # cp) =
     (case digit_value c of
        None \<Rightarrow> Some (res, i)
      | Some v \<Rightarrow>
          if of_nat v \<ge> base then Some (res, i)
          else strtol_loop (Suc i) base (res * base + of_nat v) cp)"

definition simple_strtol :: "char list \<Rightarrow> u32 \<Rightarrow> (u32 \<times> nat) option" where
  "simple_strtol cp base =
     (if base = 0
      then do { c \<leftarrow> rd cp 0;
                if c = CHR ''0''
                then do { x \<leftarrow> rd cp 1;
                          if x = CHR ''x'' \<or> x = CHR ''X'' then strtol_loop 2 16 0 (drop 2 cp)
                          else strtol_loop 1 8 0 (drop 1 cp) }
                else strtol_loop 0 10 0 cp }
      else strtol_loop 0 base 0 cp)"

subsection \<open>Tokens\<close>

text \<open>
  The static pointer \<open>last\<close> of \<open>strtok\<close> is an offset into the array of the string being split.
  Both scanning loops look at one character and ask \<open>strchr\<close> whether it is a delimiter.
\<close>

record tok_state =
  tok_buf :: "char list"
  tok_last :: "nat option"

function strtok_skip :: "bool \<Rightarrow> char list \<Rightarrow> char list \<Rightarrow> nat \<Rightarrow> nat option" where
  "strtok_skip member buf delim i =
     (if i < length buf
      then (if buf ! i = NUL then Some i
            else do { d \<leftarrow> strchr delim (buf ! i);
                      if (d \<noteq> None) = member then strtok_skip member buf delim (Suc i) else Some i })
      else None)"
  by pat_completeness auto
termination
  by (relation "measure (\<lambda>(m, buf, d, i). length buf - i)") auto

declare strtok_skip.simps [simp del]

definition strtok :: "char list option \<Rightarrow> char list \<Rightarrow> tok_state \<Rightarrow> (nat option \<times> tok_state) option" where
  "strtok str delim st =
     (let st0 = (case str of Some b \<Rightarrow> \<lparr>tok_buf = b, tok_last = Some 0\<rparr> | None \<Rightarrow> st)
      in case tok_last st0 of
           None \<Rightarrow> Some (None, st0)
         | Some l \<Rightarrow>
             do { start \<leftarrow> strtok_skip True (tok_buf st0) delim l;
                  c \<leftarrow> rd (tok_buf st0) start;
                  (if c = NUL then Some (None, st0\<lparr>tok_last := Some start\<rparr>)
                   else do { e \<leftarrow> strtok_skip False (tok_buf st0) delim start;
                             x \<leftarrow> rd (tok_buf st0) e;
                             (if x \<noteq> NUL
                              then do { b \<leftarrow> wr (tok_buf st0) e NUL;
                                        Some (Some start, \<lparr>tok_buf = b, tok_last = Some (Suc e)\<rparr>) }
                              else Some (Some start, st0\<lparr>tok_last := None\<rparr>)) }) })"

subsection \<open>Console input\<close>

text \<open>
  The characters \<open>get_char\<close> will deliver are a list; when it is exhausted the call waits for
  ever (\<open>KBlocked\<close>). \<open>KFault\<close> is a write outside the buffer.
\<close>

datatype kgets_result = KBlocked | KFault | KDone "char list" "char list"

function kgets_loop :: "int \<Rightarrow> int \<Rightarrow> char list \<Rightarrow> char list \<Rightarrow> kgets_result" where
  "kgets_loop i lim buffer inp =
     (if i < lim - 1
      then (case inp of
              [] \<Rightarrow> KBlocked
            | c # rest \<Rightarrow>
                if c = CHR 0x0A \<or> c = CHR 0x0D
                then (case wr buffer (nat i) NUL of None \<Rightarrow> KFault | Some b \<Rightarrow> KDone b rest)
                else if c = CHR 0x08 \<and> i > 0 then kgets_loop (i - 1) lim buffer rest
                else if 32 \<le> (of_char c :: nat) \<and> (of_char c :: nat) \<le> 126
                then (case wr buffer (nat i) c of
                        None \<Rightarrow> KFault | Some b \<Rightarrow> kgets_loop (i + 1) lim b rest)
                else kgets_loop i lim buffer rest)
      else KDone buffer inp)"
  by pat_completeness auto
termination
  by (relation "measure (\<lambda>(i, l, b, inp). length inp)") auto

declare kgets_loop.simps [simp del]

definition kgets :: "char list \<Rightarrow> int \<Rightarrow> char list \<Rightarrow> kgets_result" where
  "kgets buffer lim inp = kgets_loop 0 lim buffer inp"

text \<open>
  \<open>kscanf\<close> after its line has been read: the values stored through the variable arguments, in
  order. \<open>word_end\<close> is the inner loop over one word.
\<close>

datatype scan_value = SInt int | SStr "char list" | SChr char

fun word_end :: "char list \<Rightarrow> (char list \<times> char list) option" where
  "word_end [] = None"
| "word_end (c # s) =
     (if c \<noteq> NUL \<and> c \<noteq> CHR '' '' then map_option (\<lambda>(w, r). (c # w, r)) (word_end s) else Some ([], c # s))"

fun skip_spaces :: "char list \<Rightarrow> char list option" where
  "skip_spaces [] = None"
| "skip_spaces (c # s) = (if c = CHR '' '' then skip_spaces s else Some (c # s))"

fun kscanf_loop :: "char list \<Rightarrow> char list \<Rightarrow> scan_value list \<Rightarrow> scan_value list option" where
  "kscanf_loop [] inp vals = None"
| "kscanf_loop (f # format) inp vals =
     (if f = NUL then Some vals
      else if f = CHR ''%'' then
        (case format of
           [] \<Rightarrow> None
         | d # format' \<Rightarrow>
             if d = CHR ''d''
             then do { v \<leftarrow> atoi inp; (w, r) \<leftarrow> word_end inp; kscanf_loop format' r (vals @ [SInt v]) }
             else if d = CHR ''s''
             then do { (w, r) \<leftarrow> word_end inp; kscanf_loop format' r (vals @ [SStr w]) }
             else if d = CHR ''c''
             then (case inp of [] \<Rightarrow> None | x # r \<Rightarrow> kscanf_loop format' r (vals @ [SChr x]))
             else kscanf_loop format' inp vals)
      else if f = CHR '' '' then do { r \<leftarrow> skip_spaces inp; kscanf_loop format r vals }
      else kscanf_loop format inp vals)"

definition kscanf :: "char list \<Rightarrow> char list \<Rightarrow> char list \<Rightarrow> scan_value list option" where
  "kscanf format input inp =
     (case kgets input 256 inp of KDone b rest \<Rightarrow> kscanf_loop format b [] | _ \<Rightarrow> None)"

subsection \<open>C strings\<close>

text \<open>\<open>buf\<close> holds the C string \<open>s\<close>: its characters and the terminator, then anything.\<close>

definition cstr :: "char list \<Rightarrow> char list \<Rightarrow> bool" where
  "cstr buf s \<longleftrightarrow> NUL \<notin> set s \<and> (\<exists>r. buf = s @ NUL # r)"

lemma cstrI [intro]: "NUL \<notin> set s \<Longrightarrow> cstr (s @ NUL # r) s"
  by (auto simp: cstr_def)

lemma cstr_Nil: "cstr buf [] \<longleftrightarrow> (\<exists>r. buf = NUL # r)"
  by (auto simp: cstr_def)

lemma cstr_Cons: "cstr buf (c # s) \<longleftrightarrow> c \<noteq> NUL \<and> (\<exists>buf'. buf = c # buf' \<and> cstr buf' s)"
  by (auto simp: cstr_def)

lemmas cstr_simps = cstr_Nil cstr_Cons

lemma strlen_from_cstr: "cstr buf s \<Longrightarrow> strlen_from k buf = Some (k + length s)"
  by (induction s arbitrary: k buf) (auto simp: cstr_simps)

lemma strcpy_at_cstr:
  assumes "cstr src s" and "i \<le> length d"
  shows "strcpy_at d i src =
    (if i + length s < length d then Some (take i d @ s @ NUL # drop (i + length s + 1) d) else None)"
  using assms
proof (induction s arbitrary: i d src)
  case Nil
  then show ?case by (auto simp: cstr_simps upd_conv_take_nth_drop)
next
  case (Cons c s)
  then obtain src' where src: "src = c # src'" "cstr src' s" "c \<noteq> NUL" by (auto simp: cstr_simps)
  show ?case
  proof (cases "i < length d")
    case True
    with Cons.IH [OF src(2), of "Suc i" "d[i := c]"] src show ?thesis
      by (simp add: take_Suc_conv_app_nth)
  next
    case False
    with src show ?thesis by simp
  qed
qed

lemma of_char_NUL_iff: "(of_char c :: nat) = 0 \<longleftrightarrow> c = NUL"
  using of_char_eq_iff [of c NUL, where 'a = nat] by simp

lemma of_char_pos: "c \<noteq> NUL \<Longrightarrow> 0 < (of_char c :: int)"
  using of_char_NUL_iff [of c] of_nat_of_char [of c, where 'a = int]
  by (metis gr0I of_nat_0_less_iff)

definition char_less :: "(char \<times> char) set" where
  "char_less = {(a, b). (of_char a :: int) < of_char b}"

lemma strcmp_cstr:
  assumes "cstr b1 s" and "cstr b2 t"
  shows "\<exists>r. strcmp b1 b2 = Some r \<and> strcmp b2 b1 = Some (- r) \<and> (r = 0 \<longleftrightarrow> s = t) \<and>
    (r < 0 \<longleftrightarrow> (s, t) \<in> lexord char_less)"
  using assms
proof (induction s arbitrary: b1 b2 t)
  case Nil
  then show ?case
    by (cases t) (auto simp: cstr_simps uchar_diff_def dest: of_char_pos)
next
  case (Cons c s)
  then obtain b1' where b1: "b1 = c # b1'" "cstr b1' s" "c \<noteq> NUL" by (auto simp: cstr_simps)
  show ?case
  proof (cases t)
    case Nil
    with Cons.prems b1 of_char_pos [of c] show ?thesis by (auto simp: cstr_simps uchar_diff_def)
  next
    case t: (Cons e t')
    with Cons.prems obtain b2' where b2: "b2 = e # b2'" "cstr b2' t'" "e \<noteq> NUL"
      by (auto simp: cstr_simps)
    show ?thesis
    proof (cases "c = e")
      case True
      with Cons.IH [OF b1(2) b2(2)] b1 b2 t show ?thesis by (auto simp: char_less_def)
    next
      case False
      then have "(of_char c :: int) \<noteq> of_char e" by simp
      with False b1 b2 t show ?thesis by (auto simp: uchar_diff_def char_less_def)
    qed
  qed
qed

lemma strstr_match_cstr:
  "cstr h s \<Longrightarrow> cstr n t \<Longrightarrow> strstr_match h n = Some (prefix t s)"
proof (induction s arbitrary: h n t)
  case Nil
  then show ?case by (cases t) (auto simp: cstr_simps)
next
  case (Cons c s)
  then show ?case by (cases t) (auto simp: cstr_simps)
qed

lemma strstr_from_cstr:
  assumes "cstr h s" and "cstr n t" and "t \<noteq> []"
  shows "strstr_from i h n =
    Some (map_option ((+) i) (find (\<lambda>k. prefix t (drop k s)) [0..<length s]))"
  using assms
proof (induction s arbitrary: h i)
  case Nil
  then show ?case by (auto simp: cstr_simps)
next
  case (Cons c s)
  then obtain h' where h: "h = c # h'" "cstr h' s" "c \<noteq> NUL" by (auto simp: cstr_simps)
  from Cons.prems obtain x t' where t: "t = x # t'" by (cases t) auto
  with Cons.prems have n: "rd n 0 = Some x" by (auto simp: cstr_simps)
  have m: "strstr_match h n = Some (prefix t (c # s))"
    using strstr_match_cstr Cons.prems by blast
  have map: "[0..<Suc (length s)] = 0 # map Suc [0..<length s]"
    by (simp add: upt_conv_Cons map_Suc_upt del: upt_Suc)
  have shift: "map_option ((+) i) (find (\<lambda>k. prefix t (drop k (c # s))) (map Suc xs)) =
      map_option (\<lambda>k. Suc (i + k)) (find (\<lambda>k. prefix t (drop k s)) xs)" for xs
    by (induction xs) auto
  have "strstr_from i h n = (if prefix t (c # s) then Some (Some i) else strstr_from (Suc i) h' n)"
    using n m h t by auto
  also have "\<dots> = Some (map_option ((+) i) (find (\<lambda>k. prefix t (drop k (c # s))) [0..<length (c # s)]))"
    using Cons.IH [OF h(2) Cons.prems(2,3), of "Suc i"] shift [of "[0..<length s]"]
    unfolding list.size add_0_right add_Suc_right map
    by (cases "prefix t (c # s)") (simp_all add: shift)
  finally show ?case .
qed

text \<open>The number a list of digits denotes.\<close>

definition digits_val :: "int \<Rightarrow> char list \<Rightarrow> int" where
  "digits_val r ds = foldl (\<lambda>r d. r * 10 + (of_char d - 48)) r ds"

lemma map_option_add_0: "map_option ((+) (0 :: nat)) x = x"
  by (cases x) simp_all

lemma digits_val_simps [simp]:
  "digits_val r [] = r" "digits_val r (d # ds) = digits_val (r * 10 + (of_char d - 48)) ds"
  "digits_val r (ds @ [d]) = digits_val r ds * 10 + (of_char d - 48)"
  by (simp_all add: digits_val_def)

lemma is_digit_int: "is_digit d \<Longrightarrow> (48 :: int) \<le> of_char d \<and> of_char d \<le> (57 :: int)"
  unfolding is_digit_def using of_nat_of_char [of d, where 'a = int]
  by (metis of_nat_le_iff of_nat_numeral)

lemma digits_val_mono:
  assumes "\<forall>c \<in> set ds. is_digit c" and "0 \<le> r"
  shows "r \<le> digits_val r ds"
  using assms
proof (induction ds arbitrary: r)
  case (Cons d ds)
  have d: "(48 :: int) \<le> of_char d" using Cons.prems(1) is_digit_int by simp
  with Cons have "r * 10 + (of_char d - 48) \<le> digits_val (r * 10 + (of_char d - 48)) ds" by simp
  with d Cons.prems(2) show ?case by simp
qed simp

lemma atoi_from_digits:
  assumes "\<forall>c \<in> set ds. is_digit c" and "\<not> is_digit c" and "0 \<le> r" and "r < 2 ^ 31"
  shows "atoi_from r (ds @ c # rest) =
    (if digits_val r ds < 2 ^ 31 then Some (digits_val r ds) else None)"
  using assms
proof (induction ds arbitrary: r)
  case (Cons d ds)
  have d: "is_digit d" "(48 :: int) \<le> of_char d" using Cons.prems(1) is_digit_int by simp_all
  let ?r = "r * 10 + (of_char d - 48)"
  have le: "?r \<le> digits_val ?r ds"
    using Cons.prems d by (intro digits_val_mono) auto
  show ?case
  proof (cases "?r < 2 ^ 31")
    case True
    with Cons.IH [of ?r] Cons.prems d show ?thesis by simp
  next
    case False
    with le have "\<not> digits_val ?r ds < 2 ^ 31" by simp
    with False d Cons.prems(3) show ?thesis by (simp add: int32_def)
  qed
qed simp

subsection \<open>Line input\<close>

text \<open>
  What \<open>kgets\<close> should compute: the line typed so far, edited by backspace, until a newline
  (True) or until \<open>m\<close> characters are there (False).
\<close>

fun line_edit :: "nat \<Rightarrow> char list \<Rightarrow> char list \<Rightarrow> (char list \<times> bool \<times> char list) option" where
  "line_edit m l [] = (if length l < m then None else Some (l, False, []))"
| "line_edit m l (c # inp) =
     (if length l < m
      then (if c = CHR 0x0A \<or> c = CHR 0x0D then Some (l, True, inp)
            else if c = CHR 0x08 \<and> l \<noteq> [] then line_edit m (butlast l) inp
            else if 32 \<le> (of_char c :: nat) \<and> (of_char c :: nat) \<le> 126 then line_edit m (l @ [c]) inp
            else line_edit m l inp)
      else Some (l, False, c # inp))"

text \<open>How the buffer of \<open>kgets\<close> shows the result of the editor.\<close>

definition line_result ::
    "nat \<Rightarrow> char list \<Rightarrow> (char list \<times> bool \<times> char list) option \<Rightarrow> kgets_result \<Rightarrow> bool" where
  "line_result m buffer e k \<longleftrightarrow>
     (case e of
        None \<Rightarrow> k = KBlocked
      | Some (l, newline, rest) \<Rightarrow>
          (\<exists>b. k = KDone b rest \<and> length b = length buffer \<and> length l \<le> m \<and> take (length l) b = l \<and>
             (if newline then b ! length l = NUL else length l = m \<and> drop m b = drop m buffer)))"

lemma line_result_buffer:
  "length b = length buffer \<Longrightarrow> drop m b = drop m buffer \<Longrightarrow> line_result m b e k \<longleftrightarrow> line_result m buffer e k"
  by (simp only: line_result_def)

lemma kgets_loop_line:
  assumes "take (length l) buffer = l" and "length l \<le> m" and "m < length buffer"
  shows "line_result m buffer (line_edit m l inp) (kgets_loop (int (length l)) (int m + 1) buffer inp)"
  using assms
proof (induction m l inp arbitrary: buffer rule: line_edit.induct)
  case (1 m l)
  then show ?case by (auto simp: kgets_loop.simps line_result_def)
next
  case (2 m l c inp)
  let ?i = "int (length l)"
  note step = kgets_loop.simps [of ?i "int m + 1" buffer "c # inp"]
  consider (full) "length l = m" | (nl) "length l < m" "c = CHR 0x0A \<or> c = CHR 0x0D"
    | (bs) "length l < m" "c = CHR 0x08" "l \<noteq> []"
    | (put) "length l < m" "\<not> (c = CHR 0x0A \<or> c = CHR 0x0D)" "\<not> (c = CHR 0x08 \<and> l \<noteq> [])"
        "32 \<le> (of_char c :: nat) \<and> (of_char c :: nat) \<le> 126"
    | (skip) "length l < m" "\<not> (c = CHR 0x0A \<or> c = CHR 0x0D)" "\<not> (c = CHR 0x08 \<and> l \<noteq> [])"
        "\<not> (32 \<le> (of_char c :: nat) \<and> (of_char c :: nat) \<le> 126)"
    using "2.prems"(2) by (cases "length l < m") auto
  then show ?case
  proof cases
    case full
    then have "\<not> ?i < int m + 1 - 1" by simp
    then have "kgets_loop ?i (int m + 1) buffer (c # inp) = KDone buffer (c # inp)"
      by (simp only: step if_False)
    with full "2.prems" show ?thesis by (simp add: line_result_def)
  next
    case nl
    with "2.prems"(3) have "kgets_loop ?i (int m + 1) buffer (c # inp) = KDone (buffer[length l := NUL]) inp"
      by (simp add: step)
    with nl "2.prems" show ?thesis by (simp add: line_result_def)
  next
    case bs
    then have "kgets_loop ?i (int m + 1) buffer (c # inp) =
        kgets_loop (int (length (butlast l))) (int m + 1) buffer inp"
      by (simp add: kgets_loop.simps [of ?i "int m + 1" buffer "CHR 0x08 # inp"] Suc_le_eq)
    moreover have "take (length (butlast l)) buffer = butlast l"
      using "2.prems"(1) bs(3) by (metis butlast_take length_butlast nat_le_linear take_all butlast_conv_take)
    ultimately show ?thesis
      using "2.IH"(1) [of buffer] bs "2.prems" by simp
  next
    case put
    have "take (length (l @ [c])) (buffer[length l := c]) = l @ [c]"
      using put(1) "2.prems" by (simp add: take_Suc_conv_app_nth)
    with "2.IH"(2) [of "buffer[length l := c]"] put "2.prems" have
      "line_result m (buffer[length l := c]) (line_edit m (l @ [c]) inp)
         (kgets_loop (int (length (l @ [c]))) (int m + 1) (buffer[length l := c]) inp)" by simp
    moreover have "kgets_loop ?i (int m + 1) buffer (c # inp) =
        kgets_loop (int (length (l @ [c]))) (int m + 1) (buffer[length l := c]) inp"
      by (subst step) (use put "2.prems" in \<open>auto simp: add.commute\<close>)
    ultimately show ?thesis
      using put line_result_buffer [of "buffer[length l := c]" buffer m] by auto
  next
    case skip
    have "kgets_loop ?i (int m + 1) buffer (c # inp) = kgets_loop ?i (int m + 1) buffer inp"
      by (subst step) (use skip in auto)
    with "2.IH"(3) [of buffer] skip "2.prems" show ?thesis by auto
  qed
qed

subsection \<open>Properties\<close>

text \<open>
  \<open>strcmp\<close> is the lexicographic order of unsigned characters: on two C strings it never
  reads past a terminator, is 0 exactly for equal strings, negative exactly when the first is
  smaller, and antisymmetric.
\<close>

theorem strcmp_order:
  assumes "cstr b1 s" and "cstr b2 t"
  shows "\<exists>r. strcmp b1 b2 = Some r \<and> strcmp b2 b1 = Some (- r) \<and> (r = 0 \<longleftrightarrow> s = t) \<and>
    (r < 0 \<longleftrightarrow> (s, t) \<in> lexord {(a, b). (of_char a :: int) < of_char b})"
  using strcmp_cstr [OF assms] unfolding char_less_def .

theorem strcmp_order_witness:
  "strcmp (''ab'' @ [NUL]) (''abc'' @ [NUL, CHR ''x'']) = Some (-99) \<and>
   (''ab'', ''abc'') \<in> lexord {(a, b). (of_char a :: int) < of_char b}"
proof -
  have "cstr (''ab'' @ [NUL]) ''ab''" "cstr (''abc'' @ [NUL, CHR ''x'']) ''abc''"
    by (auto simp: cstr_def)
  from strcmp_order [OF this] show ?thesis by (simp add: uchar_diff_def)
qed

text \<open>
  \<open>strstr\<close> returns the first position at which the needle occurs in the haystack, and NULL
  when it occurs nowhere.
\<close>

theorem strstr_first_occurrence:
  assumes "cstr h s" and "cstr n t"
  shows "\<exists>r. strstr h n = Some r \<and>
    (case r of
       Some i \<Rightarrow> i \<le> length s \<and> prefix t (drop i s) \<and> (\<forall>j < i. \<not> prefix t (drop j s))
     | None \<Rightarrow> \<not> sublist t s)"
proof (cases t)
  case Nil
  with assms show ?thesis by (auto simp: strstr_def cstr_simps)
next
  case (Cons x t')
  with assms have "rd n 0 = Some x" "x \<noteq> NUL" by (auto simp: cstr_simps)
  then have r: "strstr h n = Some (find (\<lambda>k. prefix t (drop k s)) [0..<length s])"
    using strstr_from_cstr [OF assms, of 0] Cons
    by (simp add: strstr_def map_option_add_0)
  show ?thesis
  proof (cases "find (\<lambda>k. prefix t (drop k s)) [0..<length s]")
    case None
    have "\<not> sublist t s"
    proof
      assume "sublist t s"
      then obtain p q where "s = p @ t @ q" by (auto simp: sublist_def)
      then have "prefix t (drop (length p) s)" "length p < length s" using Cons by auto
      with None show False by (auto simp: find_upt_None)
    qed
    with None r show ?thesis by simp
  next
    case (Some i)
    with r show ?thesis by (auto simp: find_upt_Some)
  qed
qed

theorem strstr_first_occurrence_witness:
  "strstr (''abcab'' @ [NUL]) (''ca'' @ [NUL]) = Some (Some 2) \<and> prefix ''ca'' (drop 2 ''abcab'')"
proof -
  have "cstr (''abcab'' @ [NUL]) ''abcab''" "cstr (''ca'' @ [NUL]) ''ca''"
    by (auto simp: cstr_def)
  from strstr_first_occurrence [OF this] show ?thesis by (simp add: strstr_def)
qed

text \<open>
  \<open>strcpy\<close> and \<open>strcat\<close> write exactly the string and its terminator and leave the rest of
  the destination alone, when it fits; when it does not fit they write past the destination,
  since neither takes a size.
\<close>

theorem strcpy_strcat_bounds:
  assumes "cstr src s" and "cstr dest t"
  shows "strcpy dest src =
      (if length s < length dest then Some (s @ NUL # drop (length s + 1) dest) else None) \<and>
    strcat dest src =
      (if length t + length s < length dest
       then Some (t @ s @ NUL # drop (length t + length s + 1) dest) else None)"
proof -
  have "take (length t) dest = t" "length t \<le> length dest" using assms(2) by (auto simp: cstr_def)
  with strcpy_at_cstr [OF assms(1), of 0 dest] strcpy_at_cstr [OF assms(1), of "length t" dest]
    strlen_from_cstr [OF assms(2), of 0]
  show ?thesis by (simp add: strcpy_def strcat_def)
qed

theorem strcpy_strcat_bounds_witness:
  "strcat [CHR ''a'', NUL, CHR ''z'', CHR ''z''] (''bc'' @ [NUL]) = Some [CHR ''a'', CHR ''b'', CHR ''c'', NUL] \<and>
   strcat [CHR ''a'', NUL, CHR ''z''] (''bc'' @ [NUL]) = None"
proof -
  have c: "cstr (''bc'' @ [NUL]) ''bc''" "cstr [CHR ''a'', NUL, CHR ''z'', CHR ''z''] ''a''"
      "cstr [CHR ''a'', NUL, CHR ''z''] ''a''"
    by (auto simp: cstr_def)
  from strcpy_strcat_bounds [OF c(1,2)] strcpy_strcat_bounds [OF c(1,3)] show ?thesis by simp
qed

text \<open>
  \<open>atoi\<close> of a digit string is its decimal value as long as it fits in 32 bits, and signed
  overflow (undefined) otherwise.
\<close>

theorem atoi_value:
  assumes "\<forall>d \<in> set ds. is_digit d" and "\<not> is_digit c"
  shows "atoi (ds @ c # rest) = (if digits_val 0 ds < 2 ^ 31 then Some (digits_val 0 ds) else None)"
  using atoi_from_digits [OF assms, of 0 rest] by (simp add: atoi_def)

theorem atoi_value_witness:
  "atoi (''2147483647'' @ [NUL]) = Some 2147483647 \<and> atoi (''2147483648'' @ [NUL]) = None"
proof -
  have "\<forall>d \<in> set ''2147483647''. is_digit d" "\<forall>d \<in> set ''2147483648''. is_digit d" "\<not> is_digit NUL"
    by (simp_all add: is_digit_def)
  from atoi_value [OF this(1,3), of "[]"] atoi_value [OF this(2,3), of "[]"] show ?thesis
    by simp
qed

text \<open>
  \<open>kgets\<close> computes the edited line and never writes outside a buffer of the size it is
  told; the line is terminated when it ended in a newline, but when the buffer fills up first
  no terminator is written at all: the byte behind the line is whatever it was.
\<close>

theorem kgets_line:
  assumes "m < length buffer"
  shows "case line_edit m [] inp of
      None \<Rightarrow> kgets buffer (int m + 1) inp = KBlocked
    | Some (l, newline, rest) \<Rightarrow>
        (\<exists>b. kgets buffer (int m + 1) inp = KDone b rest \<and> length b = length buffer \<and>
           length l \<le> m \<and> take (length l) b = l \<and>
           (if newline then b ! length l = NUL else length l = m \<and> drop m b = drop m buffer))"
proof -
  have "line_result m buffer (line_edit m [] inp) (kgets buffer (int m + 1) inp)"
    using kgets_loop_line [of "[]" buffer m inp] assms by (simp add: kgets_def)
  then show ?thesis unfolding line_result_def .
qed

theorem kgets_line_witness:
  "line_edit 2 [] ''abc'' = Some (''ab'', False, ''c'') \<and>
   (\<exists>b. kgets ''???'' 3 ''abc'' = KDone b ''c'' \<and> take 2 b = ''ab'' \<and> drop 2 b = ''?'')"
proof -
  have l: "line_edit 2 [] ''abc'' = Some (''ab'', False, ''c'')" by simp
  have "\<exists>b. kgets ''???'' (int 2 + 1) ''abc'' = KDone b ''c'' \<and> length b = length ''???'' \<and>
      length ''ab'' \<le> 2 \<and> take (length ''ab'') b = ''ab'' \<and>
      (if False then b ! length ''ab'' = NUL else length ''ab'' = 2 \<and> drop 2 b = drop 2 ''???'')"
    using kgets_line [of 2 "''???''" "''abc''"] unfolding l option.case prod.case by simp
  with l show ?thesis by (auto simp: numeral_2_eq_2)
qed

end
