(* ===== verification/Free_Flag.thy ===== *)
theory Free_Flag
  imports Prelude
begin

text \<open>
  What a call of \<open>kfree\<close> (\<open>kernel/mm/malloc.c\<close>) does in the running kernel. No file calls
  \<open>kmalloc_init\<close>, so \<open>heap_start\<close> is NULL and the coalescing loop runs no iteration; what remains is
  the store \<open>header->is_free = 1\<close> through \<open>(header_t *)ptr - 1\<close>. The header is \<open>size\<close>, \<open>next\<close> and
  \<open>is_free\<close>, four bytes each, so the store goes to the word right in front of the pointer. The pages
  come from the page allocator, which has no header there: the word is the last one of the page
  before, and the page allocator never gets a page back. (Theory \<open>Heap_Slab\<close> has the whole function
  on a heap that was initialised, and the lemma that without one it is this store.)
\<close>

definition SIZEOF_HEADER :: u32 where "SIZEOF_HEADER = 12"

text \<open>The address of the field \<open>is_free\<close> of the header in front of a pointer.\<close>

definition free_flag :: "u32 \<Rightarrow> u32" where "free_flag ptr = ptr - SIZEOF_HEADER + 8"

text \<open>On flat memory: a little-endian 1.\<close>

definition kfree_mem :: "u32 \<Rightarrow> (u32 \<Rightarrow> u8) \<Rightarrow> u32 \<Rightarrow> u8" where
  "kfree_mem ptr m =
     (if ptr = 0 then m
      else m(free_flag ptr := 1, free_flag ptr + 1 := 0, free_flag ptr + 2 := 0, free_flag ptr + 3 := 0))"

text \<open>On a store of buffers: the bytes of every buffer (at \<open>a\<close>, with the text \<open>b\<close>) that lie in the word.\<close>

definition mark_buffer :: "u32 \<Rightarrow> u32 \<Rightarrow> char list \<Rightarrow> char list" where
  "mark_buffer w a b =
     map (\<lambda>i. let k = a + of_nat i - w in if k = 0 then CHR 0x01 else if k < 4 then NUL else b ! i) [0..<length b]"

definition kfree_buffers :: "u32 \<Rightarrow> (u32 \<Rightarrow> char list option) \<Rightarrow> u32 \<Rightarrow> char list option" where
  "kfree_buffers ptr st = (if ptr = 0 then st else (\<lambda>a. map_option (mark_buffer (free_flag ptr) a) (st a)))"

lemma free_flag_before: "free_flag ptr = ptr - 4"
  by (simp add: free_flag_def SIZEOF_HEADER_def)

lemma length_mark_buffer [simp]: "length (mark_buffer w a b) = length b"
  by (simp add: mark_buffer_def)

lemma kfree_buffers_None [simp]: "kfree_buffers ptr st a = None \<longleftrightarrow> st a = None"
  by (simp add: kfree_buffers_def)

text \<open>A buffer that does not reach into the word keeps its text.\<close>

lemma mark_buffer_apart:
  assumes "\<And>i. i < length b \<Longrightarrow> 4 \<le> a + of_nat i - w"
  shows "mark_buffer w a b = b"
proof (rule nth_equalityI)
  fix i
  assume i: "i < length (mark_buffer w a b)"
  then have "4 \<le> a + of_nat i - w" using assms by simp
  then have "a + of_nat i - w \<noteq> 0" "\<not> a + of_nat i - w < 4" by (auto simp: word_le_nat_alt word_less_nat_alt)
  with i show "mark_buffer w a b ! i = b ! i" by (simp add: mark_buffer_def Let_def)
qed simp

text \<open>
  A node occupies the first 292 bytes of a page and every pointer that is freed is the address of a
  page, so the word is never one of a node's.
\<close>

lemma free_flag_outside_node:
  assumes "(ptr :: u32) mod 4096 = 0" and "(a :: u32) mod 4096 = 0"
  shows "292 \<le> free_flag ptr - a"
proof -
  obtain p q :: u32 where "ptr = 4096 * p" "a = 4096 * q"
    using assms by (metis add.right_neutral mult_div_mod_eq)
  then have d: "free_flag ptr - a = 4096 * (p - q) - 4" by (simp add: free_flag_before algebra_simps)
  have r: "292 \<le> 4096 * r - 4" for r :: u32
  proof -
    have r: "4096 * r - 4 = 4096 * (r - 1) + 4092" by (simp add: algebra_simps)
    have t: "292 \<le> 4096 * t + (4092 :: u32)" for t :: u32
    proof -
      have "unat (4096 * t + 4092) = (4096 * unat t + 4092) mod 2 ^ 32"
        by (simp add: unat_word_ariths take_bit_eq_mod mod_simps)
      moreover have "292 \<le> (4096 * n + 4092) mod 2 ^ 32" for n :: nat
      proof -
        have "(4096 * n + 4092) mod 2 ^ 32 mod 4096 = (4092 :: nat)"
          by (subst mod_mod_cancel) simp_all
        then show ?thesis using mod_less_eq_dividend [of "(4096 * n + 4092) mod 2 ^ 32" 4096] by linarith
      qed
      ultimately show ?thesis by (simp add: word_le_nat_alt)
    qed
    show ?thesis unfolding r by (rule t)
  qed
  show ?thesis unfolding d by (rule r)
qed

end
