(* ===== verification/Heap_Slab.thy ===== *)
theory Heap_Slab
  imports PhysMem CString Free_Flag
begin

text \<open>
  The object allocators above the page allocator: the header list of \<open>kernel/mm/malloc.c\<close>, the
  slab caches of \<open>kernel/mm/slab.c\<close> and the victim selection of \<open>arch/common/oom_killer.c\<close>.
  Structures reached through pointers live in stores (maps from addresses to records) and
  None is a NULL or wild dereference, or a division by zero.
\<close>

subsection \<open>The header list\<close>

record header =
  h_size :: u32
  h_next :: u32
  is_free :: bool

record heap =
  headers :: "u32 \<Rightarrow> header option"
  heap_start :: u32

definition HEADER_SIZE :: u32 where "HEADER_SIZE = 12"

definition kmalloc_init :: "u32 \<Rightarrow> u32 \<Rightarrow> heap \<Rightarrow> heap" where
  "kmalloc_init start sz h =
     (let aligned_start = (start + 7) AND NOT 7;
          sz' = sz - (aligned_start - start)
      in h\<lparr>headers := (headers h)(aligned_start \<mapsto>
              \<lparr>h_size = sz' - HEADER_SIZE, h_next = 0, is_free = True\<rparr>),
           heap_start := aligned_start\<rparr>)"

text \<open>The coalescing loop; it follows pointers, so nothing bounds it but the list itself.\<close>

partial_function (option) kfree_loop ::
    "u32 \<Rightarrow> (u32 \<Rightarrow> header option) \<Rightarrow> (u32 \<Rightarrow> header option) option" where
  "kfree_loop cur st =
     (if cur = 0 then Some st
      else do { c \<leftarrow> st cur;
                (if h_next c = 0 then Some st
                 else do { n \<leftarrow> st (h_next c);
                           (if is_free c \<and> is_free n
                            then kfree_loop cur (st(cur \<mapsto> c\<lparr>h_size := h_size c + (HEADER_SIZE + h_size n),
                                                              h_next := h_next n\<rparr>))
                            else kfree_loop (h_next c) st) }) })"

definition kfree :: "u32 \<Rightarrow> heap \<Rightarrow> heap option" where
  "kfree ptr h =
     (if ptr = 0 then Some h
      else do { hd \<leftarrow> headers h (ptr - HEADER_SIZE);
                st \<leftarrow> kfree_loop (heap_start h) ((headers h)(ptr - HEADER_SIZE \<mapsto> hd\<lparr>is_free := True\<rparr>));
                Some (h\<lparr>headers := st\<rparr>) })"

text \<open>Without a heap, \<open>kfree\<close> is the one store that theory \<open>Free_Flag\<close> describes.\<close>

lemma kfree_without_heap:
  assumes "heap_start h = 0" and "ptr \<noteq> 0" and "headers h (ptr - HEADER_SIZE) = Some e"
  shows "kfree ptr h = Some (h\<lparr>headers := (headers h)(ptr - HEADER_SIZE \<mapsto> e\<lparr>is_free := True\<rparr>)\<rparr>) \<and>
    free_flag ptr = ptr - HEADER_SIZE + 8"
proof -
  have "kfree_loop 0 st = Some st" for st by (subst kfree_loop.simps) simp
  with assms show ?thesis by (simp add: kfree_def free_flag_def SIZEOF_HEADER_def HEADER_SIZE_def)
qed

subsection \<open>Slab caches\<close>

record slab =
  s_mem :: u32
  s_next :: u32
  free_bitmap :: u32
  objects_free :: u32

definition SLAB_NAME_MAX :: int where "SLAB_NAME_MAX = 32"

record kmem_cache =
  cache_name :: "char list"
  obj_size :: u32
  slabs_full :: u32
  slabs_partial :: u32
  slabs_free :: u32
  cache_next :: u32

record slab_sys =
  sl_mm :: mm_state
  slabs :: "u32 \<Rightarrow> slab option"
  caches :: "u32 \<Rightarrow> kmem_cache option"
  cache_chain :: u32

definition kmem_cache_create :: "char list \<Rightarrow> u32 \<Rightarrow> slab_sys \<Rightarrow> (u32 \<times> slab_sys) option" where
  "kmem_cache_create name sz s =
     do { (cache, mm) \<leftarrow> kmalloc 52 (sl_mm s);
          (if cache = 0 then Some (0, s\<lparr>sl_mm := mm\<rparr>)
           else do { nm \<leftarrow> strncpy (replicate 32 NUL) name SLAB_NAME_MAX;
                     Some (cache, s\<lparr>sl_mm := mm,
                       caches := (caches s)(cache \<mapsto> \<lparr>cache_name = nm, obj_size = sz, slabs_full = 0,
                          slabs_partial = 0, slabs_free = 0, cache_next = cache_chain s\<rparr>),
                       cache_chain := cache\<rparr>) }) }"

definition slab_capacity :: "u32 \<Rightarrow> u32" where
  "slab_capacity sz = (let m = 4096 div sz in if m > 32 then 32 else m)"

definition slab_create :: "u32 \<Rightarrow> slab_sys \<Rightarrow> (u32 \<times> slab_sys) option" where
  "slab_create sz s =
     do { (page, mm) \<leftarrow> pmm_alloc_frame (sl_mm s);
          (if page = 0 then Some (0, s\<lparr>sl_mm := mm\<rparr>)
           else do { (slab, mm') \<leftarrow> kmalloc 16 mm;
                     (if slab = 0 \<or> sz = 0 then None
                      else Some (slab, s\<lparr>sl_mm := mm',
                        slabs := (slabs s)(slab \<mapsto> \<lparr>s_mem = page, s_next = 0, free_bitmap = 0,
                           objects_free = slab_capacity sz\<rparr>)\<rparr>)) }) }"

text \<open>The search loop of \<open>kmem_cache_alloc\<close> on one slab: the slot taken and the slab after it.\<close>

definition slab_take :: "slab \<Rightarrow> (nat \<times> slab) option" where
  "slab_take sl =
     (case find (\<lambda>i. \<not> bit_test (free_bitmap sl) i) [0..<32] of
        None \<Rightarrow> None
      | Some i \<Rightarrow> Some (i, sl\<lparr>free_bitmap := bit_on (free_bitmap sl) i, objects_free := objects_free sl - 1\<rparr>))"

definition kmem_cache_alloc :: "u32 \<Rightarrow> slab_sys \<Rightarrow> (u32 \<times> slab_sys) option" where
  "kmem_cache_alloc cache s =
     do { c \<leftarrow> caches s cache;
          (slab, s1) \<leftarrow>
            (if slabs_partial c \<noteq> 0 then Some (slabs_partial c, s)
             else do { (slab, c1, s0) \<leftarrow>
                         (if slabs_free c \<noteq> 0
                          then do { f \<leftarrow> slabs s (slabs_free c);
                                    Some (slabs_free c, c\<lparr>slabs_free := s_next f\<rparr>, s) }
                          else do { (p, s') \<leftarrow> slab_create (obj_size c) s; Some (p, c, s') });
                       n \<leftarrow> (if slab = 0 then None else slabs s0 slab);
                       Some (slab, s0\<lparr>slabs := (slabs s0)(slab \<mapsto> n\<lparr>s_next := slabs_partial c1\<rparr>),
                                      caches := (caches s0)(cache \<mapsto> c1\<lparr>slabs_partial := slab\<rparr>)\<rparr>) });
          c \<leftarrow> caches s1 cache;
          sl \<leftarrow> slabs s1 slab;
          (case slab_take sl of
             None \<Rightarrow> Some (0, s1)
           | Some (i, sl') \<Rightarrow>
               (let obj = s_mem sl' + of_nat i * obj_size c
                in if objects_free sl' = 0
                   then Some (obj, s1\<lparr>slabs := (slabs s1)(slab \<mapsto> sl'\<lparr>s_next := slabs_full c\<rparr>),
                                      caches := (caches s1)(cache \<mapsto>
                                         c\<lparr>slabs_partial := s_next sl', slabs_full := slab\<rparr>)\<rparr>)
                   else Some (obj, s1\<lparr>slabs := (slabs s1)(slab \<mapsto> sl')\<rparr>))) }"

text \<open>
  \<open>prev_link\<close> is the head of the full list (0) or the slab whose \<open>next\<close> field points to the
  current one.
\<close>

definition set_link :: "u32 \<Rightarrow> u32 \<Rightarrow> u32 \<Rightarrow> slab_sys \<Rightarrow> slab_sys option" where
  "set_link cache prev_link v s =
     (if prev_link = 0
      then do { c \<leftarrow> caches s cache; Some (s\<lparr>caches := (caches s)(cache \<mapsto> c\<lparr>slabs_full := v\<rparr>)\<rparr>) }
      else do { p \<leftarrow> slabs s prev_link; Some (s\<lparr>slabs := (slabs s)(prev_link \<mapsto> p\<lparr>s_next := v\<rparr>)\<rparr>) })"

definition slab_release :: "u32 \<Rightarrow> u32 \<Rightarrow> u32 \<Rightarrow> u32 \<Rightarrow> slab_sys \<Rightarrow> slab_sys option" where
  "slab_release cache obj prev_link slab s =
     do { c \<leftarrow> caches s cache;
          sl \<leftarrow> slabs s slab;
          (if obj_size c = 0 then None
           else
             (let idx = unat ((obj - s_mem sl) div obj_size c);
                  sl' = sl\<lparr>free_bitmap := (if idx < 32 then bit_off (free_bitmap sl) idx else free_bitmap sl),
                           objects_free := objects_free sl + 1\<rparr>;
                  s1 = s\<lparr>slabs := (slabs s)(slab \<mapsto> sl')\<rparr>
              in if idx \<ge> 32 then None
                 else if objects_free sl' = 1
                 then do { s2 \<leftarrow> set_link cache prev_link (s_next sl') s1;
                           c2 \<leftarrow> caches s2 cache; sl2 \<leftarrow> slabs s2 slab;
                           Some (s2\<lparr>slabs := (slabs s2)(slab \<mapsto> sl2\<lparr>s_next := slabs_partial c2\<rparr>),
                                    caches := (caches s2)(cache \<mapsto> c2\<lparr>slabs_partial := slab\<rparr>)\<rparr>) }
                 else if objects_free sl' = 4096 div obj_size c
                 then do { s2 \<leftarrow> set_link cache prev_link (s_next sl') s1;
                           c2 \<leftarrow> caches s2 cache; sl2 \<leftarrow> slabs s2 slab;
                           Some (s2\<lparr>slabs := (slabs s2)(slab \<mapsto> sl2\<lparr>s_next := slabs_free c2\<rparr>),
                                    caches := (caches s2)(cache \<mapsto> c2\<lparr>slabs_free := slab\<rparr>)\<rparr>) }
                 else Some s1)) }"

partial_function (option) kmem_cache_free_loop ::
    "u32 \<Rightarrow> u32 \<Rightarrow> u32 \<Rightarrow> u32 \<Rightarrow> slab_sys \<Rightarrow> slab_sys option" where
  "kmem_cache_free_loop cache obj prev_link slab s =
     (if slab = 0 then Some s
      else do { sl \<leftarrow> slabs s slab;
                (if obj \<ge> s_mem sl \<and> obj < s_mem sl + 4096
                 then slab_release cache obj prev_link slab s
                 else kmem_cache_free_loop cache obj slab (s_next sl) s) })"

definition kmem_cache_free :: "u32 \<Rightarrow> u32 \<Rightarrow> slab_sys \<Rightarrow> slab_sys option" where
  "kmem_cache_free cache obj s =
     (if cache = 0 \<or> obj = 0 then Some s
      else do { c \<leftarrow> caches s cache; kmem_cache_free_loop cache obj 0 (slabs_full c) s })"

subsection \<open>The out-of-memory killer\<close>

record oom_proc =
  oom_pid :: int
  oom_name :: string
  pages_used :: u32
  oom_protected :: bool

definition proc_table :: "oom_proc list" where
  "proc_table =
     [\<lparr>oom_pid = 1, oom_name = ''init.sys'', pages_used = 124, oom_protected = True\<rparr>,
      \<lparr>oom_pid = 2, oom_name = ''qsh.c'', pages_used = 45, oom_protected = False\<rparr>,
      \<lparr>oom_pid = 3, oom_name = ''bad_leak_app'', pages_used = 8192, oom_protected = False\<rparr>,
      \<lparr>oom_pid = 4, oom_name = ''vfs_service'', pages_used = 256, oom_protected = True\<rparr>]"

text \<open>The candidate is an index into the table.\<close>

fun oom_scan :: "nat \<Rightarrow> u32 \<Rightarrow> nat option \<Rightarrow> oom_proc list \<Rightarrow> nat option" where
  "oom_scan i max_pages candidate [] = candidate"
| "oom_scan i max_pages candidate (p # ps) =
     (if oom_protected p then oom_scan (Suc i) max_pages candidate ps
      else if pages_used p > max_pages then oom_scan (Suc i) (pages_used p) (Some i) ps
      else oom_scan (Suc i) max_pages candidate ps)"

definition oom_select_bad_process :: "oom_proc list \<Rightarrow> nat option" where
  "oom_select_bad_process tab = oom_scan 0 0 None tab"

text \<open>None is the kernel panic.\<close>

definition mm_out_of_memory_rescue :: "oom_proc list \<Rightarrow> oom_proc list option" where
  "mm_out_of_memory_rescue tab =
     (case oom_select_bad_process tab of
        None \<Rightarrow> None
      | Some v \<Rightarrow> Some (tab[v := (tab ! v)\<lparr>pages_used := 0\<rparr>]))"


subsection \<open>Coalescing, as a function on the list of blocks\<close>

fun merge_free :: "(u32 \<times> bool) list \<Rightarrow> (u32 \<times> bool) list" where
  "merge_free [] = []"
| "merge_free [b] = [b]"
| "merge_free ((s, f) # (t, g) # r) =
     (if f \<and> g then merge_free ((s + (HEADER_SIZE + t), f) # r) else (s, f) # merge_free ((t, g) # r))"

fun no_adjacent_free :: "(u32 \<times> bool) list \<Rightarrow> bool" where
  "no_adjacent_free (a # b # r) \<longleftrightarrow> \<not> (snd a \<and> snd b) \<and> no_adjacent_free (b # r)"
| "no_adjacent_free r \<longleftrightarrow> True"

definition heap_bytes :: "(u32 \<times> bool) list \<Rightarrow> u32" where
  "heap_bytes bs = sum_list (map (\<lambda>(s, f). HEADER_SIZE + s) bs)"

lemma merge_free_bytes: "heap_bytes (merge_free bs) = heap_bytes bs"
  by (induction bs rule: merge_free.induct) (auto simp: heap_bytes_def algebra_simps)

lemma merge_free_used: "filter (\<lambda>b. \<not> snd b) (merge_free bs) = filter (\<lambda>b. \<not> snd b) bs"
  by (induction bs rule: merge_free.induct) auto

lemma merge_free_hd: "bs \<noteq> [] \<Longrightarrow> \<exists>s r. merge_free bs = (s, snd (hd bs)) # r"
  by (induction bs rule: merge_free.induct) auto

lemma merge_free_adjacent: "no_adjacent_free (merge_free bs)"
proof (induction bs rule: merge_free.induct)
  case (3 s f t g r)
  show ?case
  proof (cases "f \<and> g")
    case False
    obtain u q where "merge_free ((t, g) # r) = (u, g) # q"
      using merge_free_hd [of "(t, g) # r"] by auto
    with 3(2) [OF False] False show ?thesis by auto
  qed (use 3 in simp)
qed simp_all

definition block_of :: "(u32 \<Rightarrow> header option) \<Rightarrow> u32 \<Rightarrow> u32 \<times> bool" where
  "block_of st x = (case st x of Some h \<Rightarrow> (h_size h, is_free h) | None \<Rightarrow> (0, False))"

lemma block_of_other: "x \<notin> set xs \<Longrightarrow> map (block_of (st(x \<mapsto> n))) xs = map (block_of st) xs"
  by (auto simp: block_of_def)

lemma kfree_loop_merges:
  assumes "chain st h_next p xs"
  shows "\<exists>st' ys. kfree_loop p st = Some st' \<and> chain st' h_next p ys \<and> set ys \<subseteq> set xs \<and>
    map (block_of st') ys = merge_free (map (block_of st) xs) \<and> (\<forall>a. a \<notin> set xs \<longrightarrow> st' a = st a)"
  using assms
proof (induction xs arbitrary: p st rule: length_induct)
  case (1 xs)
  note IH = "1.IH"
  consider "xs = []" | x where "xs = [x]" | x y zs where "xs = x # y # zs"
    by (cases xs; cases "tl xs") auto
  then show ?case
  proof cases
    case 1
    with "1.prems" show ?thesis by (auto simp: kfree_loop.simps [of 0])
  next
    case 2
    with "1.prems" obtain h where "p = x" "x \<noteq> 0" "st x = Some h" "h_next h = 0"
      by (auto split: option.splits)
    with 2 show ?thesis
      by (intro exI [of _ st] exI [of _ xs]) (simp add: kfree_loop.simps [of x])
  next
    case 3
    with "1.prems" obtain h n where x: "p = x" "x \<noteq> 0" "st x = Some h" "h_next h = y"
        and y: "y \<noteq> 0" "st y = Some n" and zs: "chain st h_next (h_next n) zs"
      by (auto split: option.splits)
    have d: "distinct (x # y # zs)" using chain_distinct "1.prems" 3 by blast
    show ?thesis
    proof (cases "is_free h \<and> is_free n")
      case True
      let ?h = "h\<lparr>h_size := h_size h + (HEADER_SIZE + h_size n), h_next := h_next n\<rparr>"
      let ?st = "st(x \<mapsto> ?h)"
      have "chain ?st h_next x (x # zs)" using x zs d by simp
      with IH [rule_format, of "x # zs" ?st x] 3 obtain st' ys where
          r: "kfree_loop x ?st = Some st'" "chain st' h_next x ys" "set ys \<subseteq> set (x # zs)"
          "map (block_of st') ys = merge_free (map (block_of ?st) (x # zs))"
          "\<forall>a. a \<notin> set (x # zs) \<longrightarrow> st' a = ?st a" by auto
      have "kfree_loop p st = Some st'"
        using x y True r(1) by (subst kfree_loop.simps) simp
      moreover have "merge_free (map (block_of ?st) (x # zs)) = merge_free (map (block_of st) xs)"
        using True x y d by (simp add: 3 block_of_other) (simp add: block_of_def)
      moreover have "\<forall>a. a \<notin> set xs \<longrightarrow> st' a = st a" using r(5) 3 by auto
      ultimately show ?thesis using r x(1) 3 by auto
    next
      case False
      have "chain st h_next y (y # zs)" using y zs by simp
      with IH [rule_format, of "y # zs" st y] 3 obtain st' ys where
          r: "kfree_loop y st = Some st'" "chain st' h_next y ys" "set ys \<subseteq> set (y # zs)"
          "map (block_of st') ys = merge_free (map (block_of st) (y # zs))"
          "\<forall>a. a \<notin> set (y # zs) \<longrightarrow> st' a = st a" by auto
      have "kfree_loop p st = Some st'"
        using x y False r(1) by (subst kfree_loop.simps) auto
      moreover have sx: "st' x = st x" using r(5) d by auto
      then have "chain st' h_next p (x # ys)" using x r(2) by simp
      moreover have "map (block_of st') (x # ys) = merge_free (map (block_of st) xs)"
        using False x y sx r(4) by (auto simp: 3 block_of_def)
      moreover have "\<forall>a. a \<notin> set xs \<longrightarrow> st' a = st a" using r(5) 3 by auto
      moreover have "set (x # ys) \<subseteq> set xs" using r(3) 3 by auto
      ultimately show ?thesis by blast
    qed
  qed
qed

subsection \<open>One slab as a slot allocator\<close>

definition slab_used :: "slab \<Rightarrow> nat \<Rightarrow> bool" where
  "slab_used sl i \<longleftrightarrow> bit (free_bitmap sl) i"

text \<open>A slab of \<open>n\<close> objects whose counter agrees with its bitmap.\<close>

definition slab_ok :: "nat \<Rightarrow> slab \<Rightarrow> bool" where
  "slab_ok n sl \<longleftrightarrow> n \<le> 32 \<and> (\<forall>i. slab_used sl i \<longrightarrow> i < n) \<and>
     unat (objects_free sl) + card {i. i < n \<and> slab_used sl i} = n"

text \<open>\<open>kmem_cache_alloc\<close> only searches slabs that have a free object.\<close>

definition slab_slot :: "slab \<Rightarrow> (nat \<times> slab) option" where
  "slab_slot sl = (if objects_free sl = 0 then None else slab_take sl)"

lemma slab_take_free:
  assumes ok: "slab_ok n sl" and "objects_free sl \<noteq> 0"
  shows "\<exists>i sl'. slab_take sl = Some (i, sl') \<and> i < n \<and> \<not> slab_used sl i \<and> s_mem sl' = s_mem sl \<and>
    s_next sl' = s_next sl \<and> slab_ok n sl' \<and> (\<forall>j. slab_used sl' j \<longleftrightarrow> slab_used sl j \<or> j = i) \<and>
    unat (objects_free sl') = unat (objects_free sl) - 1"
proof -
  have pos: "0 < unat (objects_free sl)" using assms(2) by (simp add: unat_gt_0)
  have "\<exists>k < n. \<not> slab_used sl k"
  proof (rule ccontr)
    assume "\<not> ?thesis"
    then have "{i. i < n \<and> slab_used sl i} = {i. i < n}" by auto
    with ok pos show False by (simp add: slab_ok_def)
  qed
  then obtain k where k: "k < n" "\<not> slab_used sl k" by blast
  with ok have "k < 32" by (simp add: slab_ok_def)
  with k obtain i where f: "find (\<lambda>i. \<not> bit_test (free_bitmap sl) i) [0..<32] = Some i" and i: "i < n" "\<not> slab_used sl i"
  proof (cases "find (\<lambda>i. \<not> bit_test (free_bitmap sl) i) [0..<32]")
    case None
    with k \<open>k < 32\<close> show ?thesis by (auto simp: find_upt_None bit_test_bit slab_used_def)
  next
    case (Some i)
    with k have "i \<le> k"
      by (auto simp: find_upt_Some bit_test_bit slab_used_def not_le [symmetric])
    with Some k that show ?thesis by (auto simp: find_upt_Some bit_test_bit slab_used_def)
  qed
  let ?sl = "sl\<lparr>free_bitmap := bit_on (free_bitmap sl) i, objects_free := objects_free sl - 1\<rparr>"
  have i32: "i < 32" using i ok by (simp add: slab_ok_def)
  then have used: "slab_used ?sl j \<longleftrightarrow> slab_used sl j \<or> j = i" for j
    by (auto simp: slab_used_def bit_bit_on)
  have "{j. j < n \<and> slab_used ?sl j} = insert i {j. j < n \<and> slab_used sl j}"
    using i used by auto
  then have "card {j. j < n \<and> slab_used ?sl j} = Suc (card {j. j < n \<and> slab_used sl j})"
    using i(2) by simp
  moreover have dec: "unat (objects_free sl - 1) = unat (objects_free sl) - 1"
    using pos by (simp add: unat_sub word_le_nat_alt)
  ultimately have "slab_ok n ?sl"
    using ok used i pos unfolding slab_ok_def by auto
  with f i used dec show ?thesis by (simp add: slab_take_def)
qed

interpretation slab: slot_allocator slab_slot slab_used "\<lambda>_. n" "slab_ok n" for n
proof
  fix sl i sl'
  assume ok: "slab_ok n sl" and a: "slab_slot sl = Some (i, sl')"
  then have "objects_free sl \<noteq> 0" "slab_take sl = Some (i, sl')"
    by (simp_all add: slab_slot_def split: if_splits)
  with slab_take_free [OF ok] show
      "i < n \<and> \<not> slab_used sl i \<and> n = n \<and> slab_ok n sl' \<and> (\<forall>j. slab_used sl' j = (slab_used sl j \<or> j = i))"
    by auto
next
  fix sl
  assume ok: "slab_ok n sl" and "slab_slot sl = None"
  with slab_take_free [OF ok] have "objects_free sl = 0" by (auto simp: slab_slot_def split: if_splits)
  with ok have c: "card {i. i < n \<and> slab_used sl i} = card {i. i < n}" by (simp add: slab_ok_def)
  have "{i. i < n \<and> slab_used sl i} = {i. i < n}"
    by (rule card_subset_eq) (use c in auto)
  then show "\<forall>i < n. slab_used sl i" by blast
qed


subsection \<open>Allocation and release through a cache\<close>

text \<open>What an allocation does when the cache has a partial slab.\<close>

lemma kmem_cache_alloc_partial:
  assumes "caches s cache = Some c" and "slabs_partial c \<noteq> 0" and "slabs s (slabs_partial c) = Some sl"
    and "slab_take sl = Some (i, sl')"
  shows "kmem_cache_alloc cache s =
    (let obj = s_mem sl' + of_nat i * obj_size c
     in if objects_free sl' = 0
        then Some (obj, s\<lparr>slabs := (slabs s)(slabs_partial c \<mapsto> sl'\<lparr>s_next := slabs_full c\<rparr>),
                           caches := (caches s)(cache \<mapsto>
                             c\<lparr>slabs_partial := s_next sl', slabs_full := slabs_partial c\<rparr>)\<rparr>)
        else Some (obj, s\<lparr>slabs := (slabs s)(slabs_partial c \<mapsto> sl')\<rparr>))"
  using assms by (simp add: kmem_cache_alloc_def Let_def)

lemma slab_capacity_bound:
  "sz \<noteq> 0 \<Longrightarrow> unat (slab_capacity sz) * unat sz \<le> 4096 \<and> unat (slab_capacity sz) \<le> 32"
proof -
  have "unat (4096 div sz :: u32) * unat sz \<le> 4096"
    by (simp add: unat_div div_times_less_eq_dividend)
  moreover have "32 * unat sz \<le> 4096" if "(4096 :: u32) div sz > 32"
  proof -
    from that have "32 \<le> (4096 :: nat) div unat sz" by (simp add: word_less_nat_alt unat_div)
    then have "32 * unat sz \<le> 4096 div unat sz * unat sz" by (rule mult_le_mono1)
    also have "\<dots> \<le> 4096" by (rule div_times_less_eq_dividend)
    finally show ?thesis .
  qed
  ultimately show ?thesis by (auto simp: slab_capacity_def Let_def not_less word_le_nat_alt)
qed

text \<open>The bytes of the \<open>i\<close>-th object of a slab lie in its page.\<close>

lemma slab_object_in_page:
  assumes "sz \<noteq> 0" and "unat base + 4096 \<le> 2 ^ 32" and "i < unat (slab_capacity sz)"
  shows "unat (base + of_nat i * sz) = unat base + i * unat sz \<and> i * unat sz + unat sz \<le> 4096"
proof -
  have "Suc i * unat sz \<le> unat (slab_capacity sz) * unat sz"
    using assms(3) by (intro mult_le_mono1) simp
  with slab_capacity_bound [OF assms(1)] have le: "i * unat sz + unat sz \<le> 4096" by simp
  have "0 < unat sz" using assms(1) by (simp add: unat_gt_0)
  with le have lt: "i * unat sz < 4096" by simp
  have "unat (of_nat i :: u32) = i"
    using assms(3) slab_capacity_bound [OF assms(1)] by (simp add: unat_of_nat take_bit_eq_mod)
  with lt have "unat (of_nat i * sz) = i * unat sz" by (simp add: unat_word_ariths)
  with lt assms(2) have "unat (base + of_nat i * sz) = unat base + i * unat sz"
    by (simp add: unat_word_ariths)
  with le show ?thesis by simp
qed

lemma kmem_cache_free_loop_none:
  assumes "chain (slabs s) s_next p xs"
    and "\<forall>x \<in> set xs. \<forall>sl. slabs s x = Some sl \<longrightarrow> \<not> (s_mem sl \<le> obj \<and> obj < s_mem sl + 4096)"
  shows "kmem_cache_free_loop cache obj prev p s = Some s"
  using assms
proof (induction xs arbitrary: prev p)
  case Nil
  then show ?case by (simp add: kmem_cache_free_loop.simps [of _ _ _ 0])
next
  case (Cons x xs)
  then obtain sl where "p = x" "x \<noteq> 0" "slabs s x = Some sl" "chain (slabs s) s_next (s_next sl) xs"
    by (auto split: option.splits)
  with Cons show ?case by (subst kmem_cache_free_loop.simps) auto
qed

subsection \<open>Properties\<close>

text \<open>
  C5: \<open>kfree\<close> merges neighbours completely: given a well-formed header list that contains the
  block, it returns (the loop terminates), the list is well formed, its byte total (headers
  included) is unchanged, no two neighbours are both free, and the blocks in use are the ones
  that were in use before, without the freed one, in the same order.
\<close>

theorem kfree_coalesces:
  assumes "chain (headers h) h_next (heap_start h) xs" and "ptr \<noteq> 0" and "ptr - HEADER_SIZE \<in> set xs"
  shows "\<exists>h' ys. kfree ptr h = Some h' \<and> heap_start h' = heap_start h \<and>
    chain (headers h') h_next (heap_start h') ys \<and> set ys \<subseteq> set xs \<and>
    heap_bytes (map (block_of (headers h')) ys) = heap_bytes (map (block_of (headers h)) xs) \<and>
    no_adjacent_free (map (block_of (headers h')) ys) \<and>
    filter (\<lambda>b. \<not> snd b) (map (block_of (headers h')) ys) =
      map (block_of (headers h)) (filter (\<lambda>x. \<not> snd (block_of (headers h) x) \<and> x \<noteq> ptr - HEADER_SIZE) xs)"
proof -
  let ?x = "ptr - HEADER_SIZE"
  obtain hd where hd: "headers h ?x = Some hd"
    using chain_in_store [OF assms(1,3)] by auto
  let ?st = "(headers h)(?x \<mapsto> hd\<lparr>is_free := True\<rparr>)"
  have "chain ?st h_next p zs" if "chain (headers h) h_next p zs" for p zs
    using that
  proof (induction zs arbitrary: p)
    case (Cons z zs)
    then show ?case using hd by (auto split: option.splits if_splits)
  qed simp
  from kfree_loop_merges [OF this [OF assms(1)]] obtain st' ys where
      r: "kfree_loop (heap_start h) ?st = Some st'" "chain st' h_next (heap_start h) ys" "set ys \<subseteq> set xs"
      and m: "map (block_of st') ys = merge_free (map (block_of ?st) xs)" by auto
  have bo: "block_of ?st = (\<lambda>x. if x = ?x then (fst (block_of (headers h) x), True) else block_of (headers h) x)"
    using hd by (auto simp: block_of_def)
  have "heap_bytes (map (block_of ?st) xs) = heap_bytes (map (block_of (headers h)) xs)"
    unfolding bo by (induction xs) (auto simp: heap_bytes_def split: prod.splits)
  moreover have "filter (\<lambda>b. \<not> snd b) (map (block_of ?st) xs) =
      map (block_of (headers h)) (filter (\<lambda>x. \<not> snd (block_of (headers h) x) \<and> x \<noteq> ?x) xs)"
    unfolding bo by (induction xs) auto
  moreover have "kfree ptr h = Some (h\<lparr>headers := st'\<rparr>)"
    using assms(2) hd r(1) by (simp add: kfree_def)
  ultimately show ?thesis
    using r(2,3) merge_free_bytes merge_free_used merge_free_adjacent
    by (intro exI [of _ "h\<lparr>headers := st'\<rparr>"] exI [of _ ys]) (simp add: m)
qed

text \<open>A heap of three blocks of which the outer two are free.\<close>

definition heap3 :: heap where
  "heap3 = \<lparr>headers = [0x1000 \<mapsto> \<lparr>h_size = 20, h_next = 0x1020, is_free = True\<rparr>,
                       0x1020 \<mapsto> \<lparr>h_size = 52, h_next = 0x1060, is_free = False\<rparr>,
                       0x1060 \<mapsto> \<lparr>h_size = 100, h_next = 0, is_free = True\<rparr>],
            heap_start = 0x1000\<rparr>"

theorem kfree_coalesces_witness:
  "\<exists>h' ys. kfree 0x102C heap3 = Some h' \<and> chain (headers h') h_next 0x1000 ys \<and>
     no_adjacent_free (map (block_of (headers h')) ys) \<and>
     heap_bytes (map (block_of (headers h')) ys) = 208"
proof -
  have "chain (headers heap3) h_next (heap_start heap3) [0x1000, 0x1020, 0x1060]"
    by (simp add: heap3_def)
  from kfree_coalesces [OF this, of "0x102C"] show ?thesis
    by (auto simp: HEADER_SIZE_def heap3_def heap_bytes_def block_of_def)
qed

text \<open>
  an allocation from a cache with a partial slab whose counter agrees with its bitmap
  returns an object that lies inside the slab's page and was not in use, marks exactly that
  object used, keeps the counter in step, and moves the slab to the full list exactly when
  its last object was taken.
\<close>

theorem kmem_cache_alloc_object:
  assumes c: "caches s cache = Some c" "slabs_partial c \<noteq> 0" "slabs s (slabs_partial c) = Some sl"
    and sz: "obj_size c \<noteq> 0" and page: "unat (s_mem sl) + 4096 \<le> 2 ^ 32"
    and ok: "slab_ok (unat (slab_capacity (obj_size c))) sl" "objects_free sl \<noteq> 0"
  shows "\<exists>i obj s' sl'. kmem_cache_alloc cache s = Some (obj, s') \<and>
    unat obj = unat (s_mem sl) + i * unat (obj_size c) \<and>
    i * unat (obj_size c) + unat (obj_size c) \<le> 4096 \<and> \<not> slab_used sl i \<and>
    slabs s' (slabs_partial c) = Some sl' \<and> slab_ok (unat (slab_capacity (obj_size c))) sl' \<and>
    (\<forall>j. slab_used sl' j \<longleftrightarrow> slab_used sl j \<or> j = i) \<and>
    (if unat (objects_free sl) = 1
     then caches s' cache = Some (c\<lparr>slabs_partial := s_next sl, slabs_full := slabs_partial c\<rparr>) \<and>
       s_next sl' = slabs_full c
     else caches s' cache = Some c \<and> s_next sl' = s_next sl)"
proof -
  let ?n = "unat (slab_capacity (obj_size c))"
  from slab_take_free [OF ok] obtain i sl' where
      t: "slab_take sl = Some (i, sl')" "i < ?n" "\<not> slab_used sl i"
      "s_mem sl' = s_mem sl" "s_next sl' = s_next sl" "slab_ok ?n sl'"
      "\<forall>j. slab_used sl' j \<longleftrightarrow> slab_used sl j \<or> j = i" "unat (objects_free sl') = unat (objects_free sl) - 1"
    by blast
  note obj = slab_object_in_page [OF sz page t(2)]
  have "unat (objects_free sl) \<noteq> 0" using ok(2) by (simp add: unat_eq_zero)
  then have z: "objects_free sl' = 0 \<longleftrightarrow> unat (objects_free sl) = 1"
    using t(8) by (simp add: unat_eq_zero [symmetric]) arith
  have ok2: "slab_ok ?n (sl'\<lparr>s_next := x\<rparr>)" "slab_used (sl'\<lparr>s_next := x\<rparr>) = slab_used sl'" for x
    using t(6) by (simp_all add: slab_ok_def slab_used_def fun_eq_iff)
  note a = kmem_cache_alloc_partial [OF c t(1), unfolded Let_def z t(4,5)]
  let ?obj = "s_mem sl + of_nat i * obj_size c"
  show ?thesis
  proof (cases "unat (objects_free sl) = 1")
    case True
    let ?sl = "sl'\<lparr>s_next := slabs_full c\<rparr>"
    let ?s = "s\<lparr>slabs := (slabs s)(slabs_partial c \<mapsto> ?sl), caches := (caches s)(cache \<mapsto>
       c\<lparr>slabs_partial := s_next sl, slabs_full := slabs_partial c\<rparr>)\<rparr>"
    from True a obj t ok2 show ?thesis
      by (intro exI [of _ i] exI [of _ ?obj] exI [of _ ?s] exI [of _ ?sl]) simp
  next
    case False
    let ?s = "s\<lparr>slabs := (slabs s)(slabs_partial c \<mapsto> sl')\<rparr>"
    from False a obj t c show ?thesis
      by (intro exI [of _ i] exI [of _ ?obj] exI [of _ ?s] exI [of _ sl']) simp
  qed
qed

definition slab_demo :: slab_sys where
  "slab_demo = \<lparr>sl_mm = mm_boot,
     slabs = [0x9000 \<mapsto> \<lparr>s_mem = 0x200000, s_next = 0, free_bitmap = 1, objects_free = 1\<rparr>],
     caches = [0x8000 \<mapsto> \<lparr>cache_name = ''inode'', obj_size = 2048, slabs_full = 0,
       slabs_partial = 0x9000, slabs_free = 0, cache_next = 0\<rparr>],
     cache_chain = 0x8000\<rparr>"

lemma slab_demo_ok: "slab_ok 2 \<lparr>s_mem = 0x200000, s_next = 0, free_bitmap = 1, objects_free = 1\<rparr>"
proof -
  let ?sl = "\<lparr>s_mem = 0x200000, s_next = 0, free_bitmap = 1, objects_free = 1\<rparr>"
  have u: "slab_used ?sl i \<longleftrightarrow> i = 0" for i
    by (simp add: slab_used_def bit_1_iff)
  have "{i. i < 2 \<and> slab_used ?sl i} = {0}" unfolding u by auto
  then have "card {i. i < 2 \<and> slab_used ?sl i} = 1" by simp
  then show ?thesis unfolding slab_ok_def by (simp add: u)
qed

theorem kmem_cache_alloc_object_witness:
  "\<exists>s'. kmem_cache_alloc 0x8000 slab_demo = Some (0x200800, s') \<and>
     (\<exists>c. caches s' 0x8000 = Some c \<and> slabs_full c = 0x9000 \<and> slabs_partial c = 0)"
proof -
  let ?c = "\<lparr>cache_name = ''inode'', obj_size = 2048, slabs_full = 0,
       slabs_partial = 0x9000, slabs_free = 0, cache_next = 0\<rparr> :: kmem_cache"
  let ?sl = "\<lparr>s_mem = 0x200000, s_next = 0, free_bitmap = 1, objects_free = 1\<rparr>"
  have cap: "slab_capacity 2048 = 2" by (simp add: slab_capacity_def)
  have d: "caches slab_demo 0x8000 = Some ?c" "slabs slab_demo 0x9000 = Some ?sl"
    by (simp_all add: slab_demo_def)
  have "slab_ok (unat (slab_capacity (obj_size ?c))) ?sl" using slab_demo_ok by (simp add: cap)
  from kmem_cache_alloc_object [of slab_demo "0x8000" ?c ?sl] d this obtain i obj s' where
      r: "kmem_cache_alloc 0x8000 slab_demo = Some (obj, s')" "unat obj = 0x200000 + i * 2048"
      "i * 2048 + 2048 \<le> 4096" "\<not> slab_used ?sl i"
      "caches s' 0x8000 = Some (?c\<lparr>slabs_partial := 0, slabs_full := 0x9000\<rparr>)"
    by auto
  from r(3,4) have "i = 1" by (cases "i = 0") (auto simp: slab_used_def)
  with r(2) have "unat obj = unat (0x200800 :: u32)" by simp
  then have "obj = 0x200800" by (rule word_unat_eq_iff [THEN iffD2])
  with r show ?thesis by auto
qed

text \<open>
  \<open>kmem_cache_free\<close> only looks for the object among the full slabs. Freeing an object of a
  slab that still has room changes nothing at all, so the object is lost to the cache for
  ever.
\<close>

theorem kmem_cache_free_ignores_partial:
  assumes "caches s cache = Some c" and "chain (slabs s) s_next (slabs_full c) xs"
    and "\<forall>x \<in> set xs. \<forall>sl. slabs s x = Some sl \<longrightarrow> \<not> (s_mem sl \<le> obj \<and> obj < s_mem sl + 4096)"
  shows "kmem_cache_free cache obj s = Some s"
  using assms kmem_cache_free_loop_none [OF assms(2,3)] by (simp add: kmem_cache_free_def)

theorem kmem_cache_free_ignores_partial_witness:
  "kmem_cache_free 0x8000 0x200000 slab_demo = Some slab_demo \<and>
   (\<exists>sl. slabs slab_demo 0x9000 = Some sl \<and> s_mem sl = 0x200000 \<and> slab_used sl 0)"
proof -
  have "chain (slabs slab_demo) s_next 0 []" by simp
  with kmem_cache_free_ignores_partial [of slab_demo "0x8000" _ "[]" "0x200000"] show ?thesis
    by (simp add: slab_demo_def slab_used_def)
qed

text \<open>\<open>v\<close> is the first of the unprotected processes with the most pages.\<close>

definition oom_best :: "oom_proc list \<Rightarrow> nat option \<Rightarrow> bool" where
  "oom_best tab r \<longleftrightarrow>
     (case r of
        None \<Rightarrow> \<forall>p \<in> set tab. oom_protected p \<or> pages_used p = 0
      | Some v \<Rightarrow> v < length tab \<and> \<not> oom_protected (tab ! v) \<and> 0 < pages_used (tab ! v) \<and>
          (\<forall>p \<in> set tab. oom_protected p \<or> pages_used p \<le> pages_used (tab ! v)) \<and>
          (\<forall>p \<in> set (take v tab). oom_protected p \<or> pages_used p < pages_used (tab ! v)))"

lemma oom_scan_best:
  assumes "oom_best pre r" and "mx = (case r of None \<Rightarrow> 0 | Some v \<Rightarrow> pages_used (pre ! v))"
  shows "oom_best (pre @ ps) (oom_scan (length pre) mx r ps)"
  using assms
proof (induction ps arbitrary: pre mx r)
  case (Cons p ps)
  show ?case
  proof (cases "\<not> oom_protected p \<and> mx < pages_used p")
    case True
    have "oom_best (pre @ [p]) (Some (length pre))"
      using Cons.prems True
      by (cases r) (auto simp: oom_best_def word_gt_0 dest: order.strict_trans1 intro: order.strict_implies_order)
    with Cons.IH [of "pre @ [p]" "Some (length pre)" "pages_used p"] True show ?thesis by simp
  next
    case False
    have "oom_best (pre @ [p]) r"
      using Cons.prems False
      by (cases r) (auto simp: oom_best_def nth_append not_less word_gt_0)
    moreover have "mx = (case r of None \<Rightarrow> 0 | Some v \<Rightarrow> pages_used ((pre @ [p]) ! v))"
      using Cons.prems by (cases r) (auto simp: oom_best_def nth_append)
    ultimately show ?thesis using Cons.IH [of "pre @ [p]" r mx] False by auto
  qed
qed simp

text \<open>
  the out-of-memory killer never picks a protected process; it picks the first process
  with the largest page count among the unprotected ones, and panics exactly when every
  unprotected process holds no pages.
\<close>

theorem oom_select_best: "oom_best tab (oom_select_bad_process tab)"
  using oom_scan_best [of "[]" None 0 tab] by (simp add: oom_select_bad_process_def oom_best_def)

end
