(* ===== verification/Transitions.thy ===== *)
theory Transitions
  imports Main
begin

text \<open>
  The interface between a concurrent component and its safety proof: a step relation, its
  initial states and an invariant that holds initially and survives every step. Each
  component that is modelled as a step relation interprets it.
\<close>

locale safe_system =
  fixes init :: "'s \<Rightarrow> bool"
    and step :: "'s \<Rightarrow> 's \<Rightarrow> bool"
    and inv :: "'s \<Rightarrow> bool"
  assumes init_inv: "init s \<Longrightarrow> inv s"
    and step_inv: "inv s \<Longrightarrow> step s s' \<Longrightarrow> inv s'"
begin

lemma reach_inv_from: "step\<^sup>*\<^sup>* s s' \<Longrightarrow> inv s \<Longrightarrow> inv s'"
  by (induction rule: rtranclp_induct) (auto intro: step_inv)

lemma reach_inv: "init s \<Longrightarrow> step\<^sup>*\<^sup>* s s' \<Longrightarrow> inv s'"
  using init_inv reach_inv_from by blast

end

text \<open>Counting how many threads are at a program point.\<close>

lemma count_list_update:
  "i < length ts \<Longrightarrow> count_list (ts[i := y]) x + (if ts ! i = x then 1 else 0) =
     count_list ts x + (if y = x then 1 else 0)"
proof (induction ts arbitrary: i)
  case (Cons t ts)
  show ?case
  proof (cases i)
    case (Suc k)
    with Cons.IH [of k] Cons.prems show ?thesis by (auto split: if_splits)
  qed auto
qed simp

lemma count_list_le: "count_list ts x \<le> length ts"
  by (induction ts) auto

lemma count_list_two: "x \<noteq> y \<Longrightarrow> count_list ts x + count_list ts y \<le> length ts"
  by (induction ts) auto

lemma count_list_pos: "i < length ts \<Longrightarrow> ts ! i = x \<Longrightarrow> 0 < count_list ts x"
  by (metis count_list_0_iff gr0I nth_mem)

lemma count_replicate [simp]: "count_list (replicate n x) y = (if x = y then n else 0)"
  by (induction n) auto

end
