(* ===== verification/Locks.thy ===== *)
theory Locks
  imports Prelude Transitions
begin

text \<open>
  The synchronisation primitives of \<open>kernel/locking\<close>. Every access of the C code to the shared
  word that is one machine access (a volatile load, a compare-and-swap, a fetch-and-add, an
  exchange) is one step here, and the threads interleave at that grain. A thread's program
  counter says where it is inside an operation and whether it holds the lock; the spinning
  loops go back to their first access.
\<close>

text \<open>\<open>__sync_bool_compare_and_swap\<close>: whether it succeeded, and the new value.\<close>

definition cas :: "'a \<Rightarrow> 'a \<Rightarrow> 'a \<Rightarrow> bool \<times> 'a" where
  "cas v old new = (if v = old then (True, new) else (False, v))"

subsection \<open>Mutex\<close>

record mutex =
  m_locked :: bool
  owner_pid :: int

definition mutex_init :: mutex where
  "mutex_init = \<lparr>m_locked = False, owner_pid = -1\<rparr>"

text \<open>The result 0 tells the caller that it has the lock.\<close>

definition mutex_lock :: "mutex \<Rightarrow> int \<Rightarrow> int \<times> mutex" where
  "mutex_lock m current_pid =
     (let (swapped, l) = cas (m_locked m) False True
      in if swapped then (0, m\<lparr>m_locked := l, owner_pid := current_pid\<rparr>) else (0, m))"

definition mutex_unlock :: "mutex \<Rightarrow> mutex" where
  "mutex_unlock m = (if \<not> m_locked m then m else m\<lparr>owner_pid := -1, m_locked := False\<rparr>)"

text \<open>Clients: the set of processes that believe they hold the lock.\<close>

inductive mutex_step :: "mutex \<times> int set \<Rightarrow> mutex \<times> int set \<Rightarrow> bool" where
  m_lock: "p \<notin> holders \<Longrightarrow> mutex_lock m p = (r, m') \<Longrightarrow>
    mutex_step (m, holders) (m', if r = 0 then insert p holders else holders)"
| m_unlock: "p \<in> holders \<Longrightarrow> mutex_step (m, holders) (mutex_unlock m, holders - {p})"

subsection \<open>Reader-writer semaphore\<close>

definition rwsem_init :: u32 where "rwsem_init = 0"

datatype rw_pc = RIdle | RTry u32 | RHold | WHold

text \<open>\<open>rwsem_down_read\<close> is a load and, when the value was not negative, a compare-and-swap.\<close>

definition rwsem_read_load :: "u32 \<Rightarrow> rw_pc" where
  "rwsem_read_load activity_count =
     (if sint activity_count \<ge> 0 then RTry activity_count else RIdle)"

definition rwsem_read_cas :: "u32 \<Rightarrow> u32 \<Rightarrow> u32 \<times> rw_pc" where
  "rwsem_read_cas current activity_count =
     (let (ok, v) = cas activity_count current (current + 1) in (v, if ok then RHold else RIdle))"

definition rwsem_up_read :: "u32 \<Rightarrow> u32" where
  "rwsem_up_read activity_count = activity_count - 1"

definition rwsem_down_write :: "u32 \<Rightarrow> u32 \<times> rw_pc" where
  "rwsem_down_write activity_count =
     (let (ok, v) = cas activity_count 0 (- 1) in (v, if ok then WHold else RIdle))"

definition rwsem_up_write :: "u32 \<Rightarrow> u32" where
  "rwsem_up_write activity_count = snd (cas activity_count (- 1) 0)"

inductive rw_step :: "u32 \<times> rw_pc list \<Rightarrow> u32 \<times> rw_pc list \<Rightarrow> bool" where
  rw_load: "i < length ts \<Longrightarrow> ts ! i = RIdle \<Longrightarrow> rw_step (c, ts) (c, ts[i := rwsem_read_load c])"
| rw_cas: "i < length ts \<Longrightarrow> ts ! i = RTry cur \<Longrightarrow> rwsem_read_cas cur c = (c', pc) \<Longrightarrow>
    rw_step (c, ts) (c', ts[i := pc])"
| rw_write: "i < length ts \<Longrightarrow> ts ! i = RIdle \<Longrightarrow> rwsem_down_write c = (c', pc) \<Longrightarrow>
    rw_step (c, ts) (c', ts[i := pc])"
| rw_up_read: "i < length ts \<Longrightarrow> ts ! i = RHold \<Longrightarrow> rw_step (c, ts) (rwsem_up_read c, ts[i := RIdle])"
| rw_up_write: "i < length ts \<Longrightarrow> ts ! i = WHold \<Longrightarrow> rw_step (c, ts) (rwsem_up_write c, ts[i := RIdle])"

text \<open>The word counts the readers, or is -1 for the one writer.\<close>

definition rw_inv :: "u32 \<times> rw_pc list \<Rightarrow> bool" where
  "rw_inv s \<longleftrightarrow> (case s of (c, ts) \<Rightarrow>
     length ts < 2 ^ 31 \<and> (\<forall>cur. RTry cur \<in> set ts \<longrightarrow> sint cur \<ge> 0) \<and>
     (if count_list ts WHold = 0 then c = of_nat (count_list ts RHold)
      else count_list ts WHold = 1 \<and> count_list ts RHold = 0 \<and> c = - 1))"

subsection \<open>Counting semaphore\<close>

record semaphore =
  sem_count :: int
  total_waiters :: u32

definition sem_init :: "int \<Rightarrow> semaphore" where
  "sem_init initial_count = \<lparr>sem_count = initial_count, total_waiters = 0\<rparr>"

datatype sem_pc = SIdle | STry int | SWait | SHold

text \<open>The load of \<open>sem_down\<close>, its compare-and-swap, and the two ends of its waiting branch.\<close>

definition sem_down_load :: "semaphore \<Rightarrow> semaphore \<times> sem_pc" where
  "sem_down_load s =
     (if sem_count s > 0 then (s, STry (sem_count s))
      else (s\<lparr>total_waiters := total_waiters s + 1\<rparr>, SWait))"

definition sem_down_cas :: "int \<Rightarrow> semaphore \<Rightarrow> semaphore \<times> sem_pc" where
  "sem_down_cas current s =
     (let (ok, v) = cas (sem_count s) current (current - 1)
      in (s\<lparr>sem_count := v\<rparr>, if ok then SHold else SIdle))"

definition sem_down_wait_end :: "semaphore \<Rightarrow> semaphore" where
  "sem_down_wait_end s = s\<lparr>total_waiters := total_waiters s - 1\<rparr>"

definition sem_up :: "semaphore \<Rightarrow> semaphore" where
  "sem_up s = s\<lparr>sem_count := sem_count s + 1\<rparr>"

inductive sem_step :: "semaphore \<times> sem_pc list \<Rightarrow> semaphore \<times> sem_pc list \<Rightarrow> bool" where
  s_load: "i < length ts \<Longrightarrow> ts ! i = SIdle \<Longrightarrow> sem_down_load s = (s', pc) \<Longrightarrow>
    sem_step (s, ts) (s', ts[i := pc])"
| s_cas: "i < length ts \<Longrightarrow> ts ! i = STry cur \<Longrightarrow> sem_down_cas cur s = (s', pc) \<Longrightarrow>
    sem_step (s, ts) (s', ts[i := pc])"
| s_wait: "i < length ts \<Longrightarrow> ts ! i = SWait \<Longrightarrow> sem_step (s, ts) (sem_down_wait_end s, ts[i := SIdle])"
| s_up: "i < length ts \<Longrightarrow> ts ! i = SHold \<Longrightarrow> sem_step (s, ts) (sem_up s, ts[i := SIdle])"

definition sem_inv :: "int \<Rightarrow> semaphore \<times> sem_pc list \<Rightarrow> bool" where
  "sem_inv k s \<longleftrightarrow> (case s of (sem, ts) \<Rightarrow>
     0 \<le> sem_count sem \<and> sem_count sem + int (count_list ts SHold) = k \<and>
     total_waiters sem = of_nat (count_list ts SWait) \<and> (\<forall>cur. STry cur \<in> set ts \<longrightarrow> 0 < cur))"

subsection \<open>Spinlock\<close>

definition spinlock_init :: u32 where "spinlock_init = 0"

datatype spin_pc = PIdle | PHold

text \<open>One round of the loop: exchange 1 with the lock; the old value says whether to spin on.\<close>

definition spinlock_xchg :: "u32 \<Rightarrow> u32 \<times> spin_pc" where
  "spinlock_xchg lock_state = (let acquired = lock_state in (1, if acquired \<noteq> 0 then PIdle else PHold))"

definition spinlock_unlock :: "u32 \<Rightarrow> u32" where
  "spinlock_unlock lock_state = 0"

inductive spin_step :: "u32 \<times> spin_pc list \<Rightarrow> u32 \<times> spin_pc list \<Rightarrow> bool" where
  p_lock: "i < length ts \<Longrightarrow> ts ! i = PIdle \<Longrightarrow> spinlock_xchg l = (l', pc) \<Longrightarrow>
    spin_step (l, ts) (l', ts[i := pc])"
| p_unlock: "i < length ts \<Longrightarrow> ts ! i = PHold \<Longrightarrow> spin_step (l, ts) (spinlock_unlock l, ts[i := PIdle])"

definition spin_inv :: "u32 \<times> spin_pc list \<Rightarrow> bool" where
  "spin_inv s \<longleftrightarrow> (case s of (l, ts) \<Rightarrow>
     (l = 0 \<and> count_list ts PHold = 0) \<or> (l = 1 \<and> count_list ts PHold = 1))"

subsection \<open>The invariants hold\<close>

lemma set_update_RTry: "x \<in> set (ts[i := y]) \<Longrightarrow> x = y \<or> x \<in> set ts"
  using set_update_subset_insert by fastforce

lemma of_nat_u32_bound:
  assumes "n < 2 ^ 31"
  shows "sint (of_nat n :: u32) = int n" and "(of_nat n :: u32) \<noteq> - 1" and "unat (of_nat n :: u32) = n"
proof -
  show u: "unat (of_nat n :: u32) = n" using assms by (simp add: unat_of_nat take_bit_eq_mod)
  show "sint (of_nat n :: u32) = int n"
    using assms by (simp add: signed_of_nat signed_take_bit_int_eq_self)
  show "(of_nat n :: u32) \<noteq> - 1"
  proof
    assume "(of_nat n :: u32) = - 1"
    then have "n = unat (- 1 :: u32)" using u by simp
    then show False using assms by (simp add: unsigned_minus_1_eq_mask mask_eq_exp_minus_1)
  qed
qed


lemma rwsem_safe_step:
  assumes inv: "rw_inv s" and step: "rw_step s s'"
  shows "rw_inv s'"
  using step inv
proof (cases rule: rw_step.cases)
  case (rw_load i ts c)
  have "length ts < 2 ^ 31" using inv rw_load by (simp add: rw_inv_def)
  then show ?thesis
    using inv rw_load count_list_update [of i ts "rwsem_read_load c" WHold]
      count_list_update [of i ts "rwsem_read_load c" RHold]
    by (auto simp: rw_inv_def rwsem_read_load_def split: if_splits dest!: set_update_RTry)
next
  case (rw_cas i ts cur c c' pc)
  have len: "length ts < 2 ^ 31" and pos: "sint cur \<ge> 0"
    using inv rw_cas by (auto simp: rw_inv_def dest: nth_mem)
  show ?thesis
  proof (cases "c = cur")
    case True
    with rw_cas have c': "c' = c + 1" "pc = RHold" by (simp_all add: rwsem_read_cas_def cas_def)
    have "c \<noteq> - 1" using pos True by auto
    then have w: "count_list ts WHold = 0" and r: "c = of_nat (count_list ts RHold)"
      using inv rw_cas(1) by (auto simp: rw_inv_def split: if_splits)
    have "count_list (ts[i := RHold]) WHold = 0" "count_list (ts[i := RHold]) RHold = count_list ts RHold + 1"
      using count_list_update [of i ts RHold WHold] count_list_update [of i ts RHold RHold] rw_cas w by auto
    with inv rw_cas c' r show ?thesis
      by (auto simp: rw_inv_def add.commute dest!: set_update_RTry)
  next
    case False
    with rw_cas have "c' = c" "pc = RIdle" by (simp_all add: rwsem_read_cas_def cas_def)
    with inv rw_cas count_list_update [of i ts RIdle WHold] count_list_update [of i ts RIdle RHold]
    show ?thesis by (auto simp: rw_inv_def split: if_splits dest!: set_update_RTry)
  qed
next
  case (rw_write i ts c c' pc)
  have len: "length ts < 2 ^ 31" using inv rw_write by (simp add: rw_inv_def)
  show ?thesis
  proof (cases "c = 0")
    case True
    with rw_write have c': "c' = - 1" "pc = WHold" by (simp_all add: rwsem_down_write_def cas_def)
    have w: "count_list ts WHold = 0" "(of_nat (count_list ts RHold) :: u32) = 0"
      using inv rw_write(1) True by (auto simp: rw_inv_def split: if_splits)
    have "count_list ts RHold < 2 ^ 31" using count_list_le len by (rule le_less_trans)
    from of_nat_u32_bound(3) [OF this] w(2) have r: "count_list ts RHold = 0" by simp
    have "count_list (ts[i := WHold]) WHold = 1" "count_list (ts[i := WHold]) RHold = 0"
      using count_list_update [of i ts WHold WHold] count_list_update [of i ts WHold RHold] rw_write w r by auto
    with inv rw_write c' show ?thesis by (auto simp: rw_inv_def dest!: set_update_RTry)
  next
    case False
    with rw_write have "c' = c" "pc = RIdle" by (simp_all add: rwsem_down_write_def cas_def)
    moreover have "ts[i := RIdle] = ts" using rw_write by (metis list_update_id)
    ultimately show ?thesis using inv rw_write by simp
  qed
next
  case (rw_up_read i ts c)
  have "0 < count_list ts RHold" using rw_up_read by (intro count_list_pos)
  moreover from this have w: "count_list ts WHold = 0" "c = of_nat (count_list ts RHold)"
    using inv rw_up_read(1) by (auto simp: rw_inv_def split: if_splits)
  moreover have "count_list (ts[i := RIdle]) WHold = 0" "count_list (ts[i := RIdle]) RHold = count_list ts RHold - 1"
    using count_list_update [of i ts RIdle WHold] count_list_update [of i ts RIdle RHold] rw_up_read w(1) by auto
  ultimately show ?thesis
    using inv rw_up_read by (auto simp: rw_inv_def rwsem_up_read_def dest!: set_update_RTry)
next
  case (rw_up_write i ts c)
  have "0 < count_list ts WHold" using rw_up_write by (intro count_list_pos)
  with inv rw_up_write(1) have w: "count_list ts WHold = 1" "count_list ts RHold = 0" "c = - 1"
    by (auto simp: rw_inv_def split: if_splits)
  have "count_list (ts[i := RIdle]) WHold = 0" "count_list (ts[i := RIdle]) RHold = 0"
    using count_list_update [of i ts RIdle WHold] count_list_update [of i ts RIdle RHold] rw_up_write w by auto
  with inv rw_up_write w show ?thesis
    by (auto simp: rw_inv_def rwsem_up_write_def cas_def dest!: set_update_RTry)
qed

interpretation rwsem: safe_system
  "\<lambda>s. \<exists>n < 2 ^ 31. s = (rwsem_init, replicate n RIdle)" rw_step rw_inv
proof
  show "rw_inv s" if "\<exists>n < 2 ^ 31. s = (rwsem_init, replicate n RIdle)" for s
    using that by (auto simp: rw_inv_def rwsem_init_def)
qed (rule rwsem_safe_step)

lemma sem_safe_step:
  assumes inv: "sem_inv k s" and step: "sem_step s s'"
  shows "sem_inv k s'"
  using step
proof (cases rule: sem_step.cases)
  case (s_load i ts s s' pc)
  with inv count_list_update [of i ts pc SHold] count_list_update [of i ts pc SWait] show ?thesis
    by (auto simp: sem_inv_def sem_down_load_def split: if_splits dest!: set_update_RTry)
next
  case (s_cas i ts cur s s' pc)
  have "0 < cur" using inv s_cas by (auto simp: sem_inv_def dest: nth_mem)
  with s_cas inv count_list_update [of i ts pc SHold] count_list_update [of i ts pc SWait] show ?thesis
    by (auto simp: sem_inv_def sem_down_cas_def cas_def split: if_splits dest!: set_update_RTry)
next
  case (s_wait i ts s)
  have "Suc (count_list (ts[i := SIdle]) SWait) = count_list ts SWait"
    using count_list_update [of i ts SIdle SWait] s_wait by simp
  then have "(of_nat (count_list ts SWait) :: u32) - 1 = of_nat (count_list (ts[i := SIdle]) SWait)"
    by (metis add_diff_cancel_left' of_nat_Suc)
  with s_wait inv count_list_update [of i ts SIdle SHold] show ?thesis
    by (auto simp: sem_inv_def sem_down_wait_end_def dest!: set_update_RTry)
next
  case (s_up i ts s)
  with inv count_list_update [of i ts SIdle SHold] count_list_update [of i ts SIdle SWait] show ?thesis
    by (auto simp: sem_inv_def sem_up_def dest!: set_update_RTry)
qed

interpretation sem: safe_system "\<lambda>s. \<exists>n. s = (sem_init k, replicate n SIdle) \<and> 0 \<le> k" sem_step "sem_inv k" for k
proof
  show "sem_inv k s" if "\<exists>n. s = (sem_init k, replicate n SIdle) \<and> 0 \<le> k" for s
    using that by (auto simp: sem_inv_def sem_init_def)
qed (rule sem_safe_step)

lemma spin_safe_step:
  assumes inv: "spin_inv s" and step: "spin_step s s'"
  shows "spin_inv s'"
  using step
proof (cases rule: spin_step.cases)
  case (p_lock i ts l l' pc)
  with inv count_list_update [of i ts pc PHold] show ?thesis
    by (auto simp: spin_inv_def spinlock_xchg_def)
next
  case (p_unlock i ts l)
  with inv count_list_pos [of i ts PHold] count_list_update [of i ts PIdle PHold] show ?thesis
    by (auto simp: spin_inv_def spinlock_unlock_def)
qed

interpretation spin: safe_system "\<lambda>s. \<exists>n. s = (spinlock_init, replicate n PIdle)" spin_step spin_inv
proof
  show "spin_inv s" if "\<exists>n. s = (spinlock_init, replicate n PIdle)" for s
    using that by (auto simp: spin_inv_def spinlock_init_def)
qed (rule spin_safe_step)

subsection \<open>Properties\<close>

text \<open>
  C3: the reader-writer semaphore excludes. Whatever the interleaving of loads, compare-and-swaps
  and releases of fewer than 2^31 threads, at most one thread is in a write section, a writer
  excludes all readers, and with no writer the word is the number of readers.
\<close>

theorem rwsem_exclusion:
  assumes "n < 2 ^ 31" and "rw_step\<^sup>*\<^sup>* (rwsem_init, replicate n RIdle) (c, ts)"
  shows "count_list ts WHold \<le> 1 \<and> (count_list ts WHold = 1 \<longrightarrow> count_list ts RHold = 0) \<and>
    (count_list ts WHold = 0 \<longrightarrow> sint c = int (count_list ts RHold))"
proof -
  have inv: "rw_inv (c, ts)" using rwsem.reach_inv [OF _ assms(2)] assms(1) by blast
  then have "count_list ts RHold < 2 ^ 31"
    using count_list_le [of ts RHold] by (simp add: rw_inv_def)
  from of_nat_u32_bound(1) [OF this] inv show ?thesis by (auto simp: rw_inv_def split: if_splits)
qed

theorem rwsem_exclusion_witness:
  "\<exists>c ts. rw_step\<^sup>*\<^sup>* (rwsem_init, replicate 2 RIdle) (c, ts) \<and> count_list ts WHold = 1 \<and>
     count_list ts RHold = 0"
proof -
  have "rw_step (rwsem_init, replicate 2 RIdle) (- 1, [WHold, RIdle])"
    using rw_write [of 0 "replicate 2 RIdle" 0 "- 1" WHold]
    by (simp add: rwsem_down_write_def cas_def rwsem_init_def numeral_2_eq_2)
  then have s: "rw_step\<^sup>*\<^sup>* (rwsem_init, replicate 2 RIdle) (- 1, [WHold, RIdle])" by blast
  from rwsem_exclusion [OF _ this] s show ?thesis by (intro exI [of _ "- 1"] exI [of _ "[WHold, RIdle]"]) simp
qed

text \<open>
  the counting semaphore never admits more threads than its initial count: in every
  reachable state the free tokens and the holders add up to the initial count, and
  \<open>total_waiters\<close> is the number of threads inside the waiting branch.
\<close>

theorem semaphore_bound:
  assumes "0 \<le> k" and "sem_step\<^sup>*\<^sup>* (sem_init k, replicate n SIdle) (s, ts)"
  shows "0 \<le> sem_count s \<and> sem_count s + int (count_list ts SHold) = k \<and>
    int (count_list ts SHold) \<le> k \<and> total_waiters s = of_nat (count_list ts SWait)"
proof -
  have "sem_inv k (s, ts)" using sem.reach_inv [OF _ assms(2)] assms(1) by blast
  then show ?thesis by (auto simp: sem_inv_def)
qed

theorem semaphore_bound_witness:
  "\<exists>s ts. sem_step\<^sup>*\<^sup>* (sem_init 0, replicate 1 SIdle) (s, ts) \<and> total_waiters s = 1 \<and>
     sem_count s + int (count_list ts SHold) = 0"
proof -
  let ?s = "\<lparr>sem_count = 0, total_waiters = 1\<rparr>"
  have "sem_step (sem_init 0, replicate 1 SIdle) (?s, [SWait])"
    using s_load [of 0 "[SIdle]" "sem_init 0" ?s SWait] by (simp add: sem_down_load_def sem_init_def)
  then have r: "sem_step\<^sup>*\<^sup>* (sem_init 0, replicate 1 SIdle) (?s, [SWait])" by blast
  from semaphore_bound [OF _ this] r show ?thesis by (intro exI [of _ ?s] exI [of _ "[SWait]"]) simp
qed

text \<open>
  C4: the spinlock excludes: in every reachable state at most one thread has left the
  acquisition loop without releasing, and the lock word is 1 exactly then.
\<close>

theorem spinlock_exclusion:
  assumes "spin_step\<^sup>*\<^sup>* (spinlock_init, replicate n PIdle) (l, ts)"
  shows "count_list ts PHold \<le> 1 \<and> (l = 1 \<longleftrightarrow> count_list ts PHold = 1) \<and> (l = 0 \<longleftrightarrow> count_list ts PHold = 0)"
proof -
  have "spin_inv (l, ts)" using spin.reach_inv [OF _ assms] by blast
  then show ?thesis by (auto simp: spin_inv_def)
qed

theorem spinlock_exclusion_witness:
  "\<exists>l ts. spin_step\<^sup>*\<^sup>* (spinlock_init, replicate 2 PIdle) (l, ts) \<and> count_list ts PHold = 1 \<and> l = 1"
proof -
  have "spin_step (spinlock_init, replicate 2 PIdle) (1, [PHold, PIdle])"
    using p_lock [of 0 "replicate 2 PIdle" 0 1 PHold]
    by (simp add: spinlock_xchg_def spinlock_init_def numeral_2_eq_2)
  then have s: "spin_step\<^sup>*\<^sup>* (spinlock_init, replicate 2 PIdle) (1, [PHold, PIdle])" by blast
  from spinlock_exclusion [OF this] s show ?thesis by (intro exI [of _ 1] exI [of _ "[PHold, PIdle]"]) simp
qed

text \<open>
  the mutex does not exclude: \<open>mutex_lock\<close> answers 0 (``secured'') on every branch, so every
  caller proceeds; two processes are inside the section in a reachable state, and after the
  first of them unlocks, the mutex is free while the other is still inside.
\<close>

theorem mutex_no_exclusion:
  "(\<forall>m p. mutex_lock m p = (0, if m_locked m then m else \<lparr>m_locked = True, owner_pid = p\<rparr>)) \<and>
   (\<exists>m. mutex_step\<^sup>*\<^sup>* (mutex_init, {}) (m, {1, 2}) \<and> owner_pid m = 1 \<and>
      mutex_step (m, {1, 2}) (mutex_init, {2}))"
proof (intro conjI allI)
  fix m p
  show "mutex_lock m p = (0, if m_locked m then m else \<lparr>m_locked = True, owner_pid = p\<rparr>)"
    by (cases m) (simp add: mutex_lock_def cas_def)
next
  let ?m = "\<lparr>m_locked = True, owner_pid = 1\<rparr>"
  have l: "mutex_lock mutex_init 1 = (0, ?m)" "mutex_lock ?m 2 = (0, ?m)"
    by (simp_all add: mutex_lock_def cas_def mutex_init_def)
  have "mutex_step (mutex_init, {}) (?m, {1})" using m_lock [OF _ l(1), of "{}"] by simp
  moreover have "mutex_step (?m, {1}) (?m, {1, 2})"
    using m_lock [OF _ l(2), of "{1}"] by (simp add: insert_commute)
  ultimately have "mutex_step\<^sup>*\<^sup>* (mutex_init, {}) (?m, {1, 2})" by (meson converse_rtranclp_into_rtranclp rtranclp.rtrancl_refl)
  moreover have "mutex_step (?m, {1, 2}) (mutex_init, {2})"
    using m_unlock [of 1 "{1, 2}" ?m] by (simp add: mutex_unlock_def mutex_init_def)
  ultimately show "\<exists>m. mutex_step\<^sup>*\<^sup>* (mutex_init, {}) (m, {1, 2}) \<and> owner_pid m = 1 \<and>
      mutex_step (m, {1, 2}) (mutex_init, {2})"
    by (intro exI [of _ ?m]) simp
qed

end
