(* ===== verification/Lru.thy ===== *)
theory Lru
  imports Prelude
begin

text \<open>
  The two-level LRU of \<open>drivers/lru/multilru.c\<close>: two doubly linked lists of page descriptors.
  Descriptors live in a store; None is a dereference of a pointer that is not a descriptor.
  \<open>dseg\<close> reads a doubly linked segment as a list of addresses, and the lemmas lift every pointer
  operation to that list.
\<close>

record page =
  frame_number :: u32
  status :: int
  referenced :: bool
  p_next :: u32
  p_prev :: u32

record lru_list =
  l_head :: u32
  l_tail :: u32
  l_count :: int

type_synonym pages = "u32 \<Rightarrow> page option"

record lru =
  lru_pages :: pages
  active_list :: lru_list
  inactive_list :: lru_list

definition PAGE_ACTIVE :: int where "PAGE_ACTIVE = 1"
definition PAGE_INACTIVE :: int where "PAGE_INACTIVE = 0"

definition empty_list :: lru_list where
  "empty_list = \<lparr>l_head = 0, l_tail = 0, l_count = 0\<rparr>"

definition lru_init :: "lru \<Rightarrow> lru" where
  "lru_init s = s\<lparr>active_list := empty_list, inactive_list := empty_list\<rparr>"

definition list_add_head :: "lru_list \<Rightarrow> u32 \<Rightarrow> pages \<Rightarrow> (lru_list \<times> pages) option" where
  "list_add_head l page st =
     do { n \<leftarrow> st page;
          let st1 = st(page \<mapsto> n\<lparr>p_next := l_head l, p_prev := 0\<rparr>);
          st2 \<leftarrow> (if l_head l \<noteq> 0
                 then do { h \<leftarrow> st1 (l_head l); Some (st1(l_head l \<mapsto> h\<lparr>p_prev := page\<rparr>)) }
                 else Some st1);
          Some (l\<lparr>l_head := page, l_tail := (if l_tail l = 0 then page else l_tail l),
                  l_count := l_count l + 1\<rparr>, st2) }"

definition list_remove :: "lru_list \<Rightarrow> u32 \<Rightarrow> pages \<Rightarrow> (lru_list \<times> pages) option" where
  "list_remove l page st =
     do { n \<leftarrow> st page;
          (l1, st1) \<leftarrow> (if p_prev n \<noteq> 0
                then do { q \<leftarrow> st (p_prev n); Some (l, st(p_prev n \<mapsto> q\<lparr>p_next := p_next n\<rparr>)) }
                else Some (l\<lparr>l_head := p_next n\<rparr>, st));
          n1 \<leftarrow> st1 page;
          (l2, st2) \<leftarrow> (if p_next n1 \<noteq> 0
                then do { q \<leftarrow> st1 (p_next n1); Some (l1, st1(p_next n1 \<mapsto> q\<lparr>p_prev := p_prev n1\<rparr>)) }
                else Some (l1\<lparr>l_tail := p_prev n1\<rparr>, st1));
          n2 \<leftarrow> st2 page;
          Some (l2\<lparr>l_count := l_count l2 - 1\<rparr>, st2(page \<mapsto> n2\<lparr>p_next := 0, p_prev := 0\<rparr>)) }"

definition set_flags :: "u32 \<Rightarrow> int \<Rightarrow> pages \<Rightarrow> pages option" where
  "set_flags page stat st =
     do { n \<leftarrow> st page; Some (st(page \<mapsto> n\<lparr>status := stat, referenced := False\<rparr>)) }"

definition demote_active_pages :: "lru \<Rightarrow> lru option" where
  "demote_active_pages s =
     (if l_tail (active_list s) \<noteq> 0
      then do { let page = l_tail (active_list s);
                (a, st) \<leftarrow> list_remove (active_list s) page (lru_pages s);
                st1 \<leftarrow> set_flags page PAGE_INACTIVE st;
                (i, st2) \<leftarrow> list_add_head (inactive_list s) page st1;
                Some (s\<lparr>lru_pages := st2, active_list := a, inactive_list := i\<rparr>) }
      else Some s)"

definition list_move_to_head :: "lru_list \<Rightarrow> u32 \<Rightarrow> pages \<Rightarrow> (lru_list \<times> pages) option" where
  "list_move_to_head l page st = do { (l1, st1) \<leftarrow> list_remove l page st; list_add_head l1 page st1 }"

definition lru_add_page :: "u32 \<Rightarrow> lru \<Rightarrow> lru option" where
  "lru_add_page page s =
     do { st \<leftarrow> set_flags page PAGE_INACTIVE (lru_pages s);
          (i, st1) \<leftarrow> list_add_head (inactive_list s) page st;
          Some (s\<lparr>lru_pages := st1, inactive_list := i\<rparr>) }"

definition lru_touch_page :: "u32 \<Rightarrow> lru \<Rightarrow> lru option" where
  "lru_touch_page page s =
     do { n \<leftarrow> lru_pages s page;
          (if status n = PAGE_INACTIVE
           then (if referenced n
                 then do { (i, st) \<leftarrow> list_remove (inactive_list s) page (lru_pages s);
                           st1 \<leftarrow> set_flags page PAGE_ACTIVE st;
                           (a, st2) \<leftarrow> list_add_head (active_list s) page st1;
                           Some (s\<lparr>lru_pages := st2, active_list := a, inactive_list := i\<rparr>) }
                 else Some (s\<lparr>lru_pages := (lru_pages s)(page \<mapsto> n\<lparr>referenced := True\<rparr>)\<rparr>))
           else do { (a, st) \<leftarrow> list_move_to_head (active_list s) page (lru_pages s);
                     Some (s\<lparr>lru_pages := st, active_list := a\<rparr>) }) }"

text \<open>The address returned is 0 when there is no page at all.\<close>

definition lru_evict_page :: "lru \<Rightarrow> (u32 \<times> lru) option" where
  "lru_evict_page s =
     do { s1 \<leftarrow> (if l_count (inactive_list s) = 0 then demote_active_pages s else Some s);
          let victim = l_tail (inactive_list s1);
          (if victim \<noteq> 0
           then do { (i, st) \<leftarrow> list_remove (inactive_list s1) victim (lru_pages s1);
                     Some (victim, s1\<lparr>lru_pages := st, inactive_list := i\<rparr>) }
           else Some (0, s1)) }"

subsection \<open>Doubly linked segments\<close>

text \<open>
  \<open>dseg st p h xs k m\<close>: from \<open>h\<close>, whose predecessor is \<open>p\<close>, the nodes are \<open>xs\<close>; the last one (or
  \<open>p\<close> when there is none) is \<open>k\<close>, and the next pointer behind it is \<open>m\<close>.
\<close>

primrec dseg :: "pages \<Rightarrow> u32 \<Rightarrow> u32 \<Rightarrow> u32 list \<Rightarrow> u32 \<Rightarrow> u32 \<Rightarrow> bool" where
  "dseg st p h [] k m \<longleftrightarrow> h = m \<and> k = p"
| "dseg st p h (x # xs) k m \<longleftrightarrow> h = x \<and> x \<noteq> 0 \<and>
     (\<exists>n. st x = Some n \<and> p_prev n = p \<and> dseg st x (p_next n) xs k m)"

lemma dseg_append:
  "dseg st p h (xs @ ys) k m \<longleftrightarrow> (\<exists>k' m'. dseg st p h xs k' m' \<and> dseg st k' m' ys k m)"
  by (induction xs arbitrary: p h) auto

lemma dseg_other [simp]: "y \<notin> set xs \<Longrightarrow> dseg (st(y := v)) p h xs k m = dseg st p h xs k m"
  by (induction xs arbitrary: p h) auto

text \<open>Fields that the links do not depend on.\<close>

lemma dseg_flags:
  assumes "st y = Some n" and "p_next n' = p_next n" and "p_prev n' = p_prev n"
  shows "dseg (st(y \<mapsto> n')) p h xs k m = dseg st p h xs k m"
  using assms by (induction xs arbitrary: p h) auto

lemma dseg_end:
  assumes "dseg st p h xs k m" and "xs \<noteq> []" and "distinct xs"
  shows "\<exists>n. k = last xs \<and> k \<noteq> 0 \<and> st k = Some n \<and> p_next n = m \<and>
    (\<forall>v. dseg (st(k \<mapsto> n\<lparr>p_next := v\<rparr>)) p h xs k v)"
  using assms
proof (induction xs arbitrary: p h)
  case (Cons x xs)
  then obtain n where n: "h = x" "x \<noteq> 0" "st x = Some n" "p_prev n = p" "dseg st x (p_next n) xs k m" by auto
  show ?case
  proof (cases "xs = []")
    case False
    have "distinct xs" using Cons.prems(3) by simp
    from Cons.IH [OF n(5) False this] obtain e where
        e: "k = last xs" "k \<noteq> 0" "st k = Some e" "p_next e = m"
        and v: "\<And>v. dseg (st(k \<mapsto> e\<lparr>p_next := v\<rparr>)) x (p_next n) xs k v" by blast
    have "k \<noteq> x" using e(1) False Cons.prems(3) by auto
    with n v have "dseg (st(k \<mapsto> e\<lparr>p_next := v\<rparr>)) p h (x # xs) k v" for v by simp
    moreover have "k = last (x # xs)" using e(1) False by simp
    ultimately show ?thesis using e(2-4) by blast
  qed (use n in auto)
qed simp

lemma dseg_front:
  assumes "dseg st p h xs k m" and "xs \<noteq> []" and "distinct xs"
  shows "\<exists>n. h = hd xs \<and> h \<noteq> 0 \<and> st h = Some n \<and> p_prev n = p \<and>
    (\<forall>v. dseg (st(h \<mapsto> n\<lparr>p_prev := v\<rparr>)) v h xs k m)"
  using assms by (cases xs) auto

lemma dseg_null: "dseg st 0 h xs k 0 \<Longrightarrow> (h = 0 \<longleftrightarrow> xs = []) \<and> (k = 0 \<longleftrightarrow> xs = [])"
proof (cases xs rule: rev_cases)
  case (snoc ys y)
  assume "dseg st 0 h xs k 0"
  with snoc show ?thesis by (cases ys) (auto simp: dseg_append)
qed auto

text \<open>A list header over a segment.\<close>

definition list_ok :: "pages \<Rightarrow> lru_list \<Rightarrow> u32 list \<Rightarrow> bool" where
  "list_ok st l xs \<longleftrightarrow> dseg st 0 (l_head l) xs (l_tail l) 0 \<and> distinct xs \<and> l_count l = int (length xs)"

lemma list_ok_other: "y \<notin> set xs \<Longrightarrow> list_ok (st(y := v)) l xs = list_ok st l xs"
  by (simp add: list_ok_def)

lemma list_ok_in: "list_ok st l xs \<Longrightarrow> x \<in> set xs \<Longrightarrow> st x \<noteq> None \<and> x \<noteq> 0"
proof -
  have "dseg st p h xs k m \<Longrightarrow> x \<in> set xs \<Longrightarrow> st x \<noteq> None \<and> x \<noteq> 0" for p h k m
    by (induction xs arbitrary: p h) auto
  then show "list_ok st l xs \<Longrightarrow> x \<in> set xs \<Longrightarrow> st x \<noteq> None \<and> x \<noteq> 0" by (auto simp: list_ok_def)
qed

lemma list_ok_empty: "list_ok st l xs \<Longrightarrow> (l_count l = 0 \<longleftrightarrow> xs = []) \<and> (l_tail l = 0 \<longleftrightarrow> xs = [])"
  using dseg_null by (auto simp: list_ok_def)

lemma list_ok_tail: "list_ok st l xs \<Longrightarrow> xs \<noteq> [] \<Longrightarrow> l_tail l = last xs"
  using dseg_end by (fastforce simp: list_ok_def)

text \<open>What the two pointer operations do to the store besides the links of the list.\<close>

definition same_flags :: "pages \<Rightarrow> pages \<Rightarrow> bool" where
  "same_flags st st' \<longleftrightarrow> (\<forall>x. map_option (\<lambda>n. (frame_number n, status n, referenced n)) (st' x) =
     map_option (\<lambda>n. (frame_number n, status n, referenced n)) (st x))"

lemma same_flags_upd:
  assumes "same_flags st st'" and "st' x = Some n" and "status n' = status n"
    and "referenced n' = referenced n" and "frame_number n' = frame_number n"
  shows "same_flags st (st'(x \<mapsto> n'))"
  unfolding same_flags_def
proof
  fix y
  have "map_option (\<lambda>n. (frame_number n, status n, referenced n)) (st' y) =
      map_option (\<lambda>n. (frame_number n, status n, referenced n)) (st y)"
    using assms(1) by (simp add: same_flags_def)
  with assms(2-5) show "map_option (\<lambda>n. (frame_number n, status n, referenced n)) ((st'(x \<mapsto> n')) y) =
      map_option (\<lambda>n. (frame_number n, status n, referenced n)) (st y)"
    by (cases "y = x") auto
qed

lemma same_flags_refl [simp]: "same_flags st st"
  by (simp add: same_flags_def)

lemma list_add_head_ok:
  assumes ok: "list_ok st l xs" and x: "x \<notin> set xs" "x \<noteq> 0" "st x = Some n"
  shows "\<exists>l' st'. list_add_head l x st = Some (l', st') \<and> list_ok st' l' (x # xs) \<and>
    (\<forall>y. y \<notin> set (x # xs) \<longrightarrow> st' y = st y) \<and> same_flags st st'"
proof -
  let ?n = "n\<lparr>p_next := l_head l, p_prev := 0\<rparr>"
  let ?st1 = "st(x \<mapsto> ?n)"
  have s1: "same_flags st ?st1" by (rule same_flags_upd [of st st x n, OF same_flags_refl x(3)]) simp_all
  have d: "dseg ?st1 0 (l_head l) xs (l_tail l) 0" using ok x by (simp add: list_ok_def)
  show ?thesis
  proof (cases "xs = []")
    case True
    with d have "l_head l = 0" "l_tail l = 0" by simp_all
    with True x ok s1 show ?thesis
      by (simp add: list_add_head_def list_ok_def)
  next
    case False
    have "distinct xs" using ok by (simp add: list_ok_def)
    from dseg_front [OF d False this] obtain h where h:
        "l_head l = hd xs" "l_head l \<noteq> 0" "?st1 (l_head l) = Some h"
        "dseg (?st1(l_head l \<mapsto> h\<lparr>p_prev := x\<rparr>)) x (l_head l) xs (l_tail l) 0"
      by blast
    have t: "l_tail l \<noteq> 0" using dseg_null [OF d] False by simp
    have hx: "l_head l \<noteq> x" "l_head l \<in> set xs" using h(1) False x(1) by auto
    let ?st2 = "?st1(l_head l \<mapsto> h\<lparr>p_prev := x\<rparr>)"
    let ?l = "l\<lparr>l_head := x, l_count := l_count l + 1\<rparr>"
    have "list_add_head l x st = Some (?l, ?st2)"
      using x(3) h(2,3) t by (simp add: list_add_head_def)
    moreover have "list_ok ?st2 ?l (x # xs)"
      using h(4) hx ok x by (simp add: list_ok_def)
    moreover have "same_flags st ?st2" by (rule same_flags_upd [of st _ _ h, OF s1 h(3)]) simp_all
    ultimately show ?thesis using hx by auto
  qed
qed


text \<open>Relinking around a node: the two neighbour updates of \<open>list_remove\<close>.\<close>

lemma list_remove_ok:
  assumes ok: "list_ok st l (as @ x # bs)"
  shows "\<exists>l' st'. list_remove l x st = Some (l', st') \<and> list_ok st' l' (as @ bs) \<and>
    (\<forall>y. y \<notin> set (as @ x # bs) \<longrightarrow> st' y = st y) \<and> same_flags st st' \<and> st' x \<noteq> None"
proof -
  have dist: "distinct (as @ x # bs)" and cnt: "l_count l = int (length (as @ x # bs))"
    using ok by (simp_all add: list_ok_def)
  from ok obtain k m where A: "dseg st 0 (l_head l) as k m" and X: "dseg st k m (x # bs) (l_tail l) 0"
    unfolding list_ok_def dseg_append by blast
  from X obtain n where n: "m = x" "x \<noteq> 0" "st x = Some n" "p_prev n = k"
      and B: "dseg st x (p_next n) bs (l_tail l) 0" by auto
  have prev0: "p_prev n = 0 \<longleftrightarrow> as = []"
  proof (cases "as = []")
    case False
    with dseg_end [OF A] dist n(4) show ?thesis by auto
  qed (use A n in auto)
  text \<open>first half: the link from the left\<close>
  obtain l1 st1 where s1: "(if p_prev n \<noteq> 0
        then do { q \<leftarrow> st (p_prev n); Some (l, st(p_prev n \<mapsto> q\<lparr>p_next := p_next n\<rparr>)) }
        else Some (l\<lparr>l_head := p_next n\<rparr>, st)) = Some (l1, st1)"
      and A1: "dseg st1 0 (l_head l1) as (p_prev n) (p_next n)"
      and B1: "dseg st1 x (p_next n) bs (l_tail l) 0" and x1: "st1 x = Some n"
      and l1: "l_tail l1 = l_tail l" "l_count l1 = l_count l"
      and o1: "\<forall>y. y \<notin> set as \<longrightarrow> st1 y = st y" and f1: "same_flags st st1"
  proof (cases "as = []")
    case True
    with A prev0 n B that [of "l\<lparr>l_head := p_next n\<rparr>" st] show ?thesis by simp
  next
    case False
    have "distinct as" using dist by simp
    from dseg_end [OF A False this] obtain q where q: "k = last as" "st k = Some q"
        and A': "dseg (st(k \<mapsto> q\<lparr>p_next := p_next n\<rparr>)) 0 (l_head l) as k (p_next n)" by blast
    have "k \<in> set as" using q(1) False by simp
    then have k: "k \<notin> set bs" "k \<noteq> x" using dist by auto
    have "same_flags st (st(k \<mapsto> q\<lparr>p_next := p_next n\<rparr>))"
      by (rule same_flags_upd [of st st k q, OF same_flags_refl q(2)]) simp_all
    with that [of l "st(k \<mapsto> q\<lparr>p_next := p_next n\<rparr>)"] prev0 False n q(2) A' B k \<open>k \<in> set as\<close>
    show ?thesis by auto
  qed
  have next0: "p_next n = 0 \<longleftrightarrow> bs = []"
  proof (cases "bs = []")
    case False
    with dseg_front [OF B False] dist show ?thesis by auto
  qed (use B in auto)
  text \<open>second half: the link from the right\<close>
  obtain l2 st2 where s2: "(if p_next n \<noteq> 0
        then do { q \<leftarrow> st1 (p_next n); Some (l1, st1(p_next n \<mapsto> q\<lparr>p_prev := p_prev n\<rparr>)) }
        else Some (l1\<lparr>l_tail := p_prev n\<rparr>, st1)) = Some (l2, st2)"
      and AB: "dseg st2 0 (l_head l2) (as @ bs) (l_tail l2) 0" and x2: "st2 x = Some n"
      and l2: "l_count l2 = l_count l"
      and o2: "\<forall>y. y \<notin> set bs \<longrightarrow> st2 y = st1 y" and f2: "same_flags st st2"
  proof (cases "bs = []")
    case True
    with A1 next0 l1 x1 f1 that [of "l1\<lparr>l_tail := p_prev n\<rparr>" st1] show ?thesis by simp
  next
    case False
    have "distinct bs" using dist by simp
    from dseg_front [OF B1 False this] obtain q where q: "p_next n = hd bs" "st1 (p_next n) = Some q"
        and B': "dseg (st1(p_next n \<mapsto> q\<lparr>p_prev := p_prev n\<rparr>)) (p_prev n) (p_next n) bs (l_tail l) 0"
      by blast
    let ?st2 = "st1(p_next n \<mapsto> q\<lparr>p_prev := p_prev n\<rparr>)"
    have b: "p_next n \<in> set bs" using q(1) False by simp
    then have "p_next n \<notin> set as" "p_next n \<noteq> x" using dist by auto
    with A1 B' l1 have "dseg ?st2 0 (l_head l1) (as @ bs) (l_tail l1) 0"
      unfolding dseg_append by (metis dseg_other)
    moreover have "same_flags st ?st2" by (rule same_flags_upd [of st _ _ q, OF f1 q(2)]) simp_all
    ultimately show ?thesis
      using that [of l1 ?st2] next0 False q(2) x1 l1 b \<open>p_next n \<noteq> x\<close> by auto
  qed
  let ?st3 = "st2(x \<mapsto> n\<lparr>p_next := 0, p_prev := 0\<rparr>)"
  let ?l3 = "l2\<lparr>l_count := l_count l2 - 1\<rparr>"
  have "list_remove l x st = Some (?l3, ?st3)"
    unfolding list_remove_def n(3) bind.bind_lunit s1 prod.case x1 s2 x2 ..
  moreover have "list_ok ?st3 ?l3 (as @ bs)"
    using AB dist cnt l2 by (simp add: list_ok_def)
  moreover have "same_flags st ?st3" by (rule same_flags_upd [of st _ _ n, OF f2 x2]) simp_all
  moreover have "\<forall>y. y \<notin> set (as @ x # bs) \<longrightarrow> ?st3 y = st y" using o1 o2 by simp
  ultimately show ?thesis by auto
qed


lemma list_ok_cong:
  assumes "\<forall>y \<in> set xs. st' y = st y"
  shows "list_ok st' l xs = list_ok st l xs"
proof -
  have "dseg st' p h xs k m = dseg st p h xs k m" for p h k m
    using assms by (induction xs arbitrary: p h) auto
  then show ?thesis by (simp add: list_ok_def)
qed

lemma list_remove_in:
  assumes "list_ok st l xs" and "x \<in> set xs"
  shows "\<exists>l' st'. list_remove l x st = Some (l', st') \<and> list_ok st' l' (remove1 x xs) \<and>
    (\<forall>y. y \<notin> set xs \<longrightarrow> st' y = st y) \<and> same_flags st st' \<and> st' x \<noteq> None"
proof -
  obtain as bs where xs: "xs = as @ x # bs" "x \<notin> set as"
    using assms(2) by (meson split_list_first)
  with list_remove_ok [of st l as x bs] assms(1) show ?thesis by (simp add: remove1_append)
qed

lemma set_flags_ok:
  assumes "st x = Some n"
  shows "\<exists>st'. set_flags x v st = Some st' \<and> (\<forall>y. y \<noteq> x \<longrightarrow> st' y = st y) \<and>
    (\<exists>n'. st' x = Some n' \<and> status n' = v \<and> \<not> referenced n') \<and> (\<forall>l xs. list_ok st' l xs = list_ok st l xs)"
  using assms by (simp add: set_flags_def list_ok_def dseg_flags)

subsection \<open>The two lists\<close>

definition stat :: "pages \<Rightarrow> u32 \<Rightarrow> int option" where "stat st x = map_option status (st x)"
definition refd :: "pages \<Rightarrow> u32 \<Rightarrow> bool option" where "refd st x = map_option referenced (st x)"

lemma same_flags_stat: "same_flags st st' \<Longrightarrow> stat st' x = stat st x \<and> refd st' x = refd st x"
proof -
  assume "same_flags st st'"
  then have "map_option (\<lambda>n. (frame_number n, status n, referenced n)) (st' x) =
      map_option (\<lambda>n. (frame_number n, status n, referenced n)) (st x)"
    by (simp add: same_flags_def)
  then show ?thesis by (cases "st x"; cases "st' x") (auto simp: stat_def refd_def)
qed

text \<open>The invariant, with the two lists it stands for (most recent first).\<close>

definition lru_ok :: "lru \<Rightarrow> u32 list \<Rightarrow> u32 list \<Rightarrow> bool" where
  "lru_ok s A I \<longleftrightarrow> list_ok (lru_pages s) (active_list s) A \<and> list_ok (lru_pages s) (inactive_list s) I \<and>
     set A \<inter> set I = {} \<and> (\<forall>x \<in> set A. stat (lru_pages s) x = Some PAGE_ACTIVE) \<and>
     (\<forall>x \<in> set I. stat (lru_pages s) x = Some PAGE_INACTIVE)"

lemma lru_add_ok:
  assumes ok: "lru_ok s A I" and x: "x \<noteq> 0" "x \<notin> set A" "x \<notin> set I" "lru_pages s x \<noteq> None"
  shows "\<exists>s'. lru_add_page x s = Some s' \<and> lru_ok s' A (x # I) \<and> refd (lru_pages s') x = Some False \<and>
    (\<forall>y. y \<noteq> x \<longrightarrow> refd (lru_pages s') y = refd (lru_pages s) y)"
proof -
  obtain n where "lru_pages s x = Some n" using x by auto
  from set_flags_ok [of "lru_pages s" x n PAGE_INACTIVE, OF this] obtain st n' where st: "set_flags x PAGE_INACTIVE (lru_pages s) = Some st"
      "\<forall>y. y \<noteq> x \<longrightarrow> st y = lru_pages s y" "st x = Some n'" "status n' = PAGE_INACTIVE" "\<not> referenced n'"
      "\<forall>l xs. list_ok st l xs = list_ok (lru_pages s) l xs" by blast
  then have I: "list_ok st (inactive_list s) I" and A: "list_ok st (active_list s) A"
    using ok by (simp_all add: lru_ok_def)
  from list_add_head_ok [of st _ I x n', OF I x(3,1) st(3)] obtain l' st' where
      a: "list_add_head (inactive_list s) x st = Some (l', st')" "list_ok st' l' (x # I)"
      "\<forall>y. y \<notin> set (x # I) \<longrightarrow> st' y = st y" "same_flags st st'" by blast
  have "\<forall>y \<in> set A. st' y = st y" using a(3) ok x(2) by (auto simp: lru_ok_def)
  then have A': "list_ok st' (active_list s) A" using A list_ok_cong by blast
  let ?s = "s\<lparr>lru_pages := st', inactive_list := l'\<rparr>"
  have f: "stat st' y = (if y = x then Some PAGE_INACTIVE else stat (lru_pages s) y)"
      "refd st' y = (if y = x then Some False else refd (lru_pages s) y)" for y
    using same_flags_stat [OF a(4), of y] st by (auto simp: stat_def refd_def)
  have "lru_ok ?s A (x # I)"
    using A' a(2) ok x(2) unfolding lru_ok_def by (auto simp: f)
  then show ?thesis using st(1) a(1) by (auto simp: lru_add_page_def f)
qed

lemma lru_touch_ok:
  assumes ok: "lru_ok s A I" and x: "x \<in> set A \<union> set I"
  shows "\<exists>s'. lru_touch_page x s = Some s' \<and>
    (if x \<in> set A then lru_ok s' (x # remove1 x A) I
     else if refd (lru_pages s) x = Some True
     then lru_ok s' (x # A) (remove1 x I) \<and> refd (lru_pages s') x = Some False
     else lru_ok s' A I \<and> refd (lru_pages s') x = Some True) \<and>
    (\<forall>y. y \<noteq> x \<longrightarrow> refd (lru_pages s') y = refd (lru_pages s) y)"
proof -
  have ne: "PAGE_ACTIVE \<noteq> PAGE_INACTIVE" by (simp add: PAGE_ACTIVE_def PAGE_INACTIVE_def)
  have la: "list_ok (lru_pages s) (active_list s) A" and li: "list_ok (lru_pages s) (inactive_list s) I"
    using ok by (simp_all add: lru_ok_def)
  have dA: "distinct A" and dI: "distinct I" using la li by (simp_all add: list_ok_def)
  have x0: "x \<noteq> 0" using x list_ok_in [OF la] list_ok_in [OF li] by blast
  consider (act) "x \<in> set A" | (prom) "x \<notin> set A" "x \<in> set I" "refd (lru_pages s) x = Some True"
    | (ref) "x \<notin> set A" "x \<in> set I" "refd (lru_pages s) x \<noteq> Some True" using x by blast
  then show ?thesis
  proof cases
    case act
    then have nI: "x \<notin> set I" using ok by (auto simp: lru_ok_def)
    obtain n where n: "lru_pages s x = Some n" "status n = PAGE_ACTIVE"
      using act ok by (auto simp: lru_ok_def stat_def)
    from list_remove_in [OF la act] obtain l1 st1 n1 where r: "list_remove (active_list s) x (lru_pages s) = Some (l1, st1)"
        "list_ok st1 l1 (remove1 x A)" "\<forall>y. y \<notin> set A \<longrightarrow> st1 y = lru_pages s y" "same_flags (lru_pages s) st1"
        "st1 x = Some n1" by auto
    have "x \<notin> set (remove1 x A)" using dA by simp
    from list_add_head_ok [of st1 _ _ x n1, OF r(2) this x0 r(5)] obtain l2 st2 where
        a: "list_add_head l1 x st1 = Some (l2, st2)" "list_ok st2 l2 (x # remove1 x A)"
        "\<forall>y. y \<notin> set (x # remove1 x A) \<longrightarrow> st2 y = st1 y" "same_flags st1 st2" by blast
    have "\<forall>y \<in> set I. st2 y = lru_pages s y"
      using a(3) r(3) ok nI dA by (auto simp: lru_ok_def)
    then have I': "list_ok st2 (inactive_list s) I" using li list_ok_cong by blast
    have f: "stat st2 y = stat (lru_pages s) y" "refd st2 y = refd (lru_pages s) y" for y
      using same_flags_stat [OF a(4)] same_flags_stat [OF r(4)] by simp_all
    let ?s = "s\<lparr>lru_pages := st2, active_list := l2\<rparr>"
    have "lru_touch_page x s = Some ?s"
      using n ne r(1) a(1) by (simp add: lru_touch_page_def list_move_to_head_def)
    moreover have "lru_ok ?s (x # remove1 x A) I"
      using a(2) I' ok act nI dA unfolding lru_ok_def by (auto simp: f)
    ultimately show ?thesis using act f by auto
  next
    case prom
    obtain n where n: "lru_pages s x = Some n" "status n = PAGE_INACTIVE" "referenced n"
      using prom ok by (auto simp: lru_ok_def stat_def refd_def)
    from list_remove_in [OF li prom(2)] obtain l1 st1 n1 where r: "list_remove (inactive_list s) x (lru_pages s) = Some (l1, st1)"
        "list_ok st1 l1 (remove1 x I)" "\<forall>y. y \<notin> set I \<longrightarrow> st1 y = lru_pages s y" "same_flags (lru_pages s) st1"
        "st1 x = Some n1" by auto
    from set_flags_ok [of st1 x n1 PAGE_ACTIVE, OF r(5)] obtain st2 n2 where st2: "set_flags x PAGE_ACTIVE st1 = Some st2"
        "\<forall>y. y \<noteq> x \<longrightarrow> st2 y = st1 y" "st2 x = Some n2" "status n2 = PAGE_ACTIVE" "\<not> referenced n2"
        "\<forall>l xs. list_ok st2 l xs = list_ok st1 l xs" by blast
    have "\<forall>y \<in> set A. st1 y = lru_pages s y" using r(3) ok by (auto simp: lru_ok_def)
    then have A2: "list_ok st2 (active_list s) A" using la st2(6) list_ok_cong by blast
    from list_add_head_ok [of st2 _ A x n2, OF A2 prom(1) x0 st2(3)] obtain l3 st3 where
        a: "list_add_head (active_list s) x st2 = Some (l3, st3)" "list_ok st3 l3 (x # A)"
        "\<forall>y. y \<notin> set (x # A) \<longrightarrow> st3 y = st2 y" "same_flags st2 st3" by blast
    have "\<forall>y \<in> set (remove1 x I). st3 y = st2 y" using a(3) ok dI by (auto simp: lru_ok_def)
    then have I3: "list_ok st3 l1 (remove1 x I)" using r(2) st2(6) list_ok_cong by blast
    have f: "stat st3 y = (if y = x then Some PAGE_ACTIVE else stat (lru_pages s) y)"
        "refd st3 y = (if y = x then Some False else refd (lru_pages s) y)" for y
      using same_flags_stat [OF a(4), of y] same_flags_stat [OF r(4), of y] st2
      by (auto simp: stat_def refd_def)
    let ?s = "s\<lparr>lru_pages := st3, active_list := l3, inactive_list := l1\<rparr>"
    have "lru_touch_page x s = Some ?s"
      using n r(1) st2(1) a(1) by (simp add: lru_touch_page_def)
    moreover have "lru_ok ?s (x # A) (remove1 x I)"
      using a(2) I3 ok dI prom unfolding lru_ok_def by (auto simp: f)
    ultimately show ?thesis using prom f by auto
  next
    case ref
    obtain n where n: "lru_pages s x = Some n" "status n = PAGE_INACTIVE" "\<not> referenced n"
      using ref ok by (auto simp: lru_ok_def stat_def refd_def)
    let ?st = "(lru_pages s)(x \<mapsto> n\<lparr>referenced := True\<rparr>)"
    have l: "list_ok ?st l xs = list_ok (lru_pages s) l xs" for l xs
      using n(1) by (simp add: list_ok_def dseg_flags)
    have f: "stat ?st y = stat (lru_pages s) y"
        "refd ?st y = (if y = x then Some True else refd (lru_pages s) y)" for y
      using n by (auto simp: stat_def refd_def)
    have "lru_touch_page x s = Some (s\<lparr>lru_pages := ?st\<rparr>)" using n by (simp add: lru_touch_page_def)
    moreover have "lru_ok (s\<lparr>lru_pages := ?st\<rparr>) A I"
      using ok unfolding lru_ok_def by (simp add: l f del: fun_upd_apply)
    ultimately show ?thesis using ref f by (auto simp del: fun_upd_apply)
  qed
qed


lemma remove1_last: "distinct xs \<Longrightarrow> xs \<noteq> [] \<Longrightarrow> remove1 (last xs) xs = butlast xs"
  by (cases xs rule: rev_cases) (auto simp: remove1_append)

lemma in_butlast: "distinct xs \<Longrightarrow> xs \<noteq> [] \<Longrightarrow> last xs \<notin> set (butlast xs)"
  by (cases xs rule: rev_cases) auto

lemma demote_ok:
  assumes ok: "lru_ok s A I" and ne: "A \<noteq> []"
  shows "\<exists>s'. demote_active_pages s = Some s' \<and> lru_ok s' (butlast A) (last A # I)"
proof -
  let ?x = "last A"
  have la: "list_ok (lru_pages s) (active_list s) A" and li: "list_ok (lru_pages s) (inactive_list s) I"
    using ok by (simp_all add: lru_ok_def)
  have dA: "distinct A" using la by (simp add: list_ok_def)
  have x: "?x \<in> set A" using ne by simp
  then have xI: "?x \<notin> set I" and x0: "?x \<noteq> 0" using ok list_ok_in [OF la] by (auto simp: lru_ok_def)
  have t: "l_tail (active_list s) = ?x" "l_tail (active_list s) \<noteq> 0" using list_ok_tail [OF la ne] x0 by simp_all
  from list_remove_in [OF la x] obtain l1 st1 n1 where r: "list_remove (active_list s) ?x (lru_pages s) = Some (l1, st1)"
      "list_ok st1 l1 (butlast A)" "\<forall>y. y \<notin> set A \<longrightarrow> st1 y = lru_pages s y" "same_flags (lru_pages s) st1"
      "st1 ?x = Some n1" unfolding remove1_last [OF dA ne] by auto
  from set_flags_ok [of st1 ?x n1 PAGE_INACTIVE, OF r(5)] obtain st2 n2 where st2: "set_flags ?x PAGE_INACTIVE st1 = Some st2"
      "\<forall>y. y \<noteq> ?x \<longrightarrow> st2 y = st1 y" "st2 ?x = Some n2" "status n2 = PAGE_INACTIVE" "\<not> referenced n2"
      "\<forall>l xs. list_ok st2 l xs = list_ok st1 l xs" by blast
  have "\<forall>y \<in> set I. st1 y = lru_pages s y" using r(3) ok by (auto simp: lru_ok_def)
  then have I2: "list_ok st2 (inactive_list s) I" using li st2(6) list_ok_cong by blast
  from list_add_head_ok [of st2 _ I ?x n2, OF I2 xI x0 st2(3)] obtain l3 st3 where
      a: "list_add_head (inactive_list s) ?x st2 = Some (l3, st3)" "list_ok st3 l3 (?x # I)"
      "\<forall>y. y \<notin> set (?x # I) \<longrightarrow> st3 y = st2 y" "same_flags st2 st3" by blast
  have bl: "set (butlast A) \<subseteq> set A" "?x \<notin> set (butlast A)" using in_set_butlastD in_butlast [OF dA ne] by fastforce+
  moreover have "set A \<inter> set I = {}" using ok by (simp add: lru_ok_def)
  ultimately have "\<forall>y \<in> set (butlast A). y \<notin> set (?x # I)" by auto
  then have "\<forall>y \<in> set (butlast A). st3 y = st2 y" using a(3) by blast
  then have A3: "list_ok st3 l1 (butlast A)" using r(2) st2(6) list_ok_cong by blast
  have f: "stat st3 y = (if y = ?x then Some PAGE_INACTIVE else stat (lru_pages s) y)" for y
    using same_flags_stat [OF a(4), of y] same_flags_stat [OF r(4), of y] st2 by (auto simp: stat_def)
  let ?s = "s\<lparr>lru_pages := st3, active_list := l1, inactive_list := l3\<rparr>"
  have "demote_active_pages s = Some ?s"
    using t r(1) st2(1) a(1) by (simp add: demote_active_pages_def)
  moreover have "lru_ok ?s (butlast A) (?x # I)"
    using a(2) A3 ok bl unfolding lru_ok_def by (auto simp: f)
  ultimately show ?thesis by blast
qed

lemma evict_inactive_ok:
  assumes ok: "lru_ok s A I" and ne: "I \<noteq> []"
  shows "\<exists>i st. l_tail (inactive_list s) = last I \<and> last I \<noteq> 0 \<and>
    list_remove (inactive_list s) (last I) (lru_pages s) = Some (i, st) \<and>
    lru_ok (s\<lparr>lru_pages := st, inactive_list := i\<rparr>) A (butlast I)"
proof -
  have la: "list_ok (lru_pages s) (active_list s) A" and li: "list_ok (lru_pages s) (inactive_list s) I"
    using ok by (simp_all add: lru_ok_def)
  have dI: "distinct I" using li by (simp add: list_ok_def)
  have x: "last I \<in> set I" using ne by simp
  from list_remove_in [OF li x] obtain i st where r: "list_remove (inactive_list s) (last I) (lru_pages s) = Some (i, st)"
      "list_ok st i (butlast I)" "\<forall>y. y \<notin> set I \<longrightarrow> st y = lru_pages s y" "same_flags (lru_pages s) st"
    unfolding remove1_last [OF dI ne] by auto
  have "\<forall>y \<in> set A. st y = lru_pages s y" using r(3) ok by (auto simp: lru_ok_def)
  then have "list_ok st (active_list s) A" using la list_ok_cong by blast
  moreover have "set (butlast I) \<subseteq> set I" using in_set_butlastD by fastforce
  moreover have "stat st y = stat (lru_pages s) y" for y using same_flags_stat [OF r(4)] by simp
  ultimately have "lru_ok (s\<lparr>lru_pages := st, inactive_list := i\<rparr>) A (butlast I)"
    using r(2) ok unfolding lru_ok_def by auto
  with r(1) list_ok_tail [OF li ne] list_ok_in [OF li x] show ?thesis by blast
qed

subsection \<open>Properties\<close>

text \<open>
  eviction takes the least recently used page. On well-formed lists it never follows a bad
  pointer: it takes the last inactive page; when there is none it demotes the last active page
  and takes that one; it returns NULL only when both lists are empty, and the lists stay well
  formed with exactly the victim removed.
\<close>

theorem lru_evict_order:
  assumes "lru_ok s A I"
  shows "\<exists>v s'. lru_evict_page s = Some (v, s') \<and>
    (if I \<noteq> [] then v = last I \<and> lru_ok s' A (butlast I)
     else if A \<noteq> [] then v = last A \<and> lru_ok s' (butlast A) []
     else v = 0 \<and> s' = s)"
proof -
  have li: "list_ok (lru_pages s) (inactive_list s) I" and la: "list_ok (lru_pages s) (active_list s) A"
    using assms by (simp_all add: lru_ok_def)
  note e = list_ok_empty [OF li] list_ok_empty [OF la]
  consider (ina) "I \<noteq> []" | (act) "I = []" "A \<noteq> []" | (none) "I = []" "A = []" by blast
  then show ?thesis
  proof cases
    case ina
    with evict_inactive_ok [OF assms ina] e show ?thesis by (auto simp: lru_evict_page_def)
  next
    case act
    from demote_ok [OF assms act(2)] act obtain s1 where s1: "demote_active_pages s = Some s1"
        "lru_ok s1 (butlast A) [last A]" by auto
    from evict_inactive_ok [OF s1(2)] s1(1) act e show ?thesis by (auto simp: lru_evict_page_def)
  next
    case none
    with e show ?thesis by (simp add: lru_evict_page_def demote_active_pages_def)
  qed
qed

text \<open>
  touching and adding follow the two-level policy: a new page enters at the head of the
  inactive list; the first touch of an inactive page only marks it, the second promotes it to
  the head of the active list and clears the mark, and touching an active page moves it to the
  head. No other page's mark changes, and both lists stay well formed.
\<close>

theorem lru_touch_policy:
  assumes "lru_ok s A I"
  shows "(\<forall>x \<in> set A \<union> set I. \<exists>s'. lru_touch_page x s = Some s' \<and>
      (if x \<in> set A then lru_ok s' (x # remove1 x A) I
       else if refd (lru_pages s) x = Some True
       then lru_ok s' (x # A) (remove1 x I) \<and> refd (lru_pages s') x = Some False
       else lru_ok s' A I \<and> refd (lru_pages s') x = Some True) \<and>
      (\<forall>y. y \<noteq> x \<longrightarrow> refd (lru_pages s') y = refd (lru_pages s) y)) \<and>
    (\<forall>x. x \<noteq> 0 \<and> x \<notin> set A \<and> x \<notin> set I \<and> lru_pages s x \<noteq> None \<longrightarrow>
      (\<exists>s'. lru_add_page x s = Some s' \<and> lru_ok s' A (x # I) \<and> refd (lru_pages s') x = Some False))"
  using lru_touch_ok [OF assms] lru_add_ok [OF assms] by blast

definition lru_demo :: lru where
  "lru_demo = \<lparr>lru_pages = [0x10 \<mapsto> \<lparr>frame_number = 1, status = 0, referenced = True, p_next = 0x20, p_prev = 0\<rparr>,
                            0x20 \<mapsto> \<lparr>frame_number = 2, status = 0, referenced = False, p_next = 0, p_prev = 0x10\<rparr>],
     active_list = empty_list, inactive_list = \<lparr>l_head = 0x10, l_tail = 0x20, l_count = 2\<rparr>\<rparr>"

lemma lru_demo_ok: "lru_ok lru_demo [] [0x10, 0x20]"
  by (simp add: lru_ok_def lru_demo_def list_ok_def empty_list_def stat_def PAGE_INACTIVE_def)

theorem lru_evict_order_witness:
  "\<exists>s'. lru_evict_page lru_demo = Some (0x20, s') \<and> lru_ok s' [] [0x10]"
  using lru_evict_order [OF lru_demo_ok] by auto

theorem lru_touch_policy_witness:
  "\<exists>s'. lru_touch_page 0x10 lru_demo = Some s' \<and> lru_ok s' [0x10] [0x20]"
proof -
  have "refd (lru_pages lru_demo) 0x10 = Some True" by (simp add: refd_def lru_demo_def)
  with lru_touch_policy [OF lru_demo_ok] show ?thesis by auto
qed

end
