(* ===== verification/Ebpf.thy ===== *)
theory Ebpf
  imports Paging
begin

text \<open>
  The eBPF interpreter \<open>kernel/bpf/ebpf_vm.c\<close> (with the declarations of
  \<open>include/kernel/ebpf.h\<close>) and the RISC-V code generator \<open>kernel/bpf/jit_rv64.c\<close>. Registers
  are an array of 11 words, so a 4-bit register number can be out of its bounds (None). Memory
  reached through registers is the flat memory of \<open>Paging\<close>: a store goes wherever the register
  points, as the interpreter checks no address. (The array of registers is not in this memory: a
  program that stores over the interpreter's own frame is outside the model.) Helpers are functions
  from five arguments and the memory to a result and a memory.
\<close>

record ebpf_insn =
  code :: u8
  dst_reg :: "4 word"
  src_reg :: "4 word"
  off :: u16
  imm :: u32

definition EBPF_MAX_REGS :: nat where "EBPF_MAX_REGS = 11"
definition EBPF_CLS_STX :: u8 where "EBPF_CLS_STX = 0x03"
definition EBPF_CLS_JMP :: u8 where "EBPF_CLS_JMP = 0x05"
definition EBPF_CLS_ALU64 :: u8 where "EBPF_CLS_ALU64 = 0x07"
definition EBPF_ALU_ADD :: u8 where "EBPF_ALU_ADD = 0x00"
definition EBPF_ALU_SUB :: u8 where "EBPF_ALU_SUB = 0x10"
definition EBPF_ALU_MOV :: u8 where "EBPF_ALU_MOV = 0xb0"
definition EBPF_K :: u8 where "EBPF_K = 0x00"
definition EBPF_X :: u8 where "EBPF_X = 0x08"

type_synonym helper = "u64 \<Rightarrow> u64 \<Rightarrow> u64 \<Rightarrow> u64 \<Rightarrow> u64 \<Rightarrow> mem \<Rightarrow> u64 \<times> mem"

record ebpf_vm =
  insns :: "ebpf_insn list option"
  num_insns :: u32
  helpers :: "helper option list"

definition ebpf_register_helper :: "ebpf_vm option \<Rightarrow> u32 \<Rightarrow> helper \<Rightarrow> int \<times> ebpf_vm option" where
  "ebpf_register_helper vm i fn =
     (case vm of
        None \<Rightarrow> (-1, None)
      | Some v \<Rightarrow> if i \<ge> 16 then (-1, vm)
                  else (0, Some (v\<lparr>helpers := (helpers v)[unat i := Some fn]\<rparr>)))"

text \<open>The 64-bit little-endian store.\<close>

definition store64 :: "u32 \<Rightarrow> u64 \<Rightarrow> mem \<Rightarrow> mem" where
  "store64 a v m = fold (\<lambda>i m. m(a + of_nat i := ucast (drop_bit (8 * i) v))) [0..<8] m"

text \<open>One iteration of the loop: the next registers and memory, or the value returned.\<close>

datatype vm_outcome = Next "u64 list" mem | Return u64 mem

definition ebpf_step :: "ebpf_vm \<Rightarrow> ebpf_insn \<Rightarrow> u64 list \<Rightarrow> mem \<Rightarrow> vm_outcome option" where
  "ebpf_step vm insn regs m =
     (let op = code insn; d = unat (dst_reg insn); s = unat (src_reg insn); k = (scast (imm insn) :: u64)
      in if op = EBPF_CLS_ALU64 OR EBPF_ALU_MOV OR EBPF_K
         then do { r \<leftarrow> wr regs d k; Some (Next r m) }
         else if op = EBPF_CLS_ALU64 OR EBPF_ALU_ADD OR EBPF_K
         then do { x \<leftarrow> rd regs d; r \<leftarrow> wr regs d (x + k); Some (Next r m) }
         else if op = EBPF_CLS_ALU64 OR EBPF_ALU_SUB OR EBPF_K
         then do { x \<leftarrow> rd regs d; r \<leftarrow> wr regs d (x - k); Some (Next r m) }
         else if op = EBPF_CLS_ALU64 OR EBPF_ALU_MOV OR EBPF_X
         then do { y \<leftarrow> rd regs s; r \<leftarrow> wr regs d y; Some (Next r m) }
         else if op = EBPF_CLS_ALU64 OR EBPF_ALU_ADD OR EBPF_X
         then do { x \<leftarrow> rd regs d; y \<leftarrow> rd regs s; r \<leftarrow> wr regs d (x + y); Some (Next r m) }
         else if op = EBPF_CLS_STX OR 0x10
         then do { x \<leftarrow> rd regs d; y \<leftarrow> rd regs s;
                   Some (Next regs (store64 (ucast (x + scast (off insn))) y m)) }
         else if op = EBPF_CLS_JMP OR 0x90
         then (if 0 \<le> sint (imm insn) \<and> sint (imm insn) < 16
               then do { h \<leftarrow> rd (helpers vm) (unat (imm insn));
                         case h of
                           None \<Rightarrow> Some (Return 0 m)
                         | Some f \<Rightarrow>
                             do { a1 \<leftarrow> rd regs 1; a2 \<leftarrow> rd regs 2; a3 \<leftarrow> rd regs 3; a4 \<leftarrow> rd regs 4; a5 \<leftarrow> rd regs 5;
                                  let (res, m') = f a1 a2 a3 a4 a5 m;
                                  r \<leftarrow> wr regs 0 res; Some (Next r m') } }
               else Some (Return 0 m))
         else if op = EBPF_CLS_JMP OR 0x10
         then do { x \<leftarrow> rd regs 0; Some (Return x m) }
         else Some (Return 0 m))"

text \<open>The program counter only grows: there are no jumps, so the loop ends.\<close>

function ebpf_loop :: "ebpf_vm \<Rightarrow> ebpf_insn list \<Rightarrow> nat \<Rightarrow> u64 list \<Rightarrow> mem \<Rightarrow> (u64 \<times> mem) option" where
  "ebpf_loop vm prog pc regs m =
     (if pc < unat (num_insns vm)
      then (case rd prog pc of
              None \<Rightarrow> None
            | Some insn \<Rightarrow>
                (case ebpf_step vm insn regs m of
                   None \<Rightarrow> None
                 | Some (Next regs' m') \<Rightarrow> ebpf_loop vm prog (Suc pc) regs' m'
                 | Some (Return v m') \<Rightarrow> Some (v, m')))
      else do { x \<leftarrow> rd regs 0; Some (x, m) })"
  by pat_completeness auto
termination
  by (relation "measure (\<lambda>(vm, prog, pc, r, m). unat (num_insns vm) - pc)") auto

declare ebpf_loop.simps [simp del]

text \<open>\<open>stack\<close> is the address of the local stack array, \<open>ctx\<close> the context pointer.\<close>

definition ebpf_run :: "ebpf_vm option \<Rightarrow> u32 \<Rightarrow> u32 \<Rightarrow> mem \<Rightarrow> (u64 \<times> mem) option" where
  "ebpf_run vm stack ctx m =
     (case vm of
        None \<Rightarrow> Some (0, m)
      | Some v \<Rightarrow>
          (case insns v of
             None \<Rightarrow> Some (0, m)
           | Some prog \<Rightarrow>
               ebpf_loop v prog 0
                 ((replicate EBPF_MAX_REGS 0)[1 := ucast ctx, 10 := ucast (stack + 512)])
                 (mm_memset 512 stack 0 m)))"

text \<open>The two core helpers are console output and the timer, given as parameters.\<close>

definition ebpf_init :: "helper \<Rightarrow> helper \<Rightarrow> ebpf_vm" where
  "ebpf_init bpf_helper_printk bpf_helper_get_uptime =
     (let vm0 = \<lparr>insns = None, num_insns = 0, helpers = replicate 16 None\<rparr>;
          (r1, vm1) = ebpf_register_helper (Some vm0) 0 bpf_helper_printk;
          (r2, vm2) = ebpf_register_helper vm1 1 bpf_helper_get_uptime
      in the vm2)"

subsection \<open>The RISC-V code generator\<close>

text \<open>
  One 64-bit program word gives one 32-bit instruction; \<open>imm << 20\<close> keeps the low 12 bits (as the
  machine's shift does: \<open>imm\<close> is an \<open>int32_t\<close>, and C does not define the shift when a bit is lost).
\<close>

definition jit_insn :: "u64 \<Rightarrow> u32" where
  "jit_insn insn =
     (let code = (ucast (insn AND 0xFF) :: u8)
      in if code = 0xb7
         then (let dst = ucast (drop_bit 8 insn AND 0xF) :: u32; imm = ucast (drop_bit 32 insn) :: u32
               in 0x13 OR push_bit 7 (10 + dst) OR push_bit 20 imm)
         else if code = 0x95 then 0x8067
         else 0x13)"

definition bpf_jit_compile :: "u64 list \<Rightarrow> u32 list" where
  "bpf_jit_compile bpf_prog = map jit_insn bpf_prog"

subsection \<open>Safety of the interpreter\<close>

text \<open>The registers an instruction names are within the array.\<close>

definition regs_in_range :: "ebpf_insn \<Rightarrow> bool" where
  "regs_in_range insn \<longleftrightarrow> unat (dst_reg insn) < EBPF_MAX_REGS \<and> unat (src_reg insn) < EBPF_MAX_REGS"

lemma ebpf_step_safe:
  assumes "regs_in_range insn" and "length regs = EBPF_MAX_REGS" and "length (helpers vm) = 16"
  shows "\<exists>r. ebpf_step vm insn regs m = Some r \<and> (\<forall>regs' m'. r = Next regs' m' \<longrightarrow> length regs' = EBPF_MAX_REGS)"
proof -
  have d: "unat (dst_reg insn) < length regs" "unat (src_reg insn) < length regs"
    using assms by (simp_all add: regs_in_range_def)
  have k: "i < length regs" if "i < 6" for i using that assms(2) by (simp add: EBPF_MAX_REGS_def)
  have h: "unat (imm insn) < 16" if "0 \<le> sint (imm insn)" "sint (imm insn) < 16"
  proof -
    have "uint (imm insn) = sint (imm insn)"
      unfolding uint_sint using that by (intro take_bit_int_eq_self) simp_all
    with that(2) show ?thesis by (simp add: unat_eq_nat_uint)
  qed
  show ?thesis
    using d k h assms(2,3)
    by (auto simp: ebpf_step_def Let_def split: option.splits prod.splits)
qed


lemma ebpf_loop_safe:
  assumes "\<forall>insn \<in> set prog. regs_in_range insn" and "unat (num_insns vm) \<le> length prog"
    and "length regs = EBPF_MAX_REGS" and "length (helpers vm) = 16"
  shows "ebpf_loop vm prog pc regs m \<noteq> None"
  using assms
proof (induction vm prog pc regs m rule: ebpf_loop.induct)
  case (1 vm prog pc regs m)
  show ?case
  proof (cases "pc < unat (num_insns vm)")
    case True
    with "1.prems"(2) have pc: "rd prog pc = Some (prog ! pc)" and in_set: "prog ! pc \<in> set prog" by simp_all
    from ebpf_step_safe [of "prog ! pc"] "1.prems" in_set obtain r where
        r: "ebpf_step vm (prog ! pc) regs m = Some r"
        "\<forall>regs' m'. r = Next regs' m' \<longrightarrow> length regs' = EBPF_MAX_REGS" by blast
    with "1.IH" [OF True pc r(1)] "1.prems" True pc show ?thesis
      by (cases r) (auto simp: ebpf_loop.simps [of vm prog pc])
  next
    case False
    with "1.prems"(3) show ?thesis by (simp add: ebpf_loop.simps [of vm prog pc] EBPF_MAX_REGS_def)
  qed
qed

text \<open>Only the store (opcode 0x13) and the call of a helper (0x95) can change memory.\<close>

definition writes_memory :: "ebpf_insn \<Rightarrow> bool" where
  "writes_memory insn \<longleftrightarrow> code insn = 0x13 \<or> code insn = 0x95"

lemma ebpf_step_frame:
  assumes "ebpf_step vm insn regs m = Some r" and "\<not> writes_memory insn"
  shows "case r of Next _ m' \<Rightarrow> m' = m | Return _ m' \<Rightarrow> m' = m"
proof -
  have "code insn \<noteq> EBPF_CLS_STX OR 0x10" "code insn \<noteq> EBPF_CLS_JMP OR 0x90"
    using assms(2) by (simp_all add: writes_memory_def EBPF_CLS_STX_def EBPF_CLS_JMP_def)
  with assms(1) show ?thesis by (auto simp: ebpf_step_def Let_def bind_eq_Some_conv split: if_splits)
qed

lemma ebpf_loop_frame:
  assumes "ebpf_loop vm prog pc regs m = Some (x, m')" and "\<forall>insn \<in> set prog. \<not> writes_memory insn"
  shows "m' = m"
  using assms
proof (induction vm prog pc regs m rule: ebpf_loop.induct)
  case (1 vm prog pc regs m)
  show ?case
  proof (cases "pc < unat (num_insns vm)")
    case True
    with "1.prems"(1) obtain insn r where i: "rd prog pc = Some insn" "ebpf_step vm insn regs m = Some r"
      by (subst (asm) ebpf_loop.simps) (auto split: option.splits)
    then have f: "case r of Next _ m1 \<Rightarrow> m1 = m | Return _ m1 \<Rightarrow> m1 = m"
      using "1.prems"(2) by (intro ebpf_step_frame [OF i(2)]) (auto simp: rd_def split: if_splits)
    show ?thesis
    proof (cases r)
      case (Next regs1 m1)
      with True i "1.prems"(1) have "ebpf_loop vm prog (Suc pc) regs1 m1 = Some (x, m')"
        by (subst (asm) ebpf_loop.simps) simp
      with "1.IH" [OF True i(1,2) Next] "1.prems"(2) f Next show ?thesis by simp
    next
      case (Return v m1)
      with True i "1.prems"(1) f show ?thesis by (subst (asm) ebpf_loop.simps) simp
    qed
  next
    case False
    with "1.prems"(1) show ?thesis by (subst (asm) ebpf_loop.simps) (auto simp: bind_eq_Some_conv)
  qed
qed

subsection \<open>What the generated code does\<close>

text \<open>
  The two RISC-V instructions the generator can emit, as the instruction set defines them:
  \<open>addi\<close> (opcode 0x13, funct3 0) and the return \<open>jalr x0, 0(ra)\<close>.
\<close>

definition rv_addi :: "u32 \<Rightarrow> (nat \<Rightarrow> u64) \<Rightarrow> (nat \<Rightarrow> u64) option" where
  "rv_addi e x =
     (if take_bit 7 e = 0x13 \<and> take_bit 3 (drop_bit 12 e) = 0
      then (let dest = unat (take_bit 5 (drop_bit 7 e)); src = unat (take_bit 5 (drop_bit 15 e));
                v = x src + scast (ucast (drop_bit 20 e) :: 12 word)
            in Some (if dest = 0 then x else x(dest := v)))
      else None)"

text \<open>The code returns the value of \<open>a0\<close> (register 10); running off its end is None.\<close>

fun rv_run :: "u32 list \<Rightarrow> (nat \<Rightarrow> u64) \<Rightarrow> u64 option" where
  "rv_run [] x = None"
| "rv_run (e # es) x =
     (if e = 0x8067 then Some (x 10) else case rv_addi e x of None \<Rightarrow> None | Some x' \<Rightarrow> rv_run es x')"

text \<open>The fields of a program word, as the structure lays them out.\<close>

definition decode_insn :: "u64 \<Rightarrow> ebpf_insn" where
  "decode_insn w = \<lparr>code = ucast w, dst_reg = ucast (drop_bit 8 w), src_reg = ucast (drop_bit 12 w),
     off = ucast (drop_bit 16 w), imm = ucast (drop_bit 32 w)\<rparr>"

definition fits12 :: "u32 \<Rightarrow> bool" where
  "fits12 k \<longleftrightarrow> -2048 \<le> sint k \<and> sint k < 2048"

lemma rv_fields:
  fixes c x :: u32
  assumes "drop_bit 20 c = 0"
  shows "take_bit 7 (c OR push_bit 20 x) = take_bit 7 c"
    and "take_bit 3 (drop_bit 12 (c OR push_bit 20 x)) = take_bit 3 (drop_bit 12 c)"
    and "take_bit 5 (drop_bit 7 (c OR push_bit 20 x)) = take_bit 5 (drop_bit 7 c)"
    and "take_bit 5 (drop_bit 15 (c OR push_bit 20 x)) = take_bit 5 (drop_bit 15 c)"
    and "(ucast (drop_bit 20 (c OR push_bit 20 x)) :: 12 word) = ucast x"
proof -
  show "take_bit 7 (c OR push_bit 20 x) = take_bit 7 c"
      "take_bit 3 (drop_bit 12 (c OR push_bit 20 x)) = take_bit 3 (drop_bit 12 c)"
      "take_bit 5 (drop_bit 7 (c OR push_bit 20 x)) = take_bit 5 (drop_bit 7 c)"
      "take_bit 5 (drop_bit 15 (c OR push_bit 20 x)) = take_bit 5 (drop_bit 15 c)"
    by (rule bit_word_eqI; auto simp: bit_simps)+
  have "\<not> bit c (20 + n)" for n
  proof -
    have "bit (drop_bit 20 c) n \<longleftrightarrow> bit c (20 + n)" by (simp add: bit_simps)
    with assms show ?thesis by simp
  qed
  then show "(ucast (drop_bit 20 (c OR push_bit 20 x)) :: 12 word) = ucast x"
    by (intro bit_word_eqI) (auto simp: bit_simps)
qed

lemma sext12:
  "(scast (ucast (k :: u32) :: 12 word) :: u64) = scast k \<longleftrightarrow> fits12 k"
proof -
  have a: "sint (scast (ucast k :: 12 word) :: u64) = sint (ucast k :: 12 word)"
    by (simp add: signed_scast_eq signed_take_bit_int_eq_self_iff) (use sint_lt [of "ucast k :: 12 word"] sint_ge [of "ucast k :: 12 word"] in simp)
  have b: "sint (scast k :: u64) = sint k"
    by (simp add: signed_scast_eq signed_take_bit_int_eq_self_iff) (use sint_lt [of k] sint_ge [of k] in simp)
  have "sint (ucast k :: 12 word) = signed_take_bit 11 (sint k)"
    by (simp add: sint_uint unsigned_ucast_eq signed_take_bit_take_bit)
  then have "sint (ucast k :: 12 word) = sint k \<longleftrightarrow> fits12 k"
    by (simp add: signed_take_bit_int_eq_self_iff fits12_def)
  with a b show ?thesis using signed_word_eqI [of "scast (ucast k :: 12 word) :: u64" "scast k", where 'a = int]
    by auto
qed

lemma word4_cases:
  assumes "unat (d :: 4 word) < 11"
  shows "d \<in> {0, 1, 2, 3, 4, 5, 6, 7, 8, 9, 10}"
proof -
  have "unat d \<in> set [0..<11]" using assms by simp
  then have "unat d \<in> {0, 1, 2, 3, 4, 5, 6, 7, 8, 9, 10}" by (simp add: upt_rec numeral_eq_Suc)
  then show ?thesis by (auto simp: word_unat_eq_iff)
qed


text \<open>The emitted \<open>addi\<close> puts the sign-extended low 12 bits into register 10 + d.\<close>

lemma jit_mov:
  assumes "code (decode_insn w) = 0xb7" and d: "unat (dst_reg (decode_insn w)) < 11" and "x 0 = 0"
  shows "jit_insn w \<noteq> 0x8067 \<and> rv_addi (jit_insn w) x =
    Some (x(10 + unat (dst_reg (decode_insn w)) := scast (ucast (imm (decode_insn w)) :: 12 word)))"
proof -
  let ?d = "dst_reg (decode_insn w)"
  let ?k = "imm (decode_insn w)"
  have m: "w AND 0xFF = take_bit 8 w" "drop_bit 8 w AND 0xF = take_bit 4 (drop_bit 8 w)"
    by (simp_all add: take_bit_eq_mask mask_eq_exp_minus_1)
  have "(ucast (w AND 0xFF) :: u8) = ucast w"
    unfolding m by (rule bit_word_eqI) (auto simp: bit_simps)
  with assms(1) have c: "(ucast (w AND 0xFF) :: u8) = 0xb7" by (simp add: decode_insn_def)
  have dst: "(ucast (drop_bit 8 w AND 0xF) :: u32) = ucast ?d"
    unfolding m by (rule bit_word_eqI) (auto simp: bit_simps decode_insn_def)
  let ?c = "0x13 OR push_bit 7 (10 + ucast ?d) :: u32"
  have j: "jit_insn w = ?c OR push_bit 20 ?k"
    using c by (simp add: jit_insn_def dst Let_def decode_insn_def or.assoc)
  have "drop_bit 20 ?c = 0 \<and> take_bit 7 ?c = 0x13 \<and> take_bit 3 (drop_bit 12 ?c) = 0 \<and>
      unat (take_bit 5 (drop_bit 7 ?c)) = 10 + unat ?d \<and> take_bit 5 (drop_bit 15 ?c) = 0"
    using word4_cases [OF d] by auto
  with j rv_fields [of ?c ?k] assms(3) have f: "take_bit 7 (jit_insn w) = 0x13"
      "rv_addi (jit_insn w) x = Some (x(10 + unat ?d := scast (ucast ?k :: 12 word)))"
    by (simp_all add: rv_addi_def)
  have "take_bit 7 (0x8067 :: u32) \<noteq> 0x13" by simp
  with f show ?thesis by metis
qed

text \<open>Programs of \<open>MOV\<close> instructions with immediates of 12 bits.\<close>

definition mov_prog :: "u64 list \<Rightarrow> bool" where
  "mov_prog prog \<longleftrightarrow> (\<forall>w \<in> set prog. code (decode_insn w) = 0xb7 \<and>
     unat (dst_reg (decode_insn w)) < 11 \<and> fits12 (imm (decode_insn w)))"

text \<open>Register 10 + d of the machine is register d of the interpreter.\<close>

definition regs_agree :: "(nat \<Rightarrow> u64) \<Rightarrow> u64 list \<Rightarrow> bool" where
  "regs_agree x regs \<longleftrightarrow> x 0 = 0 \<and> length regs = 11 \<and> (\<forall>d < 11. x (10 + d) = regs ! d)"

lemma ebpf_step_mov:
  "code insn = 0xb7 \<Longrightarrow> unat (dst_reg insn) < length regs \<Longrightarrow>
   ebpf_step vm insn regs m = Some (Next (regs[unat (dst_reg insn) := scast (imm insn)]) m)"
  by (simp add: ebpf_step_def Let_def EBPF_CLS_ALU64_def EBPF_ALU_MOV_def EBPF_K_def)

lemma jit_simulates:
  assumes "mov_prog (drop pc prog)" and "regs_agree x regs" and "pc \<le> length prog"
    and n: "unat (num_insns vm) = length prog"
  shows "map_option fst (ebpf_loop vm (map decode_insn prog) pc regs m) =
    rv_run (bpf_jit_compile (drop pc prog @ [0x95])) x"
  using assms(1-3)
proof (induction "length prog - pc" arbitrary: pc regs x)
  case 0
  then have pc: "pc = length prog" by simp
  have len: "length regs = 11" and all: "\<forall>d < 11. x (10 + d) = regs ! d"
    using "0.prems"(2) by (simp_all add: regs_agree_def)
  have "x 10 = regs ! 0" using all [rule_format, of 0] by simp
  with len pc n show ?case
    by (simp add: ebpf_loop.simps [of vm _ "length prog"] bpf_jit_compile_def jit_insn_def)
next
  case (Suc k)
  then have pc: "pc < length prog" by simp
  let ?w = "prog ! pc"
  let ?i = "decode_insn ?w"
  have dp: "drop pc prog = ?w # drop (Suc pc) prog" using pc by (simp add: Cons_nth_drop_Suc)
  with Suc.prems(1) have w: "code ?i = 0xb7" "unat (dst_reg ?i) < 11" "fits12 (imm ?i)"
      and rest: "mov_prog (drop (Suc pc) prog)" by (simp_all add: mov_prog_def)
  let ?v = "scast (imm ?i) :: u64"
  let ?x = "x(10 + unat (dst_reg ?i) := ?v)"
  let ?r = "regs[unat (dst_reg ?i) := ?v]"
  have x0: "x 0 = 0" and len: "length regs = 11" using Suc.prems(2) by (simp_all add: regs_agree_def)
  have rv: "rv_run (bpf_jit_compile (drop pc prog @ [0x95])) x =
      rv_run (bpf_jit_compile (drop (Suc pc) prog @ [0x95])) ?x"
    using jit_mov [of ?w x, OF w(1,2) x0] w(3) sext12 [of "imm ?i"] unfolding dp by (simp add: bpf_jit_compile_def)
  have "ebpf_loop vm (map decode_insn prog) pc regs m = ebpf_loop vm (map decode_insn prog) (Suc pc) ?r m"
    using pc n w len ebpf_step_mov [OF w(1)] by (subst ebpf_loop.simps) simp
  moreover have "regs_agree ?x ?r"
    using Suc.prems(2) w(2) by (auto simp: regs_agree_def nth_list_update)
  moreover have "k = length prog - Suc pc" "Suc pc \<le> length prog" using Suc.hyps(2) pc by simp_all
  ultimately show ?case using Suc.hyps(1) [of "Suc pc" ?x ?r] rest rv by simp
qed

subsection \<open>Properties\<close>

definition store_prog :: "u32 \<Rightarrow> ebpf_insn list" where
  "store_prog a = [\<lparr>code = 0xb7, dst_reg = 0, src_reg = 0, off = 0, imm = a\<rparr>,
                   \<lparr>code = 0x13, dst_reg = 0, src_reg = 1, off = 0, imm = 0\<rparr>]"


definition demo_vm :: "4 word \<Rightarrow> ebpf_vm" where
  "demo_vm d = \<lparr>insns = Some [\<lparr>code = 0xb7, dst_reg = d, src_reg = 0, off = 0, imm = 5\<rparr>], num_insns = 1,
     helpers = replicate 16 None\<rparr>"


text \<open>
  C7: the code generator is correct for programs of \<open>MOV\<close> instructions that name registers below 11
  and whose immediates fit in 12 bits: the machine code, closed by the exit word 0x95, leaves in \<open>a0\<close>
  the value the interpreter returns for the same instructions. For a single \<open>MOV\<close> to register 0 the two
  agree exactly when the immediate fits, since \<open>imm << 20\<close> drops the upper 20 bits. Both run the whole
  program (\<open>num_insns\<close> is its length), and start from the same registers: register 10 + d of the
  machine holds what the interpreter puts into register d (the context in 1, the top of the stack in
  10, zero elsewhere), and the machine's register 0 is zero (\<open>regs_agree\<close>). The code generator itself
  emits nothing that establishes this.
\<close>

theorem jit_agrees_with_interpreter:
  assumes v: "insns v = Some (map decode_insn prog)" "unat (num_insns v) = length prog"
    and x: "regs_agree x ((replicate 11 0)[1 := ucast ctx, 10 := ucast (stack + 512)])"
  shows "(mov_prog prog \<longrightarrow>
      map_option fst (ebpf_run (Some v) stack ctx m) = rv_run (bpf_jit_compile (prog @ [0x95])) x) \<and>
    (\<forall>w. prog = [w] \<and> code (decode_insn w) = 0xb7 \<and> dst_reg (decode_insn w) = 0 \<longrightarrow>
      (map_option fst (ebpf_run (Some v) stack ctx m) = rv_run (bpf_jit_compile (prog @ [0x95])) x \<longleftrightarrow>
       fits12 (imm (decode_insn w))))"
proof (intro conjI impI allI)
  assume "mov_prog prog"
  with jit_simulates [of 0 prog x _ v] v x
  show "map_option fst (ebpf_run (Some v) stack ctx m) = rv_run (bpf_jit_compile (prog @ [0x95])) x"
    by (simp add: ebpf_run_def EBPF_MAX_REGS_def)
next
  fix w assume w: "prog = [w] \<and> code (decode_insn w) = 0xb7 \<and> dst_reg (decode_insn w) = 0"
  have x0: "x 0 = 0" using x by (simp add: regs_agree_def)
  have "rv_run (bpf_jit_compile (prog @ [0x95])) x = Some (scast (ucast (imm (decode_insn w)) :: 12 word))"
    using w jit_mov [of w x] x0 by (simp add: bpf_jit_compile_def) (simp add: jit_insn_def)
  moreover have "map_option fst (ebpf_run (Some v) stack ctx m) = Some (scast (imm (decode_insn w)))"
    using w v by (simp add: ebpf_run_def ebpf_loop.simps [of v] ebpf_step_mov EBPF_MAX_REGS_def)
  ultimately show "map_option fst (ebpf_run (Some v) stack ctx m) = rv_run (bpf_jit_compile (prog @ [0x95])) x \<longleftrightarrow>
       fits12 (imm (decode_insn w))"
    using sext12 [of "imm (decode_insn w)"] by (metis option.inject)
qed


definition mov_word :: "u64 \<Rightarrow> u64" where "mov_word k = 0xb7 OR push_bit 32 k"

theorem jit_agrees_with_interpreter_witness:
  "map_option fst (ebpf_run (Some \<lparr>insns = Some (map decode_insn [mov_word 0x1000]), num_insns = 1,
      helpers = replicate 16 None\<rparr>) 0 0 (\<lambda>_. 0)) \<noteq> rv_run (bpf_jit_compile ([mov_word 0x1000] @ [0x95])) ((\<lambda>_. 0)(20 := 512))"
proof -
  let ?v = "\<lparr>insns = Some (map decode_insn [mov_word 0x1000]), num_insns = 1, helpers = replicate 16 None\<rparr>"
  have v: "insns ?v = Some (map decode_insn [mov_word 0x1000])" "unat (num_insns ?v) = length [mov_word 0x1000]"
    by simp_all
  have d: "d < 11 \<longleftrightarrow> d \<in> set [0..<11]" for d :: nat by simp
  have "regs_agree ((\<lambda>_. 0)(20 := 512)) ((replicate 11 0)[1 := ucast (0 :: u32), 10 := ucast ((0 :: u32) + 512)])"
    by (auto simp: regs_agree_def nth_list_update)
  from jit_agrees_with_interpreter [of ?v "[mov_word 0x1000]" "(\<lambda>_. 0)(20 := 512)" 0 0, OF v this]
  show ?thesis
    by (auto simp: mov_word_def decode_insn_def fits12_def)
qed

end
