(* ===== verification/Ciphers.thy ===== *)
theory Ciphers
  imports Prelude
begin

text \<open>
  The ciphers of \<open>crypto/\<close>: DES (\<open>des.c\<close>), Blowfish (\<open>blowfish.c\<close>) and ChaCha20
  (\<open>chacha20.c\<close>). The two Feistel ciphers are interpretations of one interface, an invertible
  round.
\<close>

subsection \<open>Iterated invertible rounds\<close>

locale invertible_rounds =
  fixes step :: "'s \<Rightarrow> 'k \<Rightarrow> 's" and unstep :: "'s \<Rightarrow> 'k \<Rightarrow> 's"
  assumes unstep_step: "unstep (step s k) k = s"
    and step_unstep: "step (unstep s k) k = s"
begin

lemma undo: "foldl unstep (foldl step s ks) (rev ks) = s"
  by (induction ks arbitrary: s) (simp_all add: unstep_step)

lemma redo: "foldl step (foldl unstep s (rev ks)) ks = s"
  by (induction ks arbitrary: s rule: rev_induct) (simp_all add: step_unstep)

lemma rounds_inj: "foldl step s ks = foldl step t ks \<Longrightarrow> s = t"
  by (metis undo)

lemma rounds_surj: "\<exists>s. foldl step s ks = t"
  using redo by blast

end

subsection \<open>DES\<close>

definition IP_Table :: "nat list" where
  "IP_Table =
    [58, 50, 42, 34, 26, 18, 10, 2, 60, 52, 44, 36, 28, 20, 12, 4,
     62, 54, 46, 38, 30, 22, 14, 6, 64, 56, 48, 40, 32, 24, 16, 8,
     57, 49, 41, 33, 25, 17, 9, 1, 59, 51, 43, 35, 27, 19, 11, 3,
     61, 53, 45, 37, 29, 21, 13, 5, 63, 55, 47, 39, 31, 23, 15, 7]"

definition FP_Table :: "nat list" where
  "FP_Table =
    [40, 8, 48, 16, 56, 24, 64, 32, 39, 7, 47, 15, 55, 23, 63, 31,
     38, 6, 46, 14, 54, 22, 62, 30, 37, 5, 45, 13, 53, 21, 61, 29,
     36, 4, 44, 12, 52, 20, 60, 28, 35, 3, 43, 11, 51, 19, 59, 11,
     34, 2, 42, 10, 50, 18, 58, 26, 33, 1, 41, 9, 49, 17, 57, 25]"

definition des_permute :: "u64 \<Rightarrow> nat list \<Rightarrow> nat \<Rightarrow> u64" where
  "des_permute input table sz =
     fold (\<lambda>i output. let bit_pos = table ! i - 1; b = drop_bit (63 - bit_pos) input AND 1
                      in output OR push_bit (63 - i) b)
       [0..<sz] 0"

definition crypto_des_set_key :: "u64 \<Rightarrow> u64 list" where
  "crypto_des_set_key master_key =
     map (\<lambda>r. master_key XOR push_bit (r * 3) (of_nat r)) [0..<16]"

definition des_round :: "u32 \<times> u32 \<Rightarrow> u64 \<Rightarrow> u32 \<times> u32" where
  "des_round s subkey =
     (case s of (left, right) \<Rightarrow>
       let f_result = right XOR ucast (subkey AND 0xFFFFFFFF) in (right, left XOR f_result))"

text \<open>The 16 rounds between the permutations: split, run, recombine with the halves swapped.\<close>

definition des_core :: "u64 list \<Rightarrow> bool \<Rightarrow> u64 \<Rightarrow> u64" where
  "des_core g_subkeys decrypt block =
     (let left = ucast (drop_bit 32 block) :: u32;
          right = ucast (block AND 0xFFFFFFFF) :: u32;
          keys = map (\<lambda>r. if decrypt then g_subkeys ! (15 - r) else g_subkeys ! r) [0..<16];
          (l, r) = foldl des_round (left, right) keys
      in push_bit 32 (ucast r) OR ucast l)"

definition crypto_des_crypt_block :: "u64 list \<Rightarrow> u64 \<Rightarrow> bool \<Rightarrow> u64" where
  "crypto_des_crypt_block g_subkeys block decrypt =
     des_permute (des_core g_subkeys decrypt (des_permute block IP_Table 64)) FP_Table 64"

definition crypto_des_init :: "u64 list" where
  "crypto_des_init = crypto_des_set_key 0x0123456789ABCDEF"

definition des_unround :: "u32 \<times> u32 \<Rightarrow> u64 \<Rightarrow> u32 \<times> u32" where
  "des_unround s subkey =
     (case s of (l, r) \<Rightarrow> (r XOR (l XOR ucast (subkey AND 0xFFFFFFFF)), l))"

lemma xor_cancel: "((a :: 'a::len word) XOR b) XOR b = a" "(a :: 'a::len word) XOR (a XOR b) = b"
  by (auto intro!: bit_word_eqI simp: bit_simps)

interpretation des: invertible_rounds des_round des_unround
  by unfold_locales (auto simp: des_round_def des_unround_def bit_xor_iff intro!: bit_word_eqI split: prod.splits)

lemma des_permute_bit:
  assumes "n \<le> 64"
  shows "bit (des_permute x t n) m \<longleftrightarrow> m < 64 \<and> 63 - m < n \<and> bit x (63 - (t ! (63 - m) - 1))"
  using assms
proof (induction n)
  case 0
  then show ?case by (simp add: des_permute_def)
next
  case (Suc n)
  let ?b = "63 - (t ! n - 1)"
  have "des_permute x t (Suc n) = des_permute x t n OR push_bit (63 - n) (drop_bit ?b x AND 1)"
    by (simp add: des_permute_def Let_def)
  moreover have "bit (push_bit (63 - n) (drop_bit ?b x AND 1) :: u64) m \<longleftrightarrow> m = 63 - n \<and> bit x ?b"
    using Suc.prems by (auto simp: bit_simps bit_1_iff)
  ultimately have "bit (des_permute x t (Suc n)) m \<longleftrightarrow>
      bit (des_permute x t n) m \<or> m = 63 - n \<and> bit x ?b"
    by (simp add: bit_or_iff)
  with Suc show ?case by (auto simp: less_Suc_eq)
qed

text \<open>Splitting and joining the halves.\<close>

lemma mask32: "(x :: u64) AND 0xFFFFFFFF = take_bit 32 x"
  by (simp add: take_bit_eq_mask mask_eq_exp_minus_1)

definition join64 :: "u32 \<times> u32 \<Rightarrow> u64" where
  "join64 s = push_bit 32 (ucast (fst s)) OR ucast (snd s)"

definition split64 :: "u64 \<Rightarrow> u32 \<times> u32" where
  "split64 x = (ucast (drop_bit 32 x), ucast (x AND 0xFFFFFFFF))"

lemma split_join: "split64 (join64 s) = s"
proof -
  have nb: "\<not> bit (snd s) (32 + n)" for n
    using bit_imp_le_length [of "snd s" "32 + n"] by auto
  have "ucast (drop_bit 32 (join64 s)) = fst s" "ucast (join64 s AND 0xFFFFFFFF) = snd s"
    unfolding join64_def mask32 by (auto intro!: bit_word_eqI simp: bit_simps nb)
  then show ?thesis by (simp add: split64_def)
qed

lemma join_split: "join64 (split64 x) = x"
  unfolding join64_def split64_def mask32 by (rule bit_word_eqI) (auto simp: bit_simps)

definition swap_halves :: "u32 \<times> u32 \<Rightarrow> u32 \<times> u32" where "swap_halves s = (snd s, fst s)"

lemma swap_swap [simp]: "swap_halves (swap_halves s) = s"
  by (simp add: swap_halves_def)

lemma keys_order:
  assumes "length ks = 16"
  shows "map (\<lambda>r. if d then ks ! (15 - r) else ks ! r) [0..<16] = (if d then rev ks else ks)"
proof (rule nth_equalityI)
  show "length (map (\<lambda>r. if d then ks ! (15 - r) else ks ! r) [0..<16]) = length (if d then rev ks else ks)"
    using assms by simp
  show "map (\<lambda>r. if d then ks ! (15 - r) else ks ! r) [0..<16] ! i = (if d then rev ks else ks) ! i"
    if "i < length (map (\<lambda>r. if d then ks ! (15 - r) else ks ! r) [0..<16])" for i
    using that assms by (simp add: rev_nth)
qed

lemma des_core_eq:
  assumes "length ks = 16"
  shows "des_core ks d x = join64 (swap_halves (foldl des_round (split64 x) (if d then rev ks else ks)))"
  unfolding des_core_def keys_order [OF assms]
  by (simp add: Let_def join64_def swap_halves_def split64_def case_prod_beta)

lemma des_swap: "des_round (swap_halves s) k = swap_halves (des_unround s k)"
  by (simp add: des_round_def des_unround_def swap_halves_def case_prod_beta)

lemma des_swap_foldl: "foldl des_round (swap_halves s) ks = swap_halves (foldl des_unround s ks)"
  by (induction ks arbitrary: s) (simp_all add: des_swap)

lemma des_core_inverse:
  assumes "length ks = 16"
  shows "des_core ks True (des_core ks False x) = x"
  using assms by (simp add: des_core_eq split_join des_swap_foldl des.undo join_split)

lemma des_core_inverse':
  assumes "length ks = 16"
  shows "des_core ks False (des_core ks True x) = x"
  using assms des.undo [of _ "rev ks"] by (simp add: des_core_eq split_join des_swap_foldl join_split)

text \<open>The inverse of the initial permutation, as the standard has it.\<close>

definition IP_inverse :: "nat list" where
  "IP_inverse =
    [40, 8, 48, 16, 56, 24, 64, 32, 39, 7, 47, 15, 55, 23, 63, 31,
     38, 6, 46, 14, 54, 22, 62, 30, 37, 5, 45, 13, 53, 21, 61, 29,
     36, 4, 44, 12, 52, 20, 60, 28, 35, 3, 43, 11, 51, 19, 59, 27,
     34, 2, 42, 10, 50, 18, 58, 26, 33, 1, 41, 9, 49, 17, 57, 25]"

lemma tables:
  assumes "i < 64"
  shows "IP_inverse ! (IP_Table ! i - 1) = Suc i" and "1 \<le> IP_Table ! i" and "IP_Table ! i \<le> 64"
    and "FP_Table ! i \<noteq> 27" and "1 \<le> FP_Table ! i" and "FP_Table ! i \<le> 64"
proof -
  have len: "length IP_Table = 64" "length FP_Table = 64" by (simp_all add: IP_Table_def FP_Table_def)
  have "map (\<lambda>p. IP_inverse ! (p - 1)) IP_Table = map Suc [0..<64]"
    by (simp add: IP_Table_def IP_inverse_def upt_rec)
  then have "map (\<lambda>p. IP_inverse ! (p - 1)) IP_Table ! i = map Suc [0..<64] ! i" by (rule arg_cong)
  with assms len show "IP_inverse ! (IP_Table ! i - 1) = Suc i" by simp
  have "\<forall>p \<in> set IP_Table. 1 \<le> p \<and> p \<le> 64" "\<forall>p \<in> set FP_Table. p \<noteq> 27 \<and> 1 \<le> p \<and> p \<le> 64"
    by (simp_all add: IP_Table_def FP_Table_def)
  with assms len show "1 \<le> IP_Table ! i" "IP_Table ! i \<le> 64" "FP_Table ! i \<noteq> 27" "1 \<le> FP_Table ! i"
      "FP_Table ! i \<le> 64" by (simp_all add: nth_mem)
qed

lemma sub63:
  assumes "1 \<le> p" and "p \<le> 64"
  shows "63 - (63 - (p - 1)) = p - 1" and "63 - (p - 1) < (64 :: nat)" and "p \<noteq> 27 \<Longrightarrow> 63 - (p - 1) \<noteq> 37"
  using assms by arith+

lemma IP_onto: "des_permute (des_permute x IP_inverse 64) IP_Table 64 = x"
proof (rule bit_word_eqI)
  fix m assume "m < LENGTH(64)"
  then have m: "m < 64" by simp
  let ?i = "63 - m"
  have "?i < 64" by simp
  note t = tables(1-3) [OF this]
  note u = sub63(1,2) [OF t(2,3)]
  have "63 - m < 64" "IP_Table ! ?i - 1 < 64" using t(2,3) by simp_all
  with u t(1) m show "bit (des_permute (des_permute x IP_inverse 64) IP_Table 64) m = bit x m"
    by (simp add: des_permute_bit)
qed

text \<open>Bit 27 of its input (counted from the left, from 1) never reaches the output of \<open>FP_Table\<close>.\<close>

lemma FP_ignores_27: "des_permute (x XOR push_bit 37 1) FP_Table 64 = des_permute x FP_Table 64"
proof (rule bit_word_eqI)
  fix m assume "m < LENGTH(64)"
  then have m: "m < 64" by simp
  let ?i = "63 - m"
  have "?i < 64" by simp
  note t = tables(4-6) [OF this]
  have "\<not> bit (push_bit n (1 :: u64)) k" if "k \<noteq> n" for n k
    using that by (auto simp: bit_push_bit_iff bit_1_iff bit_exp_iff)
  from this [OF sub63(3) [OF t(2,3,1)]] have
      "\<not> bit (push_bit 37 1 :: u64) (63 - (FP_Table ! ?i - 1))" .
  with m show "bit (des_permute (x XOR push_bit 37 1) FP_Table 64) m = bit (des_permute x FP_Table 64) m"
    by (simp only: des_permute_bit order_refl bit_xor_iff) simp
qed

subsection \<open>Blowfish\<close>

record blowfish_ctx =
  bf_P :: "u32 list"
  bf_S :: "u32 list list"

definition ORIG_P :: "u32 list" where
  "ORIG_P =
    [0x243f6a88, 0x85a308d3, 0x13198a2e, 0x03707344, 0xa4093822, 0x299f31d0,
     0x082efa98, 0xec4e6c89, 0x452821e6, 0x38d01377, 0xbe5466cf, 0x34e90c6c,
     0xc0ac29b7, 0xc97c50dd, 0x3f84d5b5, 0xb5470917, 0x9216d5d9, 0x8979fb1b]"

definition blowfish_f :: "blowfish_ctx \<Rightarrow> u32 \<Rightarrow> u32" where
  "blowfish_f ctx x =
     (let d = unat (x AND 0xFF); x1 = drop_bit 8 x;
          c = unat (x1 AND 0xFF); x2 = drop_bit 8 x1;
          b = unat (x2 AND 0xFF); x3 = drop_bit 8 x2;
          a = unat (x3 AND 0xFF);
          y = bf_S ctx ! 0 ! a + bf_S ctx ! 1 ! b;
          y1 = y XOR bf_S ctx ! 2 ! c
      in y1 + bf_S ctx ! 3 ! d)"

definition blowfish_round :: "blowfish_ctx \<Rightarrow> u32 \<times> u32 \<Rightarrow> u32 \<Rightarrow> u32 \<times> u32" where
  "blowfish_round ctx s p =
     (case s of (l, r) \<Rightarrow> let l1 = l XOR p; r1 = r XOR blowfish_f ctx l1 in (r1, l1))"

definition crypto_blowfish_encrypt :: "blowfish_ctx \<Rightarrow> u32 \<times> u32 \<Rightarrow> u32 \<times> u32" where
  "crypto_blowfish_encrypt ctx s =
     (let (l, r) = foldl (blowfish_round ctx) s (map (\<lambda>i. bf_P ctx ! i) [0..<16]);
          (l1, r1) = (r, l);
          r2 = r1 XOR bf_P ctx ! 16;
          l2 = l1 XOR bf_P ctx ! 17
      in (l2, r2))"

text \<open>The key schedule; None when \<open>key_len\<close> is 0 (remainder by zero) or exceeds the key array.\<close>

fun bf_key_word :: "nat \<Rightarrow> u8 list \<Rightarrow> nat \<Rightarrow> nat \<Rightarrow> u32 \<Rightarrow> (u32 \<times> nat) option" where
  "bf_key_word 0 key key_len key_index data = Some (data, key_index)"
| "bf_key_word (Suc n) key key_len key_index data =
     do { k \<leftarrow> rd key key_index;
          (if key_len = 0 then None
           else bf_key_word n key key_len ((key_index + 1) mod key_len) (push_bit 8 data OR ucast k)) }"

fun bf_xor_key :: "nat list \<Rightarrow> u8 list \<Rightarrow> nat \<Rightarrow> nat \<Rightarrow> u32 list \<Rightarrow> u32 list option" where
  "bf_xor_key [] key key_len key_index P = Some P"
| "bf_xor_key (i # is) key key_len key_index P =
     do { (data, ki) \<leftarrow> bf_key_word 4 key key_len key_index 0;
          bf_xor_key is key key_len ki (P[i := P ! i XOR data]) }"

definition crypto_blowfish_init :: "u8 list \<Rightarrow> nat \<Rightarrow> blowfish_ctx option" where
  "crypto_blowfish_init key key_len =
     do { P \<leftarrow> bf_xor_key [0..<18] key key_len 0 ORIG_P;
          Some \<lparr>bf_P = P, bf_S = replicate 4 (map (\<lambda>j. of_nat j * 0x1000193) [0..<256])\<rparr> }"

definition blowfish_unround :: "blowfish_ctx \<Rightarrow> u32 \<times> u32 \<Rightarrow> u32 \<Rightarrow> u32 \<times> u32" where
  "blowfish_unround ctx s p = (case s of (a, b) \<Rightarrow> (b XOR p, a XOR blowfish_f ctx b))"

interpretation blowfish: invertible_rounds "blowfish_round ctx" "blowfish_unround ctx" for ctx
  by unfold_locales (auto simp: blowfish_round_def blowfish_unround_def Let_def xor_cancel split: prod.splits)

subsection \<open>ChaCha20\<close>

definition ROTL32 :: "u32 \<Rightarrow> nat \<Rightarrow> u32" where
  "ROTL32 v n = push_bit n v OR drop_bit (32 - n) v"

definition CHACHA20_QUARTERROUND :: "nat \<Rightarrow> nat \<Rightarrow> nat \<Rightarrow> nat \<Rightarrow> u32 list \<Rightarrow> u32 list" where
  "CHACHA20_QUARTERROUND ia ib ic di x =
     (let a = x ! ia; b = x ! ib; c = x ! ic; d = x ! di;
          a = a + b; d = d XOR a; d = ROTL32 d 16;
          c = c + d; b = b XOR c; b = ROTL32 b 12;
          a = a + b; d = d XOR a; d = ROTL32 d 8;
          c = c + d; b = b XOR c; b = ROTL32 b 7
      in x[ia := a, ib := b, ic := c, di := d])"

definition le32 :: "u8 list \<Rightarrow> nat \<Rightarrow> u32" where
  "le32 bs i = ucast (bs ! i) OR push_bit 8 (ucast (bs ! (i + 1))) OR push_bit 16 (ucast (bs ! (i + 2))) OR
     push_bit 24 (ucast (bs ! (i + 3)))"

definition crypto_chacha20_init :: "u8 list \<Rightarrow> u8 list \<Rightarrow> u64 \<Rightarrow> u32 list" where
  "crypto_chacha20_init key nonce counter =
     [0x61786520, 0x3320646e, 0x79622d32, 0x6b206574] @
     map (\<lambda>i. le32 key (i * 4)) [0..<8] @
     [ucast (counter AND 0xFFFFFFFF), ucast (drop_bit 32 counter), le32 nonce 0, le32 nonce 4]"

definition chacha20_double_round :: "u32 list \<Rightarrow> u32 list" where
  "chacha20_double_round x =
     (let x = CHACHA20_QUARTERROUND 0 4 8 12 x; x = CHACHA20_QUARTERROUND 1 5 9 13 x;
          x = CHACHA20_QUARTERROUND 2 6 10 14 x; x = CHACHA20_QUARTERROUND 3 7 11 15 x;
          x = CHACHA20_QUARTERROUND 0 5 10 15 x; x = CHACHA20_QUARTERROUND 1 6 11 12 x;
          x = CHACHA20_QUARTERROUND 2 7 8 13 x; x = CHACHA20_QUARTERROUND 3 4 9 14 x
      in x)"

definition le_bytes :: "u32 \<Rightarrow> u8 list" where
  "le_bytes val = [ucast (val AND 0xFF), ucast (drop_bit 8 val AND 0xFF), ucast (drop_bit 16 val AND 0xFF),
     ucast (drop_bit 24 val AND 0xFF)]"

text \<open>The 64 bytes of key stream and the next state.\<close>

definition crypto_chacha20_block :: "u32 list \<Rightarrow> u8 list \<times> u32 list" where
  "crypto_chacha20_block st =
     (let x = (chacha20_double_round ^^ 10) (map (\<lambda>i. st ! i) [0..<16])
      in (concat (map (\<lambda>i. le_bytes (x ! i + st ! i)) [0..<16]), st[12 := st ! 12 + 1]))"

text \<open>The key stream of \<open>n\<close> successive calls.\<close>

fun chacha20_stream :: "nat \<Rightarrow> u32 list \<Rightarrow> u8 list list" where
  "chacha20_stream 0 st = []"
| "chacha20_stream (Suc n) st =
     (let (out, st') = crypto_chacha20_block st in out # chacha20_stream n st')"

lemma chacha20_state: "length st = 16 \<Longrightarrow> ((snd \<circ> crypto_chacha20_block) ^^ n) st = st[12 := st ! 12 + of_nat n]"
  by (induction n) (simp_all add: crypto_chacha20_block_def Let_def add.assoc add.commute)

lemma chacha20_stream_nth:
  "k < n \<Longrightarrow> chacha20_stream n st ! k = fst (crypto_chacha20_block (((snd \<circ> crypto_chacha20_block) ^^ k) st))"
proof (induction n arbitrary: st k)
  case (Suc n)
  then show ?case
    by (cases k) (simp_all add: case_prod_beta Let_def funpow_Suc_right del: funpow.simps(2))
qed simp

subsection \<open>Blowfish, described over numbers\<close>

text \<open>Byte \<open>k\<close> of a word, the round function, and the rounds: a round takes the next entry of \<open>P\<close>, the last two whiten.\<close>

definition nth_byte :: "nat \<Rightarrow> u32 \<Rightarrow> nat" where "nth_byte k x = unat x div 256 ^ k mod 256"

definition bf_box :: "u32 list list \<Rightarrow> u32 \<Rightarrow> u32" where
  "bf_box S x = ((S ! 0 ! nth_byte 3 x + S ! 1 ! nth_byte 2 x) XOR S ! 2 ! nth_byte 1 x) + S ! 3 ! nth_byte 0 x"

fun bf_cipher :: "u32 list list \<Rightarrow> u32 list \<Rightarrow> u32 \<Rightarrow> u32 \<Rightarrow> u32 \<times> u32" where
  "bf_cipher S (p # q # t # ps) l r = bf_cipher S (q # t # ps) (r XOR bf_box S (l XOR p)) (l XOR p)"
| "bf_cipher S [p, q] l r = (r XOR q, l XOR p)"
| "bf_cipher S ps l r = (l, r)"

text \<open>Four bytes, the first the most significant.\<close>

definition be_word :: "nat \<Rightarrow> nat \<Rightarrow> nat \<Rightarrow> nat \<Rightarrow> u32" where
  "be_word a b c d = of_nat (a * 2 ^ 24 + b * 2 ^ 16 + c * 2 ^ 8 + d)"

text \<open>Word \<open>i\<close> of the key, repeated from its start as often as needed.\<close>

definition key_word :: "u8 list \<Rightarrow> nat \<Rightarrow> nat \<Rightarrow> u32" where
  "key_word key key_len i =
     (let b = \<lambda>j. unat (key ! ((4 * i + j) mod key_len)) in be_word (b 0) (b 1) (b 2) (b 3))"

lemma nth_byte_shift: "unat (drop_bit (8 * k) x AND 0xFF) = nth_byte k x"
proof -
  have "drop_bit (8 * k) x AND 0xFF = take_bit 8 (drop_bit (8 * k) x)" by (simp add: take_bit_eq_mask mask_eq_exp_minus_1)
  moreover have "unat (take_bit 8 (drop_bit (8 * k) x)) = take_bit 8 (drop_bit (8 * k) (unat x))"
    by (rule bit_eqI) (auto simp: bit_simps)
  ultimately show ?thesis by (simp add: nth_byte_def take_bit_eq_mod drop_bit_eq_div power_mult)
qed

lemma blowfish_f_box: "blowfish_f ctx x = bf_box (bf_S ctx) x"
  using nth_byte_shift [of 0 x] nth_byte_shift [of 1 x] nth_byte_shift [of 2 x] nth_byte_shift [of 3 x]
  by (simp add: blowfish_f_def bf_box_def Let_def drop_bit_drop_bit)

text \<open>The two halves of a round.\<close>

definition xor_left :: "u32 \<Rightarrow> u32 \<times> u32 \<Rightarrow> u32 \<times> u32" where "xor_left p s = (fst s XOR p, snd s)"
definition mix_swap :: "u32 list list \<Rightarrow> u32 \<times> u32 \<Rightarrow> u32 \<times> u32" where "mix_swap S s = (snd s XOR bf_box S (fst s), fst s)"

lemma blowfish_round_parts: "blowfish_round ctx s p = mix_swap (bf_S ctx) (xor_left p s)"
  by (simp add: blowfish_round_def mix_swap_def xor_left_def blowfish_f_box case_prod_beta Let_def)

lemma encrypt_parts:
  assumes "bf_P ctx = ps @ [p, q]" and "length ps = 16"
  shows "crypto_blowfish_encrypt ctx s =
    xor_left q (prod.swap (xor_left p (foldl (\<lambda>s p. mix_swap (bf_S ctx) (xor_left p s)) s ps)))"
proof -
  have "map (\<lambda>i. bf_P ctx ! i) [0..<16] = ps"
    using assms by (intro nth_equalityI) (simp_all add: nth_append)
  then show ?thesis using assms
    by (simp add: crypto_blowfish_encrypt_def blowfish_round_parts [abs_def] xor_left_def prod.swap_def case_prod_beta nth_append Let_def)
qed

lemma bf_cipher_parts:
  "bf_cipher S (ps @ [p, q]) l r = xor_left q (prod.swap (xor_left p (foldl (\<lambda>s p. mix_swap S (xor_left p s)) (l, r) ps)))"
proof (induction ps arbitrary: l r)
  case (Cons a ps)
  have "bf_cipher S (a # ps @ [p, q]) l r = bf_cipher S (ps @ [p, q]) (r XOR bf_box S (l XOR a)) (l XOR a)"
    by (cases ps; cases "tl ps") simp_all
  then show ?case by (simp add: Cons.IH) (simp add: mix_swap_def xor_left_def)
qed (simp add: xor_left_def prod.swap_def)

lemma split_P:
  assumes "length (P :: u32 list) = 18"
  obtains ps p q where "P = ps @ [p, q]" "length ps = 16"
proof
  show "P = take 16 P @ [P ! 16, P ! 17]"
  proof (rule nth_equalityI)
    fix i
    assume "i < length P"
    with assms consider "i < 16" | "i = 16" | "i = 17" by linarith
    then show "P ! i = (take 16 P @ [P ! 16, P ! 17]) ! i" by cases (simp_all add: nth_append assms)
  qed (simp add: assms)
qed (simp add: assms)

subsection \<open>Blowfish decrypts with the key reversed\<close>

lemma unmix: "xor_left p (mix_swap S (prod.swap (xor_left p (mix_swap S s)))) = prod.swap s"
  by (simp add: xor_left_def mix_swap_def prod.swap_def prod_eq_iff ac_simps)

lemma unwind_rounds:
  "foldl (\<lambda>s p. xor_left p (mix_swap S s)) (prod.swap (xor_left a (foldl (\<lambda>s p. mix_swap S (xor_left p s)) s xs))) (rev (tl (xs @ [a]))) =
    prod.swap (xor_left (hd (xs @ [a])) s)"
proof (induction xs arbitrary: a rule: rev_induct)
  case (snoc p xs)
  have "rev (tl ((xs @ [p]) @ [a])) = a # rev (tl (xs @ [p]))" "hd ((xs @ [p]) @ [a]) = hd (xs @ [p])" by (cases xs; simp)+
  with snoc.IH [of p] show ?case by (simp only: foldl_append foldl.simps unmix)
qed simp

lemma regroup: "foldl (\<lambda>s p. xor_left p (mix_swap S s)) (xor_left q s) (qs @ [c]) =
    xor_left c (foldl (\<lambda>s p. mix_swap S (xor_left p s)) s (q # qs))"
  by (induction qs arbitrary: q s) simp_all

lemma xor_left_twice: "xor_left p (xor_left p s) = s"
  by (simp add: xor_left_def xor_cancel)

lemma decrypt_reversed:
  assumes "length (bf_P ctx) = 18"
  shows "crypto_blowfish_encrypt (ctx\<lparr>bf_P := rev (bf_P ctx)\<rparr>) (crypto_blowfish_encrypt ctx s) = s"
proof -
  let ?G = "\<lambda>s p. mix_swap (bf_S ctx) (xor_left p s)" and ?H = "\<lambda>s p. xor_left p (mix_swap (bf_S ctx) s)"
  obtain ps p q where e: "bf_P ctx = ps @ [p, q]" "length ps = 16" using split_P [OF assms] by blast
  then obtain p0 qs where qs: "ps = p0 # qs" "length qs = 15" by (cases ps) auto
  then obtain p1 ws where ws: "qs @ [p] = p1 # ws" "length ws = 15"
    by (cases "qs @ [p]") (auto dest: arg_cong [where f = length])
  have "bf_P ctx = p0 # (qs @ [p]) @ [q]" using e qs by simp
  then have r: "bf_P (ctx\<lparr>bf_P := rev (bf_P ctx)\<rparr>) = (q # rev ws) @ [p1, p0]" "length (q # rev ws) = 16"
    unfolding ws(1) using ws(2) by simp_all
  have tl: "rev (tl (ps @ [p])) = rev ws @ [p1]" "hd (ps @ [p]) = p0" using qs(1) ws(1) by simp_all
  have "crypto_blowfish_encrypt (ctx\<lparr>bf_P := rev (bf_P ctx)\<rparr>) (crypto_blowfish_encrypt ctx s) =
      xor_left p0 (prod.swap (xor_left p1 (foldl ?G (xor_left q (prod.swap (xor_left p (foldl ?G s ps)))) (q # rev ws))))"
    unfolding encrypt_parts [OF r] encrypt_parts [OF e] by simp
  also have "\<dots> = xor_left p0 (prod.swap (foldl ?H (prod.swap (xor_left p (foldl ?G s ps))) (rev ws @ [p1])))"
    unfolding regroup [symmetric] xor_left_twice ..
  also have "\<dots> = xor_left p0 (prod.swap (prod.swap (xor_left p0 s)))"
    using unwind_rounds [of "bf_S ctx" p s ps] unfolding tl by simp
  finally show ?thesis by (simp add: xor_left_twice)
qed

subsection \<open>Properties\<close>

text \<open>
  the rounds of DES invert: running them with the subkeys reversed undoes them, for every
  key schedule. But the cipher does not: \<open>FP_Table\<close> lists bit 11 twice and never bit 27, so for
  every key there are two different blocks with the same ciphertext, and no decryption can
  tell them apart.
\<close>

theorem des_not_injective:
  assumes "length ks = 16"
  shows "(\<forall>x. des_core ks True (des_core ks False x) = x) \<and>
    (\<exists>b1 b2. b1 \<noteq> b2 \<and> crypto_des_crypt_block ks b1 False = crypto_des_crypt_block ks b2 False)"
proof (intro conjI allI)
  show "des_core ks True (des_core ks False x) = x" for x by (rule des_core_inverse [OF assms])
  let ?b = "\<lambda>y. des_permute (des_core ks True y) IP_inverse 64"
  have c: "crypto_des_crypt_block ks (?b y) False = des_permute y FP_Table 64" for y
    using assms by (simp add: crypto_des_crypt_block_def IP_onto des_core_inverse')
  have "?b 0 \<noteq> ?b (0 XOR push_bit 37 1)"
  proof
    assume "?b 0 = ?b (0 XOR push_bit 37 1)"
    then have "des_core ks False (des_permute (?b 0) IP_Table 64) =
        des_core ks False (des_permute (?b (0 XOR push_bit 37 1)) IP_Table 64)" by (rule arg_cong)
    then have "0 = (0 XOR push_bit 37 1 :: u64)"
      unfolding IP_onto des_core_inverse' [OF assms] .
    then show False by simp
  qed
  moreover have "crypto_des_crypt_block ks (?b 0) False = crypto_des_crypt_block ks (?b (0 XOR push_bit 37 1)) False"
    unfolding c by (simp only: FP_ignores_27)
  ultimately show "\<exists>b1 b2. b1 \<noteq> b2 \<and> crypto_des_crypt_block ks b1 False = crypto_des_crypt_block ks b2 False"
    by blast
qed

theorem des_not_injective_witness:
  "\<exists>b1 b2. b1 \<noteq> b2 \<and>
     crypto_des_crypt_block crypto_des_init b1 False = crypto_des_crypt_block crypto_des_init b2 False"
  using des_not_injective [of crypto_des_init] by (simp add: crypto_des_init_def crypto_des_set_key_def)

lemma whiten_inj:
  assumes "(snd s XOR a, fst s XOR b) = (snd t XOR a, fst t XOR b)"
  shows "s = (t :: u32 \<times> u32)"
proof -
  have "(snd s XOR a) XOR a = (snd t XOR a) XOR a" "(fst s XOR b) XOR b = (fst t XOR b) XOR b"
    using assms by auto
  then show ?thesis unfolding xor_cancel by (simp add: prod_eq_iff)
qed

text \<open>
  Blowfish encryption is a bijection on blocks for every context: undoing the whitening and
  the sixteen rounds in reverse recovers the block, and every block is a ciphertext.
\<close>

lemma blowfish_encrypt_bijective: "bij (crypto_blowfish_encrypt ctx)"
proof -
  let ?ks = "map (\<lambda>i. bf_P ctx ! i) [0..<16]"
  let ?w = "\<lambda>s :: u32 \<times> u32. (snd s XOR bf_P ctx ! 17, fst s XOR bf_P ctx ! 16)"
  have e: "crypto_blowfish_encrypt ctx s = ?w (foldl (blowfish_round ctx) s ?ks)" for s
    by (simp add: crypto_blowfish_encrypt_def Let_def case_prod_beta)
  show ?thesis
  proof (rule bijI)
    show "inj (crypto_blowfish_encrypt ctx)"
      unfolding inj_def e using whiten_inj blowfish.rounds_inj by blast
    show "surj (crypto_blowfish_encrypt ctx)"
    proof (rule surjI)
      fix t :: "u32 \<times> u32"
      let ?u = "(snd t XOR bf_P ctx ! 16, fst t XOR bf_P ctx ! 17)"
      show "crypto_blowfish_encrypt ctx (foldl (blowfish_unround ctx) ?u (rev ?ks)) = t"
        unfolding e blowfish.redo by (simp add: xor_cancel)
    qed
  qed
qed

subsection \<open>The key schedule of Blowfish\<close>

lemma append_byte: "push_bit 8 d OR ucast (k :: u8) = (d * 256 + of_nat (unat k) :: u32)"
proof -
  have "push_bit 8 d AND ucast k = 0" by (rule bit_word_eqI) (auto simp: bit_simps dest: bit_imp_le_length)
  then have "push_bit 8 d OR ucast k = push_bit 8 d + ucast k" by (simp add: disjunctive_add_eq_or)
  then show ?thesis by (simp add: push_bit_eq_mult mult.commute)
qed

lemma bf_key_word_run:
  assumes "ki = 4 * i mod key_len" and "0 < key_len" and "key_len \<le> length key"
  shows "bf_key_word 4 key key_len ki 0 = Some (key_word key key_len i, 4 * Suc i mod key_len)"
proof -
  have rd: "rd key (n mod key_len) = Some (key ! (n mod key_len))" for n
    using assms(2,3) less_le_trans [OF mod_less_divisor [OF assms(2)] assms(3)] by simp
  have four: "bf_key_word 4 = bf_key_word (Suc (Suc (Suc (Suc 0))))" by (simp add: numeral_eq_Suc)
  have up: "Suc (Suc (Suc (i * 4))) = 3 + i * 4" "Suc (3 + i * 4) = 4 + i * 4" by simp_all
  show ?thesis using assms(2) unfolding four assms(1)
    by (simp add: rd mod_simps up append_byte key_word_def be_word_def Let_def algebra_simps add.commute)
qed

lemma bf_xor_key_run:
  assumes "0 < key_len" and "key_len \<le> length key" and "n \<le> length P"
  shows "\<exists>P'. bf_xor_key [m..<n] key key_len (4 * m mod key_len) P = Some P' \<and> length P' = length P \<and>
    (\<forall>i<length P. P' ! i = (if m \<le> i \<and> i < n then P ! i XOR key_word key key_len i else P ! i))"
  using assms(3)
proof (induction "n - m" arbitrary: m P)
  case (Suc k)
  then have m: "m < n" "[m..<n] = m # [Suc m..<n]" "k = n - Suc m" by (simp_all add: upt_conv_Cons)
  let ?P = "P[m := P ! m XOR key_word key key_len m]"
  from Suc.hyps(1) [OF m(3), of ?P] Suc.prems obtain P' where
      r: "bf_xor_key [Suc m..<n] key key_len (4 * Suc m mod key_len) ?P = Some P'" "length P' = length P"
      "\<forall>i<length P. P' ! i = (if Suc m \<le> i \<and> i < n then ?P ! i XOR key_word key key_len i else ?P ! i)" by auto
  show ?case
  proof (intro exI conjI)
    show "bf_xor_key [m..<n] key key_len (4 * m mod key_len) P = Some P'"
      using r(1) bf_key_word_run [OF refl assms(1,2), of m] unfolding m(2) by simp
    show "\<forall>i<length P. P' ! i = (if m \<le> i \<and> i < n then P ! i XOR key_word key key_len i else P ! i)"
    proof (intro allI impI)
      fix i
      assume "i < length P"
      then show "P' ! i = (if m \<le> i \<and> i < n then P ! i XOR key_word key key_len i else P ! i)"
        using r(3) m(1) by (cases "i = m") (auto simp: Suc_le_eq)
    qed
  qed (rule r(2))
qed auto



text \<open>
  the ChaCha20 block counter is 32 bits wide: \<open>crypto_chacha20_init\<close> takes a 64-bit counter
  and puts its halves in words 12 and 13, but \<open>crypto_chacha20_block\<close> only increments word 12
  and never carries, so after 2^32 blocks the state is back where it began and the key stream
  repeats.
\<close>

theorem chacha20_stream_repeats:
  assumes "length st = 16"
  shows "((snd \<circ> crypto_chacha20_block) ^^ (2 ^ 32)) st = st \<and>
    (2 ^ 32 + k < n \<longrightarrow> chacha20_stream n st ! (2 ^ 32 + k) = chacha20_stream n st ! k)"
proof -
  have z: "(of_nat (2 ^ 32) :: u32) = 0" by simp
  have st: "((snd \<circ> crypto_chacha20_block) ^^ (2 ^ 32 + k)) st = ((snd \<circ> crypto_chacha20_block) ^^ k) st" for k
    unfolding chacha20_state [OF assms] of_nat_add z by simp
  from st [of 0] have "((snd \<circ> crypto_chacha20_block) ^^ (2 ^ 32)) st = st" by simp
  then show ?thesis
    using st [of k] chacha20_stream_nth [of "2 ^ 32 + k" n st] chacha20_stream_nth [of k n st] by simp
qed

theorem chacha20_stream_repeats_witness:
  "((snd \<circ> crypto_chacha20_block) ^^ (2 ^ 32)) (crypto_chacha20_init (replicate 32 1) (replicate 8 2) 7) =
     crypto_chacha20_init (replicate 32 1) (replicate 8 2) 7"
  using chacha20_stream_repeats [of "crypto_chacha20_init (replicate 32 1) (replicate 8 2) 7"]
  by (simp add: crypto_chacha20_init_def)

end
