(* ===== verification/Digests.thy ===== *)
theory Digests
  imports Ciphers
begin

text \<open>
  The message digests of \<open>crypto/\<close>: \<open>md5.c\<close> with its streaming interface, and the block
  functions of \<open>sha1.c\<close>, \<open>sha256.c\<close> and \<open>sha512.c\<close>. A digest state is the list of its words; a
  block is a list of 64 (128) bytes.
\<close>

subsection \<open>MD5\<close>

record md5_ctx =
  md5_state :: "u32 list"
  md5_count :: u64
  md5_buffer :: "u8 list"

definition MD5_F :: "u32 \<Rightarrow> u32 \<Rightarrow> u32 \<Rightarrow> u32" where "MD5_F x y z = (x AND y) OR (NOT x AND z)"
definition MD5_G :: "u32 \<Rightarrow> u32 \<Rightarrow> u32 \<Rightarrow> u32" where "MD5_G x y z = (x AND z) OR (y AND NOT z)"
definition MD5_H :: "u32 \<Rightarrow> u32 \<Rightarrow> u32 \<Rightarrow> u32" where "MD5_H x y z = x XOR y XOR z"
definition MD5_I :: "u32 \<Rightarrow> u32 \<Rightarrow> u32 \<Rightarrow> u32" where "MD5_I x y z = y XOR (x OR NOT z)"

definition md5_op :: "(u32 \<Rightarrow> u32 \<Rightarrow> u32 \<Rightarrow> u32) \<Rightarrow> u32 \<Rightarrow> u32 \<Rightarrow> u32 \<Rightarrow> u32 \<Rightarrow> u32 \<Rightarrow> u32 \<Rightarrow> nat \<Rightarrow> u32" where
  "md5_op f a b c d x k n = b + ROTL32 (a + f b c d + x + k) n"

definition crypto_md5_transform :: "u32 list \<Rightarrow> u8 list \<Rightarrow> u32 list" where
  "crypto_md5_transform st block =
     (let x = map (\<lambda>i. le32 block (i * 4)) [0..<16];
          a = st ! 0; b = st ! 1; c = st ! 2; d = st ! 3;
          a = md5_op MD5_F a b c d (x ! 0) 0xd76aa478 7;
          d = md5_op MD5_F d a b c (x ! 1) 0xe8c7b756 12;
          c = md5_op MD5_F c d a b (x ! 2) 0x242070db 17;
          b = md5_op MD5_F b c d a (x ! 3) 0xc1bdceee 22;
          a = md5_op MD5_F a b c d (x ! 4) 0xf57c0faf 7;
          d = md5_op MD5_F d a b c (x ! 5) 0x4787c62a 12;
          a = md5_op MD5_G a b c d (x ! 1) 0xf61e2562 5;
          d = md5_op MD5_G d a b c (x ! 6) 0xc040b340 9;
          c = md5_op MD5_G c d a b (x ! 11) 0x265e5a51 14;
          b = md5_op MD5_G b c d a (x ! 0) 0xe9b6c7aa 20;
          a = md5_op MD5_H a b c d (x ! 5) 0xfffa3942 4;
          d = md5_op MD5_H d a b c (x ! 8) 0x8771f681 11;
          c = md5_op MD5_H c d a b (x ! 11) 0x6d9d6122 16;
          b = md5_op MD5_H b c d a (x ! 14) 0xfde5380c 23;
          a = md5_op MD5_I a b c d (x ! 0) 0xf4292244 6;
          d = md5_op MD5_I d a b c (x ! 7) 0x432aff97 10;
          c = md5_op MD5_I c d a b (x ! 14) 0xab9423a7 15;
          b = md5_op MD5_I b c d a (x ! 5) 0xfc93a039 21
      in [st ! 0 + a, st ! 1 + b, st ! 2 + c, st ! 3 + d])"

text \<open>The buffer of a fresh context is whatever the memory held.\<close>

definition crypto_md5_init :: "md5_ctx \<Rightarrow> md5_ctx" where
  "crypto_md5_init ctx =
     ctx\<lparr>md5_count := 0, md5_state := [0x67452301, 0xefcdab89, 0x98badcfe, 0x10325476]\<rparr>"

text \<open>\<open>mm_memcpy\<close> of \<open>xs\<close> to \<open>&buffer[i]\<close>.\<close>

definition put_at :: "'a list \<Rightarrow> nat \<Rightarrow> 'a list \<Rightarrow> 'a list" where
  "put_at buf i xs = take i buf @ xs @ drop (i + length xs) buf"

function md5_blocks :: "nat \<Rightarrow> u32 list \<Rightarrow> u8 list \<Rightarrow> nat \<times> u32 list" where
  "md5_blocks i st input =
     (if i + 63 < length input
      then md5_blocks (i + 64) (crypto_md5_transform st (take 64 (drop i input))) input
      else (i, st))"
  by pat_completeness auto
termination
  by (relation "measure (\<lambda>(i, st, input). length input - i)") auto

declare md5_blocks.simps [simp del]

text \<open>\<open>input_len\<close> is the length of the input, which an address space of 32 bits keeps below 2^32 - 64.\<close>

definition crypto_md5_update :: "md5_ctx \<Rightarrow> u8 list \<Rightarrow> md5_ctx" where
  "crypto_md5_update ctx input =
     (let input_len = length input;
          index = unat (drop_bit 3 (md5_count ctx) AND 0x3F);
          part_len = 64 - index;
          (i, index', st, buf) =
            (if input_len \<ge> part_len
             then (let buf1 = put_at (md5_buffer ctx) index (take part_len input);
                       (i, st) = md5_blocks part_len (crypto_md5_transform (md5_state ctx) buf1) input
                   in (i, 0, st, buf1))
             else (0, index, md5_state ctx, md5_buffer ctx))
      in ctx\<lparr>md5_count := md5_count ctx + push_bit 3 (of_nat input_len),
             md5_state := st,
             md5_buffer := (if i < input_len then put_at buf index' (drop i input) else buf)\<rparr>)"

subsection \<open>SHA-1\<close>

definition be32 :: "u8 list \<Rightarrow> nat \<Rightarrow> u32" where
  "be32 bs i = push_bit 24 (ucast (bs ! i)) OR push_bit 16 (ucast (bs ! (i + 1))) OR
     push_bit 8 (ucast (bs ! (i + 2))) OR ucast (bs ! (i + 3))"

definition sha1_schedule :: "u8 list \<Rightarrow> u32 list" where
  "sha1_schedule buffer =
     fold (\<lambda>i w. w @ [ROTL32 (w ! (i - 3) XOR w ! (i - 8) XOR w ! (i - 14) XOR w ! (i - 16)) 1])
       [16..<80] (map (\<lambda>i. be32 buffer (i * 4)) [0..<16])"

definition sha1_round :: "(u32 \<Rightarrow> u32 \<Rightarrow> u32 \<Rightarrow> u32) \<Rightarrow> u32 \<Rightarrow> u32 list \<Rightarrow> nat \<Rightarrow>
    u32 \<times> u32 \<times> u32 \<times> u32 \<times> u32 \<Rightarrow> u32 \<times> u32 \<times> u32 \<times> u32 \<times> u32" where
  "sha1_round f k w i s =
     (case s of (a, b, c, d, e) \<Rightarrow>
       let temp = ROTL32 a 5 + f b c d + e + w ! i + k in (temp, a, ROTL32 b 30, c, d))"

definition crypto_sha1_transform :: "u32 list \<Rightarrow> u8 list \<Rightarrow> u32 list" where
  "crypto_sha1_transform st buffer =
     (let w = sha1_schedule buffer;
          s = (st ! 0, st ! 1, st ! 2, st ! 3, st ! 4);
          s = fold (sha1_round (\<lambda>b c d. (b AND c) OR (NOT b AND d)) 0x5A827999 w) [0..<20] s;
          s = fold (sha1_round (\<lambda>b c d. b XOR c XOR d) 0x6ED9EBA1 w) [20..<40] s;
          s = fold (sha1_round (\<lambda>b c d. (b AND c) OR (b AND d) OR (c AND d)) 0x8F1BBCDC w) [40..<60] s;
          (a, b, c, d, e) = fold (sha1_round (\<lambda>b c d. b XOR c XOR d) 0xCA62C1D6 w) [60..<80] s
      in [st ! 0 + a, st ! 1 + b, st ! 2 + c, st ! 3 + d, st ! 4 + e])"

record sha1_ctx =
  sha1_state :: "u32 list"
  sha1_count :: u64
  sha1_buffer :: "u8 list"

definition crypto_sha1_init :: "sha1_ctx \<Rightarrow> sha1_ctx" where
  "crypto_sha1_init ctx = ctx\<lparr>sha1_count := 0,
     sha1_state := [0x67452301, 0xEFCDAB89, 0x98BADCFE, 0x10325476, 0xC3D2E1F0]\<rparr>"

subsection \<open>SHA-256\<close>

definition ROTRIGHT :: "u32 \<Rightarrow> nat \<Rightarrow> u32" where
  "ROTRIGHT x n = drop_bit n x OR push_bit (32 - n) x"

definition CH :: "'a::len word \<Rightarrow> 'a word \<Rightarrow> 'a word \<Rightarrow> 'a word" where
  "CH x y z = (x AND y) XOR (NOT x AND z)"
definition MAJ :: "'a::len word \<Rightarrow> 'a word \<Rightarrow> 'a word \<Rightarrow> 'a word" where
  "MAJ x y z = (x AND y) XOR (x AND z) XOR (y AND z)"
definition EP0 :: "u32 \<Rightarrow> u32" where "EP0 x = ROTRIGHT x 2 XOR ROTRIGHT x 13 XOR ROTRIGHT x 22"
definition EP1 :: "u32 \<Rightarrow> u32" where "EP1 x = ROTRIGHT x 6 XOR ROTRIGHT x 11 XOR ROTRIGHT x 25"
definition SIG0 :: "u32 \<Rightarrow> u32" where "SIG0 x = ROTRIGHT x 7 XOR ROTRIGHT x 18 XOR drop_bit 3 x"
definition SIG1 :: "u32 \<Rightarrow> u32" where "SIG1 x = ROTRIGHT x 17 XOR ROTRIGHT x 19 XOR drop_bit 10 x"

text \<open>Only eight of the 64 constants are given; C fills the rest with zeros.\<close>

definition sha256_k :: "u32 list" where
  "sha256_k =
     [0x428a2f98, 0x71374491, 0xb5c0fbcf, 0xe9b5dba5, 0x3956c25b, 0x59f111f1, 0x923f82a4, 0xab1c5ed5] @
     replicate 56 0"

record sha256_ctx =
  sha256_data :: "u8 list"
  sha256_datalen :: u32
  sha256_bitlen :: u64
  sha256_state :: "u32 list"

definition sha256_init :: "sha256_ctx \<Rightarrow> sha256_ctx" where
  "sha256_init ctx = ctx\<lparr>sha256_datalen := 0, sha256_bitlen := 0,
     sha256_state := [0x6a09e667, 0xbb67ae85, 0x3c6ef372, 0xa54ff53a, 0x510e527f, 0x9b05688c,
       0x1f83d9ab, 0x5be0cd19]\<rparr>"

definition sha256_schedule :: "u8 list \<Rightarrow> u32 list" where
  "sha256_schedule data =
     fold (\<lambda>i m. m @ [SIG1 (m ! (i - 2)) + m ! (i - 7) + SIG0 (m ! (i - 15)) + m ! (i - 16)])
       [16..<64] (map (\<lambda>i. be32 data (i * 4)) [0..<16])"

type_synonym 'a eight = "'a \<times> 'a \<times> 'a \<times> 'a \<times> 'a \<times> 'a \<times> 'a \<times> 'a"

text \<open>The shift of the eight working variables, shared by SHA-256 and SHA-512.\<close>

definition sha2_shift :: "'a::len word \<Rightarrow> 'a word \<Rightarrow> 'a word eight \<Rightarrow> 'a word eight" where
  "sha2_shift t1 t2 s =
     (case s of (a, b, c, d, e, f, g, h) \<Rightarrow> (t1 + t2, a, b, c, d + t1, e, f, g))"

definition sha256_round :: "u32 list \<Rightarrow> nat \<Rightarrow> u32 eight \<Rightarrow> u32 eight" where
  "sha256_round m i s =
     (case s of (a, b, c, d, e, f, g, h) \<Rightarrow>
       let t1 = h + EP1 e + CH e f g + sha256_k ! i + m ! i; t2 = EP0 a + MAJ a b c
       in sha2_shift t1 t2 s)"

definition sha2_start :: "'a list \<Rightarrow> 'a eight" where
  "sha2_start st = (st ! 0, st ! 1, st ! 2, st ! 3, st ! 4, st ! 5, st ! 6, st ! 7)"

definition sha2_add :: "'a::len word list \<Rightarrow> 'a word eight \<Rightarrow> 'a word list" where
  "sha2_add st s =
     (case s of (a, b, c, d, e, f, g, h) \<Rightarrow>
       [st ! 0 + a, st ! 1 + b, st ! 2 + c, st ! 3 + d, st ! 4 + e, st ! 5 + f, st ! 6 + g, st ! 7 + h])"

definition sha256_transform :: "sha256_ctx \<Rightarrow> u8 list \<Rightarrow> sha256_ctx" where
  "sha256_transform ctx data =
     (let m = sha256_schedule data
      in ctx\<lparr>sha256_state :=
            sha2_add (sha256_state ctx) (fold (sha256_round m) [0..<64] (sha2_start (sha256_state ctx)))\<rparr>)"

text \<open>The whole function: it initialises a local context and leaves \<open>out\<close> alone.\<close>

definition sha256_quick_hash :: "u8 list \<Rightarrow> u32 \<Rightarrow> u8 list \<Rightarrow> u8 list" where
  "sha256_quick_hash data len out = out"

subsection \<open>SHA-512\<close>

definition ROTR64 :: "u64 \<Rightarrow> nat \<Rightarrow> u64" where
  "ROTR64 x n = drop_bit n x OR push_bit (64 - n) x"

definition SHA512_SIGMA0 :: "u64 \<Rightarrow> u64" where "SHA512_SIGMA0 x = ROTR64 x 28 XOR ROTR64 x 34 XOR ROTR64 x 39"
definition SHA512_SIGMA1 :: "u64 \<Rightarrow> u64" where "SHA512_SIGMA1 x = ROTR64 x 14 XOR ROTR64 x 18 XOR ROTR64 x 41"
definition SHA512_sigma0 :: "u64 \<Rightarrow> u64" where "SHA512_sigma0 x = ROTR64 x 1 XOR ROTR64 x 8 XOR drop_bit 7 x"
definition SHA512_sigma1 :: "u64 \<Rightarrow> u64" where "SHA512_sigma1 x = ROTR64 x 19 XOR ROTR64 x 61 XOR drop_bit 6 x"

record sha512_ctx =
  sha512_state :: "u64 list"
  sha512_count :: "u64 list"
  sha512_buffer :: "u8 list"

definition g_sha512_initial :: "u64 list" where
  "g_sha512_initial =
    [0x6a09e667f3bcc908, 0xbb67ae8584caa73b, 0x3c6ef372fe94f82b, 0xa54ff53a5f1d36f1,
     0x510e527fade682d1, 0x9b05688c2b3e6c1f, 0x1f83d9abfb41bd6b, 0x5be0cd19137e2179]"

definition crypto_sha512_init :: "sha512_ctx \<Rightarrow> sha512_ctx" where
  "crypto_sha512_init ctx = ctx\<lparr>sha512_state := g_sha512_initial, sha512_count := [0, 0]\<rparr>"

definition be64 :: "u8 list \<Rightarrow> nat \<Rightarrow> u64" where
  "be64 bs i = push_bit 56 (ucast (bs ! i)) OR push_bit 48 (ucast (bs ! (i + 1))) OR
     push_bit 40 (ucast (bs ! (i + 2))) OR push_bit 32 (ucast (bs ! (i + 3))) OR
     push_bit 24 (ucast (bs ! (i + 4))) OR push_bit 16 (ucast (bs ! (i + 5))) OR
     push_bit 8 (ucast (bs ! (i + 6))) OR ucast (bs ! (i + 7))"

definition sha512_schedule :: "u8 list \<Rightarrow> u64 list" where
  "sha512_schedule buffer =
     fold (\<lambda>i w. w @ [SHA512_sigma1 (w ! (i - 2)) + w ! (i - 7) + SHA512_sigma0 (w ! (i - 15)) + w ! (i - 16)])
       [16..<80] (map (\<lambda>i. be64 buffer (i * 8)) [0..<16])"

definition sha512_round :: "u64 list \<Rightarrow> nat \<Rightarrow> u64 eight \<Rightarrow> u64 eight" where
  "sha512_round w i s =
     (case s of (a, b, c, d, e, f, g, h) \<Rightarrow>
       let t1 = h + SHA512_SIGMA1 e + CH e f g + w ! i; t2 = SHA512_SIGMA0 a + MAJ a b c
       in sha2_shift t1 t2 s)"

definition crypto_sha512_transform :: "u64 list \<Rightarrow> u8 list \<Rightarrow> u64 list" where
  "crypto_sha512_transform st buffer =
     sha2_add st (fold (sha512_round (sha512_schedule buffer)) [0..<80] (sha2_start st))"

subsection \<open>MD5 as a function of the message\<close>

text \<open>What the context stands for: the state after all full blocks of the message so far.\<close>

function absorb :: "u32 list \<Rightarrow> u8 list \<Rightarrow> u32 list" where
  "absorb st msg = (if length msg < 64 then st
     else absorb (crypto_md5_transform st (take 64 msg)) (drop 64 msg))"
  by pat_completeness auto
termination
  by (relation "measure (\<lambda>(st, msg). length msg)") auto

declare absorb.simps [simp del]

function tail_bytes :: "u8 list \<Rightarrow> u8 list" where
  "tail_bytes msg = (if length msg < 64 then msg else tail_bytes (drop 64 msg))"
  by pat_completeness auto
termination
  by (relation "measure length") auto

declare tail_bytes.simps [simp del]

definition md5_holds :: "u32 list \<Rightarrow> md5_ctx \<Rightarrow> u8 list \<Rightarrow> bool" where
  "md5_holds iv ctx msg \<longleftrightarrow> md5_state ctx = absorb iv msg \<and>
     md5_count ctx = of_nat (8 * length msg) \<and> length (md5_buffer ctx) = 64 \<and>
     take (length msg mod 64) (md5_buffer ctx) = tail_bytes msg"

lemma absorb_tail: "absorb st (msg @ ys) = absorb (absorb st msg) (tail_bytes msg @ ys)"
proof (induction st msg rule: absorb.induct)
  case (1 st msg)
  show ?case
  proof (cases "length msg < 64")
    case True
    then show ?thesis by (simp add: tail_bytes.simps [of msg] absorb.simps [of st msg])
  next
    case False
    with 1 show ?thesis
      by (simp add: tail_bytes.simps [of msg] absorb.simps [of st msg] absorb.simps [of st "msg @ ys"])
  qed
qed

lemma tail_append: "tail_bytes (msg @ ys) = tail_bytes (tail_bytes msg @ ys)"
proof (induction msg rule: tail_bytes.induct)
  case (1 msg)
  then show ?case by (cases "length msg < 64") (simp_all add: tail_bytes.simps [of msg] tail_bytes.simps [of "msg @ ys"])
qed

lemma tail_length: "length (tail_bytes msg) = length msg mod 64"
proof (induction msg rule: tail_bytes.induct)
  case (1 msg)
  show ?case
  proof (cases "length msg < 64")
    case True
    then show ?thesis by (simp add: tail_bytes.simps [of msg])
  next
    case False
    with 1 show ?thesis by (simp add: tail_bytes.simps [of msg] le_mod_geq)
  qed
qed

lemma tail_small: "length xs < 64 \<Longrightarrow> tail_bytes xs = xs"
  by (simp add: tail_bytes.simps)

lemma md5_blocks_absorb:
  assumes "i \<le> length input"
  shows "\<exists>j. md5_blocks i st input = (j, absorb st (drop i input)) \<and> j \<le> length input \<and>
    drop j input = tail_bytes (drop i input)"
  using assms
proof (induction i st input rule: md5_blocks.induct)
  case (1 i st input)
  show ?case
  proof (cases "i + 63 < length input")
    case True
    then have long: "\<not> length input - i < 64" by arith
    from True 1 have "\<exists>j. md5_blocks (i + 64) (crypto_md5_transform st (take 64 (drop i input))) input =
        (j, absorb (crypto_md5_transform st (take 64 (drop i input))) (drop (i + 64) input)) \<and> j \<le> length input \<and>
        drop j input = tail_bytes (drop (i + 64) input)" by simp
    moreover have "absorb st (drop i input) =
        absorb (crypto_md5_transform st (take 64 (drop i input))) (drop (i + 64) input)"
      using long by (simp add: absorb.simps [of st "drop i input"] add.commute)
    moreover have "tail_bytes (drop i input) = tail_bytes (drop (i + 64) input)"
      using long by (simp add: tail_bytes.simps [of "drop i input"] add.commute)
    ultimately show ?thesis using True by (simp add: md5_blocks.simps [of i])
  next
    case False
    then have "length input - i < 64" by arith
    with False 1 show ?thesis
      by (simp add: md5_blocks.simps [of i] absorb.simps [of st "drop i input"] tail_small)
  qed
qed

lemma put_at_props:
  assumes "length buf = 64" and "i + length xs \<le> 64"
  shows "length (put_at buf i xs) = 64" and "take (i + length xs) (put_at buf i xs) = take i buf @ xs"
  using assms by (simp_all add: put_at_def)

text \<open>The index into the buffer is the number of bytes not yet absorbed.\<close>

lemma md5_index: "unat (drop_bit 3 (of_nat (8 * n) :: u64) AND 0x3F) = n mod 64"
proof -
  have "(0x3F :: u64) = mask 6" by (simp add: mask_eq_exp_minus_1)
  then have "drop_bit 3 (of_nat (8 * n) :: u64) AND 0x3F = take_bit 6 (drop_bit 3 (of_nat (8 * n)))"
    by (simp add: take_bit_eq_mask)
  also have "unat \<dots> = (8 * n mod 2 ^ 64 div 8) mod 64"
    by (simp add: take_bit_eq_mod drop_bit_eq_div unat_mod unat_div unat_word_ariths unat_of_nat mod_mult_right_eq)
  also have "8 * n mod 2 ^ 64 div 8 = n mod 2 ^ 61"
  proof -
    have "8 * (n mod 2 ^ 61) = 8 * n mod (8 * 2 ^ 61)" by (rule mult_mod_right)
    then have "8 * n mod 2 ^ 64 = 8 * (n mod 2 ^ 61)" by simp
    then show ?thesis by simp
  qed
  also have "n mod 2 ^ 61 mod 64 = n mod 64" by (simp add: mod_mod_cancel)
  finally show ?thesis .
qed

subsection \<open>Properties\<close>

text \<open>
  C9: MD5 streaming is correct. If a context stands for the message fed so far (all its full
  blocks absorbed, the rest staged at the front of the buffer, the bit count in step), then
  after \<open>crypto_md5_update\<close> it stands for that message followed by the new input, however the
  input is cut relative to the 64-byte blocks; and a fresh context stands for the empty
  message.
\<close>

theorem md5_update_streams:
  assumes h: "md5_holds iv ctx msg"
  shows "md5_holds iv (crypto_md5_update ctx input) (msg @ input) \<and>
    (length (md5_buffer c0) = 64 \<longrightarrow>
       md5_holds [0x67452301, 0xefcdab89, 0x98badcfe, 0x10325476] (crypto_md5_init c0) [])"
proof
  let ?n = "length input" and ?idx = "length msg mod 64"
  let ?r = "tail_bytes msg" and ?st = "absorb iv msg" and ?buf = "md5_buffer ctx"
  have len: "length ?buf = 64" and rest: "take ?idx ?buf = ?r" and rl: "length ?r = ?idx"
    using h tail_length by (simp_all add: md5_holds_def)
  have i: "unat (drop_bit 3 (md5_count ctx) AND 0x3F) = ?idx"
    using h md5_index by (simp add: md5_holds_def)
  have st: "md5_state ctx = ?st" using h by (simp add: md5_holds_def)
  have cnt: "md5_count ctx + push_bit 3 (of_nat ?n) = of_nat (8 * length (msg @ input))"
    using h by (simp add: md5_holds_def push_bit_eq_mult algebra_simps)
  have idx: "?idx < 64" by simp
  have tl: "length (msg @ input) mod 64 = length (tail_bytes (msg @ input))" by (simp add: tail_length)
  show "md5_holds iv (crypto_md5_update ctx input) (msg @ input)"
  proof (cases "?n \<ge> 64 - ?idx")
    case True
    let ?p = "64 - ?idx"
    let ?b1 = "put_at ?buf ?idx (take ?p input)"
    have b1: "?b1 = ?r @ take ?p input" "length ?b1 = 64"
      using len rest True idx rl by (simp_all add: put_at_def)
    obtain j where j: "md5_blocks ?p (crypto_md5_transform ?st ?b1) input =
          (j, absorb (crypto_md5_transform ?st ?b1) (drop ?p input))" "j \<le> ?n"
        "drop j input = tail_bytes (drop ?p input)"
      using md5_blocks_absorb [OF True] by blast
    have rsplit: "?r @ input = ?b1 @ drop ?p input" by (simp add: b1(1))
    have ab: "absorb iv (msg @ input) = absorb (crypto_md5_transform ?st ?b1) (drop ?p input)"
      unfolding absorb_tail [of iv msg input] rsplit using b1(2) by (simp add: absorb.simps [of ?st "?b1 @ drop ?p input"])
    have tb: "tail_bytes (msg @ input) = drop j input"
      unfolding tail_append [of msg input] rsplit j(3) using b1(2) by (simp add: tail_bytes.simps [of "?b1 @ drop ?p input"])
    have lt: "length (drop j input) < 64" unfolding tb [symmetric] tail_length by simp
    let ?b2 = "if j < ?n then put_at ?b1 0 (drop j input) else ?b1"
    have "length ?b2 = 64 \<and> take (length (drop j input)) ?b2 = drop j input"
    proof (cases "j < ?n")
      case True
      with put_at_props [of ?b1 0 "drop j input", OF b1(2)] lt show ?thesis
        by (simp only: if_True add_0 take_0 append_Nil less_imp_le simp_thms)
    next
      case False
      with b1(2) show ?thesis by (simp only: if_False simp_thms) (simp add: not_less)
    qed
    moreover have "crypto_md5_update ctx input = ctx\<lparr>md5_count := md5_count ctx + push_bit 3 (of_nat ?n),
        md5_state := absorb iv (msg @ input), md5_buffer := ?b2\<rparr>"
      unfolding crypto_md5_update_def Let_def i st ab using True j(1) by simp
    ultimately show ?thesis using cnt tl tb by (simp add: md5_holds_def)
  next
    case False
    then have small: "length (?r @ input) < 64" by (simp add: rl)
    have ab: "absorb iv (msg @ input) = ?st" unfolding absorb_tail [of iv msg input] using small by (simp add: absorb.simps)
    have tb: "tail_bytes (msg @ input) = ?r @ input" unfolding tail_append [of msg input] using small by (rule tail_small)
    let ?b2 = "if 0 < ?n then put_at ?buf ?idx input else ?buf"
    have "length ?b2 = 64 \<and> take (length (?r @ input)) ?b2 = ?r @ input"
      using len rest rl small put_at_props [OF len, of ?idx input] by auto
    moreover have "crypto_md5_update ctx input = ctx\<lparr>md5_count := md5_count ctx + push_bit 3 (of_nat ?n),
        md5_state := ?st, md5_buffer := ?b2\<rparr>"
      unfolding crypto_md5_update_def Let_def i st using False by simp
    ultimately show ?thesis using cnt tl tb ab by (simp add: md5_holds_def)
  qed
  show "length (md5_buffer c0) = 64 \<longrightarrow>
       md5_holds [0x67452301, 0xefcdab89, 0x98badcfe, 0x10325476] (crypto_md5_init c0) []"
    by (simp add: md5_holds_def crypto_md5_init_def absorb.simps tail_small)
qed

theorem md5_update_streams_witness:
  "md5_holds [0x67452301, 0xefcdab89, 0x98badcfe, 0x10325476]
     (crypto_md5_update (crypto_md5_init \<lparr>md5_state = [], md5_count = 9, md5_buffer = replicate 64 5\<rparr>)
       (replicate 70 1)) (replicate 70 1)"
proof -
  let ?c = "\<lparr>md5_state = [], md5_count = 9, md5_buffer = replicate 64 5\<rparr>"
  have "md5_holds [0x67452301, 0xefcdab89, 0x98badcfe, 0x10325476] (crypto_md5_init ?c) []"
    by (simp add: md5_holds_def crypto_md5_init_def absorb.simps tail_small)
  from md5_update_streams [OF this, of "replicate 70 1"] show ?thesis by simp
qed

definition sha512_extend :: "nat \<Rightarrow> u64 list \<Rightarrow> u64 list" where
  "sha512_extend i w =
     w @ [SHA512_sigma1 (w ! (i - 2)) + w ! (i - 7) + SHA512_sigma0 (w ! (i - 15)) + w ! (i - 16)]"

lemma sha512_zero_w:
  assumes "16 \<le> m"
  shows "fold sha512_extend [16..<m] (replicate 16 0) = replicate m 0"
  using assms
proof (induction m rule: dec_induct)
  case (step m)
  have "SHA512_sigma1 0 = 0" "SHA512_sigma0 0 = 0" by (simp_all add: SHA512_sigma1_def SHA512_sigma0_def ROTR64_def)
  then have "sha512_extend m (replicate m 0) = replicate (Suc m) 0"
    using step(1) by (simp add: sha512_extend_def replicate_append_same)
  with step show ?case by simp
qed simp

lemma be64_zero: "i + 7 < n \<Longrightarrow> be64 (replicate n 0) i = 0"
  by (simp add: be64_def)

lemma sha512_zero_schedule:
  assumes "n = 128"
  shows "sha512_schedule (replicate n 0) = replicate 80 0"
proof -
  have "map (\<lambda>i. be64 (replicate n 0) (i * 8)) [0..<16] = map (\<lambda>i. 0) [0..<16]"
    using assms by (intro map_cong refl be64_zero) auto
  also have "\<dots> = replicate 16 0" by (simp add: map_replicate_const)
  finally have m: "map (\<lambda>i. be64 (replicate n 0) (i * 8)) [0..<16] = replicate 16 0" .
  have "sha512_schedule (replicate n 0) = fold sha512_extend [16..<80] (replicate 16 0)"
    unfolding sha512_schedule_def m sha512_extend_def [abs_def] ..
  also have "\<dots> = replicate 80 0" by (rule sha512_zero_w) simp
  finally show ?thesis .
qed

lemma sha512_zero_rounds:
  assumes "set xs \<subseteq> {..<n}"
  shows "fold (sha512_round (replicate n 0)) xs (0, 0, 0, 0, 0, 0, 0, 0) = (0, 0, 0, 0, 0, 0, 0, 0)"
  using assms
proof (induction xs)
  case (Cons i xs)
  then have "sha512_round (replicate n 0) i (0, 0, 0, 0, 0, 0, 0, 0) = (0, 0, 0, 0, 0, 0, 0, 0)"
    by (simp add: sha512_round_def sha2_shift_def Let_def SHA512_SIGMA0_def SHA512_SIGMA1_def
        ROTR64_def CH_def MAJ_def)
  with Cons show ?case by simp
qed simp

text \<open>
  the SHA-512 block function has no round constants: the all-zero block leaves the all-zero
  state unchanged, which the round constants of the standard would break in the first round.
\<close>

theorem sha512_zero_fixpoint:
  "crypto_sha512_transform (replicate 8 0) (replicate 128 0) = replicate 8 0"
proof -
  have st: "sha2_start (replicate 8 (0 :: u64)) = (0, 0, 0, 0, 0, 0, 0, 0)" by (simp add: sha2_start_def)
  have "set [0..<80] \<subseteq> {..<80}" by auto
  from sha512_zero_rounds [OF this] show ?thesis
    unfolding crypto_sha512_transform_def sha512_zero_schedule [OF refl] st by (simp add: sha2_add_def eval_nat_numeral)
qed

end
