(* ===== verification/Decimal.thy ===== *)
theory Decimal
  imports CString
begin

text \<open>
  Decimal output as the kernel writes it again and again (\<open>arch/x86/timer.c\<close>,
  \<open>kernel/printk.c\<close>): digits are pushed least significant first into a small local array,
  which is then reversed in place. Here are the two loops, with every array access checked, and
  the lemma that they compute the usual numeral. Local arrays that the code leaves
  uninitialised are filled with NUL: every position that is read has been written before.
\<close>

definition local_array :: "nat \<Rightarrow> char list" where
  "local_array n = replicate n NUL"

lemma length_local_array [simp]: "length (local_array n) = n"
  by (simp add: local_array_def)

definition digit :: "nat \<Rightarrow> char" where
  "digit n = char_of (48 + n)"

subsection \<open>The loops\<close>

text \<open>\<open>while (temp > 0) { buf[idx++] = '0' + (temp % 10); temp /= 10; }\<close>\<close>

fun dec_push :: "nat \<Rightarrow> char list \<Rightarrow> nat \<Rightarrow> (char list \<times> nat) option" where
  "dec_push temp buf idx =
     (if temp > 0
      then do { b \<leftarrow> wr buf idx (digit (temp mod 10)); dec_push (temp div 10) b (idx + 1) }
      else Some (buf, idx))"

declare dec_push.simps [simp del]

text \<open>\<open>for (i = 0; i < idx / 2; i++)\<close> swap \<open>buf[i]\<close> and \<open>buf[idx - 1 - i]\<close>.\<close>

definition dec_swap :: "nat \<Rightarrow> char list \<Rightarrow> nat \<Rightarrow> char list" where
  "dec_swap idx buf i = buf[i := buf ! (idx - 1 - i), idx - 1 - i := buf ! i]"

definition dec_reverse :: "char list \<Rightarrow> nat \<Rightarrow> char list" where
  "dec_reverse buf idx = foldl (dec_swap idx) buf [0..<idx div 2]"

text \<open>The whole conversion, with its terminator; the result is the array and the length.\<close>

definition dec_str :: "nat \<Rightarrow> char list \<Rightarrow> (char list \<times> nat) option" where
  "dec_str temp buf =
     do { (b, idx) \<leftarrow> (if temp = 0 then do { b \<leftarrow> wr buf 0 (CHR ''0''); Some (b, 1) }
                   else do { (b, idx) \<leftarrow> dec_push temp buf 0; Some (dec_reverse b idx, idx) });
          b' \<leftarrow> wr b idx NUL;
          Some (b', idx) }"

text \<open>\<open>strcpy(buf + off, src)\<close> into an array.\<close>

definition strcpy_to :: "char list \<Rightarrow> nat \<Rightarrow> char list \<Rightarrow> char list option" where
  "strcpy_to buf off src = strcpy_at buf off src"

subsection \<open>Numerals\<close>

fun dec :: "nat \<Rightarrow> char list" where
  "dec n = (if n < 10 then [digit n] else dec (n div 10) @ [digit (n mod 10)])"

declare dec.simps [simp del]

lemma dec_small: "n < 10 \<Longrightarrow> dec n = [digit n]"
  by (simp add: dec.simps)

lemma dec_big: "10 \<le> n \<Longrightarrow> dec n = dec (n div 10) @ [digit (n mod 10)]"
  by (subst dec.simps) simp

lemma dec_nonempty [simp]: "dec n \<noteq> []"
  by (subst dec.simps) simp

lemma digit_code: "n < 10 \<Longrightarrow> (of_char (digit n) :: nat) = 48 + n"
  by (simp add: digit_def)

lemma digitI: "(of_char c :: nat) = 48 + n \<Longrightarrow> n < 10 \<Longrightarrow> digit n = c"
  using digit_code [of n] of_char_eq_iff [of "digit n" c, where 'a = nat] by simp

lemma digit_chars:
  "digit 0 = CHR ''0''" "digit (Suc 0) = CHR ''1''" "digit 1 = CHR ''1''" "digit 2 = CHR ''2''"
  "digit 3 = CHR ''3''" "digit 4 = CHR ''4''" "digit 5 = CHR ''5''" "digit 6 = CHR ''6''"
  "digit 7 = CHR ''7''" "digit 8 = CHR ''8''" "digit 9 = CHR ''9''"
  by (rule digitI; simp)+

lemma digit_inj [simp]: "m < 10 \<Longrightarrow> n < 10 \<Longrightarrow> digit m = digit n \<longleftrightarrow> m = n"
  by (metis digit_code add_left_cancel)

lemma digit_is_digit: "n < 10 \<Longrightarrow> is_digit (digit n)"
  by (simp add: is_digit_def digit_code)

lemma digit_not_NUL [simp]: "n < 10 \<Longrightarrow> digit n \<noteq> NUL"
  using digit_code [of n] by auto

lemma dec_digits: "\<forall>c \<in> set (dec n). is_digit c"
proof (induction n rule: dec.induct)
  case (1 n)
  then show ?case by (subst dec.simps) (auto simp: digit_is_digit)
qed

lemma NUL_not_digit [simp]: "\<not> is_digit NUL"
  by (simp add: is_digit_def)

lemma NUL_notin_dec [simp]: "NUL \<notin> set (dec n)"
  using dec_digits [of n] by auto

lemma dec_length_le: "n < 10 ^ Suc k \<Longrightarrow> length (dec n) \<le> Suc k"
proof (induction k arbitrary: n)
  case 0
  then show ?case by (simp add: dec_small)
next
  case (Suc k)
  show ?case
  proof (cases "n < 10")
    case True then show ?thesis by (simp add: dec_small)
  next
    case False
    moreover have "n div 10 < 10 ^ Suc k" using Suc.prems by (simp add: less_mult_imp_div_less mult.commute)
    ultimately show ?thesis using Suc.IH [of "n div 10"] by (simp add: dec_big)
  qed
qed

lemma dec_length_ge: "10 ^ k \<le> n \<Longrightarrow> Suc k \<le> length (dec n)"
proof (induction k arbitrary: n)
  case 0
  then show ?case by (cases "dec n") auto
next
  case (Suc k)
  then have "10 \<le> n" by (metis order_trans self_le_power one_le_numeral zero_less_Suc)
  moreover have "10 ^ k \<le> n div 10" using Suc.prems by (simp add: less_eq_div_iff_mult_less_eq mult.commute)
  ultimately show ?case using Suc.IH [of "n div 10"] by (simp add: dec_big)
qed

text \<open>Reading a numeral back.\<close>

lemma digits_val_dec: "digits_val a (dec n) = a * 10 ^ length (dec n) + int n"
proof (induction n arbitrary: a rule: dec.induct)
  case (1 n)
  show ?case
  proof (cases "n < 10")
    case True
    then have "(of_char (digit n) :: int) = 48 + int n"
      using digit_code [of n] by (metis of_nat_add of_nat_numeral of_nat_of_char)
    with True show ?thesis by (simp add: dec_small digits_val_def)
  next
    case False
    have "(of_char (digit (n mod 10)) :: int) = 48 + int (n mod 10)"
      using digit_code [of "n mod 10"] by (metis of_nat_add of_nat_numeral of_nat_of_char mod_less_divisor zero_less_numeral)
    moreover have "digits_val a (dec (n div 10)) = a * 10 ^ length (dec (n div 10)) + int (n div 10)"
      using 1 False by simp
    moreover have "int n = int (n div 10) * 10 + int (n mod 10)" by presburger
    ultimately show ?thesis using False by (simp add: dec_big digits_val_def algebra_simps)
  qed
qed

lemma atoi_dec: "atoi_from 0 (dec n @ NUL # r) = (if n < 2 ^ 31 then Some (int n) else None)"
  using atoi_from_digits [OF dec_digits [of n] NUL_not_digit, of 0 r] by (simp add: digits_val_dec)

lemma dec_inj: "dec m = dec n \<longleftrightarrow> m = n"
  by (metis digits_val_dec add_left_cancel of_nat_eq_iff)

subsection \<open>The loops compute the numeral\<close>

lemma dec_push_dec:
  assumes "0 < temp" and "idx \<le> length buf"
  shows "dec_push temp buf idx =
    (if idx + length (dec temp) \<le> length buf
     then Some (take idx buf @ rev (dec temp) @ drop (idx + length (dec temp)) buf, idx + length (dec temp))
     else None)"
  using assms
proof (induction temp arbitrary: buf idx rule: dec.induct)
  case (1 temp)
  let ?d = "digit (temp mod 10)"
  show ?case
  proof (cases "idx < length buf")
    case False
    have "0 < length (dec temp)" by simp
    with False 1 show ?thesis by (subst dec_push.simps) (simp del: length_greater_0_conv)
  next
    case idx: True
    have t: "take (Suc idx) (buf[idx := ?d]) = take idx buf @ [?d]" using idx by (simp add: take_Suc_conv_app_nth)
    show ?thesis
    proof (cases "temp < 10")
      case True
      then have "dec_push (temp div 10) (buf[idx := ?d]) (idx + 1) = Some (buf[idx := ?d], idx + 1)"
        by (subst dec_push.simps) simp
      with True 1(2) idx show ?thesis
        by (subst dec_push.simps) (simp add: dec_small upd_conv_take_nth_drop)
    next
      case False
      then have "0 < temp div 10" by simp
      note ih = 1(1) [OF False this, of "Suc idx" "buf[idx := ?d]"]
      have "dec_push temp buf idx = dec_push (temp div 10) (buf[idx := ?d]) (Suc idx)"
        using 1(2) idx by (subst dec_push.simps) simp
      with ih idx False t show ?thesis by (simp add: dec_big)
    qed
  qed
qed

lemma dec_reverse_prefix:
  assumes "k \<le> idx div 2" and "idx \<le> length buf"
  shows "length (foldl (dec_swap idx) buf [0..<k]) = length buf \<and>
    (\<forall>j < length buf. foldl (dec_swap idx) buf [0..<k] ! j =
       (if j < idx \<and> (j < k \<or> idx - 1 - j < k) then buf ! (idx - 1 - j) else buf ! j))"
  using assms(1)
proof (induction k)
  case (Suc k)
  let ?b = "foldl (dec_swap idx) buf [0..<k]"
  have len: "length ?b = length buf" and nth: "j < length buf \<Longrightarrow> ?b ! j =
      (if j < idx \<and> (j < k \<or> idx - 1 - j < k) then buf ! (idx - 1 - j) else buf ! j)" for j
    using Suc by auto
  have lt: "k < idx" "idx - 1 - k < idx" "k < idx - 1 - k" "idx - 1 - (idx - 1 - k) = k" using Suc.prems by auto
  have step: "foldl (dec_swap idx) buf [0..<Suc k] = ?b[k := ?b ! (idx - 1 - k), idx - 1 - k := ?b ! k]"
    by (simp add: dec_swap_def)
  have ends: "?b ! (idx - 1 - k) = buf ! (idx - 1 - k)" "?b ! k = buf ! k"
    using lt assms(2) by (auto simp: nth)
  show ?case unfolding step
  proof (intro conjI allI impI)
    show "length (?b[k := ?b ! (idx - 1 - k), idx - 1 - k := ?b ! k]) = length buf" using len by simp
    fix j assume j: "j < length buf"
    consider "j = k" | "j = idx - 1 - k" | "j \<noteq> k" "j \<noteq> idx - 1 - k" by blast
    then show "?b[k := ?b ! (idx - 1 - k), idx - 1 - k := ?b ! k] ! j =
        (if j < idx \<and> (j < Suc k \<or> idx - 1 - j < Suc k) then buf ! (idx - 1 - j) else buf ! j)"
    proof cases
      case 1 with lt(1) lt j len ends show ?thesis by (auto simp: nth_list_update)
    next
      case 2 with lt j len ends show ?thesis by (simp add: nth_list_update)
    next
      case 3
      then have "j < idx \<Longrightarrow> (j < Suc k \<or> idx - 1 - j < Suc k) \<longleftrightarrow> (j < k \<or> idx - 1 - j < k)" by auto
      with 3 j len nth show ?thesis by auto
    qed
  qed
qed auto

lemma dec_reverse_rev:
  assumes "idx \<le> length buf"
  shows "dec_reverse buf idx = rev (take idx buf) @ drop idx buf"
proof (rule nth_equalityI)
  note d = dec_reverse_prefix [OF order_refl assms]
  show "length (dec_reverse buf idx) = length (rev (take idx buf) @ drop idx buf)"
    using d assms by (simp add: dec_reverse_def)
  fix j assume "j < length (dec_reverse buf idx)"
  then have j: "j < length buf" using d by (simp add: dec_reverse_def)
  have mid: "\<not> (j < idx div 2 \<or> idx - 1 - j < idx div 2) \<Longrightarrow> j < idx \<Longrightarrow> idx - 1 - j = j" by linarith
  from d j have "dec_reverse buf idx ! j = (if j < idx then buf ! (idx - 1 - j) else buf ! j)"
    unfolding dec_reverse_def using mid by (metis (no_types, lifting))
  with j assms show "dec_reverse buf idx ! j = (rev (take idx buf) @ drop idx buf) ! j"
    by (simp add: nth_append rev_nth)
qed

lemma dec_str_dec:
  "dec_str temp buf =
    (if length (dec temp) < length buf
     then Some (dec temp @ NUL # drop (Suc (length (dec temp))) buf, length (dec temp)) else None)"
proof (cases "temp = 0")
  case True
  then show ?thesis
    by (cases buf; cases "tl buf") (auto simp: dec_str_def dec_small digit_chars)
next
  case False
  then have p: "dec_push temp buf 0 =
      (if length (dec temp) \<le> length buf
       then Some (rev (dec temp) @ drop (length (dec temp)) buf, length (dec temp)) else None)"
    by (simp add: dec_push_dec)
  have "length (dec temp) \<le> length buf \<Longrightarrow>
      dec_reverse (rev (dec temp) @ drop (length (dec temp)) buf) (length (dec temp)) =
        dec temp @ drop (length (dec temp)) buf"
    by (simp add: dec_reverse_rev)
  moreover have "length (dec temp) < length buf \<Longrightarrow>
      (dec temp @ drop (length (dec temp)) buf)[length (dec temp) := NUL] =
        dec temp @ NUL # drop (Suc (length (dec temp))) buf"
    by (simp add: list_update_append Cons_nth_drop_Suc [symmetric])
  ultimately show ?thesis using False by (auto simp: dec_str_def p wr_Some)
qed

lemma dec_str_cstr: "dec_str temp buf = Some (b, idx) \<Longrightarrow> cstr b (dec temp) \<and> idx = length (dec temp)"
  by (auto simp: dec_str_dec cstr_def split: if_splits)

lemma strcpy_to_cstr:
  assumes "cstr src s" and "off \<le> length buf"
  shows "strcpy_to buf off src = (if off + length s < length buf
    then Some (take off buf @ s @ NUL # drop (off + length s + 1) buf) else None)"
  using strcpy_at_cstr [OF assms] by (simp add: strcpy_to_def)

lemma strcpy_to_append:
  assumes "cstr src s" and "off = length p" and "length s \<le> length r"
  shows "strcpy_to (p @ NUL # r) off src = Some ((p @ s) @ NUL # drop (length s) r)"
  using assms by (simp add: strcpy_to_cstr)

lemma strcpy_to_start:
  assumes "cstr src s" and "length s < n"
  shows "strcpy (local_array n) src = Some (s @ NUL # local_array (n - Suc (length s)))"
  using assms strcpy_at_cstr [OF assms(1), of 0 "local_array n"] by (simp add: strcpy_def local_array_def)

lemma drop_local_array [simp]: "drop k (local_array n) = local_array (n - k)"
  by (simp add: local_array_def)

end
