(* ===== verification/Timer.thy ===== *)
theory Timer
  imports Decimal
begin

text \<open>
  The programmable interval timer, \<open>arch/x86/timer.c\<close>: the tick counters, the table of alarms
  and their firing, the frequency set-up (as the list of bytes sent to I/O ports), and the
  functions that print times. An alarm's callback is a function pointer: what it does is a
  parameter \<open>run\<close> of the model, acting on the timer's state and on the rest of the kernel's
  state. Uninitialised local arrays are those of theory \<open>Decimal\<close>.
\<close>

subsection \<open>State\<close>

definition TIMER_FREQUENCY_HZ :: u32 where "TIMER_FREQUENCY_HZ = 1193182"
definition TIMER_MS_PER_TICK :: u64 where "TIMER_MS_PER_TICK = 10"
definition TIMER_SECOND_MS :: u64 where "TIMER_SECOND_MS = 1000"
definition TIMER_MINUTE_MS :: u64 where "TIMER_MINUTE_MS = 60 * TIMER_SECOND_MS"
definition TIMER_HOUR_MS :: u64 where "TIMER_HOUR_MS = 60 * TIMER_MINUTE_MS"
definition TIMER_DAY_MS :: u64 where "TIMER_DAY_MS = 24 * TIMER_HOUR_MS"
definition MAX_ALARMS :: nat where "MAX_ALARMS = 32"

record timer_info =
  ti_ticks :: u64
  ti_uptime_ms :: u64
  ti_frequency_hz :: u32
  ti_initialized :: bool

record timer_alarm =
  trigger_time :: u64
  al_callback :: u32
  al_data :: u32
  al_active :: bool
  al_repeat :: bool
  al_interval :: u64

record timer =
  timer_ticks :: u64
  timer_ms :: u64
  current_ticks :: u32
  system_ticks :: u32
  t_info :: timer_info
  alarms :: "timer_alarm list"
  next_alarm_id :: int
  calibrated_frequency :: u32
  t_ports :: "(u16 \<times> u8) list"

definition timer_boot :: timer where
  "timer_boot =
     \<lparr>timer_ticks = 0, timer_ms = 0, current_ticks = 0, system_ticks = 0,
      t_info = \<lparr>ti_ticks = 0, ti_uptime_ms = 0, ti_frequency_hz = 0, ti_initialized = False\<rparr>,
      alarms = replicate MAX_ALARMS \<lparr>trigger_time = 0, al_callback = 0, al_data = 0, al_active = False,
                                     al_repeat = False, al_interval = 0\<rparr>,
      next_alarm_id = 0, calibrated_frequency = 0, t_ports = []\<rparr>"

subsection \<open>Ticks and alarms\<close>

type_synonym 'w callbacks = "u32 \<Rightarrow> u32 \<Rightarrow> timer \<times> 'w \<Rightarrow> timer \<times> 'w"

text \<open>The body of the loop of \<open>timer_check_alarms\<close>; the alarm is read again after the callback.\<close>

definition check_alarm :: "'w callbacks \<Rightarrow> nat \<Rightarrow> timer \<times> 'w \<Rightarrow> (timer \<times> 'w) option" where
  "check_alarm run i s =
     do { a \<leftarrow> rd (alarms (fst s)) i;
          (if al_active a \<and> timer_ms (fst s) \<ge> trigger_time a
           then (let (t, w) = (if al_callback a \<noteq> 0 then run (al_callback a) (al_data a) s else s)
                 in do { b \<leftarrow> rd (alarms t) i;
                         let b' = (if al_repeat b then b\<lparr>trigger_time := timer_ms t + al_interval b\<rparr>
                                   else b\<lparr>al_active := False\<rparr>);
                         as \<leftarrow> wr (alarms t) i b';
                         Some (t\<lparr>alarms := as\<rparr>, w) })
           else Some s) }"

primrec check_alarms :: "'w callbacks \<Rightarrow> nat list \<Rightarrow> timer \<times> 'w \<Rightarrow> (timer \<times> 'w) option" where
  "check_alarms run [] s = Some s"
| "check_alarms run (i # is) s = Option.bind (check_alarm run i s) (check_alarms run is)"

definition timer_check_alarms :: "'w callbacks \<Rightarrow> timer \<times> 'w \<Rightarrow> (timer \<times> 'w) option" where
  "timer_check_alarms run s = check_alarms run [0..<MAX_ALARMS] s"

definition timer_count :: "timer \<Rightarrow> timer" where
  "timer_count t =
     (let tk = timer_ticks t + 1; ms = timer_ms t + TIMER_MS_PER_TICK
      in t\<lparr>timer_ticks := tk, system_ticks := system_ticks t + 1, timer_ms := ms,
           t_info := (t_info t)\<lparr>ti_ticks := tk, ti_uptime_ms := ms\<rparr>\<rparr>)"

definition timer_handler :: "'w callbacks \<Rightarrow> timer \<times> 'w \<Rightarrow> (timer \<times> 'w) option" where
  "timer_handler run s =
     do { (t, w) \<leftarrow> timer_check_alarms run (timer_count (fst s), snd s);
          Some (t\<lparr>current_ticks := current_ticks t + 1\<rparr>, w) }"

definition free_alarm :: "timer \<Rightarrow> nat option" where
  "free_alarm t = find (\<lambda>i. \<not> al_active (alarms t ! i)) [0..<MAX_ALARMS]"

text \<open>The two ways to set an alarm differ in the fields they give it.\<close>

definition put_alarm :: "timer_alarm \<Rightarrow> timer \<Rightarrow> int \<times> timer" where
  "put_alarm a t =
     (case free_alarm t of
        Some i \<Rightarrow> (next_alarm_id t, t\<lparr>alarms := (alarms t)[i := a], next_alarm_id := next_alarm_id t + 1\<rparr>)
      | None \<Rightarrow> (-1, t))"

definition timer_set_alarm :: "u64 \<Rightarrow> u32 \<Rightarrow> u32 \<Rightarrow> timer \<Rightarrow> int \<times> timer" where
  "timer_set_alarm ms_from_now callback data t =
     put_alarm \<lparr>trigger_time = timer_ms t + ms_from_now, al_callback = callback, al_data = data,
                al_active = True, al_repeat = False, al_interval = 0\<rparr> t"

definition timer_set_repeating_alarm :: "u64 \<Rightarrow> u32 \<Rightarrow> u32 \<Rightarrow> timer \<Rightarrow> int \<times> timer" where
  "timer_set_repeating_alarm interval_ms callback data t =
     put_alarm \<lparr>trigger_time = timer_ms t + interval_ms, al_callback = callback, al_data = data,
                al_active = True, al_repeat = True, al_interval = interval_ms\<rparr> t"

definition timer_cancel_alarm :: "int \<Rightarrow> timer \<Rightarrow> timer" where
  "timer_cancel_alarm alarm_id t =
     (if alarm_id \<ge> 0 \<and> alarm_id < int MAX_ALARMS
      then t\<lparr>alarms := (alarms t)[nat alarm_id := (alarms t ! nat alarm_id)\<lparr>al_active := False\<rparr>]\<rparr>
      else t)"

subsection \<open>Set-up\<close>

definition outb :: "u16 \<Rightarrow> u32 \<Rightarrow> timer \<Rightarrow> timer" where
  "outb port v t = t\<lparr>t_ports := t_ports t @ [(port, ucast v)]\<rparr>"

definition program_divisor :: "u32 \<Rightarrow> timer \<Rightarrow> timer" where
  "program_divisor divisor t =
     outb 0x40 (drop_bit 8 divisor AND 0xFF) (outb 0x40 (divisor AND 0xFF) (outb 0x43 0x36 t))"

text \<open>The banner lines printed by \<open>timer_init\<close> and \<open>timer_calibrate\<close>: a prefix, then two \<open>strcpy\<close>s at offset 22.\<close>

definition timer_banner :: "nat \<Rightarrow> char list \<Rightarrow> u32 \<Rightarrow> char list option" where
  "timer_banner len pre freq =
     do { m0 \<leftarrow> strcpy (local_array len) (pre @ [NUL]);
          (freq_str, idx) \<leftarrow> dec_str (unat freq) (local_array 10);
          m1 \<leftarrow> strcpy_to m0 22 freq_str;
          strcpy_to m1 (22 + idx) ('' Hz'' @ [NUL]) }"

definition timer_calibrate :: "timer \<Rightarrow> (timer \<times> char list) option" where
  "timer_calibrate t =
     do { msg \<leftarrow> timer_banner 40 ''[TIMER] Calibrated at '' (ti_frequency_hz (t_info t));
          Some (t\<lparr>calibrated_frequency := ti_frequency_hz (t_info t)\<rparr>, msg) }"

text \<open>The state after \<open>timer_init\<close> and the two lines printed. Dividing by frequency 0 is undefined.\<close>

definition timer_init :: "u32 \<Rightarrow> timer \<Rightarrow> (timer \<times> char list list) option" where
  "timer_init frequency_hz t =
     (if frequency_hz = 0 then None
      else do { let t1 = program_divisor (TIMER_FREQUENCY_HZ div frequency_hz) t;
                let t2 = t1\<lparr>t_info := \<lparr>ti_ticks = 0, ti_uptime_ms = 0, ti_frequency_hz = frequency_hz,
                                       ti_initialized = True\<rparr>,
                            alarms := map (al_active_update (\<lambda>_. False)) (alarms t1)\<rparr>;
                (t3, m1) \<leftarrow> timer_calibrate t2;
                m2 \<leftarrow> timer_banner 50 ''[TIMER] Initialized at '' frequency_hz;
                Some (t3, [m1, m2]) })"

definition timer_set_frequency :: "u32 \<Rightarrow> timer \<Rightarrow> timer" where
  "timer_set_frequency hz t =
     (let hz1 = (if hz < 20 then 20 else hz); hz2 = (if hz1 > 10000 then 10000 else hz1)
      in (program_divisor (TIMER_FREQUENCY_HZ div hz2) t)
           \<lparr>t_info := (t_info t)\<lparr>ti_frequency_hz := hz2\<rparr>\<rparr>)"

subsection \<open>Clocks and waiting\<close>

definition timer_get_ticks :: "timer \<Rightarrow> u64" where "timer_get_ticks t = timer_ticks t"
definition timer_get_ms :: "timer \<Rightarrow> u64" where "timer_get_ms t = timer_ms t"
definition timer_get_frequency :: "timer \<Rightarrow> u32" where "timer_get_frequency t = ti_frequency_hz (t_info t)"

text \<open>
  The waiting loops test a clock and execute \<open>pause\<close>. The clocks are plain static variables, the assembly
  statement names no memory, and so the compiler may load the clock in every iteration or only once,
  before the loop: this is the parameter \<open>reload\<close>, and \<open>seen\<close> is the value the next test compares.
  \<open>tick i\<close> tells whether a timer interrupt arrives during iteration \<open>i\<close>. (A load of a clock is one
  step here; on a 32-bit machine it is two, and an interrupt can come between them.)
\<close>

partial_function (option) timer_wait ::
    "bool \<Rightarrow> (nat \<Rightarrow> bool) \<Rightarrow> (timer \<Rightarrow> u64) \<Rightarrow> u64 \<Rightarrow> 'w callbacks \<Rightarrow> nat \<Rightarrow> u64 \<Rightarrow> timer \<times> 'w \<Rightarrow> (timer \<times> 'w) option" where
  "timer_wait reload tick clk target run i seen s =
     (if seen < target
      then do { s1 \<leftarrow> (if tick i then timer_handler run s else Some s);
                timer_wait reload tick clk target run (Suc i) (if reload then clk (fst s1) else seen) s1 }
      else Some s)"

definition timer_sleep :: "bool \<Rightarrow> (nat \<Rightarrow> bool) \<Rightarrow> u64 \<Rightarrow> 'w callbacks \<Rightarrow> timer \<times> 'w \<Rightarrow> (timer \<times> 'w) option" where
  "timer_sleep reload tick milliseconds run s =
     timer_wait reload tick timer_ms (timer_ms (fst s) + milliseconds) run 0 (timer_ms (fst s)) s"

definition timer_delay_ticks :: "bool \<Rightarrow> (nat \<Rightarrow> bool) \<Rightarrow> u64 \<Rightarrow> 'w callbacks \<Rightarrow> timer \<times> 'w \<Rightarrow> (timer \<times> 'w) option" where
  "timer_delay_ticks reload tick ticks run s =
     timer_wait reload tick timer_ticks (timer_ticks (fst s) + ticks) run 0 (timer_ticks (fst s)) s"

text \<open>The number of \<open>nop\<close>s a delay executes.\<close>

definition timer_delay_us :: "u64 \<Rightarrow> u64" where "timer_delay_us microseconds = microseconds * 3"
definition timer_delay_ms :: "u64 \<Rightarrow> u64" where "timer_delay_ms milliseconds = timer_delay_us (milliseconds * 1000)"

definition timer_get_elapsed :: "u64 \<Rightarrow> u64 \<Rightarrow> timer \<Rightarrow> u64 option" where
  "timer_get_elapsed unit start_ticks t =
     (if ti_frequency_hz (t_info t) = 0 then None
      else Some ((timer_get_ticks t - start_ticks) * unit div ucast (ti_frequency_hz (t_info t))))"

definition timer_get_elapsed_ms :: "u64 \<Rightarrow> timer \<Rightarrow> u64 option" where
  "timer_get_elapsed_ms start_ticks t = timer_get_elapsed 1000 start_ticks t"

definition timer_get_elapsed_us :: "u64 \<Rightarrow> timer \<Rightarrow> u64 option" where
  "timer_get_elapsed_us start_ticks t = timer_get_elapsed 1000000 start_ticks t"

definition timer_calculate_elapsed :: "u64 \<Rightarrow> u64 \<Rightarrow> u64" where
  "timer_calculate_elapsed start_ticks end_ticks = end_ticks - start_ticks"

subsection \<open>Printing times\<close>

definition two_digits :: "nat \<Rightarrow> char list" where
  "two_digits temp =
     (if temp < 10 then [CHR ''0'', digit temp, NUL]
      else [digit (temp div 10), digit (temp mod 10), NUL])"

definition three_digits :: "nat \<Rightarrow> char list" where
  "three_digits ms =
     (if ms < 10 then [CHR ''0'', CHR ''0'', digit ms, NUL]
      else if ms < 100 then [CHR ''0'', digit (ms div 10), digit (ms mod 10), NUL]
      else [digit (ms div 100), digit (ms div 10 mod 10), digit (ms mod 10), NUL])"

text \<open>The two pieces of the uptime string: the days, and \<open>temp_buf\<close> with the time of day.\<close>

definition put_days :: "nat \<Rightarrow> char list \<Rightarrow> char list \<Rightarrow> char list option" where
  "put_days days days_str buffer =
     (if days > 0
      then do { b \<leftarrow> strcpy buffer days_str;
                n \<leftarrow> strlen days_str;
                strcpy_to b n (''d '' @ [NUL]) }
      else Some buffer)"

definition clock_buf :: "nat \<Rightarrow> nat \<Rightarrow> nat \<Rightarrow> char list option" where
  "clock_buf hours minutes seconds =
     do { t0 \<leftarrow> strcpy (local_array 20) (two_digits hours);
          t1 \<leftarrow> strcpy_to t0 2 ('':'' @ [NUL]);
          t2 \<leftarrow> strcpy_to t1 3 (two_digits minutes);
          t3 \<leftarrow> strcpy_to t2 5 ('':'' @ [NUL]);
          strcpy_to t3 6 (two_digits seconds) }"

definition timer_get_uptime_str :: "timer \<Rightarrow> u32 \<Rightarrow> char list \<Rightarrow> char list option" where
  "timer_get_uptime_str t buffer_size buffer =
     (if buffer_size < 20 then Some buffer
      else do {
        let ms = timer_ms t;
        let days = ms div TIMER_DAY_MS;
        let ms1 = ms mod TIMER_DAY_MS;
        let hours = ms1 div TIMER_HOUR_MS;
        let ms2 = ms1 mod TIMER_HOUR_MS;
        let minutes = ms2 div TIMER_MINUTE_MS;
        let ms3 = ms2 mod TIMER_MINUTE_MS;
        let seconds = ms3 div TIMER_SECOND_MS;
        (days_str, idx) \<leftarrow> dec_str (unat days) (local_array 10);
        b0 \<leftarrow> wr buffer 0 NUL;
        b1 \<leftarrow> put_days (unat days) days_str b0;
        temp_buf \<leftarrow> clock_buf (unat hours) (unat minutes) (unat seconds);
        n \<leftarrow> strlen b1;
        strcpy_to b1 n temp_buf })"

definition timer_get_time_str :: "timer \<Rightarrow> u32 \<Rightarrow> char list \<Rightarrow> char list option" where
  "timer_get_time_str t buffer_size buffer =
     (if buffer_size < 15 then Some buffer
      else
        let ms = timer_ms t;
            hours = (ms div TIMER_HOUR_MS) mod 24;
            ms1 = ms mod TIMER_HOUR_MS;
            minutes = ms1 div TIMER_MINUTE_MS;
            ms2 = ms1 mod TIMER_MINUTE_MS;
            seconds = ms2 div TIMER_SECOND_MS;
            ms3 = ms2 mod TIMER_SECOND_MS;
            h = two_digits (unat hours);
            m = two_digits (unat minutes);
            s = two_digits (unat seconds);
            x = three_digits (unat ms3);
            out = [h ! 0, h ! 1, CHR '':'', m ! 0, m ! 1, CHR '':'', s ! 0, s ! 1, CHR ''.'', x ! 0, x ! 1, x ! 2, NUL]
        in if length buffer < 13 then None else Some (out @ drop 13 buffer))"

text \<open>
  \<open>timer_print_info\<close>: the arrays it hands to \<open>printk\<close>, in order (headings left out). It reuses one
  array of 50 bytes for all lines.
\<close>

definition alarms_text :: "nat \<Rightarrow> char list" where
  "alarms_text n = (if n < 10 then [digit n, NUL] else [digit (n div 10), digit (n mod 10), NUL])"

definition timer_print_info :: "timer \<Rightarrow> (char list list) option" where
  "timer_print_info t =
     do { b0 \<leftarrow> strcpy (local_array 50) (''Frequency: '' @ [NUL]);
          (freq_str, idx) \<leftarrow> dec_str (unat (timer_get_frequency t)) (local_array 10);
          b1 \<leftarrow> strcpy_to b0 12 freq_str;
          b2 \<leftarrow> strcpy_to b1 (12 + idx) ('' Hz'' @ [NUL]);
          b3 \<leftarrow> strcpy b2 (''Ticks: '' @ [NUL]);
          (ticks_str, _) \<leftarrow> dec_str (unat (timer_get_ticks t)) (local_array 20);
          b4 \<leftarrow> strcpy_to b3 7 ticks_str;
          b5 \<leftarrow> strcpy b4 (''Uptime: '' @ [NUL]);
          uptime_str \<leftarrow> timer_get_uptime_str t 30 (local_array 30);
          b6 \<leftarrow> strcpy_to b5 8 uptime_str;
          b7 \<leftarrow> strcpy b6 (''Time: '' @ [NUL]);
          time_str \<leftarrow> timer_get_time_str t 15 (local_array 15);
          b8 \<leftarrow> strcpy_to b7 6 time_str;
          b9 \<leftarrow> strcpy b8 (''Active alarms: '' @ [NUL]);
          b10 \<leftarrow> strcpy_to b9 15 (alarms_text (length (filter al_active (alarms t))));
          Some [b2, b4, b6, b8, b10] }"

subsection \<open>Alarms that fall due\<close>

definition alarm_due :: "u64 \<Rightarrow> timer_alarm \<Rightarrow> bool" where
  "alarm_due ms a \<longleftrightarrow> al_active a \<and> trigger_time a \<le> ms"

definition alarm_after :: "u64 \<Rightarrow> timer_alarm \<Rightarrow> timer_alarm" where
  "alarm_after ms a =
     (if alarm_due ms a
      then (if al_repeat a then a\<lparr>trigger_time := ms + al_interval a\<rparr> else a\<lparr>al_active := False\<rparr>) else a)"

text \<open>Callbacks that leave the timer alone.\<close>

definition calls :: "(u32 \<Rightarrow> u32 \<Rightarrow> 'w \<Rightarrow> 'w) \<Rightarrow> 'w callbacks" where
  "calls eff c d s = (fst s, eff c d (snd s))"

definition calls_due :: "(u32 \<Rightarrow> u32 \<Rightarrow> 'w \<Rightarrow> 'w) \<Rightarrow> u64 \<Rightarrow> timer_alarm list \<Rightarrow> 'w \<Rightarrow> 'w" where
  "calls_due eff ms as =
     fold (\<lambda>a. eff (al_callback a) (al_data a)) (filter (\<lambda>a. alarm_due ms a \<and> al_callback a \<noteq> 0) as)"

lemma calls_due_simps:
  "calls_due eff ms [] w = w"
  "calls_due eff ms (a # as) w = calls_due eff ms as (calls_due eff ms [a] w)"
  by (simp_all add: calls_due_def)

lemma check_alarm_at:
  assumes "alarms t = xs @ a # ys"
  shows "check_alarm (calls eff) (length xs) (t, w) =
    Some (t\<lparr>alarms := xs @ alarm_after (timer_ms t) a # ys\<rparr>, calls_due eff (timer_ms t) [a] w)"
proof -
  have "t\<lparr>alarms := xs @ a # ys\<rparr> = t" using assms by simp
  with assms show ?thesis
    by (auto simp: check_alarm_def alarm_after_def alarm_due_def calls_due_def calls_def)
qed

lemma check_alarms_upt:
  "alarms t = xs @ ys \<Longrightarrow> check_alarms (calls eff) [length xs..<length xs + length ys] (t, w) =
     Some (t\<lparr>alarms := xs @ map (alarm_after (timer_ms t)) ys\<rparr>, calls_due eff (timer_ms t) ys w)"
proof (induction ys arbitrary: xs t w)
  case Nil
  then have "t\<lparr>alarms := xs\<rparr> = t" by simp
  then show ?case by (simp add: calls_due_def)
next
  case (Cons a ys)
  let ?b = "alarm_after (timer_ms t) a"
  let ?t = "t\<lparr>alarms := (xs @ [?b]) @ ys\<rparr>"
  let ?w = "calls_due eff (timer_ms t) [a] w"
  have "[length xs..<length xs + length (a # ys)] = length xs # [length (xs @ [?b])..<length (xs @ [?b]) + length ys]"
    by (simp add: upt_conv_Cons del: upt_Suc)
  moreover have "check_alarm (calls eff) (length xs) (t, w) = Some (?t, ?w)"
    using check_alarm_at [OF Cons.prems] by simp
  moreover have "check_alarms (calls eff) [length (xs @ [?b])..<length (xs @ [?b]) + length ys] (?t, ?w) =
      Some (t\<lparr>alarms := xs @ map (alarm_after (timer_ms t)) (a # ys)\<rparr>, calls_due eff (timer_ms t) (a # ys) w)"
    using Cons.IH [of ?t "xs @ [?b]" ?w] by (simp add: calls_due_simps(2) [of _ _ a ys])
  ultimately show ?case by (simp only: check_alarms.simps bind.bind_lunit)
qed

lemma timer_handler_calls:
  assumes "length (alarms t) = MAX_ALARMS"
  shows "timer_handler (calls eff) (t, w) =
    Some ((timer_count t)\<lparr>alarms := map (alarm_after (timer_ms t + 10)) (alarms t),
                         current_ticks := current_ticks t + 1\<rparr>,
          calls_due eff (timer_ms t + 10) (alarms t) w)"
proof -
  have "alarms (timer_count t) = [] @ alarms t" "timer_ms (timer_count t) = timer_ms t + 10"
      "current_ticks (timer_count t) = current_ticks t"
    by (simp_all add: timer_count_def Let_def TIMER_MS_PER_TICK_def)
  with check_alarms_upt [of "timer_count t" "[]" "alarms t" eff w] assms show ?thesis
    by (simp add: timer_handler_def timer_check_alarms_def)
qed

text \<open>
  a timer interrupt advances the clock by 10 milliseconds and fires exactly the alarms that
  are active and due, in the order of the table, each once: one-shot alarms become inactive,
  repeating ones get the next time, the others stay as they are. Afterwards no active alarm is
  overdue, provided repeating alarms have a positive period that does not wrap the clock.
\<close>

theorem timer_tick_fires:
  assumes "length (alarms t) = MAX_ALARMS"
    and "\<And>a. a \<in> set (alarms t) \<Longrightarrow> al_repeat a \<Longrightarrow>
      0 < al_interval a \<and> unat (timer_ms t + 10) + unat (al_interval a) < 2 ^ 64"
  shows "\<exists>t'. timer_handler (calls eff) (t, w) =
      Some (t', fold (\<lambda>a. eff (al_callback a) (al_data a))
        (filter (\<lambda>a. alarm_due (timer_ms t + 10) a \<and> al_callback a \<noteq> 0) (alarms t)) w) \<and>
    timer_ms t' = timer_ms t + 10 \<and> timer_ticks t' = timer_ticks t + 1 \<and>
    alarms t' = map (alarm_after (timer_ms t + 10)) (alarms t) \<and>
    (\<forall>a \<in> set (alarms t'). al_active a \<longrightarrow> timer_ms t' < trigger_time a)"
proof (intro exI conjI)
  let ?ms = "timer_ms t + 10"
  let ?t = "(timer_count t)\<lparr>alarms := map (alarm_after ?ms) (alarms t), current_ticks := current_ticks t + 1\<rparr>"
  show "timer_handler (calls eff) (t, w) = Some (?t, fold (\<lambda>a. eff (al_callback a) (al_data a))
      (filter (\<lambda>a. alarm_due ?ms a \<and> al_callback a \<noteq> 0) (alarms t)) w)"
    using timer_handler_calls [OF assms(1)] by (simp add: calls_due_def)
  show ms: "timer_ms ?t = ?ms" and "timer_ticks ?t = timer_ticks t + 1"
      and "alarms ?t = map (alarm_after ?ms) (alarms t)"
    by (simp_all add: timer_count_def Let_def TIMER_MS_PER_TICK_def)
  show "\<forall>a \<in> set (alarms ?t). al_active a \<longrightarrow> timer_ms ?t < trigger_time a" unfolding ms
  proof (intro ballI impI)
    fix b assume "b \<in> set (alarms ?t)" and act: "al_active b"
    then obtain a where a: "a \<in> set (alarms t)" "b = alarm_after ?ms a" by auto
    show "?ms < trigger_time b"
    proof (cases "al_repeat a")
      case True
      with assms(2) [OF a(1)] have "0 < al_interval a" "unat (?ms + al_interval a) = unat ?ms + unat (al_interval a)"
        using unat_add_lem [of ?ms "al_interval a"] by simp_all
      then have "?ms < ?ms + al_interval a" by (simp add: word_less_nat_alt)
      with a act True show ?thesis by (auto simp: alarm_after_def alarm_due_def split: if_splits)
    next
      case False
      with a act show ?thesis by (auto simp: alarm_after_def alarm_due_def split: if_splits)
    qed
  qed
qed

definition demo_alarm :: "u64 \<Rightarrow> bool \<Rightarrow> u64 \<Rightarrow> timer_alarm" where
  "demo_alarm at rep iv =
     \<lparr>trigger_time = at, al_callback = 7, al_data = 1, al_active = True, al_repeat = rep, al_interval = iv\<rparr>"

definition idle_alarm :: timer_alarm where
  "idle_alarm = \<lparr>trigger_time = 0, al_callback = 0, al_data = 0, al_active = False, al_repeat = False, al_interval = 0\<rparr>"

definition timer_demo :: timer where
  "timer_demo = timer_boot\<lparr>alarms := [demo_alarm 10 False 0, demo_alarm 30 False 0, demo_alarm 5 True 20]
     @ replicate 29 idle_alarm\<rparr>"

lemma alarms_timer_demo:
  "alarms timer_demo = [demo_alarm 10 False 0, demo_alarm 30 False 0, demo_alarm 5 True 20] @ replicate 29 idle_alarm"
  "timer_ms timer_demo = 0"
  by (simp_all add: timer_demo_def timer_boot_def)

theorem timer_tick_fires_witness:
  "\<exists>t'. timer_handler (calls (\<lambda>c d n. n + 1)) (timer_demo, 0 :: nat) = Some (t', 2) \<and>
    timer_ms t' = 10 \<and> al_active (alarms t' ! 1) \<and> trigger_time (alarms t' ! 2) = 30"
proof -
  have "al_repeat a \<Longrightarrow> 0 < al_interval a \<and> unat (timer_ms timer_demo + 10) + unat (al_interval a) < 2 ^ 64"
    if "a \<in> set (alarms timer_demo)" for a
    using that by (auto simp: alarms_timer_demo demo_alarm_def idle_alarm_def)
  moreover have "length (alarms timer_demo) = MAX_ALARMS" by (simp add: alarms_timer_demo MAX_ALARMS_def)
  moreover have "filter (\<lambda>a. alarm_due 10 a \<and> al_callback a \<noteq> 0) (alarms timer_demo) =
      [demo_alarm 10 False 0, demo_alarm 5 True 20]"
    by (simp add: alarms_timer_demo alarm_due_def demo_alarm_def idle_alarm_def)
  moreover have "map (alarm_after 10) (alarms timer_demo) ! 1 = demo_alarm 30 False 0"
      "map (alarm_after 10) (alarms timer_demo) ! 2 = demo_alarm 30 True 20"
    by (simp_all add: alarms_timer_demo alarm_after_def alarm_due_def demo_alarm_def)
  ultimately show ?thesis
    using timer_tick_fires [of timer_demo "\<lambda>c d n. n + 1" "0 :: nat"]
    by (auto simp: alarms_timer_demo(2)) (auto simp: demo_alarm_def)
qed

subsection \<open>Sleeping\<close>

lemma ticks_left: "(b :: nat) < a \<Longrightarrow> (a - b + 9) div 10 = Suc n \<Longrightarrow> (a - (b + 10) + 9) div 10 = n"
  by (cases "b + 10 \<le> a") auto

text \<open>Iterations without an interrupt change nothing, and the next interrupt is looked for from the next iteration.\<close>

lemma timer_wait_idle:
  assumes "i \<le> j" and "\<And>k. i \<le> k \<Longrightarrow> k < j \<Longrightarrow> \<not> tick k"
  shows "timer_wait True tick clk target run i (clk (fst s)) s = timer_wait True tick clk target run j (clk (fst s)) s"
  using assms
proof (induction "j - i" arbitrary: i)
  case (Suc n)
  then have "\<not> tick i" "timer_wait True tick clk target run (Suc i) (clk (fst s)) s = timer_wait True tick clk target run j (clk (fst s)) s"
    by (auto intro!: Suc.hyps(1))
  then show ?case
    by (subst timer_wait.simps) (auto simp: timer_wait.simps [of _ _ _ _ _ j])
qed simp

lemma timer_wait_ms:
  assumes "length (alarms t) = MAX_ALARMS" and "unat target + 10 \<le> 2 ^ 64" and tick: "\<And>i. \<exists>j\<ge>i. tick j"
    and "(unat target - unat (timer_ms t) + 9) div 10 = n"
  shows "\<exists>t' w'. timer_wait True tick timer_ms target (calls eff) i (timer_ms t) (t, w) = Some (t', w') \<and>
    unat (timer_ms t') = unat (timer_ms t) + 10 * n \<and> timer_ticks t' = timer_ticks t + of_nat n"
  using assms(1,2,4)
proof (induction n arbitrary: t w i)
  case 0
  then have "\<not> timer_ms t < target" by (simp add: word_less_nat_alt)
  then show ?case by (subst timer_wait.simps) simp
next
  case (Suc n)
  have lt: "unat (timer_ms t) < unat target"
    by (rule ccontr) (use Suc.prems(3) in simp)
  define j where "j = (LEAST j. i \<le> j \<and> tick j)"
  have "i \<le> j \<and> tick j" unfolding j_def by (rule LeastI_ex) (use tick in blast)
  then have j: "i \<le> j" "tick j" by simp_all
  have idle: "\<not> tick k" if "i \<le> k" "k < j" for k using not_less_Least [of k "\<lambda>j. i \<le> j \<and> tick j"] that by (auto simp: j_def)
  let ?t = "(timer_count t)\<lparr>alarms := map (alarm_after (timer_ms t + 10)) (alarms t), current_ticks := current_ticks t + 1\<rparr>"
  let ?w = "calls_due eff (timer_ms t + 10) (alarms t) w"
  have "timer_ms ?t = timer_ms t + 10" and ticks: "timer_ticks ?t = timer_ticks t + 1"
    by (simp_all add: timer_count_def Let_def TIMER_MS_PER_TICK_def)
  moreover have "unat (timer_ms t + 10) = unat (timer_ms t) + 10"
    using unat_add_lem [of "timer_ms t" 10] lt Suc.prems(2) by simp
  ultimately have ms: "unat (timer_ms ?t) = unat (timer_ms t) + 10" by simp
  have h1: "(unat target - unat (timer_ms ?t) + 9) div 10 = n" unfolding ms by (rule ticks_left [OF lt Suc.prems(3)])
  have h2: "length (alarms ?t) = MAX_ALARMS" using Suc.prems(1) by simp
  from Suc.IH [OF h2 Suc.prems(2) h1, of "Suc j" ?w] obtain t' w' where
      "timer_wait True tick timer_ms target (calls eff) (Suc j) (timer_ms ?t) (?t, ?w) = Some (t', w')"
      and r: "unat (timer_ms t') = unat (timer_ms ?t) + 10 * n" "timer_ticks t' = timer_ticks ?t + of_nat n"
    by (elim exE conjE)
  moreover have "timer_wait True tick timer_ms target (calls eff) i (timer_ms t) (t, w) =
      timer_wait True tick timer_ms target (calls eff) (Suc j) (timer_ms ?t) (?t, ?w)"
  proof -
    have l: "timer_ms t < target" using lt by (simp only: word_less_nat_alt)
    have "timer_wait True tick timer_ms target (calls eff) i (timer_ms t) (t, w) =
        timer_wait True tick timer_ms target (calls eff) j (timer_ms t) (t, w)"
      using timer_wait_idle [where i = i and j = j and tick = tick and clk = timer_ms and s = "(t, w)", unfolded fst_conv, OF j(1)] idle
      by blast
    also have "\<dots> = Option.bind (timer_handler (calls eff) (t, w))
        (\<lambda>s1. timer_wait True tick timer_ms target (calls eff) (Suc j) (timer_ms (fst s1)) s1)"
      using timer_wait.simps [of True tick timer_ms target "calls eff" j "timer_ms t" "(t, w)"] l j(2) by (simp only: if_True)
    finally show ?thesis by (simp only: timer_handler_calls [OF Suc.prems(1)] bind.bind_lunit fst_conv)
  qed
  ultimately have "timer_wait True tick timer_ms target (calls eff) i (timer_ms t) (t, w) = Some (t', w')" by (simp only:)
  moreover have "unat (timer_ms t') = unat (timer_ms t) + 10 * Suc n" using r(1) ms by simp
  moreover have "timer_ticks t' = timer_ticks t + of_nat (Suc n)" using r(2) unfolding ticks by simp
  ultimately show ?case by blast
qed

text \<open>A loop that does not load the clock again does not end once it has begun.\<close>

lemma timer_wait_stale:
  assumes "seen < target"
  shows "timer_wait False tick clk target run i seen s = None"
proof (rule ccontr)
  assume "timer_wait False tick clk target run i seen s \<noteq> None"
  then obtain y where "timer_wait False tick clk target run i seen s = Some y" by blast
  moreover have "\<not> reload \<longrightarrow> \<not> seen < target" if "timer_wait reload tick clk target run i seen s = Some y" for reload tick clk target run i seen s y
    using that
  proof (rule timer_wait.raw_induct [where P = "\<lambda>reload tick clk target run i seen s y. \<not> reload \<longrightarrow> \<not> seen < target", rotated])
    fix f reload tick clk target run i seen s y
    assume ih: "\<And>reload tick clk target run i seen s y. f reload tick clk target run i seen s = Some y \<Longrightarrow> \<not> reload \<longrightarrow> \<not> seen < target"
      and body: "(if seen < target
        then (if tick i then timer_handler run s else Some s) \<bind>
          (\<lambda>s1. f reload tick clk target run (Suc i) (if reload then clk (fst s1) else seen) s1)
        else Some s) = Some y"
    show "\<not> reload \<longrightarrow> \<not> seen < target"
    proof (intro impI notI)
      assume r: "\<not> reload" "seen < target"
      with body obtain s1 where "f reload tick clk target run (Suc i) seen s1 = Some y" by (auto simp: bind_eq_Some_conv)
      from ih [OF this] r show False by simp
    qed
  qed
  ultimately have "\<not> seen < target" by blast
  with assms show False by simp
qed

text \<open>
  C12: when \<open>timer_sleep\<close> returns. Compiled so that the loop loads the clock in every iteration, and as
  long as timer interrupts keep coming and the millisecond clock does not wrap, it returns at the first
  tick at or after the requested time: after the requested number of milliseconds rounded up to whole
  ticks of 10. Compiled so that the clock is loaded once, which the code allows (the clock is not
  volatile and nothing tells the compiler that it changes), it returns for 0 milliseconds only and
  waits for ever otherwise. The callbacks of the alarms leave the timer alone.
\<close>

theorem timer_sleep_returns:
  assumes "length (alarms t) = MAX_ALARMS" and "unat (timer_ms t) + unat m + 10 \<le> 2 ^ 64" and "\<And>i. \<exists>j\<ge>i. tick j"
  shows "(\<exists>t' w'. timer_sleep True tick m (calls eff) (t, w) = Some (t', w') \<and>
      unat (timer_ms t') = unat (timer_ms t) + 10 * ((unat m + 9) div 10) \<and>
      timer_ticks t' = timer_ticks t + of_nat ((unat m + 9) div 10)) \<and>
    timer_sleep False tick m (calls eff) (t, w) = (if m = 0 then Some (t, w) else None)"
proof
  have ms: "unat (timer_ms t + m) = unat (timer_ms t) + unat m"
    using unat_add_lem [of "timer_ms t" m] assms(2) by simp
  with timer_wait_ms [OF assms(1), of "timer_ms t + m" tick "(unat m + 9) div 10" eff 0 w] assms(2,3)
  show "\<exists>t' w'. timer_sleep True tick m (calls eff) (t, w) = Some (t', w') \<and>
      unat (timer_ms t') = unat (timer_ms t) + 10 * ((unat m + 9) div 10) \<and>
      timer_ticks t' = timer_ticks t + of_nat ((unat m + 9) div 10)"
    by (simp add: timer_sleep_def)
  show "timer_sleep False tick m (calls eff) (t, w) = (if m = 0 then Some (t, w) else None)"
  proof (cases "m = 0")
    case True
    then show ?thesis by (simp add: timer_sleep_def) (simp add: timer_wait.simps)
  next
    case False
    then have "0 < unat m" by (simp add: unat_gt_0)
    with ms have "timer_ms t < timer_ms t + m" by (simp add: word_less_nat_alt)
    with False timer_wait_stale show ?thesis by (auto simp: timer_sleep_def)
  qed
qed

text \<open>Every third iteration has a tick.\<close>

theorem timer_sleep_returns_witness:
  "(\<exists>t' w'. timer_sleep True (\<lambda>i. 3 dvd i) 25 (calls (\<lambda>c d n. n + 1)) (timer_demo, 0 :: nat) = Some (t', w') \<and>
      unat (timer_ms t') = 30 \<and> timer_ticks t' = 3) \<and>
   timer_sleep False (\<lambda>i. 3 dvd i) 25 (calls (\<lambda>c d n. n + 1)) (timer_demo, 0 :: nat) = None"
proof -
  have "\<exists>j\<ge>i. 3 dvd j" for i :: nat by (rule exI [of _ "3 * i"]) simp
  from timer_sleep_returns [of timer_demo 25 "\<lambda>i. 3 dvd i" "\<lambda>c d n. n + 1" "0 :: nat", OF _ _ this] show ?thesis
    by (simp add: alarms_timer_demo MAX_ALARMS_def timer_demo_def timer_boot_def)
qed

subsection \<open>The uptime string\<close>

definition two :: "nat \<Rightarrow> char list" where "two n = [digit (n div 10), digit (n mod 10)]"

lemma two_digits_two: "n < 100 \<Longrightarrow> two_digits n = two n @ [NUL]"
  by (simp add: two_digits_def two_def digit_chars)

lemma NUL_digit: "n < 10 \<Longrightarrow> digit n \<noteq> NUL \<and> NUL \<noteq> digit n"
  using digit_not_NUL [of n] by metis

lemma two_cstr: "n < 100 \<Longrightarrow> cstr (two n @ [NUL]) (two n)"
  by (simp add: two_def cstr_simps NUL_digit)

definition hms :: "nat \<Rightarrow> char list" where
  "hms ms = two (ms div 3600000) @ '':'' @ two (ms mod 3600000 div 60000) @ '':'' @ two (ms mod 60000 div 1000)"

definition uptime_text :: "nat \<Rightarrow> char list" where
  "uptime_text ms =
     (let d = ms div 86400000 in (if d > 0 then dec d @ ''d '' else []) @ hms (ms mod 86400000))"

lemma clock_buf_two:
  assumes "a < 100" "b < 100" "c < 100"
  shows "clock_buf a b c = Some ((two a @ '':'' @ two b @ '':'' @ two c) @ NUL # local_array 11)"
proof -
  note c = two_cstr [OF assms(1)] two_cstr [OF assms(2)] two_cstr [OF assms(3)]
  have colon: "cstr ('':'' @ [NUL]) '':''" by (auto simp: cstr_def)
  have len [simp]: "length (two n) = 2" for n by (simp add: two_def)
  have "strcpy (local_array 20) (two a @ [NUL]) = Some (two a @ NUL # local_array 17)"
    using strcpy_to_start [OF c(1), of 20] by simp
  moreover have "strcpy_to (two a @ NUL # local_array 17) 2 ('':'' @ [NUL]) = Some ((two a @ '':'') @ NUL # local_array 16)"
    using strcpy_to_append [OF colon, of 2 "two a" "local_array 17"] by simp
  moreover have "strcpy_to ((two a @ '':'') @ NUL # local_array 16) 3 (two b @ [NUL]) =
      Some ((two a @ '':'' @ two b) @ NUL # local_array 14)"
    using strcpy_to_append [OF c(2), of 3 "two a @ '':''" "local_array 16"] by simp
  moreover have "strcpy_to ((two a @ '':'' @ two b) @ NUL # local_array 14) 5 ('':'' @ [NUL]) =
      Some ((two a @ '':'' @ two b @ '':'') @ NUL # local_array 13)"
    using strcpy_to_append [OF colon, of 5 "two a @ '':'' @ two b" "local_array 14"] by simp
  moreover have "strcpy_to ((two a @ '':'' @ two b @ '':'') @ NUL # local_array 13) 6 (two c @ [NUL]) =
      Some ((two a @ '':'' @ two b @ '':'' @ two c) @ NUL # local_array 11)"
    using strcpy_to_append [OF c(3), of 6 "two a @ '':'' @ two b @ '':''" "local_array 13"] by simp
  ultimately show ?thesis
    by (simp only: clock_buf_def two_digits_two [OF assms(1)] two_digits_two [OF assms(2)] two_digits_two [OF assms(3)] bind.bind_lunit)
qed

lemma hms_bounds: "m < 86400000 \<Longrightarrow> m div 3600000 < 100 \<and> m mod 3600000 div 60000 < 100 \<and> m mod 60000 div 1000 < (100 :: nat)"
  by (simp add: less_mult_imp_div_less)

text \<open>The 64-bit divisions of the code, on natural numbers.\<close>

lemma uptime_fields:
  fixes ms :: u64
  defines "r \<equiv> ms mod TIMER_DAY_MS"
  shows "unat (ms div TIMER_DAY_MS) = unat ms div 86400000"
    and "unat (r div TIMER_HOUR_MS) = unat ms mod 86400000 div 3600000"
    and "unat (r mod TIMER_HOUR_MS div TIMER_MINUTE_MS) = unat ms mod 86400000 mod 3600000 div 60000"
    and "unat (r mod TIMER_HOUR_MS mod TIMER_MINUTE_MS div TIMER_SECOND_MS) = unat ms mod 86400000 mod 60000 div 1000"
  by (simp_all add: r_def TIMER_DAY_MS_def TIMER_HOUR_MS_def TIMER_MINUTE_MS_def TIMER_SECOND_MS_def
      unat_div_distrib unat_mod_distrib mod_mod_cancel)

lemma cstr_hms: "m < 86400000 \<Longrightarrow> cstr (hms m @ NUL # r) (hms m)"
  using hms_bounds [of m] by (auto simp: hms_def two_def cstr_def less_mult_imp_div_less) (simp_all add: NUL_digit less_mult_imp_div_less)

lemma length_hms [simp]: "length (hms n) = 8"
  by (simp add: hms_def two_def)

lemma put_days_text:
  assumes "length (dec d) < 10" and "20 \<le> length (x # rest)"
  defines "b1 \<equiv> (if 0 < d then dec d @ ''d '' else [])"
  shows "put_days d (dec d @ NUL # r) (NUL # rest) = Some (b1 @ NUL # drop (length b1) rest)"
proof (cases "0 < d")
  case True
  have ds: "cstr (dec d @ NUL # r) (dec d)" by (simp add: cstr_def)
  have d': "cstr (''d '' @ [NUL]) ''d ''" by (auto simp: cstr_def)
  have "strcpy (NUL # rest) (dec d @ NUL # r) = Some (dec d @ NUL # drop (length (dec d)) rest)"
    using strcpy_to_append [OF ds, of 0 "[]" rest] assms(1,2) by (simp add: strcpy_to_def strcpy_def)
  moreover have "strlen (dec d @ NUL # r) = Some (length (dec d))"
    using strlen_from_cstr [OF ds, of 0] by (simp add: strlen_def)
  moreover have "strcpy_to (dec d @ NUL # drop (length (dec d)) rest) (length (dec d)) (''d '' @ [NUL]) =
      Some ((dec d @ ''d '') @ NUL # drop (length (dec d) + 2) rest)"
    using strcpy_to_append [OF d', of "length (dec d)" "dec d" "drop (length (dec d)) rest"] assms(1,2)
    by (simp add: add.commute)
  ultimately show ?thesis using True by (simp add: put_days_def b1_def)
qed (simp add: put_days_def b1_def)

lemma uptime_steps:
  assumes "20 \<le> buffer_size" and "20 \<le> length (x # rest)"
    and "length (dec (unat (timer_ms t) div 86400000)) < 10"
  shows "timer_get_uptime_str t buffer_size (x # rest) =
    Some (uptime_text (unat (timer_ms t)) @ NUL # drop (length (uptime_text (unat (timer_ms t)))) rest)"
proof -
  let ?d = "unat (timer_ms t) div 86400000" and ?m = "unat (timer_ms t) mod 86400000"
  define b1 where "b1 = (if 0 < ?d then dec ?d @ ''d '' else [])"
  have lb: "length b1 \<le> 11" using assms(3) by (simp add: b1_def)
  have nb: "NUL \<notin> set b1" by (auto simp: b1_def)
  have m: "?m < 86400000" by simp
  have up: "uptime_text (unat (timer_ms t)) = b1 @ hms ?m" by (simp add: uptime_text_def Let_def b1_def)
  have clk: "clock_buf (?m div 3600000) (?m mod 3600000 div 60000) (?m mod 60000 div 1000) =
      Some (hms ?m @ NUL # local_array 11)"
    using clock_buf_two hms_bounds [OF m] by (simp only: hms_def append_assoc)
  have "strlen (b1 @ NUL # drop (length b1) rest) = Some (length b1)"
    using strlen_from_cstr [OF cstrI [OF nb], of 0] by (simp add: strlen_def)
  moreover have "strcpy_to (b1 @ NUL # drop (length b1) rest) (length b1) (hms ?m @ NUL # local_array 11) =
      Some ((b1 @ hms ?m) @ NUL # drop (length (b1 @ hms ?m)) rest)"
    using strcpy_to_append [OF cstr_hms [OF m, of "local_array 11"] refl, of "drop (length b1) rest" b1] lb assms(2)
    by (simp add: add.commute)
  moreover note put_days_text [OF assms(3,2), of "drop (Suc (length (dec ?d))) (local_array 10)", folded b1_def]
  ultimately show ?thesis
    unfolding timer_get_uptime_str_def Let_def uptime_fields up
    using assms(1,3) clk by (simp add: dec_str_dec leD)
qed

text \<open>
  the uptime string is ``days d hh:mm:ss'' (no days in the first day) and it fits in the 20
  bytes the function insists on, exactly, up to the last day whose number has 9 digits; from
  \<open>10 ^ 9\<close> days on the local array of 10 characters for the days overflows.
\<close>

theorem timer_uptime_fits:
  assumes "20 \<le> buffer_size" and "unat buffer_size \<le> length buffer"
  shows "timer_get_uptime_str t buffer_size buffer =
      (if unat (timer_ms t) div 86400000 < 10 ^ 9
       then Some (uptime_text (unat (timer_ms t)) @ NUL #
         drop (Suc (length (uptime_text (unat (timer_ms t))))) buffer) else None) \<and>
    (unat (timer_ms t) div 86400000 < 10 ^ 9 \<longrightarrow> length (uptime_text (unat (timer_ms t))) < 20)"
    (is "?out \<and> ?fits")
proof (rule conjI)
  let ?d = "unat (timer_ms t) div 86400000"
  have len: "20 \<le> length buffer" using assms by (simp add: word_le_nat_alt)
  then obtain x rest where buf: "buffer = x # rest" by (cases buffer) auto
  have nine: "length (dec ?d) < 10 \<longleftrightarrow> ?d < 10 ^ 9"
    using dec_length_le [of ?d 8] dec_length_ge [of 9 ?d] by (cases "?d < 10 ^ 9") auto
  show ?out
  proof (cases "?d < 10 ^ 9")
    case True
    with uptime_steps [OF assms(1), of x rest t] nine len buf show ?thesis by simp
  next
    case False
    with nine assms(1) show ?thesis
      by (simp add: timer_get_uptime_str_def Let_def uptime_fields dec_str_dec leD)
  qed
  show ?fits
    using nine by (simp add: uptime_text_def Let_def)
qed

theorem timer_uptime_fits_witness:
  "timer_get_uptime_str (timer_boot\<lparr>timer_ms := 93784000\<rparr>) 20 (replicate 20 CHR ''x'') =
     Some (''1d 02:03:04'' @ NUL # replicate 8 CHR ''x'')"
proof -
  have "uptime_text 93784000 = ''1d 02:03:04''"
    by (simp add: uptime_text_def hms_def two_def dec_small digit_chars)
  with timer_uptime_fits [of 20 "replicate 20 CHR ''x''" "timer_boot\<lparr>timer_ms := 93784000\<rparr>"]
  show ?thesis by simp
qed

end
