(* ===== verification/Vfs.thy ===== *)
theory Vfs
  imports PhysMem CString Free_Flag
begin

text \<open>
  The virtual file system, \<open>fs/vfs/vfs.c\<close>: the tree of in-memory nodes with their operation
  tables, path resolution, and the operations on the root file system.

  Nodes live in a store of records indexed by address. The field \<open>ptr\<close> of a node is overloaded in
  the code: in a directory it points to the first child, in a file to the contents; both are
  addresses, and dereferencing one in the wrong store is None. File contents are in a second
  store. \<open>kmalloc\<close> is the allocator of theory \<open>PhysMem\<close>. \<open>kfree\<close> is the store of theory \<open>Free_Flag\<close>:
  it writes a 1 into the word in front of the pointer, into whatever file text lies there, and gives
  no page back; \<open>v_marked\<close> lists the words it has written, in order, as most of them belong to no
  object of the model. The operation tables of file systems mounted elsewhere and of
  \<open>/dev/fb0\<close> are parameters.
\<close>

subsection \<open>State\<close>

definition VFS_NAME_MAX :: int where "VFS_NAME_MAX = 256"
definition VFS_TYPE_FILE :: u32 where "VFS_TYPE_FILE = 1"
definition VFS_TYPE_DIR :: u32 where "VFS_TYPE_DIR = 2"

definition EINVAL :: int where "EINVAL = 22"
definition EEXIST :: int where "EEXIST = 17"
definition ENOENT :: int where "ENOENT = 2"
definition ENOSYS :: int where "ENOSYS = 38"

text \<open>Which table \<open>ops\<close> points to: none, \<open>root_ops\<close>, or that of another driver.\<close>

datatype vfs_ops = OpsNull | OpsRoot | OpsOther nat

record vfs_node =
  v_name :: "char list"
  v_type :: u32
  v_inode :: u32
  v_size :: u32
  v_parent :: u32
  v_ops :: vfs_ops
  v_ptr :: u32
  v_next :: u32

record vfs =
  v_mm :: mm_state
  nodes :: "u32 \<Rightarrow> vfs_node option"
  contents :: "u32 \<Rightarrow> char list option"
  vfs_root :: u32
  vfs_current :: u32
  v_marked :: "u32 list"

definition zero_node :: vfs_node where
  "zero_node = \<lparr>v_name = replicate 256 NUL, v_type = 0, v_inode = 0, v_size = 0, v_parent = 0,
                v_ops = OpsNull, v_ptr = 0, v_next = 0\<rparr>"

definition SIZEOF_NODE :: u32 where "SIZEOF_NODE = 292"

text \<open>Drivers other than the root file system: what their table's functions do.\<close>

record foreign =
  f_finddir :: "nat \<Rightarrow> (u32 \<Rightarrow> char list \<Rightarrow> vfs \<Rightarrow> u32 option) option"
  f_mkdir :: "nat \<Rightarrow> (u32 \<Rightarrow> char list \<Rightarrow> vfs \<Rightarrow> (int \<times> vfs) option) option"
  f_create :: "nat \<Rightarrow> (u32 \<Rightarrow> char list \<Rightarrow> u32 \<Rightarrow> vfs \<Rightarrow> (int \<times> vfs) option) option"
  f_unlink :: "nat \<Rightarrow> (u32 \<Rightarrow> char list \<Rightarrow> vfs \<Rightarrow> (int \<times> vfs) option) option"
  f_read :: "nat \<Rightarrow> (u32 \<Rightarrow> char list \<Rightarrow> u32 \<Rightarrow> u32 \<Rightarrow> vfs \<Rightarrow> (int \<times> char list) option) option"
  f_write :: "nat \<Rightarrow> (u32 \<Rightarrow> char list \<Rightarrow> u32 \<Rightarrow> u32 \<Rightarrow> vfs \<Rightarrow> (int \<times> vfs) option) option"
  f_open :: "nat \<Rightarrow> (u32 \<Rightarrow> u32 \<Rightarrow> vfs \<Rightarrow> (int \<times> vfs) option) option"
  f_close :: "nat \<Rightarrow> (u32 \<Rightarrow> vfs \<Rightarrow> (int \<times> vfs) option) option"
  f_readdir :: "nat \<Rightarrow> (u32 \<Rightarrow> u32 \<Rightarrow> vfs \<Rightarrow> (int \<times> (char list \<times> u32 \<times> u32) option) option) option"

subsection \<open>The root file system\<close>

text \<open>\<open>while (curr) { if (strcmp(curr->name, name) == 0) ...; curr = curr->next; }\<close>\<close>

partial_function (option) find_child ::
    "(u32 \<Rightarrow> vfs_node option) \<Rightarrow> char list \<Rightarrow> u32 \<Rightarrow> u32 \<Rightarrow> (u32 \<times> u32) option" where
  "find_child st name prev cur =
     (if cur = 0 then Some (prev, 0)
      else do { n \<leftarrow> st cur;
                c \<leftarrow> strcmp (v_name n) name;
                (if c = 0 then Some (prev, cur) else find_child st name cur (v_next n)) })"

definition root_finddir :: "u32 \<Rightarrow> char list \<Rightarrow> vfs \<Rightarrow> u32 option" where
  "root_finddir node name s =
     do { n \<leftarrow> nodes s node; (_, c) \<leftarrow> find_child (nodes s) name 0 (v_ptr n); Some c }"

text \<open>The bytes \<open>[offset, offset + size)\<close> of the contents go to the start of the buffer.\<close>

definition root_read :: "u32 \<Rightarrow> char list \<Rightarrow> u32 \<Rightarrow> u32 \<Rightarrow> vfs \<Rightarrow> (int \<times> char list) option" where
  "root_read node buffer sz offset s =
     (if node = 0 then Some (-1, buffer)
      else do { n \<leftarrow> nodes s node;
                (if v_ptr n = 0 then Some (-1, buffer)
                 else if offset \<ge> v_size n then Some (0, buffer)
                 else do { let size1 = (if offset + sz > v_size n then v_size n - offset else sz);
                           src \<leftarrow> contents s (v_ptr n);
                           b \<leftarrow> memcpy buffer (drop (unat offset) src) (sint size1);
                           Some (sint size1, b) }) })"

text \<open>The common part of \<open>root_mkdir\<close>, \<open>root_create\<close> and \<open>vfs_create_binary\<close>: a zeroed node with its
  name, in front of the children of its parent.\<close>

definition new_child ::
    "u32 \<Rightarrow> char list \<Rightarrow> (vfs_node \<Rightarrow> vfs_node option) \<Rightarrow> vfs \<Rightarrow> (int \<times> vfs) option" where
  "new_child node name fill s =
     do { (child, mm) \<leftarrow> kmalloc SIZEOF_NODE (v_mm s);
          (if child = 0 then Some (-1, s\<lparr>v_mm := mm\<rparr>)
           else do { nm \<leftarrow> strncpy (v_name zero_node) name VFS_NAME_MAX;
                     p \<leftarrow> nodes s node;
                     c \<leftarrow> fill (zero_node\<lparr>v_name := nm\<rparr>);
                     let c' = c\<lparr>v_parent := node, v_next := v_ptr p\<rparr>;
                     Some (0, s\<lparr>v_mm := mm,
                       nodes := (nodes s)(child \<mapsto> c', node \<mapsto> p\<lparr>v_ptr := child\<rparr>)\<rparr>) }) }"

definition root_mkdir :: "u32 \<Rightarrow> char list \<Rightarrow> vfs \<Rightarrow> (int \<times> vfs) option" where
  "root_mkdir node name s =
     new_child node name (\<lambda>c. Some (c\<lparr>v_type := VFS_TYPE_DIR, v_ops := OpsRoot\<rparr>)) s"

definition root_create :: "u32 \<Rightarrow> char list \<Rightarrow> u32 \<Rightarrow> vfs \<Rightarrow> (int \<times> vfs) option" where
  "root_create node name content s =
     new_child node name
       (\<lambda>c. do { len \<leftarrow> (if content = 0 then Some 0 else do { b \<leftarrow> contents s content; strlen b });
                 Some (c\<lparr>v_type := VFS_TYPE_FILE, v_size := of_nat len, v_ptr := content, v_ops := OpsRoot\<rparr>) }) s"

text \<open>The entry at an index of the list of children, with the name copied into \<open>dirent\<close>.\<close>

partial_function (option) nth_child :: "(u32 \<Rightarrow> vfs_node option) \<Rightarrow> u32 \<Rightarrow> u32 \<Rightarrow> u32 \<Rightarrow> u32 option" where
  "nth_child st index i cur =
     (if cur \<noteq> 0 \<and> i < index then do { n \<leftarrow> st cur; nth_child st index (i + 1) (v_next n) } else Some cur)"

definition root_readdir :: "u32 \<Rightarrow> u32 \<Rightarrow> vfs \<Rightarrow> (int \<times> (char list \<times> u32 \<times> u32) option) option" where
  "root_readdir node index s =
     do { n \<leftarrow> nodes s node;
          cur \<leftarrow> nth_child (nodes s) index 0 (v_ptr n);
          (if cur \<noteq> 0
           then do { c \<leftarrow> nodes s cur;
                     nm \<leftarrow> strncpy (replicate 256 NUL) (v_name c) VFS_NAME_MAX;
                     Some (0, Some (nm, v_type c, v_inode c)) }
           else Some (-1, None)) }"

text \<open>
  \<open>remove_node\<close> calls \<open>kfree\<close> on a node and, when it is a directory, on everything below it; the walk
  over the children reads \<open>next\<close> before the call. The result is 0 on every path and \<open>kfree\<close> changes
  no field of a node (\<open>free_flag_outside_node\<close>), so the walk gives the addresses that are passed to
  \<open>kfree\<close>, children before their parent, and the calls follow in this order.
\<close>

definition vfs_kfree :: "u32 \<Rightarrow> vfs \<Rightarrow> vfs" where
  "vfs_kfree ptr s =
     (if ptr = 0 then s
      else s\<lparr>contents := kfree_buffers ptr (contents s), v_marked := v_marked s @ [free_flag ptr]\<rparr>)"

lemma vfs_kfree_fields [simp]:
  "nodes (vfs_kfree ptr s) = nodes s" "v_mm (vfs_kfree ptr s) = v_mm s"
  "vfs_root (vfs_kfree ptr s) = vfs_root s" "vfs_current (vfs_kfree ptr s) = vfs_current s"
  "contents (vfs_kfree ptr s) = kfree_buffers ptr (contents s)"
  "ptr \<noteq> 0 \<Longrightarrow> v_marked (vfs_kfree ptr s) = v_marked s @ [free_flag ptr]"
  by (simp_all add: vfs_kfree_def kfree_buffers_def)

partial_function (option) remove_nodes :: "(u32 \<Rightarrow> vfs_node option) \<Rightarrow> u32 \<Rightarrow> u32 list option" where
  "remove_nodes st cur =
     (if cur = 0 then Some []
      else do { n \<leftarrow> st cur;
                below \<leftarrow> (if v_type n = VFS_TYPE_DIR then remove_nodes st (v_ptr n) else Some []);
                rest \<leftarrow> remove_nodes st (v_next n);
                Some (below @ cur # rest) })"

definition remove_node :: "u32 \<Rightarrow> vfs \<Rightarrow> (int \<times> vfs) option" where
  "remove_node node s =
     (if node = 0 then Some (-1, s)
      else do { n \<leftarrow> nodes s node;
                below \<leftarrow> (if v_type n = VFS_TYPE_DIR then remove_nodes (nodes s) (v_ptr n) else Some []);
                Some (0, fold vfs_kfree (below @ [node]) s) })"

definition root_unlink :: "u32 \<Rightarrow> char list \<Rightarrow> vfs \<Rightarrow> (int \<times> vfs) option" where
  "root_unlink node name s =
     (if node = 0 then Some (-1, s)
      else do { n \<leftarrow> nodes s node;
                (prev, cur) \<leftarrow> find_child (nodes s) name 0 (v_ptr n);
                (if cur = 0 \<or> cur = vfs_root s then Some (-1, s)
                 else do { c \<leftarrow> nodes s cur;
                           st \<leftarrow> (if prev \<noteq> 0
                                 then do { p \<leftarrow> nodes s prev; Some ((nodes s)(prev \<mapsto> p\<lparr>v_next := v_next c\<rparr>)) }
                                 else Some ((nodes s)(node \<mapsto> n\<lparr>v_ptr := v_next c\<rparr>)));
                           remove_node cur (s\<lparr>nodes := st\<rparr>) }) })"

subsection \<open>Operation tables\<close>

text \<open>The entry of a node's table for each operation; None is a NULL entry (or no table).\<close>

definition ops_finddir :: "foreign \<Rightarrow> vfs_ops \<Rightarrow> (u32 \<Rightarrow> char list \<Rightarrow> vfs \<Rightarrow> u32 option) option" where
  "ops_finddir fs p = (case p of OpsNull \<Rightarrow> None | OpsRoot \<Rightarrow> Some root_finddir | OpsOther k \<Rightarrow> f_finddir fs k)"

definition ops_mkdir :: "foreign \<Rightarrow> vfs_ops \<Rightarrow> (u32 \<Rightarrow> char list \<Rightarrow> vfs \<Rightarrow> (int \<times> vfs) option) option" where
  "ops_mkdir fs p = (case p of OpsNull \<Rightarrow> None | OpsRoot \<Rightarrow> Some root_mkdir | OpsOther k \<Rightarrow> f_mkdir fs k)"

definition ops_create :: "foreign \<Rightarrow> vfs_ops \<Rightarrow> (u32 \<Rightarrow> char list \<Rightarrow> u32 \<Rightarrow> vfs \<Rightarrow> (int \<times> vfs) option) option" where
  "ops_create fs p = (case p of OpsNull \<Rightarrow> None | OpsRoot \<Rightarrow> Some root_create | OpsOther k \<Rightarrow> f_create fs k)"

definition ops_unlink :: "foreign \<Rightarrow> vfs_ops \<Rightarrow> (u32 \<Rightarrow> char list \<Rightarrow> vfs \<Rightarrow> (int \<times> vfs) option) option" where
  "ops_unlink fs p = (case p of OpsNull \<Rightarrow> None | OpsRoot \<Rightarrow> Some root_unlink | OpsOther k \<Rightarrow> f_unlink fs k)"

definition ops_read ::
    "foreign \<Rightarrow> vfs_ops \<Rightarrow> (u32 \<Rightarrow> char list \<Rightarrow> u32 \<Rightarrow> u32 \<Rightarrow> vfs \<Rightarrow> (int \<times> char list) option) option" where
  "ops_read fs p = (case p of OpsNull \<Rightarrow> None | OpsRoot \<Rightarrow> Some root_read | OpsOther k \<Rightarrow> f_read fs k)"

definition ops_write ::
    "foreign \<Rightarrow> vfs_ops \<Rightarrow> (u32 \<Rightarrow> char list \<Rightarrow> u32 \<Rightarrow> u32 \<Rightarrow> vfs \<Rightarrow> (int \<times> vfs) option) option" where
  "ops_write fs p = (case p of OpsNull \<Rightarrow> None | OpsRoot \<Rightarrow> None | OpsOther k \<Rightarrow> f_write fs k)"

definition ops_open :: "foreign \<Rightarrow> vfs_ops \<Rightarrow> (u32 \<Rightarrow> u32 \<Rightarrow> vfs \<Rightarrow> (int \<times> vfs) option) option" where
  "ops_open fs p = (case p of OpsNull \<Rightarrow> None | OpsRoot \<Rightarrow> None | OpsOther k \<Rightarrow> f_open fs k)"

definition ops_close :: "foreign \<Rightarrow> vfs_ops \<Rightarrow> (u32 \<Rightarrow> vfs \<Rightarrow> (int \<times> vfs) option) option" where
  "ops_close fs p = (case p of OpsNull \<Rightarrow> None | OpsRoot \<Rightarrow> None | OpsOther k \<Rightarrow> f_close fs k)"

definition ops_readdir ::
    "foreign \<Rightarrow> vfs_ops \<Rightarrow> (u32 \<Rightarrow> u32 \<Rightarrow> vfs \<Rightarrow> (int \<times> (char list \<times> u32 \<times> u32) option) option) option" where
  "ops_readdir fs p = (case p of OpsNull \<Rightarrow> None | OpsRoot \<Rightarrow> Some root_readdir | OpsOther k \<Rightarrow> f_readdir fs k)"

text \<open>Dereferencing a node pointer: NULL is not a node.\<close>

definition node_at :: "vfs \<Rightarrow> u32 \<Rightarrow> vfs_node option" where
  "node_at s a = (if a = 0 then None else nodes s a)"

definition vfs_open :: "foreign \<Rightarrow> u32 \<Rightarrow> u32 \<Rightarrow> vfs \<Rightarrow> (int \<times> vfs) option" where
  "vfs_open fs node flags s =
     (if node = 0 then Some (0, s)
      else do { n \<leftarrow> node_at s node;
                (case ops_open fs (v_ops n) of Some f \<Rightarrow> f node flags s | None \<Rightarrow> Some (0, s)) })"

definition vfs_close :: "foreign \<Rightarrow> u32 \<Rightarrow> vfs \<Rightarrow> (int \<times> vfs) option" where
  "vfs_close fs node s =
     (if node = 0 then Some (0, s)
      else do { n \<leftarrow> node_at s node;
                (case ops_close fs (v_ops n) of Some f \<Rightarrow> f node s | None \<Rightarrow> Some (0, s)) })"

definition vfs_read ::
    "foreign \<Rightarrow> u32 \<Rightarrow> char list \<Rightarrow> u32 \<Rightarrow> u32 \<Rightarrow> vfs \<Rightarrow> (int \<times> char list) option" where
  "vfs_read fs node buffer sz offset s =
     (if node = 0 then Some (-1, buffer)
      else do { n \<leftarrow> node_at s node;
                (case ops_read fs (v_ops n) of
                   Some f \<Rightarrow> f node buffer sz offset s | None \<Rightarrow> Some (-1, buffer)) })"

definition vfs_write :: "foreign \<Rightarrow> u32 \<Rightarrow> char list \<Rightarrow> u32 \<Rightarrow> u32 \<Rightarrow> vfs \<Rightarrow> (int \<times> vfs) option" where
  "vfs_write fs node buffer sz offset s =
     (if node = 0 then Some (-1, s)
      else do { n \<leftarrow> node_at s node;
                (case ops_write fs (v_ops n) of
                   Some f \<Rightarrow> f node buffer sz offset s | None \<Rightarrow> Some (-1, s)) })"

definition vfs_readdir ::
    "foreign \<Rightarrow> u32 \<Rightarrow> u32 \<Rightarrow> vfs \<Rightarrow> (int \<times> (char list \<times> u32 \<times> u32) option) option" where
  "vfs_readdir fs node index s =
     (if node = 0 then Some (-1, None)
      else do { n \<leftarrow> node_at s node;
                (if v_type n = VFS_TYPE_DIR
                 then (case ops_readdir fs (v_ops n) of Some f \<Rightarrow> f node index s | None \<Rightarrow> Some (-1, None))
                 else Some (-1, None)) })"

definition vfs_finddir :: "foreign \<Rightarrow> u32 \<Rightarrow> char list \<Rightarrow> vfs \<Rightarrow> u32 option" where
  "vfs_finddir fs node name s =
     (if node = 0 then Some 0
      else do { n \<leftarrow> node_at s node;
                (if v_type n = VFS_TYPE_DIR
                 then (case ops_finddir fs (v_ops n) of Some f \<Rightarrow> f node name s | None \<Rightarrow> Some 0)
                 else Some 0) })"

subsection \<open>Path resolution\<close>

text \<open>
  The loop of \<open>vfs_lookup\<close> over the tokens that \<open>strtok\<close> cuts out of a copy of the path; \<open>part\<close>
  is an offset into that copy.
\<close>

definition SLASH :: "char list" where "SLASH = ''/'' @ [NUL]"

text \<open>Where one component leads; Some None is the early return of NULL.\<close>

definition vfs_enter :: "foreign \<Rightarrow> vfs \<Rightarrow> char list \<Rightarrow> u32 \<Rightarrow> u32 option option" where
  "vfs_enter fs s name cur =
     do { dot \<leftarrow> strcmp name (''.'' @ [NUL]);
          (if dot = 0 then Some (Some cur)
           else do { dotdot \<leftarrow> strcmp name (''..'' @ [NUL]);
                     n \<leftarrow> node_at s cur;
                     (if dotdot = 0 then Some (Some (if v_parent n \<noteq> 0 then v_parent n else cur))
                      else (case ops_finddir fs (v_ops n) of
                              Some f \<Rightarrow> do { c \<leftarrow> f cur name s; Some (if c = 0 then None else Some c) }
                            | None \<Rightarrow> Some None)) }) }"

partial_function (option) vfs_walk ::
    "foreign \<Rightarrow> vfs \<Rightarrow> tok_state \<Rightarrow> nat option \<Rightarrow> u32 \<Rightarrow> u32 option" where
  "vfs_walk fs s ts part cur =
     (case part of
        None \<Rightarrow> Some cur
      | Some p \<Rightarrow>
          do { e \<leftarrow> vfs_enter fs s (drop p (tok_buf ts)) cur;
               (case e of
                  None \<Rightarrow> Some 0
                | Some cur' \<Rightarrow> do { (part', ts') \<leftarrow> strtok None SLASH ts; vfs_walk fs s ts' part' cur' }) })"

definition vfs_lookup :: "foreign \<Rightarrow> char list option \<Rightarrow> vfs \<Rightarrow> u32 option" where
  "vfs_lookup fs path s =
     (case path of
        None \<Rightarrow> Some 0
      | Some p \<Rightarrow>
          do { c \<leftarrow> strcmp p SLASH;
               (if c = 0 then Some (vfs_root s)
                else do { c0 \<leftarrow> rd p 0;
                          let cur = (if c0 = CHR ''/'' then vfs_root s else vfs_current s);
                          t0 \<leftarrow> strncpy (replicate 256 NUL) p 255;
                          tmp_path \<leftarrow> wr t0 255 NUL;
                          (part, ts) \<leftarrow> strtok (Some tmp_path) SLASH \<lparr>tok_buf = [], tok_last = None\<rparr>;
                          vfs_walk fs s ts part cur }) })"

text \<open>
  \<open>vfs_parent_for_path\<close>: the parent node (0 for NULL) and the name left in \<open>name_buf\<close>, an array of
  256 characters in every call.
\<close>

definition put_name :: "char list \<Rightarrow> char list option" where
  "put_name src = do { b \<leftarrow> strncpy (replicate 256 NUL) src VFS_NAME_MAX; wr b 255 NUL }"

definition vfs_parent_for_path :: "foreign \<Rightarrow> char list \<Rightarrow> vfs \<Rightarrow> (u32 \<times> char list) option" where
  "vfs_parent_for_path fs path s =
     do { t0 \<leftarrow> strncpy (replicate 256 NUL) path 255;
          tmp \<leftarrow> wr t0 255 NUL;
          last_slash \<leftarrow> strrchr tmp (CHR ''/'');
          (case last_slash of
             None \<Rightarrow> do { nm \<leftarrow> put_name tmp; Some (vfs_current s, nm) }
           | Some i \<Rightarrow>
               if i = 0 then do { nm \<leftarrow> put_name (drop 1 tmp); Some (vfs_root s, nm) }
               else do { c \<leftarrow> rd tmp (i + 1);
                         (if c = NUL then Some (0, replicate 256 NUL)
                          else do { nm \<leftarrow> put_name (drop (i + 1) tmp);
                                    tmp1 \<leftarrow> wr tmp i NUL;
                                    parent \<leftarrow> vfs_lookup fs (Some tmp1) s;
                                    Some (parent, nm) }) }) }"

subsection \<open>Operations on paths\<close>

definition vfs_mkdir :: "foreign \<Rightarrow> char list option \<Rightarrow> vfs \<Rightarrow> (int \<times> vfs) option" where
  "vfs_mkdir fs path s =
     (case path of
        None \<Rightarrow> Some (- EINVAL, s)
      | Some p \<Rightarrow>
          do { c0 \<leftarrow> rd p 0;
               (if c0 = NUL then Some (- EINVAL, s)
                else do { found \<leftarrow> vfs_lookup fs path s;
                          (if found \<noteq> 0 then Some (- EEXIST, s)
                           else do { (parent, name) \<leftarrow> vfs_parent_for_path fs p s;
                                     (if parent = 0 then Some (- ENOENT, s)
                                      else do { n \<leftarrow> node_at s parent;
                                                (case ops_mkdir fs (v_ops n) of
                                                   Some f \<Rightarrow> f parent name s
                                                 | None \<Rightarrow> Some (- ENOSYS, s)) }) }) }) })"

definition vfs_create :: "foreign \<Rightarrow> char list option \<Rightarrow> u32 \<Rightarrow> vfs \<Rightarrow> (int \<times> vfs) option" where
  "vfs_create fs path content s =
     (case path of
        None \<Rightarrow> Some (-1, s)
      | Some p \<Rightarrow>
          do { c0 \<leftarrow> rd p 0;
               (if c0 = NUL then Some (-1, s)
                else do { (parent, name) \<leftarrow> vfs_parent_for_path fs p s;
                          (if parent = 0 then Some (-1, s)
                           else do { n \<leftarrow> node_at s parent;
                                     (if v_type n \<noteq> VFS_TYPE_DIR then Some (-1, s)
                                      else (case ops_create fs (v_ops n) of
                                              Some f \<Rightarrow> f parent name content s
                                            | None \<Rightarrow> Some (-1, s))) }) }) })"

definition vfs_touch :: "foreign \<Rightarrow> char list option \<Rightarrow> u32 \<Rightarrow> vfs \<Rightarrow> (int \<times> vfs) option" where
  "vfs_touch fs path content s = vfs_create fs path content s"

definition vfs_unlink :: "foreign \<Rightarrow> char list option \<Rightarrow> vfs \<Rightarrow> (int \<times> vfs) option" where
  "vfs_unlink fs path s =
     (case path of
        None \<Rightarrow> Some (-1, s)
      | Some p \<Rightarrow>
          do { len \<leftarrow> strlen p;
               (if len = 0 then Some (-1, s)
                else do { (parent, name) \<leftarrow> vfs_parent_for_path fs p s;
                          (if parent = 0 then Some (-1, s)
                           else do { n \<leftarrow> node_at s parent;
                                     (if v_type n \<noteq> VFS_TYPE_DIR then Some (-1, s)
                                      else (case ops_unlink fs (v_ops n) of
                                              Some f \<Rightarrow> f parent name s
                                            | None \<Rightarrow> Some (-1, s))) }) }) })"

definition vfs_rm :: "foreign \<Rightarrow> char list option \<Rightarrow> vfs \<Rightarrow> (int \<times> vfs) option" where
  "vfs_rm fs path s =
     (case path of
        None \<Rightarrow> Some (-1, s)
      | Some p \<Rightarrow> do { c \<leftarrow> strcmp p SLASH; (if c = 0 then Some (-1, s) else vfs_unlink fs path s) })"

definition vfs_findfile :: "foreign \<Rightarrow> char list option \<Rightarrow> vfs \<Rightarrow> u32 option" where
  "vfs_findfile fs path s =
     do { node \<leftarrow> vfs_lookup fs path s;
          (if node = 0 then Some 0
           else do { n \<leftarrow> node_at s node; Some (if v_type n = VFS_TYPE_FILE then node else 0) }) }"

definition vfs_chdir :: "foreign \<Rightarrow> char list option \<Rightarrow> vfs \<Rightarrow> (int \<times> vfs) option" where
  "vfs_chdir fs path s =
     do { node \<leftarrow> vfs_lookup fs path s;
          (if node = 0 then Some (-1, s)
           else do { n \<leftarrow> node_at s node;
                     Some (if v_type n = VFS_TYPE_DIR then (0, s\<lparr>vfs_current := node\<rparr>) else (-1, s)) }) }"

definition vfs_mount :: "foreign \<Rightarrow> char list option \<Rightarrow> vfs \<Rightarrow> (int \<times> vfs) option" where
  "vfs_mount fs target s =
     do { mount_point \<leftarrow> vfs_lookup fs target s;
          (if mount_point \<noteq> 0 then Some (0, s)
           else do { (r, s1) \<leftarrow> vfs_mkdir fs target s; Some (if r \<noteq> 0 then -1 else 0, s1) }) }"

definition vfs_create_binary :: "char list \<Rightarrow> u32 \<Rightarrow> u32 \<Rightarrow> vfs \<Rightarrow> (int \<times> vfs) option" where
  "vfs_create_binary name buffer sz s =
     (if vfs_current s = 0 then Some (-1, s)
      else new_child (vfs_current s) name
             (\<lambda>c. do { n \<leftarrow> nodes s (vfs_current s);
                       Some (c\<lparr>v_type := VFS_TYPE_FILE, v_size := sz, v_ptr := buffer, v_ops := v_ops n\<rparr>) }) s)"

text \<open>\<open>vfs_init\<close>: the root node, then the standard directories, whose errors are ignored.\<close>

definition system_dirs :: "char list list" where
  "system_dirs = [''/rescue'', ''/sys'', ''/dev'', ''/bin'', ''/usr'', ''/etc'', ''/conf'', ''/kernel'', ''/tmp'',
     ''/mnt'', ''/boot'', ''/home'', ''/lib'', ''/media'', ''/opt'', ''/proc'', ''/run'', ''/sbin'', ''/srv'',
     ''/var'', ''/root'']"

primrec create_dirs :: "foreign \<Rightarrow> char list list \<Rightarrow> vfs \<Rightarrow> vfs option" where
  "create_dirs fs [] s = Some s"
| "create_dirs fs (d # ds) s =
     do { check \<leftarrow> vfs_lookup fs (Some (d @ [NUL])) s;
          s1 \<leftarrow> (if check = 0 then map_option snd (vfs_mkdir fs (Some (d @ [NUL])) s) else Some s);
          create_dirs fs ds s1 }"

definition create_system_tree :: "foreign \<Rightarrow> vfs \<Rightarrow> vfs option" where
  "create_system_tree fs s = create_dirs fs system_dirs s"

definition vfs_init :: "foreign \<Rightarrow> vfs \<Rightarrow> vfs option" where
  "vfs_init fs s =
     do { (root, mm) \<leftarrow> kmalloc SIZEOF_NODE (v_mm s);
          (if root = 0 then Some (s\<lparr>v_mm := mm, vfs_root := 0\<rparr>)
           else do { nm \<leftarrow> strcpy (v_name zero_node) SLASH;
                     create_system_tree fs
                       (s\<lparr>v_mm := mm, vfs_root := root, vfs_current := root,
                          nodes := (nodes s)(root \<mapsto>
                            zero_node\<lparr>v_name := nm, v_type := VFS_TYPE_DIR, v_ops := OpsRoot\<rparr>)\<rparr>) }) }"

text \<open>The working directory: at most 32 names from the node up to the root, then printed downwards.\<close>

primrec cwd_parts :: "nat \<Rightarrow> vfs \<Rightarrow> u32 \<Rightarrow> char list list option" where
  "cwd_parts 0 s cur = Some []"
| "cwd_parts (Suc k) s cur =
     (if cur = 0 \<or> cur = vfs_root s then Some []
      else do { n \<leftarrow> nodes s cur; ps \<leftarrow> cwd_parts k s (v_parent n); Some (v_name n # ps) })"

text \<open>The second loop, on the names in the order it visits them; \<open>rest \<noteq> []\<close> is its test \<open>i > 0\<close>.\<close>

fun cwd_put :: "char list list \<Rightarrow> nat \<Rightarrow> int \<Rightarrow> char list \<Rightarrow> (char list \<times> nat) option" where
  "cwd_put [] pos sz buffer = Some (buffer, pos)"
| "cwd_put (part # rest) pos sz buffer =
     do { len \<leftarrow> strlen part;
          (if int (pos + len + 1) \<ge> sz then Some (buffer, pos)
           else do { t \<leftarrow> memcpy (drop pos buffer) part (int len);
                     let b1 = take pos buffer @ t;
                     (if rest \<noteq> []
                      then do { b2 \<leftarrow> wr b1 (pos + len) (CHR ''/''); cwd_put rest (pos + len + 1) sz b2 }
                      else cwd_put rest (pos + len) sz b1) }) }"

definition vfs_get_cwd :: "u32 \<Rightarrow> vfs \<Rightarrow> char list \<Rightarrow> char list option" where
  "vfs_get_cwd sz s buffer =
     (if vfs_current s = 0 \<or> vfs_current s = vfs_root s then strncpy buffer SLASH (sint sz)
      else do { parts \<leftarrow> cwd_parts 32 s (vfs_current s);
                (b0, pos) \<leftarrow> (if 0 < sint sz then do { b \<leftarrow> wr buffer 0 (CHR ''/''); Some (b, 1) }
                             else Some (buffer, 0));
                (b1, pos1) \<leftarrow> cwd_put (rev parts) pos (sint sz) b0;
                (if int pos1 < sint sz then wr b1 pos1 NUL else wr b1 (unat (sz - 1)) NUL) })"

text \<open>
  \<open>vfs_register_fb0\<close>: the boot information's flags and framebuffer address, the control register,
  and the table of \<open>/dev/fb0\<close> (\<open>fb0_ops\<close>, index 0 of the foreign tables). The result has the physical
  and virtual address of the framebuffer and, when paging is on, the size that is mapped.
\<close>

definition FB_HEIGHT :: u32 where "FB_HEIGHT = 768"
definition FB_PITCH :: u32 where "FB_PITCH = 1024 * (32 div 8)"

definition vfs_register_fb0 ::
    "foreign \<Rightarrow> (u32 \<times> u64) option \<Rightarrow> u32 \<Rightarrow> vfs \<Rightarrow> (u32 \<times> u32 \<times> u32 option \<times> vfs) option" where
  "vfs_register_fb0 fs mbi cr0 s =
     (let phys_vram = (case mbi of
            Some (flags, framebuffer_addr) \<Rightarrow> if bit flags 11 then ucast framebuffer_addr else 0xFD000000
          | None \<Rightarrow> 0xFD000000);
          (virt, mapped) = (if cr0 AND 0x80000000 \<noteq> 0
            then (0x80000000, Some ((FB_HEIGHT * FB_PITCH + 4095) AND NOT 4095))
            else (phys_vram, None))
      in do { dev_node \<leftarrow> vfs_lookup fs (Some (''/dev'' @ [NUL])) s;
              (if dev_node = 0 then Some (phys_vram, virt, mapped, s)
               else do { (fb_node, mm) \<leftarrow> kmalloc SIZEOF_NODE (v_mm s);
                         (if fb_node = 0 then Some (phys_vram, virt, mapped, s\<lparr>v_mm := mm\<rparr>)
                          else do { nm \<leftarrow> strncpy (v_name zero_node) (''fb0'' @ [NUL]) 16;
                                    d \<leftarrow> node_at s dev_node;
                                    Some (phys_vram, virt, mapped, s\<lparr>v_mm := mm,
                                      nodes := (nodes s)
                                        (fb_node \<mapsto> zero_node\<lparr>v_name := nm, v_type := 1,
                                            v_size := FB_HEIGHT * FB_PITCH, v_ops := OpsOther 0,
                                            v_parent := dev_node, v_next := v_ptr d\<rparr>,
                                         dev_node \<mapsto> d\<lparr>v_ptr := fb_node\<rparr>)\<rparr>) }) }) })"

end
