(* ===== verification/CString_Copy.thy ===== *)
theory CString_Copy
  imports CString
begin

text \<open>
  What the copying functions of the string library do on their documented inputs, and the string
  an array holds. The file systems rest on these lemmas.
\<close>

subsection \<open>The string in an array\<close>

definition c_string :: "char list \<Rightarrow> char list" where
  "c_string b = takeWhile (\<lambda>c. c \<noteq> NUL) b"

lemma cstr_c_string: "NUL \<in> set b \<Longrightarrow> cstr b (c_string b)"
proof -
  assume "NUL \<in> set b"
  then have "dropWhile (\<lambda>c. c \<noteq> NUL) b \<noteq> []" by auto
  then obtain c r where d: "dropWhile (\<lambda>c. c \<noteq> NUL) b = c # r" by (cases "dropWhile (\<lambda>c. c \<noteq> NUL) b") auto
  have "c = NUL" using hd_dropWhile [of "\<lambda>c. c \<noteq> NUL" b] d by simp
  with d takeWhile_dropWhile_id [of "\<lambda>c. c \<noteq> NUL" b] have "b = c_string b @ NUL # r" by (simp add: c_string_def)
  moreover have "NUL \<notin> set (c_string b)" by (auto simp: c_string_def dest: set_takeWhileD)
  ultimately show ?thesis unfolding cstr_def by blast
qed

lemma c_string_cstr: "cstr b s \<Longrightarrow> c_string b = s"
proof (induction s arbitrary: b)
  case (Cons c s)
  then show ?case by (auto simp: cstr_simps c_string_def)
qed (auto simp: cstr_simps c_string_def)

lemma cstr_iff: "cstr b s \<longleftrightarrow> NUL \<in> set b \<and> s = c_string b"
proof
  assume "cstr b s"
  moreover from this obtain r where "b = s @ NUL # r" by (auto simp: cstr_def)
  then have "NUL \<in> set b" by (metis in_set_conv_decomp)
  ultimately show "NUL \<in> set b \<and> s = c_string b" using c_string_cstr by blast
qed (auto intro: cstr_c_string)

lemma cstr_unique: "cstr b s \<Longrightarrow> cstr b t \<Longrightarrow> s = t"
proof (induction s arbitrary: b t)
  case Nil then show ?case by (cases t) (auto simp: cstr_simps)
next
  case (Cons c s) then show ?case by (cases t) (auto simp: cstr_simps)
qed

lemma strcmp_eq: "cstr a s \<Longrightarrow> cstr b t \<Longrightarrow> \<exists>r. strcmp a b = Some r \<and> (r = 0 \<longleftrightarrow> s = t)"
  using strcmp_cstr by blast


subsection \<open>Copies\<close>

lemma strncpy_fill_run:
  assumes "i \<le> n" and "n \<le> length d"
  shows "strncpy_fill i n d = Some (take i d @ replicate (n - i) NUL @ drop n d)"
  using assms
proof (induction i n d rule: strncpy_fill.induct)
  case (1 i n d)
  show ?case
  proof (cases "i < n")
    case True
    then have "replicate (n - i) NUL = NUL # replicate (n - Suc i) NUL" by (simp flip: replicate_Suc add: Suc_diff_Suc)
    with True 1 show ?thesis by (subst strncpy_fill.simps) (simp add: take_Suc_conv_app_nth)
  next
    case False
    with 1(2,3) show ?thesis by (subst strncpy_fill.simps) simp
  qed
qed

lemma strncpy_copy_run:
  assumes "cstr src s" and "length s < n" and "n \<le> length d" and "i \<le> length s"
  shows "strncpy_copy i n d src = Some (length s, take i d @ drop i s @ drop (length s) d)"
  using assms(3,4)
proof (induction "length s - i" arbitrary: i d)
  case 0
  with assms(1,2) show ?case by (subst strncpy_copy.simps) (auto simp: cstr_def nth_append)
next
  case (Suc k)
  from assms(1) obtain r where src: "src = s @ NUL # r" "NUL \<notin> set s" by (auto simp: cstr_def)
  have i: "i < length s" "s ! i \<noteq> NUL" using Suc src(2) by (auto simp: in_set_conv_nth)
  have "strncpy_copy i n d src = strncpy_copy (Suc i) n (d[i := s ! i]) src"
    using i assms(2) Suc.prems src(1) by (subst strncpy_copy.simps) (simp add: nth_append)
  also have "\<dots> = Some (length s, take (Suc i) (d[i := s ! i]) @ drop (Suc i) s @ drop (length s) (d[i := s ! i]))"
    using Suc i by (intro Suc.hyps(1)) auto
  finally show ?case using i assms(2) Suc.prems(1) by (simp add: take_Suc_conv_app_nth Cons_nth_drop_Suc)
qed

lemma strncpy_cstr:
  assumes "cstr src s" and "length s < n" and "n \<le> length d"
  shows "strncpy d src (int n) = Some (s @ replicate (n - length s) NUL @ drop n d)"
  using strncpy_copy_run [OF assms, of 0] strncpy_fill_run [of "length s" n "s @ drop (length s) d"] assms
  by (simp add: strncpy_def)

lemma strncpy_copy_full:
  assumes "n \<le> length s" and "NUL \<notin> set s" and "n \<le> length d" and "i \<le> n"
  shows "strncpy_copy i n d (s @ r) = Some (n, take i d @ take (n - i) (drop i s) @ drop n d)"
  using assms(3,4)
proof (induction "n - i" arbitrary: i d)
  case 0
  then show ?case by (subst strncpy_copy.simps) simp
next
  case (Suc k)
  have i: "i < n" "i < length s" "s ! i \<noteq> NUL" using Suc.hyps(2) assms(1,2) by (auto simp: in_set_conv_nth)
  have "strncpy_copy i n d (s @ r) = strncpy_copy (Suc i) n (d[i := s ! i]) (s @ r)"
    using i Suc.prems(1) by (subst strncpy_copy.simps) (simp add: nth_append)
  also have "\<dots> = Some (n, take (Suc i) (d[i := s ! i]) @ take (n - Suc i) (drop (Suc i) s) @ drop n (d[i := s ! i]))"
    using Suc i by (intro Suc.hyps(1)) auto
  also have "take (n - i) (drop i s) = s ! i # take (n - Suc i) (drop (Suc i) s)"
    using i by (simp add: Cons_nth_drop_Suc [symmetric] Suc_diff_Suc [symmetric])
  ultimately show ?case using i Suc.prems(1) by (simp add: take_Suc_conv_app_nth)
qed

lemma strncpy_cut:
  assumes "cstr src s" and "n \<le> length s" and "n \<le> length d"
  shows "strncpy d src (int n) = Some (take n s @ drop n d)"
proof -
  from assms(1) obtain r where "src = s @ NUL # r" "NUL \<notin> set s" by (auto simp: cstr_def)
  then show ?thesis
    using strncpy_copy_full [of n s d 0 "NUL # r"] strncpy_fill_run [of n n "take n s @ drop n d"] assms by (simp add: strncpy_def)
qed

lemma cstr_pad: "NUL \<notin> set s \<Longrightarrow> 0 < k \<Longrightarrow> cstr (s @ replicate k NUL @ r) s"
  by (cases k) (auto simp: cstr_def)

lemma memcpy_loop_run:
  assumes "i \<le> n" and "n \<le> length d" and "n \<le> length s"
  shows "memcpy_loop i n d s = Some (take i d @ drop i (take n s) @ drop n d)"
  using assms
proof (induction i n d s rule: memcpy_loop.induct)
  case (1 i n d s)
  show ?case
  proof (cases "i < n")
    case True
    then have i: "rd s i = Some (s ! i)" "wr d i (s ! i) = Some (d[i := s ! i])" using 1(3,4) by simp_all
    have "memcpy_loop i n d s = memcpy_loop (Suc i) n (d[i := s ! i]) s"
      using True i by (subst memcpy_loop.simps) simp
    also have "\<dots> = Some (take (Suc i) (d[i := s ! i]) @ drop (Suc i) (take n s) @ drop n (d[i := s ! i]))"
      using 1(1) [OF True i] True 1(3,4) by simp
    also have "drop i (take n s) = s ! i # drop (Suc i) (take n s)"
      using True 1(4) by (simp add: Cons_nth_drop_Suc [symmetric])
    ultimately show ?thesis using True 1(3) by (simp add: take_Suc_conv_app_nth)
  next
    case False
    with 1(2) show ?thesis by (subst memcpy_loop.simps) simp
  qed
qed

lemma memcpy_run:
  "n \<le> length d \<Longrightarrow> n \<le> length s \<Longrightarrow> memcpy d s (int n) = Some (take n s @ drop n d)"
  using memcpy_loop_run [of 0 n d s] by (simp add: memcpy_def)

lemma memcpy_negative: "n < 0 \<Longrightarrow> memcpy d s n = Some d"
  by (simp add: memcpy_def memcpy_loop.simps)

text \<open>\<open>strcpy\<close> into an array: the string, its terminator, and what was behind them.\<close>

lemma strcpy_fits:
  assumes "cstr src s" and "length s < length d"
  shows "\<exists>d'. strcpy d src = Some d' \<and> cstr d' s \<and> length d' = length d"
  using strcpy_at_cstr [OF assms(1), of 0 d] assms by (auto simp: strcpy_def cstr_def)

lemma length_wr: "wr d i c = Some d' \<Longrightarrow> length d' = length d"
  by (auto simp: wr_def split: if_splits)

lemma length_strncpy_copy: "strncpy_copy i n d src = Some (j, d') \<Longrightarrow> length d' = length d"
proof (induction i n d src rule: strncpy_copy.induct)
  case (1 i n d src)
  from "1.prems" show ?case
    by (subst (asm) strncpy_copy.simps)
      (auto simp: bind_eq_Some_conv split: if_splits dest!: "1.IH" dest: length_wr)
qed

lemma length_strncpy_fill: "strncpy_fill i n d = Some d' \<Longrightarrow> length d' = length d"
proof (induction i n d rule: strncpy_fill.induct)
  case (1 i n d)
  from "1.prems" show ?case
    by (subst (asm) strncpy_fill.simps)
      (auto simp: bind_eq_Some_conv split: if_splits dest!: "1.IH" dest: length_wr)
qed

lemma length_strncpy: "strncpy d src n = Some d' \<Longrightarrow> length d' = length d"
  by (auto simp: strncpy_def bind_eq_Some_conv) (metis length_strncpy_copy length_strncpy_fill)

text \<open>Filling the start of an array.\<close>

lemma memset_loop_run:
  "i + n \<le> length p \<Longrightarrow> memset_loop i (int n) c p = Some (take i p @ replicate n c @ drop (i + n) p)"
proof (induction n arbitrary: i p)
  case 0
  then show ?case by (subst memset_loop.simps) simp
next
  case (Suc n)
  then have i: "i < length p" by simp
  have "memset_loop (Suc i) (int n) c (p[i := c]) = Some (take (Suc i) (p[i := c]) @ replicate n c @ drop (Suc i + n) (p[i := c]))"
    using Suc.prems by (intro Suc.IH) simp
  moreover have "take (Suc i) (p[i := c]) = take i p @ [c]" using i by (simp add: take_Suc_conv_app_nth)
  ultimately show ?case using i by (subst memset_loop.simps) simp
qed

lemma memset_run:
  assumes "n \<le> length p"
  shows "memset p c (int n) = Some (replicate n (char_of c) @ drop n p)"
  using memset_loop_run [of 0 n p] assms by (simp add: memset_def)

end
