(* ===== verification/Vfs_Spec.thy ===== *)
theory Vfs_Spec
  imports Vfs CString_Copy
begin

text \<open>
  What the virtual file system promises: path resolution visits the components of the path one
  after the other, and a directory of the root file system is an association list from names to
  nodes, with the newest entry first.
\<close>

subsection \<open>Copies of C strings\<close>

text \<open>A path copied into the 256 characters of \<open>tmp_path\<close>.\<close>

lemma tmp_copy:
  assumes "cstr p s" and "length s < 255"
  shows "\<exists>t0 t. strncpy (replicate 256 NUL) p 255 = Some t0 \<and> wr t0 255 NUL = Some t \<and>
    t = s @ replicate (256 - length s) NUL \<and> cstr t s"
proof -
  have "strncpy (replicate 256 NUL) p (int 255) = Some (s @ replicate (255 - length s) NUL @ [NUL])"
    using strncpy_cstr [OF assms, of "replicate 256 NUL"] by simp
  moreover have "replicate (255 - length s) NUL @ [NUL] = replicate (256 - length s) NUL"
    using assms(2) by (simp flip: replicate_Suc add: replicate_append_same Suc_diff_le)
  moreover have "(s @ replicate (256 - length s) NUL)[255 := NUL] = s @ replicate (256 - length s) NUL"
    using assms(2) by (intro list_update_same_conv [THEN iffD2]) (auto simp: nth_append)
  moreover have "cstr (s @ replicate (256 - length s) NUL) s"
    using assms cstr_pad [of s "256 - length s" "[]"] by (auto simp: cstr_def)
  ultimately show ?thesis using assms(2) by (auto simp: wr_Some)
qed

subsection \<open>Tokens\<close>

definition slash :: char where "slash = CHR ''/''"

function path_parts :: "char list \<Rightarrow> char list list" where
  "path_parts s =
     (let r = dropWhile ((=) slash) s
      in if r = [] then [] else takeWhile (\<lambda>c. c \<noteq> slash) r # path_parts (dropWhile (\<lambda>c. c \<noteq> slash) r))"
  by pat_completeness auto
termination
proof (relation "measure length")
  fix s r :: "char list" assume r: "r = dropWhile ((=) slash) s" "r \<noteq> []"
  then have "hd r \<noteq> slash" by (metis hd_dropWhile)
  with r(2) have "length (dropWhile (\<lambda>c. c \<noteq> slash) r) < length r"
    by (cases r) (auto simp: length_dropWhile_le le_imp_less_Suc)
  also have "\<dots> \<le> length s" using r(1) by (simp add: length_dropWhile_le)
  finally show "(dropWhile (\<lambda>c. c \<noteq> slash) r, s) \<in> measure length" by simp
qed simp

declare path_parts.simps [simp del]

lemma strchr_slash: "c \<noteq> NUL \<Longrightarrow> strchr SLASH c = Some (if c = slash then Some 0 else None)"
  by (auto simp: strchr_def SLASH_def slash_def)

lemma drop_ConsD: "drop i xs = x # ys \<Longrightarrow> i < length xs \<and> xs ! i = x \<and> drop (Suc i) xs = ys"
  by (metis Cons_nth_drop_Suc drop_eq_Nil leI list.distinct(1) list.inject)

lemma strtok_skip_run:
  assumes "cstr (drop i buf) r" and "\<And>c. P c \<longleftrightarrow> (c = slash) = member"
  shows "strtok_skip member buf SLASH i = Some (i + length (takeWhile P r))"
  using assms(1)
proof (induction r arbitrary: i)
  case Nil
  then obtain b where "drop i buf = NUL # b" by (auto simp: cstr_simps)
  from drop_ConsD [OF this] have "i < length buf" "buf ! i = NUL" by simp_all
  then show ?case by (subst strtok_skip.simps) simp
next
  case (Cons c r)
  then obtain b where b: "drop i buf = c # b" "cstr b r" "c \<noteq> NUL" by (auto simp: cstr_simps)
  from drop_ConsD [OF b(1)] have i: "i < length buf" "buf ! i = c" "drop (Suc i) buf = b" by simp_all
  have "strtok_skip member buf SLASH (Suc i) = Some (Suc i + length (takeWhile P r))"
    using Cons.IH [of "Suc i"] i b by simp
  then show ?case using i b(3) assms(2)
    by (subst strtok_skip.simps) (auto simp: strchr_slash)
qed

lemma cstr_drop: "cstr b (x @ y) \<Longrightarrow> cstr (drop (length x) b) y"
  by (auto simp: cstr_def)

text \<open>What is left to split: the path components still to come out of \<open>strtok(NULL, "/")\<close>.\<close>

definition tokens_left :: "tok_state \<Rightarrow> char list list \<Rightarrow> bool" where
  "tokens_left ts ps \<longleftrightarrow>
     (case tok_last ts of None \<Rightarrow> ps = []
      | Some i \<Rightarrow> \<exists>r. cstr (drop i (tok_buf ts)) r \<and> path_parts r = ps)"

lemma strtok_tokens:
  assumes "cstr (drop i buf) r"
  shows "case path_parts r of
      [] \<Rightarrow> \<exists>ts. strtok None SLASH \<lparr>tok_buf = buf, tok_last = Some i\<rparr> = Some (None, ts)
    | p # ps \<Rightarrow> \<exists>start ts. strtok None SLASH \<lparr>tok_buf = buf, tok_last = Some i\<rparr> = Some (Some start, ts) \<and>
        cstr (drop start (tok_buf ts)) p \<and> tokens_left ts ps"
proof -
  let ?r1 = "dropWhile ((=) slash) r" and ?j = "i + length (takeWhile ((=) slash) r)"
  have skip1: "strtok_skip True buf SLASH i = Some ?j"
    using strtok_skip_run [OF assms, of "(=) slash" True] by auto
  have at_j: "cstr (drop ?j buf) ?r1"
    using cstr_drop [of "drop i buf" "takeWhile ((=) slash) r" ?r1] assms by (simp add: add.commute)
  show ?thesis
  proof (cases ?r1)
    case Nil
    with at_j obtain b where "drop ?j buf = NUL # b" by (auto simp: cstr_simps)
    from drop_ConsD [OF this] Nil skip1 show ?thesis
      by (simp add: path_parts.simps [of r] strtok_def)
  next
    case (Cons c r')
    with at_j obtain b where b: "drop ?j buf = c # b" "c \<noteq> NUL" by (auto simp: cstr_simps)
    let ?tok = "takeWhile (\<lambda>c. c \<noteq> slash) ?r1" and ?r2 = "dropWhile (\<lambda>c. c \<noteq> slash) ?r1"
    let ?e = "?j + length ?tok"
    have pp: "path_parts r = ?tok # path_parts ?r2" using Cons by (simp add: path_parts.simps [of r])
    have skip2: "strtok_skip False buf SLASH ?j = Some ?e"
      using strtok_skip_run [OF at_j, of "\<lambda>c. c \<noteq> slash" False] by auto
    have at_e: "cstr (drop ?e buf) ?r2"
      using cstr_drop [of "drop ?j buf" ?tok ?r2] at_j by (simp add: add.commute)
    obtain x y where xy: "drop ?e buf = x # y" using at_e by (cases ?r2) (auto simp: cstr_simps)
    note e = drop_ConsD [OF xy]
    have tok: "drop ?j buf = ?tok @ x # y"
    proof -
      have "drop ?j buf = take (length ?tok) (drop ?j buf) @ drop (length ?tok) (drop ?j buf)"
        by (rule append_take_drop_id [symmetric])
      moreover have "take (length ?tok) (drop ?j buf) = ?tok"
      proof -
        from at_j obtain w where "drop ?j buf = ?r1 @ w" by (auto simp: cstr_def)
        then have "drop ?j buf = ?tok @ ?r2 @ w" by (simp flip: append_assoc)
        then show ?thesis by (metis append_eq_conv_conj)
      qed
      ultimately show ?thesis using xy by (simp add: add.commute)
    qed
    have notok: "NUL \<notin> set ?tok" using at_j by (auto simp: cstr_def dest: set_takeWhileD)
    note st = drop_ConsD [OF b(1)]
    show ?thesis
    proof (cases "x = NUL")
      case True
      with at_e xy have "?r2 = []" by (cases ?r2) (auto simp: cstr_simps)
      then have "path_parts ?r2 = []" by (simp only:) (simp add: path_parts.simps)
      then have "tokens_left \<lparr>tok_buf = buf, tok_last = None\<rparr> (path_parts ?r2)" by (simp add: tokens_left_def)
      moreover have "strtok None SLASH \<lparr>tok_buf = buf, tok_last = Some i\<rparr> = Some (Some ?j, \<lparr>tok_buf = buf, tok_last = None\<rparr>)"
        using skip1 skip2 st b(2) e True by (simp add: strtok_def)
      moreover have "cstr (drop ?j buf) ?tok" using tok True notok by (auto simp: cstr_def)
      ultimately show ?thesis unfolding pp list.case
        by (intro exI [of _ ?j] exI [of _ "\<lparr>tok_buf = buf, tok_last = None\<rparr>"]) simp
    next
      case False
      let ?ts = "\<lparr>tok_buf = buf[?e := NUL], tok_last = Some (Suc ?e)\<rparr>"
      have tk1: "strtok None SLASH \<lparr>tok_buf = buf, tok_last = Some i\<rparr> = Some (Some ?j, ?ts)"
        using skip1 skip2 st b(2) e False by (simp add: strtok_def)
      have "drop ?j (buf[?e := NUL]) = ?tok @ NUL # y"
        using tok by (simp add: drop_update_swap list_update_append)
      then have tk2: "cstr (drop ?j (tok_buf ?ts)) ?tok" using notok by (auto simp: cstr_def)
      from at_e xy False obtain r3 where r3: "?r2 = x # r3" "cstr y r3" by (cases ?r2) (auto simp: cstr_simps)
      then have "x = slash" using hd_dropWhile [of "\<lambda>c. c \<noteq> slash" ?r1] by simp
      then have "path_parts ?r2 = path_parts r3"
        using r3(1) by (simp add: path_parts.simps [of "slash # r3"] path_parts.simps [of r3])
      moreover have "drop (Suc ?e) (buf[?e := NUL]) = y" using e by simp
      ultimately have "tokens_left ?ts (path_parts ?r2)" using r3(2) by (auto simp: tokens_left_def)
      with tk1 tk2 show ?thesis unfolding pp list.case by (intro exI [of _ ?j] exI [of _ ?ts]) simp
    qed
  qed
qed

lemma strtok_next:
  assumes "tokens_left ts ps"
  shows "case ps of [] \<Rightarrow> \<exists>ts'. strtok None SLASH ts = Some (None, ts')
    | p # qs \<Rightarrow> \<exists>start ts'. strtok None SLASH ts = Some (Some start, ts') \<and>
        cstr (drop start (tok_buf ts')) p \<and> tokens_left ts' qs"
proof (cases "tok_last ts")
  case None
  with assms show ?thesis by (auto simp: tokens_left_def strtok_def)
next
  case (Some i)
  with assms obtain r where r: "cstr (drop i (tok_buf ts)) r" "path_parts r = ps" by (auto simp: tokens_left_def)
  have ts: "\<lparr>tok_buf = tok_buf ts, tok_last = Some i\<rparr> = ts" using Some by simp
  from strtok_tokens [OF r(1)] show ?thesis unfolding r(2) ts .
qed

subsection \<open>Lookup\<close>

text \<open>Every driver's \<open>finddir\<close> reads its argument as a C string.\<close>

locale name_lookup =
  fixes find :: "u32 \<Rightarrow> char list \<Rightarrow> vfs \<Rightarrow> u32 option"
  assumes by_string: "cstr a x \<Longrightarrow> cstr b x \<Longrightarrow> find n a s = find n b s"
begin

lemma canonical: "cstr a x \<Longrightarrow> find n a s = find n (x @ [NUL]) s"
  by (rule by_string) (auto simp: cstr_def)

end

lemma strcmp_by_string: "cstr a x \<Longrightarrow> cstr b x \<Longrightarrow> cstr c y \<Longrightarrow> (strcmp c a = Some 0) = (strcmp c b = Some 0)"
  using strcmp_eq [of c y a x] strcmp_eq [of c y b x] by auto

lemma strcmp_same: "cstr a x \<Longrightarrow> cstr b x \<Longrightarrow> strcmp c a = strcmp c b"
proof (induction c arbitrary: a b x)
  case Nil
  then show ?case by simp
next
  case (Cons d c)
  show ?case
  proof (cases x)
    case Nil
    with Cons.prems show ?thesis by (auto simp: cstr_simps)
  next
    case (Cons e y)
    with Cons.prems obtain a' b' where "a = e # a'" "cstr a' y" "b = e # b'" "cstr b' y" by (auto simp: cstr_simps)
    with Cons.IH [of a' y b'] show ?thesis by simp
  qed
qed

lemma find_child_imp:
  assumes "find_child st a prev cur = Some y" and "cstr a x" and "cstr b x"
  shows "find_child st b prev cur = Some y"
proof -
  have "cstr a x \<longrightarrow> find_child st b prev cur = Some y"
  proof (rule find_child.raw_induct [where P = "\<lambda>st a prev cur y. cstr a x \<longrightarrow> find_child st b prev cur = Some y",
        OF _ assms(1)], rule impI)
    fix f st a prev cur y
    assume ih: "\<And>st a prev cur y. f st a prev cur = Some y \<Longrightarrow> cstr a x \<longrightarrow> find_child st b prev cur = Some y"
      and body: "(if cur = 0 then Some (prev, 0)
         else st cur \<bind> (\<lambda>n. strcmp (v_name n) a \<bind>
           (\<lambda>c. if c = 0 then Some (prev, cur) else f st a cur (v_next n)))) = Some y"
      and a: "cstr a x"
    show "find_child st b prev cur = Some y"
    proof (cases "cur = 0")
      case True
      with body show ?thesis by (subst find_child.simps) simp
    next
      case False
      with body obtain n c where n: "st cur = Some n" "strcmp (v_name n) a = Some c"
          and y: "(if c = 0 then Some (prev, cur) else f st a cur (v_next n)) = Some y"
        by (auto simp: bind_eq_Some_conv)
      have "strcmp (v_name n) b = Some c" using strcmp_same [OF a assms(3)] n(2) by simp
      with False n(1) y ih [of st a cur "v_next n" y] a show ?thesis
        by (subst find_child.simps) (auto split: if_splits)
    qed
  qed
  with assms(2) show ?thesis by simp
qed

lemma find_child_same:
  assumes "cstr a x" and "cstr b x"
  shows "find_child st a prev cur = find_child st b prev cur"
  using find_child_imp [OF _ assms] find_child_imp [OF _ assms(2,1)] by (metis option.exhaust)

lemma root_finddir_same: "cstr a x \<Longrightarrow> cstr b x \<Longrightarrow> root_finddir n a s = root_finddir n b s"
  using find_child_same [of a x b] by (simp add: root_finddir_def)

interpretation root: name_lookup root_finddir
  by unfold_locales (rule root_finddir_same)

text \<open>A set of tables whose drivers all keep that contract.\<close>

definition drivers_ok :: "foreign \<Rightarrow> bool" where
  "drivers_ok fs \<longleftrightarrow> (\<forall>k f. f_finddir fs k = Some f \<longrightarrow> name_lookup f)"

text \<open>
  Resolution over a list of components, stated over their names: \<open>.\<close> stays, \<open>..\<close> goes to the parent
  (and stays where there is none), any other name is searched by the table of the node, and nothing is
  found in a node without a table or without the entry. Some None is a component that is not there.
\<close>

definition enter_name :: "foreign \<Rightarrow> vfs \<Rightarrow> char list \<Rightarrow> u32 \<Rightarrow> u32 option option" where
  "enter_name fs s p cur =
     (if p = ''.'' then Some (Some cur)
      else do { n \<leftarrow> node_at s cur;
                if p = ''..'' then Some (Some (if v_parent n = 0 then cur else v_parent n))
                else do { child \<leftarrow> (case v_ops n of
                            OpsNull \<Rightarrow> Some 0
                          | OpsRoot \<Rightarrow> root_finddir cur (p @ [NUL]) s
                          | OpsOther k \<Rightarrow> (case f_finddir fs k of None \<Rightarrow> Some 0 | Some f \<Rightarrow> f cur (p @ [NUL]) s));
                          Some (if child = 0 then None else Some child) } })"

primrec resolve :: "foreign \<Rightarrow> vfs \<Rightarrow> char list list \<Rightarrow> u32 \<Rightarrow> u32 option" where
  "resolve fs s [] cur = Some cur"
| "resolve fs s (p # ps) cur =
     do { e \<leftarrow> enter_name fs s p cur;
          (case e of None \<Rightarrow> Some 0 | Some c \<Rightarrow> resolve fs s ps c) }"

lemma vfs_enter_name:
  assumes "cstr a x" and "drivers_ok fs"
  shows "vfs_enter fs s a cur = enter_name fs s x cur"
proof -
  have d: "cstr (''.'' @ [NUL]) ''.''" "cstr (''..'' @ [NUL]) ''..''" by (auto simp: cstr_def)
  obtain r1 r2 where r: "strcmp a (''.'' @ [NUL]) = Some r1" "r1 = 0 \<longleftrightarrow> x = ''.''"
      "strcmp a (''..'' @ [NUL]) = Some r2" "r2 = 0 \<longleftrightarrow> x = ''..''"
    using strcmp_eq [OF assms(1) d(1)] strcmp_eq [OF assms(1) d(2)] by blast
  have root: "root_finddir cur a s = root_finddir cur (x @ [NUL]) s" by (rule root.canonical [OF assms(1)])
  have other: "f cur a s = f cur (x @ [NUL]) s" if "f_finddir fs k = Some f" for k f
    using that assms(2) by (intro name_lookup.canonical [OF _ assms(1)]) (auto simp: drivers_ok_def)
  show ?thesis
  proof (cases "node_at s cur")
    case None
    then show ?thesis unfolding vfs_enter_def enter_name_def r(1,3) bind.bind_lunit using r(2) by simp
  next
    case (Some n)
    then show ?thesis unfolding vfs_enter_def enter_name_def r(1,3) bind.bind_lunit using r(2,4) root other
      by (cases "v_ops n") (auto simp: ops_finddir_def dest!: other split: option.splits)
  qed
qed

lemma vfs_walk_resolve:
  assumes "drivers_ok fs" and "tokens_left ts ps"
    and "case part of None \<Rightarrow> qs = [] | Some i \<Rightarrow> \<exists>p. qs = p # ps \<and> cstr (drop i (tok_buf ts)) p"
  shows "vfs_walk fs s ts part cur = resolve fs s qs cur"
  using assms(2,3)
proof (induction ps arbitrary: ts part cur qs)
  case Nil
  show ?case
  proof (cases part)
    case None
    with Nil(2) show ?thesis by (subst vfs_walk.simps) simp
  next
    case (Some i)
    with Nil(2) obtain p where p: "qs = [p]" "cstr (drop i (tok_buf ts)) p" by auto
    obtain ts' where t: "strtok None SLASH ts = Some (None, ts')" using strtok_next [OF Nil(1)] by auto
    have "vfs_walk fs s ts' None c = Some c" for c by (subst vfs_walk.simps) simp
    with t Some show ?thesis
      by (subst vfs_walk.simps) (simp add: p(1) vfs_enter_name [OF p(2) assms(1)] cong: option.case_cong)
  qed
next
  case (Cons q ps)
  show ?case
  proof (cases part)
    case None
    with Cons(3) show ?thesis by (subst vfs_walk.simps) simp
  next
    case (Some i)
    with Cons(3) obtain p where p: "qs = p # q # ps" "cstr (drop i (tok_buf ts)) p" by auto
    obtain j ts' where t: "strtok None SLASH ts = Some (Some j, ts')" "cstr (drop j (tok_buf ts')) q"
        "tokens_left ts' ps"
      using strtok_next [OF Cons(2)] by auto
    have "vfs_walk fs s ts' (Some j) c = resolve fs s (q # ps) c" for c
      using t by (intro Cons.IH) auto
    with t(1) Some show ?thesis
      by (subst vfs_walk.simps)
        (simp add: p(1) vfs_enter_name [OF p(2) assms(1)] del: resolve.simps cong: option.case_cong add: resolve.simps(2) [of _ _ p])
  qed
qed

lemma strtok_start: "strtok (Some b) d st = strtok None d \<lparr>tok_buf = b, tok_last = Some 0\<rparr>"
  by (simp add: strtok_def)

lemma vfs_lookup_path:
  assumes "cstr p x" and "length x < 255" and "drivers_ok fs"
  shows "vfs_lookup fs (Some p) s =
    resolve fs s (path_parts x) (if x \<noteq> [] \<and> hd x = slash then vfs_root s else vfs_current s)"
proof -
  have sl: "cstr SLASH [slash]" by (auto simp: cstr_def SLASH_def slash_def)
  obtain c where c: "strcmp p SLASH = Some c" "c = 0 \<longleftrightarrow> x = [slash]" using strcmp_eq [OF assms(1) sl] by blast
  show ?thesis
  proof (cases "x = [slash]")
    case True
    moreover have "path_parts [slash] = []" by (simp add: path_parts.simps)
    ultimately show ?thesis using c by (simp add: vfs_lookup_def)
  next
    case False
    have c0: "rd p 0 = Some (if x = [] then NUL else hd x)"
      using assms(1) by (cases x) (auto simp: cstr_simps)
    have ns: "NUL \<noteq> slash" by (simp add: slash_def)
    obtain t0 t where t: "strncpy (replicate 256 NUL) p 255 = Some t0" "wr t0 255 NUL = Some t" "cstr t x"
      using tmp_copy [OF assms(1,2)] by blast
    let ?cur = "if x \<noteq> [] \<and> hd x = slash then vfs_root s else vfs_current s"
    have "vfs_lookup fs (Some p) s =
        do { (part, ts) \<leftarrow> strtok None SLASH \<lparr>tok_buf = t, tok_last = Some 0\<rparr>; vfs_walk fs s ts part ?cur }"
      using c False c0 t(1,2) ns by (simp add: vfs_lookup_def strtok_start slash_def)
    also have "\<dots> = resolve fs s (path_parts x) ?cur"
    proof (cases "path_parts x")
      case Nil
      then obtain ts where "strtok None SLASH \<lparr>tok_buf = t, tok_last = Some 0\<rparr> = Some (None, ts)"
        using strtok_tokens [of 0 t x] t(3) by auto
      moreover have "vfs_walk fs s ts None c = Some c" for c by (subst vfs_walk.simps) simp
      ultimately show ?thesis using Nil by simp
    next
      case (Cons q ps)
      then obtain i ts where "strtok None SLASH \<lparr>tok_buf = t, tok_last = Some 0\<rparr> = Some (Some i, ts)"
          "cstr (drop i (tok_buf ts)) q" "tokens_left ts ps"
        using strtok_tokens [of 0 t x] t(3) by auto
      with Cons vfs_walk_resolve [OF assms(3), where ts = ts and ps = ps and part = "Some i" and qs = "q # ps"] show ?thesis by simp
    qed
    finally show ?thesis .
  qed
qed


subsection \<open>Directories\<close>

primrec children :: "(u32 \<Rightarrow> vfs_node option) \<Rightarrow> u32 \<Rightarrow> (char list \<times> u32) list \<Rightarrow> bool" where
  "children st p [] \<longleftrightarrow> p = 0"
| "children st p (e # es) \<longleftrightarrow> p = snd e \<and> p \<noteq> 0 \<and>
     (\<exists>n. st p = Some n \<and> cstr (v_name n) (fst e) \<and> children st (v_next n) es)"

definition dir :: "vfs \<Rightarrow> u32 \<Rightarrow> (char list \<times> u32) list \<Rightarrow> bool" where
  "dir s d es \<longleftrightarrow> d \<noteq> 0 \<and> distinct (d # map snd es) \<and>
     (\<exists>n. nodes s d = Some n \<and> v_type n = VFS_TYPE_DIR \<and> v_ops n = OpsRoot \<and>
        children (nodes s) (v_ptr n) es)"

lemma children_other [simp]: "a \<notin> snd ` set es \<Longrightarrow> children (st(a := v)) p es = children st p es"
  by (induction es arbitrary: p) auto

lemma children_in: "children st p es \<Longrightarrow> (x, a) \<in> set es \<Longrightarrow> a \<noteq> 0 \<and> (\<exists>n. st a = Some n \<and> cstr (v_name n) x)"
  by (induction es arbitrary: p) auto

definition lookup_name :: "(char list \<times> u32) list \<Rightarrow> char list \<Rightarrow> u32" where
  "lookup_name es x = (case map_of es x of None \<Rightarrow> 0 | Some a \<Rightarrow> a)"

lemma find_child_children:
  assumes "children st p es" and "cstr b x"
  shows "find_child st b q p =
    Some (last (q # map snd (takeWhile (\<lambda>e. fst e \<noteq> x) es)), lookup_name es x)"
  using assms(1)
proof (induction es arbitrary: p q)
  case Nil
  then show ?case by (subst find_child.simps) (simp add: lookup_name_def)
next
  case (Cons e es)
  then obtain n where n: "st p = Some n" "cstr (v_name n) (fst e)" "children st (v_next n) es" "p = snd e" "p \<noteq> 0"
    by auto
  obtain c where c: "strcmp (v_name n) b = Some c" "c = 0 \<longleftrightarrow> fst e = x" using strcmp_eq [OF n(2) assms(2)] by blast
  have f: "find_child st b q p = (if fst e = x then Some (q, p) else find_child st b p (v_next n))"
    using n c by (subst find_child.simps) simp
  show ?case
  proof (cases "fst e = x")
    case True
    with f n(4) show ?thesis by (cases e) (auto simp: lookup_name_def)
  next
    case False
    with f n(4) Cons.IH [OF n(3), of p] show ?thesis by (cases e) (auto simp: lookup_name_def)
  qed
qed

lemma root_finddir_dir: "dir s d es \<Longrightarrow> cstr b x \<Longrightarrow> root_finddir d b s = Some (lookup_name es x)"
  by (auto simp: dir_def root_finddir_def find_child_children)

text \<open>What \<open>root_mkdir\<close> and \<open>root_create\<close> have in common.\<close>

lemma new_child_dir:
  assumes "dir s d es" and "cstr b x" and "length x < 256"
    and "kmalloc SIZEOF_NODE (v_mm s) = Some (c, mm)" and "c \<noteq> 0" and "c \<noteq> d" and "c \<notin> snd ` set es"
    and "fill (zero_node\<lparr>v_name := x @ replicate (256 - length x) NUL\<rparr>) = Some n0"
    and "v_name n0 = x @ replicate (256 - length x) NUL"
  shows "\<exists>s'. new_child d b fill s = Some (0, s') \<and> dir s' d ((x, c) # es) \<and> v_mm s' = mm \<and>
    (\<exists>p. nodes s' c = Some (n0\<lparr>v_parent := d, v_next := p\<rparr>)) \<and>
    contents s' = contents s \<and> vfs_root s' = vfs_root s \<and> vfs_current s' = vfs_current s"
proof -
  obtain n where n: "nodes s d = Some n" "v_type n = VFS_TYPE_DIR" "v_ops n = OpsRoot"
      "children (nodes s) (v_ptr n) es" "d \<noteq> 0" "distinct (d # map snd es)"
    using assms(1) by (auto simp: dir_def)
  have nm: "strncpy (v_name zero_node) b VFS_NAME_MAX = Some (x @ replicate (256 - length x) NUL)"
    using strncpy_cstr [OF assms(2,3), of "replicate 256 NUL"] by (simp add: zero_node_def VFS_NAME_MAX_def)
  have cx: "cstr (x @ replicate (256 - length x) NUL) x"
    using assms(2,3) cstr_pad [of x "256 - length x" "[]"] by (auto simp: cstr_def)
  let ?c = "n0\<lparr>v_parent := d, v_next := v_ptr n\<rparr>"
  let ?s = "s\<lparr>v_mm := mm, nodes := (nodes s)(c \<mapsto> ?c, d \<mapsto> n\<lparr>v_ptr := c\<rparr>)\<rparr>"
  have "new_child d b fill s = Some (0, ?s)"
    using assms(4,5,8) nm n(1) by (simp add: new_child_def)
  moreover have "dir ?s d ((x, c) # es)"
    using n assms(5-7,9) cx by (auto simp: dir_def fun_upd_twist)
  ultimately show ?thesis using assms(6) by (intro exI [of _ ?s]) auto
qed

text \<open>Removing the first entry with a given name.\<close>

fun drop_name :: "char list \<Rightarrow> (char list \<times> u32) list \<Rightarrow> (char list \<times> u32) list" where
  "drop_name x [] = []"
| "drop_name x (e # es) = (if fst e = x then es else e # drop_name x es)"

lemma drop_name_subset: "snd ` set (drop_name x es) \<subseteq> snd ` set es"
  by (induction es) auto

lemma distinct_drop_name: "distinct (map snd es) \<Longrightarrow> distinct (map snd (drop_name x es))"
  using drop_name_subset [of x] by (induction es) fastforce+

text \<open>Unlinking a node from the middle of a list of children.\<close>

lemma children_unlink:
  assumes "children st p (pre @ (y, q) # (x, a) # post)" and "distinct (map snd (pre @ (y, q) # (x, a) # post))"
    and "st q = Some n" and "st a = Some c"
  shows "children (st(q \<mapsto> n\<lparr>v_next := v_next c\<rparr>)) p (pre @ (y, q) # post)"
  using assms(1,2) by (induction pre arbitrary: p) (use assms(3,4) in auto)

lemma lookup_name_split:
  assumes "lookup_name es x \<noteq> 0"
  shows "\<exists>pre post. es = pre @ (x, lookup_name es x) # post \<and> takeWhile (\<lambda>e. fst e \<noteq> x) es = pre \<and>
    drop_name x es = pre @ post"
  using assms
proof (induction es)
  case (Cons e es)
  show ?case
  proof (cases "fst e = x")
    case True
    then show ?thesis by (cases e) (auto simp: lookup_name_def intro: exI [of _ "[]"])
  next
    case False
    then have "lookup_name (e # es) x = lookup_name es x" by (cases e) (simp add: lookup_name_def)
    with Cons obtain pre post where "es = pre @ (x, lookup_name es x) # post"
        "takeWhile (\<lambda>e. fst e \<noteq> x) es = pre" "drop_name x es = pre @ post" by auto
    with False \<open>lookup_name (e # es) x = lookup_name es x\<close> show ?thesis
      by (intro exI [of _ "e # pre"] exI [of _ post]) simp
  qed
qed (simp add: lookup_name_def)

lemma root_unlink_dir:
  assumes "dir s d es" and "cstr b x" and "lookup_name es x = a" and "a \<noteq> 0" and "a \<noteq> vfs_root s"
    and "nodes s a = Some c" and "v_type c \<noteq> VFS_TYPE_DIR \<or> v_ptr c = 0"
  shows "\<exists>s'. root_unlink d b s = Some (0, s') \<and> dir s' d (drop_name x es) \<and>
    v_marked s' = v_marked s @ [free_flag a] \<and> contents s' = kfree_buffers a (contents s) \<and> v_mm s' = v_mm s"
proof -
  obtain n where n: "nodes s d = Some n" "v_type n = VFS_TYPE_DIR" "v_ops n = OpsRoot"
      "children (nodes s) (v_ptr n) es" "d \<noteq> 0" "distinct (d # map snd es)"
    using assms(1) by (auto simp: dir_def)
  obtain pre post where sp: "es = pre @ (x, a) # post" "takeWhile (\<lambda>e. fst e \<noteq> x) es = pre" "drop_name x es = pre @ post"
    using lookup_name_split assms(3,4) by blast
  have fc: "find_child (nodes s) b 0 (v_ptr n) = Some (last (0 # map snd pre), a)"
    using find_child_children [OF n(4) assms(2), of 0] sp(2) assms(3) by simp
  have freed: "remove_node a (s\<lparr>nodes := st\<rparr>) = Some (0, vfs_kfree a (s\<lparr>nodes := st\<rparr>))"
    if "st a = Some c" for st
  proof -
    have "remove_nodes st 0 = Some []" by (subst remove_nodes.simps) simp
    with that assms(4,7) show ?thesis by (auto simp: remove_node_def)
  qed
  show ?thesis
  proof (cases pre rule: rev_cases)
    case Nil
    then have ch: "v_ptr n = a" "children (nodes s) (v_next c) post" using n(4) sp(1) assms(6) by auto
    let ?st = "(nodes s)(d \<mapsto> n\<lparr>v_ptr := v_next c\<rparr>)"
    have "a \<noteq> d" using n(6) sp(1) by auto
    then have "root_unlink d b s = Some (0, vfs_kfree a (s\<lparr>nodes := ?st\<rparr>))"
      using n(1,5) fc Nil assms(4-6) freed [of ?st] by (simp add: root_unlink_def)
    moreover have "dir (vfs_kfree a (s\<lparr>nodes := ?st\<rparr>)) d (drop_name x es)"
      using n ch sp Nil by (auto simp: dir_def)
    ultimately show ?thesis using assms(4) by (intro exI [of _ "vfs_kfree a (s\<lparr>nodes := ?st\<rparr>)"]) simp
  next
    case (snoc pre' e)
    obtain y q where e: "e = (y, q)" by (cases e)
    have inq: "(y, q) \<in> set es" using sp(1) snoc e by simp
    from children_in [OF n(4) inq] obtain m where m: "nodes s q = Some m" "q \<noteq> 0" by blast
    have ne: "q \<noteq> d" "q \<noteq> a" using n(6) sp(1) snoc e by auto
    let ?st = "(nodes s)(q \<mapsto> m\<lparr>v_next := v_next c\<rparr>)"
    have "root_unlink d b s = Some (0, vfs_kfree a (s\<lparr>nodes := ?st\<rparr>))"
      using n(1,5) fc snoc e m ne assms(4-6) freed [of ?st] by (simp add: root_unlink_def)
    moreover have "children ?st (v_ptr n) (pre' @ (y, q) # post)"
      using children_unlink [of "nodes s" "v_ptr n" pre' y q x a post m c] n(4,6) sp(1) snoc e m(1) assms(6) by simp
    then have "dir (vfs_kfree a (s\<lparr>nodes := ?st\<rparr>)) d (drop_name x es)"
      using n ne sp snoc e by (auto simp: dir_def)
    ultimately show ?thesis using assms(4) by (intro exI [of _ "vfs_kfree a (s\<lparr>nodes := ?st\<rparr>)"]) simp
  qed
qed

lemma root_unlink_missing:
  assumes "dir s d es" and "cstr b x" and "lookup_name es x = 0"
  shows "root_unlink d b s = Some (-1, s)"
proof -
  obtain n where "nodes s d = Some n" "children (nodes s) (v_ptr n) es" "d \<noteq> 0"
    using assms(1) by (auto simp: dir_def)
  with find_child_children [OF this(2) assms(2), of 0] assms(3) show ?thesis by (simp add: root_unlink_def)
qed

lemma root_mkdir_dir:
  assumes "dir s d es" and "cstr b x" and "length x < 256"
    and "kmalloc SIZEOF_NODE (v_mm s) = Some (c, mm)" and "c \<noteq> 0" and "c \<noteq> d" and "c \<notin> snd ` set es"
  shows "\<exists>s'. root_mkdir d b s = Some (0, s') \<and> dir s' d ((x, c) # es)"
  using new_child_dir [OF assms, of "\<lambda>c. Some (c\<lparr>v_type := VFS_TYPE_DIR, v_ops := OpsRoot\<rparr>)"]
  unfolding root_mkdir_def by auto

lemma root_create_dir:
  assumes "dir s d es" and "cstr b x" and "length x < 256"
    and "kmalloc SIZEOF_NODE (v_mm s) = Some (c, mm)" and "c \<noteq> 0" and "c \<noteq> d" and "c \<notin> snd ` set es"
    and "contents s data = Some (body @ [NUL])" and "data \<noteq> 0" and "NUL \<notin> set body"
  shows "\<exists>s'. root_create d b data s = Some (0, s') \<and> dir s' d ((x, c) # es) \<and>
    contents s' = contents s \<and> vfs_root s' = vfs_root s \<and> vfs_current s' = vfs_current s \<and>
    (\<exists>n. nodes s' c = Some n \<and> v_type n = VFS_TYPE_FILE \<and> v_size n = of_nat (length body) \<and>
       v_ptr n = data \<and> v_ops n = OpsRoot)"
proof -
  let ?n0 = "zero_node\<lparr>v_name := x @ replicate (256 - length x) NUL, v_type := VFS_TYPE_FILE,
      v_size := of_nat (length body), v_ptr := data, v_ops := OpsRoot\<rparr>"
  have "strlen (body @ [NUL]) = Some (length body)"
    using strlen_from_cstr [OF cstrI [OF assms(10)], of 0] by (simp add: strlen_def)
  then show ?thesis
    using new_child_dir [OF assms(1-7), of "\<lambda>c. do { len \<leftarrow> (if data = 0 then Some 0 else do { b \<leftarrow> contents s data; strlen b });
        Some (c\<lparr>v_type := VFS_TYPE_FILE, v_size := of_nat len, v_ptr := data, v_ops := OpsRoot\<rparr>) }" ?n0] assms(8,9)
    unfolding root_create_def by auto
qed

text \<open>
  C11: a directory of the root file system refines an association list from names to nodes.
  \<open>finddir\<close> is lookup (0 when there is no entry); \<open>mkdir\<close> and \<open>create\<close> put a new entry in front,
  shadowing an older one with the same name; \<open>unlink\<close> takes out the first entry with the name and
  refuses a name that is not there. \<open>unlink\<close> hands the node to \<open>kfree\<close>, which gives nothing back: the
  page allocator is as before, and a 1 is written into the word in front of the node, over the bytes of
  any file text that lie there (\<open>kfree_buffers\<close>). The name is shorter than 256 characters, the entry
  unlinked is a file or an empty directory and not the root, and the page allocator has a page for the
  new node that is none of the directory's.
\<close>

theorem vfs_dir_refines:
  assumes "dir s d es" and "cstr b x" and "length x < 256"
    and "kmalloc SIZEOF_NODE (v_mm s) = Some (c, mm)" and "c \<noteq> 0" and "c \<notin> insert d (snd ` set es)"
    and "contents s data = Some (body @ [NUL])" and "data \<noteq> 0" and "NUL \<notin> set body"
  shows "root_finddir d b s = Some (lookup_name es x) \<and>
    (\<exists>s'. root_mkdir d b s = Some (0, s') \<and> dir s' d ((x, c) # es)) \<and>
    (\<exists>s' n. root_create d b data s = Some (0, s') \<and> dir s' d ((x, c) # es) \<and> nodes s' c = Some n \<and>
       v_type n = VFS_TYPE_FILE \<and> v_size n = of_nat (length body) \<and> v_ptr n = data) \<and>
    (if lookup_name es x = 0 then root_unlink d b s = Some (-1, s)
     else \<forall>n. nodes s (lookup_name es x) = Some n \<and> lookup_name es x \<noteq> vfs_root s \<and>
         (v_type n \<noteq> VFS_TYPE_DIR \<or> v_ptr n = 0) \<longrightarrow>
       (\<exists>s'. root_unlink d b s = Some (0, s') \<and> dir s' d (drop_name x es) \<and>
          v_marked s' = v_marked s @ [free_flag (lookup_name es x)] \<and>
          contents s' = kfree_buffers (lookup_name es x) (contents s) \<and> v_mm s' = v_mm s))"
proof (intro conjI)
  have c: "c \<noteq> d" "c \<notin> snd ` set es" using assms(6) by auto
  show "root_finddir d b s = Some (lookup_name es x)" by (rule root_finddir_dir [OF assms(1,2)])
  show "\<exists>s'. root_mkdir d b s = Some (0, s') \<and> dir s' d ((x, c) # es)"
    by (rule root_mkdir_dir [OF assms(1-5) c])
  show "\<exists>s' n. root_create d b data s = Some (0, s') \<and> dir s' d ((x, c) # es) \<and> nodes s' c = Some n \<and>
      v_type n = VFS_TYPE_FILE \<and> v_size n = of_nat (length body) \<and> v_ptr n = data"
    using root_create_dir [OF assms(1-5) c assms(7-9)] by (elim exE conjE) (intro exI conjI)
  show "if lookup_name es x = 0 then root_unlink d b s = Some (-1, s)
     else \<forall>n. nodes s (lookup_name es x) = Some n \<and> lookup_name es x \<noteq> vfs_root s \<and>
         (v_type n \<noteq> VFS_TYPE_DIR \<or> v_ptr n = 0) \<longrightarrow>
       (\<exists>s'. root_unlink d b s = Some (0, s') \<and> dir s' d (drop_name x es) \<and>
          v_marked s' = v_marked s @ [free_flag (lookup_name es x)] \<and>
          contents s' = kfree_buffers (lookup_name es x) (contents s) \<and> v_mm s' = v_mm s)"
    using root_unlink_missing [OF assms(1,2)] root_unlink_dir [OF assms(1,2) refl] by auto
qed

definition vfs_demo_mm :: mm_state where
  "vfs_demo_mm = mm_boot\<lparr>bitmap := [0], protection_bitmap := [0], total_pages := 2, initialized := True,
     phys_limit_start := 0x10000\<rparr>"

definition vfs_demo_node :: "char list \<Rightarrow> vfs_node" where
  "vfs_demo_node nm = zero_node\<lparr>v_name := nm @ [NUL], v_ops := OpsRoot\<rparr>"

text \<open>A root at 1 with the file \<open>a\<close> at 2; the string \<open>hi\<close> is at 5.\<close>

definition vfs_demo :: vfs where
  "vfs_demo = \<lparr>v_mm = vfs_demo_mm,
     nodes = [1 \<mapsto> (vfs_demo_node ''/'')\<lparr>v_type := VFS_TYPE_DIR, v_ptr := 2\<rparr>,
              2 \<mapsto> (vfs_demo_node ''a'')\<lparr>v_type := VFS_TYPE_FILE, v_parent := 1, v_ptr := 5, v_size := 2\<rparr>],
     contents = [5 \<mapsto> ''hi'' @ [NUL]], vfs_root = 1, vfs_current = 1, v_marked = []\<rparr>"

definition no_drivers :: foreign where
  "no_drivers = \<lparr>f_finddir = \<lambda>_. None, f_mkdir = \<lambda>_. None, f_create = \<lambda>_. None, f_unlink = \<lambda>_. None,
     f_read = \<lambda>_. None, f_write = \<lambda>_. None, f_open = \<lambda>_. None, f_close = \<lambda>_. None, f_readdir = \<lambda>_. None\<rparr>"

lemma demo_kmalloc: "\<exists>mm. kmalloc SIZEOF_NODE vfs_demo_mm = Some (0x10000, mm)"
proof -
  have "unat (pages_for SIZEOF_NODE) = 1" by (simp add: pages_for_def SIZEOF_NODE_def PAGE_SIZE_def)
  moreover have "page_available 0 vfs_demo_mm = Some True"
    by (simp add: page_available_def mm_get_bit_def mm_get_protected_def vfs_demo_mm_def mm_boot_def)
  moreover have "kmalloc_scan 0 2 0 1 vfs_demo_mm = Some (Some 0)"
    using calculation(2) by (subst kmalloc_scan.simps) simp
  moreover have "\<exists>mm. set_bits 0 1 0 vfs_demo_mm = Some mm"
    by (subst set_bits.simps, simp add: mm_set_bit_def bm_on_def vfs_demo_mm_def mm_boot_def)
      (subst set_bits.simps, simp)
  ultimately show ?thesis
    by (auto simp: kmalloc_def vfs_demo_mm_def mm_boot_def SIZEOF_NODE_def)
qed

lemma demo_dir: "dir vfs_demo 1 [(''a'', 2)]"
  by (auto simp: dir_def vfs_demo_def vfs_demo_node_def zero_node_def cstr_def VFS_TYPE_DIR_def)

lemma demo_drivers: "drivers_ok no_drivers"
  by (simp add: drivers_ok_def no_drivers_def)

theorem vfs_dir_refines_witness:
  "root_finddir 1 (''a'' @ [NUL]) vfs_demo = Some 2 \<and>
   (\<exists>s'. root_mkdir 1 (''a'' @ [NUL]) vfs_demo = Some (0, s') \<and> dir s' 1 [(''a'', 0x10000), (''a'', 2)]) \<and>
   (\<exists>s'. root_unlink 1 (''a'' @ [NUL]) vfs_demo = Some (0, s') \<and> dir s' 1 [] \<and> v_marked s' = [0xFFFFFFFE])"
proof -
  obtain mm where "kmalloc SIZEOF_NODE vfs_demo_mm = Some (0x10000, mm)" using demo_kmalloc by blast
  then have k: "kmalloc SIZEOF_NODE (v_mm vfs_demo) = Some (0x10000, mm)" by (simp add: vfs_demo_def)
  have a: "cstr (''a'' @ [NUL]) ''a''" by (auto simp: cstr_def)
  have l: "lookup_name [(''a'', 2)] ''a'' = 2" by (simp add: lookup_name_def)
  have c: "contents vfs_demo 5 = Some (''hi'' @ [NUL])" by (simp add: vfs_demo_def)
  have r: "vfs_root vfs_demo = 1" "v_marked vfs_demo = []" by (simp_all add: vfs_demo_def)
  have n: "\<exists>n. nodes vfs_demo 2 = Some n \<and> v_type n \<noteq> VFS_TYPE_DIR"
    by (simp add: vfs_demo_def VFS_TYPE_DIR_def VFS_TYPE_FILE_def)
  have f: "free_flag 2 = 0xFFFFFFFE" by (simp add: free_flag_before)
  from vfs_dir_refines [OF demo_dir a _ k _ _ c] l r n f show ?thesis by auto
qed


subsection \<open>Reading\<close>

text \<open>What a read of \<open>sz\<close> bytes at \<open>offset\<close> out of \<open>n\<close> must return.\<close>

definition read_len :: "u32 \<Rightarrow> u32 \<Rightarrow> u32 \<Rightarrow> nat" where
  "read_len n offset sz = min (unat sz) (unat n - unat offset)"

text \<open>
  reading a file never leaves its contents. For every offset and size, also when their sum
  wraps around in 32 bits, \<open>root_read\<close> stays inside the contents of a file of less than 2 GiB: it
  copies as many bytes as were asked for and exist behind the offset, and answers their number;
  the only exception is a wrapping sum that the code takes for a small one, where nothing is copied
  and the answer is negative.
\<close>

theorem vfs_read_bounds:
  assumes "nodes s node = Some n" and "node \<noteq> 0" and "v_ptr n \<noteq> 0" and "contents s (v_ptr n) = Some src"
    and "unat (v_size n) \<le> length src" and "unat (v_size n) < 2 ^ 31"
    and "read_len (v_size n) offset sz \<le> length buffer"
  shows "root_read node buffer sz offset s =
    (if unat offset + unat sz < 2 ^ 32 \<or> v_size n \<le> offset \<or> v_size n < offset + sz
     then Some (int (read_len (v_size n) offset sz),
       take (read_len (v_size n) offset sz) (drop (unat offset) src) @ drop (read_len (v_size n) offset sz) buffer)
     else Some (int (unat sz) - 2 ^ 32, buffer)) \<and>
    (\<not> unat offset + unat sz < 2 ^ 32 \<and> \<not> v_size n \<le> offset \<longrightarrow> 2 ^ 31 \<le> unat sz)"
proof (intro conjI impI)
  let ?k = "read_len (v_size n) offset sz"
  let ?sz = "if offset + sz > v_size n then v_size n - offset else sz"
  have n31: "unat (v_size n) < 2147483648" using assms(6) by simp
  show big: "2 ^ 31 \<le> unat sz" if "\<not> unat offset + unat sz < 2 ^ 32 \<and> \<not> v_size n \<le> offset"
    using that n31 by (simp add: word_le_nat_alt)
  have sum: "unat offset + unat sz < 2 ^ 32 \<Longrightarrow> unat (offset + sz) = unat offset + unat sz"
    using unat_add_lem [of offset sz] by simp
  show "root_read node buffer sz offset s =
    (if unat offset + unat sz < 2 ^ 32 \<or> v_size n \<le> offset \<or> v_size n < offset + sz
     then Some (int ?k, take ?k (drop (unat offset) src) @ drop ?k buffer)
     else Some (int (unat sz) - 2 ^ 32, buffer))"
  proof (cases "v_size n \<le> offset")
    case True
    then have "?k = 0" by (simp add: read_len_def word_le_nat_alt)
    with True assms(1-3) show ?thesis by (simp add: root_read_def)
  next
    case off: False
    then have lt: "unat offset < unat (v_size n)" by (simp add: word_le_nat_alt)
    have diff: "unat (v_size n - offset) = unat (v_size n) - unat offset"
      using lt by (simp add: unat_sub_if_size)
    have run: "root_read node buffer sz offset s =
        do { b \<leftarrow> memcpy buffer (drop (unat offset) src) (sint ?sz); Some (sint ?sz, b) }"
      using assms(1-4) off by (simp add: root_read_def Let_def)
    show ?thesis
    proof (cases "unat offset + unat sz < 2 ^ 32 \<or> v_size n < offset + sz")
      case True
      have k: "unat ?sz = ?k"
      proof (cases "v_size n < offset + sz")
        case over: True
        have "unat (v_size n) - unat offset \<le> unat sz"
        proof (cases "unat offset + unat sz < 2 ^ 32")
          case True
          with sum over show ?thesis by (simp add: word_less_nat_alt)
        next
          case False
          with big off n31 show ?thesis by simp
        qed
        with over diff show ?thesis by (simp add: read_len_def)
      next
        case under: False
        with True sum have "unat offset + unat sz \<le> unat (v_size n)" by (simp add: word_less_nat_alt)
        with under show ?thesis by (simp add: read_len_def)
      qed
      then have "unat ?sz < 2 ^ 31" using n31 by (simp add: read_len_def)
      then have "sint ?sz = int ?k" unfolding k [symmetric] sint_u32 by simp
      moreover have "?k \<le> length (drop (unat offset) src)" using assms(5) by (simp add: read_len_def)
      ultimately have "root_read node buffer sz offset s =
          Some (int ?k, take ?k (drop (unat offset) src) @ drop ?k buffer)"
        using run memcpy_run [OF assms(7)] by simp
      moreover have "unat offset + unat sz < 2 ^ 32 \<or> v_size n \<le> offset \<or> v_size n < offset + sz"
        using True by blast
      ultimately show ?thesis by (simp only: if_True)
    next
      case False
      with big off have "\<not> unat sz < 2 ^ 31" by simp
      then have "sint sz = int (unat sz) - 2 ^ 32" by (simp add: sint_u32)
      moreover have "int (unat sz) - 2 ^ 32 < 0" using unsigned_less [of sz, where 'a = int] by simp
      ultimately show ?thesis using run False off memcpy_negative by simp
    qed
  qed
qed

theorem vfs_read_bounds_witness:
  "root_read 2 ''xxxx'' 10 1 vfs_demo = Some (1, ''ixxx'') \<and>
   root_read 2 ''xxxx'' 0xFFFFFFFF 1 vfs_demo = Some (-1, ''xxxx'')"
proof -
  obtain n where n: "nodes vfs_demo 2 = Some n" "v_ptr n = 5" "v_size n = 2"
    by (simp add: vfs_demo_def)
  have c: "contents vfs_demo (v_ptr n) = Some (''hi'' @ [NUL])" using n by (simp add: vfs_demo_def)
  from vfs_read_bounds [OF n(1) _ _ c, of 1 10 "''xxxx''"] vfs_read_bounds [OF n(1) _ _ c, of 1 "0xFFFFFFFF" "''xxxx''"]
  show ?thesis by (simp add: n read_len_def word_le_nat_alt)
qed

subsection \<open>From a path to the contents\<close>

lemma strrchr_from_none: "cstr b x \<Longrightarrow> c \<notin> set x \<Longrightarrow> c \<noteq> NUL \<Longrightarrow> strrchr_from i f b c = Some f"
  by (induction x arbitrary: b i) (auto simp: cstr_simps)

lemma put_name_cstr:
  assumes "cstr b x" and "length x < 255"
  shows "\<exists>nm. put_name b = Some nm \<and> cstr nm x"
proof -
  have "strncpy (replicate 256 NUL) b VFS_NAME_MAX = Some (x @ replicate (256 - length x) NUL)"
    using strncpy_cstr [OF assms(1), of 256 "replicate 256 NUL"] assms(2) by (simp add: VFS_NAME_MAX_def)
  moreover have "(x @ replicate (256 - length x) NUL)[255 := NUL] = x @ replicate (256 - length x) NUL"
    using assms(2) by (intro list_update_same_conv [THEN iffD2]) (auto simp: nth_append)
  moreover have "cstr (x @ replicate (256 - length x) NUL) x"
    using assms cstr_pad [of x "256 - length x" "[]"] by (auto simp: cstr_def)
  ultimately show ?thesis using assms(2) by (auto simp: put_name_def wr_Some)
qed

lemma parent_of_root_path:
  assumes p: "cstr p (slash # x)" and "slash \<notin> set x" and "length x < 254"
  shows "\<exists>nm. vfs_parent_for_path fs p s = Some (vfs_root s, nm) \<and> cstr nm x"
proof -
  obtain t0 t where t: "strncpy (replicate 256 NUL) p 255 = Some t0" "wr t0 255 NUL = Some t"
      "cstr t (slash # x)"
    using tmp_copy [OF p] assms(3) by auto
  then obtain t' where t': "t = slash # t'" "cstr t' x" by (auto simp: cstr_simps)
  have "strrchr t slash = Some (Some 0)"
    using strrchr_from_none [OF t'(2) assms(2), of "Suc 0" "Some 0"] by (simp add: t'(1) strrchr_def slash_def)
  moreover obtain nm where "put_name t' = Some nm" "cstr nm x" using put_name_cstr [OF t'(2)] assms(3) by auto
  ultimately show ?thesis using t by (simp add: vfs_parent_for_path_def slash_def t'(1))
qed

lemma path_parts_root_name:
  assumes "x \<noteq> []" and "slash \<notin> set x"
  shows "path_parts (slash # x) = [x]"
proof -
  have d: "dropWhile ((=) slash) x = x" using assms by (cases x) auto
  have t: "takeWhile (\<lambda>c. c \<noteq> slash) x = x" "dropWhile (\<lambda>c. c \<noteq> slash) x = []"
    using assms(2) by auto
  have r: "dropWhile ((=) slash) (slash # x) = x" using d by simp
  have "path_parts [] = []" by (simp add: path_parts.simps)
  then show ?thesis by (subst path_parts.simps) (simp only: r t Let_def assms(1) if_False)
qed

text \<open>What every operation on the path of an entry of the root directory starts from.\<close>

definition plain_name :: "char list \<Rightarrow> bool" where
  "plain_name x \<longleftrightarrow> NUL \<notin> set x \<and> slash \<notin> set x \<and> length x < 254 \<and> x \<notin> {[], ''.'', ''..''}"

lemma root_path_cstr: "plain_name x \<Longrightarrow> cstr ((slash # x) @ [NUL]) (slash # x)"
  by (auto simp: plain_name_def cstr_def slash_def)

lemma lookup_root_name:
  assumes "plain_name x" and "drivers_ok fs" and "dir s (vfs_root s) es"
  shows "vfs_lookup fs (Some ((slash # x) @ [NUL])) s = Some (lookup_name es x)"
proof -
  have x: "x \<noteq> []" "slash \<notin> set x" "NUL \<notin> set x" "x \<noteq> ''.''" "x \<noteq> ''..''" "length (slash # x) < 255"
    using assms(1) by (auto simp: plain_name_def)
  have cx: "cstr (x @ [NUL]) x" using x(3) by (auto simp: cstr_def)
  obtain n where n: "nodes s (vfs_root s) = Some n" "v_ops n = OpsRoot" "vfs_root s \<noteq> 0"
    using assms(3) by (auto simp: dir_def)
  have "enter_name fs s x (vfs_root s) =
      Some (if lookup_name es x = 0 then None else Some (lookup_name es x))"
    using x(4,5) n root_finddir_dir [OF assms(3) cx] by (simp add: enter_name_def node_at_def)
  then have "resolve fs s [x] (vfs_root s) = Some (lookup_name es x)" by simp
  moreover have "vfs_lookup fs (Some ((slash # x) @ [NUL])) s = resolve fs s (path_parts (slash # x)) (vfs_root s)"
    using vfs_lookup_path [OF root_path_cstr [OF assms(1)] x(6) assms(2), of s] by simp
  ultimately show ?thesis unfolding path_parts_root_name [OF x(1,2)] by simp
qed

lemma vfs_lookup_string:
  assumes "cstr p x" and "length x < 255" and "drivers_ok fs"
  shows "vfs_lookup fs (Some p) s = vfs_lookup fs (Some (x @ [NUL])) s"
proof -
  have "cstr (x @ [NUL]) x" using assms(1) by (auto simp: cstr_def)
  from vfs_lookup_path [OF assms] vfs_lookup_path [OF this assms(2,3)] show ?thesis by simp
qed

text \<open>Creating a node leaves all others but its parent alone.\<close>

lemma new_child_other:
  assumes "new_child d b fill s = Some (r, s')" and "kmalloc SIZEOF_NODE (v_mm s) = Some (c, mm)" and "a \<noteq> c" and "a \<noteq> d"
  shows "nodes s' a = nodes s a"
  using assms by (auto simp: new_child_def bind_eq_Some_conv Let_def split: if_splits)

lemma root_parent:
  assumes "plain_name x" and "cstr p (slash # x)"
  shows "\<exists>nm. vfs_parent_for_path fs p s = Some (vfs_root s, nm) \<and> cstr nm x"
  using assms by (intro parent_of_root_path) (auto simp: plain_name_def)

lemma vfs_create_path:
  assumes "plain_name x" and "dir s (vfs_root s) es" and "cstr p (slash # x)"
  shows "\<exists>nm. cstr nm x \<and> vfs_create fs (Some p) data s = root_create (vfs_root s) nm data s"
proof -
  obtain nm where nm: "vfs_parent_for_path fs p s = Some (vfs_root s, nm)" "cstr nm x"
    using root_parent [OF assms(1,3)] by blast
  obtain n where n: "nodes s (vfs_root s) = Some n" "v_type n = VFS_TYPE_DIR" "v_ops n = OpsRoot" "vfs_root s \<noteq> 0"
    using assms(2) by (auto simp: dir_def)
  have "rd p 0 = Some slash" "slash \<noteq> NUL" using assms(3) by (auto simp: cstr_simps slash_def)
  then have "vfs_create fs (Some p) data s = root_create (vfs_root s) nm data s"
    using nm(1) n by (simp add: vfs_create_def node_at_def ops_create_def)
  with nm(2) show ?thesis by blast
qed

lemma vfs_create_root:
  assumes "plain_name x" and "dir s (vfs_root s) es"
  shows "\<exists>nm. cstr nm x \<and> vfs_create fs (Some ((slash # x) @ [NUL])) data s = root_create (vfs_root s) nm data s"
  by (rule vfs_create_path [OF assms root_path_cstr [OF assms(1)]])

lemma vfs_unlink_root:
  assumes "plain_name x" and "dir s (vfs_root s) es"
  shows "\<exists>nm. cstr nm x \<and> vfs_unlink fs (Some ((slash # x) @ [NUL])) s = root_unlink (vfs_root s) nm s"
proof -
  obtain nm where nm: "vfs_parent_for_path fs ((slash # x) @ [NUL]) s = Some (vfs_root s, nm)" "cstr nm x"
    using root_parent [OF assms(1) root_path_cstr [OF assms(1)]] by blast
  obtain n where n: "nodes s (vfs_root s) = Some n" "v_type n = VFS_TYPE_DIR" "v_ops n = OpsRoot" "vfs_root s \<noteq> 0"
    using assms(2) by (auto simp: dir_def)
  have "strlen ((slash # x) @ [NUL]) = Some (length (slash # x))"
    using strlen_from_cstr [OF root_path_cstr [OF assms(1)], of 0] by (simp add: strlen_def)
  then have "vfs_unlink fs (Some ((slash # x) @ [NUL])) s = root_unlink (vfs_root s) nm s"
    using nm(1) n by (simp add: vfs_unlink_def node_at_def ops_unlink_def)
  with nm(2) show ?thesis by blast
qed



end
