(* ===== verification/Printk.thy ===== *)
theory Printk
  imports Decimal
begin

text \<open>
  Kernel messages, \<open>kernel/printk.c\<close> except \<open>clear_screen\<close> and \<open>boot_msg\<close> (theory \<open>Vt100\<close>): the formatter behind \<open>printk\<close> and \<open>sprintf\<close>, the circular
  log buffer with its time stamps, and the log levels. Characters given to \<open>vt100_putc\<close> are a
  list, the console output so far (theory \<open>Vt100\<close> interprets them); \<open>timer_get_ms\<close> is a field that
  stays the same during a call. In the 32-bit build \<open>long\<close>, \<open>unsigned long\<close> and pointers have 32
  bits, and every variable argument takes one 32-bit word, or is a string.
\<close>

definition LOG_BUFFER_SIZE :: nat where "LOG_BUFFER_SIZE = 4096"

definition LOGLEVEL_WARNING :: int where "LOGLEVEL_WARNING = 4"
definition LOGLEVEL_DEBUG :: int where "LOGLEVEL_DEBUG = 7"

record klog =
  kernel_log_buffer :: "char list"
  log_ptr :: nat
  at_line_start :: bool
  console :: "char list"
  now_ms :: u64
  console_loglevel :: int
  default_message_loglevel :: int

definition klog_boot :: "u64 \<Rightarrow> klog" where
  "klog_boot ms = \<lparr>kernel_log_buffer = replicate LOG_BUFFER_SIZE NUL, log_ptr = 0, at_line_start = True,
     console = [], now_ms = ms, console_loglevel = LOGLEVEL_DEBUG, default_message_loglevel = LOGLEVEL_WARNING\<rparr>"

subsection \<open>Numbers\<close>

definition hex_chars :: "char list" where "hex_chars = ''0123456789abcdef''"

text \<open>
  \<open>do { buffer[i++] = hex_chars[n % base]; n /= base; } while (n > 0)\<close>. The kernel only passes the
  bases 10 and 16; a base below 2 would divide by zero or never end.
\<close>

function push_digits :: "nat \<Rightarrow> nat \<Rightarrow> char list \<Rightarrow> nat \<Rightarrow> (char list \<times> nat) option" where
  "push_digits base n buffer i =
     (if base < 2 then None
      else do { c \<leftarrow> rd hex_chars (n mod base);
                b \<leftarrow> wr buffer i c;
                (if n div base > 0 then push_digits base (n div base) b (i + 1) else Some (b, i + 1)) })"
  by pat_completeness auto
termination
  by (relation "measure (\<lambda>(base, n, b, i). n)") (auto simp: div_greater_zero_iff)

text \<open>\<open>while (i < precision) buffer[i++] = '0'\<close>\<close>

function pad_zeros :: "int \<Rightarrow> char list \<Rightarrow> nat \<Rightarrow> (char list \<times> nat) option" where
  "pad_zeros precision buffer i =
     (if int i < precision
      then do { b \<leftarrow> wr buffer i (CHR ''0''); pad_zeros precision b (i + 1) } else Some (buffer, i))"
  by pat_completeness auto
termination
  by (relation "measure (\<lambda>(p, b, i). nat (p - int i))") auto

declare push_digits.simps [simp del] pad_zeros.simps [simp del]

text \<open>
  The characters of a number in the order \<open>print_int\<close>, \<open>log_int\<close> and \<open>sprintf_int\<close> emit them.
  \<open>num\<close> is a \<open>long\<close>; negating the smallest one overflows.
\<close>

definition int_text :: "int \<Rightarrow> nat \<Rightarrow> int \<Rightarrow> char list option" where
  "int_text num base precision =
     do { n \<leftarrow> (if num < 0 \<and> base = 10 then int32 (- num) else Some (num mod 2 ^ 32));
          (b, i) \<leftarrow> push_digits base (nat n) (local_array 32) 0;
          (b', i') \<leftarrow> pad_zeros precision b i;
          Some ((if num < 0 \<and> base = 10 then ''-'' else []) @ rev (take i' b')) }"

subsection \<open>Log buffer and console\<close>

definition log_char :: "char \<Rightarrow> klog \<Rightarrow> klog" where
  "log_char c s = s\<lparr>kernel_log_buffer := (kernel_log_buffer s)[log_ptr s := c],
                    log_ptr := (log_ptr s + 1) mod LOG_BUFFER_SIZE\<rparr>"

definition log_text :: "char list \<Rightarrow> klog \<Rightarrow> klog" where
  "log_text t s = fold log_char t s"

definition log_int :: "int \<Rightarrow> nat \<Rightarrow> int \<Rightarrow> klog \<Rightarrow> klog option" where
  "log_int num base precision s = do { t \<leftarrow> int_text num base precision; Some (log_text t s) }"

text \<open>A 64-bit millisecond count passed as a \<open>long\<close> keeps its low 32 bits.\<close>

definition as_long :: "u64 \<Rightarrow> int" where
  "as_long w = sint (ucast w :: u32)"

definition log_timestamp :: "klog \<Rightarrow> klog option" where
  "log_timestamp s =
     do { s1 \<leftarrow> log_int (as_long (now_ms s div 1000)) 10 5 (log_char (CHR ''['') s);
          s2 \<leftarrow> log_int (as_long (now_ms s mod 1000)) 10 3 (log_char (CHR ''.'') s1);
          Some (log_char (CHR '' '') (log_char (CHR '']'') s2)) }"

definition LF :: char where "LF = CHR 0x0A"
definition CR :: char where "CR = CHR 0x0D"
definition ESC :: char where "ESC = CHR 0x1B"

definition putchar :: "char \<Rightarrow> klog \<Rightarrow> klog option" where
  "putchar c s =
     do { s1 \<leftarrow> (if at_line_start s \<and> c \<noteq> LF \<and> c \<noteq> CR \<and> c \<noteq> ESC
                then do { s0 \<leftarrow> log_timestamp s; Some (s0\<lparr>at_line_start := False\<rparr>) } else Some s);
          let s2 = log_char c (s1\<lparr>console := console s1 @ [c]\<rparr>);
          Some (if c = LF then s2\<lparr>at_line_start := True\<rparr>
                else if c \<noteq> CR then s2\<lparr>at_line_start := False\<rparr> else s2) }"

primrec put_text :: "char list \<Rightarrow> klog \<Rightarrow> klog option" where
  "put_text [] s = Some s"
| "put_text (c # t) s = Option.bind (putchar c s) (put_text t)"

definition print_int :: "int \<Rightarrow> nat \<Rightarrow> int \<Rightarrow> klog \<Rightarrow> klog option" where
  "print_int num base precision s = do { t \<leftarrow> int_text num base precision; put_text t s }"

subsection \<open>Format strings\<close>

text \<open>A string argument that is NULL is None.\<close>

datatype va_arg = AInt u32 | AStr "char list option"

text \<open>The precision after \<open>%\<close>: one digit after a 0 in \<open>vprintk\<close>, any number of digits in \<open>vsprintf\<close>.\<close>

definition digit_val :: "char \<Rightarrow> int" where "digit_val c = of_char c - 48"

definition printk_precision :: "char list \<Rightarrow> (int \<times> char list) option" where
  "printk_precision p =
     do { c \<leftarrow> rd p 0;
          (if c = CHR ''0''
           then do { d \<leftarrow> rd p 1; Some (if is_digit d then (digit_val d, drop 2 p) else (0, drop 1 p)) }
           else Some (0, p)) }"

fun read_digits :: "int \<Rightarrow> char list \<Rightarrow> (int \<times> char list) option" where
  "read_digits v [] = None"
| "read_digits v (d # p) =
     (if is_digit d then do { v' \<leftarrow> int32 (v * 10 + digit_val d); read_digits v' p } else Some (v, d # p))"

definition sprintf_precision :: "char list \<Rightarrow> (int \<times> char list) option" where
  "sprintf_precision p =
     do { c \<leftarrow> rd p 0; (if c = CHR ''0'' then read_digits 0 (drop 1 p) else Some (0, p)) }"

text \<open>\<open>while (*s)\<close> over a string argument.\<close>

fun until_nul :: "char list \<Rightarrow> char list option" where
  "until_nul [] = None"
| "until_nul (c # s) = (if c = NUL then Some [] else map_option ((#) c) (until_nul s))"

definition next_int :: "va_arg list \<Rightarrow> (u32 \<times> va_arg list) option" where
  "next_int args = (case args of AInt w # rest \<Rightarrow> Some (w, rest) | _ \<Rightarrow> None)"

text \<open>One conversion: the text it produces and the arguments left. Unknown letters produce nothing.\<close>

definition convert :: "char \<Rightarrow> int \<Rightarrow> va_arg list \<Rightarrow> (char list \<times> va_arg list) option" where
  "convert d precision args =
     (if d = CHR ''s''
      then (case args of
              AStr (Some b) # rest \<Rightarrow> do { t \<leftarrow> until_nul b; Some (t, rest) }
            | AStr None # rest \<Rightarrow> Some (''(null)'', rest)
            | _ \<Rightarrow> None)
      else if d = CHR ''d'' \<or> d = CHR ''i'' \<or> d = CHR ''u''
      then do { (w, rest) \<leftarrow> next_int args; t \<leftarrow> int_text (sint w) 10 precision; Some (t, rest) }
      else if d = CHR ''x'' \<or> d = CHR ''X''
      then do { (w, rest) \<leftarrow> next_int args; t \<leftarrow> int_text (sint w) 16 precision; Some (t, rest) }
      else if d = CHR ''p''
      then do { (w, rest) \<leftarrow> next_int args; t \<leftarrow> int_text (sint w) 16 8; Some (''0x'' @ t, rest) }
      else if d = CHR ''c''
      then do { (w, rest) \<leftarrow> next_int args; Some ([char_of (unat w)], rest) }
      else if d = CHR ''%'' then Some (''%'', args)
      else Some ([], args))"

text \<open>
  The loop over the format string, shared by \<open>vprintk\<close> and \<open>vsprintf\<close> up to the way they read the
  precision. The format is the memory from its first character on: a \<open>%\<close> before the terminator
  makes the loop step over it. (The precision never gives characters back, which is what the test
  on lengths says.)
\<close>

function format_text ::
    "(char list \<Rightarrow> (int \<times> char list) option) \<Rightarrow> char list \<Rightarrow> va_arg list \<Rightarrow> char list option" where
  "format_text prec fmt args =
     (case fmt of
        [] \<Rightarrow> None
      | c # p \<Rightarrow>
          if c = NUL then Some []
          else if c \<noteq> CHR ''%'' then map_option ((#) c) (format_text prec p args)
          else (case prec p of
                  None \<Rightarrow> None
                | Some (precision, q) \<Rightarrow>
                    (case q of
                       [] \<Rightarrow> None
                     | d # r \<Rightarrow>
                         if length q \<le> length p
                         then do { (t, args') \<leftarrow> convert d precision args;
                                   u \<leftarrow> format_text prec r args';
                                   Some (t @ u) }
                         else None)))"
  by pat_completeness auto
termination
  by (relation "measure (\<lambda>(prec, fmt, args). length fmt)") auto

declare format_text.simps [simp del]

definition vprintk :: "char list \<Rightarrow> va_arg list \<Rightarrow> klog \<Rightarrow> (u32 \<times> klog) option" where
  "vprintk fmt args s =
     do { t \<leftarrow> format_text printk_precision fmt args; s' \<leftarrow> put_text t s; Some (1, s') }"

text \<open>The level of a message and its format without the prefix \<open><n>\<close>.\<close>

definition message_level :: "char list \<Rightarrow> int \<Rightarrow> (int \<times> char list) option" where
  "message_level fmt dflt =
     do { c0 \<leftarrow> rd fmt 0;
          (if c0 \<noteq> CHR ''<'' then Some (dflt, fmt)
           else do { c1 \<leftarrow> rd fmt 1;
                     (if \<not> (48 \<le> (of_char c1 :: nat) \<and> (of_char c1 :: nat) \<le> 55) then Some (dflt, fmt)
                      else do { c2 \<leftarrow> rd fmt 2;
                                Some (if c2 = CHR ''>'' then (digit_val c1, drop 3 fmt) else (dflt, fmt)) }) }) }"

definition printk :: "char list \<Rightarrow> va_arg list \<Rightarrow> klog \<Rightarrow> (u32 \<times> klog) option" where
  "printk fmt args s =
     do { (msg_level, p) \<leftarrow> message_level fmt (default_message_loglevel s);
          (if msg_level > console_loglevel s then Some (0, s) else vprintk p args s) }"

text \<open>The text that a call of \<open>printk\<close> with the literal format \<open>fmt\<close> puts on the console.\<close>

definition print_text :: "char list \<Rightarrow> va_arg list \<Rightarrow> char list option" where
  "print_text fmt args = format_text printk_precision (fmt @ [NUL]) args"

text \<open>\<open>vsprintf\<close> writes the text and a terminator into the buffer and returns the length.\<close>

primrec store_text :: "char list \<Rightarrow> nat \<Rightarrow> char list \<Rightarrow> char list option" where
  "store_text [] i buf = Some buf"
| "store_text (c # t) i buf = Option.bind (wr buf i c) (store_text t (Suc i))"

definition vsprintf :: "char list \<Rightarrow> char list \<Rightarrow> va_arg list \<Rightarrow> (char list \<times> nat) option" where
  "vsprintf buf fmt args =
     do { t \<leftarrow> format_text sprintf_precision fmt args;
          b \<leftarrow> store_text (t @ [NUL]) 0 buf;
          Some (b, length t) }"

definition sprintf :: "char list \<Rightarrow> char list \<Rightarrow> va_arg list \<Rightarrow> (char list \<times> nat) option" where
  "sprintf buf fmt args = vsprintf buf fmt args"

subsection \<open>Numerals in both bases\<close>

fun numeral_text :: "nat \<Rightarrow> nat \<Rightarrow> char list" where
  "numeral_text base n =
     (if base < 2 \<or> n < base then [hex_chars ! n] else numeral_text base (n div base) @ [hex_chars ! (n mod base)])"

declare numeral_text.simps [simp del]

lemma numeral_text_nonempty [simp]: "numeral_text base n \<noteq> []"
  by (subst numeral_text.simps) simp

lemma hex_chars_digit: "n < 10 \<Longrightarrow> hex_chars ! n = digit n"
proof -
  assume "n < 10"
  then have "n = 0 \<or> n = 1 \<or> n = 2 \<or> n = 3 \<or> n = 4 \<or> n = 5 \<or> n = 6 \<or> n = 7 \<or> n = 8 \<or> n = 9" by presburger
  then show ?thesis by (elim disjE) (simp_all add: digit_chars hex_chars_def)
qed

lemma numeral_text_dec: "numeral_text 10 n = dec n"
proof (induction n rule: dec.induct)
  case (1 n)
  then show ?case
    by (subst numeral_text.simps, subst dec.simps) (simp add: hex_chars_digit)
qed

lemma numeral_text_length: "2 \<le> base \<Longrightarrow> n < base ^ Suc k \<Longrightarrow> length (numeral_text base n) \<le> Suc k"
proof (induction k arbitrary: n)
  case 0
  then show ?case by (subst numeral_text.simps) simp
next
  case (Suc k)
  then have "n div base < base ^ Suc k" by (simp add: less_mult_imp_div_less mult.commute)
  with Suc.IH [of "n div base"] Suc.prems(1) show ?case by (subst numeral_text.simps) simp
qed

lemma push_digits_text:
  assumes "2 \<le> base" and "base \<le> 16" and "i \<le> length buf"
  shows "push_digits base n buf i =
    (if i + length (numeral_text base n) \<le> length buf
     then Some (take i buf @ rev (numeral_text base n) @ drop (i + length (numeral_text base n)) buf,
       i + length (numeral_text base n))
     else None)"
  using assms(3)
proof (induction n arbitrary: buf i rule: less_induct)
  case (less n)
  have "n mod base < 16" using assms(1,2) using mod_less_divisor [of base n] by linarith
  then have c: "rd hex_chars (n mod base) = Some (hex_chars ! (n mod base))" by (simp add: hex_chars_def)
  show ?case
  proof (cases "i < length buf")
    case False
    have "0 < length (numeral_text base n)" by simp
    with False less.prems c assms(1) show ?thesis
      by (subst push_digits.simps) (simp del: length_greater_0_conv)
  next
    case True
    let ?c = "hex_chars ! (n mod base)"
    have t: "take (Suc i) (buf[i := ?c]) = take i buf @ [?c]" using True by (simp add: take_Suc_conv_app_nth)
    show ?thesis
    proof (cases "n < base")
      case small: True
      then have "numeral_text base n = [?c]" by (subst numeral_text.simps) simp
      with small True c assms(1) show ?thesis
        by (subst push_digits.simps) (simp add: upd_conv_take_nth_drop)
    next
      case big: False
      then have pos: "0 < n div base" "n div base < n" using assms(1) by (auto simp: div_greater_zero_iff)
      have nt: "numeral_text base n = numeral_text base (n div base) @ [?c]"
        using big assms(1) by (subst numeral_text.simps) simp
      have "push_digits base n buf i = push_digits base (n div base) (buf[i := ?c]) (Suc i)"
        using pos(1) True c assms(1) by (subst push_digits.simps) simp
      with less.IH [OF pos(2), of "Suc i" "buf[i := ?c]"] True t nt show ?thesis by simp
    qed
  qed
qed

lemma pad_zeros_run:
  assumes "i \<le> length buf"
  shows "pad_zeros precision buf i =
    (if precision \<le> int i then Some (buf, i)
     else if nat precision \<le> length buf
     then Some (take i buf @ replicate (nat precision - i) (CHR ''0'') @ drop (nat precision) buf, nat precision)
     else None)"
  using assms
proof (induction precision buf i rule: pad_zeros.induct)
  case (1 precision buf i)
  show ?case
  proof (cases "int i < precision")
    case False
    then show ?thesis by (subst pad_zeros.simps) simp
  next
    case True
    show ?thesis
    proof (cases "i < length buf")
      case False
      with True show ?thesis by (subst pad_zeros.simps) simp
    next
      case i: True
      have t: "take (Suc i) (buf[i := CHR ''0'']) = take i buf @ [CHR ''0'']" using i by (simp add: take_Suc_conv_app_nth)
      have r: "nat precision - i = Suc (nat precision - Suc i)" using True by simp
      have step: "pad_zeros precision buf i = pad_zeros precision (buf[i := CHR ''0'']) (Suc i)"
        using True i by (subst pad_zeros.simps) simp
      show ?thesis
      proof (cases "precision = int (Suc i)")
        case True
        then have np: "nat precision = Suc i" "\<not> precision \<le> int i" "\<not> int (Suc i) < precision" by simp_all
        from np(3) have "pad_zeros precision (buf[i := CHR ''0'']) (Suc i) = Some (buf[i := CHR ''0''], Suc i)"
          by (subst pad_zeros.simps) simp
        with step np i show ?thesis by (simp add: upd_conv_take_nth_drop)
      next
        case False
        with True have "int (Suc i) < precision" by simp
        with 1(1) [OF True, of "buf[i := CHR ''0'']"] i t r step True show ?thesis by simp
      qed
    qed
  qed
qed

text \<open>What a conversion should print: sign, zeros up to the precision, and the numeral.\<close>

definition padded :: "nat \<Rightarrow> char list \<Rightarrow> char list" where
  "padded k t = replicate (k - length t) (CHR ''0'') @ t"

lemma int_text_nat:
  assumes "2 \<le> base" and "base \<le> 16" and "length (numeral_text base n) \<le> 32"
  shows "do { (b, i) \<leftarrow> push_digits base n (local_array 32) 0;
              (b', i') \<leftarrow> pad_zeros precision b i;
              Some (rev (take i' b')) } =
    (if precision \<le> 32 then Some (padded (nat precision) (numeral_text base n)) else None)"
proof -
  let ?t = "numeral_text base n"
  let ?b = "rev ?t @ local_array (32 - length ?t)"
  have p: "push_digits base n (local_array 32) 0 = Some (?b, length ?t)"
    using push_digits_text [OF assms(1,2), of 0 "local_array 32" n] assms(3) by simp
  have len: "length ?b = 32" using assms(3) by simp
  have z: "pad_zeros precision ?b (length ?t) =
    (if precision \<le> int (length ?t) then Some (?b, length ?t)
     else if nat precision \<le> 32
     then Some (rev ?t @ replicate (nat precision - length ?t) (CHR ''0'') @ drop (nat precision) ?b, nat precision)
     else None)"
    using pad_zeros_run [of "length ?t" ?b precision] len by simp
  show ?thesis using assms(3) by (auto simp: p z padded_def)
qed

lemma int_text_decimal:
  assumes "sint (w :: u32) \<noteq> - (2 ^ 31)"
  shows "int_text (sint w) 10 precision =
    (if precision \<le> 32
     then Some ((if sint w < 0 then ''-'' else []) @ padded (nat precision) (dec (nat \<bar>sint w\<bar>))) else None)"
proof -
  let ?n = "nat \<bar>sint w\<bar>"
  have b: "- (2 ^ 31) \<le> sint w" "sint w < 2 ^ 31" by (rule sint_u32_bounds)+
  with assms have n: "?n < 10 ^ 10" by simp
  have "length (numeral_text 10 ?n) \<le> 32" using numeral_text_length [of 10 ?n 9] n by simp
  note run = int_text_nat [OF _ _ this, of precision, unfolded numeral_text_dec]
  have neg: "sint w < 0 \<Longrightarrow> int32 (- sint w) = Some (- sint w)" using b assms by (intro int32_in) auto
  have pos: "\<not> sint w < 0 \<Longrightarrow> nat (sint w mod 2 ^ 32) = ?n"
    using b by simp
  show ?thesis
  proof (cases "sint w < 0")
    case True
    with neg have "int_text (sint w) 10 precision = map_option ((@) ''-'')
        (do { (b, i) \<leftarrow> push_digits 10 ?n (local_array 32) 0; (b', i') \<leftarrow> pad_zeros precision b i; Some (rev (take i' b')) })"
      by (simp add: int_text_def map_option_bind case_prod_unfold o_def)
    with run True show ?thesis by simp
  next
    case False
    with pos have "int_text (sint w) 10 precision =
        do { (b, i) \<leftarrow> push_digits 10 ?n (local_array 32) 0; (b', i') \<leftarrow> pad_zeros precision b i; Some (rev (take i' b')) }"
      by (simp add: int_text_def)
    with run False show ?thesis by simp
  qed
qed

lemma int_text_hex:
  "int_text (sint (w :: u32)) 16 precision =
    (if precision \<le> 32 then Some (padded (nat precision) (numeral_text 16 (unat w))) else None)"
proof -
  have "unat w < 16 ^ Suc 7" using unsigned_less [of w, where 'a = nat] by simp
  then have "length (numeral_text 16 (unat w)) \<le> 32" using numeral_text_length [of 16 "unat w" 7] by simp
  moreover have "nat (sint w mod 4294967296) = unat w" using sint_u32_mod [of w] by simp
  ultimately show ?thesis using int_text_nat [of 16 "unat w" precision] by (simp add: int_text_def)
qed

text \<open>\<open>%u\<close> prints a value of \<open>2 ^ 31\<close> or more as a negative number: the argument is widened to \<open>long\<close>.\<close>

lemma convert_unsigned_negative:
  "convert (CHR ''u'') 0 [AInt 0xFFFFFFFF] = Some (''-1'', [])"
proof -
  have s: "sint (0xFFFFFFFF :: u32) = -1" by (simp add: sint_u32)
  have "int_text (sint (0xFFFFFFFF :: u32)) 10 0 = Some (''-1'')"
    using int_text_decimal [of "0xFFFFFFFF" 0] by (simp add: s padded_def dec_small digit_chars)
  then show ?thesis by (simp add: convert_def next_int_def)
qed

lemma store_text_run:
  "i \<le> length buf \<Longrightarrow> store_text t i buf =
    (if i + length t \<le> length buf then Some (take i buf @ t @ drop (i + length t) buf) else None)"
proof (induction t arbitrary: i buf)
  case (Cons c t)
  show ?case
  proof (cases "i < length buf")
    case True
    with Cons.IH [of "Suc i" "buf[i := c]"] show ?thesis by (simp add: take_Suc_conv_app_nth)
  qed (use Cons.prems in simp)
qed simp

text \<open>
  printing a number with \<open>sprintf\<close> and reading it back with \<open>atoi\<close> gives the number. For every
  non-negative argument, \<open>sprintf(buf, "%d", n)\<close> writes the decimal numeral and a terminator when
  they fit into the buffer (and past its end when they do not: there is no size), returns the
  length of the numeral, and \<open>atoi\<close> of the buffer is \<open>n\<close>.
\<close>

theorem sprintf_atoi_roundtrip:
  assumes "0 \<le> sint w"
  shows "sprintf buf (''%d'' @ [NUL]) [AInt w] =
      (if length (dec (unat w)) < length buf
       then Some (dec (unat w) @ NUL # drop (Suc (length (dec (unat w)))) buf, length (dec (unat w))) else None) \<and>
    atoi (dec (unat w) @ NUL # rest) = Some (sint w)"
proof
  have w: "sint w = int (unat w)" "unat w < 2 ^ 31" using sint_u32_nonneg [OF assms] by blast+
  have ne: "sint w \<noteq> - (2 ^ 31)"
  proof
    assume "sint w = - (2 ^ 31)"
    with assms show False by simp
  qed
  have na: "nat \<bar>sint w\<bar> = unat w" using w(1) by simp
  have "int_text (sint w) 10 0 = Some (dec (unat w))"
    using int_text_decimal [OF ne, of 0] assms unfolding na by (simp add: padded_def)
  then have "format_text sprintf_precision (''%d'' @ [NUL]) [AInt w] = Some (dec (unat w))"
    by (simp add: format_text.simps sprintf_precision_def convert_def next_int_def)
  then show "sprintf buf (''%d'' @ [NUL]) [AInt w] =
      (if length (dec (unat w)) < length buf
       then Some (dec (unat w) @ NUL # drop (Suc (length (dec (unat w)))) buf, length (dec (unat w))) else None)"
    using store_text_run [of 0 buf "dec (unat w) @ [NUL]"] by (simp add: sprintf_def vsprintf_def Suc_le_eq)
  show "atoi (dec (unat w) @ NUL # rest) = Some (sint w)"
    using atoi_dec [of "unat w" rest] w by (simp add: atoi_def)
qed

theorem sprintf_atoi_roundtrip_witness:
  "sprintf (replicate 4 CHR ''x'') (''%d'' @ [NUL]) [AInt 120] = Some (''120'' @ [NUL], 3) \<and>
   sprintf (replicate 3 CHR ''x'') (''%d'' @ [NUL]) [AInt 120] = None"
proof -
  have d: "dec 120 = ''120''" by (simp add: dec_big dec_small digit_chars)
  have s: "0 \<le> sint (120 :: u32)" by (simp add: sint_u32)
  from sprintf_atoi_roundtrip [OF s, of "replicate 4 CHR ''x''"] sprintf_atoi_roundtrip [OF s, of "replicate 3 CHR ''x''"]
  show ?thesis by (simp add: d)
qed

subsection \<open>The log\<close>

text \<open>
  \<open>log_holds s h\<close>: the circular buffer holds the last \<open>LOG_BUFFER_SIZE\<close> characters of the history
  \<open>h\<close> of everything logged so far, at the positions the running index gives them.
\<close>

definition log_holds :: "klog \<Rightarrow> char list \<Rightarrow> bool" where
  "log_holds s h \<longleftrightarrow> length (kernel_log_buffer s) = LOG_BUFFER_SIZE \<and> log_ptr s = length h mod LOG_BUFFER_SIZE \<and>
     (\<forall>j < length h. length h \<le> j + LOG_BUFFER_SIZE \<longrightarrow> kernel_log_buffer s ! (j mod LOG_BUFFER_SIZE) = h ! j)"

lemma mod_in_window: "j < n \<Longrightarrow> Suc n \<le> j + (m :: nat) \<Longrightarrow> j mod m \<noteq> n mod m"
proof
  assume j: "j < n" "Suc n \<le> j + m" and "j mod m = n mod m"
  then have "m dvd n - j" by (metis less_imp_le mod_eq_dvd_iff_nat)
  moreover have "0 < n - j" "n - j < m" using j by auto
  ultimately show False by (meson nat_dvd_not_less)
qed

lemma log_char_holds:
  assumes "log_holds s h"
  shows "log_holds (log_char c s) (h @ [c])"
proof -
  have sz: "0 < LOG_BUFFER_SIZE" by (simp add: LOG_BUFFER_SIZE_def)
  have "(log_ptr s + 1) mod LOG_BUFFER_SIZE = length (h @ [c]) mod LOG_BUFFER_SIZE"
    using assms by (simp add: log_holds_def mod_Suc_eq)
  moreover have "(kernel_log_buffer s)[log_ptr s := c] ! (j mod LOG_BUFFER_SIZE) = (h @ [c]) ! j"
    if j: "j < length (h @ [c])" "length (h @ [c]) \<le> j + LOG_BUFFER_SIZE" for j
  proof (cases "j = length h")
    case True
    with assms sz show ?thesis by (simp add: log_holds_def)
  next
    case False
    with j have lt: "j < length h" "length h \<le> j + LOG_BUFFER_SIZE" by simp_all
    have "j mod LOG_BUFFER_SIZE \<noteq> log_ptr s"
      using assms mod_in_window [OF lt(1)] j(2) by (simp add: log_holds_def)
    with assms lt show ?thesis by (simp add: log_holds_def nth_append)
  qed
  ultimately show ?thesis using assms by (simp add: log_holds_def log_char_def)
qed

lemma log_text_holds: "log_holds s h \<Longrightarrow> log_holds (log_text t s) (h @ t)"
proof (induction t arbitrary: s h)
  case (Cons c t)
  from Cons.IH [OF log_char_holds [OF Cons.prems, of c]] show ?case by (simp add: log_text_def)
qed (simp add: log_text_def)

lemma log_holds_fields: "log_holds (s\<lparr>console := x\<rparr>) h = log_holds s h" "log_holds (s\<lparr>at_line_start := b\<rparr>) h = log_holds s h"
  by (simp_all add: log_holds_def)

text \<open>The time stamp of a line, and what a text adds to the log when it starts in state \<open>start\<close>.\<close>

definition stamp :: "u64 \<Rightarrow> char list option" where
  "stamp ms = do { a \<leftarrow> int_text (as_long (ms div 1000)) 10 5; b \<leftarrow> int_text (as_long (ms mod 1000)) 10 3;
                   Some (''['' @ a @ ''.'' @ b @ ''] '') }"

definition stamps :: "bool \<Rightarrow> char \<Rightarrow> bool" where
  "stamps start c \<longleftrightarrow> start \<and> c \<noteq> LF \<and> c \<noteq> CR \<and> c \<noteq> ESC"

definition line_start :: "bool \<Rightarrow> char \<Rightarrow> bool" where
  "line_start start c = (if c = LF then True else if c \<noteq> CR then False else start)"

primrec logged :: "char list \<Rightarrow> bool \<Rightarrow> char list \<Rightarrow> char list" where
  "logged st start [] = []"
| "logged st start (c # t) = (if stamps start c then st else []) @ c # logged st (line_start start c) t"

lemma log_text_fields [simp]:
  "console (log_text t s) = console s" "now_ms (log_text t s) = now_ms s"
  "at_line_start (log_text t s) = at_line_start s"
  by (induction t arbitrary: s) (simp_all add: log_text_def log_char_def)

lemma log_text_simps:
  "log_text [] s = s" "log_text [c] s = log_char c s" "log_text (t @ u) s = log_text u (log_text t s)"
  by (simp_all add: log_text_def)

lemma log_text_Cons: "log_text (c # t) s = log_text t (log_char c s)"
  by (simp add: log_text_def)

lemma log_timestamp_stamp:
  assumes "stamp (now_ms s) = Some st"
  shows "log_timestamp s = Some (log_text st s)"
proof -
  from assms obtain a b where ab: "int_text (as_long (now_ms s div 1000)) 10 5 = Some a"
      "int_text (as_long (now_ms s mod 1000)) 10 3 = Some b" and st: "st = ''['' @ a @ ''.'' @ b @ ''] ''"
    unfolding stamp_def bind_eq_Some_conv by blast
  have "log_timestamp s = Some (log_text '' '' (log_text '']'' (log_text b (log_text ''.'' (log_text a (log_text ''['' s))))))"
    by (simp only: log_timestamp_def log_int_def ab bind.bind_lunit log_text_simps)
  then show ?thesis by (simp only: st log_text_simps log_text_Cons)
qed

lemma log_char_fields [simp]:
  "console (log_char c s) = console s" "now_ms (log_char c s) = now_ms s"
  "at_line_start (log_char c s) = at_line_start s"
  by (simp_all add: log_char_def)

text \<open>One character: a stamp when one is due, then the character, on the console and in the log.\<close>

lemma putchar_run:
  fixes c :: char
  assumes "stamp (now_ms s) = Some st"
  defines "s1 \<equiv> (if stamps (at_line_start s) c then (log_text st s)\<lparr>at_line_start := False\<rparr> else s)"
  shows "putchar c s = Some ((log_char c (s1\<lparr>console := console s @ [c]\<rparr>))\<lparr>at_line_start := line_start (at_line_start s) c\<rparr>)"
proof -
  have guard: "(if at_line_start s \<and> c \<noteq> LF \<and> c \<noteq> CR \<and> c \<noteq> ESC
      then do { s0 \<leftarrow> log_timestamp s; Some (s0\<lparr>at_line_start := False\<rparr>) } else Some s) = Some s1"
    by (simp only: log_timestamp_stamp [OF assms(1)] s1_def stamps_def bind.bind_lunit if_distrib [of Some])
  have s1: "console s1 = console s" "c = CR \<Longrightarrow> at_line_start s1 = at_line_start s"
    by (simp_all add: s1_def stamps_def)
  have run: "putchar c s = Some (if c = LF then (log_char c (s1\<lparr>console := console s @ [c]\<rparr>))\<lparr>at_line_start := True\<rparr>
      else if c \<noteq> CR then (log_char c (s1\<lparr>console := console s @ [c]\<rparr>))\<lparr>at_line_start := False\<rparr>
      else log_char c (s1\<lparr>console := console s @ [c]\<rparr>))"
    by (simp only: putchar_def guard bind.bind_lunit Let_def s1(1))
  have same: "at_line_start t = b \<Longrightarrow> t\<lparr>at_line_start := b\<rparr> = t" for b and t :: klog by auto
  show ?thesis
  proof (cases "c = CR \<and> c \<noteq> LF")
    case True
    have "at_line_start (log_char c (s1\<lparr>console := console s @ [c]\<rparr>)) = at_line_start s"
      using True s1(2) by simp
    then have "(log_char c (s1\<lparr>console := console s @ [c]\<rparr>))\<lparr>at_line_start := at_line_start s\<rparr> =
      log_char c (s1\<lparr>console := console s @ [c]\<rparr>)" by (rule same)
    moreover have "c \<noteq> LF" "\<not> c \<noteq> CR" using True by blast+
    ultimately show ?thesis by (simp only: run line_start_def if_False if_not_P)
  next
    case False
    then consider "c = LF" | "c \<noteq> LF" "c \<noteq> CR" by blast
    then show ?thesis unfolding run line_start_def by cases simp_all
  qed
qed

lemma putchar_logged:
  assumes "log_holds s h" and "stamp (now_ms s) = Some st"
  shows "\<exists>s'. putchar c s = Some s' \<and> log_holds s' (h @ logged st (at_line_start s) [c]) \<and>
    console s' = console s @ [c] \<and> now_ms s' = now_ms s \<and> at_line_start s' = line_start (at_line_start s) c"
proof (intro exI conjI)
  let ?s1 = "if stamps (at_line_start s) c then (log_text st s)\<lparr>at_line_start := False\<rparr> else s"
  let ?s2 = "?s1\<lparr>console := console s @ [c]\<rparr>"
  show "putchar c s = Some ((log_char c ?s2)\<lparr>at_line_start := line_start (at_line_start s) c\<rparr>)"
    by (rule putchar_run [OF assms(2)])
  have "log_holds ?s2 (h @ (if stamps (at_line_start s) c then st else []))"
    using assms(1) log_text_holds [OF assms(1), of st] by (simp add: log_holds_fields)
  from log_char_holds [OF this, of c]
  show "log_holds ((log_char c ?s2)\<lparr>at_line_start := line_start (at_line_start s) c\<rparr>) (h @ logged st (at_line_start s) [c])"
    by (simp add: log_holds_fields)
qed simp_all

lemma put_text_logged:
  assumes "log_holds s h" and "stamp (now_ms s) = Some st"
  shows "\<exists>s'. put_text t s = Some s' \<and> log_holds s' (h @ logged st (at_line_start s) t) \<and>
    console s' = console s @ t"
  using assms
proof (induction t arbitrary: s h)
  case (Cons c t)
  obtain s1 where s1: "putchar c s = Some s1" "log_holds s1 (h @ logged st (at_line_start s) [c])"
      "console s1 = console s @ [c]" "now_ms s1 = now_ms s" "at_line_start s1 = line_start (at_line_start s) c"
    using putchar_logged [OF Cons.prems] by blast
  have st1: "stamp (now_ms s1) = Some st" using s1(4) Cons.prems(2) by simp
  obtain s' where s': "put_text t s1 = Some s'"
      "log_holds s' ((h @ logged st (at_line_start s) [c]) @ logged st (at_line_start s1) t)"
      "console s' = console s1 @ t"
    using Cons.IH [OF s1(2) st1] by blast
  show ?case
  proof (intro exI conjI)
    show "put_text (c # t) s = Some s'" by (simp add: s1(1) s'(1))
    show "log_holds s' (h @ logged st (at_line_start s) (c # t))" using s'(2) s1(5) by simp
    show "console s' = console s @ c # t" using s'(3) s1(3) by simp
  qed
qed simp

text \<open>
  C13: the message log refines a history. When the circular buffer holds the most recent characters
  of the history, it does so after any message: a message above the console log level changes
  nothing and returns 0; any other returns 1, appends its formatted text to the console and to the
  log, and in the log every line that starts with a printable character gets one time stamp in
  front.
\<close>

theorem printk_keeps_log:
  assumes "log_holds s h" and "stamp (now_ms s) = Some st"
    and "message_level fmt (default_message_loglevel s) = Some (level, p)"
    and "format_text printk_precision p args = Some t"
  shows "if level > console_loglevel s then printk fmt args s = Some (0, s)
    else \<exists>s'. printk fmt args s = Some (1, s') \<and> console s' = console s @ t \<and>
      log_holds s' (h @ logged st (at_line_start s) t)"
  using put_text_logged [OF assms(1,2), of t] assms(3,4) by (auto simp: printk_def vprintk_def)

theorem printk_keeps_log_witness:
  "\<exists>s'. printk (''<6>n=%d'' @ [LF, NUL]) [AInt 42] (klog_boot 61005) = Some (1, s') \<and>
     console s' = ''n=42'' @ [LF] \<and> log_holds s' (''[00061.005] n=42'' @ [LF])"
proof -
  have h: "log_holds (klog_boot 61005) []"
    by (simp add: log_holds_def klog_boot_def)
  have l: "as_long 61 = sint (61 :: u32)" "as_long 5 = sint (5 :: u32)" by (simp_all add: as_long_def)
  have p: "padded 5 ''61'' = ''00061''" "padded 3 ''5'' = ''005''" by (simp_all add: padded_def numeral_eq_Suc)
  have d: "dec 61 = ''61''" "dec 5 = ''5''" by (simp_all add: dec_big dec_small digit_chars)
  have i: "int_text (as_long 61) 10 5 = Some ''00061''" "int_text (as_long 5) 10 3 = Some ''005''"
    unfolding l using int_text_decimal [of 61 5] int_text_decimal [of 5 3] by (simp_all add: sint_u32 p d)
  have n: "now_ms (klog_boot 61005) = 61005" by (simp add: klog_boot_def)
  have st: "stamp (now_ms (klog_boot 61005)) = Some ''[00061.005] ''"
    unfolding stamp_def n by (simp add: i)
  have t: "int_text (sint (42 :: u32)) 10 0 = Some ''42''"
    using int_text_decimal [of 42 0] by (simp add: sint_u32 padded_def dec_big dec_small digit_chars)
  have lv: "message_level (''<6>n=%d'' @ [LF, NUL]) (default_message_loglevel (klog_boot 61005)) = Some (6, ''n=%d'' @ [LF, NUL])"
    by (simp add: message_level_def digit_val_def)
  have f: "format_text printk_precision (''n=%d'' @ [LF, NUL]) [AInt 42] = Some (''n=42'' @ [LF])"
    using t by (simp add: format_text.simps printk_precision_def convert_def next_int_def LF_def)
  from printk_keeps_log [OF h st lv f] show ?thesis
    by (simp add: klog_boot_def LOGLEVEL_DEBUG_def stamps_def line_start_def LF_def CR_def ESC_def)
qed

end
