(* ===== verification/Store_Iface.thy ===== *)
theory Store_Iface
  imports Prelude
begin

text \<open>
  Two interfaces that the file systems share. \<open>address_source\<close>: an allocator whose blocks are at
  addresses nobody owns yet, which is what lets a new node be linked into a store without
  touching the others. \<open>kv_store\<close>: a store of named values with lookup, replacement and removal;
  its client runs a whole session of such operations.
\<close>

locale address_source =
  fixes alloc :: "u32 \<Rightarrow> 'm \<Rightarrow> (u32 \<times> 'm) option"
    and ok :: "'m \<Rightarrow> bool"
    and owned :: "'m \<Rightarrow> u32 \<Rightarrow> bool"
  assumes alloc_total: "ok m \<Longrightarrow> \<exists>p m'. alloc n m = Some (p, m')"
    and alloc_fresh: "ok m \<Longrightarrow> alloc n m = Some (p, m') \<Longrightarrow>
      ok m' \<and> (p \<noteq> 0 \<longrightarrow> \<not> owned m p \<and> owned m' p) \<and> (\<forall>a. owned m a \<longrightarrow> owned m' a)"
begin

lemma alloc_keeps: "ok m \<Longrightarrow> alloc n m = Some (p, m') \<Longrightarrow> ok m' \<and> (\<forall>a. owned m a \<longrightarrow> owned m' a)"
  using alloc_fresh by blast

lemma alloc_not_in:
  assumes "ok m" and "alloc n m = Some (p, m')" and "p \<noteq> 0" and "\<forall>a \<in> A. owned m a"
  shows "p \<notin> A \<and> (\<forall>a \<in> insert p A. owned m' a)"
  using alloc_fresh [OF assms(1,2)] assms(3,4) by blast

text \<open>Two blocks in a row never coincide.\<close>

lemma alloc_two:
  assumes "ok m" and "alloc n m = Some (p, m1)" and "p \<noteq> 0" and "alloc k m1 = Some (q, m2)" and "q \<noteq> 0"
  shows "q \<noteq> p"
  using alloc_fresh [OF assms(1,2)] alloc_fresh [of m1 k q m2] assms by blast

end

text \<open>A session: stores and removals, with the success of each.\<close>

datatype ('k, 'v) store_cmd = Put 'k 'v | Del 'k

primrec run_cmd ::
    "('k \<Rightarrow> 'v \<Rightarrow> 's \<Rightarrow> (bool \<times> 's) option) \<Rightarrow> ('k \<Rightarrow> 's \<Rightarrow> (bool \<times> 's) option) \<Rightarrow>
     ('k, 'v) store_cmd \<Rightarrow> 's \<Rightarrow> (bool \<times> 's) option" where
  "run_cmd put del (Put k v) s = put k v s"
| "run_cmd put del (Del k) s = del k s"

primrec run_cmds ::
    "('k \<Rightarrow> 'v \<Rightarrow> 's \<Rightarrow> (bool \<times> 's) option) \<Rightarrow> ('k \<Rightarrow> 's \<Rightarrow> (bool \<times> 's) option) \<Rightarrow>
     ('k, 'v) store_cmd list \<Rightarrow> 's \<Rightarrow> (bool list \<times> 's) option" where
  "run_cmds put del [] s = Some ([], s)"
| "run_cmds put del (c # cs) s =
     do { (b, s1) \<leftarrow> run_cmd put del c s; (bs, s2) \<leftarrow> run_cmds put del cs s1; Some (b # bs, s2) }"

text \<open>What the session does to the map of names: a failed \<open>Put\<close> has the effect \<open>lost\<close>.\<close>

primrec cmd_effect :: "('k \<Rightarrow> ('k \<rightharpoonup> 'v) \<Rightarrow> ('k \<rightharpoonup> 'v)) \<Rightarrow> ('k, 'v) store_cmd \<Rightarrow> bool \<Rightarrow> ('k \<rightharpoonup> 'v) \<Rightarrow> ('k \<rightharpoonup> 'v)" where
  "cmd_effect lost (Put k v) b m = (if b then m(k \<mapsto> v) else lost k m)"
| "cmd_effect lost (Del k) b m = m(k := None)"

fun session_effect ::
    "('k \<Rightarrow> ('k \<rightharpoonup> 'v) \<Rightarrow> ('k \<rightharpoonup> 'v)) \<Rightarrow> ('k, 'v) store_cmd list \<Rightarrow> bool list \<Rightarrow> ('k \<rightharpoonup> 'v) \<Rightarrow> ('k \<rightharpoonup> 'v)" where
  "session_effect lost (c # cs) (b # bs) m = session_effect lost cs bs (cmd_effect lost c b m)"
| "session_effect lost cs bs m = m"

primrec cmd_key :: "('k, 'v) store_cmd \<Rightarrow> 'k" where
  "cmd_key (Put k v) = k"
| "cmd_key (Del k) = k"

primrec cmd_vals :: "('k, 'v) store_cmd \<Rightarrow> 'v list" where
  "cmd_vals (Put k v) = [v]"
| "cmd_vals (Del k) = []"

text \<open>A store that can be written and read, and one that entries can be taken out of.\<close>

locale lookup_store =
  fixes repr :: "'s \<Rightarrow> ('k \<rightharpoonup> 'v) \<Rightarrow> bool"
    and key_ok :: "'k \<Rightarrow> bool"
    and val_ok :: "'v \<Rightarrow> bool"
    and lost :: "'k \<Rightarrow> ('k \<rightharpoonup> 'v) \<Rightarrow> ('k \<rightharpoonup> 'v)"
    and get :: "'k \<Rightarrow> 's \<Rightarrow> 'v option option"
    and put :: "'k \<Rightarrow> 'v \<Rightarrow> 's \<Rightarrow> (bool \<times> 's) option"
  assumes get_spec: "repr s m \<Longrightarrow> key_ok k \<Longrightarrow> get k s = Some (m k)"
    and put_spec: "repr s m \<Longrightarrow> key_ok k \<Longrightarrow> val_ok v \<Longrightarrow>
      \<exists>b s'. put k v s = Some (b, s') \<and> repr s' (if b then m(k \<mapsto> v) else lost k m)"
    and lost_other: "k' \<noteq> k \<Longrightarrow> lost k m k' = m k'"
begin

lemma put_get:
  assumes "repr s m" and "key_ok k" and "val_ok v" and "put k v s = Some (True, s')"
  shows "get k s' = Some (Some v)"
  using put_spec [OF assms(1-3)] get_spec assms(2,4) by fastforce

text \<open>Writing one name does not change what another one holds.\<close>

lemma put_other:
  assumes "repr s m" and "key_ok k" and "val_ok v" and "key_ok k'" and "k' \<noteq> k"
  shows "\<exists>b s'. put k v s = Some (b, s') \<and> get k' s' = get k' s"
proof -
  obtain b s' where "put k v s = Some (b, s')" "repr s' (if b then m(k \<mapsto> v) else lost k m)"
    using put_spec [OF assms(1-3)] by blast
  then show ?thesis using get_spec [OF _ assms(4)] assms(1,5) by (cases b) (auto simp: lost_other)
qed

end

locale kv_store = lookup_store repr key_ok val_ok lost get put
  for repr :: "'s \<Rightarrow> ('k \<rightharpoonup> 'v) \<Rightarrow> bool"
    and key_ok :: "'k \<Rightarrow> bool"
    and val_ok :: "'v \<Rightarrow> bool"
    and lost :: "'k \<Rightarrow> ('k \<rightharpoonup> 'v) \<Rightarrow> ('k \<rightharpoonup> 'v)"
    and get :: "'k \<Rightarrow> 's \<Rightarrow> 'v option option"
    and put :: "'k \<Rightarrow> 'v \<Rightarrow> 's \<Rightarrow> (bool \<times> 's) option" +
  fixes del :: "'k \<Rightarrow> 's \<Rightarrow> (bool \<times> 's) option"
  assumes del_spec: "repr s m \<Longrightarrow> key_ok k \<Longrightarrow>
      \<exists>s'. del k s = Some (k \<in> dom m, s') \<and> repr s' (m(k := None))"
begin

lemma del_get:
  assumes "repr s m" and "key_ok k"
  shows "\<exists>b s'. del k s = Some (b, s') \<and> get k s' = Some None"
  using del_spec [OF assms] get_spec [OF _ assms(2)] by fastforce

lemma cmd_spec:
  assumes "repr s m" and "key_ok (cmd_key c)" and "\<forall>v \<in> set (cmd_vals c). val_ok v"
  shows "\<exists>b s'. run_cmd put del c s = Some (b, s') \<and> repr s' (cmd_effect lost c b m)"
  using assms put_spec del_spec by (cases c) (simp_all, blast+)

text \<open>A session never faults, and afterwards every name has the value the session gives it.\<close>

lemma session:
  assumes "repr s m" and "\<forall>c \<in> set cs. key_ok (cmd_key c) \<and> (\<forall>v \<in> set (cmd_vals c). val_ok v)"
  shows "\<exists>bs s'. run_cmds put del cs s = Some (bs, s') \<and> length bs = length cs \<and>
    repr s' (session_effect lost cs bs m) \<and> (\<forall>k. key_ok k \<longrightarrow> get k s' = Some (session_effect lost cs bs m k))"
  using assms
proof (induction cs arbitrary: s m)
  case Nil
  then show ?case using get_spec by simp
next
  case (Cons c cs)
  obtain b s1 where c: "run_cmd put del c s = Some (b, s1)" "repr s1 (cmd_effect lost c b m)"
    using cmd_spec [OF Cons.prems(1), of c] Cons.prems(2) by auto
  obtain bs s' where cs: "run_cmds put del cs s1 = Some (bs, s')" "length bs = length cs"
      "repr s' (session_effect lost cs bs (cmd_effect lost c b m))"
      "\<forall>k. key_ok k \<longrightarrow> get k s' = Some (session_effect lost cs bs (cmd_effect lost c b m) k)"
    using Cons.IH [OF c(2)] Cons.prems(2) by auto
  show ?case
    by (rule exI [of _ "b # bs"], rule exI [of _ s']) (use c(1) cs in simp)
qed

text \<open>Names that a session does not mention keep their values.\<close>

lemma cmd_other: "k \<noteq> cmd_key c \<Longrightarrow> cmd_effect lost c b m k = m k"
  by (cases c) (simp_all add: lost_other)

lemma session_other: "k \<notin> cmd_key ` set cs \<Longrightarrow> session_effect lost cs bs m k = m k"
proof (induction cs arbitrary: bs m)
  case (Cons c cs)
  then show ?case by (cases bs) (simp_all add: cmd_other)
qed simp

end

subsection \<open>Tables with distinct keys\<close>

text \<open>The map a table of pairs stands for, when an entry is replaced, appended or taken out.\<close>

lemma map_of_replace:
  assumes "distinct (map fst xs)" and "i < length xs" and "fst (xs ! i) = k"
  shows "map_of (xs[i := (k, v)]) = (map_of xs)(k \<mapsto> v)"
  using assms
proof (induction xs arbitrary: i)
  case (Cons x xs)
  show ?case
  proof (cases i)
    case (Suc j)
    with Cons.prems nth_mem [of j xs] have "fst x \<noteq> k" by force
    with Suc Cons show ?thesis by (auto simp: fun_upd_twist)
  qed (use Cons.prems in auto)
qed simp

lemma map_of_snoc: "k \<notin> fst ` set xs \<Longrightarrow> map_of (xs @ [(k, v)]) = (map_of xs)(k \<mapsto> v)"
  by (induction xs) (auto simp: fun_upd_twist)

lemma map_of_take_out:
  assumes "distinct (map fst xs)" and "i < length xs" and "fst (xs ! i) = k"
  shows "map_of (take i xs @ drop (Suc i) xs) = (map_of xs)(k := None)"
  using assms
proof (induction xs arbitrary: i)
  case (Cons x xs)
  show ?case
  proof (cases i)
    case 0
    with Cons.prems have "map_of xs k = None" by (auto simp: map_of_eq_None_iff)
    with 0 Cons.prems(3) show ?thesis by (auto simp: fun_eq_iff)
  next
    case (Suc j)
    with Cons.prems nth_mem [of j xs] have "fst x \<noteq> k" by force
    with Suc Cons show ?thesis by (auto simp: fun_upd_twist)
  qed
qed simp

lemma distinct_replace_key:
  assumes "distinct (map f xs)" and "i < length xs" and "f y = f (xs ! i)"
  shows "distinct (map f (xs[i := y]))"
proof -
  have "map f (xs[i := y]) = map f xs" using assms(2,3) by (simp add: map_update list_update_same_conv)
  with assms(1) show ?thesis by simp
qed

lemma distinct_take_out: "distinct xs \<Longrightarrow> distinct (take i xs @ drop (Suc i) xs)"
proof -
  assume d: "distinct xs"
  have "set (take i xs) \<inter> set (drop i xs) = {}" using d by (metis append_take_drop_id distinct_append)
  moreover have "set (drop (Suc i) xs) \<subseteq> set (drop i xs)" by (rule set_drop_subset_set_drop) simp
  ultimately show ?thesis using d by auto
qed

text \<open>Searching a table by key from its start.\<close>

lemma find_key:
  assumes "distinct (map fst xs)"
  shows "find (\<lambda>i. fst (xs ! i) = k) [0..<length xs] = Some i \<Longrightarrow> i < length xs \<and> fst (xs ! i) = k \<and> map_of xs k = Some (snd (xs ! i))"
    and "find (\<lambda>i. fst (xs ! i) = k) [0..<length xs] = None \<Longrightarrow> map_of xs k = None"
proof -
  assume "find (\<lambda>i. fst (xs ! i) = k) [0..<length xs] = Some i"
  then have i: "i < length xs" "fst (xs ! i) = k" by (auto simp: find_upt_Some)
  then have "(k, snd (xs ! i)) \<in> set xs" by (metis nth_mem prod.collapse)
  with assms i show "i < length xs \<and> fst (xs ! i) = k \<and> map_of xs k = Some (snd (xs ! i))" by simp
next
  assume "find (\<lambda>i. fst (xs ! i) = k) [0..<length xs] = None"
  then have "\<forall>i < length xs. fst (xs ! i) \<noteq> k" by (simp add: find_upt_None)
  then show "map_of xs k = None" unfolding map_of_eq_None_iff by (metis imageE in_set_conv_nth)
qed

end
