(* ===== verification/Ramfs.thy ===== *)
theory Ramfs
  imports Printk Store_Iface
begin

text \<open>
  The table based file system, \<open>fs/ramfs/ramfs.c\<close>: a table of directories and one of files, both
  static arrays whose entries name their directory by its index. What the listing commands print
  is the text they return. Table indices are natural numbers.
\<close>

definition MAX_DIRECTORIES :: nat where "MAX_DIRECTORIES = 300"
definition MAX_FILES :: nat where "MAX_FILES = 300"
definition MAX_NAME_LENGTH :: nat where "MAX_NAME_LENGTH = 30"
definition MAX_CONTENT_LENGTH :: nat where "MAX_CONTENT_LENGTH = 1024"

record DirectoryEntry =
  d_name :: "char list"
  d_parent :: nat
  d_start_block :: u32
  d_size :: u32
  d_is_vfs :: int

record FileEntry =
  f_name :: "char list"
  f_parent :: nat
  f_size :: nat
  f_permissions :: u32
  f_owner_id :: u32
  f_content :: "char list"
  f_is_vfs :: int

record ramfs =
  directory_count :: nat
  file_count :: nat
  ramfsneeds_sync :: bool
  current_directory :: nat
  directory_table :: "DirectoryEntry list"
  file_table :: "FileEntry list"

text \<open>Static storage starts as zeros.\<close>

definition zero_dir :: DirectoryEntry where
  "zero_dir = \<lparr>d_name = replicate MAX_NAME_LENGTH NUL, d_parent = 0, d_start_block = 0, d_size = 0, d_is_vfs = 0\<rparr>"

definition zero_file :: FileEntry where
  "zero_file = \<lparr>f_name = replicate MAX_NAME_LENGTH NUL, f_parent = 0, f_size = 0, f_permissions = 0,
     f_owner_id = 0, f_content = replicate MAX_CONTENT_LENGTH NUL, f_is_vfs = 0\<rparr>"

definition ramfs_static :: ramfs where
  "ramfs_static = \<lparr>directory_count = 0, file_count = 0, ramfsneeds_sync = False, current_directory = 0,
     directory_table = replicate MAX_DIRECTORIES zero_dir, file_table = replicate MAX_FILES zero_file\<rparr>"

subsection \<open>Initialisation\<close>

definition put_root :: "ramfs \<Rightarrow> ramfs option" where
  "put_root s =
     do { e \<leftarrow> rd (directory_table s) 0;
          nm \<leftarrow> strcpy (d_name e) (''/'' @ [NUL]);
          t \<leftarrow> wr (directory_table s) 0 (e\<lparr>d_name := nm, d_parent := 0\<rparr>);
          Some (s\<lparr>directory_table := t, directory_count := 1\<rparr>) }"

definition ramfsinit_clean :: "ramfs \<Rightarrow> ramfs option" where
  "ramfsinit_clean s = do { s1 \<leftarrow> put_root s; Some (s1\<lparr>file_count := 0, current_directory := 0\<rparr>) }"

definition ramfsinit :: "ramfs \<Rightarrow> ramfs option" where
  "ramfsinit s = do { s1 \<leftarrow> put_root s; Some (s1\<lparr>current_directory := 0\<rparr>) }"

subsection \<open>Searching the tables\<close>

text \<open>
  The test \<open>parent_dir == current_directory && strcmp(name, ...) == 0\<close> of the loops; \<open>ramfs_rm\<close> and
  \<open>ramfsrmdir\<close> compare the name first.
\<close>

definition dir_match :: "char list \<Rightarrow> ramfs \<Rightarrow> nat \<Rightarrow> bool option" where
  "dir_match name s i =
     do { e \<leftarrow> rd (directory_table s) i;
          (if d_parent e = current_directory s
           then do { c \<leftarrow> strcmp (d_name e) name; Some (c = 0) } else Some False) }"

definition file_match :: "char list \<Rightarrow> ramfs \<Rightarrow> nat \<Rightarrow> bool option" where
  "file_match name s i =
     do { e \<leftarrow> rd (file_table s) i;
          (if f_parent e = current_directory s
           then do { c \<leftarrow> strcmp (f_name e) name; Some (c = 0) } else Some False) }"

definition file_match_rm :: "char list \<Rightarrow> ramfs \<Rightarrow> nat \<Rightarrow> bool option" where
  "file_match_rm name s i =
     do { e \<leftarrow> rd (file_table s) i; c \<leftarrow> strcmp (f_name e) name;
          Some (c = 0 \<and> f_parent e = current_directory s) }"

definition find_dir :: "char list \<Rightarrow> ramfs \<Rightarrow> nat option option" where
  "find_dir name s = first_ok (dir_match name s) 0 (directory_count s)"

definition find_file :: "char list \<Rightarrow> ramfs \<Rightarrow> nat option option" where
  "find_file name s = first_ok (file_match name s) 0 (file_count s)"

subsection \<open>Directories and files\<close>

definition ramfs_mkdir :: "char list \<Rightarrow> ramfs \<Rightarrow> (int \<times> ramfs) option" where
  "ramfs_mkdir dirname s =
     (if directory_count s \<ge> MAX_DIRECTORIES then Some (-1, s)
      else do { r \<leftarrow> find_dir dirname s;
                (if r \<noteq> None then Some (-1, s)
                 else do { e \<leftarrow> rd (directory_table s) (directory_count s);
                           nm \<leftarrow> strcpy (d_name e) dirname;
                           t \<leftarrow> wr (directory_table s) (directory_count s)
                                 (e\<lparr>d_name := nm, d_parent := current_directory s\<rparr>);
                           Some (0, s\<lparr>directory_table := t, directory_count := directory_count s + 1\<rparr>) }) })"

definition ramfs_touch :: "char list \<Rightarrow> char list \<Rightarrow> ramfs \<Rightarrow> (int \<times> ramfs) option" where
  "ramfs_touch filename content s =
     do { r \<leftarrow> find_file filename s;
          (case r of
             Some i \<Rightarrow>
               do { e \<leftarrow> rd (file_table s) i;
                    c \<leftarrow> strcpy (f_content e) content;
                    n \<leftarrow> strlen content;
                    t \<leftarrow> wr (file_table s) i (e\<lparr>f_content := c, f_size := n\<rparr>);
                    Some (0, s\<lparr>file_table := t\<rparr>) }
           | None \<Rightarrow>
               if file_count s < MAX_FILES
               then do { e \<leftarrow> rd (file_table s) (file_count s);
                         nm \<leftarrow> strcpy (f_name e) filename;
                         c \<leftarrow> strcpy (f_content e) content;
                         n \<leftarrow> strlen content;
                         t \<leftarrow> wr (file_table s) (file_count s)
                               (e\<lparr>f_name := nm, f_content := c, f_size := n, f_parent := current_directory s\<rparr>);
                         Some (0, s\<lparr>file_table := t, file_count := file_count s + 1\<rparr>) }
               else Some (-1, s\<lparr>ramfsneeds_sync := True\<rparr>)) }"

definition ramfs_cd :: "char list \<Rightarrow> ramfs \<Rightarrow> (int \<times> ramfs) option" where
  "ramfs_cd dirname s =
     do { root \<leftarrow> strcmp dirname (''/'' @ [NUL]);
          (if root = 0 then Some (0, s\<lparr>current_directory := 0\<rparr>)
           else do { up \<leftarrow> strcmp dirname (''..'' @ [NUL]);
                     (if up = 0
                      then do { e \<leftarrow> rd (directory_table s) (current_directory s);
                                Some (0, s\<lparr>current_directory := d_parent e\<rparr>) }
                      else do { r \<leftarrow> find_dir dirname s;
                                Some (case r of Some i \<Rightarrow> (0, s\<lparr>current_directory := i\<rparr>) | None \<Rightarrow> (-1, s)) }) }) }"

text \<open>\<open>for (j = i; j < count - 1; j++) table[j] = table[j + 1];\<close>\<close>

function shift_down :: "nat \<Rightarrow> nat \<Rightarrow> 'a list \<Rightarrow> 'a list option" where
  "shift_down j count tab =
     (if j < count - 1
      then do { x \<leftarrow> rd tab (j + 1); t \<leftarrow> wr tab j x; shift_down (j + 1) count t }
      else Some tab)"
  by pat_completeness auto
termination
  by (relation "measure (\<lambda>(j, n, t). n - j)") auto

declare shift_down.simps [simp del]

definition ramfs_rm :: "char list \<Rightarrow> ramfs \<Rightarrow> ramfs option" where
  "ramfs_rm name s =
     do { r \<leftarrow> first_ok (file_match_rm name s) 0 (file_count s);
          (case r of
             None \<Rightarrow> Some s
           | Some i \<Rightarrow> do { t \<leftarrow> shift_down i (file_count s) (file_table s);
                            Some (s\<lparr>file_table := t, file_count := file_count s - 1\<rparr>) }) }"

text \<open>
  \<open>ramfsrmdir\<close> stops at entry 0 when the name is \<open>/\<close>; the test on files looks for entries that
  name the directory by its index.
\<close>

definition rmdir_stop :: "char list \<Rightarrow> ramfs \<Rightarrow> nat \<Rightarrow> bool option" where
  "rmdir_stop name s i =
     do { r \<leftarrow> (if i = 0 then strcmp name (''/'' @ [NUL]) else Some 1);
          (if r = 0 then Some True
           else do { e \<leftarrow> rd (directory_table s) i; c \<leftarrow> strcmp (d_name e) name;
                     Some (c = 0 \<and> d_parent e = current_directory s) }) }"

definition ramfsrmdir :: "char list \<Rightarrow> ramfs \<Rightarrow> ramfs option" where
  "ramfsrmdir name s =
     do { r \<leftarrow> first_ok (rmdir_stop name s) 0 (directory_count s);
          (case r of
             None \<Rightarrow> Some s
           | Some i \<Rightarrow>
               do { root \<leftarrow> (if i = 0 then strcmp name (''/'' @ [NUL]) else Some 1);
                    (if root = 0 then Some s
                     else do { f \<leftarrow> first_ok (\<lambda>f. map_option (\<lambda>e. f_parent e = i) (rd (file_table s) f)) 0 (file_count s);
                               (if f \<noteq> None then Some s
                                else do { t \<leftarrow> shift_down i (directory_count s) (directory_table s);
                                          Some (s\<lparr>directory_table := t, directory_count := directory_count s - 1\<rparr>) }) }) }) }"

definition ramfs_find_file :: "char list \<Rightarrow> ramfs \<Rightarrow> int option" where
  "ramfs_find_file name s =
     do { r \<leftarrow> first_ok (\<lambda>i. do { e \<leftarrow> rd (file_table s) i; c \<leftarrow> strcmp (f_name e) name; Some (c = 0) }) 0 (file_count s);
          Some (case r of Some i \<Rightarrow> int i | None \<Rightarrow> -1) }"

definition ramfsread_at :: "char list \<Rightarrow> u32 \<Rightarrow> u32 \<Rightarrow> char list \<Rightarrow> ramfs \<Rightarrow> char list option" where
  "ramfsread_at filename offset sz buffer s =
     do { idx \<leftarrow> ramfs_find_file filename s;
          (if idx \<noteq> -1
           then do { e \<leftarrow> rd (file_table s) (nat idx);
                     memcpy buffer (drop (unat offset) (f_content e)) (sint sz) }
           else Some buffer) }"

subsection \<open>What the commands print\<close>

definition ramfs_cat :: "char list \<Rightarrow> ramfs \<Rightarrow> char list option" where
  "ramfs_cat filename s =
     do { r \<leftarrow> find_file filename s;
          (case r of
             Some i \<Rightarrow> do { e \<leftarrow> rd (file_table s) i; print_text ([LF] @ ''%s'' @ [LF]) [AStr (Some (f_content e))] }
           | None \<Rightarrow> print_text ([LF] @ ''ERR: Not found: %s'' @ [LF]) [AStr (Some filename)]) }"

definition ramfs_pwd :: "ramfs \<Rightarrow> char list option" where
  "ramfs_pwd s =
     (if current_directory s = 0 then print_text ([LF] @ ''/'' @ [LF]) []
      else do { e \<leftarrow> rd (directory_table s) (current_directory s);
                print_text ([LF] @ ''/%s'' @ [LF]) [AStr (Some (d_name e))] })"

text \<open>One line of the listing for each entry of the current directory.\<close>

definition list_dir :: "ramfs \<Rightarrow> nat \<Rightarrow> char list option" where
  "list_dir s i =
     do { e \<leftarrow> rd (directory_table s) i;
          (if d_parent e = current_directory s
           then do { n \<leftarrow> strlen (d_name e);
                     (if n > 0 then print_text ([LF] @ ''  %s/'') [AStr (Some (d_name e))] else Some []) }
           else Some []) }"

definition list_file :: "ramfs \<Rightarrow> nat \<Rightarrow> char list option" where
  "list_file s i =
     do { e \<leftarrow> rd (file_table s) i;
          (if f_parent e = current_directory s
           then do { t \<leftarrow> print_text ([LF] @ ''  %s'') [AStr (Some (f_name e))];
                     n \<leftarrow> strlen (f_name e);
                     let spaces = (if 20 - int n < 1 then 1 else 20 - n);
                     u \<leftarrow> (if f_size e < 1024 then print_text ''%d B'' [AInt (of_nat (f_size e))]
                          else print_text ''%d KB'' [AInt (of_nat (f_size e div 1024))]);
                     Some (t @ replicate spaces (CHR '' '') @ u) }
           else Some []) }"

primrec concat_texts :: "(nat \<Rightarrow> char list option) \<Rightarrow> nat list \<Rightarrow> char list option" where
  "concat_texts f [] = Some []"
| "concat_texts f (i # is) = do { t \<leftarrow> f i; u \<leftarrow> concat_texts f is; Some (t @ u) }"

definition ramfs_list_items :: "ramfs \<Rightarrow> char list option" where
  "ramfs_list_items s =
     do { ds \<leftarrow> concat_texts (list_dir s) [0..<directory_count s];
          fs \<leftarrow> concat_texts (list_file s) [0..<file_count s];
          Some ([LF] @ ''  .  '' @ [LF] @ ''  .. '' @ ds @ fs @ [LF]) }"

end
