(* ===== verification/Ramfs_Spec.thy ===== *)
theory Ramfs_Spec
  imports Ramfs CString_Copy
begin

text \<open>
  The file table of the table based file system is a map from (directory, name) to contents: every
  session of \<open>touch\<close> and \<open>rm\<close> in any directories, names and contents within their fields, refines
  the session on the map. Removing a directory is different: it renumbers the directories behind it.
\<close>

definition file_ok :: "FileEntry \<Rightarrow> bool" where
  "file_ok e \<longleftrightarrow> length (f_name e) = MAX_NAME_LENGTH \<and> NUL \<in> set (f_name e) \<and>
     length (f_content e) = MAX_CONTENT_LENGTH \<and> NUL \<in> set (f_content e)"

definition file_key :: "FileEntry \<Rightarrow> nat \<times> char list" where
  "file_key e = (f_parent e, c_string (f_name e))"

definition file_pair :: "FileEntry \<Rightarrow> (nat \<times> char list) \<times> char list" where
  "file_pair e = (file_key e, c_string (f_content e))"

definition files :: "ramfs \<Rightarrow> FileEntry list" where
  "files s = take (file_count s) (file_table s)"

definition file_pairs :: "ramfs \<Rightarrow> ((nat \<times> char list) \<times> char list) list" where
  "file_pairs s = map file_pair (files s)"

definition ramfs_repr :: "ramfs \<Rightarrow> (nat \<times> char list \<rightharpoonup> char list) \<Rightarrow> bool" where
  "ramfs_repr s m \<longleftrightarrow> length (file_table s) = MAX_FILES \<and> file_count s \<le> MAX_FILES \<and>
     (\<forall>e \<in> set (file_table s). file_ok e) \<and> distinct (map fst (file_pairs s)) \<and> m = map_of (file_pairs s)"

definition key_fits :: "nat \<times> char list \<Rightarrow> bool" where
  "key_fits k \<longleftrightarrow> NUL \<notin> set (snd k) \<and> length (snd k) < MAX_NAME_LENGTH"

definition content_fits :: "char list \<Rightarrow> bool" where
  "content_fits v \<longleftrightarrow> NUL \<notin> set v \<and> length v < MAX_CONTENT_LENGTH"

text \<open>The operations of the code, run in the directory that the key names.\<close>

definition ram_get :: "nat \<times> char list \<Rightarrow> ramfs \<Rightarrow> char list option option" where
  "ram_get k s =
     do { r \<leftarrow> find_file (snd k @ [NUL]) (s\<lparr>current_directory := fst k\<rparr>);
          (case r of None \<Rightarrow> Some None
           | Some i \<Rightarrow> do { e \<leftarrow> rd (file_table s) i; Some (Some (c_string (f_content e))) }) }"

definition ram_put :: "nat \<times> char list \<Rightarrow> char list \<Rightarrow> ramfs \<Rightarrow> (bool \<times> ramfs) option" where
  "ram_put k v s =
     do { (r, s') \<leftarrow> ramfs_touch (snd k @ [NUL]) (v @ [NUL]) (s\<lparr>current_directory := fst k\<rparr>); Some (r = 0, s') }"

definition ram_del :: "nat \<times> char list \<Rightarrow> ramfs \<Rightarrow> (bool \<times> ramfs) option" where
  "ram_del k s =
     do { s' \<leftarrow> ramfs_rm (snd k @ [NUL]) (s\<lparr>current_directory := fst k\<rparr>); Some (file_count s' \<noteq> file_count s, s') }"

lemma files_in: "ramfs_repr s m \<Longrightarrow> i < file_count s \<Longrightarrow>
    i < length (file_table s) \<and> file_ok (file_table s ! i) \<and> length (file_pairs s) = file_count s \<and>
    file_pairs s ! i = file_pair (file_table s ! i)"
  by (auto simp: ramfs_repr_def file_pairs_def files_def)

lemma name_match:
  assumes "file_ok e" and "cstr b x"
  shows "\<exists>c. strcmp (f_name e) b = Some c \<and> (c = 0 \<longleftrightarrow> c_string (f_name e) = x)"
  using strcmp_eq [OF cstr_c_string assms(2)] assms(1) by (auto simp: file_ok_def)

lemma file_match_key:
  assumes "ramfs_repr s m" and "i < file_count s" and "cstr b x"
  shows "file_match b s i = Some (fst (file_pairs s ! i) = (current_directory s, x))"
    and "file_match_rm b s i = Some (fst (file_pairs s ! i) = (current_directory s, x))"
  using files_in [OF assms(1,2)] name_match [OF _ assms(3), of "file_table s ! i"]
  by (auto simp: file_match_def file_match_rm_def file_pair_def file_key_def)

lemma find_file_key:
  assumes "ramfs_repr s m" and "cstr b x"
  defines "r \<equiv> find (\<lambda>i. fst (file_pairs s ! i) = (current_directory s, x)) [0..<length (file_pairs s)]"
  shows "find_file b s = Some r" and "first_ok (file_match_rm b s) 0 (file_count s) = Some r"
proof -
  have "length (file_pairs s) = file_count s"
    using assms(1) by (simp add: ramfs_repr_def file_pairs_def files_def)
  then show "find_file b s = Some r" "first_ok (file_match_rm b s) 0 (file_count s) = Some r"
    unfolding r_def find_file_def using file_match_key [OF assms(1) _ assms(2)]
    by (auto intro: first_ok_eq_find)
qed

lemma repr_dir [simp]: "ramfs_repr (s\<lparr>current_directory := d\<rparr>) m = ramfs_repr s m"
    "file_pairs (s\<lparr>current_directory := d\<rparr>) = file_pairs s"
  by (simp_all add: ramfs_repr_def file_pairs_def files_def)

lemma cstr_arg: "NUL \<notin> set x \<Longrightarrow> cstr (x @ [NUL]) x"
  by auto

lemma find_pair_cases [consumes 1, case_names found missing]:
  assumes "ramfs_repr s m"
  obtains (found) i where "find (\<lambda>i. fst (file_pairs s ! i) = k) [0..<length (file_pairs s)] = Some i"
      "i < file_count s" "fst (file_pairs s ! i) = k" "m k = Some (snd (file_pairs s ! i))"
  | (missing) "find (\<lambda>i. fst (file_pairs s ! i) = k) [0..<length (file_pairs s)] = None" "m k = None"
proof -
  have d: "distinct (map fst (file_pairs s))" and m: "m = map_of (file_pairs s)"
    and l: "length (file_pairs s) = file_count s"
    using assms by (simp_all add: ramfs_repr_def file_pairs_def files_def)
  show ?thesis
    using find_key [OF d, of k] m l found missing
    by (cases "find (\<lambda>i. fst (file_pairs s ! i) = k) [0..<length (file_pairs s)]") auto
qed

lemma ram_get_spec:
  assumes "ramfs_repr s m" and "key_fits k"
  shows "ram_get k s = Some (m k)"
proof -
  let ?s = "s\<lparr>current_directory := fst k\<rparr>"
  have c: "cstr (snd k @ [NUL]) (snd k)" using assms(2) by (simp add: key_fits_def cstr_arg)
  have f: "find_file (snd k @ [NUL]) ?s = Some (find (\<lambda>i. fst (file_pairs s ! i) = k) [0..<length (file_pairs s)])"
    using find_file_key(1) [of ?s m, OF _ c] assms(1) by simp
  from assms(1) show ?thesis
  proof (cases rule: find_pair_cases [where k = k])
    case (found i)
    with f files_in [OF assms(1) found(2)] show ?thesis by (simp add: ram_get_def file_pair_def)
  next
    case missing
    with f show ?thesis by (simp add: ram_get_def)
  qed
qed

text \<open>Changing one entry of the table, or appending one.\<close>

lemma repr_replace:
  assumes "ramfs_repr s m" and "i < file_count s" and "file_ok e" and "file_key e = fst (file_pairs s ! i)"
  shows "ramfs_repr (s\<lparr>file_table := (file_table s)[i := e]\<rparr>) (m(file_key e \<mapsto> c_string (f_content e)))"
proof -
  note i = files_in [OF assms(1,2)]
  have p: "file_pairs (s\<lparr>file_table := (file_table s)[i := e]\<rparr>) = (file_pairs s)[i := file_pair e]"
    using assms(2) by (simp add: file_pairs_def files_def take_update_swap map_update)
  have e: "file_pair e = (file_key e, c_string (f_content e))" by (simp add: file_pair_def)
  have d: "distinct (map fst (file_pairs s))" using assms(1) by (simp add: ramfs_repr_def)
  have "distinct (map fst ((file_pairs s)[i := file_pair e]))"
    using distinct_replace_key [OF d, of i "file_pair e"] i assms(2,4) by (simp add: e)
  moreover have "map_of ((file_pairs s)[i := file_pair e]) = m(file_key e \<mapsto> c_string (f_content e))"
    using map_of_replace [OF d, of i "file_key e"] i assms(1,2,4) by (simp add: e ramfs_repr_def)
  moreover have "\<forall>x \<in> set ((file_table s)[i := e]). file_ok x"
    using assms(1,3) set_update_subset_insert [of "file_table s" i e] by (auto simp: ramfs_repr_def)
  ultimately show ?thesis using assms(1) by (simp add: ramfs_repr_def p)
qed

lemma repr_append:
  assumes "ramfs_repr s m" and "file_count s < MAX_FILES" and "file_ok e" and "m (file_key e) = None"
  shows "ramfs_repr (s\<lparr>file_table := (file_table s)[file_count s := e], file_count := file_count s + 1\<rparr>)
    (m(file_key e \<mapsto> c_string (f_content e)))"
proof -
  let ?s = "s\<lparr>file_table := (file_table s)[file_count s := e], file_count := file_count s + 1\<rparr>"
  have n: "file_count s < length (file_table s)" using assms(1,2) by (simp add: ramfs_repr_def)
  have "files ?s = files s @ [e]" using n by (simp add: files_def take_Suc_conv_app_nth)
  then have p: "file_pairs ?s = file_pairs s @ [(file_key e, c_string (f_content e))]"
    by (simp add: file_pairs_def file_pair_def)
  have k: "file_key e \<notin> fst ` set (file_pairs s)"
    using assms(1,4) by (auto simp: ramfs_repr_def map_of_eq_None_iff)
  have "map_of (file_pairs ?s) = m(file_key e \<mapsto> c_string (f_content e))"
    using map_of_snoc [OF k] assms(1) unfolding p by (simp add: ramfs_repr_def)
  moreover have "\<forall>x \<in> set ((file_table s)[file_count s := e]). file_ok x"
    using assms(1,3) set_update_subset_insert [of "file_table s" "file_count s" e] by (auto simp: ramfs_repr_def)
  moreover have "distinct (map fst (file_pairs ?s))" using k assms(1) unfolding p by (simp add: ramfs_repr_def)
  ultimately show ?thesis using assms(1,2) by (simp add: ramfs_repr_def)
qed

text \<open>\<open>touch\<close> in the directory of the key.\<close>

lemma touch_entry:
  assumes "file_ok e" and "content_fits v"
  shows "\<exists>c. strcpy (f_content e) (v @ [NUL]) = Some c \<and> strlen (v @ [NUL]) = Some (length v) \<and>
    c_string c = v \<and> file_ok (e\<lparr>f_content := c, f_size := length v\<rparr>)"
proof -
  have v: "cstr (v @ [NUL]) v" using assms(2) by (simp add: content_fits_def cstr_arg)
  obtain c where c: "strcpy (f_content e) (v @ [NUL]) = Some c" "cstr c v" "length c = MAX_CONTENT_LENGTH"
    using strcpy_fits [OF v, of "f_content e"] assms by (auto simp: file_ok_def content_fits_def)
  moreover have "strlen (v @ [NUL]) = Some (length v)" using strlen_from_cstr [OF v, of 0] by (simp add: strlen_def)
  ultimately show ?thesis using assms(1) by (auto simp: cstr_iff file_ok_def)
qed

lemma ram_put_spec:
  assumes "ramfs_repr s m" and "key_fits k" and "content_fits v"
  shows "\<exists>b s'. ram_put k v s = Some (b, s') \<and> ramfs_repr s' (if b then m(k \<mapsto> v) else m)"
proof -
  let ?s = "s\<lparr>current_directory := fst k\<rparr>"
  have r: "ramfs_repr ?s m" using assms(1) by simp
  have c: "cstr (snd k @ [NUL]) (snd k)" using assms(2) by (simp add: key_fits_def cstr_arg)
  have f: "find_file (snd k @ [NUL]) ?s = Some (find (\<lambda>i. fst (file_pairs s ! i) = k) [0..<length (file_pairs s)])"
    using find_file_key(1) [OF r c] by simp
  from assms(1) show ?thesis
  proof (cases rule: find_pair_cases [where k = k])
    case (found i)
    let ?e = "file_table s ! i"
    note i = files_in [OF assms(1) found(2)]
    obtain ct where ct: "strcpy (f_content ?e) (v @ [NUL]) = Some ct" "strlen (v @ [NUL]) = Some (length v)"
        "c_string ct = v" "file_ok (?e\<lparr>f_content := ct, f_size := length v\<rparr>)"
      using touch_entry [OF _ assms(3), of ?e] i by blast
    let ?e' = "?e\<lparr>f_content := ct, f_size := length v\<rparr>"
    have "file_key ?e' = k" using i found(3) by (simp add: file_key_def file_pair_def)
    then have "ramfs_repr (?s\<lparr>file_table := (file_table ?s)[i := ?e']\<rparr>) (m(k \<mapsto> v))"
      using repr_replace [OF r, of i ?e'] found ct(3,4) by simp
    moreover have "ram_put k v s = Some (True, ?s\<lparr>file_table := (file_table ?s)[i := ?e']\<rparr>)"
      using f found(1) ct i by (simp add: ram_put_def ramfs_touch_def)
    ultimately show ?thesis by (intro exI conjI) (assumption, simp)
  next
    case missing
    show ?thesis
    proof (cases "file_count s < MAX_FILES")
      case False
      have "ramfs_repr (?s\<lparr>ramfsneeds_sync := True\<rparr>) m" using assms(1) by (simp add: ramfs_repr_def file_pairs_def files_def)
      moreover have "ram_put k v s = Some (False, ?s\<lparr>ramfsneeds_sync := True\<rparr>)"
        using f missing(1) False by (simp add: ram_put_def ramfs_touch_def)
      ultimately show ?thesis by (intro exI conjI) (assumption, simp)
    next
      case True
      let ?e = "file_table s ! file_count s"
      have n: "file_count s < length (file_table s)" using True assms(1) by (simp add: ramfs_repr_def)
      then have ok: "file_ok ?e" using assms(1) by (simp add: ramfs_repr_def)
      obtain ct where ct: "strcpy (f_content ?e) (v @ [NUL]) = Some ct" "strlen (v @ [NUL]) = Some (length v)"
          "c_string ct = v" "file_ok (?e\<lparr>f_content := ct, f_size := length v\<rparr>)"
        using touch_entry [OF ok assms(3)] by blast
      obtain nm where nm: "strcpy (f_name ?e) (snd k @ [NUL]) = Some nm" "cstr nm (snd k)" "length nm = MAX_NAME_LENGTH"
        using strcpy_fits [OF c, of "f_name ?e"] ok assms(2) by (auto simp: file_ok_def key_fits_def)
      let ?e' = "?e\<lparr>f_name := nm, f_content := ct, f_size := length v, f_parent := fst k\<rparr>"
      have e': "file_ok ?e'" "file_key ?e' = k"
        using nm ct(4) by (auto simp: file_ok_def file_key_def cstr_iff prod_eq_iff)
      have "ramfs_repr (?s\<lparr>file_table := (file_table ?s)[file_count ?s := ?e'], file_count := file_count ?s + 1\<rparr>) (m(k \<mapsto> v))"
        using repr_append [OF r _ e'(1)] True missing(2) e'(2) ct(3) by simp
      moreover have "ram_put k v s =
          Some (True, ?s\<lparr>file_table := (file_table ?s)[file_count ?s := ?e'], file_count := file_count ?s + 1\<rparr>)"
        using f missing(1) True ct nm n by (simp add: ram_put_def ramfs_touch_def)
      ultimately show ?thesis by (intro exI conjI) (assumption, simp)
    qed
  qed
qed

text \<open>Moving the entries down.\<close>

lemma shift_down_run:
  assumes "j < n" and "n \<le> length tab"
  shows "\<exists>t. shift_down j n tab = Some t \<and> length t = length tab \<and> set t \<subseteq> set tab \<and>
    take (n - 1) t = take j tab @ drop (Suc j) (take n tab)"
  using assms
proof (induction j n tab rule: shift_down.induct)
  case (1 j n tab)
  show ?case
  proof (cases "j < n - 1")
    case True
    let ?t = "tab[j := tab ! Suc j]"
    have j: "Suc j < n" "Suc j < length tab" using True 1(3) by auto
    obtain t where t: "shift_down (Suc j) n ?t = Some t" "length t = length ?t" "set t \<subseteq> set ?t"
        "take (n - 1) t = take (Suc j) ?t @ drop (Suc (Suc j)) (take n ?t)"
      using 1(1) [of "tab ! Suc j" ?t] True j 1(3) by (auto simp: wr_def)
    have "set ?t \<subseteq> set tab" using set_update_subset_insert [of tab j "tab ! Suc j"] j by auto
    moreover have "take (Suc j) ?t = take j tab @ [tab ! Suc j]" using j by (simp add: take_Suc_conv_app_nth)
    moreover have "drop (Suc j) (take n tab) = tab ! Suc j # drop (Suc (Suc j)) (take n ?t)"
      using j 1(3) by (subst Cons_nth_drop_Suc [symmetric]) (auto simp: take_update_swap)
    moreover have "shift_down j n tab = shift_down (Suc j) n ?t"
      using True j by (subst shift_down.simps) simp
    ultimately show ?thesis using t by auto
  next
    case False
    then have "n = Suc j" using 1(2) by simp
    with 1 show ?thesis by (subst shift_down.simps) auto
  qed
qed

lemma shift_down_E:
  assumes "shift_down j n tab = Some t" and "j < n" and "n \<le> length tab"
  shows "length t = length tab \<and> set t \<subseteq> set tab \<and> take (n - 1) t = take j tab @ drop (Suc j) (take n tab)"
  using shift_down_run [OF assms(2,3)] assms(1) by fastforce

lemma ram_del_spec:
  assumes "ramfs_repr s m" and "key_fits k"
  shows "\<exists>s'. ram_del k s = Some (k \<in> dom m, s') \<and> ramfs_repr s' (m(k := None))"
proof -
  let ?s = "s\<lparr>current_directory := fst k\<rparr>"
  have r: "ramfs_repr ?s m" using assms(1) by simp
  have c: "cstr (snd k @ [NUL]) (snd k)" using assms(2) by (simp add: key_fits_def cstr_arg)
  have f: "first_ok (file_match_rm (snd k @ [NUL]) ?s) 0 (file_count s) =
      Some (find (\<lambda>i. fst (file_pairs s ! i) = k) [0..<length (file_pairs s)])"
    using find_file_key(2) [OF r c] by simp
  from assms(1) show ?thesis
  proof (cases rule: find_pair_cases [where k = k])
    case missing
    then have "m(k := None) = m" by auto
    with missing f r show ?thesis by (auto simp: ram_del_def ramfs_rm_def domIff)
  next
    case (found i)
    note i = files_in [OF assms(1) found(2)]
    have n: "file_count s \<le> length (file_table s)" using assms(1) by (simp add: ramfs_repr_def)
    obtain t where t: "shift_down i (file_count s) (file_table s) = Some t" "length t = length (file_table s)"
        "set t \<subseteq> set (file_table s)" "take (file_count s - 1) t = take i (file_table s) @ drop (Suc i) (take (file_count s) (file_table s))"
      using shift_down_run [OF found(2) n] by blast
    let ?s' = "?s\<lparr>file_table := t, file_count := file_count s - 1\<rparr>"
    have fs: "files ?s' = take i (files s) @ drop (Suc i) (files s)"
      using t(4) found(2) by (simp add: files_def min_def)
    then have p: "file_pairs ?s' = take i (file_pairs s) @ drop (Suc i) (file_pairs s)"
      by (simp add: file_pairs_def take_map drop_map)
    have d: "distinct (map fst (file_pairs s))" and m: "m = map_of (file_pairs s)"
      using assms(1) by (simp_all add: ramfs_repr_def)
    have "map_of (file_pairs ?s') = m(k := None)"
      using map_of_take_out [OF d, of i k] i found(2,3) unfolding p m by simp
    moreover have "distinct (map fst (file_pairs ?s'))"
      using distinct_take_out [OF d, of i] unfolding p by (simp add: take_map drop_map)
    moreover have "\<forall>e \<in> set t. file_ok e" using assms(1) t(3) by (auto simp: ramfs_repr_def)
    ultimately have "ramfs_repr ?s' (m(k := None))"
      using assms(1) t(2) unfolding ramfs_repr_def by (simp del: fun_upd_apply) linarith
    moreover have "ram_del k s = Some (True, ?s')"
      using f found t(1) by (simp add: ram_del_def ramfs_rm_def)
    ultimately show ?thesis using found(4) by (auto simp: domIff)
  qed
qed

interpretation ram: kv_store ramfs_repr key_fits content_fits "\<lambda>k m. m" ram_get ram_put ram_del
  by unfold_locales (simp_all add: ram_get_spec ram_put_spec ram_del_spec)

subsection \<open>Well-formed tables\<close>

text \<open>
  Enough for memory safety: names and contents are terminated, and every directory index, also a
  stale one, is inside the table.
\<close>

definition dir_ok :: "DirectoryEntry \<Rightarrow> bool" where
  "dir_ok e \<longleftrightarrow> length (d_name e) = MAX_NAME_LENGTH \<and> NUL \<in> set (d_name e) \<and> d_parent e < MAX_DIRECTORIES"

definition ramfs_wf :: "ramfs \<Rightarrow> bool" where
  "ramfs_wf s \<longleftrightarrow> length (directory_table s) = MAX_DIRECTORIES \<and> length (file_table s) = MAX_FILES \<and>
     directory_count s \<le> MAX_DIRECTORIES \<and> file_count s \<le> MAX_FILES \<and> current_directory s < MAX_DIRECTORIES \<and>
     (\<forall>e \<in> set (directory_table s). dir_ok e) \<and> (\<forall>e \<in> set (file_table s). file_ok e)"

lemma first_ok_total:
  assumes "\<And>j. j < n \<Longrightarrow> p j \<noteq> None"
  shows "\<exists>r. first_ok p 0 n = Some r \<and> (\<forall>i. r = Some i \<longrightarrow> i < n \<and> p i = Some True)"
proof -
  have "first_ok p 0 n = Some (find (\<lambda>i. the (p i)) [0..<n])"
    using assms by (intro first_ok_eq_find) auto
  moreover have "i < n \<and> p i = Some True" if "find (\<lambda>i. the (p i)) [0..<n] = Some i" for i
    using that assms [of i] by (auto simp: find_upt_Some)
  ultimately show ?thesis by blast
qed

lemma wf_dir: "ramfs_wf s \<Longrightarrow> i < MAX_DIRECTORIES \<Longrightarrow> rd (directory_table s) i = Some (directory_table s ! i) \<and> dir_ok (directory_table s ! i)"
  and wf_file: "ramfs_wf s \<Longrightarrow> j < MAX_FILES \<Longrightarrow> rd (file_table s) j = Some (file_table s ! j) \<and> file_ok (file_table s ! j)"
  by (auto simp: ramfs_wf_def)

lemma dir_name_match:
  assumes "dir_ok e" and "cstr b x"
  shows "\<exists>c. strcmp (d_name e) b = Some c \<and> (c = 0 \<longleftrightarrow> c_string (d_name e) = x)"
  using strcmp_eq [OF cstr_c_string assms(2)] assms(1) by (auto simp: dir_ok_def)

lemma find_dir_total:
  assumes "ramfs_wf s" and "cstr b x"
  shows "\<exists>r. find_dir b s = Some r \<and> (\<forall>i. r = Some i \<longrightarrow> i < directory_count s)"
proof -
  have "dir_match b s j \<noteq> None" if "j < directory_count s" for j
    using wf_dir [OF assms(1), of j] dir_name_match [OF _ assms(2), of "directory_table s ! j"] that assms(1)
    by (auto simp: dir_match_def ramfs_wf_def)
  with first_ok_total [of "directory_count s" "dir_match b s"] show ?thesis unfolding find_dir_def by blast
qed

lemma find_file_total:
  assumes "ramfs_wf s" and "cstr b x"
  shows "\<exists>r. find_file b s = Some r \<and> (\<forall>i. r = Some i \<longrightarrow> i < file_count s)"
    and "\<exists>r. first_ok (file_match_rm b s) 0 (file_count s) = Some r \<and> (\<forall>i. r = Some i \<longrightarrow> i < file_count s)"
proof -
  have "file_match b s j \<noteq> None" "file_match_rm b s j \<noteq> None" if "j < file_count s" for j
    using wf_file [OF assms(1), of j] name_match [OF _ assms(2), of "file_table s ! j"] that assms(1)
    by (auto simp: file_match_def file_match_rm_def ramfs_wf_def)
  with first_ok_total [of "file_count s" "file_match b s"] first_ok_total [of "file_count s" "file_match_rm b s"]
  show "\<exists>r. find_file b s = Some r \<and> (\<forall>i. r = Some i \<longrightarrow> i < file_count s)"
    "\<exists>r. first_ok (file_match_rm b s) 0 (file_count s) = Some r \<and> (\<forall>i. r = Some i \<longrightarrow> i < file_count s)"
    unfolding find_file_def by blast+
qed

lemma wf_dir_update: "ramfs_wf s \<Longrightarrow> dir_ok e \<Longrightarrow> i < MAX_DIRECTORIES \<Longrightarrow> ramfs_wf (s\<lparr>directory_table := (directory_table s)[i := e]\<rparr>)"
  using set_update_subset_insert [of "directory_table s" i e] by (auto simp: ramfs_wf_def)

lemma wf_file_update: "ramfs_wf s \<Longrightarrow> file_ok e \<Longrightarrow> ramfs_wf (s\<lparr>file_table := (file_table s)[i := e]\<rparr>)"
  using set_update_subset_insert [of "file_table s" i e] by (auto simp: ramfs_wf_def)

lemma wf_counts:
  "ramfs_wf s \<Longrightarrow> n \<le> MAX_DIRECTORIES \<Longrightarrow> ramfs_wf (s\<lparr>directory_count := n\<rparr>)"
  "ramfs_wf s \<Longrightarrow> k \<le> MAX_FILES \<Longrightarrow> ramfs_wf (s\<lparr>file_count := k\<rparr>)"
  "ramfs_wf s \<Longrightarrow> d < MAX_DIRECTORIES \<Longrightarrow> ramfs_wf (s\<lparr>current_directory := d\<rparr>)"
  by (simp_all add: ramfs_wf_def)

lemma mkdir_wf:
  assumes "ramfs_wf s" and "cstr b x" and "length x < MAX_NAME_LENGTH"
  shows "\<exists>r s'. ramfs_mkdir b s = Some (r, s') \<and> ramfs_wf s'"
proof (cases "directory_count s < MAX_DIRECTORIES")
  case False
  with assms(1) show ?thesis by (auto simp: ramfs_mkdir_def)
next
  case True
  obtain r where r: "find_dir b s = Some r" using find_dir_total [OF assms(1,2)] by blast
  let ?e = "directory_table s ! directory_count s"
  note e = wf_dir [OF assms(1) True]
  obtain nm where nm: "strcpy (d_name ?e) b = Some nm" "cstr nm x" "length nm = MAX_NAME_LENGTH"
    using strcpy_fits [OF assms(2), of "d_name ?e"] e assms(3) by (auto simp: dir_ok_def)
  let ?e' = "?e\<lparr>d_name := nm, d_parent := current_directory s\<rparr>"
  have "dir_ok ?e'" using nm assms(1) by (auto simp: dir_ok_def ramfs_wf_def cstr_iff)
  from wf_counts(1) [OF wf_dir_update [OF assms(1) this True], of "Suc (directory_count s)"] True
  have w: "ramfs_wf (s\<lparr>directory_table := (directory_table s)[directory_count s := ?e'], directory_count := Suc (directory_count s)\<rparr>)"
    by simp
  have "wr (directory_table s) (directory_count s) ?e' = Some ((directory_table s)[directory_count s := ?e'])"
    using True assms(1) by (simp add: ramfs_wf_def)
  with r nm e w True assms(1) show ?thesis by (cases r) (simp_all add: ramfs_mkdir_def)
qed

lemma cd_wf:
  assumes "ramfs_wf s" and "cstr b x"
  shows "\<exists>r s'. ramfs_cd b s = Some (r, s') \<and> ramfs_wf s'"
proof -
  obtain c where c: "strcmp b (''/'' @ [NUL]) = Some c" using strcmp_eq [OF assms(2) cstr_arg [of "''/''"]] by auto
  obtain d where d: "strcmp b (''..'' @ [NUL]) = Some d" using strcmp_eq [OF assms(2) cstr_arg [of "''..''"]] by auto
  obtain r where r: "find_dir b s = Some r" "\<forall>i. r = Some i \<longrightarrow> i < directory_count s"
    using find_dir_total [OF assms] by blast
  have cur: "current_directory s < MAX_DIRECTORIES" "directory_count s \<le> MAX_DIRECTORIES"
    using assms(1) by (simp_all add: ramfs_wf_def)
  note up = wf_dir [OF assms(1) cur(1)]
  have up': "ramfs_wf (s\<lparr>current_directory := d_parent (directory_table s ! current_directory s)\<rparr>)"
    using wf_counts(3) [OF assms(1)] up by (simp add: dir_ok_def)
  have z: "ramfs_wf (s\<lparr>current_directory := 0\<rparr>)" using wf_counts(3) [OF assms(1), of 0] by (simp add: MAX_DIRECTORIES_def)
  have t: "r = Some i \<Longrightarrow> ramfs_wf (s\<lparr>current_directory := i\<rparr>)" for i
    using wf_counts(3) [OF assms(1), of i] r(2) cur(2) by simp
  show ?thesis using c d r(1) up up' z t assms(1) by (cases r) (simp_all add: ramfs_cd_def)
qed

lemma touch_wf:
  assumes "ramfs_wf s" and "cstr b x" and "length x < MAX_NAME_LENGTH" and "content_fits v"
  shows "\<exists>r s'. ramfs_touch b (v @ [NUL]) s = Some (r, s') \<and> ramfs_wf s'"
proof -
  obtain r where r: "find_file b s = Some r" "\<forall>i. r = Some i \<longrightarrow> i < file_count s"
    using find_file_total(1) [OF assms(1,2)] by blast
  have fc: "file_count s \<le> MAX_FILES" using assms(1) by (simp add: ramfs_wf_def)
  show ?thesis
  proof (cases r)
    case (Some i)
    note e = wf_file [OF assms(1), of i]
    have i: "i < MAX_FILES" using r(2) Some fc by simp
    obtain ct where ct: "strcpy (f_content (file_table s ! i)) (v @ [NUL]) = Some ct"
        "strlen (v @ [NUL]) = Some (length v)" "file_ok ((file_table s ! i)\<lparr>f_content := ct, f_size := length v\<rparr>)"
      using touch_entry [OF _ assms(4)] e i by blast
    with r Some e i wf_file_update [OF assms(1) ct(3)] assms(1) show ?thesis
      by (simp add: ramfs_touch_def wr_def ramfs_wf_def)
  next
    case None
    show ?thesis
    proof (cases "file_count s < MAX_FILES")
      case False
      with None r(1) assms(1) show ?thesis by (simp add: ramfs_touch_def ramfs_wf_def)
    next
      case True
      let ?e = "file_table s ! file_count s"
      note e = wf_file [OF assms(1) True]
      obtain ct where ct: "strcpy (f_content ?e) (v @ [NUL]) = Some ct" "strlen (v @ [NUL]) = Some (length v)"
          "file_ok (?e\<lparr>f_content := ct, f_size := length v\<rparr>)"
        using touch_entry [OF _ assms(4)] e by blast
      obtain nm where nm: "strcpy (f_name ?e) b = Some nm" "cstr nm x" "length nm = MAX_NAME_LENGTH"
        using strcpy_fits [OF assms(2), of "f_name ?e"] e assms(3) by (auto simp: file_ok_def)
      let ?e' = "?e\<lparr>f_name := nm, f_content := ct, f_size := length v, f_parent := current_directory s\<rparr>"
      have "file_ok ?e'" using nm ct(3) by (auto simp: file_ok_def cstr_iff)
      from wf_counts(2) [OF wf_file_update [OF assms(1) this], of "Suc (file_count s)" "file_count s"] True
      have w: "ramfs_wf (s\<lparr>file_table := (file_table s)[file_count s := ?e'], file_count := Suc (file_count s)\<rparr>)" by simp
      have "wr (file_table s) (file_count s) ?e' = Some ((file_table s)[file_count s := ?e'])"
        using True assms(1) by (simp add: ramfs_wf_def)
      with None r(1) True ct nm e w show ?thesis by (simp add: ramfs_touch_def)
    qed
  qed
qed

lemma rm_wf:
  assumes "ramfs_wf s" and "cstr b x"
  shows "\<exists>s'. ramfs_rm b s = Some s' \<and> ramfs_wf s'"
proof -
  obtain r where r: "first_ok (file_match_rm b s) 0 (file_count s) = Some r" "\<forall>i. r = Some i \<longrightarrow> i < file_count s"
    using find_file_total(2) [OF assms] by blast
  show ?thesis
  proof (cases r)
    case (Some i)
    have "file_count s \<le> length (file_table s)" using assms(1) by (simp add: ramfs_wf_def)
    then obtain t where t: "shift_down i (file_count s) (file_table s) = Some t" "length t = length (file_table s)"
        "set t \<subseteq> set (file_table s)"
      using shift_down_run [of i "file_count s" "file_table s"] r(2) Some by blast
    have "ramfs_wf (s\<lparr>file_table := t, file_count := file_count s - 1\<rparr>)"
      using assms(1) t(2,3) by (auto simp: ramfs_wf_def)
    with r(1) Some t(1) show ?thesis by (simp add: ramfs_rm_def)
  qed (use r assms in \<open>simp add: ramfs_rm_def\<close>)
qed

text \<open>The loop of \<open>ramfsrmdir\<close>: the entry it stops at, and that it finds one of the current directory.\<close>

lemma rmdir_stop_run:
  assumes "ramfs_wf s" and "cstr b x" and "i < directory_count s"
  shows "rmdir_stop b s i = Some (i = 0 \<and> x = ''/'' \<or>
    c_string (d_name (directory_table s ! i)) = x \<and> d_parent (directory_table s ! i) = current_directory s)"
proof -
  obtain c where c: "strcmp b (''/'' @ [NUL]) = Some c" "c = 0 \<longleftrightarrow> x = ''/''"
    using strcmp_eq [OF assms(2) cstr_arg [of "''/''"]] by auto
  have "i < MAX_DIRECTORIES" using assms(1,3) by (simp add: ramfs_wf_def)
  note e = wf_dir [OF assms(1) this]
  then obtain d where d: "strcmp (d_name (directory_table s ! i)) b = Some d"
      "d = 0 \<longleftrightarrow> c_string (d_name (directory_table s ! i)) = x"
    using dir_name_match [OF _ assms(2)] by blast
  show ?thesis using c d e by (cases "i = 0") (auto simp: rmdir_stop_def)
qed

lemma files_in_total:
  assumes "ramfs_wf s"
  shows "\<exists>f. first_ok (\<lambda>f. map_option (\<lambda>e. f_parent e = i) (rd (file_table s) f)) 0 (file_count s) = Some f \<and>
    (f = None \<longleftrightarrow> (\<forall>j < file_count s. f_parent (file_table s ! j) \<noteq> i))"
proof -
  have "first_ok (\<lambda>f. map_option (\<lambda>e. f_parent e = i) (rd (file_table s) f)) 0 (file_count s) =
      Some (find (\<lambda>j. f_parent (file_table s ! j) = i) [0..<file_count s])"
    using assms by (intro first_ok_eq_find) (simp add: ramfs_wf_def)
  then show ?thesis by (auto simp: find_upt_None)
qed

text \<open>When a directory is removed: which one it was, and what is left.\<close>

lemma rmdir_cases:
  assumes "ramfs_wf s" and "cstr b x"
  shows "ramfsrmdir b s = Some s \<or>
    (\<exists>i t. i < directory_count s \<and> c_string (d_name (directory_table s ! i)) = x \<and>
       d_parent (directory_table s ! i) = current_directory s \<and>
       (\<forall>j < file_count s. f_parent (file_table s ! j) \<noteq> i) \<and>
       shift_down i (directory_count s) (directory_table s) = Some t \<and>
       ramfsrmdir b s = Some (s\<lparr>directory_table := t, directory_count := directory_count s - 1\<rparr>))"
proof -
  obtain r where r: "first_ok (rmdir_stop b s) 0 (directory_count s) = Some r"
      "\<forall>i. r = Some i \<longrightarrow> i < directory_count s \<and> rmdir_stop b s i = Some True"
    using first_ok_total [of "directory_count s" "rmdir_stop b s"] rmdir_stop_run [OF assms] by auto
  show ?thesis
  proof (cases r)
    case None
    with r(1) show ?thesis by (simp add: ramfsrmdir_def)
  next
    case (Some i)
    with r(2) have i: "i < directory_count s" "rmdir_stop b s i = Some True" by simp_all
    obtain c where c: "strcmp b (''/'' @ [NUL]) = Some c" "c = 0 \<longleftrightarrow> x = ''/''"
      using strcmp_eq [OF assms(2) cstr_arg [of "''/''"]] by auto
    show ?thesis
    proof (cases "i = 0 \<and> x = ''/''")
      case True
      with r(1) Some c show ?thesis by (simp add: ramfsrmdir_def)
    next
      case False
      with i rmdir_stop_run [OF assms i(1)] have e: "c_string (d_name (directory_table s ! i)) = x"
          "d_parent (directory_table s ! i) = current_directory s" by auto
      obtain f where f: "first_ok (\<lambda>f. map_option (\<lambda>e. f_parent e = i) (rd (file_table s) f)) 0 (file_count s) = Some f"
          "f = None \<longleftrightarrow> (\<forall>j < file_count s. f_parent (file_table s ! j) \<noteq> i)"
        using files_in_total [OF assms(1)] by blast
      have root: "(if i = 0 then strcmp b (''/'' @ [NUL]) else Some 1) = Some (if i = 0 then c else 1)"
          "(if i = 0 then c else 1) \<noteq> 0" using c False by auto
      have "directory_count s \<le> length (directory_table s)" using assms(1) by (simp add: ramfs_wf_def)
      then obtain t where t: "shift_down i (directory_count s) (directory_table s) = Some t"
        using shift_down_run [OF i(1)] by blast
      have "ramfsrmdir b s = (if f \<noteq> None then Some s
          else Some (s\<lparr>directory_table := t, directory_count := directory_count s - 1\<rparr>))"
        unfolding ramfsrmdir_def r(1) Some using root f(1) t by simp
      with e f(2) t i(1) show ?thesis by (cases f) auto
    qed
  qed
qed

lemma rmdir_wf:
  assumes "ramfs_wf s" and "cstr b x"
  shows "\<exists>s'. ramfsrmdir b s = Some s' \<and> ramfs_wf s'"
  using rmdir_cases [OF assms]
proof (elim disjE exE conjE)
  fix i t
  assume i: "i < directory_count s" and sh: "shift_down i (directory_count s) (directory_table s) = Some t"
    and run: "ramfsrmdir b s = Some (s\<lparr>directory_table := t, directory_count := directory_count s - 1\<rparr>)"
  have "directory_count s \<le> length (directory_table s)" using assms(1) by (simp add: ramfs_wf_def)
  then have "length t = length (directory_table s)" "set t \<subseteq> set (directory_table s)"
    using shift_down_E [OF sh i] by blast+
  then have "ramfs_wf (s\<lparr>directory_table := t, directory_count := directory_count s - 1\<rparr>)"
    using assms(1) by (auto simp: ramfs_wf_def)
  with run show ?thesis by blast
qed (use assms in blast)

subsection \<open>Properties\<close>

lemma card_dom_map_of: "distinct (map fst xs) \<Longrightarrow> card (dom (map_of xs)) = length xs"
  by (metis distinct_card dom_map_of_conv_image_fst length_map set_map)

lemma ram_put_room:
  assumes "ramfs_repr s m" and "key_fits k" and "content_fits v"
  shows "\<exists>s'. ram_put k v s = Some (k \<in> dom m \<or> card (dom m) < MAX_FILES, s')"
proof -
  let ?s = "s\<lparr>current_directory := fst k\<rparr>"
  have r: "ramfs_repr ?s m" using assms(1) by simp
  have c: "cstr (snd k @ [NUL]) (snd k)" using assms(2) by (simp add: key_fits_def cstr_arg)
  have f: "find_file (snd k @ [NUL]) ?s = Some (find (\<lambda>i. fst (file_pairs s ! i) = k) [0..<length (file_pairs s)])"
    using find_file_key(1) [OF r c] by simp
  have "length (file_pairs s) = file_count s"
    using assms(1) by (simp add: ramfs_repr_def file_pairs_def files_def)
  then have n: "card (dom m) = file_count s"
    using assms(1) card_dom_map_of [of "file_pairs s"] by (simp add: ramfs_repr_def)
  obtain b s' where put: "ram_put k v s = Some (b, s')" using ram_put_spec [OF assms] by blast
  from assms(1) have "b \<longleftrightarrow> k \<in> dom m \<or> card (dom m) < MAX_FILES"
  proof (cases rule: find_pair_cases [where k = k])
    case (found i)
    with f put show ?thesis by (auto simp: ram_put_def ramfs_touch_def bind_eq_Some_conv)
  next
    case missing
    with f put n show ?thesis by (auto simp: ram_put_def ramfs_touch_def bind_eq_Some_conv split: if_splits)
  qed
  with put show ?thesis by blast
qed

lemma print_string:
  assumes "cstr b x"
  shows "print_text ([LF] @ ''%s'' @ [LF]) [AStr (Some b)] = Some (LF # x @ [LF])"
    and "print_text ([LF] @ ''ERR: Not found: %s'' @ [LF]) [AStr (Some b)] = Some (LF # ''ERR: Not found: '' @ x @ [LF])"
proof -
  have "until_nul b = Some x" using assms by (induction x arbitrary: b) (auto simp: cstr_simps)
  then show "print_text ([LF] @ ''%s'' @ [LF]) [AStr (Some b)] = Some (LF # x @ [LF])"
    "print_text ([LF] @ ''ERR: Not found: %s'' @ [LF]) [AStr (Some b)] = Some (LF # ''ERR: Not found: '' @ x @ [LF])"
    by (simp_all add: print_text_def format_text.simps printk_precision_def convert_def LF_def)
qed

lemma ram_cat:
  assumes "ramfs_repr s m" and "key_fits k"
  shows "ramfs_cat (snd k @ [NUL]) (s\<lparr>current_directory := fst k\<rparr>) =
    Some (case m k of Some v \<Rightarrow> LF # v @ [LF] | None \<Rightarrow> LF # ''ERR: Not found: '' @ snd k @ [LF])"
proof -
  let ?s = "s\<lparr>current_directory := fst k\<rparr>"
  have c: "cstr (snd k @ [NUL]) (snd k)" using assms(2) by (simp add: key_fits_def cstr_arg)
  have f: "find_file (snd k @ [NUL]) ?s = Some (find (\<lambda>i. fst (file_pairs s ! i) = k) [0..<length (file_pairs s)])"
    using find_file_key(1) [of ?s m, OF _ c] assms(1) by simp
  from assms(1) show ?thesis
  proof (cases rule: find_pair_cases [where k = k])
    case (found i)
    note e = files_in [OF assms(1) found(2)]
    then have "cstr (f_content (file_table s ! i)) (snd (file_pairs s ! i))"
      by (simp add: file_pair_def file_ok_def cstr_c_string)
    from print_string(1) [OF this] f found e show ?thesis by (simp add: ramfs_cat_def)
  next
    case missing
    with f print_string(2) [OF c] show ?thesis by (simp add: ramfs_cat_def)
  qed
qed

text \<open>
  C14: the file table of the table based file system is a map from (directory, name) to contents.
  From any table that stands for a map, a session of \<open>touch\<close> and \<open>rm\<close> in any directories, with names
  of less than 30 and contents of less than 1024 characters (\<open>key_fits\<close>, \<open>content_fits\<close>; the code copies
  both with \<open>strcpy\<close> and checks neither, so longer ones overflow their arrays), never leaves an array,
  and ends in a table for the map that the session gives; afterwards \<open>cat\<close> prints the contents of exactly
  the names in the map, and a \<open>touch\<close> within these bounds succeeds when the name exists or fewer than
  300 files do.
\<close>

theorem ramfs_session:
  assumes "ramfs_repr s m"
    and "\<forall>c \<in> set cs. key_fits (cmd_key c) \<and> (\<forall>v \<in> set (cmd_vals c). content_fits v)"
  shows "\<exists>bs s' m'. run_cmds ram_put ram_del cs s = Some (bs, s') \<and> length bs = length cs \<and>
    m' = session_effect (\<lambda>k m. m) cs bs m \<and> ramfs_repr s' m' \<and>
    (\<forall>k. key_fits k \<longrightarrow>
      ramfs_cat (snd k @ [NUL]) (s'\<lparr>current_directory := fst k\<rparr>) =
        Some (case m' k of Some v \<Rightarrow> LF # v @ [LF] | None \<Rightarrow> LF # ''ERR: Not found: '' @ snd k @ [LF]) \<and>
      (\<forall>v. content_fits v \<longrightarrow> (\<exists>s''. ram_put k v s' = Some (k \<in> dom m' \<or> card (dom m') < MAX_FILES, s''))))"
proof -
  obtain bs s' where run: "run_cmds ram_put ram_del cs s = Some (bs, s')" "length bs = length cs"
      and r: "ramfs_repr s' (session_effect (\<lambda>k m. m) cs bs m)"
    using ram.session [OF assms] by blast
  show ?thesis
    by (rule exI [of _ bs], rule exI [of _ s'], rule exI [of _ "session_effect (\<lambda>k m. m) cs bs m"])
      (use run r ram_cat [OF r] ram_put_room [OF r] in blast)
qed

lemma ramfs_empty: "ramfs_repr ramfs_static Map.empty"
  by (simp add: ramfs_repr_def file_pairs_def files_def ramfs_static_def file_ok_def zero_file_def
      MAX_NAME_LENGTH_def MAX_CONTENT_LENGTH_def)

theorem ramfs_session_witness:
  "\<exists>bs s'. run_cmds ram_put ram_del [Put (0, ''a'') ''x'', Put (0, ''b'') ''y'', Del (0, ''a'')] ramfs_static = Some (bs, s') \<and>
     ramfs_cat (''a'' @ [NUL]) (s'\<lparr>current_directory := 0\<rparr>) = Some (LF # ''ERR: Not found: a'' @ [LF])"
proof -
  let ?cs = "[Put (0 :: nat, ''a'') ''x'', Put (0, ''b'') ''y'', Del (0, ''a'')]"
  have fits: "\<forall>c \<in> set ?cs. key_fits (cmd_key c) \<and> (\<forall>v \<in> set (cmd_vals c). content_fits v)"
    by (simp add: key_fits_def content_fits_def MAX_NAME_LENGTH_def MAX_CONTENT_LENGTH_def)
  obtain bs s' m' where r: "run_cmds ram_put ram_del ?cs ramfs_static = Some (bs, s')" "length bs = length ?cs"
      "m' = session_effect (\<lambda>k m. m) ?cs bs Map.empty"
      and all: "\<forall>k. key_fits k \<longrightarrow> ramfs_cat (snd k @ [NUL]) (s'\<lparr>current_directory := fst k\<rparr>) =
        Some (case m' k of Some v \<Rightarrow> LF # v @ [LF] | None \<Rightarrow> LF # ''ERR: Not found: '' @ snd k @ [LF]) \<and>
        (\<forall>v. content_fits v \<longrightarrow> (\<exists>s''. ram_put k v s' = Some (k \<in> dom m' \<or> card (dom m') < MAX_FILES, s'')))"
    using ramfs_session [OF ramfs_empty fits] by blast
  have "key_fits (0, ''a'')" by (simp add: key_fits_def MAX_NAME_LENGTH_def)
  then have cat: "ramfs_cat (''a'' @ [NUL]) (s'\<lparr>current_directory := 0\<rparr>) =
        Some (case m' (0, ''a'') of Some v \<Rightarrow> LF # v @ [LF] | None \<Rightarrow> LF # ''ERR: Not found: '' @ ''a'' @ [LF])"
    using all [THEN spec, of "(0, ''a'')", unfolded fst_conv snd_conv, THEN mp, THEN conjunct1] by simp
  obtain b1 b2 b3 where "bs = [b1, b2, b3]" using r(2) by (auto simp: length_Suc_conv)
  then have "m' (0, ''a'') = None" using r(3) by simp
  with cat r(1) show ?thesis by (intro exI conjI) (assumption, simp)
qed

text \<open>
  C15: memory safety of the table based file system. In every state whose names are terminated and
  whose directory indices are inside the table, \<open>mkdir\<close>, \<open>touch\<close>, \<open>cd\<close>, \<open>rm\<close> and \<open>rmdir\<close> with names of
  less than 30 and contents of less than 1024 characters stay inside the arrays, and leave such a
  state.
\<close>

theorem ramfs_memory_safe:
  assumes "ramfs_wf s" and "cstr b x" and "length x < MAX_NAME_LENGTH" and "content_fits v"
  shows "(\<exists>r s'. ramfs_mkdir b s = Some (r, s') \<and> ramfs_wf s') \<and>
    (\<exists>r s'. ramfs_touch b (v @ [NUL]) s = Some (r, s') \<and> ramfs_wf s') \<and>
    (\<exists>r s'. ramfs_cd b s = Some (r, s') \<and> ramfs_wf s') \<and>
    (\<exists>s'. ramfs_rm b s = Some s' \<and> ramfs_wf s') \<and> (\<exists>s'. ramfsrmdir b s = Some s' \<and> ramfs_wf s')"
  using mkdir_wf [OF assms(1-3)] touch_wf [OF assms] cd_wf [OF assms(1,2)] rm_wf [OF assms(1,2)] rmdir_wf [OF assms(1,2)]
  by simp

lemma static_wf: "ramfs_wf ramfs_static"
  by (simp add: ramfs_wf_def ramfs_static_def file_ok_def zero_file_def dir_ok_def zero_dir_def
      MAX_NAME_LENGTH_def MAX_CONTENT_LENGTH_def MAX_DIRECTORIES_def)

theorem ramfs_memory_safe_witness:
  "(\<exists>r s'. ramfs_mkdir (''bin'' @ [NUL]) ramfs_static = Some (r, s') \<and> ramfs_wf s') \<and>
   (\<exists>s'. ramfsrmdir (''bin'' @ [NUL]) ramfs_static = Some s' \<and> ramfs_wf s')"
proof -
  have "cstr (''bin'' @ [NUL]) ''bin''" "length ''bin'' < MAX_NAME_LENGTH" "content_fits []"
    by (auto simp: cstr_def MAX_NAME_LENGTH_def content_fits_def MAX_CONTENT_LENGTH_def)
  from ramfs_memory_safe [OF static_wf this] show ?thesis by blast
qed

text \<open>
  removing a directory renumbers the ones behind it, but not the files in them. After a \<open>rmdir\<close>
  that removes entry \<open>i\<close>, every later directory is one index lower while the file table is
  unchanged, so the files of the directory \<open>i + 1\<close> are found in the directory that was \<open>i + 2\<close>.
\<close>

theorem ramfsrmdir_renumbers:
  assumes "ramfs_wf s" and "cstr b x" and "ramfsrmdir b s = Some s'" and "s' \<noteq> s"
  shows "\<exists>i < directory_count s. c_string (d_name (directory_table s ! i)) = x \<and>
    d_parent (directory_table s ! i) = current_directory s \<and> directory_count s' = directory_count s - 1 \<and>
    file_table s' = file_table s \<and> file_count s' = file_count s \<and>
    (\<forall>j < directory_count s'. directory_table s' ! j = directory_table s ! (if j < i then j else j + 1))"
  using rmdir_cases [OF assms(1,2)]
proof (elim disjE exE conjE)
  assume "ramfsrmdir b s = Some s"
  with assms(3,4) show ?thesis by simp
next
  fix i t
  assume i: "i < directory_count s" and e: "c_string (d_name (directory_table s ! i)) = x"
      "d_parent (directory_table s ! i) = current_directory s"
    and sh: "shift_down i (directory_count s) (directory_table s) = Some t"
    and run: "ramfsrmdir b s = Some (s\<lparr>directory_table := t, directory_count := directory_count s - 1\<rparr>)"
  have s': "s' = s\<lparr>directory_table := t, directory_count := directory_count s - 1\<rparr>" using run assms(3) by simp
  have n: "directory_count s \<le> length (directory_table s)" using assms(1) by (simp add: ramfs_wf_def)
  have t: "take (directory_count s - 1) t = take i (directory_table s) @ drop (Suc i) (take (directory_count s) (directory_table s))"
    using shift_down_E [OF sh i n] by blast
  have "t ! j = directory_table s ! (if j < i then j else j + 1)" if "j < directory_count s - 1" for j
  proof -
    have "t ! j = take (directory_count s - 1) t ! j" using that by simp
    also have "\<dots> = directory_table s ! (if j < i then j else j + 1)"
      unfolding t using that i n by (simp add: nth_append min_def)
    finally show ?thesis .
  qed
  with i e show ?thesis unfolding s' by (intro exI [of _ i]) simp
qed

theorem ramfsrmdir_renumbers_witness:
  "\<exists>s s'. ramfsrmdir (''a'' @ [NUL]) s = Some s' \<and> directory_count s = 3 \<and> directory_count s' = 2 \<and>
     directory_table s' ! 1 = directory_table s ! 2 \<and> file_table s' = file_table s"
proof -
  let ?d = "\<lambda>c. zero_dir\<lparr>d_name := c # replicate 29 NUL\<rparr>"
  let ?s = "ramfs_static\<lparr>directory_count := 3, directory_table :=
      [?d (CHR ''/''), ?d (CHR ''a''), ?d (CHR ''b'')] @ replicate 297 zero_dir\<rparr>"
  have wf: "ramfs_wf ?s"
    by (simp add: ramfs_wf_def ramfs_static_def file_ok_def zero_file_def dir_ok_def zero_dir_def
        MAX_NAME_LENGTH_def MAX_CONTENT_LENGTH_def MAX_DIRECTORIES_def)
  have a: "cstr (''a'' @ [NUL]) ''a''" by (auto simp: cstr_def)
  have run: "ramfsrmdir (''a'' @ [NUL]) ?s = Some (?s\<lparr>directory_table :=
      [?d (CHR ''/''), ?d (CHR ''b''), ?d (CHR ''b'')] @ replicate 297 zero_dir, directory_count := 2\<rparr>)"
    by (simp add: ramfsrmdir_def ramfs_static_def first_ok.simps rmdir_stop_def zero_dir_def uchar_diff_def
        shift_down.simps rd_def wr_def numeral_eq_Suc)
  have ne: "(?s\<lparr>directory_table := [?d (CHR ''/''), ?d (CHR ''b''), ?d (CHR ''b'')] @ replicate 297 zero_dir, directory_count := 2\<rparr>) \<noteq> ?s"
    by (simp add: ramfs_static_def)
  from ramfsrmdir_renumbers [OF wf a run ne] run show ?thesis by (intro exI conjI) (assumption, simp_all)
qed

end
