(* ===== verification/Page_Source.thy ===== *)
theory Page_Source
  imports Paging Store_Iface
begin

text \<open>
  The page allocator as a source of fresh addresses: \<open>kmalloc\<close> (theory \<open>PhysMem\<close>) provides the
  interface \<open>address_source\<close>. An address is owned when the page it lies in is marked used.
\<close>

definition page_index :: "mm_state \<Rightarrow> u32 \<Rightarrow> nat" where
  "page_index mm a = (unat a - unat (phys_limit_start mm)) div 4096"

definition owned :: "mm_state \<Rightarrow> u32 \<Rightarrow> bool" where
  "owned mm a \<longleftrightarrow> a \<noteq> 0 \<and> page_used mm (page_index mm a)"

lemma kmalloc_keeps_ok: "mm_ok mm \<Longrightarrow> kmalloc n mm = Some (p, mm') \<Longrightarrow> mm_ok mm'"
  using kmalloc_keeps mm_keeps_def by blast

lemma kmalloc_keeps_used:
  assumes "mm_ok mm" and "kmalloc n mm = Some (p, mm')" and "page_used mm j"
  shows "page_used mm' j \<and> phys_limit_start mm' = phys_limit_start mm"
proof -
  from assms(1) have wf: "mm_wf mm" and init: "initialized mm" by (simp_all add: mm_ok_def)
  show ?thesis
  proof (cases "n = 0 \<or> pages_for n = 0")
    case True
    with assms(2,3) kmalloc_too_big [OF wf, of n] show ?thesis by (cases "n = 0") (auto simp: kmalloc_def)
  next
    case False
    with assms(2) kmalloc_found [OF wf init] obtain r where "kmalloc_effect (unat (pages_for n)) r mm p mm'" by fastforce
    with assms(3) show ?thesis by (cases r) (auto simp: kmalloc_effect_def page_used_def)
  qed
qed

interpretation pages: address_source kmalloc mm_ok owned
proof
  fix m n
  assume "mm_ok m"
  then show "\<exists>p m'. kmalloc n m = Some (p, m')"
    using kmalloc_total [of m n] by (auto simp: mm_ok_def)
next
  fix m n p m'
  assume ok: "mm_ok m" and k: "kmalloc n m = Some (p, m')"
  have "\<not> owned m p \<and> owned m' p" if "p \<noteq> 0"
  proof -
    have "n \<noteq> 0" using k that by (auto simp: kmalloc_def)
    then have "unat p \<in> block_bytes p n" by (simp add: block_bytes_def unat_gt_0)
    from kmalloc_block [OF ok k that this] kmalloc_keeps [OF ok k] that show ?thesis
      by (auto simp: owned_def page_index_def page_free_def mm_keeps_def)
  qed
  moreover have "\<forall>a. owned m a \<longrightarrow> owned m' a"
    using kmalloc_keeps_used [OF ok k] by (auto simp: owned_def page_index_def)
  ultimately show "mm_ok m' \<and> (p \<noteq> 0 \<longrightarrow> \<not> owned m p \<and> owned m' p) \<and> (\<forall>a. owned m a \<longrightarrow> owned m' a)"
    using kmalloc_keeps_ok [OF ok k] by blast
qed

text \<open>A manager of four megabytes from the first megabyte on, in service with all pages free, for examples.\<close>

definition demo_mm :: mm_state where
  "demo_mm = \<lparr>bitmap = replicate BITMAP_SIZE 0, protection_bitmap = replicate BITMAP_SIZE 0, total_memory = 0x400000,
     total_pages = 1024, bitmap_size = 128, next_free = 0, initialized = True, phys_limit_start = 0x100000,
     kaslr_enabled = False, kaslr_slide = 0\<rparr>"

lemma demo_mm_ok: "mm_ok demo_mm"
  by (simp add: mm_ok_def mm_wf_def demo_mm_def BITMAP_SIZE_def)

lemma pages_for_one:
  assumes "0 < n" and "n \<le> 4096"
  shows "unat (pages_for n) = 1"
proof -
  have "unat (n + 4096 - 1) = unat n + 4095"
  proof -
    have "unat n \<le> 4096" using assms(2) by (simp add: word_le_nat_alt)
    then have "unat (n + 4095) = unat n + 4095" using unat_add_lem [of n 4095] by simp
    then show ?thesis by (simp add: add.commute)
  qed
  then have "unat (pages_for n) = (unat n + 4095) div 4096" by (simp add: pages_for_def PAGE_SIZE_def unat_div)
  also have "\<dots> = 1" using assms by (intro div_nat_eqI) (simp_all add: word_le_nat_alt word_less_nat_alt)
  finally show ?thesis .
qed

text \<open>When the page at the hint is free, an allocation of one page gets it.\<close>

lemma kmalloc_hint_page:
  assumes ok: "mm_ok mm" and "page_free mm (unat (next_free mm))" and "next_free mm < total_pages mm"
    and "0 < n" and "n \<le> 4096"
  shows "\<exists>mm'. kmalloc n mm = Some (next_free mm * PAGE_SIZE + phys_limit_start mm, mm') \<and> mm_ok mm' \<and>
    next_free mm' = next_free mm + 1 \<and> total_pages mm' = total_pages mm \<and> phys_limit_start mm' = phys_limit_start mm \<and>
    (\<forall>j. page_free mm' j \<longleftrightarrow> page_free mm j \<and> j \<noteq> unat (next_free mm))"
proof -
  note one = pages_for_one [OF assms(4,5)]
  have "n \<noteq> 0" "pages_for n \<noteq> 0" using assms(4) one by auto
  with kmalloc_found [of mm n] ok obtain r p mm' where k: "kmalloc n mm = Some (p, mm')"
      and fit: "first_fit mm (unat (next_free mm)) (unat (total_pages mm)) 1 r" and eff: "kmalloc_effect 1 r mm p mm'"
    unfolding one mm_ok_def by blast
  have free: "free_run mm (unat (next_free mm)) 1" using assms(2) by (auto simp: free_run_def le_less_Suc_eq)
  have lt: "unat (next_free mm) + 1 \<le> unat (total_pages mm)" using assms(3) by (simp add: word_less_nat_alt)
  obtain s where s: "r = Some s" using fit free lt by (cases r) (auto simp: first_fit_def)
  with fit free have "s = unat (next_free mm)" by (auto simp: first_fit_def intro: le_antisym leI)
  with s eff k kmalloc_keeps_ok [OF ok k] show ?thesis
    by (auto simp: kmalloc_effect_def page_free_def page_used_def page_locked_def)
qed

text \<open>The first two pages of the example go to the first two allocations.\<close>

lemma demo_mm_pages:
  assumes "0 < n" and "n \<le> 4096" and "0 < k" and "k \<le> 4096"
  shows "\<exists>mm mm'. kmalloc n demo_mm = Some (0x100000, mm) \<and> kmalloc k mm = Some (0x101000, mm')"
proof -
  have nf: "next_free demo_mm = 0" "total_pages demo_mm = 1024" "phys_limit_start demo_mm = 0x100000" by (simp_all add: demo_mm_def)
  have free: "page_free demo_mm j" if "j < 8" for j
    using that by (simp add: page_free_def page_used_def page_locked_def bm_has_def demo_mm_def BITMAP_SIZE_def)
  have "page_free demo_mm (unat (next_free demo_mm))" "next_free demo_mm < total_pages demo_mm" using free by (simp_all add: nf)
  from kmalloc_hint_page [OF demo_mm_ok this assms(1,2)] obtain mm where
      m: "kmalloc n demo_mm = Some (0x100000, mm)" "mm_ok mm" "next_free mm = 1" "total_pages mm = 1024"
      "phys_limit_start mm = 0x100000" "\<forall>j. page_free mm j \<longleftrightarrow> page_free demo_mm j \<and> j \<noteq> 0"
    by (auto simp: nf)
  have "page_free mm (unat (next_free mm))" "next_free mm < total_pages mm" using free m(3,4,6) by simp_all
  from kmalloc_hint_page [OF m(2) this assms(3,4)] obtain mm' where "kmalloc k mm = Some (0x101000, mm')"
    by (auto simp: m(3,5) PAGE_SIZE_def)
  with m(1) show ?thesis by blast
qed

lemma demo_mm_page: "0 < n \<Longrightarrow> n \<le> 4096 \<Longrightarrow> \<exists>mm. kmalloc n demo_mm = Some (0x100000, mm)"
  using demo_mm_pages [of n n] by blast

end
