(* ===== verification/Tmpfs.thy ===== *)
theory Tmpfs
  imports Page_Source CString_Copy Printk
begin

text \<open>
  The temporary file system, \<open>fs/tmpfs/tmpfs.c\<close>: a singly linked list of named buffers, newest first.
  Nodes and buffers are stores from addresses; what the memory of a fresh block holds is the
  parameter \<open>tm_junk\<close> of the state. What \<open>tmp_list\<close> prints is
  the text it returns; the boot message of \<open>tmp_init\<close> is left out.
\<close>

record tmp_node =
  t_name :: "char list"
  t_buffer :: u32
  t_size :: u32
  t_next :: u32

record tmpfs =
  tm_mm :: mm_state
  tm_nodes :: "u32 \<Rightarrow> tmp_node option"
  tm_bufs :: "u32 \<Rightarrow> char list option"
  tmp_root :: u32
  tm_junk :: "u32 \<Rightarrow> nat \<Rightarrow> char list"

definition SIZEOF_TMP_NODE :: u32 where "SIZEOF_TMP_NODE = 44"

definition tmp_init :: "tmpfs \<Rightarrow> tmpfs" where
  "tmp_init s = s\<lparr>tmp_root := 0\<rparr>"

text \<open>The loop of \<open>tmp_get_file\<close> and \<open>tmp_remove_file\<close>: the node with the name (0 at the end) and the one before.\<close>

partial_function (option) find_tmp ::
    "(u32 \<Rightarrow> tmp_node option) \<Rightarrow> char list \<Rightarrow> u32 \<Rightarrow> u32 \<Rightarrow> (u32 \<times> u32) option" where
  "find_tmp st name prev cur =
     (if cur = 0 then Some (prev, 0)
      else do { n \<leftarrow> st cur;
                c \<leftarrow> strcmp (t_name n) name;
                (if c = 0 then Some (prev, cur) else find_tmp st name cur (t_next n)) })"

text \<open>The buffer (0 when there is no such file) and the size stored through \<open>out_size\<close>.\<close>

definition tmp_get_file :: "char list \<Rightarrow> tmpfs \<Rightarrow> (u32 \<times> u32 option) option" where
  "tmp_get_file name s =
     do { (_, cur) \<leftarrow> find_tmp (tm_nodes s) name 0 (tmp_root s);
          (if cur = 0 then Some (0, None)
           else do { n \<leftarrow> tm_nodes s cur; Some (t_buffer n, Some (t_size n)) }) }"

definition tmp_remove_file :: "char list \<Rightarrow> tmpfs \<Rightarrow> (int \<times> tmpfs) option" where
  "tmp_remove_file name s =
     do { (prev, cur) \<leftarrow> find_tmp (tm_nodes s) name 0 (tmp_root s);
          (if cur = 0 then Some (-1, s)
           else do { n \<leftarrow> tm_nodes s cur;
                     (if prev \<noteq> 0
                      then do { p \<leftarrow> tm_nodes s prev;
                                Some (0, s\<lparr>tm_nodes := (tm_nodes s)(prev \<mapsto> p\<lparr>t_next := t_next n\<rparr>)\<rparr>) }
                      else Some (0, s\<lparr>tmp_root := t_next n\<rparr>)) }) }"

text \<open>\<open>tmp_add_file\<close> once an older file with the name is gone.\<close>

definition tmp_insert :: "char list \<Rightarrow> char list \<Rightarrow> u32 \<Rightarrow> tmpfs \<Rightarrow> (int \<times> tmpfs) option" where
  "tmp_insert name data sz s1 =
     do { (node, mm1) \<leftarrow> kmalloc SIZEOF_TMP_NODE (tm_mm s1);
          (if node = 0 then Some (-1, s1\<lparr>tm_mm := mm1\<rparr>)
           else do { nm \<leftarrow> strncpy (tm_junk s1 node 32) name 31;
                     (buf, mm2) \<leftarrow> kmalloc sz mm1;
                     let n = \<lparr>t_name = nm, t_buffer = buf, t_size = 0, t_next = 0\<rparr>;
                     (if buf = 0 then Some (-1, s1\<lparr>tm_mm := mm2, tm_nodes := (tm_nodes s1)(node \<mapsto> n)\<rparr>)
                      else do { b \<leftarrow> memcpy (tm_junk s1 buf (unat sz)) data (sint sz);
                                Some (0, s1\<lparr>tm_mm := mm2, tm_bufs := (tm_bufs s1)(buf \<mapsto> b),
                                  tm_nodes := (tm_nodes s1)(node \<mapsto> n\<lparr>t_size := sz, t_next := tmp_root s1\<rparr>),
                                  tmp_root := node\<rparr>) }) }) }"

definition tmp_add_file :: "char list \<Rightarrow> char list \<Rightarrow> u32 \<Rightarrow> tmpfs \<Rightarrow> (int \<times> tmpfs) option" where
  "tmp_add_file name data sz s =
     do { (old, _) \<leftarrow> tmp_get_file name s;
          s1 \<leftarrow> (if old \<noteq> 0 then map_option snd (tmp_remove_file name s) else Some s);
          tmp_insert name data sz s1 }"

text \<open>
  The listing. \<open>printk\<close> knows no flag \<open>-\<close>: the conversion of \<open>%-20s\<close> produces nothing and takes no
  argument, so \<open>%d\<close> takes the first one, the address of the name, which is that of the node.
\<close>

partial_function (option) list_tmp :: "(u32 \<Rightarrow> tmp_node option) \<Rightarrow> u32 \<Rightarrow> char list option" where
  "list_tmp st cur =
     (if cur = 0 then Some []
      else do { n \<leftarrow> st cur;
                t \<leftarrow> print_text (''  %-20s %d bytes'' @ [LF]) [AInt cur, AInt (t_size n)];
                u \<leftarrow> list_tmp st (t_next n);
                Some (t @ u) })"

definition tmp_list :: "tmpfs \<Rightarrow> char list option" where
  "tmp_list s =
     do { t \<leftarrow> print_text ([LF] @ ''TMP Filesystem contents:'' @ [LF]) [];
          (if tmp_root s = 0 then do { e \<leftarrow> print_text (''  (empty)'' @ [LF]) []; Some (t @ e) }
           else do { u \<leftarrow> list_tmp (tm_nodes s) (tmp_root s); Some (t @ u @ [LF]) }) }"

subsection \<open>The list as a map\<close>

record tfile =
  tf_node :: u32
  tf_buf :: u32
  tf_name :: "char list"
  tf_data :: "char list"

primrec tchain :: "(u32 \<Rightarrow> tmp_node option) \<Rightarrow> (u32 \<Rightarrow> char list option) \<Rightarrow> u32 \<Rightarrow> tfile list \<Rightarrow> bool" where
  "tchain st bf p [] \<longleftrightarrow> p = 0"
| "tchain st bf p (e # es) \<longleftrightarrow> p = tf_node e \<and> p \<noteq> 0 \<and>
     (\<exists>n. st p = Some n \<and> cstr (t_name n) (tf_name e) \<and> t_buffer n = tf_buf e \<and> tf_buf e \<noteq> 0 \<and>
        bf (tf_buf e) = Some (tf_data e) \<and> unat (t_size n) = length (tf_data e) \<and> tchain st bf (t_next n) es)"

definition tpair :: "tfile \<Rightarrow> char list \<times> char list" where
  "tpair e = (tf_name e, tf_data e)"

definition tmpfs_files :: "tmpfs \<Rightarrow> tfile list \<Rightarrow> bool" where
  "tmpfs_files s es \<longleftrightarrow> mm_ok (tm_mm s) \<and> (\<forall>p n. length (tm_junk s p n) = n) \<and>
     tchain (tm_nodes s) (tm_bufs s) (tmp_root s) es \<and> distinct (map tf_node es) \<and> distinct (map tf_name es) \<and>
     (\<forall>e \<in> set es. owned (tm_mm s) (tf_node e) \<and> owned (tm_mm s) (tf_buf e))"

definition tmpfs_repr :: "tmpfs \<Rightarrow> (char list \<rightharpoonup> char list) \<Rightarrow> bool" where
  "tmpfs_repr s m \<longleftrightarrow> (\<exists>es. tmpfs_files s es \<and> m = map_of (map tpair es))"

lemma tchain_other_node [simp]: "a \<notin> tf_node ` set es \<Longrightarrow> tchain (st(a \<mapsto> v)) bf p es = tchain st bf p es"
  by (induction es arbitrary: p) auto

lemma tchain_other_buf [simp]: "a \<notin> tf_buf ` set es \<Longrightarrow> tchain st (bf(a \<mapsto> v)) p es = tchain st bf p es"
  by (induction es arbitrary: p) auto

lemma tchain_at: "tchain st bf p (pre @ e # post) \<Longrightarrow> \<exists>n. st (tf_node e) = Some n \<and> tf_node e \<noteq> 0 \<and>
    t_buffer n = tf_buf e \<and> tf_buf e \<noteq> 0 \<and> bf (tf_buf e) = Some (tf_data e) \<and> unat (t_size n) = length (tf_data e) \<and>
    tchain st bf (t_next n) post"
  by (induction pre arbitrary: p) auto

text \<open>Where the loop stops, for a name that is in the list after \<open>pre\<close>, and for one that is not.\<close>

lemma find_tmp_skip:
  assumes "tchain st bf p (pre @ es)" and "cstr b x" and "x \<notin> tf_name ` set pre"
  shows "\<exists>p'. tchain st bf p' es \<and> find_tmp st b q p = find_tmp st b (last (q # map tf_node pre)) p'"
  using assms(1,3)
proof (induction pre arbitrary: p q)
  case (Cons e pre)
  then obtain n where n: "st p = Some n" "cstr (t_name n) (tf_name e)" "tchain st bf (t_next n) (pre @ es)"
      "p = tf_node e" "p \<noteq> 0" "tf_name e \<noteq> x" by auto
  obtain c where "strcmp (t_name n) b = Some c" "c \<noteq> 0" using strcmp_eq [OF n(2) assms(2)] n(6) by blast
  then have "find_tmp st b q p = find_tmp st b p (t_next n)"
    using n by (subst find_tmp.simps) simp
  with Cons.IH [OF n(3), of p] Cons.prems(2) n(4) show ?case by simp
qed auto

lemma find_tmp_found:
  assumes "tchain st bf p (pre @ e # post)" and "cstr b (tf_name e)" and "tf_name e \<notin> tf_name ` set pre"
  shows "find_tmp st b q p = Some (last (q # map tf_node pre), tf_node e)"
proof -
  obtain p' where p': "tchain st bf p' (e # post)"
      "find_tmp st b q p = find_tmp st b (last (q # map tf_node pre)) p'"
    using find_tmp_skip [OF assms(1,2,3)] by blast
  then obtain n where n: "st p' = Some n" "cstr (t_name n) (tf_name e)" "p' = tf_node e" "p' \<noteq> 0" by auto
  obtain c where "strcmp (t_name n) b = Some c" "c = 0" using strcmp_eq [OF n(2) assms(2)] by blast
  then have "find_tmp st b (last (q # map tf_node pre)) p' = Some (last (q # map tf_node pre), p')"
    using n by (subst find_tmp.simps) simp
  with p'(2) n(3) show ?thesis by simp
qed

lemma find_tmp_missing:
  assumes "tchain st bf p es" and "cstr b x" and "x \<notin> tf_name ` set es"
  shows "find_tmp st b q p = Some (last (q # map tf_node es), 0)"
proof -
  obtain p' where "tchain st bf p' []" "find_tmp st b q p = find_tmp st b (last (q # map tf_node es)) p'"
    using find_tmp_skip [of st bf p es "[]", OF _ assms(2,3)] assms(1) by auto
  then show ?thesis by (simp add: find_tmp.simps [of st b _ 0])
qed

text \<open>Every name is missing, or at one place.\<close>

lemma tfile_cases [consumes 1, case_names missing found]:
  assumes "tmpfs_files s es"
  obtains (missing) "x \<notin> tf_name ` set es" "map_of (map tpair es) x = None"
  | (found) pre e post where "es = pre @ e # post" "tf_name e = x" "x \<notin> tf_name ` set pre" "x \<notin> tf_name ` set post"
      "map_of (map tpair es) x = Some (tf_data e)"
proof (cases "x \<in> tf_name ` set es")
  case False
  then have "map_of (map tpair es) x = None" by (force simp: map_of_eq_None_iff tpair_def)
  with False show ?thesis by (rule missing)
next
  case True
  then obtain e where e: "e \<in> set es" "tf_name e = x" by auto
  then obtain pre post where es: "es = pre @ e # post" by (meson split_list)
  have "distinct (map tf_name es)" using assms by (simp add: tmpfs_files_def)
  then have d: "x \<notin> tf_name ` set pre" "x \<notin> tf_name ` set post" using es e(2) by auto
  have "map_of (map tpair pre) x = None" using d(1) by (force simp: map_of_eq_None_iff tpair_def)
  then have "map_of (map tpair es) x = Some (tf_data e)" using e(2) by (simp add: es map_add_def tpair_def)
  with es e(2) d show ?thesis by (rule found)
qed

lemma tmp_get_file_files:
  assumes "tmpfs_files s es" and "cstr b x"
  shows "tmp_get_file b s = Some (case find (\<lambda>e. tf_name e = x) es of
    None \<Rightarrow> (0, None) | Some e \<Rightarrow> (tf_buf e, Some (of_nat (length (tf_data e)))))"
proof -
  have ch: "tchain (tm_nodes s) (tm_bufs s) (tmp_root s) es" using assms(1) by (simp add: tmpfs_files_def)
  from assms(1) show ?thesis
  proof (cases rule: tfile_cases [where x = x])
    case missing
    then have "find (\<lambda>e. tf_name e = x) es = None" by (auto simp: find_None_iff)
    with find_tmp_missing [OF ch assms(2) missing(1)] show ?thesis by (simp add: tmp_get_file_def)
  next
    case (found pre e post)
    have "find (\<lambda>e. tf_name e = x) pre = None" using found(3) by (auto simp: find_None_iff)
    then have f: "find (\<lambda>e. tf_name e = x) es = Some e" using found(1,2)
      by (induction pre arbitrary: es) (auto split: if_splits)
    have ch': "tchain (tm_nodes s) (tm_bufs s) (tmp_root s) (pre @ e # post)" using ch found(1) by simp
    obtain n where n: "tm_nodes s (tf_node e) = Some n" "tf_node e \<noteq> 0" "t_buffer n = tf_buf e"
        "unat (t_size n) = length (tf_data e)" using tchain_at [OF ch'] by blast
    have "t_size n = of_nat (length (tf_data e))" unfolding n(4) [symmetric] by simp
    with find_tmp_found [OF ch', of b] assms(2) found(2,3) n f show ?thesis by (simp add: tmp_get_file_def)
  qed
qed

lemma tchain_unlink:
  assumes "tchain st bf p (pre @ d # e # post)" and "distinct (map tf_node (pre @ d # e # post))"
    and "st (tf_node d) = Some nd" and "st (tf_node e) = Some ne"
  shows "tchain (st(tf_node d \<mapsto> nd\<lparr>t_next := t_next ne\<rparr>)) bf p (pre @ d # post)"
  using assms(1,2) by (induction pre arbitrary: p) (use assms(3,4) in auto)

lemma tmp_remove_missing:
  assumes "tmpfs_files s es" and "cstr b x" and "x \<notin> tf_name ` set es"
  shows "tmp_remove_file b s = Some (-1, s)"
  using find_tmp_missing [OF _ assms(2,3), of "tm_nodes s" "tm_bufs s" "tmp_root s" 0] assms(1)
  by (simp add: tmpfs_files_def tmp_remove_file_def)

lemma tmp_remove_found:
  assumes "tmpfs_files s (pre @ e # post)" and "cstr b (tf_name e)" and "tf_name e \<notin> tf_name ` set pre"
  shows "\<exists>s'. tmp_remove_file b s = Some (0, s') \<and> tmpfs_files s' (pre @ post) \<and> tm_mm s' = tm_mm s \<and>
    tm_junk s' = tm_junk s"
proof -
  have ch: "tchain (tm_nodes s) (tm_bufs s) (tmp_root s) (pre @ e # post)"
    and d: "distinct (map tf_node (pre @ e # post))" using assms(1) by (simp_all add: tmpfs_files_def)
  note f = find_tmp_found [OF ch assms(2,3), of 0]
  obtain n where n: "tm_nodes s (tf_node e) = Some n" "tf_node e \<noteq> 0" "tchain (tm_nodes s) (tm_bufs s) (t_next n) post"
    using tchain_at [OF ch] by blast
  show ?thesis
  proof (cases pre rule: rev_cases)
    case Nil
    with f n assms(1) show ?thesis by (simp add: tmp_remove_file_def tmpfs_files_def)
  next
    case (snoc pre' c)
    have ch': "tchain (tm_nodes s) (tm_bufs s) (tmp_root s) (pre' @ c # e # post)" using ch snoc by simp
    obtain nc where nc: "tm_nodes s (tf_node c) = Some nc" "tf_node c \<noteq> 0" using tchain_at [OF ch'] by blast
    have "tchain ((tm_nodes s)(tf_node c \<mapsto> nc\<lparr>t_next := t_next n\<rparr>)) (tm_bufs s) (tmp_root s) (pre' @ c # post)"
      using d snoc by (intro tchain_unlink [OF ch' _ nc(1) n(1)]) simp
    with f n nc assms(1) snoc show ?thesis by (simp add: tmp_remove_file_def tmpfs_files_def)
  qed
qed

text \<open>Putting a new file in front.\<close>

lemma tmpfs_push:
  assumes "tmpfs_files s es" and "x \<notin> tf_name ` set es" and "cstr nm x"
    and "kmalloc n (tm_mm s) = Some (p, mm1)" and "p \<noteq> 0" and "kmalloc k mm1 = Some (q, mm2)" and "q \<noteq> 0"
    and "unat sz = length data"
  shows "tmpfs_files (s\<lparr>tm_mm := mm2, tm_bufs := (tm_bufs s)(q \<mapsto> data),
      tm_nodes := (tm_nodes s)(p \<mapsto> \<lparr>t_name = nm, t_buffer = q, t_size = sz, t_next = tmp_root s\<rparr>), tmp_root := p\<rparr>)
    (\<lparr>tf_node = p, tf_buf = q, tf_name = x, tf_data = data\<rparr> # es)"
proof -
  have ok: "mm_ok (tm_mm s)" and own: "\<forall>a \<in> tf_node ` set es \<union> tf_buf ` set es. owned (tm_mm s) a"
    using assms(1) by (auto simp: tmpfs_files_def)
  from pages.alloc_not_in [OF ok assms(4,5) own]
  have p: "p \<notin> tf_node ` set es" "\<forall>a \<in> insert p (tf_node ` set es \<union> tf_buf ` set es). owned mm1 a" by blast+
  have ok1: "mm_ok mm1" using pages.alloc_fresh [OF ok assms(4)] by blast
  from pages.alloc_not_in [OF ok1 assms(6,7) p(2)]
  have q: "q \<notin> tf_buf ` set es"
      "\<forall>a \<in> insert q (insert p (tf_node ` set es \<union> tf_buf ` set es)). owned mm2 a" by blast+
  have "mm_ok mm2" using pages.alloc_fresh [OF ok1 assms(6)] by blast
  with assms p(1) q show ?thesis by (auto simp: tmpfs_files_def)
qed

lemma tmpfs_other:
  assumes "tmpfs_files s es" and "mm_ok mm" and "\<forall>a. owned (tm_mm s) a \<longrightarrow> owned mm a"
  shows "tmpfs_files (s\<lparr>tm_mm := mm\<rparr>) es"
    and "p \<notin> tf_node ` set es \<Longrightarrow> tmpfs_files (s\<lparr>tm_mm := mm, tm_nodes := (tm_nodes s)(p \<mapsto> n)\<rparr>) es"
  using assms by (auto simp: tmpfs_files_def)

definition tmp_name_ok :: "char list \<Rightarrow> bool" where
  "tmp_name_ok x \<longleftrightarrow> NUL \<notin> set x \<and> length x < 31"

definition tmp_data_ok :: "char list \<Rightarrow> bool" where
  "tmp_data_ok d \<longleftrightarrow> length d < 2 ^ 31"

lemma junk_name:
  assumes "tmp_name_ok x" and "length j = 32"
  shows "\<exists>nm. strncpy j (x @ [NUL]) 31 = Some nm \<and> cstr nm x"
proof -
  have "cstr (x @ [NUL]) x" "length x < 31" using assms(1) by (auto simp: tmp_name_ok_def)
  from strncpy_cstr [OF this, of j] assms(2)
  have "strncpy j (x @ [NUL]) 31 = Some (x @ replicate (31 - length x) NUL @ drop 31 j)" by simp
  moreover have "cstr (x @ replicate (31 - length x) NUL @ drop 31 j) x"
    using assms(1) by (intro cstr_pad) (auto simp: tmp_name_ok_def)
  ultimately show ?thesis by blast
qed

text \<open>The allocator has a node and, after it, a buffer of \<open>n\<close> bytes.\<close>

definition tmp_room :: "nat \<Rightarrow> mm_state \<Rightarrow> bool" where
  "tmp_room n mm \<longleftrightarrow>
     (case kmalloc SIZEOF_TMP_NODE mm of
        None \<Rightarrow> False
      | Some (p, mm1) \<Rightarrow> p \<noteq> 0 \<and> (case kmalloc (of_nat n) mm1 of None \<Rightarrow> False | Some (q, mm2) \<Rightarrow> q \<noteq> 0))"

lemma tmp_insert_files:
  assumes "tmpfs_files s es" and "x \<notin> tf_name ` set es" and "tmp_name_ok x" and "tmp_data_ok data"
  shows "\<exists>r s'. tmp_insert (x @ [NUL]) data (of_nat (length data)) s = Some (r, s') \<and>
    (if r = 0 then \<exists>e. tmpfs_files s' (e # es) \<and> tf_name e = x \<and> tf_data e = data else tmpfs_files s' es) \<and>
    (r = 0 \<longleftrightarrow> tmp_room (length data) (tm_mm s))"
proof -
  let ?sz = "of_nat (length data) :: u32"
  have ok: "mm_ok (tm_mm s)" and junk: "\<And>p n. length (tm_junk s p n) = n"
    and own: "\<forall>a \<in> tf_node ` set es. owned (tm_mm s) a"
    using assms(1) by (auto simp: tmpfs_files_def)
  have sz: "unat ?sz = length data" "sint ?sz = int (length data)"
  proof -
    show u: "unat ?sz = length data" using assms(4) by (simp add: tmp_data_ok_def unat_of_nat take_bit_eq_mod)
    then show "sint ?sz = int (length data)" using assms(4) sint_u32 [of ?sz] by (simp add: tmp_data_ok_def)
  qed
  obtain p mm1 where p: "kmalloc SIZEOF_TMP_NODE (tm_mm s) = Some (p, mm1)" using pages.alloc_total [OF ok] by blast
  note f1 = pages.alloc_fresh [OF ok p]
  have ok1: "mm_ok mm1" using f1 by blast
  obtain q mm2 where q: "kmalloc ?sz mm1 = Some (q, mm2)" using pages.alloc_total [OF ok1] by blast
  note f2 = pages.alloc_fresh [OF ok1 q]
  show ?thesis
  proof (cases "p = 0")
    case True
    with p tmpfs_other(1) [OF assms(1), of mm1] f1 show ?thesis by (simp add: tmp_insert_def tmp_room_def)
  next
    case pn: False
    obtain nm where nm: "strncpy (tm_junk s p 32) (x @ [NUL]) 31 = Some nm" "cstr nm x"
      using junk_name [OF assms(3), of "tm_junk s p 32"] junk by auto
    show ?thesis
    proof (cases "q = 0")
      case True
      have "p \<notin> tf_node ` set es" using pages.alloc_not_in [OF ok p pn own] by blast
      moreover have "mm_ok mm2" "\<forall>a. owned (tm_mm s) a \<longrightarrow> owned mm2 a" using f1 f2 by blast+
      ultimately show ?thesis using p pn nm q True tmpfs_other(2) [OF assms(1), of mm2]
        by (simp add: tmp_insert_def tmp_room_def)
    next
      case False
      have "memcpy (tm_junk s q (length data)) data (int (length data)) = Some data"
        using memcpy_run [of "length data" "tm_junk s q (length data)" data] junk by simp
      then have m: "memcpy (tm_junk s q (unat ?sz)) data (sint ?sz) = Some data" unfolding sz .
      let ?s' = "s\<lparr>tm_mm := mm2, tm_bufs := (tm_bufs s)(q \<mapsto> data),
        tm_nodes := (tm_nodes s)(p \<mapsto> \<lparr>t_name = nm, t_buffer = q, t_size = ?sz, t_next = tmp_root s\<rparr>), tmp_root := p\<rparr>"
      have run: "tmp_insert (x @ [NUL]) data ?sz s = Some (0, ?s')"
        by (simp add: tmp_insert_def p pn nm(1) q False m)
      have "\<exists>e. tmpfs_files ?s' (e # es) \<and> tf_name e = x \<and> tf_data e = data"
        by (rule exI, intro conjI, rule tmpfs_push [OF assms(1,2) nm(2) p pn q False sz(1)]) simp_all
      moreover have "tmp_room (length data) (tm_mm s)" using p pn q False by (simp add: tmp_room_def)
      ultimately show ?thesis by (intro exI [of _ 0] exI [of _ ?s'] conjI [OF run]) simp
    qed
  qed
qed

text \<open>The operations on names and contents.\<close>

definition tmp_get :: "char list \<Rightarrow> tmpfs \<Rightarrow> char list option option" where
  "tmp_get x s =
     do { (p, sz) \<leftarrow> tmp_get_file (x @ [NUL]) s;
          (if p = 0 then Some None
           else do { d \<leftarrow> tm_bufs s p; n \<leftarrow> sz; Some (Some (take (unat n) d)) }) }"

definition tmp_put :: "char list \<Rightarrow> char list \<Rightarrow> tmpfs \<Rightarrow> (bool \<times> tmpfs) option" where
  "tmp_put x d s = do { (r, s') \<leftarrow> tmp_add_file (x @ [NUL]) d (of_nat (length d)) s; Some (r = 0, s') }"

definition tmp_del :: "char list \<Rightarrow> tmpfs \<Rightarrow> (bool \<times> tmpfs) option" where
  "tmp_del x s = do { (r, s') \<leftarrow> tmp_remove_file (x @ [NUL]) s; Some (r = 0, s') }"

lemma tmp_arg: "tmp_name_ok x \<Longrightarrow> cstr (x @ [NUL]) x"
  by (auto simp: tmp_name_ok_def)

lemma find_file_at: "x \<notin> tf_name ` set pre \<Longrightarrow> tf_name e = x \<Longrightarrow> find (\<lambda>e. tf_name e = x) (pre @ e # post) = Some e"
  by (induction pre) auto

lemma tmp_get_spec:
  assumes "tmpfs_repr s m" and "tmp_name_ok x"
  shows "tmp_get x s = Some (m x)"
proof -
  obtain es where es: "tmpfs_files s es" "m = map_of (map tpair es)" using assms(1) by (auto simp: tmpfs_repr_def)
  note g = tmp_get_file_files [OF es(1) tmp_arg [OF assms(2)]]
  from es(1) show ?thesis
  proof (cases rule: tfile_cases [where x = x])
    case missing
    then have "find (\<lambda>e. tf_name e = x) es = None" by (auto simp: find_None_iff)
    with g missing(2) es(2) show ?thesis by (simp add: tmp_get_def)
  next
    case (found pre e post)
    have "tchain (tm_nodes s) (tm_bufs s) (tmp_root s) (pre @ e # post)"
      using es(1) found(1) by (simp add: tmpfs_files_def)
    then obtain n :: tmp_node where n: "tf_buf e \<noteq> 0" "tm_bufs s (tf_buf e) = Some (tf_data e)"
        "unat (t_size n) = length (tf_data e)"
      using tchain_at by blast
    have "unat (of_nat (length (tf_data e)) :: u32) = length (tf_data e)"
      unfolding n(3) [symmetric] by simp
    moreover have "find (\<lambda>e. tf_name e = x) es = Some e"
      using find_file_at [of x pre e post] found(1-3) by simp
    ultimately show ?thesis using n g found(5) es(2) by (simp add: tmp_get_def)
  qed
qed

lemma tmp_del_files:
  assumes "tmpfs_files s es" and "tmp_name_ok x"
  shows "\<exists>r s' es'. tmp_remove_file (x @ [NUL]) s = Some (r, s') \<and> tmpfs_files s' es' \<and> x \<notin> tf_name ` set es' \<and>
    map_of (map tpair es') = (map_of (map tpair es))(x := None) \<and> (r = 0 \<longleftrightarrow> x \<in> dom (map_of (map tpair es))) \<and>
    tm_mm s' = tm_mm s"
  using assms(1)
proof (cases rule: tfile_cases [where x = x])
  case missing
  then have "(map_of (map tpair es))(x := None) = map_of (map tpair es)" by auto
  with missing assms(1) tmp_remove_missing [OF assms(1) tmp_arg [OF assms(2)] missing(1)] show ?thesis
    by (intro exI conjI) (assumption+, simp, simp add: domIff, simp)
next
  case (found pre e post)
  have "cstr (x @ [NUL]) (tf_name e)" using tmp_arg [OF assms(2)] found(2) by simp
  with assms(1) found obtain s' where s': "tmp_remove_file (x @ [NUL]) s = Some (0, s')" "tmpfs_files s' (pre @ post)" "tm_mm s' = tm_mm s"
    using tmp_remove_found [of s pre e post "x @ [NUL]"] by auto
  have d: "distinct (map fst (map tpair es))" using assms(1) by (simp add: tmpfs_files_def tpair_def o_def)
  have at: "map tpair es ! length pre = (x, tf_data e)" using found(1,2) by (simp add: nth_append tpair_def)
  have "map_of (map tpair (pre @ post)) = (map_of (map tpair es))(x := None)"
    using map_of_take_out [OF d, of "length pre" x] found(1,2) at by (simp add: take_map drop_map del: map_of.simps)
  with s' found show ?thesis
    by (intro exI [of _ 0] exI [of _ s'] exI [of _ "pre @ post"]) (auto simp: domIff)
qed

lemma tmp_put_spec:
  assumes "tmpfs_repr s m" and "tmp_name_ok x" and "tmp_data_ok d"
  shows "\<exists>s'. tmp_put x d s = Some (tmp_room (length d) (tm_mm s), s') \<and>
    tmpfs_repr s' (if tmp_room (length d) (tm_mm s) then m(x \<mapsto> d) else m(x := None))"
proof -
  obtain es where es: "tmpfs_files s es" "m = map_of (map tpair es)" using assms(1) by (auto simp: tmpfs_repr_def)
  obtain r0 s0 es0 where rm: "tmp_remove_file (x @ [NUL]) s = Some (r0, s0)" "tmpfs_files s0 es0"
      "x \<notin> tf_name ` set es0" "map_of (map tpair es0) = m(x := None)" "r0 = 0 \<longleftrightarrow> x \<in> dom m" "tm_mm s0 = tm_mm s"
    using tmp_del_files [OF es(1) assms(2)] es(2) by blast
  note g = tmp_get_file_files [OF es(1) tmp_arg [OF assms(2)]]
  have add: "tmp_add_file (x @ [NUL]) d (of_nat (length d)) s =
      tmp_insert (x @ [NUL]) d (of_nat (length d)) s0 \<and> (x \<in> dom m \<or> s0 = s)"
    using es(1)
  proof (cases rule: tfile_cases [where x = x])
    case missing
    then have f: "find (\<lambda>e. tf_name e = x) es = None" by (auto simp: find_None_iff)
    have "s0 = s" using tmp_remove_missing [OF es(1) tmp_arg [OF assms(2)] missing(1)] rm(1) by simp
    with g f show ?thesis by (simp add: tmp_add_file_def)
  next
    case (found pre e post)
    have "tchain (tm_nodes s) (tm_bufs s) (tmp_root s) (pre @ e # post)"
      using es(1) found(1) by (simp add: tmpfs_files_def)
    then have "tf_buf e \<noteq> 0" using tchain_at by blast
    moreover have "find (\<lambda>e. tf_name e = x) es = Some e"
      using find_file_at [of x pre e post] found(1-3) by simp
    ultimately show ?thesis using g rm(1) found(5) es(2) by (auto simp: tmp_add_file_def)
  qed
  obtain r s' where run: "tmp_insert (x @ [NUL]) d (of_nat (length d)) s0 = Some (r, s')"
      "if r = 0 then \<exists>e. tmpfs_files s' (e # es0) \<and> tf_name e = x \<and> tf_data e = d else tmpfs_files s' es0"
      "r = 0 \<longleftrightarrow> tmp_room (length d) (tm_mm s)"
    using tmp_insert_files [OF rm(2,3) assms(2,3)] unfolding rm(6) by blast
  have "tmpfs_repr s' (if r = 0 then m(x \<mapsto> d) else m(x := None))"
  proof (cases "r = 0")
    case True
    with run(2) obtain e where e: "tmpfs_files s' (e # es0)" "tf_name e = x" "tf_data e = d" by auto
    have "map_of (map tpair (e # es0)) = m(x \<mapsto> d)" using rm(4) e(2,3) by (simp add: tpair_def)
    with e(1) True show ?thesis unfolding tmpfs_repr_def by (intro exI [of _ "e # es0"]) simp
  next
    case False
    with run(2) rm(4) show ?thesis unfolding tmpfs_repr_def by (intro exI [of _ es0]) simp
  qed
  with add run(1,3) show ?thesis by (auto simp: tmp_put_def)
qed

lemma tmp_del_spec:
  assumes "tmpfs_repr s m" and "tmp_name_ok x"
  shows "\<exists>s'. tmp_del x s = Some (x \<in> dom m, s') \<and> tmpfs_repr s' (m(x := None))"
proof -
  obtain es where es: "tmpfs_files s es" "m = map_of (map tpair es)" using assms(1) by (auto simp: tmpfs_repr_def)
  obtain r s' es' where rm: "tmp_remove_file (x @ [NUL]) s = Some (r, s')" "tmpfs_files s' es'"
      "map_of (map tpair es') = m(x := None)" "r = 0 \<longleftrightarrow> x \<in> dom m"
    using tmp_del_files [OF es(1) assms(2)] es(2) by blast
  then have "tmpfs_repr s' (m(x := None))" unfolding tmpfs_repr_def by metis
  with rm(1,4) show ?thesis by (simp add: tmp_del_def)
qed

interpretation tmp: kv_store tmpfs_repr tmp_name_ok tmp_data_ok "\<lambda>x m. m(x := None)" tmp_get tmp_put tmp_del
  by unfold_locales (use tmp_put_spec in \<open>fastforce simp: tmp_get_spec tmp_del_spec\<close>)+

text \<open>
  C16: the temporary file system is a map from names to contents, on top of the page allocator. Any
  session of adding and removing files, with names of less than 31 characters and contents of less than
  2^31 bytes, runs without touching memory it does not own, whatever fresh memory holds and whether or
  not the allocator runs out; afterwards every name has the contents the session gives it. In the state
  after any session, adding a file succeeds exactly when the allocator then has a node and a buffer of
  the size (\<open>tmp_room\<close>; never for an empty file), and the name has the new contents; otherwise
  \<open>tmp_add_file\<close> reports -1 and the file it was to replace is gone. Removing succeeds exactly for a name
  that is there.
\<close>

theorem tmpfs_session:
  assumes "tmpfs_repr s m"
    and "\<forall>c \<in> set cs. tmp_name_ok (cmd_key c) \<and> (\<forall>d \<in> set (cmd_vals c). tmp_data_ok d)"
  shows "\<exists>bs s' m'. run_cmds tmp_put tmp_del cs s = Some (bs, s') \<and> length bs = length cs \<and>
    m' = session_effect (\<lambda>x m. m(x := None)) cs bs m \<and> tmpfs_repr s' m' \<and>
    (\<forall>x. tmp_name_ok x \<longrightarrow> tmp_get x s' = Some (m' x) \<and>
      (\<forall>d. tmp_data_ok d \<longrightarrow> (\<exists>s''. tmp_put x d s' = Some (tmp_room (length d) (tm_mm s'), s'') \<and>
         tmp_get x s'' = Some (if tmp_room (length d) (tm_mm s') then Some d else None))) \<and>
      (\<exists>s''. tmp_del x s' = Some (x \<in> dom m', s'') \<and> tmp_get x s'' = Some None))"
proof -
  obtain bs s' where run: "run_cmds tmp_put tmp_del cs s = Some (bs, s')" "length bs = length cs"
      and r: "tmpfs_repr s' (session_effect (\<lambda>x m. m(x := None)) cs bs m)"
    using tmp.session [OF assms] by blast
  let ?m = "session_effect (\<lambda>x m. m(x := None)) cs bs m"
  have put: "\<exists>s''. tmp_put x d s' = Some (tmp_room (length d) (tm_mm s'), s'') \<and>
      tmp_get x s'' = Some (if tmp_room (length d) (tm_mm s') then Some d else None)" if "tmp_name_ok x" "tmp_data_ok d" for x d
  proof -
    from tmp_put_spec [OF r that] obtain s'' where p: "tmp_put x d s' = Some (tmp_room (length d) (tm_mm s'), s'')"
        "tmpfs_repr s'' (if tmp_room (length d) (tm_mm s') then ?m(x \<mapsto> d) else ?m(x := None))" by blast
    from tmp_get_spec [OF p(2) that(1)] have "tmp_get x s'' = Some (if tmp_room (length d) (tm_mm s') then Some d else None)"
      by (simp split: if_splits)
    with p(1) show ?thesis by blast
  qed
  have del: "\<exists>s''. tmp_del x s' = Some (x \<in> dom ?m, s'') \<and> tmp_get x s'' = Some None" if x: "tmp_name_ok x" for x
  proof -
    from tmp_del_spec [OF r x] obtain s'' where p: "tmp_del x s' = Some (x \<in> dom ?m, s'')" "tmpfs_repr s'' (?m(x := None))" by blast
    from tmp_get_spec [OF p(2) x] p(1) show ?thesis by simp
  qed
  show ?thesis
    by (rule exI [of _ bs], rule exI [of _ s'], rule exI [of _ ?m]) (use run r put del tmp_get_spec [OF r] in blast)
qed

theorem tmpfs_session_witness:
  "\<exists>s s1 bs s'. tmp_put ''a'' ''1'' s = Some (True, s1) \<and> tmp_get ''a'' s1 = Some (Some ''1'') \<and>
     run_cmds tmp_put tmp_del [Put ''a'' ''1'', Put ''b'' ''2'', Put ''a'' ''3'', Del ''b''] s = Some (bs, s') \<and>
     tmp_get ''b'' s' = Some None \<and> tmp_get ''a'' s' \<noteq> Some (Some ''1'')"
proof -
  define s where "s = tmp_init \<lparr>tm_mm = demo_mm, tm_nodes = \<lambda>_. None, tm_bufs = \<lambda>_. None, tmp_root = 7,
    tm_junk = \<lambda>p n. replicate n CHR ''?''\<rparr>"
  have mm: "tm_mm s = demo_mm" by (simp add: s_def tmp_init_def)
  have "tmpfs_files s []" using demo_mm_ok by (simp add: tmpfs_files_def s_def tmp_init_def)
  then have r: "tmpfs_repr s Map.empty" unfolding tmpfs_repr_def by (intro exI [of _ "[]"]) simp
  have ok: "tmp_name_ok ''a''" "tmp_name_ok ''b''" "tmp_data_ok ''1''" by (simp_all add: tmp_name_ok_def tmp_data_ok_def)
  have room: "tmp_room (length ''1'') (tm_mm s)"
    using demo_mm_pages [of SIZEOF_TMP_NODE 1] unfolding mm by (auto simp: tmp_room_def SIZEOF_TMP_NODE_def)
  have "\<forall>x. tmp_name_ok x \<longrightarrow> (\<forall>d. tmp_data_ok d \<longrightarrow> (\<exists>s''. tmp_put x d s = Some (tmp_room (length d) (tm_mm s), s'') \<and>
         tmp_get x s'' = Some (if tmp_room (length d) (tm_mm s) then Some d else None)))"
    using tmpfs_session [OF r, of "[]"] by simp
  from this [rule_format, OF ok(1,3)] room obtain s1 where
      put: "tmp_put ''a'' ''1'' s = Some (True, s1)" "tmp_get ''a'' s1 = Some (Some ''1'')" by auto
  let ?cs = "[Put ''a'' ''1'', Put ''b'' ''2'', Put ''a'' ''3'', Del ''b'']"
  have fits: "\<forall>c \<in> set ?cs. tmp_name_ok (cmd_key c) \<and> (\<forall>d \<in> set (cmd_vals c). tmp_data_ok d)"
    by (simp add: tmp_name_ok_def tmp_data_ok_def)
  obtain bs s' where run: "run_cmds tmp_put tmp_del ?cs s = Some (bs, s')" "length bs = length ?cs"
      and get: "\<forall>x. tmp_name_ok x \<longrightarrow> tmp_get x s' = Some (session_effect (\<lambda>x m. m(x := None)) ?cs bs Map.empty x)"
    using tmpfs_session [OF r fits] by blast
  obtain b1 b2 b3 b4 where bs: "bs = [b1, b2, b3, b4]" using run(2) by (auto simp: length_Suc_conv)
  have "tmp_get ''b'' s' = Some None" "tmp_get ''a'' s' \<noteq> Some (Some ''1'')" using get ok(1,2) by (simp_all add: bs)
  with put run(1) show ?thesis by blast
qed

end
