(* ===== verification/Queue_Iface.thy ===== *)
theory Queue_Iface
  imports Prelude
begin

text \<open>
  The interface of a bounded character queue, and of one whose last element can be taken back, as the
  line discipline of a terminal needs it; its clients read a line and rub out a line. Both terminals and
  keyboards keep such a queue in a ring of characters.
\<close>

locale fifo =
  fixes wf :: "'s \<Rightarrow> bool"
    and content :: "'s \<Rightarrow> char list"
    and cap :: nat
    and put :: "char \<Rightarrow> 's \<Rightarrow> 's option"
    and pop_front :: "'s \<Rightarrow> (char \<times> 's) option"
  assumes put_law: "wf s \<Longrightarrow> length (content s) < cap \<Longrightarrow>
      \<exists>s'. put c s = Some s' \<and> wf s' \<and> content s' = content s @ [c]"
    and front_law: "wf s \<Longrightarrow> content s = c # q \<Longrightarrow> \<exists>s'. pop_front s = Some (c, s') \<and> wf s' \<and> content s' = q"
begin

text \<open>First in, first out.\<close>

lemma put_then_front:
  assumes "wf s" and "content s = []" and "0 < cap"
  shows "\<exists>s1 s2. put c s = Some s1 \<and> pop_front s1 = Some (c, s2) \<and> content s2 = []"
proof -
  obtain s1 where s1: "put c s = Some s1" "wf s1" "content s1 = [c]"
    using put_law [OF assms(1), of c] assms(2,3) by auto
  with front_law [OF s1(2), of c "[]"] show ?thesis by auto
qed

text \<open>Taking everything out, in the order it was put in.\<close>

lemma drain:
  assumes "wf s"
  shows "\<exists>s'. ((\<lambda>x. Option.bind x (\<lambda>(r, s). map_option (\<lambda>(c, s'). (r @ [c], s')) (pop_front s))) ^^ length (content s)) (Some ([], s)) =
    Some (content s, s') \<and> wf s' \<and> content s' = []"
proof -
  define step where "step = (\<lambda>x. Option.bind x (\<lambda>(r, s). map_option (\<lambda>(c, s'). (r @ [c], s')) (pop_front s)))"
  have run: "wf s \<Longrightarrow> content s = q \<Longrightarrow> \<exists>s'. (step ^^ length q) (Some (r, s)) = Some (r @ q, s') \<and> wf s' \<and> content s' = []" for q r s
  proof (induction q arbitrary: r s)
    case (Cons c q)
    obtain s1 where "pop_front s = Some (c, s1)" "wf s1" "content s1 = q" using front_law [OF Cons.prems] by blast
    with Cons.IH [of s1 "r @ [c]"] show ?case by (simp add: funpow_Suc_right step_def del: funpow.simps)
  qed simp
  from run [OF assms refl, of "[]"] show ?thesis by (simp add: step_def [symmetric])
qed

end

locale edit_queue = fifo +
  fixes last_char :: "'a \<Rightarrow> char option"
    and pop_back :: "'a \<Rightarrow> 'a"
  assumes last_law: "wf s \<Longrightarrow> content s \<noteq> [] \<Longrightarrow> last_char s = Some (last (content s))"
    and back_law: "wf s \<Longrightarrow> content s \<noteq> [] \<Longrightarrow> wf (pop_back s) \<and> content (pop_back s) = butlast (content s)"
begin

text \<open>Taking back what was just put leaves the queue as it was.\<close>

lemma put_then_back:
  assumes "wf s" and "length (content s) < cap" and "put c s = Some s1"
  shows "content (pop_back s1) = content s"
  using put_law [OF assms(1,2), of c] assms(3) back_law [of s1] by auto

end

text \<open>The characters of a ring from an index on.\<close>

definition ring_list :: "'a list \<Rightarrow> nat \<Rightarrow> nat \<Rightarrow> 'a list" where
  "ring_list buf b n = map (\<lambda>i. buf ! ((b + i) mod length buf)) [0..<n]"

lemma length_ring_list [simp]: "length (ring_list buf b n) = n"
  by (simp add: ring_list_def)

lemma window_distinct:
  assumes "i < k" and "k < n"
  shows "(b + i) mod n \<noteq> (b + k) mod (n :: nat)"
proof
  assume "(b + i) mod n = (b + k) mod n"
  then have "n dvd (b + k) - (b + i)" using assms(1) by (metis add_left_mono less_imp_le mod_eq_dvd_iff_nat)
  then have "n dvd k - i" by simp
  with assms show False by (simp add: nat_dvd_not_less)
qed

lemma ring_list_put:
  assumes "n < length buf"
  shows "ring_list (buf[(b + n) mod length buf := c]) b (Suc n) = ring_list buf b n @ [c]"
proof -
  have "(b + n) mod length buf \<noteq> (b + i) mod length buf" if "i < n" for i
    using window_distinct [OF that assms, of b] by simp
  then have "map (\<lambda>i. buf[(b + n) mod length buf := c] ! ((b + i) mod length buf)) [0..<n] = ring_list buf b n"
    by (auto simp: ring_list_def)
  moreover have "(b + n) mod length buf < length buf" using assms by (intro mod_less_divisor) linarith
  ultimately show ?thesis by (simp add: ring_list_def)
qed

lemma ring_list_front: "ring_list buf b (Suc n) = buf ! (b mod length buf) # ring_list buf (Suc b mod length buf) n"
proof -
  have "[0..<Suc n] = 0 # map Suc [0..<n]" by (simp add: upt_conv_Cons map_Suc_upt del: upt_Suc)
  moreover have "(Suc b mod length buf + i) mod length buf = Suc (b + i) mod length buf" for i
    by (metis add_Suc mod_add_left_eq)
  ultimately show ?thesis by (simp add: ring_list_def)
qed

text \<open>Rubbing out a line: everything behind the last line feed.\<close>

definition rub_out :: "char list \<Rightarrow> char list" where
  "rub_out q = rev (dropWhile (\<lambda>c. c \<noteq> CHR 0x0A) (rev q))"

lemma rub_out_snoc: "rub_out (q @ [c]) = (if c = CHR 0x0A then q @ [c] else rub_out q)"
  by (simp add: rub_out_def)

lemma rub_out_Nil [simp]: "rub_out [] = []"
  by (simp add: rub_out_def)

text \<open>The first line, or the first \<open>n\<close> characters when no line ends among them.\<close>

primrec first_line :: "bool \<Rightarrow> nat \<Rightarrow> char list \<Rightarrow> char list" where
  "first_line stop n [] = []"
| "first_line stop n (c # q) =
     (case n of 0 \<Rightarrow> [] | Suc k \<Rightarrow> if stop \<and> c = CHR 0x0A then [c] else c # first_line stop k q)"

lemma first_line_prefix: "\<exists>r. q = first_line stop n q @ r"
  by (induction q arbitrary: n) (auto split: nat.splits)

lemma length_first_line: "length (first_line stop n q) \<le> n"
  by (induction q arbitrary: n) (auto split: nat.splits)

end
