(* ===== verification/Tty.thy ===== *)
theory Tty
  imports Queue_Iface CString_Copy
begin

text \<open>
  Virtual consoles with the POSIX line discipline, \<open>drivers/tty/tty.c\<close>. The seven consoles are a
  list; the characters given to the hardware output function are a list too, and so is the text
  mode video memory. The message of an interrupt signal is left out.
\<close>

definition MAX_TTYS :: nat where "MAX_TTYS = 7"
definition TTY_BUFFER_SIZE :: nat where "TTY_BUFFER_SIZE = 2048"
definition VIDEO_SIZE :: nat where "VIDEO_SIZE = 80 * 25 * 2"

definition ISIG :: u32 where "ISIG = 1"
definition ICANON :: u32 where "ICANON = 2"
definition ECHO :: u32 where "ECHO = 8"

definition VINTR :: nat where "VINTR = 0"
definition VERASE :: nat where "VERASE = 1"
definition VKILL :: nat where "VKILL = 2"
definition VEOF :: nat where "VEOF = 3"

definition CTRL :: "char \<Rightarrow> u8" where "CTRL c = of_char c AND 0x1F"

record tty =
  tty_id :: int
  tty_buffer :: "char list"
  tty_head :: u32
  tty_tail :: u32
  tty_count :: u32
  screen_buffer :: "u16 list"
  saved_cursor_x :: int
  saved_cursor_y :: int
  c_lflag :: u32
  c_cc :: "u8 list"

record consoles =
  v_ttys :: "tty list"
  active_tty_index :: nat
  hw_out :: "char list"
  video_mem :: "u16 list"
  cursor_x :: int
  cursor_y :: int
  current_user_index :: int
  current_user :: "char list"

definition zero_tty :: tty where
  "zero_tty = \<lparr>tty_id = 0, tty_buffer = replicate TTY_BUFFER_SIZE NUL, tty_head = 0, tty_tail = 0, tty_count = 0,
     screen_buffer = replicate (VIDEO_SIZE div 2) 0, saved_cursor_x = 0, saved_cursor_y = 0,
     c_lflag = 0, c_cc = replicate 20 0\<rparr>"

definition init_tty :: "nat \<Rightarrow> tty" where
  "init_tty i = zero_tty\<lparr>tty_id := int i + 1, c_lflag := ICANON OR ECHO OR ISIG,
     c_cc := (c_cc zero_tty)[VINTR := CTRL (CHR ''c''), VERASE := 8, VKILL := CTRL (CHR ''u''), VEOF := CTRL (CHR ''d'')]\<rparr>"

definition tty_init :: "consoles \<Rightarrow> consoles" where
  "tty_init s = s\<lparr>v_ttys := map init_tty [0..<MAX_TTYS]\<rparr>"

definition tty_current :: "consoles \<Rightarrow> int option" where
  "tty_current s = map_option tty_id (rd (v_ttys s) (active_tty_index s))"

text \<open>The names of all consoles, appended one after the other.\<close>

primrec append_names :: "tty list \<Rightarrow> nat \<Rightarrow> char list \<Rightarrow> char list option" where
  "append_names [] i out = Some out"
| "append_names (t # ts) i out =
     do { o1 \<leftarrow> strcat out (''tty'' @ [NUL]);
          let tmp = [char_of (tty_id t + 48), (if i = MAX_TTYS - 1 then NUL else CHR '' ''), NUL];
          o2 \<leftarrow> strcat o1 tmp;
          append_names ts (Suc i) o2 }"

definition tty_get_all_names :: "char list \<Rightarrow> consoles \<Rightarrow> char list option" where
  "tty_get_all_names out s = do { o0 \<leftarrow> wr out 0 NUL; append_names (v_ttys s) 0 o0 }"

subsection \<open>Input\<close>

text \<open>A \<open>char\<close> is signed: comparing it with a control character, an unsigned byte.\<close>

definition is_cc :: "char \<Rightarrow> tty \<Rightarrow> nat \<Rightarrow> bool option" where
  "is_cc c t k = do { b \<leftarrow> rd (c_cc t) k; Some ((of_char c :: int) < 128 \<and> of_char c = uint b) }"

definition lflag :: "tty \<Rightarrow> u32 \<Rightarrow> bool" where
  "lflag t f \<longleftrightarrow> c_lflag t AND f \<noteq> 0"

definition ring_put :: "char \<Rightarrow> tty \<Rightarrow> tty option" where
  "ring_put c t =
     do { b \<leftarrow> wr (tty_buffer t) (unat (tty_head t)) c;
          Some (t\<lparr>tty_buffer := b, tty_head := (tty_head t + 1) mod of_nat TTY_BUFFER_SIZE, tty_count := tty_count t + 1\<rparr>) }"

definition ring_back :: "tty \<Rightarrow> tty" where
  "ring_back t = t\<lparr>tty_head := (tty_head t - 1) mod of_nat TTY_BUFFER_SIZE, tty_count := tty_count t - 1\<rparr>"

definition ring_last :: "tty \<Rightarrow> char option" where
  "ring_last t = rd (tty_buffer t) (unat ((tty_head t - 1) mod of_nat TTY_BUFFER_SIZE))"

definition ring_front :: "tty \<Rightarrow> (char \<times> tty) option" where
  "ring_front t =
     do { c \<leftarrow> rd (tty_buffer t) (unat (tty_tail t));
          Some (c, t\<lparr>tty_tail := (tty_tail t + 1) mod of_nat TTY_BUFFER_SIZE, tty_count := tty_count t - 1\<rparr>) }"

text \<open>
  One character on one console, without the kill character: the console afterwards and what goes
  to the hardware.
\<close>

definition tty_char :: "char \<Rightarrow> tty \<Rightarrow> (tty \<times> char list) option" where
  "tty_char c t =
     do { intr \<leftarrow> (if lflag t ISIG then is_cc c t VINTR else Some False);
          (if intr then Some (t, [])
           else do { erase \<leftarrow> (if lflag t ICANON then is_cc c t VERASE else Some False);
                     (if erase \<or> lflag t ICANON \<and> c = CHR 0x7F
                      then Some (if tty_count t > 0
                                 then (ring_back t, if lflag t ECHO then [CHR 0x08, CHR '' '', CHR 0x08] else [])
                                 else (t, []))
                      else if unat (tty_count t) < TTY_BUFFER_SIZE
                      then do { let c' = (if c = CHR 0x0D then CHR 0x0A else c);
                                t' \<leftarrow> ring_put c' t;
                                Some (t', if lflag t ECHO then [c'] else []) }
                      else Some (t, [])) }) }"

text \<open>
  The kill character feeds the erase character to \<open>tty_input\<close> until the line is gone. (That call
  cannot reach the kill branch: a byte that equals the erase character is erased first.)
\<close>

partial_function (option) tty_kill :: "tty \<Rightarrow> char list \<Rightarrow> (tty \<times> char list) option" where
  "tty_kill t out =
     (if tty_count t > 0
      then do { l \<leftarrow> ring_last t;
                (if l \<noteq> CHR 0x0A
                 then do { e \<leftarrow> rd (c_cc t) VERASE;
                           (t', o') \<leftarrow> tty_char (char_of (unat e)) t;
                           tty_kill t' (out @ o') }
                 else Some (t, out)) }
      else Some (t, out))"

definition tty_key :: "char \<Rightarrow> tty \<Rightarrow> (tty \<times> char list) option" where
  "tty_key c t =
     do { intr \<leftarrow> (if lflag t ISIG then is_cc c t VINTR else Some False);
          erase \<leftarrow> is_cc c t VERASE;
          kill \<leftarrow> is_cc c t VKILL;
          (if \<not> intr \<and> lflag t ICANON \<and> \<not> (erase \<or> c = CHR 0x7F) \<and> kill then tty_kill t [] else tty_char c t) }"

definition tty_input :: "char \<Rightarrow> consoles \<Rightarrow> consoles option" where
  "tty_input c s =
     do { t \<leftarrow> rd (v_ttys s) (active_tty_index s);
          (t', out) \<leftarrow> tty_key c t;
          Some (s\<lparr>v_ttys := (v_ttys s)[active_tty_index s := t'], hw_out := hw_out s @ out\<rparr>) }"

subsection \<open>Output and switching\<close>

text \<open>\<open>i\<close> and the bound are compared as unsigned numbers.\<close>

function read_loop :: "nat \<Rightarrow> nat \<Rightarrow> tty \<Rightarrow> char list \<Rightarrow> (nat \<times> tty \<times> char list) option" where
  "read_loop i n t buf =
     (if i < n \<and> tty_count t > 0
      then do { (c, t') \<leftarrow> ring_front t;
                b \<leftarrow> wr buf i c;
                (if lflag t ICANON \<and> c = CHR 0x0A then Some (i + 1, t', b) else read_loop (i + 1) n t' b) }
      else Some (i, t, buf))"
  by pat_completeness auto
termination
  by (relation "measure (\<lambda>(i, n, t, b). n - i)") auto

declare read_loop.simps [simp del]

definition tty_read :: "char list \<Rightarrow> u32 \<Rightarrow> consoles \<Rightarrow> (nat \<times> char list \<times> consoles) option" where
  "tty_read user_buf n s =
     do { t \<leftarrow> rd (v_ttys s) (active_tty_index s);
          (i, t', b) \<leftarrow> read_loop 0 (unat n) t user_buf;
          Some (i, b, s\<lparr>v_ttys := (v_ttys s)[active_tty_index s := t']\<rparr>) }"

text \<open>\<open>data[i]\<close> for \<open>i < n\<close>; a negative \<open>n\<close> writes nothing.\<close>

definition tty_write :: "char list \<Rightarrow> int \<Rightarrow> consoles \<Rightarrow> consoles option" where
  "tty_write data n s =
     (if nat n \<le> length data then Some (s\<lparr>hw_out := hw_out s @ take (nat n) data\<rparr>) else None)"

text \<open>Copying \<open>VIDEO_SIZE / 2\<close> cells.\<close>

definition copy_cells :: "u16 list \<Rightarrow> u16 list \<Rightarrow> u16 list option" where
  "copy_cells dst src =
     (if VIDEO_SIZE div 2 \<le> length dst \<and> VIDEO_SIZE div 2 \<le> length src
      then Some (take (VIDEO_SIZE div 2) src @ drop (VIDEO_SIZE div 2) dst) else None)"

definition tty_switch :: "int \<Rightarrow> consoles \<Rightarrow> consoles option" where
  "tty_switch i s =
     do { cur \<leftarrow> tty_current s;
          (if i < 1 \<or> i > int MAX_TTYS \<or> i = cur then Some s
           else do { old \<leftarrow> rd (v_ttys s) (active_tty_index s);
                     saved \<leftarrow> copy_cells (screen_buffer old) (video_mem s);
                     ts \<leftarrow> wr (v_ttys s) (active_tty_index s)
                       (old\<lparr>screen_buffer := saved, saved_cursor_x := cursor_x s, saved_cursor_y := cursor_y s\<rparr>);
                     new \<leftarrow> rd ts (nat i - 1);
                     vm \<leftarrow> copy_cells (video_mem s) (screen_buffer new);
                     Some (s\<lparr>v_ttys := ts, active_tty_index := nat i - 1, video_mem := vm,
                       cursor_x := saved_cursor_x new, cursor_y := saved_cursor_y new,
                       current_user_index := -1, current_user := replicate 32 NUL\<rparr>) }) }"

end
