(* ===== verification/Tty_Spec.thy ===== *)
theory Tty_Spec
  imports Tty
begin

text \<open>
  The line discipline refines an edited queue: the ring buffer of a console stands for the list of
  characters typed and not yet read, and every key has the effect on that list that POSIX
  canonical mode describes (except that rubbing out does not stop at the start of the line).
\<close>

definition ring_wf :: "tty \<Rightarrow> bool" where
  "ring_wf t \<longleftrightarrow> length (tty_buffer t) = TTY_BUFFER_SIZE \<and> unat (tty_tail t) < TTY_BUFFER_SIZE \<and>
     unat (tty_count t) \<le> TTY_BUFFER_SIZE \<and>
     unat (tty_head t) = (unat (tty_tail t) + unat (tty_count t)) mod TTY_BUFFER_SIZE"

definition typed :: "tty \<Rightarrow> char list" where
  "typed t = map (\<lambda>i. tty_buffer t ! ((unat (tty_tail t) + i) mod TTY_BUFFER_SIZE)) [0..<unat (tty_count t)]"

lemma length_typed [simp]: "length (typed t) = unat (tty_count t)"
  by (simp add: typed_def)

lemma typed_Nil_iff: "typed t = [] \<longleftrightarrow> tty_count t = 0"
  by (metis length_0_conv length_typed unat_eq_0)

lemma unat_ring_succ: "unat (h :: u32) < TTY_BUFFER_SIZE \<Longrightarrow> unat ((h + 1) mod of_nat TTY_BUFFER_SIZE) = (unat h + 1) mod TTY_BUFFER_SIZE"
  by (simp add: unat_mod TTY_BUFFER_SIZE_def unat_plus1)

lemma pred_mod: "0 < n \<Longrightarrow> n < 2048 \<Longrightarrow> (n + 2047) mod 2048 = n - (1 :: nat)"
  by (cases n) simp_all

lemma unat_ring_pred:
  fixes h :: u32
  assumes "unat h < TTY_BUFFER_SIZE"
  shows "unat ((h - 1) mod of_nat TTY_BUFFER_SIZE) = (unat h + (TTY_BUFFER_SIZE - 1)) mod TTY_BUFFER_SIZE"
proof (cases "h = 0")
  case True
  then show ?thesis by (simp add: unat_mod TTY_BUFFER_SIZE_def)
next
  case False
  then have "unat (h - 1) = unat h - 1" "0 < unat h" by (simp_all add: unat_minus_one unat_gt_0)
  with assms pred_mod [of "unat h"] show ?thesis by (simp add: unat_mod TTY_BUFFER_SIZE_def)
qed

lemma ring_size_pos: "0 < TTY_BUFFER_SIZE"
  by (simp add: TTY_BUFFER_SIZE_def)

lemma head_lt: "ring_wf t \<Longrightarrow> unat (tty_head t) < TTY_BUFFER_SIZE"
  by (simp add: ring_wf_def ring_size_pos)

lemma ring_put_law:
  assumes "ring_wf t" and "length (typed t) < TTY_BUFFER_SIZE"
  shows "\<exists>t'. ring_put c t = Some t' \<and> ring_wf t' \<and> typed t' = typed t @ [c] \<and> c_lflag t' = c_lflag t \<and> c_cc t' = c_cc t"
proof -
  let ?h = "unat (tty_head t)" and ?n = "unat (tty_count t)" and ?b = "unat (tty_tail t)"
  let ?t = "t\<lparr>tty_buffer := (tty_buffer t)[?h := c], tty_head := (tty_head t + 1) mod of_nat TTY_BUFFER_SIZE,
    tty_count := tty_count t + 1\<rparr>"
  have n: "?n < TTY_BUFFER_SIZE" using assms(2) by simp
  then have c: "unat (tty_count t + 1) = Suc ?n" by (intro unat_plus1) (simp add: TTY_BUFFER_SIZE_def)
  have "typed ?t = map (\<lambda>i. (tty_buffer t)[?h := c] ! ((?b + i) mod TTY_BUFFER_SIZE)) [0..<?n] @
      [(tty_buffer t)[?h := c] ! ((?b + ?n) mod TTY_BUFFER_SIZE)]"
    by (simp add: typed_def c)
  also have "\<dots> = typed t @ [c]"
  proof -
    have "?h \<noteq> (?b + i) mod TTY_BUFFER_SIZE" if "i < ?n" for i
      using window_distinct [OF that n, of ?b] assms(1) by (simp add: ring_wf_def)
    then have "map (\<lambda>i. (tty_buffer t)[?h := c] ! ((?b + i) mod TTY_BUFFER_SIZE)) [0..<?n] = typed t"
      by (auto simp: typed_def)
    moreover have "(tty_buffer t)[?h := c] ! ((?b + ?n) mod TTY_BUFFER_SIZE) = c"
      using assms(1) head_lt [OF assms(1)] by (simp add: ring_wf_def)
    ultimately show ?thesis by simp
  qed
  finally have ty: "typed ?t = typed t @ [c]" .
  have "ring_wf ?t"
    using assms(1) n c unat_ring_succ [OF head_lt [OF assms(1)]] by (simp add: ring_wf_def mod_Suc_eq)
  with ty show ?thesis using assms(1) head_lt [OF assms(1)] by (simp add: ring_put_def ring_wf_def)
qed

lemma ring_front_law:
  assumes "ring_wf t" and "typed t = c # q"
  shows "\<exists>t'. ring_front t = Some (c, t') \<and> ring_wf t' \<and> typed t' = q \<and> c_lflag t' = c_lflag t \<and> c_cc t' = c_cc t"
proof -
  let ?n = "unat (tty_count t)" and ?b = "unat (tty_tail t)"
  let ?t = "t\<lparr>tty_tail := (tty_tail t + 1) mod of_nat TTY_BUFFER_SIZE, tty_count := tty_count t - 1\<rparr>"
  have b: "?b < TTY_BUFFER_SIZE" using assms(1) by (simp add: ring_wf_def)
  have n: "?n = Suc (length q)" using assms(2) by (metis length_Cons length_typed)
  then have c0: "tty_count t \<noteq> 0" by auto
  then have c: "unat (tty_count t - 1) = length q" using n by (simp add: unat_minus_one)
  have tl: "unat ((tty_tail t + 1) mod of_nat TTY_BUFFER_SIZE) = (?b + 1) mod TTY_BUFFER_SIZE"
    by (rule unat_ring_succ [OF b])
  have ix: "(Suc ?b mod TTY_BUFFER_SIZE + i) mod TTY_BUFFER_SIZE = Suc (?b + i) mod TTY_BUFFER_SIZE" for i
    by (metis add_Suc mod_add_left_eq)
  have up: "[0..<?n] = 0 # map Suc [0..<length q]" unfolding n by (simp add: upt_conv_Cons map_Suc_upt del: upt_Suc)
  have "c # q = map (\<lambda>i. tty_buffer t ! ((?b + i) mod TTY_BUFFER_SIZE)) [0..<?n]"
    using assms(2) by (simp add: typed_def)
  also have "\<dots> = tty_buffer t ! (?b mod TTY_BUFFER_SIZE) # typed ?t"
    unfolding up by (simp add: typed_def c tl ix)
  finally have "tty_buffer t ! ?b = c" "typed ?t = q" using b by simp_all
  moreover have "ring_wf ?t"
    using assms(1) n c tl ix [of "length q"] by (simp add: ring_wf_def)
  ultimately show ?thesis using assms(1) by (simp add: ring_front_def ring_wf_def)
qed

lemma ring_back_law:
  assumes "ring_wf t" and "typed t \<noteq> []"
  shows "ring_wf (ring_back t) \<and> typed (ring_back t) = butlast (typed t) \<and> ring_last t = Some (last (typed t)) \<and>
    c_lflag (ring_back t) = c_lflag t \<and> c_cc (ring_back t) = c_cc t"
proof -
  let ?n = "unat (tty_count t)" and ?b = "unat (tty_tail t)"
  obtain k where k: "?n = Suc k" using assms(2) by (metis length_greater_0_conv length_typed gr0_implies_Suc)
  then have c: "unat (tty_count t - 1) = k" by (subst unat_minus_one) auto
  have le: "?n \<le> TTY_BUFFER_SIZE" using assms(1) by (simp add: ring_wf_def)
  have hd: "unat ((tty_head t - 1) mod of_nat TTY_BUFFER_SIZE) = (?b + k) mod TTY_BUFFER_SIZE"
  proof -
    have "unat (tty_head t) = (?b + Suc k) mod TTY_BUFFER_SIZE" using assms(1) k by (simp add: ring_wf_def)
    then have "(unat (tty_head t) + (TTY_BUFFER_SIZE - 1)) mod TTY_BUFFER_SIZE =
        (?b + Suc k + (TTY_BUFFER_SIZE - 1)) mod TTY_BUFFER_SIZE"
      by (simp only: mod_add_left_eq)
    also have "?b + Suc k + (TTY_BUFFER_SIZE - 1) = ?b + k + TTY_BUFFER_SIZE" using ring_size_pos by simp
    finally have "(unat (tty_head t) + (TTY_BUFFER_SIZE - 1)) mod TTY_BUFFER_SIZE = (?b + k) mod TTY_BUFFER_SIZE" by simp
    then show ?thesis using unat_ring_pred [OF head_lt [OF assms(1)]] by simp
  qed
  have split: "typed t = map (\<lambda>i. tty_buffer t ! ((?b + i) mod TTY_BUFFER_SIZE)) [0..<k] @
      [tty_buffer t ! ((?b + k) mod TTY_BUFFER_SIZE)]"
    by (simp add: typed_def k)
  have "typed (ring_back t) = butlast (typed t)"
    unfolding split by (simp add: typed_def ring_back_def c)
  moreover have "ring_last t = Some (last (typed t))"
    unfolding split using assms(1) ring_size_pos by (simp add: ring_last_def hd ring_wf_def)
  moreover have "ring_wf (ring_back t)"
    using assms(1) c hd k le by (simp add: ring_wf_def ring_back_def)
  ultimately show ?thesis by (simp add: ring_back_def)
qed

interpretation ring: edit_queue ring_wf typed TTY_BUFFER_SIZE ring_put ring_front ring_last ring_back
  by unfold_locales (use ring_put_law ring_front_law ring_back_law in blast)+

subsection \<open>Keys\<close>

definition cc :: "tty \<Rightarrow> nat \<Rightarrow> char \<Rightarrow> bool" where
  "cc t k c \<longleftrightarrow> (of_char c :: int) < 128 \<and> of_char c = uint (c_cc t ! k)"

text \<open>What a key does to the characters typed so far.\<close>

definition edited :: "tty \<Rightarrow> char \<Rightarrow> char list \<Rightarrow> char list" where
  "edited t c q =
     (if lflag t ISIG \<and> cc t VINTR c then q
      else if lflag t ICANON \<and> (cc t VERASE c \<or> c = CHR 0x7F) then butlast q
      else if lflag t ICANON \<and> cc t VKILL c then rub_out q
      else if length q < TTY_BUFFER_SIZE then q @ [if c = CHR 0x0D then CHR 0x0A else c]
      else q)"

definition same_conf :: "tty \<Rightarrow> tty \<Rightarrow> bool" where
  "same_conf t t' \<longleftrightarrow> c_lflag t' = c_lflag t \<and> c_cc t' = c_cc t"

text \<open>
  A console with its control characters in place. The erase character must be one that the
  console reads as such: an ASCII character, and not the interrupt character.
\<close>

definition tty_ok :: "tty \<Rightarrow> bool" where
  "tty_ok t \<longleftrightarrow> ring_wf t \<and> length (c_cc t) = 20 \<and> uint (c_cc t ! VERASE) < 128 \<and>
     (lflag t ISIG \<longrightarrow> c_cc t ! VERASE \<noteq> c_cc t ! VINTR)"

lemma same_conf_simps:
  assumes "same_conf t t'"
  shows "lflag t' f = lflag t f" "cc t' k c = cc t k c" "edited t' c q = edited t c q" "c_cc t' = c_cc t"
  using assms by (simp_all add: same_conf_def lflag_def cc_def edited_def)

lemma tty_ok_same: "tty_ok t \<Longrightarrow> ring_wf t' \<Longrightarrow> same_conf t t' \<Longrightarrow> tty_ok t'"
  by (simp add: tty_ok_def same_conf_simps)

lemma is_cc_cc: "tty_ok t \<Longrightarrow> k < 20 \<Longrightarrow> is_cc c t k = Some (cc t k c)"
  by (simp add: is_cc_def cc_def tty_ok_def)

lemmas cc_index = VINTR_def VERASE_def VKILL_def

lemma tty_char_erase:
  assumes "tty_ok t" and "lflag t ICANON" and "\<not> (lflag t ISIG \<and> cc t VINTR c)"
    and "cc t VERASE c \<or> c = CHR 0x7F"
  shows "\<exists>t' out. tty_char c t = Some (t', out) \<and> ring_wf t' \<and> typed t' = butlast (typed t) \<and> same_conf t t' \<and>
    (typed t \<noteq> [] \<longrightarrow> t' = ring_back t)"
proof (cases "typed t = []")
  case True
  then have "tty_count t = 0" by (simp add: typed_Nil_iff)
  with assms True show ?thesis
    by (auto simp: tty_char_def is_cc_cc cc_index same_conf_def tty_ok_def)
next
  case False
  then have n: "tty_count t > 0" by (simp add: typed_Nil_iff word_gt_0)
  have "ring_wf t" using assms(1) by (simp add: tty_ok_def)
  from ring_back_law [OF this False] n assms show ?thesis
    by (auto simp: tty_char_def is_cc_cc cc_index same_conf_def)
qed

lemma tty_char_insert:
  assumes "tty_ok t" and "\<not> (lflag t ISIG \<and> cc t VINTR c)"
    and "\<not> (lflag t ICANON \<and> (cc t VERASE c \<or> c = CHR 0x7F))"
  shows "\<exists>t' out. tty_char c t = Some (t', out) \<and> ring_wf t' \<and> same_conf t t' \<and>
    typed t' = (if length (typed t) < TTY_BUFFER_SIZE then typed t @ [if c = CHR 0x0D then CHR 0x0A else c] else typed t)"
proof -
  have wf: "ring_wf t" using assms(1) by (simp add: tty_ok_def)
  let ?c = "if c = CHR 0x0D then CHR 0x0A else c"
  have i: "(if lflag t ISIG then is_cc c t VINTR else Some False) = Some False"
    using assms(1,2) by (simp add: is_cc_cc cc_index)
  have e: "(if lflag t ICANON then is_cc c t VERASE else Some False) = Some False"
    using assms(1,3) by (simp add: is_cc_cc cc_index)
  have d: "\<not> (False \<or> lflag t ICANON \<and> c = CHR 0x7F)" using assms(3) by blast
  have run: "tty_char c t = (if unat (tty_count t) < TTY_BUFFER_SIZE
      then do { t' \<leftarrow> ring_put ?c t; Some (t', if lflag t ECHO then [?c] else []) } else Some (t, []))"
    unfolding tty_char_def i e bind.bind_lunit if_False using d by (simp only: if_False Let_def)
  show ?thesis
  proof (cases "length (typed t) < TTY_BUFFER_SIZE")
    case True
    with ring_put_law [OF wf True, of ?c] show ?thesis unfolding run by (auto simp: same_conf_def)
  next
    case False
    with wf show ?thesis unfolding run by (simp add: same_conf_def)
  qed
qed

text \<open>The kill character: the loop ends, and what is left ends with a line feed or is empty.\<close>

lemma tty_kill_run:
  assumes "tty_ok t" and "lflag t ICANON"
  shows "\<exists>t' out'. tty_kill t out = Some (t', out') \<and> ring_wf t' \<and> typed t' = rub_out (typed t) \<and> same_conf t t'"
  using assms
proof (induction "length (typed t)" arbitrary: t out rule: less_induct)
  case less
  have wf: "ring_wf t" using less.prems(1) by (simp add: tty_ok_def)
  show ?case
  proof (cases "typed t" rule: rev_cases)
    case Nil
    then have "tty_count t = 0" by (simp add: typed_Nil_iff)
    with Nil wf show ?thesis by (subst tty_kill.simps) (simp add: same_conf_def)
  next
    case (snoc q l)
    then have ne: "typed t \<noteq> []" by simp
    then have n: "tty_count t > 0" by (simp add: typed_Nil_iff word_gt_0)
    note bk = ring_back_law [OF wf ne]
    show ?thesis
    proof (cases "l = CHR 0x0A")
      case True
      with snoc n bk wf show ?thesis by (subst tty_kill.simps) (simp add: same_conf_def rub_out_snoc)
    next
      case False
      define e where "e = (char_of (unat (c_cc t ! VERASE)) :: char)"
      have ei: "(of_char e :: int) = uint (c_cc t ! VERASE)" "uint (c_cc t ! VERASE) < 128"
      proof -
        show u: "uint (c_cc t ! VERASE) < 128" using less.prems(1) by (simp add: tty_ok_def)
        have "int (unat (c_cc t ! VERASE)) < 128" using u by simp
        then have "(of_char e :: nat) = unat (c_cc t ! VERASE)" by (simp add: e_def)
        then have "int (of_char e) = int (unat (c_cc t ! VERASE))" by (rule arg_cong)
        then show "(of_char e :: int) = uint (c_cc t ! VERASE)" by (simp add: of_nat_of_char)
      qed
      have er: "cc t VERASE e" using ei by (simp add: cc_def)
      have ni: "\<not> (lflag t ISIG \<and> cc t VINTR e)"
        using less.prems(1) ei by (auto simp: cc_def tty_ok_def dest: unsigned_word_eqI)
      obtain t1 o1 where t1: "tty_char e t = Some (t1, o1)" "ring_wf t1" "typed t1 = butlast (typed t)" "same_conf t t1"
        using tty_char_erase [OF less.prems ni] er by blast
      have "tty_ok t1" "lflag t1 ICANON"
        using tty_ok_same [OF less.prems(1) t1(2,4)] less.prems(2) t1(4) by (simp_all add: same_conf_simps)
      then obtain t' out' where rest: "tty_kill t1 (out @ o1) = Some (t', out')" "ring_wf t'"
          "typed t' = rub_out (typed t1)" "same_conf t1 t'"
        using less.hyps [of t1] t1(3) snoc by fastforce
      have "rd (c_cc t) VERASE = Some (c_cc t ! VERASE)" using less.prems(1) by (simp add: tty_ok_def VERASE_def)
      then have "tty_kill t out = tty_kill t1 (out @ o1)"
        using n bk snoc False t1(1) unfolding e_def by (subst tty_kill.simps) simp
      with rest t1 snoc False show ?thesis by (auto simp: rub_out_snoc same_conf_def)
    qed
  qed
qed

lemma tty_key_run:
  assumes "tty_ok t"
  shows "\<exists>t' out. tty_key c t = Some (t', out) \<and> tty_ok t' \<and> typed t' = edited t c (typed t) \<and> same_conf t t'"
proof -
  have wf: "ring_wf t" using assms by (simp add: tty_ok_def)
  have key: "tty_key c t = (if \<not> (lflag t ISIG \<and> cc t VINTR c) \<and> lflag t ICANON \<and>
      \<not> (cc t VERASE c \<or> c = CHR 0x7F) \<and> cc t VKILL c then tty_kill t [] else tty_char c t)"
    using assms by (simp add: tty_key_def is_cc_cc cc_index)
  have "\<exists>t' out. tty_key c t = Some (t', out) \<and> ring_wf t' \<and> typed t' = edited t c (typed t) \<and> same_conf t t'"
  proof (cases "lflag t ISIG \<and> cc t VINTR c")
    case True
    then have "tty_key c t = Some (t, [])" using key assms by (simp add: tty_char_def is_cc_cc cc_index)
    with True wf show ?thesis by (simp add: edited_def same_conf_def)
  next
    case ni: False
    show ?thesis
    proof (cases "lflag t ICANON \<and> (cc t VERASE c \<or> c = CHR 0x7F)")
      case True
      then have run: "tty_key c t = tty_char c t" using key by auto
      have ed: "edited t c (typed t) = butlast (typed t)" unfolding edited_def if_not_P [OF ni] if_P [OF True] ..
      show ?thesis unfolding run ed using tty_char_erase [OF assms _ ni] True by blast
    next
      case ne: False
      show ?thesis
      proof (cases "lflag t ICANON \<and> cc t VKILL c")
        case True
        then have run: "tty_key c t = tty_kill t []" using key ni ne by auto
        have ed: "edited t c (typed t) = rub_out (typed t)" unfolding edited_def if_not_P [OF ni] if_not_P [OF ne] if_P [OF True] ..
        show ?thesis unfolding run ed using tty_kill_run [OF assms] True by blast
      next
        case False
        then have run: "tty_key c t = tty_char c t" using key by auto
        have ed: "edited t c (typed t) = (if length (typed t) < TTY_BUFFER_SIZE
            then typed t @ [if c = CHR 0x0D then CHR 0x0A else c] else typed t)"
          unfolding edited_def if_not_P [OF ni] if_not_P [OF ne] if_not_P [OF False] by simp
        show ?thesis unfolding run ed using tty_char_insert [OF assms ni ne] by blast
      qed
    qed
  qed
  with tty_ok_same [OF assms] show ?thesis by blast
qed

subsection \<open>Reading\<close>

lemma read_loop_run:
  assumes "ring_wf t" and "i \<le> n" and "n \<le> length buf"
  defines "l \<equiv> first_line (lflag t ICANON) (n - i) (typed t)"
  shows "\<exists>t'. read_loop i n t buf = Some (i + length l, t', take i buf @ l @ drop (i + length l) buf) \<and>
    ring_wf t' \<and> typed t' = drop (length l) (typed t) \<and> same_conf t t'"
  using assms(1-3) unfolding l_def
proof (induction "n - i" arbitrary: i t buf)
  case 0
  then show ?case by (subst read_loop.simps) (cases "typed t"; auto simp: same_conf_def)
next
  case (Suc k)
  then have lt: "i < n" and k: "k = n - Suc i" by simp_all
  show ?case
  proof (cases "typed t")
    case Nil
    then have "tty_count t = 0" by (simp add: typed_Nil_iff)
    with Nil Suc.prems show ?thesis by (subst read_loop.simps) (simp add: same_conf_def)
  next
    case (Cons c q)
    obtain t1 where t1: "ring_front t = Some (c, t1)" "ring_wf t1" "typed t1 = q" "same_conf t t1"
      using ring_front_law [OF Suc.prems(1) Cons] by (auto simp: same_conf_def)
    have n: "tty_count t > 0" using Cons by (simp add: word_gt_0 flip: typed_Nil_iff)
    have i: "i < length buf" using lt Suc.prems(3) by simp
    have tk: "take (Suc i) (buf[i := c]) = take i buf @ [c]" using i by (simp add: take_Suc_conv_app_nth)
    show ?thesis
    proof (cases "lflag t ICANON \<and> c = CHR 0x0A")
      case True
      have "read_loop i n t buf = Some (i + 1, t1, buf[i := c])"
        using lt n t1(1) i True by (subst read_loop.simps) simp
      moreover have "buf[i := c] = take i buf @ [c] @ drop (Suc i) buf" using i by (simp add: upd_conv_take_nth_drop)
      ultimately show ?thesis using True Cons Suc.hyps(2) t1 by (cases "n - i") simp_all
    next
      case False
      let ?l = "first_line (lflag t ICANON) (n - Suc i) q"
      have "read_loop i n t buf = read_loop (Suc i) n t1 (buf[i := c])"
        using lt n t1(1) i False by (subst read_loop.simps) auto
      moreover obtain t' where "read_loop (Suc i) n t1 (buf[i := c]) =
          Some (Suc i + length ?l, t', take (Suc i) (buf[i := c]) @ ?l @ drop (Suc i + length ?l) (buf[i := c]))"
          "ring_wf t'" "typed t' = drop (length ?l) q" "same_conf t1 t'"
        using Suc.hyps(1) [OF k t1(2), of "buf[i := c]"] Suc.prems(3) lt
        unfolding t1(3) same_conf_simps(1) [OF t1(4)] by auto
      moreover have "first_line (lflag t ICANON) (n - i) (typed t) = c # ?l"
        using Cons False Suc.hyps(2) k by (cases "n - i") auto
      ultimately show ?thesis using tk Cons t1(4) by (simp add: same_conf_def)
    qed
  qed
qed

subsection \<open>Properties\<close>

primrec tty_inputs :: "char list \<Rightarrow> consoles \<Rightarrow> consoles option" where
  "tty_inputs [] s = Some s"
| "tty_inputs (c # cs) s = Option.bind (tty_input c s) (tty_inputs cs)"

definition active_tty :: "consoles \<Rightarrow> tty" where
  "active_tty s = v_ttys s ! active_tty_index s"

definition consoles_ok :: "consoles \<Rightarrow> bool" where
  "consoles_ok s \<longleftrightarrow> active_tty_index s < length (v_ttys s) \<and> tty_ok (active_tty s)"

lemma tty_input_run:
  assumes "consoles_ok s"
  shows "\<exists>s'. tty_input c s = Some s' \<and> consoles_ok s' \<and> typed (active_tty s') = edited (active_tty s) c (typed (active_tty s)) \<and>
    same_conf (active_tty s) (active_tty s')"
proof -
  have a: "active_tty_index s < length (v_ttys s)" "tty_ok (active_tty s)" using assms by (simp_all add: consoles_ok_def)
  obtain t' out where "tty_key c (active_tty s) = Some (t', out)" "tty_ok t'"
      "typed t' = edited (active_tty s) c (typed (active_tty s))" "same_conf (active_tty s) t'"
    using tty_key_run [OF a(2)] by blast
  with a show ?thesis by (simp add: tty_input_def active_tty_def consoles_ok_def)
qed

lemma tty_inputs_run:
  assumes "consoles_ok s"
  shows "\<exists>s'. tty_inputs cs s = Some s' \<and> consoles_ok s' \<and> typed (active_tty s') = fold (edited (active_tty s)) cs (typed (active_tty s)) \<and>
    same_conf (active_tty s) (active_tty s')"
  using assms
proof (induction cs arbitrary: s)
  case Nil
  then show ?case by (simp add: same_conf_def)
next
  case (Cons c cs)
  obtain s1 where s1: "tty_input c s = Some s1" "consoles_ok s1"
      "typed (active_tty s1) = edited (active_tty s) c (typed (active_tty s))" "same_conf (active_tty s) (active_tty s1)"
    using tty_input_run [OF Cons.prems] by blast
  obtain s' where s': "tty_inputs cs s1 = Some s'" "consoles_ok s'"
      "typed (active_tty s') = fold (edited (active_tty s1)) cs (typed (active_tty s1))" "same_conf (active_tty s1) (active_tty s')"
    using Cons.IH [OF s1(2)] by blast
  have "edited (active_tty s1) = edited (active_tty s)" using same_conf_simps(3) [OF s1(4)] by blast
  with s1 s' show ?case by (simp add: same_conf_def)
qed

lemma first_line_complete:
  "CHR 0x0A \<in> set q \<Longrightarrow> first_line True n q = take n (takeWhile (\<lambda>c. c \<noteq> CHR 0x0A) q @ [CHR 0x0A])"
proof (induction q arbitrary: n)
  case (Cons c q)
  then show ?case by (cases n) auto
qed simp

lemma first_line_partial: "\<not> canonical \<or> CHR 0x0A \<notin> set q \<Longrightarrow> first_line canonical n q = take n q"
proof (induction q arbitrary: n)
  case (Cons c q)
  then show ?case by (cases n) auto
qed (cases n; simp)

lemma tty_read_first_line:
  assumes "consoles_ok s" and "unat n \<le> length buf" and "l = first_line (lflag (active_tty s) ICANON) (unat n) (typed (active_tty s))"
  shows "\<exists>s2. tty_read buf n s = Some (length l, l @ drop (length l) buf, s2) \<and>
    typed (active_tty s2) = drop (length l) (typed (active_tty s)) \<and> consoles_ok s2"
proof -
  have a: "active_tty_index s < length (v_ttys s)" "ring_wf (active_tty s)" "tty_ok (active_tty s)"
    using assms(1) by (simp_all add: consoles_ok_def tty_ok_def)
  obtain t' where t': "read_loop 0 (unat n) (active_tty s) buf = Some (length l, t', l @ drop (length l) buf)"
      "ring_wf t'" "typed t' = drop (length l) (typed (active_tty s))" "same_conf (active_tty s) t'"
    using read_loop_run [OF a(2) _ assms(2), of 0] assms(3) by auto
  let ?s2 = "s\<lparr>v_ttys := (v_ttys s)[active_tty_index s := t']\<rparr>"
  have "rd (v_ttys s) (active_tty_index s) = Some (active_tty s)" using a(1) by (simp add: active_tty_def)
  then have rd: "tty_read buf n s = Some (length l, l @ drop (length l) buf, ?s2)" using t'(1) by (simp add: tty_read_def)
  have "active_tty ?s2 = t'" "consoles_ok ?s2"
    using a(1) tty_ok_same [OF a(3) t'(2,4)] by (simp_all add: active_tty_def consoles_ok_def)
  with rd t'(3) show ?thesis by (intro exI [of _ ?s2]) simp
qed

text \<open>
  Where the code leaves its comment (``in canonical mode, it waits until a newline is found''): with no
  newline among the characters, \<open>tty_read\<close> in canonical mode does not wait and gives what there is.
\<close>

lemma tty_read_does_not_wait:
  assumes "consoles_ok s" and "unat n \<le> length buf" and "CHR 0x0A \<notin> set (typed (active_tty s))"
  shows "\<exists>s2. tty_read buf n s = Some (min (unat n) (length (typed (active_tty s))),
      take (unat n) (typed (active_tty s)) @ drop (min (unat n) (length (typed (active_tty s)))) buf, s2)"
  using tty_read_first_line [OF assms(1,2) refl] first_line_partial assms(3) by (auto simp: min.commute)

text \<open>
  C17: the line discipline of a console is an edited queue. Whatever is typed, every key is handled
  without leaving the ring buffer (the loop of the kill character ends), and the characters
  waiting are those the editing rules give. A read into a buffer of \<open>n\<close> characters, in canonical mode
  when a newline has been entered, then delivers the first line with its newline, in raw mode all that
  was typed, either up to \<open>n\<close> characters, and leaves the rest. (In canonical mode with no newline
  among the characters a comment in the code says that the read waits; the code returns what there is,
  \<open>tty_read_does_not_wait\<close>, and this property says nothing of that case.)
\<close>

theorem tty_line_discipline:
  assumes "consoles_ok s" and "unat n \<le> length buf"
  shows "\<exists>s1 q. tty_inputs cs s = Some s1 \<and> consoles_ok s1 \<and> q = fold (edited (active_tty s)) cs (typed (active_tty s)) \<and>
    typed (active_tty s1) = q \<and>
    (lflag (active_tty s) ICANON \<longrightarrow> CHR 0x0A \<in> set q \<longrightarrow>
      (\<exists>l s2. l = take (unat n) (takeWhile (\<lambda>c. c \<noteq> CHR 0x0A) q @ [CHR 0x0A]) \<and>
        tty_read buf n s1 = Some (length l, l @ drop (length l) buf, s2) \<and>
        typed (active_tty s2) = drop (length l) q \<and> consoles_ok s2)) \<and>
    (\<not> lflag (active_tty s) ICANON \<longrightarrow>
      (\<exists>l s2. l = take (unat n) q \<and> tty_read buf n s1 = Some (length l, l @ drop (length l) buf, s2) \<and>
        typed (active_tty s2) = drop (length l) q \<and> consoles_ok s2))"
proof -
  obtain s1 where s1: "tty_inputs cs s = Some s1" "consoles_ok s1"
      "typed (active_tty s1) = fold (edited (active_tty s)) cs (typed (active_tty s))" "same_conf (active_tty s) (active_tty s1)"
    using tty_inputs_run [OF assms(1)] by blast
  have lf: "lflag (active_tty s1) ICANON = lflag (active_tty s) ICANON" by (rule same_conf_simps(1) [OF s1(4)])
  note read = tty_read_first_line [OF s1(2) assms(2) refl, unfolded lf]
  have canon: "\<exists>l s2. l = take (unat n) (takeWhile (\<lambda>c. c \<noteq> CHR 0x0A) (typed (active_tty s1)) @ [CHR 0x0A]) \<and>
        tty_read buf n s1 = Some (length l, l @ drop (length l) buf, s2) \<and>
        typed (active_tty s2) = drop (length l) (typed (active_tty s1)) \<and> consoles_ok s2"
    if "lflag (active_tty s) ICANON" "CHR 0x0A \<in> set (typed (active_tty s1))"
    using read that(1) unfolding first_line_complete [OF that(2), symmetric] by simp
  have raw: "\<exists>l s2. l = take (unat n) (typed (active_tty s1)) \<and> tty_read buf n s1 = Some (length l, l @ drop (length l) buf, s2) \<and>
        typed (active_tty s2) = drop (length l) (typed (active_tty s1)) \<and> consoles_ok s2"
    if "\<not> lflag (active_tty s) ICANON"
    using read that first_line_partial [of False "typed (active_tty s1)" "unat n"] by simp
  show ?thesis
    by (rule exI [of _ s1], rule exI [of _ "typed (active_tty s1)"]) (use s1(1-3) canon raw in blast)
qed

definition demo_consoles :: consoles where
  "demo_consoles = tty_init \<lparr>v_ttys = [], active_tty_index = 0, hw_out = [], video_mem = replicate 2000 0,
     cursor_x = 0, cursor_y = 0, current_user_index = 0, current_user = []\<rparr>"

lemma demo_tty: "active_tty demo_consoles = init_tty 0" "consoles_ok demo_consoles" "typed (init_tty 0) = []"
proof -
  have up: "[0..<MAX_TTYS] = 0 # [1..<MAX_TTYS]" by (simp add: MAX_TTYS_def upt_conv_Cons del: upt_Suc)
  then show a: "active_tty demo_consoles = init_tty 0" by (simp add: active_tty_def demo_consoles_def tty_init_def)
  have "ring_wf (init_tty 0)"
    by (simp add: ring_wf_def init_tty_def zero_tty_def TTY_BUFFER_SIZE_def)
  moreover have "c_cc (init_tty 0) ! VERASE = 8" "c_cc (init_tty 0) ! VINTR = 3" "length (c_cc (init_tty 0)) = 20"
    by (simp_all add: init_tty_def zero_tty_def VINTR_def VERASE_def VKILL_def VEOF_def CTRL_def numeral_eq_Suc)
  ultimately have "tty_ok (init_tty 0)" by (simp add: tty_ok_def)
  then show "consoles_ok demo_consoles"
    using a by (simp add: consoles_ok_def) (simp add: demo_consoles_def tty_init_def MAX_TTYS_def)
  show "typed (init_tty 0) = []" by (simp add: typed_def init_tty_def zero_tty_def)
qed

text \<open>Typing \<open>ab\<close>, backspace, \<open>c\<close>, return, and reading into five characters.\<close>

theorem tty_line_discipline_witness:
  "\<exists>s1 s2. tty_inputs [CHR ''a'', CHR ''b'', CHR 0x08, CHR ''c'', CHR 0x0D] demo_consoles = Some s1 \<and>
     tty_read (replicate 5 NUL) 5 s1 = Some (3, ''ac'' @ [CHR 0x0A, NUL, NUL], s2) \<and> typed (active_tty s2) = []"
proof -
  let ?cs = "[CHR ''a'', CHR ''b'', CHR 0x08, CHR ''c'', CHR 0x0D]"
  have n: "unat (5 :: u32) \<le> length (replicate 5 NUL)" by simp
  have fl: "c_cc (init_tty 0) ! 0 = 3" "c_cc (init_tty 0) ! Suc 0 = 8" "c_cc (init_tty 0) ! 2 = 21" "c_lflag (init_tty 0) = 11"
    by (simp_all add: init_tty_def zero_tty_def VINTR_def VERASE_def VKILL_def VEOF_def CTRL_def numeral_eq_Suc
        ICANON_def ECHO_def ISIG_def)
  have l: "lflag (init_tty 0) ICANON" "lflag (init_tty 0) ISIG" by (simp_all add: lflag_def fl ICANON_def ISIG_def)
  have q: "fold (edited (init_tty 0)) ?cs [] = ''ac'' @ [CHR 0x0A]"
    by (simp add: edited_def l cc_def VINTR_def VERASE_def VKILL_def fl TTY_BUFFER_SIZE_def)
  have r: "take 5 (takeWhile (\<lambda>c. c \<noteq> CHR 0x0A) (''ac'' @ [CHR 0x0A]) @ [CHR 0x0A]) = ''ac'' @ [CHR 0x0A]" by simp
  have la: "lflag (init_tty 0) ICANON = True" and u: "unat (5 :: u32) = 5" using l(1) by simp_all
  obtain s1 qq ll s2 where d: "tty_inputs ?cs demo_consoles = Some s1" "qq = ''ac'' @ [CHR 0x0A]"
      "ll = take 5 (takeWhile (\<lambda>c. c \<noteq> CHR 0x0A) qq @ [CHR 0x0A])" "tty_read (replicate 5 NUL) 5 s1 = Some (length ll, ll @ drop (length ll) (replicate 5 NUL), s2)"
      "typed (active_tty s2) = drop (length ll) qq"
    using tty_line_discipline [OF demo_tty(2) n, of ?cs] unfolding demo_tty(1,3) q la u by fastforce
  have ll: "ll = ''ac'' @ [CHR 0x0A]" unfolding d(3) d(2) by (rule r)
  have "length ll = 3" "ll @ drop (length ll) (replicate 5 NUL) = ''ac'' @ [CHR 0x0A, NUL, NUL]" "drop (length ll) qq = []"
    unfolding ll d(2) by (simp_all add: numeral_eq_Suc)
  with d(1,4,5) show ?thesis by (intro exI [of _ s1] exI [of _ s2]) simp
qed

lemma copy_cells_exact:
  "length d = VIDEO_SIZE div 2 \<Longrightarrow> length s = VIDEO_SIZE div 2 \<Longrightarrow> copy_cells d s = Some s"
  by (simp add: copy_cells_def)

text \<open>
  switching to another console and back restores the screen. Leaving a console saves the
  2000 cells of the screen and the cursor, entering it puts them back; so after going to another
  console and returning, whatever was written to the screen there, the screen, the cursor and the
  foreground console are as before, and the other console has kept what was written.
\<close>

theorem tty_switch_roundtrip:
  assumes "length (v_ttys s) = MAX_TTYS" and "\<And>j. j < MAX_TTYS \<Longrightarrow> tty_id (v_ttys s ! j) = int j + 1"
    and "\<And>j. j < MAX_TTYS \<Longrightarrow> length (screen_buffer (v_ttys s ! j)) = VIDEO_SIZE div 2"
    and "length (video_mem s) = VIDEO_SIZE div 2" and "active_tty_index s < MAX_TTYS"
    and "k < MAX_TTYS" and "k \<noteq> active_tty_index s" and "length vm = VIDEO_SIZE div 2"
  shows "\<exists>s1 s2. tty_switch (int k + 1) s = Some s1 \<and> active_tty_index s1 = k \<and>
    video_mem s1 = screen_buffer (v_ttys s ! k) \<and>
    tty_switch (int (active_tty_index s) + 1) (s1\<lparr>video_mem := vm, cursor_x := x, cursor_y := y\<rparr>) = Some s2 \<and>
    active_tty_index s2 = active_tty_index s \<and> video_mem s2 = video_mem s \<and>
    cursor_x s2 = cursor_x s \<and> cursor_y s2 = cursor_y s \<and>
    screen_buffer (v_ttys s2 ! k) = vm \<and> saved_cursor_x (v_ttys s2 ! k) = x \<and> saved_cursor_y (v_ttys s2 ! k) = y"
proof -
  let ?a = "active_tty_index s"
  let ?old = "(v_ttys s ! ?a)\<lparr>screen_buffer := video_mem s, saved_cursor_x := cursor_x s, saved_cursor_y := cursor_y s\<rparr>"
  let ?ts = "(v_ttys s)[?a := ?old]"
  let ?s1 = "s\<lparr>v_ttys := ?ts, active_tty_index := k, video_mem := screen_buffer (v_ttys s ! k),
    cursor_x := saved_cursor_x (v_ttys s ! k), cursor_y := saved_cursor_y (v_ttys s ! k),
    current_user_index := -1, current_user := replicate 32 NUL\<rparr>"
  have nat1: "nat (int j + 1) = Suc j" for j by simp
  have one: "tty_switch (int k + 1) s = Some ?s1"
    using assms by (simp add: tty_switch_def tty_current_def copy_cells_exact nth_list_update nat1)
  let ?s1' = "?s1\<lparr>video_mem := vm, cursor_x := x, cursor_y := y\<rparr>"
  let ?new = "(v_ttys s ! k)\<lparr>screen_buffer := vm, saved_cursor_x := x, saved_cursor_y := y\<rparr>"
  let ?s2 = "?s1'\<lparr>v_ttys := ?ts[k := ?new], active_tty_index := ?a, video_mem := video_mem s,
    cursor_x := cursor_x s, cursor_y := cursor_y s, current_user_index := -1, current_user := replicate 32 NUL\<rparr>"
  have two: "tty_switch (int ?a + 1) ?s1' = Some ?s2"
    using assms by (simp add: tty_switch_def tty_current_def copy_cells_exact nth_list_update nat1)
  show ?thesis
    by (rule exI [of _ ?s1], rule exI [of _ ?s2]) (use one two assms in \<open>simp add: nth_list_update\<close>)
qed

theorem tty_switch_roundtrip_witness:
  "\<exists>s1 s2. tty_switch 2 demo_consoles = Some s1 \<and> tty_switch 1 (s1\<lparr>video_mem := replicate 2000 7, cursor_x := 3, cursor_y := 4\<rparr>) = Some s2 \<and>
     video_mem s2 = replicate 2000 0 \<and> cursor_x s2 = 0 \<and> saved_cursor_x (v_ttys s2 ! 1) = 3"
proof -
  have j: "j < MAX_TTYS \<Longrightarrow> v_ttys demo_consoles ! j = init_tty j" for j
    by (simp add: demo_consoles_def tty_init_def)
  have l: "length (v_ttys demo_consoles) = MAX_TTYS" "active_tty_index demo_consoles = 0"
      "video_mem demo_consoles = replicate 2000 0" "cursor_x demo_consoles = 0"
    by (simp_all add: demo_consoles_def tty_init_def)
  have i: "tty_id (init_tty k) = int k + 1" "length (screen_buffer (init_tty k)) = VIDEO_SIZE div 2" for k
    by (simp_all add: init_tty_def zero_tty_def)
  have "\<exists>s1 s2. tty_switch (int 1 + 1) demo_consoles = Some s1 \<and> active_tty_index s1 = 1 \<and>
    video_mem s1 = screen_buffer (v_ttys demo_consoles ! 1) \<and>
    tty_switch (int (active_tty_index demo_consoles) + 1) (s1\<lparr>video_mem := replicate 2000 7, cursor_x := 3, cursor_y := 4\<rparr>) = Some s2 \<and>
    active_tty_index s2 = active_tty_index demo_consoles \<and> video_mem s2 = video_mem demo_consoles \<and>
    cursor_x s2 = cursor_x demo_consoles \<and> cursor_y s2 = cursor_y demo_consoles \<and>
    screen_buffer (v_ttys s2 ! 1) = replicate 2000 7 \<and> saved_cursor_x (v_ttys s2 ! 1) = 3 \<and> saved_cursor_y (v_ttys s2 ! 1) = 4"
    by (rule tty_switch_roundtrip) (simp_all add: l j i VIDEO_SIZE_def MAX_TTYS_def)
  then show ?thesis by (auto simp: l)
qed

end
