(* ===== verification/Framebuffer.thy ===== *)
theory Framebuffer
  imports CString_Copy
begin

text \<open>
  The framebuffer, \<open>drivers/video/fb.c\<close>: rectangles, characters of the built-in 8x8 font, scrolling,
  and the queries of user programs. The pixels \<open>virt\<close> points to are a list; the kernel's messages
  are left out.
\<close>

subsection \<open>State\<close>

record fb =
  fb_phys :: u32
  fb_virt :: u32
  fb_pixels :: "u32 list"
  fb_width :: u32
  fb_height :: u32
  fb_pitch :: u32
  fb_bpp :: u32
  red_shift :: u8
  red_size :: u8
  green_shift :: u8
  green_size :: u8
  blue_shift :: u8
  blue_size :: u8

definition fb_init :: "u32 \<Rightarrow> u32 \<Rightarrow> u32 \<Rightarrow> u32 \<Rightarrow> fb \<Rightarrow> fb" where
  "fb_init phys_addr width height bpp s =
     s\<lparr>fb_phys := phys_addr, fb_virt := phys_addr, fb_width := width, fb_height := height, fb_bpp := bpp,
       fb_pitch := width * (bpp div 8), red_shift := 16, red_size := 8, green_shift := 8, green_size := 8,
       blue_shift := 0, blue_size := 8\<rparr>"

text \<open>\<open>if (x < fb_width && y < height) fb[y * fb_width + x] = color\<close>\<close>

definition put_pixel :: "u32 \<Rightarrow> u32 \<Rightarrow> u32 \<Rightarrow> fb \<Rightarrow> fb option" where
  "put_pixel x y c s =
     (if x < fb_width s \<and> y < fb_height s
      then do { p \<leftarrow> wr (fb_pixels s) (unat (y * fb_width s + x)) c; Some (s\<lparr>fb_pixels := p\<rparr>) } else Some s)"

definition fb_draw_rect :: "u32 \<Rightarrow> u32 \<Rightarrow> u32 \<Rightarrow> u32 \<Rightarrow> u32 \<Rightarrow> fb \<Rightarrow> fb option" where
  "fb_draw_rect x_start y_start width height color s =
     (if fb_virt s = 0 then Some s
      else for_up 0 (unat height) (\<lambda>y. for_up 0 (unat width) (\<lambda>x.
             put_pixel (x_start + of_nat x) (y_start + of_nat y) color)) s)"

definition fb_scroll_up :: "u32 \<Rightarrow> u32 \<Rightarrow> fb \<Rightarrow> fb option" where
  "fb_scroll_up pixels bg_color s =
     (if fb_virt s = 0 \<or> fb_width s = 0 \<or> fb_height s = 0 then Some s
      else do { let size_to_copy = fb_width s * (fb_height s - pixels);
                let offset_pixels = fb_width s * pixels;
                s1 \<leftarrow> for_up 0 (unat size_to_copy)
                  (\<lambda>i s. do { c \<leftarrow> rd (fb_pixels s) (unat (of_nat i + offset_pixels));
                              p \<leftarrow> wr (fb_pixels s) i c; Some (s\<lparr>fb_pixels := p\<rparr>) }) s;
                for_up (unat size_to_copy) (unat (fb_width s * fb_height s))
                  (\<lambda>i s. do { p \<leftarrow> wr (fb_pixels s) i bg_color; Some (s\<lparr>fb_pixels := p\<rparr>) }) s1 })"

subsection \<open>Characters\<close>

text \<open>The rows of each character, from the top; bit 0 is the leftmost pixel.\<close>

definition basic_font :: "u8 list list" where
  "basic_font = replicate 32 (replicate 8 0) @
    [[0, 0, 0, 0, 0, 0, 0, 0], [0x18, 0x3C, 0x3C, 0x18, 0x18, 0, 0x18, 0],
     [0x36, 0x36, 0, 0, 0, 0, 0, 0], [0x36, 0x36, 0x7F, 0x36, 0x7F, 0x36, 0x36, 0],
     [0x0C, 0x3E, 0x03, 0x1E, 0x30, 0x1F, 0x0C, 0], [0, 0x63, 0x33, 0x18, 0x0C, 0x66, 0x63, 0],
     [0x1C, 0x36, 0x1C, 0x6E, 0x3B, 0x33, 0x6E, 0], [0x06, 0x06, 0x03, 0, 0, 0, 0, 0],
     [0x18, 0x0C, 0x06, 0x06, 0x06, 0x0C, 0x18, 0], [0x06, 0x0C, 0x18, 0x18, 0x18, 0x0C, 0x06, 0],
     [0, 0x66, 0x3C, 0xFF, 0x3C, 0x66, 0, 0], [0, 0x0C, 0x0C, 0x3F, 0x0C, 0x0C, 0, 0],
     [0, 0, 0, 0, 0, 0x0C, 0x0C, 0x06], [0, 0, 0, 0x3F, 0, 0, 0, 0],
     [0, 0, 0, 0, 0, 0x0C, 0x0C, 0], [0x60, 0x30, 0x18, 0x0C, 0x06, 0x03, 0x01, 0],
     [0x3E, 0x63, 0x73, 0x7B, 0x6F, 0x67, 0x3E, 0], [0x0C, 0x0E, 0x0C, 0x0C, 0x0C, 0x0C, 0x3F, 0],
     [0x1E, 0x33, 0x30, 0x1C, 0x06, 0x33, 0x3F, 0], [0x1E, 0x33, 0x30, 0x1C, 0x30, 0x33, 0x1E, 0],
     [0x38, 0x3C, 0x36, 0x33, 0x7F, 0x30, 0x78, 0], [0x3F, 0x03, 0x1F, 0x30, 0x30, 0x33, 0x1E, 0],
     [0x1C, 0x06, 0x03, 0x1F, 0x33, 0x33, 0x1E, 0], [0x3F, 0x33, 0x30, 0x18, 0x0C, 0x0C, 0x0C, 0],
     [0x1E, 0x33, 0x33, 0x1E, 0x33, 0x33, 0x1E, 0], [0x1E, 0x33, 0x33, 0x3E, 0x30, 0x18, 0x0E, 0],
     [0, 0x0C, 0x0C, 0, 0, 0x0C, 0x0C, 0], [0, 0x0C, 0x0C, 0, 0, 0x0C, 0x0C, 0x06],
     [0x18, 0x0C, 0x06, 0x03, 0x06, 0x0C, 0x18, 0], [0, 0, 0x3F, 0, 0, 0x3F, 0, 0],
     [0x06, 0x0C, 0x18, 0x30, 0x18, 0x0C, 0x06, 0], [0x1E, 0x33, 0x30, 0x18, 0x0C, 0, 0x0C, 0],
     [0x3E, 0x63, 0x7B, 0x7B, 0x7B, 0x03, 0x1E, 0], [0x0C, 0x1E, 0x33, 0x33, 0x3F, 0x33, 0x33, 0],
     [0x3F, 0x66, 0x66, 0x3E, 0x66, 0x66, 0x3F, 0], [0x3C, 0x66, 0x03, 0x03, 0x03, 0x66, 0x3C, 0],
     [0x1F, 0x36, 0x66, 0x66, 0x66, 0x36, 0x1F, 0], [0x7F, 0x46, 0x16, 0x1E, 0x16, 0x46, 0x7F, 0],
     [0x7F, 0x46, 0x16, 0x1E, 0x16, 0x06, 0x0F, 0], [0x3C, 0x66, 0x03, 0x03, 0x73, 0x66, 0x7C, 0],
     [0x33, 0x33, 0x33, 0x3F, 0x33, 0x33, 0x33, 0], [0x1E, 0x0C, 0x0C, 0x0C, 0x0C, 0x0C, 0x1E, 0],
     [0x78, 0x30, 0x30, 0x30, 0x33, 0x33, 0x1E, 0], [0x67, 0x66, 0x36, 0x1E, 0x36, 0x66, 0x67, 0],
     [0x0F, 0x06, 0x06, 0x06, 0x46, 0x66, 0x7F, 0], [0x63, 0x77, 0x7F, 0x7F, 0x6B, 0x63, 0x63, 0],
     [0x63, 0x67, 0x6F, 0x7B, 0x73, 0x63, 0x63, 0], [0x1C, 0x36, 0x63, 0x63, 0x63, 0x36, 0x1C, 0],
     [0x3F, 0x66, 0x66, 0x3E, 0x06, 0x06, 0x0F, 0], [0x1E, 0x33, 0x33, 0x33, 0x3B, 0x1E, 0x38, 0],
     [0x3F, 0x66, 0x66, 0x3E, 0x36, 0x66, 0x67, 0], [0x1E, 0x33, 0x07, 0x0E, 0x38, 0x33, 0x1E, 0],
     [0x3F, 0x2D, 0x0C, 0x0C, 0x0C, 0x0C, 0x1E, 0], [0x33, 0x33, 0x33, 0x33, 0x33, 0x33, 0x3F, 0],
     [0x33, 0x33, 0x33, 0x33, 0x33, 0x1E, 0x0C, 0], [0x63, 0x63, 0x63, 0x6B, 0x7F, 0x77, 0x63, 0],
     [0x63, 0x63, 0x36, 0x1C, 0x1C, 0x36, 0x63, 0], [0x33, 0x33, 0x33, 0x1E, 0x0C, 0x0C, 0x1E, 0],
     [0x7F, 0x63, 0x31, 0x18, 0x4C, 0x66, 0x7F, 0], [0x1E, 0x06, 0x06, 0x06, 0x06, 0x06, 0x1E, 0],
     [0x03, 0x06, 0x0C, 0x18, 0x30, 0x60, 0x40, 0], [0x1E, 0x18, 0x18, 0x18, 0x18, 0x18, 0x1E, 0],
     [0x08, 0x1C, 0x36, 0x63, 0, 0, 0, 0], [0, 0, 0, 0, 0, 0, 0, 0xFF],
     [0x0C, 0x0C, 0x18, 0, 0, 0, 0, 0], [0, 0, 0x1E, 0x30, 0x3E, 0x33, 0x6E, 0],
     [0x07, 0x06, 0x06, 0x3E, 0x66, 0x66, 0x3B, 0], [0, 0, 0x1E, 0x33, 0x03, 0x33, 0x1E, 0],
     [0x38, 0x30, 0x30, 0x3E, 0x33, 0x33, 0x6E, 0], [0, 0, 0x1E, 0x33, 0x3F, 0x03, 0x1E, 0],
     [0x1C, 0x36, 0x06, 0x0F, 0x06, 0x06, 0x0F, 0], [0, 0, 0x6E, 0x33, 0x33, 0x3E, 0x30, 0x1F],
     [0x07, 0x06, 0x36, 0x6E, 0x66, 0x66, 0x67, 0], [0x0C, 0, 0x0E, 0x0C, 0x0C, 0x0C, 0x1E, 0],
     [0x30, 0, 0x30, 0x30, 0x30, 0x33, 0x33, 0x1E], [0x07, 0x06, 0x66, 0x36, 0x1E, 0x36, 0x67, 0],
     [0x0E, 0x0C, 0x0C, 0x0C, 0x0C, 0x0C, 0x1E, 0], [0, 0, 0x33, 0x7F, 0x7F, 0x6B, 0x63, 0],
     [0, 0, 0x1F, 0x33, 0x33, 0x33, 0x33, 0], [0, 0, 0x1E, 0x33, 0x33, 0x33, 0x1E, 0],
     [0, 0, 0x3B, 0x66, 0x66, 0x3E, 0x06, 0x0F], [0, 0, 0x6E, 0x33, 0x33, 0x3E, 0x30, 0x78],
     [0, 0, 0x3B, 0x6E, 0x66, 0x06, 0x0F, 0], [0, 0, 0x3E, 0x03, 0x1E, 0x30, 0x1F, 0],
     [0x08, 0x0C, 0x3E, 0x0C, 0x0C, 0x2C, 0x18, 0], [0, 0, 0x33, 0x33, 0x33, 0x33, 0x6E, 0],
     [0, 0, 0x33, 0x33, 0x33, 0x1E, 0x0C, 0], [0, 0, 0x63, 0x6B, 0x7F, 0x7F, 0x36, 0],
     [0, 0, 0x63, 0x36, 0x1C, 0x36, 0x63, 0], [0, 0, 0x33, 0x33, 0x33, 0x3E, 0x30, 0x1F],
     [0, 0, 0x3F, 0x19, 0x0C, 0x26, 0x3F, 0], [0x38, 0x0C, 0x0C, 0x07, 0x0C, 0x0C, 0x38, 0],
     [0x18, 0x18, 0x18, 0, 0x18, 0x18, 0x18, 0], [0x07, 0x0C, 0x0C, 0x38, 0x0C, 0x0C, 0x07, 0],
     [0x6E, 0x3B, 0, 0, 0, 0, 0, 0], [0, 0, 0, 0, 0, 0, 0, 0]]"

text \<open>
  \<open>c > 127\<close> is never true of a signed \<open>char\<close>, so the only test left is that of the pointer, and a
  character above 127 indexes the font past its end.
\<close>

definition fb_draw_char :: "u32 \<Rightarrow> u32 \<Rightarrow> char \<Rightarrow> u32 \<Rightarrow> fb \<Rightarrow> fb option" where
  "fb_draw_char x_start y_start c color s =
     (if fb_virt s = 0 then Some s
      else for_up 0 8 (\<lambda>y s.
             do { glyph \<leftarrow> rd basic_font (of_char c);
                  bit_row \<leftarrow> rd glyph y;
                  for_up 0 8 (\<lambda>x s.
                    if bit_row AND push_bit x 1 \<noteq> 0
                    then put_pixel (x_start + of_nat x) (y_start + of_nat y) color s else Some s) s }) s)"

fun fb_puts :: "u32 \<Rightarrow> u32 \<Rightarrow> char list \<Rightarrow> u32 \<Rightarrow> fb \<Rightarrow> fb option" where
  "fb_puts x y [] color s = None"
| "fb_puts x y (c # str) color s =
     (if c = NUL then Some s else do { s' \<leftarrow> fb_draw_char x y c color s; fb_puts (x + 8) y str color s' })"

text \<open>Six colour bars; fewer than six columns divide by zero.\<close>

definition bar_colors :: "u32 list" where
  "bar_colors = [0xFFB6C1, 0xCEF0FF, 0xE6E6FA, 0xD8BFD8, 0xFFF0F5, 0xEAFFD0]"

definition fb_test_pattern :: "fb \<Rightarrow> fb option" where
  "fb_test_pattern s =
     (if fb_virt s = 0 then Some s
      else do { let bar_width = fb_width s div 6;
                for_up 0 (unat (fb_height s)) (\<lambda>y. for_up 0 (unat (fb_width s)) (\<lambda>x s.
                  if bar_width = 0 then None
                  else do { let i = unat (of_nat x div bar_width);
                            color \<leftarrow> rd bar_colors (if i \<ge> 6 then 5 else i);
                            p \<leftarrow> wr (fb_pixels s) (unat (of_nat y * fb_width s + of_nat x)) color;
                            Some (s\<lparr>fb_pixels := p\<rparr>) })) s })"

subsection \<open>Queries of user programs\<close>

definition FBIOGET_FSCREENINFO :: u64 where "FBIOGET_FSCREENINFO = 0x4600"
definition FBIOGET_VSCREENINFO :: u64 where "FBIOGET_VSCREENINFO = 0x4601"
definition FBIOPUT_VSCREENINFO :: u64 where "FBIOPUT_VSCREENINFO = 0x4602"
definition FBIOPUTCMAP :: u64 where "FBIOPUTCMAP = 0x4605"

record fb_bitfield =
  bf_offset :: u32
  bf_length :: u32
  bf_msb_right :: u32

record fb_fix_screeninfo =
  fix_id :: "char list"
  smem_start :: u32
  smem_len :: u32
  fix_type :: u32
  fix_visual :: u32
  line_length :: u32
  mmio_start :: u32
  mmio_len :: u32

record fb_var_screeninfo =
  xres :: u32
  yres :: u32
  xres_virtual :: u32
  yres_virtual :: u32
  bits_per_pixel :: u32
  var_red :: fb_bitfield
  var_green :: fb_bitfield
  var_blue :: fb_bitfield
  var_transp :: fb_bitfield
  var_height :: u32
  var_width :: u32

text \<open>What the call stores through its argument; the members that stay zero are not listed.\<close>

datatype fb_answer = FixInfo fb_fix_screeninfo | VarInfo fb_var_screeninfo | NoInfo

definition fb_user_ioctl :: "u64 \<Rightarrow> fb \<Rightarrow> int \<times> fb_answer" where
  "fb_user_ioctl request s =
     (if request = FBIOGET_FSCREENINFO
      then (0, FixInfo \<lparr>fix_id = ''BlueOS_FB'' @ replicate 7 NUL, smem_start = fb_phys s,
              smem_len = fb_height s * fb_pitch s, fix_type = 0, fix_visual = 2, line_length = fb_pitch s,
              mmio_start = fb_phys s, mmio_len = fb_height s * fb_pitch s\<rparr>)
      else if request = FBIOGET_VSCREENINFO
      then (0, VarInfo \<lparr>xres = fb_width s, yres = fb_height s, xres_virtual = fb_width s, yres_virtual = fb_height s,
              bits_per_pixel = fb_bpp s,
              var_red = \<lparr>bf_offset = ucast (red_shift s), bf_length = ucast (red_size s), bf_msb_right = 1\<rparr>,
              var_green = \<lparr>bf_offset = ucast (green_shift s), bf_length = ucast (green_size s), bf_msb_right = 1\<rparr>,
              var_blue = \<lparr>bf_offset = ucast (blue_shift s), bf_length = ucast (blue_size s), bf_msb_right = 1\<rparr>,
              var_transp = \<lparr>bf_offset = 24, bf_length = 8, bf_msb_right = 1\<rparr>,
              var_height = fb_height s div 4, var_width = fb_width s div 4\<rparr>)
      else if request = FBIOPUT_VSCREENINFO \<or> request = FBIOPUTCMAP then (0, NoInfo)
      else (-25, NoInfo))"

definition fb_user_illegal :: int where "fb_user_illegal = -22"

text \<open>The address of the mapping and the arguments given to \<open>vmm_map\<close>.\<close>

definition fb_user_mmap :: "u32 \<Rightarrow> fb \<Rightarrow> u32 \<times> (u32 \<times> u32 \<times> u32 \<times> u32)" where
  "fb_user_mmap len s =
     (let len1 = (if len = 0 then fb_height s * fb_pitch s else len);
          aligned_size = (len1 + 4095) AND NOT 4095
      in (0x70000000, (0x70000000, fb_phys s, aligned_size, 0x07)))"

subsection \<open>What drawing paints\<close>

definition fb_wf :: "fb \<Rightarrow> bool" where
  "fb_wf s \<longleftrightarrow> fb_virt s \<noteq> 0 \<and> length (fb_pixels s) = unat (fb_width s) * unat (fb_height s) \<and>
     unat (fb_width s) * unat (fb_height s) < 2 ^ 32"

definition pixel :: "fb \<Rightarrow> nat \<Rightarrow> nat \<Rightarrow> u32" where
  "pixel s x y = fb_pixels s ! (y * unat (fb_width s) + x)"

text \<open>The points \<open>P\<close> get the colour, the others keep theirs, and nothing else changes.\<close>

definition paints :: "(nat \<Rightarrow> nat \<Rightarrow> bool) \<Rightarrow> u32 \<Rightarrow> fb \<Rightarrow> fb \<Rightarrow> bool" where
  "paints P c s s' \<longleftrightarrow> s' = s\<lparr>fb_pixels := fb_pixels s'\<rparr> \<and> length (fb_pixels s') = length (fb_pixels s) \<and>
     (\<forall>x < unat (fb_width s). \<forall>y < unat (fb_height s). pixel s' x y = (if P x y then c else pixel s x y))"

lemma paintsE:
  assumes "paints P c s s'"
  obtains p where "s' = s\<lparr>fb_pixels := p\<rparr>" "length p = length (fb_pixels s)"
    "\<And>x y. x < unat (fb_width s) \<Longrightarrow> y < unat (fb_height s) \<Longrightarrow> p ! (y * unat (fb_width s) + x) = (if P x y then c else pixel s x y)"
proof
  show s': "s' = s\<lparr>fb_pixels := fb_pixels s'\<rparr>" using assms unfolding paints_def by blast
  show "length (fb_pixels s') = length (fb_pixels s)" using assms by (simp add: paints_def)
  have "fb_width s' = fb_width s" by (subst s') simp
  then show "fb_pixels s' ! (y * unat (fb_width s) + x) = (if P x y then c else pixel s x y)"
    if "x < unat (fb_width s)" "y < unat (fb_height s)" for x y
    using assms that by (simp add: paints_def pixel_def)
qed

lemma paintsI:
  assumes "length p = length (fb_pixels s)"
    and "\<And>x y. x < unat (fb_width s) \<Longrightarrow> y < unat (fb_height s) \<Longrightarrow> p ! (y * unat (fb_width s) + x) = (if P x y then c else pixel s x y)"
  shows "paints P c s (s\<lparr>fb_pixels := p\<rparr>)"
  using assms by (simp add: paints_def pixel_def)

lemma paints_wf: "paints P c s s' \<Longrightarrow> fb_wf s' = fb_wf s"
  by (erule paintsE) (simp add: fb_wf_def)

lemma paints_dims: "paints P c s s' \<Longrightarrow> fb_width s' = fb_width s \<and> fb_height s' = fb_height s"
  by (erule paintsE) simp

lemma paints_none: "paints (\<lambda>x y. False) c s s"
  by (simp add: paints_def)

lemma paints_cong: "paints P c s s' \<Longrightarrow> (\<And>x y. x < unat (fb_width s) \<Longrightarrow> y < unat (fb_height s) \<Longrightarrow> P x y = Q x y) \<Longrightarrow> paints Q c s s'"
  by (auto simp: paints_def)

lemma paints_trans:
  assumes "paints P c s s1" and "paints Q c s1 s2"
  shows "paints (\<lambda>x y. P x y \<or> Q x y) c s s2"
proof -
  obtain p where p: "s1 = s\<lparr>fb_pixels := p\<rparr>" "length p = length (fb_pixels s)"
      "\<And>x y. x < unat (fb_width s) \<Longrightarrow> y < unat (fb_height s) \<Longrightarrow> p ! (y * unat (fb_width s) + x) = (if P x y then c else pixel s x y)"
    by (rule paintsE [OF assms(1)]) (rule that)
  obtain q where q: "s2 = s1\<lparr>fb_pixels := q\<rparr>" "length q = length (fb_pixels s1)"
      "\<And>x y. x < unat (fb_width s1) \<Longrightarrow> y < unat (fb_height s1) \<Longrightarrow> q ! (y * unat (fb_width s1) + x) = (if Q x y then c else pixel s1 x y)"
    by (rule paintsE [OF assms(2)]) (rule that)
  have "s2 = s\<lparr>fb_pixels := q\<rparr>" using p(1) q(1) by simp
  moreover have "paints (\<lambda>x y. P x y \<or> Q x y) c s (s\<lparr>fb_pixels := q\<rparr>)"
    using p q by (intro paintsI) (auto simp: pixel_def)
  ultimately show ?thesis by simp
qed

lemma for_up_paints:
  assumes "fb_wf s" and "\<And>k t. k < n \<Longrightarrow> fb_wf t \<Longrightarrow> \<exists>t'. f k t = Some t' \<and> paints (P k) c t t'"
  shows "\<exists>s'. for_up 0 n f s = Some s' \<and> paints (\<lambda>x y. \<exists>k < n. P k x y) c s s'"
proof -
  have "\<exists>s'. for_up 0 n f s = Some s' \<and> fb_wf s' \<and> paints (\<lambda>x y. \<exists>k < n. P k x y) c s s'"
  proof (rule for_up_rule [where I = "\<lambda>j t. fb_wf t \<and> paints (\<lambda>x y. \<exists>k < j. P k x y) c s t"])
    fix j t
    assume j: "j < n" and t: "fb_wf t \<and> paints (\<lambda>x y. \<exists>k < j. P k x y) c s t"
    then obtain t' where t': "f j t = Some t'" "paints (P j) c t t'" using assms(2) by blast
    have "paints (\<lambda>x y. (\<exists>k < j. P k x y) \<or> P j x y) c s t'" using paints_trans t t'(2) by blast
    then have "paints (\<lambda>x y. \<exists>k < Suc j. P k x y) c s t'"
      by (rule paints_cong) (auto simp: less_Suc_eq)
    with t' t paints_wf [OF t'(2)] show "\<exists>t'. f j t = Some t' \<and> fb_wf t' \<and> paints (\<lambda>x y. \<exists>k < Suc j. P k x y) c s t'"
      by blast
  qed (use assms(1) paints_none in auto)
  then show ?thesis by blast
qed

lemma index_inj:
  assumes "x < w" and "x' < w"
  shows "y * w + x = y' * w + x' \<longleftrightarrow> x = x' \<and> y = (y' :: nat)"
proof
  assume e: "y * w + x = y' * w + x'"
  have "(y * w + x) mod w = x" "(y' * w + x') mod w = x'" "(y * w + x) div w = y" "(y' * w + x') div w = y'"
    using assms by simp_all
  then show "x = x' \<and> y = y'" using e by metis
qed simp

lemma put_pixel_paints:
  assumes "fb_wf s"
  shows "\<exists>s'. put_pixel x y c s = Some s' \<and> paints (\<lambda>i j. i = unat x \<and> j = unat y) c s s'"
proof (cases "x < fb_width s \<and> y < fb_height s")
  case False
  then have "paints (\<lambda>i j. i = unat x \<and> j = unat y) c s s"
    by (auto simp: paints_def word_less_nat_alt)
  with False show ?thesis by (auto simp: put_pixel_def)
next
  case True
  let ?w = "unat (fb_width s)" and ?h = "unat (fb_height s)"
  have lt: "unat x < ?w" "unat y < ?h" using True by (simp_all add: word_less_nat_alt)
  then have "unat y * ?w + unat x < Suc (unat y) * ?w" by simp
  also have "\<dots> \<le> ?h * ?w" using lt(2) by (intro mult_right_mono) auto
  finally have ix: "unat y * ?w + unat x < ?w * ?h" by (simp add: mult.commute)
  then have u: "unat (y * fb_width s + x) = unat y * ?w + unat x"
    using assms by (simp add: fb_wf_def unat_word_ariths)
  let ?s = "s\<lparr>fb_pixels := (fb_pixels s)[unat y * ?w + unat x := c]\<rparr>"
  have "put_pixel x y c s = Some ?s" using True assms ix by (simp add: put_pixel_def u fb_wf_def)
  moreover have "paints (\<lambda>i j. i = unat x \<and> j = unat y) c s ?s"
    using assms ix index_inj [OF lt(1)] by (auto simp: paints_def pixel_def fb_wf_def nth_list_update)
  ultimately show ?thesis by blast
qed

lemma fb_draw_rect_paints:
  assumes "fb_wf s"
  shows "\<exists>s'. fb_draw_rect x0 y0 w h c s = Some s' \<and>
    paints (\<lambda>i j. \<exists>b < unat h. \<exists>a < unat w. i = unat (x0 + of_nat a) \<and> j = unat (y0 + of_nat b)) c s s'"
proof -
  have "fb_virt s \<noteq> 0" using assms by (simp add: fb_wf_def)
  then show ?thesis unfolding fb_draw_rect_def
    using for_up_paints [OF assms, of "unat h" "\<lambda>y. for_up 0 (unat w) (\<lambda>x. put_pixel (x0 + of_nat x) (y0 + of_nat y) c)"]
      for_up_paints [of _ "unat w" "\<lambda>x. put_pixel (x0 + of_nat x) (y0 + of_nat y) c" for y] put_pixel_paints
    by simp
qed

lemma length_basic_font: "length basic_font = 128"
  by (simp add: basic_font_def)

lemma basic_font_rows: "\<forall>g \<in> set basic_font. length g = 8"
  by (simp add: basic_font_def)

lemma fb_draw_char_paints:
  assumes "fb_wf s" and "(of_char c :: nat) < 128"
  shows "\<exists>s'. fb_draw_char x0 y0 c col s = Some s' \<and>
    paints (\<lambda>i j. \<exists>b < 8. \<exists>a < 8. bit (basic_font ! of_char c ! b) a \<and> i = unat (x0 + of_nat a) \<and> j = unat (y0 + of_nat b)) col s s'"
proof -
  have g: "rd basic_font (of_char c) = Some (basic_font ! of_char c)" using assms(2) by (simp add: length_basic_font)
  have "basic_font ! of_char c \<in> set basic_font" using assms(2) by (simp add: length_basic_font)
  then have r: "b < 8 \<Longrightarrow> rd (basic_font ! of_char c) b = Some (basic_font ! of_char c ! b)" for b
    using basic_font_rows by simp
  let ?row = "\<lambda>b. basic_font ! of_char c ! b"
  let ?dot = "\<lambda>b x s. if bit (?row b) x then put_pixel (x0 + of_nat x) (y0 + of_nat b) col s else Some s"
  let ?line = "\<lambda>b s. for_up 0 8 (?dot b) s"
  have dot: "\<exists>t'. ?dot b x t = Some t' \<and>
      paints (\<lambda>i j. bit (?row b) x \<and> i = unat (x0 + of_nat x) \<and> j = unat (y0 + of_nat b)) col t t'" if "fb_wf t" for b x t
    using put_pixel_paints [OF that] paints_none by simp
  have line: "\<exists>t'. ?line b t = Some t' \<and>
      paints (\<lambda>i j. \<exists>a < 8. bit (?row b) a \<and> i = unat (x0 + of_nat a) \<and> j = unat (y0 + of_nat b)) col t t'" if "fb_wf t" for b t
    by (rule for_up_paints [OF that]) (use dot in blast)
  have "\<exists>s'. for_up 0 8 (\<lambda>y s. do { glyph \<leftarrow> rd basic_font (of_char c); bit_row \<leftarrow> rd glyph y;
      for_up 0 8 (\<lambda>x s. if bit_row AND push_bit x 1 \<noteq> 0 then put_pixel (x0 + of_nat x) (y0 + of_nat y) col s else Some s) s }) s = Some s' \<and>
    paints (\<lambda>i j. \<exists>b < 8. \<exists>a < 8. bit (?row b) a \<and> i = unat (x0 + of_nat a) \<and> j = unat (y0 + of_nat b)) col s s'"
  proof (rule for_up_paints [OF assms(1)])
    fix k :: nat and t :: fb
    assume "k < 8" "fb_wf t"
    with line [of t k] show "\<exists>t'. (do { glyph \<leftarrow> rd basic_font (of_char c); bit_row \<leftarrow> rd glyph k;
      for_up 0 8 (\<lambda>x s. if bit_row AND push_bit x 1 \<noteq> 0 then put_pixel (x0 + of_nat x) (y0 + of_nat k) col s else Some s) t }) = Some t' \<and>
      paints (\<lambda>i j. \<exists>a < 8. bit (?row k) a \<and> i = unat (x0 + of_nat a) \<and> j = unat (y0 + of_nat k)) col t t'"
      by (simp only: g r bind.bind_lunit bit_test_bit [unfolded bit_test_def])
  qed
  then show ?thesis using assms(1) by (simp add: fb_draw_char_def fb_wf_def)
qed

text \<open>A character above 127 passes the test of \<open>fb_draw_char\<close> and reads past the font.\<close>

lemma fb_draw_char_overrun: "fb_virt s \<noteq> 0 \<Longrightarrow> 128 \<le> (of_char c :: nat) \<Longrightarrow> fb_draw_char x y c col s = None"
  by (simp add: fb_draw_char_def for_up.simps [of 0 8] length_basic_font)

text \<open>Scrolling: moving the pixels down, and filling what is left.\<close>

lemma copy_down_run:
  fixes off :: u32
  assumes "m + k \<le> length (fb_pixels s)" and "unat off = k" and "length (fb_pixels s) < 2 ^ 32"
  shows "for_up 0 m (\<lambda>i t. do { c \<leftarrow> rd (fb_pixels t) (unat (of_nat i + off)); p \<leftarrow> wr (fb_pixels t) i c; Some (t\<lparr>fb_pixels := p\<rparr>) }) s =
    Some (s\<lparr>fb_pixels := take m (drop k (fb_pixels s)) @ drop m (fb_pixels s)\<rparr>)"
proof -
  let ?p = "fb_pixels s"
  have "\<exists>t. for_up 0 m (\<lambda>i t. do { c \<leftarrow> rd (fb_pixels t) (unat (of_nat i + off)); p \<leftarrow> wr (fb_pixels t) i c; Some (t\<lparr>fb_pixels := p\<rparr>) }) s = Some t \<and>
      t = s\<lparr>fb_pixels := take m (drop k ?p) @ drop m ?p\<rparr>"
  proof (rule for_up_rule [where I = "\<lambda>i t. t = s\<lparr>fb_pixels := take i (drop k ?p) @ drop i ?p\<rparr>"])
    fix j t
    assume j: "j < m" and t: "t = s\<lparr>fb_pixels := take j (drop k ?p) @ drop j ?p\<rparr>"
    have ix: "unat (of_nat j + off) = j + k"
      using j assms by (simp add: unat_word_ariths unat_of_nat take_bit_eq_mod)
    have l: "length (take j (drop k ?p)) = j" using j assms(1) by simp
    have r: "rd (fb_pixels t) (j + k) = Some (?p ! (j + k))" using j assms(1) l by (simp add: t nth_append)
    have w: "wr (fb_pixels t) j c = Some (take j (drop k ?p) @ c # drop (Suc j) ?p)" for c
      using j assms(1) l by (simp add: t wr_def list_update_append upd_conv_take_nth_drop)
    have tk: "take (Suc j) (drop k ?p) = take j (drop k ?p) @ [?p ! (j + k)]"
      using j assms(1) by (simp add: take_Suc_conv_app_nth add.commute)
    show "\<exists>t'. (do { c \<leftarrow> rd (fb_pixels t) (unat (of_nat j + off)); p \<leftarrow> wr (fb_pixels t) j c; Some (t\<lparr>fb_pixels := p\<rparr>) }) = Some t' \<and>
        t' = s\<lparr>fb_pixels := take (Suc j) (drop k ?p) @ drop (Suc j) ?p\<rparr>"
      unfolding ix r bind.bind_lunit w tk by (simp add: t)
  qed simp_all
  then show ?thesis by simp
qed

lemma fill_run:
  assumes "i \<le> n" and "n \<le> length (fb_pixels s)"
  shows "for_up i n (\<lambda>i t. do { p \<leftarrow> wr (fb_pixels t) i bg; Some (t\<lparr>fb_pixels := p\<rparr>) }) s =
    Some (s\<lparr>fb_pixels := take i (fb_pixels s) @ replicate (n - i) bg @ drop n (fb_pixels s)\<rparr>)"
  using assms
proof (induction "n - i" arbitrary: i s)
  case 0
  then show ?case by (subst for_up.simps) simp
next
  case (Suc k)
  let ?s = "s\<lparr>fb_pixels := (fb_pixels s)[i := bg]\<rparr>"
  have i: "i < n" "k = n - Suc i" "n - i = Suc (n - Suc i)" using Suc.hyps(2) by simp_all
  have "for_up (Suc i) n (\<lambda>i t. do { p \<leftarrow> wr (fb_pixels t) i bg; Some (t\<lparr>fb_pixels := p\<rparr>) }) ?s =
      Some (?s\<lparr>fb_pixels := take (Suc i) (fb_pixels ?s) @ replicate (n - Suc i) bg @ drop n (fb_pixels ?s)\<rparr>)"
    using i Suc.prems by (intro Suc.hyps(1)) simp_all
  then show ?case using i Suc.prems by (subst for_up.simps) (simp add: take_Suc_conv_app_nth)
qed

lemma fb_scroll_up_run:
  assumes "fb_wf s" and "unat n \<le> unat (fb_height s)"
  shows "fb_scroll_up n bg s = Some (s\<lparr>fb_pixels :=
    drop (unat (fb_width s) * unat n) (fb_pixels s) @ replicate (unat (fb_width s) * unat n) bg\<rparr>)"
proof (cases "fb_width s = 0 \<or> fb_height s = 0")
  case True
  then have "unat (fb_width s) * unat n = 0" "fb_pixels s = []" using assms by (auto simp: fb_wf_def)
  with True assms(1) show ?thesis by (simp add: fb_scroll_up_def)
next
  case False
  let ?w = "unat (fb_width s)" and ?h = "unat (fb_height s)" and ?n = "unat n" and ?p = "fb_pixels s"
  have lt: "?w * ?h < 2 ^ 32" and len: "length ?p = ?w * ?h" using assms(1) by (simp_all add: fb_wf_def)
  have wn: "?w * ?n \<le> ?w * ?h" using assms(2) by simp
  have u: "unat (fb_width s * fb_height s) = ?w * ?h" "unat (fb_width s * n) = ?w * ?n"
      "unat (fb_width s * (fb_height s - n)) = ?w * ?h - ?w * ?n"
  proof -
    have "?w * ?n < 2 ^ 32" using lt wn by (rule le_less_trans [rotated])
    with lt show "unat (fb_width s * fb_height s) = ?w * ?h" "unat (fb_width s * n) = ?w * ?n"
      using unat_mult_lem [of "fb_width s" "fb_height s"] unat_mult_lem [of "fb_width s" n] by simp_all
    have "unat (fb_height s - n) = ?h - ?n" using assms(2) by (simp add: unat_sub word_le_nat_alt)
    moreover have "?w * (?h - ?n) < 2 ^ 32" using lt unfolding diff_mult_distrib2 by linarith
    ultimately show "unat (fb_width s * (fb_height s - n)) = ?w * ?h - ?w * ?n"
      using unat_mult_lem [of "fb_width s" "fb_height s - n"] by (simp add: diff_mult_distrib2)
  qed
  let ?m = "?w * ?h - ?w * ?n"
  have "?m + ?w * ?n \<le> length ?p" using wn len by simp
  from copy_down_run [OF this u(2)] len lt
  have f: "for_up 0 ?m (\<lambda>i t. do { c \<leftarrow> rd (fb_pixels t) (unat (of_nat i + fb_width s * n)); p \<leftarrow> wr (fb_pixels t) i c; Some (t\<lparr>fb_pixels := p\<rparr>) }) s =
      Some (s\<lparr>fb_pixels := drop (?w * ?n) ?p @ drop ?m ?p\<rparr>)" by simp
  have "for_up ?m (?w * ?h) (\<lambda>i t. do { p \<leftarrow> wr (fb_pixels t) i bg; Some (t\<lparr>fb_pixels := p\<rparr>) })
      (s\<lparr>fb_pixels := drop (?w * ?n) ?p @ drop ?m ?p\<rparr>) =
      Some (s\<lparr>fb_pixels := drop (?w * ?n) ?p @ replicate (?w * ?h - ?m) bg\<rparr>)"
    using fill_run [of ?m "?w * ?h" "s\<lparr>fb_pixels := drop (?w * ?n) ?p @ drop ?m ?p\<rparr>" bg] len wn by simp
  moreover have "?w * ?h - ?m = ?w * ?n" using wn by simp
  ultimately show ?thesis using False assms(1) f by (simp add: fb_scroll_up_def u fb_wf_def)
qed

text \<open>
  a character drawn in the framebuffer is its glyph, clipped to the screen. For an ASCII
  character, wherever it is put (also across the right and lower edge, also where the coordinates
  wrap), exactly the pixels of the set bits of its eight rows get the colour, bit \<open>a\<close> of row \<open>b\<close> at
  column \<open>a\<close> and line \<open>b\<close>, every other pixel keeps its value, and no write leaves the framebuffer.
  A character above 127 reads past the font.
\<close>

theorem fb_draw_char_glyph:
  assumes "fb_wf s"
  shows "if (of_char c :: nat) < 128
    then \<exists>s'. fb_draw_char x0 y0 c col s = Some s' \<and> fb_wf s' \<and> fb_width s' = fb_width s \<and> fb_height s' = fb_height s \<and>
      (\<forall>x < unat (fb_width s). \<forall>y < unat (fb_height s).
        pixel s' x y = (if \<exists>a < 8. \<exists>b < 8. x = unat (x0 + of_nat a) \<and> y = unat (y0 + of_nat b) \<and> bit (basic_font ! of_char c ! b) a
          then col else pixel s x y))
    else fb_draw_char x0 y0 c col s = None"
proof (cases "(of_char c :: nat) < 128")
  case True
  obtain s' where s': "fb_draw_char x0 y0 c col s = Some s'"
      "paints (\<lambda>i j. \<exists>b < 8. \<exists>a < 8. bit (basic_font ! of_char c ! b) a \<and> i = unat (x0 + of_nat a) \<and> j = unat (y0 + of_nat b)) col s s'"
    using fb_draw_char_paints [OF assms True] by blast
  have "paints (\<lambda>i j. \<exists>a < 8. \<exists>b < 8. i = unat (x0 + of_nat a) \<and> j = unat (y0 + of_nat b) \<and> bit (basic_font ! of_char c ! b) a) col s s'"
    by (rule paints_cong [OF s'(2)]) blast
  then have "\<forall>x < unat (fb_width s). \<forall>y < unat (fb_height s).
      pixel s' x y = (if \<exists>a < 8. \<exists>b < 8. x = unat (x0 + of_nat a) \<and> y = unat (y0 + of_nat b) \<and> bit (basic_font ! of_char c ! b) a
        then col else pixel s x y)"
    unfolding paints_def by blast
  moreover have "fb_wf s'" "fb_width s' = fb_width s" "fb_height s' = fb_height s"
    using paints_wf [OF s'(2)] paints_dims [OF s'(2)] assms by simp_all
  ultimately show ?thesis unfolding if_P [OF True] using s'(1) by blast
next
  case False
  with fb_draw_char_overrun [of s c] assms show ?thesis by (simp add: fb_wf_def)
qed

definition demo_fb :: fb where
  "demo_fb = (fb_init 0xFD000000 16 16 32 \<lparr>fb_phys = 0, fb_virt = 0, fb_pixels = replicate 256 0, fb_width = 0,
     fb_height = 0, fb_pitch = 0, fb_bpp = 0, red_shift = 0, red_size = 0, green_shift = 0, green_size = 0,
     blue_shift = 0, blue_size = 0\<rparr>)"

lemma demo_fb_wf: "fb_wf demo_fb" "fb_width demo_fb = 16" "fb_height demo_fb = 16"
  by (simp_all add: fb_wf_def demo_fb_def fb_init_def)

text \<open>The exclamation mark at (14, 10): the leftmost columns are on the screen, the others are clipped.\<close>

theorem fb_draw_char_glyph_witness:
  "\<exists>s'. fb_draw_char 12 10 (CHR ''!'') 0xFFFFFF demo_fb = Some s' \<and> pixel s' 15 10 = 0xFFFFFF \<and>
     pixel s' 12 10 = pixel demo_fb 12 10 \<and> fb_draw_char 12 10 (CHR 0xF1) 0xFFFFFF demo_fb = None"
proof -
  have c: "(of_char (CHR ''!'') :: nat) < 128" "\<not> (of_char (CHR 0xF1) :: nat) < 128" by simp_all
  obtain s' where s': "fb_draw_char 12 10 (CHR ''!'') 0xFFFFFF demo_fb = Some s'"
      and px: "\<forall>x < 16. \<forall>y < 16. pixel s' x y =
        (if \<exists>a < 8. \<exists>b < 8. x = unat (12 + of_nat a :: u32) \<and> y = unat (10 + of_nat b :: u32) \<and> bit (basic_font ! of_char (CHR ''!'') ! b) a
          then 0xFFFFFF else pixel demo_fb x y)"
    using fb_draw_char_glyph [OF demo_fb_wf(1), of "CHR ''!''" 12 10 "0xFFFFFF"]
    unfolding if_P [OF c(1)] demo_fb_wf(2,3) by auto
  have row: "basic_font ! of_char (CHR ''!'') ! 0 = 0x18" by (simp add: basic_font_def nth_append numeral_eq_Suc)
  have "\<exists>a < 8. \<exists>b < 8. 15 = unat (12 + of_nat a :: u32) \<and> 10 = unat (10 + of_nat b :: u32) \<and> bit (basic_font ! of_char (CHR ''!'') ! b) a"
    using row by (intro exI [of _ 3] conjI exI [of _ 0]) (simp_all add: bit_iff_odd)
  then have "pixel s' 15 10 = 0xFFFFFF" using px by simp
  moreover have "pixel s' 12 10 = pixel demo_fb 12 10"
  proof -
    have "\<not> bit (basic_font ! of_char (CHR ''!'') ! 0) 0" unfolding row by (simp add: bit_iff_odd)
    moreover have "a = 0" if "a < 8" "12 = unat (12 + of_nat a :: u32)" for a :: nat
      using that by (simp add: unat_word_ariths unat_of_nat take_bit_eq_mod)
    moreover have "b = 0" if "b < 8" "10 = unat (10 + of_nat b :: u32)" for b :: nat
      using that by (simp add: unat_word_ariths unat_of_nat take_bit_eq_mod)
    ultimately have "\<not> (\<exists>a < 8. \<exists>b < 8. 12 = unat (12 + of_nat a :: u32) \<and> 10 = unat (10 + of_nat b :: u32) \<and> bit (basic_font ! of_char (CHR ''!'') ! b) a)"
      by blast
    note no = this
    have "pixel s' 12 10 = (if \<exists>a < 8. \<exists>b < 8. 12 = unat (12 + of_nat a :: u32) \<and> 10 = unat (10 + of_nat b :: u32) \<and> bit (basic_font ! of_char (CHR ''!'') ! b) a
          then 0xFFFFFF else pixel demo_fb 12 10)"
      using px by simp
    then show ?thesis unfolding if_not_P [OF no] .
  qed
  moreover have "fb_draw_char 12 10 (CHR 0xF1) 0xFFFFFF demo_fb = None"
    using fb_draw_char_glyph [OF demo_fb_wf(1), of "CHR 0xF1"] unfolding if_not_P [OF c(2)] .
  ultimately show ?thesis using s' by blast
qed

end
