(* ===== verification/Vt100.thy ===== *)
theory Vt100
  imports Framebuffer Printk
begin

text \<open>
  The console: the VT100 engine of \<open>drivers/video/vt/vt100.c\<close> with its state machine for escape
  sequences, in text mode (2000 cells of video memory) and on the framebuffer, and the functions of
  \<open>kernel/printk.c\<close> that use it directly. Writes to the cursor ports of the VGA are a list. Cursor
  coordinates are C \<open>int\<close>s; \<open>char\<close> is signed.
\<close>

definition MAX_ROWS :: int where "MAX_ROWS = 25"
definition MAX_COLS :: int where "MAX_COLS = 80"
definition TEXT_MAX_ROWS :: int where "TEXT_MAX_ROWS = 25"
definition TEXT_MAX_COLS :: int where "TEXT_MAX_COLS = 80"
definition GUI_MAX_ROWS :: int where "GUI_MAX_ROWS = 60"
definition GUI_MAX_COLS :: int where "GUI_MAX_COLS = 125"

definition GRAPHIC_BG_COLOR :: u32 where "GRAPHIC_BG_COLOR = 0"
definition FONT_SCALE_X :: u32 where "FONT_SCALE_X = 8"
definition FONT_SCALE_Y :: u32 where "FONT_SCALE_Y = 12"
definition GRAPHIC_MARGIN :: u32 where "GRAPHIC_MARGIN = 10"

definition ansi_to_rgb :: "u32 list" where
  "ansi_to_rgb = [0x000000, 0xFF5555, 0x55FF55, 0xFFFF55, 0x5555FF, 0xFF55FF, 0x55FFFF, 0xFFFFFF]"

definition ansi_to_vga :: "u8 list" where
  "ansi_to_vga = [0, 4, 2, 6, 1, 5, 3, 7]"

datatype ansi_state = STATE_NORMAL | STATE_ESC | STATE_CSI

record vt =
  vt_gui :: bool
  vt_x :: int
  vt_y :: int
  vt_color :: u8
  vt_state :: ansi_state
  vt_param :: "char list"
  vt_ptr :: nat
  vt_rgb :: u32
  vt_text :: "u16 list"
  vt_fb :: fb
  vt_ports :: "(u16 \<times> u8) list"

text \<open>A character cell: \<open>c | (color << 8)\<close> stored in 16 bits, with \<open>c\<close> sign-extended.\<close>

definition schar :: "char \<Rightarrow> int" where
  "schar c = (if (of_char c :: int) < 128 then of_char c else of_char c - 256)"

definition cell :: "char \<Rightarrow> u8 \<Rightarrow> u16" where
  "cell c color = word_of_int (schar c) OR push_bit 8 (ucast color)"

definition set_cell :: "int \<Rightarrow> u16 \<Rightarrow> u16 list \<Rightarrow> u16 list option" where
  "set_cell i w m = (if 0 \<le> i then wr m (nat i) w else None)"

definition set_cursor :: "int \<Rightarrow> int \<Rightarrow> vt \<Rightarrow> vt" where
  "set_cursor x y v =
     (if vt_gui v then v
      else (let pos = (word_of_int (y * MAX_COLS + x) :: u16)
            in v\<lparr>vt_ports := vt_ports v @ [(0x3D4, 0x0F), (0x3D5, ucast (pos AND 0xFF)),
                                            (0x3D4, 0x0E), (0x3D5, ucast (drop_bit 8 pos AND 0xFF))]\<rparr>))"

text \<open>The two loops of \<open>scroll\<close> in text mode.\<close>

definition scroll_text :: "u8 \<Rightarrow> u16 list \<Rightarrow> u16 list option" where
  "scroll_text color m =
     do { m1 \<leftarrow> for_up 0 (nat ((MAX_ROWS - 1) * MAX_COLS))
            (\<lambda>i m. do { w \<leftarrow> rd m (i + nat MAX_COLS); wr m i w }) m;
          for_up (nat ((MAX_ROWS - 1) * MAX_COLS)) (nat (MAX_ROWS * MAX_COLS))
            (\<lambda>i m. wr m i (cell (CHR '' '') color)) m1 }"

definition scroll :: "vt \<Rightarrow> vt option" where
  "scroll v =
     do { v1 \<leftarrow> (if vt_gui v
                 then do { f \<leftarrow> fb_scroll_up FONT_SCALE_Y GRAPHIC_BG_COLOR (vt_fb v); Some (v\<lparr>vt_fb := f\<rparr>) }
                 else do { m \<leftarrow> scroll_text (vt_color v) (vt_text v); Some (v\<lparr>vt_text := m\<rparr>) });
          Some (v1\<lparr>vt_y := MAX_ROWS - 1\<rparr>) }"

definition vt100_init :: "vt \<Rightarrow> vt option" where
  "vt100_init v =
     do { v1 \<leftarrow> (if vt_gui v
                 then do { f \<leftarrow> fb_draw_rect 0 0 1024 768 GRAPHIC_BG_COLOR (vt_fb v); Some (v\<lparr>vt_fb := f\<rparr>) }
                 else do { m \<leftarrow> for_up 0 (nat (MAX_ROWS * MAX_COLS)) (\<lambda>i m. wr m i (cell (CHR '' '') (vt_color v))) (vt_text v);
                           Some (v\<lparr>vt_text := m\<rparr>) });
          Some (set_cursor 0 0 (v1\<lparr>vt_x := 0, vt_y := 0\<rparr>)) }"

definition vt100_set_color :: "u8 \<Rightarrow> vt \<Rightarrow> vt" where
  "vt100_set_color new_color v = v\<lparr>vt_color := new_color\<rparr>"

subsection \<open>Escape sequences\<close>

text \<open>The parameters of a sequence: at most four numbers, separated by semicolons.\<close>

fun csi_parse :: "char list \<Rightarrow> int list \<Rightarrow> nat \<Rightarrow> (int list \<times> nat) option" where
  "csi_parse [] ps k = None"
| "csi_parse (c # s) ps k =
     (if c = NUL \<or> k \<ge> 4 then Some (ps, k)
      else if is_digit c
      then do { p \<leftarrow> rd ps k; v \<leftarrow> int32 (p * 10); w \<leftarrow> int32 (v + (of_char c - 48)); csi_parse s (ps[k := w]) k }
      else csi_parse s ps (if c = CHR '';'' then k + 1 else k))"

definition sgr :: "int \<Rightarrow> vt \<Rightarrow> vt" where
  "sgr p v =
     (if p = 0 then v\<lparr>vt_color := 0x0F, vt_rgb := 0xFFFFFF\<rparr>
      else if 30 \<le> p \<and> p \<le> 37
      then v\<lparr>vt_color := (vt_color v AND 8) OR ansi_to_vga ! nat (p - 30), vt_rgb := ansi_to_rgb ! nat (p - 30)\<rparr>
      else if 90 \<le> p \<and> p \<le> 97
      then v\<lparr>vt_color := 8 OR ansi_to_vga ! nat (p - 90), vt_rgb := ansi_to_rgb ! nat (p - 90)\<rparr>
      else v)"

text \<open>
  \<open>handle_ansi_csi\<close>: in the case \<open>m\<close> the loop runs to \<open>p_idx\<close> inclusive, and reads \<open>params[4]\<close> when
  there were four semicolons.
\<close>

definition handle_ansi_csi :: "char \<Rightarrow> vt \<Rightarrow> vt option" where
  "handle_ansi_csi command v =
     do { b \<leftarrow> wr (vt_param v) (vt_ptr v) NUL;
          (ps, k) \<leftarrow> csi_parse b [0, 0, 0, 0] 0;
          let v = v\<lparr>vt_param := b\<rparr>;
          let n = (if ps ! 0 \<noteq> 0 then ps ! 0 else 1);
          (if command = CHR ''m'' then for_up 0 (k + 1) (\<lambda>i v. do { p \<leftarrow> rd ps i; Some (sgr p v) }) v
           else if command = CHR ''A'' then Some (v\<lparr>vt_y := if vt_y v > n then vt_y v - n else 0\<rparr>)
           else if command = CHR ''B''
           then do { y \<leftarrow> int32 (vt_y v + n); Some (v\<lparr>vt_y := if y < MAX_ROWS then y else MAX_ROWS - 1\<rparr>) }
           else if command = CHR ''C''
           then do { x \<leftarrow> int32 (vt_x v + n); Some (v\<lparr>vt_x := if x < MAX_COLS then x else MAX_COLS - 1\<rparr>) }
           else if command = CHR ''D'' then Some (v\<lparr>vt_x := if vt_x v > n then vt_x v - n else 0\<rparr>)
           else if command = CHR ''H'' \<or> command = CHR ''f''
           then Some (if k \<ge> 1
                      then v\<lparr>vt_y := if ps ! 0 > 0 then ps ! 0 - 1 else 0, vt_x := if ps ! 1 > 0 then ps ! 1 - 1 else 0\<rparr>
                      else v\<lparr>vt_x := 0, vt_y := 0\<rparr>)
           else if command = CHR ''J'' \<and> ps ! 0 = 2 then vt100_init v
           else Some v) }"

subsection \<open>Characters\<close>

definition BS :: char where "BS = CHR 0x08"
definition TAB :: char where "TAB = CHR 0x09"

text \<open>The screen position of a character on the framebuffer.\<close>

definition gui_x :: "int \<Rightarrow> u32" where "gui_x x = GRAPHIC_MARGIN + word_of_int (x * 8)"
definition gui_y :: "int \<Rightarrow> u32" where "gui_y y = GRAPHIC_MARGIN + word_of_int (y * 12)"

definition normal_char :: "char \<Rightarrow> vt \<Rightarrow> vt option" where
  "normal_char c v =
     (if c = ESC then Some (v\<lparr>vt_state := STATE_ESC\<rparr>)
      else if c = LF then do { y \<leftarrow> int32 (vt_y v + 1); Some (v\<lparr>vt_x := 0, vt_y := y\<rparr>) }
      else if c = CR then Some (v\<lparr>vt_x := 0\<rparr>)
      else if c = TAB then do { x \<leftarrow> int32 (vt_x v + 8); Some (v\<lparr>vt_x := x AND NOT 7\<rparr>) }
      else if c = BS
      then (if vt_x v > 0
            then (if vt_gui v
                  then do { f \<leftarrow> fb_draw_rect (gui_x (vt_x v - 1)) (gui_y (vt_y v)) FONT_SCALE_X FONT_SCALE_Y GRAPHIC_BG_COLOR (vt_fb v);
                            Some (v\<lparr>vt_x := vt_x v - 1, vt_fb := f\<rparr>) }
                  else Some (v\<lparr>vt_x := vt_x v - 1\<rparr>))
            else Some v)
      else do { v1 \<leftarrow> (if vt_gui v
                      then do { f \<leftarrow> fb_draw_char (gui_x (vt_x v)) (gui_y (vt_y v)) c (vt_rgb v) (vt_fb v); Some (v\<lparr>vt_fb := f\<rparr>) }
                      else do { m \<leftarrow> set_cell (vt_y v * TEXT_MAX_COLS + vt_x v) (cell c (vt_color v)) (vt_text v);
                                Some (v\<lparr>vt_text := m\<rparr>) });
                x \<leftarrow> int32 (vt_x v1 + 1);
                Some (v1\<lparr>vt_x := x\<rparr>) })"

text \<open>The check behind the switch: the cursor returns to the screen.\<close>

definition overflow_control :: "vt \<Rightarrow> vt option" where
  "overflow_control v =
     (let max_cols = (if vt_gui v then GUI_MAX_COLS else TEXT_MAX_COLS);
          max_rows = (if vt_gui v then GUI_MAX_ROWS else TEXT_MAX_ROWS)
      in do { v1 \<leftarrow> (if vt_x v \<ge> max_cols then do { y \<leftarrow> int32 (vt_y v + 1); Some (v\<lparr>vt_x := 0, vt_y := y\<rparr>) } else Some v);
              (if vt_y v1 \<ge> max_rows then do { v2 \<leftarrow> scroll v1; Some (v2\<lparr>vt_y := max_rows - 1\<rparr>) } else Some v1) })"

definition vt100_putc :: "char \<Rightarrow> vt \<Rightarrow> vt option" where
  "vt100_putc c v =
     do { v1 \<leftarrow> (case vt_state v of
                    STATE_NORMAL \<Rightarrow> normal_char c v
                  | STATE_ESC \<Rightarrow> Some (if c = CHR ''['' then v\<lparr>vt_state := STATE_CSI, vt_ptr := 0\<rparr> else v\<lparr>vt_state := STATE_NORMAL\<rparr>)
                  | STATE_CSI \<Rightarrow>
                      if is_digit c \<or> c = CHR '';''
                      then (if vt_ptr v < 31
                            then do { b \<leftarrow> wr (vt_param v) (vt_ptr v) c; Some (v\<lparr>vt_param := b, vt_ptr := vt_ptr v + 1\<rparr>) }
                            else Some v)
                      else do { v' \<leftarrow> handle_ansi_csi c v; Some (v'\<lparr>vt_state := STATE_NORMAL\<rparr>) });
          v2 \<leftarrow> overflow_control v1;
          Some (if vt_state v2 = STATE_NORMAL then set_cursor (vt_x v2) (vt_y v2) v2 else v2) }"

fun vt100_puts :: "char list \<Rightarrow> vt \<Rightarrow> vt option" where
  "vt100_puts [] v = None"
| "vt100_puts (c # s) v = (if c = NUL then Some v else Option.bind (vt100_putc c v) (vt100_puts s))"

subsection \<open>Callers in the message code\<close>

text \<open>The characters that \<open>printk\<close> puts on the console, one by one.\<close>

primrec vt100_run :: "char list \<Rightarrow> vt \<Rightarrow> vt option" where
  "vt100_run [] v = Some v"
| "vt100_run (c # s) v = Option.bind (vt100_putc c v) (vt100_run s)"

text \<open>
  \<open>printk\<close> on a kernel log and a screen: what it adds to the console list goes to \<open>vt100_putc\<close>.
\<close>

definition on_screen :: "(klog \<Rightarrow> ('a \<times> klog) option) \<Rightarrow> klog \<times> vt \<Rightarrow> ('a \<times> klog \<times> vt) option" where
  "on_screen f sv =
     do { (r, s') \<leftarrow> f (fst sv);
          v' \<leftarrow> vt100_run (drop (length (console (fst sv))) (console s')) (snd sv);
          Some (r, s', v') }"

definition boot_msg :: "char list \<Rightarrow> char list \<Rightarrow> int \<Rightarrow> klog \<times> vt \<Rightarrow> (klog \<times> vt) option" where
  "boot_msg subsystem msg status sv =
     (let fmt = (if status = 0 then ''[  '' @ [ESC] @ ''[32mOK'' @ [ESC] @ ''[0m  ] %s: %s'' @ [LF, NUL]
                 else if status = 1 then ''[  '' @ [ESC] @ ''[33mWARN'' @ [ESC] @ ''[0m  ] %s: %s'' @ [LF, NUL]
                 else if status = 2 then ''[  '' @ [ESC] @ ''[31mFAIL'' @ [ESC] @ ''[0m  ] %s: %s'' @ [LF, NUL]
                 else ''[  INFO  ] %s: %s'' @ [LF, NUL])
      in do { (_, s', v') \<leftarrow> on_screen (printk fmt [AStr (Some subsystem), AStr (Some msg)]) sv;
              Some (s', vt100_set_color 0x0F v') })"

text \<open>\<open>clear_screen\<close>: the x86 branch of the text mode, where \<open>update_cursor\<close> programs the cursor.\<close>

definition clear_screen :: "vt \<Rightarrow> vt option" where
  "clear_screen v =
     do { v1 \<leftarrow> (if vt_gui v then vt100_init v
                 else do { m \<leftarrow> for_up 0 (nat (MAX_ROWS * MAX_COLS)) (\<lambda>i m. wr m i (cell (CHR '' '') 0x07)) (vt_text v);
                           Some (v\<lparr>vt_text := m\<rparr>) });
          let v2 = v1\<lparr>vt_x := 0, vt_y := 0\<rparr>;
          Some (set_cursor 0 0 v2) }"

end
