(* ===== verification/Vt100_Spec.thy ===== *)
theory Vt100_Spec
  imports Vt100
begin

text \<open>
  What the console promises: its cursor and its writes stay on the screen for every text whose
  escape sequences are short enough, and in text mode the video memory is a screen of 25 lines of
  80 cells that plain text fills from left to right, with wrapping and scrolling.
\<close>

subsection \<open>The invariant\<close>

definition vt_cols :: "vt \<Rightarrow> int" where
  "vt_cols v = (if vt_gui v then GUI_MAX_COLS else TEXT_MAX_COLS)"

definition vt_rows :: "vt \<Rightarrow> int" where
  "vt_rows v = (if vt_gui v then GUI_MAX_ROWS else TEXT_MAX_ROWS)"

text \<open>The memory of the console, and the cursor on the screen.\<close>

definition vt_mem :: "vt \<Rightarrow> bool" where
  "vt_mem v \<longleftrightarrow> length (vt_text v) = 2000 \<and> length (vt_param v) = 32 \<and> vt_ptr v \<le> 31 \<and>
     (vt_gui v \<longrightarrow> fb_wf (vt_fb v) \<and> 12 \<le> unat (fb_height (vt_fb v)))"

definition vt_cursor :: "vt \<Rightarrow> bool" where
  "vt_cursor v \<longleftrightarrow> 0 \<le> vt_x v \<and> vt_x v < vt_cols v \<and> 0 \<le> vt_y v \<and> vt_y v < vt_rows v"

text \<open>
  The parameters collected so far: at most \<open>k\<close> semicolons, numbers of at most nine digits, the
  current one of at most \<open>d\<close> digits unless the buffer is full.
\<close>

definition collected :: "vt \<Rightarrow> nat \<Rightarrow> nat \<Rightarrow> bool" where
  "collected v d k \<longleftrightarrow> (\<exists>ps j. j \<le> k \<and> length ps = 4 \<and> (\<forall>p \<in> set ps. 0 \<le> p \<and> p < 10 ^ 9) \<and>
     (vt_ptr v = 31 \<or> ps ! j < 10 ^ d \<and> (\<forall>i. j < i \<and> i < 4 \<longrightarrow> ps ! i = 0)) \<and>
     (\<forall>rest. csi_parse (take (vt_ptr v) (vt_param v) @ rest) [0, 0, 0, 0] 0 = csi_parse rest ps j))"

definition vt_ok :: "vt \<Rightarrow> bool" where
  "vt_ok v \<longleftrightarrow> vt_mem v \<and> vt_cursor v"

lemmas vt_limits = vt_cols_def vt_rows_def GUI_MAX_COLS_def GUI_MAX_ROWS_def TEXT_MAX_COLS_def TEXT_MAX_ROWS_def
  MAX_ROWS_def MAX_COLS_def

text \<open>
  Texts whose escape sequences the console can take: in each sequence at most three semicolons and
  numbers of at most nine digits; on the framebuffer only ASCII characters.
\<close>

fun polite :: "bool \<Rightarrow> ansi_state \<Rightarrow> nat \<Rightarrow> nat \<Rightarrow> char list \<Rightarrow> bool" where
  "polite gui st d k [] = True"
| "polite gui STATE_NORMAL d k (c # s) =
     ((gui \<longrightarrow> (of_char c :: nat) < 128) \<and> polite gui (if c = ESC then STATE_ESC else STATE_NORMAL) 0 0 s)"
| "polite gui STATE_ESC d k (c # s) = polite gui (if c = CHR ''['' then STATE_CSI else STATE_NORMAL) 0 0 s"
| "polite gui STATE_CSI d k (c # s) =
     (if is_digit c then d < 9 \<and> polite gui STATE_CSI (d + 1) k s
      else if c = CHR '';'' then k < 3 \<and> polite gui STATE_CSI 0 (k + 1) s
      else polite gui STATE_NORMAL 0 0 s)"

subsection \<open>Scrolling and clearing\<close>

lemma scroll_text_run:
  assumes "length m = 2000"
  shows "scroll_text color m = Some (drop 80 m @ replicate 80 (cell (CHR '' '') color))"
proof -
  have "for_up 0 1920 (\<lambda>i t. do { w \<leftarrow> rd t (i + 80); wr t i w }) m = Some (drop 80 m @ drop 1920 m)"
    using copy_list_run [of 1920 80 m] assms by simp
  moreover have "for_up 1920 2000 (\<lambda>i t. wr t i w) (drop 80 m @ drop 1920 m) = Some (drop 80 m @ replicate 80 w)" for w
    using fill_list_run [of 1920 2000 "drop 80 m @ drop 1920 m" w] assms by simp
  ultimately show ?thesis by (simp add: scroll_text_def MAX_ROWS_def MAX_COLS_def)
qed

lemma scroll_ok:
  assumes "vt_mem v"
  shows "\<exists>m f. scroll v = Some (v\<lparr>vt_text := m, vt_fb := f, vt_y := 24\<rparr>) \<and> vt_mem (v\<lparr>vt_text := m, vt_fb := f, vt_y := 24\<rparr>)"
proof (cases "vt_gui v")
  case True
  let ?f = "vt_fb v" and ?w = "unat (fb_width (vt_fb v))"
  have wf: "fb_wf ?f" "12 \<le> unat (fb_height ?f)" using True assms by (simp_all add: vt_mem_def)
  have "fb_scroll_up FONT_SCALE_Y GRAPHIC_BG_COLOR ?f =
      Some (?f\<lparr>fb_pixels := drop (?w * 12) (fb_pixels ?f) @ replicate (?w * 12) GRAPHIC_BG_COLOR\<rparr>)" (is "_ = Some ?f'")
    using fb_scroll_up_run [OF wf(1), of FONT_SCALE_Y GRAPHIC_BG_COLOR] wf(2) by (simp add: FONT_SCALE_Y_def)
  moreover have "fb_wf ?f'" using wf by (simp add: fb_wf_def)
  ultimately have "scroll v = Some (v\<lparr>vt_text := vt_text v, vt_fb := ?f', vt_y := 24\<rparr>)"
      "vt_mem (v\<lparr>vt_text := vt_text v, vt_fb := ?f', vt_y := 24\<rparr>)"
    using True assms by (simp_all add: scroll_def MAX_ROWS_def vt_mem_def)
  then show ?thesis by blast
next
  case False
  let ?m = "drop 80 (vt_text v) @ replicate 80 (cell (CHR '' '') (vt_color v))"
  have "scroll v = Some (v\<lparr>vt_text := ?m, vt_fb := vt_fb v, vt_y := 24\<rparr>)"
      "vt_mem (v\<lparr>vt_text := ?m, vt_fb := vt_fb v, vt_y := 24\<rparr>)"
    using False assms scroll_text_run [of "vt_text v"] by (simp_all add: scroll_def MAX_ROWS_def vt_mem_def)
  then show ?thesis by blast
qed

lemma set_cursor_eq: "\<exists>p. set_cursor x y v = v\<lparr>vt_ports := p\<rparr>"
proof (cases "vt_gui v")
  case True
  then have "set_cursor x y v = v\<lparr>vt_ports := vt_ports v\<rparr>" by (simp add: set_cursor_def)
  then show ?thesis ..
next
  case False
  then show ?thesis by (simp add: set_cursor_def Let_def) blast
qed

lemma ports_ok [simp]: "vt_ok (v\<lparr>vt_ports := p\<rparr>) = vt_ok v" "vt_mem (v\<lparr>vt_ports := p\<rparr>) = vt_mem v"
  "vt_cursor (v\<lparr>vt_ports := p\<rparr>) = vt_cursor v"
  by (simp_all add: vt_ok_def vt_mem_def vt_cursor_def vt_cols_def vt_rows_def)

lemma vt100_init_ok:
  assumes "vt_mem v"
  shows "\<exists>v'. vt100_init v = Some v' \<and> vt_ok v' \<and> vt_gui v' = vt_gui v \<and> vt_state v' = vt_state v"
proof (cases "vt_gui v")
  case True
  then have "fb_wf (vt_fb v)" using assms by (simp add: vt_mem_def)
  from fb_draw_rect_paints [OF this, of 0 0 1024 768 GRAPHIC_BG_COLOR]
  obtain f where f: "fb_draw_rect 0 0 1024 768 GRAPHIC_BG_COLOR (vt_fb v) = Some f"
      "fb_wf f = fb_wf (vt_fb v)" "fb_height f = fb_height (vt_fb v)"
    using paints_wf paints_dims by blast
  obtain p where "vt100_init v = Some (v\<lparr>vt_fb := f, vt_x := 0, vt_y := 0, vt_ports := p\<rparr>)"
    using set_cursor_eq [of 0 0 "v\<lparr>vt_fb := f, vt_x := 0, vt_y := 0\<rparr>"] True f(1) by (auto simp: vt100_init_def)
  then show ?thesis using True assms f(2,3) by (simp add: vt_ok_def vt_mem_def vt_cursor_def vt_limits)
next
  case False
  let ?m = "replicate 2000 (cell (CHR '' '') (vt_color v))"
  have "for_up 0 2000 (\<lambda>i m. wr m i (cell (CHR '' '') (vt_color v))) (vt_text v) = Some ?m"
    using fill_list_run [of 0 2000 "vt_text v"] assms by (simp add: vt_mem_def)
  then obtain p where "vt100_init v = Some (v\<lparr>vt_text := ?m, vt_x := 0, vt_y := 0, vt_ports := p\<rparr>)"
    using set_cursor_eq [of 0 0 "v\<lparr>vt_text := ?m, vt_x := 0, vt_y := 0\<rparr>"] False
    by (auto simp: vt100_init_def MAX_ROWS_def MAX_COLS_def)
  then show ?thesis using False assms by (simp add: vt_ok_def vt_mem_def vt_cursor_def vt_limits)
qed

subsection \<open>No sequence leaves the screen\<close>

lemma overflow_control_ok:
  assumes "vt_mem v" and "0 \<le> vt_x v" "vt_x v < 2 ^ 31 - 1" "0 \<le> vt_y v" "vt_y v < 2 ^ 31 - 1"
  shows "\<exists>v'. overflow_control v = Some v' \<and> vt_ok v' \<and> vt_gui v' = vt_gui v \<and> vt_state v' = vt_state v \<and>
    vt_ptr v' = vt_ptr v \<and> vt_param v' = vt_param v"
proof -
  define v1 where "v1 = (if vt_x v \<ge> vt_cols v then v\<lparr>vt_x := 0, vt_y := vt_y v + 1\<rparr> else v)"
  have v1: "vt_mem v1" "vt_gui v1 = vt_gui v" "vt_state v1 = vt_state v" "vt_ptr v1 = vt_ptr v" "vt_param v1 = vt_param v"
      "0 \<le> vt_x v1" "vt_x v1 < vt_cols v" "0 \<le> vt_y v1"
    using assms by (simp_all add: v1_def vt_mem_def vt_limits)
  have oc: "overflow_control v =
      (if vt_y v1 \<ge> vt_rows v then do { v2 \<leftarrow> scroll v1; Some (v2\<lparr>vt_y := vt_rows v - 1\<rparr>) } else Some v1)"
    using assms by (simp add: overflow_control_def v1_def vt_cols_def vt_rows_def)
  show ?thesis
  proof (cases "vt_y v1 \<ge> vt_rows v")
    case True
    obtain m f where "scroll v1 = Some (v1\<lparr>vt_text := m, vt_fb := f, vt_y := 24\<rparr>)"
        "vt_mem (v1\<lparr>vt_text := m, vt_fb := f, vt_y := 24\<rparr>)" using scroll_ok [OF v1(1)] by blast
    then show ?thesis using True v1 by (simp add: oc vt_ok_def vt_mem_def vt_cursor_def vt_limits)
  next
    case False
    then show ?thesis using v1 by (simp add: oc vt_ok_def vt_cursor_def vt_cols_def vt_rows_def)
  qed
qed

lemma sgr_mem: "vt_mem (sgr p v) = vt_mem v" "vt_cursor (sgr p v) = vt_cursor v" "vt_gui (sgr p v) = vt_gui v"
  "vt_state (sgr p v) = vt_state v" "vt_x (sgr p v) = vt_x v" "vt_y (sgr p v) = vt_y v"
  by (simp_all add: sgr_def vt_mem_def vt_cursor_def vt_cols_def vt_rows_def)

lemma sgr_run:
  assumes "n \<le> length ps" and "vt_mem v"
  shows "\<exists>v'. for_up 0 n (\<lambda>i v. do { p \<leftarrow> rd ps i; Some (sgr p v) }) v = Some v' \<and>
    (vt_mem v' \<and> vt_gui v' = vt_gui v \<and> vt_x v' = vt_x v \<and> vt_y v' = vt_y v \<and> vt_state v' = vt_state v)"
  by (rule for_up_rule [where I = "\<lambda>i t. vt_mem t \<and> vt_gui t = vt_gui v \<and> vt_x t = vt_x v \<and> vt_y t = vt_y v \<and> vt_state t = vt_state v"])
    (use assms in \<open>auto simp: sgr_mem\<close>)

text \<open>What the final character of a sequence does to the cursor.\<close>

lemma handle_ansi_csi_ok:
  assumes ok: "vt_ok v" and c: "collected v d k" "k \<le> 3"
  shows "\<exists>v'. handle_ansi_csi command v = Some v' \<and> vt_mem v' \<and> vt_gui v' = vt_gui v \<and> vt_state v' = vt_state v \<and>
    0 \<le> vt_x v' \<and> vt_x v' < 2 ^ 31 - 1 \<and> 0 \<le> vt_y v' \<and> vt_y v' < 2 ^ 31 - 1"
proof -
  have mem: "vt_mem v" and cur: "0 \<le> vt_x v" "vt_x v < 125" "0 \<le> vt_y v" "vt_y v < 60"
    using ok by (auto simp: vt_ok_def vt_cursor_def vt_limits split: if_splits)
  let ?b = "(vt_param v)[vt_ptr v := NUL]" and ?v = "v\<lparr>vt_param := (vt_param v)[vt_ptr v := NUL]\<rparr>"
  have b: "wr (vt_param v) (vt_ptr v) NUL = Some ?b" using mem by (simp add: vt_mem_def)
  have mem': "vt_mem ?v" using mem by (simp add: vt_mem_def)
  obtain ps j where ps: "j \<le> k" "length ps = 4" "\<forall>p \<in> set ps. 0 \<le> p \<and> p < 10 ^ 9"
      "\<And>rest. csi_parse (take (vt_ptr v) (vt_param v) @ rest) [0, 0, 0, 0] 0 = csi_parse rest ps j"
    using c unfolding collected_def by blast
  have "?b = take (vt_ptr v) (vt_param v) @ NUL # drop (Suc (vt_ptr v)) (vt_param v)"
    using mem by (simp add: vt_mem_def upd_conv_take_nth_drop)
  then have parse: "csi_parse ?b [0, 0, 0, 0] 0 = Some (ps, j)" using ps(4) by simp
  have num: "0 \<le> ps ! 0" "ps ! 0 < 10 ^ 9" "0 \<le> ps ! 1" "ps ! 1 < 10 ^ 9" using ps(2,3) by simp_all
  define n where "n = (if ps ! 0 \<noteq> 0 then ps ! 0 else 1)"
  have n: "0 \<le> n" "n < 10 ^ 9" using num by (simp_all add: n_def)
  have h: "handle_ansi_csi command v =
      (if command = CHR ''m'' then for_up 0 (j + 1) (\<lambda>i v. do { p \<leftarrow> rd ps i; Some (sgr p v) }) ?v
       else if command = CHR ''A'' then Some (?v\<lparr>vt_y := if vt_y v > n then vt_y v - n else 0\<rparr>)
       else if command = CHR ''B'' then Some (?v\<lparr>vt_y := if vt_y v + n < 25 then vt_y v + n else 24\<rparr>)
       else if command = CHR ''C'' then Some (?v\<lparr>vt_x := if vt_x v + n < 80 then vt_x v + n else 79\<rparr>)
       else if command = CHR ''D'' then Some (?v\<lparr>vt_x := if vt_x v > n then vt_x v - n else 0\<rparr>)
       else if command = CHR ''H'' \<or> command = CHR ''f''
       then Some (if j \<ge> 1 then ?v\<lparr>vt_y := if ps ! 0 > 0 then ps ! 0 - 1 else 0, vt_x := if ps ! 1 > 0 then ps ! 1 - 1 else 0\<rparr>
                  else ?v\<lparr>vt_x := 0, vt_y := 0\<rparr>)
       else if command = CHR ''J'' \<and> ps ! 0 = 2 then vt100_init ?v else Some ?v)"
    using cur n by (simp add: handle_ansi_csi_def b parse Let_def n_def [symmetric] MAX_ROWS_def MAX_COLS_def)
  have jl: "j + 1 \<le> length ps" using ps(1,2) c(2) by simp
  obtain w where w: "for_up 0 (j + 1) (\<lambda>i v. do { p \<leftarrow> rd ps i; Some (sgr p v) }) ?v = Some w"
      "vt_mem w" "vt_gui w = vt_gui v" "vt_x w = vt_x v" "vt_y w = vt_y v" "vt_state w = vt_state v"
    using sgr_run [OF jl mem'] by auto
  obtain u where u: "vt100_init ?v = Some u" "vt_ok u" "vt_gui u = vt_gui v" "vt_state u = vt_state v"
    using vt100_init_ok [OF mem'] by auto
  have lim: "0 \<le> vt_x u" "vt_x u < 125" "0 \<le> vt_y u" "vt_y u < 60"
    using u(2) by (auto simp: vt_ok_def vt_cursor_def vt_limits split: if_splits)
  have memu: "vt_mem u" using u(2) by (simp add: vt_ok_def)
  have upd: "vt_mem (?v\<lparr>vt_y := y, vt_x := x\<rparr>)" "vt_mem (?v\<lparr>vt_x := x\<rparr>)" "vt_mem (?v\<lparr>vt_y := y\<rparr>)"
      "vt_mem (?v\<lparr>vt_x := x, vt_y := y\<rparr>)" for x y
    using mem' by (simp_all add: vt_mem_def)
  show ?thesis unfolding h using w u lim memu upd mem' cur n num by simp
qed

lemma normal_char_ok:
  assumes ok: "vt_ok v" and c: "vt_gui v \<longrightarrow> (of_char c :: nat) < 128"
  shows "\<exists>v'. normal_char c v = Some v' \<and> vt_mem v' \<and> vt_gui v' = vt_gui v \<and>
    vt_state v' = (if c = ESC then STATE_ESC else vt_state v) \<and>
    0 \<le> vt_x v' \<and> vt_x v' < 2 ^ 31 - 1 \<and> 0 \<le> vt_y v' \<and> vt_y v' < 2 ^ 31 - 1"
proof -
  have mem: "vt_mem v" and cur: "0 \<le> vt_x v" "vt_x v < vt_cols v" "0 \<le> vt_y v" "vt_y v < vt_rows v"
    using ok by (simp_all add: vt_ok_def vt_cursor_def)
  have lim: "vt_x v < 125" "vt_y v < 60" using cur by (auto simp: vt_limits split: if_splits)
  have tab: "0 \<le> (vt_x v + 8) AND NOT 7" "(vt_x v + 8) AND NOT 7 \<le> vt_x v + 8"
    using cur(1) AND_upper1 [of "vt_x v + 8" "NOT 7"] by simp_all
  have memx: "vt_mem (v\<lparr>vt_x := x\<rparr>)" "vt_mem (v\<lparr>vt_x := x, vt_y := y\<rparr>)" "vt_mem (v\<lparr>vt_state := st\<rparr>)" for x y st
    using mem by (simp_all add: vt_mem_def)
  have gui: "vt_mem (v\<lparr>vt_x := x, vt_fb := f\<rparr>) \<and> vt_mem (v\<lparr>vt_fb := f, vt_x := x\<rparr>)"
    if "paints P col (vt_fb v) f" for P col x f
    using mem paints_wf [OF that] paints_dims [OF that] by (simp add: vt_mem_def)
  have wf: "fb_wf (vt_fb v)" if "vt_gui v" using mem that by (simp add: vt_mem_def)
  have rect: "\<exists>f. fb_draw_rect a b FONT_SCALE_X FONT_SCALE_Y GRAPHIC_BG_COLOR (vt_fb v) = Some f \<and>
      vt_mem (v\<lparr>vt_x := x, vt_fb := f\<rparr>)" if "vt_gui v" for a b x
    using fb_draw_rect_paints [OF wf [OF that], of a b FONT_SCALE_X FONT_SCALE_Y GRAPHIC_BG_COLOR] gui by blast
  have char: "\<exists>f. fb_draw_char a b c (vt_rgb v) (vt_fb v) = Some f \<and> vt_mem (v\<lparr>vt_fb := f, vt_x := x\<rparr>)" if "vt_gui v" for a b x
    using fb_draw_char_paints [OF wf [OF that], of c a b "vt_rgb v"] c that gui by blast
  consider (ctl) "c = ESC \<or> c = LF \<or> c = CR \<or> c = TAB" | (bs) "c = BS" | (print) "c \<notin> {ESC, LF, CR, TAB, BS}" by blast
  then show ?thesis
  proof cases
    case ctl
    then show ?thesis using memx cur lim tab by (auto simp: normal_char_def ESC_def LF_def CR_def TAB_def)
  next
    case bs
    obtain f where f: "vt_gui v \<longrightarrow> fb_draw_rect (gui_x (vt_x v - 1)) (gui_y (vt_y v)) FONT_SCALE_X FONT_SCALE_Y GRAPHIC_BG_COLOR (vt_fb v) = Some f \<and>
        vt_mem (v\<lparr>vt_x := vt_x v - 1, vt_fb := f\<rparr>)" using rect by blast
    then show ?thesis using bs memx mem cur lim by (auto simp: normal_char_def ESC_def LF_def CR_def TAB_def BS_def)
  next
    case print
    have n: "normal_char c v = do { v1 \<leftarrow> (if vt_gui v
          then do { f \<leftarrow> fb_draw_char (gui_x (vt_x v)) (gui_y (vt_y v)) c (vt_rgb v) (vt_fb v); Some (v\<lparr>vt_fb := f\<rparr>) }
          else do { m \<leftarrow> set_cell (vt_y v * TEXT_MAX_COLS + vt_x v) (cell c (vt_color v)) (vt_text v); Some (v\<lparr>vt_text := m\<rparr>) });
        x \<leftarrow> int32 (vt_x v1 + 1); Some (v1\<lparr>vt_x := x\<rparr>) }"
      using print by (simp add: normal_char_def)
    show ?thesis
    proof (cases "vt_gui v")
      case True
      obtain f where "fb_draw_char (gui_x (vt_x v)) (gui_y (vt_y v)) c (vt_rgb v) (vt_fb v) = Some f" "vt_mem (v\<lparr>vt_fb := f, vt_x := vt_x v + 1\<rparr>)"
        using char True by blast
      then show ?thesis unfolding n using True cur lim print by simp
    next
      case False
      have "nat (vt_y v * 80 + vt_x v) < length (vt_text v)" "0 \<le> vt_y v * 80 + vt_x v"
        using False cur mem by (simp_all add: vt_mem_def vt_limits)
      then show ?thesis unfolding n using False cur lim print mem
        by (simp add: set_cell_def TEXT_MAX_COLS_def vt_mem_def)
    qed
  qed
qed

lemma collected_same: "vt_ptr v' = vt_ptr v \<Longrightarrow> vt_param v' = vt_param v \<Longrightarrow> collected v' d k = collected v d k"
  by (simp add: collected_def)

lemma collected_start: "vt_ptr v = 0 \<Longrightarrow> collected v 0 0"
  unfolding collected_def by (intro exI [of _ "[0, 0, 0, 0]"] exI [of _ 0]) (auto simp: nth_Cons split: nat.splits)

lemma collected_full: "collected v d k \<Longrightarrow> vt_ptr v = 31 \<Longrightarrow> k \<le> k' \<Longrightarrow> collected v d' k'"
  unfolding collected_def by (meson order_trans)

lemma collected_char:
  assumes "collected v d k" and "k \<le> 3" and "vt_mem v" and "vt_ptr v < 31"
    and "is_digit c \<and> d < 9 \<and> d' = d + 1 \<and> k' = k \<or> c = CHR '';'' \<and> k < 3 \<and> d' = 0 \<and> k' = k + 1"
  shows "collected (v\<lparr>vt_param := (vt_param v)[vt_ptr v := c], vt_ptr := vt_ptr v + 1\<rparr>) d' k'"
proof -
  obtain ps j where ps: "j \<le> k" "length ps = 4" "\<forall>p \<in> set ps. 0 \<le> p \<and> p < 10 ^ 9" "ps ! j < 10 ^ d"
      "\<forall>i. j < i \<and> i < 4 \<longrightarrow> ps ! i = 0"
      "\<And>rest. csi_parse (take (vt_ptr v) (vt_param v) @ rest) [0, 0, 0, 0] 0 = csi_parse rest ps j"
    using assms(1,4) unfolding collected_def by auto
  have tk: "take (Suc (vt_ptr v)) ((vt_param v)[vt_ptr v := c]) = take (vt_ptr v) (vt_param v) @ [c]"
    using assms(3,4) by (simp add: vt_mem_def take_Suc_conv_app_nth)
  have j: "j < 4" using ps(1) assms(2) by simp
  have p: "0 \<le> ps ! j" "ps ! j < 10 ^ 9" using ps(2,3) j by simp_all
  show ?thesis
  proof (cases "is_digit c")
    case True
    with assms(5) have d: "d < 9" "d' = d + 1" "k' = k" by (auto simp: is_digit_def)
    let ?w = "ps ! j * 10 + (of_char c - 48)"
    have dig: "(0 :: int) \<le> of_char c - 48" "(of_char c :: int) - 48 \<le> 9" "c \<noteq> NUL"
      using is_digit_int [OF True] by auto
    have w: "0 \<le> ?w" "?w < 10 ^ Suc d" using p(1) ps(4) dig by simp_all
    have "(10 :: int) ^ Suc d \<le> 10 ^ 9" using d(1) by (intro power_increasing) simp_all
    then have w9: "?w < 10 ^ 9" using w(2) by linarith
    have "csi_parse (c # rest) ps j = csi_parse rest (ps[j := ?w]) j" for rest
      using True dig j p w9 w(1) ps(2) by simp
    then have "\<forall>rest. csi_parse (take (Suc (vt_ptr v)) ((vt_param v)[vt_ptr v := c]) @ rest) [0, 0, 0, 0] 0 = csi_parse rest (ps[j := ?w]) j"
      using ps(6) by (simp add: tk)
    moreover have "\<forall>q \<in> set (ps[j := ?w]). 0 \<le> q \<and> q < 10 ^ 9"
      using set_update_subset_insert [of ps j ?w] ps(3) w(1) w9 by blast
    moreover have "ps[j := ?w] ! j < 10 ^ d'" using w(2) j ps(2) d(2) by simp
    moreover have "\<forall>i. j < i \<and> i < 4 \<longrightarrow> ps[j := ?w] ! i = 0" using ps(5) by simp
    ultimately show ?thesis unfolding collected_def using ps(1,2) d
      by (intro exI [of _ "ps[j := ?w]"] exI [of _ j]) simp
  next
    case False
    with assms(5) have c: "c = CHR '';''" "k < 3" "d' = 0" "k' = k + 1" by auto
    have "csi_parse (c # rest) ps j = csi_parse rest ps (j + 1)" for rest using False c j by simp
    then have "\<forall>rest. csi_parse (take (Suc (vt_ptr v)) ((vt_param v)[vt_ptr v := c]) @ rest) [0, 0, 0, 0] 0 = csi_parse rest ps (j + 1)"
      using ps(6) by (simp add: tk)
    moreover have "ps ! (j + 1) = 0" using ps(1,5) c(2) by simp
    ultimately show ?thesis unfolding collected_def using ps c
      by (intro exI [of _ ps] exI [of _ "j + 1"]) simp
  qed
qed

definition tracked :: "vt \<Rightarrow> nat \<Rightarrow> nat \<Rightarrow> bool" where
  "tracked v d k \<longleftrightarrow> (vt_state v = STATE_CSI \<longrightarrow> collected v d k \<and> k \<le> 3)"

lemma tracked_other: "vt_state v \<noteq> STATE_CSI \<Longrightarrow> tracked v d k"
  by (simp add: tracked_def)

lemma set_cursor_state: "vt_ok v \<Longrightarrow> tracked v d k \<Longrightarrow>
  \<exists>v'. (if vt_state v = STATE_NORMAL then set_cursor (vt_x v) (vt_y v) v else v) = v' \<and> vt_ok v' \<and> tracked v' d k \<and>
    vt_gui v' = vt_gui v \<and> vt_state v' = vt_state v"
  using set_cursor_eq [of "vt_x v" "vt_y v" v] by (auto simp: tracked_def collected_def)

text \<open>The part of \<open>vt100_putc\<close> behind the switch.\<close>

lemma putc_tail:
  assumes "vt_mem v1" "0 \<le> vt_x v1" "vt_x v1 < 2 ^ 31 - 1" "0 \<le> vt_y v1" "vt_y v1 < 2 ^ 31 - 1" and "tracked v1 d k"
  shows "\<exists>v'. (do { v2 \<leftarrow> overflow_control v1; Some (if vt_state v2 = STATE_NORMAL then set_cursor (vt_x v2) (vt_y v2) v2 else v2) }) = Some v' \<and>
    vt_ok v' \<and> tracked v' d k \<and> vt_gui v' = vt_gui v1 \<and> vt_state v' = vt_state v1"
proof -
  obtain v2 where v2: "overflow_control v1 = Some v2" "vt_ok v2" "vt_gui v2 = vt_gui v1" "vt_state v2 = vt_state v1"
      "vt_ptr v2 = vt_ptr v1" "vt_param v2 = vt_param v1" using overflow_control_ok [OF assms(1-5)] by blast
  have "tracked v2 d k" using v2 assms(6) collected_same [of v2 v1] by (simp add: tracked_def)
  from set_cursor_state [OF v2(2) this] v2 show ?thesis by simp
qed

lemma vt100_putc_ok:
  assumes ok: "vt_ok v" and t: "tracked v d k" and p: "polite (vt_gui v) (vt_state v) d k (c # s)"
  shows "\<exists>v' d' k'. vt100_putc c v = Some v' \<and> vt_ok v' \<and> vt_gui v' = vt_gui v \<and> tracked v' d' k' \<and>
    polite (vt_gui v') (vt_state v') d' k' s"
proof -
  have mem: "vt_mem v" using ok by (simp add: vt_ok_def)
  have lim: "0 \<le> vt_x v" "vt_x v < 2 ^ 31 - 1" "0 \<le> vt_y v" "vt_y v < 2 ^ 31 - 1"
    using ok by (auto simp: vt_ok_def vt_cursor_def vt_limits split: if_splits)
  show ?thesis
  proof (cases "vt_state v")
    case STATE_NORMAL
    then have c: "vt_gui v \<longrightarrow> (of_char c :: nat) < 128" and s: "polite (vt_gui v) (if c = ESC then STATE_ESC else STATE_NORMAL) 0 0 s"
      using p by simp_all
    obtain v1 where v1: "normal_char c v = Some v1" "vt_mem v1" "vt_gui v1 = vt_gui v"
        "vt_state v1 = (if c = ESC then STATE_ESC else STATE_NORMAL)"
        "0 \<le> vt_x v1" "vt_x v1 < 2 ^ 31 - 1" "0 \<le> vt_y v1" "vt_y v1 < 2 ^ 31 - 1"
      using normal_char_ok [OF ok c] STATE_NORMAL by auto
    have "tracked v1 0 0" using v1(4) by (simp add: tracked_other)
    from putc_tail [OF v1(2,5-8) this]
    obtain v' where v': "vt100_putc c v = Some v'" "vt_ok v'" "tracked v' 0 0" "vt_gui v' = vt_gui v" "vt_state v' = vt_state v1"
      using v1(1,3) STATE_NORMAL by (auto simp: vt100_putc_def)
    from s have "polite (vt_gui v') (vt_state v') 0 0 s" unfolding v'(4,5) v1(4) .
    with v' show ?thesis by blast
  next
    case STATE_ESC
    define v1 where "v1 = (if c = CHR ''['' then v\<lparr>vt_state := STATE_CSI, vt_ptr := 0\<rparr> else v\<lparr>vt_state := STATE_NORMAL\<rparr>)"
    have v1: "vt_mem v1" "vt_x v1 = vt_x v" "vt_y v1 = vt_y v" "vt_gui v1 = vt_gui v"
        "vt_state v1 = (if c = CHR ''['' then STATE_CSI else STATE_NORMAL)"
      using mem by (simp_all add: v1_def vt_mem_def)
    have "tracked v1 0 0" by (simp add: tracked_def v1_def collected_start)
    with v1 lim have "\<exists>v'. vt100_putc c v = Some v' \<and> vt_ok v' \<and> tracked v' 0 0 \<and> vt_gui v' = vt_gui v1 \<and> vt_state v' = vt_state v1"
      using putc_tail [of v1 0 0] STATE_ESC by (simp add: vt100_putc_def v1_def [symmetric])
    then obtain v' where v': "vt100_putc c v = Some v'" "vt_ok v'" "tracked v' 0 0" "vt_gui v' = vt_gui v1" "vt_state v' = vt_state v1"
      by blast
    have "polite (vt_gui v') (vt_state v') 0 0 s" using p STATE_ESC unfolding v'(4,5) v1(4,5) by simp
    with v' v1(4) show ?thesis by auto
  next
    case STATE_CSI
    with t have coll: "collected v d k" "k \<le> 3" by (simp_all add: tracked_def)
    show ?thesis
    proof (cases "is_digit c \<or> c = CHR '';''")
      case True
      define d' where "d' = (if is_digit c then d + 1 else 0)"
      define k' where "k' = (if is_digit c then k else k + 1)"
      have s: "polite (vt_gui v) STATE_CSI d' k' s" "k' \<le> 3"
        and st: "is_digit c \<and> d < 9 \<and> d' = d + 1 \<and> k' = k \<or> c = CHR '';'' \<and> k < 3 \<and> d' = 0 \<and> k' = k + 1"
        using p True STATE_CSI coll(2) by (auto simp: d'_def k'_def split: if_splits)
      define v1 where "v1 = (if vt_ptr v < 31 then v\<lparr>vt_param := (vt_param v)[vt_ptr v := c], vt_ptr := vt_ptr v + 1\<rparr> else v)"
      have "collected v1 d' k'"
      proof (cases "vt_ptr v < 31")
        case True
        then show ?thesis using collected_char [OF coll mem True st] by (simp add: v1_def)
      next
        case False
        then have "vt_ptr v = 31" using mem by (simp add: vt_mem_def)
        moreover have "k \<le> k'" by (simp add: k'_def)
        ultimately show ?thesis using collected_full [OF coll(1)] by (simp add: v1_def)
      qed
      then have "tracked v1 d' k'" using s(2) by (simp add: tracked_def)
      moreover have v1: "vt_mem v1" "vt_x v1 = vt_x v" "vt_y v1 = vt_y v" "vt_gui v1 = vt_gui v" "vt_state v1 = STATE_CSI"
        using mem STATE_CSI by (simp_all add: v1_def vt_mem_def)
      moreover have "(if vt_ptr v < 31 then do { b \<leftarrow> wr (vt_param v) (vt_ptr v) c; Some (v\<lparr>vt_param := b, vt_ptr := vt_ptr v + 1\<rparr>) } else Some v) = Some v1"
        using mem by (simp add: v1_def vt_mem_def)
      ultimately have "\<exists>v'. vt100_putc c v = Some v' \<and> vt_ok v' \<and> tracked v' d' k' \<and> vt_gui v' = vt_gui v1 \<and> vt_state v' = vt_state v1"
        using putc_tail [of v1 d' k'] lim STATE_CSI True by (simp add: vt100_putc_def)
      then obtain v' where v': "vt100_putc c v = Some v'" "vt_ok v'" "tracked v' d' k'" "vt_gui v' = vt_gui v1" "vt_state v' = vt_state v1"
        by blast
      have "polite (vt_gui v') (vt_state v') d' k' s" using s(1) unfolding v'(4,5) v1(4,5) .
      with v' v1(4) show ?thesis by auto
    next
      case False
      then have s: "polite (vt_gui v) STATE_NORMAL 0 0 s" using p STATE_CSI by simp
      obtain v1 where v1: "handle_ansi_csi c v = Some v1" "vt_mem v1" "vt_gui v1 = vt_gui v"
          "0 \<le> vt_x v1" "vt_x v1 < 2 ^ 31 - 1" "0 \<le> vt_y v1" "vt_y v1 < 2 ^ 31 - 1"
        using handle_ansi_csi_ok [OF ok coll] by blast
      let ?v1 = "v1\<lparr>vt_state := STATE_NORMAL\<rparr>"
      have "vt_mem ?v1" using v1(2) by (simp add: vt_mem_def)
      from putc_tail [OF this, of 0 0] v1 False STATE_CSI
      obtain v' where v': "vt100_putc c v = Some v'" "vt_ok v'" "tracked v' 0 0" "vt_gui v' = vt_gui v" "vt_state v' = STATE_NORMAL"
        by (auto simp: vt100_putc_def tracked_other)
      have "polite (vt_gui v') (vt_state v') 0 0 s" using s unfolding v'(4,5) .
      with v' show ?thesis by blast
    qed
  qed
qed

lemma vt100_run_ok:
  assumes "vt_ok v" and "tracked v d k" and "polite (vt_gui v) (vt_state v) d k s"
  shows "\<exists>v'. vt100_run s v = Some v' \<and> vt_ok v' \<and> vt_gui v' = vt_gui v"
  using assms
proof (induction s arbitrary: v d k)
  case (Cons c s)
  obtain v1 d' k' where v1: "vt100_putc c v = Some v1" "vt_ok v1" "vt_gui v1 = vt_gui v" "tracked v1 d' k'"
      "polite (vt_gui v1) (vt_state v1) d' k' s"
    using vt100_putc_ok [OF Cons.prems] by blast
  from Cons.IH [OF v1(2,4,5)] v1 show ?case by simp
qed simp

lemma list_of_five: "5 \<le> length xs \<Longrightarrow> \<exists>a b c d e r. xs = a # b # c # d # e # r"
  by (auto simp: numeral_eq_Suc Suc_le_length_iff)

lemma overflow_control_on_screen: "vt_cursor v \<Longrightarrow> overflow_control v = Some v"
  by (auto simp: overflow_control_def vt_cursor_def vt_cols_def vt_rows_def Let_def)

lemma vt100_param_overrun:
  assumes "vt_ok v" and "vt_state v = STATE_NORMAL"
  shows "vt100_run (ESC # ''[;;;;m'') v = None"
proof -
  let ?w = "\<lambda>b. v\<lparr>vt_state := STATE_CSI, vt_param := b, vt_ptr := Suc (Suc (Suc (Suc 0)))\<rparr>"
  obtain a b c d e r where pb: "vt_param v = a # b # c # d # e # r"
    using list_of_five [of "vt_param v"] assms(1) by (auto simp: vt_ok_def vt_mem_def)
  have cur: "vt_cursor v" using assms(1) by (simp add: vt_ok_def)
  have on: "overflow_control w = Some w" if "vt_x w = vt_x v" "vt_y w = vt_y v" "vt_gui w = vt_gui v" for w
    using that cur by (intro overflow_control_on_screen) (simp add: vt_cursor_def vt_cols_def vt_rows_def)
  let ?b = "CHR '';'' # CHR '';'' # CHR '';'' # CHR '';'' # e # r"
  have "for_up 0 (Suc (Suc (Suc (Suc (Suc 0))))) (\<lambda>i v. do { p \<leftarrow> rd [0, 0, 0, 0] i; Some (sgr p v) }) t = None" for t
    by (rule for_up_stuck [where k = 4]) simp_all
  then have h: "handle_ansi_csi (CHR ''m'') (?w ?b) = None" by (simp add: handle_ansi_csi_def is_digit_def)
  have "vt100_run ''m'' (?w ?b) = None" using h by (simp add: vt100_putc_def is_digit_def)
  moreover have "vt100_run (ESC # ''[;;;;m'') v = vt100_run ''m'' (?w ?b)"
    using assms(2) pb by (simp add: vt100_putc_def normal_char_def is_digit_def on)
  ultimately show ?thesis by simp
qed

subsection \<open>The screen of the text mode\<close>

record screen =
  sc_lines :: "u16 list list"
  sc_col :: nat
  sc_line :: nat

definition lines_of :: "u16 list \<Rightarrow> u16 list list" where
  "lines_of m = map (\<lambda>r. take 80 (drop (80 * r) m)) [0..<25]"

definition screen_of :: "vt \<Rightarrow> screen" where
  "screen_of v = \<lparr>sc_lines = lines_of (vt_text v), sc_col = nat (vt_x v), sc_line = nat (vt_y v)\<rparr>"

definition next_line :: "u16 \<Rightarrow> screen \<Rightarrow> screen" where
  "next_line blank s =
     (if sc_line s < 24 then s\<lparr>sc_col := 0, sc_line := sc_line s + 1\<rparr>
      else s\<lparr>sc_lines := tl (sc_lines s) @ [replicate 80 blank], sc_col := 0, sc_line := 24\<rparr>)"

definition to_column :: "u16 \<Rightarrow> nat \<Rightarrow> screen \<Rightarrow> screen" where
  "to_column blank x s = (if x < 80 then s\<lparr>sc_col := x\<rparr> else next_line blank s)"

definition type_char :: "u8 \<Rightarrow> char \<Rightarrow> screen \<Rightarrow> screen" where
  "type_char color c s =
     (let blank = cell (CHR '' '') color
      in if c = LF then next_line blank s
         else if c = CR then s\<lparr>sc_col := 0\<rparr>
         else if c = TAB then to_column blank (8 * (sc_col s div 8) + 8) s
         else if c = BS then s\<lparr>sc_col := sc_col s - 1\<rparr>
         else to_column blank (sc_col s + 1)
           (s\<lparr>sc_lines := (sc_lines s)[sc_line s := (sc_lines s ! sc_line s)[sc_col s := cell c color]]\<rparr>))"

lemma length_lines_of [simp]: "length (lines_of m) = 25"
  by (simp add: lines_of_def)

lemma lines_of_nth: "r < 25 \<Longrightarrow> lines_of m ! r = take 80 (drop (80 * r) m)"
  by (simp add: lines_of_def)

lemma lines_of_cell:
  assumes "length m = 2000" and "x < 80" and "y < 25"
  shows "lines_of (m[y * 80 + x := w]) = (lines_of m)[y := (lines_of m ! y)[x := w]]"
proof (rule nth_equalityI, simp)
  fix r
  assume "r < length (lines_of (m[y * 80 + x := w]))"
  then have r: "r < 25" by simp
  show "lines_of (m[y * 80 + x := w]) ! r = (lines_of m)[y := (lines_of m ! y)[x := w]] ! r"
  proof (rule nth_equalityI)
    show "length (lines_of (m[y * 80 + x := w]) ! r) = length ((lines_of m)[y := (lines_of m ! y)[x := w]] ! r)"
      using r by (cases "r = y") (simp_all add: lines_of_nth)
  next
    fix i
    assume "i < length (lines_of (m[y * 80 + x := w]) ! r)"
    then have i: "i < 80" "80 * r + i < 2000" using r assms(1) by (simp_all add: lines_of_nth)
    have "y * 80 + x = 80 * r + i \<longleftrightarrow> y = r \<and> x = i" using index_inj [OF assms(2) i(1), of y r] by (auto simp: mult.commute)
    then show "lines_of (m[y * 80 + x := w]) ! r ! i = (lines_of m)[y := (lines_of m ! y)[x := w]] ! r ! i"
      using r i assms by (auto simp: lines_of_nth nth_list_update)
  qed
qed

lemma lines_of_scroll:
  assumes "length m = 2000"
  shows "lines_of (drop 80 m @ replicate 80 b) = tl (lines_of m) @ [replicate 80 b]"
proof (rule nth_equalityI, simp)
  fix r
  assume "r < length (lines_of (drop 80 m @ replicate 80 b))"
  then have r: "r < 25" by simp
  show "lines_of (drop 80 m @ replicate 80 b) ! r = (tl (lines_of m) @ [replicate 80 b]) ! r"
  proof (cases "r < 24")
    case True
    then have "80 * r + 80 \<le> length (drop 80 m)" using assms by simp
    then have "take 80 (drop (80 * r) (drop 80 m @ replicate 80 b)) = take 80 (drop (80 * Suc r) m)" by (simp add: add.commute)
    then show ?thesis using True r by (simp add: lines_of_nth nth_append nth_tl)
  next
    case False
    with r have "r = 24" by simp
    then show ?thesis using assms by (simp add: lines_of_nth nth_append)
  qed
qed

text \<open>The overflow control in text mode is \<open>to_column\<close> and \<open>next_line\<close>.\<close>

definition text_mode :: "vt \<Rightarrow> bool" where
  "text_mode v \<longleftrightarrow> \<not> vt_gui v \<and> vt_state v = STATE_NORMAL"

lemma overflow_screen:
  assumes "vt_mem v" and "\<not> vt_gui v" and "0 \<le> vt_x v" "vt_x v < 2 ^ 31 - 1" "0 \<le> vt_y v" "vt_y v \<le> 24"
  shows "\<exists>v'. overflow_control v = Some v' \<and> vt_color v' = vt_color v \<and>
    screen_of v' = to_column (cell (CHR '' '') (vt_color v)) (nat (vt_x v)) (screen_of v)"
proof -
  have len: "length (vt_text v) = 2000" using assms(1) by (simp add: vt_mem_def)
  consider (stay) "vt_x v < 80" | (wrap) "vt_x v \<ge> 80" "vt_y v < 24" | (scroll) "vt_x v \<ge> 80" "vt_y v = 24"
    using assms(6) by linarith
  then show ?thesis
  proof cases
    case scroll
    then have "\<not> nat (vt_x v) < 80" by linarith
    with scroll show ?thesis using assms scroll_text_run [OF len] lines_of_scroll [OF len]
      by (simp add: overflow_control_def vt_limits scroll_def screen_of_def to_column_def next_line_def)
  next
    case wrap
    then have "\<not> nat (vt_x v) < 80" "nat (vt_y v) < 24" using assms by linarith+
    with wrap show ?thesis using assms
      by (simp add: overflow_control_def vt_limits screen_of_def to_column_def next_line_def nat_add_distrib)
  next
    case stay
    then show ?thesis using assms by (simp add: overflow_control_def vt_limits screen_of_def to_column_def)
  qed
qed

lemma newline_screen:
  assumes "vt_mem v" and "\<not> vt_gui v" and "vt_x v = 0" and "1 \<le> vt_y v" "vt_y v \<le> 25"
  shows "\<exists>v'. overflow_control v = Some v' \<and> vt_color v' = vt_color v \<and>
    screen_of v' = next_line (cell (CHR '' '') (vt_color v)) ((screen_of v)\<lparr>sc_line := nat (vt_y v - 1)\<rparr>)"
proof -
  have len: "length (vt_text v) = 2000" using assms(1) by (simp add: vt_mem_def)
  consider "vt_y v \<le> 24" | "vt_y v = 25" using assms(5) by linarith
  then show ?thesis
    by cases (use assms scroll_text_run [OF len] lines_of_scroll [OF len] in
      \<open>simp_all add: overflow_control_def vt_limits scroll_def screen_of_def next_line_def nat_diff_distrib\<close>)
qed

lemma tab_stop: "(x + 8) AND NOT 7 = 8 * (x div 8) + (8 :: int)"
proof -
  have m: "(7 :: int) = mask 3" by (simp add: mask_eq_exp_minus_1)
  have "a AND NOT 7 = push_bit 3 (drop_bit 3 a)" for a :: int
    unfolding m by (rule bit_eqI) (auto simp: bit_simps)
  moreover have "(x + 8) div 8 = x div 8 + 1" by (rule div_add_self2) simp
  ultimately show ?thesis by (simp add: push_bit_eq_mult drop_bit_eq_div)
qed

lemma screen_of_ports [simp]: "screen_of (v\<lparr>vt_ports := p\<rparr>) = screen_of v"
  by (simp add: screen_of_def)

lemma vt100_putc_screen:
  assumes ok: "vt_ok v" and tm: "text_mode v" and c: "c \<noteq> ESC"
  shows "\<exists>v'. vt100_putc c v = Some v' \<and> vt_ok v' \<and> text_mode v' \<and> vt_color v' = vt_color v \<and>
    screen_of v' = type_char (vt_color v) c (screen_of v)"
proof -
  have st: "vt_state v = STATE_NORMAL" "\<not> vt_gui v" using tm by (simp_all add: text_mode_def)
  have pol: "polite (vt_gui v) (vt_state v) 0 0 [c]" using st by simp
  obtain v' where v': "vt100_putc c v = Some v'" "vt_ok v'" "vt_gui v' = vt_gui v"
    using vt100_putc_ok [OF ok _ pol] st by (auto simp: tracked_def)
  have mem: "vt_mem v" and cur: "0 \<le> vt_x v" "vt_x v < 80" "0 \<le> vt_y v" "vt_y v < 25"
    using ok st by (auto simp: vt_ok_def vt_cursor_def vt_limits)
  have len: "length (vt_text v) = 2000" using mem by (simp add: vt_mem_def)
  let ?bg = "cell (CHR '' '') (vt_color v)"
  have step: "\<exists>v1 v2. normal_char c v = Some v1 \<and> overflow_control v1 = Some v2 \<and> vt_color v2 = vt_color v \<and>
      vt_state v1 = STATE_NORMAL \<and> vt_mem v1 \<and> 0 \<le> vt_x v1 \<and> vt_x v1 < 2 ^ 31 - 1 \<and> 0 \<le> vt_y v1 \<and> vt_y v1 < 2 ^ 31 - 1 \<and>
      screen_of v2 = type_char (vt_color v) c (screen_of v)"
  proof -
    consider (lf) "c = LF" | (cr) "c = CR" | (tab) "c = TAB" | (bs) "c = BS" | (print) "c \<notin> {ESC, LF, CR, TAB, BS}"
      using c by blast
    then show ?thesis
    proof cases
      case lf
      let ?v1 = "v\<lparr>vt_x := 0, vt_y := vt_y v + 1\<rparr>"
      have n: "normal_char c v = Some ?v1" using lf cur by (simp add: normal_char_def ESC_def LF_def)
      obtain v2 where "overflow_control ?v1 = Some v2" "vt_color v2 = vt_color v"
          "screen_of v2 = next_line ?bg ((screen_of ?v1)\<lparr>sc_line := nat (vt_y v)\<rparr>)"
        using newline_screen [of ?v1] mem st(2) cur by (auto simp: vt_mem_def)
      moreover have "next_line ?bg ((screen_of ?v1)\<lparr>sc_line := nat (vt_y v)\<rparr>) = next_line ?bg (screen_of v)"
        by (simp add: next_line_def screen_of_def)
      ultimately show ?thesis using n lf mem st cur by (simp add: type_char_def vt_mem_def)
    next
      case cr
      then show ?thesis using mem st cur overflow_control_on_screen [of "v\<lparr>vt_x := 0\<rparr>"]
        by (simp add: normal_char_def type_char_def ESC_def LF_def CR_def vt_mem_def screen_of_def vt_cursor_def vt_limits)
    next
      case tab
      define X where "X = 8 * (vt_x v div 8) + 8"
      have X: "(vt_x v + 8) AND NOT 7 = X" unfolding X_def by (rule tab_stop)
      have Xb: "0 \<le> X" "X < 100" "nat X = 8 * (nat (vt_x v) div 8) + 8"
        using cur by (simp_all add: X_def nat_add_distrib nat_mult_distrib nat_div_distrib)
      let ?v1 = "v\<lparr>vt_x := X\<rparr>"
      have n: "normal_char c v = Some ?v1" using tab cur X by (simp add: normal_char_def ESC_def LF_def CR_def TAB_def)
      have mem1: "vt_mem ?v1" using mem by (simp add: vt_mem_def)
      obtain v2 where "overflow_control ?v1 = Some v2" "vt_color v2 = vt_color v"
          "screen_of v2 = to_column ?bg (nat X) (screen_of ?v1)"
        using overflow_screen [OF mem1] st(2) cur Xb by auto
      moreover have "to_column ?bg (nat X) (screen_of ?v1) = type_char (vt_color v) c (screen_of v)"
        using tab Xb(3) by (simp add: type_char_def LF_def CR_def TAB_def screen_of_def to_column_def next_line_def)
      ultimately show ?thesis using n mem1 st cur Xb by simp
    next
      case bs
      then show ?thesis using mem st cur overflow_control_on_screen [of v] overflow_control_on_screen [of "v\<lparr>vt_x := vt_x v - 1\<rparr>"]
        by (auto simp: normal_char_def type_char_def ESC_def LF_def CR_def TAB_def BS_def vt_mem_def screen_of_def vt_cursor_def vt_limits nat_diff_distrib)
    next
      case print
      let ?m = "(vt_text v)[nat (vt_y v) * 80 + nat (vt_x v) := cell c (vt_color v)]"
      let ?v1 = "v\<lparr>vt_text := ?m, vt_x := vt_x v + 1\<rparr>"
      have ix: "nat (vt_y v * 80 + vt_x v) = nat (vt_y v) * 80 + nat (vt_x v)" using cur by (simp add: nat_add_distrib nat_mult_distrib)
      have lt: "nat (vt_y v) * 80 + nat (vt_x v) < 2000" using cur by linarith
      have "set_cell (vt_y v * 80 + vt_x v) (cell c (vt_color v)) (vt_text v) = Some ?m"
        using cur lt len by (simp add: set_cell_def ix)
      then have n: "normal_char c v = Some ?v1" using print cur st(2) by (simp add: normal_char_def TEXT_MAX_COLS_def)
      have "lines_of ?m = (lines_of (vt_text v))[nat (vt_y v) := (lines_of (vt_text v) ! nat (vt_y v))[nat (vt_x v) := cell c (vt_color v)]]"
        using lines_of_cell [OF len] cur by simp
      moreover have "nat (vt_x v + 1) = nat (vt_x v) + 1" using cur by simp
      ultimately show ?thesis using n print mem st cur overflow_screen [of ?v1]
        by (auto simp: type_char_def vt_mem_def screen_of_def to_column_def next_line_def)
    qed
  qed
  then obtain v1 v2 where v: "normal_char c v = Some v1" "overflow_control v1 = Some v2" "vt_color v2 = vt_color v"
      "vt_state v1 = STATE_NORMAL" "vt_mem v1" "0 \<le> vt_x v1" "vt_x v1 < 2 ^ 31 - 1" "0 \<le> vt_y v1" "vt_y v1 < 2 ^ 31 - 1"
      "screen_of v2 = type_char (vt_color v) c (screen_of v)" by blast
  have "vt_state v2 = STATE_NORMAL" using overflow_control_ok [OF v(5-9)] v(2,4) by auto
  then have "vt100_putc c v = Some (set_cursor (vt_x v2) (vt_y v2) v2)" using v st by (simp add: vt100_putc_def)
  with v'(1) obtain p where "v' = v2\<lparr>vt_ports := p\<rparr>" using set_cursor_eq [of "vt_x v2" "vt_y v2" v2] by auto
  with v' v(3,10) \<open>vt_state v2 = STATE_NORMAL\<close> st show ?thesis by (auto simp: text_mode_def)
qed

lemma vt100_run_screen:
  assumes "vt_ok v" and "text_mode v" and "ESC \<notin> set s"
  shows "\<exists>v'. vt100_run s v = Some v' \<and> vt_ok v' \<and> text_mode v' \<and> vt_color v' = vt_color v \<and>
    screen_of v' = fold (type_char (vt_color v)) s (screen_of v)"
  using assms
proof (induction s arbitrary: v)
  case (Cons c s)
  from Cons.prems(3) have c: "c \<noteq> ESC" "ESC \<notin> set s" by auto
  obtain v1 where v1: "vt100_putc c v = Some v1" "vt_ok v1" "text_mode v1" "vt_color v1 = vt_color v"
      "screen_of v1 = type_char (vt_color v) c (screen_of v)"
    using vt100_putc_screen [OF Cons.prems(1,2) c(1)] by blast
  from Cons.IH [OF v1(2,3) c(2)] v1 show ?case by simp
qed simp

subsection \<open>Properties\<close>

definition demo_vt :: vt where
  "demo_vt = \<lparr>vt_gui = False, vt_x = 0, vt_y = 0, vt_color = 0x0F, vt_state = STATE_NORMAL,
     vt_param = replicate 32 NUL, vt_ptr = 0, vt_rgb = 0xFFFFFF, vt_text = replicate 2000 0,
     vt_fb = fb_init 0 0 0 32 demo_fb, vt_ports = []\<rparr>"

lemma demo_vt_ok: "vt_ok demo_vt" "text_mode demo_vt" "vt_state demo_vt = STATE_NORMAL" "vt_color demo_vt = 0x0F"
  "\<not> vt_gui demo_vt"
  by (simp_all add: vt_ok_def vt_mem_def vt_cursor_def vt_limits text_mode_def demo_vt_def)

text \<open>
  C18: the console keeps its memory and its cursor. From any state in which the cursor is on the
  screen and no escape sequence is pending, a text with escape sequences of at most three
  semicolons and numbers of at most nine digits (on the framebuffer: an ASCII text), however long
  and wherever it moves the cursor, runs to its end without a write outside the video memory, the
  framebuffer, the parameter buffer or the colour tables and without an integer overflow, and leaves
  the cursor on the screen. A fourth semicolon before \<open>m\<close> reads behind the array of parameters.
\<close>

theorem vt100_safe:
  assumes "vt_ok v" and "vt_state v = STATE_NORMAL" and "polite (vt_gui v) STATE_NORMAL 0 0 s"
  shows "(\<exists>v'. vt100_run s v = Some v' \<and> vt_ok v' \<and> vt_gui v' = vt_gui v) \<and>
    vt100_run (ESC # ''[;;;;m'') v = None"
proof
  show "\<exists>v'. vt100_run s v = Some v' \<and> vt_ok v' \<and> vt_gui v' = vt_gui v"
    using vt100_run_ok [of v 0 0 s] assms by (simp add: tracked_other)
  show "vt100_run (ESC # ''[;;;;m'') v = None" by (rule vt100_param_overrun [OF assms(1,2)])
qed

text \<open>The cursor is sent to line 100 and column 200, and a character follows.\<close>

theorem vt100_safe_witness:
  "\<exists>v'. vt100_run (ESC # ''[100;200HX'') demo_vt = Some v' \<and> vt_ok v'"
proof -
  have "polite (vt_gui demo_vt) STATE_NORMAL 0 0 (ESC # ''[100;200HX'')" by (simp add: demo_vt_ok ESC_def is_digit_def)
  from vt100_safe [OF demo_vt_ok(1,3) this] show ?thesis by blast
qed

text \<open>
  in text mode the console is a screen of 25 lines of 80 cells. A text without escape
  sequences is typed on it one character after the other: a printing character fills the cell under
  the cursor with the current colour and moves on, tabulator, carriage return, backspace and
  newline move the cursor as they should, a full line wraps, and behind the last line the screen
  scrolls up by one line and ends in a blank one.
\<close>

theorem vt100_types_text:
  assumes "vt_ok v" and "text_mode v" and "ESC \<notin> set s"
  shows "\<exists>v'. vt100_run s v = Some v' \<and> vt_ok v' \<and> text_mode v' \<and> vt_color v' = vt_color v \<and>
    screen_of v' = fold (type_char (vt_color v)) s (screen_of v)"
  by (rule vt100_run_screen [OF assms])

theorem vt100_types_text_witness:
  "\<exists>v'. vt100_run [CHR ''A'', TAB, CHR ''B'', LF] demo_vt = Some v' \<and> sc_line (screen_of v') = 1 \<and> sc_col (screen_of v') = 0 \<and>
     sc_lines (screen_of v') ! 0 ! 0 = 0x0F41 \<and> sc_lines (screen_of v') ! 0 ! 8 = 0x0F42 \<and> sc_lines (screen_of v') ! 0 ! 1 = 0"
proof -
  have "ESC \<notin> set [CHR ''A'', TAB, CHR ''B'', LF]" by (simp add: ESC_def TAB_def LF_def)
  from vt100_types_text [OF demo_vt_ok(1,2) this] obtain v' where v': "vt100_run [CHR ''A'', TAB, CHR ''B'', LF] demo_vt = Some v'"
      "screen_of v' = fold (type_char 0x0F) [CHR ''A'', TAB, CHR ''B'', LF] (screen_of demo_vt)"
    unfolding demo_vt_ok(4) by blast
  have d: "screen_of demo_vt = \<lparr>sc_lines = lines_of (replicate 2000 0), sc_col = 0, sc_line = 0\<rparr>"
    by (simp add: screen_of_def demo_vt_def)
  have l: "lines_of (replicate 2000 0) ! 0 = replicate 80 0" by (simp add: lines_of_nth)
  have c: "cell (CHR ''A'') 0x0F = 0x0F41" "cell (CHR ''B'') 0x0F = 0x0F42" by (simp_all add: cell_def schar_def)
  have "screen_of v' = \<lparr>sc_lines = (lines_of (replicate 2000 0))[0 := (replicate 80 0)[0 := 0x0F41, 8 := 0x0F42]], sc_col = 0, sc_line = 1\<rparr>"
    unfolding v'(2) d by (simp add: type_char_def to_column_def next_line_def LF_def CR_def TAB_def BS_def c l)
  with v'(1) show ?thesis by simp
qed

text \<open>
  C19: a message reaches the screen and the log. When the console is in text mode, the circular log
  holds the end of the history and the message passes the log level, \<open>printk\<close> of a format
  whose text has no escape character types exactly that text on the screen, without the time
  stamp, and adds it with the time stamps to the log.
\<close>

theorem printk_on_screen:
  assumes "log_holds k h" and "stamp (now_ms k) = Some st"
    and "message_level fmt (default_message_loglevel k) = Some (level, p)" and "level \<le> console_loglevel k"
    and "format_text printk_precision p args = Some t" and "ESC \<notin> set t"
    and "vt_ok v" and "text_mode v"
  shows "\<exists>k' v'. on_screen (printk fmt args) (k, v) = Some (1, k', v') \<and> vt_ok v' \<and>
    screen_of v' = fold (type_char (vt_color v)) t (screen_of v) \<and> log_holds k' (h @ logged st (at_line_start k) t)"
proof -
  obtain k' where k': "put_text t k = Some k'" "log_holds k' (h @ logged st (at_line_start k) t)" "console k' = console k @ t"
    using put_text_logged [OF assms(1,2), of t] by blast
  obtain v' where v': "vt100_run t v = Some v'" "vt_ok v'" "screen_of v' = fold (type_char (vt_color v)) t (screen_of v)"
    using vt100_run_screen [OF assms(7,8,6)] by blast
  have "printk fmt args k = Some (1, k')" using assms(3-5) k'(1) by (simp add: printk_def vprintk_def)
  then have "on_screen (printk fmt args) (k, v) = Some (1, k', v')" using k'(3) v'(1) by (simp add: on_screen_def)
  with k'(2) v'(2,3) show ?thesis by blast
qed

theorem printk_on_screen_witness:
  "\<exists>k' v'. on_screen (printk (''ok'' @ [LF, NUL]) []) (klog_boot 0, demo_vt) = Some (1, k', v') \<and>
     sc_line (screen_of v') = 1 \<and> sc_lines (screen_of v') ! 0 ! 1 = 0x0F6B"
proof -
  have h: "log_holds (klog_boot 0) []" by (simp add: log_holds_def klog_boot_def)
  obtain a b where "int_text 0 10 5 = Some a" "int_text 0 10 3 = Some b"
    using int_text_decimal [of 0 5] int_text_decimal [of 0 3] by (auto simp: sint_u32)
  then have st: "stamp (now_ms (klog_boot 0)) = Some (''['' @ a @ ''.'' @ b @ ''] '')"
    by (simp add: stamp_def klog_boot_def as_long_def)
  have lv: "message_level (''ok'' @ [LF, NUL]) (default_message_loglevel (klog_boot 0)) = Some (4, ''ok'' @ [LF, NUL])"
    by (simp add: message_level_def klog_boot_def LOGLEVEL_WARNING_def LF_def)
  have f: "format_text printk_precision (''ok'' @ [LF, NUL]) [] = Some (''ok'' @ [LF])"
    by (simp add: format_text.simps LF_def)
  have "4 \<le> console_loglevel (klog_boot 0)" by (simp add: klog_boot_def LOGLEVEL_DEBUG_def)
  from printk_on_screen [OF h st lv this f _ demo_vt_ok(1,2)]
  obtain k' v' where kv: "on_screen (printk (''ok'' @ [LF, NUL]) []) (klog_boot 0, demo_vt) = Some (1, k', v')"
      "screen_of v' = fold (type_char 0x0F) (''ok'' @ [LF]) (screen_of demo_vt)"
    unfolding demo_vt_ok(4) by (auto simp: ESC_def LF_def)
  have d: "screen_of demo_vt = \<lparr>sc_lines = lines_of (replicate 2000 0), sc_col = 0, sc_line = 0\<rparr>"
    by (simp add: screen_of_def demo_vt_def)
  have c: "cell (CHR ''o'') 0x0F = 0x0F6F" "cell (CHR ''k'') 0x0F = 0x0F6B" by (simp_all add: cell_def schar_def)
  have l: "lines_of (replicate 2000 0) ! 0 = replicate 80 0" by (simp add: lines_of_nth)
  have "screen_of v' = \<lparr>sc_lines = (lines_of (replicate 2000 0))[0 := (replicate 80 0)[0 := 0x0F6F, 1 := 0x0F6B]], sc_col = 0, sc_line = 1\<rparr>"
    unfolding kv(2) d by (simp add: type_char_def to_column_def next_line_def LF_def CR_def TAB_def BS_def c l)
  with kv(1) show ?thesis by simp
qed

end
