(* ===== verification/Vmm.thy ===== *)
theory Vmm
  imports Page_Source
begin

text \<open>
  Virtual memory, \<open>arch/x86/vmm.c\<close>. The code edits the page tables through the window that the
  last entry of the page directory opens on them, so the model has the page walk of the processor
  (two levels, 4 KB pages) and every access of the code goes through it; None is a page fault in
  the kernel. Physical memory is a function from frames and word numbers to words. Translations are
  not cached in the model (the code invalidates each page it maps), and the spin lock of the single
  processor is left out.
\<close>

definition PAGE_PRESENT :: u32 where "PAGE_PRESENT = 0x01"
definition PAGE_RW :: u32 where "PAGE_RW = 0x02"
definition PAGE_USER :: u32 where "PAGE_USER = 0x04"
definition PAGE_COW :: u32 where "PAGE_COW = 0x200"

record vm =
  cr3 :: u32
  phys :: "u32 \<Rightarrow> nat \<Rightarrow> u32"
  vm_frames :: mm_state

subsection \<open>The page walk\<close>

definition frame_of :: "u32 \<Rightarrow> u32" where "frame_of e = e AND 0xFFFFF000"
definition page_offset :: "u32 \<Rightarrow> u32" where "page_offset va = va AND 0xFFF"
definition dir_index :: "u32 \<Rightarrow> u32" where "dir_index va = drop_bit 22 va"
definition tab_index :: "u32 \<Rightarrow> u32" where "tab_index va = drop_bit 12 va AND 0x3FF"
definition present :: "u32 \<Rightarrow> bool" where "present e \<longleftrightarrow> e AND PAGE_PRESENT \<noteq> 0"

definition dir_entry :: "vm \<Rightarrow> nat \<Rightarrow> u32" where
  "dir_entry s i = phys s (frame_of (cr3 s)) i"

definition translate :: "vm \<Rightarrow> u32 \<Rightarrow> u32 option" where
  "translate s va =
     (let pde = dir_entry s (unat (dir_index va));
          pte = phys s (frame_of pde) (unat (tab_index va))
      in if present pde \<and> present pte then Some (frame_of pte OR page_offset va) else None)"

definition word_index :: "u32 \<Rightarrow> nat" where
  "word_index pa = unat (drop_bit 2 (page_offset pa))"

definition virt_read :: "u32 \<Rightarrow> vm \<Rightarrow> u32 option" where
  "virt_read va s = map_option (\<lambda>pa. phys s (frame_of pa) (word_index pa)) (translate s va)"

definition phys_write :: "u32 \<Rightarrow> nat \<Rightarrow> u32 \<Rightarrow> vm \<Rightarrow> vm" where
  "phys_write f k w s = s\<lparr>phys := (phys s)(f := (phys s f)(k := w))\<rparr>"

definition virt_write :: "u32 \<Rightarrow> u32 \<Rightarrow> vm \<Rightarrow> vm option" where
  "virt_write va w s = map_option (\<lambda>pa. phys_write (frame_of pa) (word_index pa) w s) (translate s va)"

subsection \<open>Operations\<close>

text \<open>\<open>memset(va, 0, 4096)\<close> and \<open>memcpy(dst, src, 4096)\<close> on aligned addresses, word by word.\<close>

definition virt_clear :: "u32 \<Rightarrow> vm \<Rightarrow> vm option" where
  "virt_clear va s = for_up 0 1024 (\<lambda>k. virt_write (va + of_nat (4 * k)) 0) s"

definition virt_copy :: "u32 \<Rightarrow> u32 \<Rightarrow> vm \<Rightarrow> vm option" where
  "virt_copy dst src s =
     for_up 0 1024 (\<lambda>k s. do { w \<leftarrow> virt_read (src + of_nat (4 * k)) s; virt_write (dst + of_nat (4 * k)) w s }) s"

definition new_frame :: "vm \<Rightarrow> (u32 \<times> vm) option" where
  "new_frame s = do { (f, mm) \<leftarrow> pmm_alloc_frame (vm_frames s); Some (f, s\<lparr>vm_frames := mm\<rparr>) }"

text \<open>\<open>pte\<close> is the virtual address of a page table entry.\<close>

definition vmm_handle_cow :: "u32 \<Rightarrow> u32 \<Rightarrow> vm \<Rightarrow> vm option" where
  "vmm_handle_cow fault_addr pte s =
     do { _ \<leftarrow> virt_read pte s;
          (new_page_phys, s1) \<leftarrow> new_frame s;
          s2 \<leftarrow> virt_copy new_page_phys (fault_addr AND 0xFFFFF000) s1;
          virt_write pte (new_page_phys OR PAGE_PRESENT OR PAGE_RW OR PAGE_USER) s2 }"

definition vmm_handle_demand_paging :: "u32 \<Rightarrow> u32 \<Rightarrow> vm \<Rightarrow> vm option" where
  "vmm_handle_demand_paging fault_addr pte s =
     do { (new_page, s1) \<leftarrow> new_frame s;
          s2 \<leftarrow> virt_clear new_page s1;
          virt_write pte (new_page OR PAGE_PRESENT OR PAGE_RW OR PAGE_USER) s2 }"

text \<open>The addresses of \<open>pd[i]\<close> and of \<open>pt[j]\<close> in the recursive window.\<close>

definition pd_addr :: "u32 \<Rightarrow> u32" where "pd_addr i = 0xFFFFF000 + 4 * i"
definition pt_base :: "u32 \<Rightarrow> u32" where "pt_base i = 0xFFC00000 + push_bit 12 i"

definition ensure_table :: "u32 \<Rightarrow> vm \<Rightarrow> vm option" where
  "ensure_table pd_index s =
     do { e \<leftarrow> virt_read (pd_addr pd_index) s;
          (if e AND PAGE_PRESENT = 0
           then do { (new_pt_phys, s1) \<leftarrow> new_frame s;
                     s2 \<leftarrow> virt_write (pd_addr pd_index) (new_pt_phys OR PAGE_PRESENT OR PAGE_RW OR PAGE_USER) s1;
                     virt_clear (pt_base pd_index) s2 }
           else Some s) }"

definition map_page :: "u32 \<Rightarrow> u32 \<Rightarrow> u32 \<Rightarrow> vm \<Rightarrow> vm option" where
  "map_page addr physical flags s =
     do { s1 \<leftarrow> ensure_table (drop_bit 22 addr) s;
          virt_write (pt_base (drop_bit 22 addr) + 4 * (drop_bit 12 addr AND 0x3FF)) (physical OR flags) s1 }"

text \<open>
  The loop may not end: \<open>addr += 4096\<close> wraps when \<open>end\<close> is in the last page. None stands for that and for
  a page fault on the way alike.
\<close>

partial_function (option) map_loop :: "u32 \<Rightarrow> u32 \<Rightarrow> u32 \<Rightarrow> u32 \<Rightarrow> vm \<Rightarrow> vm option" where
  "map_loop addr end physical flags s =
     (if addr < end
      then do { s1 \<leftarrow> map_page addr physical flags s; map_loop (addr + 4096) end (physical + 4096) flags s1 }
      else Some s)"

definition vmm_map :: "u32 \<Rightarrow> u32 \<Rightarrow> u32 \<Rightarrow> u32 \<Rightarrow> vm \<Rightarrow> vm option" where
  "vmm_map virtual physical sz flags s = map_loop virtual (virtual + sz) physical flags s"

subsection \<open>Addresses\<close>

definition aligned :: "u32 \<Rightarrow> bool" where "aligned a \<longleftrightarrow> unat a mod 4096 = 0"

lemma unat_dir_index: "unat (dir_index a) = unat a div 2 ^ 22"
  by (simp add: dir_index_def drop_bit_eq_div unat_div)

lemma window_mask: "(0xFFFFF000 :: u32) = NOT (mask 12)"
  by (simp add: mask_eq_exp_minus_1 word_unat_eq_iff)

lemma and_mask: "(a :: u32) AND 0x3FF = take_bit 10 a" "a AND 0xFFF = take_bit 12 a" "a AND 0xFFFFF000 = a AND NOT (mask 12)"
  by (simp add: take_bit_eq_mask mask_eq_exp_minus_1, simp add: take_bit_eq_mask mask_eq_exp_minus_1, simp only: window_mask)

lemma unat_tab_index: "unat (tab_index a) = unat a div 4096 mod 1024"
  by (simp add: tab_index_def and_mask unsigned_take_bit_eq drop_bit_eq_div unat_div take_bit_eq_mod unat_mod)

lemma unat_page_offset: "unat (page_offset a) = unat a mod 4096"
  by (simp add: page_offset_def and_mask take_bit_eq_mod unat_mod)

lemma frame_offset: "frame_of a + page_offset a = a" "frame_of a AND page_offset b = 0"
proof -
  have n: "(a AND NOT (mask 12)) AND take_bit 12 b = 0" for b
    by (rule bit_eqI) (auto simp: bit_simps)
  then show "frame_of a AND page_offset b = 0" by (simp add: frame_of_def page_offset_def and_mask)
  have "(a AND NOT (mask 12)) OR take_bit 12 a = a"
    by (rule bit_eqI) (auto simp: bit_simps)
  with n [of a] show "frame_of a + page_offset a = a"
    using disjunctive_add_eq_or [of "a AND NOT (mask 12)" "take_bit 12 a"] by (simp add: frame_of_def page_offset_def and_mask)
qed

lemma unat_frame_of: "unat (frame_of a) = unat a - unat a mod 4096"
proof -
  have "frame_of a = a - page_offset a" using frame_offset(1) [of a] by (simp add: eq_diff_eq)
  moreover have "page_offset a \<le> a" by (simp add: word_le_nat_alt unat_page_offset)
  ultimately show ?thesis by (simp add: unat_sub unat_page_offset)
qed

lemma frame_of_aligned: "aligned f \<Longrightarrow> frame_of f = f"
  by (simp add: word_unat_eq_iff unat_frame_of aligned_def)

lemma aligned_frame_of [simp]: "aligned (frame_of a)"
  by (simp add: aligned_def unat_frame_of mod_diff_eq [symmetric] minus_mod_eq_mult_div)

text \<open>An aligned frame and an offset below 4096 joined to an address or an entry.\<close>

lemma join:
  assumes "aligned f" and "unat w < 4096"
  shows "f OR w = f + w" "unat (f OR w) = unat f + unat w" "frame_of (f OR w) = f" "page_offset (f OR w) = w"
proof -
  have f: "frame_of f = f" "page_offset w = w"
    using frame_of_aligned [OF assms(1)] assms(2) by (simp_all add: word_unat_eq_iff unat_page_offset)
  have "f AND w = 0" using frame_offset(2) [of f w] f by simp
  then show or: "f OR w = f + w" using disjunctive_add_eq_or [of f w] by simp
  have "unat f + unat w < 2 ^ 32"
  proof -
    have "unat f = 4096 * (unat f div 4096)" using assms(1) by (simp add: aligned_def mod_eq_0_iff_dvd)
    moreover have "unat f < 4294967296" by simp
    ultimately have "unat f div 4096 < 1048576" by linarith
    then have "unat f \<le> 4096 * 1048575" using \<open>unat f = 4096 * (unat f div 4096)\<close> by linarith
    with assms(2) show ?thesis by simp
  qed
  then show u: "unat (f OR w) = unat f + unat w" unfolding or using unat_add_lem [of f w] by simp
  have m: "(unat f + unat w) mod 4096 = unat w"
    using assms by (metis aligned_def mod_add_left_eq add_0 mod_less)
  show "frame_of (f OR w) = f" by (simp add: word_unat_eq_iff unat_frame_of u m)
  show "page_offset (f OR w) = w" by (simp add: word_unat_eq_iff unat_page_offset u m)
qed

lemma present_join: "aligned f \<Longrightarrow> present (f OR w) = present w"
proof -
  assume "aligned f"
  then have "unat f mod 2 = 0" using mod_mod_cancel [of 2 4096 "unat f"] by (simp add: aligned_def)
  then have "f AND 1 = 0" unfolding and_one_eq word_unat_eq_iff unat_mod by simp
  then show ?thesis by (simp add: present_def PAGE_PRESENT_def bit.conj_disj_distrib2)
qed

subsection \<open>The window on the page tables\<close>

definition free_frame :: "vm \<Rightarrow> u32 \<Rightarrow> bool" where
  "free_frame s a \<longleftrightarrow> (\<exists>k < unat (total_pages (vm_frames s)). page_free (vm_frames s) k \<and> a = frame_addr (vm_frames s) k)"

definition tables :: "vm \<Rightarrow> nat set" where
  "tables s = {i. i < 1023 \<and> present (dir_entry s i)}"

definition table :: "vm \<Rightarrow> nat \<Rightarrow> u32" where
  "table s i = frame_of (dir_entry s i)"

text \<open>
  The last entry of the directory points to the directory; the page tables are frames of their own,
  which the frame allocator does not hand out.
\<close>

definition vm_ok :: "vm \<Rightarrow> bool" where
  "vm_ok s \<longleftrightarrow> mm_ok (vm_frames s) \<and> aligned (phys_limit_start (vm_frames s)) \<and> aligned (cr3 s) \<and>
     table s 1023 = cr3 s \<and> present (dir_entry s 1023) \<and> \<not> free_frame s (cr3 s) \<and>
     (\<forall>i \<in> tables s. table s i \<noteq> cr3 s \<and> \<not> free_frame s (table s i)) \<and> inj_on (table s) (tables s)"

lemma dir_entry_cr3: "aligned (cr3 s) \<Longrightarrow> dir_entry s i = phys s (cr3 s) i"
  by (simp add: dir_entry_def frame_of_aligned)

lemma unat_mult4: "unat (i :: u32) < 1024 \<Longrightarrow> unat (4 * i) = 4 * unat i"
  by (simp add: unat_word_ariths)

lemma page_split: "r < 4096 \<Longrightarrow> (4096 * q + r) div 4096 = (q :: nat) \<and> (4096 * q + r) mod 4096 = r"
  by simp

lemma window_index: "i < 1024 \<Longrightarrow> (1047552 + i) mod 1024 = (i :: nat)"
  using mod_mult_self4 [of 1024 1023 i] by simp

lemma window_dir: "i < 1024 \<Longrightarrow> r < 4096 \<Longrightarrow> (4096 * (1047552 + i) + r) div 4194304 = (1023 :: nat)"
  by (rule div_nat_eqI) simp_all

lemma unat_pd_addr: "unat i < 1024 \<Longrightarrow> unat (pd_addr i) = 4096 * 1048575 + 4 * unat i"
  by (simp add: pd_addr_def unat_word_ariths)

lemma unat_pt_addr: "unat i < 1024 \<Longrightarrow> unat j < 1024 \<Longrightarrow> unat (pt_base i + 4 * j) = 4096 * (1047552 + unat i) + 4 * unat j"
  by (simp add: pt_base_def push_bit_eq_mult unat_word_ariths mod_simps)

lemma word_index_join:
  assumes "aligned f" and "unat i < 1024"
  shows "word_index (f OR 4 * i) = unat i" "frame_of (f OR 4 * i) = f"
proof -
  have "unat (4 * i) < 4096" using assms(2) by (simp add: unat_mult4)
  from join [OF assms(1) this] show "frame_of (f OR 4 * i) = f" "word_index (f OR 4 * i) = unat i"
    using assms(2) by (simp_all add: word_index_def drop_bit_eq_div unat_div unat_mult4)
qed

lemma pd_window:
  assumes "vm_ok s" and "unat i < 1024"
  shows "virt_read (pd_addr i) s = Some (dir_entry s (unat i))"
    and "virt_write (pd_addr i) w s = Some (phys_write (cr3 s) (unat i) w s)"
proof -
  have "dir_index (pd_addr i) = 1023" "tab_index (pd_addr i) = 1023" "page_offset (pd_addr i) = 4 * i"
    using assms(2) page_split [of "4 * unat i" 1048575]
    by (simp_all add: word_unat_eq_iff unat_dir_index unat_tab_index unat_page_offset unat_pd_addr unat_mult4)
  moreover have "aligned (cr3 s)" "present (dir_entry s 1023)" "frame_of (dir_entry s 1023) = cr3 s"
    using assms(1) by (simp_all add: vm_ok_def table_def)
  ultimately have "translate s (pd_addr i) = Some (cr3 s OR 4 * i)"
    by (simp add: translate_def dir_entry_cr3)
  then show "virt_read (pd_addr i) s = Some (dir_entry s (unat i))"
      "virt_write (pd_addr i) w s = Some (phys_write (cr3 s) (unat i) w s)"
    using word_index_join [OF \<open>aligned (cr3 s)\<close> assms(2)] \<open>aligned (cr3 s)\<close>
    by (simp_all add: virt_read_def virt_write_def dir_entry_cr3)
qed

lemma pt_window:
  assumes "aligned (cr3 s)" "table s 1023 = cr3 s" "present (dir_entry s 1023)"
    and "present (dir_entry s (unat i))" and "unat i < 1024" "unat j < 1024"
  shows "virt_read (pt_base i + 4 * j) s = Some (phys s (table s (unat i)) (unat j))"
    and "virt_write (pt_base i + 4 * j) w s = Some (phys_write (table s (unat i)) (unat j) w s)"
proof -
  have "dir_index (pt_base i + 4 * j) = 1023" "tab_index (pt_base i + 4 * j) = i" "page_offset (pt_base i + 4 * j) = 4 * j"
    using assms(5,6) page_split [of "4 * unat j" "1047552 + unat i"] window_index [of "unat i"]
      window_dir [of "unat i" "4 * unat j"]
    by (simp_all add: word_unat_eq_iff unat_dir_index unat_tab_index unat_page_offset unat_pt_addr unat_mult4 del: distrib_left_numeral)
  then have "translate s (pt_base i + 4 * j) = Some (table s (unat i) OR 4 * j)"
    using assms(1-4) by (simp add: translate_def table_def dir_entry_cr3)
  then show "virt_read (pt_base i + 4 * j) s = Some (phys s (table s (unat i)) (unat j))"
      "virt_write (pt_base i + 4 * j) w s = Some (phys_write (table s (unat i)) (unat j) w s)"
    using word_index_join [of "table s (unat i)" j] assms(6) by (simp_all add: virt_read_def virt_write_def table_def)
qed

subsection \<open>One page\<close>

lemma free_frame_finite [simp]: "finite (Collect (free_frame s))"
proof -
  have "Collect (free_frame s) \<subseteq> frame_addr (vm_frames s) ` {..<unat (total_pages (vm_frames s))}"
    by (auto simp: free_frame_def)
  then show ?thesis by (rule finite_subset) simp
qed

lemma new_frame_ok:
  assumes ok: "mm_ok (vm_frames s)" "aligned (phys_limit_start (vm_frames s))" and free: "Collect (free_frame s) \<noteq> {}"
  shows "\<exists>f mm'. new_frame s = Some (f, s\<lparr>vm_frames := mm'\<rparr>) \<and> aligned f \<and> free_frame s f \<and> mm_ok mm' \<and>
    phys_limit_start mm' = phys_limit_start (vm_frames s) \<and> Collect (free_frame (s\<lparr>vm_frames := mm'\<rparr>)) = Collect (free_frame s) - {f}"
proof -
  let ?mm = "vm_frames s"
  obtain k where k: "pick_frame ?mm = Some k"
    using free pick_frame_None [of ?mm] by (cases "pick_frame ?mm") (auto simp: free_frame_def)
  have kf: "k < unat (total_pages ?mm)" "page_free ?mm k"
    using pick_frame_Some [of ?mm k] k ok(1) by (simp_all add: mm_ok_def)
  obtain bm where bm: "pmm_alloc_frame ?mm = Some (frame_addr ?mm k, ?mm\<lparr>bitmap := bm, next_free := of_nat (Suc k)\<rparr>)"
      "length bm = length (bitmap ?mm)" "\<And>j. bm_has bm j \<longleftrightarrow> page_used ?mm j \<or> j = k"
    using pmm_alloc_frame_ok [OF ok(1)] k by auto
  let ?mm' = "?mm\<lparr>bitmap := bm, next_free := of_nat (Suc k)\<rparr>"
  have "mm_ok ?mm'" using mm_ok_update [OF ok(1) bm(2), of "Suc k"] kf by simp
  moreover have "page_free ?mm' j \<longleftrightarrow> page_free ?mm j \<and> j \<noteq> k" for j
    by (auto simp: page_free_def page_used_def page_locked_def bm(3))
  moreover have "frame_addr ?mm' j = frame_addr ?mm j" for j by (simp add: frame_addr_def)
  moreover have "frame_addr ?mm j \<noteq> frame_addr ?mm k" if "j \<noteq> k" "j < unat (total_pages ?mm)" for j
    using that kf unat_frame_addr [OF ok(1)] by (metis add_right_cancel mult_right_cancel zero_neq_numeral)
  ultimately have "Collect (free_frame (s\<lparr>vm_frames := ?mm'\<rparr>)) = Collect (free_frame s) - {frame_addr ?mm k}"
    using kf by (simp add: free_frame_def set_eq_iff) metis
  moreover have "aligned (frame_addr ?mm k)"
    using unat_frame_addr [OF ok(1) kf(1)] ok(2) by (simp add: aligned_def)
  moreover have "free_frame s (frame_addr ?mm k)" using kf by (auto simp: free_frame_def)
  ultimately show ?thesis using bm(1) \<open>mm_ok ?mm'\<close> by (auto simp: new_frame_def)
qed

lemma phys_write_fields [simp]: "cr3 (phys_write f k w s) = cr3 s" "vm_frames (phys_write f k w s) = vm_frames s"
  "free_frame (phys_write f k w s) = free_frame s"
  by (simp_all add: phys_write_def free_frame_def fun_eq_iff)

lemma dir_entry_write:
  assumes "aligned (cr3 s)"
  shows "dir_entry (phys_write f k w s) i = (if f = cr3 s \<and> i = k then w else dir_entry s i)"
  using assms by (simp add: dir_entry_cr3) (simp add: phys_write_def)

lemma virt_clear_run:
  assumes "aligned (cr3 s)" "table s 1023 = cr3 s" "present (dir_entry s 1023)"
    and "present (dir_entry s (unat i))" "unat i < 1024" and "table s (unat i) \<noteq> cr3 s"
  shows "virt_clear (pt_base i) s =
    Some (s\<lparr>phys := (phys s)(table s (unat i) := (\<lambda>k. if k < 1024 then 0 else phys s (table s (unat i)) k))\<rparr>)"
proof -
  let ?f = "table s (unat i)"
  let ?t = "\<lambda>j. s\<lparr>phys := (phys s)(?f := (\<lambda>k. if k < j then 0 else phys s ?f k))\<rparr>"
  have "\<exists>t. virt_clear (pt_base i) s = Some t \<and> t = ?t 1024"
    unfolding virt_clear_def
  proof (rule for_up_rule [where I = "\<lambda>j t. t = ?t j"])
    fix j t
    assume j: "j < (1024 :: nat)" and t: "t = ?t j"
    have d: "dir_entry t k = dir_entry s k" for k using assms(1,6) by (simp add: t dir_entry_cr3)
    have "unat (of_nat j :: u32) = j" using j by (simp add: unat_of_nat take_bit_eq_mod)
    moreover have "pt_base i + of_nat (4 * j) = pt_base i + 4 * of_nat j" by simp
    ultimately have "virt_write (pt_base i + of_nat (4 * j)) 0 t = Some (phys_write ?f j 0 t)"
      using pt_window(2) [of t i "of_nat j" 0] assms j d by (simp add: table_def t)
    moreover have "phys_write ?f j 0 t = ?t (Suc j)"
      by (simp add: t phys_write_def fun_eq_iff less_Suc_eq)
    ultimately show "\<exists>t'. virt_write (pt_base i + of_nat (4 * j)) 0 t = Some t' \<and> t' = ?t (Suc j)" by simp
  qed (simp_all add: fun_upd_idem)
  then show ?thesis by simp
qed

definition missing :: "vm \<Rightarrow> nat set" where
  "missing s = {i. i < 1023 \<and> \<not> present (dir_entry s i)}"

text \<open>As many free frames as page tables that are not there yet.\<close>

definition room :: "vm \<Rightarrow> bool" where
  "room s \<longleftrightarrow> card (missing s) \<le> card (Collect (free_frame s))"

lemma finite_missing [simp]: "finite (missing s)"
  by (simp add: missing_def)

lemma present_7: "aligned f \<Longrightarrow> present (f OR PAGE_PRESENT OR PAGE_RW OR PAGE_USER) \<and>
  frame_of (f OR PAGE_PRESENT OR PAGE_RW OR PAGE_USER) = f"
proof -
  assume a: "aligned f"
  have e: "f OR PAGE_PRESENT OR PAGE_RW OR PAGE_USER = f OR 7"
    by (simp add: PAGE_PRESENT_def PAGE_RW_def PAGE_USER_def)
  have "present (7 :: u32)" by (simp add: present_def PAGE_PRESENT_def)
  then show ?thesis unfolding e using present_join [OF a, of 7] join(3) [OF a, of 7] by simp
qed

lemma new_table:
  assumes ok: "vm_ok s" and i: "unat i < 1023" and absent: "\<not> present (dir_entry s (unat i))"
    and new: "new_frame s = Some (f, s\<lparr>vm_frames := mm'\<rparr>)" and f: "aligned f" "free_frame s f"
    and mm: "mm_ok mm'" "phys_limit_start mm' = phys_limit_start (vm_frames s)"
      "Collect (free_frame (s\<lparr>vm_frames := mm'\<rparr>)) = Collect (free_frame s) - {f}"
  shows "\<exists>s'. ensure_table i s = Some s' \<and> cr3 s' = cr3 s \<and> vm_frames s' = mm' \<and>
    (\<forall>j. dir_entry s' j = (if j = unat i then f OR PAGE_PRESENT OR PAGE_RW OR PAGE_USER else dir_entry s j)) \<and>
    (\<forall>k < 1024. phys s' f k = 0) \<and> (\<forall>g. g \<noteq> f \<and> g \<noteq> cr3 s \<longrightarrow> phys s' g = phys s g)"
proof -
  let ?s1 = "s\<lparr>vm_frames := mm'\<rparr>" and ?e = "f OR PAGE_PRESENT OR PAGE_RW OR PAGE_USER"
  let ?s2 = "phys_write (cr3 s) (unat i) ?e ?s1"
  have al: "aligned (cr3 s)" and ne: "f \<noteq> cr3 s" using ok f(2) by (auto simp: vm_ok_def)
  have dir1: "dir_entry ?s1 j = dir_entry s j" for j by (simp add: dir_entry_def)
  have tab1: "table ?s1 = table s" "tables ?s1 = tables s" by (simp_all add: fun_eq_iff table_def tables_def dir1)
  have "free_frame ?s1 a \<Longrightarrow> free_frame s a" for a using mm(3) by blast
  then have ok1: "vm_ok ?s1" using ok mm(1,2) unfolding vm_ok_def tab1 dir1 by auto
  have i': "unat i < 1024" using i by simp
  have r: "virt_read (pd_addr i) s = Some (dir_entry s (unat i))" using pd_window(1) [OF ok i'] .
  have w: "virt_write (pd_addr i) ?e ?s1 = Some ?s2" using pd_window(2) [OF ok1 i', of ?e] by simp
  have dir2: "dir_entry ?s2 j = (if j = unat i then ?e else dir_entry s j)" for j
    using dir_entry_write [of ?s1 "cr3 s" "unat i" ?e j] al by (simp add: dir1)
  have tab2: "table ?s2 (unat i) = f" "present (dir_entry ?s2 (unat i))" "table ?s2 1023 = cr3 s" "present (dir_entry ?s2 1023)"
    using present_7 [OF f(1)] ok i by (simp_all add: table_def dir2 vm_ok_def)
  let ?s3 = "?s2\<lparr>phys := (phys ?s2)(f := (\<lambda>k. if k < 1024 then 0 else phys ?s2 f k))\<rparr>"
  have c: "virt_clear (pt_base i) ?s2 = Some ?s3"
    using virt_clear_run [of ?s2 i, unfolded tab2(1)] al tab2 i' ne by simp
  have "ensure_table i s = Some ?s3"
    using r w c absent new by (simp add: ensure_table_def present_def)
  moreover have "dir_entry ?s3 j = dir_entry ?s2 j" for j
    using al ne by (simp add: dir_entry_cr3)
  ultimately show ?thesis using dir2 ne by (intro exI [of _ ?s3]) (simp add: phys_write_def)
qed

lemma ensure_table_ok:
  assumes ok: "vm_ok s" and room: "room s" and i: "unat i < 1023"
  shows "\<exists>s'. ensure_table i s = Some s' \<and> vm_ok s' \<and> room s' \<and> present (dir_entry s' (unat i)) \<and>
    (\<forall>va. unat (dir_index va) < 1023 \<longrightarrow> translate s' va = translate s va)"
proof (cases "present (dir_entry s (unat i))")
  case True
  then have "ensure_table i s = Some s"
    using pd_window(1) [OF ok, of i] i by (simp add: ensure_table_def present_def)
  with True ok room show ?thesis by simp
next
  case False
  have mi: "unat i \<in> missing s" using False i by (simp add: missing_def)
  then have "0 < card (missing s)" by (auto simp: card_gt_0_iff)
  with room have "0 < card (Collect (free_frame s))" by (simp add: room_def)
  then have "Collect (free_frame s) \<noteq> {}" using card_gt_0_iff by blast
  with new_frame_ok [of s] ok obtain f mm' where new: "new_frame s = Some (f, s\<lparr>vm_frames := mm'\<rparr>)"
      and f: "aligned f" "free_frame s f" and mm: "mm_ok mm'" "phys_limit_start mm' = phys_limit_start (vm_frames s)"
        "Collect (free_frame (s\<lparr>vm_frames := mm'\<rparr>)) = Collect (free_frame s) - {f}"
    by (auto simp: vm_ok_def)
  from new_table [OF ok i False new f mm] obtain s' where s': "ensure_table i s = Some s'" "cr3 s' = cr3 s" "vm_frames s' = mm'"
      "\<And>j. dir_entry s' j = (if j = unat i then f OR PAGE_PRESENT OR PAGE_RW OR PAGE_USER else dir_entry s j)"
      "\<And>k. k < 1024 \<Longrightarrow> phys s' f k = 0" "\<And>g. g \<noteq> f \<Longrightarrow> g \<noteq> cr3 s \<Longrightarrow> phys s' g = phys s g"
    by blast
  have free: "free_frame s' a \<longleftrightarrow> free_frame s a \<and> a \<noteq> f" for a
    using mm(3) s'(3) by (auto simp: free_frame_def set_eq_iff)
  have tab: "table s' j = (if j = unat i then f else table s j)" for j
    using present_7 [OF f(1)] by (simp add: table_def s'(4))
  have tabs: "tables s' = insert (unat i) (tables s)"
    using present_7 [OF f(1)] i by (auto simp: tables_def s'(4))
  have nf: "table s j \<noteq> f \<and> table s j \<noteq> cr3 s" if "j \<in> tables s" for j
    using that ok f(2) by (auto simp: vm_ok_def)
  have ii: "unat i \<notin> tables s" using False by (simp add: tables_def)
  have "inj_on (table s') (tables s')"
    using ok nf ii unfolding tabs by (auto simp: vm_ok_def inj_on_def tab)
  moreover have "\<forall>j \<in> tables s'. table s' j \<noteq> cr3 s \<and> \<not> free_frame s' (table s' j)"
    using ok nf f(2) by (auto simp: tabs tab free vm_ok_def)
  ultimately have ok': "vm_ok s'"
    using ok mm i s'(2,3) by (simp add: vm_ok_def tab free s'(4))
  have "missing s' = missing s - {unat i}"
    using present_7 [OF f(1)] by (auto simp: missing_def s'(4))
  then have "card (missing s') = card (missing s) - 1" using mi by (simp add: card_Diff_singleton)
  moreover have "Collect (free_frame s') = Collect (free_frame s) - {f}" using free by blast
  then have "card (Collect (free_frame s')) = card (Collect (free_frame s)) - 1" using f(2) by (simp add: card_Diff_singleton)
  ultimately have "room s'" using room by (simp add: room_def)
  moreover have "translate s' va = translate s va" if va: "unat (dir_index va) < 1023" for va
  proof (cases "unat (dir_index va) = unat i")
    case True
    have "unat (tab_index va) < 1024" by (simp add: unat_tab_index)
    then have "phys s' f (unat (tab_index va)) = 0" by (rule s'(5))
    then show ?thesis using True False tab [of "unat i"] by (simp add: translate_def table_def present_def)
  next
    case other: False
    then have d: "dir_entry s' (unat (dir_index va)) = dir_entry s (unat (dir_index va))" by (simp add: s'(4))
    show ?thesis
    proof (cases "present (dir_entry s (unat (dir_index va)))")
      case True
      then have "unat (dir_index va) \<in> tables s" using va by (simp add: tables_def)
      then show ?thesis using nf s'(6) d by (simp add: translate_def table_def)
    qed (simp add: translate_def d)
  qed
  ultimately show ?thesis using ok' s'(1,4) present_7 [OF f(1)] by auto
qed

lemma same_page: "frame_of a = frame_of b \<longleftrightarrow> dir_index a = dir_index b \<and> tab_index a = tab_index b"
proof -
  have q: "unat (frame_of c) = 4096 * (unat c div 4096)" for c
    by (simp add: unat_frame_of minus_mod_eq_mult_div)
  have d: "unat (dir_index c) = unat c div 4096 div 1024" for c
    by (simp add: unat_dir_index div_mult2_eq [symmetric])
  have e: "x = y \<longleftrightarrow> x div 1024 = y div 1024 \<and> x mod 1024 = y mod (1024 :: nat)" for x y
    by (metis div_mult_mod_eq)
  show ?thesis unfolding word_unat_eq_iff q d unat_tab_index
    using e [of "unat a div 4096" "unat b div 4096"] by simp
qed

text \<open>Writing one page table entry through the window.\<close>

definition set_pte :: "u32 \<Rightarrow> u32 \<Rightarrow> vm \<Rightarrow> vm" where
  "set_pte addr w s = phys_write (table s (unat (dir_index addr))) (unat (tab_index addr)) w s"

lemma set_pte_run:
  assumes "vm_ok s" and "unat (dir_index addr) < 1023" and "present (dir_entry s (unat (dir_index addr)))"
  shows "virt_write (pt_base (dir_index addr) + 4 * tab_index addr) w s = Some (set_pte addr w s)"
  unfolding set_pte_def
  by (rule pt_window(2)) (use assms in \<open>simp_all add: vm_ok_def unat_tab_index\<close>)

lemma set_pte_ok:
  assumes ok: "vm_ok s1" and d: "unat (dir_index addr) < 1023" and pr: "present (dir_entry s1 (unat (dir_index addr)))"
    and p: "aligned physical" and flags: "unat flags < 4096" "present flags"
  defines "s2 \<equiv> set_pte addr (physical OR flags) s1"
  shows "vm_ok s2 \<and> room s2 = room s1 \<and>
    (\<forall>va. unat (dir_index va) < 1023 \<longrightarrow>
      translate s2 va = (if frame_of va = frame_of addr then Some (physical + page_offset va) else translate s1 va))"
proof -
  let ?i = "unat (dir_index addr)" and ?j = "unat (tab_index addr)"
  define f where "f = table s1 ?i"
  have s2: "s2 = phys_write f ?j (physical OR flags) s1" by (simp add: s2_def set_pte_def f_def)
  have al: "aligned (cr3 s1)" using ok by (simp add: vm_ok_def)
  have ti: "?i \<in> tables s1" using pr d by (simp add: tables_def)
  then have ne: "f \<noteq> cr3 s1" using ok by (auto simp: vm_ok_def f_def)
  have dir: "dir_entry s2 k = dir_entry s1 k" for k using ne dir_entry_write [OF al] by (simp add: s2)
  have tab: "table s2 = table s1" "tables s2 = tables s1" "missing s2 = missing s1"
    by (simp_all add: fun_eq_iff table_def tables_def missing_def dir)
  have fields: "cr3 s2 = cr3 s1" "vm_frames s2 = vm_frames s1" "free_frame s2 = free_frame s1" by (simp_all add: s2)
  have "vm_ok s2" "room s2 = room s1" using ok by (simp_all add: vm_ok_def tab dir fields room_def)
  moreover have "translate s2 va = (if frame_of va = frame_of addr then Some (physical + page_offset va) else translate s1 va)"
    if va: "unat (dir_index va) < 1023" for va
  proof (cases "frame_of va = frame_of addr")
    case True
    then have "dir_index va = dir_index addr" "tab_index va = tab_index addr" using same_page by simp_all
    moreover have "unat (page_offset va) < 4096" by (simp add: unat_page_offset)
    ultimately show ?thesis
      using True pr present_join [OF p, of flags] join(3) [OF p flags(1)] join(1) [OF p, of "page_offset va"] flags(2)
      by (simp add: translate_def dir) (simp add: s2 phys_write_def table_def f_def)
  next
    case False
    have "phys s2 (table s1 (unat (dir_index va))) (unat (tab_index va)) = phys s1 (table s1 (unat (dir_index va))) (unat (tab_index va))"
      if "present (dir_entry s1 (unat (dir_index va)))"
    proof -
      from that va have "unat (dir_index va) \<in> tables s1" by (simp add: tables_def)
      then have "table s1 (unat (dir_index va)) = f \<longleftrightarrow> unat (dir_index va) = ?i"
        using ti ok by (auto simp: vm_ok_def inj_on_def f_def)
      moreover have "unat (dir_index va) \<noteq> ?i \<or> unat (tab_index va) \<noteq> ?j"
        using False same_page [of va addr] by (simp add: word_unat_eq_iff)
      ultimately show ?thesis by (auto simp: s2 phys_write_def)
    qed
    then have "translate s2 va = translate s1 va"
      by (cases "present (dir_entry s1 (unat (dir_index va)))") (simp_all add: translate_def dir table_def Let_def)
    with False show ?thesis by simp
  qed
  ultimately show ?thesis by blast
qed

text \<open>What \<open>map_page\<close> does to the address space below the window.\<close>

lemma map_page_ok:
  assumes ok: "vm_ok s" and room: "room s" and d: "unat (dir_index addr) < 1023"
    and p: "aligned physical" and flags: "unat flags < 4096" "present flags"
  shows "\<exists>s'. map_page addr physical flags s = Some s' \<and> vm_ok s' \<and> room s' \<and>
    (\<forall>va. unat (dir_index va) < 1023 \<longrightarrow>
      translate s' va = (if frame_of va = frame_of addr then Some (physical + page_offset va) else translate s va))"
proof -
  obtain s1 where s1: "ensure_table (dir_index addr) s = Some s1" "vm_ok s1" "room s1"
      "present (dir_entry s1 (unat (dir_index addr)))" "\<And>va. unat (dir_index va) < 1023 \<Longrightarrow> translate s1 va = translate s va"
    using ensure_table_ok [OF ok room d] by blast
  have "map_page addr physical flags s = Some (set_pte addr (physical OR flags) s1)"
    using s1(1) set_pte_run [OF s1(2) d s1(4)] by (simp add: map_page_def dir_index_def tab_index_def)
  with set_pte_ok [OF s1(2) d s1(4) p flags] s1(3,5) show ?thesis by auto
qed

subsection \<open>The loop\<close>

lemma below_window: "unat va < 0xFFC00000 \<longleftrightarrow> unat (dir_index va) < 1023"
  by (simp add: unat_dir_index div_less_iff_less_mult)

lemma aligned_next: "aligned p \<Longrightarrow> aligned (p + 4096)"
proof -
  assume "aligned p"
  then have "(unat p + 4096) mod 4096 = 0" by (simp add: aligned_def)
  moreover have "unat (p + 4096) = (unat p + 4096) mod 2 ^ 32" by (simp add: unat_word_ariths)
  ultimately show ?thesis using mod_mod_cancel [of 4096 "2 ^ 32" "unat p + 4096"] by (simp add: aligned_def)
qed

lemma page_of:
  assumes "aligned a" and "unat (a + 4096) = unat a + 4096"
  shows "frame_of va = a \<longleftrightarrow> a \<le> va \<and> \<not> a + 4096 \<le> va"
proof -
  obtain q where q: "unat a = 4096 * q" using assms(1) by (auto simp: aligned_def mod_eq_0_iff_dvd)
  have "x = q \<longleftrightarrow> q \<le> x \<and> x < q + 1" for x by auto
  then have "unat va div 4096 = q \<longleftrightarrow> q * 4096 \<le> unat va \<and> unat va < (q + 1) * 4096"
    by (simp only: less_eq_div_iff_mult_less_eq div_less_iff_less_mult zero_less_numeral)
  then show ?thesis
    by (simp add: word_unat_eq_iff word_le_nat_alt unat_frame_of minus_mod_eq_mult_div q assms(2) not_le mult.commute add.commute)
qed

lemma map_loop_ok:
  assumes "vm_ok s" "room s" "aligned physical" "unat flags < 4096" "present flags"
    and "aligned addr" "unat end \<le> 0xFFC00000"
  shows "\<exists>s'. map_loop addr end physical flags s = Some s' \<and> vm_ok s' \<and>
    (\<forall>va. unat va < 0xFFC00000 \<longrightarrow>
      translate s' va = (if addr \<le> va \<and> frame_of va < end then Some (physical + (va - addr)) else translate s va))"
  using assms
proof (induction "unat end - unat addr" arbitrary: addr physical s rule: less_induct)
  case less
  show ?case
  proof (cases "addr < end")
    case False
    have "frame_of va < end \<Longrightarrow> \<not> addr \<le> va" for va
    proof
      assume "frame_of va < end" "addr \<le> va"
      then have "frame_of addr \<le> frame_of va"
        by (simp add: word_le_nat_alt unat_frame_of minus_mod_eq_mult_div div_le_mono)
      with frame_of_aligned [OF less.prems(6)] \<open>frame_of va < end\<close> False show False by auto
    qed
    with False less.prems(1) show ?thesis by (subst map_loop.simps) auto
  next
    case True
    then have lt: "unat addr < unat end" by (simp add: word_less_nat_alt)
    have hi: "unat addr + 4096 \<le> 0xFFC00000"
    proof -
      obtain q where "unat addr = 4096 * q" using less.prems(6) by (auto simp: aligned_def mod_eq_0_iff_dvd)
      with lt less.prems(7) have "4096 * q < 4096 * 1047552" by simp
      then have "q + 1 \<le> 1047552" by simp
      then have "4096 * (q + 1) \<le> 4096 * 1047552" by (rule mult_le_mono2)
      then show ?thesis using \<open>unat addr = 4096 * q\<close> by simp
    qed
    have u: "unat (addr + 4096) = unat addr + 4096"
      using hi by (simp add: unat_word_ariths)
    have al: "aligned (addr + 4096)" "aligned (physical + 4096)"
      using less.prems(3,6) by (simp_all add: aligned_next)
    have d: "unat (dir_index addr) < 1023" using hi below_window [of addr] by simp
    obtain s1 where s1: "map_page addr physical flags s = Some s1" "vm_ok s1" "room s1"
        "\<And>va. unat (dir_index va) < 1023 \<Longrightarrow>
          translate s1 va = (if frame_of va = frame_of addr then Some (physical + page_offset va) else translate s va)"
      using map_page_ok [OF less.prems(1,2) d less.prems(3-5)] by blast
    have "unat end - unat (addr + 4096) < unat end - unat addr" using u lt by simp
    from less.hyps [OF this s1(2,3) al(2) less.prems(4,5) al(1) less.prems(7)]
    obtain s' where s': "map_loop (addr + 4096) end (physical + 4096) flags s1 = Some s'" "vm_ok s'"
        "\<And>va. unat va < 0xFFC00000 \<Longrightarrow>
          translate s' va = (if addr + 4096 \<le> va \<and> frame_of va < end then Some (physical + 4096 + (va - (addr + 4096))) else translate s1 va)"
      by blast
    have "translate s' va = (if addr \<le> va \<and> frame_of va < end then Some (physical + (va - addr)) else translate s va)"
      if va: "unat va < 0xFFC00000" for va
    proof -
      have fa: "frame_of addr = addr" by (rule frame_of_aligned [OF less.prems(6)])
      have fv: "frame_of va = addr \<longleftrightarrow> addr \<le> va \<and> \<not> addr + 4096 \<le> va"
        using page_of [OF less.prems(6)] u by simp
      have "page_offset va = va - addr" if "frame_of va = addr"
        using frame_offset(1) [of va] that by (simp add: eq_diff_eq add.commute)
      then show ?thesis using s'(3) [OF va] s1(4) [of va] va below_window [of va] fa fv True
        by (auto simp: word_le_nat_alt u)
    qed
    with s1(1) s'(1,2) True show ?thesis by (subst map_loop.simps) auto
  qed
qed

text \<open>The loop does not end when its end is in the last page behind an address it visits.\<close>

lemma map_loop_diverges:
  assumes "0xFFFFF000 + page_offset addr < end"
  shows "map_loop addr end physical flags s = None"
proof -
  have "0xFFFFF000 + page_offset addr < end \<longrightarrow> False" if "map_loop addr end physical flags s = Some s'" for s'
  proof (rule map_loop.raw_induct [OF _ that])
    fix loop addr "end" physical flags s s'
    assume ih: "\<And>addr end physical flags s s'. loop addr end physical flags s = Some s' \<Longrightarrow> 0xFFFFF000 + page_offset addr < end \<longrightarrow> False"
      and run: "(if addr < end then do { s1 \<leftarrow> map_page addr physical flags s; loop (addr + 4096) end (physical + 4096) flags s1 } else Some s) = Some s'"
    show "0xFFFFF000 + page_offset addr < end \<longrightarrow> False"
    proof
      assume e: "0xFFFFF000 + page_offset addr < end"
      have u: "unat (0xFFFFF000 + page_offset addr) = 0xFFFFF000 + unat addr mod 4096"
        by (simp add: unat_word_ariths unat_page_offset)
      have "unat addr = 4096 * (unat addr div 4096) + unat addr mod 4096" by simp
      moreover have "unat addr div 4096 \<le> 1048575" by (simp add: less_mult_imp_div_less flip: less_Suc_eq_le)
      ultimately have "unat addr \<le> 0xFFFFF000 + unat addr mod 4096" by linarith
      with e u have "addr < end" by (simp add: word_less_nat_alt)
      then obtain s1 where "loop (addr + 4096) end (physical + 4096) flags s1 = Some s'"
        using run by (auto simp: bind_eq_Some_conv)
      moreover have "page_offset (addr + 4096) = page_offset addr"
      proof -
        have "unat (addr + 4096) = (unat addr + 4096) mod 2 ^ 32" by (simp add: unat_word_ariths)
        then show ?thesis using mod_mod_cancel [of 4096 "2 ^ 32" "unat addr + 4096"]
          by (simp add: word_unat_eq_iff unat_page_offset)
      qed
      ultimately show False using ih e by metis
    qed
  qed
  then show ?thesis using assms by (cases "map_loop addr end physical flags s") auto
qed

subsection \<open>Properties\<close>

text \<open>
  C20: mapping a range maps exactly that range. With the page directory in its own last entry, page
  tables that are frames of their own, as many free frames as missing page tables, and flags that lie in
  the low 12 bits and include the present bit, \<open>vmm_map\<close> of aligned addresses below the window of the
  page tables ends without a fault; afterwards every
  address of the pages from \<open>virtual\<close> to \<open>virtual + size\<close> translates to the physical address with the
  same distance, every other address below the window translates as before (also where new page
  tables were needed), and the directory keeps its form.
\<close>

theorem vmm_map_translates:
  assumes "vm_ok s" and "room s" and "aligned virtual" and "aligned physical"
    and "unat flags < 4096" and "present flags" and "unat virtual + unat sz \<le> 0xFFC00000"
  shows "\<exists>s'. vmm_map virtual physical sz flags s = Some s' \<and> vm_ok s' \<and>
    (\<forall>va. unat va < 0xFFC00000 \<longrightarrow> translate s' va =
      (if virtual \<le> va \<and> frame_of va < virtual + sz then Some (physical + (va - virtual)) else translate s va))"
proof -
  have "unat (virtual + sz) = unat virtual + unat sz" using assms(7) unat_add_lem [of virtual sz] by simp
  with assms(7) have "unat (virtual + sz) \<le> 0xFFC00000" by simp
  from map_loop_ok [OF assms(1,2,4,5,6,3) this] show ?thesis by (simp add: vmm_map_def)
qed

text \<open>An address space with nothing but the window.\<close>

definition demo_vm :: vm where
  "demo_vm = \<lparr>cr3 = 0x1000, phys = (\<lambda>f k. if f = 0x1000 \<and> k = 1023 then 0x1003 else 0), vm_frames = demo_mm\<rparr>"

lemma demo_mm_aligned: "aligned (phys_limit_start demo_mm)"
  by (simp add: demo_mm_def aligned_def)

lemma demo_free: "free_frame demo_vm a \<longleftrightarrow> (\<exists>k < 1024. a = frame_addr demo_mm k)"
proof -
  have "unat (total_pages demo_mm) = 1024" by (simp add: demo_mm_def)
  moreover have "page_free demo_mm k" if "k < 1024" for k
    using that by (simp add: page_free_def page_used_def page_locked_def demo_mm_def)
  moreover have "vm_frames demo_vm = demo_mm" by (simp add: demo_vm_def)
  ultimately show ?thesis by (auto simp: free_frame_def)
qed

lemma demo_vm_dir: "dir_entry demo_vm i = (if i = 1023 then 0x1003 else 0)"
  by (simp add: dir_entry_def demo_vm_def frame_of_def)

lemma demo_vm_ok: "vm_ok demo_vm" "room demo_vm"
proof -
  have pages: "unat (total_pages demo_mm) = 1024" "unat (phys_limit_start demo_mm) = 0x100000" by (simp_all add: demo_mm_def)
  have u: "k < 1024 \<Longrightarrow> unat (frame_addr demo_mm k) = k * 4096 + 0x100000" for k
    using unat_frame_addr [OF demo_mm_ok, of k] by (simp add: pages)
  have c: "unat (cr3 demo_vm) = 0x1000" "aligned (cr3 demo_vm)" by (simp_all add: demo_vm_def aligned_def)
  have nf: "\<not> free_frame demo_vm (cr3 demo_vm)" unfolding demo_free using u c(1) by auto
  have t: "tables demo_vm = {}" by (auto simp: tables_def demo_vm_dir present_def)
  show "vm_ok demo_vm"
    using demo_mm_ok demo_mm_aligned c(2) nf by (simp add: vm_ok_def t table_def demo_vm_dir) (simp add: demo_vm_def frame_of_def present_def PAGE_PRESENT_def)
  have "inj_on (frame_addr demo_mm) {..<1024}"
  proof (rule inj_onI)
    fix x y
    assume xy: "x \<in> {..<1024 :: nat}" "y \<in> {..<1024}" and e: "frame_addr demo_mm x = frame_addr demo_mm y"
    from e have "x * 4096 + 0x100000 = y * 4096 + 0x100000" using u [of x] u [of y] xy by (metis lessThan_iff)
    then show "x = y" by simp
  qed
  then have "card (frame_addr demo_mm ` {..<1024}) = 1024" by (simp add: card_image)
  moreover have "Collect (free_frame demo_vm) = frame_addr demo_mm ` {..<1024}" unfolding demo_free by auto
  moreover have "card (missing demo_vm) \<le> card {..<1023 :: nat}" by (rule card_mono) (auto simp: missing_def)
  ultimately show "room demo_vm" by (simp add: room_def)
qed

lemma demo_translate: "unat (dir_index va) < 1023 \<Longrightarrow> translate demo_vm va = None"
  by (simp add: translate_def demo_vm_dir present_def)

text \<open>Two pages of a frame buffer at \<open>0x70000000\<close>.\<close>

theorem vmm_map_translates_witness:
  "\<exists>s'. vmm_map 0x70000000 0xFD000000 0x2000 7 demo_vm = Some s' \<and>
     translate s' 0x70001004 = Some 0xFD001004 \<and> translate s' 0x70002000 = None"
proof -
  have "aligned 0x70000000" "aligned 0xFD000000" "present 7" by (simp_all add: aligned_def present_def PAGE_PRESENT_def)
  then obtain s' where s': "vmm_map 0x70000000 0xFD000000 0x2000 7 demo_vm = Some s'"
      "\<And>va. unat va < 0xFFC00000 \<Longrightarrow> translate s' va =
        (if 0x70000000 \<le> va \<and> frame_of va < 0x70002000 then Some (0xFD000000 + (va - 0x70000000)) else translate demo_vm va)"
    using vmm_map_translates [OF demo_vm_ok, of "0x70000000" "0xFD000000" 7 "0x2000"] by auto
  have "translate s' 0x70001004 = Some 0xFD001004"
    using s'(2) [of "0x70001004"] by (simp add: frame_of_def)
  moreover have "translate s' 0x70002000 = None"
    using s'(2) [of "0x70002000"] demo_translate [of "0x70002000"] by (simp add: frame_of_def unat_dir_index)
  ultimately show ?thesis using s'(1) by blast
qed

text \<open>
  On an address space as above, \<open>vmm_map\<close> on a range below the window comes to its end; on a range that
  ends behind the start of the last page of the address space it does not, because the address wraps to
  0 below the end of the range (the run then goes on for ever, or ends in a page fault on its way).
\<close>

theorem vmm_map_ends:
  assumes "vm_ok s" and "room s" and "aligned virtual" and "aligned physical" and "unat flags < 4096" and "present flags"
  shows "(unat virtual + unat sz \<le> 0xFFC00000 \<longrightarrow> vmm_map virtual physical sz flags s \<noteq> None) \<and>
    (0xFFFFF000 < virtual + sz \<longrightarrow> vmm_map virtual physical sz flags s = None)"
proof (intro conjI impI)
  assume le: "unat virtual + unat sz \<le> 0xFFC00000"
  then have "unat (virtual + sz) = unat virtual + unat sz" using unat_add_lem [of virtual sz] by simp
  with le have "unat (virtual + sz) \<le> 0xFFC00000" by simp
  from map_loop_ok [OF assms(1,2,4,5,6,3) this] show "vmm_map virtual physical sz flags s \<noteq> None" by (auto simp: vmm_map_def)
next
  assume "0xFFFFF000 < virtual + sz"
  moreover have "page_offset virtual = 0" using assms(3) by (simp add: word_unat_eq_iff unat_page_offset aligned_def)
  ultimately show "vmm_map virtual physical sz flags s = None" by (simp add: vmm_map_def map_loop_diverges)
qed

theorem vmm_map_ends_witness:
  "vmm_map 0x70000000 0xFD000000 0x2000 7 demo_vm \<noteq> None \<and> vmm_map 0xFFFFE000 0xFD000000 0x1800 7 demo_vm = None"
proof -
  have al: "aligned 0x70000000" "aligned 0xFFFFE000" "aligned 0xFD000000" "present 7" "unat (7 :: u32) < 4096"
    by (simp_all add: aligned_def present_def PAGE_PRESENT_def)
  have "unat (0x70000000 :: u32) + unat (0x2000 :: u32) \<le> 0xFFC00000" by simp
  then have "vmm_map 0x70000000 0xFD000000 0x2000 7 demo_vm \<noteq> None"
    using vmm_map_ends [OF demo_vm_ok al(1,3,5,4), of "0x2000"] by blast
  moreover have "0xFFFFF000 < (0xFFFFE000 + 0x1800 :: u32)" by simp
  then have "vmm_map 0xFFFFE000 0xFD000000 0x1800 7 demo_vm = None"
    using vmm_map_ends [OF demo_vm_ok al(2,3,5,4), of "0x1800"] by blast
  ultimately show ?thesis by blast
qed

subsection \<open>Copy on write\<close>

text \<open>Writing to a frame that is no page table leaves the translation alone.\<close>

lemma data_write:
  assumes ok: "vm_ok s" and f: "free_frame s f" and mm: "mm_ok mm'" "phys_limit_start mm' = phys_limit_start (vm_frames s)"
      "Collect (free_frame (s\<lparr>vm_frames := mm'\<rparr>)) = Collect (free_frame s) - {f}"
    and t_def: "t = s\<lparr>vm_frames := mm', phys := (phys s)(f := g)\<rparr>"
  shows "vm_ok t \<and> (\<forall>i. dir_entry t i = dir_entry s i) \<and>
    (\<forall>va. unat (dir_index va) < 1023 \<longrightarrow> translate t va = translate s va)"
proof -
  have ne: "f \<noteq> cr3 s" "\<And>i. i \<in> tables s \<Longrightarrow> table s i \<noteq> f" using ok f by (auto simp: vm_ok_def)
  have dir: "dir_entry t i = dir_entry s i" for i using ok ne(1) by (simp add: t_def dir_entry_cr3 vm_ok_def)
  have tab: "table t = table s" "tables t = tables s" by (simp_all add: fun_eq_iff table_def tables_def dir)
  have fields: "cr3 t = cr3 s" "vm_frames t = mm'" by (simp_all add: t_def)
  have "free_frame t a = free_frame (s\<lparr>vm_frames := mm'\<rparr>) a" for a by (simp add: free_frame_def t_def)
  then have "free_frame t a \<Longrightarrow> free_frame s a" for a using mm(3) by blast
  then have "vm_ok t" using ok mm(1,2) unfolding vm_ok_def tab dir fields by auto
  moreover have "translate t va = translate s va" if "unat (dir_index va) < 1023" for va
  proof (cases "present (dir_entry s (unat (dir_index va)))")
    case True
    then have "table s (unat (dir_index va)) \<noteq> f" using that ne(2) by (simp add: tables_def)
    then show ?thesis by (simp add: translate_def dir) (simp add: t_def table_def)
  qed (simp add: translate_def dir)
  ultimately show ?thesis using dir by blast
qed

definition maps_page :: "vm \<Rightarrow> u32 \<Rightarrow> u32 \<Rightarrow> bool" where
  "maps_page s page f \<longleftrightarrow> aligned page \<and> aligned f \<and>
     (\<forall>k < 1024. unat (dir_index (page + of_nat (4 * k))) < 1023 \<and> translate s (page + of_nat (4 * k)) = Some (f OR 4 * of_nat k))"

lemma virt_copy_run:
  assumes ok: "vm_ok s" and f: "free_frame s f" and mm: "mm_ok mm'" "phys_limit_start mm' = phys_limit_start (vm_frames s)"
      "Collect (free_frame (s\<lparr>vm_frames := mm'\<rparr>)) = Collect (free_frame s) - {f}"
    and dst: "maps_page s f f" and src: "maps_page s page old" and old: "old \<noteq> f"
  shows "virt_copy f page (s\<lparr>vm_frames := mm'\<rparr>) =
    Some (s\<lparr>vm_frames := mm', phys := (phys s)(f := (\<lambda>k. if k < 1024 then phys s old k else phys s f k))\<rparr>)"
proof -
  let ?t = "\<lambda>j. s\<lparr>vm_frames := mm', phys := (phys s)(f := (\<lambda>k. if k < j then phys s old k else phys s f k))\<rparr>"
  have al: "aligned f" "aligned old" using dst src by (simp_all add: maps_page_def)
  have "\<exists>t. virt_copy f page (s\<lparr>vm_frames := mm'\<rparr>) = Some t \<and> t = ?t 1024"
    unfolding virt_copy_def
  proof (rule for_up_rule [where I = "\<lambda>j t. t = ?t j"])
    fix j t
    assume j: "j < (1024 :: nat)" and t: "t = ?t j"
    have ix: "unat (of_nat j :: u32) = j" using j by (simp add: unat_of_nat take_bit_eq_mod)
    then have jj: "unat (of_nat j :: u32) < 1024" using j by simp
    note same = data_write [OF ok f mm t]
    have "translate t (page + of_nat (4 * j)) = Some (old OR 4 * of_nat j)" "translate t (f + of_nat (4 * j)) = Some (f OR 4 * of_nat j)"
      using same src dst j by (simp_all only: maps_page_def)
    then have "virt_read (page + of_nat (4 * j)) t = Some (phys t old j)"
        "virt_write (f + of_nat (4 * j)) w t = Some (phys_write f j w t)" for w
      using word_index_join [OF al(2) jj] word_index_join [OF al(1) jj] ix by (simp_all only: virt_read_def virt_write_def option.map)
    moreover have "phys t old j = phys s old j" using old by (simp add: t)
    moreover have "phys_write f j (phys s old j) t = ?t (Suc j)"
      by (simp add: t phys_write_def fun_eq_iff less_Suc_eq)
    ultimately show "\<exists>t'. (do { w \<leftarrow> virt_read (page + of_nat (4 * j)) t; virt_write (f + of_nat (4 * j)) w t }) = Some t' \<and> t' = ?t (Suc j)"
      by simp
  qed (simp_all add: fun_upd_idem)
  then show ?thesis by simp
qed

text \<open>The pages of a mapped page.\<close>

lemma maps_pageI:
  assumes va: "unat (dir_index va) < 1023" and pr: "present (dir_entry s (unat (dir_index va)))"
    and pte: "pte = phys s (table s (unat (dir_index va))) (unat (tab_index va))" "present pte"
  shows "maps_page s (frame_of va) (frame_of pte)"
proof -
  have "unat (dir_index w) < 1023 \<and> translate s w = Some (frame_of pte OR 4 * of_nat k)"
    if k: "k < 1024" and w: "w = frame_of va + of_nat (4 * k)" for k w
  proof -
    have ix: "unat (of_nat k :: u32) = k" using k by (simp add: unat_of_nat take_bit_eq_mod)
    have e: "of_nat (4 * k) = (4 * of_nat k :: u32)" by simp
    have o4: "unat (4 * of_nat k :: u32) < 4096" using k ix unat_mult4 [of "of_nat k"] by simp
    note j = join [OF aligned_frame_of o4, of va]
    have "frame_of w = frame_of va" "page_offset w = 4 * of_nat k"
      using j(3,4) unfolding w e j(1) [symmetric] by simp_all
    then show ?thesis using same_page [of w va] va pr pte by (simp add: translate_def table_def)
  qed
  then show ?thesis by (simp add: maps_page_def)
qed

text \<open>
  a write fault on a shared page gives the task a private copy. When the frame allocator has a
  frame and its frames are mapped at their own addresses, the handler, called with the address of
  the page table entry, makes the page writable on a fresh frame with the same contents; the old
  frame and all other translations below the window stay.
\<close>

theorem cow_makes_copy:
  assumes ok: "vm_ok s" and free: "Collect (free_frame s) \<noteq> {}"
    and ident: "\<And>f. free_frame s f \<Longrightarrow> maps_page s f f"
    and va: "unat (dir_index fault) < 1023" and pr: "present (dir_entry s (unat (dir_index fault)))"
    and pte: "pte = phys s (table s (unat (dir_index fault))) (unat (tab_index fault))" "present pte"
    and old: "\<not> free_frame s (frame_of pte)" "frame_of pte \<notin> table s ` tables s"
  shows "\<exists>s' f. vmm_handle_cow fault (pt_base (dir_index fault) + 4 * tab_index fault) s = Some s' \<and> free_frame s f \<and>
    \<not> free_frame s' f \<and> translate s' fault = Some (f + page_offset fault) \<and>
    (\<forall>k < 1024. phys s' f k = phys s (frame_of pte) k) \<and> phys s' (frame_of pte) = phys s (frame_of pte) \<and>
    (\<forall>w. unat (dir_index w) < 1023 \<and> frame_of w \<noteq> frame_of fault \<longrightarrow> translate s' w = translate s w)"
proof -
  obtain f mm' where new: "new_frame s = Some (f, s\<lparr>vm_frames := mm'\<rparr>)" and f: "aligned f" "free_frame s f"
      and mm: "mm_ok mm'" "phys_limit_start mm' = phys_limit_start (vm_frames s)"
        "Collect (free_frame (s\<lparr>vm_frames := mm'\<rparr>)) = Collect (free_frame s) - {f}"
    using new_frame_ok [of s] ok free by (auto simp: vm_ok_def)
  define g where "g = (\<lambda>k. if k < 1024 then phys s (frame_of pte) k else phys s f k)"
  define t where "t = s\<lparr>vm_frames := mm', phys := (phys s)(f := g)\<rparr>"
  have tok: "vm_ok t" and dir: "\<And>i. dir_entry t i = dir_entry s i"
    and tr: "\<And>w. unat (dir_index w) < 1023 \<Longrightarrow> translate t w = translate s w"
    using data_write [OF ok f(2) mm t_def] by simp_all
  have ne: "frame_of pte \<noteq> f" using old(1) f(2) by auto
  have al: "aligned (cr3 s)" "table s 1023 = cr3 s" "present (dir_entry s 1023)" using ok by (simp_all add: vm_ok_def)
  have j: "unat (dir_index fault) < 1024" "unat (tab_index fault) < 1024" using va by (simp_all add: unat_tab_index)
  have rd: "virt_read (pt_base (dir_index fault) + 4 * tab_index fault) s \<noteq> None"
    using pt_window(1) [OF al pr j] by simp
  have cp: "virt_copy f (frame_of fault) (s\<lparr>vm_frames := mm'\<rparr>) = Some t"
    using virt_copy_run [OF ok f(2) mm ident [OF f(2)] maps_pageI [OF va pr pte] ne] by (simp add: t_def g_def)
  have e: "f OR PAGE_PRESENT OR PAGE_RW OR PAGE_USER = f OR 7" by (simp add: PAGE_PRESENT_def PAGE_RW_def PAGE_USER_def)
  let ?s' = "set_pte fault (f OR 7) t"
  have prt: "present (dir_entry t (unat (dir_index fault)))" using pr dir by simp
  have "vmm_handle_cow fault (pt_base (dir_index fault) + 4 * tab_index fault) s = Some ?s'"
    using rd new cp set_pte_run [OF tok va prt] by (auto simp: vmm_handle_cow_def e frame_of_def [symmetric])
  moreover have "present 7" "unat (7 :: u32) < 4096" by (simp_all add: present_def PAGE_PRESENT_def)
  note fin = set_pte_ok [OF tok va prt f(1) this(2,1)]
  have tb: "table t (unat (dir_index fault)) = table s (unat (dir_index fault))" by (simp add: table_def dir)
  have ti: "unat (dir_index fault) \<in> tables s" using pr va by (simp add: tables_def)
  have nt: "table s (unat (dir_index fault)) \<noteq> f" "table s (unat (dir_index fault)) \<noteq> frame_of pte"
    using ok f(2) ti old(2) by (auto simp: vm_ok_def) (metis imageI)
  have "phys ?s' f = g" "phys ?s' (frame_of pte) = phys s (frame_of pte)"
    using nt ne by (simp_all add: set_pte_def phys_write_def tb) (simp_all add: t_def)
  moreover have "\<not> free_frame ?s' f"
    using mm(3) by (auto simp: set_pte_def t_def free_frame_def set_eq_iff)
  ultimately show ?thesis using f(2) fin va tr by (intro exI [of _ ?s'] exI [of _ f]) (simp add: g_def)
qed

text \<open>
  An address space with one free frame, mapped at its own address, and a shared page at \<open>0x5000\<close>.
\<close>

definition cow_vm :: vm where
  "cow_vm = \<lparr>cr3 = 0x1000,
     phys = (\<lambda>f k. if f = 0x1000 then (if k = 0 then 0x2007 else if k = 1023 then 0x1003 else 0)
                   else if f = 0x2000 then (if k = 5 then 0x6205 else if k = 256 then 0x100003 else 0)
                   else of_nat k),
     vm_frames = demo_mm\<lparr>total_pages := 1\<rparr>\<rparr>"

lemma cow_mm_ok: "mm_ok (demo_mm\<lparr>total_pages := 1\<rparr>)"
  by (simp add: mm_ok_def mm_wf_def demo_mm_def BITMAP_SIZE_def)

lemma cow_free: "free_frame cow_vm a \<longleftrightarrow> a = 0x100000"
proof -
  have "page_free (demo_mm\<lparr>total_pages := 1\<rparr>) 0"
    by (simp add: page_free_def page_used_def page_locked_def demo_mm_def)
  moreover have "frame_addr (demo_mm\<lparr>total_pages := 1\<rparr>) 0 = 0x100000" by (simp add: frame_addr_def demo_mm_def)
  ultimately show ?thesis by (simp add: free_frame_def cow_vm_def)
qed

lemma cow_dir: "dir_entry cow_vm i = (if i = 0 then 0x2007 else if i = 1023 then 0x1003 else 0)"
  by (simp add: dir_entry_def cow_vm_def frame_of_def)

lemma cow_tables: "tables cow_vm = {0}" "table cow_vm 0 = 0x2000"
  by (auto simp: tables_def table_def cow_dir present_def PAGE_PRESENT_def frame_of_def)

lemma cow_vm_ok: "vm_ok cow_vm"
proof -
  have "aligned (phys_limit_start (vm_frames cow_vm))" "aligned (cr3 cow_vm)" "mm_ok (vm_frames cow_vm)" "cr3 cow_vm = 0x1000"
    using cow_mm_ok by (simp_all add: cow_vm_def demo_mm_def aligned_def)
  moreover have "table cow_vm 1023 = 0x1000" "present (dir_entry cow_vm 1023)"
    by (simp_all add: table_def cow_dir frame_of_def present_def PAGE_PRESENT_def)
  ultimately show ?thesis by (simp add: vm_ok_def cow_free cow_tables)
qed

lemma cow_pte: "phys cow_vm 0x2000 5 = 0x6205" "phys cow_vm 0x2000 256 = 0x100003" "phys cow_vm 0x6000 k = of_nat k"
  by (simp_all add: cow_vm_def)

theorem cow_makes_copy_witness:
  "\<exists>s'. vmm_handle_cow 0x5010 0xFFC00014 cow_vm = Some s' \<and> translate s' 0x5010 = Some 0x100010 \<and> phys s' 0x100000 3 = 3"
proof -
  have d: "dir_index 0x5010 = 0" "tab_index 0x5010 = 5" "page_offset 0x5010 = 0x10" "dir_index 0x100000 = 0" "tab_index 0x100000 = 256"
      "frame_of 0x100000 = 0x100000" "frame_of 0x100003 = 0x100000" "frame_of 0x6205 = 0x6000"
    by (simp_all add: dir_index_def tab_index_def page_offset_def frame_of_def)
  have pr: "present (dir_entry cow_vm 0)" "present 0x6205" "present 0x100003"
    by (simp_all add: cow_dir present_def PAGE_PRESENT_def)
  have pr0: "present (dir_entry cow_vm (unat (dir_index 0x5010)))" "present (dir_entry cow_vm (unat (dir_index 0x100000)))"
    using pr(1) by (simp_all add: d)
  have "maps_page cow_vm (frame_of 0x100000) (frame_of 0x100003)"
    by (rule maps_pageI [OF _ pr0(2) _ pr(3)]) (simp_all add: d cow_tables cow_pte)
  then have ident: "free_frame cow_vm f \<Longrightarrow> maps_page cow_vm f f" for f by (simp add: cow_free d)
  have free: "Collect (free_frame cow_vm) \<noteq> {}" by (auto simp: cow_free)
  have old: "\<not> free_frame cow_vm (frame_of 0x6205)" "frame_of 0x6205 \<notin> table cow_vm ` tables cow_vm"
    by (simp_all add: d cow_free cow_tables)
  have pte: "0x6205 = phys cow_vm (table cow_vm (unat (dir_index 0x5010))) (unat (tab_index 0x5010))" "unat (dir_index 0x5010) < 1023"
    by (simp_all add: d cow_tables cow_pte)
  have e: "pt_base (dir_index 0x5010) + 4 * tab_index 0x5010 = 0xFFC00014" by (simp add: pt_base_def d)
  obtain s' f where "vmm_handle_cow 0x5010 0xFFC00014 cow_vm = Some s'" and f: "free_frame cow_vm f"
      and "translate s' 0x5010 = Some (f + page_offset 0x5010)" "\<forall>k < 1024. phys s' f k = phys cow_vm (frame_of 0x6205) k"
    using cow_makes_copy [OF cow_vm_ok free ident pte(2) pr0(1) pte(1) pr(2) old] unfolding e by blast
  then show ?thesis unfolding d cow_free by (auto simp: cow_pte)
qed

end
