(* ===== verification/Task.thy ===== *)
theory Task
  imports Page_Source CString_Copy
begin

text \<open>
  Tasks: creation (\<open>kernel/task.c\<close>, with the initial stack of \<open>arch/x86/arch.c\<close>), the round-robin
  scheduler (\<open>kernel/sched.c\<close>), termination (\<open>kernel/process.c\<close>) and the pledge sandbox
  (\<open>kernel/security.c\<close>). Task structures are in a store; the stacks are words of memory. Boot
  messages and the log are left out.
\<close>

definition STACK_SIZE :: u32 where "STACK_SIZE = 8192"
definition MAX_UNVEIL_RULES :: nat where "MAX_UNVEIL_RULES = 16"
definition MAX_TASKS :: nat where "MAX_TASKS = 32"

datatype task_state = READY | RUNNING | SLEEPING | ZOMBIE

record unveil_rule =
  u_path :: "char list"
  u_permissions :: u32
  u_active :: bool

record task =
  t_esp :: u32
  t_pid :: u32
  t_state :: task_state
  t_exit_code :: int
  t_name :: "char list"
  t_fpu :: "u8 list"
  t_stack_base :: u32
  t_pending_signals :: u32
  t_signal_handlers :: "u32 list"
  t_tf :: u32
  t_fds :: "int list"
  t_pledge_active :: bool
  t_pledge_mask :: u32
  t_unveil_rules :: "unveil_rule list"
  t_unveil_count :: u32

text \<open>After \<open>memset(t, 0, sizeof(task_t))\<close>; the structure has 2960 bytes.\<close>

definition zero_task :: task where
  "zero_task = \<lparr>t_esp = 0, t_pid = 0, t_state = READY, t_exit_code = 0, t_name = replicate 32 NUL, t_fpu = replicate 512 0,
     t_stack_base = 0, t_pending_signals = 0, t_signal_handlers = replicate 32 0, t_tf = 0, t_fds = replicate 16 0,
     t_pledge_active = False, t_pledge_mask = 0,
     t_unveil_rules = replicate MAX_UNVEIL_RULES \<lparr>u_path = replicate 128 NUL, u_permissions = 0, u_active = False\<rparr>,
     t_unveil_count = 0\<rparr>"

definition SIZEOF_TASK :: u32 where "SIZEOF_TASK = 2960"

record kernel =
  task_at :: "u32 \<Rightarrow> task option"
  current_task :: u32
  running_task :: u32
  next_pid :: u32
  ready_queue :: "u32 list"
  task_count :: nat
  current_idx :: nat
  k_words :: "u32 \<Rightarrow> u32"
  k_mm :: mm_state

subsection \<open>The scheduler\<close>

definition sched_init :: "kernel \<Rightarrow> kernel" where
  "sched_init s = s\<lparr>task_count := 0, current_idx := 0, current_task := 0\<rparr>"

definition sched_add_task :: "u32 \<Rightarrow> kernel \<Rightarrow> kernel option" where
  "sched_add_task task s =
     (if task_count s < MAX_TASKS
      then do { q \<leftarrow> wr (ready_queue s) (task_count s) task;
                Some (s\<lparr>ready_queue := q, task_count := task_count s + 1\<rparr>) }
      else Some s)"

definition schedule :: "kernel \<Rightarrow> kernel option" where
  "schedule s =
     (if task_count s = 0 then Some s
      else (let i = (current_idx s + 1) mod task_count s
            in do { t \<leftarrow> rd (ready_queue s) i; Some (s\<lparr>current_idx := i, current_task := t\<rparr>) }))"

definition yield :: "kernel \<Rightarrow> kernel option" where
  "yield s = schedule s"

definition get_current_task :: "kernel \<Rightarrow> u32" where
  "get_current_task s = running_task s"

text \<open>A call that returns, or one that stops the processor for good.\<close>

datatype 'r ending = Returns 'r | Halts

definition do_exit :: "int \<Rightarrow> kernel \<Rightarrow> (unit ending \<times> kernel) option" where
  "do_exit status s =
     (if current_task s = 0 then Some (Returns (), s)
      else do { t \<leftarrow> task_at s (current_task s);
                s1 \<leftarrow> schedule (s\<lparr>task_at := (task_at s)(current_task s \<mapsto> t\<lparr>t_state := ZOMBIE, t_exit_code := status\<rparr>)\<rparr>);
                Some (Halts, s1) })"

subsection \<open>Creation\<close>

definition init_task_fds :: "task \<Rightarrow> task" where
  "init_task_fds t = t\<lparr>t_fds := (replicate 16 (-1))[0 := 0, 1 := 1, 2 := 2]\<rparr>"

definition push_word :: "u32 \<Rightarrow> u32 \<times> (u32 \<Rightarrow> u32) \<Rightarrow> u32 \<times> (u32 \<Rightarrow> u32)" where
  "push_word w p = (fst p - 4, (snd p)(fst p - 4 := w))"

definition arch_prepare_stack :: "u32 \<Rightarrow> u32 \<Rightarrow> (u32 \<Rightarrow> u32) \<Rightarrow> u32 \<times> (u32 \<Rightarrow> u32)" where
  "arch_prepare_stack stack_top fn m =
     fold push_word [fn, 0, 0, 0, 0, 0, 0, 0, 0x10, 0x10, 0x10, 0x10] (stack_top, m)"

text \<open>A NULL from \<open>kmalloc\<close> is not checked here: the next access is None.\<close>

definition task_init :: "kernel \<Rightarrow> kernel option" where
  "task_init s =
     do { let s0 = sched_init s;
          (t, mm) \<leftarrow> kmalloc SIZEOF_TASK (k_mm s0);
          (if t = 0 then None
           else do { nm \<leftarrow> strcpy (t_name zero_task) (''kernel_main'' @ [NUL]);
                     sched_add_task t (s0\<lparr>k_mm := mm, current_task := t,
                       task_at := (task_at s0)(t \<mapsto> init_task_fds (zero_task\<lparr>t_name := nm\<rparr>))\<rparr>) }) }"

definition create_task :: "u32 \<Rightarrow> char list \<Rightarrow> kernel \<Rightarrow> (u32 \<times> kernel) option" where
  "create_task entry name s =
     do { (t, mm1) \<leftarrow> kmalloc SIZEOF_TASK (k_mm s);
          (stack, mm2) \<leftarrow> kmalloc 4096 mm1;
          (if t = 0 \<or> stack = 0 then None
           else (let (esp, m) = fold push_word [entry, 0, 0, 0, 0] (stack + 4096, k_words s)
                 in do { nm \<leftarrow> strncpy (t_name zero_task) name 31;
                         s1 \<leftarrow> sched_add_task t (s\<lparr>k_mm := mm2, k_words := m,
                           task_at := (task_at s)(t \<mapsto> init_task_fds (zero_task\<lparr>t_esp := esp, t_pid := 1, t_stack_base := stack, t_name := nm\<rparr>))\<rparr>);
                         Some (t, s1) })) }"

definition kthread_create :: "u32 \<Rightarrow> char list option \<Rightarrow> kernel \<Rightarrow> (int \<times> kernel) option" where
  "kthread_create fn name s =
     do { (t, mm1) \<leftarrow> kmalloc SIZEOF_TASK (k_mm s);
          (stack, mm2) \<leftarrow> kmalloc STACK_SIZE mm1;
          (if t = 0 \<or> stack = 0 then Some (-1, s\<lparr>k_mm := mm2\<rparr>)
           else (let (esp, m) = arch_prepare_stack (stack + STACK_SIZE) fn (k_words s)
                 in do { nm \<leftarrow> (case name of None \<Rightarrow> Some (t_name zero_task) | Some n \<Rightarrow> strncpy (t_name zero_task) n 31);
                         s1 \<leftarrow> sched_add_task t (s\<lparr>k_mm := mm2, k_words := m, next_pid := next_pid s + 1,
                           task_at := (task_at s)(t \<mapsto> init_task_fds (zero_task\<lparr>t_pid := next_pid s, t_state := READY,
                             t_stack_base := stack, t_name := nm, t_esp := esp\<rparr>))\<rparr>);
                         Some (sint (next_pid s), s1) })) }"

subsection \<open>The sandbox\<close>

definition PLEDGE_STDIO :: u32 where "PLEDGE_STDIO = 1"
definition PLEDGE_RPATH :: u32 where "PLEDGE_RPATH = 2"
definition PLEDGE_WPATH :: u32 where "PLEDGE_WPATH = 4"
definition PLEDGE_CPATH :: u32 where "PLEDGE_CPATH = 8"
definition PLEDGE_DRV :: u32 where "PLEDGE_DRV = 16"

definition promise_words :: "(char list \<times> u32) list" where
  "promise_words = [(''stdio'', PLEDGE_STDIO), (''rpath'', PLEDGE_RPATH), (''wpath'', PLEDGE_WPATH),
     (''cpath'', PLEDGE_CPATH), (''drv'', PLEDGE_DRV)]"

fun promise_mask :: "(char list \<times> u32) list \<Rightarrow> char list \<Rightarrow> u32 \<Rightarrow> u32 option" where
  "promise_mask [] promises m = Some m"
| "promise_mask ((w, f) # ws) promises m =
     do { r \<leftarrow> strstr promises (w @ [NUL]); promise_mask ws promises (if r \<noteq> None then m OR f else m) }"

definition sys_pledge :: "char list option \<Rightarrow> kernel \<Rightarrow> (int \<times> kernel) option" where
  "sys_pledge promises s =
     (if current_task s = 0 then Some (-1, s)
      else do { t \<leftarrow> task_at s (current_task s);
                (if t_pledge_active t \<and> t_pledge_mask t = 0 \<and> promises \<noteq> None then Some (-1, s)
                 else do { new_mask \<leftarrow> (case promises of None \<Rightarrow> Some 0 | Some p \<Rightarrow> promise_mask promise_words p 0);
                           (if promises \<noteq> None \<and> t_pledge_active t \<and> new_mask AND NOT (t_pledge_mask t) \<noteq> 0 then Some (-1, s)
                            else Some (0, s\<lparr>task_at := (task_at s)(current_task s \<mapsto> t\<lparr>t_pledge_mask := new_mask, t_pledge_active := True\<rparr>)\<rparr>)) }) })"

definition security_check_syscall :: "u32 \<Rightarrow> kernel \<Rightarrow> (bool ending \<times> kernel) option" where
  "security_check_syscall category s =
     (if current_task s = 0 then Some (Returns True, s)
      else do { t \<leftarrow> task_at s (current_task s);
                (if \<not> t_pledge_active t then Some (Returns True, s)
                 else if t_pledge_mask t AND category = 0
                 then (if t_pid t = 0 then Some (Returns False, s)
                       else do { (e, s1) \<leftarrow> do_exit (-1) s;
                                 Some (case e of Returns _ \<Rightarrow> Returns False | Halts \<Rightarrow> Halts, s1) })
                 else Some (Returns True, s)) })"

subsection \<open>Round robin\<close>

definition queue_ok :: "kernel \<Rightarrow> bool" where
  "queue_ok s \<longleftrightarrow> length (ready_queue s) = MAX_TASKS \<and> task_count s \<le> MAX_TASKS \<and>
     (0 < task_count s \<longrightarrow> current_idx s < task_count s)"

primrec schedules :: "nat \<Rightarrow> kernel \<Rightarrow> kernel option" where
  "schedules 0 s = Some s"
| "schedules (Suc k) s = Option.bind (schedule s) (schedules k)"

lemma schedules_run:
  assumes "queue_ok s" and "0 < task_count s"
  shows "\<exists>t. schedules k s = Some (s\<lparr>current_idx := (current_idx s + k) mod task_count s, current_task := t\<rparr>) \<and>
    (0 < k \<longrightarrow> t = ready_queue s ! ((current_idx s + k) mod task_count s))"
  using assms
proof (induction k arbitrary: s)
  case 0
  then show ?case by (intro exI [of _ "current_task s"]) (simp add: queue_ok_def)
next
  case (Suc k)
  let ?i = "(current_idx s + 1) mod task_count s" and ?n = "task_count s"
  have lt: "?i < ?n" using Suc.prems(2) by (rule mod_less_divisor)
  have "?n \<le> length (ready_queue s)" using Suc.prems(1) by (simp add: queue_ok_def)
  note lt = lt less_le_trans [OF lt this]
  let ?s = "s\<lparr>current_idx := ?i, current_task := ready_queue s ! ?i\<rparr>"
  have run: "schedule s = Some ?s" using Suc.prems lt by (simp add: schedule_def Let_def)
  have "queue_ok ?s" "0 < task_count ?s" using Suc.prems lt by (simp_all add: queue_ok_def)
  from Suc.IH [OF this] obtain t where t: "schedules k ?s = Some (?s\<lparr>current_idx := (?i + k) mod ?n, current_task := t\<rparr>)"
      "0 < k \<longrightarrow> t = ready_queue s ! ((?i + k) mod ?n)" by auto
  have e: "(?i + k) mod ?n = (current_idx s + Suc k) mod ?n" by (simp add: mod_add_left_eq)
  show ?case
  proof (cases "k = 0")
    case True
    with run show ?thesis by simp
  next
    case False
    then show ?thesis using run t e by simp
  qed
qed

text \<open>
  C22: the scheduler is a fair round robin. With \<open>n\<close> tasks in the queue, the \<open>k\<close>-th call of \<open>schedule\<close>
  from now makes the task \<open>k\<close> places further in the circular order current, and so within \<open>n\<close> calls
  every queued task is made current.
\<close>

theorem round_robin_fair:
  assumes "queue_ok s" and "0 < task_count s"
  shows "(\<forall>k > 0. \<exists>s'. schedules k s = Some s' \<and> current_task s' = ready_queue s ! ((current_idx s + k) mod task_count s)) \<and>
    (\<forall>j < task_count s. \<exists>k s'. 0 < k \<and> k \<le> task_count s \<and> schedules k s = Some s' \<and> current_task s' = ready_queue s ! j)"
proof (rule conjI)
  have run: "\<exists>s'. schedules k s = Some s' \<and> current_task s' = ready_queue s ! ((current_idx s + k) mod task_count s)" if "0 < k" for k
    using schedules_run [OF assms, of k] that by auto
  then show "\<forall>k > 0. \<exists>s'. schedules k s = Some s' \<and> current_task s' = ready_queue s ! ((current_idx s + k) mod task_count s)" by blast
  show "\<forall>j < task_count s. \<exists>k s'. 0 < k \<and> k \<le> task_count s \<and> schedules k s = Some s' \<and> current_task s' = ready_queue s ! j"
  proof (intro allI impI)
    fix j
    assume j: "j < task_count s"
    define k where "k = (if current_idx s < j then j - current_idx s else j + task_count s - current_idx s)"
    have ci: "current_idx s < task_count s" using assms by (simp add: queue_ok_def)
    then have "0 < k" "k \<le> task_count s" "(current_idx s + k) mod task_count s = j"
      using j by (auto simp: k_def)
    with run [of k] show "\<exists>k s'. 0 < k \<and> k \<le> task_count s \<and> schedules k s = Some s' \<and> current_task s' = ready_queue s ! j" by auto
  qed
qed

definition demo_kernel :: kernel where
  "demo_kernel = \<lparr>task_at = (\<lambda>_. None), current_task = 0, running_task = 0, next_pid = 1,
     ready_queue = [0x200000, 0x201000, 0x202000] @ replicate 29 0, task_count = 3, current_idx = 0,
     k_words = (\<lambda>_. 0), k_mm = mm_boot\<rparr>"

theorem round_robin_fair_witness:
  "\<exists>k s'. 0 < k \<and> k \<le> 3 \<and> schedules k demo_kernel = Some s' \<and> current_task s' = 0x202000"
proof -
  have "queue_ok demo_kernel" "0 < task_count demo_kernel" by (simp_all add: queue_ok_def demo_kernel_def MAX_TASKS_def)
  from conjunct2 [OF round_robin_fair [OF this]] have "\<forall>j < 3. \<exists>k s'. 0 < k \<and> k \<le> 3 \<and> schedules k demo_kernel = Some s' \<and> current_task s' = ready_queue demo_kernel ! j"
    by (simp add: demo_kernel_def)
  from this [rule_format, of 2] show ?thesis by (simp add: demo_kernel_def)
qed

subsection \<open>Pledges\<close>

lemma strstr_contains:
  assumes "cstr h s" and "cstr n t" and "t \<noteq> []"
  shows "\<exists>r. strstr h n = Some r \<and> (r \<noteq> None \<longleftrightarrow> sublist t s)"
proof -
  obtain x t' where t: "t = x # t'" using assms(3) by (cases t) auto
  then have "rd n 0 = Some x" "x \<noteq> NUL" using assms(2) by (auto simp: cstr_simps)
  then have r: "strstr h n = Some (map_option ((+) 0) (find (\<lambda>k. prefix t (drop k s)) [0..<length s]))"
    using strstr_from_cstr [OF assms, of 0] by (simp add: strstr_def)
  have "(\<exists>k < length s. prefix t (drop k s)) \<longleftrightarrow> sublist t s"
  proof
    assume "\<exists>k < length s. prefix t (drop k s)"
    then obtain k q where "drop k s = t @ q" by (auto simp: prefix_def)
    then have "s = take k s @ t @ q" by (metis append_take_drop_id)
    then show "sublist t s" by (metis sublist_def)
  next
    assume "sublist t s"
    then obtain p q where "s = p @ t @ q" by (auto simp: sublist_def)
    then have "prefix t (drop (length p) s)" "length p < length s" using t by auto
    then show "\<exists>k < length s. prefix t (drop k s)" by blast
  qed
  then show ?thesis unfolding r
    by (cases "find (\<lambda>k. prefix t (drop k s)) [0..<length s]") (auto simp: find_upt_None find_upt_Some)
qed

text \<open>The rights a promise text names: the flags of the words that occur in it.\<close>

definition promised :: "char list \<Rightarrow> u32" where
  "promised s = fold (\<lambda>(w, f) m. if sublist w s then m OR f else m) promise_words 0"

lemma promise_mask_run:
  assumes "cstr p s" and "\<forall>(w, f) \<in> set ws. w \<noteq> [] \<and> NUL \<notin> set w"
  shows "promise_mask ws p m = Some (fold (\<lambda>(w, f) m. if sublist w s then m OR f else m) ws m)"
  using assms(2)
proof (induction ws arbitrary: m)
  case (Cons a ws)
  obtain w f where a: "a = (w, f)" by (cases a)
  have "cstr (w @ [NUL]) w" "w \<noteq> []" using Cons.prems by (auto simp: a cstr_def)
  from strstr_contains [OF assms(1) this] obtain r where "strstr p (w @ [NUL]) = Some r" "r \<noteq> None \<longleftrightarrow> sublist w s" by blast
  with Cons show ?case by (simp add: a)
qed simp

lemma promise_mask_promised: "cstr p s \<Longrightarrow> promise_mask promise_words p 0 = Some (promised s)"
  unfolding promised_def by (rule promise_mask_run) (auto simp: promise_words_def)

definition allowed :: "kernel \<Rightarrow> u32 \<Rightarrow> bool" where
  "allowed s c \<longleftrightarrow> security_check_syscall c s = Some (Returns True, s)"

definition pledged :: "kernel \<Rightarrow> task \<Rightarrow> bool" where
  "pledged s t \<longleftrightarrow> current_task s \<noteq> 0 \<and> task_at s (current_task s) = Some t \<and> t_pledge_active t"

lemma allowed_pledged: "pledged s t \<Longrightarrow> allowed s c \<longleftrightarrow> t_pledge_mask t AND c \<noteq> 0"
  by (auto simp: pledged_def allowed_def security_check_syscall_def bind_eq_Some_conv split: ending.splits)

lemma sys_pledge_run:
  assumes "pledged s t" and "\<forall>p. promises = Some p \<longrightarrow> (\<exists>x. cstr p x)"
  shows "\<exists>r s' t'. sys_pledge promises s = Some (r, s') \<and> pledged s' t' \<and> current_task s' = current_task s \<and>
    t_pledge_mask t' AND NOT (t_pledge_mask t) = 0 \<and> (r = -1 \<longrightarrow> s' = s)"
proof (cases promises)
  case None
  then show ?thesis using assms(1)
    by (auto simp: sys_pledge_def pledged_def)
next
  case (Some p)
  then obtain x where "cstr p x" using assms(2) by blast
  note m = promise_mask_promised [OF this]
  show ?thesis
  proof (cases "t_pledge_mask t = 0 \<or> promised x AND NOT (t_pledge_mask t) \<noteq> 0")
    case True
    then have "sys_pledge promises s = Some (-1, s)" using assms(1) m Some by (auto simp: sys_pledge_def pledged_def)
    with assms(1) show ?thesis by (intro exI [of _ "-1"] exI [of _ s] exI [of _ t]) simp
  next
    case False
    then show ?thesis using assms(1) m Some by (auto simp: sys_pledge_def pledged_def)
  qed
qed

text \<open>A task that pledges again and again.\<close>

primrec pledge_all :: "char list option list \<Rightarrow> kernel \<Rightarrow> kernel option" where
  "pledge_all [] s = Some s"
| "pledge_all (p # ps) s = do { (_, s1) \<leftarrow> sys_pledge p s; pledge_all ps s1 }"

lemma pledge_all_run:
  assumes "pledged s t" and "\<forall>p. Some p \<in> set ps \<longrightarrow> (\<exists>x. cstr p x)"
  shows "\<exists>s' t'. pledge_all ps s = Some s' \<and> pledged s' t' \<and> t_pledge_mask t' AND NOT (t_pledge_mask t) = 0"
  using assms
proof (induction ps arbitrary: s t)
  case Nil
  then show ?case by auto
next
  case (Cons p ps)
  have "\<forall>q. p = Some q \<longrightarrow> (\<exists>x. cstr q x)" using Cons.prems(2) by auto
  from sys_pledge_run [OF Cons.prems(1) this] obtain r s1 t1 where s1: "sys_pledge p s = Some (r, s1)" "pledged s1 t1"
      "t_pledge_mask t1 AND NOT (t_pledge_mask t) = 0" by blast
  have "\<forall>q. Some q \<in> set ps \<longrightarrow> (\<exists>x. cstr q x)" using Cons.prems(2) by auto
  from Cons.IH [OF s1(2) this] obtain s' t' where s': "pledge_all ps s1 = Some s'" "pledged s' t'"
      "t_pledge_mask t' AND NOT (t_pledge_mask t1) = 0" by blast
  have "t_pledge_mask t' AND NOT (t_pledge_mask t) = 0"
    using s1(3) s'(3) by (simp add: bit_eq_iff bit_simps)
  with s1(1) s' show ?case by auto
qed

text \<open>
  C23: a pledge is never taken back. When a task without a pledge pledges a text, its rights are
  the flags of exactly the words that occur in the text; whatever it pledges afterwards, as often
  as it likes (NULL included), every call succeeds or is refused, and a category of system calls
  that was refused is refused ever after.
\<close>

theorem pledge_never_regained:
  assumes "current_task s \<noteq> 0" and "task_at s (current_task s) = Some t" and "\<not> t_pledge_active t" and "cstr p x"
    and "\<forall>q. Some q \<in> set ps \<longrightarrow> (\<exists>y. cstr q y)"
  shows "\<exists>s1 s'. sys_pledge (Some p) s = Some (0, s1) \<and> (\<forall>c. allowed s1 c \<longleftrightarrow> promised x AND c \<noteq> 0) \<and>
    pledge_all ps s1 = Some s' \<and> (\<forall>c. allowed s' c \<longrightarrow> allowed s1 c)"
proof -
  let ?t1 = "t\<lparr>t_pledge_mask := promised x, t_pledge_active := True\<rparr>"
  let ?s1 = "s\<lparr>task_at := (task_at s)(current_task s \<mapsto> ?t1)\<rparr>"
  have run: "sys_pledge (Some p) s = Some (0, ?s1)"
    using assms(1-3) promise_mask_promised [OF assms(4)] by (simp add: sys_pledge_def)
  have p1: "pledged ?s1 ?t1" using assms(1) by (simp add: pledged_def)
  obtain s' t' where s': "pledge_all ps ?s1 = Some s'" "pledged s' t'" "t_pledge_mask t' AND NOT (t_pledge_mask ?t1) = 0"
    using pledge_all_run [OF p1 assms(5)] by blast
  have "t_pledge_mask ?t1 AND c \<noteq> 0" if "t_pledge_mask t' AND c \<noteq> 0" for c
  proof
    assume "t_pledge_mask ?t1 AND c = 0"
    with s'(3) have "t_pledge_mask t' AND c = 0" by (simp add: bit_eq_iff bit_simps)
    with that show False by simp
  qed
  then have "\<forall>c. allowed s' c \<longrightarrow> allowed ?s1 c" using allowed_pledged [OF p1] allowed_pledged [OF s'(2)] by blast
  moreover have "\<forall>c. allowed ?s1 c \<longleftrightarrow> promised x AND c \<noteq> 0" using allowed_pledged [OF p1] by simp
  ultimately show ?thesis using run s'(1) by blast
qed

theorem pledge_never_regained_witness:
  "\<exists>s1 s'. sys_pledge (Some (''stdio rpath'' @ [NUL])) (demo_kernel\<lparr>current_task := 4096, task_at := [4096 \<mapsto> zero_task]\<rparr>) = Some (0, s1) \<and>
     allowed s1 PLEDGE_RPATH \<and> pledge_all [Some (''stdio'' @ [NUL]), Some (''drv'' @ [NUL]), None] s1 = Some s' \<and> \<not> allowed s' PLEDGE_DRV"
proof -
  let ?s = "demo_kernel\<lparr>current_task := 4096, task_at := [4096 \<mapsto> zero_task]\<rparr>"
  have c: "cstr (''stdio rpath'' @ [NUL]) ''stdio rpath''" "cstr (''stdio'' @ [NUL]) ''stdio''" "cstr (''drv'' @ [NUL]) ''drv''"
    by (simp_all add: cstr_def)
  then have ps: "\<forall>q. Some q \<in> set [Some (''stdio'' @ [NUL]), Some (''drv'' @ [NUL]), None] \<longrightarrow> (\<exists>y. cstr q y)" by auto
  have m: "promised ''stdio rpath'' = PLEDGE_STDIO OR PLEDGE_RPATH"
    by (simp add: promised_def promise_words_def sublist_code(3))
  have z: "current_task ?s \<noteq> 0" "task_at ?s (current_task ?s) = Some zero_task" "\<not> t_pledge_active zero_task"
    by (simp_all add: zero_task_def)
  obtain s1 s' where "sys_pledge (Some (''stdio rpath'' @ [NUL])) ?s = Some (0, s1)"
      "\<forall>c. allowed s1 c \<longleftrightarrow> promised ''stdio rpath'' AND c \<noteq> 0"
      "pledge_all [Some (''stdio'' @ [NUL]), Some (''drv'' @ [NUL]), None] s1 = Some s'" "\<forall>c. allowed s' c \<longrightarrow> allowed s1 c"
    using pledge_never_regained [OF z c(1) ps] by blast
  then show ?thesis by (auto simp: m PLEDGE_STDIO_def PLEDGE_RPATH_def PLEDGE_DRV_def)
qed

subsection \<open>Kernel threads\<close>

text \<open>The frame that the context switch pops from a new stack, from its lowest word up.\<close>

definition start_frame :: "u32 \<Rightarrow> u32 list" where
  "start_frame fn = [0x10, 0x10, 0x10, 0x10, 0, 0, 0, 0, 0, 0, 0, fn]"

lemma prepared_stack:
  "arch_prepare_stack sp fn m = (sp - 48, snd (arch_prepare_stack sp fn m))"
  "i < 12 \<Longrightarrow> snd (arch_prepare_stack sp fn m) (sp - 48 + of_nat (4 * i)) = start_frame fn ! i"
proof -
  show "arch_prepare_stack sp fn m = (sp - 48, snd (arch_prepare_stack sp fn m))"
    by (simp add: arch_prepare_stack_def push_word_def)
  assume "i < 12"
  then have "i = 0 \<or> i = 1 \<or> i = 2 \<or> i = 3 \<or> i = 4 \<or> i = 5 \<or> i = 6 \<or> i = 7 \<or> i = 8 \<or> i = 9 \<or> i = 10 \<or> i = 11"
    by arith
  then show "snd (arch_prepare_stack sp fn m) (sp - 48 + of_nat (4 * i)) = start_frame fn ! i"
    by (elim disjE) (simp_all add: arch_prepare_stack_def push_word_def start_frame_def)
qed

text \<open>
  creating a kernel thread. With the frame allocator in service and a name of at most 30 characters,
  \<open>kthread_create\<close> always returns. When an allocation fails it returns -1 and no task and no place
  in the queue is touched. Otherwise it returns the next process number; the new task structure
  is at an address nobody used, its stack pointer is 48 bytes below the top of its stack and the
  words from there on are the segment registers, seven zeros and the entry point; its
  descriptors are the console ones, it has no pledge, all other tasks are as before, and it is
  queued if there is a place in the ready queue and lost otherwise.
\<close>

theorem kthread_create_task:
  assumes "mm_ok (k_mm s)" and "cstr n x" and "length x < 31" and "queue_ok s"
  shows "\<exists>r s'. kthread_create fn (Some n) s = Some (r, s') \<and> mm_ok (k_mm s') \<and>
    (task_at s' = task_at s \<and> ready_queue s' = ready_queue s \<and> task_count s' = task_count s \<and> r = -1 \<or>
     (\<exists>t tk. \<not> owned (k_mm s) t \<and> owned (k_mm s') t \<and> task_at s' = (task_at s)(t \<mapsto> tk) \<and> r = sint (next_pid s) \<and>
       t_pid tk = next_pid s \<and> t_state tk = READY \<and> \<not> t_pledge_active tk \<and>
       t_fds tk = [0, 1, 2] @ replicate 13 (-1) \<and> t_esp tk = t_stack_base tk + STACK_SIZE - 48 \<and>
       (\<forall>i < 12. k_words s' (t_esp tk + of_nat (4 * i)) = start_frame fn ! i) \<and>
       (if task_count s < MAX_TASKS
        then ready_queue s' = (ready_queue s)[task_count s := t] \<and> task_count s' = task_count s + 1
        else ready_queue s' = ready_queue s \<and> task_count s' = task_count s)))"
proof -
  obtain t mm1 where a1: "kmalloc SIZEOF_TASK (k_mm s) = Some (t, mm1)" using pages.alloc_total [OF assms(1)] by blast
  note f1 = pages.alloc_fresh [OF assms(1) a1]
  obtain stack mm2 where a2: "kmalloc STACK_SIZE mm1 = Some (stack, mm2)" using pages.alloc_total f1 by blast
  note f2 = pages.alloc_fresh [OF conjunct1 [OF f1] a2]
  show ?thesis
  proof (cases "t = 0 \<or> stack = 0")
    case True
    then have "kthread_create fn (Some n) s = Some (-1, s\<lparr>k_mm := mm2\<rparr>)" using a1 a2 by (simp add: kthread_create_def)
    with f2 show ?thesis by auto
  next
    case False
    obtain nm where nm: "strncpy (t_name zero_task) n 31 = Some nm"
      using strncpy_cstr [OF assms(2,3), of "t_name zero_task"] by (auto simp: zero_task_def)
    define m where "m = snd (arch_prepare_stack (stack + STACK_SIZE) fn (k_words s))"
    have m: "arch_prepare_stack (stack + STACK_SIZE) fn (k_words s) = (stack + STACK_SIZE - 48, m)"
      unfolding m_def by (rule prepared_stack(1))
    let ?tk = "init_task_fds (zero_task\<lparr>t_pid := next_pid s, t_state := READY, t_stack_base := stack, t_name := nm,
      t_esp := stack + STACK_SIZE - 48\<rparr>)"
    let ?s = "s\<lparr>k_mm := mm2, k_words := m, next_pid := next_pid s + 1, task_at := (task_at s)(t \<mapsto> ?tk)\<rparr>"
    let ?s' = "if task_count s < MAX_TASKS then ?s\<lparr>ready_queue := (ready_queue s)[task_count s := t], task_count := task_count s + 1\<rparr> else ?s"
    have "sched_add_task t ?s = Some ?s'" using assms(4) by (simp add: sched_add_task_def queue_ok_def)
    then have run: "kthread_create fn (Some n) s = Some (sint (next_pid s), ?s')"
      using a1 a2 nm False m by (simp add: kthread_create_def)
    have fds: "t_fds ?tk = [0, 1, 2] @ replicate 13 (-1)" by (simp add: init_task_fds_def numeral_eq_Suc)
    have "\<forall>i < 12. m (stack + STACK_SIZE - 48 + of_nat (4 * i)) = start_frame fn ! i" unfolding m_def using prepared_stack(2) by blast
    moreover have "\<not> owned (k_mm s) t" "owned mm2 t" "mm_ok mm2" using f1 f2 False by auto
    ultimately show ?thesis using run fds
      by (intro exI [of _ "sint (next_pid s)"] exI [of _ ?s'] conjI disjI2 exI [of _ t] exI [of _ ?tk])
        (simp_all add: init_task_fds_def zero_task_def)
  qed
qed

theorem kthread_create_task_witness:
  "\<exists>r s'. kthread_create 0x100500 (Some (''idle'' @ [NUL])) (demo_kernel\<lparr>k_mm := demo_mm\<rparr>) = Some (r, s') \<and>
     (r = -1 \<or> r = 1 \<and> task_count s' = 4)"
proof -
  let ?s = "demo_kernel\<lparr>k_mm := demo_mm\<rparr>"
  have "mm_ok (k_mm ?s)" "queue_ok ?s" "cstr (''idle'' @ [NUL]) ''idle''" "length ''idle'' < 31"
    by (simp_all add: demo_mm_ok queue_ok_def demo_kernel_def MAX_TASKS_def cstr_def)
  from kthread_create_task [OF this(1,3,4,2), of "0x100500"]
  obtain r s' where "kthread_create 0x100500 (Some (''idle'' @ [NUL])) ?s = Some (r, s')"
      "r = -1 \<or> r = sint (next_pid ?s) \<and> (if task_count ?s < MAX_TASKS then task_count s' = task_count ?s + 1 else True)"
    by (elim exE conjE disjE) (auto split: if_splits)
  then show ?thesis by (auto simp: demo_kernel_def MAX_TASKS_def)
qed

end
