(* ===== verification/Elf.thy ===== *)
theory Elf
  imports Paging
begin

text \<open>
  The ELF loader, \<open>arch/x86/elf.c\<close>, on flat memory: the headers are read from the image (and again
  in every round of the loop, as the code does), the segments are copied to their addresses with
  the \<open>memcpy\<close> and \<open>memset\<close> of \<open>usr/lib/string.c\<close>, whose lengths are signed. The jump to the entry
  point is the result. Messages are left out.
\<close>

definition ELFMAG :: "u8 list" where "ELFMAG = [0x7f, 0x45, 0x4C, 0x46]"
definition ET_EXEC :: u16 where "ET_EXEC = 2"
definition EM_386 :: u16 where "EM_386 = 3"
definition PT_LOAD :: u32 where "PT_LOAD = 1"
definition SIZEOF_PHDR :: nat where "SIZEOF_PHDR = 32"

record Elf32_Ehdr =
  e_ident :: "u8 list"
  e_type :: u16
  e_machine :: u16
  e_version :: u32
  e_entry :: u32
  e_phoff :: u32
  e_shoff :: u32
  e_flags :: u32
  e_ehsize :: u16
  e_phentsize :: u16
  e_phnum :: u16
  e_shentsize :: u16
  e_shnum :: u16
  e_shstrndx :: u16

record Elf32_Phdr =
  p_type :: u32
  p_offset :: u32
  p_vaddr :: u32
  p_paddr :: u32
  p_filesz :: u32
  p_memsz :: u32
  p_flags :: u32
  p_align :: u32

text \<open>Little-endian fields of structures in memory.\<close>

definition get16 :: "mem \<Rightarrow> u32 \<Rightarrow> u16" where
  "get16 m a = ucast (m a) OR push_bit 8 (ucast (m (a + 1)))"

definition get32 :: "mem \<Rightarrow> u32 \<Rightarrow> u32" where
  "get32 m a = ucast (get16 m a) OR push_bit 16 (ucast (get16 m (a + 2)))"

definition ehdr_at :: "mem \<Rightarrow> u32 \<Rightarrow> Elf32_Ehdr" where
  "ehdr_at m a = \<lparr>e_ident = map (\<lambda>i. m (a + of_nat i)) [0..<16], e_type = get16 m (a + 16), e_machine = get16 m (a + 18),
     e_version = get32 m (a + 20), e_entry = get32 m (a + 24), e_phoff = get32 m (a + 28), e_shoff = get32 m (a + 32),
     e_flags = get32 m (a + 36), e_ehsize = get16 m (a + 40), e_phentsize = get16 m (a + 42), e_phnum = get16 m (a + 44),
     e_shentsize = get16 m (a + 46), e_shnum = get16 m (a + 48), e_shstrndx = get16 m (a + 50)\<rparr>"

definition phdr_at :: "mem \<Rightarrow> u32 \<Rightarrow> Elf32_Phdr" where
  "phdr_at m a = \<lparr>p_type = get32 m a, p_offset = get32 m (a + 4), p_vaddr = get32 m (a + 8), p_paddr = get32 m (a + 12),
     p_filesz = get32 m (a + 16), p_memsz = get32 m (a + 20), p_flags = get32 m (a + 24), p_align = get32 m (a + 28)\<rparr>"

text \<open>\<open>memcpy\<close> copies nothing for a negative length; \<open>memset\<close> counts down and runs away.\<close>

definition flat_memcpy :: "u32 \<Rightarrow> u32 \<Rightarrow> int \<Rightarrow> mem \<Rightarrow> mem" where
  "flat_memcpy d s n m = snd (mm_memcpy (nat n) d s m)"

definition flat_memset :: "u32 \<Rightarrow> u8 \<Rightarrow> int \<Rightarrow> mem \<Rightarrow> mem option" where
  "flat_memset d c n m = (if n < 0 then None else Some (mm_memset (nat n) d c m))"

definition load_segment :: "u32 \<Rightarrow> Elf32_Phdr \<Rightarrow> mem \<Rightarrow> mem option" where
  "load_segment buf ph m =
     (if p_type ph = PT_LOAD
      then (let m1 = flat_memcpy (p_vaddr ph) (buf + p_offset ph) (sint (p_filesz ph)) m
            in if p_memsz ph > p_filesz ph
               then flat_memset (p_vaddr ph + p_filesz ph) 0 (sint (p_memsz ph - p_filesz ph)) m1
               else Some m1)
      else Some m)"

function load_segments :: "nat \<Rightarrow> u32 \<Rightarrow> u32 \<Rightarrow> mem \<Rightarrow> mem option" where
  "load_segments i phdr buf m =
     (if i < unat (e_phnum (ehdr_at m buf))
      then do { m1 \<leftarrow> load_segment buf (phdr_at m (phdr + of_nat (SIZEOF_PHDR * i))) m;
                load_segments (Suc i) phdr buf m1 }
      else Some m)"
  by pat_completeness auto
termination
proof (relation "measure (\<lambda>(i, p, b, m). 65536 - i)")
  fix i :: nat and phdr buf :: u32 and m m1 :: mem
  assume "i < unat (e_phnum (ehdr_at m buf))"
  moreover have "unat (e_phnum (ehdr_at m buf)) < 65536" using unat_lt [of "e_phnum (ehdr_at m buf)"] by simp
  ultimately show "((Suc i, phdr, buf, m1), i, phdr, buf, m) \<in> measure (\<lambda>(i, p, b, m). 65536 - i)" by simp
qed simp

declare load_segments.simps [simp del]

text \<open>The entry point when the image is accepted, and the memory.\<close>

definition elf_load :: "u32 \<Rightarrow> mem \<Rightarrow> (u32 option \<times> mem) option" where
  "elf_load buf m =
     (let h = ehdr_at m buf
      in if take 4 (e_ident h) \<noteq> ELFMAG \<or> e_type h \<noteq> ET_EXEC \<or> e_machine h \<noteq> EM_386 then Some (None, m)
         else do { m1 \<leftarrow> load_segments 0 (buf + e_phoff h) buf m;
                   Some (Some (e_entry (ehdr_at m1 buf)), m1) })"

subsection \<open>Copies in flat memory\<close>

definition block :: "u32 \<Rightarrow> nat \<Rightarrow> u32 set" where
  "block p n = {a. unat p \<le> unat a \<and> unat a < unat p + n}"

lemma block_0 [simp]: "block p 0 = {}"
  by (auto simp: block_def)

lemma block_Suc:
  assumes "unat p + Suc n \<le> 2 ^ 32"
  shows "block p (Suc n) = insert p (block (p + 1) n)"
proof (cases n)
  case 0
  then show ?thesis by (auto simp: block_def word_unat_eq_iff)
next
  case (Suc k)
  then have "unat (p + 1) = unat p + 1" using assms by (simp add: unat_plus1)
  then show ?thesis by (auto simp: block_def word_unat_eq_iff)
qed

lemma block_offset: "a \<in> block p n \<Longrightarrow> unat (a - p) < n \<and> unat a = unat p + unat (a - p)"
  by (auto simp: block_def unat_sub_if_size)

lemma mm_memcpy_get:
  assumes "unat d + n \<le> 2 ^ 32" and "\<And>i. i < n \<Longrightarrow> s + of_nat i \<notin> block d n"
  shows "snd (mm_memcpy n d s m) a = (if a \<in> block d n then m (s + (a - d)) else m a)"
  using assms
proof (induction n arbitrary: d s m)
  case 0
  then show ?case by simp
next
  case (Suc n)
  note b = block_Suc [OF Suc.prems(1)]
  have s: "s \<noteq> d" "s \<notin> block (d + 1) n" using Suc.prems(2) [of 0] by (auto simp: b)
  have "s + 1 + of_nat i \<notin> block (d + 1) n" if "i < n" for i
    using Suc.prems(2) [of "Suc i"] that by (simp add: b add.assoc)
  moreover have "unat (d + 1) + n \<le> 2 ^ 32"
    using Suc.prems(1) by (cases n) (simp_all add: unat_plus1 unat_word_ariths)
  ultimately have ih: "snd (mm_memcpy n (d + 1) (s + 1) (m(d := m s))) a =
      (if a \<in> block (d + 1) n then (m(d := m s)) (s + 1 + (a - (d + 1))) else (m(d := m s)) a)"
    by (rule Suc.IH [rotated])
  show ?case
  proof (cases "a \<in> block (d + 1) n")
    case True
    have "s + (a - d) \<noteq> d"
    proof
      assume e: "s + (a - d) = d"
      have "a \<in> block d (Suc n)" using True by (simp add: b)
      from block_offset [OF this] have "unat (a - d) < Suc n" by simp
      from Suc.prems(2) [OF this] e show False by (simp add: block_def)
    qed
    with True ih show ?thesis by (simp add: b algebra_simps)
  next
    case False
    with ih show ?thesis by (auto simp: b)
  qed
qed

lemma mm_memset_block:
  "unat p + n \<le> 2 ^ 32 \<Longrightarrow> mm_memset n p c m a = (if a \<in> block p n then c else m a)"
  by (simp add: mm_memset_get block_def)

lemma block_add: "unat b + len \<le> 2 ^ 32 \<Longrightarrow> k < len \<Longrightarrow> b + of_nat k \<in> block b len"
proof -
  assume a: "unat b + len \<le> 2 ^ 32" "k < len"
  then have "unat (of_nat k :: u32) = k" by (simp add: unat_of_nat take_bit_eq_mod)
  with a have "unat (b + of_nat k) = unat b + k" using unat_add_lem [of b "of_nat k"] by simp
  with a show ?thesis by (simp add: block_def)
qed

lemma block_iff:
  assumes "unat p + n \<le> 2 ^ 32"
  shows "a \<in> block p n \<longleftrightarrow> unat (a - p) < n"
proof
  assume "unat (a - p) < n"
  then have "p + of_nat (unat (a - p)) \<in> block p n" using block_add [OF assms] by blast
  then show "a \<in> block p n" by simp
qed (use block_offset in blast)

subsection \<open>Loading\<close>

definition seg :: "Elf32_Phdr \<Rightarrow> u32 set" where
  "seg ph = block (p_vaddr ph) (max (unat (p_filesz ph)) (unat (p_memsz ph)))"

text \<open>A program header that asks for nothing impossible, for an image of \<open>len\<close> bytes at \<open>buf\<close>.\<close>

definition seg_ok :: "u32 \<Rightarrow> nat \<Rightarrow> Elf32_Phdr \<Rightarrow> bool" where
  "seg_ok buf len ph \<longleftrightarrow>
     unat (p_vaddr ph) + max (unat (p_filesz ph)) (unat (p_memsz ph)) \<le> 2 ^ 32 \<and>
     unat (p_filesz ph) < 2 ^ 31 \<and> unat (p_memsz ph) < 2 ^ 31 \<and>
     unat (p_offset ph) + unat (p_filesz ph) \<le> len \<and> seg ph \<inter> block buf len = {}"

text \<open>The byte a segment has at an address: from the file, or zero behind the file's part.\<close>

definition seg_byte :: "mem \<Rightarrow> u32 \<Rightarrow> Elf32_Phdr \<Rightarrow> u32 \<Rightarrow> u8" where
  "seg_byte m buf ph a =
     (if unat (a - p_vaddr ph) < unat (p_filesz ph) then m (buf + p_offset ph + (a - p_vaddr ph)) else 0)"

lemma load_segment_get:
  assumes ok: "seg_ok buf len ph" and img: "unat buf + len \<le> 2 ^ 32" and load: "p_type ph = PT_LOAD"
  shows "\<exists>m'. load_segment buf ph m = Some m' \<and> (\<forall>a. m' a = (if a \<in> seg ph then seg_byte m buf ph a else m a))"
proof -
  let ?v = "p_vaddr ph" and ?f = "unat (p_filesz ph)" and ?z = "unat (p_memsz ph)"
  have lim: "unat ?v + max ?f ?z \<le> 2 ^ 32" "?f < 2 ^ 31" "?z < 2 ^ 31" "unat (p_offset ph) + ?f \<le> len"
    and dis: "seg ph \<inter> block buf len = {}" using ok by (simp_all add: seg_ok_def)
  have src: "buf + p_offset ph + of_nat i \<notin> block ?v ?f" if i: "i < ?f" for i
  proof -
    have "buf + of_nat (unat (p_offset ph) + i) \<in> block buf len"
      using i lim by (intro block_add [OF img]) simp
    then have "buf + p_offset ph + of_nat i \<in> block buf len" by (simp add: add.assoc)
    moreover have "block ?v ?f \<subseteq> seg ph" by (auto simp: seg_def block_def)
    ultimately show ?thesis using dis by blast
  qed
  have n1: "nat (sint (p_filesz ph)) = ?f" using lim(2) by (simp add: sint_u32)
  define m1 where "m1 = flat_memcpy ?v (buf + p_offset ph) (sint (p_filesz ph)) m"
  have m1: "m1 a = (if a \<in> block ?v ?f then m (buf + p_offset ph + (a - ?v)) else m a)" for a
    using mm_memcpy_get [of ?v ?f "buf + p_offset ph" m a] lim src by (simp add: m1_def flat_memcpy_def n1)
  show ?thesis
  proof (cases "p_memsz ph > p_filesz ph")
    case False
    then have "max ?f ?z = ?f" by (simp add: word_less_nat_alt)
    then have s: "seg ph = block ?v ?f" by (simp add: seg_def)
    have "load_segment buf ph m = Some m1" using False load by (simp add: load_segment_def m1_def Let_def)
    moreover have "m1 a = (if a \<in> seg ph then seg_byte m buf ph a else m a)" for a
      using block_offset [of a ?v ?f] by (simp add: m1 s seg_byte_def)
    ultimately show ?thesis by blast
  next
    case True
    then have lt: "?f < ?z" by (simp add: word_less_nat_alt)
    then have s: "seg ph = block ?v ?z" by (simp add: seg_def max_def)
    have d: "unat (p_memsz ph - p_filesz ph) = ?z - ?f" using True by (simp add: unat_sub)
    then have n2: "sint (p_memsz ph - p_filesz ph) = int (?z - ?f)" using lim(3) by (simp add: sint_u32)
    have p: "unat (?v + p_filesz ph) = unat ?v + ?f" using lim(1) lt unat_add_lem [of ?v "p_filesz ph"] by simp
    let ?m2 = "mm_memset (?z - ?f) (?v + p_filesz ph) 0 m1"
    have "load_segment buf ph m = Some ?m2"
      using True load by (simp add: load_segment_def m1_def [symmetric] flat_memset_def n2)
    moreover have "?m2 a = (if a \<in> seg ph then seg_byte m buf ph a else m a)" for a
    proof -
      have m2: "?m2 a = (if a \<in> block (?v + p_filesz ph) (?z - ?f) then 0 else m1 a)"
        by (rule mm_memset_block) (use p lim(1) lt in simp)
      have b: "block ?v ?z = {a. unat (a - ?v) < ?z}" "block ?v ?f = {a. unat (a - ?v) < ?f}"
        using lim(1) by (auto simp: block_iff)
      have f: "a \<in> block ?v ?f \<longleftrightarrow> a \<in> seg ph \<and> unat (a - ?v) < ?f"
        unfolding s b using lt by auto
      have "a \<in> block (?v + p_filesz ph) (?z - ?f) \<longleftrightarrow> a \<in> block ?v ?z \<and> a \<notin> block ?v ?f"
        unfolding block_def p using lt by auto
      then have z: "a \<in> block (?v + p_filesz ph) (?z - ?f) \<longleftrightarrow> a \<in> seg ph \<and> \<not> unat (a - ?v) < ?f"
        unfolding s b by simp
      show ?thesis unfolding m2 z m1 f seg_byte_def by auto
    qed
    ultimately show ?thesis by blast
  qed
qed

lemma get_same:
  assumes "\<forall>a \<in> block b len. m' a = m a" and "unat b + len \<le> 2 ^ 32"
  shows "k + 2 \<le> len \<Longrightarrow> get16 m' (b + of_nat k) = get16 m (b + of_nat k)"
    and "k + 4 \<le> len \<Longrightarrow> get32 m' (b + of_nat k) = get32 m (b + of_nat k)"
proof -
  have m: "m' (b + of_nat k) = m (b + of_nat k)" if "k < len" for k
    using assms(1) block_add [OF assms(2) that] by blast
  have g: "get16 m' (b + of_nat k) = get16 m (b + of_nat k)" if "k + 2 \<le> len" for k
    using m [of k] m [of "k + 1"] that by (simp add: get16_def ac_simps)
  then show "k + 2 \<le> len \<Longrightarrow> get16 m' (b + of_nat k) = get16 m (b + of_nat k)" .
  show "get32 m' (b + of_nat k) = get32 m (b + of_nat k)" if "k + 4 \<le> len"
    using g [of k] g [of "k + 2"] that by (simp add: get32_def ac_simps)
qed

lemma ehdr_same:
  assumes "\<forall>a \<in> block b len. m' a = m a" and "unat b + len \<le> 2 ^ 32" and "52 \<le> len"
  shows "ehdr_at m' b = ehdr_at m b"
proof -
  note g = get_same [OF assms(1,2)]
  have "map (\<lambda>i. m' (b + of_nat i)) [0..<16] = map (\<lambda>i. m (b + of_nat i)) [0..<16]"
    using assms block_add [OF assms(2)] by (intro map_cong refl) auto
  then show ?thesis
    using g(1) [of 16] g(1) [of 18] g(2) [of 20] g(2) [of 24] g(2) [of 28] g(2) [of 32] g(2) [of 36] g(1) [of 40]
      g(1) [of 42] g(1) [of 44] g(1) [of 46] g(1) [of 48] g(1) [of 50] assms(3)
    by (simp add: ehdr_at_def)
qed

lemma phdr_same:
  assumes "\<forall>a \<in> block b len. m' a = m a" and "unat b + len \<le> 2 ^ 32" and "k + 32 \<le> len"
  shows "phdr_at m' (b + of_nat k) = phdr_at m (b + of_nat k)"
proof -
  note g = get_same(2) [OF assms(1,2)]
  show ?thesis
    using g [of k] g [of "k + 4"] g [of "k + 8"] g [of "k + 12"] g [of "k + 16"] g [of "k + 20"] g [of "k + 24"] g [of "k + 28"]
      assms(3) by (simp add: phdr_at_def add.assoc)
qed

subsection \<open>The loaded program\<close>

definition header_at :: "mem \<Rightarrow> u32 \<Rightarrow> nat \<Rightarrow> Elf32_Phdr" where
  "header_at m buf i = phdr_at m (buf + e_phoff (ehdr_at m buf) + of_nat (SIZEOF_PHDR * i))"

definition headers :: "mem \<Rightarrow> u32 \<Rightarrow> Elf32_Phdr list" where
  "headers m buf = map (header_at m buf) [0..<unat (e_phnum (ehdr_at m buf))]"

definition image_ok :: "mem \<Rightarrow> u32 \<Rightarrow> nat \<Rightarrow> bool" where
  "image_ok m buf len \<longleftrightarrow> unat buf + len \<le> 2 ^ 32 \<and> 52 \<le> len \<and>
     unat (e_phoff (ehdr_at m buf)) + SIZEOF_PHDR * unat (e_phnum (ehdr_at m buf)) \<le> len \<and>
     (\<forall>ph \<in> set (headers m buf). p_type ph = PT_LOAD \<longrightarrow> seg_ok buf len ph)"

definition accepted :: "Elf32_Ehdr \<Rightarrow> bool" where
  "accepted h \<longleftrightarrow> take 4 (e_ident h) = ELFMAG \<and> e_type h = ET_EXEC \<and> e_machine h = EM_386"

text \<open>The memory after loading: the last loadable segment over an address counts.\<close>

fun placed :: "mem \<Rightarrow> u32 \<Rightarrow> Elf32_Phdr list \<Rightarrow> mem \<Rightarrow> mem" where
  "placed m buf [] m1 = m1"
| "placed m buf (ph # phs) m1 =
     placed m buf phs (\<lambda>a. if p_type ph = PT_LOAD \<and> a \<in> seg ph then seg_byte m buf ph a else m1 a)"

lemma placed_find:
  "placed m buf phs m1 a =
     (case find (\<lambda>ph. p_type ph = PT_LOAD \<and> a \<in> seg ph) (rev phs) of None \<Rightarrow> m1 a | Some ph \<Rightarrow> seg_byte m buf ph a)"
proof (induction phs arbitrary: m1)
  case (Cons ph phs)
  have "find P (xs @ [x]) = (case find P xs of None \<Rightarrow> if P x then Some x else None | Some y \<Rightarrow> Some y)" for P x
    and xs :: "Elf32_Phdr list"
    by (induction xs) auto
  then show ?case by (auto simp: Cons.IH split: option.split)
qed simp

lemma seg_byte_same:
  assumes "\<forall>a \<in> block buf len. m1 a = m a" and "unat buf + len \<le> 2 ^ 32" and "seg_ok buf len ph"
  shows "seg_byte m1 buf ph a = seg_byte m buf ph a"
proof (cases "unat (a - p_vaddr ph) < unat (p_filesz ph)")
  case True
  have "buf + of_nat (unat (p_offset ph) + unat (a - p_vaddr ph)) \<in> block buf len"
    using True assms(3) by (intro block_add [OF assms(2)]) (simp add: seg_ok_def)
  then have "m1 (buf + p_offset ph + (a - p_vaddr ph)) = m (buf + p_offset ph + (a - p_vaddr ph))"
    using assms(1) by (simp add: add.assoc)
  with True show ?thesis by (simp add: seg_byte_def)
qed (simp add: seg_byte_def)

lemma load_segments_placed:
  assumes ok: "image_ok m buf len" and same: "\<forall>a \<in> block buf len. m1 a = m a"
    and i: "i \<le> unat (e_phnum (ehdr_at m buf))"
  shows "\<exists>m'. load_segments i (buf + e_phoff (ehdr_at m buf)) buf m1 = Some m' \<and>
     m' = placed m buf (drop i (headers m buf)) m1 \<and> (\<forall>a \<in> block buf len. m' a = m a)"
  using same i
proof (induction "unat (e_phnum (ehdr_at m buf)) - i" arbitrary: i m1)
  case 0
  then have "i = unat (e_phnum (ehdr_at m buf))" by simp
  with 0 ok ehdr_same [of buf len m1 m] show ?case
    by (subst load_segments.simps) (simp add: image_ok_def headers_def)
next
  case (Suc x)
  let ?n = "unat (e_phnum (ehdr_at m buf))" and ?ph = "header_at m buf i"
  from Suc.hyps(2) have i: "i < ?n" by simp
  have img: "unat buf + len \<le> 2 ^ 32" "52 \<le> len" "unat (e_phoff (ehdr_at m buf)) + SIZEOF_PHDR * ?n \<le> len"
    using ok by (simp_all add: image_ok_def)
  have e: "ehdr_at m1 buf = ehdr_at m buf" by (rule ehdr_same [OF Suc.prems(1) img(1,2)])
  have "SIZEOF_PHDR * i + 32 \<le> SIZEOF_PHDR * ?n" using i by (simp add: SIZEOF_PHDR_def)
  with img(3) have "unat (e_phoff (ehdr_at m buf)) + SIZEOF_PHDR * i + 32 \<le> len" by linarith
  from phdr_same [OF Suc.prems(1) img(1) this]
  have p: "phdr_at m1 (buf + e_phoff (ehdr_at m buf) + of_nat (SIZEOF_PHDR * i)) = ?ph"
    by (simp add: header_at_def add.assoc)
  have mem: "?ph \<in> set (headers m buf)" using i by (simp add: headers_def)
  have "\<exists>m2. load_segment buf ?ph m1 = Some m2 \<and>
      m2 = (\<lambda>a. if p_type ?ph = PT_LOAD \<and> a \<in> seg ?ph then seg_byte m buf ?ph a else m1 a)"
  proof (cases "p_type ?ph = PT_LOAD")
    case True
    with ok mem have s: "seg_ok buf len ?ph" by (auto simp: image_ok_def)
    from load_segment_get [OF s img(1) True, of m1] obtain m2 where
      "load_segment buf ?ph m1 = Some m2" "\<forall>a. m2 a = (if a \<in> seg ?ph then seg_byte m1 buf ?ph a else m1 a)" by blast
    moreover from this(2) have "m2 = (\<lambda>a. if p_type ?ph = PT_LOAD \<and> a \<in> seg ?ph then seg_byte m buf ?ph a else m1 a)"
      using True seg_byte_same [OF Suc.prems(1) img(1) s] by (intro ext) simp
    ultimately show ?thesis by blast
  qed (simp add: load_segment_def)
  then obtain m2 where m2: "load_segment buf ?ph m1 = Some m2"
    "m2 = (\<lambda>a. if p_type ?ph = PT_LOAD \<and> a \<in> seg ?ph then seg_byte m buf ?ph a else m1 a)" by blast
  have "\<forall>a \<in> block buf len. m2 a = m a"
    using ok mem Suc.prems(1) by (auto simp: m2(2) image_ok_def seg_ok_def)
  moreover have "x = ?n - Suc i" "Suc i \<le> ?n" using Suc.hyps(2) by simp_all
  ultimately obtain m' where "load_segments (Suc i) (buf + e_phoff (ehdr_at m buf)) buf m2 = Some m'"
    "m' = placed m buf (drop (Suc i) (headers m buf)) m2" "\<forall>a \<in> block buf len. m' a = m a"
    using Suc.hyps(1) by blast
  moreover have "drop i (headers m buf) = ?ph # drop (Suc i) (headers m buf)"
    using i by (simp add: headers_def Cons_nth_drop_Suc [symmetric])
  ultimately show ?case
    by (subst load_segments.simps) (simp add: e i p m2(1) m2(2) [symmetric] del: of_nat_mult)
qed

text \<open>
  An accepted image whose headers and file parts lie within its bytes and whose segments keep clear
  of it is loaded exactly: the entry point of its header is returned, each address of a loadable
  segment holds the byte of the file there, or zero behind the file's part (the last segment counts
  where two overlap), and no other byte of the memory changes.
\<close>
theorem elf_load_image:
  assumes "image_ok m buf len" and "accepted (ehdr_at m buf)"
  shows "\<exists>m'. elf_load buf m = Some (Some (e_entry (ehdr_at m buf)), m') \<and>
     (\<forall>a. m' a = (case find (\<lambda>ph. p_type ph = PT_LOAD \<and> a \<in> seg ph) (rev (headers m buf))
                   of None \<Rightarrow> m a | Some ph \<Rightarrow> seg_byte m buf ph a))"
proof -
  obtain m' where m': "load_segments 0 (buf + e_phoff (ehdr_at m buf)) buf m = Some m'"
    "m' = placed m buf (headers m buf) m" "\<forall>a \<in> block buf len. m' a = m a"
    using load_segments_placed [OF assms(1), of m 0] by auto
  have "ehdr_at m' buf = ehdr_at m buf"
    using assms(1) by (intro ehdr_same [OF m'(3)]) (auto simp: image_ok_def)
  with m'(1) assms(2) have "elf_load buf m = Some (Some (e_entry (ehdr_at m buf)), m')"
    by (simp add: elf_load_def accepted_def Let_def)
  then show ?thesis using placed_find [of m buf "headers m buf" m] m'(2) by metis
qed

definition demo_image :: "u8 list" where
  "demo_image = [0x7f, 0x45, 0x4C, 0x46, 1, 1, 1, 0, 0, 0, 0, 0, 0, 0, 0, 0, 2, 0, 3, 0, 1, 0, 0, 0, 0, 0x20, 0, 0, 52, 0, 0, 0,
     0, 0, 0, 0, 0, 0, 0, 0, 52, 0, 32, 0, 1, 0, 0, 0, 0, 0, 0, 0,
     1, 0, 0, 0, 84, 0, 0, 0, 0, 0x20, 0, 0, 0, 0x20, 0, 0, 4, 0, 0, 0, 8, 0, 0, 0, 5, 0, 0, 0, 0, 0, 0, 0, 0xde, 0xad, 0xbe, 0xef]"

definition demo_elf_mem :: mem where
  "demo_elf_mem a = (let i = unat a - 0x1000 in if i < length demo_image then demo_image ! i else 7)"

lemma length_demo_image: "length demo_image = 88"
  by (simp add: demo_image_def)

lemma upt_16: "[0..<16] = [0, 1, 2, 3, 4, 5, 6, 7, 8, 9, 10, 11, 12, 13, 14, 15 :: nat]"
  by (simp add: upt_rec)

lemma demo_elf_headers:
  "ehdr_at demo_elf_mem 0x1000 = \<lparr>e_ident = take 16 demo_image, e_type = 2, e_machine = 3, e_version = 1, e_entry = 0x2000,
     e_phoff = 52, e_shoff = 0, e_flags = 0, e_ehsize = 52, e_phentsize = 32, e_phnum = 1, e_shentsize = 0, e_shnum = 0,
     e_shstrndx = 0\<rparr>"
  "phdr_at demo_elf_mem 0x1034 = \<lparr>p_type = 1, p_offset = 84, p_vaddr = 0x2000, p_paddr = 0x2000, p_filesz = 4, p_memsz = 8,
     p_flags = 5, p_align = 0\<rparr>"
  by (simp_all add: ehdr_at_def phdr_at_def get16_def get32_def demo_elf_mem_def length_demo_image upt_16)
    (simp_all add: demo_image_def)

lemma demo_elf_list: "headers demo_elf_mem 0x1000 = [phdr_at demo_elf_mem 0x1034]"
  by (simp add: headers_def header_at_def demo_elf_headers(1) SIZEOF_PHDR_def)

theorem elf_load_image_witness:
  "\<exists>m'. elf_load 0x1000 demo_elf_mem = Some (Some 0x2000, m') \<and> map m' [0x1FFF, 0x2000, 0x2003, 0x2004, 0x2007, 0x2008] =
     [7, 0xde, 0xef, 0, 0, 7]"
proof -
  have "image_ok demo_elf_mem 0x1000 88" "accepted (ehdr_at demo_elf_mem 0x1000)"
    by (auto simp: image_ok_def accepted_def demo_elf_list demo_elf_headers seg_ok_def seg_def block_def SIZEOF_PHDR_def
        demo_image_def ELFMAG_def ET_EXEC_def EM_386_def)
  from elf_load_image [OF this] obtain m' where m':
    "elf_load 0x1000 demo_elf_mem = Some (Some 0x2000, m')"
    "\<forall>a. m' a = (case find (\<lambda>ph. p_type ph = PT_LOAD \<and> a \<in> seg ph) (rev (headers demo_elf_mem 0x1000))
       of None \<Rightarrow> demo_elf_mem a | Some ph \<Rightarrow> seg_byte demo_elf_mem 0x1000 ph a)"
    by (auto simp: demo_elf_headers)
  then show ?thesis
    by (auto simp: demo_elf_list demo_elf_headers PT_LOAD_def seg_def block_def seg_byte_def demo_elf_mem_def demo_image_def)
qed

end
