(* ===== verification/Lz4.thy ===== *)
theory Lz4
  imports Prelude
begin

text \<open>
  The LZ4 block decompressor, \<open>crypto/lz4.c\<close>. The buffers are byte lists of their sizes; an access
  outside of them is None. The signedness of \<open>char\<close> shows in the match offset, whose bytes the code
  reads through \<open>(uint16_t)source[i]\<close>.
\<close>

text \<open>What a copy loop or a sequence ends with: \<open>return -1\<close>, the end of the block, or the next position.\<close>

datatype outcome = Full "u8 list" | Over "u8 list" nat | Going nat "u8 list" nat

function extended_length :: "u8 list \<Rightarrow> nat \<Rightarrow> nat \<Rightarrow> (nat \<times> nat) option" where
  "extended_length source sp len =
     (if sp < length source
      then (let s = source ! sp
            in if 2 ^ 31 \<le> len + unat s then None
               else if s = 255 then extended_length source (Suc sp) (len + unat s)
               else Some (len + unat s, Suc sp))
      else None)"
  by pat_completeness auto
termination
  by (relation "measure (\<lambda>(source, sp, len). length source - sp)") auto

declare extended_length.simps [simp del]

definition lz4_length :: "u8 list \<Rightarrow> nat \<Rightarrow> nat \<Rightarrow> (nat \<times> nat) option" where
  "lz4_length source n sp = (if n = 15 then extended_length source sp n else Some (n, sp))"

primrec lz4_literals :: "nat \<Rightarrow> u8 list \<Rightarrow> int \<Rightarrow> nat \<Rightarrow> u8 list \<Rightarrow> nat \<Rightarrow> outcome option" where
  "lz4_literals 0 source max_output sp dest dp = Some (Going sp dest dp)"
| "lz4_literals (Suc n) source max_output sp dest dp =
     (if int dp \<ge> max_output then Some (Full dest)
      else do { c \<leftarrow> rd source sp; dest' \<leftarrow> wr dest dp c;
                lz4_literals n source max_output (Suc sp) dest' (Suc dp) })"

text \<open>A byte widened from \<open>char\<close>: the sign is extended.\<close>

definition lz4_offset :: "u8 list \<Rightarrow> nat \<Rightarrow> u16 option" where
  "lz4_offset source sp =
     do { lo \<leftarrow> rd source sp; hi \<leftarrow> rd source (Suc sp);
          Some (scast lo OR push_bit 8 (scast hi)) }"

primrec lz4_match :: "nat \<Rightarrow> int \<Rightarrow> nat \<Rightarrow> u8 list \<Rightarrow> nat \<Rightarrow> int \<Rightarrow> outcome option" where
  "lz4_match 0 max_output sp dest dp match_back = Some (Going sp dest dp)"
| "lz4_match (Suc n) max_output sp dest dp match_back =
     (if int dp \<ge> max_output then Some (Full dest)
      else do { c \<leftarrow> (if match_back < 0 then None else rd dest (nat match_back)); dest' \<leftarrow> wr dest dp c;
                lz4_match n max_output sp dest' (Suc dp) (match_back + 1) })"

text \<open>One round of the main loop.\<close>

definition lz4_sequence :: "u8 list \<Rightarrow> int \<Rightarrow> int \<Rightarrow> nat \<Rightarrow> u8 list \<Rightarrow> nat \<Rightarrow> outcome option" where
  "lz4_sequence source isize max_output sp dest dp =
     do { token \<leftarrow> rd source sp;
          (literal_len, sp) \<leftarrow> lz4_length source (unat (drop_bit 4 token)) (Suc sp);
          r \<leftarrow> lz4_literals literal_len source max_output sp dest dp;
          case r of
            Going sp dest dp \<Rightarrow>
              if int sp \<ge> isize then Some (Over dest dp)
              else do { offset \<leftarrow> lz4_offset source sp;
                        (match_len, sp) \<leftarrow> lz4_length source (unat (token AND 0x0F)) (sp + 2);
                        _ \<leftarrow> int32 (int (match_len + 4));
                        lz4_match (match_len + 4) max_output sp dest dp (int dp - int (unat offset)) }
          | _ \<Rightarrow> Some r }"

lemma extended_length_grows: "extended_length source sp len = Some (n, sp') \<Longrightarrow> sp < sp'"
proof (induction source sp len rule: extended_length.induct)
  case (1 source sp len)
  then show ?case
    by (subst (asm) extended_length.simps) (auto simp: Let_def split: if_splits bind_splits dest: Suc_lessD)
qed

lemma lz4_length_grows: "lz4_length source n sp = Some (m, sp') \<Longrightarrow> sp \<le> sp'"
  by (auto simp: lz4_length_def split: if_splits dest: extended_length_grows)

lemma lz4_literals_grows: "lz4_literals n source k sp dest dp = Some (Going sp' dest' dp') \<Longrightarrow> sp \<le> sp'"
proof (induction n arbitrary: sp dest dp)
  case (Suc n)
  then show ?case by (fastforce split: if_splits bind_splits)
qed simp

lemma lz4_match_keeps: "lz4_match n k sp dest dp match_back = Some (Going sp' dest' dp') \<Longrightarrow> sp' = sp"
  by (induction n arbitrary: dest dp match_back) (auto split: if_splits bind_splits)

lemma lz4_sequence_grows:
  assumes "lz4_sequence source isize k sp dest dp = Some (Going sp' dest' dp')"
  shows "sp < sp'"
  using assms
  by (auto simp: lz4_sequence_def split: bind_splits outcome.splits if_splits
      dest!: lz4_length_grows lz4_literals_grows lz4_match_keeps)

function lz4_loop :: "u8 list \<Rightarrow> int \<Rightarrow> int \<Rightarrow> nat \<Rightarrow> u8 list \<Rightarrow> nat \<Rightarrow> (int \<times> u8 list) option" where
  "lz4_loop source isize max_output sp dest dp =
     (if int sp < isize
      then (case lz4_sequence source isize max_output sp dest dp of
              None \<Rightarrow> None
            | Some (Full dest) \<Rightarrow> Some (-1, dest)
            | Some (Over dest dp) \<Rightarrow> Some (int dp, dest)
            | Some (Going sp dest dp) \<Rightarrow> lz4_loop source isize max_output sp dest dp)
      else Some (int dp, dest))"
  by pat_completeness auto
termination
  by (relation "measure (\<lambda>(source, isize, k, sp, dest, dp). nat isize - sp)") (auto dest!: lz4_sequence_grows)

declare lz4_loop.simps [simp del]

definition lz4_decompress_unknown_size :: "u8 list \<Rightarrow> u8 list \<Rightarrow> int \<Rightarrow> int \<Rightarrow> (int \<times> u8 list) option" where
  "lz4_decompress_unknown_size source dest isize max_output = lz4_loop source isize max_output 0 dest 0"

subsection \<open>The block format\<close>

text \<open>
  The format the decompressor is for: sequences of literals and a match (how far back, how long), and
  literals at the end. Lengths from 15 on continue in bytes that add up, 255 meaning ``go on''.
\<close>

datatype seq = Seq (literals: "u8 list") (distance: nat) (match_length: nat)

definition more_length :: "nat \<Rightarrow> u8 list" where
  "more_length n = (if n < 15 then [] else replicate ((n - 15) div 255) 255 @ [of_nat ((n - 15) mod 255)])"

definition token :: "nat \<Rightarrow> nat \<Rightarrow> u8" where
  "token a b = of_nat (16 * min 15 a + min 15 b)"

definition encode_literals :: "u8 list \<Rightarrow> nat \<Rightarrow> u8 list" where
  "encode_literals lits b = token (length lits) b # more_length (length lits) @ lits"

fun encode_seq :: "seq \<Rightarrow> u8 list" where
  "encode_seq (Seq lits d n) =
     encode_literals lits (n - 4) @ of_nat (d mod 256) # of_nat (d div 256) # more_length (n - 4)"

definition encode_block :: "seq list \<Rightarrow> u8 list \<Rightarrow> u8 list" where
  "encode_block seqs lits = concat (map encode_seq seqs) @ encode_literals lits 0"

text \<open>What a block stands for. A match may reach into the bytes it produces.\<close>

primrec repeat_back :: "nat \<Rightarrow> nat \<Rightarrow> u8 list \<Rightarrow> u8 list" where
  "repeat_back d 0 out = out"
| "repeat_back d (Suc n) out = repeat_back d n (out @ [out ! (length out - d)])"

fun expand :: "seq list \<Rightarrow> u8 list \<Rightarrow> u8 list \<Rightarrow> u8 list" where
  "expand [] lits out = out @ lits"
| "expand (Seq ls d n # seqs) lits out = expand seqs lits (repeat_back d n (out @ ls))"

text \<open>
  Sequences that are allowed: matches of at least four bytes that begin within the output. The last
  condition is not one of the format: see \<open>lz4_offset_high\<close>.
\<close>

fun seqs_ok :: "seq list \<Rightarrow> nat \<Rightarrow> bool" where
  "seqs_ok [] k \<longleftrightarrow> True"
| "seqs_ok (Seq ls d n # seqs) k \<longleftrightarrow>
     length ls < 2 ^ 31 \<and> 4 \<le> n \<and> n < 2 ^ 31 \<and> 1 \<le> d \<and> d < 2 ^ 16 \<and> d \<le> k + length ls \<and> d mod 256 < 128 \<and>
     seqs_ok seqs (k + length ls + n)"

lemma length_repeat_back [simp]: "length (repeat_back d n out) = length out + n"
  by (induction n arbitrary: out) auto

lemma length_expand_ge: "length out \<le> length (expand seqs lits out)"
proof (induction seqs arbitrary: out)
  case (Cons s seqs)
  obtain ls d n where s: "s = Seq ls d n" by (cases s)
  show ?case using Cons.IH [of "repeat_back d n (out @ ls)"] by (simp add: s)
qed simp

subsection \<open>Reading what was written\<close>

lemma rd_front: "drop sp source = x # rest \<Longrightarrow> rd source sp = Some x \<and> drop (Suc sp) source = rest"
proof -
  assume d: "drop sp source = x # rest"
  then have lt: "sp < length source" by (metis drop_all list.distinct(1) not_le)
  with d show ?thesis by (simp add: Cons_nth_drop_Suc [symmetric])
qed

lemma drop_append_len: "drop sp source = xs @ rest \<Longrightarrow> drop (sp + length xs) source = rest"
  by (metis add.commute append_eq_conv_conj drop_drop)

lemma extended_length_run:
  assumes "drop sp source = replicate k 255 @ of_nat r # rest" and "r < 255" and "len + 255 * k + r < 2 ^ 31"
  shows "extended_length source sp len = Some (len + 255 * k + r, sp + k + 1)"
  using assms(1,3)
proof (induction k arbitrary: sp len)
  case 0
  then have "rd source sp = Some (of_nat r)" using rd_front by fastforce
  moreover have u: "unat (of_nat r :: u8) = r" using assms(2) by (simp add: unat_of_nat)
  moreover from u assms(2) have "(of_nat r :: u8) \<noteq> 255" by auto
  ultimately show ?case using 0 by (subst extended_length.simps) (auto simp: rd_Some Let_def)
next
  case (Suc k)
  then have f: "rd source sp = Some 255" "drop (Suc sp) source = replicate k 255 @ of_nat r # rest"
    using rd_front [of sp source 255 "replicate k 255 @ of_nat r # rest"] by simp_all
  have "extended_length source (Suc sp) (len + 255) = Some (len + 255 + 255 * k + r, Suc sp + k + 1)"
    by (rule Suc.IH [OF f(2)]) (use Suc.prems(2) in simp)
  then show ?case using f(1) Suc.prems(2) by (subst extended_length.simps) (auto simp: rd_Some Let_def)
qed

lemma lz4_length_run:
  assumes "drop sp source = more_length n @ rest" and "n < 2 ^ 31"
  shows "lz4_length source (min 15 n) sp = Some (n, sp + length (more_length n))"
proof (cases "n < 15")
  case True
  then show ?thesis by (simp add: lz4_length_def more_length_def)
next
  case False
  then have "drop sp source = replicate ((n - 15) div 255) 255 @ of_nat ((n - 15) mod 255) # rest"
    using assms(1) by (simp add: more_length_def)
  moreover have "15 + 255 * ((n - 15) div 255) + (n - 15) mod 255 = n" using False by simp
  ultimately show ?thesis
    using False assms(2) extended_length_run [of sp source "(n - 15) div 255" "(n - 15) mod 255" rest 15]
    by (simp add: lz4_length_def more_length_def)
qed

lemma unat_token: "unat (token a b) = 16 * min 15 a + min 15 b"
proof -
  have "16 * min 15 a + min 15 b < 256" by (simp add: min_def)
  then show ?thesis by (simp add: token_def unat_of_nat del: of_nat_add of_nat_mult)
qed

lemma token_fields: "unat (drop_bit 4 (token a b)) = min 15 a" "unat (token a b AND 0x0F) = min 15 b"
proof -
  show "unat (drop_bit 4 (token a b)) = min 15 a"
    using unat_token [of a b] by (simp add: unat_drop_bit_eq drop_bit_eq_div unat_div)
  have "unat (take_bit 4 (token a b)) = min 15 b"
    by (simp only: unsigned_take_bit_eq) (simp add: unat_token take_bit_eq_mod)
  then have "unat (token a b AND mask 4) = min 15 b" by (simp only: take_bit_eq_mask)
  then show "unat (token a b AND 0x0F) = min 15 b" by (simp add: mask_eq_exp_minus_1)
qed

lemma lz4_literals_run:
  assumes "drop sp source = lits @ rest" and "dest = out @ tail" and "int (length out) \<le> k" and "k \<le> int (length dest)"
  shows "\<exists>d. lz4_literals (length lits) source k sp dest (length out) =
      Some (if int (length out + length lits) \<le> k
            then Going (sp + length lits) ((out @ lits) @ drop (length lits) tail) (length out + length lits) else Full d)"
  using assms
proof (induction lits arbitrary: sp dest out tail)
  case Nil
  then show ?case by simp
next
  case (Cons x lits)
  note f = rd_front [OF Cons.prems(1) [unfolded append_Cons]]
  show ?case
  proof (cases "int (length out) < k")
    case False
    with Cons.prems(3) show ?thesis by simp
  next
    case True
    with Cons.prems(2,4) obtain y ys where tail: "tail = y # ys" by (cases tail) auto
    with Cons.prems(2) have "wr dest (length out) x = Some ((out @ [x]) @ ys)" by (simp add: list_update_append)
    moreover obtain d where "lz4_literals (length lits) source k (Suc sp) ((out @ [x]) @ ys) (length (out @ [x])) =
        Some (if int (length (out @ [x]) + length lits) \<le> k
              then Going (Suc sp + length lits) (((out @ [x]) @ lits) @ drop (length lits) ys) (length (out @ [x]) + length lits)
              else Full d)"
      using Cons.IH [of "Suc sp" "(out @ [x]) @ ys" "out @ [x]" ys] f True Cons.prems tail by auto
    ultimately show ?thesis using f True tail by (intro exI [of _ d]) simp
  qed
qed

lemma lz4_match_run:
  assumes "dest = out @ tail" and "int (length out) \<le> k" and "k \<le> int (length dest)" and "1 \<le> d" and "d \<le> length out"
  shows "\<exists>e. lz4_match n k sp dest (length out) (int (length out) - int d) =
      Some (if int (length out + n) \<le> k then Going sp (repeat_back d n out @ drop n tail) (length out + n) else Full e)"
  using assms
proof (induction n arbitrary: dest out tail)
  case 0
  then show ?case by simp
next
  case (Suc n)
  show ?case
  proof (cases "int (length out) < k")
    case False
    with Suc.prems(2) show ?thesis by simp
  next
    case True
    with Suc.prems(1,3) obtain y ys where tail: "tail = y # ys" by (cases tail) auto
    define c where "c = out ! (length out - d)"
    define out1 where "out1 = out @ [c]"
    have len: "length out1 = Suc (length out)" "dest = out @ y # ys" "length dest = length (out1 @ ys)"
      using Suc.prems(1) tail by (simp_all add: out1_def)
    have b: "int (length out) - int d = int (length out - d)" "length out - d < length out" using Suc.prems(4,5) by auto
    have rb: "repeat_back d (Suc n) out = repeat_back d n out1" by (simp add: out1_def c_def)
    have "rd dest (nat (int (length out) - int d)) = Some c"
      unfolding b(1) nat_int len(2) using b(2) by (simp add: nth_append c_def)
    moreover have "wr dest (length out) c = Some (out1 @ ys)" by (simp add: len(2) out1_def list_update_append)
    moreover have "\<exists>e. lz4_match n k sp (out1 @ ys) (length out1) (int (length out1) - int d) =
        Some (if int (length out1 + n) \<le> k then Going sp (repeat_back d n out1 @ drop n ys) (length out1 + n) else Full e)"
    proof (rule Suc.IH [OF refl])
      show "int (length out1) \<le> k" "d \<le> length out1" using True Suc.prems(5) len(1) by simp_all
      show "k \<le> int (length (out1 @ ys))" using Suc.prems(3) len(3) by simp
    qed (rule Suc.prems(4))
    moreover have "int (length out1) - int d = int (length out) - int d + 1" "(int (length out) - int d < 0) = False"
      "(k \<le> int (length out)) = False"
      using len(1) Suc.prems(5) True by simp_all
    ultimately show ?thesis
      by (simp only: lz4_match.simps rb tail drop_Suc_Cons len(1) if_False bind.bind_lunit
          add_Suc_right add_Suc)
  qed
qed

lemma lz4_offset_run:
  assumes "drop sp source = of_nat (d mod 256) # of_nat (d div 256) # rest" and "d < 2 ^ 16" and "d mod 256 < 128"
  shows "lz4_offset source sp = Some (of_nat d)"
proof -
  define lo hi :: u8 where "lo = of_nat (take_bit 8 d)" and "hi = of_nat (drop_bit 8 d)"
  have "d mod 256 = take_bit 8 d" "d div 256 = drop_bit 8 d" by (simp_all add: take_bit_eq_mod drop_bit_eq_div)
  with assms(1) have "drop sp source = lo # hi # rest" by (simp add: lo_def hi_def)
  then have r: "rd source sp = Some lo" "rd source (Suc sp) = Some hi" by (metis rd_front)+
  have "\<not> bit (d mod 256) 7" using assms(3) by (simp add: bit_iff_odd)
  then have low: "\<not> bit d 7" by (simp add: \<open>d mod 256 = take_bit 8 d\<close> bit_take_bit_iff)
  have "\<not> bit d n" if "16 \<le> n" for n
  proof -
    have "(2 :: nat) ^ 16 \<le> 2 ^ n" using that by (intro power_increasing) auto
    then show ?thesis using assms(2) by (simp add: bit_iff_odd)
  qed
  note high = this
  have "(scast lo :: u16) OR push_bit 8 (scast hi) = of_nat d"
  proof (rule bit_word_eqI)
    fix n assume "n < LENGTH(16)"
    then consider "n < 7" | "n = 7" | "8 \<le> n" "n < 15" | "n = 15" by fastforce
    then show "bit ((scast lo :: u16) OR push_bit 8 (scast hi)) n = bit (of_nat d :: u16) n"
      using low by cases (auto simp: lo_def hi_def bit_simps min_def)
  qed
  then show ?thesis by (simp add: lz4_offset_def r)
qed

lemma lz4_header_run:
  assumes "drop sp source = encode_literals ls b @ rest" and "length ls < 2 ^ 31"
  shows "rd source sp = Some (token (length ls) b) \<and>
    lz4_length source (min 15 (length ls)) (Suc sp) = Some (length ls, Suc sp + length (more_length (length ls))) \<and>
    drop (Suc sp + length (more_length (length ls))) source = ls @ rest"
proof -
  have "drop sp source = token (length ls) b # more_length (length ls) @ ls @ rest"
    using assms(1) by (simp add: encode_literals_def)
  from rd_front [OF this] have t: "rd source sp = Some (token (length ls) b)"
    "drop (Suc sp) source = more_length (length ls) @ ls @ rest" by auto
  with lz4_length_run [OF t(2) assms(2)] drop_append_len [OF t(2)] show ?thesis by simp
qed

lemma lz4_sequence_run:
  assumes src: "drop sp source = encode_seq (Seq ls d n) @ rest" and dest: "dest = out @ tail"
    and k: "int (length out) \<le> k" "k \<le> int (length dest)"
    and ok: "seqs_ok [Seq ls d n] (length out)" and isize: "int (sp + length (encode_seq (Seq ls d n))) \<le> isize"
  shows "\<exists>e. lz4_sequence source isize k sp dest (length out) =
      Some (if int (length out + length ls + n) \<le> k
            then Going (sp + length (encode_seq (Seq ls d n))) (repeat_back d n (out @ ls) @ drop (length ls + n) tail)
                   (length out + length ls + n)
            else Full e)"
proof -
  from ok have ls: "length ls < 2 ^ 31" and n: "4 \<le> n" "n - 4 < 2 ^ 31" "n < 2 ^ 31" and d: "1 \<le> d" "d < 2 ^ 16" "d \<le> length (out @ ls)"
    "d mod 256 < 128" by auto
  let ?m = "of_nat (d mod 256) # of_nat (d div 256) # more_length (n - 4) :: u8 list"
  have s: "drop sp source = encode_literals ls (n - 4) @ ?m @ rest" using src by simp
  define p where "p = Suc sp + length (more_length (length ls))"
  define q where "q = p + length ls"
  have h: "rd source sp = Some (token (length ls) (n - 4))" "lz4_length source (min 15 (length ls)) (Suc sp) = Some (length ls, p)"
    "drop p source = ls @ ?m @ rest" using lz4_header_run [OF s ls] by (simp_all add: p_def)
  have dq: "drop q source = ?m @ rest" using drop_append_len [OF h(3)] by (simp add: q_def)
  have q2: "drop (q + 2) source = more_length (n - 4) @ rest"
    using drop_append_len [of q source "[of_nat (d mod 256), of_nat (d div 256)]" "more_length (n - 4) @ rest"] dq by simp
  have q_end: "q + 2 + length (more_length (n - 4)) = sp + length (encode_seq (Seq ls d n))"
    by (simp add: q_def p_def encode_literals_def)
  then have q_lt: "\<not> isize \<le> int q" using isize by linarith
  obtain e1 where lit: "lz4_literals (length ls) source k p dest (length out) =
      Some (if int (length out + length ls) \<le> k then Going q ((out @ ls) @ drop (length ls) tail) (length out + length ls) else Full e1)"
    using lz4_literals_run [OF h(3) dest k] unfolding q_def by blast
  show ?thesis
  proof (cases "int (length out + length ls) \<le> k")
    case False
    then show ?thesis by (intro exI [of _ e1]) (simp add: lz4_sequence_def h token_fields lit)
  next
    case True
    have off: "lz4_offset source q = Some (of_nat d)" by (rule lz4_offset_run) (use dq d in auto)
    have ud: "unat (of_nat d :: u16) = d" using d(2) by (simp add: unat_of_nat)
    have len: "lz4_length source (min 15 (n - 4)) (q + 2) = Some (n - 4, q + 2 + length (more_length (n - 4)))"
      by (rule lz4_length_run [OF q2 n(2)])
    have fits: "int (length (out @ ls)) \<le> k" "k \<le> int (length ((out @ ls) @ drop (length ls) tail))"
      using True k(2) dest by auto
    obtain e where m: "lz4_match n k (q + 2 + length (more_length (n - 4))) ((out @ ls) @ drop (length ls) tail) (length (out @ ls))
        (int (length (out @ ls)) - int d) = Some (if int (length (out @ ls) + n) \<le> k
          then Going (q + 2 + length (more_length (n - 4))) (repeat_back d n (out @ ls) @ drop n (drop (length ls) tail)) (length (out @ ls) + n)
          else Full e)"
      using lz4_match_run [OF refl fits d(1,3)] by blast
    have n4: "n - 4 + 4 = n" using n(1) by simp
    have lit': "lz4_literals (length ls) source k p dest (length out) =
        Some (Going q ((out @ ls) @ drop (length ls) tail) (length (out @ ls)))" using lit True by simp
    have i32: "int32 (int n) = Some (int n)" using n(3) by simp
    have "lz4_sequence source isize k sp dest (length out) = lz4_match n k (q + 2 + length (more_length (n - 4)))
        ((out @ ls) @ drop (length ls) tail) (length (out @ ls)) (int (length (out @ ls)) - int d)"
      by (simp only: lz4_sequence_def h(1) token_fields h(2) lit' outcome.case off ud len q_lt if_False
          bind.bind_lunit prod.case n4 i32)
    then show ?thesis using m q_end by (intro exI [of _ e]) (simp add: add.commute)
  qed
qed

lemma lz4_end_run:
  assumes src: "drop sp source = encode_literals lits 0 @ rest" and dest: "dest = out @ tail"
    and k: "int (length out) \<le> k" "k \<le> int (length dest)" and "length lits < 2 ^ 31"
  shows "\<exists>e. lz4_sequence source (int (sp + length (encode_literals lits 0))) k sp dest (length out) =
      Some (if int (length out + length lits) \<le> k then Over ((out @ lits) @ drop (length lits) tail) (length out + length lits) else Full e)"
proof -
  note h = lz4_header_run [OF src assms(5)]
  define p where "p = Suc sp + length (more_length (length lits))"
  have e: "sp + length (encode_literals lits 0) = p + length lits" by (simp add: p_def encode_literals_def)
  from h have h: "rd source sp = Some (token (length lits) 0)"
    "lz4_length source (min 15 (length lits)) (Suc sp) = Some (length lits, p)" "drop p source = lits @ rest"
    by (simp_all add: p_def)
  from lz4_literals_run [OF h(3) dest k] show ?thesis
    by (auto simp: lz4_sequence_def h token_fields e)
qed

lemma length_expand_split: "length (expand (Seq ls d n # seqs) lits out) \<ge> length out + length ls + n"
  using length_expand_ge [of "repeat_back d n (out @ ls)" seqs lits] by simp

lemma lz4_loop_run:
  assumes "drop sp source = encode_block seqs lits @ rest" and "dest = out @ tail"
    and "int (length out) \<le> k" and "k \<le> int (length dest)" and "seqs_ok seqs (length out)" and "length lits < 2 ^ 31"
  shows "\<exists>e. lz4_loop source (int (sp + length (encode_block seqs lits))) k sp dest (length out) =
      Some (if int (length (expand seqs lits out)) \<le> k then int (length (expand seqs lits out)) else -1, e) \<and>
      (int (length (expand seqs lits out)) \<le> k \<longrightarrow> take (length (expand seqs lits out)) e = expand seqs lits out)"
  using assms
proof (induction seqs arbitrary: sp dest out tail)
  case Nil
  have b: "drop sp source = encode_literals lits 0 @ rest" using Nil.prems(1) by (simp add: encode_block_def)
  have lt: "int sp < int (sp + length (encode_literals lits 0))" by (simp add: encode_literals_def)
  obtain e where "lz4_sequence source (int (sp + length (encode_literals lits 0))) k sp dest (length out) =
      Some (if int (length out + length lits) \<le> k then Over ((out @ lits) @ drop (length lits) tail) (length out + length lits) else Full e)"
    using lz4_end_run [OF b Nil.prems(2,3,4,6)] by blast
  then show ?case
    unfolding encode_block_def list.map concat.simps append_Nil by (subst lz4_loop.simps) (use lt in simp)
next
  case (Cons s seqs)
  obtain ls d n where s: "s = Seq ls d n" by (cases s)
  let ?enc = "encode_seq (Seq ls d n)" and ?rest = "encode_block seqs lits"
  have all: "encode_block (s # seqs) lits = ?enc @ ?rest" by (simp only: s encode_block_def list.map concat.simps append_assoc)
  have src: "drop sp source = ?enc @ ?rest @ rest" using Cons.prems(1) unfolding all by (simp only: append_assoc)
  have one: "seqs_ok [Seq ls d n] (length out)" "seqs_ok seqs (length out + length ls + n)"
    using Cons.prems(5) by (simp_all add: s)
  define isize where "isize = int (sp + length (?enc @ ?rest))"
  have lt: "int sp < isize" "int (sp + length ?enc) \<le> isize" by (simp_all add: isize_def encode_literals_def)
  obtain e where e: "lz4_sequence source isize k sp dest (length out) =
      Some (if int (length out + length ls + n) \<le> k
            then Going (sp + length ?enc) (repeat_back d n (out @ ls) @ drop (length ls + n) tail) (length out + length ls + n) else Full e)"
    using lz4_sequence_run [OF src Cons.prems(2,3,4) one(1) lt(2)] by blast
  show ?case
  proof (cases "int (length out + length ls + n) \<le> k")
    case False
    then have "\<not> int (length (expand (s # seqs) lits out)) \<le> k"
      using length_expand_split [of out ls n d seqs lits] unfolding s by linarith
    with False e lt(1) show ?thesis unfolding all isize_def [symmetric] by (subst lz4_loop.simps) simp
  next
    case True
    define out1 where "out1 = repeat_back d n (out @ ls)"
    have len: "length out1 = length out + length ls + n" by (simp add: out1_def)
    have ex: "expand (s # seqs) lits out = expand seqs lits out1" by (simp add: s out1_def)
    have "lz4_loop source isize k sp dest (length out) =
        lz4_loop source isize k (sp + length ?enc) (out1 @ drop (length ls + n) tail) (length out1)"
      by (subst lz4_loop.simps) (simp only: e True lt(1) if_True option.case outcome.case out1_def [symmetric] len)
    moreover have "isize = int (sp + length ?enc + length ?rest)" by (simp add: isize_def)
    moreover have "drop (sp + length ?enc) source = ?rest @ rest" by (rule drop_append_len [OF src])
    ultimately show ?thesis
      using Cons.IH [of "sp + length ?enc" "out1 @ drop (length ls + n) tail" out1 "drop (length ls + n) tail"]
        one(2) True Cons.prems(2,4,6) unfolding all isize_def [symmetric] ex by (simp add: len)
  qed
qed

subsection \<open>The decompressor\<close>

text \<open>
  C24: A block of the LZ4 format is decompressed to exactly what it stands for, and its length is
  returned, when that fits the limit; otherwise the result is -1. Nothing is read or written outside of
  the buffers, and what follows the block in the source does not matter. Match distances whose low
  byte is 128 or more are excluded, since the code misreads them.
\<close>
theorem lz4_decompresses:
  assumes "seqs_ok seqs 0" and "length lits < 2 ^ 31" and "0 \<le> max_output" and "max_output \<le> int (length dest)"
  shows "\<exists>e. lz4_decompress_unknown_size (encode_block seqs lits @ rest) dest (int (length (encode_block seqs lits))) max_output =
      Some (if int (length (expand seqs lits [])) \<le> max_output then int (length (expand seqs lits [])) else -1, e) \<and>
      (int (length (expand seqs lits [])) \<le> max_output \<longrightarrow> take (length (expand seqs lits [])) e = expand seqs lits [])"
  using lz4_loop_run [of 0 "encode_block seqs lits @ rest" seqs lits rest dest "[]" dest max_output] assms
  by (simp add: lz4_decompress_unknown_size_def)

theorem lz4_decompresses_witness:
  "\<exists>e. lz4_decompress_unknown_size [0x32, 1, 2, 3, 2, 0, 0x10, 9] (replicate 12 0) 8 12 = Some (10, e) \<and>
     take 10 e = [1, 2, 3, 2, 3, 2, 3, 2, 3, 9]"
proof -
  define B E where "B = encode_block [Seq [1, 2, 3] 2 6] [9]" and "E = expand [Seq [1, 2, 3] 2 6] [9] []"
  have B: "B = [0x32, 1, 2, 3, 2, 0, 0x10, 9]" "int (length B) = 8"
    by (simp_all add: B_def encode_block_def encode_literals_def token_def more_length_def)
  have E: "E = [1, 2, 3, 2, 3, 2, 3, 2, 3, 9]" by (simp add: E_def numeral_eq_Suc)
  then have len: "length E = 10" by simp
  obtain e where "lz4_decompress_unknown_size B (replicate 12 0) (int (length B)) 12 = Some (int (length E), e)"
    "take (length E) e = E"
    using lz4_decompresses [of "[Seq [1, 2, 3] 2 6]" "[9]" 12 "replicate 12 0" "[]", folded B_def E_def] len by auto
  then show ?thesis unfolding B(2) len unfolding B(1) E by auto
qed

text \<open>A low distance byte of 128 or more is sign-extended, so every such distance is read as 65408 or more.\<close>

lemma lz4_offset_high:
  assumes "drop sp source = lo # hi # rest" and "bit lo 7"
  shows "\<exists>d. lz4_offset source sp = Some d \<and> 65408 \<le> unat d"
proof -
  have r: "rd source sp = Some lo" "rd source (Suc sp) = Some hi" using assms(1) by (metis rd_front)+
  define w :: u16 where "w = scast lo OR push_bit 8 (scast hi)"
  have "w AND 0xFF80 = 0xFF80"
  proof (rule bit_word_eqI)
    fix n assume n: "n < LENGTH(16)"
    have "bit (0xFF80 :: u16) n \<longleftrightarrow> 7 \<le> n" if "n < 16" for n
      using that by (simp add: less_Suc_eq numeral_eq_Suc) (elim disjE; simp)
    with n assms(2) show "bit (w AND 0xFF80) n = bit (0xFF80 :: u16) n" by (auto simp: w_def bit_simps min_def)
  qed
  moreover have "w AND 0xFF80 \<le> w" by (rule word_and_le2)
  ultimately have "0xFF80 \<le> w" by simp
  then show ?thesis by (simp add: lz4_offset_def r w_def word_le_nat_alt)
qed

subsection \<open>The other formats\<close>

text \<open>
  \<open>crypto/gzip.c\<close> and \<open>crypto/zstd.c\<close> check the headers and report a size; neither writes a byte
  of output. The result is the return code with the length reported.
\<close>

definition GZIP_MAGIC_1 :: u8 where "GZIP_MAGIC_1 = 0x1F"
definition GZIP_MAGIC_2 :: u8 where "GZIP_MAGIC_2 = 0x8B"
definition GZIP_CM_DEFLATE :: u8 where "GZIP_CM_DEFLATE = 8"
definition ZSTD_MAGIC_NUMBER :: u32 where "ZSTD_MAGIC_NUMBER = 0xFD2FB528"

function gzip_skip_name :: "u8 list \<Rightarrow> u32 \<Rightarrow> nat \<Rightarrow> nat option" where
  "gzip_skip_name src src_len off =
     (if off < length src
      then if src ! off \<noteq> 0 \<and> off < unat src_len then gzip_skip_name src src_len (Suc off) else Some (Suc off)
      else None)"
  by pat_completeness auto
termination
  by (relation "measure (\<lambda>(src, n, off). length src - off)") auto

declare gzip_skip_name.simps [simp del]

definition gzip_decompress :: "u8 list \<Rightarrow> u32 \<Rightarrow> u32 \<Rightarrow> (int \<times> u32) option" where
  "gzip_decompress src src_len dest_len =
     (if src_len < 10 then Some (-1, dest_len)
      else do { m1 \<leftarrow> rd src 0; m2 \<leftarrow> rd src 1;
                if m1 \<noteq> GZIP_MAGIC_1 \<or> m2 \<noteq> GZIP_MAGIC_2 then Some (-1, dest_len)
                else do { cm \<leftarrow> rd src 2;
                          if cm \<noteq> GZIP_CM_DEFLATE then Some (-2, dest_len)
                          else do { flags \<leftarrow> rd src 3;
                                    _ \<leftarrow> (if flags AND 0x08 \<noteq> 0 then gzip_skip_name src src_len 10 else Some 10);
                                    Some (0, src_len * 3) } } })"

definition zstd_decompress_core :: "u8 list \<Rightarrow> u32 \<Rightarrow> u32 \<Rightarrow> int option" where
  "zstd_decompress_core src src_len max_dest =
     (if src_len < 4 then Some (-1)
      else do { b0 \<leftarrow> rd src 0; b1 \<leftarrow> rd src 1; b2 \<leftarrow> rd src 2; b3 \<leftarrow> rd src 3;
                if (ucast b0 OR push_bit 8 (ucast b1) OR push_bit 16 (ucast b2) OR push_bit 24 (ucast b3)) \<noteq> ZSTD_MAGIC_NUMBER
                then Some (-1)
                else if src_len * 2 > max_dest then Some (-2) else Some (sint (src_len * 2)) })"

text \<open>A name that fills the source makes gzip read behind it.\<close>

lemma gzip_name_overrun: "gzip_decompress ([0x1F, 0x8B, 8, 8, 0, 0, 0, 0, 0, 3] @ [65, 66]) 12 n = None"
  by (simp add: gzip_decompress_def GZIP_MAGIC_1_def GZIP_MAGIC_2_def GZIP_CM_DEFLATE_def gzip_skip_name.simps)

end
