(* ===== verification/Sysctl.thy ===== *)
theory Sysctl
  imports Printk CString_Copy
begin

text \<open>
  The kernel parameters, \<open>kernel/sysctl.c\<close>: the three variables behind the table, the table with its
  sentinel, and its list, get and set operations. \<open>sysctl_get\<close> writes to an \<open>int\<close> or to a
  character array, which is the second component of its result.
\<close>

definition SYSCTL_TYPE_INT :: int where "SYSCTL_TYPE_INT = 0"
definition SYSCTL_TYPE_STRING :: int where "SYSCTL_TYPE_STRING = 1"

record sysctl_vars =
  kernel_debug_level :: int
  kernel_hostname :: "char list"
  security_pledge_log :: int

definition sysctl_boot :: sysctl_vars where
  "sysctl_boot = \<lparr>kernel_debug_level = 1, kernel_hostname = ''BlueOS-Machine'' @ replicate 18 NUL, security_pledge_log = 1\<rparr>"

text \<open>The address in the field \<open>value\<close> of an entry.\<close>

datatype sysctl_address = Debug_Level | Hostname | Pledge_Log

record sysctl_entry =
  se_name :: "char list"
  se_value :: sysctl_address
  se_type :: int
  se_writable :: bool

definition sysctl_table :: "sysctl_entry list" where
  "sysctl_table =
     [\<lparr>se_name = ''kernel.debug'' @ [NUL], se_value = Debug_Level, se_type = SYSCTL_TYPE_INT, se_writable = True\<rparr>,
      \<lparr>se_name = ''kernel.hostname'' @ [NUL], se_value = Hostname, se_type = SYSCTL_TYPE_STRING, se_writable = True\<rparr>,
      \<lparr>se_name = ''security.pledge_log'' @ [NUL], se_value = Pledge_Log, se_type = SYSCTL_TYPE_INT, se_writable = True\<rparr>]"

text \<open>\<open>*(int *)value\<close>; an access of the other type through the address does not occur and is None.\<close>

fun get_int :: "sysctl_address \<Rightarrow> sysctl_vars \<Rightarrow> int option" where
  "get_int Debug_Level s = Some (kernel_debug_level s)"
| "get_int Pledge_Log s = Some (security_pledge_log s)"
| "get_int Hostname s = None"

fun set_int :: "sysctl_address \<Rightarrow> int \<Rightarrow> sysctl_vars \<Rightarrow> sysctl_vars option" where
  "set_int Debug_Level k s = Some (s\<lparr>kernel_debug_level := k\<rparr>)"
| "set_int Pledge_Log k s = Some (s\<lparr>security_pledge_log := k\<rparr>)"
| "set_int Hostname k s = None"

fun get_string :: "sysctl_address \<Rightarrow> sysctl_vars \<Rightarrow> char list option" where
  "get_string Hostname s = Some (kernel_hostname s)"
| "get_string _ s = None"

fun sysctl_atoi_from :: "int \<Rightarrow> char list \<Rightarrow> int option" where
  "sysctl_atoi_from res [] = None"
| "sysctl_atoi_from res (c # str) =
     (if c = NUL \<or> \<not> is_digit c then Some res
      else do { r \<leftarrow> int32 (res * 10); r' \<leftarrow> int32 (r + of_char c); sysctl_atoi_from (r' - 48) str })"

definition sysctl_atoi :: "char list \<Rightarrow> int option" where
  "sysctl_atoi str =
     do { c \<leftarrow> rd str 0;
          (if c = CHR ''-'' then map_option uminus (sysctl_atoi_from 0 (drop 1 str)) else sysctl_atoi_from 0 str) }"

text \<open>The entry a name is found in, by \<open>strcmp\<close> with each.\<close>

fun find_entry :: "sysctl_entry list \<Rightarrow> char list \<Rightarrow> sysctl_entry option option" where
  "find_entry [] name = Some None"
| "find_entry (e # es) name =
     do { r \<leftarrow> strcmp (se_name e) name; (if r = 0 then Some (Some e) else find_entry es name) }"

datatype out_buffer = Out_Int int | Out_Text "char list"

text \<open>\<open>strncpy(d, s, 31); d[31] = 0\<close>\<close>

definition copy_31 :: "char list \<Rightarrow> char list \<Rightarrow> char list option" where
  "copy_31 d s = do { d1 \<leftarrow> strncpy d s 31; wr d1 31 NUL }"

text \<open>
  The name goes to \<open>strcmp\<close> without a test (\<open>sysctl_set\<close> has one): a null pointer is dereferenced there,
  as the table is not empty.
\<close>

definition sysctl_get :: "char list option \<Rightarrow> char list \<Rightarrow> int \<Rightarrow> sysctl_vars \<Rightarrow> (int \<times> out_buffer option) option" where
  "sysctl_get name buf type_expected s =
     do { nm \<leftarrow> name;
          r \<leftarrow> find_entry sysctl_table nm;
          case r of
            None \<Rightarrow> Some (-2, None)
          | Some e \<Rightarrow>
              if se_type e \<noteq> type_expected then Some (-3, None)
              else if se_type e = SYSCTL_TYPE_INT then do { k \<leftarrow> get_int (se_value e) s; Some (0, Some (Out_Int k)) }
              else do { t \<leftarrow> get_string (se_value e) s; b \<leftarrow> copy_31 buf t; Some (0, Some (Out_Text b)) } }"

definition sysctl_set :: "char list option \<Rightarrow> char list option \<Rightarrow> sysctl_vars \<Rightarrow> (int \<times> sysctl_vars) option" where
  "sysctl_set name new_value s =
     (case (name, new_value) of
        (Some nm, Some v) \<Rightarrow>
          do { r \<leftarrow> find_entry sysctl_table nm;
               case r of
                 None \<Rightarrow> Some (-2, s)
               | Some e \<Rightarrow>
                   if \<not> se_writable e then Some (-1, s)
                   else if se_type e = SYSCTL_TYPE_INT
                   then do { k \<leftarrow> sysctl_atoi v; s' \<leftarrow> set_int (se_value e) k s; Some (0, s') }
                   else if se_type e = SYSCTL_TYPE_STRING
                   then do { t \<leftarrow> get_string (se_value e) s; t' \<leftarrow> copy_31 t v; Some (0, s\<lparr>kernel_hostname := t'\<rparr>) }
                   else Some (0, s) }
      | _ \<Rightarrow> Some (-4, s))"

text \<open>The text \<open>sysctl_list\<close> prints.\<close>

definition sysctl_line :: "sysctl_vars \<Rightarrow> sysctl_entry \<Rightarrow> char list option" where
  "sysctl_line s e =
     do { t \<leftarrow> print_text ([ESC] @ ''[36m  %s'' @ [ESC] @ ''[0m = '') [AStr (Some (se_name e))];
          u \<leftarrow> (if se_type e = SYSCTL_TYPE_INT
               then do { k \<leftarrow> get_int (se_value e) s; print_text (''%d'' @ [LF]) [AInt (of_int k)] }
               else if se_type e = SYSCTL_TYPE_STRING
               then do { h \<leftarrow> get_string (se_value e) s; print_text ([CHR 0x22] @ ''%s'' @ [CHR 0x22, LF]) [AStr (Some h)] }
               else Some []);
          Some (t @ u) }"

fun sysctl_lines :: "sysctl_vars \<Rightarrow> sysctl_entry list \<Rightarrow> char list option" where
  "sysctl_lines s [] = Some []"
| "sysctl_lines s (e # es) = do { t \<leftarrow> sysctl_line s e; u \<leftarrow> sysctl_lines s es; Some (t @ u) }"

definition sysctl_list :: "sysctl_vars \<Rightarrow> char list option" where
  "sysctl_list s =
     do { h \<leftarrow> print_text ([LF, ESC] @ ''[35m--- BlueOS Kernel Parameters Tree ---'' @ [ESC] @ ''[0m'' @ [LF]) [];
          t \<leftarrow> sysctl_lines s sysctl_table;
          Some (h @ t @ [LF]) }"

subsection \<open>Numbers and names\<close>

definition number :: "int \<Rightarrow> char list" where
  "number k = (if k < 0 then CHR ''-'' # dec (nat (- k)) else dec (nat k))"

lemma sysctl_atoi_from_digits:
  assumes "\<forall>c \<in> set ds. is_digit c" and "0 \<le> r" and "digits_val r ds < 2 ^ 31 - 48"
  shows "sysctl_atoi_from r (ds @ NUL # rest) = Some (digits_val r ds)"
  using assms
proof (induction ds arbitrary: r)
  case (Cons d ds)
  have d: "is_digit d" "(48 :: int) \<le> of_char d" "(of_char d :: int) \<le> 57" "d \<noteq> NUL"
    using Cons.prems(1) is_digit_int NUL_not_digit by auto
  let ?r = "r * 10 + (of_char d - 48)"
  have le: "?r \<le> digits_val ?r ds" using Cons.prems(1,2) d by (intro digits_val_mono) auto
  with Cons.prems(3) have "?r < 2 ^ 31 - 48" by simp
  with Cons.prems(2) d have "int32 (r * 10) = Some (r * 10)" "int32 (r * 10 + of_char d) = Some (r * 10 + of_char d)" by simp_all
  with Cons.IH [of ?r] Cons.prems d show ?case by (simp add: add_diff_eq)
qed simp

lemma sysctl_atoi_number:
  assumes "cstr v (number k)" and "\<bar>k\<bar> < 2 ^ 31 - 48"
  shows "sysctl_atoi v = Some k"
proof -
  obtain rest where v: "v = number k @ NUL # rest" using assms(1) by (auto simp: cstr_def)
  have val: "digits_val 0 (dec n) = int n" for n using digits_val_dec [of 0 n] by simp
  have dig: "sysctl_atoi_from 0 (dec n @ NUL # rest) = Some (int n)" if "int n < 2 ^ 31 - 48" for n
    using sysctl_atoi_from_digits [of "dec n" 0 rest] dec_digits that by (auto simp: val)
  show ?thesis
  proof (cases "k < 0")
    case True
    with dig [of "nat (- k)"] assms(2) show ?thesis by (simp add: sysctl_atoi_def v number_def)
  next
    case False
    then have "v = dec (nat k) @ NUL # rest" by (simp add: v number_def)
    moreover obtain c cs where "dec (nat k) = c # cs" using dec_nonempty by (cases "dec (nat k)") auto
    moreover from this dec_digits [of "nat k"] have "c \<noteq> CHR ''-''" by (auto simp: is_digit_def)
    ultimately show ?thesis using dig [of "nat k"] False assms(2) by (simp add: sysctl_atoi_def)
  qed
qed

lemma copy_31_cstr:
  assumes "cstr src s" and "32 \<le> length d"
  shows "\<exists>b. copy_31 d src = Some b \<and> cstr b (take 31 s) \<and> length b = length d"
proof -
  have nul: "NUL \<notin> set s" using assms(1) by (auto simp: cstr_def)
  show ?thesis
  proof (cases "length s < 31")
    case True
    have "strncpy d src 31 = Some (s @ replicate (31 - length s) NUL @ drop 31 d)"
      using strncpy_cstr [OF assms(1) True] assms(2) by simp
    moreover have "cstr (s @ replicate (31 - length s) NUL @ r) s" for r using True nul by (intro cstr_pad) auto
    ultimately show ?thesis using True assms(2) by (auto simp: copy_31_def list_update_append)
  next
    case False
    then have "strncpy d src 31 = Some (take 31 s @ drop 31 d)" using strncpy_cut [OF assms(1), of 31 d] assms(2) by simp
    moreover have "NUL \<notin> set (take 31 s)" using nul by (auto dest: in_set_takeD)
    moreover obtain y ys where y: "drop 31 d = y # ys" using assms(2) by (cases "drop 31 d") auto
    moreover from arg_cong [OF y, of length] have "32 + length ys = length d" using assms(2) by simp
    ultimately show ?thesis using False assms(2) by (auto simp: copy_31_def list_update_append cstr_def)
  qed
qed

lemma find_entry_cstr:
  assumes "cstr name n" and "\<forall>e \<in> set es. NUL \<in> set (se_name e)"
  shows "find_entry es name = Some (find (\<lambda>e. c_string (se_name e) = n) es)"
  using assms(2)
proof (induction es)
  case (Cons e es)
  then have "cstr (se_name e) (c_string (se_name e))" by (intro cstr_c_string) simp
  from strcmp_eq [OF this assms(1)] Cons show ?case by auto
qed simp

definition parameters :: "(char list \<times> int) list" where
  "parameters = [(''kernel.debug'', SYSCTL_TYPE_INT), (''kernel.hostname'', SYSCTL_TYPE_STRING),
     (''security.pledge_log'', SYSCTL_TYPE_INT)]"

definition find_param :: "char list \<Rightarrow> sysctl_entry option" where
  "find_param n = find (\<lambda>e. c_string (se_name e) = n) sysctl_table"

lemma find_param_entry: "cstr name n \<Longrightarrow> find_entry sysctl_table name = Some (find_param n)"
  unfolding find_param_def by (rule find_entry_cstr) (auto simp: sysctl_table_def)

lemma find_param_None: "n \<notin> fst ` set parameters \<Longrightarrow> find_param n = None"
  by (auto simp: find_param_def sysctl_table_def parameters_def c_string_def)

lemma find_param_Some: "(n, ty) \<in> set parameters \<Longrightarrow> \<exists>e. find_param n = Some e \<and> se_type e = ty"
  by (auto simp: find_param_def sysctl_table_def parameters_def c_string_def)

lemma table_ok:
  "\<forall>e \<in> set sysctl_table. se_writable e \<and> (if se_type e = SYSCTL_TYPE_INT then se_value e \<noteq> Hostname
     else se_type e = SYSCTL_TYPE_STRING \<and> se_value e = Hostname)"
  by (simp add: sysctl_table_def SYSCTL_TYPE_INT_def SYSCTL_TYPE_STRING_def)

lemma find_param_fields:
  assumes "find_param n = Some e"
  shows "se_writable e \<and> c_string (se_name e) = n \<and> (if se_type e = SYSCTL_TYPE_INT then se_value e \<noteq> Hostname
    else se_type e = SYSCTL_TYPE_STRING \<and> se_value e = Hostname)"
proof -
  from assms have "e \<in> set sysctl_table" "c_string (se_name e) = n" by (auto simp: find_param_def find_Some_iff)
  with table_ok show ?thesis by blast
qed

lemma find_param_inj:
  assumes "find_param n = Some e" and "find_param n' = Some e'" and "n' \<noteq> n"
  shows "se_value e' \<noteq> se_value e"
proof -
  have inj: "inj_on se_value (set sysctl_table)" by (auto simp: sysctl_table_def inj_on_def)
  have "e \<in> set sysctl_table" "e' \<in> set sysctl_table"
    using assms(1,2) by (auto simp: find_param_def find_Some_iff)
  moreover have "e \<noteq> e'" using find_param_fields [OF assms(1)] find_param_fields [OF assms(2)] assms(3) by metis
  ultimately show ?thesis using inj by (auto dest: inj_onD)
qed

lemma set_int_ok:
  "a \<noteq> Hostname \<Longrightarrow> \<exists>s'. set_int a k s = Some s' \<and> get_int a s' = Some k \<and>
     (\<forall>b. (b \<noteq> a \<longrightarrow> get_int b s' = get_int b s) \<and> get_string b s' = get_string b s)"
  by (cases a) (auto, (case_tac b; simp)+)

lemma get_other:
  assumes "cstr name n" and "cstr name' n'" and "n' \<noteq> n" and "find_param n = Some e"
    and "\<forall>a. a \<noteq> se_value e \<longrightarrow> get_int a s' = get_int a s \<and> get_string a s' = get_string a s"
  shows "sysctl_get (Some name') buf ty s' = sysctl_get (Some name') buf ty s"
  using find_param_inj [OF assms(4) _ assms(3)] assms(5)
  by (cases "find_param n'") (simp_all add: sysctl_get_def find_param_entry [OF assms(2)])

text \<open>
  Setting a kernel parameter and reading it back. A number is stored for an integer parameter, the
  first 31 characters of the text for the host name, whatever its length; \<open>sysctl_get\<close> with the
  right type returns that value, and every other parameter reads as before. The bound on numbers is 48
  below the limit of \<open>int\<close>, because the code adds the character before it subtracts '0'.
\<close>
theorem sysctl_set_get:
  assumes "cstr name n" and "cstr v t" and "length (kernel_hostname s) = 32" and "32 \<le> length buf"
    and "(n, ty) \<in> set parameters" and "ty = SYSCTL_TYPE_INT \<Longrightarrow> t = number k \<and> \<bar>k\<bar> < 2 ^ 31 - 48"
  shows "\<exists>s' out. sysctl_set (Some name) (Some v) s = Some (0, s') \<and> sysctl_get (Some name) buf ty s' = Some (0, Some out) \<and>
    (if ty = SYSCTL_TYPE_INT then out = Out_Int k else \<exists>b. out = Out_Text b \<and> cstr b (take 31 t)) \<and>
    (\<forall>name' n' buf' ty'. cstr name' n' \<and> n' \<noteq> n \<longrightarrow> sysctl_get (Some name') buf' ty' s' = sysctl_get (Some name') buf' ty' s)"
proof -
  obtain e where e: "find_param n = Some e" "se_type e = ty" using find_param_Some [OF assms(5)] by blast
  note f = find_param_fields [OF e(1)] and en = find_param_entry [OF assms(1)]
  show ?thesis
  proof (cases "ty = SYSCTL_TYPE_INT")
    case True
    with assms(2,6) have v: "sysctl_atoi v = Some k" using sysctl_atoi_number by blast
    from True f e(2) have "se_value e \<noteq> Hostname" by simp
    from set_int_ok [OF this, of k s] obtain s' where s': "set_int (se_value e) k s = Some s'" "get_int (se_value e) s' = Some k"
      "\<forall>b. (b \<noteq> se_value e \<longrightarrow> get_int b s' = get_int b s) \<and> get_string b s' = get_string b s" by blast
    have "sysctl_set (Some name) (Some v) s = Some (0, s')" using e f True by (simp add: sysctl_set_def en v s')
    moreover have "sysctl_get (Some name) buf ty s' = Some (0, Some (Out_Int k))" using e f True by (simp add: sysctl_get_def en s')
    moreover have "\<forall>name' n' buf' ty'. cstr name' n' \<and> n' \<noteq> n \<longrightarrow> sysctl_get (Some name') buf' ty' s' = sysctl_get (Some name') buf' ty' s"
      using get_other [OF assms(1) _ _ e(1)] s'(3) by blast
    ultimately show ?thesis using True by auto
  next
    case False
    with f e(2) have st: "se_type e = SYSCTL_TYPE_STRING" "se_value e = Hostname" by auto
    obtain h where h: "copy_31 (kernel_hostname s) v = Some h" "cstr h (take 31 t)"
      using copy_31_cstr [OF assms(2), of "kernel_hostname s"] assms(3) by auto
    obtain b where b: "copy_31 buf h = Some b" "cstr b (take 31 (take 31 t))"
      using copy_31_cstr [OF h(2) assms(4)] by auto
    let ?s' = "s\<lparr>kernel_hostname := h\<rparr>"
    have "sysctl_set (Some name) (Some v) s = Some (0, ?s')" using e f False st by (simp add: sysctl_set_def en h(1))
    moreover have "sysctl_get (Some name) buf ty ?s' = Some (0, Some (Out_Text b))" using e False st by (simp add: sysctl_get_def en b(1))
    moreover have "\<forall>a. a \<noteq> se_value e \<longrightarrow> get_int a ?s' = get_int a s \<and> get_string a ?s' = get_string a s"
    proof
      fix a show "a \<noteq> se_value e \<longrightarrow> get_int a ?s' = get_int a s \<and> get_string a ?s' = get_string a s"
        unfolding st(2) by (cases a) simp_all
    qed
    then have "\<forall>name' n' buf' ty'. cstr name' n' \<and> n' \<noteq> n \<longrightarrow> sysctl_get (Some name') buf' ty' ?s' = sysctl_get (Some name') buf' ty' s"
      using get_other [OF assms(1) _ _ e(1)] st by blast
    ultimately show ?thesis using False b(2) by auto
  qed
qed

theorem sysctl_set_get_witness:
  "\<exists>s' out. sysctl_set (Some (''kernel.debug'' @ [NUL])) (Some (''-27'' @ [NUL])) sysctl_boot = Some (0, s') \<and>
     sysctl_get (Some (''kernel.debug'' @ [NUL])) (replicate 32 NUL) 0 s' = Some (0, Some out) \<and> out = Out_Int (-27)"
proof -
  define name where "name = ''kernel.debug'' @ [NUL]"
  have n: "''-27'' = number (-27)" by (simp add: number_def dec_big dec_small digit_chars)
  have c: "cstr name ''kernel.debug''" "cstr (''-27'' @ [NUL]) ''-27''" by (simp_all add: cstr_def name_def)
  have p: "(''kernel.debug'', 0) \<in> set parameters" by (simp add: parameters_def SYSCTL_TYPE_INT_def)
  have h: "length (kernel_hostname sysctl_boot) = 32" "32 \<le> length (replicate 32 NUL)" by (simp_all add: sysctl_boot_def)
  have k: "''-27'' = number (-27) \<and> \<bar>-27\<bar> < (2 :: int) ^ 31 - 48" using n by simp
  obtain s' out where "sysctl_set (Some name) (Some (''-27'' @ [NUL])) sysctl_boot = Some (0, s')"
    "sysctl_get (Some name) (replicate 32 NUL) 0 s' = Some (0, Some out)" "if (0 :: int) = SYSCTL_TYPE_INT then out = Out_Int (-27)
      else \<exists>b. out = Out_Text b \<and> cstr b (take 31 ''-27'')"
    using sysctl_set_get [OF c h p k] by blast
  then show ?thesis unfolding name_def by (auto simp: SYSCTL_TYPE_INT_def)
qed

text \<open>
  C39: The error codes of the parameters. An unknown name gives -2 from both operations, and from
  \<open>sysctl_get\<close> a type that is not the parameter's gives -3. A null pointer (the name or the value) gives
  -4 from \<open>sysctl_set\<close>; \<open>sysctl_get\<close> has no such test and dereferences a null name. \<open>sysctl_set\<close> returns
  nothing but 0, -2 and -4, and a call of it that fails leaves every variable as it was.
\<close>
theorem sysctl_errors:
  assumes "cstr name n"
  shows "(n \<notin> fst ` set parameters \<longrightarrow>
      sysctl_set (Some name) (Some v) s = Some (-2, s) \<and> sysctl_get (Some name) buf ty s = Some (-2, None)) \<and>
    (n \<in> fst ` set parameters \<and> (n, ty) \<notin> set parameters \<longrightarrow> sysctl_get (Some name) buf ty s = Some (-3, None)) \<and>
    sysctl_set None nv s = Some (-4, s) \<and> sysctl_set nm None s = Some (-4, s) \<and> sysctl_get None buf ty s = None \<and>
    (\<forall>r s'. sysctl_set nm nv s = Some (r, s') \<longrightarrow> r \<in> {0, -2, -4} \<and> (r \<noteq> 0 \<longrightarrow> s' = s))"
proof -
  have w: "se_writable e" if "find_entry sysctl_table nm = Some (Some e)" for nm e
  proof -
    have "find_entry es nm = Some (Some e) \<Longrightarrow> e \<in> set es" for es by (induction es) (auto split: bind_splits if_splits)
    from this [OF that] table_ok show ?thesis by blast
  qed
  have codes: "\<forall>r s'. sysctl_set nm nv s = Some (r, s') \<longrightarrow> r \<in> {0, -2, -4} \<and> (r \<noteq> 0 \<longrightarrow> s' = s)"
    by (auto simp: sysctl_set_def bind_eq_Some_conv dest: w split: option.splits if_splits)
  have mismatch: "sysctl_get (Some name) buf ty s = Some (-3, None)" if n: "n \<in> fst ` set parameters" "(n, ty) \<notin> set parameters"
  proof -
    from n(1) obtain ty' where "(n, ty') \<in> set parameters" by auto
    moreover from this n(2) have "ty' \<noteq> ty" by blast
    ultimately show ?thesis using find_param_Some by (fastforce simp: sysctl_get_def find_param_entry [OF assms])
  qed
  have "sysctl_set None nv s = Some (-4, s)" "sysctl_set nm None s = Some (-4, s)"
    by (auto simp: sysctl_set_def split: option.splits)
  with codes mismatch show ?thesis
    by (simp add: sysctl_set_def sysctl_get_def find_param_entry [OF assms] find_param_None)
qed

theorem sysctl_errors_witness:
  "sysctl_set (Some (''kernel.x'' @ [NUL])) (Some (''1'' @ [NUL])) sysctl_boot = Some (-2, sysctl_boot) \<and>
   sysctl_get (Some (''kernel.x'' @ [NUL])) [] 0 sysctl_boot = Some (-2, None)"
  using sysctl_errors [of "''kernel.x'' @ [NUL]" "''kernel.x''" "''1'' @ [NUL]" sysctl_boot "[]" 0 None None]
  by (simp add: cstr_def parameters_def)

end
