(* ===== verification/Xfs.thy ===== *)
theory Xfs
  imports Vfs CString_Copy Printk Page_Source
begin

text \<open>
  The allocation-group file system, \<open>fs/xfs/xfs.c\<close> and \<open>fs/xfs/xfs_alloc.c\<close>: four groups of 32 inode
  records with a bitmap of 1024 blocks each, all in static arrays. The two nested loops over groups
  and records are one loop over \<open>k = 32 * group + record\<close>. File data stay where the initial RAM disk
  left them; memory is a function of addresses. Messages are left out.
\<close>

definition XFS_AG_COUNT :: nat where "XFS_AG_COUNT = 4"
definition XFS_MAX_FILES_AG :: nat where "XFS_MAX_FILES_AG = 32"
definition XFS_MAX_NAME :: nat where "XFS_MAX_NAME = 64"
definition ENOSPC :: int where "ENOSPC = 28"
definition EIO :: int where "EIO = 5"

record xfs_inode =
  inode_num :: u32
  xi_name :: "char list"
  xi_size :: u32
  xi_type :: u32
  start_block :: u32
  is_active :: bool
  parent_inode :: u32
  ram_address :: u32

record xfs_ag =
  ag_id :: u32
  free_blocks :: u32
  inode_count :: u32
  inodes :: "xfs_inode list"
  block_bitmap :: "u8 list"

record xfs =
  g_xfs_groups :: "xfs_ag list"
  g_global_inode_counter :: u32

text \<open>The static state before \<open>xfs_init\<close>.\<close>

definition xfs_static :: xfs where
  "xfs_static = \<lparr>g_xfs_groups = replicate XFS_AG_COUNT \<lparr>ag_id = 0, free_blocks = 0, inode_count = 0,
       inodes = replicate XFS_MAX_FILES_AG \<lparr>inode_num = 0, xi_name = replicate XFS_MAX_NAME NUL, xi_size = 0, xi_type = 0,
         start_block = 0, is_active = False, parent_inode = 0, ram_address = 0\<rparr>,
       block_bitmap = replicate 128 0\<rparr>, g_global_inode_counter = 100\<rparr>"

definition init_ag :: "nat \<Rightarrow> xfs_ag \<Rightarrow> xfs_ag" where
  "init_ag i g = g\<lparr>ag_id := of_nat i, free_blocks := 1024, inode_count := 0, block_bitmap := replicate 128 0,
     inodes := map (\<lambda>n. n\<lparr>is_active := False\<rparr>) (inodes g)\<rparr>"

definition xfs_init :: "xfs \<Rightarrow> xfs option" where
  "xfs_init s = for_up 0 XFS_AG_COUNT
     (\<lambda>i s. do { g \<leftarrow> rd (g_xfs_groups s) i; gs \<leftarrow> wr (g_xfs_groups s) i (init_ag i g); Some (s\<lparr>g_xfs_groups := gs\<rparr>) }) s"

subsection \<open>Allocation\<close>

definition xfs_pick_ag :: "xfs \<Rightarrow> nat option" where
  "xfs_pick_ag s = for_up 1 XFS_AG_COUNT
     (\<lambda>i best_ag. do { g \<leftarrow> rd (g_xfs_groups s) i; b \<leftarrow> rd (g_xfs_groups s) best_ag;
                       Some (if free_blocks g > free_blocks b then i else best_ag) }) 0"

definition xfs_alloc_block :: "nat \<Rightarrow> xfs \<Rightarrow> (int \<times> xfs) option" where
  "xfs_alloc_block ag s =
     do { g \<leftarrow> rd (g_xfs_groups s) ag;
          (if free_blocks g = 0 then Some (-1, s)
           else do { r \<leftarrow> first_ok (\<lambda>i. map_option Not (bm_test (block_bitmap g) i)) 0 1024;
                     case r of
                       None \<Rightarrow> Some (-1, s)
                     | Some i \<Rightarrow>
                         do { bm \<leftarrow> bm_on (block_bitmap g) i;
                              Some (int i, s\<lparr>g_xfs_groups := (g_xfs_groups s)
                                [ag := g\<lparr>block_bitmap := bm, free_blocks := free_blocks g - 1\<rparr>]\<rparr>) } }) }"

subsection \<open>Creating\<close>

text \<open>The cleaned name: a leading slash is skipped, white space ends it.\<close>

definition is_blank :: "char \<Rightarrow> bool" where
  "is_blank c \<longleftrightarrow> c = CHR '' '' \<or> c = CHR 0x09 \<or> c = CHR 0x0A \<or> c = CHR 0x0D"

fun clean_from :: "nat \<Rightarrow> char list \<Rightarrow> char list option" where
  "clean_from room [] = None"
| "clean_from room (c # s) =
     (if c = NUL \<or> room = 0 \<or> is_blank c then Some [] else map_option ((#) c) (clean_from (room - 1) s))"

definition clean_name :: "char list \<Rightarrow> char list option" where
  "clean_name name =
     do { c \<leftarrow> rd name 0;
          clean_from (XFS_MAX_NAME - 1) (if c = CHR ''/'' then drop 1 name else name) }"

definition xfs_create_file :: "char list option \<Rightarrow> u32 \<Rightarrow> u32 \<Rightarrow> xfs \<Rightarrow> (int \<times> xfs) option" where
  "xfs_create_file name type parent s =
     (case name of
        None \<Rightarrow> Some (- EINVAL, s)
      | Some nm \<Rightarrow>
          do { len \<leftarrow> strlen nm;
               if len \<ge> XFS_MAX_NAME then Some (- EINVAL, s)
               else do {
                 clean \<leftarrow> clean_name nm;
                 if clean = [] then Some (0, s)
                 else do {
                   ag \<leftarrow> xfs_pick_ag s;
                   g \<leftarrow> rd (g_xfs_groups s) ag;
                   if inode_count g \<ge> of_nat XFS_MAX_FILES_AG then Some (- ENOSPC, s)
                   else do {
                     (assigned, s1) \<leftarrow> xfs_alloc_block ag s;
                     if assigned < 0 then Some (- ENOSPC, s1)
                     else do {
                       g1 \<leftarrow> rd (g_xfs_groups s1) ag;
                       r \<leftarrow> first_ok (\<lambda>i. map_option (\<lambda>n. \<not> is_active n) (rd (inodes g1) i)) 0 XFS_MAX_FILES_AG;
                       case r of
                         None \<Rightarrow> Some (- EIO, s1)
                       | Some i \<Rightarrow>
                           do { ni \<leftarrow> rd (inodes g1) i;
                                nm' \<leftarrow> strcpy (xi_name ni) (clean @ [NUL]);
                                let ni' = ni\<lparr>inode_num := g_global_inode_counter s1, xi_name := nm', xi_size := 0,
                                  xi_type := type, start_block := of_int assigned, parent_inode := parent, is_active := True\<rparr>;
                                let g2 = g1\<lparr>inodes := (inodes g1)[i := ni'], inode_count := inode_count g1 + 1\<rparr>;
                                Some (0, s1\<lparr>g_xfs_groups := (g_xfs_groups s1)[ag := g2],
                                  g_global_inode_counter := g_global_inode_counter s1 + 1\<rparr>) } } } } } })"

text \<open>The node argument of the operations: its inode number when the pointer is not null.\<close>

definition p_inode :: "vfs_node option \<Rightarrow> u32" where
  "p_inode node = (case node of Some n \<Rightarrow> v_inode n | None \<Rightarrow> 0)"

definition xfs_vfs_mkdir :: "vfs_node option \<Rightarrow> char list option \<Rightarrow> xfs \<Rightarrow> (int \<times> xfs) option" where
  "xfs_vfs_mkdir node name s = xfs_create_file name VFS_TYPE_DIR (p_inode node) s"

definition xfs_vfs_create :: "vfs_node option \<Rightarrow> char list option \<Rightarrow> xfs \<Rightarrow> (int \<times> xfs) option" where
  "xfs_vfs_create node name s = xfs_create_file name VFS_TYPE_FILE (p_inode node) s"

subsection \<open>Looking up\<close>

text \<open>Record \<open>k mod 32\<close> of group \<open>k div 32\<close>.\<close>

definition slot :: "xfs \<Rightarrow> nat \<Rightarrow> xfs_inode option" where
  "slot s k = do { g \<leftarrow> rd (g_xfs_groups s) (k div XFS_MAX_FILES_AG); rd (inodes g) (k mod XFS_MAX_FILES_AG) }"

definition put_slot :: "xfs \<Rightarrow> nat \<Rightarrow> xfs_inode \<Rightarrow> xfs option" where
  "put_slot s k n =
     do { g \<leftarrow> rd (g_xfs_groups s) (k div XFS_MAX_FILES_AG);
          ns \<leftarrow> wr (inodes g) (k mod XFS_MAX_FILES_AG) n;
          Some (s\<lparr>g_xfs_groups := (g_xfs_groups s)[k div XFS_MAX_FILES_AG := g\<lparr>inodes := ns\<rparr>]\<rparr>) }"

definition SLOTS :: nat where "SLOTS = XFS_AG_COUNT * XFS_MAX_FILES_AG"

definition with_number :: "u32 \<Rightarrow> xfs \<Rightarrow> nat \<Rightarrow> bool option" where
  "with_number num s k = map_option (\<lambda>n. is_active n \<and> inode_num n = num) (slot s k)"

definition xfs_write_file_size :: "u32 \<Rightarrow> u32 \<Rightarrow> xfs \<Rightarrow> (int \<times> xfs) option" where
  "xfs_write_file_size num sz s =
     do { r \<leftarrow> first_ok (with_number num s) 0 SLOTS;
          case r of None \<Rightarrow> Some (-1, s)
          | Some k \<Rightarrow> do { n \<leftarrow> slot s k; s' \<leftarrow> put_slot s k (n\<lparr>xi_size := sz\<rparr>); Some (0, s') } }"

definition xfs_bind_file_buffer :: "u32 \<Rightarrow> u32 \<Rightarrow> u32 \<Rightarrow> xfs \<Rightarrow> (int \<times> xfs) option" where
  "xfs_bind_file_buffer num sz ram s =
     do { r \<leftarrow> first_ok (with_number num s) 0 SLOTS;
          case r of None \<Rightarrow> Some (-1, s)
          | Some k \<Rightarrow> do { n \<leftarrow> slot s k; s' \<leftarrow> put_slot s k (n\<lparr>xi_size := sz, ram_address := ram\<rparr>); Some (0, s') } }"

text \<open>The entry at an index among the records of a directory; \<open>current_idx\<close> counts them.\<close>

function readdir_from :: "u32 \<Rightarrow> u32 \<Rightarrow> nat \<Rightarrow> u32 \<Rightarrow> xfs \<Rightarrow> nat option option" where
  "readdir_from parent index k current_idx s =
     (if k < SLOTS
      then do { n \<leftarrow> slot s k;
                if is_active n \<and> parent_inode n = parent
                then if current_idx = index then Some (Some k) else readdir_from parent index (Suc k) (current_idx + 1) s
                else readdir_from parent index (Suc k) current_idx s }
      else Some None)"
  by pat_completeness auto
termination
  by (relation "measure (\<lambda>(parent, index, k, c, s). SLOTS - k)") auto

declare readdir_from.simps [simp del]

text \<open>The result code and the name, type and inode number put into \<open>dirent_out\<close>.\<close>

definition xfs_vfs_readdir ::
    "vfs_node option \<Rightarrow> u32 \<Rightarrow> char list \<Rightarrow> xfs \<Rightarrow> (int \<times> (char list \<times> u32 \<times> u32) option) option" where
  "xfs_vfs_readdir node index de_name s =
     do { r \<leftarrow> readdir_from (p_inode node) index 0 0 s;
          case r of
            None \<Rightarrow> Some (-1, None)
          | Some k \<Rightarrow> do { ni \<leftarrow> slot s k; nm \<leftarrow> strncpy de_name (xi_name ni) VFS_NAME_MAX;
                           Some (0, Some (nm, xi_type ni, inode_num ni)) } }"

text \<open>A node with the field for data in the RAM disk.\<close>

record xfs_node = vfs_node +
  v_ram_address :: u32

definition ram_bytes :: "(u32 \<Rightarrow> u8) \<Rightarrow> u32 \<Rightarrow> nat \<Rightarrow> char list" where
  "ram_bytes m a n = map (\<lambda>i. char_of (unat (m (a + of_nat i)))) [0..<n]"

text \<open>The inner \<open>break\<close> leaves one group only: a later group with the same number would win.\<close>

definition find_data :: "u32 \<Rightarrow> xfs \<Rightarrow> u32 \<times> u32 \<Rightarrow> (u32 \<times> u32) option" where
  "find_data num s d = for_up 0 XFS_AG_COUNT
     (\<lambda>i d. do { g \<leftarrow> rd (g_xfs_groups s) i;
                 r \<leftarrow> first_ok (\<lambda>j. map_option (\<lambda>n. is_active n \<and> inode_num n = num) (rd (inodes g) j)) 0 XFS_MAX_FILES_AG;
                 case r of None \<Rightarrow> Some d | Some j \<Rightarrow> do { n \<leftarrow> rd (inodes g) j; Some (xi_size n, ram_address n) } }) d"

definition xfs_vfs_read ::
    "(u32 \<Rightarrow> u8) \<Rightarrow> xfs_node option \<Rightarrow> char list option \<Rightarrow> u32 \<Rightarrow> u32 \<Rightarrow> xfs \<Rightarrow> (int \<times> char list option) option" where
  "xfs_vfs_read m node buffer sz offset s =
     (case (node, buffer) of
        (Some n, Some b) \<Rightarrow>
          if sz = 0 then Some (0, buffer)
          else do { (final_size, final_ram) \<leftarrow>
                      (if v_ram_address n = 0 then find_data (v_inode n) s (v_size n, v_ram_address n)
                       else Some (v_size n, v_ram_address n));
                    if offset \<ge> final_size then Some (0, buffer)
                    else do { let sz1 = (if offset + sz > final_size then final_size - offset else sz);
                              if final_ram \<noteq> 0
                              then do { b' \<leftarrow> memcpy b (ram_bytes m (final_ram + offset) (unat sz1)) (sint sz1);
                                        Some (sint sz1, Some b') }
                              else Some (0, buffer) } }
      | _ \<Rightarrow> Some (-1, buffer))"

text \<open>
  The node that \<open>xfs_vfs_finddir\<close> makes, with its address; address 0 is NULL. The operation table of
  the parent is read without a test for a null parent.
\<close>

definition named :: "u32 \<Rightarrow> char list \<Rightarrow> xfs \<Rightarrow> nat \<Rightarrow> bool option" where
  "named parent name s k =
     do { n \<leftarrow> slot s k;
          if is_active n \<and> parent_inode n = parent then map_option (\<lambda>r. r = 0) (strcmp (xi_name n) name) else Some False }"

definition xfs_vfs_finddir ::
    "u32 \<Rightarrow> vfs_node option \<Rightarrow> char list option \<Rightarrow> xfs \<Rightarrow> mm_state \<Rightarrow> (u32 \<times> xfs_node option \<times> mm_state) option" where
  "xfs_vfs_finddir addr parent name s mm =
     (case name of
        None \<Rightarrow> Some (0, None, mm)
      | Some nm \<Rightarrow>
          do { r \<leftarrow> first_ok (named (p_inode parent) nm s) 0 SLOTS;
               case r of
                 None \<Rightarrow> Some (0, None, mm)
               | Some k \<Rightarrow>
                   do { ni \<leftarrow> slot s k;
                        (node, mm') \<leftarrow> kmalloc SIZEOF_NODE mm;
                        if node = 0 then Some (0, None, mm')
                        else do { v \<leftarrow> strncpy (v_name zero_node) (xi_name ni) VFS_NAME_MAX;
                                  p \<leftarrow> parent;
                                  Some (node, Some \<lparr>v_name = v,
                                    v_type = (if xi_type ni = VFS_TYPE_DIR then VFS_TYPE_DIR else VFS_TYPE_FILE),
                                    v_inode = inode_num ni, v_size = xi_size ni, v_parent = addr, v_ops = v_ops p, v_ptr = 0,
                                    v_next = 0, v_ram_address = ram_address ni\<rparr>, mm') } } })"

definition xfs_mount :: "u32 \<Rightarrow> vfs_ops \<Rightarrow> vfs \<Rightarrow> vfs option" where
  "xfs_mount mount_point xfs_ops v =
     (if mount_point = 0 then Some v
      else do { n \<leftarrow> nodes v mount_point; Some (v\<lparr>nodes := (nodes v)(mount_point \<mapsto> n\<lparr>v_ops := xfs_ops\<rparr>)\<rparr>) })"

text \<open>The listing.\<close>

definition xfs_ls_entry :: "xfs_inode \<Rightarrow> char list option" where
  "xfs_ls_entry n =
     print_text (''  -> INODE: %u | NAME: %s | TYPE: %s | PARENT: %u | RAW_BLOCK: %u'' @ [LF])
       [AInt (inode_num n), AStr (Some (xi_name n)),
        AStr (Some ((if xi_type n = VFS_TYPE_DIR then ''DIR'' else ''FILE'') @ [NUL])),
        AInt (parent_inode n), AInt (start_block n)]"

fun xfs_ls_entries :: "xfs_inode list \<Rightarrow> char list option" where
  "xfs_ls_entries [] = Some []"
| "xfs_ls_entries (n # ns) =
     do { t \<leftarrow> (if is_active n then xfs_ls_entry n else Some []); u \<leftarrow> xfs_ls_entries ns; Some (t @ u) }"

definition xfs_ls_group :: "xfs_ag \<Rightarrow> char list option" where
  "xfs_ls_group g =
     do { h \<leftarrow> print_text (''Allocation Group %d Status [%d/1024 Free Blocks]:'' @ [LF]) [AInt (ag_id g), AInt (free_blocks g)];
          t \<leftarrow> xfs_ls_entries (inodes g);
          e \<leftarrow> (if \<exists>n \<in> set (inodes g). is_active n then Some []
               else print_text (''  (Empty allocation records layout cluster)'' @ [LF]) []);
          Some (h @ t @ e) }"

fun xfs_ls_groups :: "xfs_ag list \<Rightarrow> char list option" where
  "xfs_ls_groups [] = Some []"
| "xfs_ls_groups (g # gs) = do { t \<leftarrow> xfs_ls_group g; u \<leftarrow> xfs_ls_groups gs; Some (t @ u) }"

definition xfs_ls :: "xfs \<Rightarrow> char list option" where
  "xfs_ls s =
     do { h \<leftarrow> print_text ([LF] @ ''--- XFS Unified Storage Tree Mapping ---'' @ [LF]) [];
          t \<leftarrow> xfs_ls_groups (g_xfs_groups s);
          e \<leftarrow> print_text (''----------------------------------------'' @ [LF, LF]) [];
          Some (h @ t @ e) }"

subsection \<open>The invariant\<close>

definition active :: "xfs_ag \<Rightarrow> nat set" where
  "active g = {j. j < XFS_MAX_FILES_AG \<and> is_active (inodes g ! j)}"

definition ag_ok :: "xfs_ag \<Rightarrow> bool" where
  "ag_ok g \<longleftrightarrow> length (inodes g) = XFS_MAX_FILES_AG \<and> length (block_bitmap g) = 128 \<and>
     (\<forall>n \<in> set (inodes g). length (xi_name n) = XFS_MAX_NAME \<and> (is_active n \<longrightarrow> NUL \<in> set (xi_name n))) \<and>
     unat (inode_count g) = card (active g) \<and> unat (free_blocks g) + card (active g) = 1024 \<and>
     inj_on (\<lambda>j. start_block (inodes g ! j)) (active g) \<and>
     (\<forall>b. bm_has (block_bitmap g) b \<longleftrightarrow> (\<exists>j \<in> active g. unat (start_block (inodes g ! j)) = b))"

definition files :: "xfs \<Rightarrow> nat set" where
  "files s = {k. k < SLOTS \<and> (\<exists>n. slot s k = Some n \<and> is_active n)}"

definition number_at :: "xfs \<Rightarrow> nat \<Rightarrow> u32" where
  "number_at s k = (case slot s k of Some n \<Rightarrow> inode_num n | None \<Rightarrow> 0)"

definition xfs_ok :: "xfs \<Rightarrow> bool" where
  "xfs_ok s \<longleftrightarrow> length (g_xfs_groups s) = XFS_AG_COUNT \<and> (\<forall>g \<in> set (g_xfs_groups s). ag_ok g) \<and>
     unat (g_global_inode_counter s) = 100 + card (files s) \<and>
     inj_on (number_at s) (files s) \<and> (\<forall>k \<in> files s. number_at s k < g_global_inode_counter s)"

lemmas xfs_sizes = SLOTS_def XFS_AG_COUNT_def XFS_MAX_FILES_AG_def XFS_MAX_NAME_def

lemma active_finite [simp]: "finite (active g)" "card (active g) \<le> 32"
proof -
  have "active g \<subseteq> {..<32}" by (auto simp: active_def xfs_sizes)
  then show "finite (active g)" "card (active g) \<le> 32"
    using finite_subset card_mono [of "{..<32 :: nat}" "active g"] by auto
qed

lemma slot_in:
  assumes "xfs_ok s" and "k < SLOTS"
  shows "slot s k = Some (inodes (g_xfs_groups s ! (k div 32)) ! (k mod 32))" "k div 32 < length (g_xfs_groups s)"
    "k mod 32 < length (inodes (g_xfs_groups s ! (k div 32)))"
proof -
  have k: "k div 32 < 4" using assms(2) by (simp add: xfs_sizes div_less_iff_less_mult)
  with assms(1) show l: "k div 32 < length (g_xfs_groups s)" by (simp add: xfs_ok_def xfs_sizes)
  then have "ag_ok (g_xfs_groups s ! (k div 32))" using assms(1) by (simp add: xfs_ok_def)
  then show l2: "k mod 32 < length (inodes (g_xfs_groups s ! (k div 32)))" by (simp add: ag_ok_def xfs_sizes)
  from l l2 show "slot s k = Some (inodes (g_xfs_groups s ! (k div 32)) ! (k mod 32))" by (simp add: slot_def xfs_sizes)
qed

text \<open>The files of a group are those of its records.\<close>

lemma files_group:
  assumes "xfs_ok s" and "i < 4"
  shows "{k \<in> files s. k div 32 = i} = (\<lambda>j. 32 * i + j) ` active (g_xfs_groups s ! i)"
proof
  show "{k \<in> files s. k div 32 = i} \<subseteq> (\<lambda>j. 32 * i + j) ` active (g_xfs_groups s ! i)"
  proof
    fix k assume k: "k \<in> {k \<in> files s. k div 32 = i}"
    then have lt: "k < SLOTS" by (simp add: files_def)
    have "k mod 32 \<in> active (g_xfs_groups s ! i)" using k slot_in(1) [OF assms(1) lt] by (auto simp: files_def active_def xfs_sizes)
    moreover have "k = 32 * i + k mod 32" using k by auto
    ultimately show "k \<in> (\<lambda>j. 32 * i + j) ` active (g_xfs_groups s ! i)" by (rule rev_image_eqI)
  qed
  show "(\<lambda>j. 32 * i + j) ` active (g_xfs_groups s ! i) \<subseteq> {k \<in> files s. k div 32 = i}"
  proof
    fix k assume "k \<in> (\<lambda>j. 32 * i + j) ` active (g_xfs_groups s ! i)"
    then obtain j where j: "k = 32 * i + j" "j < 32" "is_active (inodes (g_xfs_groups s ! i) ! j)"
      by (auto simp: active_def xfs_sizes)
    then have lt: "k < SLOTS" "k div 32 = i" "k mod 32 = j" using assms(2) by (auto simp: xfs_sizes)
    with j slot_in(1) [OF assms(1) lt(1)] show "k \<in> {k \<in> files s. k div 32 = i}" by (simp add: files_def)
  qed
qed

lemma files_finite [simp]: "finite (files s)"
  by (rule finite_subset [of _ "{..<SLOTS}"]) (auto simp: files_def)

lemma card_files:
  assumes "xfs_ok s"
  shows "card (files s) = (\<Sum>i<4. card (active (g_xfs_groups s ! i)))"
proof -
  have "files s = (\<Union>i<4. {k \<in> files s. k div 32 = i})"
    by (auto simp: files_def xfs_sizes div_less_iff_less_mult)
  then have "card (files s) = (\<Sum>i<4. card {k \<in> files s. k div 32 = i})"
    by (subst (1) \<open>files s = _\<close>, intro card_UN_disjoint) auto
  also have "\<dots> = (\<Sum>i<4. card (active (g_xfs_groups s ! i)))"
    by (intro sum.cong refl) (simp add: files_group [OF assms] card_image inj_on_def)
  finally show ?thesis .
qed

lemma group_ok: "xfs_ok s \<Longrightarrow> i < 4 \<Longrightarrow> ag_ok (g_xfs_groups s ! i) \<and> rd (g_xfs_groups s) i = Some (g_xfs_groups s ! i)"
  by (simp add: xfs_ok_def xfs_sizes)

subsection \<open>Allocation groups\<close>

text \<open>The group picked has the most free blocks, and room whenever any group has.\<close>

lemma xfs_pick_ag_run:
  assumes "xfs_ok s"
  shows "\<exists>ag. xfs_pick_ag s = Some ag \<and> ag < 4 \<and> (card (files s) < 128 \<longleftrightarrow> card (active (g_xfs_groups s ! ag)) < 32)"
proof -
  let ?f = "\<lambda>i. free_blocks (g_xfs_groups s ! i)" and ?c = "\<lambda>i. card (active (g_xfs_groups s ! i))"
  have "\<exists>ag. xfs_pick_ag s = Some ag \<and> (ag < 4 \<and> (\<forall>j<XFS_AG_COUNT. ?f j \<le> ?f ag))"
    unfolding xfs_pick_ag_def
  proof (rule for_up_rule [where I = "\<lambda>i b. b < 4 \<and> (\<forall>j<i. ?f j \<le> ?f b)"])
    fix i b assume i: "i < XFS_AG_COUNT" and b: "b < 4 \<and> (\<forall>j<i. ?f j \<le> ?f b)"
    have "i < 4" using i by (simp add: xfs_sizes)
    with b group_ok [OF assms] show "\<exists>t. (do { g \<leftarrow> rd (g_xfs_groups s) i; b' \<leftarrow> rd (g_xfs_groups s) b;
        Some (if free_blocks g > free_blocks b' then i else b) }) = Some t \<and> t < 4 \<and> (\<forall>j<Suc i. ?f j \<le> ?f t)"
      by (auto simp: less_Suc_eq not_less dest: order.trans less_imp_le)
  qed (simp_all add: xfs_sizes)
  then obtain ag where ag: "xfs_pick_ag s = Some ag" "ag < 4" "\<forall>j<4. ?f j \<le> ?f ag" by (auto simp: xfs_sizes)
  have le: "?c ag \<le> ?c j" if "j < 4" for j
    using ag(3) that group_ok [OF assms that] group_ok [OF assms ag(2)] by (auto simp: ag_ok_def word_le_nat_alt)
  have "card (files s) < 128 \<longleftrightarrow> ?c ag < 32"
  proof
    assume "card (files s) < 128"
    then have "\<exists>j<4. ?c j < 32"
      using sum_mono [of "{..<4}" "\<lambda>_. 32" ?c] by (simp add: card_files [OF assms]) (metis not_less)
    with le show "?c ag < 32" by (auto dest: order.strict_trans1)
  next
    assume lt: "?c ag < 32"
    have "(\<Sum>i<4. ?c i) < (\<Sum>i<(4 :: nat). 32)"
      using ag(2) lt by (intro sum_strict_mono_ex1) auto
    then show "card (files s) < 128" by (simp add: card_files [OF assms])
  qed
  with ag show ?thesis by blast
qed

lemma xfs_alloc_block_run:
  assumes "xfs_ok s" and ag: "ag < 4" and room: "card (active (g_xfs_groups s ! ag)) < 32"
  shows "\<exists>b bm. xfs_alloc_block ag s = Some (int b, s\<lparr>g_xfs_groups := (g_xfs_groups s)[ag := (g_xfs_groups s ! ag)
        \<lparr>block_bitmap := bm, free_blocks := free_blocks (g_xfs_groups s ! ag) - 1\<rparr>]\<rparr>) \<and>
      b < 1024 \<and> \<not> bm_has (block_bitmap (g_xfs_groups s ! ag)) b \<and> length bm = 128 \<and>
      (\<forall>j. bm_has bm j \<longleftrightarrow> bm_has (block_bitmap (g_xfs_groups s ! ag)) j \<or> j = b)"
proof -
  define g where "g = g_xfs_groups s ! ag"
  have ok: "ag_ok g" and rg: "rd (g_xfs_groups s) ag = Some g" using group_ok [OF assms(1) ag] by (simp_all add: g_def)
  then have len: "length (block_bitmap g) = 128" and free: "free_blocks g \<noteq> 0" using room by (auto simp: ag_ok_def g_def)
  have "\<exists>b<1024. \<not> bm_has (block_bitmap g) b"
  proof (rule ccontr)
    assume "\<not> (\<exists>b<1024. \<not> bm_has (block_bitmap g) b)"
    then have "{..<1024} \<subseteq> (\<lambda>j. unat (start_block (inodes g ! j))) ` active g" using ok by (auto simp: ag_ok_def)
    then have "card {..<1024 :: nat} \<le> card (active g)" by (meson surj_card_le active_finite(1))
    then show False using active_finite(2) [of g] by simp
  qed
  then obtain b where b: "find (\<lambda>i. \<not> bm_has (block_bitmap g) i) [0..<1024] = Some b" by (fastforce simp: find_None_iff)
  have "first_ok (\<lambda>i. map_option Not (bm_test (block_bitmap g) i)) 0 1024 = Some (Some b)"
    unfolding b [symmetric] by (rule first_ok_eq_find) (simp add: bm_test_in len)
  moreover from b have lt: "b < 1024" "\<not> bm_has (block_bitmap g) b" by (auto simp: find_upt_Some)
  moreover obtain bm where "bm_on (block_bitmap g) b = Some bm" "length bm = 128" "\<forall>j. bm_has bm j \<longleftrightarrow> bm_has (block_bitmap g) j \<or> j = b"
    using bm_on_in [of b "block_bitmap g"] lt(1) len by auto
  ultimately show ?thesis using rg free unfolding g_def [symmetric] by (auto simp: xfs_alloc_block_def)
qed

subsection \<open>Names\<close>

definition cleaned :: "char list \<Rightarrow> char list" where
  "cleaned n = takeWhile (\<lambda>c. \<not> is_blank c) (if n \<noteq> [] \<and> hd n = CHR ''/'' then tl n else n)"

lemma clean_from_run: "cstr b n \<Longrightarrow> length n \<le> room \<Longrightarrow> clean_from room b = Some (takeWhile (\<lambda>c. \<not> is_blank c) n)"
proof (induction n arbitrary: b room)
  case (Cons c n)
  then show ?case by (cases room) (auto simp: cstr_simps)
qed (auto simp: cstr_simps)

lemma clean_name_run:
  assumes "cstr b n" and "length n < 64"
  shows "clean_name b = Some (cleaned n)"
proof (cases n)
  case Nil
  with assms show ?thesis by (auto simp: clean_name_def cleaned_def cstr_simps)
next
  case (Cons c n')
  with assms obtain b' where b: "b = c # b'" "cstr b' n'" by (auto simp: cstr_simps)
  have "clean_from 63 (if c = CHR ''/'' then b' else b) = Some (cleaned n)"
    unfolding cleaned_def using clean_from_run [OF assms(1), of 63] clean_from_run [OF b(2), of 63] assms(2) Cons by simp
  then show ?thesis using b by (simp add: clean_name_def xfs_sizes del: clean_from.simps split: if_splits)
qed

lemma cleaned_string: "NUL \<notin> set n \<Longrightarrow> NUL \<notin> set (cleaned n) \<and> length (cleaned n) \<le> length n"
proof -
  assume n: "NUL \<notin> set n"
  define m where "m = (if n \<noteq> [] \<and> hd n = CHR ''/'' then tl n else n)"
  have "set m \<subseteq> set n" "length m \<le> length n" by (cases n; auto simp: m_def)+
  moreover have "set (cleaned n) \<subseteq> set m" "length (cleaned n) \<le> length m"
    by (auto simp: cleaned_def m_def [symmetric] length_takeWhile_le dest: set_takeWhileD)
  ultimately show ?thesis using n by (meson order_trans subsetD)
qed

subsection \<open>Creating a file\<close>

lemma active_insert:
  assumes "i < 32" and "length (inodes g) = 32" and "is_active n"
  shows "active (g\<lparr>inodes := (inodes g)[i := n], inode_count := c, block_bitmap := bm, free_blocks := f\<rparr>) = insert i (active g)"
  using assms by (auto simp: active_def xfs_sizes nth_list_update)

lemma ag_ok_insert:
  assumes ok: "ag_ok g" and i: "i < 32" "\<not> is_active (inodes g ! i)" and n: "is_active n" "length (xi_name n) = 64" "NUL \<in> set (xi_name n)"
    and b: "unat (start_block n) = b" "b < 1024" "\<not> bm_has (block_bitmap g) b" "length bm = 128" "\<forall>j. bm_has bm j \<longleftrightarrow> bm_has (block_bitmap g) j \<or> j = b"
  shows "ag_ok (g\<lparr>inodes := (inodes g)[i := n], inode_count := inode_count g + 1, block_bitmap := bm, free_blocks := free_blocks g - 1\<rparr>)"
proof -
  let ?g = "g\<lparr>inodes := (inodes g)[i := n], inode_count := inode_count g + 1, block_bitmap := bm, free_blocks := free_blocks g - 1\<rparr>"
  have len: "length (inodes g) = 32" using ok by (simp add: ag_ok_def xfs_sizes)
  have act: "active ?g = insert i (active g)" by (rule active_insert [OF i(1) len n(1)])
  have new: "i \<notin> active g" using i by (simp add: active_def)
  have "insert i (active g) \<subseteq> {..<32}" using i(1) by (auto simp: active_def xfs_sizes)
  from card_mono [OF _ this] new have c: "Suc (card (active g)) \<le> 32" by simp
  have old: "unat (inode_count g) = card (active g)" "unat (free_blocks g) + card (active g) = 1024" using ok by (simp_all add: ag_ok_def)
  have cnt: "unat (inode_count g + 1) = Suc (card (active g))" using old(1) c by (simp add: unat_plus1)
  have fr: "unat (free_blocks g - 1) = unat (free_blocks g) - 1"
  proof -
    have "(1 :: u32) \<le> free_blocks g" using old(2) c by (simp add: word_le_nat_alt)
    then show ?thesis by (simp add: unat_sub)
  qed
  have st: "start_block (inodes ?g ! j) = (if j = i then start_block n else start_block (inodes g ! j))" for j
    using i(1) len by (simp add: nth_list_update)
  have other: "unat (start_block (inodes g ! j)) \<noteq> b" if "j \<in> active g" for j using ok that b(3) by (auto simp: ag_ok_def)
  have "inj_on (\<lambda>j. start_block (inodes ?g ! j)) (insert i (active g))"
  proof -
    have "inj_on (\<lambda>j. start_block (inodes g ! j)) (active g)" using ok by (simp add: ag_ok_def)
    moreover have "start_block n \<noteq> start_block (inodes g ! j)" if "j \<in> active g" for j using other [OF that] b(1) by metis
    ultimately show ?thesis unfolding st inj_on_def using new by (metis insert_iff)
  qed
  moreover have "\<forall>b'. bm_has bm b' \<longleftrightarrow> (\<exists>j \<in> insert i (active g). unat (start_block (inodes ?g ! j)) = b')"
  proof
    fix b'
    have "(\<exists>j \<in> insert i (active g). unat (start_block (inodes ?g ! j)) = b') \<longleftrightarrow>
        b' = b \<or> (\<exists>j \<in> active g. unat (start_block (inodes g ! j)) = b')"
    proof -
      have "\<forall>j \<in> active g. j \<noteq> i" using new by blast
      then show ?thesis unfolding st bex_simps(5) using b(1) by auto
    qed
    moreover have "bm_has (block_bitmap g) b' \<longleftrightarrow> (\<exists>j \<in> active g. unat (start_block (inodes g ! j)) = b')"
      using ok by (simp add: ag_ok_def)
    ultimately show "bm_has bm b' \<longleftrightarrow> (\<exists>j \<in> insert i (active g). unat (start_block (inodes ?g ! j)) = b')" using b(5) by blast
  qed
  moreover have "\<forall>x \<in> set ((inodes g)[i := n]). length (xi_name x) = XFS_MAX_NAME \<and> (is_active x \<longrightarrow> NUL \<in> set (xi_name x))"
    using ok n by (auto simp: ag_ok_def xfs_sizes dest!: set_update_subset_insert [THEN subsetD])
  moreover have "card (insert i (active g)) = Suc (card (active g))" using new by simp
  ultimately show ?thesis unfolding ag_ok_def act using b(4) len cnt fr old(2) c by (simp add: xfs_sizes)
qed

lemma free_record:
  assumes "length (inodes g) = 32" and "card (active g) < 32"
  shows "\<exists>i. first_ok (\<lambda>i. map_option (\<lambda>n. \<not> is_active n) (rd (inodes g) i)) 0 XFS_MAX_FILES_AG = Some (Some i) \<and>
    i < 32 \<and> \<not> is_active (inodes g ! i)"
proof -
  have "\<exists>i<32. \<not> is_active (inodes g ! i)"
  proof (rule ccontr)
    assume "\<not> (\<exists>i<32. \<not> is_active (inodes g ! i))"
    then have "active g = {..<32}" by (auto simp: active_def xfs_sizes)
    with assms(2) show False by simp
  qed
  then obtain i where i: "find (\<lambda>i. \<not> is_active (inodes g ! i)) [0..<32] = Some i" by (fastforce simp: find_None_iff)
  have "first_ok (\<lambda>i. map_option (\<lambda>n. \<not> is_active n) (rd (inodes g) i)) 0 XFS_MAX_FILES_AG = Some (Some i)"
    unfolding i [symmetric] xfs_sizes by (rule first_ok_eq_find) (simp add: assms(1))
  with i show ?thesis by (auto simp: find_upt_Some)
qed

lemma slot_update:
  assumes "ag < length (g_xfs_groups s)"
  shows "slot (s\<lparr>g_xfs_groups := (g_xfs_groups s)[ag := g], g_global_inode_counter := c\<rparr>) k =
    (if k div 32 = ag then rd (inodes g) (k mod 32) else slot s k)"
  using assms by (cases "k div 32 < length (g_xfs_groups s)") (auto simp: slot_def xfs_sizes nth_list_update)

lemma xfs_ok_insert:
  assumes ok: "xfs_ok s" and k: "k = 32 * ag + i" "ag < 4" "i < 32" and free: "k \<notin> files s" and room: "card (files s) < 128"
    and g: "ag_ok g" "inodes g = (inodes (g_xfs_groups s ! ag))[i := n]" and n: "is_active n" "inode_num n = g_global_inode_counter s"
    and s': "s' = s\<lparr>g_xfs_groups := (g_xfs_groups s)[ag := g], g_global_inode_counter := g_global_inode_counter s + 1\<rparr>"
  shows "xfs_ok s' \<and> files s' = insert k (files s) \<and> slot s' k = Some n \<and> (\<forall>j. j \<noteq> k \<longrightarrow> slot s' j = slot s j)"
proof -
  have len: "length (g_xfs_groups s) = 4" "ag < length (g_xfs_groups s)" using ok k(2) by (simp_all add: xfs_ok_def xfs_sizes)
  have len_i: "length (inodes (g_xfs_groups s ! ag)) = 32" using group_ok [OF ok k(2)] by (simp add: ag_ok_def xfs_sizes)
  have kd: "k div 32 = ag" "k mod 32 = i" "k < SLOTS" using k by (auto simp: xfs_sizes)
  have sk: "slot s' k = Some n" unfolding s' slot_update [OF len(2)] using kd g(2) len_i k(3) by simp
  have sj: "slot s' j = slot s j" if "j \<noteq> k" for j
  proof (cases "j div 32 = ag")
    case True
    then have "j mod 32 \<noteq> i" using that k(1) by (metis div_mult_mod_eq mult.commute)
    then have "rd (inodes g) (j mod 32) = rd (inodes (g_xfs_groups s ! ag)) (j mod 32)" by (simp add: g(2) rd_def)
    then show ?thesis unfolding s' slot_update [OF len(2)] using True len by (simp add: slot_def xfs_sizes)
  qed (simp add: s' slot_update [OF len(2)])
  have fs: "files s' = insert k (files s)"
  proof (rule set_eqI)
    fix j show "j \<in> files s' \<longleftrightarrow> j \<in> insert k (files s)"
      using sk sj [of j] n(1) kd(3) by (cases "j = k") (auto simp: files_def)
  qed
  have cnt: "unat (g_global_inode_counter s) = 100 + card (files s)" using ok by (simp add: xfs_ok_def)
  then have up: "unat (g_global_inode_counter s + 1) = unat (g_global_inode_counter s) + 1" using room by (simp add: unat_plus1)
  have num: "number_at s' j = (if j = k then g_global_inode_counter s else number_at s j)" for j
    using sk sj n(2) by (simp add: number_at_def)
  have below: "number_at s j < g_global_inode_counter s" if "j \<in> files s" for j using ok that by (simp add: xfs_ok_def)
  have c': "g_global_inode_counter s' = g_global_inode_counter s + 1" by (simp add: s')
  have ne: "number_at s j \<noteq> g_global_inode_counter s" if "j \<in> files s" for j using below [OF that] by simp
  have inj: "inj_on (number_at s) (files s)" using ok by (simp add: xfs_ok_def)
  have "inj_on (number_at s') (files s')"
  proof (rule inj_onI)
    fix x y assume "x \<in> files s'" "y \<in> files s'" and eq: "number_at s' x = number_at s' y"
    then have "x = k \<or> x \<in> files s" "y = k \<or> y \<in> files s" by (auto simp: fs)
    with eq ne [of x] ne [of y] show "x = y" using inj by (auto simp: num split: if_splits dest: inj_onD)
  qed
  moreover have "\<forall>j \<in> files s'. number_at s' j < g_global_inode_counter s'"
  proof
    fix j assume "j \<in> files s'"
    then have "j = k \<or> number_at s j < g_global_inode_counter s" using below by (auto simp: fs)
    then show "number_at s' j < g_global_inode_counter s'" using up unfolding num c' word_less_nat_alt by auto
  qed
  moreover have "\<forall>x \<in> set (g_xfs_groups s'). ag_ok x"
    using ok g(1) by (auto simp: s' xfs_ok_def dest!: set_update_subset_insert [THEN subsetD])
  moreover have "unat (g_global_inode_counter s') = 100 + card (files s')"
    unfolding fs using up cnt free by (simp add: s')
  moreover have "length (g_xfs_groups s') = XFS_AG_COUNT" using len(1) by (simp add: s' xfs_sizes)
  ultimately show ?thesis using fs sk sj by (simp add: xfs_ok_def)
qed

lemma xfs_create_file_run:
  assumes ok: "xfs_ok s" and name: "cstr name n" "length n < 64" "cleaned n \<noteq> []" and room: "card (files s) < 128"
  shows "\<exists>s' k ni. xfs_create_file (Some name) ty parent s = Some (0, s') \<and> xfs_ok s' \<and> k \<notin> files s \<and> k < SLOTS \<and>
    files s' = insert k (files s) \<and> slot s' k = Some ni \<and> (\<forall>j. j \<noteq> k \<longrightarrow> slot s' j = slot s j) \<and>
    inode_num ni = g_global_inode_counter s \<and> parent_inode ni = parent \<and> xi_type ni = ty \<and> xi_size ni = 0 \<and>
    cstr (xi_name ni) (cleaned n) \<and> is_active ni"
proof -
  obtain ag where ag: "xfs_pick_ag s = Some ag" "ag < 4" "card (active (g_xfs_groups s ! ag)) < 32"
    using xfs_pick_ag_run [OF ok] room by auto
  define g where "g = g_xfs_groups s ! ag"
  have g: "ag_ok g" "rd (g_xfs_groups s) ag = Some g" using group_ok [OF ok ag(2)] by (simp_all add: g_def)
  have len: "length (inodes g) = 32" "ag < length (g_xfs_groups s)" using g(1) ok ag(2) by (simp_all add: ag_ok_def xfs_ok_def xfs_sizes)
  obtain b bm where b: "xfs_alloc_block ag s = Some (int b, s\<lparr>g_xfs_groups := (g_xfs_groups s)[ag := g\<lparr>block_bitmap := bm,
        free_blocks := free_blocks g - 1\<rparr>]\<rparr>)" "b < 1024" "\<not> bm_has (block_bitmap g) b" "length bm = 128"
      "\<forall>j. bm_has bm j \<longleftrightarrow> bm_has (block_bitmap g) j \<or> j = b"
    using xfs_alloc_block_run [OF ok ag(2,3)] unfolding g_def by blast
  obtain i where i: "first_ok (\<lambda>i. map_option (\<lambda>n. \<not> is_active n) (rd (inodes g) i)) 0 XFS_MAX_FILES_AG = Some (Some i)"
      "i < 32" "\<not> is_active (inodes g ! i)" using free_record [OF len(1)] ag(3) unfolding g_def by blast
  have cl: "clean_name name = Some (cleaned n)" "cstr (cleaned n @ [NUL]) (cleaned n)" "length (cleaned n) < 64"
    using clean_name_run [OF name(1,2)] cleaned_string [of n] name(1,2) by (auto simp: cstr_def)
  have "length (xi_name (inodes g ! i)) = 64" using g(1) i(2) len(1) by (simp add: ag_ok_def xfs_sizes)
  then obtain nm where nm: "strcpy (xi_name (inodes g ! i)) (cleaned n @ [NUL]) = Some nm" "cstr nm (cleaned n)" "length nm = 64"
    using strcpy_fits [OF cl(2), of "xi_name (inodes g ! i)"] cl(3) by auto
  define ni where "ni = (inodes g ! i)\<lparr>inode_num := g_global_inode_counter s, xi_name := nm, xi_size := 0, xi_type := ty,
    start_block := of_nat b, parent_inode := parent, is_active := True\<rparr>"
  define g' where "g' = g\<lparr>inodes := (inodes g)[i := ni], inode_count := inode_count g + 1, block_bitmap := bm,
    free_blocks := free_blocks g - 1\<rparr>"
  define s' where "s' = s\<lparr>g_xfs_groups := (g_xfs_groups s)[ag := g'], g_global_inode_counter := g_global_inode_counter s + 1\<rparr>"
  have "\<not> of_nat XFS_MAX_FILES_AG \<le> inode_count g"
    using g(1) ag(3) by (simp add: ag_ok_def word_le_nat_alt xfs_sizes g_def)
  moreover have "strlen name = Some (length n)" using strlen_from_cstr [OF name(1), of 0] by (simp add: strlen_def)
  moreover have "rd (inodes g) i = Some (inodes g ! i)" using len(1) i(2) by simp
  moreover have g'_eq: "g\<lparr>block_bitmap := bm, free_blocks := free_blocks g - 1, inodes := (inodes g)[i := ni],
      inode_count := inode_count g + 1\<rparr> = g'" by (simp add: g'_def)
  ultimately have run: "xfs_create_file (Some name) ty parent s = Some (0, s')"
    using name(2,3) cl(1) ag(1) g(2) b(1) i(1) nm(1) len(2)
    by (simp add: xfs_create_file_def xfs_sizes Let_def s'_def ni_def [symmetric])
  have "NUL \<in> set nm" using nm(2) by (auto simp: cstr_def)
  then have ok': "ag_ok g'" unfolding g'_def
    using nm(3) b by (intro ag_ok_insert [OF g(1) i(2,3), of ni b bm]) (simp_all add: ni_def unat_of_nat)
  have free: "32 * ag + i \<notin> files s"
    using slot_in(1) [OF ok, of "32 * ag + i"] i ag(2) by (auto simp: files_def g_def xfs_sizes)
  have "xfs_ok s' \<and> files s' = insert (32 * ag + i) (files s) \<and> slot s' (32 * ag + i) = Some ni \<and>
      (\<forall>j. j \<noteq> 32 * ag + i \<longrightarrow> slot s' j = slot s j)"
    by (rule xfs_ok_insert [OF ok refl ag(2) i(2) free room ok' _ _ _ s'_def]) (simp_all add: g'_def g_def ni_def)
  moreover have "32 * ag + i < SLOTS" using ag(2) i(2) by (simp add: xfs_sizes)
  ultimately show ?thesis using run free nm(2) by (intro exI [of _ s'] exI [of _ "32 * ag + i"] exI [of _ ni]) (simp add: ni_def)
qed

subsection \<open>Finding and binding\<close>

definition entry_is :: "xfs \<Rightarrow> u32 \<Rightarrow> char list \<Rightarrow> nat \<Rightarrow> bool" where
  "entry_is s p n k \<longleftrightarrow> (case slot s k of None \<Rightarrow> False
     | Some x \<Rightarrow> is_active x \<and> parent_inode x = p \<and> c_string (xi_name x) = n)"

definition slots_ok :: "xfs \<Rightarrow> bool" where
  "slots_ok s \<longleftrightarrow> (\<forall>k<SLOTS. \<exists>x. slot s k = Some x \<and> (is_active x \<longrightarrow> NUL \<in> set (xi_name x)))"

lemma xfs_ok_slots: "xfs_ok s \<Longrightarrow> slots_ok s"
  unfolding slots_ok_def
proof (intro allI impI)
  fix k assume s: "xfs_ok s" and k: "k < SLOTS"
  note sl = slot_in [OF s k]
  have "ag_ok (g_xfs_groups s ! (k div 32))" using s sl(2) by (simp add: xfs_ok_def)
  with sl(3) have "is_active x \<longrightarrow> NUL \<in> set (xi_name x)" if "x = inodes (g_xfs_groups s ! (k div 32)) ! (k mod 32)" for x
    using that by (auto simp: ag_ok_def)
  then show "\<exists>x. slot s k = Some x \<and> (is_active x \<longrightarrow> NUL \<in> set (xi_name x))" using sl(1) by blast
qed

lemma find_only: "k < m \<Longrightarrow> P k \<Longrightarrow> (\<And>j. P j \<Longrightarrow> j = k) \<Longrightarrow> find P [0..<m] = Some k"
  unfolding find_upt_Some by (metis less_irrefl zero_le)

lemma named_run:
  assumes "slots_ok s" and "cstr key n"
  shows "first_ok (named p key s) 0 SLOTS = Some (find (entry_is s p n) [0..<SLOTS])"
proof (rule first_ok_eq_find)
  fix k assume "k < SLOTS"
  then obtain x where x: "slot s k = Some x" "is_active x \<longrightarrow> NUL \<in> set (xi_name x)" using assms(1) by (auto simp: slots_ok_def)
  then show "named p key s k = Some (entry_is s p n k)"
    using strcmp_eq [OF cstr_c_string assms(2), of "xi_name x"] by (auto simp: named_def entry_is_def)
qed

lemma with_number_run:
  assumes "slots_ok s"
  shows "first_ok (with_number num s) 0 SLOTS = Some (find (\<lambda>k. k \<in> files s \<and> number_at s k = num) [0..<SLOTS])"
proof (rule first_ok_eq_find)
  fix k assume "k < SLOTS"
  with assms show "with_number num s k = Some (k \<in> files s \<and> number_at s k = num)"
    by (fastforce simp: slots_ok_def with_number_def files_def number_at_def)
qed

lemma put_slot_run:
  assumes "slot s k = Some x"
  shows "\<exists>s'. put_slot s k y = Some s' \<and> (\<forall>j. slot s' j = (if j = k then Some y else slot s j)) \<and>
    g_global_inode_counter s' = g_global_inode_counter s"
proof -
  from assms obtain g where g: "rd (g_xfs_groups s) (k div 32) = Some g" "k mod 32 < length (inodes g)"
    by (auto simp: slot_def xfs_sizes bind_eq_Some_conv rd_Some)
  define g' where "g' = g\<lparr>inodes := (inodes g)[k mod 32 := y]\<rparr>"
  define s' where "s' = s\<lparr>g_xfs_groups := (g_xfs_groups s)[k div 32 := g']\<rparr>"
  have "slot s' j = (if j = k then Some y else slot s j)" for j
  proof (cases "j div 32 = k div 32")
    case True
    moreover have "j = k \<longleftrightarrow> j mod 32 = k mod 32" using True by (metis div_mult_mod_eq)
    ultimately show ?thesis using g by (auto simp: slot_def s'_def g'_def xfs_sizes rd_def)
  next
    case False
    then have "rd (g_xfs_groups s') (j div 32) = rd (g_xfs_groups s) (j div 32)" by (simp add: s'_def rd_def)
    then show ?thesis using False by (auto simp: slot_def xfs_sizes)
  qed
  moreover have "put_slot s k y = Some s'" using g by (simp add: put_slot_def xfs_sizes s'_def g'_def)
  ultimately show ?thesis by (auto simp: s'_def)
qed

lemma xfs_bind_run:
  assumes ok: "xfs_ok s" and k: "k \<in> files s" "slot s k = Some x"
  shows "\<exists>s'. xfs_bind_file_buffer (inode_num x) sz ram s = Some (0, s') \<and>
    (\<forall>j. slot s' j = (if j = k then Some (x\<lparr>xi_size := sz, ram_address := ram\<rparr>) else slot s j))"
proof -
  have num: "number_at s k = inode_num x" using k(2) by (simp add: number_at_def)
  have "find (\<lambda>j. j \<in> files s \<and> number_at s j = inode_num x) [0..<SLOTS] = Some k"
  proof (rule find_only)
    fix j assume "j \<in> files s \<and> number_at s j = inode_num x"
    then show "j = k" using ok k(1) num unfolding xfs_ok_def inj_on_def by metis
  qed (use k num in \<open>auto simp: files_def\<close>)
  with with_number_run [OF xfs_ok_slots [OF ok], of "inode_num x"]
  have "first_ok (with_number (inode_num x) s) 0 SLOTS = Some (Some k)" by simp
  moreover obtain s' where "put_slot s k (x\<lparr>xi_size := sz, ram_address := ram\<rparr>) = Some s'"
    "\<forall>j. slot s' j = (if j = k then Some (x\<lparr>xi_size := sz, ram_address := ram\<rparr>) else slot s j)"
    using put_slot_run [OF k(2)] by blast
  ultimately show ?thesis using k(2) by (simp add: xfs_bind_file_buffer_def)
qed

lemma length_ram_bytes [simp]: "length (ram_bytes m a n) = n"
  by (simp add: ram_bytes_def)

lemma xfs_read_run:
  assumes "v_ram_address nd \<noteq> 0" and "offset < v_size nd" and "sz \<noteq> 0" and "unat offset + unat sz < 2 ^ 32" and "unat (v_size nd) < 2 ^ 31"
    and "length b \<ge> min (unat sz) (unat (v_size nd) - unat offset)"
  shows "xfs_vfs_read m (Some nd) (Some b) sz offset s =
    (let k = min (unat sz) (unat (v_size nd) - unat offset) in Some (int k, Some (ram_bytes m (v_ram_address nd + offset) k @ drop k b)))"
proof -
  define k where "k = min (unat sz) (unat (v_size nd) - unat offset)"
  define sz1 where "sz1 = (if offset + sz > v_size nd then v_size nd - offset else sz)"
  have "unat (offset + sz) = unat offset + unat sz" using assms(4) unat_add_lem [of offset sz] by simp
  moreover have "unat (v_size nd - offset) = unat (v_size nd) - unat offset" using assms(2) by (simp add: unat_sub)
  ultimately have u: "unat sz1 = k" using assms(2) by (auto simp: sz1_def k_def word_less_nat_alt min_def)
  have "k < 2 ^ 31" using assms(5) by (simp add: k_def)
  with u have si: "sint sz1 = int k" by (simp add: sint_u32)
  have "memcpy b (ram_bytes m (v_ram_address nd + offset) k) (int k) = Some (ram_bytes m (v_ram_address nd + offset) k @ drop k b)"
    using memcpy_run [of k b "ram_bytes m (v_ram_address nd + offset) k"] assms(6) by (simp add: k_def [symmetric])
  moreover have "(v_size nd \<le> offset) = False" using assms(2) by simp
  ultimately show ?thesis
    using assms(1,3) by (simp add: xfs_vfs_read_def sz1_def [symmetric] u si k_def [symmetric] Let_def)
qed

subsection \<open>Properties\<close>

text \<open>
  C25: The allocation groups hold exactly 128 files. While fewer exist, creating one succeeds whichever
  group has to take it: exactly one record changes, it was free before, and the invariant is kept (the
  counters agree with the records and bitmaps, blocks within a group and inode numbers are distinct,
  inode numbers stay below the counter). With 128 files the call fails with ENOSPC and changes nothing.
\<close>
theorem xfs_create_invariant:
  assumes "xfs_ok s" and "cstr name n" and "length n < 64" and "cleaned n \<noteq> []"
  shows "\<exists>r s'. xfs_create_file (Some name) ty parent s = Some (r, s') \<and> xfs_ok s' \<and>
    (if card (files s) < 128
     then r = 0 \<and> (\<exists>k. k \<notin> files s \<and> files s' = insert k (files s) \<and> (\<forall>j. j \<noteq> k \<longrightarrow> slot s' j = slot s j))
     else r = - ENOSPC \<and> s' = s)"
proof (cases "card (files s) < 128")
  case True
  with xfs_create_file_run [OF assms True, of ty parent] show ?thesis by auto
next
  case False
  obtain ag where ag: "xfs_pick_ag s = Some ag" "ag < 4" "\<not> card (active (g_xfs_groups s ! ag)) < 32"
    using xfs_pick_ag_run [OF assms(1)] False by auto
  note g = group_ok [OF assms(1) ag(2)]
  have "of_nat XFS_MAX_FILES_AG \<le> inode_count (g_xfs_groups s ! ag)"
    using g ag(3) by (simp add: ag_ok_def word_le_nat_alt xfs_sizes)
  moreover have "strlen name = Some (length n)" using strlen_from_cstr [OF assms(2), of 0] by (simp add: strlen_def)
  ultimately have "xfs_create_file (Some name) ty parent s = Some (- ENOSPC, s)"
    using assms(3,4) clean_name_run [OF assms(2,3)] ag(1) g by (simp add: xfs_create_file_def xfs_sizes)
  with False assms(1) show ?thesis by auto
qed

lemma xfs_boot: "\<exists>s. xfs_init xfs_static = Some s \<and> xfs_ok s \<and> files s = {}"
proof -
  define n where "n = \<lparr>inode_num = 0, xi_name = replicate XFS_MAX_NAME NUL, xi_size = 0, xi_type = 0,
    start_block = 0, is_active = False, parent_inode = 0, ram_address = 0\<rparr>"
  define g where "g i = \<lparr>ag_id = of_nat i, free_blocks = 1024, inode_count = 0, inodes = replicate XFS_MAX_FILES_AG n,
    block_bitmap = replicate 128 0\<rparr>" for i :: nat
  have act: "active (g i) = {}" for i by (auto simp: active_def g_def n_def)
  have ag: "ag_ok (g i)" for i unfolding ag_ok_def act by (simp add: g_def n_def)
  define s where "s = \<lparr>g_xfs_groups = [g 0, g 1, g 2, g 3], g_global_inode_counter = 100\<rparr>"
  have "xfs_init xfs_static = Some s"
    by (simp add: xfs_init_def xfs_static_def for_up.simps xfs_sizes init_ag_def s_def g_def n_def numeral_eq_Suc)
  moreover have fs: "files s = {}"
  proof -
    have "\<not> is_active x" if "slot s k = Some x" for k x
    proof -
      have "\<forall>g' \<in> set (g_xfs_groups s). \<forall>x \<in> set (inodes g'). \<not> is_active x" by (simp add: s_def g_def n_def)
      with that show ?thesis by (fastforce simp: slot_def bind_eq_Some_conv rd_Some dest: nth_mem)
    qed
    then show ?thesis by (auto simp: files_def)
  qed
  moreover have "xfs_ok s" unfolding xfs_ok_def fs using ag by (simp add: s_def xfs_sizes)
  ultimately show ?thesis by blast
qed

theorem xfs_create_invariant_witness:
  "\<exists>s r s'. xfs_init xfs_static = Some s \<and> xfs_create_file (Some (''/etc'' @ [NUL])) 2 0 s = Some (0, s') \<and> card (files s') = 1"
proof -
  obtain s where s: "xfs_init xfs_static = Some s" "xfs_ok s" "files s = {}" using xfs_boot by blast
  have "cstr (''/etc'' @ [NUL]) ''/etc''" "length ''/etc'' < 64" "cleaned ''/etc'' \<noteq> []"
    by (simp_all add: cstr_def cleaned_def is_blank_def)
  from xfs_create_invariant [OF s(2) this, of 2 0] s show ?thesis by auto
qed

text \<open>
  A file of the initial RAM disk goes through the file system unchanged. After it is created
  under a name its directory does not have yet and bound to its bytes, looking the cleaned name up
  yields a node with its inode number, type and size, and a read from that node returns exactly the bytes
  of the RAM disk from the offset on, cut at the end of the file.
\<close>
theorem xfs_bound_file_reads:
  assumes "xfs_ok s" and "card (files s) < 128" and "cstr name n" and "length n < 64" and "cleaned n \<noteq> []"
    and "\<forall>k \<in> files s. \<not> entry_is s (v_inode dir) (cleaned n) k"
    and "cstr key (cleaned n)" and "kmalloc SIZEOF_NODE mm = Some (a, mm')" and "a \<noteq> 0"
    and "ram \<noteq> 0" and "unat sz < 2 ^ 31" and "offset < sz" and "cnt \<noteq> 0" and "unat offset + unat cnt < 2 ^ 32"
    and "min (unat cnt) (unat sz - unat offset) \<le> length b"
  shows "\<exists>s1 s2 nd. xfs_vfs_create (Some dir) (Some name) s = Some (0, s1) \<and>
    xfs_bind_file_buffer (g_global_inode_counter s) sz ram s1 = Some (0, s2) \<and>
    xfs_vfs_finddir addr (Some dir) (Some key) s2 mm = Some (a, Some nd, mm') \<and>
    v_inode nd = g_global_inode_counter s \<and> v_type nd = VFS_TYPE_FILE \<and> v_size nd = sz \<and> cstr (v_name nd) (cleaned n) \<and>
    xfs_vfs_read m (Some nd) (Some b) cnt offset s2 =
      (let k = min (unat cnt) (unat sz - unat offset) in Some (int k, Some (ram_bytes m (ram + offset) k @ drop k b)))"
proof -
  obtain s1 k ni where c: "xfs_create_file (Some name) VFS_TYPE_FILE (v_inode dir) s = Some (0, s1)" "xfs_ok s1" "k \<notin> files s" "k < SLOTS"
      "files s1 = insert k (files s)" "slot s1 k = Some ni" "\<forall>j. j \<noteq> k \<longrightarrow> slot s1 j = slot s j"
      "inode_num ni = g_global_inode_counter s" "parent_inode ni = v_inode dir" "xi_type ni = VFS_TYPE_FILE" "cstr (xi_name ni) (cleaned n)"
      "is_active ni"
    using xfs_create_file_run [OF assms(1,3,4,5,2)] by blast
  obtain s2 where b: "xfs_bind_file_buffer (inode_num ni) sz ram s1 = Some (0, s2)"
      "\<forall>j. slot s2 j = (if j = k then Some (ni\<lparr>xi_size := sz, ram_address := ram\<rparr>) else slot s1 j)"
    using xfs_bind_run [OF c(2) _ c(6)] c(5) by blast
  have sl: "slots_ok s2" using xfs_ok_slots [OF c(2)] b(2) c(6) by (fastforce simp: slots_ok_def)
  have here: "entry_is s2 (v_inode dir) (cleaned n) k" using b(2) c c_string_cstr [OF c(11)] by (simp add: entry_is_def)
  have only: "j = k" if "entry_is s2 (v_inode dir) (cleaned n) j" for j
  proof (rule ccontr)
    assume j: "j \<noteq> k"
    then have "slot s2 j = slot s j" using b(2) c(7) by simp
    then have "entry_is s (v_inode dir) (cleaned n) j" using that by (simp add: entry_is_def)
    moreover have "j < SLOTS"
    proof (rule ccontr)
      assume "\<not> j < SLOTS"
      then have "4 \<le> j div 32" by (simp add: xfs_sizes less_eq_div_iff_mult_less_eq)
      then have "slot s j = None" using assms(1) by (simp add: slot_def xfs_ok_def xfs_sizes)
      with \<open>entry_is s _ _ j\<close> show False by (simp add: entry_is_def)
    qed
    ultimately show False using assms(6) by (auto simp: files_def entry_is_def split: option.splits)
  qed
  have "find (entry_is s2 (v_inode dir) (cleaned n)) [0..<SLOTS] = Some k"
    by (rule find_only) (fact c(4), fact here, fact only)
  then have f: "first_ok (named (v_inode dir) key s2) 0 SLOTS = Some (Some k)"
    by (simp only: named_run [OF sl assms(7), of "v_inode dir"])
  have "length (cleaned n) < 64" using cleaned_string [of n] assms(3,4) by (auto simp: cstr_def)
  moreover have nul: "NUL \<notin> set (cleaned n)" using c(11) by (auto simp: cstr_def)
  moreover define v where "v = cleaned n @ replicate (256 - length (cleaned n)) NUL @ []"
  moreover have "length (v_name zero_node) = 256" by (simp add: zero_node_def)
  ultimately have v: "strncpy (v_name zero_node) (xi_name ni) VFS_NAME_MAX = Some v" "cstr v (cleaned n)"
    using strncpy_cstr [OF c(11), of 256 "v_name zero_node"] cstr_pad [OF nul, of "256 - length (cleaned n)" "[]"]
    by (simp_all add: VFS_NAME_MAX_def)
  define nd where "nd = \<lparr>v_name = v, v_type = VFS_TYPE_FILE, v_inode = inode_num ni, v_size = sz, v_parent = addr, v_ops = v_ops dir,
    v_ptr = 0, v_next = 0, v_ram_address = ram\<rparr>"
  have "xfs_vfs_finddir addr (Some dir) (Some key) s2 mm = Some (a, Some nd, mm')"
    using f b(2) v(1) assms(8,9) c(10) by (simp add: xfs_vfs_finddir_def p_inode_def nd_def)
  moreover have "xfs_vfs_read m (Some nd) (Some b) cnt offset s2 =
      (let k = min (unat cnt) (unat sz - unat offset) in Some (int k, Some (ram_bytes m (ram + offset) k @ drop k b)))"
    using xfs_read_run [of nd offset cnt b m s2] assms(10-15) by (simp add: nd_def)
  ultimately show ?thesis using c(1,8) b(1) v(2) by (intro exI [of _ s1] exI [of _ s2] exI [of _ nd])
      (simp add: xfs_vfs_create_def p_inode_def nd_def)
qed

theorem xfs_bound_file_reads_witness:
  "\<exists>s s1 s2 nd. xfs_init xfs_static = Some s \<and>
     xfs_vfs_create (Some zero_node) (Some (''/motd'' @ [NUL])) s = Some (0, s1) \<and>
     xfs_bind_file_buffer 100 5 0x1000 s1 = Some (0, s2) \<and> v_size nd = 5 \<and>
     xfs_vfs_read (\<lambda>a. if a = 0x1002 then 65 else 66) (Some nd) (Some [NUL, NUL]) 2 1 s2 = Some (2, Some ''BA'')"
proof -
  obtain s where s: "xfs_init xfs_static = Some s" "xfs_ok s" "files s = {}" using xfs_boot by blast
  have cnt: "unat (g_global_inode_counter s) = 100" using s(2,3) by (simp add: xfs_ok_def)
  then have num: "g_global_inode_counter s = 100" by (simp add: word_unat_eq_iff)
  have cl: "cleaned ''/motd'' = ''motd''" by (simp add: cleaned_def is_blank_def)
  have n: "cstr (''/motd'' @ [NUL]) ''/motd''" "length ''/motd'' < 64" "cleaned ''/motd'' \<noteq> []"
    by (simp_all add: cstr_def cl)
  have key: "cstr (''motd'' @ [NUL]) (cleaned ''/motd'')" by (simp add: cl cstr_def)
  have r: "card (files s) < 128" "\<forall>k \<in> files s. \<not> entry_is s (v_inode zero_node) (cleaned ''/motd'') k" using s(3) by simp_all
  obtain a mm' where mm: "kmalloc SIZEOF_NODE demo_mm = Some (a, mm')" "a \<noteq> 0"
    using demo_mm_page [of SIZEOF_NODE] by (auto simp: SIZEOF_NODE_def)
  obtain s1 s2 nd where c: "xfs_vfs_create (Some zero_node) (Some (''/motd'' @ [NUL])) s = Some (0, s1)"
    "xfs_bind_file_buffer (g_global_inode_counter s) 5 0x1000 s1 = Some (0, s2)" "v_size nd = 5"
    "xfs_vfs_read (\<lambda>a. if a = 0x1002 then 65 else 66) (Some nd) (Some [NUL, NUL]) 2 1 s2 =
      (let k = min (unat (2 :: u32)) (unat (5 :: u32) - unat (1 :: u32)) in Some (int k, Some
        (ram_bytes (\<lambda>a. if a = 0x1002 then 65 else 66) (0x1000 + 1) k @ drop k [NUL, NUL])))"
    using xfs_bound_file_reads [OF s(2) r(1) n r(2) key mm, where ram = 4096 and sz = 5 and offset = 1 and cnt = 2
        and b = "[NUL, NUL]" and addr = 0 and m = "\<lambda>a. if a = 0x1002 then 65 else 66"]
    by auto
  have "char_of (65 :: nat) = CHR ''A''" "char_of (66 :: nat) = CHR ''B''" by code_simp+
  with c(4) have "xfs_vfs_read (\<lambda>a. if a = 0x1002 then 65 else 66) (Some nd) (Some [NUL, NUL]) 2 1 s2 = Some (2, Some ''BA'')"
    by (simp add: ram_bytes_def upt_rec)
  with c(1,2,3) s(1) show ?thesis unfolding num by blast
qed

end
