(* ===== verification/Cache_Iface.thy ===== *)
theory Cache_Iface
  imports Prelude
begin

text \<open>
  The interface between a sector cache and the file system over it. \<open>view\<close> is what the sectors contain
  for the file system, \<open>disk\<close> what is on the disk; \<open>load\<close> gives a pointer to a sector, and a pointer
  is good for that sector only as long as \<open>at\<close> says so, which is until the next \<open>load\<close>.
\<close>

locale sector_cache =
  fixes ok :: "'s \<Rightarrow> bool"
    and number :: "u32 \<Rightarrow> bool"
    and len :: nat
    and view :: "'s \<Rightarrow> u32 \<Rightarrow> u8 list"
    and disk :: "'s \<Rightarrow> u32 \<Rightarrow> u8 list"
    and at :: "'s \<Rightarrow> 'p \<Rightarrow> u32 \<Rightarrow> bool"
    and load :: "u32 \<Rightarrow> 's \<Rightarrow> ('p \<times> 's) option"
    and read :: "'p \<Rightarrow> nat \<Rightarrow> 's \<Rightarrow> u8 list option"
    and store :: "'p \<Rightarrow> u8 list \<Rightarrow> 's \<Rightarrow> 's option"
    and mark :: "u32 \<Rightarrow> 's \<Rightarrow> 's"
    and flush :: "'s \<Rightarrow> 's"
  assumes length_sector: "ok s \<Longrightarrow> length (view s b) = len"
    and load_ok: "ok s \<Longrightarrow> number b \<Longrightarrow> load b s = Some (p, s1) \<Longrightarrow> ok s1 \<and> view s1 = view s \<and> at s1 p b"
    and read_at: "ok s \<Longrightarrow> at s p b \<Longrightarrow> read p len s = Some (view s b)"
    and store_at: "ok s \<Longrightarrow> at s p b \<Longrightarrow> length bs = len \<Longrightarrow>
      \<exists>s1. store p bs s = Some s1 \<and> ok (mark b s1) \<and> view (mark b s1) = (view s)(b := bs)"
    and flush_ok: "ok s \<Longrightarrow> ok (flush s) \<and> view (flush s) = view s \<and> disk (flush s) = view s"
begin

text \<open>Fetching a sector, changing it and marking it.\<close>

lemma modify:
  assumes "ok s" and "number b" and "load b s = Some (p, s1)" and "length (f (view s b)) = len"
  shows "\<exists>s2. read p len s1 = Some (view s b) \<and> store p (f (view s b)) s1 = Some s2 \<and>
    ok (mark b s2) \<and> view (mark b s2) = (view s)(b := f (view s b))"
  using load_ok [OF assms(1-3)] read_at [of s1 p b] store_at [of s1 p b "f (view s b)"] assms(4) by metis

text \<open>After a flush the disk has the change, and nothing but the change.\<close>

lemma modify_flush:
  assumes "ok s" and "number b" and "load b s = Some (p, s1)" and "length (f (view s b)) = len"
  shows "\<exists>s2. store p (f (view s b)) s1 = Some s2 \<and> disk (flush (mark b s2)) = (view s)(b := f (view s b))"
  using modify [OF assms(1-3), of f] assms(4) flush_ok by metis

end

end
