(* ===== verification/Btrfs.thy ===== *)
theory Btrfs
  imports Vfs CString_Copy Page_Source Cache_Iface
begin

text \<open>
  The block file system \<open>fs/btrfs/btrfs.c\<close> with its cache of 32 sectors. \<open>block_get\<close> returns a pointer
  into the cache, which the code keeps while it fetches other blocks; so a pointer is modelled as
  what it is, a slot and an offset in its data, and not as the block it was fetched for. An access
  outside of the 512 bytes of a slot is None. The disk is a map from sector numbers to their bytes;
  \<open>drivers/ata/ata.c\<close> passes 28 bits of the number to the controller, which is taken to be ready.
\<close>

definition BLOCK_SIZE :: nat where "BLOCK_SIZE = 512"
definition BITMAP_BLOCK :: u32 where "BITMAP_BLOCK = 1"
definition INODE_BLOCK :: u32 where "INODE_BLOCK = 0"
definition CACHE_SLOTS :: nat where "CACHE_SLOTS = 32"

record buffer_slot =
  block_id :: u32
  data :: "u8 list"
  dirty :: bool
  valid :: bool

record btrfs =
  cache :: "buffer_slot list"
  disk :: "u32 \<Rightarrow> u8 list"
  log_entry :: "u32 \<times> u8 list"

definition sector :: "u32 \<Rightarrow> u32" where
  "sector lba = lba AND 0x0FFFFFFF"

definition ata_read_sector :: "u32 \<Rightarrow> btrfs \<Rightarrow> u8 list" where
  "ata_read_sector lba s = disk s (sector lba)"

definition ata_write_sector :: "u32 \<Rightarrow> u8 list \<Rightarrow> btrfs \<Rightarrow> btrfs" where
  "ata_write_sector lba d s = s\<lparr>disk := (disk s)(sector lba := d)\<rparr>"

subsection \<open>The cache\<close>

definition holds :: "btrfs \<Rightarrow> u32 \<Rightarrow> nat \<Rightarrow> bool" where
  "holds s b i \<longleftrightarrow> valid (cache s ! i) \<and> block_id (cache s ! i) = b"

definition evictable :: "btrfs \<Rightarrow> nat \<Rightarrow> bool" where
  "evictable s i \<longleftrightarrow> \<not> valid (cache s ! i) \<or> \<not> dirty (cache s ! i)"

text \<open>The slot with the block, or None for the null pointer.\<close>

definition block_get :: "u32 \<Rightarrow> btrfs \<Rightarrow> nat option \<times> btrfs" where
  "block_get b s =
     (case find (holds s b) [0..<CACHE_SLOTS] of
        Some i \<Rightarrow> (Some i, s)
      | None \<Rightarrow>
          (case find (evictable s) [0..<CACHE_SLOTS] of
             None \<Rightarrow> (None, s)
           | Some i \<Rightarrow>
               let sl = cache s ! i;
                   s1 = (if dirty sl then ata_write_sector (block_id sl) (data sl) s else s)
               in (Some i, s1\<lparr>cache := (cache s1)[i := \<lparr>block_id = b, data = ata_read_sector b s1, dirty = False, valid = True\<rparr>]\<rparr>)))"

definition block_mark_dirty :: "u32 \<Rightarrow> btrfs \<Rightarrow> btrfs" where
  "block_mark_dirty b s =
     (case find (holds s b) [0..<CACHE_SLOTS] of
        Some i \<Rightarrow> s\<lparr>cache := (cache s)[i := (cache s ! i)\<lparr>dirty := True\<rparr>]\<rparr>
      | None \<Rightarrow> s)"

definition flush_slot :: "nat \<Rightarrow> btrfs \<Rightarrow> btrfs" where
  "flush_slot i s =
     (let sl = cache s ! i
      in if valid sl \<and> dirty sl
         then (ata_write_sector (block_id sl) (data sl) s)\<lparr>cache := (cache s)[i := sl\<lparr>dirty := False\<rparr>]\<rparr> else s)"

definition btrfs_flush_cache :: "btrfs \<Rightarrow> btrfs" where
  "btrfs_flush_cache s = fold flush_slot [0..<CACHE_SLOTS] s"

subsection \<open>Bytes behind a pointer\<close>

type_synonym ptr = "nat \<times> nat"

definition peek :: "ptr \<Rightarrow> nat \<Rightarrow> btrfs \<Rightarrow> u8 list option" where
  "peek p n s =
     (case p of (i, off) \<Rightarrow> if i < length (cache s) \<and> off + n \<le> length (data (cache s ! i))
        then Some (take n (drop off (data (cache s ! i)))) else None)"

definition poke :: "ptr \<Rightarrow> u8 list \<Rightarrow> btrfs \<Rightarrow> btrfs option" where
  "poke p bs s =
     (case p of (i, off) \<Rightarrow> if i < length (cache s) \<and> off + length bs \<le> length (data (cache s ! i))
        then Some (s\<lparr>cache := (cache s)[i := (cache s ! i)
           \<lparr>data := take off (data (cache s ! i)) @ bs @ drop (off + length bs) (data (cache s ! i))\<rparr>]\<rparr>) else None)"

definition le32 :: "u8 list \<Rightarrow> u32" where
  "le32 bs = ucast (bs ! 0) OR push_bit 8 (ucast (bs ! 1)) OR push_bit 16 (ucast (bs ! 2)) OR push_bit 24 (ucast (bs ! 3))"

definition le32_bytes :: "u32 \<Rightarrow> u8 list" where
  "le32_bytes w = [ucast w, ucast (drop_bit 8 w), ucast (drop_bit 16 w), ucast (drop_bit 24 w)]"

definition plus_off :: "ptr \<Rightarrow> nat \<Rightarrow> ptr" where
  "plus_off p k = (fst p, snd p + k)"

text \<open>The fields of \<open>struct btrfs_disk_inode\<close>: the size, the first block pointer, the name.\<close>

definition SIZE_AT :: nat where "SIZE_AT = 0"
definition BLOCK_PTR_AT :: nat where "BLOCK_PTR_AT = 4"
definition NAME_AT :: nat where "NAME_AT = 36"
definition SIZEOF_INODE :: nat where "SIZEOF_INODE = 64"

text \<open>\<open>block_get(0) + inode_id * 64\<close>; an access through a null pointer is None.\<close>

definition get_inode :: "u32 \<Rightarrow> btrfs \<Rightarrow> (ptr \<times> btrfs) option" where
  "get_inode k s = (case block_get 0 s of (Some i, s') \<Rightarrow> Some ((i, unat (k * 64)), s') | (None, _) \<Rightarrow> None)"

definition fetch :: "u32 \<Rightarrow> btrfs \<Rightarrow> (ptr \<times> btrfs) option" where
  "fetch b s = (case block_get b s of (Some i, s') \<Rightarrow> Some ((i, 0), s') | (None, _) \<Rightarrow> None)"

definition char_bytes :: "char list \<Rightarrow> u8 list" where
  "char_bytes = map (\<lambda>c. of_nat (of_char c))"

subsection \<open>Files\<close>

definition journal_log :: "u32 \<Rightarrow> ptr \<Rightarrow> btrfs \<Rightarrow> btrfs option" where
  "journal_log b p s = do { d \<leftarrow> peek p BLOCK_SIZE s; Some (s\<lparr>log_entry := (b, d)\<rparr>) }"

text \<open>\<open>memcpy\<close> copies nothing for a length that is negative as an \<open>int\<close>.\<close>

definition bytes_of :: "char list \<Rightarrow> u32 \<Rightarrow> u8 list option" where
  "bytes_of content len = (let n = nat (sint len) in if n \<le> length content then Some (char_bytes (take n content)) else None)"

definition btrfs_write_file :: "u32 \<Rightarrow> char list \<Rightarrow> u32 \<Rightarrow> btrfs \<Rightarrow> (int \<times> btrfs) option" where
  "btrfs_write_file k content len s =
     do { (inode, s) \<leftarrow> get_inode k s;
          b \<leftarrow> peek (plus_off inode BLOCK_PTR_AT) 4 s;
          let blk = le32 b;
          (p, s) \<leftarrow> fetch blk s;
          s \<leftarrow> journal_log blk p s;
          (p, s) \<leftarrow> fetch blk s;
          bs \<leftarrow> bytes_of content len;
          s \<leftarrow> poke p bs s;
          s \<leftarrow> poke (plus_off inode SIZE_AT) (le32_bytes len) (block_mark_dirty blk s);
          Some (0, block_mark_dirty 0 s) }"

definition btrfs_allocate_block :: "btrfs \<Rightarrow> (int \<times> btrfs) option" where
  "btrfs_allocate_block s =
     do { (p, s) \<leftarrow> fetch BITMAP_BLOCK s;
          bitmap \<leftarrow> peek p BLOCK_SIZE s;
          r \<leftarrow> first_ok (\<lambda>k. map_option Not (bm_test bitmap k)) 0 (8 * BLOCK_SIZE);
          case r of
            None \<Rightarrow> Some (-1, s)
          | Some k \<Rightarrow> do { bm \<leftarrow> bm_on bitmap k; s \<leftarrow> poke p bm s; Some (int k, block_mark_dirty BITMAP_BLOCK s) } }"

definition btrfs_free_block :: "int \<Rightarrow> btrfs \<Rightarrow> btrfs option" where
  "btrfs_free_block b s =
     do { (p, s) \<leftarrow> fetch BITMAP_BLOCK s;
          bitmap \<leftarrow> peek p BLOCK_SIZE s;
          bm \<leftarrow> (if b < 0 then None else bm_off bitmap (nat b));
          s \<leftarrow> poke p bm s;
          Some (block_mark_dirty BITMAP_BLOCK s) }"

text \<open>A zeroed node with its name, in front of the parent's children. The result of \<open>kmalloc\<close> is not tested.\<close>

definition BLUEFS_OPS :: vfs_ops where "BLUEFS_OPS = OpsOther 1"

definition link_child :: "u32 \<Rightarrow> char list \<Rightarrow> u32 \<Rightarrow> u32 \<Rightarrow> u32 \<Rightarrow> vfs \<Rightarrow> vfs option" where
  "link_child child name type k parent v =
     (if child = 0 then None
      else do { nm \<leftarrow> strncpy (v_name zero_node) name VFS_NAME_MAX;
                p \<leftarrow> nodes v parent;
                let c = zero_node\<lparr>v_name := nm, v_type := type, v_inode := k, v_ops := BLUEFS_OPS, v_parent := parent, v_next := v_ptr p\<rparr>;
                Some (v\<lparr>nodes := (nodes v)(child \<mapsto> c, parent \<mapsto> p\<lparr>v_ptr := child\<rparr>)\<rparr>) })"

definition btrfs_mkdir :: "u32 \<Rightarrow> char list \<Rightarrow> vfs \<Rightarrow> (int \<times> vfs) option" where
  "btrfs_mkdir parent name v =
     do { (child, mm) \<leftarrow> kmalloc SIZEOF_NODE (v_mm v);
          if child = 0 then Some (-1, v\<lparr>v_mm := mm\<rparr>)
          else do { v' \<leftarrow> link_child child name VFS_TYPE_DIR 0 parent (v\<lparr>v_mm := mm\<rparr>); Some (0, v') } }"

text \<open>The first inode from 1 to 7 without a block, in the table behind \<open>p\<close>.\<close>

definition free_inode :: "ptr \<Rightarrow> btrfs \<Rightarrow> nat option option" where
  "free_inode p s = first_ok (\<lambda>i. map_option (\<lambda>b. le32 b = 0) (peek (plus_off p (SIZEOF_INODE * i + BLOCK_PTR_AT)) 4 s)) 1 8"

definition btrfs_create_file :: "u32 \<Rightarrow> char list \<Rightarrow> char list option \<Rightarrow> btrfs \<Rightarrow> vfs \<Rightarrow> (int \<times> btrfs \<times> vfs) option" where
  "btrfs_create_file parent name content s v =
     do { (table, s) \<leftarrow> get_inode 0 s;
          r \<leftarrow> free_inode table s;
          case r of
            None \<Rightarrow> Some (-1, s, v)
          | Some k \<Rightarrow>
              do { (b, s) \<leftarrow> btrfs_allocate_block s;
                   if b = -1 then Some (-1, s, v)
                   else do {
                     let inode = plus_off table (SIZEOF_INODE * k);
                     s \<leftarrow> poke inode (replicate SIZEOF_INODE 0) s;
                     s \<leftarrow> poke (plus_off inode BLOCK_PTR_AT) (le32_bytes (of_int b)) s;
                     len \<leftarrow> (case content of Some c \<Rightarrow> strlen c | None \<Rightarrow> Some 0);
                     s \<leftarrow> poke (plus_off inode SIZE_AT) (le32_bytes (of_nat len)) s;
                     nm \<leftarrow> strncpy (replicate 31 NUL) name 31;
                     s \<leftarrow> poke (plus_off inode NAME_AT) (char_bytes (nm @ [NUL])) s;
                     s \<leftarrow> (case content of Some c \<Rightarrow> map_option snd (btrfs_write_file (of_nat k) c (of_nat len) s)
                                       | None \<Rightarrow> Some (block_mark_dirty 0 s));
                     let s = btrfs_flush_cache (block_mark_dirty BITMAP_BLOCK s);
                     (child, mm) \<leftarrow> kmalloc SIZEOF_NODE (v_mm v);
                     v' \<leftarrow> link_child child name VFS_TYPE_FILE (of_nat k) parent (v\<lparr>v_mm := mm\<rparr>);
                     Some (0, s, v') } } }"

definition btrfs_read_file :: "vfs_node \<Rightarrow> char list \<Rightarrow> u32 \<Rightarrow> u32 \<Rightarrow> btrfs \<Rightarrow> (int \<times> char list \<times> btrfs) option" where
  "btrfs_read_file node buffer sz offset s =
     do { (inode, s) \<leftarrow> get_inode (v_inode node) s;
          b \<leftarrow> peek (plus_off inode BLOCK_PTR_AT) 4 s;
          (p, s) \<leftarrow> fetch (le32 b) s;
          d \<leftarrow> peek (plus_off p (unat offset)) (nat (sint sz)) s;
          buf \<leftarrow> memcpy buffer (map (\<lambda>w. char_of (unat w)) d) (sint sz);
          Some (sint sz, buf, s) }"

definition btrfs_write_file_vfs :: "vfs_node \<Rightarrow> char list \<Rightarrow> u32 \<Rightarrow> u32 \<Rightarrow> btrfs \<Rightarrow> (int \<times> btrfs) option" where
  "btrfs_write_file_vfs node buffer sz offset s =
     do { (inode, s) \<leftarrow> get_inode (v_inode node) s;
          b \<leftarrow> peek (plus_off inode BLOCK_PTR_AT) 4 s;
          (p, s) \<leftarrow> fetch (le32 b) s;
          bs \<leftarrow> bytes_of buffer sz;
          s \<leftarrow> poke (plus_off p (unat offset)) bs s;
          b \<leftarrow> peek (plus_off inode BLOCK_PTR_AT) 4 s;
          s \<leftarrow> poke (plus_off inode SIZE_AT) (le32_bytes (sz + offset)) (block_mark_dirty (le32 b) s);
          Some (sint sz, block_mark_dirty 0 s) }"

text \<open>The name is not used: the inode removed is the one of the node given.\<close>

definition btrfs_unlink :: "vfs_node \<Rightarrow> char list \<Rightarrow> btrfs \<Rightarrow> (int \<times> btrfs) option" where
  "btrfs_unlink node name s =
     do { (inode, s) \<leftarrow> get_inode (v_inode node) s;
          b \<leftarrow> peek (plus_off inode BLOCK_PTR_AT) 4 s;
          s \<leftarrow> btrfs_free_block (sint (le32 b)) s;
          s \<leftarrow> poke inode (replicate SIZEOF_INODE 0) s;
          Some (0, block_mark_dirty 0 s) }"

text \<open>The name in the table is read on to its terminator, beyond its field when it has none.\<close>

definition mount_inode :: "ptr \<Rightarrow> nat \<Rightarrow> btrfs \<Rightarrow> vfs \<Rightarrow> vfs option" where
  "mount_inode table i s v =
     do { b \<leftarrow> peek (plus_off table (SIZEOF_INODE * i + BLOCK_PTR_AT)) 4 s;
          c \<leftarrow> peek (plus_off table (SIZEOF_INODE * i + NAME_AT)) 1 s;
          if le32 b \<noteq> 0 \<and> c \<noteq> [0]
          then do { (child, mm) \<leftarrow> kmalloc SIZEOF_NODE (v_mm v);
                    let rest = drop (snd table + SIZEOF_INODE * i + NAME_AT) (data (cache s ! fst table));
                    link_child child (map (\<lambda>w. char_of (unat w)) rest) VFS_TYPE_FILE (of_nat i) (vfs_root v) (v\<lparr>v_mm := mm\<rparr>) }
          else Some v }"

definition btrfs_mount_disk :: "btrfs \<Rightarrow> vfs \<Rightarrow> (btrfs \<times> vfs) option" where
  "btrfs_mount_disk s v =
     do { (_, s) \<leftarrow> fetch INODE_BLOCK s;
          (table, s) \<leftarrow> get_inode 0 s;
          v' \<leftarrow> for_up 1 8 (\<lambda>i v. mount_inode table i s v) v;
          Some (s, v') }"

subsection \<open>Coherence of the cache\<close>

text \<open>
  The contents of a sector as the file system sees them: from the cache when it is there. The
  invariant: a clean slot agrees with the disk, a sector is in one slot at most, free slots are not dirty,
  and the sector numbers are ones the controller can address.
\<close>

definition view :: "btrfs \<Rightarrow> u32 \<Rightarrow> u8 list" where
  "view s b = (case find (holds s b) [0..<CACHE_SLOTS] of Some i \<Rightarrow> data (cache s ! i) | None \<Rightarrow> disk s b)"

definition slot_ok :: "(u32 \<Rightarrow> u8 list) \<Rightarrow> buffer_slot \<Rightarrow> bool" where
  "slot_ok dk sl \<longleftrightarrow> length (data sl) = BLOCK_SIZE \<and> (dirty sl \<longrightarrow> valid sl) \<and> (valid sl \<longrightarrow> sector (block_id sl) = block_id sl) \<and>
     (valid sl \<and> \<not> dirty sl \<longrightarrow> data sl = dk (block_id sl))"

definition cache_ok :: "btrfs \<Rightarrow> bool" where
  "cache_ok s \<longleftrightarrow> length (cache s) = CACHE_SLOTS \<and> (\<forall>b. length (disk s b) = BLOCK_SIZE) \<and>
     (\<forall>i<CACHE_SLOTS. slot_ok (disk s) (cache s ! i)) \<and>
     (\<forall>i<CACHE_SLOTS. \<forall>j<CACHE_SLOTS. \<forall>b. holds s b i \<and> holds s b j \<longrightarrow> i = j)"

lemma find_holds:
  assumes "cache_ok s" and "i < CACHE_SLOTS" and "holds s b i"
  shows "find (holds s b) [0..<CACHE_SLOTS] = Some i"
proof -
  have "\<not> holds s b j" if "j < i" for j using assms that unfolding cache_ok_def by (metis less_irrefl less_trans)
  with assms(2,3) show ?thesis by (simp add: find_upt_Some)
qed

lemma view_held: "cache_ok s \<Longrightarrow> i < CACHE_SLOTS \<Longrightarrow> holds s b i \<Longrightarrow> view s b = data (cache s ! i)"
  by (simp add: view_def find_holds)

lemma view_not_held: "\<forall>i<CACHE_SLOTS. \<not> holds s b i \<Longrightarrow> view s b = disk s b"
proof -
  assume "\<forall>i<CACHE_SLOTS. \<not> holds s b i"
  then have "find (holds s b) [0..<CACHE_SLOTS] = None" by (simp add: find_upt_None)
  then show ?thesis by (simp add: view_def)
qed

lemma length_view: "cache_ok s \<Longrightarrow> length (view s b) = BLOCK_SIZE"
proof (cases "\<exists>i<CACHE_SLOTS. holds s b i")
  case True
  assume ok: "cache_ok s"
  from True obtain i where "i < CACHE_SLOTS" "holds s b i" by blast
  with ok show ?thesis using view_held by (simp add: cache_ok_def slot_ok_def)
qed (simp add: view_not_held cache_ok_def)

text \<open>Loading a sector into a slot that is free or clean.\<close>

lemma load_slot:
  assumes ok: "cache_ok s" and i: "i < CACHE_SLOTS" "evictable s i" and b: "sector b = b" "\<forall>j<CACHE_SLOTS. \<not> holds s b j"
    and s': "s' = s\<lparr>cache := (cache s)[i := \<lparr>block_id = b, data = disk s b, dirty = False, valid = True\<rparr>]\<rparr>"
  shows "cache_ok s' \<and> view s' = view s \<and> holds s' b i"
proof -
  have len: "length (cache s) = CACHE_SLOTS" using ok by (simp add: cache_ok_def)
  have at: "cache s' ! j = (if j = i then \<lparr>block_id = b, data = disk s b, dirty = False, valid = True\<rparr> else cache s ! j)" for j
    using i(1) len by (simp add: s' nth_list_update)
  have dk: "disk s' = disk s" by (simp add: s')
  have h: "holds s' c j \<longleftrightarrow> (if j = i then c = b else holds s c j)" for c j by (auto simp: holds_def at)
  have "cache_ok s'"
    unfolding cache_ok_def
  proof (intro conjI)
    show "length (cache s') = CACHE_SLOTS" using len by (simp add: s')
    show "\<forall>b. length (disk s' b) = BLOCK_SIZE" using ok by (simp add: dk cache_ok_def)
    show "\<forall>j<CACHE_SLOTS. slot_ok (disk s') (cache s' ! j)"
      using ok b(1) by (auto simp: at dk cache_ok_def slot_ok_def)
    show "\<forall>j<CACHE_SLOTS. \<forall>l<CACHE_SLOTS. \<forall>c. holds s' c j \<and> holds s' c l \<longrightarrow> j = l"
    proof (intro allI impI)
      fix j l c assume "j < CACHE_SLOTS" "l < CACHE_SLOTS" "holds s' c j \<and> holds s' c l"
      then show "j = l" using ok b(2) unfolding h cache_ok_def by (cases "j = i"; cases "l = i"; simp) blast
    qed
  qed
  moreover have "view s' c = view s c" for c
  proof (cases "\<exists>j<CACHE_SLOTS. holds s' c j")
    case True
    then obtain j where j: "j < CACHE_SLOTS" "holds s' c j" by blast
    note v = view_held [OF \<open>cache_ok s'\<close> j]
    show ?thesis
    proof (cases "j = i")
      case True
      then have "c = b" using j h by simp
      with v True b(2) show ?thesis by (simp add: at view_not_held)
    next
      case False
      then have "holds s c j" using j(2) h by simp
      with v False view_held [OF ok j(1)] show ?thesis by (simp add: at)
    qed
  next
    case False
    then have none: "\<forall>j<CACHE_SLOTS. \<not> holds s' c j" by blast
    show ?thesis
    proof (cases "holds s c i")
      case True
      then have "valid (cache s ! i)" "block_id (cache s ! i) = c" by (simp_all add: holds_def)
      then have "data (cache s ! i) = disk s c" using ok i by (auto simp: cache_ok_def slot_ok_def evictable_def)
      with view_held [OF ok i(1) True] view_not_held [OF none] show ?thesis by (simp add: dk)
    next
      case False
      with none have "\<forall>j<CACHE_SLOTS. \<not> holds s c j" unfolding h by metis
      with none show ?thesis by (simp add: view_not_held dk)
    qed
  qed
  ultimately show ?thesis by (auto simp: h fun_eq_iff)
qed

lemma block_get_run:
  assumes ok: "cache_ok s" and b: "sector b = b"
  shows "case block_get b s of
      (Some i, s') \<Rightarrow> cache_ok s' \<and> view s' = view s \<and> i < CACHE_SLOTS \<and> holds s' b i \<and> data (cache s' ! i) = view s b
    | (None, s') \<Rightarrow> s' = s \<and> (\<forall>i<CACHE_SLOTS. valid (cache s ! i) \<and> dirty (cache s ! i) \<and> \<not> holds s b i)"
proof (cases "find (holds s b) [0..<CACHE_SLOTS]")
  case (Some i)
  then have "i < CACHE_SLOTS" "holds s b i" by (simp_all add: find_upt_Some)
  with Some ok show ?thesis by (simp add: block_get_def view_held)
next
  case None
  then have none: "\<forall>j<CACHE_SLOTS. \<not> holds s b j" by (simp add: find_upt_None)
  show ?thesis
  proof (cases "find (evictable s) [0..<CACHE_SLOTS]")
    case (Some i)
    then have i: "i < CACHE_SLOTS" "evictable s i" by (simp_all add: find_upt_Some)
    then have "\<not> dirty (cache s ! i)" using ok by (auto simp: evictable_def cache_ok_def slot_ok_def)
    then have g: "block_get b s = (Some i, s\<lparr>cache := (cache s)[i := \<lparr>block_id = b, data = disk s b, dirty = False, valid = True\<rparr>]\<rparr>)"
      using None Some b by (simp add: block_get_def Let_def ata_read_sector_def)
    from load_slot [OF ok i b none refl] have l: "cache_ok (snd (block_get b s))" "view (snd (block_get b s)) = view s"
      "holds (snd (block_get b s)) b i" by (simp_all add: g)
    from view_held [OF l(1) i(1) l(3)] l i(1) show ?thesis by (simp add: g)
  next
    case None': None
    then have "\<forall>i<CACHE_SLOTS. valid (cache s ! i) \<and> dirty (cache s ! i)" by (simp add: find_upt_None evictable_def)
    then show ?thesis using None None' none by (simp add: block_get_def)
  qed
qed

lemma write_slot:
  assumes ok: "cache_ok s" and i: "i < CACHE_SLOTS" "holds s b i" and d: "length d = BLOCK_SIZE"
    and s': "s' = s\<lparr>cache := (cache s)[i := (cache s ! i)\<lparr>data := d, dirty := True\<rparr>]\<rparr>"
  shows "cache_ok s' \<and> view s' = (view s)(b := d)"
proof -
  have len: "length (cache s) = CACHE_SLOTS" using ok by (simp add: cache_ok_def)
  have at: "cache s' ! j = (if j = i then (cache s ! i)\<lparr>data := d, dirty := True\<rparr> else cache s ! j)" for j
    using i(1) len by (simp add: s' nth_list_update)
  have h: "holds s' c j \<longleftrightarrow> holds s c j" for c j by (auto simp: holds_def at)
  have dk: "disk s' = disk s" by (simp add: s')
  have v: "valid (cache s ! i)" using i(2) by (simp add: holds_def)
  have "length (cache s') = CACHE_SLOTS" using len by (simp add: s')
  then have "cache_ok s'" using ok d v unfolding cache_ok_def h dk by (simp add: at slot_ok_def)
  moreover have "view s' c = ((view s)(b := d)) c" for c
  proof (cases "\<exists>j<CACHE_SLOTS. holds s c j")
    case True
    then obtain j where j: "j < CACHE_SLOTS" "holds s c j" by blast
    have "view s' c = data (cache s' ! j)" using view_held [OF \<open>cache_ok s'\<close> j(1)] j(2) h by blast
    moreover have "view s c = data (cache s ! j)" by (rule view_held [OF ok j])
    moreover have "j = i \<longleftrightarrow> c = b"
    proof
      assume "j = i" then show "c = b" using i(2) j(2) by (simp add: holds_def)
    next
      assume "c = b" then show "j = i" using ok i j unfolding cache_ok_def by blast
    qed
    ultimately show ?thesis by (simp add: at)
  next
    case False
    then show ?thesis using i view_not_held [of s c] view_not_held [of s' c] by (auto simp: h dk)
  qed
  ultimately show ?thesis by (simp add: fun_eq_iff)
qed

definition splice :: "nat \<Rightarrow> u8 list \<Rightarrow> u8 list \<Rightarrow> u8 list" where
  "splice off bs d = take off d @ bs @ drop (off + length bs) d"

lemma length_splice [simp]: "off + length bs \<le> length d \<Longrightarrow> length (splice off bs d) = length d"
  by (simp add: splice_def)

text \<open>A change of the bytes of a block, marked afterwards, is seen, and only it.\<close>

lemma poke_mark:
  assumes ok: "cache_ok s" and i: "i < CACHE_SLOTS" "holds s b i" and fits: "off + length bs \<le> BLOCK_SIZE"
  shows "\<exists>s1. poke (i, off) bs s = Some s1 \<and> cache_ok (block_mark_dirty b s1) \<and>
    view (block_mark_dirty b s1) = (view s)(b := splice off bs (view s b))"
proof -
  have len: "length (cache s) = CACHE_SLOTS" "length (data (cache s ! i)) = BLOCK_SIZE"
    using ok i(1) by (auto simp: cache_ok_def slot_ok_def)
  have vw: "view s b = data (cache s ! i)" by (rule view_held [OF ok i])
  define s1 where "s1 = s\<lparr>cache := (cache s)[i := (cache s ! i)\<lparr>data := splice off bs (data (cache s ! i))\<rparr>]\<rparr>"
  have p: "poke (i, off) bs s = Some s1" using i(1) len fits by (simp add: poke_def s1_def splice_def)
  have "holds s1 c j \<longleftrightarrow> holds s c j" for c j using i(1) len by (auto simp: holds_def s1_def nth_list_update)
  then have "find (holds s1 b) [0..<CACHE_SLOTS] = Some i" using find_holds [OF ok i] by presburger
  then have m: "block_mark_dirty b s1 = s\<lparr>cache := (cache s)[i := (cache s ! i)\<lparr>data := splice off bs (view s b), dirty := True\<rparr>]\<rparr>"
    using i(1) len vw by (simp add: block_mark_dirty_def s1_def)
  have "length (splice off bs (view s b)) = BLOCK_SIZE" using fits len vw by simp
  from write_slot [OF ok i this m] p show ?thesis by blast
qed

lemma flush_slot_run:
  assumes ok: "cache_ok s" and i: "i < CACHE_SLOTS"
  shows "cache_ok (flush_slot i s) \<and> view (flush_slot i s) = view s \<and> \<not> dirty (cache (flush_slot i s) ! i) \<and>
    (\<forall>j. j \<noteq> i \<longrightarrow> cache (flush_slot i s) ! j = cache s ! j)"
proof (cases "valid (cache s ! i) \<and> dirty (cache s ! i)")
  case False
  then have "\<not> dirty (cache s ! i)" using ok i by (auto simp: cache_ok_def slot_ok_def)
  with False ok show ?thesis by (auto simp: flush_slot_def Let_def)
next
  case True
  let ?sl = "cache s ! i" and ?s' = "flush_slot i s"
  have len: "length (cache s) = CACHE_SLOTS" using ok by (simp add: cache_ok_def)
  have sec: "sector (block_id ?sl) = block_id ?sl" "length (data ?sl) = BLOCK_SIZE" using True ok i by (simp_all add: cache_ok_def slot_ok_def)
  have c: "cache ?s' = (cache s)[i := ?sl\<lparr>dirty := False\<rparr>]" and dk: "disk ?s' = (disk s)(block_id ?sl := data ?sl)"
    using True sec by (simp_all add: flush_slot_def ata_write_sector_def Let_def)
  have at: "cache ?s' ! j = (if j = i then ?sl\<lparr>dirty := False\<rparr> else cache s ! j)" for j
    using i len by (simp add: c nth_list_update)
  have h: "holds ?s' b j \<longleftrightarrow> holds s b j" for b j by (auto simp: holds_def at)
  have hi: "holds s (block_id ?sl) i" using True by (simp add: holds_def)
  have other: "block_id (cache s ! j) \<noteq> block_id ?sl" if "j < CACHE_SLOTS" "j \<noteq> i" "valid (cache s ! j)" for j
    using ok i hi that unfolding cache_ok_def holds_def by metis
  have ok': "cache_ok ?s'"
    unfolding cache_ok_def
  proof (intro conjI)
    show "\<forall>j<CACHE_SLOTS. slot_ok (disk ?s') (cache ?s' ! j)"
    proof (intro allI impI)
      fix j assume j: "j < CACHE_SLOTS"
      then show "slot_ok (disk ?s') (cache ?s' ! j)" using ok sec True other [OF j] unfolding at dk cache_ok_def slot_ok_def by auto
    qed
  qed (use ok len sec in \<open>auto simp: c dk h cache_ok_def\<close>)
  have "view ?s' b = view s b" for b
  proof (cases "\<exists>j<CACHE_SLOTS. holds s b j")
    case True
    then obtain j where j: "j < CACHE_SLOTS" "holds s b j" by blast
    then have "holds ?s' b j" by (simp add: h)
    from view_held [OF ok' j(1) this] view_held [OF ok j] show ?thesis by (simp add: at)
  next
    case False
    then have "b \<noteq> block_id ?sl" using hi i by metis
    with False view_not_held [of s b] view_not_held [of ?s' b] show ?thesis by (simp add: h dk)
  qed
  then show ?thesis using ok' by (auto simp: at)
qed

lemma flush_run:
  assumes "cache_ok s"
  shows "cache_ok (btrfs_flush_cache s) \<and> view (btrfs_flush_cache s) = view s \<and> (\<forall>i<CACHE_SLOTS. \<not> dirty (cache (btrfs_flush_cache s) ! i))"
proof -
  have "n \<le> CACHE_SLOTS \<Longrightarrow> cache_ok (fold flush_slot [0..<n] s) \<and> view (fold flush_slot [0..<n] s) = view s \<and>
      (\<forall>i<n. \<not> dirty (cache (fold flush_slot [0..<n] s) ! i))" for n
  proof (induction n)
    case (Suc n)
    then show ?case using flush_slot_run [of "fold flush_slot [0..<n] s" n] by (auto simp: less_Suc_eq)
  qed (simp add: assms)
  then show ?thesis by (simp add: btrfs_flush_cache_def)
qed

lemma flushed_view: "cache_ok s \<Longrightarrow> \<forall>i<CACHE_SLOTS. \<not> dirty (cache s ! i) \<Longrightarrow> view s = disk s"
proof
  fix b assume ok: "cache_ok s" and clean: "\<forall>i<CACHE_SLOTS. \<not> dirty (cache s ! i)"
  show "view s b = disk s b"
  proof (cases "\<exists>j<CACHE_SLOTS. holds s b j")
    case True
    then obtain j where j: "j < CACHE_SLOTS" "holds s b j" by blast
    with ok clean have "data (cache s ! j) = disk s b" by (auto simp: cache_ok_def slot_ok_def holds_def)
    with view_held [OF ok j] show ?thesis by simp
  qed (simp add: view_not_held)
qed

subsection \<open>The cache as a sector cache\<close>

definition points_to :: "btrfs \<Rightarrow> ptr \<Rightarrow> u32 \<Rightarrow> bool" where
  "points_to s p b \<longleftrightarrow> fst p < CACHE_SLOTS \<and> snd p = 0 \<and> holds s b (fst p)"

lemma fetch_cases:
  assumes "cache_ok s" and "sector b = b"
  shows "(\<exists>p s1. fetch b s = Some (p, s1) \<and> cache_ok s1 \<and> view s1 = view s \<and> points_to s1 p b) \<or>
    fetch b s = None \<and> (\<forall>i<CACHE_SLOTS. valid (cache s ! i) \<and> dirty (cache s ! i) \<and> \<not> holds s b i)"
  using block_get_run [OF assms] by (auto simp: fetch_def points_to_def split: prod.splits option.splits)

lemma peek_block: "cache_ok s \<Longrightarrow> points_to s p b \<Longrightarrow> peek p BLOCK_SIZE s = Some (view s b)"
proof -
  assume a: "cache_ok s" "points_to s p b"
  then have "view s b = data (cache s ! fst p)" by (simp add: view_held points_to_def)
  with a show ?thesis by (cases p) (simp add: peek_def points_to_def cache_ok_def slot_ok_def)
qed

lemma poke_block:
  assumes "cache_ok s" and "points_to s p b" and "length bs = BLOCK_SIZE"
  shows "\<exists>s1. poke p bs s = Some s1 \<and> cache_ok (block_mark_dirty b s1) \<and> view (block_mark_dirty b s1) = (view s)(b := bs)"
  using poke_mark [of s "fst p" b 0 bs] assms length_view [OF assms(1), of b] by (cases p) (auto simp: points_to_def splice_def)

interpretation blocks: sector_cache cache_ok "\<lambda>b. sector b = b" BLOCK_SIZE view disk points_to fetch peek poke
  block_mark_dirty btrfs_flush_cache
proof
  fix s b p s1
  assume "cache_ok s" "sector b = b" "fetch b s = Some (p, s1)"
  then show "cache_ok s1 \<and> view s1 = view s \<and> points_to s1 p b" using fetch_cases [of s b] by auto
next
  fix s assume "cache_ok s"
  with flush_run [of s] flushed_view [of "btrfs_flush_cache s"]
  show "cache_ok (btrfs_flush_cache s) \<and> view (btrfs_flush_cache s) = view s \<and> disk (btrfs_flush_cache s) = view s" by metis
qed (fact length_view peek_block poke_block)+

text \<open>
  C26: The cache is invisible. Fetching a sector changes no sector, and gives the one asked for unless
  all 32 slots hold other sectors with unwritten changes (then the result is the null pointer and
  nothing happens); a change written through the pointer and marked is seen in that sector only; a flush
  leaves every sector as it is seen and puts exactly that on the disk.
\<close>
theorem btrfs_cache_coherent:
  assumes "cache_ok s" and "sector b = b"
  shows "(case fetch b s of
      Some (p, s1) \<Rightarrow> view s1 = view s \<and> peek p BLOCK_SIZE s1 = Some (view s b) \<and>
        (\<forall>bs. length bs = BLOCK_SIZE \<longrightarrow> (\<exists>s2. poke p bs s1 = Some s2 \<and> cache_ok (block_mark_dirty b s2) \<and>
           view (block_mark_dirty b s2) = (view s)(b := bs) \<and>
           disk (btrfs_flush_cache (block_mark_dirty b s2)) = (view s)(b := bs)))
    | None \<Rightarrow> \<forall>i<CACHE_SLOTS. valid (cache s ! i) \<and> dirty (cache s ! i) \<and> block_id (cache s ! i) \<noteq> b) \<and>
    cache_ok (btrfs_flush_cache s) \<and> view (btrfs_flush_cache s) = view s \<and> disk (btrfs_flush_cache s) = view s"
proof -
  have fl: "cache_ok (btrfs_flush_cache s) \<and> view (btrfs_flush_cache s) = view s \<and> disk (btrfs_flush_cache s) = view s"
    by (rule blocks.flush_ok [OF assms(1)])
  show ?thesis
  proof (cases "fetch b s")
    case None
    with fetch_cases [OF assms] fl show ?thesis by (auto simp: holds_def)
  next
    case (Some q)
    obtain p s1 where q: "q = (p, s1)" by (cases q)
    have l: "cache_ok s1 \<and> view s1 = view s \<and> points_to s1 p b" using blocks.load_ok [OF assms] Some q by simp
    moreover have "peek p BLOCK_SIZE s1 = Some (view s b)" using blocks.read_at [of s1 p b] l by simp
    moreover have "\<exists>s2. poke p bs s1 = Some s2 \<and> cache_ok (block_mark_dirty b s2) \<and> view (block_mark_dirty b s2) = (view s)(b := bs) \<and>
        disk (btrfs_flush_cache (block_mark_dirty b s2)) = (view s)(b := bs)" if "length bs = BLOCK_SIZE" for bs
      using blocks.modify [OF assms Some [unfolded q], of "\<lambda>_. bs"] that blocks.flush_ok by metis
    ultimately show ?thesis using Some q fl by simp
  qed
qed

definition fresh_cache :: "(u32 \<Rightarrow> u8 list) \<Rightarrow> btrfs" where
  "fresh_cache dk = \<lparr>cache = replicate CACHE_SLOTS \<lparr>block_id = 0, data = replicate BLOCK_SIZE 0, dirty = False, valid = False\<rparr>,
     disk = dk, log_entry = (0, replicate BLOCK_SIZE 0)\<rparr>"

lemma fresh_cache_ok: "\<forall>b. length (dk b) = BLOCK_SIZE \<Longrightarrow> cache_ok (fresh_cache dk) \<and> view (fresh_cache dk) = dk"
proof -
  assume d: "\<forall>b. length (dk b) = BLOCK_SIZE"
  have none: "\<not> holds (fresh_cache dk) b i" if "i < CACHE_SLOTS" for b i using that by (simp add: holds_def fresh_cache_def)
  have "view (fresh_cache dk) b = dk b" for b using none by (simp add: view_not_held) (simp add: fresh_cache_def)
  moreover have "cache_ok (fresh_cache dk)" unfolding cache_ok_def using none d by (simp add: fresh_cache_def slot_ok_def)
  ultimately show ?thesis by (simp add: fun_eq_iff)
qed

theorem btrfs_cache_coherent_witness:
  "\<exists>p s1 s2. fetch 7 (fresh_cache (\<lambda>_. replicate BLOCK_SIZE 3)) = Some (p, s1) \<and> poke p (replicate BLOCK_SIZE 9) s1 = Some s2 \<and>
     disk (btrfs_flush_cache (block_mark_dirty 7 s2)) 7 = replicate BLOCK_SIZE 9"
proof -
  let ?s = "fresh_cache (\<lambda>_. replicate BLOCK_SIZE 3)"
  have ok: "cache_ok ?s" "sector 7 = 7" using fresh_cache_ok by (simp_all add: sector_def)
  have "\<not> (\<forall>i<CACHE_SLOTS. valid (cache ?s ! i) \<and> dirty (cache ?s ! i) \<and> block_id (cache ?s ! i) \<noteq> 7)"
    by (auto simp: fresh_cache_def CACHE_SLOTS_def intro: exI [of _ 0])
  with btrfs_cache_coherent [OF ok] obtain p s1 where f: "fetch 7 ?s = Some (p, s1)" and
    w: "\<forall>bs. length bs = BLOCK_SIZE \<longrightarrow> (\<exists>s2. poke p bs s1 = Some s2 \<and> cache_ok (block_mark_dirty 7 s2) \<and>
      view (block_mark_dirty 7 s2) = (view ?s)(7 := bs) \<and> disk (btrfs_flush_cache (block_mark_dirty 7 s2)) = (view ?s)(7 := bs))"
    by (auto split: option.splits prod.splits)
  from w [rule_format, of "replicate BLOCK_SIZE 9"] f show ?thesis by auto
qed

subsection \<open>Free blocks\<close>

lemma length_char_bytes [simp]: "length (char_bytes cs) = length cs"
  by (simp add: char_bytes_def)

lemma length_le32_bytes [simp]: "length (le32_bytes w) = 4"
  by (simp add: le32_bytes_def)

lemma find_in_set: "find P xs = Some x \<Longrightarrow> x \<in> set xs"
  by (auto simp: find_Some_iff)

lemma first_clear:
  assumes "length bm = BLOCK_SIZE"
  shows "first_ok (\<lambda>k. map_option Not (bm_test bm k)) 0 (8 * BLOCK_SIZE) = Some (find (\<lambda>k. \<not> bm_has bm k) [0..<8 * BLOCK_SIZE])"
  by (rule first_ok_eq_find) (simp add: bm_test_in assms)

text \<open>Writing behind a pointer and marking a block leave every block in its slot.\<close>

lemma holds_poke: "poke p bs s = Some s' \<Longrightarrow> holds s' b i = holds s b i"
  by (cases p) (auto simp: poke_def holds_def nth_list_update split: if_splits)

lemma holds_mark: "holds (block_mark_dirty c s) b i = holds s b i"
proof (cases "find (holds s c) [0..<CACHE_SLOTS]")
  case (Some j)
  have "(cache s)[j := (cache s ! j)\<lparr>dirty := True\<rparr>] ! i = cache s ! i \<or>
      (cache s)[j := (cache s ! j)\<lparr>dirty := True\<rparr>] ! i = (cache s ! i)\<lparr>dirty := True\<rparr>"
    by (cases "j < length (cache s)"; cases "j = i") (simp_all add: list_update_beyond)
  with Some show ?thesis by (auto simp: block_mark_dirty_def holds_def)
qed (simp add: block_mark_dirty_def)

lemma btrfs_allocate_run:
  assumes ok: "cache_ok s" and f: "fetch BITMAP_BLOCK s = Some (p, s1)"
  shows "\<exists>r s2. btrfs_allocate_block s = Some (r, s2) \<and> cache_ok s2 \<and>
    (if \<forall>k<8 * BLOCK_SIZE. bm_has (view s BITMAP_BLOCK) k then r = -1 \<and> view s2 = view s
     else \<exists>k bm. r = int k \<and> k < 8 * BLOCK_SIZE \<and> \<not> bm_has (view s BITMAP_BLOCK) k \<and> (\<forall>j<k. bm_has (view s BITMAP_BLOCK) j) \<and>
       bm_on (view s BITMAP_BLOCK) k = Some bm \<and> view s2 = (view s)(BITMAP_BLOCK := bm) \<and> (\<exists>i<CACHE_SLOTS. holds s2 BITMAP_BLOCK i))"
proof -
  let ?V = "view s BITMAP_BLOCK"
  have sec: "sector BITMAP_BLOCK = BITMAP_BLOCK" by (simp add: sector_def BITMAP_BLOCK_def)
  have len: "length ?V = BLOCK_SIZE" by (rule length_view [OF ok])
  have l: "cache_ok s1" "view s1 = view s" "peek p BLOCK_SIZE s1 = Some ?V" "points_to s1 p BITMAP_BLOCK"
    using blocks.load_ok [OF ok sec f] blocks.read_at by fastforce+
  show ?thesis
  proof (cases "find (\<lambda>k. \<not> bm_has ?V k) [0..<8 * BLOCK_SIZE]")
    case None
    then have "\<forall>k<8 * BLOCK_SIZE. bm_has ?V k" by (simp add: find_upt_None)
    with None l f first_clear [OF len] show ?thesis by (simp add: btrfs_allocate_block_def)
  next
    case (Some k)
    then have k: "k < 8 * BLOCK_SIZE" "\<not> bm_has ?V k" "\<forall>j<k. bm_has ?V j" by (simp_all add: find_upt_Some)
    with len obtain bm where bm: "bm_on ?V k = Some bm" "length bm = BLOCK_SIZE" using bm_on_in [of k ?V] by auto
    obtain s2 where "poke p bm s1 = Some s2" "cache_ok (block_mark_dirty BITMAP_BLOCK s2)"
      "view (block_mark_dirty BITMAP_BLOCK s2) = (view s)(BITMAP_BLOCK := bm)"
      using blocks.modify [OF ok sec f, of "\<lambda>_. bm"] bm(2) by auto
    moreover from this(1) l(4) have "\<exists>i<CACHE_SLOTS. holds (block_mark_dirty BITMAP_BLOCK s2) BITMAP_BLOCK i"
      unfolding points_to_def holds_mark by (metis holds_poke)
    ultimately show ?thesis using Some l(1-3) f first_clear [OF len] bm(1) k by (auto simp: btrfs_allocate_block_def)
  qed
qed

lemma btrfs_free_run:
  assumes ok: "cache_ok s" and f: "fetch BITMAP_BLOCK s = Some (p, s1)" and k: "k < 8 * BLOCK_SIZE"
  shows "\<exists>s2 bm. btrfs_free_block (int k) s = Some s2 \<and> cache_ok s2 \<and> bm_off (view s BITMAP_BLOCK) k = Some bm \<and>
    view s2 = (view s)(BITMAP_BLOCK := bm)"
proof -
  let ?V = "view s BITMAP_BLOCK"
  have sec: "sector BITMAP_BLOCK = BITMAP_BLOCK" by (simp add: sector_def BITMAP_BLOCK_def)
  have l: "peek p BLOCK_SIZE s1 = Some ?V" using blocks.load_ok [OF ok sec f] blocks.read_at by fastforce
  from k length_view [OF ok, of BITMAP_BLOCK] obtain bm where bm: "bm_off ?V k = Some bm" "length bm = BLOCK_SIZE"
    using bm_off_in [of k ?V] by auto
  obtain s2 where "poke p bm s1 = Some s2" "cache_ok (block_mark_dirty BITMAP_BLOCK s2)"
    "view (block_mark_dirty BITMAP_BLOCK s2) = (view s)(BITMAP_BLOCK := bm)"
    using blocks.modify [OF ok sec f, of "\<lambda>_. bm"] bm(2) by auto
  with l f bm(1) show ?thesis by (auto simp: btrfs_free_block_def)
qed

text \<open>
  Block allocation. It takes the least free block of the bitmap sector and marks that block and no
  other, or returns -1 when all 4096 are taken; freeing a block afterwards makes exactly that one free
  again. No other sector changes.
\<close>
theorem btrfs_alloc_free:
  assumes "cache_ok s" and "fetch BITMAP_BLOCK s = Some (p, s1)" and "\<exists>k<4096. \<not> bm_has (view s BITMAP_BLOCK) k"
  shows "\<exists>k s2 s3. btrfs_allocate_block s = Some (int k, s2) \<and> k < 4096 \<and> \<not> bm_has (view s BITMAP_BLOCK) k \<and>
    (\<forall>j<k. bm_has (view s BITMAP_BLOCK) j) \<and>
    (\<forall>j. bm_has (view s2 BITMAP_BLOCK) j \<longleftrightarrow> bm_has (view s BITMAP_BLOCK) j \<or> j = k) \<and>
    (\<forall>b. b \<noteq> BITMAP_BLOCK \<longrightarrow> view s2 b = view s b) \<and>
    btrfs_free_block (int k) s2 = Some s3 \<and> (\<forall>j. bm_has (view s3 BITMAP_BLOCK) j \<longleftrightarrow> bm_has (view s BITMAP_BLOCK) j) \<and>
    (\<forall>b. b \<noteq> BITMAP_BLOCK \<longrightarrow> view s3 b = view s b)"
proof -
  have "\<not> (\<forall>k<8 * BLOCK_SIZE. bm_has (view s BITMAP_BLOCK) k)" using assms(3) by (simp add: BLOCK_SIZE_def)
  then obtain k s2 bm i where a: "btrfs_allocate_block s = Some (int k, s2)" "cache_ok s2" "k < 8 * BLOCK_SIZE" "\<not> bm_has (view s BITMAP_BLOCK) k"
      "\<forall>j<k. bm_has (view s BITMAP_BLOCK) j" "bm_on (view s BITMAP_BLOCK) k = Some bm" "view s2 = (view s)(BITMAP_BLOCK := bm)"
      "i < CACHE_SLOTS" "holds s2 BITMAP_BLOCK i"
    using btrfs_allocate_run [OF assms(1,2)] by (simp only: if_False) blast
  have sec: "sector BITMAP_BLOCK = BITMAP_BLOCK" by (simp add: sector_def BITMAP_BLOCK_def)
  have "fetch BITMAP_BLOCK s2 \<noteq> None" using fetch_cases [OF a(2) sec] a(8,9) by auto
  then obtain q s2' where "fetch BITMAP_BLOCK s2 = Some (q, s2')" by auto
  from btrfs_free_run [OF a(2) this a(3)] a(7) obtain s3 bm' where f: "btrfs_free_block (int k) s2 = Some s3"
    "bm_off bm k = Some bm'" "view s3 = (view s2)(BITMAP_BLOCK := bm')" by auto
  note on = bm_on_E [OF a(6)] and off = bm_off_E [OF f(2)]
  have "k < 4096" using a(3) by (simp add: BLOCK_SIZE_def)
  moreover have "\<forall>j. bm_has bm' j \<longleftrightarrow> bm_has (view s BITMAP_BLOCK) j" using on off a(4) by blast
  ultimately show ?thesis using a(1,4,5,7) on f(1,3) by (intro exI [of _ k] exI [of _ s2] exI [of _ s3]) simp
qed

theorem btrfs_alloc_free_witness:
  "\<exists>k s2. btrfs_allocate_block (fresh_cache (\<lambda>_. replicate BLOCK_SIZE 0)) = Some (int k, s2) \<and> bm_has (view s2 BITMAP_BLOCK) k"
proof -
  let ?s = "fresh_cache (\<lambda>_. replicate BLOCK_SIZE 0)"
  have ok: "cache_ok ?s" "view ?s = (\<lambda>_. replicate BLOCK_SIZE 0)" using fresh_cache_ok by simp_all
  have "sector BITMAP_BLOCK = BITMAP_BLOCK" by (simp add: sector_def BITMAP_BLOCK_def)
  moreover have "\<not> (\<forall>i<CACHE_SLOTS. valid (cache ?s ! i) \<and> dirty (cache ?s ! i) \<and> \<not> holds ?s BITMAP_BLOCK i)"
    by (auto simp: fresh_cache_def CACHE_SLOTS_def intro: exI [of _ 0])
  ultimately obtain p s1 where f: "fetch BITMAP_BLOCK ?s = Some (p, s1)" using fetch_cases [OF ok(1)] by blast
  have "\<exists>k<4096. \<not> bm_has (view ?s BITMAP_BLOCK) k"
    unfolding ok(2) by (intro exI [of _ 0]) simp
  from btrfs_alloc_free [OF ok(1) f this] show ?thesis by blast
qed

subsection \<open>Creating a file\<close>

text \<open>A cache in which at most the first slot is taken.\<close>

definition one_slot :: "buffer_slot \<Rightarrow> (u32 \<Rightarrow> u8 list) \<Rightarrow> btrfs" where
  "one_slot sl dk = (fresh_cache dk)\<lparr>cache := (cache (fresh_cache dk))[0 := sl]\<rparr>"

lemma one_slot_cache: "i < CACHE_SLOTS \<Longrightarrow> cache (one_slot sl dk) ! i =
    (if i = 0 then sl else \<lparr>block_id = 0, data = replicate BLOCK_SIZE 0, dirty = False, valid = False\<rparr>)"
  by (simp add: one_slot_def fresh_cache_def nth_list_update)

lemma one_slot_length [simp]: "length (cache (one_slot sl dk)) = CACHE_SLOTS"
  by (simp add: one_slot_def fresh_cache_def)

lemma one_slot_set [simp]: "one_slot sl dk\<lparr>cache := (cache (one_slot sl dk))[0 := sl']\<rparr> = one_slot sl' dk"
  by (simp add: one_slot_def)

lemma one_slot_disk [simp]: "disk (one_slot sl dk) = dk"
  by (simp add: one_slot_def fresh_cache_def)

lemma one_slot_first [simp]: "cache (one_slot sl dk) ! 0 = sl"
  by (rule trans [OF one_slot_cache]) (simp_all add: CACHE_SLOTS_def)

lemma one_slot_holds: "find (holds (one_slot sl dk) b) [0..<CACHE_SLOTS] = (if valid sl \<and> block_id sl = b then Some 0 else None)"
  by (auto simp: find_upt_Some find_upt_None holds_def one_slot_cache) (simp_all add: CACHE_SLOTS_def)

lemma block_get_one: "\<not> dirty sl \<Longrightarrow> valid sl \<longrightarrow> block_id sl \<noteq> b \<Longrightarrow>
    block_get b (one_slot sl dk) = (Some 0, one_slot \<lparr>block_id = b, data = dk (sector b), dirty = False, valid = True\<rparr> dk)"
proof -
  assume a: "\<not> dirty sl" "valid sl \<longrightarrow> block_id sl \<noteq> b"
  have z: "0 < CACHE_SLOTS" by (simp add: CACHE_SLOTS_def)
  with a have "find (evictable (one_slot sl dk)) [0..<CACHE_SLOTS] = Some 0"
    by (simp add: find_upt_Some evictable_def one_slot_cache)
  moreover have "\<not> (valid sl \<and> block_id sl = b)" using a(2) by blast
  ultimately show ?thesis using a(1) z by (simp only: block_get_def one_slot_holds if_False) (simp add: ata_read_sector_def Let_def)
qed

lemma poke_one: "poke (0, off) bs (one_slot sl dk) =
    (if off + length bs \<le> length (data sl) then Some (one_slot (sl\<lparr>data := splice off bs (data sl)\<rparr>) dk) else None)"
proof -
  have "0 < CACHE_SLOTS" by (simp add: CACHE_SLOTS_def)
  then show ?thesis by (simp add: poke_def one_slot_cache splice_def)
qed

lemma peek_one: "peek (0, off) n (one_slot sl dk) =
    (if off + n \<le> length (data sl) then Some (take n (drop off (data sl))) else None)"
proof -
  have "0 < CACHE_SLOTS" by (simp add: CACHE_SLOTS_def)
  then show ?thesis by (simp add: peek_def one_slot_cache)
qed

lemma mark_one: "block_mark_dirty b (one_slot sl dk) = (if valid sl \<and> block_id sl = b then one_slot (sl\<lparr>dirty := True\<rparr>) dk else one_slot sl dk)"
proof -
  have "0 < CACHE_SLOTS" by (simp add: CACHE_SLOTS_def)
  then show ?thesis by (simp add: block_mark_dirty_def one_slot_holds one_slot_cache)
qed

lemma flush_one: "valid sl \<Longrightarrow> dirty sl \<Longrightarrow> btrfs_flush_cache (one_slot sl dk) = one_slot (sl\<lparr>dirty := False\<rparr>) (dk(sector (block_id sl) := data sl))"
proof -
  assume a: "valid sl" "dirty sl"
  have "fold flush_slot [Suc 0..<n] (one_slot sl' dk') = one_slot sl' dk'" if "n \<le> CACHE_SLOTS" for n sl' dk'
    using that
  proof (induction n)
    case (Suc n)
    then show ?case by (cases n) (simp_all add: flush_slot_def one_slot_cache)
  qed simp
  moreover have "flush_slot 0 (one_slot sl dk) = one_slot (sl\<lparr>dirty := False\<rparr>) (dk(sector (block_id sl) := data sl))"
    using a by (simp add: flush_slot_def one_slot_cache CACHE_SLOTS_def ata_write_sector_def one_slot_def fresh_cache_def Let_def)
  moreover have "[0..<CACHE_SLOTS] = 0 # [Suc 0..<CACHE_SLOTS]" by (simp add: CACHE_SLOTS_def upt_conv_Cons del: upt_Suc)
  ultimately show ?thesis by (simp add: btrfs_flush_cache_def)
qed

text \<open>
  Creating a file forgets its inode. On a cold cache the table of inodes sits in the first slot, which
  is clean, so fetching the bitmap replaces it; the code then writes the new inode through the old pointer,
  into the bitmap. A creation that reports success leaves the sector of the inodes on the disk as it was,
  and has the name of the file in the sector of the bitmap, for one of the inodes 1 to 6.
\<close>
theorem btrfs_create_clobbers:
  assumes "\<forall>b. length (dk b) = BLOCK_SIZE" and "btrfs_create_file parent name None (fresh_cache dk) v = Some (0, s', v')"
  shows "disk s' INODE_BLOCK = dk INODE_BLOCK \<and>
    (\<exists>k nm. 1 \<le> k \<and> k < 7 \<and> strncpy (replicate 31 NUL) name 31 = Some nm \<and>
       take 32 (drop (SIZEOF_INODE * k + NAME_AT) (disk s' BITMAP_BLOCK)) = char_bytes (nm @ [NUL]))"
proof -
  define sl where "sl = \<lparr>block_id = (0::u32), data = dk 0, dirty = False, valid = True\<rparr>"
  have fresh: "fresh_cache dk = one_slot \<lparr>block_id = 0, data = replicate BLOCK_SIZE 0, dirty = False, valid = False\<rparr> dk"
    by (auto simp: one_slot_def fresh_cache_def nth_list_update intro!: nth_equalityI)
  have sec: "sector 0 = 0" "sector 1 = 1" by (simp_all add: sector_def)
  have table: "get_inode 0 (fresh_cache dk) = Some ((0, 0), one_slot sl dk)"
    by (simp add: get_inode_def fresh block_get_one sec sl_def)
  have bitmap: "fetch BITMAP_BLOCK (one_slot sl dk) = Some ((0, 0), one_slot \<lparr>block_id = 1, data = dk 1, dirty = False, valid = True\<rparr> dk)"
    by (simp add: fetch_def block_get_one sec sl_def BITMAP_BLOCK_def)
  define F where "F = find (\<lambda>i. le32 (take 4 (drop (SIZEOF_INODE * i + BLOCK_PTR_AT) (dk 0))) = 0) [1..<8]"
  have r: "free_inode (0, 0) (one_slot sl dk) = Some F"
    unfolding free_inode_def F_def
    by (rule first_ok_eq_find) (simp add: peek_one plus_off_def SIZEOF_INODE_def BLOCK_PTR_AT_def sl_def assms(1) BLOCK_SIZE_def)
  obtain q where q: "btrfs_allocate_block (one_slot sl dk) = Some (-1, q) \<or> (\<exists>f bm. length bm = BLOCK_SIZE \<and>
      btrfs_allocate_block (one_slot sl dk) = Some (int f, one_slot \<lparr>block_id = 1, data = bm, dirty = True, valid = True\<rparr> dk))"
  proof (cases "find (\<lambda>k. \<not> bm_has (dk 1) k) [0..<8 * BLOCK_SIZE]")
    case None
    then show thesis using that first_clear [of "dk 1"] assms(1)
      by (simp add: btrfs_allocate_block_def bitmap peek_one)
  next
    case (Some f)
    then have "f < 8 * BLOCK_SIZE" by (simp add: find_upt_Some)
    then obtain bm where "bm_on (dk 1) f = Some bm" "length bm = BLOCK_SIZE" using bm_on_in [of f "dk 1"] assms(1) by auto
    then show thesis using that Some first_clear [of "dk 1"] assms(1)
      by (auto simp: btrfs_allocate_block_def bitmap [unfolded BITMAP_BLOCK_def] peek_one poke_one mark_one splice_def BITMAP_BLOCK_def)
  qed
  from assms(2) q obtain k f bm where kf: "F = Some k" "length bm = BLOCK_SIZE"
    and alloc: "btrfs_allocate_block (one_slot sl dk) = Some (int f, one_slot \<lparr>block_id = 1, data = bm, dirty = True, valid = True\<rparr> dk)"
    by (auto simp: btrfs_create_file_def table r split: option.splits)
  from find_in_set kf(1) have "k \<in> set [1..<8]" unfolding F_def by fast
  define D where "D = splice (SIZEOF_INODE * k + SIZE_AT) (le32_bytes 0) (splice (SIZEOF_INODE * k + BLOCK_PTR_AT) (le32_bytes (of_nat f))
      (splice (SIZEOF_INODE * k) (replicate SIZEOF_INODE 0) bm))"
  obtain nm where D: "SIZEOF_INODE * k + NAME_AT + length (nm @ [NUL]) \<le> BLOCK_SIZE" "length D = BLOCK_SIZE"
    and nm: "strncpy (replicate 31 NUL) name 31 = Some nm"
    and s': "disk s' = dk(1 := splice (SIZEOF_INODE * k + NAME_AT) (char_bytes (nm @ [NUL])) D)"
    using assms(2) by (auto simp: btrfs_create_file_def table r kf alloc bind_eq_Some_conv poke_one mark_one flush_one plus_off_def
        BITMAP_BLOCK_def sec D_def split: if_splits)
  have l: "length nm = 31" using nm by (auto dest: length_strncpy)
  with D(1) have "k < 7" by (simp add: SIZEOF_INODE_def NAME_AT_def BLOCK_SIZE_def)
  moreover have "take 32 (drop (SIZEOF_INODE * k + NAME_AT) (splice (SIZEOF_INODE * k + NAME_AT) (char_bytes (nm @ [NUL])) D)) = char_bytes (nm @ [NUL])"
    using D l by (simp add: splice_def)
  ultimately show ?thesis using \<open>k \<in> set [1..<8]\<close> nm by (simp add: s' INODE_BLOCK_def BITMAP_BLOCK_def) blast
qed

definition demo_root :: vfs where
  "demo_root = \<lparr>v_mm = demo_mm, nodes = Map.empty(1 \<mapsto> zero_node), contents = Map.empty, vfs_root = 1, vfs_current = 1, v_marked = []\<rparr>"

lemma demo_create: "\<exists>s' v'. btrfs_create_file 1 (''a'' @ [NUL]) None (fresh_cache (\<lambda>_. replicate BLOCK_SIZE 0)) demo_root = Some (0, s', v')"
proof -
  let ?dk = "\<lambda>_::u32. replicate BLOCK_SIZE (0::u8)"
  have fresh: "fresh_cache ?dk = one_slot \<lparr>block_id = 0, data = replicate BLOCK_SIZE 0, dirty = False, valid = False\<rparr> ?dk"
    by (auto simp: one_slot_def fresh_cache_def nth_list_update intro!: nth_equalityI)
  have free: "free_inode (0, 0) (one_slot sl ?dk) = Some (Some 1)" if "data sl = replicate BLOCK_SIZE 0" for sl
    by (simp add: free_inode_def first_ok.simps [of _ "Suc 0"] peek_one plus_off_def that SIZEOF_INODE_def BLOCK_PTR_AT_def BLOCK_SIZE_def le32_def)
  have "bm_test (replicate BLOCK_SIZE 0) 0 = Some False" by (simp add: bm_test_in BLOCK_SIZE_def)
  then have clear: "first_ok (\<lambda>k. map_option Not (bm_test (replicate BLOCK_SIZE 0) k)) 0 (8 * BLOCK_SIZE) = Some (Some 0)"
    by (simp add: first_ok.simps [of _ 0] BLOCK_SIZE_def)
  obtain bm where bm: "bm_on (replicate BLOCK_SIZE 0) 0 = Some bm" "length bm = BLOCK_SIZE"
    using bm_on_in [of 0 "replicate BLOCK_SIZE 0"] by (auto simp: BLOCK_SIZE_def)
  obtain mm where mm: "kmalloc SIZEOF_NODE demo_mm = Some (0x100000, mm)" using demo_mm_page [of SIZEOF_NODE] by (auto simp: SIZEOF_NODE_def)
  have "cstr (''a'' @ [NUL]) ''a''" by (simp add: cstr_def)
  from strncpy_cstr [OF this, of 31 "replicate 31 NUL"] obtain a where a: "strncpy (replicate 31 NUL) (''a'' @ [NUL]) 31 = Some a" "length a = 31"
    by auto
  from \<open>cstr (''a'' @ [NUL]) ''a''\<close> strncpy_cstr [of _ "''a''" 256 "v_name zero_node"]
  obtain b where b: "strncpy (v_name zero_node) (''a'' @ [NUL]) VFS_NAME_MAX = Some b"
    by (simp add: VFS_NAME_MAX_def zero_node_def)
  have sizes: "BLOCK_SIZE = 512" "SIZEOF_INODE = 64" "SIZE_AT = 0" "BLOCK_PTR_AT = 4" "NAME_AT = 36"
    by (simp_all add: BLOCK_SIZE_def SIZEOF_INODE_def SIZE_AT_def BLOCK_PTR_AT_def NAME_AT_def)
  define dk where "dk = ?dk"
  have sec: "sector 0 = 0" "sector 1 = 1" by (simp_all add: sector_def)
  define sl where "sl = \<lparr>block_id = (0::u32), data = dk 0, dirty = False, valid = True\<rparr>"
  have table: "get_inode 0 (fresh_cache dk) = Some ((0, 0), one_slot sl dk)"
    unfolding dk_def fresh by (simp add: get_inode_def block_get_one sec sl_def dk_def)
  have alloc: "btrfs_allocate_block (one_slot sl dk) = Some (0, one_slot \<lparr>block_id = 1, data = bm, dirty = True, valid = True\<rparr> dk)"
    using clear bm by (simp add: btrfs_allocate_block_def fetch_def block_get_one sec sl_def dk_def peek_one poke_one mark_one splice_def BITMAP_BLOCK_def)
  have fr: "free_inode (0, 0) (one_slot sl dk) = Some (Some 1)" using free by (simp add: sl_def dk_def)
  have "\<exists>s' v'. btrfs_create_file 1 (''a'' @ [NUL]) None (fresh_cache dk) demo_root = Some (0, s', v')"
    using a b bm(2) by (simp add: btrfs_create_file_def table alloc fr poke_one mark_one flush_one plus_off_def sizes mm demo_root_def link_child_def BITMAP_BLOCK_def)
  then show ?thesis by (simp add: dk_def)
qed

theorem btrfs_create_clobbers_witness:
  "\<exists>s' v'. btrfs_create_file 1 (''a'' @ [NUL]) None (fresh_cache (\<lambda>_. replicate BLOCK_SIZE 0)) demo_root = Some (0, s', v') \<and>
     disk s' INODE_BLOCK = replicate BLOCK_SIZE 0"
proof -
  obtain s' v' where r: "btrfs_create_file 1 (''a'' @ [NUL]) None (fresh_cache (\<lambda>_. replicate BLOCK_SIZE 0)) demo_root = Some (0, s', v')"
    using demo_create by blast
  from btrfs_create_clobbers [OF _ r] have "disk s' INODE_BLOCK = replicate BLOCK_SIZE 0" by simp
  with r show ?thesis by blast
qed

end
