(* ===== verification/Syscall.thy ===== *)
theory Syscall
  imports Vfs_Spec Printk Task
begin

text \<open>
  System calls, \<open>arch/x86/syscall.c\<close>, on top of the virtual file system (theory \<open>Vfs\<close>) and the kernel
  messages (theory \<open>Printk\<close>). The kernel reads the caller's memory without checks: it is a map from
  addresses to the characters from there on. The tables of mounted drivers, their \<open>mmap\<close> and \<open>ioctl\<close>,
  what a fresh block of the heap contains and whether the keyboard controller gets ready are
  parameters; \<open>root_ops\<close> has no \<open>mmap\<close> and no \<open>ioctl\<close>.
\<close>

definition SYS_WRITE :: u32 where "SYS_WRITE = 1"
definition SYS_OPEN :: u32 where "SYS_OPEN = 3"
definition SYS_IOCTL :: u32 where "SYS_IOCTL = 54"
definition SYS_MMAP :: u32 where "SYS_MMAP = 90"

definition EIO :: int where "EIO = 5"
definition EBADF :: int where "EBADF = 9"
definition ENOMEM :: int where "ENOMEM = 12"
definition EFAULT :: int where "EFAULT = 14"
definition ENODEV :: int where "ENODEV = 19"
definition ENOTDIR :: int where "ENOTDIR = 20"
definition EISDIR :: int where "EISDIR = 21"
definition EMFILE :: int where "EMFILE = 24"
definition ENOTTY :: int where "ENOTTY = 25"

record trap_frame =
  r_gs :: u32
  r_fs :: u32
  r_es :: u32
  r_ds :: u32
  r_edi :: u32
  r_esi :: u32
  r_ebp :: u32
  r_esp_dummy :: u32
  r_ebx :: u32
  r_edx :: u32
  r_ecx :: u32
  r_eax :: u32
  r_error_code :: u32
  r_interrupt_no :: u32
  r_eip :: u32
  r_cs :: u32
  r_eflags :: u32
  r_useresp :: u32
  r_ss :: u32

record file_desc =
  fd_node :: u32
  fd_offset :: u32

record system =
  s_vfs :: vfs
  s_log :: klog
  fd_table :: "file_desc list"
  current_path :: "char list"
  user :: "u32 \<Rightarrow> char list"
  empty_text :: u32

record devices =
  d_files :: foreign
  d_mmap :: "nat \<Rightarrow> (u32 \<Rightarrow> u32 \<Rightarrow> u32 \<Rightarrow> system \<Rightarrow> (u32 \<times> system) option) option"
  d_ioctl :: "nat \<Rightarrow> (u32 \<Rightarrow> u64 \<Rightarrow> u32 \<Rightarrow> system \<Rightarrow> (int \<times> system) option) option"
  d_fresh :: "u32 \<Rightarrow> u32 \<Rightarrow> char list"
  d_kbc_ready :: bool

definition say :: "char list \<Rightarrow> va_arg list \<Rightarrow> system \<Rightarrow> system option" where
  "say fmt args s = do { (_, l) \<leftarrow> printk (fmt @ [NUL]) args (s_log s); Some (s\<lparr>s_log := l\<rparr>) }"

subsection \<open>Arguments\<close>

function copy_user :: "nat \<Rightarrow> nat \<Rightarrow> char list \<Rightarrow> char list \<Rightarrow> (nat \<times> char list) option" where
  "copy_user i lim dest src =
     do { c \<leftarrow> rd src i;
          d \<leftarrow> wr dest i (if c \<noteq> NUL \<and> i < lim - 1 then c else NUL);
          if c \<noteq> NUL \<and> i < lim - 1 then copy_user (Suc i) lim d src else Some (i, d) }"
  by pat_completeness auto
termination
  by (relation "measure (\<lambda>(i, lim, dest, src). lim - i)") auto

declare copy_user.simps [simp del]

definition copy_from_user :: "char list \<Rightarrow> u32 \<Rightarrow> nat \<Rightarrow> system \<Rightarrow> (int \<times> char list) option" where
  "copy_from_user dest src lim s =
     (if src = 0 then Some (-1, dest)
      else do { (i, d) \<leftarrow> copy_user 0 lim dest (user s src); Some (int i, d) })"

definition full_path :: "char list \<Rightarrow> system \<Rightarrow> char list option" where
  "full_path p s =
     do { c0 \<leftarrow> rd p 0;
          if c0 = CHR ''/'' then strcpy (local_array 256) p
          else do { c \<leftarrow> strcmp (current_path s) SLASH;
                    map_option fst (sprintf (local_array 256) (''%s%s%s'' @ [NUL])
                      [AStr (Some (current_path s)), AStr (Some (if c = 0 then [NUL] else SLASH)), AStr (Some p)]) } }"

definition absolute_target :: "char list \<Rightarrow> system \<Rightarrow> char list option" where
  "absolute_target p s =
     do { c0 \<leftarrow> rd p 0;
          if c0 \<noteq> CHR ''/''
          then do { c \<leftarrow> strcmp (current_path s) SLASH;
                    map_option fst (sprintf (local_array 256) (''%s%s%s'' @ [NUL])
                      [AStr (Some (if c = 0 then [NUL] else current_path s)), AStr (Some SLASH), AStr (Some p)]) }
          else strcpy (local_array 256) p }"

subsection \<open>The calls\<close>

definition sys_write :: "trap_frame \<Rightarrow> system \<Rightarrow> (int \<times> system) option" where
  "sys_write regs s =
     (if r_ebx regs = 0 then Some (- EINVAL, s)
      else do { (_, k_msg) \<leftarrow> copy_from_user (local_array 512) (r_ebx regs) 512 s;
                s1 \<leftarrow> say ''%s'' [AStr (Some k_msg)] s;
                Some (0, s1) })"

definition free_fd :: "file_desc list \<Rightarrow> nat option option" where
  "free_fd t = first_ok (\<lambda>i. map_option (\<lambda>d. fd_node d = 0) (rd t i)) 3 16"

definition sys_open :: "devices \<Rightarrow> trap_frame \<Rightarrow> system \<Rightarrow> (int \<times> system) option" where
  "sys_open dev regs s =
     do { (r, path_buf) \<leftarrow> copy_from_user (local_array 256) (r_ebx regs) 256 s;
          if r < 0 then Some (- EFAULT, s)
          else do { node \<leftarrow> vfs_lookup (d_files dev) (Some path_buf) (s_vfs s);
                    if node = 0 then Some (- ENOENT, s)
                    else do { fd \<leftarrow> free_fd (fd_table s);
                              case fd of
                                None \<Rightarrow> Some (- EMFILE, s)
                              | Some i \<Rightarrow> do { t \<leftarrow> wr (fd_table s) i \<lparr>fd_node = node, fd_offset = 0\<rparr>;
                                              Some (int i, s\<lparr>fd_table := t\<rparr>) } } } }"

definition sys_touch :: "devices \<Rightarrow> trap_frame \<Rightarrow> system \<Rightarrow> (int \<times> system) option" where
  "sys_touch dev regs s =
     do { (r, path_buf) \<leftarrow> copy_from_user (local_array 256) (r_ebx regs) 256 s;
          if r < 0 then Some (- EFAULT, s)
          else do { (e, v) \<leftarrow> vfs_touch (d_files dev) (Some path_buf) (empty_text s) (s_vfs s); Some (e, s\<lparr>s_vfs := v\<rparr>) } }"

text \<open>Reading the directory until its driver reports the end; an entry that is reported is written.\<close>

partial_function (option) ls_loop :: "devices \<Rightarrow> u32 \<Rightarrow> u32 \<Rightarrow> system \<Rightarrow> system option" where
  "ls_loop dev node idx s =
     Option.bind (vfs_readdir (d_files dev) node idx (s_vfs s))
       (\<lambda>(r, dirent). if r = 0
          then Option.bind dirent (\<lambda>(name, _, _). Option.bind (say ''%s  '' [AStr (Some name)] s) (ls_loop dev node (idx + 1)))
          else Some s)"

definition sys_ls :: "devices \<Rightarrow> trap_frame \<Rightarrow> system \<Rightarrow> (int \<times> system) option" where
  "sys_ls dev regs s =
     do { (r, user_path_buf) \<leftarrow> copy_from_user (local_array 256) (r_ebx regs) 256 s;
          if r < 0 then Some (- EFAULT, s)
          else do { full \<leftarrow> full_path user_path_buf s;
                    node \<leftarrow> vfs_lookup (d_files dev) (Some full) (s_vfs s);
                    if node = 0 then Some (- ENOENT, s)
                    else do { n \<leftarrow> node_at (s_vfs s) node;
                              if v_type n \<noteq> VFS_TYPE_DIR then Some (- ENOTDIR, s)
                              else do { s1 \<leftarrow> ls_loop dev node 0 s; s2 \<leftarrow> say [LF] [] s1; Some (0, s2) } } } }"

definition sys_chdir :: "devices \<Rightarrow> trap_frame \<Rightarrow> system \<Rightarrow> (int \<times> system) option" where
  "sys_chdir dev regs s =
     do { (r, user_path_buf) \<leftarrow> copy_from_user (local_array 256) (r_ebx regs) 256 s;
          if r < 0 then Some (- EFAULT, s)
          else do { target \<leftarrow> absolute_target user_path_buf s;
                    (e, v) \<leftarrow> vfs_chdir (d_files dev) (Some target) (s_vfs s);
                    if e = 0 then do { p \<leftarrow> strcpy (current_path s) target; Some (0, s\<lparr>s_vfs := v, current_path := p\<rparr>) }
                    else Some (- ENOENT, s\<lparr>s_vfs := v\<rparr>) } }"

text \<open>The node behind a descriptor; 0 for one that is out of range or not open.\<close>

definition fd_lookup :: "u32 \<Rightarrow> system \<Rightarrow> u32 option" where
  "fd_lookup r s =
     (let fd = sint r in if fd < 3 \<or> fd \<ge> 16 then Some 0 else map_option fd_node (rd (fd_table s) (nat fd)))"

definition ops_mmap :: "devices \<Rightarrow> vfs_ops \<Rightarrow> (u32 \<Rightarrow> u32 \<Rightarrow> u32 \<Rightarrow> system \<Rightarrow> (u32 \<times> system) option) option" where
  "ops_mmap dev p = (case p of OpsOther k \<Rightarrow> d_mmap dev k | _ \<Rightarrow> None)"

definition ops_ioctl :: "devices \<Rightarrow> vfs_ops \<Rightarrow> (u32 \<Rightarrow> u64 \<Rightarrow> u32 \<Rightarrow> system \<Rightarrow> (int \<times> system) option) option" where
  "ops_ioctl dev p = (case p of OpsOther k \<Rightarrow> d_ioctl dev k | _ \<Rightarrow> None)"

definition sys_mmap :: "devices \<Rightarrow> trap_frame \<Rightarrow> system \<Rightarrow> (int \<times> system) option" where
  "sys_mmap dev regs s =
     do { node \<leftarrow> fd_lookup (r_ebx regs) s;
          if node = 0 then Some (- EBADF, s)
          else do { n \<leftarrow> node_at (s_vfs s) node;
                    case ops_mmap dev (v_ops n) of
                      Some f \<Rightarrow> do { (a, s1) \<leftarrow> f node (r_ecx regs) (r_edx regs) s; Some (sint a, s1) }
                    | None \<Rightarrow> Some (- ENODEV, s) } }"

definition sys_ioctl :: "devices \<Rightarrow> trap_frame \<Rightarrow> system \<Rightarrow> (int \<times> system) option" where
  "sys_ioctl dev regs s =
     do { node \<leftarrow> fd_lookup (r_ebx regs) s;
          if node = 0 then Some (- EBADF, s)
          else do { n \<leftarrow> node_at (s_vfs s) node;
                    case ops_ioctl dev (v_ops n) of
                      Some f \<Rightarrow> f node (ucast (r_ecx regs)) (r_edx regs) s
                    | None \<Rightarrow> Some (- ENOTTY, s) } }"

text \<open>Call 8 prints a file: printable characters, tabs and line ends as they are, a dot for any other.\<close>

definition cat_visible :: "char \<Rightarrow> bool" where
  "cat_visible c \<longleftrightarrow> c = LF \<or> c = CHR 0x09 \<or> 32 \<le> (of_char c :: nat) \<and> (of_char c :: nat) \<le> 126"

definition cat_char :: "char \<Rightarrow> system \<Rightarrow> system option" where
  "cat_char c s = (if cat_visible c then say [c] [] s else say ''.'' [] s)"

primrec cat_loop :: "nat \<Rightarrow> char list \<Rightarrow> system \<Rightarrow> system option" where
  "cat_loop 0 buffer s = Some s"
| "cat_loop (Suc n) buffer s = do { c \<leftarrow> rd buffer 0; s1 \<leftarrow> cat_char c s; cat_loop n (drop 1 buffer) s1 }"

definition sys_cat :: "devices \<Rightarrow> trap_frame \<Rightarrow> system \<Rightarrow> (int \<times> system) option" where
  "sys_cat dev regs s =
     do { (r, path) \<leftarrow> copy_from_user (local_array 256) (r_ebx regs) 256 s;
          if r < 0 then Some (- EFAULT, s)
          else do {
            node \<leftarrow> vfs_lookup (d_files dev) (Some path) (s_vfs s);
            if node = 0 then do { s1 \<leftarrow> say (''cat: %s: No such file'' @ [LF]) [AStr (Some path)] s; Some (- ENOENT, s1) }
            else do {
              n \<leftarrow> node_at (s_vfs s) node;
              if v_type n \<noteq> VFS_TYPE_FILE then do { s1 \<leftarrow> say (''cat: %s: Is a directory'' @ [LF]) [AStr (Some path)] s; Some (- EISDIR, s1) }
              else if v_size n = 0 then do { s1 \<leftarrow> say [LF] [] s; Some (0, s1) }
              else do {
                (buffer, mm) \<leftarrow> kmalloc (v_size n) (v_mm (s_vfs s));
                let s = s\<lparr>s_vfs := (s_vfs s)\<lparr>v_mm := mm\<rparr>\<rparr>;
                if buffer = 0 then Some (- ENOMEM, s)
                else do {
                  (bytes_read, b) \<leftarrow> vfs_read (d_files dev) node (d_fresh dev buffer (v_size n)) (v_size n) 0 (s_vfs s);
                  (e, s1) \<leftarrow> (if bytes_read > 0
                     then do { s1 \<leftarrow> cat_loop (nat bytes_read) b s; s2 \<leftarrow> say [LF] [] s1; Some (0, s2) }
                     else do { s1 \<leftarrow> say (''cat: error reading file'' @ [LF]) [] s; Some (- EIO, s1) });
                  Some (e, s1\<lparr>s_vfs := vfs_kfree buffer (s_vfs s1)\<rparr>) } } } } }"

text \<open>Whatever the keyboard controller does, the machine does not come back.\<close>

definition sys_reboot :: "devices \<Rightarrow> system \<Rightarrow> system option" where
  "sys_reboot dev s =
     do { s1 \<leftarrow> say ([LF] @ ''BlueOS: Reboot...'' @ [LF]) [] s;
          if d_kbc_ready dev then say (''Reset for 8042 failed. Attempting Triple Fault...'' @ [LF]) [] s1 else Some s1 }"

definition sys_unknown :: "trap_frame \<Rightarrow> system \<Rightarrow> (int \<times> system) option" where
  "sys_unknown regs s =
     do { s1 \<leftarrow> say (''[SYSCALL] Unknown execution hook requested: %d'' @ [LF]) [AInt (r_eax regs)] s; Some (- ENOSYS, s1) }"

definition syscall_dispatch :: "devices \<Rightarrow> trap_frame \<Rightarrow> system \<Rightarrow> (int \<times> system) option" where
  "syscall_dispatch dev regs s =
     (let n = r_eax regs
      in if n = SYS_WRITE then sys_write regs s
         else if n = SYS_OPEN then sys_open dev regs s
         else if n = 5 then sys_touch dev regs s
         else if n = 6 then sys_ls dev regs s
         else if n = 7 then sys_chdir dev regs s
         else if n = SYS_MMAP then sys_mmap dev regs s
         else if n = SYS_IOCTL then sys_ioctl dev regs s
         else if n = 8 then sys_cat dev regs s
         else sys_unknown regs s)"

definition syscall_handler :: "devices \<Rightarrow> trap_frame \<Rightarrow> system \<Rightarrow> (trap_frame ending \<times> system) option" where
  "syscall_handler dev regs s =
     (if r_eax regs = 9 then do { s1 \<leftarrow> sys_reboot dev s; Some (Halts, s1) }
      else do { (r, s1) \<leftarrow> syscall_dispatch dev regs s; Some (Returns (regs\<lparr>r_eax := of_int r\<rparr>), s1) })"

lemma until_nul_cstr: "cstr b t \<Longrightarrow> until_nul b = Some t"
proof (induction t arbitrary: b)
  case (Cons c t)
  then obtain b' where "b = c # b'" "cstr b' t" "c \<noteq> NUL" by (auto simp: cstr_simps)
  with Cons.IH show ?case by simp
qed (auto simp: cstr_simps)

subsection \<open>Copying an argument\<close>

lemma copy_user_run:
  assumes "cstr src u" and "t = take (lim - 1) u" and "length dest = lim" and "0 < lim" and "i \<le> length t"
  shows "copy_user i lim dest src = Some (length t, take i dest @ drop i t @ NUL # drop (Suc (length t)) dest)"
  using assms(3,5)
proof (induction "length t - i" arbitrary: i dest)
  case 0
  then have i: "i = length t" by simp
  have lt: "length t < lim" using assms(2,4) by auto
  from assms(1) obtain r where src: "src = u @ NUL # r" by (auto simp: cstr_def)
  have "\<not> (src ! i \<noteq> NUL \<and> i < lim - 1)"
  proof (cases "length u \<le> lim - 1")
    case True
    then show ?thesis using i assms(2) src by (simp add: nth_append)
  qed (use i assms(2) in simp)
  moreover have "i < length src" using i assms(2) src by simp
  ultimately have "copy_user i lim dest src = Some (i, dest[i := NUL])"
    using lt i 0 by (subst copy_user.simps) (auto simp: rd_def wr_def)
  then show ?case using lt i 0 by (simp add: upd_conv_take_nth_drop)
next
  case (Suc k)
  then have i: "i < length t" by simp
  have lt: "length t < lim" using assms(2,4) by auto
  from assms(1) obtain r where src: "src = u @ NUL # r" "NUL \<notin> set u" by (auto simp: cstr_def)
  have ti: "src ! i = t ! i" "i < length src" "i < lim - 1" "t ! i \<in> set u"
    using i assms(2) src by (auto simp: nth_append)
  then have ne: "src ! i \<noteq> NUL" using src(2) by metis
  let ?d = "dest[i := t ! i]"
  have "copy_user i lim dest src = copy_user (Suc i) lim ?d src"
    using ti ne Suc(3) lt i by (subst copy_user.simps) (simp add: rd_def wr_def)
  also have "\<dots> = Some (length t, take (Suc i) ?d @ drop (Suc i) t @ NUL # drop (Suc (length t)) ?d)"
    by (rule Suc(1)) (use Suc(2,3) i in simp_all)
  also have "take (Suc i) ?d = take i dest @ [t ! i]" using i lt Suc(3) by (simp add: take_Suc_conv_app_nth)
  also have "drop (Suc (length t)) ?d = drop (Suc (length t)) dest" using i by simp
  finally show ?case using i by (simp add: Cons_nth_drop_Suc)
qed

text \<open>At most 255 (511) characters of the argument arrive.\<close>

lemma copy_from_user_string:
  assumes "cstr (user s a) u" and "a \<noteq> 0" and "0 < lim"
  shows "\<exists>b. copy_from_user (local_array lim) a lim s = Some (int (length (take (lim - 1) u)), b) \<and> cstr b (take (lim - 1) u) \<and> length b = lim"
proof -
  let ?t = "take (lim - 1) u"
  have "copy_user 0 lim (local_array lim) (user s a) = Some (length ?t, ?t @ NUL # drop (Suc (length ?t)) (local_array lim))"
    using copy_user_run [OF assms(1) refl _ assms(3), of "local_array lim" 0] by simp
  moreover have "NUL \<notin> set ?t" using assms(1) by (auto simp: cstr_def dest: in_set_takeD)
  moreover have "length ?t < lim" using assms(3) by auto
  ultimately show ?thesis using assms(2) by (auto simp: copy_from_user_def cstr_def)
qed

lemma copy_from_user_null: "copy_from_user d 0 lim s = Some (-1, d)"
  by (simp add: copy_from_user_def)

text \<open>The log can take messages: it holds what was logged, the clock can be printed, and levels let them pass.\<close>

definition log_ready :: "klog \<Rightarrow> char list \<Rightarrow> char list \<Rightarrow> bool" where
  "log_ready l h st \<longleftrightarrow> log_holds l h \<and> stamp (now_ms l) = Some st \<and> default_message_loglevel l \<le> console_loglevel l"

lemma log_fold_fields [simp]:
  "now_ms (fold log_char t l) = now_ms l" "console_loglevel (fold log_char t l) = console_loglevel l"
  "default_message_loglevel (fold log_char t l) = default_message_loglevel l"
  by (induction t arbitrary: l) (simp_all add: log_char_def)

lemma putchar_fields:
  "putchar c l = Some l' \<Longrightarrow> now_ms l' = now_ms l \<and> console_loglevel l' = console_loglevel l \<and> default_message_loglevel l' = default_message_loglevel l"
  by (auto simp: putchar_def log_timestamp_def log_int_def log_text_def log_char_def Let_def bind_eq_Some_conv split: if_splits)

lemma put_text_fields:
  "put_text t l = Some l' \<Longrightarrow> now_ms l' = now_ms l \<and> console_loglevel l' = console_loglevel l \<and> default_message_loglevel l' = default_message_loglevel l"
proof (induction t arbitrary: l)
  case (Cons c t)
  then obtain l1 where "putchar c l = Some l1" "put_text t l1 = Some l'" by (auto simp: bind_eq_Some_conv)
  with Cons.IH putchar_fields show ?case by metis
qed simp

lemma say_text:
  assumes "log_ready (s_log s) h st" and "message_level (fmt @ [NUL]) (default_message_loglevel (s_log s)) = Some (default_message_loglevel (s_log s), fmt @ [NUL])"
    and "format_text printk_precision (fmt @ [NUL]) args = Some t"
  shows "\<exists>l. say fmt args s = Some (s\<lparr>s_log := l\<rparr>) \<and> console l = console (s_log s) @ t \<and>
    log_ready l (h @ logged st (at_line_start (s_log s)) t) st"
proof -
  from assms(1) have r: "log_holds (s_log s) h" "stamp (now_ms (s_log s)) = Some st"
    "default_message_loglevel (s_log s) \<le> console_loglevel (s_log s)" by (simp_all add: log_ready_def)
  obtain l where l: "put_text t (s_log s) = Some l" "log_holds l (h @ logged st (at_line_start (s_log s)) t)" "console l = console (s_log s) @ t"
    using put_text_logged [OF r(1,2)] by blast
  then have "printk (fmt @ [NUL]) args (s_log s) = Some (1, l)" using assms(2,3) r(3) by (simp add: printk_def vprintk_def)
  with l put_text_fields [OF l(1)] r show ?thesis by (auto simp: say_def log_ready_def)
qed

text \<open>
  Writing. Call 1 prints the text of the caller, cut to 511 characters, on the console and into the
  log with its time stamps, and returns 0; it touches nothing else. A null pointer is EINVAL.
\<close>
theorem syscall_write:
  assumes "r_eax regs = SYS_WRITE" and "log_ready (s_log s) h st" and "cstr (user s (r_ebx regs)) u"
  shows "if r_ebx regs = 0 then syscall_handler dev regs s = Some (Returns (regs\<lparr>r_eax := - 22\<rparr>), s)
    else \<exists>l. syscall_handler dev regs s = Some (Returns (regs\<lparr>r_eax := 0\<rparr>), s\<lparr>s_log := l\<rparr>) \<and>
      console l = console (s_log s) @ take 511 u \<and> log_ready l (h @ logged st (at_line_start (s_log s)) (take 511 u)) st"
proof (cases "r_ebx regs = 0")
  case True
  then show ?thesis using assms(1) by (simp add: syscall_handler_def syscall_dispatch_def sys_write_def SYS_WRITE_def EINVAL_def)
next
  case False
  obtain b where b: "copy_from_user (local_array 512) (r_ebx regs) 512 s = Some (int (length (take 511 u)), b)" "cstr b (take 511 u)"
    using copy_from_user_string [OF assms(3) False, of 512] by auto
  have "format_text printk_precision (''%s'' @ [NUL]) [AStr (Some b)] = Some (take 511 u)"
    by (simp add: format_text.simps printk_precision_def convert_def until_nul_cstr [OF b(2)])
  from say_text [OF assms(2) _ this] obtain l where "say ''%s'' [AStr (Some b)] s = Some (s\<lparr>s_log := l\<rparr>)"
    "console l = console (s_log s) @ take 511 u" "log_ready l (h @ logged st (at_line_start (s_log s)) (take 511 u)) st"
    by (auto simp: message_level_def)
  with False b(1) assms(1) show ?thesis
    by (auto simp: syscall_handler_def syscall_dispatch_def sys_write_def SYS_WRITE_def)
qed

subsection \<open>Paths\<close>

lemma path_parts_skip: "path_parts (dropWhile ((=) slash) s) = path_parts s"
  by (subst (1 2) path_parts.simps) simp

lemma path_parts_append: "path_parts (p @ slash # u) = path_parts p @ path_parts u"
proof (induction p rule: path_parts.induct)
  case (1 p)
  define r where "r = dropWhile ((=) slash) p"
  show ?case
  proof (cases "r = []")
    case True
    then have "dropWhile ((=) slash) (p @ slash # u) = dropWhile ((=) slash) u"
      by (simp add: r_def dropWhile_append)
    then have "path_parts (p @ slash # u) = path_parts u" by (metis path_parts_skip)
    moreover have "path_parts p = []" using True by (subst path_parts.simps) (simp add: r_def)
    ultimately show ?thesis by simp
  next
    case False
    have t: "takeWhile (\<lambda>c. c \<noteq> slash) (r @ slash # u) = takeWhile (\<lambda>c. c \<noteq> slash) r"
      "dropWhile (\<lambda>c. c \<noteq> slash) (r @ slash # u) = dropWhile (\<lambda>c. c \<noteq> slash) r @ slash # u"
      by (induction r) auto
    have d: "dropWhile ((=) slash) (p @ slash # u) = r @ slash # u" using False by (auto simp: r_def dropWhile_append)
    have "path_parts (p @ slash # u) = takeWhile (\<lambda>c. c \<noteq> slash) r # path_parts (dropWhile (\<lambda>c. c \<noteq> slash) r @ slash # u)"
      using False by (subst path_parts.simps) (simp add: d t Let_def)
    moreover have "path_parts p = takeWhile (\<lambda>c. c \<noteq> slash) r # path_parts (dropWhile (\<lambda>c. c \<noteq> slash) r)"
      using False by (subst path_parts.simps) (simp add: r_def Let_def)
    ultimately show ?thesis using 1 [OF r_def False] by simp
  qed
qed

lemma path_parts_slash: "path_parts (slash # u) = path_parts u"
  using path_parts_append [of "[]" u] by (simp add: path_parts.simps [of "[]"])

lemma resolve_append:
  "resolve fs v ps c = Some d \<Longrightarrow> d \<noteq> 0 \<Longrightarrow> resolve fs v (ps @ qs) c = resolve fs v qs d"
proof (induction ps arbitrary: c)
  case (Cons p ps)
  then obtain e where e: "enter_name fs v p c = Some e" by (auto simp: bind_eq_Some_conv)
  with Cons show ?case by (cases e) auto
qed simp

text \<open>No driver's lookup depends on the working directory.\<close>

definition drivers_local :: "foreign \<Rightarrow> bool" where
  "drivers_local fs \<longleftrightarrow> (\<forall>k f n a v c. f_finddir fs k = Some f \<longrightarrow> f n a (v\<lparr>vfs_current := c\<rparr>) = f n a v)"

lemma resolve_local: "drivers_local fs \<Longrightarrow> resolve fs (v\<lparr>vfs_current := c\<rparr>) ps d = resolve fs v ps d"
proof (induction ps arbitrary: d)
  case (Cons p ps)
  have "enter_name fs (v\<lparr>vfs_current := c\<rparr>) p d = enter_name fs v p d"
  proof (cases "node_at v d")
    case (Some n)
    have other: "f d (p @ [NUL]) (v\<lparr>vfs_current := c\<rparr>) = f d (p @ [NUL]) v" if "f_finddir fs k = Some f" for k f
      using that Cons.prems by (auto simp: drivers_local_def)
    show ?thesis
    proof (cases "v_ops n")
      case (OpsOther k)
      show ?thesis
      proof (cases "f_finddir fs k")
        case (Some f)
        from Some OpsOther \<open>node_at v d = Some n\<close> show ?thesis
          by (auto simp: enter_name_def node_at_def other [OF Some])
      qed (use Some OpsOther in \<open>auto simp: enter_name_def node_at_def\<close>)
    qed (use Some in \<open>auto simp: enter_name_def node_at_def root_finddir_def\<close>)
  qed (auto simp: enter_name_def node_at_def)
  then show ?case by (simp add: Cons.IH [OF Cons.prems] cong: option.case_cong)
qed simp

text \<open>The working directory and the text the calls keep for it agree.\<close>

definition path_ok :: "foreign \<Rightarrow> system \<Rightarrow> char list \<Rightarrow> bool" where
  "path_ok fs s p \<longleftrightarrow> length (current_path s) = 256 \<and> cstr (current_path s) p \<and> p \<noteq> [] \<and> hd p = slash \<and>
     vfs_current (s_vfs s) \<noteq> 0 \<and> resolve fs (s_vfs s) (path_parts p) (vfs_root (s_vfs s)) = Some (vfs_current (s_vfs s))"

lemma sprintf_three:
  assumes "cstr a x" and "cstr b y" and "cstr c z" and "length (x @ y @ z) < 256"
  shows "\<exists>d. sprintf (local_array 256) (''%s%s%s'' @ [NUL]) [AStr (Some a), AStr (Some b), AStr (Some c)] = Some (d, length (x @ y @ z)) \<and>
    cstr d (x @ y @ z)"
proof -
  have "format_text sprintf_precision (''%s%s%s'' @ [NUL]) [AStr (Some a), AStr (Some b), AStr (Some c)] = Some (x @ y @ z)"
    by (simp add: format_text.simps sprintf_precision_def convert_def until_nul_cstr [OF assms(1)] until_nul_cstr [OF assms(2)] until_nul_cstr [OF assms(3)])
  moreover have "store_text ((x @ y @ z) @ [NUL]) 0 (local_array 256) =
      Some (((x @ y @ z) @ [NUL]) @ drop (Suc (length (x @ y @ z))) (local_array 256))"
    using store_text_run [of 0 "local_array 256" "(x @ y @ z) @ [NUL]"] assms(4) by simp
  ultimately have "sprintf (local_array 256) (''%s%s%s'' @ [NUL]) [AStr (Some a), AStr (Some b), AStr (Some c)] =
      Some ((x @ y @ z) @ NUL # drop (Suc (length (x @ y @ z))) (local_array 256), length (x @ y @ z))"
    by (simp add: sprintf_def vsprintf_def)
  moreover have "cstr ((x @ y @ z) @ NUL # drop (Suc (length (x @ y @ z))) (local_array 256)) (x @ y @ z)"
    using assms(1-3) by (intro cstrI) (auto simp: cstr_def)
  ultimately show ?thesis by blast
qed

text \<open>
  The text that both ways to build a path give: the path itself when it is absolute, otherwise the text
  of the working directory, a slash (unless that text is the slash of the root) and the path.
\<close>

definition join_path :: "char list \<Rightarrow> char list \<Rightarrow> char list" where
  "join_path p u = (if u \<noteq> [] \<and> hd u = slash then u else if p = [slash] then slash # u else p @ slash # u)"

text \<open>Its components are those of the working directory, when it is relative, and those of the path.\<close>

definition from_cwd :: "char list \<Rightarrow> char list \<Rightarrow> char list list" where
  "from_cwd p u = (if u \<noteq> [] \<and> hd u = slash then path_parts u else path_parts p @ path_parts u)"

definition good_path :: "char list \<Rightarrow> char list \<Rightarrow> char list \<Rightarrow> bool" where
  "good_path p u b \<longleftrightarrow> (\<exists>t. cstr b t \<and> t = join_path p u \<and> t \<noteq> [] \<and> hd t = slash \<and> length t < 255 \<and> length t \<le> length p + length u + 1 \<and> path_parts t = from_cwd p u)"

lemma strcpy_local: "cstr b u \<Longrightarrow> length u < 256 \<Longrightarrow> \<exists>d. strcpy (local_array 256) b = Some d \<and> cstr d u"
  using strcpy_fits [of b u "local_array 256"] by (auto simp: cstr_def)

lemma path_strings: "cstr SLASH [slash]" "cstr [NUL] []"
  by (auto simp: cstr_def SLASH_def slash_def)

lemma targets_good:
  assumes "cstr b u" and "cstr (current_path s) p" and "p \<noteq> []" and "hd p = slash" and "length p + length u < 254"
  shows "\<exists>t. absolute_target b s = Some t \<and> good_path p u t" and "\<exists>t. full_path b s = Some t \<and> good_path p u t"
proof -
  have c0: "rd b 0 = Some (if u = [] then NUL else hd u)" using assms(1) by (cases u) (auto simp: cstr_simps)
  have ns: "NUL \<noteq> slash" by (simp add: slash_def)
  obtain c where c: "strcmp (current_path s) SLASH = Some c" "c = 0 \<longleftrightarrow> p = [slash]"
    using strcmp_eq [OF assms(2) path_strings(1)] by blast
  have abs: "\<exists>d. strcpy (local_array 256) b = Some d \<and> good_path p u d" if "u \<noteq> []" "hd u = slash"
  proof -
    obtain d where d: "strcpy (local_array 256) b = Some d" "cstr d u" using strcpy_local [OF assms(1)] assms(5) by auto
    moreover have "good_path p u d" unfolding good_path_def using d(2) that assms(5) by (intro exI [of _ u]) (simp add: from_cwd_def join_path_def)
    ultimately show ?thesis by blast
  qed
  have pp: "path_parts (p @ slash # u) = path_parts p @ path_parts u" by (rule path_parts_append)
  have ps: "path_parts [slash] = []" by (simp add: path_parts.simps)
  obtain p' where p': "p = slash # p'" using assms(3,4) by (cases p) auto
  have rel: "good_path p u d" if "cstr d t" "t = (if p = [slash] then slash # u else p @ slash # u)" "\<not> (u \<noteq> [] \<and> hd u = slash)" for d t
    unfolding good_path_def from_cwd_def if_not_P [OF that(3)]
  proof (intro exI [of _ t] conjI)
    show "path_parts t = path_parts p @ path_parts u" using that(2) pp ps by (auto simp: path_parts_slash)
    show "t = join_path p u" using that(2,3) by (auto simp: join_path_def)
  qed (use that assms(5) p' in \<open>auto split: if_splits\<close>)
  show "\<exists>t. absolute_target b s = Some t \<and> good_path p u t"
  proof (cases "u \<noteq> [] \<and> hd u = slash")
    case True
    with abs c0 show ?thesis by (simp add: absolute_target_def slash_def)
  next
    case False
    define a where "a = (if c = 0 then [NUL] else current_path s)"
    have "cstr a (if p = [slash] then [] else p)" using c(2) assms(2) path_strings by (simp add: a_def)
    moreover have "length ((if p = [slash] then [] else p) @ [slash] @ u) < 256" using assms(5) by simp
    ultimately obtain d where "sprintf (local_array 256) (''%s%s%s'' @ [NUL]) [AStr (Some a), AStr (Some SLASH), AStr (Some b)] =
        Some (d, length ((if p = [slash] then [] else p) @ [slash] @ u))" "cstr d ((if p = [slash] then [] else p) @ [slash] @ u)"
      using sprintf_three [OF _ path_strings(1) assms(1)] by blast
    with rel [of d "(if p = [slash] then [] else p) @ [slash] @ u"] False c0 c ns show ?thesis
      by (auto simp: absolute_target_def slash_def a_def)
  qed
  show "\<exists>t. full_path b s = Some t \<and> good_path p u t"
  proof (cases "u \<noteq> [] \<and> hd u = slash")
    case True
    with abs c0 show ?thesis by (simp add: full_path_def slash_def)
  next
    case False
    define a where "a = (if c = 0 then [NUL] else SLASH)"
    have "cstr a (if p = [slash] then [] else [slash])" using c(2) assms(2) path_strings by (simp add: a_def)
    moreover have "length (p @ (if p = [slash] then [] else [slash]) @ u) < 256" using assms(5) by simp
    ultimately obtain d where "sprintf (local_array 256) (''%s%s%s'' @ [NUL]) [AStr (Some (current_path s)), AStr (Some a), AStr (Some b)] =
        Some (d, length (p @ (if p = [slash] then [] else [slash]) @ u))" "cstr d (p @ (if p = [slash] then [] else [slash]) @ u)"
      using sprintf_three [OF assms(2) _ assms(1)] by blast
    with rel [of d "p @ (if p = [slash] then [] else [slash]) @ u"] False c0 c ns show ?thesis
      by (auto simp: full_path_def slash_def a_def)
  qed
qed

lemma good_path_lookup:
  assumes "good_path p u t" and "path_ok fs s p" and "drivers_ok fs" and v: "v = s_vfs s"
  shows "vfs_lookup fs (Some t) v = resolve fs v (path_parts u) (if u \<noteq> [] \<and> hd u = slash then vfs_root v else vfs_current v)"
proof -
  from assms(1) obtain x where x: "cstr t x" "x \<noteq> []" "hd x = slash" "length x < 255" "length x \<le> length p + length u + 1" "path_parts x = from_cwd p u"
    by (auto simp: good_path_def)
  have "vfs_lookup fs (Some t) v = resolve fs v (from_cwd p u) (vfs_root v)"
    using vfs_lookup_path [OF x(1,4) assms(3), of v] x(2,3,6) by simp
  with assms(2) v resolve_append [of fs v "path_parts p" "vfs_root v" "vfs_current v" "path_parts u"] show ?thesis
    by (auto simp: path_ok_def from_cwd_def)
qed


subsection \<open>Descriptors\<close>

lemma free_fd_find: "length t = 16 \<Longrightarrow> free_fd t = Some (find (\<lambda>i. fd_node (t ! i) = 0) [3..<16])"
  unfolding free_fd_def by (rule first_ok_eq_find) (simp add: rd_def)

lemma find_upt_bounds: "find P [a..<b] = Some i \<Longrightarrow> a \<le> i \<and> i < b \<and> P i \<and> (\<forall>j. a \<le> j \<and> j < i \<longrightarrow> \<not> P j)"
proof -
  assume f: "find P [a..<b] = Some i"
  then obtain k where k: "k < b - a" "i = a + k" "P i" "\<forall>j<k. \<not> P (a + j)" by (auto simp: find_Some_iff)
  have "\<not> P j" if "a \<le> j" "j < i" for j
  proof -
    from that have "j - a < k" "a + (j - a) = j" using k(2) by auto
    with k(4) show ?thesis by metis
  qed
  with k(1-3) show ?thesis by simp
qed


definition fds_ok :: "system \<Rightarrow> bool" where
  "fds_ok s \<longleftrightarrow> length (fd_table s) = 16 \<and> (\<forall>i<3. fd_node (fd_table s ! i) = 0)"

definition drivers_keep_fds :: "devices \<Rightarrow> bool" where
  "drivers_keep_fds dev \<longleftrightarrow> (\<forall>k f n a b s r s'. d_mmap dev k = Some f \<longrightarrow> f n a b s = Some (r, s') \<longrightarrow> fd_table s' = fd_table s) \<and>
     (\<forall>k f n a b s r s'. d_ioctl dev k = Some f \<longrightarrow> f n a b s = Some (r, s') \<longrightarrow> fd_table s' = fd_table s)"

lemma say_fds: "say fmt args s = Some s' \<Longrightarrow> fd_table s' = fd_table s"
  by (auto simp: say_def bind_eq_Some_conv)

lemma ls_loop_fds: "ls_loop dev node idx s = Some s' \<Longrightarrow> fd_table s' = fd_table s"
proof (rule ls_loop.raw_induct [where P = "\<lambda>dev node idx s s'. fd_table s' = fd_table s"])
  fix f and dev :: devices and node idx s s'
  assume ih: "\<And>dev node idx s s'. f dev node idx s = Some s' \<Longrightarrow> fd_table s' = fd_table s"
    and "vfs_readdir (d_files dev) node idx (s_vfs s) \<bind>
      (\<lambda>(r, dirent). if r = 0 then dirent \<bind> (\<lambda>(name, _, _). say ''%s  '' [AStr (Some name)] s \<bind> f dev node (idx + 1)) else Some s) = Some s'"
  then show "fd_table s' = fd_table s" by (auto simp: bind_eq_Some_conv split: if_splits dest!: say_fds ih)
qed

lemma cat_loop_fds: "cat_loop n b s = Some s' \<Longrightarrow> fd_table s' = fd_table s"
proof (induction n arbitrary: b s)
  case (Suc n)
  then obtain c s1 where "cat_char c s = Some s1" "cat_loop n (drop 1 b) s1 = Some s'" by (auto simp: bind_eq_Some_conv)
  with Suc.IH say_fds show ?case by (fastforce simp: cat_char_def split: if_splits)
qed simp

lemma ops_mmap_Some: "ops_mmap dev p = Some f \<Longrightarrow> \<exists>k. d_mmap dev k = Some f"
  by (auto simp: ops_mmap_def split: vfs_ops.splits)

lemma ops_ioctl_Some: "ops_ioctl dev p = Some f \<Longrightarrow> \<exists>k. d_ioctl dev k = Some f"
  by (auto simp: ops_ioctl_def split: vfs_ops.splits)

text \<open>A computation that leaves the table \<open>t\<close>, put together step by step.\<close>

definition leaves :: "file_desc list \<Rightarrow> ('a \<times> system) option \<Rightarrow> bool" where
  "leaves t m \<longleftrightarrow> (\<forall>x s'. m = Some (x, s') \<longrightarrow> fd_table s' = t)"

lemma leaves_Some [simp]: "leaves t (Some (x, s')) \<longleftrightarrow> fd_table s' = t"
  by (simp add: leaves_def)

lemma leaves_bind: "(\<And>a. m = Some a \<Longrightarrow> leaves t (f a)) \<Longrightarrow> leaves t (Option.bind m f)"
  by (cases m) (auto simp: leaves_def)

lemma leaves_if: "(b \<Longrightarrow> leaves t m) \<Longrightarrow> (\<not> b \<Longrightarrow> leaves t m') \<Longrightarrow> leaves t (if b then m else m')"
  by simp

lemma leaves_pair: "(\<And>x y. p = (x, y) \<Longrightarrow> leaves t (f x y)) \<Longrightarrow> leaves t (case p of (x, y) \<Rightarrow> f x y)"
  by (cases p) simp

lemma leaves_case: "(m = None \<Longrightarrow> leaves t a) \<Longrightarrow> (\<And>f. m = Some f \<Longrightarrow> leaves t (b f)) \<Longrightarrow> leaves t (case m of None \<Rightarrow> a | Some f \<Rightarrow> b f)"
  by (cases m) simp_all

lemma leaves_result: "leaves t m \<Longrightarrow> m = Some (x, s') \<Longrightarrow> fd_table s' = t"
  by (simp add: leaves_def)

lemmas leaves_intros = leaves_bind leaves_if leaves_pair leaves_case

lemma mmap_fds: "drivers_keep_fds dev \<Longrightarrow> leaves (fd_table s) (sys_mmap dev regs s)"
  unfolding sys_mmap_def by (intro leaves_intros) (auto dest!: ops_mmap_Some simp: drivers_keep_fds_def)

lemma ioctl_fds: "drivers_keep_fds dev \<Longrightarrow> leaves (fd_table s) (sys_ioctl dev regs s)"
  unfolding sys_ioctl_def by (intro leaves_intros) (auto dest!: ops_ioctl_Some simp: drivers_keep_fds_def leaves_def)

lemma cat_fds: "leaves (fd_table s) (sys_cat dev regs s)"
  unfolding sys_cat_def Let_def
  by (intro leaves_intros) (auto dest!: say_fds cat_loop_fds simp: bind_eq_Some_conv split: if_splits)

lemma plain_fds:
  "leaves (fd_table s) (sys_write regs s)" "leaves (fd_table s) (sys_touch dev regs s)" "leaves (fd_table s) (sys_ls dev regs s)"
  "leaves (fd_table s) (sys_chdir dev regs s)" "leaves (fd_table s) (sys_unknown regs s)"
  unfolding sys_write_def sys_touch_def sys_ls_def sys_chdir_def sys_unknown_def
  by (intro leaves_intros; auto dest!: say_fds ls_loop_fds)+

lemma reboot_fds: "sys_reboot dev s = Some s' \<Longrightarrow> fd_table s' = fd_table s"
  by (auto simp: sys_reboot_def bind_eq_Some_conv split: if_splits dest!: say_fds)

lemma dispatch_fds: "r_eax regs \<noteq> SYS_OPEN \<Longrightarrow> drivers_keep_fds dev \<Longrightarrow> leaves (fd_table s) (syscall_dispatch dev regs s)"
  using mmap_fds ioctl_fds cat_fds plain_fds by (simp add: syscall_dispatch_def Let_def)

lemma open_fds:
  assumes "sys_open dev regs s = Some (r, s')" and "length (fd_table s) = 16"
  shows "fd_table s' = fd_table s \<or> (\<exists>i node. 3 \<le> i \<and> i < 16 \<and> node \<noteq> 0 \<and> fd_node (fd_table s ! i) = 0 \<and>
    fd_table s' = (fd_table s)[i := \<lparr>fd_node = node, fd_offset = 0\<rparr>])"
proof -
  define F where "F = find (\<lambda>i. fd_node (fd_table s ! i) = 0) [3..<16]"
  have f: "free_fd (fd_table s) = Some F" unfolding F_def by (rule free_fd_find [OF assms(2)])
  show ?thesis
  proof (cases F)
    case None
    then have "leaves (fd_table s) (sys_open dev regs s)" unfolding sys_open_def f by (intro leaves_intros) auto
    then show ?thesis using assms(1) by (simp add: leaves_def)
  next
    case (Some i)
    have "fd_table s' = fd_table s \<or> (\<exists>node. node \<noteq> 0 \<and> fd_table s' = (fd_table s)[i := \<lparr>fd_node = node, fd_offset = 0\<rparr>])"
      using assms(1) unfolding sys_open_def f Some by (auto simp: bind_eq_Some_conv wr_Some split: if_splits)
    then show ?thesis using find_upt_bounds [OF Some [unfolded F_def]] by blast
  qed
qed

text \<open>
  Descriptors stay. The first three descriptors are never used, and no call closes or redirects a
  descriptor that is open: there is no call that would, so a program that has opened thirteen paths gets
  no other. (The drivers' \<open>mmap\<close> and \<open>ioctl\<close> leave the table alone.)
\<close>
theorem syscall_descriptors:
  assumes "fds_ok s" and "drivers_keep_fds dev" and "syscall_handler dev regs s = Some (e, s')"
  shows "fds_ok s' \<and> (\<forall>i<16. fd_node (fd_table s ! i) \<noteq> 0 \<longrightarrow> fd_table s' ! i = fd_table s ! i)"
proof (cases "r_eax regs = SYS_OPEN")
  case True
  then obtain r where "sys_open dev regs s = Some (r, s')"
    using assms(3) by (auto simp: syscall_handler_def syscall_dispatch_def SYS_OPEN_def SYS_WRITE_def bind_eq_Some_conv)
  from open_fds [OF this] assms(1) show ?thesis by (auto simp: fds_ok_def nth_list_update)
next
  case False
  have "fd_table s' = fd_table s"
  proof (cases "r_eax regs = 9")
    case True
    with assms(3) show ?thesis by (auto simp: syscall_handler_def bind_eq_Some_conv dest: reboot_fds)
  next
    case nine: False
    with assms(3) obtain r where "syscall_dispatch dev regs s = Some (r, s')"
      by (auto simp: syscall_handler_def bind_eq_Some_conv)
    then show ?thesis by (rule leaves_result [OF dispatch_fds [OF False assms(2)]])
  qed
  with assms(1) show ?thesis by (simp add: fds_ok_def)
qed

subsection \<open>Printing a file\<close>

definition cat_shown :: "char \<Rightarrow> char" where
  "cat_shown c = (if cat_visible c then c else CHR ''.'')"

lemma cat_char_run:
  assumes "log_ready (s_log s) h st"
  shows "if c = CHR ''%'' then cat_char c s = None
    else \<exists>l h'. cat_char c s = Some (s\<lparr>s_log := l\<rparr>) \<and> console l = console (s_log s) @ [cat_shown c] \<and> log_ready l h' st"
proof -
  have lv: "message_level ([d] @ [NUL]) lv = Some (lv, [d] @ [NUL])" for d lv by (simp add: message_level_def)
  show ?thesis
  proof (cases "c = CHR ''%''")
    case True
    have "format_text printk_precision ([CHR ''%''] @ [NUL]) [] = None"
      by (simp add: format_text.simps printk_precision_def convert_def)
    moreover have "cat_visible (CHR ''%'')" by (simp add: cat_visible_def)
    ultimately show ?thesis using True lv [of "CHR ''%''"] assms
      by (simp add: cat_char_def say_def printk_def vprintk_def log_ready_def)
  next
    case False
    have "cat_shown c \<noteq> NUL \<and> cat_shown c \<noteq> CHR ''%''" using False by (auto simp: cat_shown_def cat_visible_def LF_def)
    then have "format_text printk_precision ([cat_shown c] @ [NUL]) [] = Some [cat_shown c]" by (simp add: format_text.simps)
    from say_text [OF assms lv this] False show ?thesis by (auto simp: cat_char_def cat_shown_def)
  qed
qed

lemma cat_loop_run:
  assumes "log_ready (s_log s) h st" and "n \<le> length b"
  shows "if CHR ''%'' \<in> set (take n b) then cat_loop n b s = None
    else \<exists>l h'. cat_loop n b s = Some (s\<lparr>s_log := l\<rparr>) \<and> console l = console (s_log s) @ map cat_shown (take n b) \<and> log_ready l h' st"
  using assms
proof (induction n arbitrary: b s h)
  case 0
  then show ?case by (auto intro!: exI [of _ "s_log s"])
next
  case (Suc n)
  then obtain c b' where b: "b = c # b'" "n \<le> length b'" by (cases b) auto
  show ?case
  proof (cases "c = CHR ''%''")
    case True
    with cat_char_run [OF Suc.prems(1), of c] b show ?thesis by (simp add: rd_def)
  next
    case False
    obtain l h' where l: "cat_char c s = Some (s\<lparr>s_log := l\<rparr>)" "console l = console (s_log s) @ [cat_shown c]" "log_ready l h' st"
      using cat_char_run [OF Suc.prems(1), of c] False by auto
    have "log_ready (s_log (s\<lparr>s_log := l\<rparr>)) h' st" using l(3) by simp
    from Suc.IH [OF this b(2)] show ?thesis
      using False l b(1) by (cases "CHR ''%'' \<in> set (take n b')") (auto simp: rd_def)
  qed
qed


subsection \<open>An example system\<close>

text \<open>The root at 1 with the directory \<open>d\<close> at 3 and the file \<open>a\<close> at 2; the caller's memory has three strings.\<close>

definition sys_demo_vfs :: vfs where
  "sys_demo_vfs = \<lparr>v_mm = vfs_demo_mm,
     nodes = [1 \<mapsto> (vfs_demo_node ''/'')\<lparr>v_type := VFS_TYPE_DIR, v_ptr := 3\<rparr>,
              3 \<mapsto> (vfs_demo_node ''d'')\<lparr>v_type := VFS_TYPE_DIR, v_parent := 1, v_next := 2\<rparr>,
              2 \<mapsto> (vfs_demo_node ''a'')\<lparr>v_type := VFS_TYPE_FILE, v_parent := 1, v_ptr := 5, v_size := 2\<rparr>],
     contents = [5 \<mapsto> ''hi'' @ [NUL]], vfs_root = 1, vfs_current = 1, v_marked = []\<rparr>"

definition sys_demo :: system where
  "sys_demo = \<lparr>s_vfs = sys_demo_vfs, s_log = klog_boot 0, fd_table = replicate 16 \<lparr>fd_node = 0, fd_offset = 0\<rparr>,
     current_path = slash # replicate 255 NUL,
     user = (\<lambda>a. if a = 16 then ''d'' @ [NUL] else if a = 32 then ''/a'' @ [NUL] else ''hello'' @ [LF, NUL]), empty_text = 0\<rparr>"

definition sys_demo_devices :: devices where
  "sys_demo_devices = \<lparr>d_files = no_drivers, d_mmap = \<lambda>_. None, d_ioctl = \<lambda>_. None, d_fresh = \<lambda>_ n. replicate (unat n) NUL, d_kbc_ready = True\<rparr>"

definition sys_demo_regs :: "u32 \<Rightarrow> u32 \<Rightarrow> trap_frame" where
  "sys_demo_regs n arg = \<lparr>r_gs = 0, r_fs = 0, r_es = 0, r_ds = 0, r_edi = 0, r_esi = 0, r_ebp = 0, r_esp_dummy = 0, r_ebx = arg,
     r_edx = 0, r_ecx = 0, r_eax = n, r_error_code = 0, r_interrupt_no = 0, r_eip = 0, r_cs = 0, r_eflags = 0, r_useresp = 0, r_ss = 0\<rparr>"

lemma sys_demo_log: "\<exists>st. log_ready (s_log sys_demo) [] st"
proof -
  have z: "as_long 0 = sint (0 :: u32)" by (simp add: as_long_def)
  obtain a b where "int_text (as_long 0) 10 5 = Some a" "int_text (as_long 0) 10 3 = Some b"
    unfolding z using int_text_decimal [of 0 5] int_text_decimal [of 0 3] by auto
  then show ?thesis
    by (simp add: log_ready_def sys_demo_def klog_boot_def log_holds_def stamp_def LOGLEVEL_WARNING_def LOGLEVEL_DEBUG_def)
qed

theorem syscall_write_witness:
  "\<exists>l. syscall_handler sys_demo_devices (sys_demo_regs 1 64) sys_demo = Some (Returns (sys_demo_regs 0 64), sys_demo\<lparr>s_log := l\<rparr>) \<and>
     console l = ''hello'' @ [LF]"
proof -
  obtain st where "log_ready (s_log sys_demo) [] st" using sys_demo_log by blast
  moreover have "cstr (user sys_demo (r_ebx (sys_demo_regs 1 64))) (''hello'' @ [LF])"
    by (simp add: cstr_def sys_demo_def sys_demo_regs_def LF_def)
  moreover have "console (s_log sys_demo) = []" by (simp add: sys_demo_def klog_boot_def)
  ultimately show ?thesis using syscall_write [of "sys_demo_regs 1 64" sys_demo "[]" st "''hello'' @ [LF]" sys_demo_devices]
    by (auto simp: sys_demo_regs_def SYS_WRITE_def)
qed

lemma sys_demo_dir: "dir sys_demo_vfs 1 [(''d'', 3), (''a'', 2)]"
  by (auto simp: dir_def sys_demo_vfs_def vfs_demo_node_def zero_node_def cstr_def VFS_TYPE_DIR_def)

lemma sys_demo_resolve:
  "resolve no_drivers sys_demo_vfs [''d''] 1 = Some 3" "resolve no_drivers sys_demo_vfs [''a''] 1 = Some 2"
proof -
  have "root_finddir 1 (''d'' @ [NUL]) sys_demo_vfs = Some 3" "root_finddir 1 (''a'' @ [NUL]) sys_demo_vfs = Some 2"
    using root_finddir_dir [OF sys_demo_dir, of "''d'' @ [NUL]" "''d''"] root_finddir_dir [OF sys_demo_dir, of "''a'' @ [NUL]" "''a''"]
    by (auto simp: cstr_def lookup_name_def)
  then show "resolve no_drivers sys_demo_vfs [''d''] 1 = Some 3" "resolve no_drivers sys_demo_vfs [''a''] 1 = Some 2"
    by (simp_all add: enter_name_def node_at_def sys_demo_vfs_def vfs_demo_node_def)
qed

lemma sys_demo_parts: "path_parts ''d'' = [''d'']" "path_parts ''/a'' = [''a'']" "path_parts [slash] = []"
  by (simp_all add: path_parts.simps slash_def)

lemma sys_demo_drivers: "drivers_ok (d_files sys_demo_devices)" "drivers_local (d_files sys_demo_devices)" "drivers_keep_fds sys_demo_devices"
  by (simp_all add: sys_demo_devices_def drivers_ok_def drivers_local_def drivers_keep_fds_def no_drivers_def)

lemma sys_demo_string: "cstr (user sys_demo 16) ''d''" "cstr (user sys_demo 32) ''/a''"
  by (simp_all add: sys_demo_def cstr_def)



theorem syscall_descriptors_witness:
  "\<exists>s'. syscall_handler sys_demo_devices (sys_demo_regs 1 0) sys_demo = Some (Returns ((sys_demo_regs 1 0)\<lparr>r_eax := - 22\<rparr>), s') \<and> fds_ok s'"
proof -
  have r: "syscall_handler sys_demo_devices (sys_demo_regs 1 0) sys_demo = Some (Returns ((sys_demo_regs 1 0)\<lparr>r_eax := - 22\<rparr>), sys_demo)"
    by (simp add: syscall_handler_def syscall_dispatch_def sys_write_def SYS_WRITE_def EINVAL_def sys_demo_regs_def)
  have "fds_ok sys_demo" by (simp add: fds_ok_def sys_demo_def)
  from syscall_descriptors [OF this sys_demo_drivers(3) r] r show ?thesis by blast
qed

lemma sys_demo_kmalloc: "\<exists>mm. kmalloc 2 vfs_demo_mm = Some (0x10000, mm)"
proof -
  have "unat (pages_for 2) = 1" by (simp add: pages_for_def PAGE_SIZE_def)
  moreover have "page_available 0 vfs_demo_mm = Some True"
    by (simp add: page_available_def mm_get_bit_def mm_get_protected_def vfs_demo_mm_def mm_boot_def)
  moreover have "kmalloc_scan 0 2 0 1 vfs_demo_mm = Some (Some 0)"
    using calculation(2) by (subst kmalloc_scan.simps) simp
  moreover have "\<exists>mm. set_bits 0 1 0 vfs_demo_mm = Some mm"
    by (subst set_bits.simps, simp add: mm_set_bit_def bm_on_def vfs_demo_mm_def mm_boot_def)
      (subst set_bits.simps, simp)
  ultimately show ?thesis by (auto simp: kmalloc_def vfs_demo_mm_def mm_boot_def)
qed


end
