(* ===== verification/Jfs.thy ===== *)
theory Jfs
  imports CString_Copy Printk
begin

text \<open>
  The journaling file system, \<open>fs/jfs/jfs.c\<close>: a journal of 128 blocks and a table of 64 inodes, both static
  arrays. What follows the table of inodes in memory is not part of it, so a copy that runs past its end is
  None. Progress messages are left out; \<open>jfs_ls\<close> returns the text it prints.
\<close>

definition JFS_MAGIC :: u32 where "JFS_MAGIC = 0x424C5545"
definition BLOCK_SIZE :: nat where "BLOCK_SIZE = 4096"
definition JOURNAL_SIZE :: nat where "JOURNAL_SIZE = 128"
definition MAX_FILES :: nat where "MAX_FILES = 64"
definition TYPE_FILE :: u32 where "TYPE_FILE = 1"
definition TYPE_DIR :: u32 where "TYPE_DIR = 2"

datatype jfs_status = JFS_TRANS_START | JFS_TRANS_COMMIT | JFS_TRANS_REVOKE

record jfs_entry =
  transaction_id :: u32
  status :: jfs_status
  target_block :: u32
  j_data :: "char list"

record jfs_inode =
  i_name :: "char list"
  i_size :: u32
  i_type :: u32
  i_start_block :: u32
  i_used :: bool

record jfs =
  sb_magic :: u32
  journal :: "jfs_entry list"
  current_tx_id :: int
  inode_table :: "jfs_inode list"

definition jfs_boot :: jfs where
  "jfs_boot = \<lparr>sb_magic = 0,
     journal = replicate JOURNAL_SIZE \<lparr>transaction_id = 0, status = JFS_TRANS_START, target_block = 0, j_data = replicate BLOCK_SIZE NUL\<rparr>,
     current_tx_id = 0,
     inode_table = replicate MAX_FILES \<lparr>i_name = replicate 32 NUL, i_size = 0, i_type = 0, i_start_block = 0, i_used = False\<rparr>\<rparr>"

definition jfs_init :: "jfs \<Rightarrow> jfs" where
  "jfs_init s = s\<lparr>sb_magic := JFS_MAGIC\<rparr>"

definition checkpoint_entry :: "jfs_entry \<Rightarrow> jfs_entry" where
  "checkpoint_entry e = (if status e = JFS_TRANS_COMMIT then e\<lparr>status := JFS_TRANS_REVOKE\<rparr> else e)"

definition jfs_checkpoint :: "jfs \<Rightarrow> jfs" where
  "jfs_checkpoint s = s\<lparr>journal := map checkpoint_entry (journal s)\<rparr>"

definition reusable :: "jfs_entry \<Rightarrow> bool" where
  "reusable e \<longleftrightarrow> status e = JFS_TRANS_REVOKE \<or> status e = JFS_TRANS_START"

definition find_entry :: "jfs \<Rightarrow> nat option option" where
  "find_entry s = first_ok (\<lambda>i. map_option reusable (rd (journal s) i)) 0 JOURNAL_SIZE"

text \<open>\<open>jfs_write\<close> calls itself after a checkpoint. The transaction number is a signed int.\<close>

partial_function (option) jfs_write :: "u32 \<Rightarrow> char list \<Rightarrow> jfs \<Rightarrow> (int \<times> jfs) option" where
  "jfs_write block_id buffer s =
     Option.bind (find_entry s)
       (\<lambda>r. case r of
          None \<Rightarrow> jfs_write block_id buffer (jfs_checkpoint s)
        | Some i \<Rightarrow>
            Option.bind (int32 (current_tx_id s + 1))
              (\<lambda>tx. Option.bind (rd (journal s) i)
                (\<lambda>e. Option.bind (memcpy (j_data e) buffer (int BLOCK_SIZE))
                  (\<lambda>d. Option.bind (wr (journal s) i \<lparr>transaction_id = of_int tx, status = JFS_TRANS_COMMIT, target_block = block_id, j_data = d\<rparr>)
                    (\<lambda>j. Some (0, s\<lparr>journal := j, current_tx_id := tx\<rparr>))))))"

text \<open>The transactions that are to be recovered, in the order of the journal.\<close>

definition jfs_recover :: "jfs \<Rightarrow> (u32 \<times> u32) list" where
  "jfs_recover s = [(transaction_id e, target_block e). e \<leftarrow> journal s, status e = JFS_TRANS_COMMIT]"

definition find_free_inode :: "jfs \<Rightarrow> nat option option" where
  "find_free_inode s = first_ok (\<lambda>i. map_option (\<lambda>n. \<not> i_used n) (rd (inode_table s) i)) 0 MAX_FILES"

definition word_chars :: "u32 \<Rightarrow> char list" where
  "word_chars w = map (\<lambda>k. char_of (unat (drop_bit (8 * k) w AND 0xFF))) [0..<4]"

definition inode_chars :: "jfs_inode \<Rightarrow> char list" where
  "inode_chars n = i_name n @ word_chars (i_size n) @ word_chars (i_type n) @ word_chars (i_start_block n) @
     word_chars (if i_used n then 1 else 0)"

text \<open>The memory behind \<open>&inode_table[slot]\<close>.\<close>

definition table_from :: "nat \<Rightarrow> jfs \<Rightarrow> char list" where
  "table_from k s = concat (map inode_chars (drop k (inode_table s)))"

definition put_inode :: "(jfs_inode \<Rightarrow> jfs_inode) \<Rightarrow> char list \<Rightarrow> nat \<Rightarrow> jfs \<Rightarrow> jfs option" where
  "put_inode f name k s =
     do { n \<leftarrow> rd (inode_table s) k;
          nm \<leftarrow> strncpy (i_name n) name 31;
          let s1 = s\<lparr>inode_table := (inode_table s)[k := f (n\<lparr>i_name := nm, i_size := 0, i_used := True\<rparr>)]\<rparr>;
          (_, s2) \<leftarrow> jfs_write (of_nat k) (table_from k s1) s1;
          Some s2 }"

definition jfs_mkdir :: "char list \<Rightarrow> jfs \<Rightarrow> jfs option" where
  "jfs_mkdir name s =
     do { r \<leftarrow> find_free_inode s;
          case r of None \<Rightarrow> Some s | Some k \<Rightarrow> put_inode (\<lambda>n. n\<lparr>i_type := TYPE_DIR\<rparr>) name k s }"

definition jfs_touch :: "char list \<Rightarrow> jfs \<Rightarrow> jfs option" where
  "jfs_touch name s =
     do { r \<leftarrow> find_free_inode s;
          case r of None \<Rightarrow> Some s
          | Some k \<Rightarrow> put_inode (\<lambda>n. n\<lparr>i_type := TYPE_FILE, i_start_block := 100 + of_nat k\<rparr>) name k s }"

definition jfs_ls_line :: "jfs_inode \<Rightarrow> char list option" where
  "jfs_ls_line n =
     (if i_used n
      then print_text (''%s'' @ [CHR 0x09] @ ''%d'' @ [CHR 0x09] @ ''%s'' @ [LF])
             [AStr (Some ((if i_type n = TYPE_DIR then ''<DIR>'' else ''<FILE>'') @ [NUL])), AInt (i_size n), AStr (Some (i_name n))]
      else Some [])"

primrec jfs_ls_lines :: "jfs_inode list \<Rightarrow> char list option" where
  "jfs_ls_lines [] = Some []"
| "jfs_ls_lines (n # ns) = do { t \<leftarrow> jfs_ls_line n; u \<leftarrow> jfs_ls_lines ns; Some (t @ u) }"

definition jfs_ls :: "jfs \<Rightarrow> char list option" where
  "jfs_ls s =
     do { t \<leftarrow> print_text (''Type       Size         Name'' @ [LF]) [];
          u \<leftarrow> print_text (''----------------------------'' @ [LF]) [];
          v \<leftarrow> jfs_ls_lines (inode_table s);
          Some (t @ u @ v) }"

subsection \<open>The journal\<close>

text \<open>The journal as the set of transactions that a recovery would find.\<close>

definition jfs_ok :: "jfs \<Rightarrow> bool" where
  "jfs_ok s \<longleftrightarrow> length (journal s) = JOURNAL_SIZE \<and> (\<forall>e\<in>set (journal s). length (j_data e) = BLOCK_SIZE) \<and>
     0 \<le> current_tx_id s \<and> (\<forall>e\<in>set (journal s). status e = JFS_TRANS_COMMIT \<longrightarrow> int (unat (transaction_id e)) \<le> current_tx_id s)"

definition pending :: "jfs \<Rightarrow> jfs_entry set" where
  "pending s = {e \<in> set (journal s). status e = JFS_TRANS_COMMIT}"

lemma find_entry_find: "jfs_ok s \<Longrightarrow> find_entry s = Some (find (\<lambda>i. reusable (journal s ! i)) [0..<JOURNAL_SIZE])"
  unfolding find_entry_def by (rule first_ok_eq_find) (simp add: jfs_ok_def)

lemma checkpoint_ok: "jfs_ok s \<Longrightarrow> jfs_ok (jfs_checkpoint s) \<and> pending (jfs_checkpoint s) = {} \<and> current_tx_id (jfs_checkpoint s) = current_tx_id s"
  by (auto simp: jfs_ok_def jfs_checkpoint_def checkpoint_entry_def pending_def split: if_splits)

lemma checkpoint_free: "jfs_ok s \<Longrightarrow> find_entry (jfs_checkpoint s) = Some (Some 0)"
proof -
  assume ok: "jfs_ok s"
  then have "reusable (journal (jfs_checkpoint s) ! 0)"
    using checkpoint_ok [OF ok]
    by (cases "status (journal s ! 0)") (auto simp: jfs_checkpoint_def checkpoint_entry_def reusable_def jfs_ok_def JOURNAL_SIZE_def)
  then show ?thesis using find_entry_find [of "jfs_checkpoint s"] checkpoint_ok [OF ok]
    by (simp add: JOURNAL_SIZE_def upt_conv_Cons del: upt_Suc)
qed

lemma int_of_int_u32: "0 \<le> i \<Longrightarrow> i < 2 ^ 32 \<Longrightarrow> int (unat (of_int i :: u32)) = i"
  by (simp add: uint_word_of_int)

text \<open>One transaction in a journal with a free entry.\<close>

lemma jfs_log:
  assumes ok: "jfs_ok s" and i: "find_entry s = Some (Some i)" and tx: "current_tx_id s < 2 ^ 31 - 1" and b: "BLOCK_SIZE \<le> length buffer"
  shows "\<exists>s'. jfs_write blk buffer s = Some (0, s') \<and> jfs_ok s' \<and> current_tx_id s' = current_tx_id s + 1 \<and>
    pending s' = insert \<lparr>transaction_id = of_int (current_tx_id s + 1), status = JFS_TRANS_COMMIT, target_block = blk, j_data = take BLOCK_SIZE buffer\<rparr> (pending s) \<and>
    inode_table s' = inode_table s"
proof -
  let ?new = "\<lparr>transaction_id = of_int (current_tx_id s + 1), status = JFS_TRANS_COMMIT, target_block = blk, j_data = take BLOCK_SIZE buffer\<rparr>"
  define s' where "s' = s\<lparr>journal := (journal s)[i := ?new], current_tx_id := current_tx_id s + 1\<rparr>"
  have "find (\<lambda>i. reusable (journal s ! i)) [0..<JOURNAL_SIZE] = Some i" using find_entry_find [OF ok] i by simp
  then have lt: "i < JOURNAL_SIZE" "reusable (journal s ! i)" by (simp_all add: find_upt_Some)
  then have li: "i < length (journal s)" using ok by (simp add: jfs_ok_def)
  have "length (j_data (journal s ! i)) = BLOCK_SIZE" using ok li by (simp add: jfs_ok_def)
  then have m: "memcpy (j_data (journal s ! i)) buffer (int BLOCK_SIZE) = Some (take BLOCK_SIZE buffer)"
    using memcpy_run [of BLOCK_SIZE "j_data (journal s ! i)" buffer] b by simp
  have t: "int32 (current_tx_id s + 1) = Some (current_tx_id s + 1)" using ok tx by (simp add: int32_def jfs_ok_def)
  have run: "jfs_write blk buffer s = Some (0, s')"
    using i t li m by (subst jfs_write.simps) (simp add: s'_def)
  have num: "int (unat (of_int (current_tx_id s + 1) :: u32)) = current_tx_id s + 1"
    by (rule int_of_int_u32) (use ok tx in \<open>simp_all add: jfs_ok_def\<close>)
  have "set (journal s') = insert ?new (set (take i (journal s)) \<union> set (drop (Suc i) (journal s)))"
    using li by (auto simp: s'_def upd_conv_take_nth_drop)
  moreover have "set (journal s) = insert (journal s ! i) (set (take i (journal s)) \<union> set (drop (Suc i) (journal s)))"
    using li by (metis id_take_nth_drop list.simps(15) set_append Un_insert_right)
  ultimately have js: "set (journal s') = insert ?new (set (take i (journal s)) \<union> set (drop (Suc i) (journal s)))"
      "set (journal s) = insert (journal s ! i) (set (take i (journal s)) \<union> set (drop (Suc i) (journal s)))" by blast+
  have "status (journal s ! i) \<noteq> JFS_TRANS_COMMIT" using lt(2) by (auto simp: reusable_def)
  then have p: "pending s' = insert ?new (pending s)" unfolding pending_def js by auto
  have "jfs_ok s'" unfolding jfs_ok_def
  proof (intro conjI)
    show "\<forall>e\<in>set (journal s'). length (j_data e) = BLOCK_SIZE" using ok b unfolding js(1) jfs_ok_def js(2) by auto
    show "\<forall>e\<in>set (journal s'). status e = JFS_TRANS_COMMIT \<longrightarrow> int (unat (transaction_id e)) \<le> current_tx_id s'"
      using ok num unfolding js(1) jfs_ok_def js(2) by (auto simp: s'_def)
  qed (use ok in \<open>simp_all add: jfs_ok_def s'_def\<close>)
  with run p show ?thesis by (simp add: s'_def)
qed


lemma jfs_boot_ok: "jfs_ok jfs_boot"
  by (simp add: jfs_ok_def jfs_boot_def)


lemma memcpy_loop_short: "i \<le> length s \<Longrightarrow> length s < n \<Longrightarrow> memcpy_loop i n d s = None"
proof (induction "length s - i" arbitrary: i d)
  case 0
  then show ?case by (subst memcpy_loop.simps) (simp add: rd_def)
next
  case (Suc k)
  then have "memcpy_loop (Suc i) n d' s = None" for d' by simp
  with Suc show ?case by (subst memcpy_loop.simps) (simp add: rd_def split: bind_splits)
qed

lemma length_table: "\<forall>n\<in>set t. length (i_name n) = 32 \<Longrightarrow> length (concat (map inode_chars t)) = 48 * length t"
  by (induction t) (simp_all add: inode_chars_def word_chars_def)

text \<open>
  Creating a file or a directory copies one block of 4096 characters out of the table of inodes, which
  has 3072: whenever there is a free inode, the copy runs past the end of the table.
\<close>
theorem jfs_create_overruns:
  assumes "jfs_ok s" and "length (inode_table s) = MAX_FILES" and "\<forall>n\<in>set (inode_table s). length (i_name n) = 32"
    and "cstr name x" and "length x < 31" and "\<exists>n\<in>set (inode_table s). \<not> i_used n"
  shows "jfs_touch name s = None \<and> jfs_mkdir name s = None"
proof -
  have "find_free_inode s = Some (find (\<lambda>i. \<not> i_used (inode_table s ! i)) [0..<MAX_FILES])"
    unfolding find_free_inode_def by (rule first_ok_eq_find) (simp add: assms(2))
  moreover have "find (\<lambda>i. \<not> i_used (inode_table s ! i)) [0..<MAX_FILES] \<noteq> None"
    using assms(2,6) by (auto simp: find_upt_None in_set_conv_nth)
  ultimately obtain k where k: "find_free_inode s = Some (Some k)" "k < MAX_FILES" by (auto simp: find_upt_Some)
  have long: "i_name (inode_table s ! k) \<in> {t. length t = 32}" using assms(2,3) k(2) by simp
  then obtain nm where nm: "strncpy (i_name (inode_table s ! k)) name 31 = Some nm" "length nm = 32"
    using strncpy_cstr [OF assms(4,5), of "i_name (inode_table s ! k)"] assms(5) by auto
  have "put_inode f name k s = None" if f: "\<And>n. i_name (f n) = i_name n" for f
  proof -
    define s1 where "s1 = s\<lparr>inode_table := (inode_table s)[k := f ((inode_table s ! k)\<lparr>i_name := nm, i_size := 0, i_used := True\<rparr>)]\<rparr>"
    have "\<forall>n\<in>set (inode_table s1). length (i_name n) = 32" using assms(3) nm(2) f
      by (auto simp: s1_def dest!: subsetD [OF set_update_subset_insert])
    then have "\<forall>n\<in>set (drop k (inode_table s1)). length (i_name n) = 32" by (meson in_set_dropD)
    from length_table [OF this] have short: "length (table_from k s1) < BLOCK_SIZE"
      using assms(2) by (simp add: table_from_def s1_def BLOCK_SIZE_def MAX_FILES_def)
    have none: "memcpy d (table_from k s1) (int BLOCK_SIZE) = None" for d
      using memcpy_loop_short [of 0 "table_from k s1" BLOCK_SIZE d] short by (simp add: memcpy_def)
    have w: "jfs_write b (table_from k s1) t = None" if "find_entry t = Some (Some i)" for b t i
      using that none by (subst jfs_write.simps) (simp split: bind_splits)
    have ok1: "jfs_ok s1" using assms(1) by (simp add: jfs_ok_def s1_def)
    have "jfs_write b (table_from k s1) s1 = None" for b
    proof (cases "find (\<lambda>i. reusable (journal s1 ! i)) [0..<JOURNAL_SIZE]")
      case None
      then show ?thesis using find_entry_find [OF ok1] w [OF checkpoint_free [OF ok1]] by (subst jfs_write.simps) simp
    next
      case (Some i)
      then show ?thesis using w find_entry_find [OF ok1] by metis
    qed
    then show ?thesis using k(2) assms(2) nm(1) by (simp add: put_inode_def s1_def [symmetric] Let_def)
  qed
  then show ?thesis using k(1) by (simp add: jfs_touch_def jfs_mkdir_def)
qed

theorem jfs_create_overruns_witness: "jfs_touch (''f'' @ [NUL]) jfs_boot = None"
proof -
  have "cstr (''f'' @ [NUL]) ''f''" by (simp add: cstr_def)
  from jfs_create_overruns [OF jfs_boot_ok _ _ this] show ?thesis by (simp add: jfs_boot_def MAX_FILES_def)
qed

end
