(* ===== verification/Cmdline.thy ===== *)
theory Cmdline
  imports CString_Copy
begin

text \<open>
  The boot command line, \<open>arch/x86/cmdline.c\<close>: looking up \<open>option=value\<close> and flags. A pointer into the
  command line is the rest of the memory from there on.
\<close>

definition myisspace :: "char \<Rightarrow> bool" where
  "myisspace c \<longleftrightarrow> c = CHR '' '' \<or> c = CHR 0x09 \<or> c = CHR 0x0A \<or> c = CHR 0x0B \<or> c = CHR 0x0C \<or> c = CHR 0x0D"

fun skip_blanks :: "char list \<Rightarrow> char list option" where
  "skip_blanks [] = None"
| "skip_blanks (c # p) = (if c \<noteq> NUL \<and> myisspace c then skip_blanks p else Some (c # p))"

fun skip_word :: "char list \<Rightarrow> char list option" where
  "skip_word [] = None"
| "skip_word (c # p) = (if c \<noteq> NUL \<and> \<not> myisspace c then skip_word p else Some (c # p))"

fun match_option :: "char list \<Rightarrow> char list \<Rightarrow> (char list \<times> char list) option" where
  "match_option (c # p) (d # q) = (if c \<noteq> NUL \<and> d \<noteq> NUL \<and> c = d then match_option p q else Some (c # p, d # q))"
| "match_option (c # p) [] = (if c \<noteq> NUL then None else Some (c # p, []))"
| "match_option [] q = None"

text \<open>The loop that copies the value, with its length and the buffer.\<close>

fun copy_value :: "int \<Rightarrow> int \<Rightarrow> char list \<Rightarrow> char list \<Rightarrow> (int \<times> char list) option" where
  "copy_value len bufsize buffer [] = None"
| "copy_value len bufsize buffer (c # p) =
     (if c \<noteq> NUL \<and> \<not> myisspace c
      then do { b \<leftarrow> (if len < bufsize - 1 then wr buffer (nat len) c else Some buffer); copy_value (len + 1) bufsize b p }
      else Some (len, buffer))"

partial_function (option) find_option_from :: "char list \<Rightarrow> char list \<Rightarrow> int \<Rightarrow> char list \<Rightarrow> (int \<times> char list) option" where
  "find_option_from opt buffer bufsize p =
     Option.bind (rd p 0) (\<lambda>c. if c = NUL then Some (-1, buffer)
       else Option.bind (skip_blanks p) (\<lambda>p. Option.bind (rd p 0) (\<lambda>c. if c = NUL then Some (-1, buffer)
         else Option.bind (match_option p opt) (\<lambda>(p, q). Option.bind (rd q 0) (\<lambda>d. Option.bind (rd p 0) (\<lambda>c.
           if d = NUL \<and> c = CHR ''=''
           then Option.bind (copy_value 0 bufsize buffer (drop 1 p)) (\<lambda>(len, b).
             if bufsize > 0 then map_option (Pair len) (wr b (nat (if len < bufsize then len else bufsize - 1)) NUL) else Some (len, b))
           else Option.bind (skip_word p) (find_option_from opt buffer bufsize)))))))"

definition cmdline_find_option :: "char list option \<Rightarrow> char list \<Rightarrow> char list \<Rightarrow> int \<Rightarrow> (int \<times> char list) option" where
  "cmdline_find_option cmdline opt buffer bufsize =
     (case cmdline of None \<Rightarrow> Some (-1, buffer) | Some p \<Rightarrow> find_option_from opt buffer bufsize p)"

partial_function (option) find_flag_from :: "char list \<Rightarrow> char list \<Rightarrow> bool option" where
  "find_flag_from opt p =
     Option.bind (rd p 0) (\<lambda>c. if c = NUL then Some False
       else Option.bind (skip_blanks p) (\<lambda>p. Option.bind (rd p 0) (\<lambda>c. if c = NUL then Some False
         else Option.bind (match_option p opt) (\<lambda>(p, q). Option.bind (rd q 0) (\<lambda>d. Option.bind (rd p 0) (\<lambda>c.
           if d = NUL \<and> (c = NUL \<or> myisspace c) then Some True
           else Option.bind (skip_word p) (find_flag_from opt)))))))"

definition cmdline_find_option_bool :: "char list option \<Rightarrow> char list \<Rightarrow> bool option" where
  "cmdline_find_option_bool cmdline opt = (case cmdline of None \<Rightarrow> Some False | Some p \<Rightarrow> find_flag_from opt p)"

subsection \<open>Words\<close>

function cmd_words :: "char list \<Rightarrow> char list list" where
  "cmd_words s =
     (let r = dropWhile myisspace s
      in if r = [] then [] else takeWhile (\<lambda>c. \<not> myisspace c) r # cmd_words (dropWhile (\<lambda>c. \<not> myisspace c) r))"
  by pat_completeness auto
termination
proof (relation "measure length")
  fix s r :: "char list" assume r: "r = dropWhile myisspace s" "r \<noteq> []"
  then have "\<not> myisspace (hd r)" by (metis hd_dropWhile)
  with r(2) have "length (dropWhile (\<lambda>c. \<not> myisspace c) r) < length r"
    by (cases r) (auto simp: length_dropWhile_le le_imp_less_Suc)
  also have "\<dots> \<le> length s" using r(1) by (simp add: length_dropWhile_le)
  finally show "(dropWhile (\<lambda>c. \<not> myisspace c) r, s) \<in> measure length" by simp
qed simp

declare cmd_words.simps [simp del]

lemma skip_blanks_run: "cstr p s \<Longrightarrow> \<exists>p'. skip_blanks p = Some p' \<and> cstr p' (dropWhile myisspace s)"
proof (induction s arbitrary: p)
  case (Cons c s)
  then obtain b where b: "p = c # b" "cstr b s" "c \<noteq> NUL" by (auto simp: cstr_simps)
  with Cons show ?case by (cases "myisspace c") auto
qed (auto simp: cstr_simps)

lemma skip_word_run: "cstr p s \<Longrightarrow> \<exists>p'. skip_word p = Some p' \<and> cstr p' (dropWhile (\<lambda>c. \<not> myisspace c) s)"
proof (induction s arbitrary: p)
  case (Cons c s)
  then obtain b where b: "p = c # b" "cstr b s" "c \<noteq> NUL" by (auto simp: cstr_simps)
  with Cons show ?case by (cases "myisspace c") auto
qed (auto simp: cstr_simps)

lemma rd_first: "cstr p s \<Longrightarrow> rd p 0 = Some (if s = [] then NUL else hd s)"
  by (cases s) (auto simp: cstr_simps)

text \<open>The comparison splits off the longest common prefix.\<close>

lemma match_option_run:
  "cstr p s \<Longrightarrow> cstr q t \<Longrightarrow> \<exists>u p' s' q' t'. match_option p q = Some (p', q') \<and> s = u @ s' \<and> t = u @ t' \<and> cstr p' s' \<and> cstr q' t' \<and>
     (t' = [] \<or> s' = [] \<or> hd s' \<noteq> hd t')"
proof (induction s arbitrary: p q t)
  case Nil
  then obtain r d q1 where "p = NUL # r" "q = d # q1" by (cases t) (auto simp: cstr_simps)
  with Nil show ?case by (intro exI [of _ "[]"] exI [of _ p] exI [of _ "[]"] exI [of _ q] exI [of _ t]) auto
next
  case (Cons c s)
  then obtain b where b: "p = c # b" "cstr b s" "c \<noteq> NUL" by (auto simp: cstr_simps)
  obtain d q1 where q: "q = d # q1" using Cons.prems(2) by (cases t) (auto simp: cstr_simps)
  show ?case
  proof (cases "t \<noteq> [] \<and> hd t = c")
    case True
    then obtain t1 where t: "t = c # t1" by (cases t) auto
    then have d: "d = c" "cstr q1 t1" using Cons.prems(2) q by (auto simp: cstr_simps)
    from Cons.IH [OF b(2) d(2)] obtain u p' s' q' t' where "match_option b q1 = Some (p', q')" "s = u @ s'" "t1 = u @ t'" "cstr p' s'" "cstr q' t'"
      "t' = [] \<or> s' = [] \<or> hd s' \<noteq> hd t'" by blast
    then show ?thesis using b q d t by (intro exI [of _ "c # u"] exI [of _ p'] exI [of _ s'] exI [of _ q'] exI [of _ t']) simp
  next
    case False
    then have "\<not> (d \<noteq> NUL \<and> c = d)" using Cons.prems(2) q by (cases t) (auto simp: cstr_simps)
    then have "match_option p q = Some (p, q)" using b q by auto
    with False Cons.prems show ?thesis by (intro exI [of _ "[]"] exI [of _ p] exI [of _ "c # s"] exI [of _ q] exI [of _ t]) auto
  qed
qed

lemma copy_value_run:
  assumes "cstr p s" and "0 < bufsize" and "bufsize \<le> int (length b)"
  defines "v \<equiv> takeWhile (\<lambda>c. \<not> myisspace c) s" and "m \<equiv> nat (bufsize - 1)"
  shows "\<exists>b'. copy_value (int k) bufsize b p = Some (int (k + length v), b') \<and> length b' = length b \<and>
    take (min (k + length v) m) b' = take (min k m) b @ take (m - k) v"
  using assms(1,3) unfolding v_def
proof (induction s arbitrary: p b k)
  case Nil
  then show ?case by (auto simp: cstr_simps)
next
  case (Cons c s)
  then obtain q where q: "p = c # q" "cstr q s" "c \<noteq> NUL" by (auto simp: cstr_simps)
  show ?case
  proof (cases "myisspace c")
    case True
    then show ?thesis using q by simp
  next
    case False
    define b1 where "b1 = (if int k < bufsize - 1 then b[k := c] else b)"
    have lb: "length b1 = length b" by (simp add: b1_def)
    have run: "copy_value (int k) bufsize b p = copy_value (int (Suc k)) bufsize b1 q"
      using q False Cons.prems(2) by (simp add: b1_def wr_def add.commute)
    obtain b' where b': "copy_value (int (Suc k)) bufsize b1 q = Some (int (Suc k + length (takeWhile (\<lambda>c. \<not> myisspace c) s)), b')"
      "length b' = length b1"
      "take (min (Suc k + length (takeWhile (\<lambda>c. \<not> myisspace c) s)) m) b' = take (min (Suc k) m) b1 @ take (m - Suc k) (takeWhile (\<lambda>c. \<not> myisspace c) s)"
      using Cons.IH [OF q(2), of b1 "Suc k"] Cons.prems(2) lb by auto
    have "take (min (Suc k) m) b1 @ take (m - Suc k) (takeWhile (\<lambda>c. \<not> myisspace c) s) =
        take (min k m) b @ take (m - k) (c # takeWhile (\<lambda>c. \<not> myisspace c) s)"
    proof (cases "k < m")
      case True
      then have "int k < bufsize - 1" "k < length b" "min (Suc k) m = Suc k" "min k m = k" "m - k = Suc (m - Suc k)" using Cons.prems(2) by (auto simp: m_def)
      with True show ?thesis by (simp add: b1_def take_Suc_conv_app_nth)
    qed (simp add: b1_def m_def)
    with run b' lb False show ?thesis by simp
  qed
qed

text \<open>The value of an option in a list of words: what follows \<open>option=\<close> in the first word that starts so.\<close>

definition option_value :: "char list \<Rightarrow> char list \<Rightarrow> char list option" where
  "option_value opt s = map_option (drop (Suc (length opt))) (find (\<lambda>w. take (Suc (length opt)) w = opt @ ''='') (cmd_words s))"

definition plain_option :: "char list \<Rightarrow> bool" where
  "plain_option opt \<longleftrightarrow> (\<forall>c\<in>set opt. \<not> myisspace c)"

text \<open>One word: what the comparison says about it, and where it leaves the pointer.\<close>

lemma match_word:
  assumes "cstr p s" and "cstr q opt" and "plain_option opt" and "s \<noteq> []" and "\<not> myisspace (hd s)"
  defines "w \<equiv> takeWhile (\<lambda>c. \<not> myisspace c) s"
  shows "\<exists>p' s' q' t'. match_option p q = Some (p', q') \<and> cstr p' s' \<and> cstr q' t' \<and>
    dropWhile (\<lambda>c. \<not> myisspace c) s' = dropWhile (\<lambda>c. \<not> myisspace c) s \<and>
    (t' = [] \<and> s' \<noteq> [] \<and> hd s' = CHR ''='' \<longleftrightarrow> take (Suc (length opt)) w = opt @ ''='') \<and>
    (t' = [] \<and> (s' = [] \<or> myisspace (hd s')) \<longleftrightarrow> w = opt) \<and>
    (t' = [] \<longrightarrow> takeWhile (\<lambda>c. \<not> myisspace c) (tl s') = drop (Suc (length opt)) w \<or> s' = [] \<or> myisspace (hd s'))"
proof -
  let ?nb = "\<lambda>c. \<not> myisspace c"
  obtain u p' s' q' t' where m: "match_option p q = Some (p', q')" "s = u @ s'" "opt = u @ t'" "cstr p' s'" "cstr q' t'"
    "t' = [] \<or> s' = [] \<or> hd s' \<noteq> hd t'" using match_option_run [OF assms(1,2)] by blast
  have u: "\<forall>c\<in>set u. ?nb c" using assms(3) m(3) by (simp add: plain_option_def)
  have w: "w = u @ takeWhile ?nb s'" using u by (simp add: w_def m(2) takeWhile_append)
  have d: "dropWhile ?nb s' = dropWhile ?nb s" using u by (simp add: m(2) dropWhile_append)
  have eq: "?nb (CHR ''='')" by (simp add: myisspace_def)
  have "t' = [] \<and> s' \<noteq> [] \<and> hd s' = CHR ''='' \<longleftrightarrow> take (Suc (length opt)) w = opt @ ''=''"
  proof (cases t')
    case Nil
    then show ?thesis using m(3) w eq by (cases s') (auto simp: take_Suc split: if_splits)
  next
    case (Cons d t1)
    then have "take (Suc (length opt)) w \<noteq> opt @ ''=''" using m(3,6) w by (cases s') (auto simp: take_Suc split: if_splits)
    with Cons show ?thesis by simp
  qed
  moreover have "t' = [] \<and> (s' = [] \<or> myisspace (hd s')) \<longleftrightarrow> w = opt"
    using m(3,6) w assms(3) by (cases s'; cases t') auto
  moreover have "t' = [] \<longrightarrow> takeWhile ?nb (tl s') = drop (Suc (length opt)) w \<or> s' = [] \<or> myisspace (hd s')"
    using m(3) w by (cases s') auto
  ultimately show ?thesis using m(1,4,5) d by blast
qed

lemma cmd_words_step: "dropWhile myisspace s = r \<Longrightarrow> r \<noteq> [] \<Longrightarrow>
    cmd_words s = takeWhile (\<lambda>c. \<not> myisspace c) r # cmd_words (dropWhile (\<lambda>c. \<not> myisspace c) r)"
  by (subst cmd_words.simps) (simp add: Let_def)

lemma find_option_run:
  assumes "cstr p s" and "cstr q opt" and "plain_option opt" and "0 < bufsize" and "bufsize \<le> int (length buffer)"
  shows "\<exists>b. find_option_from q buffer bufsize p = Some (case option_value opt s of None \<Rightarrow> -1 | Some v \<Rightarrow> int (length v), b) \<and>
    length b = length buffer \<and> (case option_value opt s of None \<Rightarrow> b = buffer | Some v \<Rightarrow> cstr b (take (nat (bufsize - 1)) v))"
  using assms(1)
proof (induction s arbitrary: p rule: cmd_words.induct)
  case (1 s)
  let ?nb = "\<lambda>c. \<not> myisspace c"
  define r where "r = dropWhile myisspace s"
  obtain p1 where p1: "skip_blanks p = Some p1" "cstr p1 r" using skip_blanks_run [OF "1.prems"] by (auto simp: r_def)
  note first = rd_first [OF "1.prems"] and first1 = rd_first [OF p1(2)]
  have nn: "NUL \<notin> set s" "NUL \<notin> set r" using "1.prems" p1(2) by (auto simp: cstr_def)
  show ?case
  proof (cases "r = []")
    case True
    then have "find_option_from q buffer bufsize p = Some (-1, buffer)"
      using first first1 p1(1) by (subst find_option_from.simps) auto
    moreover have "option_value opt s = None" using True by (simp add: option_value_def cmd_words.simps [of s] r_def)
    ultimately show ?thesis by simp
  next
    case False
    then have ne: "s \<noteq> []" "?nb (hd r)" using hd_dropWhile [of myisspace s] by (auto simp: r_def)
    define w where "w = takeWhile ?nb r"
    have words: "cmd_words s = w # cmd_words (dropWhile ?nb r)" unfolding w_def by (rule cmd_words_step [OF r_def [symmetric] False])
    obtain p' s' q' t' where m: "match_option p1 q = Some (p', q')" "cstr p' s'" "cstr q' t'"
        "dropWhile ?nb s' = dropWhile ?nb r" "t' = [] \<and> s' \<noteq> [] \<and> hd s' = CHR ''='' \<longleftrightarrow> take (Suc (length opt)) w = opt @ ''=''"
        "t' = [] \<longrightarrow> takeWhile ?nb (tl s') = drop (Suc (length opt)) w \<or> s' = [] \<or> myisspace (hd s')"
      using match_word [OF p1(2) assms(2,3) False ne(2)] unfolding w_def by blast
    note firsts = rd_first [OF m(2)] rd_first [OF m(3)]
    have start: "rd p 0 \<noteq> Some NUL" "rd p1 0 \<noteq> Some NUL"
      using first first1 ne(1) False nn by auto (metis hd_in_set)+
    define hit where "hit \<longleftrightarrow> t' = [] \<and> s' \<noteq> [] \<and> hd s' = CHR ''=''"
    have q0: "(if t' = [] then NUL else hd t') = NUL \<longleftrightarrow> t' = []" using m(3) by (cases t') (auto simp: cstr_def)
    have body: "find_option_from q buffer bufsize p =
        (if hit then Option.bind (copy_value 0 bufsize buffer (drop 1 p')) (\<lambda>(len, b). map_option (Pair len) (wr b (nat (if len < bufsize then len else bufsize - 1)) NUL))
         else Option.bind (skip_word p') (find_option_from q buffer bufsize))"
      using first first1 start p1(1) m(1) firsts q0 assms(4) by (subst find_option_from.simps) (auto simp: hit_def)
    show ?thesis
    proof (cases hit)
      case True
      then obtain s2 where s2: "s' = CHR ''='' # s2" by (cases s') (auto simp: hit_def)
      then obtain p2 where p2: "p' = CHR ''='' # p2" "cstr p2 s2" using m(2) by (auto simp: cstr_simps)
      have v: "option_value opt s = Some (takeWhile ?nb s2)"
        using True m(5,6) words s2 by (auto simp: option_value_def hit_def myisspace_def)
      let ?v = "takeWhile ?nb s2" and ?m = "nat (bufsize - 1)"
      obtain b' where b': "copy_value 0 bufsize buffer p2 = Some (int (length ?v), b')" "length b' = length buffer"
          "take (min (length ?v) ?m) b' = take ?m ?v"
        using copy_value_run [OF p2(2) assms(4,5), of 0] by auto
      have at: "nat (if int (length ?v) < bufsize then int (length ?v) else bufsize - 1) = min (length ?v) ?m" using assms(4) by auto
      have lt: "min (length ?v) ?m < length b'" using assms(4,5) b'(2) by auto
      then have "wr b' (min (length ?v) ?m) NUL = Some (take ?m ?v @ NUL # drop (Suc (min (length ?v) ?m)) b')"
        using b'(3) by (simp add: wr_def upd_conv_take_nth_drop)
      moreover have "NUL \<notin> set (take ?m ?v)" using p2(2) by (auto simp: cstr_def dest!: in_set_takeD set_takeWhileD)
      moreover have "length (take ?m ?v @ NUL # drop (Suc (min (length ?v) ?m)) b') = length buffer" using lt b'(2) by auto
      ultimately show ?thesis using body True b'(1) p2(1) v at by (auto simp del: append_take_drop_id)
    next
      case False
      obtain p2 where p2: "skip_word p' = Some p2" "cstr p2 (dropWhile ?nb r)" using skip_word_run [OF m(2)] m(4) by auto
      have "option_value opt s = option_value opt (dropWhile ?nb r)" using False m(5) words by (simp add: option_value_def hit_def)
      with "1.IH" [OF r_def \<open>r \<noteq> []\<close> p2(2)] body False p2(1) show ?thesis by simp
    qed
  qed
qed

text \<open>
  C33: Options. \<open>cmdline_find_option\<close> agrees with looking the option up in the list of the words of the command
  line: it returns the length of the value in the first word that is the option, an equals sign and
  the value (-1 when there is none, and nothing is written), and leaves the value in the buffer, cut to
  its size, with a terminator.
\<close>
theorem cmdline_option_value:
  assumes "cstr p s" and "cstr q opt" and "plain_option opt" and "0 < bufsize" and "bufsize \<le> int (length buffer)"
  shows "\<exists>b. cmdline_find_option (Some p) q buffer bufsize =
      Some (case option_value opt s of None \<Rightarrow> -1 | Some v \<Rightarrow> int (length v), b) \<and> length b = length buffer \<and>
    (case option_value opt s of None \<Rightarrow> b = buffer | Some v \<Rightarrow> cstr b (take (nat (bufsize - 1)) v))"
  using find_option_run [OF assms] by (simp add: cmdline_find_option_def)

theorem cmdline_option_value_witness:
  "\<exists>b. cmdline_find_option (Some (''quiet  root=/dev/sda rw'' @ [NUL])) (''root'' @ [NUL]) (replicate 5 CHR ''x'') 5 = Some (8, b) \<and> cstr b ''/dev''"
proof -
  let ?s = "''quiet  root=/dev/sda rw''"
  have c: "cstr (?s @ [NUL]) ?s" "cstr (''root'' @ [NUL]) ''root''" "plain_option ''root''"
    by (simp_all add: cstr_def plain_option_def myisspace_def)
  have v: "option_value ''root'' ?s = Some ''/dev/sda''"
    by (simp add: option_value_def cmd_words.simps myisspace_def)
  from cmdline_option_value [OF c, of 5 "replicate 5 CHR ''x''"] show ?thesis unfolding v by simp blast
qed

text \<open>
  Flags: \<open>cmdline_find_option_bool\<close> says whether the option is one of the words.
\<close>
lemma cmdline_flag_word:
  assumes "cstr p s" and "cstr q opt" and "plain_option opt"
  shows "cmdline_find_option_bool (Some p) q = Some (opt \<in> set (cmd_words s))"
proof -
  have "find_flag_from q p = Some (opt \<in> set (cmd_words s))"
    using assms(1)
  proof (induction s arbitrary: p rule: cmd_words.induct)
    case (1 s)
    let ?nb = "\<lambda>c. \<not> myisspace c"
    define r where "r = dropWhile myisspace s"
    obtain p1 where p1: "skip_blanks p = Some p1" "cstr p1 r" using skip_blanks_run [OF "1.prems"] by (auto simp: r_def)
    note first = rd_first [OF "1.prems"] and first1 = rd_first [OF p1(2)]
    have nn: "NUL \<notin> set s" "NUL \<notin> set r" using "1.prems" p1(2) by (auto simp: cstr_def)
    show ?case
    proof (cases "r = []")
      case True
      then have "find_flag_from q p = Some False" using first first1 p1(1) by (subst find_flag_from.simps) auto
      then show ?thesis using True by (simp add: cmd_words.simps [of s] r_def)
    next
      case False
      then have ne: "s \<noteq> []" "?nb (hd r)" using hd_dropWhile [of myisspace s] by (auto simp: r_def)
      define w where "w = takeWhile ?nb r"
      have words: "cmd_words s = w # cmd_words (dropWhile ?nb r)" unfolding w_def by (rule cmd_words_step [OF r_def [symmetric] False])
      obtain p' s' q' t' where m: "match_option p1 q = Some (p', q')" "cstr p' s'" "cstr q' t'"
          "dropWhile ?nb s' = dropWhile ?nb r" "t' = [] \<and> (s' = [] \<or> myisspace (hd s')) \<longleftrightarrow> w = opt"
        using match_word [OF p1(2) assms(2,3) False ne(2)] unfolding w_def by blast
      note firsts = rd_first [OF m(2)] rd_first [OF m(3)]
      have start: "rd p 0 \<noteq> Some NUL" "rd p1 0 \<noteq> Some NUL"
        using first first1 ne(1) False nn by auto (metis hd_in_set)+
      have q0: "(if t' = [] then NUL else hd t') = NUL \<longleftrightarrow> t' = []" using m(3) by (cases t') (auto simp: cstr_def)
      have s0: "(if s' = [] then NUL else hd s') = NUL \<or> myisspace (if s' = [] then NUL else hd s') \<longleftrightarrow> s' = [] \<or> myisspace (hd s')"
        using m(2) by (cases s') (auto simp: cstr_def)
      have body: "find_flag_from q p = (if w = opt then Some True else Option.bind (skip_word p') (find_flag_from q))"
        using first first1 start p1(1) m(1,5) firsts q0 s0 by (subst find_flag_from.simps) auto
      obtain p2 where p2: "skip_word p' = Some p2" "cstr p2 (dropWhile ?nb r)" using skip_word_run [OF m(2)] m(4) by auto
      from "1.IH" [OF r_def \<open>r \<noteq> []\<close> p2(2)] body p2(1) words show ?thesis by auto
    qed
  qed
  then show ?thesis by (simp add: cmdline_find_option_bool_def)
qed

end
