(* ===== verification/Keyboard.thy ===== *)
theory Keyboard
  imports Queue_Iface CString_Copy
begin

text \<open>
  The keyboard: scan codes to characters (\<open>drivers/input/keyboard/8042/keyboard.c\<close>, built for x86), the queue
  for blocking reads and the input line of the shell (\<open>drivers/input/keyboard/kbd_common.c\<close>). The calls
  into other parts (\<open>vt100_putc\<close>, \<open>execute_shell_command\<close>, \<open>print_prompt\<close>, \<open>tty_switch\<close>, \<open>printk\<close>) are a list of
  events in their order; what \<open>arch_get_scancode\<close> returns is an argument.
\<close>

definition INPUT_BUFFER_SIZE :: nat where "INPUT_BUFFER_SIZE = 256"
definition KBD_QUEUE_SIZE :: nat where "KBD_QUEUE_SIZE = 256"

datatype kbd_event = Putc char | Execute "char list" | Prompt | Switch_tty int | Current_tty int

record kbd =
  k_buffer :: "char list"
  k_index :: nat
  k_echo :: bool
  k_enabled :: bool
  kbd_queue :: "char list"
  kbd_head :: nat
  kbd_tail :: nat
  shift_state :: bool
  k_events :: "kbd_event list"

definition kbd_boot :: kbd where
  "kbd_boot = \<lparr>k_buffer = replicate INPUT_BUFFER_SIZE NUL, k_index = 0, k_echo = True, k_enabled = True,
     kbd_queue = replicate KBD_QUEUE_SIZE NUL, kbd_head = 0, kbd_tail = 0, shift_state = False, k_events = []\<rparr>"

definition emit :: "kbd_event list \<Rightarrow> kbd \<Rightarrow> kbd" where
  "emit es s = s\<lparr>k_events := k_events s @ es\<rparr>"

text \<open>\<open>get_char\<close> waits while the queue is empty; None is a wait without an end.\<close>

definition get_char :: "kbd \<Rightarrow> (char \<times> kbd) option" where
  "get_char s =
     (if kbd_head s = kbd_tail s then None
      else do { c \<leftarrow> rd (kbd_queue s) (kbd_tail s); Some (c, s\<lparr>kbd_tail := (kbd_tail s + 1) mod KBD_QUEUE_SIZE\<rparr>) })"

definition kbd_put :: "char \<Rightarrow> kbd \<Rightarrow> kbd option" where
  "kbd_put c s =
     (let nxt = (kbd_head s + 1) mod KBD_QUEUE_SIZE
      in if nxt \<noteq> kbd_tail s then do { q \<leftarrow> wr (kbd_queue s) (kbd_head s) c; Some (s\<lparr>kbd_queue := q, kbd_head := nxt\<rparr>) }
         else Some s)"

definition handle_erase :: "kbd \<Rightarrow> kbd" where
  "handle_erase s =
     (if k_index s > 0 then emit [Putc (CHR 0x08), Putc (CHR '' ''), Putc (CHR 0x08)] (s\<lparr>k_index := k_index s - 1\<rparr>) else s)"

text \<open>The line is passed as the characters in front of the terminator that was just written.\<close>

definition kbd_enter :: "kbd \<Rightarrow> kbd option" where
  "kbd_enter s =
     do { let s = emit [Putc (CHR 0x0A)] s;
          b \<leftarrow> wr (k_buffer s) (k_index s) NUL;
          let s = s\<lparr>k_buffer := b\<rparr>;
          let s = (if k_index s > 0 then emit [Execute (c_string b)] s else s);
          Some ((emit [Prompt] s)\<lparr>k_index := 0\<rparr>) }"

definition kbd_printable :: "char \<Rightarrow> bool" where
  "kbd_printable c \<longleftrightarrow> 32 \<le> (of_char c :: nat) \<and> (of_char c :: nat) \<le> 126"

definition kbd_type :: "char \<Rightarrow> kbd \<Rightarrow> kbd option" where
  "kbd_type c s =
     (if kbd_printable c \<and> k_index s < INPUT_BUFFER_SIZE - 1
      then do { b \<leftarrow> wr (k_buffer s) (k_index s) c;
                let s = s\<lparr>k_buffer := b, k_index := k_index s + 1\<rparr>;
                Some (if k_echo s then emit [Putc c] s else s) }
      else Some s)"

definition kbd_process_char :: "char \<Rightarrow> kbd \<Rightarrow> kbd option" where
  "kbd_process_char c s =
     (if \<not> k_enabled s \<or> c = NUL then Some s
      else do { s \<leftarrow> kbd_put c s;
                if c = CHR 0x0A \<or> c = CHR 0x0D then kbd_enter s
                else if c = CHR 0x08 \<or> c = CHR 0x7F then Some (handle_erase s)
                else kbd_type c s })"

subsection \<open>Scan codes\<close>

definition KBD_F1 :: u8 where "KBD_F1 = 0x3B"
definition KBD_F7 :: u8 where "KBD_F7 = 0x41"

definition kbd_map :: "char list" where
  "kbd_map = [NUL, CHR 0x1B] @ ''1234567890-='' @ [CHR 0x08] @
     [CHR 0x09] @ ''qwertyuiop[]'' @ [CHR 0x0A] @
     [NUL] @ ''asdfghjkl;'' @ [CHR 0x27, CHR 0x60, NUL] @
     [CHR 0x5C] @ ''zxcvbnm,./'' @ [NUL] @ ''*'' @ [NUL] @ '' ''"

definition kbd_char :: "u8 \<Rightarrow> bool \<Rightarrow> char option" where
  "kbd_char scancode shift =
     (if unat scancode < length kbd_map
      then do { c \<leftarrow> rd kbd_map (unat scancode);
                Some (if shift \<and> 97 \<le> (of_char c :: nat) \<and> (of_char c :: nat) \<le> 122 then char_of ((of_char c :: nat) - 32) else c) }
      else Some NUL)"

definition keyboard_handler :: "u8 \<Rightarrow> kbd \<Rightarrow> kbd option" where
  "keyboard_handler scancode s =
     (if scancode = 0 then Some s
      else if KBD_F1 \<le> scancode \<and> scancode \<le> KBD_F7
      then (let target_tty = uint scancode - uint KBD_F1 + 1 in Some (emit [Switch_tty target_tty, Current_tty target_tty, Prompt] s))
      else if scancode AND 0x80 \<noteq> 0
      then (let released = scancode AND 0x7F in Some (if released = 0x2A \<or> released = 0x36 then s\<lparr>shift_state := False\<rparr> else s))
      else if scancode = 0x2A \<or> scancode = 0x36 then Some (s\<lparr>shift_state := True\<rparr>)
      else do { c \<leftarrow> kbd_char scancode (shift_state s); if c \<noteq> NUL then kbd_process_char c s else Some s })"

subsection \<open>The queue\<close>

definition kq_count :: "kbd \<Rightarrow> nat" where
  "kq_count s = (kbd_head s + KBD_QUEUE_SIZE - kbd_tail s) mod KBD_QUEUE_SIZE"

definition kq_content :: "kbd \<Rightarrow> char list" where
  "kq_content s = ring_list (kbd_queue s) (kbd_tail s) (kq_count s)"

definition kq_wf :: "kbd \<Rightarrow> bool" where
  "kq_wf s \<longleftrightarrow> length (kbd_queue s) = KBD_QUEUE_SIZE \<and> kbd_head s < KBD_QUEUE_SIZE \<and> kbd_tail s < KBD_QUEUE_SIZE"

lemma kq_frame [simp]:
  "kq_wf (s\<lparr>k_index := i\<rparr>) = kq_wf s" "kq_wf (s\<lparr>k_buffer := b\<rparr>) = kq_wf s" "kq_wf (s\<lparr>k_events := e\<rparr>) = kq_wf s" "kq_wf (s\<lparr>shift_state := h\<rparr>) = kq_wf s"
  "kq_content (s\<lparr>k_index := i\<rparr>) = kq_content s" "kq_content (s\<lparr>k_buffer := b\<rparr>) = kq_content s" "kq_content (s\<lparr>k_events := e\<rparr>) = kq_content s"
  by (simp_all add: kq_wf_def kq_content_def kq_count_def)

lemma kq_head: "kq_wf s \<Longrightarrow> kbd_head s = (kbd_tail s + kq_count s) mod KBD_QUEUE_SIZE"
  by (simp add: kq_wf_def kq_count_def mod_add_right_eq)

lemma kq_full: "kq_wf s \<Longrightarrow> (kbd_head s + 1) mod KBD_QUEUE_SIZE = kbd_tail s \<longleftrightarrow> kq_count s = KBD_QUEUE_SIZE - 1"
  unfolding kq_wf_def kq_count_def KBD_QUEUE_SIZE_def by (cases "kbd_tail s \<le> kbd_head s") (auto simp: mod_if)

lemma kq_empty: "kq_wf s \<Longrightarrow> kbd_head s = kbd_tail s \<longleftrightarrow> kq_count s = 0"
  unfolding kq_wf_def kq_count_def KBD_QUEUE_SIZE_def by (cases "kbd_tail s \<le> kbd_head s") (auto simp: mod_if)

lemma kq_succ: "kq_wf s \<Longrightarrow> kq_count s < KBD_QUEUE_SIZE - 1 \<Longrightarrow>
    ((kbd_head s + 1) mod KBD_QUEUE_SIZE + KBD_QUEUE_SIZE - kbd_tail s) mod KBD_QUEUE_SIZE = Suc (kq_count s)"
  unfolding kq_wf_def kq_count_def KBD_QUEUE_SIZE_def by (cases "kbd_tail s \<le> kbd_head s") (auto simp: mod_if split: if_splits)

lemma kq_pred: "kq_wf s \<Longrightarrow> kq_count s = Suc n \<Longrightarrow>
    (kbd_head s + KBD_QUEUE_SIZE - (kbd_tail s + 1) mod KBD_QUEUE_SIZE) mod KBD_QUEUE_SIZE = n"
  unfolding kq_wf_def kq_count_def KBD_QUEUE_SIZE_def by (cases "kbd_tail s \<le> kbd_head s") (auto simp: mod_if split: if_splits)

lemma kbd_put_law:
  assumes "kq_wf s"
  shows "\<exists>s'. kbd_put c s = Some s' \<and> kq_wf s' \<and>
    kq_content s' = (if length (kq_content s) < KBD_QUEUE_SIZE - 1 then kq_content s @ [c] else kq_content s) \<and>
    s' = s\<lparr>kbd_queue := kbd_queue s', kbd_head := kbd_head s'\<rparr>"
proof (cases "kq_count s = KBD_QUEUE_SIZE - 1")
  case True
  with kq_full [OF assms] assms show ?thesis by (simp add: kbd_put_def kq_content_def)
next
  case False
  moreover have "kq_count s < KBD_QUEUE_SIZE" by (simp add: kq_count_def KBD_QUEUE_SIZE_def)
  ultimately have lt: "kq_count s < KBD_QUEUE_SIZE - 1" by simp
  define s' where "s' = s\<lparr>kbd_queue := (kbd_queue s)[kbd_head s := c], kbd_head := (kbd_head s + 1) mod KBD_QUEUE_SIZE\<rparr>"
  have run: "kbd_put c s = Some s'" using kq_full [OF assms] False assms by (simp add: kbd_put_def s'_def kq_wf_def wr_def Let_def)
  have n: "kq_count s' = Suc (kq_count s)" using kq_succ [OF assms lt] by (simp add: kq_count_def s'_def)
  have "kq_content s' = ring_list ((kbd_queue s)[(kbd_tail s + kq_count s) mod length (kbd_queue s) := c]) (kbd_tail s) (Suc (kq_count s))"
    using kq_head [OF assms] assms by (simp add: kq_content_def n) (simp add: s'_def kq_wf_def)
  also have "\<dots> = kq_content s @ [c]" unfolding kq_content_def by (rule ring_list_put) (use assms lt in \<open>simp add: kq_wf_def\<close>)
  finally have "kq_content s' = kq_content s @ [c]" .
  moreover have "kq_wf s'" using assms by (simp add: kq_wf_def s'_def KBD_QUEUE_SIZE_def)
  moreover have "s' = s\<lparr>kbd_queue := kbd_queue s', kbd_head := kbd_head s'\<rparr>" by (simp add: s'_def)
  ultimately show ?thesis using run lt by (simp add: kq_content_def)
qed

lemma get_char_law:
  assumes "kq_wf s" and "kq_content s = c # q"
  shows "\<exists>s'. get_char s = Some (c, s') \<and> kq_wf s' \<and> kq_content s' = q"
proof -
  have n: "kq_count s = Suc (length q)" using assms(2) by (metis kq_content_def length_Cons length_ring_list)
  define s' where "s' = s\<lparr>kbd_tail := (kbd_tail s + 1) mod KBD_QUEUE_SIZE\<rparr>"
  have w: "length (kbd_queue s) = KBD_QUEUE_SIZE" "kbd_tail s < KBD_QUEUE_SIZE" using assms(1) by (simp_all add: kq_wf_def)
  have "c # q = kbd_queue s ! (kbd_tail s mod length (kbd_queue s)) # ring_list (kbd_queue s) (Suc (kbd_tail s) mod length (kbd_queue s)) (length q)"
    using assms(2) ring_list_front [of "kbd_queue s" "kbd_tail s" "length q"] by (simp add: kq_content_def n)
  then have cq: "kbd_queue s ! kbd_tail s = c" "ring_list (kbd_queue s) ((kbd_tail s + 1) mod KBD_QUEUE_SIZE) (length q) = q" using w by simp_all
  have "kq_count s' = length q" using kq_pred [OF assms(1) n] by (simp add: kq_count_def s'_def)
  then have "kq_content s' = q" using cq(2) by (simp add: kq_content_def s'_def)
  moreover have "kq_wf s'" using assms(1) by (simp add: kq_wf_def s'_def KBD_QUEUE_SIZE_def)
  moreover have "get_char s = Some (c, s')" using kq_empty [OF assms(1)] n cq(1) w by (simp add: get_char_def s'_def rd_def)
  ultimately show ?thesis by blast
qed

interpretation keys: fifo kq_wf kq_content "KBD_QUEUE_SIZE - 1" kbd_put get_char
proof
  fix s c assume "kq_wf s" "length (kq_content s) < KBD_QUEUE_SIZE - 1"
  with kbd_put_law [of s c] show "\<exists>s'. kbd_put c s = Some s' \<and> kq_wf s' \<and> kq_content s' = kq_content s @ [c]" by auto
qed (rule get_char_law)

subsection \<open>The input line\<close>

definition k_line :: "kbd \<Rightarrow> char list" where
  "k_line s = take (k_index s) (k_buffer s)"

definition kbd_ok :: "kbd \<Rightarrow> bool" where
  "kbd_ok s \<longleftrightarrow> length (k_buffer s) = INPUT_BUFFER_SIZE \<and> k_index s < INPUT_BUFFER_SIZE \<and> NUL \<notin> set (k_line s) \<and> kq_wf s"

text \<open>The reference: a line that grows at its end, and what the shell sees of it.\<close>

definition edit_key :: "bool \<Rightarrow> char \<Rightarrow> char list \<Rightarrow> char list \<times> kbd_event list" where
  "edit_key echo c line =
     (if c = CHR 0x0A \<or> c = CHR 0x0D then ([], [Putc (CHR 0x0A)] @ (if line \<noteq> [] then [Execute line] else []) @ [Prompt])
      else if c = CHR 0x08 \<or> c = CHR 0x7F
      then (if line \<noteq> [] then (butlast line, [Putc (CHR 0x08), Putc (CHR '' ''), Putc (CHR 0x08)]) else (line, []))
      else if kbd_printable c \<and> length line < 255 then (line @ [c], if echo then [Putc c] else [])
      else (line, []))"

fun edit_keys :: "bool \<Rightarrow> char list \<Rightarrow> char list \<Rightarrow> char list \<times> kbd_event list" where
  "edit_keys echo [] line = (line, [])"
| "edit_keys echo (c # cs) line =
     (let (line1, es) = edit_key echo c line; (line2, es') = edit_keys echo cs line1 in (line2, es @ es'))"

primrec kbd_chars :: "char list \<Rightarrow> kbd \<Rightarrow> kbd option" where
  "kbd_chars [] s = Some s"
| "kbd_chars (c # cs) s = Option.bind (kbd_process_char c s) (kbd_chars cs)"

lemma kbd_put_frame:
  assumes "kbd_ok s"
  shows "\<exists>s'. kbd_put c s = Some s' \<and> kbd_ok s' \<and> k_line s' = k_line s \<and> k_events s' = k_events s \<and> k_echo s' = k_echo s \<and> k_enabled s' = k_enabled s \<and> shift_state s' = shift_state s \<and>
    kq_content s' = (if length (kq_content s) < 255 then kq_content s @ [c] else kq_content s)"
proof -
  have "kq_wf s" using assms by (simp add: kbd_ok_def)
  from kbd_put_law [OF this, of c] obtain q h where s': "kbd_put c s = Some (s\<lparr>kbd_queue := q, kbd_head := h\<rparr>)" "kq_wf (s\<lparr>kbd_queue := q, kbd_head := h\<rparr>)"
    "kq_content (s\<lparr>kbd_queue := q, kbd_head := h\<rparr>) = (if length (kq_content s) < KBD_QUEUE_SIZE - 1 then kq_content s @ [c] else kq_content s)"
    by metis
  then show ?thesis using assms by (simp add: kbd_ok_def k_line_def KBD_QUEUE_SIZE_def)
qed

lemma kbd_step:
  assumes "kbd_ok s" and "k_enabled s" and "c \<noteq> NUL"
  shows "\<exists>s'. kbd_process_char c s = Some s' \<and> kbd_ok s' \<and> k_enabled s' \<and> k_echo s' = k_echo s \<and> shift_state s' = shift_state s \<and>
    k_line s' = fst (edit_key (k_echo s) c (k_line s)) \<and> k_events s' = k_events s @ snd (edit_key (k_echo s) c (k_line s)) \<and>
    kq_content s' = (if length (kq_content s) < 255 then kq_content s @ [c] else kq_content s)"
proof -
  obtain s1 where s1: "kbd_put c s = Some s1" "kbd_ok s1" "k_line s1 = k_line s" "k_events s1 = k_events s" "k_echo s1 = k_echo s" "k_enabled s1"
      "shift_state s1 = shift_state s" "kq_content s1 = (if length (kq_content s) < 255 then kq_content s @ [c] else kq_content s)"
    using kbd_put_frame [OF assms(1), of c] assms(2) by auto
  have run: "kbd_process_char c s = (if c = CHR 0x0A \<or> c = CHR 0x0D then kbd_enter s1
      else if c = CHR 0x08 \<or> c = CHR 0x7F then Some (handle_erase s1) else kbd_type c s1)"
    using assms(2,3) s1(1) by (simp add: kbd_process_char_def)
  have ok: "length (k_buffer s1) = 256" "k_index s1 < 256" "NUL \<notin> set (k_line s1)" "kq_wf s1" using s1(2) by (simp_all add: kbd_ok_def INPUT_BUFFER_SIZE_def)
  have ll: "length (k_line s1) = k_index s1" "k_line s1 = [] \<longleftrightarrow> k_index s1 = 0" using ok(1,2) by (auto simp: k_line_def)
  consider (enter) "c = CHR 0x0A \<or> c = CHR 0x0D" | (erase) "\<not> (c = CHR 0x0A \<or> c = CHR 0x0D)" "c = CHR 0x08 \<or> c = CHR 0x7F"
    | (typed) "\<not> (c = CHR 0x0A \<or> c = CHR 0x0D)" "\<not> (c = CHR 0x08 \<or> c = CHR 0x7F)" by blast
  then show ?thesis
  proof cases
    case enter
    let ?b = "(k_buffer s1)[k_index s1 := NUL]"
    have "?b = k_line s1 @ NUL # drop (Suc (k_index s1)) (k_buffer s1)" using ok(1,2) by (simp add: k_line_def upd_conv_take_nth_drop)
    then have "cstr ?b (k_line s1)" using ok(3) by (simp add: cstr_def)
    then have "c_string ?b = k_line s1" by (rule c_string_cstr)
    then have r: "kbd_process_char c s = Some (s1\<lparr>k_buffer := ?b, k_index := 0, k_events := k_events s1 @ snd (edit_key (k_echo s) c (k_line s1))\<rparr>)"
      using enter ok(1,2) ll(2) unfolding run by (auto simp: kbd_enter_def emit_def wr_def Let_def edit_key_def)
    show ?thesis unfolding r using s1 ok enter by (auto simp: kbd_ok_def k_line_def edit_key_def INPUT_BUFFER_SIZE_def)
  next
    case erase
    show ?thesis
    proof (cases "k_index s1 = 0")
      case True
      then have "kbd_process_char c s = Some s1" using run erase by (simp add: handle_erase_def)
      moreover have "k_line s = []" using True ll(2) s1(3) by simp
      ultimately show ?thesis using erase s1 by (simp add: edit_key_def)
    next
      case False
      let ?s2 = "s1\<lparr>k_buffer := k_buffer s1, k_index := k_index s1 - 1, k_events := k_events s1 @ [Putc (CHR 0x08), Putc (CHR '' ''), Putc (CHR 0x08)]\<rparr>"
      have r: "kbd_process_char c s = Some ?s2" using False run erase by (simp add: handle_erase_def emit_def)
      have l: "k_line ?s2 = butlast (k_line s1)" using ok(1,2) by (simp add: k_line_def butlast_take)
      have "NUL \<notin> set (butlast (k_line s1))" using ok(3) by (meson in_set_butlastD)
      then have "kbd_ok ?s2" using ok l by (simp add: kbd_ok_def INPUT_BUFFER_SIZE_def)
      moreover have "edit_key (k_echo s) c (k_line s) = (butlast (k_line s1), [Putc (CHR 0x08), Putc (CHR '' ''), Putc (CHR 0x08)])"
        using erase False ll(2) s1(3) by (simp add: edit_key_def)
      ultimately show ?thesis unfolding r using l s1 by simp
    qed
  next
    case typed
    show ?thesis
    proof (cases "kbd_printable c \<and> k_index s1 < 255")
      case True
      let ?s2 = "s1\<lparr>k_buffer := (k_buffer s1)[k_index s1 := c], k_index := k_index s1 + 1, k_events := k_events s1 @ (if k_echo s then [Putc c] else [])\<rparr>"
      have r: "kbd_process_char c s = Some ?s2" using True run typed ok(1,2) s1(5) by (simp add: kbd_type_def emit_def wr_def INPUT_BUFFER_SIZE_def)
      have l: "k_line ?s2 = k_line s1 @ [c]" using ok(1,2) by (simp add: k_line_def take_Suc_conv_app_nth)
      have "kbd_ok ?s2" using True ok l assms(3) by (simp add: kbd_ok_def INPUT_BUFFER_SIZE_def)
      then show ?thesis using r l True typed s1 ll(1) by (auto simp: edit_key_def)
    next
      case False
      then have "kbd_type c s1 = Some s1" by (auto simp: kbd_type_def INPUT_BUFFER_SIZE_def)
      then have "kbd_process_char c s = Some s1" using run typed by simp
      then show ?thesis using False typed s1 ll(1) by (auto simp: edit_key_def)
    qed
  qed
qed

text \<open>
  C34: Line editing. Whatever is typed, the shell gets the line a reference editor makes of it: characters are
  added at the end (255 at most), backspace and delete take the last one back, a line end hands the line
  over (an empty one is not), asks for the next and starts afresh; the console gets the echo in the same
  order. The same characters go into the queue for \<open>get_char\<close> while it has fewer than 255.
\<close>
theorem kbd_line_editing:
  assumes "kbd_ok s" and "k_enabled s" and "NUL \<notin> set cs"
  shows "\<exists>s'. kbd_chars cs s = Some s' \<and> kbd_ok s' \<and> k_line s' = fst (edit_keys (k_echo s) cs (k_line s)) \<and>
    k_events s' = k_events s @ snd (edit_keys (k_echo s) cs (k_line s)) \<and>
    kq_content s' = (if length (kq_content s) \<le> 255 then take 255 (kq_content s @ cs) else kq_content s)"
  using assms
proof (induction cs arbitrary: s)
  case Nil
  then show ?case by simp
next
  case (Cons c cs)
  obtain s1 where s1: "kbd_process_char c s = Some s1" "kbd_ok s1" "k_enabled s1" "k_echo s1 = k_echo s"
    "k_line s1 = fst (edit_key (k_echo s) c (k_line s))" "k_events s1 = k_events s @ snd (edit_key (k_echo s) c (k_line s))"
    "kq_content s1 = (if length (kq_content s) < 255 then kq_content s @ [c] else kq_content s)"
    using kbd_step [OF Cons.prems(1,2), of c] Cons.prems(3) by auto
  from Cons.prems(3) have "NUL \<notin> set cs" by simp
  from Cons.IH [OF s1(2,3) this] obtain s' where s': "kbd_chars cs s1 = Some s'" "kbd_ok s'" "k_line s' = fst (edit_keys (k_echo s) cs (k_line s1))"
    "k_events s' = k_events s1 @ snd (edit_keys (k_echo s) cs (k_line s1))"
    "kq_content s' = (if length (kq_content s1) \<le> 255 then take 255 (kq_content s1 @ cs) else kq_content s1)" using s1(4) by auto
  have "kq_content s' = (if length (kq_content s) \<le> 255 then take 255 (kq_content s @ c # cs) else kq_content s)"
    using s1(7) s'(5) by (cases "length (kq_content s) < 255") (auto simp: take_Cons')
  then show ?case using s1 s' by (auto simp: case_prod_unfold Let_def)
qed

lemma kbd_boot_ok: "kbd_ok kbd_boot" "k_enabled kbd_boot" "k_echo kbd_boot" "k_line kbd_boot = []" "k_events kbd_boot = []"
  by (simp_all add: kbd_ok_def kbd_boot_def k_line_def kq_wf_def INPUT_BUFFER_SIZE_def KBD_QUEUE_SIZE_def)

theorem kbd_line_editing_witness:
  "\<exists>s'. kbd_chars (''lx'' @ [CHR 0x08] @ ''s'' @ [CHR 0x0A]) kbd_boot = Some s' \<and> Execute ''ls'' \<in> set (k_events s')"
proof -
  have "NUL \<notin> set (''lx'' @ [CHR 0x08] @ ''s'' @ [CHR 0x0A])" by simp
  from kbd_line_editing [OF kbd_boot_ok(1,2) this] kbd_boot_ok(3-5) show ?thesis
    by (auto simp: edit_key_def kbd_printable_def)
qed

lemma kbd_char_some: "\<exists>c. kbd_char sc shift = Some c"
  by (simp add: kbd_char_def rd_def)

lemma u8_high_bit: "(sc :: u8) AND 0x80 \<noteq> 0 \<longleftrightarrow> 0x80 \<le> sc"
proof -
  have "sc AND 2 ^ 7 = 0 \<longleftrightarrow> \<not> bit sc 7" by (rule and_exp_eq_0_iff_not_bit)
  moreover have "bit sc 7 \<longleftrightarrow> odd (unat sc div 128)" using bit_iff_odd [of "unat sc" 7] by (simp add: bit_unsigned_iff)
  moreover have "unat sc < 256" using unsigned_less [of sc, where 'a = nat] by simp
  moreover have "unat sc div 128 = (if 128 \<le> unat sc then 1 else 0)" using calculation(3) by (simp add: div_nat_eqI)
  ultimately show ?thesis by (simp add: word_le_nat_alt)
qed

lemma u8_released:
  assumes "0x80 \<le> (sc :: u8)"
  shows "sc AND 0x7F = 0x2A \<longleftrightarrow> sc = 0xAA" and "sc AND 0x7F = 0x36 \<longleftrightarrow> sc = 0xB6"
proof -
  have m: "unat (sc AND 0x7F) = unat sc mod 128"
  proof -
    have "sc AND 0x7F = sc mod 0x80" using take_bit_eq_mask [of 7 sc] by (simp add: mask_eq_exp_minus_1 take_bit_eq_mod)
    then show ?thesis by (simp add: unat_mod)
  qed
  have "128 \<le> unat sc" "unat sc < 256" using assms unsigned_less [of sc, where 'a = nat] by (simp_all add: word_le_nat_alt)
  then have "unat sc = (unat sc - 128) + 128" "unat sc - 128 < 128" by linarith+
  then have "unat sc mod 128 = unat sc - 128" by (metis mod_add_self2 mod_less)
  with m \<open>128 \<le> unat sc\<close> show "sc AND 0x7F = 0x2A \<longleftrightarrow> sc = 0xAA" "sc AND 0x7F = 0x36 \<longleftrightarrow> sc = 0xB6"
    by (auto simp: word_unat_eq_iff)
qed

text \<open>
  Scan codes. Every scan code is handled, in every state the keyboard can be in: function keys switch the
  console and leave line and queue alone, the codes of the shift keys set and clear the shift state
  and nothing else, every other release is ignored, and any other code types at most one character:
  the one on its key, a capital letter when shift is held.
\<close>
theorem keyboard_scancodes:
  assumes "kbd_ok s" and "k_enabled s"
  shows "\<exists>s' c. keyboard_handler sc s = Some s' \<and> kbd_ok s' \<and> k_enabled s' \<and> k_echo s' = k_echo s \<and>
    shift_state s' = (if sc = 0x2A \<or> sc = 0x36 then True else if sc = 0xAA \<or> sc = 0xB6 then False else shift_state s) \<and>
    (if KBD_F1 \<le> sc \<and> sc \<le> KBD_F7
     then k_line s' = k_line s \<and> k_events s' = k_events s @ [Switch_tty (uint sc - 58), Current_tty (uint sc - 58), Prompt]
     else if sc = 0 \<or> 0x80 \<le> sc \<or> sc = 0x2A \<or> sc = 0x36 then k_line s' = k_line s \<and> k_events s' = k_events s
     else kbd_char sc (shift_state s) = Some c \<and> (if c = NUL then s' = s else kbd_process_char c s = Some s'))"
proof -
  have u: "uint sc - uint KBD_F1 + 1 = uint sc - 58" by (simp add: KBD_F1_def)
  have ex: "sc \<noteq> 0" "\<not> 0x80 \<le> sc" "sc \<noteq> 0x2A" "sc \<noteq> 0x36" "sc \<noteq> 0xAA" "sc \<noteq> 0xB6" if "KBD_F1 \<le> sc \<and> sc \<le> KBD_F7"
    using that by (auto simp: KBD_F1_def KBD_F7_def word_le_nat_alt)
  have dis: "\<not> 0x80 \<le> (0x2A :: u8)" "\<not> 0x80 \<le> (0x36 :: u8)" "0x80 \<le> (0xAA :: u8)" "0x80 \<le> (0xB6 :: u8)" "\<not> 0x80 \<le> (0 :: u8)" by simp_all
  consider (zero) "sc = 0" | (fkey) "KBD_F1 \<le> sc \<and> sc \<le> KBD_F7"
    | (release) "sc \<noteq> 0" "\<not> (KBD_F1 \<le> sc \<and> sc \<le> KBD_F7)" "0x80 \<le> sc"
    | (shift) "\<not> (KBD_F1 \<le> sc \<and> sc \<le> KBD_F7)" "sc = 0x2A \<or> sc = 0x36"
    | (char) "sc \<noteq> 0" "\<not> (KBD_F1 \<le> sc \<and> sc \<le> KBD_F7)" "\<not> 0x80 \<le> sc" "\<not> (sc = 0x2A \<or> sc = 0x36)" by blast
  then show ?thesis
  proof cases
    case zero
    then show ?thesis using assms by (simp add: keyboard_handler_def KBD_F1_def)
  next
    case fkey
    with ex [OF fkey] show ?thesis using assms u by (simp add: keyboard_handler_def emit_def Let_def kbd_ok_def k_line_def)
  next
    case release
    then have "sc \<noteq> 0x2A" "sc \<noteq> 0x36" using dis by metis+
    with release show ?thesis using assms u8_high_bit [of sc] u8_released [OF release(3)]
      by (auto simp: keyboard_handler_def Let_def kbd_ok_def k_line_def)
  next
    case shift
    then have "\<not> 0x80 \<le> sc" "sc \<noteq> 0" "sc \<noteq> 0xAA" "sc \<noteq> 0xB6" by auto
    with shift show ?thesis using assms u8_high_bit [of sc] by (auto simp: keyboard_handler_def kbd_ok_def k_line_def)
  next
    case char
    then have ne: "sc \<noteq> 0xAA" "sc \<noteq> 0xB6" using dis by metis+
    obtain c where c: "kbd_char sc (shift_state s) = Some c" using kbd_char_some by blast
    have run: "keyboard_handler sc s = (if c \<noteq> NUL then kbd_process_char c s else Some s)"
    proof -
      have hb: "\<not> sc AND 0x80 \<noteq> 0" using char(3) u8_high_bit [of sc] by blast
      show ?thesis unfolding keyboard_handler_def if_not_P [OF char(1)] if_not_P [OF char(2)] if_not_P [OF hb] if_not_P [OF char(4)] c by simp
    qed
    show ?thesis
    proof (cases "c = NUL")
      case True
      with run char ne c assms show ?thesis by simp
    next
      case False
      with kbd_step [OF assms False] run char ne c show ?thesis by auto
    qed
  qed
qed

theorem keyboard_scancodes_witness:
  "\<exists>s'. keyboard_handler 0x1E (kbd_boot\<lparr>shift_state := True\<rparr>) = Some s' \<and> kbd_process_char (CHR ''A'') (kbd_boot\<lparr>shift_state := True\<rparr>) = Some s'"
proof -
  let ?s = "kbd_boot\<lparr>shift_state := True\<rparr>"
  have ok: "kbd_ok ?s" "k_enabled ?s" using kbd_boot_ok(1,2) by (simp_all add: kbd_ok_def k_line_def)
  have c: "kbd_char 0x1E (shift_state ?s) = Some (CHR ''A'')" by (simp add: kbd_char_def kbd_map_def rd_def) code_simp
  have n: "\<not> (KBD_F1 \<le> 0x1E \<and> (0x1E :: u8) \<le> KBD_F7)" "\<not> (0x80 :: u8) \<le> 0x1E" by (simp_all add: KBD_F1_def)
  from keyboard_scancodes [OF ok, of "0x1E"] c n show ?thesis by auto
qed

end
