(* ===== verification/Shell_Text.thy ===== *)
theory Shell_Text
  imports CString_Copy Decimal
begin

text \<open>
  The text routines of the kernel shell, \<open>usr/commands.c\<close>: splitting a command line, the calculator
  behind \<open>bc\<close> and \<open>expr\<close>, addresses and the two wildcard matchers. A pointer into a text is the rest of
  the text from there on.
\<close>

subsection \<open>Command lines\<close>

text \<open>The command, now terminated, and what follows the blank.\<close>

fun get_args :: "char list \<Rightarrow> (char list \<times> char list) option" where
  "get_args [] = None"
| "get_args (c # p) =
     (if c \<noteq> CHR '' '' \<and> c \<noteq> NUL then map_option (\<lambda>(b, a). (c # b, a)) (get_args p)
      else if c = CHR '' '' then Some (NUL # p, p) else Some (c # p, [NUL]))"

primrec trim_loop :: "nat \<Rightarrow> char list \<Rightarrow> char list option" where
  "trim_loop 0 str = Some str"
| "trim_loop (Suc len) str =
     do { c \<leftarrow> rd str len;
          if c = CHR '' '' then do { str' \<leftarrow> wr str len NUL; trim_loop len str' } else Some str }"

definition trim_trailing_space :: "char list \<Rightarrow> char list option" where
  "trim_trailing_space str = do { len \<leftarrow> strlen str; trim_loop len str }"

definition has_permission :: "u32 \<Rightarrow> char \<Rightarrow> u32" where
  "has_permission file_mode who =
     (if file_mode = 0 then 1
      else if who = CHR ''r'' then file_mode AND 0x124
      else if who = CHR ''w'' then file_mode AND 0x92
      else if who = CHR ''x'' then file_mode AND 0x49
      else 0)"

subsection \<open>The calculator\<close>

definition PRECISION :: int where "PRECISION = 100"

definition dval :: "char \<Rightarrow> int" where "dval c = of_char c - 48"

text \<open>Division of C, towards zero.\<close>

definition cdiv :: "int \<Rightarrow> int \<Rightarrow> int" where "cdiv a b = sgn a * sgn b * (\<bar>a\<bar> div \<bar>b\<bar>)"

definition cmod :: "int \<Rightarrow> int \<Rightarrow> int" where "cmod a b = a - cdiv a b * b"

fun whole_digits :: "int \<Rightarrow> char list \<Rightarrow> (int \<times> char list) option" where
  "whole_digits num [] = None"
| "whole_digits num (c # p) =
     (if is_digit c then do { t \<leftarrow> int32 (num * 10); n \<leftarrow> int32 (t + dval c); whole_digits n p } else Some (num, c # p))"

fun fraction_digits :: "int \<Rightarrow> int \<Rightarrow> char list \<Rightarrow> (int \<times> char list) option" where
  "fraction_digits num p [] = None"
| "fraction_digits num p (c # s) =
     (if is_digit c \<and> 0 < p then do { n \<leftarrow> int32 (num + dval c * p); fraction_digits n (p div 10) s } else Some (num, c # s))"

fun skip_digits :: "char list \<Rightarrow> char list option" where
  "skip_digits [] = None"
| "skip_digits (c # s) = (if is_digit c then skip_digits s else Some (c # s))"

definition number :: "char list \<Rightarrow> (int \<times> char list) option" where
  "number exp =
     do { (n, p) \<leftarrow> whole_digits 0 exp;
          num \<leftarrow> int32 (n * PRECISION);
          c \<leftarrow> rd p 0;
          if c = CHR ''.'' then do { (m, q) \<leftarrow> fraction_digits num (PRECISION div 10) (drop 1 p);
                                    s \<leftarrow> skip_digits q;
                                    Some (m, s) }
          else Some (num, p) }"

definition is_operator :: "char \<Rightarrow> bool" where
  "is_operator c \<longleftrightarrow> c = CHR ''+'' \<or> c = CHR ''-'' \<or> c = CHR ''*'' \<or> c = CHR ''x'' \<or> c = CHR ''/''"

definition apply_operator :: "char \<Rightarrow> int \<Rightarrow> int \<Rightarrow> int option" where
  "apply_operator op res num =
     (if op = CHR ''+'' then int32 (res + num)
      else if op = CHR ''-'' then int32 (res - num)
      else if op = CHR ''*'' \<or> op = CHR ''x'' then do { t \<leftarrow> int32 (res * num); Some (cdiv t PRECISION) }
      else if op = CHR ''/'' then (if num \<noteq> 0 then do { t \<leftarrow> int32 (res * PRECISION); Some (cdiv t num) } else Some res)
      else Some res)"

lemma whole_digits_rest: "whole_digits n p = Some (m, q) \<Longrightarrow> length q \<le> length p"
  by (induction p arbitrary: n) (auto simp: bind_eq_Some_conv le_SucI split: if_splits)

lemma fraction_digits_rest: "fraction_digits n p s = Some (m, q) \<Longrightarrow> length q \<le> length s"
  by (induction s arbitrary: n p) (auto simp: bind_eq_Some_conv le_SucI split: if_splits)

lemma skip_digits_rest: "skip_digits p = Some q \<Longrightarrow> length q \<le> length p"
  by (induction p) (auto simp: le_SucI split: if_splits)

lemma number_rest:
  assumes "number (c # p) = Some (n, q)" and "is_digit c"
  shows "length q < length (c # p)"
  using assms unfolding number_def
  by (fastforce simp: bind_eq_Some_conv split: if_splits dest!: whole_digits_rest fraction_digits_rest skip_digits_rest)

function arithmetic :: "char \<Rightarrow> int \<Rightarrow> char list \<Rightarrow> int option" where
  "arithmetic op res [] = None"
| "arithmetic op res (c # p) =
     (if c = NUL then Some res
      else if c = CHR '' '' then arithmetic op res p
      else if is_digit c then do { (num, q) \<leftarrow> number (c # p); r \<leftarrow> apply_operator op res num; arithmetic op r q }
      else arithmetic (if is_operator c then c else op) res p)"
  by pat_completeness auto
termination
  by (relation "measure (\<lambda>(op, res, p). length p)") (auto dest: number_rest)

definition evaluate_arithmetic :: "char list \<Rightarrow> int option" where
  "evaluate_arithmetic exp = arithmetic (CHR ''+'') 0 exp"

text \<open>What \<open>bc\<close> and \<open>expr\<close> print: whole part and fraction, of which one digit gets a zero in front.\<close>

definition cmd_bc_parts :: "char list \<Rightarrow> (int \<times> int) option" where
  "cmd_bc_parts args =
     do { result \<leftarrow> evaluate_arithmetic args;
          let fractional_part = cmod result PRECISION;
          Some (cdiv result PRECISION, if fractional_part < 0 then - fractional_part else fractional_part) }"

definition cmd_expr_value :: "char list \<Rightarrow> int option" where
  "cmd_expr_value args = do { res \<leftarrow> evaluate_arithmetic args; Some (cdiv res PRECISION) }"

subsection \<open>Internet addresses\<close>

fun ip_number :: "u8 \<Rightarrow> char list \<Rightarrow> (u8 \<times> char list) option" where
  "ip_number n [] = None"
| "ip_number n (c # p) = (if is_digit c then ip_number (n * 10 + of_int (dval c)) p else Some (n, c # p))"

primrec ip_parts :: "nat \<Rightarrow> char list \<Rightarrow> u8 list option" where
  "ip_parts 0 p = Some []"
| "ip_parts (Suc k) p =
     do { (n, q) \<leftarrow> ip_number 0 p;
          c \<leftarrow> rd q 0;
          ns \<leftarrow> ip_parts k (if c = CHR ''.'' then drop 1 q else q);
          Some (n # ns) }"

definition parse_ip :: "char list \<Rightarrow> u8 list option" where
  "parse_ip str = ip_parts 4 str"

subsection \<open>Wildcards\<close>

function match_wildcard :: "char list \<Rightarrow> char list \<Rightarrow> bool option"
  and match_rest :: "char list \<Rightarrow> char list \<Rightarrow> bool option" where
  "match_wildcard (p # pattern) (t # txt) =
     (if p \<noteq> NUL \<and> t \<noteq> NUL
      then (if p = CHR ''*'' then do { q \<leftarrow> rd pattern 0; if q = NUL then Some True else match_rest pattern (t # txt) }
            else if p \<noteq> t then Some False
            else match_wildcard pattern txt)
      else if p = CHR ''*'' then map_option (\<lambda>q. q = NUL) (rd pattern 0)
      else Some (p = NUL \<and> t = NUL))"
| "match_wildcard [] txt = None"
| "match_wildcard (p # pattern) [] = None"
| "match_rest pattern (t # txt) =
     (if t \<noteq> NUL then do { b \<leftarrow> match_wildcard pattern (t # txt); if b then Some True else match_rest pattern txt }
      else Some False)"
| "match_rest pattern [] = None"
  by pat_completeness auto
termination
  by (relation "measures [\<lambda>x. case x of Inl (p, t) \<Rightarrow> length p | Inr (p, t) \<Rightarrow> length p,
      \<lambda>x. case x of Inl (p, t) \<Rightarrow> 2 * length t | Inr (p, t) \<Rightarrow> 2 * length t + 1]") auto

function match_pattern :: "char list \<Rightarrow> char list \<Rightarrow> bool option"
  and pattern_rest :: "char list \<Rightarrow> char list \<Rightarrow> bool option" where
  "match_pattern (p # pattern) name =
     (if p \<noteq> NUL
      then (if p = CHR ''*'' then do { q \<leftarrow> rd pattern 0; if q = NUL then Some True else pattern_rest pattern name }
            else do { n \<leftarrow> rd name 0; if p = n then match_pattern pattern (drop 1 name) else Some False })
      else map_option (\<lambda>n. n = NUL) (rd name 0))"
| "match_pattern [] name = None"
| "pattern_rest pattern (n # name) =
     (if n \<noteq> NUL then do { b \<leftarrow> match_pattern pattern (n # name); if b then Some True else pattern_rest pattern name }
      else Some False)"
| "pattern_rest pattern [] = None"
  by pat_completeness auto
termination
  by (relation "measures [\<lambda>x. case x of Inl (p, t) \<Rightarrow> length p | Inr (p, t) \<Rightarrow> length p,
      \<lambda>x. case x of Inl (p, t) \<Rightarrow> 2 * length t | Inr (p, t) \<Rightarrow> 2 * length t + 1]") auto

subsection \<open>Splitting off the command\<close>

lemma get_args_cstr:
  assumes "cstr b s"
  shows "\<exists>b' a. get_args b = Some (b', a) \<and> cstr b' (takeWhile (\<lambda>c. c \<noteq> CHR '' '') s) \<and>
    cstr a (drop 1 (dropWhile (\<lambda>c. c \<noteq> CHR '' '') s))"
  using assms
proof (induction s arbitrary: b)
  case Nil
  then show ?case by (auto simp: cstr_simps)
next
  case (Cons c s)
  then obtain r where r: "b = c # r" "cstr r s" "c \<noteq> NUL" by (auto simp: cstr_simps)
  then show ?case using Cons.IH [OF r(2)] by (cases "c = CHR '' ''") (auto simp: cstr_simps)
qed

lemma trim_loop_run:
  assumes "n \<le> length s" and "NUL \<notin> set s"
  shows "\<exists>b. trim_loop n (take n s @ NUL # r) = Some b \<and> cstr b (rev (dropWhile (\<lambda>c. c = CHR '' '') (rev (take n s)))) \<and>
    length b = n + 1 + length r"
  using assms(1)
proof (induction n arbitrary: r)
  case 0
  then show ?case by (auto simp: cstr_simps)
next
  case (Suc n)
  then have t: "take (Suc n) s = take n s @ [s ! n]" "n < length s" by (simp_all add: take_Suc_conv_app_nth)
  have n: "NUL \<notin> set (take (Suc n) s)" using assms(2) by (auto dest: in_set_takeD)
  have l: "min (length s) n = n" using t(2) by simp
  show ?case
  proof (cases "s ! n = CHR '' ''")
    case True
    then have "trim_loop (Suc n) (take (Suc n) s @ NUL # r) = trim_loop n (take n s @ NUL # NUL # r)"
      using l unfolding t(1) by (simp add: rd_def wr_def nth_append list_update_append)
    with Suc.IH [of "NUL # r"] Suc.prems True show ?thesis by (simp add: t(1) del: trim_loop.simps)
  next
    case False
    then have "trim_loop (Suc n) (take (Suc n) s @ NUL # r) = Some (take (Suc n) s @ NUL # r)"
      using l unfolding t(1) by (simp add: rd_def nth_append)
    moreover have "rev (dropWhile (\<lambda>c. c = CHR '' '') (rev (take (Suc n) s))) = take (Suc n) s" using False by (simp add: t(1))
    ultimately show ?thesis using n t(2) by (auto simp del: trim_loop.simps)
  qed
qed

text \<open>All blanks at the end are cut, and only those.\<close>

lemma trim_trailing_space_cstr:
  assumes "cstr b s"
  shows "\<exists>b'. trim_trailing_space b = Some b' \<and> cstr b' (rev (dropWhile (\<lambda>c. c = CHR '' '') (rev s))) \<and> length b' = length b"
proof -
  from assms obtain r where "b = s @ NUL # r" "NUL \<notin> set s" by (auto simp: cstr_def)
  then show ?thesis using trim_loop_run [of "length s" s r] strlen_from_cstr [OF assms, of 0]
    by (simp add: trim_trailing_space_def strlen_def)
qed

subsection \<open>What the calculator computes\<close>

text \<open>
  A numeral stands for its hundredths; digits from the third place after the point on are dropped.
\<close>

definition frac_value :: "char list \<Rightarrow> int" where
  "frac_value f = (if f = [] then 0 else 10 * dval (f ! 0) + (if length f = 1 then 0 else dval (f ! 1)))"

definition hundredths :: "char list \<Rightarrow> char list option \<Rightarrow> int" where
  "hundredths ds f = PRECISION * digits_val 0 ds + (case f of None \<Rightarrow> 0 | Some f \<Rightarrow> frac_value f)"

text \<open>A term: blanks, an operator, blanks, and a numeral with an optional fraction.\<close>

datatype arith_term = Term (blanks1: nat) (operator: char) (blanks2: nat) (whole: "char list") (fraction: "char list option")

definition term_ok :: "arith_term \<Rightarrow> bool" where
  "term_ok t \<longleftrightarrow> is_operator (operator t) \<and> whole t \<noteq> [] \<and> (\<forall>c\<in>set (whole t). is_digit c) \<and>
     (\<forall>f. fraction t = Some f \<longrightarrow> (\<forall>c\<in>set f. is_digit c))"

definition term_text :: "arith_term \<Rightarrow> char list" where
  "term_text t = replicate (blanks1 t) (CHR '' '') @ operator t # replicate (blanks2 t) (CHR '' '') @ whole t @
     (case fraction t of None \<Rightarrow> [] | Some f \<Rightarrow> CHR ''.'' # f)"

primrec calculate :: "int \<Rightarrow> arith_term list \<Rightarrow> int option" where
  "calculate res [] = Some res"
| "calculate res (t # ts) =
     do { num \<leftarrow> int32 (hundredths (whole t) (fraction t)); r \<leftarrow> apply_operator (operator t) res num; calculate r ts }"

lemma dval_bounds: "is_digit c \<Longrightarrow> 0 \<le> dval c \<and> dval c \<le> 9"
  using is_digit_int [of c] by (simp add: dval_def)

lemma int32_Some: "int32 a = Some b \<Longrightarrow> b = a"
  by (simp add: int32_def split: if_splits)

lemma whole_digits_run:
  assumes "\<forall>c\<in>set ds. is_digit c" and "\<not> is_digit e" and "0 \<le> n" and "n < 2 ^ 31"
  shows "whole_digits n (ds @ e # r) = (if digits_val n ds < 2 ^ 31 then Some (digits_val n ds, e # r) else None)"
  using assms(1,3,4)
proof (induction ds arbitrary: n)
  case Nil
  with assms(2) show ?case by simp
next
  case (Cons d ds)
  then have d: "is_digit d" "\<forall>c\<in>set ds. is_digit c" "0 \<le> dval d" "dval d \<le> 9" using dval_bounds by auto
  have m: "n * 10 + dval d \<le> digits_val n (d # ds)"
    using digits_val_mono [OF d(2), of "n * 10 + dval d"] d(3) Cons.prems(2) by (simp add: dval_def)
  show ?case
  proof (cases "n * 10 + dval d < 2 ^ 31")
    case True
    with Cons.IH [OF d(2), of "n * 10 + dval d"] d Cons.prems show ?thesis by (simp add: dval_def)
  next
    case False
    then have "int32 (n * 10 + dval d) = None" by (simp add: int32_def)
    then have "whole_digits n ((d # ds) @ e # r) = None"
      using d(1) by (cases "int32 (n * 10)") (auto dest: int32_Some)
    with False m show ?thesis by simp
  qed
qed

lemma int32_nonneg: "0 \<le> n \<Longrightarrow> int32 n = (if n < 2 ^ 31 then Some n else None)"
  by (simp add: int32_def)

lemma skip_digits_run: "\<forall>c\<in>set ds. is_digit c \<Longrightarrow> \<not> is_digit e \<Longrightarrow> skip_digits (ds @ e # r) = Some (e # r)"
  by (induction ds) auto

lemma fraction_digits_run:
  assumes "\<forall>c\<in>set f. is_digit c" and "\<not> is_digit e" and "0 \<le> n" and "n < 2 ^ 31"
  shows "do { (m, q) \<leftarrow> fraction_digits n 10 (f @ e # r); s \<leftarrow> skip_digits q; Some (m, s) } =
    (if n + frac_value f < 2 ^ 31 then Some (n + frac_value f, e # r) else None)"
proof (cases f)
  case Nil
  with assms show ?thesis by (simp add: frac_value_def)
next
  case (Cons a f1)
  then have a: "is_digit a" "0 \<le> dval a" using assms(1) dval_bounds by auto
  show ?thesis
  proof (cases f1)
    case Nil
    with Cons a assms show ?thesis by (simp add: frac_value_def int32_nonneg mult.commute)
  next
    case (Cons b f2)
    with \<open>f = a # f1\<close> have f: "f = a # b # f2" by simp
    then have b: "is_digit b" "0 \<le> dval b" "\<forall>c\<in>set f2. is_digit c" using assms(1) dval_bounds by auto
    have stop: "fraction_digits m 0 (f2 @ e # r) = Some (m, f2 @ e # r)" for m by (cases f2) simp_all
    show ?thesis using a b assms stop skip_digits_run [OF b(3) assms(2), of r]
      by (simp add: f frac_value_def int32_nonneg mult.commute)
  qed
qed

lemma frac_value_nonneg: "\<forall>c\<in>set f. is_digit c \<Longrightarrow> 0 \<le> frac_value f"
  using dval_bounds by (cases f; cases "drop 1 f") (auto simp: frac_value_def)

lemma number_run:
  assumes "\<forall>c\<in>set ds. is_digit c" and "\<forall>f. fr = Some f \<longrightarrow> (\<forall>c\<in>set f. is_digit c)" and "\<not> is_digit e" and "e \<noteq> CHR ''.''"
  shows "number (ds @ (case fr of None \<Rightarrow> [] | Some f \<Rightarrow> CHR ''.'' # f) @ e # r) =
    map_option (\<lambda>n. (n, e # r)) (int32 (hundredths ds fr))"
proof -
  have dot: "\<not> is_digit (CHR ''.'')" by (simp add: is_digit_def)
  have v: "0 \<le> digits_val 0 ds" using digits_val_mono [OF assms(1)] by simp
  have fr: "0 \<le> (case fr of None \<Rightarrow> 0 | Some f \<Rightarrow> frac_value f)" using assms(2) frac_value_nonneg by (auto split: option.splits)
  then have h: "0 \<le> hundredths ds fr" "digits_val 0 ds * 100 \<le> hundredths ds fr" using v by (auto simp: hundredths_def PRECISION_def)
  show ?thesis
  proof (cases "digits_val 0 ds * 100 < 2 ^ 31")
    case True
    then have w: "digits_val 0 ds < 2 ^ 31" using v by simp
    show ?thesis
    proof (cases fr)
      case None
      with True w v assms(3,4) show ?thesis
        using whole_digits_run [OF assms(1,3), of 0 r] by (simp add: number_def hundredths_def PRECISION_def int32_nonneg mult.commute)
    next
      case (Some f)
      then have f: "\<forall>c\<in>set f. is_digit c" using assms(2) by simp
      have "number (ds @ CHR ''.'' # f @ e # r) =
          do { (m, q) \<leftarrow> fraction_digits (digits_val 0 ds * 100) 10 (f @ e # r); s \<leftarrow> skip_digits q; Some (m, s) }"
        using True w v whole_digits_run [OF assms(1) dot, of 0 "f @ e # r"] by (simp add: number_def PRECISION_def int32_nonneg)
      also have "\<dots> = (if hundredths ds fr < 2 ^ 31 then Some (hundredths ds fr, e # r) else None)"
        using fraction_digits_run [OF f assms(3), of "digits_val 0 ds * 100" r] True v Some
        by (simp add: hundredths_def PRECISION_def mult.commute)
      finally show ?thesis using Some h(1) by (simp add: int32_nonneg)
    qed
  next
    case False
    then have "int32 (hundredths ds fr) = None" "int32 (digits_val 0 ds * 100) = None" using h by (simp_all add: int32_def)
    moreover obtain e' r' where e': "(case fr of None \<Rightarrow> [] | Some f \<Rightarrow> CHR ''.'' # f) @ e # r = e' # r'" "\<not> is_digit e'"
      using dot assms(3) by (cases fr) auto
    ultimately show ?thesis using whole_digits_run [OF assms(1) e'(2), of 0 r'] by (simp add: number_def PRECISION_def)
  qed
qed

lemma arithmetic_blanks: "arithmetic op res (replicate k (CHR '' '') @ p) = arithmetic op res p"
  by (induction k) simp_all

lemma operator_char: "is_operator c \<Longrightarrow> c \<noteq> NUL \<and> c \<noteq> CHR '' '' \<and> c \<noteq> CHR ''.'' \<and> \<not> is_digit c"
  by (auto simp: is_operator_def is_digit_def)

lemma arithmetic_term:
  assumes "term_ok t" and "\<not> is_digit e" and "e \<noteq> CHR ''.''"
  shows "arithmetic op res (term_text t @ e # r) =
    do { num \<leftarrow> int32 (hundredths (whole t) (fraction t)); r' \<leftarrow> apply_operator (operator t) res num;
         arithmetic (operator t) r' (e # r) }"
proof -
  from assms(1) have t: "is_operator (operator t)" "\<forall>c\<in>set (whole t). is_digit c"
    "\<forall>f. fraction t = Some f \<longrightarrow> (\<forall>c\<in>set f. is_digit c)" by (simp_all add: term_ok_def)
  from assms(1) obtain d ds where w: "whole t = d # ds" by (cases "whole t") (auto simp: term_ok_def)
  then have d: "is_digit d" "d \<noteq> NUL" "d \<noteq> CHR '' ''" using t(2) by (auto simp: is_digit_def)
  let ?f = "case fraction t of None \<Rightarrow> [] | Some f \<Rightarrow> CHR ''.'' # f"
  have "arithmetic op res (term_text t @ e # r) = arithmetic (operator t) res (whole t @ ?f @ e # r)"
    using t(1) operator_char [OF t(1)] by (simp add: term_text_def arithmetic_blanks)
  also have "\<dots> = do { (num, q) \<leftarrow> number (whole t @ ?f @ e # r); r' \<leftarrow> apply_operator (operator t) res num;
      arithmetic (operator t) r' q }"
    using d unfolding w append_Cons by (subst arithmetic.simps) (simp only: if_False if_True)
  finally show ?thesis unfolding number_run [OF t(2,3) assms(2,3), of r]
    by (cases "int32 (hundredths (whole t) (fraction t))") simp_all
qed

lemma term_text_start:
  assumes "term_ok t"
  shows "\<exists>e r. term_text t = e # r \<and> \<not> is_digit e \<and> e \<noteq> CHR ''.''"
proof (cases "blanks1 t")
  case 0
  then show ?thesis using assms operator_char [of "operator t"] by (simp add: term_ok_def term_text_def)
next
  case (Suc k)
  then show ?thesis by (simp add: term_text_def is_digit_def)
qed

lemma arithmetic_terms:
  assumes "\<forall>t\<in>set ts. term_ok t"
  shows "arithmetic op res (concat (map term_text ts) @ NUL # r) = calculate res ts"
  using assms
proof (induction ts arbitrary: op res)
  case Nil
  then show ?case by simp
next
  case (Cons t ts)
  then have t: "term_ok t" "\<forall>t\<in>set ts. term_ok t" by simp_all
  obtain e r' where e: "concat (map term_text ts) @ NUL # r = e # r'" "\<not> is_digit e" "e \<noteq> CHR ''.''"
  proof (cases ts)
    case Nil
    then show ?thesis using that [of NUL r] by simp
  next
    case (Cons u us)
    then show ?thesis using term_text_start [of u] t(2) that by auto
  qed
  have "arithmetic op res (concat (map term_text (t # ts)) @ NUL # r) = arithmetic op res (term_text t @ e # r')"
    using e(1) by simp
  also have "\<dots> = calculate res (t # ts)"
    unfolding arithmetic_term [OF t(1) e(2,3)] unfolding e(1) [symmetric] using Cons.IH [OF t(2)] by simp
  finally show ?case .
qed

text \<open>
  The calculator. An expression of numerals with one operator in front of each, in any spacing, is
  evaluated from left to right (there is no precedence) in hundredths: each numeral is read with two places after the
  point, products and quotients are cut to two places towards zero, and a division by zero leaves the
  value as it is. If a numeral or an intermediate value does not fit a signed 32-bit number, the result is
  undefined.
\<close>
theorem calculator_left_to_right:
  assumes "\<forall>t\<in>set ts. term_ok t"
  shows "evaluate_arithmetic (concat (map term_text ts) @ NUL # r) = calculate 0 ts"
  unfolding evaluate_arithmetic_def by (rule arithmetic_terms [OF assms])

theorem calculator_left_to_right_witness:
  "evaluate_arithmetic (''+2.5 + 3x4.125/0'' @ [NUL]) = Some 2266 \<and> evaluate_arithmetic (''+30000000'' @ [NUL]) = None"
proof -
  define ts where "ts = [Term 0 (CHR ''+'') 0 ''2'' (Some ''5''), Term 1 (CHR ''+'') 1 ''3'' None,
    Term 0 (CHR ''x'') 0 ''4'' (Some ''125''), Term 0 (CHR ''/'') 0 ''0'' None]"
  have ok: "\<forall>t\<in>set ts. term_ok t" "\<forall>t\<in>set [Term 0 (CHR ''+'') 0 ''30000000'' None]. term_ok t"
    unfolding ts_def by (simp_all add: term_ok_def is_operator_def is_digit_def)
  have v: "calculate 0 ts = Some 2266" "calculate 0 [Term 0 (CHR ''+'') 0 ''30000000'' None] = None"
    unfolding ts_def by (simp_all add: hundredths_def frac_value_def dval_def PRECISION_def apply_operator_def cdiv_def int32_def)
  have "concat (map term_text ts) = ''+2.5 + 3x4.125/0''" "concat (map term_text [Term 0 (CHR ''+'') 0 ''30000000'' None]) = ''+30000000''"
    unfolding ts_def by (simp_all add: term_text_def)
  then show ?thesis using calculator_left_to_right [OF ok(1), of "[]"] calculator_left_to_right [OF ok(2), of "[]"] v by simp
qed

text \<open>\<open>bc\<close> loses the sign of a result between -1 and 0, and \<open>1/3*3\<close> is 0.99.\<close>

lemma bc_loses_sign: "cmd_bc_parts (''0-0.5'' @ [NUL]) = Some (0, 50)" "cmd_bc_parts (''1/3*3'' @ [NUL]) = Some (0, 99)"
  by code_simp+

subsection \<open>Reading an address\<close>

lemma ip_number_run:
  assumes "\<forall>c\<in>set ds. is_digit c" and "\<not> is_digit e"
  shows "ip_number (of_int m) (ds @ e # r) = Some (of_int (digits_val m ds), e # r)"
  using assms(1)
proof (induction ds arbitrary: m)
  case Nil
  with assms(2) show ?case by simp
next
  case (Cons d ds)
  then show ?case using Cons.IH [of "m * 10 + dval d"] by (simp add: dval_def)
qed

lemma ip_number_dec: "\<not> is_digit e \<Longrightarrow> ip_number 0 (dec n @ e # r) = Some (of_nat n, e # r)"
  using ip_number_run [OF dec_digits [of n], of e 0 r] by (simp add: digits_val_dec)

lemma parse_ip_dec:
  "parse_ip (dec (unat a) @ CHR ''.'' # dec (unat b) @ CHR ''.'' # dec (unat c) @ CHR ''.'' # dec (unat d) @ NUL # r) = Some [a, b, c, d]"
  by (simp add: parse_ip_def eval_nat_numeral ip_number_dec is_digit_def)

text \<open>Numbers above 255 wrap, and missing ones read as 0.\<close>

lemma parse_ip_wraps: "parse_ip (''256.1'' @ [NUL]) = Some [0, 1, 0, 0]"
  by code_simp

subsection \<open>What the wildcards match\<close>

text \<open>The meaning of a pattern: a star stands for any text, every other character for itself.\<close>

primrec glob :: "char list \<Rightarrow> char list \<Rightarrow> bool" where
  "glob [] s \<longleftrightarrow> s = []"
| "glob (c # p) s \<longleftrightarrow> (if c = CHR ''*'' then list_ex (glob p) (suffixes s) else s \<noteq> [] \<and> hd s = c \<and> glob p (tl s))"

text \<open>No two stars in a row.\<close>

abbreviation spaced_stars :: "char list \<Rightarrow> bool" where
  "spaced_stars \<equiv> successively (\<lambda>a b. \<not> (a = CHR ''*'' \<and> b = CHR ''*''))"

lemma glob_star_all: "glob [CHR ''*''] s"
  by (induction s) (auto simp: list_ex_iff)

lemma match_glob:
  "cstr pb p \<Longrightarrow> cstr tb t \<Longrightarrow> spaced_stars p \<Longrightarrow> match_wildcard pb tb = Some (glob p t)"
  "cstr pb p \<Longrightarrow> cstr tb t \<Longrightarrow> spaced_stars p \<Longrightarrow> p \<noteq> [] \<Longrightarrow> hd p \<noteq> CHR ''*'' \<Longrightarrow>
    match_rest pb tb = Some (list_ex (glob p) (suffixes t))"
proof (induction pb tb and pb tb arbitrary: p t and p t rule: match_wildcard_match_rest.induct)
  case (1 c pb d tb)
  show ?case
  proof (cases p)
    case Nil
    with 1 show ?thesis by (cases t) (auto simp: cstr_simps)
  next
    case (Cons c' p')
    then have p: "p = c # p'" "c \<noteq> NUL" "cstr pb p'" "spaced_stars p'" using "1.prems" by (cases p'; auto simp: cstr_simps)+
    show ?thesis
    proof (cases t)
      case Nil
      with "1.prems"(2) have d: "d = NUL" by (simp add: cstr_simps)
      show ?thesis
      proof (cases p')
        case Nil
        with p d \<open>t = []\<close> show ?thesis by (auto simp: cstr_simps)
      next
        case (Cons b p'')
        with p(3) obtain pb' where "pb = b # pb'" "b \<noteq> NUL" by (auto simp: cstr_simps)
        moreover have "c = CHR ''*'' \<Longrightarrow> b \<noteq> CHR ''*''" using "1.prems"(3) p(1) Cons by simp
        ultimately show ?thesis using p d Cons \<open>t = []\<close> by auto
      qed
    next
      case (Cons d' t')
      then have t: "t = d # t'" "d \<noteq> NUL" "cstr tb t'" using "1.prems"(2) by (auto simp: cstr_simps)
      show ?thesis
      proof (cases "c = CHR ''*''")
        case True
        show ?thesis
        proof (cases p')
          case Nil
          with p(3) obtain r where "pb = NUL # r" by (auto simp: cstr_simps)
          then show ?thesis using True t p(1) Nil glob_star_all [of t] by (simp del: glob.simps)
        next
          case (Cons b p'')
          with p(3) obtain pb' where b: "pb = b # pb'" "b \<noteq> NUL" by (auto simp: cstr_simps)
          have "match_rest pb (d # tb) = Some (list_ex (glob p') (suffixes t))"
            using "1.IH"(1) [OF _ True _ _ p(3) "1.prems"(2) p(4)] "1.prems"(3) p(1,2) True t(2) Cons b
            by (simp del: glob.simps match_wildcard.simps match_rest.simps)
          then show ?thesis using True t(1,2) p(1) b by simp
        qed
      next
        case False
        then show ?thesis using "1.IH"(2) [OF _ _ _ p(3) t(3) p(4)] p t by (cases "c = d") auto
      qed
    qed
  qed
next
  case (4 pb d tb)
  show ?case
  proof (cases t)
    case Nil
    with 4 show ?thesis by (cases p) (auto simp: cstr_simps)
  next
    case (Cons d' t')
    then have t: "t = d # t'" "d \<noteq> NUL" "cstr tb t'" using "4.prems"(2) by (auto simp: cstr_simps)
    have m: "match_wildcard pb (d # tb) = Some (glob p t)" using "4.IH"(1) [OF t(2) "4.prems"(1-3)] .
    then show ?thesis
    proof (cases "glob p t")
      case True
      with m t show ?thesis by simp
    next
      case False
      then have "match_rest pb tb = Some (list_ex (glob p) (suffixes t'))" using "4.IH"(2) t "4.prems" m by auto
      with m False t show ?thesis by simp
    qed
  qed
qed (auto simp: cstr_def)

text \<open>
  C38: Wildcards. \<open>match_wildcard\<close> decides exactly whether a text is one the pattern stands for, where a
  star stands for any text, provided that no two stars follow each other.
\<close>
theorem wildcard_matches:
  assumes "cstr pb p" and "cstr tb t" and "spaced_stars p"
  shows "match_wildcard pb tb = Some (glob p t)"
  by (rule match_glob(1) [OF assms])

theorem wildcard_matches_witness:
  "match_wildcard (''*.c*'' @ [NUL]) (''a.b.c'' @ [NUL]) = Some True \<and> match_wildcard (''a*b'' @ [NUL]) (''abc'' @ [NUL]) = Some False"
proof -
  have "cstr (''*.c*'' @ [NUL]) ''*.c*''" "cstr (''a*b'' @ [NUL]) ''a*b''" "cstr (''a.b.c'' @ [NUL]) ''a.b.c''" "cstr (''abc'' @ [NUL]) ''abc''"
    by (simp_all add: cstr_def)
  moreover have "glob ''*.c*'' ''a.b.c''" "\<not> glob ''a*b'' ''abc''" by simp_all
  ultimately show ?thesis using wildcard_matches by auto
qed

text \<open>Two stars in a row do not match the empty text, in neither matcher, and the two always agree.\<close>

lemma double_star: "match_wildcard (''a**'' @ [NUL]) (''a'' @ [NUL]) = Some False" "glob ''a**'' ''a''"
  by (code_simp, simp)

lemma matchers_agree:
  "cstr pb p \<Longrightarrow> cstr tb t \<Longrightarrow> match_pattern pb tb = match_wildcard pb tb"
  "cstr pb p \<Longrightarrow> cstr tb t \<Longrightarrow> pattern_rest pb tb = match_rest pb tb"
proof (induction pb tb and pb tb arbitrary: p t and p t rule: match_wildcard_match_rest.induct)
  case (1 c pb d tb)
  show ?case
  proof (cases p)
    case Nil
    with 1 show ?thesis by (auto simp: cstr_simps)
  next
    case (Cons c' p')
    then have p: "c \<noteq> NUL" "cstr pb p'" using "1.prems" by (auto simp: cstr_simps)
    then obtain q where q: "rd pb 0 = Some q" by (cases pb) (auto simp: cstr_def)
    show ?thesis
    proof (cases t)
      case Nil
      with "1.prems"(2) have "d = NUL" by (simp add: cstr_simps)
      with p q show ?thesis by simp
    next
      case (Cons d' t')
      then have t: "d \<noteq> NUL" "cstr tb t'" using "1.prems"(2) by (auto simp: cstr_simps)
      then have "c = CHR ''*'' \<Longrightarrow> q \<noteq> NUL \<Longrightarrow> pattern_rest pb (d # tb) = match_rest pb (d # tb)"
        using "1.IH"(1) p q "1.prems"(2) by auto
      moreover have "c \<noteq> CHR ''*'' \<Longrightarrow> c = d \<Longrightarrow> match_pattern pb tb = match_wildcard pb tb"
        using "1.IH"(2) p t by auto
      ultimately show ?thesis using p t q by auto
    qed
  qed
next
  case (4 pb d tb)
  show ?case
  proof (cases t)
    case Nil
    with 4 show ?thesis by (auto simp: cstr_simps)
  next
    case (Cons d' t')
    then have t: "d \<noteq> NUL" "cstr tb t'" using "4.prems"(2) by (auto simp: cstr_simps)
    have m: "match_pattern pb (d # tb) = match_wildcard pb (d # tb)" using "4.IH"(1) [OF t(1) "4.prems"] .
    show ?thesis
    proof (cases "match_wildcard pb (d # tb)")
      case (Some b)
      then show ?thesis using m t "4.IH"(2) [OF t(1) Some _ "4.prems"(1) t(2)] by (cases b) auto
    qed (use m t in simp)
  qed
qed (auto simp: cstr_def)

end
