(* ===== verification/Shell_Env.thy ===== *)
theory Shell_Env
  imports Shell_Text Store_Iface
begin

text \<open>
  The environment of the kernel shell, \<open>usr/commands.c\<close>: the table of variables, the table of aliases
  and the expansion of \<open>$NAME\<close> in a command line.
\<close>

definition MAX_ENV_VARS :: nat where "MAX_ENV_VARS = 20"
definition VAR_NAME_LEN :: nat where "VAR_NAME_LEN = 32"
definition VAR_VAL_LEN :: nat where "VAR_VAL_LEN = 64"
definition MAX_ALIAS :: nat where "MAX_ALIAS = 20"
definition ALIAS_NAME_LEN :: nat where "ALIAS_NAME_LEN = 16"
definition ALIAS_CMD_LEN :: nat where "ALIAS_CMD_LEN = 64"

record env_var =
  ev_name :: "char list"
  ev_value :: "char list"
  ev_active :: bool

record alias_entry =
  al_name :: "char list"
  al_command :: "char list"
  al_active :: bool

definition env_boot :: "env_var list" where
  "env_boot = replicate MAX_ENV_VARS \<lparr>ev_name = replicate VAR_NAME_LEN NUL, ev_value = replicate VAR_VAL_LEN NUL, ev_active = False\<rparr>"

definition alias_boot :: "alias_entry list" where
  "alias_boot = replicate MAX_ALIAS \<lparr>al_name = replicate ALIAS_NAME_LEN NUL, al_command = replicate ALIAS_CMD_LEN NUL, al_active = False\<rparr>"

subsection \<open>Variables\<close>

text \<open>The first active entry with the name.\<close>

definition has_name :: "char list \<Rightarrow> env_var list \<Rightarrow> nat \<Rightarrow> bool option" where
  "has_name name env i =
     do { v \<leftarrow> rd env i; if ev_active v then do { r \<leftarrow> strcmp (ev_name v) name; Some (r = 0) } else Some False }"

definition env_slot :: "char list \<Rightarrow> env_var list \<Rightarrow> nat option option" where
  "env_slot name env = first_ok (has_name name env) 0 MAX_ENV_VARS"

definition set_env_var :: "char list \<Rightarrow> char list \<Rightarrow> env_var list \<Rightarrow> env_var list option" where
  "set_env_var name val env =
     do { k \<leftarrow> env_slot name env;
          case k of
            Some i \<Rightarrow> do { v \<leftarrow> rd env i; b \<leftarrow> strncpy (ev_value v) val (int VAR_VAL_LEN); wr env i (v\<lparr>ev_value := b\<rparr>) }
          | None \<Rightarrow>
              do { f \<leftarrow> first_ok (\<lambda>i. map_option (\<lambda>v. \<not> ev_active v) (rd env i)) 0 MAX_ENV_VARS;
                   case f of
                     Some i \<Rightarrow> do { v \<leftarrow> rd env i;
                                   n \<leftarrow> strncpy (ev_name v) name (int VAR_NAME_LEN);
                                   b \<leftarrow> strncpy (ev_value v) val (int VAR_VAL_LEN);
                                   wr env i \<lparr>ev_name = n, ev_value = b, ev_active = True\<rparr> }
                   | None \<Rightarrow> Some env } }"

definition get_env_var :: "char list \<Rightarrow> env_var list \<Rightarrow> char list option" where
  "get_env_var name env =
     do { k \<leftarrow> env_slot name env; case k of Some i \<Rightarrow> do { v \<leftarrow> rd env i; Some (ev_value v) } | None \<Rightarrow> Some [NUL] }"

subsection \<open>Aliases\<close>

definition resolve_alias :: "char list \<Rightarrow> char list \<Rightarrow> alias_entry list \<Rightarrow> char list option" where
  "resolve_alias input output table =
     do { k \<leftarrow> first_ok (\<lambda>i. do { a \<leftarrow> rd table i;
                                if al_active a then do { r \<leftarrow> strcmp input (al_name a); Some (r = 0) } else Some False }) 0 MAX_ALIAS;
          case k of Some i \<Rightarrow> do { a \<leftarrow> rd table i; strcpy output (al_command a) } | None \<Rightarrow> strcpy output input }"

text \<open>\<open>cmd_alias\<close> with an argument: the first entry that is free or has the name; 1 when there is none, or no equals sign.\<close>

definition set_alias :: "char list \<Rightarrow> char list \<Rightarrow> alias_entry list \<Rightarrow> (int \<times> alias_entry list) option" where
  "set_alias name val table =
     do { k \<leftarrow> first_ok (\<lambda>i. do { a \<leftarrow> rd table i;
                                if \<not> al_active a then Some True else do { r \<leftarrow> strcmp (al_name a) name; Some (r = 0) } }) 0 MAX_ALIAS;
          case k of
            Some i \<Rightarrow> do { a \<leftarrow> rd table i;
                          n \<leftarrow> strncpy (al_name a) name (int ALIAS_NAME_LEN);
                          c \<leftarrow> strncpy (al_command a) val (int ALIAS_CMD_LEN);
                          t \<leftarrow> wr table i \<lparr>al_name = n, al_command = c, al_active = True\<rparr>;
                          Some (0, t) }
          | None \<Rightarrow> Some (1, table) }"

text \<open>The text before the first equals sign, now terminated, and the text behind it.\<close>

definition split_equals :: "char list \<Rightarrow> (char list \<times> char list) option option" where
  "split_equals args =
     do { k \<leftarrow> strchr args (CHR ''='');
          case k of Some i \<Rightarrow> do { a \<leftarrow> wr args i NUL; Some (Some (a, drop (i + 1) args)) } | None \<Rightarrow> Some None }"

subsection \<open>Expansion\<close>

definition name_char :: "char \<Rightarrow> bool" where
  "name_char c \<longleftrightarrow> (let v = (of_char c :: nat) in 65 \<le> v \<and> v \<le> 90 \<or> 48 \<le> v \<and> v \<le> 57 \<or> v = 95)"

fun read_name :: "nat \<Rightarrow> char list \<Rightarrow> char list \<Rightarrow> (nat \<times> char list \<times> char list) option" where
  "read_name i var_name [] = None"
| "read_name i var_name (c # src) =
     (if name_char c then do { b \<leftarrow> wr var_name i c; read_name (Suc i) b src } else Some (i, var_name, c # src))"

fun put_value :: "char list \<Rightarrow> nat \<Rightarrow> char list \<Rightarrow> (nat \<times> char list) option" where
  "put_value [] dest out = None"
| "put_value (c # val) dest out =
     (if c \<noteq> NUL then do { o' \<leftarrow> wr out dest c; put_value val (Suc dest) o' } else Some (dest, out))"

text \<open>One variable, from behind the dollar sign: its value and where the text goes on.\<close>

definition read_variable :: "env_var list \<Rightarrow> char list \<Rightarrow> (char list \<times> char list) option" where
  "read_variable env src =
     do { c \<leftarrow> rd src 0;
          let braced = (c = CHR ''{'');
          (i, var_name, p) \<leftarrow> read_name 0 (local_array VAR_NAME_LEN) (if braced then drop 1 src else src);
          var_name \<leftarrow> wr var_name i NUL;
          e \<leftarrow> rd p 0;
          val \<leftarrow> get_env_var var_name env;
          Some (val, if braced \<and> e = CHR ''}'' then drop 1 p else p) }"

lemma read_name_rest: "read_name i b src = Some (j, b', p) \<Longrightarrow> length p \<le> length src"
  by (induction src arbitrary: i b) (auto simp: bind_eq_Some_conv le_SucI split: if_splits)

lemma read_variable_rest: "read_variable env src = Some (val, p) \<Longrightarrow> length p \<le> length src"
  unfolding read_variable_def Let_def by (fastforce simp: bind_eq_Some_conv split: if_splits dest!: read_name_rest)

function expand_loop :: "env_var list \<Rightarrow> char list \<Rightarrow> nat \<Rightarrow> char list \<Rightarrow> char list option" where
  "expand_loop env [] dest out = None"
| "expand_loop env (c # src) dest out =
     (if c = NUL then wr out dest NUL
      else do { var \<leftarrow> (if c = CHR ''$'' then map_option (\<lambda>n. n \<noteq> NUL) (rd src 0) else Some False);
                if var then do { (val, p) \<leftarrow> read_variable env src;
                                 (d, o') \<leftarrow> put_value val dest out;
                                 expand_loop env p d o' }
                else do { o' \<leftarrow> wr out dest c; expand_loop env src (Suc dest) o' } })"
  by pat_completeness auto
termination
  by (relation "measure (\<lambda>(env, src, d, out). length src)") (auto dest: read_variable_rest)

definition expand_variables :: "env_var list \<Rightarrow> char list \<Rightarrow> char list \<Rightarrow> char list option" where
  "expand_variables env input output = expand_loop env input 0 output"

subsection \<open>The variables as a map\<close>

definition var_wf :: "env_var \<Rightarrow> bool" where
  "var_wf v \<longleftrightarrow> length (ev_name v) = VAR_NAME_LEN \<and> length (ev_value v) = VAR_VAL_LEN \<and>
     (ev_active v \<longrightarrow> NUL \<in> set (ev_name v) \<and> NUL \<in> set (ev_value v))"

definition env_wf :: "env_var list \<Rightarrow> bool" where
  "env_wf env \<longleftrightarrow> length env = MAX_ENV_VARS \<and> (\<forall>v\<in>set env. var_wf v)"

definition holds_name :: "char list \<Rightarrow> env_var \<Rightarrow> bool" where
  "holds_name k v \<longleftrightarrow> ev_active v \<and> c_string (ev_name v) = k"

definition env_map :: "env_var list \<Rightarrow> char list \<rightharpoonup> char list" where
  "env_map env k = map_option (\<lambda>v. c_string (ev_value v)) (find (holds_name k) env)"

lemma find_update_other: "\<not> P (xs ! i) \<Longrightarrow> \<not> P y \<Longrightarrow> find P (xs[i := y]) = find P xs"
  by (induction xs arbitrary: i) (auto split: nat.splits)

lemma find_update_hit: "i < length xs \<Longrightarrow> P y \<Longrightarrow> (\<And>j. j < i \<Longrightarrow> \<not> P (xs ! j)) \<Longrightarrow> find P (xs[i := y]) = Some y"
proof (induction xs arbitrary: i)
  case (Cons x xs)
  show ?case
  proof (cases i)
    case (Suc j)
    with Cons.prems(3) have "\<not> P x" "\<And>k. k < j \<Longrightarrow> \<not> P (xs ! k)" by force+
    with Suc Cons show ?thesis by simp
  qed (use Cons.prems in simp)
qed simp

lemma find_index: "find P xs = map_option ((!) xs) (find (\<lambda>i. P (xs ! i)) [0..<length xs])"
proof (cases "find (\<lambda>i. P (xs ! i)) [0..<length xs]")
  case None
  then have "\<forall>i<length xs. \<not> P (xs ! i)" by (simp add: find_upt_None)
  then have "find P xs = None" by (metis find_None_iff in_set_conv_nth)
  with None show ?thesis by simp
next
  case (Some i)
  then have "i < length xs" "P (xs ! i)" "\<And>j. j < i \<Longrightarrow> \<not> P (xs ! j)" by (auto simp: find_upt_Some)
  then have "find P (xs[i := xs ! i]) = Some (xs ! i)" by (rule find_update_hit)
  with Some show ?thesis by simp
qed

lemma env_slot_find:
  assumes "env_wf env" and "cstr name k"
  shows "env_slot name env = Some (find (\<lambda>i. holds_name k (env ! i)) [0..<MAX_ENV_VARS])"
  unfolding env_slot_def
proof (rule first_ok_eq_find)
  fix j
  assume "j < MAX_ENV_VARS"
  then have j: "j < length env" "var_wf (env ! j)" using assms(1) by (simp_all add: env_wf_def)
  show "has_name name env j = Some (holds_name k (env ! j))"
  proof (cases "ev_active (env ! j)")
    case True
    then have "cstr (ev_name (env ! j)) (c_string (ev_name (env ! j)))" using j(2) by (simp add: var_wf_def cstr_c_string)
    from strcmp_eq [OF this assms(2)] j True show ?thesis by (auto simp: has_name_def holds_name_def)
  qed (use j in \<open>simp add: has_name_def holds_name_def\<close>)
qed

lemma env_map_slot:
  assumes "env_wf env" and "cstr name k" and "env_slot name env = Some r"
  shows "env_map env k = map_option (\<lambda>i. c_string (ev_value (env ! i))) r"
    and "\<And>i. r = Some i \<Longrightarrow> i < length env \<and> ev_active (env ! i) \<and> var_wf (env ! i)"
proof -
  have len: "length env = MAX_ENV_VARS" using assms(1) by (simp add: env_wf_def)
  have r: "r = find (\<lambda>i. holds_name k (env ! i)) [0..<length env]" using env_slot_find [OF assms(1,2)] assms(3) len by simp
  then show "env_map env k = map_option (\<lambda>i. c_string (ev_value (env ! i))) r"
    unfolding env_map_def find_index [of "holds_name k" env] by (simp add: option.map_comp comp_def)
  fix i
  assume "r = Some i"
  with r [symmetric] have "i < length env" "holds_name k (env ! i)" by (simp_all add: find_upt_Some)
  then show "i < length env \<and> ev_active (env ! i) \<and> var_wf (env ! i)" using assms(1) by (auto simp: holds_name_def env_wf_def)
qed

lemma get_env_var_map:
  assumes "env_wf env" and "cstr name k"
  shows "\<exists>val. get_env_var name env = Some val \<and> cstr val (case env_map env k of None \<Rightarrow> [] | Some v \<Rightarrow> v)"
proof -
  obtain r where r: "env_slot name env = Some r" using env_slot_find [OF assms] by blast
  show ?thesis
  proof (cases r)
    case None
    then show ?thesis using env_map_slot(1) [OF assms r] r by (simp add: get_env_var_def cstr_simps)
  next
    case (Some i)
    then have "i < length env" "var_wf (env ! i)" "ev_active (env ! i)" using env_map_slot(2) [OF assms r] by auto
    then show ?thesis using env_map_slot(1) [OF assms r] r Some by (simp add: get_env_var_def var_wf_def cstr_c_string)
  qed
qed

text \<open>A new entry at \<open>i\<close> for \<open>k\<close>, where no entry before \<open>i\<close> has the name.\<close>

lemma env_put_entry:
  assumes "env_wf env" and "i < length env" and "var_wf v" and "ev_active v" and "c_string (ev_name v) = k"
    and "\<And>j. j < i \<Longrightarrow> \<not> holds_name k (env ! j)" and "\<And>k'. k' \<noteq> k \<Longrightarrow> \<not> holds_name k' (env ! i)"
  shows "env_wf (env[i := v]) \<and> env_map (env[i := v]) = (env_map env)(k \<mapsto> c_string (ev_value v))"
proof
  show "env_wf (env[i := v])" using assms(1,3) set_update_subset_insert [of env i v] by (auto simp: env_wf_def)
  have "holds_name k v" "\<And>k'. k' \<noteq> k \<Longrightarrow> \<not> holds_name k' v" using assms(4,5) by (auto simp: holds_name_def)
  then show "env_map (env[i := v]) = (env_map env)(k \<mapsto> c_string (ev_value v))"
    using find_update_hit [of i env "holds_name k" v] assms(2,6,7) by (auto simp: env_map_def fun_eq_iff find_update_other)
qed

definition var_ok :: "char list \<Rightarrow> bool" where "var_ok k \<longleftrightarrow> NUL \<notin> set k \<and> length k < VAR_NAME_LEN"
definition val_ok :: "char list \<Rightarrow> bool" where "val_ok v \<longleftrightarrow> NUL \<notin> set v \<and> length v < VAR_VAL_LEN"

lemma strncpy_array:
  assumes "cstr src s" and "length s < length d"
  shows "\<exists>b. strncpy d src (int (length d)) = Some b \<and> cstr b s \<and> length b = length d"
  using strncpy_cstr [OF assms(1), of "length d" d] assms cstr_pad [of s "length d - length s" "[]"] by (auto simp: cstr_def)

lemma set_env_var_map:
  assumes "env_wf env" and "cstr name k" and "var_ok k" and "cstr val v" and "val_ok v"
  shows "\<exists>env'. set_env_var name val env = Some env' \<and> env_wf env' \<and>
    (if (\<exists>x\<in>set env. \<not> ev_active x) \<or> k \<in> dom (env_map env) then env_map env' = (env_map env)(k \<mapsto> v) else env' = env)"
proof -
  obtain r where r: "env_slot name env = Some r" using env_slot_find [OF assms(1,2)] by blast
  have len: "length env = MAX_ENV_VARS" using assms(1) by (simp add: env_wf_def)
  have first: "r = find (\<lambda>i. holds_name k (env ! i)) [0..<MAX_ENV_VARS]" using env_slot_find [OF assms(1,2)] r by simp
  show ?thesis
  proof (cases r)
    case (Some i)
    then have i: "i < length env" "ev_active (env ! i)" "var_wf (env ! i)" using env_map_slot(2) [OF assms(1,2) r] by auto
    have h: "holds_name k (env ! i)" "\<And>j. j < i \<Longrightarrow> \<not> holds_name k (env ! j)"
      using first [symmetric] unfolding Some by (simp_all add: find_upt_Some)
    obtain b where b: "strncpy (ev_value (env ! i)) val (int VAR_VAL_LEN) = Some b" "cstr b v" "length b = VAR_VAL_LEN"
      using strncpy_array [OF assms(4), of "ev_value (env ! i)"] i(3) assms(5) by (auto simp: var_wf_def val_ok_def)
    let ?v = "(env ! i)\<lparr>ev_value := b\<rparr>"
    have "var_wf ?v" "ev_active ?v" "c_string (ev_name ?v) = k" using i b(2,3) h(1) by (auto simp: var_wf_def cstr_iff holds_name_def)
    then have put: "env_wf (env[i := ?v]) \<and> env_map (env[i := ?v]) = (env_map env)(k \<mapsto> c_string (ev_value ?v))"
      using h by (intro env_put_entry assms(1) i(1)) (auto simp: holds_name_def)
    moreover have "k \<in> dom (env_map env)" using env_map_slot(1) [OF assms(1,2) r] Some by auto
    ultimately show ?thesis using r Some i b by (auto simp: set_env_var_def c_string_cstr)
  next
    case None
    then have none: "\<And>j. j < length env \<Longrightarrow> \<not> holds_name k (env ! j)" using first len by (auto simp: find_upt_None)
    have unset: "k \<notin> dom (env_map env)" using env_map_slot(1) [OF assms(1,2) r] None by auto
    have f: "first_ok (\<lambda>i. map_option (\<lambda>v. \<not> ev_active v) (rd env i)) 0 MAX_ENV_VARS = Some (find (\<lambda>i. \<not> ev_active (env ! i)) [0..<MAX_ENV_VARS])"
      using len by (intro first_ok_eq_find) simp
    show ?thesis
    proof (cases "find (\<lambda>i. \<not> ev_active (env ! i)) [0..<MAX_ENV_VARS]")
      case None
      then have "\<forall>x\<in>set env. ev_active x" using len by (metis find_upt_None in_set_conv_nth zero_le)
      then show ?thesis using unset assms(1) r f \<open>r = None\<close> None by (auto simp: set_env_var_def)
    next
      case (Some i)
      then have i: "i < length env" "\<not> ev_active (env ! i)" using len by (auto simp: find_upt_Some)
      then have w: "var_wf (env ! i)" using assms(1) by (simp add: env_wf_def)
      obtain n where n: "strncpy (ev_name (env ! i)) name (int VAR_NAME_LEN) = Some n" "cstr n k" "length n = VAR_NAME_LEN"
        using strncpy_array [OF assms(2), of "ev_name (env ! i)"] w assms(3) by (auto simp: var_wf_def var_ok_def)
      obtain b where b: "strncpy (ev_value (env ! i)) val (int VAR_VAL_LEN) = Some b" "cstr b v" "length b = VAR_VAL_LEN"
        using strncpy_array [OF assms(4), of "ev_value (env ! i)"] w assms(5) by (auto simp: var_wf_def val_ok_def)
      let ?v = "\<lparr>ev_name = n, ev_value = b, ev_active = True\<rparr>"
      have "var_wf ?v" "ev_active ?v" "c_string (ev_name ?v) = k" using n b by (auto simp: var_wf_def cstr_iff)
      then have "env_wf (env[i := ?v]) \<and> env_map (env[i := ?v]) = (env_map env)(k \<mapsto> c_string (ev_value ?v))"
        using none i by (intro env_put_entry assms(1) i(1)) (auto simp: holds_name_def)
      moreover have "\<exists>x\<in>set env. \<not> ev_active x" using i nth_mem by blast
      ultimately show ?thesis using r f n b i(1) \<open>r = None\<close> Some by (auto simp: set_env_var_def c_string_cstr)
    qed
  qed
qed

text \<open>The store that the shell offers.\<close>

definition env_repr :: "env_var list \<Rightarrow> (char list \<rightharpoonup> char list) \<Rightarrow> bool" where
  "env_repr env m \<longleftrightarrow> env_wf env \<and> m = env_map env"

definition env_get :: "char list \<Rightarrow> env_var list \<Rightarrow> char list option option" where
  "env_get k env =
     do { r \<leftarrow> env_slot (k @ [NUL]) env;
          case r of None \<Rightarrow> Some None | Some i \<Rightarrow> do { v \<leftarrow> rd env i; Some (Some (c_string (ev_value v))) } }"

definition env_put :: "char list \<Rightarrow> char list \<Rightarrow> env_var list \<Rightarrow> (bool \<times> env_var list) option" where
  "env_put k v env =
     do { env' \<leftarrow> set_env_var (k @ [NUL]) (v @ [NUL]) env; r \<leftarrow> env_slot (k @ [NUL]) env'; Some (r \<noteq> None, env') }"

lemma env_get_spec:
  assumes "env_repr env m" and "var_ok k"
  shows "env_get k env = Some (m k)"
proof -
  have k: "env_wf env" "m = env_map env" "cstr (k @ [NUL]) k" using assms by (auto simp: env_repr_def var_ok_def)
  obtain r where r: "env_slot (k @ [NUL]) env = Some r" using env_slot_find [OF k(1,3)] by blast
  from env_map_slot [OF k(1,3) r] show ?thesis by (cases r) (auto simp: env_get_def r k(2))
qed

lemma env_put_spec:
  assumes "env_repr env m" and "var_ok k" and "val_ok v"
  shows "\<exists>b env'. env_put k v env = Some (b, env') \<and> env_repr env' (if b then m(k \<mapsto> v) else m)"
proof -
  have k: "env_wf env" "m = env_map env" "cstr (k @ [NUL]) k" "cstr (v @ [NUL]) v"
    using assms by (auto simp: env_repr_def var_ok_def val_ok_def)
  obtain env' where env': "set_env_var (k @ [NUL]) (v @ [NUL]) env = Some env'" "env_wf env'"
      "if (\<exists>x\<in>set env. \<not> ev_active x) \<or> k \<in> dom (env_map env) then env_map env' = (env_map env)(k \<mapsto> v) else env' = env"
    using set_env_var_map [OF k(1,3) assms(2) k(4) assms(3)] by blast
  obtain r where r: "env_slot (k @ [NUL]) env' = Some r" using env_slot_find [OF env'(2) k(3)] by blast
  have "r = None \<longleftrightarrow> env_map env' k = None" using env_map_slot(1) [OF env'(2) k(3) r] by simp
  then have "env_map env' = (if r \<noteq> None then m(k \<mapsto> v) else m)" using env'(3) k(2) by (auto split: if_splits)
  then show ?thesis using env'(1,2) r by (simp add: env_put_def env_repr_def)
qed

interpretation env: lookup_store env_repr var_ok val_ok "\<lambda>k m. m" env_get env_put
  by unfold_locales (simp_all add: env_get_spec env_put_spec)

lemma env_boot_repr: "env_repr env_boot Map.empty"
  by (auto simp: env_repr_def env_wf_def var_wf_def env_boot_def env_map_def holds_name_def fun_eq_iff find_None_iff)

subsection \<open>What an expansion is\<close>

text \<open>
  The pieces of a text: plain characters, and the names of the variables in it, with or without
  braces. A dollar sign at the end of the text is plain.
\<close>

definition var_name_part :: "char list \<Rightarrow> char list" where
  "var_name_part s = takeWhile name_char (if s \<noteq> [] \<and> hd s = CHR ''{'' then tl s else s)"

definition after_variable :: "char list \<Rightarrow> char list" where
  "after_variable s =
     (let braced = s \<noteq> [] \<and> hd s = CHR ''{''; q = dropWhile name_char (if braced then tl s else s)
      in if braced \<and> q \<noteq> [] \<and> hd q = CHR ''}'' then tl q else q)"

lemma after_variable_length: "length (after_variable s) \<le> length s"
proof -
  have "length (dropWhile name_char t) \<le> length t" for t by (rule length_dropWhile_le)
  from this [of s] this [of "tl s"] show ?thesis unfolding after_variable_def Let_def
    by (auto intro: le_trans [OF diff_le_self] simp: le_diff_conv)
qed

lemma after_variable_set: "set (after_variable s) \<subseteq> set s"
proof -
  have t: "set (tl xs) \<subseteq> set xs" for xs :: "char list" by (cases xs) auto
  define q where "q = dropWhile name_char (if s \<noteq> [] \<and> hd s = CHR ''{'' then tl s else s)"
  have "set q \<subseteq> set (if s \<noteq> [] \<and> hd s = CHR ''{'' then tl s else s)" unfolding q_def by (auto dest: set_dropWhileD)
  with t [of s] t [of q] show ?thesis by (auto simp: after_variable_def q_def [symmetric] split: if_splits)
qed

function pieces :: "char list \<Rightarrow> (char + char list) list" where
  "pieces [] = []"
| "pieces (c # s) =
     (if c = CHR ''$'' \<and> s \<noteq> [] then Inr (var_name_part s) # pieces (after_variable s) else Inl c # pieces s)"
  by pat_completeness auto
termination
  by (relation "measure length") (auto simp: le_imp_less_Suc after_variable_length)

definition expansion :: "(char list \<rightharpoonup> char list) \<Rightarrow> char list \<Rightarrow> char list" where
  "expansion m s = concat (map (case_sum (\<lambda>c. [c]) (\<lambda>n. case m n of None \<Rightarrow> [] | Some v \<Rightarrow> v)) (pieces s))"

lemma NUL_not_name_char: "\<not> name_char NUL" "\<not> name_char (CHR ''{'')" "\<not> name_char (CHR ''}'')"
  by (simp_all add: name_char_def)

lemma read_name_run:
  assumes "\<forall>c\<in>set n. name_char c" and "\<not> name_char e" and "i \<le> length b"
  shows "read_name i b (n @ e # r) =
    (if i + length n \<le> length b then Some (i + length n, take i b @ n @ drop (i + length n) b, e # r) else None)"
  using assms(1,3)
proof (induction n arbitrary: i b)
  case Nil
  with assms(2) show ?case by simp
next
  case (Cons c n)
  show ?case
  proof (cases "i < length b")
    case True
    with Cons.IH [of "Suc i" "b[i := c]"] Cons.prems show ?thesis by (simp add: take_Suc_conv_app_nth)
  next
    case False
    with Cons.prems show ?thesis by simp
  qed
qed

lemma put_value_run:
  assumes "cstr val v" and "d \<le> length out"
  shows "put_value val d out =
    (if d + length v \<le> length out then Some (d + length v, take d out @ v @ drop (d + length v) out) else None)"
  using assms
proof (induction v arbitrary: val d out)
  case Nil
  then show ?case by (auto simp: cstr_simps)
next
  case (Cons c v)
  then obtain r where r: "val = c # r" "c \<noteq> NUL" "cstr r v" by (auto simp: cstr_simps)
  show ?case
  proof (cases "d < length out")
    case True
    with Cons.IH [OF r(3), of "Suc d" "out[d := c]"] r show ?thesis by (simp add: take_Suc_conv_app_nth)
  next
    case False
    with r Cons.prems show ?thesis by simp
  qed
qed

lemma cstr_rest: "cstr b s \<Longrightarrow> \<exists>e r. b = s @ e # r \<and> e = NUL"
  by (auto simp: cstr_def)

text \<open>The array that holds a name.\<close>

definition name_array :: "char list \<Rightarrow> char list" where
  "name_array n = n @ NUL # drop (Suc (length n)) (local_array VAR_NAME_LEN)"

lemma read_variable_string:
  assumes "cstr src s" and "s \<noteq> []"
  shows "if length (var_name_part s) < VAR_NAME_LEN
    then \<exists>p. cstr p (after_variable s) \<and> cstr (name_array (var_name_part s)) (var_name_part s) \<and>
      read_variable env src = map_option (\<lambda>val. (val, p)) (get_env_var (name_array (var_name_part s)) env)
    else read_variable env src = None"
proof -
  obtain c t where s: "s = c # t" using assms(2) by (cases s) auto
  with assms(1) obtain src' where src: "src = c # src'" "cstr src' t" "c \<noteq> NUL" by (auto simp: cstr_simps)
  let ?braced = "c = CHR ''{''"
  define u where "u = (if ?braced then t else s)"
  define ub where "ub = (if ?braced then drop 1 src else src)"
  have ub: "cstr ub u" using src s assms(1) by (simp add: u_def ub_def)
  define n where "n = takeWhile name_char u"
  define q where "q = dropWhile name_char u"
  have nq: "u = n @ q" "\<forall>x\<in>set n. name_char x" by (auto simp: n_def q_def dest: set_takeWhileD)
  have v: "var_name_part s = n" by (simp add: var_name_part_def s n_def u_def)
  have a: "after_variable s = (if ?braced \<and> q \<noteq> [] \<and> hd q = CHR ''}'' then tl q else q)"
    by (simp add: after_variable_def s q_def u_def)
  from ub nq(1) obtain r where r: "ub = n @ (q @ NUL # r)" "NUL \<notin> set n" "NUL \<notin> set q" by (auto simp: cstr_def)
  obtain e r' where e: "q @ NUL # r = e # r'" "\<not> name_char e" "q \<noteq> [] \<longrightarrow> e = hd q" "q = [] \<longrightarrow> e = NUL"
  proof (cases q)
    case Nil
    then show ?thesis using that NUL_not_name_char(1) by simp
  next
    case (Cons x q')
    then have "\<not> name_char x" using hd_dropWhile [of name_char u] by (simp add: q_def)
    with Cons show ?thesis using that by simp
  qed
  have cq: "cstr (e # r') q" using r(3) e(1) by (metis cstrI)
  have read: "read_name 0 (local_array VAR_NAME_LEN) ub =
      (if length n \<le> VAR_NAME_LEN then Some (length n, n @ drop (length n) (local_array VAR_NAME_LEN), e # r') else None)"
    using read_name_run [OF nq(2) e(2), of 0 "local_array VAR_NAME_LEN" r'] r(1) e(1) by simp
  have rv: "read_variable env src = do { (i, b, p) \<leftarrow> read_name 0 (local_array VAR_NAME_LEN) ub; b \<leftarrow> wr b i NUL; e \<leftarrow> rd p 0;
      val \<leftarrow> get_env_var b env; Some (val, if ?braced \<and> e = CHR ''}'' then drop 1 p else p) }"
    using src(1) by (simp add: read_variable_def ub_def)
  show ?thesis
  proof (cases "length n < VAR_NAME_LEN")
    case True
    let ?p = "if ?braced \<and> e = CHR ''}'' then r' else e # r'"
    have d: "drop (length n) (local_array VAR_NAME_LEN) = NUL # drop (Suc (length n)) (local_array VAR_NAME_LEN)"
      using True by (metis Cons_nth_drop_Suc length_local_array local_array_def nth_replicate)
    have "cstr ?p (after_variable s)"
      using cq e(3,4) unfolding a by (cases q) (auto simp: cstr_simps)
    moreover have "cstr (name_array n) n" using r(2) unfolding name_array_def by (rule cstrI)
    moreover have "wr (n @ drop (length n) (local_array VAR_NAME_LEN)) (length n) NUL = Some (name_array n)"
      unfolding d name_array_def by (simp add: wr_def)
    then have "read_variable env src = map_option (\<lambda>val. (val, ?p)) (get_env_var (name_array n) env)"
      unfolding rv read using True by (cases "get_env_var (name_array n) env") simp_all
    ultimately show ?thesis using True v by auto
  next
    case False
    have "read_variable env src = None"
      unfolding rv read using False by (auto simp: wr_def)
    with False v show ?thesis by simp
  qed
qed

lemma read_variable_run:
  assumes "env_wf env" and "cstr src s" and "s \<noteq> []"
  shows "if length (var_name_part s) < VAR_NAME_LEN
    then \<exists>val p. read_variable env src = Some (val, p) \<and> cstr p (after_variable s) \<and>
      cstr val (case env_map env (var_name_part s) of None \<Rightarrow> [] | Some v \<Rightarrow> v)
    else read_variable env src = None"
proof (cases "length (var_name_part s) < VAR_NAME_LEN")
  case True
  then obtain p where p: "cstr p (after_variable s)" "cstr (name_array (var_name_part s)) (var_name_part s)"
      "read_variable env src = map_option (\<lambda>val. (val, p)) (get_env_var (name_array (var_name_part s)) env)"
    using read_variable_string [OF assms(2,3), of env] by auto
  with get_env_var_map [OF assms(1) p(2)] True show ?thesis by auto
qed (use read_variable_string [OF assms(2,3), of env] in simp)

text \<open>The expansion depends on nothing behind the terminator of its input.\<close>

lemma expand_loop_string:
  "cstr src s \<Longrightarrow> cstr src' s \<Longrightarrow> expand_loop env src d out = expand_loop env src' d out"
proof (induction s arbitrary: src src' d out rule: pieces.induct)
  case 1
  then show ?case by (auto simp: cstr_simps)
next
  case (2 c s)
  from 2(3,4) obtain r r' where r: "src = c # r" "src' = c # r'" "c \<noteq> NUL" "cstr r s" "cstr r' s" by (auto simp: cstr_simps)
  show ?case
  proof (cases "c = CHR ''$'' \<and> s \<noteq> []")
    case True
    then obtain n n' where n: "rd r 0 = Some n" "n \<noteq> NUL" "rd r' 0 = Some n'" "n' \<noteq> NUL"
      using r(4,5) by (cases s) (auto simp: cstr_simps)
    have step: "expand_loop env src d out = do { (val, p) \<leftarrow> read_variable env r; (d, o') \<leftarrow> put_value val d out; expand_loop env p d o' }"
      "expand_loop env src' d out = do { (val, p) \<leftarrow> read_variable env r'; (d, o') \<leftarrow> put_value val d out; expand_loop env p d o' }"
      using True r n by simp_all
    show ?thesis
    proof (cases "length (var_name_part s) < VAR_NAME_LEN")
      case small: True
      obtain p where p: "cstr p (after_variable s)"
          "read_variable env r = map_option (\<lambda>val. (val, p)) (get_env_var (name_array (var_name_part s)) env)"
        using read_variable_string [OF r(4), of env] True small by auto
      obtain p' where p': "cstr p' (after_variable s)"
          "read_variable env r' = map_option (\<lambda>val. (val, p')) (get_env_var (name_array (var_name_part s)) env)"
        using read_variable_string [OF r(5), of env] True small by auto
      have "expand_loop env p = expand_loop env p'" by (intro ext 2(1) [OF True p(1) p'(1)])
      then show ?thesis unfolding step p(2) p'(2) by (cases "get_env_var (name_array (var_name_part s)) env") auto
    next
      case False
      then show ?thesis
        using read_variable_string [OF r(4), of env] read_variable_string [OF r(5), of env] True unfolding step by simp
    qed
  next
    case False
    have "rd r 0 \<noteq> None" "rd r' 0 \<noteq> None" using r(4,5) by (cases r; cases r'; auto simp: cstr_def)+
    moreover have "c = CHR ''$'' \<Longrightarrow> rd r 0 = Some NUL \<and> rd r' 0 = Some NUL" using False r(4,5) by (auto simp: cstr_simps)
    ultimately have step: "expand_loop env src d out = do { o' \<leftarrow> wr out d c; expand_loop env r (Suc d) o' }"
      "expand_loop env src' d out = do { o' \<leftarrow> wr out d c; expand_loop env r' (Suc d) o' }" using r by auto
    have "expand_loop env r = expand_loop env r'" by (intro ext 2(2) [OF False r(4,5)])
    then show ?thesis unfolding step by simp
  qed
qed

text \<open>All names fit the array for a name.\<close>

definition names_fit :: "char list \<Rightarrow> bool" where
  "names_fit s \<longleftrightarrow> (\<forall>n. Inr n \<in> set (pieces s) \<longrightarrow> length n < VAR_NAME_LEN)"

lemma expand_loop_run:
  assumes "env_wf env" and "cstr src s" and "d \<le> length out"
  shows "expand_loop env src d out =
    (if names_fit s \<and> d + length (expansion (env_map env) s) < length out
     then Some (take d out @ expansion (env_map env) s @ NUL # drop (d + length (expansion (env_map env) s) + 1) out) else None)"
  using assms(2,3)
proof (induction s arbitrary: src d out rule: pieces.induct)
  case 1
  then obtain r where "src = NUL # r" by (auto simp: cstr_simps)
  with 1 show ?case by (auto simp: names_fit_def expansion_def upd_conv_take_nth_drop wr_def)
next
  case (2 c s)
  from 2(3) obtain r where r: "src = c # r" "c \<noteq> NUL" "cstr r s" by (auto simp: cstr_simps)
  show ?case
  proof (cases "c = CHR ''$'' \<and> s \<noteq> []")
    case True
    then obtain n where n: "rd r 0 = Some n" "n \<noteq> NUL" using r(3) by (cases s) (auto simp: cstr_simps)
    let ?v = "case env_map env (var_name_part s) of None \<Rightarrow> [] | Some v \<Rightarrow> v"
    have x: "expansion (env_map env) (c # s) = ?v @ expansion (env_map env) (after_variable s)"
      and f: "names_fit (c # s) \<longleftrightarrow> length (var_name_part s) < VAR_NAME_LEN \<and> names_fit (after_variable s)"
      using True by (auto simp: expansion_def names_fit_def)
    have step: "expand_loop env src d out =
        do { (val, p) \<leftarrow> read_variable env r; (d, o') \<leftarrow> put_value val d out; expand_loop env p d o' }"
      using True r n by simp
    show ?thesis
    proof (cases "length (var_name_part s) < VAR_NAME_LEN")
      case small: True
      then obtain val p where v: "read_variable env r = Some (val, p)" "cstr p (after_variable s)" "cstr val ?v"
        using read_variable_run [OF assms(1) r(3)] True by auto
      show ?thesis
      proof (cases "d + length ?v \<le> length out")
        case True
        define w where "w = ?v"
        define out1 where "out1 = take d out @ w @ drop (d + length w) out"
        have w: "d + length w \<le> length out" using True unfolding w_def .
        then have o: "length out1 = length out" "take (d + length w) out1 = take d out @ w" "d + length w \<le> length out1"
          "drop (d + length w + k) out1 = drop (d + length w + k) out" for k
          by (simp_all add: out1_def add.commute)
        have "put_value val d out = Some (d + length w, out1)" using put_value_run [OF v(3) 2(4)] True by (simp add: out1_def w_def)
        then have "expand_loop env src d out = expand_loop env p (d + length w) out1" unfolding step v(1) by simp
        also note 2(1) [OF \<open>c = CHR ''$'' \<and> s \<noteq> []\<close> v(2) o(3)]
        finally show ?thesis unfolding x f w_def [symmetric] using small o(1,2) o(4) [of "Suc (length (expansion (env_map env) (after_variable s)))"]
          by (simp add: add.assoc)
      next
        case False
        then have "expand_loop env src d out = None" unfolding step v(1) using put_value_run [OF v(3) 2(4)] by simp
        with False show ?thesis unfolding x by simp
      qed
    next
      case False
      then have "read_variable env r = None" using read_variable_run [OF assms(1) r(3)] True by auto
      with False show ?thesis unfolding step f by simp
    qed
  next
    case False
    have "rd r 0 \<noteq> None" using r(3) by (cases r) (auto simp: cstr_def)
    moreover have "c = CHR ''$'' \<Longrightarrow> rd r 0 = Some NUL" using False r(3) by (auto simp: cstr_simps)
    ultimately have step: "expand_loop env src d out = do { o' \<leftarrow> wr out d c; expand_loop env r (Suc d) o' }" using r by auto
    have x: "expansion (env_map env) (c # s) = c # expansion (env_map env) s" and f: "names_fit (c # s) \<longleftrightarrow> names_fit s"
      using False by (auto simp: expansion_def names_fit_def)
    show ?thesis
    proof (cases "d < length out")
      case True
      with 2(2) [OF False r(3), of "Suc d" "out[d := c]"] show ?thesis
        unfolding step x f by (simp add: take_Suc_conv_app_nth)
    next
      case False
      with 2(4) show ?thesis unfolding step x by simp
    qed
  qed
qed

text \<open>
  C37: Expansion of variables. With well-formed variables, the command line that is executed is the typed one with each
  \<open>$NAME\<close> and \<open>${NAME}\<close> replaced by the value of the variable (nothing for one that is not set), and this is
  so exactly when every name has less than 32 characters and the result fits the array it is written to
  with its terminator. In every other case the function writes past one of the two arrays.
\<close>
theorem expansion_exact:
  assumes "env_wf env" and "cstr input s"
  shows "if names_fit s \<and> length (expansion (env_map env) s) < length output
    then \<exists>b. expand_variables env input output = Some b \<and> cstr b (expansion (env_map env) s) \<and> length b = length output
    else expand_variables env input output = None"
proof -
  have "NUL \<notin> set (expansion (env_map env) s)"
  proof -
    have "NUL \<notin> set s" using assms(2) by (simp add: cstr_def)
    then have p: "Inl NUL \<notin> set (pieces s)"
    proof (induction s rule: pieces.induct)
      case (2 c s)
      with after_variable_set [of s] show ?case by auto
    qed simp
    moreover have "NUL \<notin> set v" if "env_map env n = Some v" for n v
      using that by (auto simp: env_map_def c_string_def dest: set_takeWhileD)
    ultimately show ?thesis by (auto simp: expansion_def split: sum.splits option.splits)
  qed
  then show ?thesis using expand_loop_run [OF assms, of 0 "output"] by (auto simp: expand_variables_def)
qed

theorem expansion_exact_witness:
  "\<exists>env b. set_env_var (''X'' @ [NUL]) (''ab'' @ [NUL]) env_boot = Some env \<and>
     expand_variables env (''-${X}$X$'' @ [NUL]) (local_array 8) = Some b \<and> c_string b = ''-abab$'' \<and>
     expand_variables env (''$X$X$X$X'' @ [NUL]) (local_array 8) = None"
proof -
  have boot: "env_wf env_boot" "env_map env_boot = Map.empty" using env_boot_repr by (simp_all add: env_repr_def)
  obtain env where env: "set_env_var (''X'' @ [NUL]) (''ab'' @ [NUL]) env_boot = Some env" "env_wf env"
      "env_map env = [''X'' \<mapsto> ''ab'']"
    using set_env_var_map [of env_boot "''X'' @ [NUL]" "''X''" "''ab'' @ [NUL]" "''ab''"] boot
    by (auto simp: var_ok_def val_ok_def VAR_NAME_LEN_def VAR_VAL_LEN_def cstr_simps env_boot_def MAX_ENV_VARS_def split: if_splits)
  have p: "pieces ''-${X}$X$'' = [Inl (CHR ''-''), Inr ''X'', Inr ''X'', Inl (CHR ''$'')]"
    "pieces ''$X$X$X$X'' = [Inr ''X'', Inr ''X'', Inr ''X'', Inr ''X'']"
    by (simp_all add: var_name_part_def after_variable_def name_char_def)
  have "names_fit ''-${X}$X$''" "expansion (env_map env) ''-${X}$X$'' = ''-abab$''" "expansion (env_map env) ''$X$X$X$X'' = ''abababab''"
    unfolding names_fit_def expansion_def p env(3) by (auto simp: VAR_NAME_LEN_def)
  moreover have "cstr (''-${X}$X$'' @ [NUL]) ''-${X}$X$''" "cstr (''$X$X$X$X'' @ [NUL]) ''$X$X$X$X''" by (simp_all add: cstr_simps)
  ultimately obtain b where "expand_variables env (''-${X}$X$'' @ [NUL]) (local_array 8) = Some b" "cstr b ''-abab$''"
      "expand_variables env (''$X$X$X$X'' @ [NUL]) (local_array 8) = None"
    using expansion_exact [OF env(2), of "''-${X}$X$'' @ [NUL]" "''-${X}$X$''" "local_array 8"]
      expansion_exact [OF env(2), of "''$X$X$X$X'' @ [NUL]" "''$X$X$X$X''" "local_array 8"] by auto
  with env(1) show ?thesis by (auto simp: c_string_cstr)
qed

end
