(* ===== verification/Shell.thy ===== *)
theory Shell
  imports Shell_Env Vfs Ramfs Keyboard
begin

text \<open>
  The kernel shell: users and login (\<open>usr/auth.c\<close>), reading the keyboard, the commands that change state
  and the execution of a command line (\<open>usr/commands.c\<close>). The file commands work on the virtual file
  system (theory \<open>Vfs\<close>), except that \<open>rm\<close> with a star works on the table based one (theory \<open>Ramfs\<close>).
  Commands that only print, or that belong to other parts, are a parameter, as are the initial contents of
  local arrays that the code may read before it has written them. The value of a function that ends without
  a \<open>return\<close> is None; using it is undefined.
\<close>

subsection \<open>Users\<close>

definition MAX_USERS :: nat where "MAX_USERS = 10"

record user =
  username :: "char list"
  password :: "char list"
  user_cwd :: "char list"
  user_active :: bool

record accounts =
  users :: "user list"
  current_user_index :: int
  current_user :: "char list"

definition accounts_boot :: accounts where
  "accounts_boot = \<lparr>users = replicate MAX_USERS \<lparr>username = replicate 32 NUL, password = replicate 32 NUL,
       user_cwd = replicate 255 NUL, user_active = False\<rparr>,
     current_user_index = -1, current_user = replicate 32 NUL\<rparr>"

definition auth_init :: "accounts \<Rightarrow> accounts option" where
  "auth_init a =
     do { us \<leftarrow> for_up 0 MAX_USERS (\<lambda>i us. do { u \<leftarrow> rd us i; wr us i (u\<lparr>user_active := False\<rparr>) }) (users a);
          Some (a\<lparr>users := us\<rparr>) }"

definition add_user :: "char list \<Rightarrow> char list \<Rightarrow> accounts \<Rightarrow> accounts option" where
  "add_user name pass a =
     do { k \<leftarrow> first_ok (\<lambda>i. map_option (\<lambda>u. \<not> user_active u) (rd (users a) i)) 0 MAX_USERS;
          case k of
            Some i \<Rightarrow> do { u \<leftarrow> rd (users a) i;
                          n \<leftarrow> strncpy (username u) name 31;
                          p \<leftarrow> strncpy (password u) pass 31;
                          c \<leftarrow> strcpy (user_cwd u) (''/'' @ [NUL]);
                          us \<leftarrow> wr (users a) i \<lparr>username = n, password = p, user_cwd = c, user_active = True\<rparr>;
                          Some (a\<lparr>users := us\<rparr>) }
          | None \<Rightarrow> Some a }"

definition login_matches :: "char list \<Rightarrow> char list \<Rightarrow> user list \<Rightarrow> nat \<Rightarrow> bool option" where
  "login_matches name pass us i =
     do { u \<leftarrow> rd us i;
          if \<not> user_active u then Some False
          else do { n \<leftarrow> strcmp (username u) name;
                    if n \<noteq> 0 then Some False else do { p \<leftarrow> strcmp (password u) pass; Some (p = 0) } } }"

definition check_login :: "char list \<Rightarrow> char list \<Rightarrow> accounts \<Rightarrow> (bool \<times> accounts) option" where
  "check_login name pass a =
     do { k \<leftarrow> first_ok (login_matches name pass (users a)) 0 MAX_USERS;
          case k of
            Some i \<Rightarrow> do { u \<leftarrow> rd (users a) i;
                          c \<leftarrow> strncpy (current_user a) (username u) 31;
                          Some (True, a\<lparr>current_user_index := int i, current_user := c\<rparr>) }
          | None \<Rightarrow> Some (False, a) }"

definition any_active :: "accounts \<Rightarrow> bool option" where
  "any_active a = map_option (\<lambda>k. k \<noteq> None) (first_ok (\<lambda>i. map_option user_active (rd (users a) i)) 0 MAX_USERS)"

subsection \<open>The keyboard, polled\<close>

record modifiers =
  kbd_shift :: bool
  kbd_caps :: bool
  kbd_ctrl :: bool
  kbd_layout :: nat

text \<open>
  A letter outside ASCII in a character constant of the table is the low byte of its UTF-8 encoding.
\<close>

definition chars_to_map :: "char list \<Rightarrow> u8 list" where
  "chars_to_map cs = map (\<lambda>c. of_nat (of_char c)) cs @ replicate (128 - length cs) 0"

definition us_map :: "u8 list" where
  "us_map = chars_to_map ([CHR 0x00, CHR 0x1B] @ ''1234567890-='' @ [CHR 0x08, CHR 0x09] @ ''qwertyuiop[]'' @ [CHR 0x0A, NUL] @
     ''asdfghjkl;'' @ [CHR 0x27] @ ''`'' @ [NUL, CHR 0x5C] @ ''zxcvbnm,./'' @ [NUL, CHR ''*'', NUL, CHR '' '', NUL])"

definition us_shift_map :: "u8 list" where
  "us_shift_map = chars_to_map ([CHR 0x00, CHR 0x1B] @ ''!@#$%^&*()_+'' @ [CHR 0x08, CHR 0x09] @ ''QWERTYUIOP{}'' @ [CHR 0x0A, NUL] @
     ''ASDFGHJKL:'' @ [CHR 0x22] @ ''~'' @ [NUL] @ ''|ZXCVBNM<>?'' @ [NUL, CHR ''*'', NUL, CHR '' '', NUL])"

definition es_map :: "u8 list" where
  "es_map = chars_to_map ([CHR 0x00, CHR 0x1B] @ ''1234567890'' @ [CHR 0x27, CHR 0xA1, CHR 0x08, CHR 0x09] @ ''qwertyuiop`+'' @ [CHR 0x0A, NUL] @
     ''asdfghjkl'' @ [CHR 0xB1, CHR ''{'', CHR 0xBA, NUL, CHR 0xA7] @ ''zxcvbnm,.-'' @ [NUL, CHR ''*'', NUL, CHR '' '', NUL])"

definition es_shift_map :: "u8 list" where
  "es_shift_map = chars_to_map ([CHR 0x00, CHR 0x1B, CHR ''!'', CHR 0x22, CHR 0xB7] @ ''$%&/()=?'' @ [CHR 0xBF, CHR 0x08, CHR 0x09] @
     ''QWERTYUIOP^*'' @ [CHR 0x0A, NUL] @ ''ASDFGHJKL'' @ [CHR 0x91, CHR ''['', CHR 0xAA, NUL, CHR 0x87] @ ''ZXCVBNM;:_'' @
     [NUL, CHR ''*'', NUL, CHR '' '', NUL])"

definition kbd_maps :: "u8 list list list" where
  "kbd_maps = [[us_map, us_shift_map], [es_map, es_shift_map]]"

text \<open>\<open>raw_get_char\<close> over the scan codes still to come; None when it waits for ever.\<close>

definition caps_case :: "modifiers \<Rightarrow> u8 \<Rightarrow> u8" where
  "caps_case m mapped =
     (if 97 \<le> mapped \<and> mapped \<le> 122 then (if kbd_caps m \<noteq> kbd_shift m then mapped - 32 else mapped)
      else if 65 \<le> mapped \<and> mapped \<le> 90 then (if kbd_caps m = kbd_shift m then mapped + 32 else mapped)
      else mapped)"

fun raw_get_char :: "u8 list \<Rightarrow> modifiers \<Rightarrow> (char \<times> modifiers \<times> u8 list) option" where
  "raw_get_char [] m = None"
| "raw_get_char (scancode # codes) m =
     (if scancode AND 0x80 \<noteq> 0
      then (let released = scancode AND 0x7F;
                m1 = (if released = 0x2A \<or> released = 0x36 then m\<lparr>kbd_shift := False\<rparr> else m);
                m2 = (if released = 0x1D then m1\<lparr>kbd_ctrl := False\<rparr> else m1)
            in raw_get_char codes m2)
      else if scancode = 0x2A \<or> scancode = 0x36 then raw_get_char codes (m\<lparr>kbd_shift := True\<rparr>)
      else if scancode = 0x1D then raw_get_char codes (m\<lparr>kbd_ctrl := True\<rparr>)
      else if scancode = 0x3A then raw_get_char codes (m\<lparr>kbd_caps := \<not> kbd_caps m\<rparr>)
      else if kbd_ctrl m \<and> scancode = 0x2E then Some (CHR 0x03, m, codes)
      else if kbd_ctrl m \<and> scancode = 0x2F then Some (CHR 0x16, m, codes)
      else do { layout \<leftarrow> rd kbd_maps (kbd_layout m);
                table \<leftarrow> rd layout (if kbd_shift m then 1 else 0);
                mapped \<leftarrow> rd table (unat scancode);
                if mapped > 0 then Some (char_of (unat (caps_case m mapped)), m, codes) else raw_get_char codes m })"

lemma raw_get_char_rest: "raw_get_char codes m = Some (c, m', codes') \<Longrightarrow> length codes' < length codes"
  by (induction codes arbitrary: m) (fastforce simp: Let_def bind_eq_Some_conv split: if_splits)+

text \<open>The dialogue for one field: at most 31 characters; a field that fills up gets no terminator.\<close>

function login_field :: "nat \<Rightarrow> char list \<Rightarrow> modifiers \<Rightarrow> u8 list \<Rightarrow> (char list \<times> modifiers \<times> u8 list) option" where
  "login_field i temp m codes =
     (if i < 31
      then do { (c, m', codes') \<leftarrow> raw_get_char codes m;
                if c = CHR 0x0A then do { t \<leftarrow> wr temp i NUL; Some (t, m', codes') }
                else if c = CHR 0x08 \<and> i > 0 then login_field (i - 1) temp m' codes'
                else if kbd_printable c then do { t \<leftarrow> wr temp i c; login_field (i + 1) t m' codes' }
                else login_field i temp m' codes' }
      else Some (temp, m, codes))"
  by pat_completeness auto
termination
  by (relation "measure (\<lambda>(i, t, m, codes). length codes)") (auto dest: raw_get_char_rest)

declare login_field.simps [simp del]

subsection \<open>The state of the shell\<close>

definition HISTORY_MAX :: nat where "HISTORY_MAX = 10"

record shell =
  env_vars :: "env_var list"
  alias_table :: "alias_entry list"
  accts :: accounts
  mods :: modifiers
  scancodes :: "u8 list"
  command_history :: "char list list"
  history_count :: int
  history_current_index :: int
  sys_domainname :: "char list"
  loop_source_file :: "char list"
  loop_active :: bool
  sh_kbd :: kbd
  sh_vfs :: vfs
  sh_ramfs :: ramfs

definition add_to_history :: "char list \<Rightarrow> shell \<Rightarrow> shell option" where
  "add_to_history cmd s =
     do { len \<leftarrow> strlen cmd;
          if len = 0 then Some s
          else do { same \<leftarrow> (if history_count s > 0
                          then do { h \<leftarrow> rd (command_history s) (nat (history_count s - 1) mod HISTORY_MAX);
                                    r \<leftarrow> strcmp cmd h;
                                    Some (r = 0) }
                          else Some False);
                    if same then Some s
                    else do { let k = nat (history_count s) mod HISTORY_MAX;
                              h \<leftarrow> rd (command_history s) k;
                              b \<leftarrow> strncpy h cmd (int INPUT_BUFFER_SIZE);
                              hs \<leftarrow> wr (command_history s) k b;
                              n \<leftarrow> int32 (history_count s + 1);
                              Some (s\<lparr>command_history := hs, history_count := n, history_current_index := -1\<rparr>) } } }"

datatype command =
  Cmd_help | Cmd_version | Cmd_mkdir | Cmd_clear | Cmd_whoami | Cmd_touch | Cmd_ls | Cmd_cd | Cmd_pwd | Cmd_usr |
  Cmd_mdev | Cmd_rm | Cmd_uptime | Cmd_bluefetch | Cmd_logout | Cmd_msg | Cmd_halt | Cmd_reboot | Cmd_set | Cmd_alias |
  Cmd_losetup | Cmd_free | Cmd_env | Cmd_bc | Cmd_cp | Cmd_mv | Cmd_qsh | Cmd_printf | Cmd_stty | Cmd_pwait | Cmd_nproc |
  Cmd_expr | Cmd_ed | Cmd_domainname | Cmd_dd | Cmd_cal | Cmd_ascii | Cmd_tree | Cmd_run | Cmd_kbd

type_synonym status = "int option"

text \<open>
  What the shell relies on: the tables of the mounted drivers, the address of the empty string, the
  commands not modelled here, and what local arrays contain before they are written.
\<close>

record host =
  h_files :: foreign
  h_empty :: u32
  h_other :: "command \<Rightarrow> char list \<Rightarrow> shell \<Rightarrow> (status \<times> shell) option"
  h_local :: "nat \<Rightarrow> char list"

subsection \<open>Files\<close>

definition copy_file :: "host \<Rightarrow> char list \<Rightarrow> char list \<Rightarrow> shell \<Rightarrow> (int \<times> shell) option" where
  "copy_file h src dest s =
     do { node \<leftarrow> vfs_findfile (h_files h) (Some src) (sh_vfs s);
          if node = 0 then Some (-1, s)
          else do { n \<leftarrow> node_at (sh_vfs s) node;
                    (r, v) \<leftarrow> vfs_touch (h_files h) (Some dest) (v_ptr n) (sh_vfs s);
                    Some (if r \<noteq> 0 then -1 else 0, s\<lparr>sh_vfs := v\<rparr>) } }"

definition move_file :: "host \<Rightarrow> char list \<Rightarrow> char list \<Rightarrow> shell \<Rightarrow> (int \<times> shell) option" where
  "move_file h src dest s =
     do { node \<leftarrow> vfs_findfile (h_files h) (Some src) (sh_vfs s);
          if node = 0 then Some (-1, s)
          else do { d \<leftarrow> vfs_findfile (h_files h) (Some dest) (sh_vfs s);
                    if d \<noteq> 0 then Some (-1, s)
                    else do { n \<leftarrow> node_at (sh_vfs s) node;
                              b \<leftarrow> strncpy (v_name n) dest (VFS_NAME_MAX - 1);
                              b \<leftarrow> wr b 255 NUL;
                              Some (0, s\<lparr>sh_vfs := (sh_vfs s)\<lparr>nodes := (nodes (sh_vfs s))(node \<mapsto> n\<lparr>v_name := b\<rparr>)\<rparr>\<rparr>) } } }"

text \<open>The two words of \<open>mv\<close> and \<open>cp\<close>: the first now terminated, the second behind all blanks.\<close>

definition two_words :: "char list \<Rightarrow> (char list \<times> char list) option option" where
  "two_words args =
     do { k \<leftarrow> strchr args (CHR '' '');
          case k of
            Some i \<Rightarrow> do { a \<leftarrow> wr args i NUL; b \<leftarrow> skip_spaces (drop (i + 1) args); Some (Some (a, b)) }
          | None \<Rightarrow> Some None }"

definition cmd_mv :: "host \<Rightarrow> char list \<Rightarrow> shell \<Rightarrow> (status \<times> shell) option" where
  "cmd_mv h args s =
     do { len \<leftarrow> strlen args;
          if len = 0 then Some (Some 1, s)
          else do { w \<leftarrow> two_words args;
                    case w of None \<Rightarrow> Some (Some 1, s)
                    | Some (a, b) \<Rightarrow> do { (_, s') \<leftarrow> move_file h a b s; Some (Some 0, s') } } }"

definition cmd_cp :: "host \<Rightarrow> char list \<Rightarrow> shell \<Rightarrow> (status \<times> shell) option" where
  "cmd_cp h args s =
     do { len \<leftarrow> strlen args;
          if len = 0 then Some (Some 1, s)
          else do { w \<leftarrow> two_words args;
                    case w of None \<Rightarrow> Some (Some 1, s)
                    | Some (a, b) \<Rightarrow> do { src \<leftarrow> strncpy (h_local h 2) a 31;
                                        dest \<leftarrow> strncpy (h_local h 3) b 31;
                                        (_, s') \<leftarrow> copy_file h src dest s;
                                        Some (Some 0, s') } } }"

text \<open>A word of at most 31 characters into an array, with its terminator.\<close>

fun copy_word :: "nat \<Rightarrow> char list \<Rightarrow> char list \<Rightarrow> char list option" where
  "copy_word k b [] = None"
| "copy_word k b (c # p) =
     (if c \<noteq> CHR '' '' \<and> c \<noteq> NUL \<and> k < 31 then do { b' \<leftarrow> wr b k c; copy_word (Suc k) b' p } else wr b k NUL)"

definition cmd_dd :: "host \<Rightarrow> char list \<Rightarrow> shell \<Rightarrow> (status \<times> shell) option" where
  "cmd_dd h args s =
     do { len \<leftarrow> strlen args;
          if len = 0 then Some (Some 1, s)
          else do { if_ptr \<leftarrow> strstr args (''if='' @ [NUL]);
                    of_ptr \<leftarrow> strstr args (''of='' @ [NUL]);
                    case (if_ptr, of_ptr) of
                      (Some i, Some j) \<Rightarrow>
                        do { src \<leftarrow> copy_word 0 (local_array 32) (drop (i + 3) args);
                             dst \<leftarrow> copy_word 0 (local_array 32) (drop (j + 3) args);
                             (_, s') \<leftarrow> copy_file h src dst s;
                             Some (Some 0, s') }
                    | _ \<Rightarrow> Some (Some 1, s) } }"

definition cmd_mkdir :: "host \<Rightarrow> char list \<Rightarrow> shell \<Rightarrow> (status \<times> shell) option" where
  "cmd_mkdir h args s = do { (_, v) \<leftarrow> vfs_mkdir (h_files h) (Some args) (sh_vfs s); Some (Some 0, s\<lparr>sh_vfs := v\<rparr>) }"

definition cmd_touch :: "host \<Rightarrow> char list \<Rightarrow> shell \<Rightarrow> (status \<times> shell) option" where
  "cmd_touch h args s =
     do { len \<leftarrow> strlen args;
          if len > 0 then do { (_, v) \<leftarrow> vfs_touch (h_files h) (Some args) (h_empty h) (sh_vfs s); Some (None, s\<lparr>sh_vfs := v\<rparr>) }
          else Some (None, s) }"

definition cmd_cd :: "host \<Rightarrow> char list \<Rightarrow> shell \<Rightarrow> (status \<times> shell) option" where
  "cmd_cd h args s =
     do { len \<leftarrow> strlen args;
          (r, v) \<leftarrow> vfs_chdir (h_files h) (Some (if len = 0 then SLASH else args)) (sh_vfs s);
          Some (Some (if r = 0 then 0 else 1), s\<lparr>sh_vfs := v\<rparr>) }"

text \<open>Removing the matching files from the table, from the last to the first; the rest moves up.\<close>

primrec rm_matching :: "nat \<Rightarrow> char list \<Rightarrow> nat \<Rightarrow> nat \<times> FileEntry list \<Rightarrow> (nat \<times> FileEntry list) option" where
  "rm_matching 0 pattern dir ct = Some ct"
| "rm_matching (Suc i) pattern dir ct =
     do { f \<leftarrow> rd (snd ct) i;
          hit \<leftarrow> (if f_parent f = dir then match_wildcard pattern (f_name f) else Some False);
          if hit then do { t \<leftarrow> shift_down i (fst ct) (snd ct); rm_matching i pattern dir (fst ct - 1, t) }
          else rm_matching i pattern dir ct }"

definition fs_rm_wildcard :: "host \<Rightarrow> char list \<Rightarrow> shell \<Rightarrow> shell option" where
  "fs_rm_wildcard h pattern s =
     do { star \<leftarrow> strchr pattern (CHR ''*'');
          if star = None then do { (_, v) \<leftarrow> vfs_rm (h_files h) (Some pattern) (sh_vfs s); Some (s\<lparr>sh_vfs := v\<rparr>) }
          else do { let r = sh_ramfs s;
                    (n, t) \<leftarrow> rm_matching (file_count r) pattern (current_directory r) (file_count r, file_table r);
                    Some (s\<lparr>sh_ramfs := r\<lparr>file_count := n, file_table := t\<rparr>\<rparr>) } }"

text \<open>The letters of the option word: only whether \<open>f\<close> is among them has an effect.\<close>

fun rm_options :: "bool \<Rightarrow> char list \<Rightarrow> (bool \<times> char list) option" where
  "rm_options force [] = None"
| "rm_options force (c # p) =
     (if c \<noteq> CHR '' '' \<and> c \<noteq> NUL then rm_options (force \<or> c = CHR ''f'') p else Some (force, c # p))"

definition cmd_rm :: "host \<Rightarrow> char list \<Rightarrow> shell \<Rightarrow> (status \<times> shell) option" where
  "cmd_rm h args s =
     do { c \<leftarrow> rd args 0;
          (force, path) \<leftarrow> (if c = CHR ''-'' then do { (f, p) \<leftarrow> rm_options False (drop 1 args); q \<leftarrow> skip_spaces p; Some (f, q) }
                           else Some (False, args));
          len \<leftarrow> strlen path;
          if len = 0 then Some (Some 1, s)
          else do { star \<leftarrow> strchr path (CHR ''*'');
                    quest \<leftarrow> (if star = None then strchr path (CHR ''?'') else Some None);
                    if star \<noteq> None \<or> quest \<noteq> None then do { s' \<leftarrow> fs_rm_wildcard h path s; Some (Some 0, s') }
                    else do { dot \<leftarrow> strcmp path (''.'' @ [NUL]);
                              root \<leftarrow> strcmp path SLASH;
                              if dot = 0 \<or> root = 0 then Some (Some 1, s)
                              else do { (r, v) \<leftarrow> vfs_unlink (h_files h) (Some path) (sh_vfs s);
                                        Some (Some (if r \<noteq> 0 \<and> \<not> force then 1 else 0), s\<lparr>sh_vfs := v\<rparr>) } } } }"

text \<open>The name of a device is not used; the file name is what follows it, blanks included.\<close>

fun skip_device :: "nat \<Rightarrow> char list \<Rightarrow> char list option" where
  "skip_device i [] = None"
| "skip_device i (c # p) = (if c \<noteq> CHR '' '' \<and> c \<noteq> NUL \<and> i < 15 then skip_device (Suc i) p
     else Some (if c = CHR '' '' then p else c # p))"

fun copy_rest :: "nat \<Rightarrow> char list \<Rightarrow> char list \<Rightarrow> char list option" where
  "copy_rest k b [] = None"
| "copy_rest k b (c # p) = (if c \<noteq> NUL \<and> k < 31 then do { b' \<leftarrow> wr b k c; copy_rest (Suc k) b' p } else wr b k NUL)"

definition cmd_losetup :: "host \<Rightarrow> char list \<Rightarrow> shell \<Rightarrow> (status \<times> shell) option" where
  "cmd_losetup h args s =
     do { len \<leftarrow> strlen args;
          if len = 0 then Some (Some 1, s)
          else do { p \<leftarrow> skip_device 0 args;
                    file_name \<leftarrow> copy_rest 0 (local_array 32) p;
                    node \<leftarrow> vfs_findfile (h_files h) (Some file_name) (sh_vfs s);
                    if node = 0 then Some (Some 1, s)
                    else do { b \<leftarrow> strncpy (loop_source_file s) file_name 32;
                              Some (Some 0, s\<lparr>loop_source_file := b, loop_active := True\<rparr>) } } }"

subsection \<open>Other commands that change state\<close>

definition cmd_usr :: "char list \<Rightarrow> shell \<Rightarrow> (status \<times> shell) option" where
  "cmd_usr args s =
     do { len \<leftarrow> strlen args;
          if len = 0 then Some (Some 0, s)
          else do { k \<leftarrow> strchr args (CHR '' '');
                    case k of
                      None \<Rightarrow> Some (Some 0, s)
                    | Some i \<Rightarrow>
                        do { sub_cmd \<leftarrow> wr args i NUL;
                             let next_args = drop (i + 1) args;
                             r \<leftarrow> strcmp sub_cmd (''add'' @ [NUL]);
                             if r \<noteq> 0 then Some (None, s)
                             else do { w \<leftarrow> two_words next_args;
                                       case w of
                                         None \<Rightarrow> Some (None, s)
                                       | Some (name, pass) \<Rightarrow>
                                           do { n \<leftarrow> rd name 0;
                                                p \<leftarrow> rd pass 0;
                                                if n \<noteq> NUL \<and> p \<noteq> NUL then do { a \<leftarrow> add_user name pass (accts s); Some (None, s\<lparr>accts := a\<rparr>) }
                                                else Some (None, s) } } } } }"

definition cmd_logout :: "shell \<Rightarrow> (status \<times> shell) option" where
  "cmd_logout s =
     do { c \<leftarrow> memset (current_user (accts s)) 0 32;
          Some (None, s\<lparr>accts := (accts s)\<lparr>current_user_index := -1, current_user := c\<rparr>\<rparr>) }"

definition cmd_set :: "char list \<Rightarrow> shell \<Rightarrow> (status \<times> shell) option" where
  "cmd_set args s =
     do { k \<leftarrow> split_equals args;
          case k of Some (name, val) \<Rightarrow> do { e \<leftarrow> set_env_var name val (env_vars s); Some (None, s\<lparr>env_vars := e\<rparr>) }
          | None \<Rightarrow> Some (None, s) }"

definition cmd_alias :: "char list \<Rightarrow> shell \<Rightarrow> (status \<times> shell) option" where
  "cmd_alias args s =
     do { len \<leftarrow> strlen args;
          if len = 0 then Some (Some 0, s)
          else do { k \<leftarrow> split_equals args;
                    case k of Some (name, val) \<Rightarrow> do { (r, t) \<leftarrow> set_alias name val (alias_table s); Some (Some r, s\<lparr>alias_table := t\<rparr>) }
                    | None \<Rightarrow> Some (Some 1, s) } }"

definition cmd_kbd :: "char list \<Rightarrow> shell \<Rightarrow> (status \<times> shell) option" where
  "cmd_kbd args s =
     do { len \<leftarrow> strlen args;
          if len = 0 then Some (Some 0, s)
          else do { us \<leftarrow> strcmp args (''us'' @ [NUL]);
                    es \<leftarrow> strcmp args (''es'' @ [NUL]);
                    if us = 0 then Some (Some 0, s\<lparr>mods := (mods s)\<lparr>kbd_layout := 0\<rparr>\<rparr>)
                    else if es = 0 then Some (Some 0, s\<lparr>mods := (mods s)\<lparr>kbd_layout := 1\<rparr>\<rparr>)
                    else Some (Some 1, s) } }"

text \<open>
  The file declares \<open>kbd_state\<close> as \<open>{index, echo, enabled}\<close>; it is defined with the line buffer in
  front. The member \<open>echo\<close> written here is at offset 4, in the line buffer.
\<close>

definition put_echo :: "bool \<Rightarrow> kbd \<Rightarrow> kbd option" where
  "put_echo e k =
     do { b \<leftarrow> wr (k_buffer k) 4 (if e then CHR 0x01 else NUL);
          b \<leftarrow> wr b 5 NUL; b \<leftarrow> wr b 6 NUL; b \<leftarrow> wr b 7 NUL;
          Some (k\<lparr>k_buffer := b\<rparr>) }"

definition cmd_stty :: "char list \<Rightarrow> shell \<Rightarrow> (status \<times> shell) option" where
  "cmd_stty args s =
     do { off \<leftarrow> strcmp args (''-echo'' @ [NUL]);
          on \<leftarrow> strcmp args (''echo'' @ [NUL]);
          if off = 0 then do { k \<leftarrow> put_echo False (sh_kbd s); Some (Some 0, s\<lparr>sh_kbd := k\<rparr>) }
          else if on = 0 then do { k \<leftarrow> put_echo True (sh_kbd s); Some (Some 0, s\<lparr>sh_kbd := k\<rparr>) }
          else Some (Some 0, s) }"

definition cmd_domainname :: "char list \<Rightarrow> shell \<Rightarrow> (status \<times> shell) option" where
  "cmd_domainname args s =
     do { len \<leftarrow> strlen args;
          if len > 0 then do { b \<leftarrow> strncpy (sys_domainname s) args 31; Some (Some 0, s\<lparr>sys_domainname := b\<rparr>) }
          else Some (Some 0, s) }"

definition cmd_bc :: "char list \<Rightarrow> shell \<Rightarrow> (status \<times> shell) option" where
  "cmd_bc args s =
     do { len \<leftarrow> strlen args;
          if len = 0 then Some (Some 1, s) else do { _ \<leftarrow> cmd_bc_parts args; Some (Some 0, s) } }"

definition cmd_expr :: "char list \<Rightarrow> shell \<Rightarrow> (status \<times> shell) option" where
  "cmd_expr args s =
     do { len \<leftarrow> strlen args;
          if len = 0 then Some (Some 1, s) else do { _ \<leftarrow> cmd_expr_value args; Some (Some 0, s) } }"

text \<open>The state at boot, over a file system and a table of files.\<close>

definition shell_boot :: "vfs \<Rightarrow> ramfs \<Rightarrow> u8 list \<Rightarrow> shell" where
  "shell_boot v r codes =
     \<lparr>env_vars = env_boot, alias_table = alias_boot, accts = accounts_boot,
      mods = \<lparr>kbd_shift = False, kbd_caps = False, kbd_ctrl = False, kbd_layout = 0\<rparr>, scancodes = codes,
      command_history = replicate HISTORY_MAX (replicate INPUT_BUFFER_SIZE NUL), history_count = 0, history_current_index = -1,
      sys_domainname = ''blueos.local'' @ replicate 20 NUL, loop_source_file = replicate 32 NUL, loop_active = False,
      sh_kbd = kbd_boot, sh_vfs = v, sh_ramfs = r\<rparr>"

subsection \<open>Executing a command\<close>

definition commands_table :: "(char list \<times> command) list" where
  "commands_table =
     [(''help'', Cmd_help), (''version'', Cmd_version), (''mkdir'', Cmd_mkdir), (''clear'', Cmd_clear), (''whoami'', Cmd_whoami),
      (''touch'', Cmd_touch), (''ls'', Cmd_ls), (''cd'', Cmd_cd), (''pwd'', Cmd_pwd), (''usr'', Cmd_usr), (''mdev'', Cmd_mdev),
      (''rm'', Cmd_rm), (''uptime'', Cmd_uptime), (''bluefetch'', Cmd_bluefetch), (''logout'', Cmd_logout), (''msg'', Cmd_msg),
      (''halt'', Cmd_halt), (''reboot'', Cmd_reboot), (''set'', Cmd_set), (''alias'', Cmd_alias), (''losetup'', Cmd_losetup),
      (''free'', Cmd_free), (''env'', Cmd_env), (''bc'', Cmd_bc), (''cp'', Cmd_cp), (''mv'', Cmd_mv), (''qsh'', Cmd_qsh),
      (''printf'', Cmd_printf), (''stty'', Cmd_stty), (''pwait'', Cmd_pwait), (''nproc'', Cmd_nproc), (''expr'', Cmd_expr),
      (''ed'', Cmd_ed), (''domainname'', Cmd_domainname), (''dd'', Cmd_dd), (''cal'', Cmd_cal), (''ascii'', Cmd_ascii),
      (''tree'', Cmd_tree), (''run'', Cmd_run), (''kbd'', Cmd_kbd)]"

definition run_command :: "host \<Rightarrow> command \<Rightarrow> char list \<Rightarrow> shell \<Rightarrow> (status \<times> shell) option" where
  "run_command h c args s =
     (case c of
        Cmd_mkdir \<Rightarrow> cmd_mkdir h args s | Cmd_touch \<Rightarrow> cmd_touch h args s | Cmd_cd \<Rightarrow> cmd_cd h args s
      | Cmd_usr \<Rightarrow> cmd_usr args s | Cmd_rm \<Rightarrow> cmd_rm h args s | Cmd_logout \<Rightarrow> cmd_logout s
      | Cmd_set \<Rightarrow> cmd_set args s | Cmd_alias \<Rightarrow> cmd_alias args s | Cmd_losetup \<Rightarrow> cmd_losetup h args s
      | Cmd_bc \<Rightarrow> cmd_bc args s | Cmd_cp \<Rightarrow> cmd_cp h args s | Cmd_mv \<Rightarrow> cmd_mv h args s
      | Cmd_stty \<Rightarrow> cmd_stty args s | Cmd_expr \<Rightarrow> cmd_expr args s | Cmd_domainname \<Rightarrow> cmd_domainname args s
      | Cmd_dd \<Rightarrow> cmd_dd h args s | Cmd_kbd \<Rightarrow> cmd_kbd args s | _ \<Rightarrow> h_other h c args s)"

text \<open>
  A program in \<open>/bin\<close>: the words are collected and the path is built, but the call that would run it is
  commented out. The array of the words is not used.
\<close>

fun join_words :: "nat \<Rightarrow> nat \<Rightarrow> char list \<Rightarrow> char list \<Rightarrow> (nat \<times> char list) option" where
  "join_words i lim b [] = None"
| "join_words i lim b (c # p) =
     (if c \<noteq> NUL \<and> i < lim then do { b' \<leftarrow> wr b i c; join_words (Suc i) lim b' p } else Some (i, b))"

definition shell_try_execute_binary :: "char list \<Rightarrow> char list \<Rightarrow> int option" where
  "shell_try_execute_binary cmd_name args =
     do { (i, b) \<leftarrow> join_words 0 250 (local_array 256) cmd_name;
          b \<leftarrow> wr b i (CHR '' '');
          (i, b) \<leftarrow> join_words (i + 1) 255 b args;
          b \<leftarrow> wr b i NUL;
          (token, ts) \<leftarrow> strtok (Some b) ('' '' @ [NUL]) \<lparr>tok_buf = [], tok_last = None\<rparr>;
          case token of
            None \<Rightarrow> Some (-1)
          | Some t \<Rightarrow> do { p \<leftarrow> strcpy (local_array 64) (''/bin/'' @ [NUL]); _ \<leftarrow> strcat p (drop t (tok_buf ts)); Some 0 } }"

definition command_at :: "char list \<Rightarrow> nat \<Rightarrow> bool option" where
  "command_at name i = do { e \<leftarrow> rd commands_table i; r \<leftarrow> strcmp name (fst e @ [NUL]); Some (r = 0) }"

definition execute_single_with_return :: "host \<Rightarrow> char list \<Rightarrow> shell \<Rightarrow> (status \<times> shell) option" where
  "execute_single_with_return h input s =
     do { b \<leftarrow> expand_variables (env_vars s) input (local_array INPUT_BUFFER_SIZE);
          (expanded, args) \<leftarrow> get_args b;
          k \<leftarrow> first_ok (command_at expanded) 0 (length commands_table);
          case k of
            Some i \<Rightarrow> do { e \<leftarrow> rd commands_table i; run_command h (snd e) args s }
          | None \<Rightarrow> do { bin_status \<leftarrow> shell_try_execute_binary expanded args;
                        Some (Some (if bin_status = 0 then 0 else 1), s) } }"

lemma strstr_inside: "strstr p (''&&'' @ [NUL]) = Some (Some i) \<Longrightarrow> p \<noteq> []"
  by (auto simp: strstr_def)

lemma skip_spaces_rest: "skip_spaces p = Some q \<Longrightarrow> length q \<le> length p"
  by (induction p) (auto simp: le_SucI split: if_splits)

text \<open>The commands of a line, joined by \<open>&&\<close>; the next one runs only after a 0.\<close>

function run_line :: "host \<Rightarrow> char list \<Rightarrow> shell \<Rightarrow> shell option" where
  "run_line h next_ptr s =
     do { token \<leftarrow> strstr next_ptr (''&&'' @ [NUL]);
          case token of
            None \<Rightarrow> do { (_, s') \<leftarrow> execute_single_with_return h next_ptr s; Some s' }
          | Some i \<Rightarrow>
              do { (r, s') \<leftarrow> execute_single_with_return h (take i next_ptr @ NUL # drop (i + 1) next_ptr) s;
                   result \<leftarrow> r;
                   if result \<noteq> 0 then Some s'
                   else do { q \<leftarrow> skip_spaces (drop (i + 2) next_ptr); run_line h q s' } } }"
  by pat_completeness auto
termination
proof (relation "measure (\<lambda>(h, p, s). length p)", goal_cases)
  case (2 h p s token i x r s' result q)
  then have "p \<noteq> []" "length q \<le> length p - (i + 2)" using strstr_inside skip_spaces_rest [of "drop (i + 2) p" q] by auto
  then show ?case by (cases p) auto
qed simp

declare run_line.simps [simp del]

text \<open>The dialogue of the login; its result is not used.\<close>

definition shell_login :: "host \<Rightarrow> shell \<Rightarrow> shell option" where
  "shell_login h s =
     do { (temp_user, m, codes) \<leftarrow> login_field 0 (h_local h 0) (mods s) (scancodes s);
          (temp_pass, m, codes) \<leftarrow> login_field 0 (h_local h 1) m codes;
          (found, a) \<leftarrow> check_login temp_user temp_pass (accts s);
          a \<leftarrow> (if found then do { c \<leftarrow> strncpy (current_user a) temp_user 31; c \<leftarrow> wr c 31 NUL; Some (a\<lparr>current_user := c\<rparr>) }
                else Some a);
          Some (s\<lparr>mods := m, scancodes := codes, accts := a\<rparr>) }"

definition execute_shell_command :: "host \<Rightarrow> char list \<Rightarrow> shell \<Rightarrow> shell option" where
  "execute_shell_command h input s =
     do { _ \<leftarrow> resolve_alias input (local_array INPUT_BUFFER_SIZE) (alias_table s);
          len \<leftarrow> strlen input;
          if len = 0 then Some s
          else do { active \<leftarrow> any_active (accts s);
                    if active \<and> current_user_index (accts s) = -1
                    then do { r \<leftarrow> strcmp input (''login'' @ [NUL]); if r = 0 then shell_login h s else Some s }
                    else run_line h input s } }"

end
