(* ===== verification/Shell_Spec.thy ===== *)
theory Shell_Spec
  imports Shell Ramfs_Spec
begin

text \<open>
  What the kernel shell promises: nothing runs before a login once there is a user, a command line is its
  commands in order up to the first that fails, and \<open>rm\<close> with a star removes exactly the files that
  match.
\<close>

subsection \<open>Removing by wildcard\<close>

lemma rm_matching_run:
  assumes "i \<le> n" and "n \<le> length tbl" and "\<forall>f\<in>set tbl. NUL \<in> set (f_name f)" and "cstr pattern p" and "spaced_stars p"
  shows "\<exists>n' t. rm_matching i pattern dir (n, tbl) = Some (n', t) \<and> length t = length tbl \<and> n' \<le> n \<and>
    take n' t = filter (\<lambda>f. \<not> (f_parent f = dir \<and> glob p (c_string (f_name f)))) (take i tbl) @ drop i (take n tbl)"
  using assms(1-3)
proof (induction i arbitrary: n tbl)
  case 0
  then show ?case by simp
next
  case (Suc i)
  define f where "f = tbl ! i"
  have i: "i < length tbl" "rd tbl i = Some f" using Suc.prems by (simp_all add: f_def)
  have "cstr (f_name f) (c_string (f_name f))" using Suc.prems(3) i(1) by (simp add: f_def cstr_c_string)
  from match_glob(1) [OF assms(4) this assms(5)]
  have hit: "(if f_parent f = dir then match_wildcard pattern (f_name f) else Some False) =
      Some (f_parent f = dir \<and> glob p (c_string (f_name f)))" by simp
  have split: "take (Suc i) tbl = take i tbl @ [f]" using i(1) by (simp add: f_def take_Suc_conv_app_nth)
  show ?case
  proof (cases "f_parent f = dir \<and> glob p (c_string (f_name f))")
    case True
    obtain t where t: "shift_down i n tbl = Some t" "length t = length tbl" "set t \<subseteq> set tbl"
        "take (n - 1) t = take i tbl @ drop (Suc i) (take n tbl)"
      using shift_down_run [of i n tbl] Suc.prems(1,2) by auto
    have l: "length (take i tbl) = i" using i(1) by simp
    have "take i t = take i (take (n - 1) t)" using Suc.prems(1) by (simp add: min_def)
    also have "\<dots> = take i tbl" unfolding t(4) using l by simp
    finally have head: "take i t = take i tbl" .
    have tail: "drop i (take (n - 1) t) = drop (Suc i) (take n tbl)" unfolding t(4) using l by simp
    have "i \<le> n - 1" "n - 1 \<le> length t" "\<forall>f\<in>set t. NUL \<in> set (f_name f)" using Suc.prems t(2,3) by auto
    then obtain n' t' where r: "rm_matching i pattern dir (n - 1, t) = Some (n', t')" "length t' = length t" "n' \<le> n - 1"
        "take n' t' = filter (\<lambda>f. \<not> (f_parent f = dir \<and> glob p (c_string (f_name f)))) (take i t) @ drop i (take (n - 1) t)"
      using Suc.IH by blast
    have "rm_matching (Suc i) pattern dir (n, tbl) = Some (n', t')" using i(2) hit True t(1) r(1) by simp
    moreover have "take n' t' = filter (\<lambda>f. \<not> (f_parent f = dir \<and> glob p (c_string (f_name f)))) (take (Suc i) tbl) @
        drop (Suc i) (take n tbl)"
      unfolding r(4) head tail split using True by simp
    ultimately show ?thesis using r(2,3) t(2) by auto
  next
    case False
    obtain n' t' where r: "rm_matching i pattern dir (n, tbl) = Some (n', t')" "length t' = length tbl" "n' \<le> n"
        "take n' t' = filter (\<lambda>f. \<not> (f_parent f = dir \<and> glob p (c_string (f_name f)))) (take i tbl) @ drop i (take n tbl)"
      using Suc.IH [of n tbl] Suc.prems by auto
    have "drop i (take n tbl) = f # drop (Suc i) (take n tbl)"
      using i(1) Suc.prems(1) by (metis Cons_nth_drop_Suc Suc_le_lessD f_def length_take min_less_iff_conj nth_take)
    moreover have "rm_matching (Suc i) pattern dir (n, tbl) = Some (n', t')" using i(2) hit False r(1) by simp
    ultimately show ?thesis using r(2-4) False split by auto
  qed
qed

text \<open>
  Removing by wildcard. With terminated names, removing by a pattern with a star leaves, in their
  order, exactly the files that are not in the current directory or whose name the pattern does not stand
  for, and touches nothing outside the table of files.
\<close>
theorem rm_wildcard_filters:
  assumes "cstr pattern p" and "CHR ''*'' \<in> set p" and "spaced_stars p"
    and "file_count (sh_ramfs s) \<le> length (file_table (sh_ramfs s))"
    and "\<forall>f\<in>set (file_table (sh_ramfs s)). NUL \<in> set (f_name f)"
  shows "\<exists>n t. fs_rm_wildcard h pattern s = Some (s\<lparr>sh_ramfs := (sh_ramfs s)\<lparr>file_count := n, file_table := t\<rparr>\<rparr>) \<and>
    length t = length (file_table (sh_ramfs s)) \<and> n \<le> file_count (sh_ramfs s) \<and>
    take n t = filter (\<lambda>f. \<not> (f_parent f = current_directory (sh_ramfs s) \<and> glob p (c_string (f_name f))))
      (take (file_count (sh_ramfs s)) (file_table (sh_ramfs s)))"
proof -
  have "\<exists>i. strchr_from k b c = Some (Some i)" if "cstr b q" "c \<in> set q" for b q c k
    using that by (induction q arbitrary: b k) (auto simp: cstr_simps)
  then obtain i where "strchr pattern (CHR ''*'') = Some (Some i)" using assms(1,2) by (metis strchr_def)
  moreover obtain n t where "rm_matching (file_count (sh_ramfs s)) pattern (current_directory (sh_ramfs s))
      (file_count (sh_ramfs s), file_table (sh_ramfs s)) = Some (n, t)" "length t = length (file_table (sh_ramfs s))"
      "n \<le> file_count (sh_ramfs s)"
      "take n t = filter (\<lambda>f. \<not> (f_parent f = current_directory (sh_ramfs s) \<and> glob p (c_string (f_name f))))
        (take (file_count (sh_ramfs s)) (file_table (sh_ramfs s)))"
    using rm_matching_run [OF order_refl assms(4,5,1,3), of "current_directory (sh_ramfs s)"] by auto
  ultimately show ?thesis by (intro exI [of _ n] exI [of _ t]) (simp add: fs_rm_wildcard_def Let_def)
qed

definition demo_file :: "char list \<Rightarrow> FileEntry" where
  "demo_file nm = \<lparr>f_name = nm @ [NUL], f_parent = 0, f_size = 0, f_permissions = 0, f_owner_id = 0, f_content = [NUL], f_is_vfs = 0\<rparr>"

lemma shell_boot_ramfs [simp]:
  "sh_ramfs (shell_boot v r c) = r" "(shell_boot v r c)\<lparr>sh_ramfs := r'\<rparr> = shell_boot v r' c"
  by (simp_all add: shell_boot_def)

theorem rm_wildcard_filters_witness:
  "\<forall>h v r. \<exists>n t. fs_rm_wildcard h (''*.c'' @ [NUL])
      (shell_boot v (r\<lparr>file_count := 3, current_directory := 0, file_table := [demo_file ''a.c'', demo_file ''b.h'', demo_file ''c.c'']\<rparr>) []) =
      Some (shell_boot v (r\<lparr>current_directory := 0, file_count := n, file_table := t\<rparr>) []) \<and> take n t = [demo_file ''b.h'']"
proof (intro allI)
  fix h v and r :: ramfs
  let ?t = "[demo_file ''a.c'', demo_file ''b.h'', demo_file ''c.c'']"
  let ?r = "r\<lparr>file_count := 3, current_directory := 0, file_table := ?t\<rparr>"
  let ?s = "shell_boot v ?r []"
  have p: "cstr (''*.c'' @ [NUL]) ''*.c''" "CHR ''*'' \<in> set ''*.c''" "spaced_stars ''*.c''" by (simp_all add: cstr_simps)
  have t: "file_count (sh_ramfs ?s) \<le> length (file_table (sh_ramfs ?s))" "\<forall>f\<in>set (file_table (sh_ramfs ?s)). NUL \<in> set (f_name f)"
    by (simp_all add: demo_file_def)
  have n: "c_string (f_name (demo_file nm)) = takeWhile (\<lambda>c. c \<noteq> NUL) (nm @ [NUL])" "f_parent (demo_file nm) = 0" for nm
    by (simp_all add: demo_file_def c_string_def)
  have f: "filter (\<lambda>f. \<not> (f_parent f = current_directory (sh_ramfs ?s) \<and> glob ''*.c'' (c_string (f_name f))))
      (take (file_count (sh_ramfs ?s)) (file_table (sh_ramfs ?s))) = [demo_file ''b.h'']" by (simp add: n)
  obtain n t where "fs_rm_wildcard h (''*.c'' @ [NUL]) ?s =
      Some (?s\<lparr>sh_ramfs := (sh_ramfs ?s)\<lparr>file_count := n, file_table := t\<rparr>\<rparr>)" "take n t = [demo_file ''b.h'']"
    using rm_wildcard_filters [OF p t, of h] unfolding f by blast
  then show "\<exists>n t. fs_rm_wildcard h (''*.c'' @ [NUL]) ?s = Some (shell_boot v (r\<lparr>current_directory := 0, file_count := n, file_table := t\<rparr>) []) \<and>
      take n t = [demo_file ''b.h'']" by (intro exI [of _ n] exI [of _ t]) simp
qed

subsection \<open>Login\<close>

lemma check_login_matches:
  assumes "check_login name pass a = Some (b, a')"
  shows "users a' = users a \<and> (if b then \<exists>i<MAX_USERS. current_user_index a' = int i \<and> login_matches name pass (users a) i = Some True
    else a' = a)"
proof -
  obtain k where k: "first_ok (login_matches name pass (users a)) 0 MAX_USERS = Some k"
    using assms by (auto simp: check_login_def bind_eq_Some_conv)
  have "k = Some i \<Longrightarrow> i < n \<and> p i = Some True" if "first_ok p m n = Some k" for p :: "nat \<Rightarrow> bool option" and m n i k
    using that by (induction p m n rule: first_ok.induct) (subst (asm) (2) first_ok.simps, auto split: if_splits option.splits)
  from this [OF k] assms k show ?thesis
    by (cases k) (auto simp: check_login_def bind_eq_Some_conv)
qed

lemma login_matches_user:
  assumes "login_matches name pass us i = Some True"
  shows "i < length us \<and> user_active (us ! i) \<and> strcmp (username (us ! i)) name = Some 0 \<and> strcmp (password (us ! i)) pass = Some 0"
  using assms by (auto simp: login_matches_def bind_eq_Some_conv rd_Some split: if_splits)

lemma shell_login_steps:
  assumes "shell_login h s = Some s'"
  obtains name pass m codes m' codes' found a c where
    "login_field 0 (h_local h 0) (mods s) (scancodes s) = Some (name, m, codes)"
    "login_field 0 (h_local h 1) m codes = Some (pass, m', codes')"
    "check_login name pass (accts s) = Some (found, a)"
    "s' = s\<lparr>mods := m', scancodes := codes', accts := (if found then a\<lparr>current_user := c\<rparr> else a)\<rparr>"
proof -
  from assms obtain name m codes where 1: "login_field 0 (h_local h 0) (mods s) (scancodes s) = Some (name, m, codes)"
    by (cases "login_field 0 (h_local h 0) (mods s) (scancodes s)") (auto simp: shell_login_def)
  from assms obtain pass m' codes' where 2: "login_field 0 (h_local h 1) m codes = Some (pass, m', codes')"
    by (cases "login_field 0 (h_local h 1) m codes") (auto simp: shell_login_def 1)
  from assms obtain found a where 3: "check_login name pass (accts s) = Some (found, a)"
    by (cases "check_login name pass (accts s)") (auto simp: shell_login_def 1 2 [simplified])
  show thesis
  proof (cases found)
    case True
    from assms obtain c where "s' = s\<lparr>mods := m', scancodes := codes', accts := a\<lparr>current_user := c\<rparr>\<rparr>"
      by (auto simp: shell_login_def 1 2 [simplified] 3 True bind_eq_Some_conv)
    then show thesis using that [OF 1 2 3, of c] True by simp
  next
    case False
    from assms have "s' = s\<lparr>mods := m', scancodes := codes', accts := a\<rparr>" by (simp add: shell_login_def 1 2 [simplified] 3 False)
    then show thesis using that [OF 1 2 3] False by simp
  qed
qed

text \<open>
  C35: Nothing runs before a login. When there is a user and nobody is logged in, a command line changes
  nothing in the shell, the file systems or the users, except that \<open>login\<close> reads from the keyboard, and
  afterwards somebody is logged in only if the two texts that were read are the name and the password of
  that active user.
\<close>
theorem login_required:
  assumes "any_active (accts s) = Some True" and "current_user_index (accts s) = -1"
    and "execute_shell_command h input s = Some s'"
  shows "s' = s\<lparr>mods := mods s', scancodes := scancodes s', accts := accts s'\<rparr> \<and> users (accts s') = users (accts s) \<and>
    (accts s' = accts s \<or>
     (\<exists>i name pass m codes m' codes'. strcmp input (''login'' @ [NUL]) = Some 0 \<and>
        login_field 0 (h_local h 0) (mods s) (scancodes s) = Some (name, m, codes) \<and>
        login_field 0 (h_local h 1) m codes = Some (pass, m', codes') \<and>
        current_user_index (accts s') = int i \<and> i < length (users (accts s)) \<and> user_active (users (accts s) ! i) \<and>
        strcmp (username (users (accts s) ! i)) name = Some 0 \<and> strcmp (password (users (accts s) ! i)) pass = Some 0))"
proof -
  from assms have cases: "s' = s \<or> (strcmp input (''login'' @ [NUL]) = Some 0 \<and> shell_login h s = Some s')"
    by (auto simp: execute_shell_command_def bind_eq_Some_conv split: if_splits)
  then show ?thesis
  proof
    assume "strcmp input (''login'' @ [NUL]) = Some 0 \<and> shell_login h s = Some s'"
    then have input: "strcmp input (''login'' @ [NUL]) = Some 0" and "shell_login h s = Some s'" by simp_all
    from this(2) obtain name pass m codes m' codes' found a c where
      l: "login_field 0 (h_local h 0) (mods s) (scancodes s) = Some (name, m, codes)"
        "login_field 0 (h_local h 1) m codes = Some (pass, m', codes')"
        "check_login name pass (accts s) = Some (found, a)"
      and s': "s' = s\<lparr>mods := m', scancodes := codes', accts := (if found then a\<lparr>current_user := c\<rparr> else a)\<rparr>"
      by (rule shell_login_steps)
    note c = check_login_matches [OF l(3)]
    show ?thesis
    proof (cases found)
      case True
      with c obtain i where i: "current_user_index a = int i" "login_matches name pass (users (accts s)) i = Some True" by auto
      from login_matches_user [OF i(2)] i(1) c True l(1,2) input show ?thesis unfolding s' by simp
    next
      case False
      with c show ?thesis unfolding s' by simp
    qed
  qed simp
qed

text \<open>One user \<open>a\<close> with password \<open>b\<close>, who types the name, the password and two line ends.\<close>

definition demo_accounts :: accounts where
  "demo_accounts = accounts_boot\<lparr>users := (users accounts_boot)[0 :=
     \<lparr>username = ''a'' @ replicate 31 NUL, password = ''b'' @ replicate 31 NUL, user_cwd = ''/'' @ replicate 254 NUL, user_active = True\<rparr>]\<rparr>"

definition login_demo :: "vfs \<Rightarrow> ramfs \<Rightarrow> shell" where
  "login_demo v r = (shell_boot v r [0x1E, 0x1C, 0x30, 0x1C])\<lparr>accts := demo_accounts\<rparr>"

definition demo_host :: host where
  "demo_host = \<lparr>h_files = \<lparr>f_finddir = \<lambda>_. None, f_mkdir = \<lambda>_. None, f_create = \<lambda>_. None, f_unlink = \<lambda>_. None, f_read = \<lambda>_. None,
     f_write = \<lambda>_. None, f_open = \<lambda>_. None, f_close = \<lambda>_. None, f_readdir = \<lambda>_. None\<rparr>, h_empty = 0,
     h_other = \<lambda>c args s. Some (Some 0, s), h_local = \<lambda>k. replicate 32 (CHR ''?'')\<rparr>"

lemma demo_field:
  "login_field 0 (replicate 32 (CHR ''?'')) \<lparr>kbd_shift = False, kbd_caps = False, kbd_ctrl = False, kbd_layout = 0\<rparr> [0x1E, 0x1C, 0x30, 0x1C] =
     Some (''a'' @ NUL # replicate 30 (CHR ''?''), \<lparr>kbd_shift = False, kbd_caps = False, kbd_ctrl = False, kbd_layout = 0\<rparr>, [0x30, 0x1C])"
  "login_field 0 (replicate 32 (CHR ''?'')) \<lparr>kbd_shift = False, kbd_caps = False, kbd_ctrl = False, kbd_layout = 0\<rparr> [0x30, 0x1C] =
     Some (''b'' @ NUL # replicate 30 (CHR ''?''), \<lparr>kbd_shift = False, kbd_caps = False, kbd_ctrl = False, kbd_layout = 0\<rparr>, [])"
  by code_simp+

lemma demo_login_steps:
  "any_active demo_accounts = Some True" "current_user_index demo_accounts = -1"
  "resolve_alias (''login'' @ [NUL]) (local_array INPUT_BUFFER_SIZE) alias_boot = Some (''login'' @ replicate 251 NUL)"
  "resolve_alias (''rm x'' @ [NUL]) (local_array INPUT_BUFFER_SIZE) alias_boot = Some (''rm x'' @ replicate 252 NUL)"
  "check_login (''a'' @ NUL # replicate 30 (CHR ''?'')) (''b'' @ NUL # replicate 30 (CHR ''?'')) demo_accounts =
     Some (True, demo_accounts\<lparr>current_user_index := 0, current_user := ''a'' @ replicate 31 NUL\<rparr>)"
  "strncpy (''a'' @ replicate 31 NUL) (''a'' @ NUL # replicate 30 (CHR ''?'')) 31 = Some (''a'' @ replicate 31 NUL)"
  "wr (''a'' @ replicate 31 NUL) 31 NUL = Some (''a'' @ replicate 31 NUL)"
  by code_simp+

theorem login_required_witness:
  "\<forall>v r. \<exists>s'. execute_shell_command demo_host (''login'' @ [NUL]) (login_demo v r) = Some s' \<and>
     current_user_index (accts s') = 0 \<and> users (accts s') = users demo_accounts \<and> sh_vfs s' = v \<and>
     execute_shell_command demo_host (''rm x'' @ [NUL]) (login_demo v r) = Some (login_demo v r)"
proof (intro allI)
  fix v r
  let ?s = "login_demo v r"
  have s: "accts ?s = demo_accounts" "alias_table ?s = alias_boot" "mods ?s = \<lparr>kbd_shift = False, kbd_caps = False, kbd_ctrl = False, kbd_layout = 0\<rparr>"
    "scancodes ?s = [0x1E, 0x1C, 0x30, 0x1C]" "sh_vfs ?s = v" by (simp_all add: login_demo_def shell_boot_def)
  have h: "h_local demo_host k = replicate 32 (CHR ''?'')" for k by (simp add: demo_host_def)
  define s' where "s' = ?s\<lparr>scancodes := [],
    accts := demo_accounts\<lparr>current_user_index := 0, current_user := ''a'' @ replicate 31 NUL\<rparr>\<rparr>"
  have m: "?s\<lparr>mods := \<lparr>kbd_shift = False, kbd_caps = False, kbd_ctrl = False, kbd_layout = 0\<rparr>\<rparr> = ?s"
    by (simp add: login_demo_def shell_boot_def)
  have l: "shell_login demo_host ?s = Some s'" "current_user_index (accts s') = 0"
    using demo_login_steps(5-7) m by (simp_all add: shell_login_def s h demo_field s'_def)
  have run: "execute_shell_command demo_host (''login'' @ [NUL]) ?s = Some s'"
    using l demo_login_steps by (simp add: execute_shell_command_def s strlen_def uchar_diff_def)
  have "execute_shell_command demo_host (''rm x'' @ [NUL]) ?s = Some ?s"
    using demo_login_steps by (simp add: execute_shell_command_def s strlen_def uchar_diff_def)
  moreover have r: "s' = ?s\<lparr>mods := mods s', scancodes := scancodes s', accts := accts s'\<rparr>" "users (accts s') = users demo_accounts"
    using login_required [OF _ _ run] demo_login_steps(1,2) by (simp_all add: s)
  have "sh_vfs s' = v" using arg_cong [OF r(1), of sh_vfs] s(5) by simp
  ultimately show "\<exists>s'. execute_shell_command demo_host (''login'' @ [NUL]) ?s = Some s' \<and>
     current_user_index (accts s') = 0 \<and> users (accts s') = users demo_accounts \<and> sh_vfs s' = v \<and>
     execute_shell_command demo_host (''rm x'' @ [NUL]) ?s = Some ?s" using run l(2) r(2) by blast
qed

subsection \<open>Command lines\<close>

text \<open>The commands of a line: the texts between \<open>&&\<close>, all but the first without the blanks in front.\<close>

function and_parts :: "char list \<Rightarrow> char list list" where
  "and_parts t =
     (case find (\<lambda>k. prefix ''&&'' (drop k t)) [0..<length t] of
        None \<Rightarrow> [t]
      | Some k \<Rightarrow> take k t # and_parts (dropWhile (\<lambda>c. c = CHR '' '') (drop (k + 2) t)))"
  by pat_completeness auto
termination
proof (relation "measure length", goal_cases)
  case (2 t k)
  then have "k < length t" by (auto simp: find_Some_iff)
  then have "length (drop (k + 2) t) < length t" by simp
  then show ?case using length_dropWhile_le [of "\<lambda>c. c = CHR '' ''" "drop (k + 2) t"] by simp
qed simp

declare and_parts.simps [simp del]

text \<open>Running them up to the first that does not return 0; a value that does not exist may not be looked at.\<close>

fun run_parts :: "(char list \<Rightarrow> 's \<Rightarrow> (status \<times> 's) option) \<Rightarrow> char list list \<Rightarrow> 's \<Rightarrow> 's option" where
  "run_parts run [] s = Some s"
| "run_parts run [c] s = map_option snd (run c s)"
| "run_parts run (c # c' # cs) s =
     do { (r, s') \<leftarrow> run c s; result \<leftarrow> r; if result \<noteq> 0 then Some s' else run_parts run (c' # cs) s' }"

lemma execute_single_string:
  "cstr b c \<Longrightarrow> execute_single_with_return h b s = execute_single_with_return h (c @ [NUL]) s"
  using expand_loop_string [of b c "c @ [NUL]"] by (simp add: execute_single_with_return_def expand_variables_def cstr_def)

lemma skip_spaces_run: "cstr b t \<Longrightarrow> \<exists>b'. skip_spaces b = Some b' \<and> cstr b' (dropWhile (\<lambda>c. c = CHR '' '') t)"
  by (induction t arbitrary: b) (auto simp: cstr_simps)

lemma strstr_and:
  assumes "cstr p t"
  shows "strstr p (''&&'' @ [NUL]) = Some (find (\<lambda>k. prefix ''&&'' (drop k t)) [0..<length t])"
proof -
  have "cstr (''&&'' @ [NUL]) ''&&''" by (simp add: cstr_simps)
  from strstr_from_cstr [OF assms this, of 0] show ?thesis by (simp add: strstr_def map_option_add_0)
qed

lemma and_parts_nonempty [simp]: "and_parts t \<noteq> []"
  by (subst and_parts.simps) (auto split: option.splits)

lemma run_line_parts:
  "cstr p t \<Longrightarrow> run_line h p s = run_parts (\<lambda>c. execute_single_with_return h (c @ [NUL])) (and_parts t) s"
proof (induction t arbitrary: p s rule: and_parts.induct)
  case (1 t)
  let ?run = "\<lambda>c. execute_single_with_return h (c @ [NUL])"
  show ?case
  proof (cases "find (\<lambda>k. prefix ''&&'' (drop k t)) [0..<length t]")
    case None
    then have "run_line h p s = map_option snd (execute_single_with_return h p s)"
      using strstr_and [OF 1(2)] by (subst run_line.simps) (cases "execute_single_with_return h p s"; auto)
    then show ?thesis using None execute_single_string [OF 1(2)] by (subst and_parts.simps) simp
  next
    case (Some k)
    then have k: "prefix ''&&'' (drop k t)" by (auto simp: find_Some_iff)
    then have len: "k + 2 \<le> length t" using prefix_length_le [OF k] by simp
    from 1(2) obtain r where r: "p = t @ NUL # r" "NUL \<notin> set t" by (auto simp: cstr_def)
    have part: "cstr (take k p @ NUL # drop (k + 1) p) (take k t)" using r len by (auto simp: cstr_def dest: in_set_takeD)
    have "cstr (drop (k + 2) p) (drop (k + 2) t)" using r len by (auto simp: cstr_def dest: in_set_dropD)
    from skip_spaces_run [OF this] obtain q where q: "skip_spaces (drop (k + 2) p) = Some q"
        "cstr q (dropWhile (\<lambda>c. c = CHR '' '') (drop (k + 2) t))" by blast
    let ?rest = "dropWhile (\<lambda>c. c = CHR '' '') (drop (k + 2) t)"
    obtain c cs where cs: "and_parts ?rest = c # cs" by (cases "and_parts ?rest") auto
    have "run_line h p s = do { (x, s') \<leftarrow> ?run (take k t) s; result \<leftarrow> x;
        if result \<noteq> 0 then Some s' else run_line h q s' }"
      using Some strstr_and [OF 1(2)] q(1) execute_single_string [OF part, of h s]
      by (subst run_line.simps) (simp del: add_2_eq_Suc' add_Suc_right cong: if_cong)
    also have "\<dots> = run_parts ?run (and_parts t) s"
      using Some cs 1(1) [OF Some q(2)] by (subst and_parts.simps) (simp cong: Option.bind_cong if_cong)
    finally show ?thesis .
  qed
qed


text \<open>A layout is set; a command that does not exist succeeds; an unknown layout fails and stops the line.\<close>

lemma demo_expansion:
  "do { b \<leftarrow> expand_variables env_boot (''kbd es'' @ [NUL]) (local_array INPUT_BUFFER_SIZE); get_args b } =
     Some (''kbd'' @ NUL # ''es'' @ replicate 250 NUL, ''es'' @ replicate 250 NUL)"
  "do { b \<leftarrow> expand_variables env_boot (''kbd xx'' @ [NUL]) (local_array INPUT_BUFFER_SIZE); get_args b } =
     Some (''kbd'' @ NUL # ''xx'' @ replicate 250 NUL, ''xx'' @ replicate 250 NUL)"
  "do { b \<leftarrow> expand_variables env_boot (''frobnicate '' @ [NUL]) (local_array INPUT_BUFFER_SIZE); get_args b } =
     Some (''frobnicate'' @ replicate 246 NUL, replicate 245 NUL)"
  "first_ok (command_at (''kbd'' @ NUL # ''es'' @ replicate 250 NUL)) 0 (length commands_table) = Some (Some 39)"
  "first_ok (command_at (''kbd'' @ NUL # ''xx'' @ replicate 250 NUL)) 0 (length commands_table) = Some (Some 39)"
  "first_ok (command_at (''frobnicate'' @ replicate 246 NUL)) 0 (length commands_table) = Some None"
  "shell_try_execute_binary (''frobnicate'' @ replicate 246 NUL) (replicate 245 NUL) = Some 0"
  "rd commands_table 39 = Some (''kbd'', Cmd_kbd)"
  by code_simp+

lemma execute_single_split:
  "execute_single_with_return h input s =
     do { (expanded, args) \<leftarrow> do { b \<leftarrow> expand_variables (env_vars s) input (local_array INPUT_BUFFER_SIZE); get_args b };
          k \<leftarrow> first_ok (command_at expanded) 0 (length commands_table);
          case k of
            Some i \<Rightarrow> do { e \<leftarrow> rd commands_table i; run_command h (snd e) args s }
          | None \<Rightarrow> do { bin_status \<leftarrow> shell_try_execute_binary expanded args;
                        Some (Some (if bin_status = 0 then 0 else 1), s) } }"
  by (simp add: execute_single_with_return_def)

lemma demo_commands:
  assumes "env_vars s = env_boot"
  shows "execute_single_with_return h (''kbd es'' @ [NUL]) s = Some (Some 0, s\<lparr>mods := (mods s)\<lparr>kbd_layout := 1\<rparr>\<rparr>)"
    and "execute_single_with_return h (''kbd xx'' @ [NUL]) s = Some (Some 1, s)"
    and "execute_single_with_return h (''frobnicate '' @ [NUL]) s = Some (Some 0, s)"
proof -
  have "replicate 250 NUL = NUL # replicate 249 NUL" using replicate_Suc [of 249 NUL] by simp
  then have c: "cmd_kbd (''es'' @ replicate 250 NUL) s = Some (Some 0, s\<lparr>mods := (mods s)\<lparr>kbd_layout := 1\<rparr>\<rparr>)"
    "cmd_kbd (''xx'' @ replicate 250 NUL) s = Some (Some 1, s)"
    by (simp_all add: cmd_kbd_def strlen_def uchar_diff_def)
  show "execute_single_with_return h (''kbd es'' @ [NUL]) s = Some (Some 0, s\<lparr>mods := (mods s)\<lparr>kbd_layout := 1\<rparr>\<rparr>)"
    and "execute_single_with_return h (''kbd xx'' @ [NUL]) s = Some (Some 1, s)"
    and "execute_single_with_return h (''frobnicate '' @ [NUL]) s = Some (Some 0, s)"
    unfolding execute_single_split assms demo_expansion
    by (simp_all add: demo_expansion [simplified] run_command_def c [simplified])
qed

lemma shell_boot_env: "env_vars (shell_boot v r codes) = env_boot"
    "mods (shell_boot v r codes) = \<lparr>kbd_shift = False, kbd_caps = False, kbd_ctrl = False, kbd_layout = 0\<rparr>"
  by (simp_all add: shell_boot_def)


subsection \<open>Two things the shell does not do\<close>

text \<open>A name that is no command is taken for a program and always succeeds, though nothing is run.\<close>

lemma unknown_command_succeeds:
  assumes "expand_variables (env_vars s) input (local_array INPUT_BUFFER_SIZE) = Some b" and "get_args b = Some (name, args)"
    and "first_ok (command_at name) 0 (length commands_table) = Some None" and "shell_try_execute_binary name args = Some r"
  shows "execute_single_with_return h input s = Some (Some (if r = 0 then 0 else 1), s)"
  using assms by (simp add: execute_single_with_return_def)

lemma program_status: "shell_try_execute_binary name args = Some r \<Longrightarrow> r = 0 \<or> r = -1"
  by (auto simp: shell_try_execute_binary_def bind_eq_Some_conv split: option.splits)

text \<open>\<open>stty\<close> never changes whether the keyboard echoes: it writes into the line being typed.\<close>

lemma put_echo_keeps: "put_echo e k = Some k' \<Longrightarrow> k_echo k' = k_echo k"
  unfolding put_echo_def by (elim bind_eq_Some_conv [THEN iffD1, elim_format] exE conjE) auto

lemma stty_keeps_echo:
  assumes "cmd_stty args s = Some (r, s')"
  shows "k_echo (sh_kbd s') = k_echo (sh_kbd s)"
proof -
  obtain a b where "strcmp args (''-echo'' @ [NUL]) = Some a" "strcmp args (''echo'' @ [NUL]) = Some b"
    using assms unfolding cmd_stty_def by (elim bind_eq_Some_conv [THEN iffD1, elim_format] exE conjE) blast
  then have "Some (r, s') =
      (if a = 0 then do { k \<leftarrow> put_echo False (sh_kbd s); Some (Some 0, s\<lparr>sh_kbd := k\<rparr>) }
       else if b = 0 then do { k \<leftarrow> put_echo True (sh_kbd s); Some (Some 0, s\<lparr>sh_kbd := k\<rparr>) }
       else Some (Some 0, s))"
    using assms by (simp add: cmd_stty_def)
  then show ?thesis
    by (cases "put_echo False (sh_kbd s)"; cases "put_echo True (sh_kbd s)") (auto split: if_splits dest: put_echo_keeps)
qed

end
