(* ===== verification/Initrd.thy ===== *)
theory Initrd
  imports Elf CString_Copy
begin

text \<open>
  Finding a file in the initial RAM disk, \<open>drivers/block/initrd.c\<close>: an archive of headers and contents in
  blocks of 512 bytes, in flat memory. The archive may be anything; a search that never ends is None, and
  so is an overflow of the signed numbers for sizes.
\<close>

definition char_at :: "mem \<Rightarrow> u32 \<Rightarrow> char" where
  "char_at m a = char_of (unat (m a))"

text \<open>The distance of the size field from the start of a header, and the size of a block.\<close>

definition SIZE_FIELD :: u32 where "SIZE_FIELD = 124"
definition BLOCK :: int where "BLOCK = 512"

definition octal_digit :: "char \<Rightarrow> bool" where
  "octal_digit c \<longleftrightarrow> 48 \<le> (of_char c :: nat) \<and> (of_char c :: nat) \<le> 55"

partial_function (option) octal_from :: "mem \<Rightarrow> u32 \<Rightarrow> int \<Rightarrow> int option" where
  "octal_from m str val =
     (let c = char_at m str
      in if octal_digit c
         then do { t \<leftarrow> int32 (val * 8); v \<leftarrow> int32 (t + (of_char c - 48)); octal_from m (str + 1) v }
         else Some val)"

definition octal_to_int :: "mem \<Rightarrow> u32 \<Rightarrow> int option" where
  "octal_to_int m str = octal_from m str 0"

text \<open>\<open>strcmp(header->name, name)\<close>, with the name of the header in memory.\<close>

fun name_cmp :: "mem \<Rightarrow> u32 \<Rightarrow> char list \<Rightarrow> int option" where
  "name_cmp m a [] = None"
| "name_cmp m a (b # s) =
     (let c = char_at m a in if c \<noteq> NUL \<and> c = b then name_cmp m (a + 1) s else Some (uchar_diff c b))"

definition entry_offset :: "int \<Rightarrow> int option" where
  "entry_offset sz = do { t \<leftarrow> int32 (sz + 511); int32 (512 + (t - t mod BLOCK)) }"

partial_function (option) initrd_search :: "mem \<Rightarrow> u32 \<Rightarrow> char list \<Rightarrow> (u32 \<times> int) option option" where
  "initrd_search m header name =
     (if char_at m header = NUL then Some None
      else do { sz \<leftarrow> octal_to_int m (header + SIZE_FIELD);
                r \<leftarrow> name_cmp m header name;
                if r = 0 then Some (Some (header + 512, sz))
                else do { offset \<leftarrow> entry_offset sz;
                          let next_header = header + of_int offset;
                          if 0x10000000 \<le> next_header then Some None else initrd_search m next_header name } })"

text \<open>The address of the contents (0 for NULL), and the size when it is asked for.\<close>

definition initrd_find_file :: "mem \<Rightarrow> u32 \<Rightarrow> char list \<Rightarrow> (u32 \<times> int option) option" where
  "initrd_find_file m tar_address name =
     do { r \<leftarrow> initrd_search m tar_address name;
          case r of None \<Rightarrow> Some (0, None) | Some (a, sz) \<Rightarrow> Some (a, Some sz) }"

subsection \<open>Archives\<close>

text \<open>A text in memory.\<close>

definition text_at :: "mem \<Rightarrow> u32 \<Rightarrow> char list \<Rightarrow> bool" where
  "text_at m a s \<longleftrightarrow> (\<forall>i<length s. char_at m (a + of_nat i) = s ! i)"

text \<open>Numbers in octal, with a given number of digits.\<close>

primrec octal :: "nat \<Rightarrow> nat \<Rightarrow> char list" where
  "octal 0 n = []"
| "octal (Suc k) n = char_of (48 + n div 8 ^ k mod 8) # octal k n"

text \<open>
  The blocks of a file, and a well-formed archive: a header with a name and the size in eleven octal digits, the
  contents in whole blocks, the next header; an empty name ends it.
\<close>

definition file_blocks :: "u8 list \<Rightarrow> nat" where
  "file_blocks d = (length d + 511) div 512"

fun archive_at :: "mem \<Rightarrow> u32 \<Rightarrow> (char list \<times> u8 list) list \<Rightarrow> bool" where
  "archive_at m a [] \<longleftrightarrow> char_at m a = NUL"
| "archive_at m a ((nm, d) # fs) \<longleftrightarrow>
     nm \<noteq> [] \<and> NUL \<notin> set nm \<and> length nm < 100 \<and> length d < 8 ^ 9 \<and>
     text_at m a (nm @ [NUL]) \<and> text_at m (a + SIZE_FIELD) (octal 11 (length d) @ [NUL]) \<and>
     (\<forall>i<length d. m (a + 512 + of_nat i) = d ! i) \<and>
     archive_at m (a + of_nat (512 * (1 + file_blocks d))) fs"

primrec archive_size :: "(char list \<times> u8 list) list \<Rightarrow> nat" where
  "archive_size [] = 0"
| "archive_size (f # fs) = 512 * (1 + file_blocks (snd f)) + archive_size fs"

lemma text_at_Nil [simp]: "text_at m a []"
  by (simp add: text_at_def)

lemma text_at_Cons: "text_at m a (c # s) \<longleftrightarrow> char_at m a = c \<and> text_at m (a + 1) s"
  unfolding text_at_def by (auto simp: less_Suc_eq_0_disj add.assoc)

lemma text_at_append: "text_at m a (s @ t) \<longleftrightarrow> text_at m a s \<and> text_at m (a + of_nat (length s)) t"
  by (induction s arbitrary: a) (auto simp: text_at_Cons add.assoc)

lemma octal_length [simp]: "length (octal k n) = k"
  by (induction k arbitrary: n) simp_all

lemma octal_digit_code: "d < 8 \<Longrightarrow> octal_digit (char_of (48 + d)) \<and> (of_char (char_of (48 + d) :: char) :: int) = 48 + int d"
  using of_nat_of_char [of "char_of (48 + d)", where 'a = int] by (simp add: octal_digit_def)

lemma uchar_diff_zero: "uchar_diff a b = 0 \<longleftrightarrow> a = b"
  using of_char_eq_iff [of a b, where 'a = int] by (simp add: uchar_diff_def)

text \<open>Reading digits: the number so far grows as long as it fits.\<close>

lemma octal_from_run:
  assumes "text_at m a (octal k n)" and "v * 8 ^ k + n mod 8 ^ k < 2 ^ 31"
  shows "octal_from m a (int v) = octal_from m (a + of_nat k) (int (v * 8 ^ k + n mod 8 ^ k))"
  using assms
proof (induction k arbitrary: a v)
  case 0
  then show ?case by simp
next
  case (Suc k)
  define d where "d = n div 8 ^ k mod 8"
  have c: "char_at m a = char_of (48 + d)" "text_at m (a + 1) (octal k n)" using Suc.prems(1) by (simp_all add: text_at_Cons d_def)
  have d: "octal_digit (char_of (48 + d))" "(of_char (char_of (48 + d) :: char) :: int) = 48 + int d"
    using octal_digit_code [of d] by (simp_all add: d_def)
  have "n mod 8 ^ Suc k = d * 8 ^ k + n mod 8 ^ k"
    using mod_mult2_eq [of n "8 ^ k" 8] by (simp only: power_Suc2 d_def mult.commute [of "8 ^ k" "n div 8 ^ k mod 8"])
  then have sum: "v * 8 ^ Suc k + n mod 8 ^ Suc k = (v * 8 + d) * 8 ^ k + n mod 8 ^ k" by (simp add: algebra_simps)
  have "v * 8 + d \<le> (v * 8 + d) * 8 ^ k" by simp
  then have small: "v * 8 + d < 2 ^ 31" using Suc.prems(2) unfolding sum by linarith
  have "octal_from m a (int v) = octal_from m (a + 1) (int (v * 8 + d))"
    using d small by (subst octal_from.simps) (simp add: c(1))
  also have "\<dots> = octal_from m (a + 1 + of_nat k) (int ((v * 8 + d) * 8 ^ k + n mod 8 ^ k))"
    using Suc.prems(2) unfolding sum by (intro Suc.IH c(2))
  finally show ?case unfolding sum by (simp add: add.assoc)
qed

lemma octal_to_int_run:
  assumes "text_at m a (octal 11 n @ [NUL])" and "n < 8 ^ 9"
  shows "octal_to_int m a = Some (int n)"
proof -
  have t: "text_at m a (octal 11 n)" "char_at m (a + 11) = NUL" using assms(1) by (simp_all add: text_at_append text_at_Cons)
  have n: "n mod 8 ^ 11 = n" using assms(2) by simp
  have "octal_from m (a + 11) (int n) = Some (int n)" using t(2) by (subst octal_from.simps) (simp add: octal_digit_def)
  with octal_from_run [OF t(1), of 0] assms(2) n show ?thesis by (simp add: octal_to_int_def)
qed

lemma name_cmp_text:
  assumes "text_at m a (nm @ [NUL])" and "NUL \<notin> set nm" and "cstr b s"
  shows "\<exists>r. name_cmp m a b = Some r \<and> (r = 0 \<longleftrightarrow> nm = s)"
  using assms
proof (induction s arbitrary: a b nm)
  case Nil
  then show ?case by (cases nm) (auto simp: cstr_simps text_at_Cons uchar_diff_zero)
next
  case (Cons c s)
  then obtain b' where b: "b = c # b'" "cstr b' s" "c \<noteq> NUL" by (auto simp: cstr_simps)
  show ?case
  proof (cases nm)
    case Nil
    with Cons.prems b show ?thesis by (auto simp: text_at_Cons uchar_diff_zero)
  next
    case (Cons x nm')
    with Cons.prems Cons.IH [of "a + 1" nm' b'] b show ?thesis
      by (cases "x = c") (auto simp: text_at_Cons uchar_diff_zero)
  qed
qed

lemma entry_offset_run:
  assumes "length d < 8 ^ 9"
  shows "entry_offset (int (length d)) = Some (int (512 * (1 + file_blocks d)))"
proof -
  let ?t = "int (length d) + 511"
  have "?t - ?t mod 512 = 512 * (?t div 512)" by (simp add: minus_mod_eq_mult_div)
  moreover have "?t div 512 = int (file_blocks d)" unfolding file_blocks_def by (simp add: zdiv_int)
  moreover have "int (file_blocks d) < 2 ^ 20" using assms unfolding file_blocks_def by simp
  ultimately show ?thesis using assms by (simp add: entry_offset_def BLOCK_def)
qed

text \<open>The entry that is found, and where it is.\<close>

fun locate :: "u32 \<Rightarrow> (char list \<times> u8 list) list \<Rightarrow> char list \<Rightarrow> (u32 \<times> u8 list) option" where
  "locate a [] nm = None"
| "locate a ((x, d) # fs) nm = (if x = nm then Some (a + 512, d) else locate (a + of_nat (512 * (1 + file_blocks d))) fs nm)"

lemma initrd_search_run:
  assumes "archive_at m a fs" and "unat a + archive_size fs < 0x10000000" and "cstr b nm"
  shows "initrd_search m a b = Some (map_option (\<lambda>(p, d). (p, int (length d))) (locate a fs nm))"
  using assms(1,2)
proof (induction fs arbitrary: a)
  case Nil
  then show ?case by (subst initrd_search.simps) simp
next
  case (Cons f fs)
  obtain x d where f: "f = (x, d)" by (cases f)
  from Cons.prems(1) have e: "x \<noteq> []" "NUL \<notin> set x" "length d < 8 ^ 9" "text_at m a (x @ [NUL])"
      "text_at m (a + SIZE_FIELD) (octal 11 (length d) @ [NUL])" "archive_at m (a + of_nat (512 * (1 + file_blocks d))) fs"
    by (simp_all add: f)
  obtain r where r: "name_cmp m a b = Some r" "r = 0 \<longleftrightarrow> x = nm" using name_cmp_text [OF e(4,2) assms(3)] by blast
  have nonempty: "char_at m a \<noteq> NUL" using e(1,2,4) by (cases x) (auto simp: text_at_Cons)
  define k where "k = 512 * (1 + file_blocks d)"
  have step: "initrd_search m a b =
      (if x = nm then Some (Some (a + 512, int (length d)))
       else if 0x10000000 \<le> a + of_nat k then Some None else initrd_search m (a + of_nat k) b)"
    using nonempty octal_to_int_run [OF e(5,3)] r entry_offset_run [OF e(3), folded k_def]
    by (subst initrd_search.simps) (simp add: Let_def)
  show ?case
  proof (cases "x = nm")
    case True
    then show ?thesis unfolding step by (simp add: f)
  next
    case False
    have total: "unat a + k + archive_size fs < 0x10000000" using Cons.prems(2) by (simp add: f k_def)
    have u: "unat (a + of_nat k) = unat a + k" using total by (simp add: unat_word_ariths unat_of_nat take_bit_eq_mod)
    then have lt: "\<not> 0x10000000 \<le> a + of_nat k" "unat (a + of_nat k) + archive_size fs < 0x10000000"
      using total by (simp_all add: word_le_nat_alt)
    have "locate a (f # fs) nm = locate (a + of_nat k) fs nm" using False by (simp add: f k_def)
    with Cons.IH [OF e(6) [folded k_def] lt(2)] lt(1) False show ?thesis unfolding step by simp
  qed
qed

text \<open>
  The contents of a file are found: \<open>locate\<close> gives the first entry with the name, and its bytes are at the
  address.
\<close>

lemma locate_contents:
  assumes "archive_at m a fs"
  shows "case locate a fs nm of None \<Rightarrow> map_of fs nm = None
    | Some (p, d) \<Rightarrow> map_of fs nm = Some d \<and> (\<forall>i<length d. m (p + of_nat i) = d ! i)"
  using assms
proof (induction a fs nm rule: locate.induct)
  case (2 a x d fs nm)
  then show ?case by (auto split: option.splits)
qed simp

text \<open>
  The initial RAM disk. In a well-formed archive below 256 MB, looking a name up returns the address where
  the contents of the first file of that name are, and their length; and NULL when there is no such file.
\<close>
theorem initrd_finds_files:
  assumes "archive_at m a fs" and "unat a + archive_size fs < 0x10000000" and "cstr b nm"
  shows "case map_of fs nm of
      None \<Rightarrow> initrd_find_file m a b = Some (0, None)
    | Some d \<Rightarrow> \<exists>p. initrd_find_file m a b = Some (p, Some (int (length d))) \<and> (\<forall>i<length d. m (p + of_nat i) = d ! i)"
proof (cases "locate a fs nm")
  case None
  then have "map_of fs nm = None" using locate_contents [OF assms(1), of nm] by simp
  then show ?thesis using initrd_search_run [OF assms] None by (simp add: initrd_find_file_def)
next
  case (Some pd)
  then obtain p d where "locate a fs nm = Some (p, d)" by (cases pd) auto
  then show ?thesis using initrd_search_run [OF assms] locate_contents [OF assms(1), of nm] by (auto simp: initrd_find_file_def)
qed

text \<open>Two files, the second of two bytes, from address 0x1000 on.\<close>

definition demo_archive :: mem where
  "demo_archive p =
     (if p = 0x1000 then 0x61
      else if p = 0x1200 then 0x62
      else if 0x107C \<le> p \<and> p \<le> 0x1086 \<or> 0x127C \<le> p \<and> p \<le> 0x1285 then 0x30
      else if p = 0x1286 then 0x32
      else if p = 0x1400 then 0x68
      else if p = 0x1401 then 0x69
      else 0)"

lemma octal_numeral: "octal (numeral k) n = char_of (48 + n div 8 ^ pred_numeral k mod 8) # octal (pred_numeral k) n"
  unfolding numeral_eq_Suc [of k] by simp

lemma demo_archive_files: "archive_at demo_archive 0x1000 [(''a'', []), (''b'', [0x68, 0x69])]"
proof -
  have c: "char_of (48 :: nat) = CHR ''0''" "char_of (50 :: nat) = CHR ''2''" "char_of (0 :: nat) = NUL"
    "char_of (97 :: nat) = CHR ''a''" "char_of (98 :: nat) = CHR ''b''" by code_simp+
  have o: "octal 11 0 = ''00000000000''" "octal 11 2 = ''00000000002''" by (simp_all add: octal_numeral c)
  have o2: "octal 11 (Suc (Suc 0)) = ''00000000002''" using o(2) by (simp only: numeral_2_eq_2)
  have d: "\<forall>i<2. demo_archive (0x1200 + 512 + of_nat i) = [0x68, 0x69] ! i"
    by (simp add: less_2_cases_iff demo_archive_def all_conj_distrib)
  show ?thesis using d
    by (simp add: file_blocks_def o o2 c text_at_Cons SIZE_FIELD_def char_at_def demo_archive_def)
qed

theorem initrd_finds_files_witness:
  "(\<exists>p. initrd_find_file demo_archive 0x1000 (''b'' @ [NUL]) = Some (p, Some 2) \<and> demo_archive (p + 1) = 0x69) \<and>
   initrd_find_file demo_archive 0x1000 (''c'' @ [NUL]) = Some (0, None)"
proof -
  have a: "unat (0x1000 :: u32) + archive_size [(''a'', []), (''b'', [0x68, 0x69])] < 0x10000000" by (simp add: file_blocks_def)
  have c: "cstr (''b'' @ [NUL]) ''b''" "cstr (''c'' @ [NUL]) ''c''" by (simp_all add: cstr_simps)
  from initrd_finds_files [OF demo_archive_files a c(1)] initrd_finds_files [OF demo_archive_files a c(2)]
  show ?thesis by (auto simp: less_2_cases_iff all_conj_distrib)
qed

end
