(* ===== verification/Initramfs.thy ===== *)
theory Initramfs
  imports Initrd Vfs_Spec Xfs Printk Page_Source
begin

text \<open>
  Unpacking the initial RAM disk into the file tree, \<open>fs/initramfs/initramfs.c\<close>: the headers are in flat
  memory, whose contents do not change here (nodes live in the store of \<open>Vfs\<close>). Unpacking may go on for
  ever, which is None. Messages are left out.
\<close>

subsection \<open>Reading headers\<close>

text \<open>\<open>octal_to_int(str, k)\<close>: characters are signed and not tested for being digits.\<close>

primrec octal_field :: "mem \<Rightarrow> u32 \<Rightarrow> nat \<Rightarrow> u32 \<Rightarrow> u32" where
  "octal_field m str 0 result = result"
| "octal_field m str (Suc k) result =
     (if m str \<noteq> 0 \<and> m str \<noteq> 0x20
      then octal_field m (str + 1) k (push_bit 3 result + (scast (m str) - 48)) else result)"

text \<open>The string that starts at an address, with its terminator.\<close>

partial_function (option) string_at :: "mem \<Rightarrow> u32 \<Rightarrow> char list option" where
  "string_at m a =
     (if char_at m a = NUL then Some [NUL] else do { s \<leftarrow> string_at m (a + 1); Some (char_at m a # s) })"

definition TYPE_FIELD :: u32 where "TYPE_FIELD = 156"

definition round_up :: "u32 \<Rightarrow> u32" where
  "round_up sz = (sz + 511) AND NOT 511"

subsection \<open>Directories on the way\<close>

text \<open>One round for every slash; \<open>ptr\<close> is a position in \<open>temp\<close>.\<close>

lemma strchr_from_bound: "strchr_from i s c = Some (Some k) \<Longrightarrow> i \<le> k \<and> k < i + length s"
  by (induction i s c rule: strchr_from.induct) (auto split: if_splits)

function make_dirs :: "foreign \<Rightarrow> char list \<Rightarrow> nat \<Rightarrow> vfs \<Rightarrow> vfs option" where
  "make_dirs fs temp ptr v =
     (case strchr (drop ptr temp) (CHR ''/'') of
        None \<Rightarrow> None
      | Some None \<Rightarrow> Some v
      | Some (Some k) \<Rightarrow>
          do { let cut = temp[ptr + k := NUL];
               found \<leftarrow> vfs_lookup fs (Some cut) v;
               v1 \<leftarrow> (if found = 0 then do { (r, v') \<leftarrow> vfs_mkdir fs (Some cut) v; Some v' } else Some v);
               make_dirs fs (cut[ptr + k := CHR ''/'']) (Suc (ptr + k)) v1 })"
  by pat_completeness auto
termination
proof (relation "measure (\<lambda>(fs, temp, ptr, v). length temp - ptr)")
  fix temp :: "char list" and ptr k x and cut fs v found v1
  assume "strchr (drop ptr temp) (CHR ''/'') = Some x" "x = Some k" "cut = temp[ptr + k := NUL]"
  then show "((fs, cut[ptr + k := CHR ''/''], Suc (ptr + k), v1), (fs, temp, ptr, v))
      \<in> measure (\<lambda>(fs, temp, ptr, v). length temp - ptr)"
    using strchr_from_bound [of 0 "drop ptr temp" "CHR ''/''" k] by (auto simp: strchr_def)
qed simp

declare make_dirs.simps [simp del]

definition ensure_directory_exists :: "foreign \<Rightarrow> char list \<Rightarrow> vfs \<Rightarrow> vfs option" where
  "ensure_directory_exists fs path v = do { temp \<leftarrow> strcpy (local_array 256) path; make_dirs fs temp 1 v }"

subsection \<open>Unpacking\<close>

record loader =
  l_vfs :: vfs
  l_xfs :: xfs

text \<open>\<open>sprintf(full_path, "/%s", header->name)\<close>, and the slash at its end taken away.\<close>

definition entry_path :: "mem \<Rightarrow> u32 \<Rightarrow> char list option" where
  "entry_path m header =
     do { nm \<leftarrow> string_at m header;
          (full_path, _) \<leftarrow> sprintf (local_array 256) (''/%s'' @ [NUL]) [AStr (Some nm)];
          len \<leftarrow> strlen full_path;
          if len > 1
          then do { c \<leftarrow> rd full_path (len - 1);
                    if c = CHR ''/'' then wr full_path (len - 1) NUL else Some full_path }
          else Some full_path }"

definition unpack_dir :: "foreign \<Rightarrow> char list \<Rightarrow> loader \<Rightarrow> loader option" where
  "unpack_dir fs full_path st =
     do { found \<leftarrow> vfs_lookup fs (Some full_path) (l_vfs st);
          if found = 0 then do { (r, v) \<leftarrow> vfs_mkdir fs (Some full_path) (l_vfs st); Some (st\<lparr>l_vfs := v\<rparr>) }
          else Some st }"

definition unpack_file :: "foreign \<Rightarrow> char list \<Rightarrow> u32 \<Rightarrow> u32 \<Rightarrow> loader \<Rightarrow> loader option" where
  "unpack_file fs full_path file_data file_size st =
     do { v0 \<leftarrow> ensure_directory_exists fs full_path (l_vfs st);
          found \<leftarrow> vfs_lookup fs (Some full_path) v0;
          if found = 0
          then do { (r, v1) \<leftarrow> vfs_create fs (Some full_path) 0 v0;
                    new_node \<leftarrow> vfs_lookup fs (Some full_path) v1;
                    if new_node \<noteq> 0
                    then do { n \<leftarrow> nodes v1 new_node;
                              (b, x) \<leftarrow> xfs_bind_file_buffer (v_inode n) file_size file_data (l_xfs st);
                              Some \<lparr>l_vfs = v1\<lparr>nodes := (nodes v1)(new_node \<mapsto> n\<lparr>v_ptr := file_data, v_size := file_size\<rparr>)\<rparr>,
                                    l_xfs = x\<rparr> }
                    else Some (st\<lparr>l_vfs := v1\<rparr>) }
          else Some (st\<lparr>l_vfs := v0\<rparr>) }"

definition unpack_entry :: "foreign \<Rightarrow> mem \<Rightarrow> u32 \<Rightarrow> loader \<Rightarrow> loader option" where
  "unpack_entry fs m header st =
     do { let file_size = octal_field m (header + SIZE_FIELD) 12 0;
          let file_data = header + 512;
          full_path \<leftarrow> entry_path m header;
          let typeflag = char_at m (header + TYPE_FIELD);
          if typeflag = CHR ''5'' then unpack_dir fs full_path st
          else if typeflag = CHR ''0'' \<or> typeflag = NUL then unpack_file fs full_path file_data file_size st
          else Some st }"

partial_function (option) initramfs_loop :: "foreign \<Rightarrow> mem \<Rightarrow> u32 \<Rightarrow> u32 \<Rightarrow> int \<Rightarrow> loader \<Rightarrow> (int \<times> loader) option" where
  "initramfs_loop fs m address ramdisk_end files_loaded st =
     (if address < ramdisk_end \<and> char_at m address \<noteq> NUL
      then do { st' \<leftarrow> unpack_entry fs m address st;
                n \<leftarrow> int32 (files_loaded + 1);
                initramfs_loop fs m (address + (512 + round_up (octal_field m (address + SIZE_FIELD) 12 0))) ramdisk_end n st' }
      else Some (files_loaded, st))"

text \<open>The number of entries goes into the last message.\<close>

definition initramfs_parse :: "foreign \<Rightarrow> mem \<Rightarrow> u32 \<Rightarrow> u32 \<Rightarrow> loader \<Rightarrow> (int \<times> loader) option" where
  "initramfs_parse fs m ramdisk_start ramdisk_end st = initramfs_loop fs m ramdisk_start ramdisk_end 0 st"

subsection \<open>The older loader\<close>

definition INITRD_BASE :: u32 where "INITRD_BASE = 0x1000000"

definition initrd_read :: "mem \<Rightarrow> vfs_node \<Rightarrow> char list \<Rightarrow> u32 \<Rightarrow> u32 \<Rightarrow> (int \<times> char list) option" where
  "initrd_read m node buffer sz offset =
     do { b \<leftarrow> memcpy buffer (ram_bytes m (INITRD_BASE + v_inode node + offset) (unat sz)) (sint sz); Some (sint sz, b) }"

text \<open>The node of one header, in front of the children of the root when there is one.\<close>

definition initrd_node :: "mem \<Rightarrow> u32 \<Rightarrow> u32 \<Rightarrow> vfs \<Rightarrow> vfs option" where
  "initrd_node m header offset v =
     do { (node, mm) \<leftarrow> kmalloc SIZEOF_NODE (v_mm v);
          if node = 0 then None
          else do { nm \<leftarrow> strncpy (v_name zero_node) (ram_bytes m header 128) 128;
                    let n = zero_node\<lparr>v_name := nm, v_size := octal_field m (header + SIZE_FIELD) 12 0,
                      v_type := VFS_TYPE_FILE, v_inode := offset + 512, v_ops := OpsRoot, v_parent := vfs_root v\<rparr>;
                    if vfs_root v \<noteq> 0
                    then do { r \<leftarrow> nodes v (vfs_root v);
                              Some (v\<lparr>v_mm := mm, nodes := (nodes v)(node \<mapsto> n\<lparr>v_next := v_ptr r\<rparr>, vfs_root v \<mapsto> r\<lparr>v_ptr := node\<rparr>)\<rparr>) }
                    else Some (v\<lparr>v_mm := mm, nodes := (nodes v)(node \<mapsto> n)\<rparr>) } }"

partial_function (option) initrd_init_loop :: "mem \<Rightarrow> u32 \<Rightarrow> u32 \<Rightarrow> vfs \<Rightarrow> vfs option" where
  "initrd_init_loop m location offset v =
     (if char_at m (location + offset) = NUL then Some v
      else do { v' \<leftarrow> initrd_node m (location + offset) offset v;
                initrd_init_loop m location
                  (offset + (round_up (octal_field m (location + offset + SIZE_FIELD) 12 0) + 512)) v' })"

definition initrd_init :: "mem \<Rightarrow> u32 \<Rightarrow> vfs \<Rightarrow> vfs option" where
  "initrd_init m location v = initrd_init_loop m location 0 v"

subsection \<open>What the parts do on well-formed headers\<close>

lemma string_at_text:
  assumes "text_at m a (s @ [NUL])" and "NUL \<notin> set s"
  shows "string_at m a = Some (s @ [NUL])"
  using assms
proof (induction s arbitrary: a)
  case Nil
  then show ?case by (subst string_at.simps) (simp add: text_at_Cons)
next
  case (Cons c s)
  then show ?case by (subst string_at.simps) (auto simp: text_at_Cons)
qed

lemma char_at_code: "char_at m a = char_of n \<Longrightarrow> n < 128 \<Longrightarrow> m a = of_nat n \<and> scast (m a) = (of_nat n :: u32)"
proof -
  assume c: "char_at m a = char_of n" and n: "n < 128"
  have "of_char (char_of (unat (m a)) :: char) = (of_char (char_of n :: char) :: nat)" using c by (simp add: char_at_def)
  moreover have "unat (m a) < 256" by (rule order.strict_trans2 [OF unsigned_less]) simp
  ultimately have u: "unat (m a) = n" using n by simp
  then have m: "m a = of_nat n" by (auto simp: word_unat_eq_iff unat_of_nat take_bit_eq_mod)
  have "uint (m a) = int n" using u by (metis of_nat_unat)
  then have "sint (m a) = int n" using n by (simp add: sint_uint signed_take_bit_int_eq_self)
  then have "scast (m a) = (of_int (int n) :: u32)" by (simp only: scast_eq)
  with m show ?thesis by simp
qed

lemma octal_field_run:
  assumes "text_at m a (octal k n)"
  shows "octal_field m a (k + j) (of_nat v) = octal_field m (a + of_nat k) j (of_nat (v * 8 ^ k + n mod 8 ^ k))"
  using assms
proof (induction k arbitrary: a v)
  case 0
  then show ?case by simp
next
  case (Suc k)
  define d where "d = n div 8 ^ k mod 8"
  have c: "char_at m a = char_of (48 + d)" "text_at m (a + 1) (octal k n)" using Suc.prems by (simp_all add: text_at_Cons d_def)
  have d: "d < 8" by (simp add: d_def)
  have m: "m a = of_nat (48 + d)" "scast (m a) = (of_nat (48 + d) :: u32)" using char_at_code [OF c(1)] d by auto
  have "unat (m a) = 48 + d" unfolding m(1) unat_of_nat take_bit_eq_mod using d by simp
  then have neq: "m a \<noteq> 0" "m a \<noteq> 0x20" using d by auto
  have "n mod 8 ^ Suc k = d * 8 ^ k + n mod 8 ^ k"
    using mod_mult2_eq [of n "8 ^ k" 8] by (simp only: power_Suc2 d_def mult.commute [of "8 ^ k" "n div 8 ^ k mod 8"])
  then have sum: "v * 8 ^ Suc k + n mod 8 ^ Suc k = (v * 8 + d) * 8 ^ k + n mod 8 ^ k" by (simp add: algebra_simps)
  have step: "push_bit 3 (of_nat v) + (scast (m a) - 48) = (of_nat (v * 8 + d) :: u32)"
    unfolding m(2) by (simp add: push_bit_eq_mult)
  have "octal_field m a (Suc k + j) (of_nat v) = octal_field m (a + 1) (k + j) (of_nat (v * 8 + d))"
    using neq step by simp
  also have "\<dots> = octal_field m (a + 1 + of_nat k) j (of_nat ((v * 8 + d) * 8 ^ k + n mod 8 ^ k))"
    by (rule Suc.IH [OF c(2)])
  finally show ?case unfolding sum by (simp add: add.assoc)
qed

lemma octal_field_size:
  assumes "text_at m a (octal 11 n @ [NUL])" and "n < 8 ^ 9"
  shows "octal_field m a 12 0 = of_nat n"
proof -
  have t: "text_at m a (octal 11 n)" "char_at m (a + 11) = NUL" using assms(1) by (simp_all add: text_at_append text_at_Cons)
  have "NUL = char_of (0 :: nat)" by code_simp
  then have z: "m (a + 11) = 0" using char_at_code [of m "a + 11" 0] t(2) by simp
  have n: "n mod 8 ^ 11 = n" using assms(2) by simp
  have "octal_field m a (11 + Suc 0) (of_nat 0) = of_nat n"
    unfolding octal_field_run [OF t(1)] n using z by simp
  then show ?thesis by simp
qed

lemma round_up_size:
  assumes "length d < 8 ^ 9"
  shows "512 + round_up (of_nat (length d)) = of_nat (512 * (1 + file_blocks d))"
proof -
  have "(x :: u32) AND NOT 511 = push_bit 9 (drop_bit 9 x)" for x
  proof -
    have "x AND NOT (mask 9) = push_bit 9 (drop_bit 9 x)" by (rule bit_word_eqI) (auto simp: bit_simps)
    then show ?thesis by (simp add: mask_eq_exp_minus_1)
  qed
  then have "round_up (of_nat (length d)) = push_bit 9 (drop_bit 9 (of_nat (length d + 511)))" by (simp add: round_up_def)
  moreover have "drop_bit 9 (of_nat (length d + 511) :: u32) = of_nat (file_blocks d)"
  proof -
    have "unat (of_nat (length d + 511) :: u32) = length d + 511" unfolding unat_of_nat take_bit_eq_mod using assms by simp
    then have "unat (drop_bit 9 (of_nat (length d + 511) :: u32)) = file_blocks d"
      by (simp only: drop_bit_eq_div unat_div file_blocks_def) simp
    then show ?thesis by (metis of_nat_unat of_int_of_nat_eq word_of_int_uint)
  qed
  ultimately show ?thesis by (simp add: push_bit_eq_mult)
qed

lemma entry_path_run:
  assumes "text_at m a (x @ [NUL])" and "plain_name x"
  shows "\<exists>p. entry_path m a = Some p \<and> cstr p (slash # x)"
proof -
  have x: "NUL \<notin> set x" "slash \<notin> set x" "length x < 254" "x \<noteq> []" using assms(2) by (auto simp: plain_name_def)
  have nm: "string_at m a = Some (x @ [NUL])" by (rule string_at_text [OF assms(1) x(1)])
  have f: "format_text sprintf_precision (''/%s'' @ [NUL]) [AStr (Some (x @ [NUL]))] = Some (slash # x)"
  proof -
    have "until_nul (y @ [NUL]) = Some y" if "NUL \<notin> set y" for y using that by (induction y) auto
    with x(1) show ?thesis by (simp add: format_text.simps sprintf_precision_def convert_def slash_def)
  qed
  let ?p = "slash # x @ NUL # drop (length x + 2) (local_array 256)"
  have p: "cstr ?p (slash # x)" using x(1) by (auto simp: cstr_def slash_def)
  have s: "sprintf (local_array 256) (''/%s'' @ [NUL]) [AStr (Some (x @ [NUL]))] = Some (?p, length x + 1)"
    using store_text_run [of 0 "local_array 256" "(slash # x) @ [NUL]"] f x(3) by (simp add: sprintf_def vsprintf_def)
  have len: "strlen ?p = Some (Suc (length x))" using strlen_from_cstr [OF p, of 0] by (simp add: strlen_def)
  have c: "rd ?p (length x) = Some (last x)" using x(4) by (simp add: rd_def nth_Cons' nth_append last_conv_nth)
  have "last x \<noteq> slash" using x(2,4) by (metis last_in_set)
  then have "entry_path m a = Some ?p" using nm s len c x(4) by (simp add: entry_path_def slash_def)
  with p show ?thesis by blast
qed

lemma ensure_directory_root:
  assumes "cstr p (slash # x)" and "plain_name x"
  shows "ensure_directory_exists fs p v = Some v"
proof -
  have x: "NUL \<notin> set x" "slash \<notin> set x" "length x < 254" using assms(2) by (auto simp: plain_name_def)
  have t: "strcpy (local_array 256) p = Some (slash # x @ NUL # local_array (255 - Suc (length x)))"
    using strcpy_to_start [OF assms(1), of 256] x(3) by simp
  have "strchr_from i (y @ NUL # z) slash = Some None" if "slash \<notin> set y" for i y z
    using that by (induction y arbitrary: i) (auto simp: slash_def)
  with x(2) have "strchr (x @ NUL # z) (CHR ''/'') = Some None" for z by (simp add: strchr_def slash_def)
  then have "make_dirs fs (slash # x @ NUL # z) 1 v = Some v" for z by (subst make_dirs.simps) simp
  with t show ?thesis by (simp add: ensure_directory_exists_def)
qed

lemma kmalloc_fails:
  assumes "mm_ok mm" and "kmalloc n mm = Some (0, mm')"
  shows "mm' = mm"
proof (cases "n = 0 \<or> pages_for n = 0")
  case True
  then show ?thesis using assms kmalloc_too_big [of mm n] by (cases "n = 0") (auto simp: kmalloc_def mm_ok_def)
next
  case False
  have wf: "mm_wf mm" "initialized mm" using assms(1) by (simp_all add: mm_ok_def)
  obtain r where r: "first_fit mm (unat (next_free mm)) (unat (total_pages mm)) (unat (pages_for n)) r"
      "kmalloc_effect (unat (pages_for n)) r mm 0 mm'"
    using kmalloc_found [OF wf] False assms(2) by fastforce
  show ?thesis
  proof (cases r)
    case None
    with r(2) show ?thesis by (simp add: kmalloc_effect_def)
  next
    case (Some s)
    moreover have "0 < unat (pages_for n)" using False by (simp add: unat_gt_0)
    ultimately have "s < unat (total_pages mm)" using r(1) by (simp add: first_fit_def)
    with unat_frame_addr [OF assms(1) this] Some r(2) have "unat (phys_limit_start mm) = 0"
      by (simp add: kmalloc_effect_def frame_addr_def)
    then show ?thesis using assms(1) by (simp add: mm_ok_def unat_eq_0)
  qed
qed

lemma xfs_bind_total:
  assumes "slots_ok s"
  shows "\<exists>r s'. xfs_bind_file_buffer num sz ram s = Some (r, s') \<and> slots_ok s'"
proof (cases "find (\<lambda>k. k \<in> files s \<and> number_at s k = num) [0..<SLOTS]")
  case None
  then show ?thesis using with_number_run [OF assms] assms by (simp add: xfs_bind_file_buffer_def)
next
  case (Some k)
  then have "k < SLOTS" by (simp add: find_upt_Some)
  then obtain x where x: "slot s k = Some x" "is_active x \<longrightarrow> NUL \<in> set (xi_name x)" using assms by (auto simp: slots_ok_def)
  obtain s' where s': "put_slot s k (x\<lparr>xi_size := sz, ram_address := ram\<rparr>) = Some s'"
      "\<forall>j. slot s' j = (if j = k then Some (x\<lparr>xi_size := sz, ram_address := ram\<rparr>) else slot s j)"
    using put_slot_run [OF x(1)] by blast
  then have "slots_ok s'" using assms x(2) by (auto simp: slots_ok_def)
  with s'(1) Some x(1) with_number_run [OF assms] show ?thesis by (simp add: xfs_bind_file_buffer_def)
qed

subsection \<open>Unpacking an archive of files\<close>

text \<open>The root directory with its entries, over an allocator in service.\<close>

definition root_ok :: "vfs \<Rightarrow> (char list \<times> u32) list \<Rightarrow> bool" where
  "root_ok v es \<longleftrightarrow> dir v (vfs_root v) es \<and> mm_ok (v_mm v) \<and> (\<forall>a \<in> insert (vfs_root v) (snd ` set es). owned (v_mm v) a)"

text \<open>Whether there is no room for another node.\<close>

definition no_room :: "vfs \<Rightarrow> bool" where
  "no_room v \<longleftrightarrow> kmalloc SIZEOF_NODE (v_mm v) = Some (0, v_mm v)"

text \<open>What creating a file in the root directory leads to: a new entry, or nothing when there is no memory.\<close>

definition added :: "char list \<Rightarrow> u32 \<Rightarrow> u32 \<Rightarrow> (char list \<times> u32) list \<Rightarrow> vfs \<Rightarrow> vfs \<Rightarrow> bool" where
  "added x a sz es v v' \<longleftrightarrow> (\<exists>c n. root_ok v' ((x, c) # es) \<and> nodes v' c = Some n \<and> v_size n = sz \<and> v_ptr n = a \<and>
     (\<forall>b \<in> snd ` set es. nodes v' b = nodes v b))"

lemma dir_update:
  assumes "dir v d ((x, c) # es)" and "nodes v c = Some n"
  shows "dir (v\<lparr>nodes := (nodes v)(c \<mapsto> n\<lparr>v_ptr := a, v_size := sz\<rparr>)\<rparr>) d ((x, c) # es)"
  using assms by (auto simp: dir_def)

lemma unpack_file_run:
  assumes v: "root_ok (l_vfs st) es" and x: "plain_name x" and fs: "drivers_ok fs" and p: "cstr p (slash # x)"
    and xfs: "slots_ok (l_xfs st)" and new: "x \<notin> fst ` set es"
  shows "\<exists>st'. unpack_file fs p a sz st = Some st' \<and> slots_ok (l_xfs st') \<and> vfs_root (l_vfs st') = vfs_root (l_vfs st) \<and>
    (if no_room (l_vfs st) then st' = st else added x a sz es (l_vfs st) (l_vfs st'))"
proof -
  let ?v = "l_vfs st"
  have d: "dir ?v (vfs_root ?v) es" and mm: "mm_ok (v_mm ?v)" and own: "\<forall>a \<in> insert (vfs_root ?v) (snd ` set es). owned (v_mm ?v) a"
    using v by (auto simp: root_ok_def)
  have len: "length (slash # x) < 255" "length x < 256" using x by (simp_all add: plain_name_def)
  have look: "vfs_lookup fs (Some p) u = Some (lookup_name fs' x)" if "dir u (vfs_root u) fs'" for u fs'
    using vfs_lookup_string [OF p len(1) fs] lookup_root_name [OF x fs that] by simp
  have none: "lookup_name es x = 0" using new by (simp add: lookup_name_def map_of_eq_None_iff [THEN iffD2])
  obtain nm where nm: "cstr nm x" "vfs_create fs (Some p) 0 ?v = root_create (vfs_root ?v) nm 0 ?v"
    using vfs_create_path [OF x d p] by blast
  define fill where "fill = (\<lambda>c :: vfs_node. do { len \<leftarrow> (if (0 :: u32) = 0 then Some 0 else do { b \<leftarrow> contents ?v 0; strlen b });
                 Some (c\<lparr>v_type := VFS_TYPE_FILE, v_size := of_nat len, v_ptr := 0, v_ops := OpsRoot\<rparr>) })"
  have cr: "vfs_create fs (Some p) 0 ?v = new_child (vfs_root ?v) nm fill ?v" using nm(2) by (simp add: root_create_def fill_def)
  obtain c mm' where k: "kmalloc SIZEOF_NODE (v_mm ?v) = Some (c, mm')" using pages.alloc_total [OF mm] by blast
  have start: "unpack_file fs p a sz st = do { (r, v1) \<leftarrow> new_child (vfs_root ?v) nm fill ?v;
      new_node \<leftarrow> vfs_lookup fs (Some p) v1;
      if new_node \<noteq> 0
      then do { n \<leftarrow> nodes v1 new_node; (b, x) \<leftarrow> xfs_bind_file_buffer (v_inode n) sz a (l_xfs st);
                Some \<lparr>l_vfs = v1\<lparr>nodes := (nodes v1)(new_node \<mapsto> n\<lparr>v_ptr := a, v_size := sz\<rparr>)\<rparr>, l_xfs = x\<rparr> }
      else Some (st\<lparr>l_vfs := v1\<rparr>) }"
    using ensure_directory_root [OF p x] look [OF d] none by (simp add: unpack_file_def cr)
  show ?thesis
  proof (cases "c = 0")
    case True
    with k kmalloc_fails [OF mm] have "mm' = v_mm ?v" by simp
    with True k have "new_child (vfs_root ?v) nm fill ?v = Some (-1, ?v)" by (simp add: new_child_def)
    then have "unpack_file fs p a sz st = Some st" unfolding start using look [OF d] none by simp
    with xfs True k \<open>mm' = v_mm ?v\<close> show ?thesis by (simp add: no_room_def)
  next
    case False
    have c: "c \<notin> insert (vfs_root ?v) (snd ` set es)" "mm_ok mm'" "\<forall>a \<in> insert c (insert (vfs_root ?v) (snd ` set es)). owned mm' a"
      using pages.alloc_not_in [OF mm k False own] pages.alloc_keeps [OF mm k] by blast+
    let ?n0 = "zero_node\<lparr>v_name := x @ replicate (256 - length x) NUL, v_type := VFS_TYPE_FILE, v_size := 0, v_ptr := 0, v_ops := OpsRoot\<rparr>"
    obtain v1 q where v1: "new_child (vfs_root ?v) nm fill ?v = Some (0, v1)" "dir v1 (vfs_root ?v) ((x, c) # es)" "v_mm v1 = mm'"
        "nodes v1 c = Some (?n0\<lparr>v_parent := vfs_root ?v, v_next := q\<rparr>)" "vfs_root v1 = vfs_root ?v"
      using new_child_dir [OF d nm(1) len(2) k False, of fill ?n0] c(1) by (auto simp: fill_def)
    have here: "lookup_name ((x, c) # es) x = c" by (simp add: lookup_name_def)
    define n where "n = ?n0\<lparr>v_parent := vfs_root ?v, v_next := q\<rparr>"
    obtain r xs where xs: "xfs_bind_file_buffer (v_inode n) sz a (l_xfs st) = Some (r, xs)" "slots_ok xs"
      using xfs_bind_total [OF xfs] by blast
    define v2 where "v2 = v1\<lparr>nodes := (nodes v1)(c \<mapsto> n\<lparr>v_ptr := a, v_size := sz\<rparr>)\<rparr>"
    have n: "nodes v1 c = Some n" using v1(4) by (simp add: n_def)
    have run: "unpack_file fs p a sz st = Some \<lparr>l_vfs = v2, l_xfs = xs\<rparr>"
      unfolding start using v1(1) look [of v1 "(x, c) # es"] v1(2,5) here n False xs(1) by (simp add: v2_def)
    have "dir v2 (vfs_root ?v) ((x, c) # es)" using dir_update [OF v1(2) n] by (simp add: v2_def)
    then have ok: "root_ok v2 ((x, c) # es)" using c v1(3,5) by (simp add: root_ok_def v2_def)
    have "nodes v2 b = nodes ?v b" if "b \<in> snd ` set es" for b
    proof -
      have "vfs_root ?v \<notin> snd ` set es" using d by (simp add: dir_def)
      with that c(1) have "b \<noteq> c" "b \<noteq> vfs_root ?v" by blast+
      then show ?thesis using new_child_other [OF v1(1) k] by (simp add: v2_def)
    qed
    with ok have "added x a sz es ?v v2" unfolding added_def by (intro exI [of _ c] exI [of _ "n\<lparr>v_ptr := a, v_size := sz\<rparr>"]) (simp add: v2_def)
    with run xs(2) v1(5) k False show ?thesis by (simp add: v2_def no_room_def)
  qed
qed

text \<open>A file that is there already stays as it is.\<close>

lemma unpack_file_again:
  assumes v: "root_ok (l_vfs st) es" and x: "plain_name x" and fs: "drivers_ok fs" and p: "cstr p (slash # x)"
    and old: "x \<in> fst ` set es"
  shows "unpack_file fs p a sz st = Some st"
proof -
  have d: "dir (l_vfs st) (vfs_root (l_vfs st)) es" using v by (simp add: root_ok_def)
  then obtain q where ch: "children (nodes (l_vfs st)) q es" by (auto simp: dir_def)
  obtain c where c: "map_of es x = Some c" using old by (metis domIff dom_map_of_conv_image_fst not_None_eq)
  then have "lookup_name es x = c" "c \<noteq> 0" using children_in [OF ch map_of_SomeD] by (auto simp: lookup_name_def)
  moreover have "vfs_lookup fs (Some p) (l_vfs st) = Some (lookup_name es x)"
    using vfs_lookup_string [OF p _ fs] lookup_root_name [OF x fs d] x by (simp add: plain_name_def)
  ultimately show ?thesis using ensure_directory_root [OF p x] by (simp add: unpack_file_def)
qed

text \<open>The type flags of an archive whose entries are all files.\<close>

fun file_entries :: "mem \<Rightarrow> u32 \<Rightarrow> (char list \<times> u8 list) list \<Rightarrow> bool" where
  "file_entries m a [] \<longleftrightarrow> True"
| "file_entries m a ((x, d) # fl) \<longleftrightarrow> char_at m (a + TYPE_FIELD) \<in> {CHR ''0'', NUL} \<and> plain_name x \<and>
     file_entries m (a + of_nat (512 * (1 + file_blocks d))) fl"

text \<open>A file of the archive in the tree: its node has the size and points to the bytes.\<close>

definition unpacked :: "mem \<Rightarrow> vfs \<Rightarrow> u32 \<Rightarrow> u8 list \<Rightarrow> bool" where
  "unpacked m v c d \<longleftrightarrow> (\<exists>n. nodes v c = Some n \<and> v_size n = of_nat (length d) \<and> (\<forall>i<length d. m (v_ptr n + of_nat i) = d ! i))"

lemma unpack_entry_run:
  assumes v: "root_ok (l_vfs st) es" and fs: "drivers_ok fs" and xfs: "slots_ok (l_xfs st)"
    and ar: "archive_at m a ((x, d) # fl)" and fe: "file_entries m a ((x, d) # fl)" and new: "x \<notin> fst ` set es"
  shows "\<exists>st'. unpack_entry fs m a st = Some st' \<and> slots_ok (l_xfs st') \<and> vfs_root (l_vfs st') = vfs_root (l_vfs st) \<and>
    (if no_room (l_vfs st) then st' = st else added x (a + 512) (of_nat (length d)) es (l_vfs st) (l_vfs st'))"
proof -
  have e: "text_at m a (x @ [NUL])" "text_at m (a + SIZE_FIELD) (octal 11 (length d) @ [NUL])" "length d < 8 ^ 9" "plain_name x"
      "char_at m (a + TYPE_FIELD) \<in> {CHR ''0'', NUL}"
    using ar fe by simp_all
  obtain p where p: "entry_path m a = Some p" "cstr p (slash # x)" using entry_path_run [OF e(1,4)] by blast
  have "unpack_entry fs m a st = unpack_file fs p (a + 512) (of_nat (length d)) st"
    using p(1) e(5) octal_field_size [OF e(2,3)] by (auto simp: unpack_entry_def)
  then show ?thesis using unpack_file_run [OF v e(4) fs p(2) xfs new] by simp
qed

lemma initramfs_loop_run:
  assumes "root_ok (l_vfs st) es" and "drivers_ok fs" and "slots_ok (l_xfs st)"
    and "archive_at m a fl" and "file_entries m a fl" and "distinct (map fst fl)" and "fst ` set fl \<inter> fst ` set es = {}"
    and "unat a + archive_size fl \<le> unat e" and "k + length fl < 2 ^ 31"
  shows "\<exists>st' es'. initramfs_loop fs m a e (int k) st = Some (int (k + length fl), st') \<and>
    root_ok (l_vfs st') (es' @ es) \<and> vfs_root (l_vfs st') = vfs_root (l_vfs st) \<and> fst ` set es' \<subseteq> fst ` set fl \<and>
    (\<forall>b \<in> snd ` set es. nodes (l_vfs st') b = nodes (l_vfs st) b) \<and> (no_room (l_vfs st) \<longrightarrow> st' = st \<and> es' = []) \<and>
    (\<forall>(x, d) \<in> set fl. case map_of es' x of None \<Rightarrow> no_room (l_vfs st') | Some c \<Rightarrow> unpacked m (l_vfs st') c d)"
  using assms
proof (induction fl arbitrary: a st es k)
  case Nil
  then show ?case by (subst initramfs_loop.simps) (intro exI [of _ st] exI [of _ "[]"], simp)
next
  case (Cons f fl)
  obtain x d where f: "f = (x, d)" by (cases f)
  have ar: "archive_at m a ((x, d) # fl)" and fe: "file_entries m a ((x, d) # fl)" using Cons.prems(4,5) by (simp_all add: f)
  have new: "x \<notin> fst ` set es" using Cons.prems(7) by (auto simp: f)
  define a' where "a' = a + of_nat (512 * (1 + file_blocks d))"
  have e: "text_at m a (x @ [NUL])" "x \<noteq> []" "NUL \<notin> set x" "text_at m (a + SIZE_FIELD) (octal 11 (length d) @ [NUL])" "length d < 8 ^ 9"
    using ar by simp_all
  obtain st1 where st1: "unpack_entry fs m a st = Some st1" "slots_ok (l_xfs st1)" "vfs_root (l_vfs st1) = vfs_root (l_vfs st)"
      "if no_room (l_vfs st) then st1 = st else added x (a + 512) (of_nat (length d)) es (l_vfs st) (l_vfs st1)"
    using unpack_entry_run [OF Cons.prems(1,2,3) ar fe new] by blast
  have total: "unat a + 512 * (1 + file_blocks d) + archive_size fl \<le> unat e" using Cons.prems(8) by (simp add: f)
  have "unat e < 4294967296" by (rule order.strict_trans2 [OF unsigned_less]) simp
  with total have "unat a + 512 * (1 + file_blocks d) < 4294967296" by linarith
  then have u: "unat a' = unat a + 512 * (1 + file_blocks d)"
    unfolding a'_def unat_word_ariths unat_of_nat take_bit_eq_mod by simp
  have "a < e" "char_at m a \<noteq> NUL" using total e(1-3) by (cases x; auto simp: word_less_nat_alt text_at_Cons)+
  moreover have "a + (512 + round_up (octal_field m (a + SIZE_FIELD) 12 0)) = a'"
    using octal_field_size [OF e(4,5)] round_up_size [OF e(5)] by (simp add: a'_def)
  ultimately have step: "initramfs_loop fs m a e (int k) st = initramfs_loop fs m a' e (int (Suc k)) st1"
    using st1(1) Cons.prems(9) by (subst initramfs_loop.simps) (simp add: add.commute)
  have tail: "archive_at m a' fl" "file_entries m a' fl" "distinct (map fst fl)" "x \<notin> fst ` set fl" "fst ` set fl \<inter> fst ` set es = {}"
      "unat a' + archive_size fl \<le> unat e" "Suc k + length fl < 2 ^ 31"
    using Cons.prems(4-7,9) total u by (auto simp: f a'_def)
  show ?case
  proof (cases "no_room (l_vfs st)")
    case True
    then have [simp]: "st1 = st" using st1(4) by simp
    obtain st' es' where "initramfs_loop fs m a' e (int (Suc k)) st = Some (int (Suc k + length fl), st')"
        "st' = st" "es' = []" "\<forall>(x, d) \<in> set fl. case map_of es' x of None \<Rightarrow> no_room (l_vfs st') | Some c \<Rightarrow> unpacked m (l_vfs st') c d"
      using Cons.IH [OF Cons.prems(1,2,3) tail(1-3,5-7)] True by blast
    with True Cons.prems(1) step show ?thesis by (intro exI [of _ st] exI [of _ "[]"]) (simp add: f)
  next
    case False
    with st1(4) obtain c n where c: "root_ok (l_vfs st1) ((x, c) # es)" "nodes (l_vfs st1) c = Some n" "v_size n = of_nat (length d)"
        "v_ptr n = a + 512" "\<forall>b \<in> snd ` set es. nodes (l_vfs st1) b = nodes (l_vfs st) b"
      by (auto simp: added_def)
    have dis: "fst ` set fl \<inter> fst ` set ((x, c) # es) = {}" using tail(4,5) by auto
    obtain st' es' where ih: "initramfs_loop fs m a' e (int (Suc k)) st1 = Some (int (Suc k + length fl), st')"
        "root_ok (l_vfs st') (es' @ (x, c) # es)" "vfs_root (l_vfs st') = vfs_root (l_vfs st1)" "fst ` set es' \<subseteq> fst ` set fl"
        "\<forall>b \<in> snd ` set ((x, c) # es). nodes (l_vfs st') b = nodes (l_vfs st1) b"
        "\<forall>(x, d) \<in> set fl. case map_of es' x of None \<Rightarrow> no_room (l_vfs st') | Some c \<Rightarrow> unpacked m (l_vfs st') c d"
      using Cons.IH [OF c(1) Cons.prems(2) st1(2) tail(1-3) dis tail(6,7)] by blast
    have bytes: "\<forall>i<length d. m (a + 512 + of_nat i) = d ! i" using ar by simp
    have here: "unpacked m (l_vfs st') c d" using ih(5) c(2-4) bytes by (auto simp: unpacked_def)
    have "map_of es' x = None" using ih(4) tail(4) by (auto simp: map_of_eq_None_iff)
    then have m: "map_of (es' @ [(x, c)]) x = Some c" "y \<noteq> x \<Longrightarrow> map_of (es' @ [(x, c)]) y = map_of es' y" for y
      by (simp_all add: map_add_def split: option.splits)
    have all: "\<forall>(y, b) \<in> set (f # fl). case map_of (es' @ [(x, c)]) y of None \<Rightarrow> no_room (l_vfs st') | Some c \<Rightarrow> unpacked m (l_vfs st') c b"
    proof (intro ballI, split prod.split, intro allI impI)
      fix q y b assume q: "q \<in> set (f # fl)" "q = (y, b)"
      show "case map_of (es' @ [(x, c)]) y of None \<Rightarrow> no_room (l_vfs st') | Some c \<Rightarrow> unpacked m (l_vfs st') c b"
      proof (cases "q = f")
        case True
        then have "y = x" "b = d" using q(2) by (simp_all add: f)
        then show ?thesis unfolding \<open>y = x\<close> m(1) using here by simp
      next
        case False
        then have "(y, b) \<in> set fl" using q by simp
        moreover from this tail(4) have "y \<noteq> x" by force
        ultimately show ?thesis unfolding m(2) [OF \<open>y \<noteq> x\<close>] using ih(6) by fastforce
      qed
    qed
    show ?thesis
    proof (intro exI conjI)
      show "initramfs_loop fs m a e (int k) st = Some (int (k + length (f # fl)), st')" using step ih(1) by simp
      show "root_ok (l_vfs st') ((es' @ [(x, c)]) @ es)" using ih(2) by simp
      show "vfs_root (l_vfs st') = vfs_root (l_vfs st)" using ih(3) st1(3) by simp
      show "fst ` set (es' @ [(x, c)]) \<subseteq> fst ` set (f # fl)" using ih(4) by (auto simp: f)
      show "\<forall>b \<in> snd ` set es. nodes (l_vfs st') b = nodes (l_vfs st) b" using ih(5) c(5) by simp
      show "no_room (l_vfs st) \<longrightarrow> st' = st \<and> es' @ [(x, c)] = []" using False by simp
    qed (rule all)
  qed
qed

subsection \<open>Properties\<close>



text \<open>
  A size field of \<open>37777777000\<close> moves on by 512 + 0xFFFFFE00, which is nothing: such an archive is unpacked for ever.
\<close>

theorem initramfs_parse_hangs:
  assumes "char_at m a \<noteq> NUL" and "a < e" and "octal_field m (a + SIZE_FIELD) 12 0 = 0xFFFFFE00"
  shows "initramfs_parse fs m a e st = None"
proof -
  have stay: "a + (512 + round_up 0xFFFFFE00) = a" by (simp add: round_up_def)
  have "\<not> (m' = m \<and> e' = e \<and> b = a)" if "initramfs_loop fs' m' b e' k st = Some r" for fs' m' b e' k st r
  proof (rule initramfs_loop.raw_induct [OF _ that])
    fix loop fs' m' b e' k st r
    assume ih: "\<And>fs' m' b e' k st r. loop fs' m' b e' k st = Some r \<Longrightarrow> \<not> (m' = m \<and> e' = e \<and> b = a)"
      and run: "(if b < e' \<and> char_at m' b \<noteq> NUL
        then do { st' \<leftarrow> unpack_entry fs' m' b st; n \<leftarrow> int32 (k + 1);
                  loop fs' m' (b + (512 + round_up (octal_field m' (b + SIZE_FIELD) 12 0))) e' n st' }
        else Some (k, st)) = Some r"
    show "\<not> (m' = m \<and> e' = e \<and> b = a)"
      using run ih [of fs' m a e _ _ r] assms stay by (auto simp: bind_eq_Some_conv)
  qed
  then have "initramfs_loop fs m a e 0 st \<noteq> Some r" for r by metis
  then have "initramfs_loop fs m a e 0 st = None" by (cases "initramfs_loop fs m a e 0 st") metis+
  then show ?thesis by (simp add: initramfs_parse_def)
qed

end
