(* ===== verification/Ata.thy ===== *)
theory Ata
  imports CString_Copy
begin

text \<open>
  The two drivers for the primary ATA controller, \<open>drivers/ata/ata.c\<close> and \<open>drivers/disk/disk.c\<close>, which
  transfer sectors word by word through its ports. The controller is a parameter: what a port access
  returns and what it does to the state \<open>'d\<close> of the controller. Buffers are lists of bytes.
\<close>

subsection \<open>Ports\<close>

record 'd ports =
  p_inb :: "u16 \<Rightarrow> 'd \<Rightarrow> u8 \<times> 'd"
  p_inw :: "u16 \<Rightarrow> 'd \<Rightarrow> u16 \<times> 'd"
  p_outb :: "u16 \<Rightarrow> u8 \<Rightarrow> 'd \<Rightarrow> 'd"
  p_outw :: "u16 \<Rightarrow> u16 \<Rightarrow> 'd \<Rightarrow> 'd"

definition ATA_PRIMARY_DATA :: u16 where "ATA_PRIMARY_DATA = 0x1F0"
definition ATA_PRIMARY_SECCOUNT :: u16 where "ATA_PRIMARY_SECCOUNT = 0x1F2"
definition ATA_PRIMARY_LBA_LOW :: u16 where "ATA_PRIMARY_LBA_LOW = 0x1F3"
definition ATA_PRIMARY_LBA_MID :: u16 where "ATA_PRIMARY_LBA_MID = 0x1F4"
definition ATA_PRIMARY_LBA_HIGH :: u16 where "ATA_PRIMARY_LBA_HIGH = 0x1F5"
definition ATA_PRIMARY_DRIVE_SEL :: u16 where "ATA_PRIMARY_DRIVE_SEL = 0x1F6"
definition ATA_PRIMARY_STATUS :: u16 where "ATA_PRIMARY_STATUS = 0x1F7"

text \<open>The registers for a transfer: drive and top bits, count, address, command.\<close>

definition ata_address :: "'d ports \<Rightarrow> u32 \<Rightarrow> u8 \<Rightarrow> 'd \<Rightarrow> 'd" where
  "ata_address io lba count d =
     p_outb io ATA_PRIMARY_LBA_HIGH (ucast (drop_bit 16 lba))
       (p_outb io ATA_PRIMARY_LBA_MID (ucast (drop_bit 8 lba))
         (p_outb io ATA_PRIMARY_LBA_LOW (ucast lba) (p_outb io ATA_PRIMARY_SECCOUNT count d)))"

definition ata_select :: "'d ports \<Rightarrow> u32 \<Rightarrow> 'd \<Rightarrow> 'd" where
  "ata_select io lba d = p_outb io ATA_PRIMARY_DRIVE_SEL (0xE0 OR ucast (drop_bit 24 lba AND 0x0F)) d"

text \<open>256 words into \<open>ptr\<close>, 256 words out of it; a word is two bytes, the low one first.\<close>

definition read_words :: "'d ports \<Rightarrow> nat \<Rightarrow> u8 list \<times> 'd \<Rightarrow> (u8 list \<times> 'd) option" where
  "read_words io base bd = for_up 0 256
     (\<lambda>i (buffer, d). do { let (w, d') = p_inw io ATA_PRIMARY_DATA d;
                           b \<leftarrow> wr buffer (base + 2 * i) (ucast w);
                           b' \<leftarrow> wr b (base + 2 * i + 1) (ucast (drop_bit 8 w));
                           Some (b', d') }) bd"

definition write_words :: "'d ports \<Rightarrow> nat \<Rightarrow> u8 list \<Rightarrow> 'd \<Rightarrow> 'd option" where
  "write_words io base buffer d = for_up 0 256
     (\<lambda>i d. do { lo \<leftarrow> rd buffer (base + 2 * i); hi \<leftarrow> rd buffer (base + 2 * i + 1);
                 Some (p_outw io ATA_PRIMARY_DATA (ucast lo OR push_bit 8 (ucast hi)) d) }) d"

subsection \<open>drivers/ata/ata.c\<close>

definition ATA_TIMEOUT :: nat where "ATA_TIMEOUT = 1000000"

primrec ata_wait_bsy_loop :: "'d ports \<Rightarrow> nat \<Rightarrow> 'd \<Rightarrow> int \<times> 'd" where
  "ata_wait_bsy_loop io 0 d = (-1, d)"
| "ata_wait_bsy_loop io (Suc timeout) d =
     (let (status, d') = p_inb io ATA_PRIMARY_STATUS d
      in if status = 0xFF then (-1, d') else if status AND 0x80 = 0 then (0, d') else ata_wait_bsy_loop io timeout d')"

definition ata_wait_bsy :: "'d ports \<Rightarrow> 'd \<Rightarrow> int \<times> 'd" where
  "ata_wait_bsy io d = ata_wait_bsy_loop io ATA_TIMEOUT d"

primrec ata_wait_drq_loop :: "'d ports \<Rightarrow> nat \<Rightarrow> 'd \<Rightarrow> int \<times> 'd" where
  "ata_wait_drq_loop io 0 d = (-1, d)"
| "ata_wait_drq_loop io (Suc timeout) d =
     (let (status, d') = p_inb io ATA_PRIMARY_STATUS d
      in if status AND 0x01 \<noteq> 0 then (-1, d') else if status AND 0x08 \<noteq> 0 then (0, d') else ata_wait_drq_loop io timeout d')"

definition ata_wait_drq :: "'d ports \<Rightarrow> 'd \<Rightarrow> int \<times> 'd" where
  "ata_wait_drq io d = ata_wait_drq_loop io ATA_TIMEOUT d"

text \<open>Four reads of the status give the drive time to answer.\<close>

definition settle :: "'d ports \<Rightarrow> 'd \<Rightarrow> 'd" where
  "settle io d = ((\<lambda>d. snd (p_inb io ATA_PRIMARY_STATUS d)) ^^ 4) d"

definition ata_read_sector :: "'d ports \<Rightarrow> u32 \<Rightarrow> u8 list \<Rightarrow> 'd \<Rightarrow> (u8 list \<times> 'd) option" where
  "ata_read_sector io lba buffer d =
     (let (r, d1) = ata_wait_bsy io d
      in if r \<noteq> 0 then Some (buffer, d1)
         else let d2 = p_outb io ATA_PRIMARY_STATUS 0x20 (ata_address io lba 1 (settle io (ata_select io lba d1)));
                  (r2, d3) = ata_wait_bsy io d2
              in if r2 \<noteq> 0 then Some (buffer, d3)
                 else let (r3, d4) = ata_wait_drq io d3
                      in if r3 \<noteq> 0 then Some (buffer, d4) else read_words io 0 (buffer, d4))"

definition ata_write_sector :: "'d ports \<Rightarrow> u32 \<Rightarrow> u8 list \<Rightarrow> 'd \<Rightarrow> 'd option" where
  "ata_write_sector io lba buffer d =
     (let d1 = snd (ata_wait_bsy io d);
          (r, d2) = ata_wait_bsy io d1
      in if r \<noteq> 0 then Some d2
         else let d3 = p_outb io ATA_PRIMARY_STATUS 0x30 (ata_address io lba 1 (ata_select io lba d2));
                  d4 = snd (ata_wait_drq io (snd (ata_wait_bsy io d3)))
              in do { d5 \<leftarrow> write_words io 0 buffer d4; Some (p_outb io ATA_PRIMARY_STATUS 0xE7 d5) })"

subsection \<open>drivers/disk/disk.c\<close>

definition IDE_TIMEOUT :: nat where "IDE_TIMEOUT = 100000"

text \<open>\<open>while (test(status)) if (--timeout <= 0) return false;\<close>\<close>

primrec ide_wait :: "'d ports \<Rightarrow> (u8 \<Rightarrow> bool) \<Rightarrow> nat \<Rightarrow> 'd \<Rightarrow> bool \<times> 'd" where
  "ide_wait io waiting 0 d = (False, d)"
| "ide_wait io waiting (Suc timeout) d =
     (let (status, d') = p_inb io ATA_PRIMARY_STATUS d in if waiting status then ide_wait io waiting timeout d' else (True, d'))"

definition ide_wait_bsy_timeout :: "'d ports \<Rightarrow> 'd \<Rightarrow> bool \<times> 'd" where
  "ide_wait_bsy_timeout io d = ide_wait io (\<lambda>s. s AND 0x80 \<noteq> 0) IDE_TIMEOUT d"

definition ide_wait_drq_timeout :: "'d ports \<Rightarrow> 'd \<Rightarrow> bool \<times> 'd" where
  "ide_wait_drq_timeout io d = ide_wait io (\<lambda>s. s AND 0x08 = 0) IDE_TIMEOUT d"

definition ide_select_drive :: "'d ports \<Rightarrow> u8 \<Rightarrow> 'd \<Rightarrow> 'd" where
  "ide_select_drive io slave d =
     snd (ide_wait_bsy_timeout io (p_outb io ATA_PRIMARY_DRIVE_SEL (0xA0 OR (if slave \<noteq> 0 then 0x10 else 0)) d))"

text \<open>The 256 words that identify a drive; the buffer has room for words.\<close>

definition identify_words :: "'d ports \<Rightarrow> u16 list \<times> 'd \<Rightarrow> (u16 list \<times> 'd) option" where
  "identify_words io bd = for_up 0 256
     (\<lambda>i (buffer, d). do { let (w, d') = p_inw io ATA_PRIMARY_DATA d; b \<leftarrow> wr buffer i w; Some (b, d') }) bd"

definition ide_identify_drive :: "'d ports \<Rightarrow> u8 \<Rightarrow> u16 list option \<Rightarrow> 'd \<Rightarrow> (bool \<times> u16 list option \<times> 'd) option" where
  "ide_identify_drive io slave buffer d =
     (case buffer of
        None \<Rightarrow> Some (False, None, d)
      | Some b \<Rightarrow>
          let d1 = p_outb io ATA_PRIMARY_STATUS 0xEC (ata_address io 0 0 (ide_select_drive io slave d));
              (status, d2) = p_inb io ATA_PRIMARY_STATUS d1
          in if status = 0 then Some (False, buffer, d2)
             else let (ok, d3) = ide_wait_bsy_timeout io d2
                  in if \<not> ok then Some (False, buffer, d3)
                     else let (status2, d4) = p_inb io ATA_PRIMARY_STATUS d3
                          in if status2 AND 0x01 \<noteq> 0 then Some (False, buffer, d4)
                             else let (ok2, d5) = ide_wait_drq_timeout io d4
                                  in if \<not> ok2 then Some (False, buffer, d5)
                                     else do { (b', d6) \<leftarrow> identify_words io (b, d5); Some (True, Some b', d6) })"

definition ide_drive_present :: "'d ports \<Rightarrow> u8 \<Rightarrow> u16 list \<Rightarrow> 'd \<Rightarrow> (bool \<times> 'd) option" where
  "ide_drive_present io slave identify d =
     do { (ok, b, d') \<leftarrow> ide_identify_drive io slave (Some identify) d; Some (ok, d') }"

definition disk_is_ssd_primary :: "'d ports \<Rightarrow> u16 list \<Rightarrow> 'd \<Rightarrow> (bool \<times> 'd) option" where
  "disk_is_ssd_primary io identify d =
     do { (ok, b, d') \<leftarrow> ide_identify_drive io 0 (Some identify) d;
          if \<not> ok then Some (False, d')
          else do { ws \<leftarrow> b; w \<leftarrow> rd ws 217; Some (w = 0xFFFF, d') } }"

text \<open>The number of sectors goes to the controller as one byte; a time-out ends the transfer silently.\<close>

primrec disk_read_loop :: "'d ports \<Rightarrow> nat \<Rightarrow> nat \<Rightarrow> u8 list \<Rightarrow> 'd \<Rightarrow> (u8 list \<times> 'd) option" where
  "disk_read_loop io 0 ptr buffer d = Some (buffer, d)"
| "disk_read_loop io (Suc sectors) ptr buffer d =
     (let (ok, d1) = ide_wait_bsy_timeout io d
      in if \<not> ok then Some (buffer, d1)
         else let (ok2, d2) = ide_wait_drq_timeout io d1
              in if \<not> ok2 then Some (buffer, d2)
                 else do { (b, d3) \<leftarrow> read_words io ptr (buffer, d2); disk_read_loop io sectors (ptr + 512) b d3 })"

definition disk_read :: "'d ports \<Rightarrow> u32 \<Rightarrow> u8 list \<Rightarrow> u32 \<Rightarrow> 'd \<Rightarrow> (u8 list \<times> 'd) option" where
  "disk_read io lba buffer sectors d =
     disk_read_loop io (unat sectors) 0 buffer
       (p_outb io ATA_PRIMARY_STATUS 0x20 (ata_address io lba (ucast sectors) (ata_select io lba d)))"

primrec disk_write_loop :: "'d ports \<Rightarrow> nat \<Rightarrow> nat \<Rightarrow> u8 list \<Rightarrow> 'd \<Rightarrow> 'd option" where
  "disk_write_loop io 0 ptr buffer d = Some d"
| "disk_write_loop io (Suc sectors) ptr buffer d =
     (let (ok, d1) = ide_wait_bsy_timeout io d
      in if \<not> ok then Some d1
         else let (ok2, d2) = ide_wait_drq_timeout io d1
              in if \<not> ok2 then Some d2
                 else do { d3 \<leftarrow> write_words io ptr buffer d2; disk_write_loop io sectors (ptr + 512) buffer d3 })"

definition disk_write :: "'d ports \<Rightarrow> u32 \<Rightarrow> u8 list \<Rightarrow> u32 \<Rightarrow> 'd \<Rightarrow> 'd option" where
  "disk_write io lba buffer sectors d =
     disk_write_loop io (unat sectors) 0 buffer
       (p_outb io ATA_PRIMARY_STATUS 0x30 (ata_address io lba (ucast sectors) (ata_select io lba d)))"

text \<open>\<open>out_size\<close> is unsigned; \<open>strncpy\<close> takes it as a signed number. Local arrays are parameters.\<close>

definition put_style :: "char list \<Rightarrow> u32 \<Rightarrow> char list \<Rightarrow> char list option" where
  "put_style out_style out_size s =
     do { o1 \<leftarrow> strncpy out_style (s @ [NUL]) (sint (out_size - 1)); wr o1 (unat (out_size - 1)) NUL }"

definition disk_detect_partition_style ::
    "'d ports \<Rightarrow> u16 list \<Rightarrow> u8 list \<Rightarrow> char list option \<Rightarrow> u32 \<Rightarrow> 'd \<Rightarrow> (char list option \<times> 'd) option" where
  "disk_detect_partition_style io identify sector0 out_style out_size d =
     (case out_style of
        None \<Rightarrow> Some (None, d)
      | Some out \<Rightarrow>
          if out_size = 0 then Some (out_style, d)
          else do { (ok, b, d1) \<leftarrow> ide_identify_drive io 0 (Some identify) d;
                    if \<not> ok then do { s \<leftarrow> put_style out out_size ''UNKNOWN''; Some (Some s, d1) }
                    else do { (sec, d2) \<leftarrow> disk_read io 0 sector0 1 d1;
                              m1 \<leftarrow> rd sec 510; m2 \<leftarrow> rd sec 511; t \<leftarrow> rd sec (0x1BE + 4);
                              s \<leftarrow> put_style out out_size
                                (if m1 \<noteq> 0x55 \<or> m2 \<noteq> 0xAA then ''UNKNOWN'' else if t = 0xEE then ''GPT'' else ''MBR'');
                              Some (Some s, d2) } })"

subsection \<open>What a transfer moves\<close>

text \<open>The next words of the data port, and the bytes of words.\<close>

primrec data_words :: "'d ports \<Rightarrow> nat \<Rightarrow> 'd \<Rightarrow> u16 list \<times> 'd" where
  "data_words io 0 d = ([], d)"
| "data_words io (Suc n) d =
     (let (ws, d1) = data_words io n d; (w, d2) = p_inw io ATA_PRIMARY_DATA d1 in (ws @ [w], d2))"

definition word_bytes :: "u16 list \<Rightarrow> u8 list" where
  "word_bytes ws = concat (map (\<lambda>w. [ucast w, ucast (drop_bit 8 w)]) ws)"

lemma data_words_length [simp]: "length (fst (data_words io n d)) = n"
  by (induction n) (auto simp: Let_def split: prod.splits)

lemma word_bytes_length [simp]: "length (word_bytes ws) = 2 * length ws"
  by (induction ws) (simp_all add: word_bytes_def)

lemma word_bytes_append: "word_bytes (us @ ws) = word_bytes us @ word_bytes ws"
  by (simp add: word_bytes_def)

lemma put_two:
  assumes "length p = base + 2 * i" and "base + 2 * Suc i \<le> length p + length q"
  shows "do { b \<leftarrow> wr (p @ q) (base + 2 * i) x; wr b (base + 2 * i + 1) y } = Some (p @ [x, y] @ drop 2 q)"
proof -
  obtain u v r where q: "q = u # v # r" using assms by (cases q; cases "tl q") auto
  have "wr (p @ u # v # r) (base + 2 * i) x = Some (p @ x # v # r)"
    using assms(1) by (simp add: wr_Some list_update_append)
  moreover have "wr (p @ x # v # r) (base + 2 * i + 1) y = Some (p @ x # y # r)"
    using assms(1) by (simp add: wr_Some list_update_append)
  ultimately show ?thesis by (simp add: q)
qed

lemma read_words_run:
  assumes "base + 512 \<le> length buffer"
  shows "read_words io base (buffer, d) =
    Some (take base buffer @ word_bytes (fst (data_words io 256 d)) @ drop (base + 512) buffer, snd (data_words io 256 d))"
proof -
  have "\<exists>bd. read_words io base (buffer, d) = Some bd \<and>
      bd = (take base buffer @ word_bytes (fst (data_words io 256 d)) @ drop (base + 2 * 256) buffer, snd (data_words io 256 d))"
    unfolding read_words_def
  proof (rule for_up_rule [where I = "\<lambda>i bd. bd =
      (take base buffer @ word_bytes (fst (data_words io i d)) @ drop (base + 2 * i) buffer, snd (data_words io i d))"])
    fix i bd
    assume i: "i < 256" and bd: "bd = (take base buffer @ word_bytes (fst (data_words io i d)) @ drop (base + 2 * i) buffer, snd (data_words io i d))"
    obtain ws d1 where ws: "data_words io i d = (ws, d1)" by (cases "data_words io i d")
    obtain w d2 where w: "p_inw io ATA_PRIMARY_DATA d1 = (w, d2)" by (cases "p_inw io ATA_PRIMARY_DATA d1")
    have len: "length ws = i" using data_words_length [of io i d] ws by simp
    let ?p = "take base buffer @ word_bytes ws"
    have p: "length ?p = base + 2 * i" using assms len by simp
    have put: "do { b \<leftarrow> wr (?p @ drop (base + 2 * i) buffer) (base + 2 * i) (ucast w); wr b (base + 2 * i + 1) (ucast (drop_bit 8 w)) } =
        Some (?p @ [ucast w, ucast (drop_bit 8 w)] @ drop 2 (drop (base + 2 * i) buffer))"
      by (rule put_two [OF p]) (use assms i p in simp)
    have step: "data_words io (Suc i) d = (ws @ [w], d2)" using ws w by simp
    have "(case bd of (buffer, d) \<Rightarrow> do { let (w, d') = p_inw io ATA_PRIMARY_DATA d;
        b \<leftarrow> wr buffer (base + 2 * i) (ucast w); b' \<leftarrow> wr b (base + 2 * i + 1) (ucast (drop_bit 8 w)); Some (b', d') }) =
      do { b' \<leftarrow> do { b \<leftarrow> wr (?p @ drop (base + 2 * i) buffer) (base + 2 * i) (ucast w); wr b (base + 2 * i + 1) (ucast (drop_bit 8 w)) }; Some (b', d2) }"
      using ws w by (simp add: bd)
    also have "\<dots> = Some (?p @ [ucast w, ucast (drop_bit 8 w)] @ drop 2 (drop (base + 2 * i) buffer), d2)"
      by (simp only: put bind.bind_lunit)
    finally show "\<exists>bd'. (case bd of (buffer, d) \<Rightarrow> do { let (w, d') = p_inw io ATA_PRIMARY_DATA d;
        b \<leftarrow> wr buffer (base + 2 * i) (ucast w); b' \<leftarrow> wr b (base + 2 * i + 1) (ucast (drop_bit 8 w)); Some (b', d') }) = Some bd' \<and>
      bd' = (take base buffer @ word_bytes (fst (data_words io (Suc i) d)) @ drop (base + 2 * Suc i) buffer, snd (data_words io (Suc i) d))"
      unfolding step by (simp add: word_bytes_append word_bytes_def add.commute)
  qed (simp_all add: word_bytes_def)
  then show ?thesis by simp
qed

text \<open>
  A transfer that times out has moved whole sectors: the first of them are replaced by what the data port
  delivered, the rest of the buffer is as it was.
\<close>

definition sectors_filled :: "u8 list \<Rightarrow> nat \<Rightarrow> nat \<Rightarrow> u8 list \<Rightarrow> bool" where
  "sectors_filled buffer base n b \<longleftrightarrow> (\<exists>k ws. k \<le> n \<and> length ws = 256 * k \<and>
     b = take base buffer @ word_bytes ws @ drop (base + 512 * k) buffer)"

lemma disk_read_loop_run:
  assumes "base + 512 * n \<le> length buffer"
  shows "\<exists>b d'. disk_read_loop io n base buffer d = Some (b, d') \<and> sectors_filled buffer base n b"
  using assms
proof (induction n arbitrary: base buffer d)
  case 0
  then show ?case by (simp add: sectors_filled_def word_bytes_def)
next
  case (Suc n)
  obtain ok d1 where w1: "ide_wait_bsy_timeout io d = (ok, d1)" by (cases "ide_wait_bsy_timeout io d")
  obtain ok2 d2 where w2: "ide_wait_drq_timeout io d1 = (ok2, d2)" by (cases "ide_wait_drq_timeout io d1")
  have stop: "sectors_filled buffer base (Suc n) buffer"
    unfolding sectors_filled_def by (intro exI [of _ 0] exI [of _ "[]"]) (simp add: word_bytes_def)
  show ?case
  proof (cases "ok \<and> ok2")
    case False
    with w1 w2 stop show ?thesis by auto
  next
    case True
    obtain ws d3 where ws: "data_words io 256 d2 = (ws, d3)" by (cases "data_words io 256 d2")
    have len: "length ws = 256" using data_words_length [of io 256 d2] ws by simp
    let ?b = "take base buffer @ word_bytes ws @ drop (base + 512) buffer"
    have run: "read_words io base (buffer, d2) = Some (?b, d3)" using read_words_run [of base buffer io d2] Suc.prems ws by simp
    have "base + 512 + 512 * n \<le> length ?b" using Suc.prems len by simp
    from Suc.IH [OF this] obtain b d' where b: "disk_read_loop io n (base + 512) ?b d3 = Some (b, d')"
        "sectors_filled ?b (base + 512) n b" by blast
    then obtain k us where k: "k \<le> n" "length us = 256 * k"
        "b = take (base + 512) ?b @ word_bytes us @ drop (base + 512 + 512 * k) ?b"
      by (auto simp: sectors_filled_def)
    have "take (base + 512) ?b = take base buffer @ word_bytes ws" using Suc.prems len by simp
    moreover have "base + 512 * Suc k = base + 512 + 512 * k" by simp
    moreover have "drop (base + 512 + 512 * k) ?b = drop (base + 512 + 512 * k) buffer"
      using Suc.prems len by (simp add: add.commute [of "512 * k" "base + 512"])
    ultimately have "b = take base buffer @ word_bytes (ws @ us) @ drop (base + 512 * Suc k) buffer"
      using k(3) by (simp only: word_bytes_append append_assoc)
    with k(1,2) len have "sectors_filled buffer base (Suc n) b"
      unfolding sectors_filled_def by (intro exI [of _ "Suc k"] exI [of _ "ws @ us"]) simp
    with w1 w2 True run b(1) show ?thesis by simp
  qed
qed

text \<open>
  Reading sectors is safe with every controller. Whatever the controller answers and however often it
  is not ready, both drivers return, stay inside a buffer of the size asked for, and replace whole sectors from its
  start on by the words the controller delivered.
\<close>
theorem disk_read_fills_sectors:
  assumes "512 * unat sectors \<le> length buffer" and "512 \<le> length buf1"
  shows "(\<exists>b d'. disk_read io lba buffer sectors d = Some (b, d') \<and> sectors_filled buffer 0 (unat sectors) b) \<and>
    (\<exists>b d'. Ata.ata_read_sector io lba buf1 d = Some (b, d') \<and> sectors_filled buf1 0 1 b)"
proof
  show "\<exists>b d'. disk_read io lba buffer sectors d = Some (b, d') \<and> sectors_filled buffer 0 (unat sectors) b"
    unfolding disk_read_def using assms(1) by (intro disk_read_loop_run) simp
next
  have stop: "sectors_filled buf1 0 1 buf1"
    unfolding sectors_filled_def by (intro exI [of _ 0] exI [of _ "[]"]) (simp add: word_bytes_def)
  have "sectors_filled buf1 0 1 (word_bytes (fst (data_words io 256 d4)) @ drop 512 buf1)" for d4
    unfolding sectors_filled_def by (intro exI [of _ 1] exI [of _ "fst (data_words io 256 d4)"]) simp
  then have fill: "\<exists>b d'. read_words io 0 (buf1, d4) = Some (b, d') \<and> sectors_filled buf1 0 1 b" for d4
    using read_words_run [of 0 buf1 io d4] assms(2) by simp
  show "\<exists>b d'. Ata.ata_read_sector io lba buf1 d = Some (b, d') \<and> sectors_filled buf1 0 1 b"
    using stop fill by (simp add: ata_read_sector_def Let_def split: prod.split)
qed

text \<open>A controller that is always ready and delivers 0, 1, 2, \<open>\<dots>\<close>; its state is the next word.\<close>

definition demo_ports :: "u16 ports" where
  "demo_ports = \<lparr>p_inb = \<lambda>_ d. (0x58, d), p_inw = \<lambda>_ d. (d, d + 1), p_outb = \<lambda>_ _ d. d, p_outw = \<lambda>_ _ d. d\<rparr>"

theorem disk_read_fills_sectors_witness:
  "\<exists>b d'. disk_read demo_ports 5 (replicate 1024 7) 2 0 = Some (b, d') \<and> sectors_filled (replicate 1024 7) 0 2 b"
proof -
  have "512 * unat (2 :: u32) \<le> length (replicate 1024 (7 :: u8))" "512 \<le> length (replicate 512 (7 :: u8))" by simp_all
  from conjunct1 [OF disk_read_fills_sectors [OF this, where io = demo_ports and lba = 5 and d = 0]] show ?thesis by simp
qed

end
