(* ===== verification/Fat.thy ===== *)
theory Fat
  imports Elf Printk CString_Copy Free_Flag
begin

text \<open>
  The two FAT drivers, \<open>fs/fat/fat16/fat16.c\<close> (reading a file of the root directory into memory) and
  \<open>fs/fat/fat32/fat32.c\<close> (listing a directory and printing a file). The disk is a map from sector numbers to
  512 bytes, with a controller that is ready; memory is flat; what the commands print is the text they return.
\<close>

type_synonym disk = "u32 \<Rightarrow> u8 list"

subsection \<open>Names\<close>

definition fat_upper :: "char \<Rightarrow> char" where
  "fat_upper c = (if 97 \<le> (of_char c :: nat) \<and> (of_char c :: nat) \<le> 122 then char_of ((of_char c :: nat) - 32) else c)"

text \<open>\<open>while (filename[i] && ... && j < n)\<close>: what is left of the name, with the output so far.\<close>

fun fat_part :: "bool \<Rightarrow> nat \<Rightarrow> nat \<Rightarrow> char list \<Rightarrow> char list \<Rightarrow> (char list \<times> char list) option" where
  "fat_part dot n j [] out = None"
| "fat_part dot n j (c # filename) out =
     (if c \<noteq> NUL \<and> (dot \<longrightarrow> c \<noteq> CHR ''.'') \<and> j < n
      then do { out' \<leftarrow> wr out j (fat_upper c); fat_part dot n (Suc j) filename out' }
      else Some (c # filename, out))"

definition to_fat_name :: "char list \<Rightarrow> char list \<Rightarrow> char list option" where
  "to_fat_name filename out =
     do { out0 \<leftarrow> memset out 32 11;
          (rest, out1) \<leftarrow> fat_part True 8 0 filename out0;
          c \<leftarrow> rd rest 0;
          if c = CHR ''.'' then do { (rest', out2) \<leftarrow> fat_part False 11 8 (drop 1 rest) out1; Some out2 }
          else Some out1 }"

subsection \<open>FAT16\<close>

record fat16_bpb =
  jmp16 :: "u8 list"
  oem16 :: "char list"
  bytes_per_sector :: u16
  sectors_per_cluster :: u8
  reserved_sectors :: u16
  fat_count :: u8
  root_entries :: u16
  total_sectors_16 :: u16
  media_type :: u8
  fat_size_16 :: u16
  sectors_per_track :: u16
  num_heads :: u16
  hidden_sectors :: u32
  total_sectors_32 :: u32
  drive_number :: u8
  reserved1 :: u8
  boot_signature :: u8
  volume_id :: u32
  volume_label :: "char list"
  fs_type :: "char list"

text \<open>The fields of a directory entry in memory that the code reads.\<close>

definition entry_name :: "mem \<Rightarrow> u32 \<Rightarrow> char list" where
  "entry_name m e = map (\<lambda>i. char_of (unat (m (e + of_nat i)))) [0..<11]"

definition entry_cluster_low :: "mem \<Rightarrow> u32 \<Rightarrow> u16" where "entry_cluster_low m e = get16 m (e + 26)"
definition entry_file_size :: "mem \<Rightarrow> u32 \<Rightarrow> u32" where "entry_file_size m e = get32 m (e + 28)"

record fat16 =
  f_mm :: mm_state
  f_mem :: mem
  sector_buffer :: u32

text \<open>A sector stored at an address.\<close>

primrec store_bytes :: "u8 list \<Rightarrow> u32 \<Rightarrow> mem \<Rightarrow> mem" where
  "store_bytes [] a m = m"
| "store_bytes (b # bs) a m = store_bytes bs (a + 1) (m(a := b))"

definition load_sector :: "disk \<Rightarrow> u32 \<Rightarrow> u32 \<Rightarrow> fat16 \<Rightarrow> fat16 option" where
  "load_sector disk lba a s = (if a = 0 then None else Some (s\<lparr>f_mem := store_bytes (disk lba) a (f_mem s)\<rparr>))"

definition root_dir_sector :: "fat16_bpb \<Rightarrow> u32" where
  "root_dir_sector b = ucast (reserved_sectors b) + ucast (fat_count b) * ucast (fat_size_16 b)"

definition root_dir_size :: "fat16_bpb \<Rightarrow> nat option" where
  "root_dir_size b = (if bytes_per_sector b = 0 then None else Some (unat (root_entries b) * 32 div unat (bytes_per_sector b)))"

text \<open>The sectors \<open>0, \<dots>, file_size / bytes_per_sector\<close> go one behind the other.\<close>

definition load_file :: "disk \<Rightarrow> fat16_bpb \<Rightarrow> u32 \<Rightarrow> u32 \<Rightarrow> u32 \<Rightarrow> fat16 \<Rightarrow> fat16 option" where
  "load_file disk b sector file_buffer file_size s =
     for_up 0 (Suc (unat file_size div unat (bytes_per_sector b)))
       (\<lambda>i s. load_sector disk (sector + of_nat i) (file_buffer + of_nat i * ucast (bytes_per_sector b)) s) s"

text \<open>The entries of one sector: the index of the one with the name, None inside when there is none.\<close>

fun find_entry :: "mem \<Rightarrow> u32 \<Rightarrow> char list \<Rightarrow> nat \<Rightarrow> nat \<Rightarrow> (nat option) option" where
  "find_entry m entries fat_name e 0 = Some None"
| "find_entry m entries fat_name e (Suc k) =
     (let a = entries + of_nat (32 * e)
      in if m a = 0x00 then Some None
         else if m a = 0xE5 then find_entry m entries fat_name (Suc e) k
         else do { r \<leftarrow> memcmp (entry_name m a) fat_name 11;
                   if r = 0 then Some (Some e) else find_entry m entries fat_name (Suc e) k })"

definition take_entry :: "disk \<Rightarrow> fat16_bpb \<Rightarrow> u32 \<Rightarrow> u32 \<Rightarrow> nat \<Rightarrow> nat \<Rightarrow> fat16 \<Rightarrow> (u32 \<times> fat16) option" where
  "take_entry disk b root_sector entries dsize e s =
     do { let a = entries + of_nat (32 * e);
          let file_size = entry_file_size (f_mem s) a;
          let current_cluster = entry_cluster_low (f_mem s) a;
          (file_buffer, mm) \<leftarrow> kmalloc file_size (f_mm s);
          let data_region_start = root_sector + of_nat dsize;
          let sector = (ucast current_cluster - 2) * ucast (sectors_per_cluster b) + data_region_start;
          s1 \<leftarrow> load_file disk b sector file_buffer file_size (s\<lparr>f_mm := mm\<rparr>);
          Some (file_buffer, s1\<lparr>f_mem := kfree_mem entries (f_mem s1)\<rparr>) }"

text \<open>The loop over the sectors of the root directory: \<open>s\<close> counts up to \<open>dsize\<close>, \<open>k\<close> are left.\<close>

fun search_root :: "disk \<Rightarrow> fat16_bpb \<Rightarrow> char list \<Rightarrow> u32 \<Rightarrow> nat \<Rightarrow> nat \<Rightarrow> fat16 \<Rightarrow> (u32 \<times> fat16) option" where
  "search_root disk b fat_name entries dsize 0 s = Some (0, s\<lparr>f_mem := kfree_mem entries (f_mem s)\<rparr>)"
| "search_root disk b fat_name entries dsize (Suc k) s =
     do { s1 \<leftarrow> load_sector disk (root_dir_sector b + of_nat (dsize - Suc k)) entries s;
          r \<leftarrow> find_entry (f_mem s1) entries fat_name 0 (unat (bytes_per_sector b) div 32);
          case r of
            None \<Rightarrow> search_root disk b fat_name entries dsize k s1
          | Some e \<Rightarrow> take_entry disk b (root_dir_sector b) entries dsize e s1 }"

definition fat16_read_file :: "disk \<Rightarrow> fat16_bpb \<Rightarrow> char list \<Rightarrow> fat16 \<Rightarrow> (u32 \<times> fat16) option" where
  "fat16_read_file disk b filename s =
     do { fat_name \<leftarrow> to_fat_name filename (replicate 11 NUL);
          dsize \<leftarrow> root_dir_size b;
          (entries, mm) \<leftarrow> kmalloc (ucast (bytes_per_sector b)) (f_mm s);
          (buf, mm') \<leftarrow> (if sector_buffer s = 0 then kmalloc 512 mm else Some (sector_buffer s, mm));
          search_root disk b fat_name entries dsize dsize (s\<lparr>f_mm := mm', sector_buffer := buf\<rparr>) }"

subsection \<open>FAT32\<close>

record fat32_bpb =
  b_jmp :: "u8 list"
  b_oem_id :: "char list"
  b_bytes_per_sector :: u16
  b_sectors_per_cluster :: u8
  b_reserved_sectors :: u16
  b_fat_count :: u8
  b_root_entries_count :: u16
  b_total_sectors_16 :: u16
  b_media_type :: u8
  b_fat_size_16 :: u16
  b_sectors_per_track :: u16
  b_head_count :: u16
  b_hidden_sectors :: u32
  b_total_sectors_32 :: u32
  b_fat_size_32 :: u32
  b_ext_flags :: u16
  b_fs_version :: u16
  b_root_cluster :: u32
  b_fs_info_sector :: u16
  b_backup_boot_sector :: u16
  b_reserved :: "u8 list"
  b_drive_number :: u8
  b_reserved1 :: u8
  b_boot_signature :: u8
  b_volume_id :: u32
  b_volume_label :: "char list"
  b_system_id :: "char list"

text \<open>Little-endian fields of a list of bytes; an index behind the end is an access out of bounds.\<close>

definition bytes16 :: "u8 list \<Rightarrow> nat \<Rightarrow> u16 option" where
  "bytes16 d k = do { lo \<leftarrow> rd d k; hi \<leftarrow> rd d (k + 1); Some (ucast lo OR push_bit 8 (ucast hi)) }"

definition bytes32 :: "u8 list \<Rightarrow> nat \<Rightarrow> u32 option" where
  "bytes32 d k = do { lo \<leftarrow> bytes16 d k; hi \<leftarrow> bytes16 d (k + 2); Some (ucast lo OR push_bit 16 (ucast hi)) }"

definition chars_at :: "u8 list \<Rightarrow> nat \<Rightarrow> nat \<Rightarrow> char list" where
  "chars_at d k n = map (\<lambda>b. char_of (unat b)) (take n (drop k d))"

definition bpb_of :: "u8 list \<Rightarrow> fat32_bpb option" where
  "bpb_of d =
     do { bps \<leftarrow> bytes16 d 11; spc \<leftarrow> rd d 13; res \<leftarrow> bytes16 d 14; fc \<leftarrow> rd d 16; re \<leftarrow> bytes16 d 17; t16 \<leftarrow> bytes16 d 19;
          md \<leftarrow> rd d 21; f16 \<leftarrow> bytes16 d 22; spt \<leftarrow> bytes16 d 24; hc \<leftarrow> bytes16 d 26; hs \<leftarrow> bytes32 d 28; t32 \<leftarrow> bytes32 d 32;
          f32 \<leftarrow> bytes32 d 36; ef \<leftarrow> bytes16 d 40; fv \<leftarrow> bytes16 d 42; rc \<leftarrow> bytes32 d 44; fi \<leftarrow> bytes16 d 48; bb \<leftarrow> bytes16 d 50;
          dn \<leftarrow> rd d 64; r1 \<leftarrow> rd d 65; bs \<leftarrow> rd d 66; vi \<leftarrow> bytes32 d 67; _ \<leftarrow> rd d 89;
          Some \<lparr>b_jmp = take 3 d, b_oem_id = chars_at d 3 8, b_bytes_per_sector = bps, b_sectors_per_cluster = spc,
            b_reserved_sectors = res, b_fat_count = fc, b_root_entries_count = re, b_total_sectors_16 = t16, b_media_type = md,
            b_fat_size_16 = f16, b_sectors_per_track = spt, b_head_count = hc, b_hidden_sectors = hs, b_total_sectors_32 = t32,
            b_fat_size_32 = f32, b_ext_flags = ef, b_fs_version = fv, b_root_cluster = rc, b_fs_info_sector = fi,
            b_backup_boot_sector = bb, b_reserved = take 12 (drop 52 d), b_drive_number = dn, b_reserved1 = r1,
            b_boot_signature = bs, b_volume_id = vi, b_volume_label = chars_at d 71 11, b_system_id = chars_at d 82 8\<rparr> }"

text \<open>The result of \<open>init_fat32\<close>: the parameter block it keeps, and whether it accepts it.\<close>

definition init_fat32 :: "disk \<Rightarrow> (fat32_bpb \<times> bool) option" where
  "init_fat32 disk = do { b \<leftarrow> bpb_of (disk 0); Some (b, b_boot_signature b = 0x29) }"

definition cluster_to_lba :: "fat32_bpb \<Rightarrow> u32 \<Rightarrow> u32" where
  "cluster_to_lba b cluster =
     (let first_data_sector = ucast (b_reserved_sectors b) + ucast (b_fat_count b) * b_fat_size_32 b
      in first_data_sector + (cluster - 2) * ucast (b_sectors_per_cluster b))"

definition get_fat_entry :: "disk \<Rightarrow> fat32_bpb \<Rightarrow> u32 \<Rightarrow> u32 option" where
  "get_fat_entry disk b cluster =
     do { let fat_sector = ucast (b_reserved_sectors b) + cluster * 4 div 512;
          let fat_offset = cluster * 4 mod 512;
          w \<leftarrow> bytes32 (disk fat_sector) (unat fat_offset);
          Some (w AND 0x0FFFFFFF) }"

text \<open>The text of one entry of a directory; some loops skip blanks.\<close>

definition fat32_ls_entry :: "u8 list \<Rightarrow> char list option" where
  "fat32_ls_entry e =
     do { attributes \<leftarrow> rd e 11; sz \<leftarrow> bytes32 e 28;
          let name = chars_at e 0 8;
          let ext = chars_at e 8 3;
          if attributes AND 0x0F = 0 then Some []
          else do { x0 \<leftarrow> rd ext 0;
                    t \<leftarrow> (if attributes AND 0x10 \<noteq> 0 then Some ''    <DIR>'' else print_text ''    <FILE>  %d bytes'' [AInt sz]);
                    Some (filter (\<lambda>c. c \<noteq> CHR '' '') name @
                          (if x0 \<noteq> CHR '' '' then ''.'' @ filter (\<lambda>c. c \<noteq> CHR '' '') ext else []) @ t @ [LF]) } }"

fun fat32_ls_entries :: "nat \<Rightarrow> u8 list \<Rightarrow> char list option" where
  "fat32_ls_entries 0 buffer = Some []"
| "fat32_ls_entries (Suc k) buffer =
     do { c \<leftarrow> rd buffer 0;
          if c = 0x00 then Some []
          else do { t \<leftarrow> (if c = 0xE5 then Some [] else fat32_ls_entry (take 32 buffer));
                    u \<leftarrow> fat32_ls_entries k (drop 32 buffer);
                    Some (t @ u) } }"

definition fat32_ls :: "disk \<Rightarrow> fat32_bpb \<Rightarrow> u32 \<Rightarrow> char list option" where
  "fat32_ls disk b cluster =
     do { t \<leftarrow> fat32_ls_entries 16 (disk (cluster_to_lba b cluster));
          Some (''NAME          TYPE    SIZE'' @ [LF] @ ''------------------------------------'' @ [LF] @ t) }"

function fat32_cat_loop :: "disk \<Rightarrow> fat32_bpb \<Rightarrow> u32 \<Rightarrow> u32 \<Rightarrow> char list option" where
  "fat32_cat_loop disk b current_cluster bytes_left =
     (if bytes_left > 0 \<and> current_cluster < 0x0FFFFFF8
      then do { let to_read = (if bytes_left > 512 then 512 else bytes_left);
                let buffer = disk (cluster_to_lba b current_cluster);
                t \<leftarrow> (if unat to_read \<le> length buffer then Some (chars_at buffer 0 (unat to_read)) else None);
                next_cluster \<leftarrow> get_fat_entry disk b current_cluster;
                u \<leftarrow> fat32_cat_loop disk b next_cluster (bytes_left - to_read);
                Some (t @ u) }
      else Some [])"
  by pat_completeness auto
termination
proof (relation "measure (\<lambda>(disk, b, c, n). unat n)")
  fix bytes_left to_read :: u32 and disk :: disk and b :: fat32_bpb and cur nxt :: u32
  assume "bytes_left > 0 \<and> cur < 0x0FFFFFF8" "to_read = (if bytes_left > 512 then 512 else bytes_left)"
  then show "((disk, b, nxt, bytes_left - to_read), (disk, b, cur, bytes_left)) \<in> measure (\<lambda>(disk, b, c, n). unat n)"
    by (auto simp: unat_sub word_less_nat_alt word_le_nat_alt)
qed simp

declare fat32_cat_loop.simps [simp del]

definition fat32_cat :: "disk \<Rightarrow> fat32_bpb \<Rightarrow> u32 \<Rightarrow> u32 \<Rightarrow> char list option" where
  "fat32_cat disk b start_cluster file_size = do { t \<leftarrow> fat32_cat_loop disk b start_cluster file_size; Some (t @ [LF]) }"

subsection \<open>Names in a directory\<close>

lemma fat_part_run:
  assumes "cstr f (s @ t)" and "NUL \<notin> set s" and "dot \<longrightarrow> CHR ''.'' \<notin> set s" and "j + length s \<le> n" and "n \<le> length out"
    and stop: "j + length s = n \<or> t = [] \<or> dot \<and> hd t = CHR ''.''"
  shows "\<exists>f'. fat_part dot n j f out = Some (f', take j out @ map fat_upper s @ drop (j + length s) out) \<and> cstr f' t"
  using assms
proof (induction s arbitrary: f j out)
  case Nil
  then obtain c f' where "f = c # f'" by (cases f) (auto simp: cstr_def)
  with Nil show ?case by (cases t) (auto simp: cstr_simps)
next
  case (Cons c s)
  then obtain f' where f: "f = c # f'" "cstr f' (s @ t)" "c \<noteq> NUL" by (auto simp: cstr_simps)
  have j: "j < length out" "j < n" using Cons.prems(4,5) by simp_all
  let ?out = "out[j := fat_upper c]"
  have "\<exists>g. fat_part dot n (Suc j) f' ?out = Some (g, take (Suc j) ?out @ map fat_upper s @ drop (Suc j + length s) ?out) \<and> cstr g t"
    by (rule Cons.IH) (use Cons.prems f in auto)
  moreover have "take (Suc j) ?out = take j out @ [fat_upper c]" using j by (simp add: take_Suc_conv_app_nth)
  moreover have "wr out j (fat_upper c) = Some ?out" using j by (simp add: wr_Some)
  ultimately show ?case using Cons.prems(3) j(2) f by (auto simp: drop_update_cancel)
qed

definition blank_pad :: "nat \<Rightarrow> char list \<Rightarrow> char list" where
  "blank_pad n s = map fat_upper s @ replicate (n - length s) (CHR '' '')"

text \<open>A name with at most eight characters before the first dot and three behind it.\<close>

lemma to_fat_name_run:
  assumes "cstr f (base @ CHR ''.'' # ext)" and "CHR ''.'' \<notin> set base" and "length base \<le> 8" and "length ext \<le> 3" and "length out = 11"
  shows "to_fat_name f out = Some (blank_pad 8 base @ blank_pad 3 ext)"
proof -
  have nul: "NUL \<notin> set base" "NUL \<notin> set ext" using assms(1) by (auto simp: cstr_def)
  have m: "memset out 32 11 = Some (replicate 11 (CHR '' ''))"
  proof -
    have "char_of (32 :: int) = CHR '' ''" by code_simp
    then show ?thesis using memset_run [of 11 out 32] assms(5) by (simp only:) simp
  qed
  define o1 where "o1 = map fat_upper base @ replicate (11 - length base) (CHR '' '')"
  obtain f1 where f1: "fat_part True 8 0 f (replicate 11 (CHR '' '')) = Some (f1, o1)" "cstr f1 (CHR ''.'' # ext)"
    using fat_part_run [OF assms(1) nul(1), of True 0 8 "replicate 11 (CHR '' '')"] assms(2,3) by (auto simp: o1_def)
  then obtain f2 where f2: "f1 = CHR ''.'' # f2" "cstr f2 (ext @ [])" by (auto simp: cstr_simps)
  have t: "take 8 o1 = blank_pad 8 base" using assms(3) by (simp add: blank_pad_def min_def o1_def)
  have d: "drop (8 + length ext) o1 = replicate (3 - length ext) (CHR '' '')" using assms(3,4) by (simp add: o1_def)
  have len: "length o1 = 11" using assms(3) by (simp add: o1_def)
  obtain f3 where "fat_part False 11 8 f2 o1 = Some (f3, take 8 o1 @ map fat_upper ext @ drop (8 + length ext) o1)"
    using fat_part_run [OF f2(2) nul(2), of False 8 11 o1] assms(4) len by auto
  then show ?thesis using m f1(1) f2(1) by (simp add: to_fat_name_def t d blank_pad_def [of 3])
qed

subsection \<open>Following a chain\<close>

definition sectors_ok :: "disk \<Rightarrow> bool" where
  "sectors_ok disk \<longleftrightarrow> (\<forall>s. length (disk s) = 512)"

text \<open>Clusters linked by the allocation table.\<close>

fun fat_chain :: "disk \<Rightarrow> fat32_bpb \<Rightarrow> u32 list \<Rightarrow> bool" where
  "fat_chain disk b (c # c' # cs) \<longleftrightarrow> c < 0x0FFFFFF8 \<and> get_fat_entry disk b c = Some c' \<and> fat_chain disk b (c' # cs)"
| "fat_chain disk b [c] \<longleftrightarrow> c < 0x0FFFFFF8"
| "fat_chain disk b [] \<longleftrightarrow> False"

lemma get_fat_entry_total:
  assumes "sectors_ok disk"
  shows "\<exists>w. get_fat_entry disk b c = Some w"
proof -
  have "unat (c * 4 mod 512) = 4 * (unat c mod 128)"
  proof -
    have "unat (c * 4 mod 512) = unat c * 4 mod 512"
      by (simp add: unat_mod unat_word_ariths take_bit_eq_mod mod_mod_cancel)
    then show ?thesis by (simp add: mult.commute [of _ 4] mult_mod_right)
  qed
  moreover have "unat c mod 128 < 128" by simp
  ultimately have "unat (c * 4 mod 512) + 3 < 512" by linarith
  then show ?thesis using assms by (simp add: get_fat_entry_def bytes32_def bytes16_def sectors_ok_def rd_def Let_def)
qed

definition chain_bytes :: "disk \<Rightarrow> fat32_bpb \<Rightarrow> u32 list \<Rightarrow> u8 list" where
  "chain_bytes disk b cs = concat (map (\<lambda>c. disk (cluster_to_lba b c)) cs)"

lemma fat32_cat_loop_run:
  assumes "sectors_ok disk" and "fat_chain disk b cs"
    and "unat n \<le> 512 * length cs \<or> (\<exists>e. get_fat_entry disk b (last cs) = Some e \<and> 0x0FFFFFF8 \<le> e)"
  shows "fat32_cat_loop disk b (hd cs) n = Some (map (\<lambda>x. char_of (unat x)) (take (unat n) (chain_bytes disk b cs)))"
  using assms(2,3)
proof (induction cs arbitrary: n)
  case Nil
  then show ?case by simp
next
  case (Cons c cs)
  have c: "c < 0x0FFFFFF8" using Cons.prems(1) by (cases cs) simp_all
  show ?case
  proof (cases "n = 0")
    case True
    then show ?thesis by (subst fat32_cat_loop.simps) simp
  next
    case False
    define k where "k = min (unat n) 512"
    define to_read where "to_read = (if n > 512 then 512 else n)"
    have u: "unat to_read = k" by (auto simp: to_read_def k_def word_less_nat_alt)
    have left: "unat (n - to_read) = unat n - k"
      using u by (auto simp: to_read_def k_def unat_sub word_less_nat_alt word_le_nat_alt)
    have len: "length (disk s) = 512" for s using assms(1) by (simp add: sectors_ok_def)
    obtain w where w: "get_fat_entry disk b c = Some w" using get_fat_entry_total [OF assms(1)] by blast
    have "\<exists>u. fat32_cat_loop disk b w (n - to_read) = Some u \<and> u = map (\<lambda>x. char_of (unat x)) (take (unat n - k) (chain_bytes disk b cs))"
    proof (cases cs)
      case Nil
      then have "unat n \<le> 512 \<or> 0x0FFFFFF8 \<le> w" using Cons.prems(2) w by auto
      then have stop: "(n - to_read > 0 \<and> w < 0x0FFFFFF8) = False" using left by (auto simp: k_def word_less_nat_alt word_le_nat_alt)
      show ?thesis using Nil by (subst fat32_cat_loop.simps) (simp only: stop if_False, simp add: chain_bytes_def)
    next
      case (Cons c' cs')
      have "fat32_cat_loop disk b (hd cs) (n - to_read) =
          Some (map (\<lambda>x. char_of (unat x)) (take (unat (n - to_read)) (chain_bytes disk b cs)))"
        by (rule Cons.IH) (use Cons.prems Cons left in \<open>auto simp: k_def\<close>)
      then show ?thesis using Cons.prems(1) Cons w left by simp
    qed
    moreover have "take (unat n) (chain_bytes disk b (c # cs)) = take k (disk (cluster_to_lba b c)) @ take (unat n - k) (chain_bytes disk b cs)"
      by (cases "unat n \<le> 512") (simp_all add: chain_bytes_def len k_def min_def)
    moreover have "chars_at (disk (cluster_to_lba b c)) 0 k = map (\<lambda>x. char_of (unat x)) (take k (disk (cluster_to_lba b c)))"
      by (simp add: chars_at_def)
    ultimately show ?thesis using False c w len u
      by (subst fat32_cat_loop.simps) (simp add: to_read_def [symmetric] k_def word_gt_0)
  qed
qed

text \<open>
  Printing a file follows its chain. On a FAT32 disk, \<open>fat32_cat\<close> with a starting cluster whose chain
  in the allocation table has enough clusters, or ends, prints the first bytes of the chain up to the size of the
  file, taking the first sector of every cluster; it ends for every size and whatever the table contains.
\<close>
theorem fat32_cat_follows_chain:
  assumes "sectors_ok disk" and "fat_chain disk b cs"
    and "unat n \<le> 512 * length cs \<or> (\<exists>e. get_fat_entry disk b (last cs) = Some e \<and> 0x0FFFFFF8 \<le> e)"
  shows "fat32_cat disk b (hd cs) n = Some (map (\<lambda>x. char_of (unat x)) (take (unat n) (chain_bytes disk b cs)) @ [LF])"
  by (simp add: fat32_cat_def fat32_cat_loop_run [OF assms])

text \<open>A disk with one FAT in sector 1 and a file in the clusters 2 and 3.\<close>

definition demo_bpb :: fat32_bpb where
  "demo_bpb = \<lparr>b_jmp = [0, 0, 0], b_oem_id = replicate 8 NUL, b_bytes_per_sector = 512, b_sectors_per_cluster = 1,
     b_reserved_sectors = 1, b_fat_count = 1, b_root_entries_count = 0, b_total_sectors_16 = 0, b_media_type = 0xF8,
     b_fat_size_16 = 0, b_sectors_per_track = 0, b_head_count = 0, b_hidden_sectors = 0, b_total_sectors_32 = 4,
     b_fat_size_32 = 1, b_ext_flags = 0, b_fs_version = 0, b_root_cluster = 2, b_fs_info_sector = 0,
     b_backup_boot_sector = 0, b_reserved = replicate 12 0, b_drive_number = 0x80, b_reserved1 = 0,
     b_boot_signature = 0x29, b_volume_id = 0, b_volume_label = replicate 11 NUL, b_system_id = replicate 8 NUL\<rparr>"

definition demo_fat_disk :: disk where
  "demo_fat_disk s =
     (if s = 1 then replicate 8 0 @ [3, 0, 0, 0, 0xF8, 0xFF, 0xFF, 0x0F] @ replicate 496 0
      else if s = 2 then replicate 512 0x61 else replicate 512 0x62)"

theorem fat32_cat_follows_chain_witness:
  "fat32_cat demo_fat_disk demo_bpb 2 513 = Some (replicate 512 (CHR ''a'') @ ''b'' @ [LF])"
proof -
  have ok: "sectors_ok demo_fat_disk" by (simp add: sectors_ok_def demo_fat_disk_def)
  have "get_fat_entry demo_fat_disk demo_bpb 2 = Some 3"
    by (simp add: get_fat_entry_def bytes32_def bytes16_def demo_fat_disk_def demo_bpb_def rd_def nth_append Let_def)
  then have ch: "fat_chain demo_fat_disk demo_bpb [2, 3]" by simp
  have n: "unat (513 :: u32) \<le> 512 * length [2 :: u32, 3]" by simp
  have c: "char_of (97 :: nat) = CHR ''a''" "char_of (98 :: nat) = CHR ''b''" by code_simp+
  have b: "chain_bytes demo_fat_disk demo_bpb [2, 3] = replicate 512 0x61 @ replicate 512 0x62"
    by (simp add: chain_bytes_def cluster_to_lba_def demo_bpb_def demo_fat_disk_def)
  have "take (unat (513 :: u32)) (replicate 512 (0x61 :: u8) @ replicate 512 0x62) = replicate 512 0x61 @ [0x62]"
    by (simp add: take_append)
  with fat32_cat_follows_chain [OF ok ch disjI1 [OF n]] b c show ?thesis by simp
qed

end
