(* ===== verification/Qsh.thy ===== *)
theory Qsh
  imports Shell Printk
begin

text \<open>
  The second shell, \<open>usr/qsh.c\<close>: a line editor with history that reads scan codes, one-line commands with
  pipes, \<open>&&\<close> and assignments, and scripts with \<open>if\<close>, \<open>else\<close> and \<open>fi\<close>. It runs the commands of the kernel
  shell (theory \<open>Shell\<close>). What it prints is left out, but a typed character is echoed as a format string, and
  whether that is a format is part of the model. The list of open sources and environments is restored on
  every return and left out.
\<close>

subsection \<open>State\<close>

definition qsh_HISTORY_SIZE :: nat where "qsh_HISTORY_SIZE = 32"
definition qsh_LINE_MAX :: nat where "qsh_LINE_MAX = 256"

record qsh =
  q_shell :: shell
  qsh_history :: "char list list"
  qsh_history_count :: int
  qsh_history_index :: int
  exstat :: int

definition qsh_boot :: "shell \<Rightarrow> qsh" where
  "qsh_boot s = \<lparr>q_shell = s, qsh_history = replicate qsh_HISTORY_SIZE (replicate qsh_LINE_MAX NUL), qsh_history_count = 0,
     qsh_history_index = -1, exstat = 0\<rparr>"

subsection \<open>Running a line\<close>

text \<open>The command whose status is kept, and the one whose status is not.\<close>

definition run_keep :: "host \<Rightarrow> char list \<Rightarrow> qsh \<Rightarrow> qsh option" where
  "run_keep h input s =
     do { (r, sh) \<leftarrow> execute_single_with_return h input (q_shell s); v \<leftarrow> r; Some (s\<lparr>q_shell := sh, exstat := v\<rparr>) }"

definition run_drop :: "host \<Rightarrow> char list \<Rightarrow> qsh \<Rightarrow> qsh option" where
  "run_drop h input s = do { (r, sh) \<leftarrow> execute_single_with_return h input (q_shell s); Some (s\<lparr>q_shell := sh\<rparr>) }"

definition remember :: "char list \<Rightarrow> qsh \<Rightarrow> qsh option" where
  "remember line s =
     do { same \<leftarrow> (if qsh_history_count s = 0 then Some False
                   else do { b \<leftarrow> rd (qsh_history s) (nat ((qsh_history_count s - 1) mod int qsh_HISTORY_SIZE));
                             r \<leftarrow> strcmp b line; Some (r = 0) });
          s1 \<leftarrow> (if same then Some s
                 else do { let idx = nat (qsh_history_count s mod int qsh_HISTORY_SIZE);
                           b \<leftarrow> rd (qsh_history s) idx;
                           b' \<leftarrow> strncpy b line (int qsh_LINE_MAX - 1);
                           hs \<leftarrow> wr (qsh_history s) idx b';
                           n \<leftarrow> int32 (qsh_history_count s + 1);
                           Some (s\<lparr>qsh_history := hs, qsh_history_count := n\<rparr>) });
          Some (s1\<lparr>qsh_history_index := qsh_history_count s1\<rparr>) }"

text \<open>The part behind an operator of \<open>k\<close> characters at \<open>i\<close>, and the part before it.\<close>

definition second_part :: "char list \<Rightarrow> nat \<Rightarrow> nat \<Rightarrow> char list option" where
  "second_part line i k = skip_spaces (drop (i + k) line)"

definition first_part :: "char list \<Rightarrow> nat \<Rightarrow> char list" where
  "first_part line i = line[i := NUL]"

definition qsh_builtins :: "char list list" where
  "qsh_builtins = [''uptime'', ''free'', ''cpuinfo'', ''history'']"

fun is_builtin :: "char list list \<Rightarrow> char list \<Rightarrow> bool option" where
  "is_builtin [] line = Some False"
| "is_builtin (b # bs) line = do { r \<leftarrow> strcmp line (b @ [NUL]); if r = 0 then Some True else is_builtin bs line }"

definition qsh_exec_line :: "host \<Rightarrow> char list \<Rightarrow> qsh \<Rightarrow> qsh option" where
  "qsh_exec_line h line s =
     do { len \<leftarrow> strlen line;
          if len = 0 then Some s
          else do { s1 \<leftarrow> remember line s;
                    b \<leftarrow> is_builtin qsh_builtins line;
                    if b then Some s1
                    else do { pipe \<leftarrow> strchr line (CHR ''|'');
                              case pipe of
                                Some i \<Rightarrow> do { cmd2 \<leftarrow> second_part line i 1; s2 \<leftarrow> run_drop h (first_part line i) s1; run_keep h cmd2 s2 }
                              | None \<Rightarrow>
                                  do { and_ptr \<leftarrow> strstr line (''&&'' @ [NUL]);
                                       case and_ptr of
                                         Some i \<Rightarrow>
                                           do { cmd2 \<leftarrow> second_part line i 2;
                                                (r, sh) \<leftarrow> execute_single_with_return h (first_part line i) (q_shell s1);
                                                res \<leftarrow> r;
                                                if res = 0 then run_keep h cmd2 (s1\<lparr>q_shell := sh\<rparr>) else Some (s1\<lparr>q_shell := sh\<rparr>) }
                                       | None \<Rightarrow>
                                           do { eq \<leftarrow> strchr line (CHR ''='');
                                                c0 \<leftarrow> rd line 0;
                                                case eq of
                                                  Some i \<Rightarrow>
                                                    if c0 \<noteq> CHR '' ''
                                                    then do { env \<leftarrow> set_env_var (first_part line i) (drop (i + 1) line) (env_vars (q_shell s1));
                                                              Some (s1\<lparr>q_shell := (q_shell s1)\<lparr>env_vars := env\<rparr>\<rparr>) }
                                                    else run_keep h line s1
                                                | None \<Rightarrow> run_keep h line s1 } } } } }"

subsection \<open>The line editor\<close>

definition qsh_map :: "u8 list" where
  "qsh_map = chars_to_map ([NUL, CHR 0x1B] @ ''1234567890-='' @ [CHR 0x08, CHR 0x09] @ ''qwertyuiop[]'' @ [CHR 0x0A, NUL] @
     ''asdfghjkl;'' @ [CHR 0x27] @ ''`'' @ [NUL, CHR 0x5C] @ ''zxcvbnm,./'' @ [NUL, CHR ''*'', NUL, CHR '' ''])"

definition qsh_scancode_to_ascii :: "u8 \<Rightarrow> u8 option" where
  "qsh_scancode_to_ascii sc = (if sc < 128 then rd qsh_map (unat sc) else Some 0)"

record editor =
  e_line :: "char list"
  e_ptr :: nat
  e_cursor :: nat

text \<open>\<open>printk(b)\<close> with a text of one character as the format.\<close>

definition echo_char :: "char \<Rightarrow> unit option" where
  "echo_char c =
     do { (level, p) \<leftarrow> message_level [c, NUL] 0; t \<leftarrow> format_text printk_precision p []; Some () }"

primrec echo_text :: "char list \<Rightarrow> unit option" where
  "echo_text [] = Some ()"
| "echo_text (c # t) = do { _ \<leftarrow> echo_char c; echo_text t }"

definition shift_left :: "nat \<Rightarrow> nat \<Rightarrow> char list \<Rightarrow> char list option" where
  "shift_left i n b = for_up i n (\<lambda>i b. do { c \<leftarrow> rd b (i + 1); wr b i c }) b"

text \<open>\<open>for (int i = ptr; i > cursor; i--) line[i] = line[i - 1];\<close>\<close>

fun shift_right :: "nat \<Rightarrow> nat \<Rightarrow> char list \<Rightarrow> char list option" where
  "shift_right 0 cursor b = Some b"
| "shift_right (Suc i) cursor b =
     (if Suc i > cursor then do { c \<leftarrow> rd b i; b' \<leftarrow> wr b (Suc i) c; shift_right i cursor b' } else Some b)"

definition ed_backspace :: "editor \<Rightarrow> editor option" where
  "ed_backspace e =
     (if e_ptr e > 0 \<and> e_cursor e > 0
      then do { b \<leftarrow> shift_left (e_cursor e - 1) (e_ptr e - 1) (e_line e);
                b' \<leftarrow> wr b (e_ptr e - 1) NUL;
                Some (e\<lparr>e_line := b', e_ptr := e_ptr e - 1, e_cursor := e_cursor e - 1\<rparr>) }
      else Some e)"

definition ed_insert :: "char \<Rightarrow> editor \<Rightarrow> editor option" where
  "ed_insert c e =
     do { b \<leftarrow> shift_right (e_ptr e) (e_cursor e) (e_line e);
          b' \<leftarrow> wr b (e_cursor e) c;
          _ \<leftarrow> echo_text (take (e_ptr e + 1 - e_cursor e) (drop (e_cursor e) b'));
          Some \<lparr>e_line = b', e_ptr = e_ptr e + 1, e_cursor = e_cursor e + 1\<rparr> }"

definition ed_right :: "editor \<Rightarrow> editor option" where
  "ed_right e =
     (if e_cursor e < e_ptr e then do { c \<leftarrow> rd (e_line e) (e_cursor e); _ \<leftarrow> echo_char c; Some (e\<lparr>e_cursor := e_cursor e + 1\<rparr>) }
      else Some e)"

text \<open>A line of the history; C's \<open>%\<close> of a negative number is negative.\<close>

definition recall :: "int \<Rightarrow> qsh \<Rightarrow> editor \<Rightarrow> editor option" where
  "recall idx s e =
     (if idx < 0 then None
      else do { src \<leftarrow> rd (qsh_history s) (nat (idx mod int qsh_HISTORY_SIZE));
                b \<leftarrow> strcpy (e_line e) src;
                n \<leftarrow> strlen b;
                Some \<lparr>e_line = b, e_ptr = n, e_cursor = n\<rparr> })"

definition ed_up :: "editor \<Rightarrow> qsh \<Rightarrow> (editor \<times> qsh) option" where
  "ed_up e s =
     (if qsh_history_count s > 0
      then do { let s1 = (if qsh_history_index s > 0 then s\<lparr>qsh_history_index := qsh_history_index s - 1\<rparr> else s);
                e' \<leftarrow> recall (qsh_history_index s1) s1 e;
                Some (e', s1) }
      else Some (e, s))"

definition ed_down :: "editor \<Rightarrow> qsh \<Rightarrow> (editor \<times> qsh) option" where
  "ed_down e s =
     (if qsh_history_index s < qsh_history_count s
      then do { let s1 = s\<lparr>qsh_history_index := qsh_history_index s + 1\<rparr>;
                if qsh_history_index s1 < qsh_history_count s1
                then do { e' \<leftarrow> recall (qsh_history_index s1) s1 e; Some (e', s1) }
                else do { b \<leftarrow> wr (e_line e) 0 NUL; Some (\<lparr>e_line = b, e_ptr = 0, e_cursor = 0\<rparr>, s1) } }
      else Some (e, s))"

text \<open>Every key but ENTER.\<close>

definition qsh_key :: "u8 \<Rightarrow> editor \<Rightarrow> qsh \<Rightarrow> (editor \<times> qsh) option" where
  "qsh_key sc e s =
     (if sc = 0x0E then do { e' \<leftarrow> ed_backspace e; Some (e', s) }
      else if sc = 0x48 then ed_up e s
      else if sc = 0x50 then ed_down e s
      else if sc = 0x4B then Some (if e_cursor e > 0 then e\<lparr>e_cursor := e_cursor e - 1\<rparr> else e, s)
      else if sc = 0x4D then do { e' \<leftarrow> ed_right e; Some (e', s) }
      else do { c \<leftarrow> qsh_scancode_to_ascii sc;
                if 32 \<le> c \<and> c \<le> 126 then do { e' \<leftarrow> ed_insert (char_of (unat c)) e; Some (e', s) } else Some (e, s) })"

text \<open>The keys up to ENTER, or until the line is full; None when it waits for ever.\<close>

fun qsh_read_line :: "u8 list \<Rightarrow> editor \<Rightarrow> qsh \<Rightarrow> (char list \<times> u8 list \<times> qsh) option" where
  "qsh_read_line codes e s =
     (if e_ptr e \<ge> INPUT_BUFFER_SIZE - 1 then Some (e_line e, codes, s)
      else (case codes of
              [] \<Rightarrow> None
            | sc # rest \<Rightarrow>
                if sc = 0 then qsh_read_line rest e s
                else if sc = 0x1C then do { b \<leftarrow> wr (e_line e) (e_ptr e) NUL; Some (b, rest, s) }
                else do { (e', s') \<leftarrow> qsh_key sc e s; qsh_read_line rest e' s' }))"

declare qsh_read_line.simps [simp del]

definition empty_line :: editor where
  "empty_line = \<lparr>e_line = replicate INPUT_BUFFER_SIZE NUL, e_ptr = 0, e_cursor = 0\<rparr>"

partial_function (option) qsh_interactive :: "host \<Rightarrow> qsh \<Rightarrow> (int \<times> qsh) option" where
  "qsh_interactive h s =
     do { (line, codes, s1) \<leftarrow> qsh_read_line (scancodes (q_shell s)) empty_line s;
          let s2 = s1\<lparr>q_shell := (q_shell s1)\<lparr>scancodes := codes\<rparr>\<rparr>;
          e \<leftarrow> strcmp line (''exit'' @ [NUL]);
          if e = 0 then Some (0, s2)
          else do { c \<leftarrow> strcmp line (''clear'' @ [NUL]);
                    if c = 0 then qsh_interactive h s2
                    else do { s3 \<leftarrow> qsh_exec_line h line s2; qsh_interactive h s3 } } }"

subsection \<open>Scripts\<close>

text \<open>\<open>while (*p == ' ') p++;\<close> over an index.\<close>

definition skip_at :: "char list \<Rightarrow> nat \<Rightarrow> nat option" where
  "skip_at b i = do { q \<leftarrow> skip_spaces (drop i b); Some (length b - length q) }"

text \<open>
  \<open>qsh_eval_condition\<close>: the words between the first \<open>[\<close> and the last \<open>]\<close>, which are cut out with their blanks; the
  third one goes up to the \<open>]\<close>. The array \<open>buf\<close> has one element that is not written.
\<close>

definition qsh_eval_condition :: "host \<Rightarrow> char list \<Rightarrow> int option" where
  "qsh_eval_condition h condition =
     do { buf \<leftarrow> strncpy (h_local h 4) condition 127;
          start \<leftarrow> strchr buf (CHR ''['');
          end_ptr \<leftarrow> strrchr buf (CHR '']'');
          case (start, end_ptr) of
            (Some st, Some en) \<Rightarrow>
              do { b1 \<leftarrow> wr buf en NUL;
                   c1 \<leftarrow> skip_at b1 (st + 1);
                   space1 \<leftarrow> strchr (drop c1 b1) (CHR '' '');
                   case space1 of
                     None \<Rightarrow> Some 0
                   | Some k1 \<Rightarrow>
                       do { b2 \<leftarrow> wr b1 (c1 + k1) NUL;
                            val1 \<leftarrow> strcpy (local_array 64) (drop c1 b2);
                            c2 \<leftarrow> skip_at b2 (c1 + k1 + 1);
                            space2 \<leftarrow> strchr (drop c2 b2) (CHR '' '');
                            case space2 of
                              None \<Rightarrow> Some 0
                            | Some k2 \<Rightarrow>
                                do { b3 \<leftarrow> wr b2 (c2 + k2) NUL;
                                     op \<leftarrow> strcpy (local_array 5) (drop c2 b3);
                                     c3 \<leftarrow> skip_at b3 (c2 + k2 + 1);
                                     val2 \<leftarrow> strcpy (local_array 64) (drop c3 b3);
                                     r1 \<leftarrow> strcmp op (''=='' @ [NUL]);
                                     r2 \<leftarrow> strcmp op (''='' @ [NUL]);
                                     r3 \<leftarrow> strcmp op (''!='' @ [NUL]);
                                     v \<leftarrow> strcmp val1 val2;
                                     Some (if r1 = 0 \<or> r2 = 0 then if v = 0 then 1 else 0
                                           else if r3 = 0 then if v \<noteq> 0 then 1 else 0
                                           else 0) } } }
          | _ \<Rightarrow> Some 0 }"

text \<open>The next line of the contents into the array, and where it ends.\<close>

fun copy_line :: "char list \<Rightarrow> nat \<Rightarrow> nat \<Rightarrow> char list \<Rightarrow> (nat \<times> nat \<times> char list) option" where
  "copy_line [] pos ptr line = None"
| "copy_line (c # rest) pos ptr line =
     (if c \<noteq> NUL \<and> c \<noteq> LF \<and> c \<noteq> CR
      then (if ptr < INPUT_BUFFER_SIZE - 1
            then do { line' \<leftarrow> wr line ptr c; copy_line rest (Suc pos) (Suc ptr) line' }
            else copy_line rest (Suc pos) ptr line)
      else Some (pos, ptr, line))"

definition next_line :: "char list \<Rightarrow> nat \<Rightarrow> char list \<Rightarrow> (nat \<times> char list) option" where
  "next_line content pos line =
     do { (pos1, ptr, line1) \<leftarrow> copy_line (drop pos content) pos 0 line;
          c \<leftarrow> rd content pos1;
          let pos2 = (if c = CR then pos1 + 1 else pos1);
          c2 \<leftarrow> rd content pos2;
          let pos3 = (if c2 = LF then pos2 + 1 else pos2);
          line2 \<leftarrow> wr line1 ptr NUL;
          Some (pos3, line2) }"

fun skip_blanks :: "char list \<Rightarrow> char list option" where
  "skip_blanks [] = None"
| "skip_blanks (c # p) = (if c = CHR '' '' \<or> c = CHR 0x09 then skip_blanks p else Some (c # p))"

text \<open>What a script keeps between lines: \<open>skip_logic\<close> and \<open>condition_met\<close>.\<close>

record script =
  skip_logic :: bool
  condition_met :: bool

definition qsh_script_line :: "host \<Rightarrow> char list \<Rightarrow> script \<Rightarrow> qsh \<Rightarrow> (script \<times> qsh) option" where
  "qsh_script_line h line c s =
     do { cmd_line \<leftarrow> skip_blanks line;
          len \<leftarrow> strlen cmd_line;
          c0 \<leftarrow> rd cmd_line 0;
          if len > 0 \<and> c0 \<noteq> CHR ''#''
          then do { expanded \<leftarrow> expand_variables (env_vars (q_shell s)) cmd_line (local_array INPUT_BUFFER_SIZE);
                    is_if \<leftarrow> strncmp expanded (''if '' @ [NUL]) 3;
                    if is_if = 0
                    then do { v \<leftarrow> qsh_eval_condition h (drop 3 expanded); Some (\<lparr>skip_logic = v = 0, condition_met = v \<noteq> 0\<rparr>, s) }
                    else do { is_else \<leftarrow> strcmp expanded (''else'' @ [NUL]);
                              is_fi \<leftarrow> strcmp expanded (''fi'' @ [NUL]);
                              is_then \<leftarrow> strcmp expanded (''then'' @ [NUL]);
                              if is_else = 0 then Some (c\<lparr>skip_logic := condition_met c\<rparr>, s)
                              else if is_fi = 0 then Some (c\<lparr>skip_logic := False\<rparr>, s)
                              else if is_then = 0 then Some (c, s)
                              else if \<not> skip_logic c then do { s' \<leftarrow> run_keep h expanded s; Some (c, s') }
                              else Some (c, s) } }
          else Some (c, s) }"

partial_function (option) qsh_script :: "host \<Rightarrow> u32 \<Rightarrow> nat \<Rightarrow> char list \<Rightarrow> script \<Rightarrow> qsh \<Rightarrow> (int \<times> qsh) option" where
  "qsh_script h a pos line c s =
     do { content \<leftarrow> contents (sh_vfs (q_shell s)) a;
          ch \<leftarrow> rd content pos;
          if ch = NUL then Some (exstat s, s)
          else do { (pos', line') \<leftarrow> next_line content pos line;
                    (c', s') \<leftarrow> qsh_script_line h line' c s;
                    qsh_script h a pos' line' c' s' } }"

definition cmd_qsh :: "host \<Rightarrow> char list \<Rightarrow> qsh \<Rightarrow> (int \<times> qsh) option" where
  "cmd_qsh h args s =
     do { len \<leftarrow> strlen args;
          if len = 0 then qsh_interactive h s
          else do { node \<leftarrow> vfs_findfile (h_files h) (Some args) (sh_vfs (q_shell s));
                    if node = 0 then Some (1, s)
                    else do { n \<leftarrow> node_at (sh_vfs (q_shell s)) node;
                              qsh_script h (v_ptr n) 0 (local_array INPUT_BUFFER_SIZE)
                                \<lparr>skip_logic = False, condition_met = False\<rparr> s } } }"

subsection \<open>Editing a line\<close>

text \<open>The line as the part before the cursor and the part from the cursor on, and what the keys do to it.\<close>

definition zkey :: "u8 \<Rightarrow> char list \<times> char list \<Rightarrow> char list \<times> char list" where
  "zkey sc z =
     (let (l, r) = z
      in if sc = 0x0E then (butlast l, r)
         else if sc = 0x4B then (if l = [] then (l, r) else (butlast l, last l # r))
         else if sc = 0x4D then (case r of [] \<Rightarrow> (l, r) | c # r' \<Rightarrow> (l @ [c], r'))
         else (case qsh_scancode_to_ascii sc of
                 Some c \<Rightarrow> if 32 \<le> c \<and> c \<le> 126 then (l @ [char_of (unat c)], r) else (l, r)
               | None \<Rightarrow> (l, r)))"

text \<open>Characters the keys can produce: no terminator, and nothing that is more than itself in a format.\<close>

definition echoable :: "char \<Rightarrow> bool" where
  "echoable c \<longleftrightarrow> c \<noteq> NUL \<and> c \<noteq> CHR ''%''"

definition ed_repr :: "editor \<Rightarrow> char list \<times> char list \<Rightarrow> bool" where
  "ed_repr e z \<longleftrightarrow> length (e_line e) = INPUT_BUFFER_SIZE \<and> e_cursor e = length (fst z) \<and> e_ptr e = length (fst z @ snd z) \<and>
     (\<exists>q. e_line e = fst z @ snd z @ q) \<and> (\<forall>c \<in> set (fst z @ snd z). echoable c)"

lemma echo_char_run: "echoable c \<Longrightarrow> echo_char c = Some ()"
  by (auto simp: echo_char_def message_level_def echoable_def format_text.simps rd_def)

lemma echo_text_run: "\<forall>c \<in> set t. echoable c \<Longrightarrow> echo_text t = Some ()"
  by (induction t) (simp_all add: echo_char_run)

lemma qsh_ascii_echoable:
  assumes "qsh_scancode_to_ascii sc = Some c" and "32 \<le> c"
  shows "echoable (char_of (unat c))"
proof -
  have "\<forall>c \<in> set qsh_map. 32 \<le> c \<longrightarrow> c \<noteq> 37" by code_simp
  moreover have "c \<in> set qsh_map \<or> c = 0" using assms(1) by (auto simp: qsh_scancode_to_ascii_def rd_Some in_set_conv_nth split: if_splits)
  ultimately have c: "c \<noteq> 37" "c \<noteq> 0" using assms(2) by auto
  have "unat c < 256" by (rule order.strict_trans2 [OF unsigned_less]) simp
  then have "of_char (char_of (unat c) :: char) = unat c" by simp
  moreover have "of_char NUL = (0 :: nat)" "of_char (CHR ''%'') = (37 :: nat)" by code_simp+
  moreover have "unat c \<noteq> 0" "unat c \<noteq> 37" using c by (simp_all add: word_unat_eq_iff)
  ultimately show ?thesis unfolding echoable_def by metis
qed

lemma shift_right_same: "shift_right n n b = Some b"
  by (cases n) simp_all

lemma shift_right_run:
  "k \<le> length r \<Longrightarrow>
    shift_right (length l + k) (length l) (l @ take k r @ x # s) = Some (l @ (take k r @ [x]) ! 0 # take k r @ s)"
proof (induction k arbitrary: x s)
  case 0
  then show ?case by (simp add: shift_right_same)
next
  case (Suc k)
  then have k: "k < length r" by simp
  have t: "take (Suc k) r = take k r @ [r ! k]" using k by (rule take_Suc_conv_app_nth)
  have "rd (l @ take (Suc k) r @ x # s) (length l + k) = Some (r ! k)" using k by (simp add: t rd_Some nth_append)
  moreover have "wr (l @ take (Suc k) r @ x # s) (Suc (length l + k)) (r ! k) = Some (l @ take k r @ r ! k # r ! k # s)"
    using k by (simp add: t wr_Some list_update_append)
  ultimately have "shift_right (length l + Suc k) (length l) (l @ take (Suc k) r @ x # s) =
      shift_right (length l + k) (length l) (l @ take k r @ r ! k # r ! k # s)"
    by simp
  also have "\<dots> = Some (l @ (take k r @ [r ! k]) ! 0 # take k r @ r ! k # s)" by (rule Suc.IH) (use k in simp)
  finally show ?case by (simp add: t nth_append)
qed

lemma shift_left_run:
  shows "shift_left (length l) (length l + length r) (l @ x # r @ q) = Some (l @ r @ (x # r) ! length r # q)"
proof -
  have "\<exists>b. for_up (length l) (length l + length r) (\<lambda>i b. do { c \<leftarrow> rd b (i + 1); wr b i c }) (l @ x # r @ q) = Some b \<and>
      b = l @ take (length r) r @ (x # r) ! length r # q"
  proof (rule for_up_rule [where I = "\<lambda>i b. length l \<le> i \<and> i \<le> length l + length r \<and>
      b = l @ take (i - length l) r @ (x # r) ! (i - length l) # drop (i - length l) r @ q", THEN exE])
    fix i b
    assume i: "i < length l + length r"
      and b: "length l \<le> i \<and> i \<le> length l + length r \<and> b = l @ take (i - length l) r @ (x # r) ! (i - length l) # drop (i - length l) r @ q"
    define k where "k = i - length l"
    have k: "k < length r" "i = length l + k" using i b by (auto simp: k_def)
    have d: "drop k r = r ! k # drop (Suc k) r" using k(1) by (simp add: Cons_nth_drop_Suc)
    have bb: "b = l @ take k r @ (x # r) ! k # r ! k # drop (Suc k) r @ q" using b by (simp add: k_def [symmetric] d)
    have "rd b (i + 1) = Some (r ! k)" using k by (simp add: bb rd_Some nth_append)
    moreover have "wr b i (r ! k) = Some (l @ take k r @ r ! k # r ! k # drop (Suc k) r @ q)"
      using k by (simp add: bb wr_Some list_update_append)
    moreover have "take (Suc k) r = take k r @ [r ! k]" using k(1) by (rule take_Suc_conv_app_nth)
    moreover have "Suc i - length l = Suc k" using k(2) by simp
    ultimately show "\<exists>t'. (do { c \<leftarrow> rd b (i + 1); wr b i c }) = Some t' \<and> length l \<le> Suc i \<and> Suc i \<le> length l + length r \<and>
        t' = l @ take (Suc i - length l) r @ (x # r) ! (Suc i - length l) # drop (Suc i - length l) r @ q"
      using k by simp
  next
    fix b
    assume "for_up (length l) (length l + length r) (\<lambda>i b. do { c \<leftarrow> rd b (i + 1); wr b i c }) (l @ x # r @ q) = Some b \<and>
      length l \<le> length l + length r \<and> length l + length r \<le> length l + length r \<and>
      b = l @ take (length l + length r - length l) r @ (x # r) ! (length l + length r - length l) # drop (length l + length r - length l) r @ q"
    then show ?thesis by simp
  qed simp_all
  then show ?thesis by (simp add: shift_left_def)
qed

lemma ed_reprE:
  assumes "ed_repr e (l, r)"
  obtains q where "e = \<lparr>e_line = l @ r @ q, e_ptr = length l + length r, e_cursor = length l\<rparr>"
    and "length l + length r + length q = INPUT_BUFFER_SIZE" and "\<forall>c \<in> set l \<union> set r. echoable c"
proof -
  from assms obtain q where q: "e_line e = l @ r @ q" by (auto simp: ed_repr_def)
  with assms show ?thesis by (intro that [of q]) (auto simp: ed_repr_def)
qed

lemma ed_reprI:
  "length l + length r + length q = INPUT_BUFFER_SIZE \<Longrightarrow> \<forall>c \<in> set l \<union> set r. echoable c \<Longrightarrow>
    ed_repr \<lparr>e_line = l @ r @ q, e_ptr = length l + length r, e_cursor = length l\<rparr> (l, r)"
  by (auto simp: ed_repr_def)

lemma ed_insert_run:
  assumes "ed_repr e (l, r)" and "echoable c" and "e_ptr e < INPUT_BUFFER_SIZE - 1"
  shows "\<exists>e'. ed_insert c e = Some e' \<and> ed_repr e' (l @ [c], r)"
proof -
  obtain q where e: "e = \<lparr>e_line = l @ r @ q, e_ptr = length l + length r, e_cursor = length l\<rparr>"
      "length l + length r + length q = INPUT_BUFFER_SIZE" "\<forall>c \<in> set l \<union> set r. echoable c"
    by (rule ed_reprE [OF assms(1)])
  then obtain x s where q: "q = x # s" using assms(3) by (cases q) auto
  define y where "y = (r @ [x]) ! 0"
  have sh: "shift_right (length l + length r) (length l) (l @ r @ x # s) = Some (l @ y # r @ s)"
    using shift_right_run [of "length r" r l x s] by (simp add: y_def)
  have w: "wr (l @ y # r @ s) (length l) c = Some (l @ c # r @ s)" by (simp add: wr_Some)
  have "take (length l + length r + 1 - length l) (drop (length l) (l @ c # r @ s)) = c # r" by simp
  then have "echo_text (take (length l + length r + 1 - length l) (drop (length l) (l @ c # r @ s))) = Some ()"
    using e(3) assms(2) by (intro echo_text_run) auto
  with sh w have "ed_insert c e = Some \<lparr>e_line = l @ c # r @ s, e_ptr = length l + length r + 1, e_cursor = length l + 1\<rparr>"
    by (simp add: ed_insert_def e(1) q)
  moreover have "ed_repr \<lparr>e_line = (l @ [c]) @ r @ s, e_ptr = length (l @ [c]) + length r, e_cursor = length (l @ [c])\<rparr> (l @ [c], r)"
    using e(2,3) assms(2) by (intro ed_reprI) (auto simp: q)
  ultimately show ?thesis by simp
qed

lemma ed_backspace_run:
  assumes "ed_repr e (l, r)"
  shows "\<exists>e'. ed_backspace e = Some e' \<and> ed_repr e' (butlast l, r)"
proof (cases l rule: rev_cases)
  case Nil
  with assms show ?thesis by (auto simp: ed_backspace_def ed_repr_def)
next
  case (snoc l' x)
  obtain q where e: "e = \<lparr>e_line = l @ r @ q, e_ptr = length l + length r, e_cursor = length l\<rparr>"
      "length l + length r + length q = INPUT_BUFFER_SIZE" "\<forall>c \<in> set l \<union> set r. echoable c"
    by (rule ed_reprE [OF assms])
  have sh: "shift_left (length l') (length l' + length r) (l' @ x # r @ q) = Some (l' @ r @ (x # r) ! length r # q)"
    by (rule shift_left_run)
  have w: "wr (l' @ r @ (x # r) ! length r # q) (length l' + length r) NUL = Some (l' @ r @ NUL # q)"
    by (simp add: wr_Some list_update_append)
  have "ed_backspace e = Some \<lparr>e_line = l' @ r @ NUL # q, e_ptr = length l' + length r, e_cursor = length l'\<rparr>"
    using sh w by (simp add: ed_backspace_def e(1) snoc)
  moreover have "ed_repr \<lparr>e_line = l' @ r @ NUL # q, e_ptr = length l' + length r, e_cursor = length l'\<rparr> (l', r)"
    using e(2,3) by (intro ed_reprI) (auto simp: snoc)
  ultimately show ?thesis by (simp add: snoc)
qed

lemma ed_right_run:
  assumes "ed_repr e (l, r)"
  shows "\<exists>e'. ed_right e = Some e' \<and> ed_repr e' (case r of [] \<Rightarrow> (l, r) | c # r' \<Rightarrow> (l @ [c], r'))"
proof (cases r)
  case Nil
  with assms show ?thesis by (auto simp: ed_right_def ed_repr_def)
next
  case (Cons c r')
  obtain q where e: "e = \<lparr>e_line = l @ r @ q, e_ptr = length l + length r, e_cursor = length l\<rparr>"
      "\<forall>c \<in> set l \<union> set r. echoable c"
    by (rule ed_reprE [OF assms]) blast
  then have "ed_right e = Some (e\<lparr>e_cursor := e_cursor e + 1\<rparr>)"
    using Cons by (simp add: ed_right_def rd_Some nth_append echo_char_run)
  with assms show ?thesis by (auto simp: Cons ed_repr_def)
qed

text \<open>The keys that do not look at the history.\<close>

definition plain_key :: "u8 \<Rightarrow> bool" where
  "plain_key sc \<longleftrightarrow> sc \<noteq> 0x1C \<and> sc \<noteq> 0x48 \<and> sc \<noteq> 0x50"

lemma qsh_ascii_total: "\<exists>c. qsh_scancode_to_ascii sc = Some c"
proof -
  have "length qsh_map = 128" by code_simp
  then show ?thesis by (auto simp: qsh_scancode_to_ascii_def rd_def word_less_nat_alt)
qed

lemma qsh_key_run:
  assumes "ed_repr e z" and "plain_key sc" and "e_ptr e < INPUT_BUFFER_SIZE - 1"
  shows "\<exists>e'. qsh_key sc e s = Some (e', s) \<and> ed_repr e' (zkey sc z)"
proof -
  obtain l r where z: "z = (l, r)" by (cases z)
  have e: "ed_repr e (l, r)" using assms(1) z by simp
  consider "sc = 0x0E" | "sc = 0x4B" | "sc = 0x4D" | "sc \<noteq> 0x0E" "sc \<noteq> 0x4B" "sc \<noteq> 0x4D" by blast
  then show ?thesis
  proof cases
    case 1
    with ed_backspace_run [OF e] show ?thesis by (auto simp: qsh_key_def zkey_def z)
  next
    case 2
    have "ed_repr (if e_cursor e > 0 then e\<lparr>e_cursor := e_cursor e - 1\<rparr> else e) (if l = [] then (l, r) else (butlast l, last l # r))"
      using e by (cases l rule: rev_cases) (auto simp: ed_repr_def)
    with 2 show ?thesis by (simp add: qsh_key_def zkey_def z)
  next
    case 3
    with ed_right_run [OF e] show ?thesis by (auto simp: qsh_key_def zkey_def z)
  next
    case 4
    obtain c where c: "qsh_scancode_to_ascii sc = Some c" using qsh_ascii_total by blast
    have key: "qsh_key sc e s =
        (if 32 \<le> c \<and> c \<le> 126 then do { e' \<leftarrow> ed_insert (char_of (unat c)) e; Some (e', s) } else Some (e, s))"
      using 4 assms(2) c by (simp add: qsh_key_def plain_key_def)
    have zk: "zkey sc z = (if 32 \<le> c \<and> c \<le> 126 then (l @ [char_of (unat c)], r) else (l, r))"
      using 4 c by (simp add: zkey_def z)
    show ?thesis
    proof (cases "32 \<le> c \<and> c \<le> 126")
      case True
      then show ?thesis unfolding key zk using ed_insert_run [OF e qsh_ascii_echoable [OF c] assms(3)] by auto
    next
      case False
      then have "qsh_key sc e s = Some (e, s)" "zkey sc z = (l, r)" unfolding key zk by (simp_all only: if_False)
      with e show ?thesis by simp
    qed
  qed
qed

lemma zkey_length: "length (fst (zkey sc z) @ snd (zkey sc z)) \<le> Suc (length (fst z @ snd z))"
  by (cases z) (auto simp: zkey_def Let_def split: list.splits option.splits)

lemma qsh_read_line_run:
  assumes "ed_repr e z" and "\<forall>k \<in> set ks. plain_key k" and "length (fst z @ snd z) + length ks < INPUT_BUFFER_SIZE - 1"
  shows "\<exists>b. qsh_read_line (ks @ 0x1C # rest) e s = Some (b, rest, s) \<and>
    cstr b (fst (fold zkey ks z) @ snd (fold zkey ks z))"
  using assms
proof (induction ks arbitrary: e z)
  case Nil
  obtain l r where z: "z = (l, r)" by (cases z)
  then obtain q where e: "e = \<lparr>e_line = l @ r @ q, e_ptr = length l + length r, e_cursor = length l\<rparr>"
      "length l + length r + length q = INPUT_BUFFER_SIZE" "\<forall>c \<in> set l \<union> set r. echoable c"
    using ed_reprE [of e l r] Nil.prems(1) by metis
  then obtain x q' where q: "q = x # q'" using Nil.prems(3) by (cases q) (auto simp: z)
  have "wr (l @ r @ x # q') (length l + length r) NUL = Some (l @ r @ NUL # q')" by (simp add: wr_Some list_update_append)
  moreover have "cstr (l @ r @ NUL # q') (l @ r)" using e(3) by (auto simp: cstr_def echoable_def)
  ultimately show ?case using Nil.prems(3) e(1) by (subst qsh_read_line.simps) (simp add: z q)
next
  case (Cons k ks)
  have ptr: "e_ptr e < INPUT_BUFFER_SIZE - 1" using Cons.prems(1,3) by (simp add: ed_repr_def)
  have k: "plain_key k" using Cons.prems(2) by simp
  obtain e' where e': "qsh_key k e s = Some (e', s)" "ed_repr e' (zkey k z)" using qsh_key_run [OF Cons.prems(1) k ptr] by blast
  have zero: "zkey 0 z = z"
  proof -
    have "qsh_scancode_to_ascii 0 = Some 0" by code_simp
    then show ?thesis by (cases z) (simp add: zkey_def)
  qed
  have step: "\<exists>e''. qsh_read_line ((k # ks) @ 0x1C # rest) e s = qsh_read_line (ks @ 0x1C # rest) e'' s \<and> ed_repr e'' (zkey k z)"
  proof (cases "k = 0")
    case True
    then show ?thesis using ptr zero Cons.prems(1) by (subst qsh_read_line.simps) auto
  next
    case False
    then show ?thesis using ptr k e' by (subst qsh_read_line.simps) (auto simp: plain_key_def)
  qed
  then obtain e'' where e'': "qsh_read_line ((k # ks) @ 0x1C # rest) e s = qsh_read_line (ks @ 0x1C # rest) e'' s" "ed_repr e'' (zkey k z)"
    by blast
  have "length (fst (zkey k z) @ snd (zkey k z)) + length ks < INPUT_BUFFER_SIZE - 1"
    using Cons.prems(3) zkey_length [of k z] by simp
  from Cons.IH [OF e''(2) _ this] Cons.prems(2) e''(1) show ?case by simp
qed

text \<open>
  C30: The line editor refines a text with a cursor. From an empty line, typing, rubbing out and moving the
  cursor with fewer than 255 keys before ENTER gives the line these keys make of a pair of texts, the one before and the one
  behind the cursor: a character goes in between, backspace drops the last one before the cursor, the arrows move one
  character across; and no key is a format of its own.
\<close>
theorem qsh_line_editing:
  assumes "\<forall>k \<in> set ks. plain_key k" and "length ks < INPUT_BUFFER_SIZE - 1"
  shows "\<exists>b. qsh_read_line (ks @ 0x1C # rest) empty_line s = Some (b, rest, s) \<and>
    cstr b (fst (fold zkey ks ([], [])) @ snd (fold zkey ks ([], [])))"
  using qsh_read_line_run [of empty_line "([], [])" ks rest s] assms by (simp add: ed_repr_def empty_line_def)

text \<open>\<open>a\<close>, \<open>c\<close>, left, \<open>b\<close>, \<open>x\<close>, backspace, ENTER.\<close>

theorem qsh_line_editing_witness:
  "\<forall>s. \<exists>b. qsh_read_line [0x1E, 0x2E, 0x4B, 0x30, 0x2D, 0x0E, 0x1C] empty_line s = Some (b, [], s) \<and> cstr b ''abc''"
proof -
  let ?ks = "[0x1E, 0x2E, 0x4B, 0x30, 0x2D, 0x0E] :: u8 list"
  have k: "\<forall>k \<in> set ?ks. plain_key k" by (simp add: plain_key_def)
  have n: "length ?ks < INPUT_BUFFER_SIZE - 1" by (simp add: INPUT_BUFFER_SIZE_def)
  have f: "fold zkey ?ks ([], []) = (''ab'', ''c'')" by code_simp
  from qsh_line_editing [OF k n, of "[]"] show ?thesis unfolding f by simp
qed

subsection \<open>History\<close>

definition history_ok :: "qsh \<Rightarrow> bool" where
  "history_ok s \<longleftrightarrow> length (qsh_history s) = qsh_HISTORY_SIZE \<and> 0 \<le> qsh_history_count s \<and> qsh_history_count s < 2 ^ 31 - 1 \<and>
     (\<forall>b \<in> set (qsh_history s). length b = qsh_LINE_MAX \<and> NUL \<in> set b)"

lemma history_slot:
  assumes "history_ok s" and "0 \<le> k"
  shows "\<exists>b. rd (qsh_history s) (nat (k mod int qsh_HISTORY_SIZE)) = Some b \<and> length b = qsh_LINE_MAX \<and> cstr b (c_string b)"
proof -
  have "nat (k mod int qsh_HISTORY_SIZE) < length (qsh_history s)"
    using assms by (simp add: history_ok_def qsh_HISTORY_SIZE_def nat_less_iff)
  then show ?thesis using assms(1) by (auto simp: history_ok_def rd_Some intro!: cstr_c_string)
qed

text \<open>
  The line entered last comes back with the first press of the arrow up, with the cursor at its end, whatever the
  line holds at that moment.
\<close>

lemma qsh_history_recalls:
  assumes "history_ok s" and "cstr line x" and "length x < qsh_LINE_MAX - 1" and "length (e_line e) = INPUT_BUFFER_SIZE"
  shows "\<exists>s1 e' s2. remember line s = Some s1 \<and> history_ok (s1\<lparr>qsh_history_count := qsh_history_count s\<rparr>) \<and>
    ed_up e s1 = Some (e', s2) \<and> cstr (e_line e') x \<and> e_ptr e' = length x \<and> e_cursor e' = length x"
proof -
  let ?n = "qsh_history_count s"
  have n: "0 \<le> ?n" "?n < 2 ^ 31 - 1" using assms(1) by (simp_all add: history_ok_def)
  have put: "\<exists>e'. recall (k - 1) s1 e = Some e' \<and> cstr (e_line e') x \<and> e_ptr e' = length x \<and> e_cursor e' = length x"
    if "rd (qsh_history s1) (nat ((k - 1) mod int qsh_HISTORY_SIZE)) = Some b" "cstr b x" "0 < k" for s1 b k
  proof -
    have len: "length x < length (e_line e)" using assms(3,4) by (simp add: qsh_LINE_MAX_def INPUT_BUFFER_SIZE_def)
    have "strcpy (e_line e) b = Some (x @ NUL # drop (Suc (length x)) (e_line e))"
      using strcpy_at_cstr [OF that(2), of 0 "e_line e"] len by (simp add: strcpy_def)
    moreover have c: "cstr (x @ NUL # drop (Suc (length x)) (e_line e)) x" using that(2) by (auto simp: cstr_def)
    moreover have "strlen (x @ NUL # drop (Suc (length x)) (e_line e)) = Some (length x)"
      using strlen_from_cstr [OF c, of 0] by (simp add: strlen_def)
    ultimately show ?thesis using that(1,3) by (simp add: recall_def)
  qed
  have up: "\<exists>e' s2. ed_up e s1 = Some (e', s2) \<and> cstr (e_line e') x \<and> e_ptr e' = length x \<and> e_cursor e' = length x"
    if "qsh_history_count s1 = k" "qsh_history_index s1 = k" "0 < k"
      "rd (qsh_history s1) (nat ((k - 1) mod int qsh_HISTORY_SIZE)) = Some b" "cstr b x" for s1 b k
    using put [of "s1\<lparr>qsh_history_index := k - 1\<rparr>" k b] that by (auto simp: ed_up_def Let_def)
  show ?thesis
  proof (cases "?n = 0 \<or> strcmp (qsh_history s ! nat ((?n - 1) mod int qsh_HISTORY_SIZE)) line \<noteq> Some 0")
    case True
    obtain b where b: "rd (qsh_history s) (nat (?n mod int qsh_HISTORY_SIZE)) = Some b" "length b = qsh_LINE_MAX"
      using history_slot [OF assms(1) n(1)] by blast
    have same: "(if ?n = 0 then Some False
        else do { b \<leftarrow> rd (qsh_history s) (nat ((?n - 1) mod int qsh_HISTORY_SIZE)); r \<leftarrow> strcmp b line; Some (r = 0) }) = Some False"
    proof (cases "?n = 0")
      case False
      then obtain b where b: "rd (qsh_history s) (nat ((?n - 1) mod int qsh_HISTORY_SIZE)) = Some b" "cstr b (c_string b)"
        using history_slot [OF assms(1), of "?n - 1"] n(1) by auto
      then have "b = qsh_history s ! nat ((?n - 1) mod int qsh_HISTORY_SIZE)" by (simp add: rd_Some)
      with True False strcmp_eq [OF b(2) assms(2)] b(1) show ?thesis by auto
    qed simp
    define b' where "b' = x @ replicate (255 - length x) NUL @ drop 255 b"
    have b': "strncpy b line (int qsh_LINE_MAX - 1) = Some b'"
      using strncpy_cstr [OF assms(2), of 255 b] assms(3) b(2) by (simp add: qsh_LINE_MAX_def b'_def)
    define idx where "idx = nat (?n mod int qsh_HISTORY_SIZE)"
    have idx: "idx < length (qsh_history s)" using b(1) by (simp add: idx_def rd_Some)
    define s1 where "s1 = s\<lparr>qsh_history := (qsh_history s)[idx := b'], qsh_history_count := ?n + 1, qsh_history_index := ?n + 1\<rparr>"
    have "int32 (?n + 1) = Some (?n + 1)" using n by (simp add: int32_def)
    then have rem: "remember line s = Some s1"
      unfolding remember_def same using b(1) b' idx by (simp add: idx_def [symmetric] wr_Some s1_def)
    have cb: "cstr b' x" "length b' = qsh_LINE_MAX" "NUL \<in> set b'"
    proof -
      have k: "0 < 255 - length x" using assms(3) by (simp add: qsh_LINE_MAX_def)
      show "cstr b' x" unfolding b'_def using assms(2) by (intro cstr_pad k) (auto simp: cstr_def)
      show "length b' = qsh_LINE_MAX" using assms(3) b(2) by (simp add: b'_def qsh_LINE_MAX_def)
      show "NUL \<in> set b'" using k by (auto simp: b'_def)
    qed
    have "rd (qsh_history s1) (nat ((?n + 1 - 1) mod int qsh_HISTORY_SIZE)) = Some b'"
      using idx by (simp add: s1_def rd_Some idx_def [symmetric])
    with up [of s1 "?n + 1" b'] cb(1) n obtain e' s2 where "ed_up e s1 = Some (e', s2)" "cstr (e_line e') x"
        "e_ptr e' = length x" "e_cursor e' = length x"
      by (auto simp: s1_def)
    moreover have "history_ok (s1\<lparr>qsh_history_count := ?n\<rparr>)"
      using assms(1) cb(2,3) by (auto simp: history_ok_def s1_def dest!: set_update_subset_insert [THEN subsetD])
    ultimately show ?thesis using rem by blast
  next
    case False
    obtain b where b: "rd (qsh_history s) (nat ((?n - 1) mod int qsh_HISTORY_SIZE)) = Some b" "cstr b (c_string b)"
      using history_slot [OF assms(1), of "?n - 1"] n(1) False by auto
    then have "strcmp b line = Some 0" using False by (simp add: rd_Some)
    then have "c_string b = x" using strcmp_eq [OF b(2) assms(2)] by auto
    define s1 where "s1 = s\<lparr>qsh_history_index := ?n\<rparr>"
    have "remember line s = Some s1" using b(1) \<open>strcmp b line = Some 0\<close> False by (simp add: remember_def s1_def)
    moreover have "history_ok (s1\<lparr>qsh_history_count := ?n\<rparr>)" using assms(1) by (simp add: history_ok_def s1_def)
    ultimately show ?thesis using up [of s1 ?n b] b \<open>c_string b = x\<close> n False by (auto simp: s1_def)
  qed
qed

end
