(* ===== verification/Pci.thy ===== *)
theory Pci
  imports Ata Printk
begin

text \<open>
  The PCI bus and the disks found on it, \<open>drivers/pci/pci.c\<close>: configuration space through its two ports, searching
  a device, the table of disks with the partitions of an MBR or GPT, and the scan of all buses. Ports and controllers
  are parameters, as in theory \<open>Ata\<close>; the contents of uninitialised arrays are too. Messages are left out.
\<close>

subsection \<open>State\<close>

record partition_info =
  pt_name :: "char list"
  start_lba :: u32
  pt_sectors :: u32
  pt_type :: "char list"
  pt_active :: bool

record disk_info =
  dk_name :: "char list"
  dk_bar :: u32
  dk_present :: bool
  transport :: "char list"
  media_type :: "char list"
  partition_style :: "char list"
  dk_vendor_id :: u16
  dk_device_id :: u16
  dk_bus :: u8
  dk_slot :: u8
  dk_func :: u8
  partition_count :: u8
  partitions :: "partition_info list"

record pci =
  system_disks :: "disk_info list"
  disk_count :: int
  vbox_io_base :: u32

text \<open>The machine: ports of the controller, long ports, and what uninitialised local arrays hold.\<close>

record 'd machine =
  m_ports :: "'d ports"
  m_outl :: "u16 \<Rightarrow> u32 \<Rightarrow> 'd \<Rightarrow> 'd"
  m_inl :: "u16 \<Rightarrow> 'd \<Rightarrow> u32 \<times> 'd"
  m_words :: "u16 list"
  m_sector :: "u8 list"

definition nul_field :: "nat \<Rightarrow> char list" where "nul_field n = replicate n NUL"

definition blank_partition :: partition_info where
  "blank_partition = \<lparr>pt_name = nul_field 16, start_lba = 0, pt_sectors = 0, pt_type = nul_field 16, pt_active = False\<rparr>"

text \<open>\<open>memset(disk, 0, sizeof(*disk))\<close>\<close>

definition blank_disk :: disk_info where
  "blank_disk = \<lparr>dk_name = nul_field 16, dk_bar = 0, dk_present = False, transport = nul_field 16, media_type = nul_field 16,
     partition_style = nul_field 16, dk_vendor_id = 0, dk_device_id = 0, dk_bus = 0, dk_slot = 0, dk_func = 0,
     partition_count = 0, partitions = replicate 4 blank_partition\<rparr>"

definition pci_boot :: pci where
  "pci_boot = \<lparr>system_disks = replicate 4 blank_disk, disk_count = 0, vbox_io_base = 0\<rparr>"

subsection \<open>Configuration space\<close>

definition config_address :: "u8 \<Rightarrow> u8 \<Rightarrow> u8 \<Rightarrow> u8 \<Rightarrow> u32" where
  "config_address bus slot func offset =
     push_bit 16 (ucast bus) OR push_bit 11 (ucast slot) OR push_bit 8 (ucast func) OR ucast (offset AND 0xFC) OR 0x80000000"

definition pci_write_config :: "'d machine \<Rightarrow> u8 \<Rightarrow> u8 \<Rightarrow> u8 \<Rightarrow> u8 \<Rightarrow> u32 \<Rightarrow> 'd \<Rightarrow> 'd" where
  "pci_write_config m bus slot func offset val d = m_outl m 0xCFC val (m_outl m 0xCF8 (config_address bus slot func offset) d)"

definition pci_read_config :: "'d machine \<Rightarrow> u8 \<Rightarrow> u8 \<Rightarrow> u8 \<Rightarrow> u8 \<Rightarrow> 'd \<Rightarrow> u32 \<times> 'd" where
  "pci_read_config m bus slot func offset d = m_inl m 0xCFC (m_outl m 0xCF8 (config_address bus slot func offset) d)"

text \<open>
  \<open>for (bus < 256) for (slot < 32)\<close> with an early return: the numbers from \<open>n\<close> up to 8192 are
  \<open>bus * 32 + slot\<close>.
\<close>

primrec search_bus :: "(u8 \<Rightarrow> u8 \<Rightarrow> 'd \<Rightarrow> u32 option \<times> 'd) \<Rightarrow> nat \<Rightarrow> nat \<Rightarrow> 'd \<Rightarrow> u32 option \<times> 'd" where
  "search_bus f 0 n d = (None, d)"
| "search_bus f (Suc k) n d =
     (case f (of_nat (n div 32)) (of_nat (n mod 32)) d of (Some r, d') \<Rightarrow> (Some r, d') | (None, d') \<Rightarrow> search_bus f k (Suc n) d')"

definition lsi_at :: "'d machine \<Rightarrow> u8 \<Rightarrow> u8 \<Rightarrow> 'd \<Rightarrow> u32 option \<times> 'd" where
  "lsi_at m bus slot d =
     (let (dat, d1) = pci_read_config m bus slot 0 0x0 d
      in if dat \<noteq> 0xFFFFFFFF \<and> (ucast dat :: u16) = 0x1000 \<and> (ucast (drop_bit 16 dat) :: u16) = 0x0012
         then let (bar0, d2) = pci_read_config m bus slot 0 0x10 d1;
                  (command, d3) = pci_read_config m bus slot 0 0x04 d2
              in (Some (bar0 AND NOT 0x3), d3)
         else (None, d1))"

definition pci_find_lsi_scsi :: "'d machine \<Rightarrow> 'd \<Rightarrow> u32 \<times> 'd" where
  "pci_find_lsi_scsi m d = (let (r, d') = search_bus (lsi_at m) 8192 0 d in (case r of Some p \<Rightarrow> p | None \<Rightarrow> 0, d'))"

definition device_at :: "'d machine \<Rightarrow> u16 \<Rightarrow> u16 \<Rightarrow> u8 \<Rightarrow> u8 \<Rightarrow> 'd \<Rightarrow> u32 option \<times> 'd" where
  "device_at m vendor device bus slot d =
     (let (res, d1) = pci_read_config m bus slot 0 0 d
      in (if ucast res = vendor \<and> ucast (drop_bit 16 res) = device
          then Some (push_bit 16 (ucast bus) OR push_bit 8 (ucast slot)) else None, d1))"

definition pci_find_device :: "'d machine \<Rightarrow> u16 \<Rightarrow> u16 \<Rightarrow> 'd \<Rightarrow> u32 \<times> 'd" where
  "pci_find_device m vendor device d =
     (let (r, d') = search_bus (device_at m vendor device) 8192 0 d in (case r of Some p \<Rightarrow> p | None \<Rightarrow> 0xFFFFFFFF, d'))"

definition pci_check_device :: "'d machine \<Rightarrow> u8 \<Rightarrow> u8 \<Rightarrow> u8 \<Rightarrow> pci \<Rightarrow> 'd \<Rightarrow> pci \<times> 'd" where
  "pci_check_device m bus device func s d =
     (let (v, d1) = pci_read_config m bus device func 0x00 d;
          (i, d2) = pci_read_config m bus device func 0x02 d1
      in if (ucast v :: u16) = 0x80EE \<and> (ucast i :: u16) = 0xCAFE
         then let (b, d3) = pci_read_config m bus device func 0x10 d2 in (s\<lparr>vbox_io_base := b AND NOT 0x1\<rparr>, d3)
         else (s, d2))"

definition pci_get_vbox_port :: "pci \<Rightarrow> u32" where "pci_get_vbox_port s = vbox_io_base s"

text \<open>What it prints aside, \<open>detect_piix_pm\<close> reads two registers.\<close>

definition detect_piix_pm :: "'d machine \<Rightarrow> u8 \<Rightarrow> u8 \<Rightarrow> u8 \<Rightarrow> 'd \<Rightarrow> 'd" where
  "detect_piix_pm m bus dev func d =
     snd (pci_read_config m bus dev func 0x08 (snd (pci_read_config m bus dev func 0x00 d)))"

definition class_at :: "'d machine \<Rightarrow> u8 \<Rightarrow> u8 \<Rightarrow> 'd \<Rightarrow> u32 option \<times> 'd" where
  "class_at m bus slot d = (None, snd (pci_read_config m bus slot 0 0x08 d))"

definition drm_init :: "'d machine \<Rightarrow> 'd \<Rightarrow> 'd" where
  "drm_init m d = snd (search_bus (class_at m) 8192 0 d)"

subsection \<open>Partitions\<close>

definition get_le32 :: "u8 list \<Rightarrow> nat \<Rightarrow> u32 option" where
  "get_le32 b i =
     do { b0 \<leftarrow> rd b i; b1 \<leftarrow> rd b (i + 1); b2 \<leftarrow> rd b (i + 2); b3 \<leftarrow> rd b (i + 3);
          Some (ucast b0 OR push_bit 8 (ucast b1) OR push_bit 16 (ucast b2) OR push_bit 24 (ucast b3)) }"

definition mbr_partition_type_name :: "u8 \<Rightarrow> char list" where
  "mbr_partition_type_name t =
     (if t = 0x07 then ''NTFS'' else if t = 0x0B then ''FAT32'' else if t = 0x0C then ''FAT32LBA''
      else if t = 0x83 then ''LINUX'' else if t = 0x82 then ''SWAP'' else if t = 0x0F then ''EXT''
      else if t = 0x05 then ''EXT/MBR'' else if t = 0xEE then ''GPT_PROT'' else ''UNKNOWN'')"

text \<open>\<open>strncpy(field, s, sizeof(field) - 1); field[sizeof(field) - 1] = 0;\<close>\<close>

definition set_field :: "char list \<Rightarrow> char list \<Rightarrow> char list option" where
  "set_field field s = do { f \<leftarrow> strncpy field (s @ [NUL]) 15; wr f 15 NUL }"

definition add_partition :: "bool \<Rightarrow> u32 \<Rightarrow> u32 \<Rightarrow> char list \<Rightarrow> disk_info \<Rightarrow> disk_info option" where
  "add_partition active start sectors ty disk =
     do { let k = unat (partition_count disk);
          p \<leftarrow> rd (partitions disk) k;
          t \<leftarrow> set_field (pt_type p) ty;
          (nm, _) \<leftarrow> sprintf (pt_name p) (''p%d'' @ [NUL]) [AInt (of_nat (k + 1))];
          ps \<leftarrow> wr (partitions disk) k
                  \<lparr>pt_name = nm, start_lba = start, pt_sectors = sectors, pt_type = t, pt_active = active\<rparr>;
          Some (disk\<lparr>partitions := ps, partition_count := partition_count disk + 1\<rparr>) }"

definition mbr_entry :: "u8 list \<Rightarrow> nat \<Rightarrow> disk_info \<Rightarrow> disk_info option" where
  "mbr_entry sector i disk =
     (if partition_count disk < 4
      then do { let entry = 0x1BE + i * 16;
                ty \<leftarrow> rd sector (entry + 4);
                start \<leftarrow> get_le32 sector (entry + 8);
                sectors \<leftarrow> get_le32 sector (entry + 12);
                if ty = 0 \<or> sectors = 0 then Some disk
                else do { a \<leftarrow> rd sector entry; add_partition (a = 0x80) start sectors (mbr_partition_type_name ty) disk } }
      else Some disk)"

text \<open>One array of 512 bytes holds the entries; \<open>i * entry_size\<close> is computed in 32 bits.\<close>

function gpt_entries :: "u8 list \<Rightarrow> u32 \<Rightarrow> nat \<Rightarrow> nat \<Rightarrow> disk_info \<Rightarrow> disk_info option" where
  "gpt_entries entries entry_size i n disk =
     (if i < n \<and> partition_count disk < 4
      then do { let entry = unat (of_nat i * entry_size);
                used \<leftarrow> first_ok (\<lambda>j. map_option (\<lambda>b. b \<noteq> 0) (rd entries (entry + j))) 0 16;
                if used = None then gpt_entries entries entry_size (Suc i) n disk
                else do { start \<leftarrow> get_le32 entries (entry + 32);
                          sectors \<leftarrow> get_le32 entries (entry + 40);
                          if sectors = 0 then gpt_entries entries entry_size (Suc i) n disk
                          else do { a \<leftarrow> rd entries entry;
                                    disk' \<leftarrow> add_partition (a AND 0x80 \<noteq> 0) start sectors ''GPT'' disk;
                                    gpt_entries entries entry_size (Suc i) n disk' } } }
      else Some disk)"
  by pat_completeness auto
termination
  by (relation "measure (\<lambda>(e, z, i, n, d). n - i)") auto

declare gpt_entries.simps [simp del]

definition EFI_PART :: "u8 list" where
  "EFI_PART = map (\<lambda>c. of_nat (of_char c)) ''EFI PART''"

definition parse_gpt :: "'d machine \<Rightarrow> disk_info \<Rightarrow> 'd \<Rightarrow> (disk_info \<times> 'd) option" where
  "parse_gpt m disk d =
     do { st \<leftarrow> set_field (partition_style disk) ''GPT'';
          let disk = disk\<lparr>partition_style := st\<rparr>;
          (header, d1) \<leftarrow> disk_read (m_ports m) 1 (m_sector m) 1 d;
          if take 8 header \<noteq> EFI_PART then Some (disk, d1)
          else do { entries_lba \<leftarrow> get_le32 header 72;
                    entries_count \<leftarrow> get_le32 header 80;
                    entry_size \<leftarrow> get_le32 header 84;
                    if entries_count = 0 \<or> entry_size = 0 \<or> entry_size > 128 then Some (disk, d1)
                    else do { (entries, d2) \<leftarrow> disk_read (m_ports m) entries_lba (m_sector m) 1 d1;
                              disk' \<leftarrow> gpt_entries entries entry_size 0 (unat entries_count) disk;
                              Some (disk', d2) } } }"

definition disk_parse_partitions :: "'d machine \<Rightarrow> disk_info \<Rightarrow> 'd \<Rightarrow> (disk_info \<times> 'd) option" where
  "disk_parse_partitions m disk d =
     do { ide \<leftarrow> (if dk_present disk then strcmp (transport disk) (''IDE'' @ [NUL]) else Some 1);
          if ide \<noteq> 0 then Some (disk, d)
          else do { (sector, d1) \<leftarrow> disk_read (m_ports m) 0 (m_sector m) 1 d;
                    s1 \<leftarrow> rd sector 510; s2 \<leftarrow> rd sector 511;
                    if s1 \<noteq> 0x55 \<or> s2 \<noteq> 0xAA then Some (disk, d1)
                    else do { let disk = disk\<lparr>partition_count := 0\<rparr>;
                              t \<leftarrow> rd sector (0x1BE + 4);
                              if t = 0xEE then parse_gpt m disk d1
                              else do { st \<leftarrow> set_field (partition_style disk) ''MBR'';
                                        disk' \<leftarrow> for_up 0 4 (mbr_entry sector) (disk\<lparr>partition_style := st\<rparr>);
                                        Some (disk', d1) } } } }"

subsection \<open>Disks\<close>

definition set_disk_info_defaults :: "disk_info option" where
  "set_disk_info_defaults =
     do { t \<leftarrow> strcpy (transport blank_disk) (''UNKNOWN'' @ [NUL]);
          mt \<leftarrow> strcpy (media_type blank_disk) (''UNKNOWN'' @ [NUL]);
          ps \<leftarrow> strcpy (partition_style blank_disk) (''UNKNOWN'' @ [NUL]);
          Some (blank_disk\<lparr>transport := t, media_type := mt, partition_style := ps, partition_count := 0\<rparr>) }"

text \<open>The name of a disk: \<open>s\<close> for \<open>S\<close>, else the letter itself; \<open>d\<close>; its number.\<close>

definition set_disk_name :: "char list \<Rightarrow> int \<Rightarrow> char list \<Rightarrow> char list option" where
  "set_disk_name name_prefix n f =
     do { c \<leftarrow> rd name_prefix 0;
          f0 \<leftarrow> wr f 0 (if c = CHR ''S'' then CHR ''s'' else c);
          f1 \<leftarrow> wr f0 1 (CHR ''d'');
          f2 \<leftarrow> wr f1 2 (char_of (48 + nat n));
          wr f2 3 NUL }"

text \<open>The two identifications and the detection of the style read the drive again.\<close>

definition inspect_ide :: "'d machine \<Rightarrow> disk_info \<Rightarrow> 'd \<Rightarrow> (disk_info \<times> 'd) option" where
  "inspect_ide m disk d =
     do { (ssd, d1) \<leftarrow> disk_is_ssd_primary (m_ports m) (m_words m) d;
          mt \<leftarrow> (if ssd then strncpy (media_type disk) (''SSD'' @ [NUL]) 15 else Some (media_type disk));
          (st, d2) \<leftarrow> disk_detect_partition_style (m_ports m) (m_words m) (m_sector m) (Some (partition_style disk)) 16 d1;
          ps \<leftarrow> st;
          disk_parse_partitions m (disk\<lparr>media_type := mt, partition_style := ps\<rparr>) d2 }"

definition register_disk ::
    "'d machine \<Rightarrow> char list \<Rightarrow> char list \<Rightarrow> char list \<Rightarrow> u32 \<Rightarrow> u16 \<Rightarrow> u16 \<Rightarrow> u8 \<Rightarrow> u8 \<Rightarrow> u8 \<Rightarrow> pci \<Rightarrow> 'd \<Rightarrow> (pci \<times> 'd) option" where
  "register_disk m name_prefix bus_type media bar vendor device bus slot func s d =
     (if disk_count s < 4
      then do { let k = nat (disk_count s);
                disk \<leftarrow> set_disk_info_defaults;
                nm \<leftarrow> set_disk_name name_prefix (disk_count s) (dk_name disk);
                t \<leftarrow> strncpy (transport disk) bus_type 15;
                mt \<leftarrow> strncpy (media_type disk) media 15;
                let disk = disk\<lparr>dk_name := nm, transport := t, media_type := mt, dk_bar := bar, dk_present := True,
                  dk_vendor_id := vendor, dk_device_id := device, dk_bus := bus, dk_slot := slot, dk_func := func\<rparr>;
                ide \<leftarrow> strcmp bus_type (''IDE'' @ [NUL]);
                (disk', d') \<leftarrow> (if ide = 0 then inspect_ide m disk d else Some (disk, d));
                ds \<leftarrow> wr (system_disks s) k disk';
                Some (s\<lparr>system_disks := ds, disk_count := disk_count s + 1\<rparr>, d') }
      else Some (s, d))"

subsection \<open>The scan\<close>

definition scan_function :: "'d machine \<Rightarrow> u8 \<Rightarrow> u8 \<Rightarrow> u8 \<Rightarrow> pci \<times> 'd \<Rightarrow> (pci \<times> 'd) option" where
  "scan_function m bus slot func sd =
     (let (s, d) = sd; (id_reg, d1) = pci_read_config m bus slot func 0 d
      in if (ucast id_reg :: u16) = 0xFFFF then Some (s, d1)
         else do { let vendor = (ucast id_reg :: u16);
                   let device_id = (ucast (drop_bit 16 id_reg) :: u16);
                   let (class_reg, d2) = pci_read_config m bus slot func 0x08 d1;
                   let class_code = (ucast (drop_bit 24 class_reg) :: u8);
                   let subclass = (ucast (drop_bit 16 class_reg) :: u8);
                   (s3, d3) \<leftarrow> (if class_code = 0x0C \<and> subclass = 0x03
                                then let (bar0, d') = pci_read_config m bus slot func 0x10 d2
                                     in register_disk m (''u'' @ [NUL]) (''USB'' @ [NUL]) (''USB'' @ [NUL]) bar0 vendor device_id bus slot func s d'
                                else Some (s, d2));
                   (s4, d4) \<leftarrow> (if vendor = 0x1000 \<and> device_id = 0x0012
                                then let (bar0, d') = pci_read_config m bus slot func 0x10 d3
                                     in register_disk m (''s'' @ [NUL]) (''SCSI'' @ [NUL]) (''HDD'' @ [NUL]) bar0 vendor device_id bus slot func s3 d'
                                else Some (s3, d3));
                   (s5, d5) \<leftarrow> (if vendor = 0x8086 \<and> device_id = 0x7010
                                then do { (present, d') \<leftarrow> ide_drive_present (m_ports m) 0 (m_words m) d4;
                                          if present
                                          then let (bar4, d'') = pci_read_config m bus slot func 0x20 d'
                                               in register_disk m (''h'' @ [NUL]) (''IDE'' @ [NUL]) (''HDD'' @ [NUL]) bar4 vendor device_id bus slot func s4 d''
                                          else Some (s4, d') }
                                else Some (s4, d4));
                   Some (s5, detect_piix_pm m bus slot func d5) })"

definition pci_scan_bus :: "'d machine \<Rightarrow> pci \<times> 'd \<Rightarrow> (pci \<times> 'd) option" where
  "pci_scan_bus m sd =
     for_up 0 256 (\<lambda>bus. for_up 0 32 (\<lambda>slot. for_up 0 8 (\<lambda>func. scan_function m (of_nat bus) (of_nat slot) (of_nat func)))) sd"


subsection \<open>Partitions of an MBR\<close>

lemma set_field_run:
  assumes "NUL \<notin> set s" and "length s < 15" and "length f = 16"
  shows "\<exists>f'. set_field f s = Some f' \<and> cstr f' s \<and> length f' = 16"
proof -
  have c: "cstr (s @ [NUL]) s" using assms(1) by (simp add: cstr_def)
  have w: "strncpy f (s @ [NUL]) 15 = Some (s @ replicate (15 - length s) NUL @ drop 15 f)"
    using strncpy_cstr [OF c, of 15 f] assms by simp
  have "cstr ((s @ replicate (15 - length s) NUL @ drop 15 f)[15 := NUL]) s"
    using assms by (simp add: list_update_append cstr_pad)
  then show ?thesis using assms by (simp add: set_field_def w wr_Some)
qed

lemma part_format:
  assumes "k < 4"
  shows "format_text sprintf_precision (''p%d'' @ [NUL]) [AInt (of_nat (k + 1))] = Some (''p'' @ dec (k + 1))"
proof -
  consider "k = 0" | "k = 1" | "k = 2" | "k = 3" using assms by linarith
  then show ?thesis by cases (simp_all, code_simp+)
qed

lemma part_name:
  assumes "k < 4" and "length b = 16"
  shows "\<exists>b'. sprintf b (''p%d'' @ [NUL]) [AInt (of_nat (k + 1))] = Some (b', 2) \<and> cstr b' (''p'' @ dec (k + 1)) \<and> length b' = 16"
proof -
  have d: "dec (k + 1) = [digit (k + 1)]" using assms(1) by (simp add: dec_small)
  have len: "length (dec (k + 1)) = 1" unfolding d by simp
  have "store_text ((''p'' @ dec (k + 1)) @ [NUL]) 0 b = Some (''p'' @ [digit (k + 1), NUL] @ drop 3 b)"
    unfolding d using store_text_run [of 0 b "(''p'' @ [digit (k + 1)]) @ [NUL]"] assms(2) by (simp add: numeral_3_eq_3)
  moreover have nz: "digit (k + 1) \<noteq> NUL" using assms(1) by simp
  have "cstr (''p'' @ [digit (k + 1), NUL] @ drop 3 b) (''p'' @ dec (k + 1))"
    unfolding d using nz nz [symmetric] by (auto simp: cstr_def)
  ultimately show ?thesis
    unfolding sprintf_def vsprintf_def part_format [OF assms(1)] using assms(2) len by simp
qed

definition disk_ok :: "disk_info \<Rightarrow> bool" where
  "disk_ok disk \<longleftrightarrow> length (partitions disk) = 4 \<and> length (partition_style disk) = 16 \<and>
     (\<forall>p \<in> set (partitions disk). length (pt_name p) = 16 \<and> length (pt_type p) = 16)"

text \<open>What an entry of the table says, and that a partition record says it.\<close>

definition le32_at :: "u8 list \<Rightarrow> nat \<Rightarrow> u32" where
  "le32_at b i = ucast (b ! i) OR push_bit 8 (ucast (b ! (i + 1))) OR push_bit 16 (ucast (b ! (i + 2))) OR push_bit 24 (ucast (b ! (i + 3)))"

type_synonym part_entry = "bool \<times> u32 \<times> u32 \<times> char list"

definition mbr_record :: "u8 list \<Rightarrow> nat \<Rightarrow> part_entry option" where
  "mbr_record sector i =
     (let e = 0x1BE + i * 16 in
      if sector ! (e + 4) = 0 \<or> le32_at sector (e + 12) = 0 then None
      else Some (sector ! e = 0x80, le32_at sector (e + 8), le32_at sector (e + 12), mbr_partition_type_name (sector ! (e + 4))))"

definition mbr_records :: "u8 list \<Rightarrow> nat \<Rightarrow> part_entry list" where
  "mbr_records sector n = List.map_filter (mbr_record sector) [0..<n]"

definition part_shows :: "nat \<Rightarrow> part_entry \<Rightarrow> partition_info \<Rightarrow> bool" where
  "part_shows k r p \<longleftrightarrow> pt_active p = fst r \<and> start_lba p = fst (snd r) \<and> pt_sectors p = fst (snd (snd r)) \<and>
     cstr (pt_type p) (snd (snd (snd r))) \<and> cstr (pt_name p) (''p'' @ dec (k + 1))"

definition disk_shows :: "part_entry list \<Rightarrow> disk_info \<Rightarrow> bool" where
  "disk_shows rs disk \<longleftrightarrow> unat (partition_count disk) = length rs \<and> (\<forall>k<length rs. part_shows k (rs ! k) (partitions disk ! k))"

lemma get_le32_run: "i + 4 \<le> length b \<Longrightarrow> get_le32 b i = Some (le32_at b i)"
  by (simp add: get_le32_def le32_at_def rd_Some)

lemma type_name_ok: "NUL \<notin> set (mbr_partition_type_name t) \<and> length (mbr_partition_type_name t) < 15"
  by (simp add: mbr_partition_type_name_def)

lemma mbr_records_Suc: "mbr_records sector (Suc n) = mbr_records sector n @ (case mbr_record sector n of None \<Rightarrow> [] | Some r \<Rightarrow> [r])"
  by (cases "mbr_record sector n") (auto simp: mbr_records_def List.map_filter_def)

lemma mbr_records_length: "length (mbr_records sector n) \<le> n"
  by (induction n) (auto simp: mbr_records_def List.map_filter_def)

lemma add_partition_run:
  assumes "disk_ok disk" and "disk_shows rs disk" and "length rs < 4" and "NUL \<notin> set ty" and "length ty < 15"
  shows "\<exists>disk'. add_partition a start sectors ty disk = Some disk' \<and> disk_ok disk' \<and> disk_shows (rs @ [(a, start, sectors, ty)]) disk' \<and>
    partition_style disk' = partition_style disk"
proof -
  let ?k = "length rs"
  have k: "unat (partition_count disk) = ?k" using assms(2) by (simp add: disk_shows_def)
  have len: "?k < length (partitions disk)" using assms(1,3) by (simp add: disk_ok_def)
  let ?p = "partitions disk ! ?k"
  have p: "length (pt_name ?p) = 16" "length (pt_type ?p) = 16" using assms(1) len by (auto simp: disk_ok_def)
  from set_field_run [OF assms(4,5) p(2)] obtain t where t: "set_field (pt_type ?p) ty = Some t" "cstr t ty" "length t = 16" by blast
  from part_name [OF assms(3) p(1)] obtain nm where nm: "sprintf (pt_name ?p) (''p%d'' @ [NUL]) [AInt (of_nat (?k + 1))] = Some (nm, 2)"
      "cstr nm (''p'' @ dec (?k + 1))" "length nm = 16" by blast
  define q where "q = \<lparr>pt_name = nm, start_lba = start, pt_sectors = sectors, pt_type = t, pt_active = a\<rparr>"
  define disk' where "disk' = disk\<lparr>partitions := (partitions disk)[?k := q], partition_count := partition_count disk + 1\<rparr>"
  have run: "add_partition a start sectors ty disk = Some disk'"
    using len t(1) nm(1) by (simp add: add_partition_def k rd_Some wr_Some q_def disk'_def)
  have c: "unat (partition_count disk + 1) = Suc ?k"
    using unat_plus1 [of "partition_count disk"] assms(3) k by simp
  have "disk_ok disk'"
    using assms(1) t(3) nm(3) by (auto simp: disk_ok_def disk'_def q_def dest!: set_update_subset_insert [THEN subsetD])
  moreover have "disk_shows (rs @ [(a, start, sectors, ty)]) disk'"
    using assms(2) c t(2) nm(2) len
    by (auto simp: disk_shows_def disk'_def part_shows_def q_def nth_append less_Suc_eq)
  ultimately show ?thesis using run by (auto simp: disk'_def)
qed

lemma mbr_entry_run:
  assumes "length sector = 512" and "i < 4" and "disk_ok disk" and "disk_shows (mbr_records sector i) disk"
  shows "\<exists>disk'. mbr_entry sector i disk = Some disk' \<and> disk_ok disk' \<and> disk_shows (mbr_records sector (Suc i)) disk' \<and>
    partition_style disk' = partition_style disk"
proof -
  let ?e = "446 + i * 16"
  have n: "length (mbr_records sector i) < 4" using mbr_records_length [of sector i] assms(2) by linarith
  then have c: "partition_count disk < 4" using assms(4) by (simp add: disk_shows_def word_less_nat_alt)
  have r: "rd sector (?e + 4) = Some (sector ! (?e + 4))" "rd sector ?e = Some (sector ! ?e)"
      "get_le32 sector (?e + 8) = Some (le32_at sector (?e + 8))" "get_le32 sector (?e + 12) = Some (le32_at sector (?e + 12))"
    using assms(1,2) by (simp_all add: rd_Some get_le32_run)
  show ?thesis
  proof (cases "mbr_record sector i")
    case None
    then have "sector ! (?e + 4) = 0 \<or> le32_at sector (?e + 12) = 0" by (simp add: mbr_record_def Let_def split: if_splits)
    then have "mbr_entry sector i disk = Some disk" using c r by (auto simp: mbr_entry_def)
    then show ?thesis using assms(3,4) None by (simp add: mbr_records_Suc)
  next
    case (Some x)
    then have x: "\<not> (sector ! (?e + 4) = 0 \<or> le32_at sector (?e + 12) = 0)"
        "x = (sector ! ?e = 0x80, le32_at sector (?e + 8), le32_at sector (?e + 12), mbr_partition_type_name (sector ! (?e + 4)))"
      by (auto simp: mbr_record_def Let_def split: if_splits)
    have "mbr_entry sector i disk = add_partition (sector ! ?e = 0x80) (le32_at sector (?e + 8)) (le32_at sector (?e + 12))
        (mbr_partition_type_name (sector ! (?e + 4))) disk"
      using c r x(1) by (simp add: mbr_entry_def)
    with add_partition_run [OF assms(3,4) n] type_name_ok [of "sector ! (?e + 4)"] Some x(2) show ?thesis
      by (simp add: mbr_records_Suc)
  qed
qed

text \<open>
  C31: The partitions of a disk with an MBR. When an IDE disk is present, its first sector can be read,
  has the signature and its first entry is not that of a GPT, \<open>disk_parse_partitions\<close> takes exactly the entries of the table that have a type and a
  size, in their order: boot flag, start, size and the name of the type go to the records, which are
  named \<open>p1\<close>, \<open>p2\<close>, \<open>\<dots>\<close>; the style becomes \<open>MBR\<close>.
\<close>
theorem mbr_partitions_listed:
  assumes "disk_ok disk" and "dk_present disk" and "cstr (transport disk) ''IDE''"
    and "disk_read (m_ports m) 0 (m_sector m) 1 d = Some (sector, d1)" and "length sector = 512"
    and "sector ! 510 = 0x55" and "sector ! 511 = 0xAA" and "sector ! 450 \<noteq> 0xEE"
  shows "\<exists>disk'. disk_parse_partitions m disk d = Some (disk', d1) \<and> disk_ok disk' \<and> disk_shows (mbr_records sector 4) disk' \<and>
    cstr (partition_style disk') ''MBR''"
proof -
  have "cstr (''IDE'' @ [NUL]) ''IDE''" by (simp add: cstr_def)
  from strcmp_eq [OF assms(3) this] have ide: "strcmp (transport disk) (''IDE'' @ [NUL]) = Some 0" by auto
  from set_field_run [of "''MBR''" "partition_style disk"] assms(1) obtain st where
      st: "set_field (partition_style disk) ''MBR'' = Some st" "cstr st ''MBR''" "length st = 16" by (auto simp: disk_ok_def)
  define disk0 where "disk0 = disk\<lparr>partition_count := 0, partition_style := st\<rparr>"
  have "\<exists>disk'. for_up 0 4 (mbr_entry sector) disk0 = Some disk' \<and>
      (disk_ok disk' \<and> disk_shows (mbr_records sector 4) disk' \<and> partition_style disk' = st)"
  proof (rule for_up_rule [where I = "\<lambda>i x. disk_ok x \<and> disk_shows (mbr_records sector i) x \<and> partition_style x = st"])
    show "disk_ok disk0 \<and> disk_shows (mbr_records sector 0) disk0 \<and> partition_style disk0 = st"
      using assms(1) st(3) by (simp add: disk0_def disk_ok_def disk_shows_def mbr_records_def List.map_filter_def)
  next
    fix i x
    assume "i < 4" and "disk_ok x \<and> disk_shows (mbr_records sector i) x \<and> partition_style x = st"
    with mbr_entry_run [OF assms(5), of i x] show "\<exists>x'. mbr_entry sector i x = Some x' \<and>
      disk_ok x' \<and> disk_shows (mbr_records sector (Suc i)) x' \<and> partition_style x' = st" by auto
  qed simp
  moreover have "disk\<lparr>partition_count := 0\<rparr>\<lparr>partition_style := st\<rparr> = disk0" by (simp add: disk0_def)
  ultimately show ?thesis
    using assms(2,4-8) ide st by (auto simp: disk_parse_partitions_def rd_Some)
qed

text \<open>A disk of one Linux partition: words 225 and 227 to 230 hold its type, start and size, word 255 the signature.\<close>

definition demo_image :: "u16 \<Rightarrow> u16" where
  "demo_image i = (if i = 223 then 0x80 else if i = 225 then 0x83 else if i = 227 then 0x800 else if i = 229 then 0x1000
     else if i = 255 then 0xAA55 else 0)"

definition demo_machine :: "u16 machine" where
  "demo_machine = \<lparr>m_ports = \<lparr>p_inb = \<lambda>_ d. (0x58, d), p_inw = \<lambda>_ d. (demo_image d, d + 1), p_outb = \<lambda>_ _ d. d, p_outw = \<lambda>_ _ d. d\<rparr>,
     m_outl = \<lambda>_ _ d. d, m_inl = \<lambda>_ d. (0xFFFFFFFF, d), m_words = replicate 256 0, m_sector = replicate 512 7\<rparr>"

definition demo_disk :: disk_info where
  "demo_disk = blank_disk\<lparr>transport := ''IDE'' @ replicate 13 NUL, dk_present := True\<rparr>"

lemma demo_words: "k \<le> 256 \<Longrightarrow> data_words (m_ports demo_machine) k 0 = (map (\<lambda>i. demo_image (of_nat i)) [0..<k], of_nat k)"
  by (induction k) (simp_all add: demo_machine_def)

lemma nth_word_bytes:
  "i < length ws \<Longrightarrow> word_bytes ws ! (2 * i) = ucast (ws ! i) \<and> word_bytes ws ! Suc (2 * i) = ucast (drop_bit 8 (ws ! i))"
proof (induction ws arbitrary: i)
  case (Cons w ws)
  then show ?case by (cases i) (auto simp: word_bytes_def)
qed simp

definition demo_sector :: "u8 list" where
  "demo_sector = word_bytes (map (\<lambda>i. demo_image (of_nat i)) [0..<256])"

lemma demo_at:
  assumes "n < 512"
  shows "demo_sector ! n = (if even n then ucast (demo_image (of_nat (n div 2))) else ucast (drop_bit 8 (demo_image (of_nat (n div 2)))))"
proof -
  have "demo_sector ! (2 * i) = ucast (demo_image (of_nat i)) \<and> demo_sector ! Suc (2 * i) = ucast (drop_bit 8 (demo_image (of_nat i)))"
    if "i < 256" for i
    using nth_word_bytes [of i "map (\<lambda>i. demo_image (of_nat i)) [0..<256]"] that by (simp add: demo_sector_def del: upt_rec_numeral)
  from this [of "n div 2"] assms show ?thesis
    by (cases "even n") (auto simp: odd_two_times_div_two_succ [symmetric])
qed

lemma demo_sector_length: "length demo_sector = 512"
  by (simp add: demo_sector_def del: upt_rec_numeral)

lemma demo_read: "disk_read (m_ports demo_machine) 0 (m_sector demo_machine) 1 0 =
  Some (demo_sector, 256)"
proof -
  have wait: "ide_wait_bsy_timeout (m_ports demo_machine) d = (True, d)" "ide_wait_drq_timeout (m_ports demo_machine) d = (True, d)" for d
  proof -
    have t: "IDE_TIMEOUT = Suc 99999" by (simp add: IDE_TIMEOUT_def)
    show "ide_wait_bsy_timeout (m_ports demo_machine) d = (True, d)" "ide_wait_drq_timeout (m_ports demo_machine) d = (True, d)"
      unfolding ide_wait_bsy_timeout_def ide_wait_drq_timeout_def t ide_wait.simps by (simp_all add: demo_machine_def)
  qed
  have start: "p_outb (m_ports demo_machine) p v d = d" for p v d by (simp add: demo_machine_def)
  have "read_words (m_ports demo_machine) 0 (m_sector demo_machine, 0) =
      Some (demo_sector, 256)"
    by (subst read_words_run) (simp_all add: demo_words demo_sector_def del: upt_rec_numeral, simp_all add: demo_machine_def)
  then show ?thesis by (simp add: disk_read_def ata_address_def ata_select_def start wait)
qed

theorem mbr_partitions_listed_witness:
  "\<exists>disk'. disk_parse_partitions demo_machine demo_disk 0 = Some (disk', 256) \<and>
     disk_shows [(True, 0x800, 0x1000, ''LINUX'')] disk' \<and> cstr (partition_style disk') ''MBR''"
proof -
  have four: "[0..<4] = [0, 1, 2, 3 :: nat]" by (simp add: upt_conv_Cons)
  have rs: "mbr_records demo_sector 4 = [(True, 0x800, 0x1000, ''LINUX'')]"
    unfolding mbr_records_def four
    by (simp add: mbr_record_def le32_at_def demo_at demo_image_def map_filter_simps mbr_partition_type_name_def)
  have "disk_ok demo_disk" by (auto simp: disk_ok_def demo_disk_def blank_disk_def blank_partition_def nul_field_def)
  moreover have "cstr (transport demo_disk) ''IDE''" using cstr_pad [of "''IDE''" 13 "[]"] by (simp add: demo_disk_def)
  moreover have "dk_present demo_disk" by (simp add: demo_disk_def)
  moreover have "demo_sector ! 510 = 0x55" "demo_sector ! 511 = 0xAA" "demo_sector ! 450 \<noteq> 0xEE" by (simp_all add: demo_at demo_image_def)
  ultimately show ?thesis
    using mbr_partitions_listed [OF _ _ _ demo_read demo_sector_length, of demo_disk] rs by auto
qed

subsection \<open>Partitions of a GPT\<close>

text \<open>
  Only one sector of the table is read, so unless the four entries in it are used, the search
  for partitions goes on behind the array.
\<close>

lemma count_Suc: "unat c < 4 \<Longrightarrow> unat ((c :: u8) + 1) = Suc (unat c)"
  using unat_plus1 [of c] by simp

lemma add_partition_count: "add_partition a start sectors ty disk = Some disk' \<Longrightarrow> partition_count disk' = partition_count disk + 1"
  by (auto simp: add_partition_def bind_eq_Some_conv Let_def)

lemma first_ok_outside: "length b \<le> e \<Longrightarrow> first_ok (\<lambda>j. map_option p (rd b (e + j))) 0 16 = None"
  by (subst first_ok.simps) (simp add: rd_def)

lemma first_ok_None: "first_ok (\<lambda>j. None) 0 16 = None"
  by (subst first_ok.simps) simp

lemma gpt_four_used:
  assumes "length entries = 512" and "4 < n" and "i \<le> 4" and "unat (partition_count disk) \<le> i"
    and "gpt_entries entries 128 i n disk = Some disk'"
  shows "unat (partition_count disk) = i \<and> partition_count disk' = 4"
  using assms(3-5)
proof (induction "4 - i" arbitrary: i disk)
  case 0
  then have i: "i = 4" by simp
  have "\<not> partition_count disk < 4"
  proof
    assume "partition_count disk < 4"
    with 0(4) assms(1,2) i show False
      by (subst (asm) gpt_entries.simps) (simp add: rd_def first_ok_None)
  qed
  with 0(3,4) assms(2) i show ?case
    by (subst (asm) gpt_entries.simps) (auto simp: word_less_nat_alt word_unat_eq_iff)
next
  case (Suc k)
  then have i: "i < 4" "i < n" using assms(2) by auto
  with Suc(4) have c: "partition_count disk < 4" by (simp add: word_less_nat_alt)
  have IH: "unat (partition_count x) = Suc i \<and> partition_count disk' = 4"
    if "unat (partition_count x) \<le> Suc i" "gpt_entries entries 128 (Suc i) n x = Some disk'" for x
    using Suc(1) [of "Suc i" x] Suc(2) that i by auto
  from Suc(5) i c consider "gpt_entries entries 128 (Suc i) n disk = Some disk'"
    | x a s z where "add_partition a s z ''GPT'' disk = Some x" "gpt_entries entries 128 (Suc i) n x = Some disk'"
    by (subst (asm) gpt_entries.simps) (auto simp: bind_eq_Some_conv Let_def split: if_splits)
  then show ?case
  proof cases
    case 1
    with IH [of disk] Suc(4) show ?thesis by auto
  next
    case 2
    then have "unat (partition_count x) = Suc (unat (partition_count disk))"
      using c by (simp add: add_partition_count count_Suc word_less_nat_alt)
    with IH [of x] 2(2) Suc(4) show ?thesis by auto
  qed
qed

lemma gpt_reads_outside:
  assumes "length entries = 512" and "4 < n" and "partition_count disk = 0"
    and "take 128 entries = replicate 128 0"
  shows "gpt_entries entries 128 0 n disk = None"
proof (rule ccontr)
  assume "gpt_entries entries 128 0 n disk \<noteq> None"
  then obtain disk' where r: "gpt_entries entries 128 0 n disk = Some disk'" by auto
  have z: "rd entries j = Some 0" if "j < 128" for j
  proof -
    have "entries ! j = take 128 entries ! j" using that by simp
    then show ?thesis using that assms(1) by (simp add: assms(4) rd_Some)
  qed
  have "first_ok (\<lambda>j. map_option (\<lambda>b. b \<noteq> 0) (rd entries (0 + j))) 0 16 = Some (find (\<lambda>_. False) [0..<16])"
    by (rule first_ok_eq_find) (simp add: z)
  moreover have "find (\<lambda>_. False) xs = None" for xs :: "nat list" by (simp add: find_None_iff)
  ultimately have "gpt_entries entries 128 1 n disk = Some disk'"
    using r assms(2,3) by (subst (asm) gpt_entries.simps) simp
  from gpt_four_used [OF assms(1,2) _ _ this] assms(3) show False by simp
qed

subsection \<open>Searching a device\<close>

text \<open>A bus whose configuration registers are not changed by reading.\<close>

definition passive_bus :: "'d machine \<Rightarrow> 'd \<Rightarrow> (u32 \<Rightarrow> u32) \<Rightarrow> bool" where
  "passive_bus m d cfg \<longleftrightarrow> (\<forall>a. m_inl m 0xCFC (m_outl m 0xCF8 a d) = (cfg a, d))"

text \<open>The low bits of the offset are dropped, so \<open>pci_check_device\<close> compares the vendor with itself and finds nothing.\<close>

lemma pci_check_device_finds_nothing:
  assumes "passive_bus m d cfg"
  shows "pci_check_device m bus device func s d = (s, d)"
proof -
  have "config_address bus device func 0x02 = config_address bus device func 0x00" by (simp add: config_address_def)
  then show ?thesis using assms by (auto simp: pci_check_device_def pci_read_config_def passive_bus_def Let_def)
qed

lemma search_bus_passive:
  assumes "\<And>b s. f b s d = (g b s, d)"
  shows "search_bus f k n d =
    (case find (\<lambda>j. g (of_nat (j div 32)) (of_nat (j mod 32)) \<noteq> None) [n..<n + k] of
       None \<Rightarrow> None | Some j \<Rightarrow> g (of_nat (j div 32)) (of_nat (j mod 32)), d)"
proof (induction k arbitrary: n)
  case (Suc k)
  then show ?case by (cases "g (of_nat (n div 32)) (of_nat (n mod 32))") (simp_all add: assms upt_conv_Cons del: upt_Suc)
qed simp

definition has_id :: "u32 \<Rightarrow> u16 \<Rightarrow> u16 \<Rightarrow> bool" where
  "has_id w vendor device \<longleftrightarrow> ucast w = vendor \<and> ucast (drop_bit 16 w) = device"

text \<open>
  \<open>pci_find_device\<close> returns the first slot, in the order of buses and slots, whose function 0 has the
  vendor and device, and all ones if there is none.
\<close>

lemma pci_find_device_first:
  assumes "passive_bus m d cfg"
  shows "pci_find_device m vendor device d =
    (case find (\<lambda>j. has_id (cfg (config_address (of_nat (j div 32)) (of_nat (j mod 32)) 0 0)) vendor device) [0..<8192] of
       None \<Rightarrow> 0xFFFFFFFF | Some j \<Rightarrow> push_bit 16 (ucast (of_nat (j div 32) :: u8)) OR push_bit 8 (ucast (of_nat (j mod 32) :: u8)), d)"
proof -
  let ?g = "\<lambda>b s. if has_id (cfg (config_address b s 0 0)) vendor device then Some (push_bit 16 (ucast b) OR push_bit 8 (ucast s) :: u32) else None"
  have f: "device_at m vendor device b s d = (?g b s, d)" for b s
    using assms by (simp add: device_at_def pci_read_config_def passive_bus_def has_id_def)
  have n: "(if b then Some x else None) \<noteq> None \<longleftrightarrow> b" for b and x :: u32 by simp
  let ?j = "find (\<lambda>j. has_id (cfg (config_address (of_nat (j div 32)) (of_nat (j mod 32)) 0 0)) vendor device) [0..<8192]"
  have hit: "has_id (cfg (config_address (of_nat (j div 32)) (of_nat (j mod 32)) 0 0)) vendor device" if "?j = Some j" for j
    using that by (auto simp: find_Some_iff)
  show ?thesis
    unfolding pci_find_device_def search_bus_passive [where f = "device_at m vendor device" and g = ?g, OF f] n
    by (cases ?j) (simp_all add: hit)
qed

end
