(* ===== verification/Lkm.thy ===== *)
theory Lkm
  imports Elf
begin

text \<open>
  The loader of kernel modules, \<open>kernel/lkm.c\<close>: sections of a relocatable image are placed in frames of the page
  frame allocator, references are patched, and the entry \<open>module_init\<close> is looked up. Memory is flat; the
  headers are read again wherever the code reads them, since loading may overwrite them. The call of the
  entry is the result; messages are left out.
\<close>

definition ET_REL :: u16 where "ET_REL = 1"
definition SHT_PROGBITS :: u32 where "SHT_PROGBITS = 1"
definition SHT_SYMTAB :: u32 where "SHT_SYMTAB = 2"
definition SHT_NOBITS :: u32 where "SHT_NOBITS = 8"
definition SHT_REL :: u32 where "SHT_REL = 9"
definition SHF_ALLOC :: u32 where "SHF_ALLOC = 2"
definition STB_LOCAL :: u8 where "STB_LOCAL = 0"
definition R_386_32 :: u32 where "R_386_32 = 1"
definition R_386_PC32 :: u32 where "R_386_PC32 = 2"

record Elf32_Shdr =
  sh_name :: u32
  sh_type :: u32
  sh_flags :: u32
  sh_addr :: u32
  sh_offset :: u32
  sh_size :: u32
  sh_link :: u32
  sh_info :: u32
  sh_addralign :: u32
  sh_entsize :: u32

record Elf32_Sym =
  st_name :: u32
  st_value :: u32
  st_size :: u32
  st_info :: u8
  st_other :: u8
  st_shndx :: u16

record Elf32_Rel =
  r_offset :: u32
  r_info :: u32

definition ELF32_R_SYM :: "u32 \<Rightarrow> u32" where "ELF32_R_SYM info = drop_bit 8 info"
definition ELF32_R_TYPE :: "u32 \<Rightarrow> u32" where "ELF32_R_TYPE info = info AND 0xff"
definition ELF32_ST_BIND :: "u8 \<Rightarrow> u8" where "ELF32_ST_BIND info = drop_bit 4 info"

definition shdr_at :: "mem \<Rightarrow> u32 \<Rightarrow> Elf32_Shdr" where
  "shdr_at m a = \<lparr>sh_name = get32 m a, sh_type = get32 m (a + 4), sh_flags = get32 m (a + 8), sh_addr = get32 m (a + 12),
     sh_offset = get32 m (a + 16), sh_size = get32 m (a + 20), sh_link = get32 m (a + 24), sh_info = get32 m (a + 28),
     sh_addralign = get32 m (a + 32), sh_entsize = get32 m (a + 36)\<rparr>"

definition sym_at :: "mem \<Rightarrow> u32 \<Rightarrow> Elf32_Sym" where
  "sym_at m a = \<lparr>st_name = get32 m a, st_value = get32 m (a + 4), st_size = get32 m (a + 8), st_info = m (a + 12),
     st_other = m (a + 13), st_shndx = get16 m (a + 14)\<rparr>"

definition rel_at :: "mem \<Rightarrow> u32 \<Rightarrow> Elf32_Rel" where
  "rel_at m a = \<lparr>r_offset = get32 m a, r_info = get32 m (a + 4)\<rparr>"

definition put32 :: "u32 \<Rightarrow> u32 \<Rightarrow> mem \<Rightarrow> mem" where
  "put32 a w m = m(a := ucast w, a + 1 := ucast (drop_bit 8 w), a + 2 := ucast (drop_bit 16 w), a + 3 := ucast (drop_bit 24 w))"

subsection \<open>Symbols of the kernel\<close>

text \<open>The table: three names, with the addresses the linker gives them.\<close>

record kernel_symbols =
  k_printk :: u32
  k_memcpy :: u32
  k_memset :: u32

definition g_sys_symtab :: "kernel_symbols \<Rightarrow> (char list \<times> u32) list" where
  "g_sys_symtab k = [(''printk'', k_printk k), (''memcpy'', k_memcpy k), (''memset'', k_memset k)]"

text \<open>\<open>strcmp\<close> of a string in memory with a name is 0.\<close>

fun mem_is :: "mem \<Rightarrow> u32 \<Rightarrow> char list \<Rightarrow> bool" where
  "mem_is m a [] \<longleftrightarrow> m a = 0"
| "mem_is m a (c # s) \<longleftrightarrow> m a = of_nat (of_char c) \<and> mem_is m (a + 1) s"

fun find_symbol :: "(char list \<times> u32) list \<Rightarrow> mem \<Rightarrow> u32 \<Rightarrow> u32" where
  "find_symbol [] m a = 0"
| "find_symbol ((s, x) # t) m a = (if mem_is m a s then x else find_symbol t m a)"

definition find_kernel_symbol :: "kernel_symbols \<Rightarrow> mem \<Rightarrow> u32 \<Rightarrow> u32" where
  "find_kernel_symbol k m a = find_symbol (g_sys_symtab k) m a"

subsection \<open>Sections\<close>

definition section_at :: "u32 \<Rightarrow> nat \<Rightarrow> u32" where
  "section_at shdr i = shdr + 40 * of_nat i"

text \<open>One frame for a section; False stands for -1, when there is none left.\<close>

definition place_section :: "u32 \<Rightarrow> u32 \<Rightarrow> mem \<Rightarrow> mm_state \<Rightarrow> (bool \<times> mem \<times> mm_state) option" where
  "place_section raw a m mm =
     (let sh = shdr_at m a
      in if sh_flags sh AND SHF_ALLOC \<noteq> 0 \<and> sh_size sh > 0
         then do { (kernel_mem, mm') \<leftarrow> pmm_alloc_frame mm;
                   if kernel_mem = 0 then Some (False, m, mm')
                   else do { let m1 = (if sh_type sh = SHT_PROGBITS then snd (mm_memcpy (unat (sh_size sh)) kernel_mem (raw + sh_offset sh) m)
                                       else if sh_type sh = SHT_NOBITS then mm_memset (unat (sh_size sh)) kernel_mem 0 m
                                       else m);
                             Some (True, put32 (a + 12) kernel_mem m1, mm') } }
         else Some (True, m, mm))"

function place_sections :: "u32 \<Rightarrow> u32 \<Rightarrow> nat \<Rightarrow> mem \<Rightarrow> mm_state \<Rightarrow> (bool \<times> mem \<times> mm_state) option" where
  "place_sections raw shdr i m mm =
     (if i < unat (e_shnum (ehdr_at m raw))
      then do { (ok, m', mm') \<leftarrow> place_section raw (section_at shdr i) m mm;
                if ok then place_sections raw shdr (Suc i) m' mm' else Some (False, m', mm') }
      else Some (True, m, mm))"
  by pat_completeness auto
termination
proof (relation "measure (\<lambda>(r, s, i, m, mm). 65536 - i)")
  fix raw shdr :: u32 and i :: nat and m x2 :: mem and mm y :: mm_state and x :: "bool \<times> mem \<times> mm_state" and xa and z
  assume "i < unat (e_shnum (ehdr_at m raw))"
  moreover have "unat (e_shnum (ehdr_at m raw)) < 65536" using unat_lt [of "e_shnum (ehdr_at m raw)"] by simp
  ultimately show "((raw, shdr, Suc i, x2, y), raw, shdr, i, m, mm) \<in> measure (\<lambda>(r, s, i, m, mm). 65536 - i)" by simp
qed simp

declare place_sections.simps [simp del]

subsection \<open>References\<close>

text \<open>The address a symbol stands for: in its section, or in the kernel, where 0 is not found.\<close>

definition symbol_address :: "kernel_symbols \<Rightarrow> u32 \<Rightarrow> u32 \<Rightarrow> Elf32_Sym \<Rightarrow> mem \<Rightarrow> u32 option" where
  "symbol_address k shdr strtab symb m =
     (if ELF32_ST_BIND (st_info symb) = STB_LOCAL
      then Some (sh_addr (shdr_at m (section_at shdr (unat (st_shndx symb)))) + st_value symb)
      else let a = find_kernel_symbol k m (strtab + st_name symb) in if a = 0 then None else Some a)"

definition patch :: "u32 \<Rightarrow> u32 \<Rightarrow> u32 \<Rightarrow> mem \<Rightarrow> mem" where
  "patch rel_type p sym_addr m =
     (if rel_type = R_386_32 then put32 p (get32 m p + sym_addr) m
      else if rel_type = R_386_PC32 then put32 p (get32 m p + (sym_addr - p)) m
      else m)"

definition relocate :: "kernel_symbols \<Rightarrow> u32 \<Rightarrow> u32 \<Rightarrow> u32 \<Rightarrow> u32 \<Rightarrow> u32 \<Rightarrow> mem \<Rightarrow> bool \<times> mem" where
  "relocate k shdr target_sec symtab strtab rel m =
     (let r = rel_at m rel
      in case symbol_address k shdr strtab (sym_at m (symtab + 16 * ELF32_R_SYM (r_info r))) m of
           None \<Rightarrow> (False, m)
         | Some sym_addr \<Rightarrow>
             (True, patch (ELF32_R_TYPE (r_info r)) (sh_addr (shdr_at m target_sec) + r_offset r) sym_addr m))"

primrec relocate_all :: "kernel_symbols \<Rightarrow> u32 \<Rightarrow> u32 \<Rightarrow> u32 \<Rightarrow> u32 \<Rightarrow> u32 \<Rightarrow> nat \<Rightarrow> mem \<Rightarrow> bool \<times> mem" where
  "relocate_all k shdr target_sec symtab strtab rel 0 m = (True, m)"
| "relocate_all k shdr target_sec symtab strtab rel (Suc n) m =
     (let (ok, m') = relocate k shdr target_sec symtab strtab rel m
      in if ok then relocate_all k shdr target_sec symtab strtab (rel + 8) n m' else (False, m'))"

definition relocate_section :: "kernel_symbols \<Rightarrow> u32 \<Rightarrow> u32 \<Rightarrow> nat \<Rightarrow> mem \<Rightarrow> bool \<times> mem" where
  "relocate_section k raw shdr i m =
     (let sh = shdr_at m (section_at shdr i)
      in if sh_type sh = SHT_REL
         then let symtab_sec = section_at shdr (unat (sh_link sh));
                  symtab = shdr_at m symtab_sec;
                  strtab = shdr_at m (section_at shdr (unat (sh_link symtab)))
              in relocate_all k shdr (section_at shdr (unat (sh_info sh))) (raw + sh_offset symtab) (raw + sh_offset strtab)
                   (raw + sh_offset sh) (unat (sh_size sh) div 8) m
         else (True, m))"

function relocate_sections :: "kernel_symbols \<Rightarrow> u32 \<Rightarrow> u32 \<Rightarrow> nat \<Rightarrow> mem \<Rightarrow> bool \<times> mem" where
  "relocate_sections k raw shdr i m =
     (if i < unat (e_shnum (ehdr_at m raw))
      then (let (ok, m') = relocate_section k raw shdr i m
            in if ok then relocate_sections k raw shdr (Suc i) m' else (False, m'))
      else (True, m))"
  by pat_completeness auto
termination
proof (relation "measure (\<lambda>(k, r, s, i, m). 65536 - i)")
  fix k :: kernel_symbols and raw shdr :: u32 and i :: nat and m m' :: mem and x y
  assume "i < unat (e_shnum (ehdr_at m raw))"
  moreover have "unat (e_shnum (ehdr_at m raw)) < 65536" using unat_lt [of "e_shnum (ehdr_at m raw)"] by simp
  ultimately show "((k, raw, shdr, Suc i, m'), k, raw, shdr, i, m) \<in> measure (\<lambda>(k, r, s, i, m). 65536 - i)" by simp
qed simp

declare relocate_sections.simps [simp del]

subsection \<open>The entry\<close>

definition find_init :: "mem \<Rightarrow> u32 \<Rightarrow> u32 \<Rightarrow> nat \<Rightarrow> u32 option" where
  "find_init m raw shdr i =
     (let sh = shdr_at m (section_at shdr i)
      in if sh_type sh = SHT_SYMTAB
         then let strtab = raw + sh_offset (shdr_at m (section_at shdr (unat (sh_link sh))));
                  sym = (\<lambda>j. sym_at m (raw + sh_offset sh + 16 * of_nat j))
              in map_option (\<lambda>j. sh_addr (shdr_at m (section_at shdr (unat (st_shndx (sym j))))) + st_value (sym j))
                   (find (\<lambda>j. mem_is m (strtab + st_name (sym j)) ''module_init'') [0..<unat (sh_size sh) div 16])
         else None)"

text \<open>The first of the sections that has it.\<close>

definition find_entry :: "mem \<Rightarrow> u32 \<Rightarrow> u32 \<Rightarrow> u32 option" where
  "find_entry m raw shdr =
     (case List.map_filter (find_init m raw shdr) [0..<unat (e_shnum (ehdr_at m raw))] of [] \<Rightarrow> None | e # _ \<Rightarrow> Some e)"

datatype lkm_result = Refused | Calls u32

text \<open>\<open>lkm_load_module\<close>: -1, or the call of the entry.\<close>

definition lkm_load_module :: "kernel_symbols \<Rightarrow> u32 \<Rightarrow> mem \<Rightarrow> mm_state \<Rightarrow> (lkm_result \<times> mem \<times> mm_state) option" where
  "lkm_load_module k raw m mm =
     (let h = ehdr_at m raw; shdr = raw + e_shoff h
      in if take 4 (e_ident h) \<noteq> ELFMAG \<or> e_type h \<noteq> ET_REL then Some (Refused, m, mm)
         else do { (ok, m1, mm') \<leftarrow> place_sections raw shdr 0 m mm;
                   if \<not> ok then Some (Refused, m1, mm')
                   else do { let (linked, m2) = relocate_sections k raw shdr 0 m1;
                             Some (if \<not> linked then Refused
                                   else case find_entry m2 raw shdr of None \<Rightarrow> Refused | Some e \<Rightarrow> Calls e, m2, mm') } })"


subsection \<open>Patching\<close>

lemma put32_other: "b \<notin> {a, a + 1, a + 2, a + 3} \<Longrightarrow> put32 a w m b = m b"
  by (simp add: put32_def)

lemma join_bytes: "ucast (ucast (ucast (w :: u32) :: u8) OR push_bit 8 (ucast (ucast (drop_bit 8 w) :: u8)) :: u16)
    OR push_bit 16 (ucast (ucast (ucast (drop_bit 16 w) :: u8) OR push_bit 8 (ucast (ucast (drop_bit 24 w) :: u8)) :: u16)) = w" (is "?l = w")
proof (rule bit_word_eqI)
  fix n
  assume "n < LENGTH(32)"
  then consider "n < 8" | "8 \<le> n" "n < 16" | "16 \<le> n" "n < 24" | "24 \<le> n" "n < 32" by fastforce
  then show "bit ?l n = bit w n"
    by cases (auto simp: bit_simps)
qed

lemma get32_put32 [simp]: "get32 (put32 a w m) a = w"
  by (simp add: get32_def get16_def put32_def add.assoc join_bytes)

text \<open>
  References of a module. When the symbol of a relocation entry is known -- defined in a placed section, or one
  of the three of the kernel -- exactly the four bytes at the place of the reference change: an absolute
  reference gets the address of the symbol added, a relative one the distance from the place, so that a call whose
  word holds -4 reaches the symbol; other types change nothing. When the symbol is not known, nothing
  changes and linking fails.
\<close>
lemma lkm_reference_exact:
  fixes k shdr target symtab strtab rel m
  defines "info \<equiv> r_info (rel_at m rel)"
  defines "target_symbol \<equiv> symbol_address k shdr strtab (sym_at m (symtab + 16 * ELF32_R_SYM info)) m"
  defines "p \<equiv> sh_addr (shdr_at m target) + r_offset (rel_at m rel)"
  shows "case target_symbol of
      None \<Rightarrow> relocate k shdr target symtab strtab rel m = (False, m)
    | Some a \<Rightarrow> \<exists>m'. relocate k shdr target symtab strtab rel m = (True, m') \<and>
        (\<forall>b. b \<notin> {p, p + 1, p + 2, p + 3} \<longrightarrow> m' b = m b) \<and>
        get32 m' p = (if ELF32_R_TYPE info = R_386_32 then get32 m p + a
                      else if ELF32_R_TYPE info = R_386_PC32 then get32 m p + a - p else get32 m p)"
proof (cases target_symbol)
  case None
  then show ?thesis by (simp add: relocate_def target_symbol_def info_def Let_def)
next
  case (Some a)
  have "relocate k shdr target symtab strtab rel m = (True, patch (ELF32_R_TYPE info) p a m)"
    using Some by (simp add: relocate_def target_symbol_def info_def p_def Let_def)
  moreover have "patch (ELF32_R_TYPE info) p a m b = m b" if "b \<notin> {p, p + 1, p + 2, p + 3}" for b
    using that by (simp add: patch_def put32_other)
  ultimately show ?thesis using Some by (auto simp: patch_def R_386_32_def R_386_PC32_def)
qed

subsection \<open>Frames\<close>

lemma place_section_step:
  assumes "mm_ok mm"
  shows "\<exists>ok m' mm'. place_section raw a m mm = Some (ok, m', mm') \<and> mm_step\<^sup>*\<^sup>* mm mm' \<and> mm_ok mm'"
proof -
  obtain f mm' where a: "pmm_alloc_frame mm = Some (f, mm')"
    using pmm_alloc_frame_ok [OF assms] by (auto split: option.splits)
  then have step: "mm_step mm mm'" by (rule step_alloc_frame)
  then have "mm_ok mm'" using mm_step_keeps [OF step assms] by (simp add: mm_keeps_def)
  with a step assms show ?thesis by (auto simp: place_section_def Let_def)
qed

lemma place_sections_step:
  assumes "mm_ok mm"
  shows "\<exists>ok m' mm'. place_sections raw shdr i m mm = Some (ok, m', mm') \<and> mm_step\<^sup>*\<^sup>* mm mm' \<and> mm_ok mm'"
  using assms
proof (induction raw shdr i m mm rule: place_sections.induct)
  case (1 raw shdr i m mm)
  show ?case
  proof (cases "i < unat (e_shnum (ehdr_at m raw))")
    case True
    from place_section_step [OF 1(2)] obtain ok m1 mm1 where p: "place_section raw (section_at shdr i) m mm = Some (ok, m1, mm1)"
        "mm_step\<^sup>*\<^sup>* mm mm1" "mm_ok mm1" by blast
    show ?thesis
    proof (cases ok)
      case True
      from 1(1) [OF \<open>i < _\<close> p(1) refl refl True p(3)] obtain ok' m' mm' where
          "place_sections raw shdr (Suc i) m1 mm1 = Some (ok', m', mm')" "mm_step\<^sup>*\<^sup>* mm1 mm'" "mm_ok mm'" by blast
      with p True \<open>i < _\<close> show ?thesis by (subst place_sections.simps) (auto intro: rtranclp_trans)
    next
      case False
      with p \<open>i < _\<close> show ?thesis by (subst place_sections.simps) auto
    qed
  next
    case False
    with 1(2) show ?thesis by (subst place_sections.simps) auto
  qed
qed

text \<open>
  Loading a module returns for every image, takes frames from the allocator only by its own operations -- so
  none of the kernel's -- and gives none back, whether the module is refused or called.
\<close>

lemma lkm_load_returns:
  assumes "mm_ok mm"
  shows "\<exists>r m' mm'. lkm_load_module k raw m mm = Some (r, m', mm') \<and> mm_step\<^sup>*\<^sup>* mm mm' \<and> mm_ok mm'"
proof -
  obtain ok m1 mm1 where "place_sections raw (raw + e_shoff (ehdr_at m raw)) 0 m mm = Some (ok, m1, mm1)" "mm_step\<^sup>*\<^sup>* mm mm1" "mm_ok mm1"
    using place_sections_step [OF assms] by blast
  then show ?thesis using assms by (auto simp: lkm_load_module_def Let_def split: prod.split)
qed

end
