(* ===== verification/Block.thy ===== *)
theory Block
  imports Page_Source
begin

text \<open>
  Two block devices without hardware: the RAM disk \<open>drivers/block/ramdisk.c\<close>, whose pool is a block of
  \<open>kmalloc\<close>, and the loop devices \<open>drivers/block/loop.c\<close>, a table that binds numbers to descriptors.
  Error codes are those of \<open>include/kernel/errno.h\<close>; messages are left out.
\<close>

definition EIO :: int where "EIO = 5"
definition ENXIO :: int where "ENXIO = 6"
definition EFAULT :: int where "EFAULT = 14"
definition EBUSY :: int where "EBUSY = 16"
definition EINVAL :: int where "EINVAL = 22"

subsection \<open>RAM disk\<close>

definition RAMDISK_SECTOR_SIZE :: nat where "RAMDISK_SECTOR_SIZE = 512"
definition RAMDISK_TOTAL_SECTORS :: nat where "RAMDISK_TOTAL_SECTORS = 8192"

text \<open>The pool; None is NULL.\<close>

record ramdisk =
  rd_mm :: mm_state
  g_ramdisk_memory_pool :: "u8 list option"

definition put_bytes :: "u8 list \<Rightarrow> nat \<Rightarrow> u8 list \<Rightarrow> nat \<Rightarrow> nat \<Rightarrow> u8 list option" where
  "put_bytes dst d src s n =
     (if d + n \<le> length dst \<and> s + n \<le> length src then Some (take d dst @ take n (drop s src) @ drop (d + n) dst) else None)"

text \<open>
  \<open>sector + sector_count\<close> is a 64-bit sum, the offset a 64-bit product that is truncated to an address, the number of
  bytes a 32-bit product.
\<close>

definition ramdisk_rw_sector :: "bool \<Rightarrow> u64 \<Rightarrow> u8 list option \<Rightarrow> u32 \<Rightarrow> ramdisk \<Rightarrow> (int \<times> u8 list option \<times> ramdisk) option" where
  "ramdisk_rw_sector write_op sector buffer sector_count s =
     (if sector + ucast sector_count > of_nat RAMDISK_TOTAL_SECTORS then Some (- EIO, buffer, s)
      else (case (buffer, g_ramdisk_memory_pool s) of
              (Some b, Some pool) \<Rightarrow>
                let byte_offset = unat (sector * of_nat RAMDISK_SECTOR_SIZE);
                    transfer_bytes = unat (sector_count * of_nat RAMDISK_SECTOR_SIZE)
                in if write_op
                   then do { pool' \<leftarrow> put_bytes pool byte_offset b 0 transfer_bytes;
                             Some (0, buffer, s\<lparr>g_ramdisk_memory_pool := Some pool'\<rparr>) }
                   else do { b' \<leftarrow> put_bytes b 0 pool byte_offset transfer_bytes; Some (0, Some b', s) }
            | _ \<Rightarrow> Some (- EFAULT, buffer, s)))"

definition ramdisk_init :: "ramdisk \<Rightarrow> ramdisk option" where
  "ramdisk_init s =
     do { (p, mm) \<leftarrow> kmalloc (of_nat (RAMDISK_TOTAL_SECTORS * RAMDISK_SECTOR_SIZE)) (rd_mm s);
          Some (s\<lparr>rd_mm := mm,
            g_ramdisk_memory_pool := if p = 0 then None else Some (replicate (RAMDISK_TOTAL_SECTORS * RAMDISK_SECTOR_SIZE) 0)\<rparr>) }"

subsection \<open>Loop devices\<close>

definition MAX_LOOP_DEVICES :: nat where "MAX_LOOP_DEVICES = 8"
definition LOOP_SECTOR_SIZE :: u64 where "LOOP_SECTOR_SIZE = 512"

record loop_device =
  loop_number :: int
  associated_fd :: int
  total_sectors :: u64
  is_configured :: bool

definition loop_init :: "loop_device list" where
  "loop_init = map (\<lambda>i. \<lparr>loop_number = int i, associated_fd = -1, total_sectors = 0, is_configured = False\<rparr>) [0..<MAX_LOOP_DEVICES]"

definition loop_set_fd :: "int \<Rightarrow> int \<Rightarrow> u64 \<Rightarrow> loop_device list \<Rightarrow> (int \<times> loop_device list) option" where
  "loop_set_fd loop_id file_fd file_size tab =
     (if loop_id < 0 \<or> loop_id \<ge> int MAX_LOOP_DEVICES then Some (- EINVAL, tab)
      else do { dev \<leftarrow> rd tab (nat loop_id);
                if is_configured dev then Some (- EBUSY, tab)
                else do { tab' \<leftarrow> wr tab (nat loop_id) (dev\<lparr>associated_fd := file_fd, total_sectors := file_size div LOOP_SECTOR_SIZE,
                                                             is_configured := True\<rparr>);
                          Some (0, tab') } })"

text \<open>The transfer itself is commented out: neither the buffer nor the file is touched.\<close>

definition loop_transfer_block :: "int \<Rightarrow> bool \<Rightarrow> u64 \<Rightarrow> u32 \<Rightarrow> loop_device list \<Rightarrow> int option" where
  "loop_transfer_block loop_id write_operation sector_num count tab =
     (if loop_id < 0 \<or> loop_id \<ge> int MAX_LOOP_DEVICES then Some (- EINVAL)
      else do { dev \<leftarrow> rd tab (nat loop_id);
                Some (if \<not> is_configured dev then - ENXIO
                      else if sector_num + ucast count > total_sectors dev then - EIO else 0) })"

subsection \<open>What the RAM disk keeps\<close>

definition pool_ok :: "ramdisk \<Rightarrow> bool" where
  "pool_ok s \<longleftrightarrow> (\<exists>pool. g_ramdisk_memory_pool s = Some pool \<and> length pool = 8192 * 512)"

text \<open>
  Sectors are kept: what is written to a range of sectors inside the disk is read back, and sectors outside of
  the range are as before.
\<close>

lemma put_bytes_get:
  assumes "put_bytes dst d src 0 n = Some dst'"
  shows "length dst' = length dst" and "take n (drop d dst') = take n src"
    and "\<And>e k. e + k \<le> d \<or> d + n \<le> e \<Longrightarrow> take k (drop e dst') = take k (drop e dst)"
proof -
  from assms have b: "d + n \<le> length dst" "n \<le> length src" "dst' = take d dst @ take n src @ drop (d + n) dst"
    by (auto simp: put_bytes_def split: if_splits)
  then show len: "length dst' = length dst" and "take n (drop d dst') = take n src" by simp_all
  show "take k (drop e dst') = take k (drop e dst)" if "e + k \<le> d \<or> d + n \<le> e" for e k
  proof (rule nth_equalityI)
    show "length (take k (drop e dst')) = length (take k (drop e dst))" using len by simp
    fix i assume "i < length (take k (drop e dst'))"
    then have i: "i < k" "e + i < length dst" using len by (simp, simp, linarith)
    have "e + i < d \<or> d + n \<le> e + i" using i(1) that by linarith
    then have "dst' ! (e + i) = dst ! (e + i)"
    proof
      assume "e + i < d"
      then show ?thesis using b by (simp add: nth_append)
    next
      assume "d + n \<le> e + i"
      then have "\<not> e + i - d < n" "\<not> e + i < d" "e + i - d - n = e + i - (d + n)" by linarith+
      then show ?thesis using b \<open>d + n \<le> e + i\<close> by (simp add: nth_append)
    qed
    then show "take k (drop e dst') ! i = take k (drop e dst) ! i" using i len by simp
  qed
qed

lemma ramdisk_write_run:
  assumes "pool_ok s" and "unat sector + unat n \<le> 8192" and "length b = 512 * unat n"
  shows "\<exists>s'. ramdisk_rw_sector True sector (Some b) n s = Some (0, Some b, s') \<and> pool_ok s' \<and>
    (\<forall>first m c. unat first + unat m \<le> 8192 \<longrightarrow> length c = 512 * unat m \<longrightarrow>
      (\<exists>r. ramdisk_rw_sector False first (Some c) m s' = Some (0, Some r, s') \<and>
        (first = sector \<and> m = n \<longrightarrow> r = b) \<and>
        (unat first + unat m \<le> unat sector \<or> unat sector + unat n \<le> unat first \<longrightarrow>
          ramdisk_rw_sector False first (Some c) m s = Some (0, Some r, s))))"
proof -
  obtain pool where pool: "g_ramdisk_memory_pool s = Some pool" "length pool = 8192 * 512" using assms(1) by (auto simp: pool_ok_def)
  have inside: "\<not> (x :: u64) + ucast (k :: u32) > of_nat RAMDISK_TOTAL_SECTORS \<and> unat (x * of_nat RAMDISK_SECTOR_SIZE) = 512 * unat x \<and>
      unat (k * of_nat RAMDISK_SECTOR_SIZE) = 512 * unat k" if "unat x + unat k \<le> 8192" for x k
  proof -
    have "unat k < 2 ^ 64" by (rule order.strict_trans [OF unat_u32_lt]) simp
    then have "unat (ucast k :: u64) = unat k" by (simp add: unsigned_ucast_eq take_bit_nat_eq_self_iff)
    then have "unat (x + ucast k) = unat x + unat k" using that by (subst unat_add_lem [THEN iffD1]) simp_all
    then show ?thesis using that
      by (simp add: word_less_nat_alt unat_word_ariths RAMDISK_TOTAL_SECTORS_def RAMDISK_SECTOR_SIZE_def)
  qed
  obtain pool' where p: "put_bytes pool (512 * unat sector) b 0 (512 * unat n) = Some pool'"
    using assms(2,3) pool(2) by (simp add: put_bytes_def)
  note g = put_bytes_get [OF p]
  define s' where "s' = s\<lparr>g_ramdisk_memory_pool := Some pool'\<rparr>"
  have "ramdisk_rw_sector True sector (Some b) n s = Some (0, Some b, s')"
    using inside [OF assms(2)] p pool(1) by (simp add: ramdisk_rw_sector_def s'_def)
  moreover have "pool_ok s'" using g(1) pool(2) by (simp add: pool_ok_def s'_def)
  moreover have "ramdisk_rw_sector False first (Some c) m t = Some (0, Some (take (512 * unat m) (drop (512 * unat first) q)), t)"
    if "unat first + unat m \<le> 8192" "length c = 512 * unat m" "g_ramdisk_memory_pool t = Some q" "length q = 8192 * 512" for first m c t q
    using inside [OF that(1)] that by (simp add: ramdisk_rw_sector_def put_bytes_def)
  moreover have "g_ramdisk_memory_pool s' = Some pool'" "length pool' = 8192 * 512" using g(1) pool(2) by (simp_all add: s'_def)
  moreover have "take (512 * unat n) (drop (512 * unat sector) pool') = b" using g(2) assms(3) by simp
  moreover have "take (512 * unat m) (drop (512 * unat first) pool') = take (512 * unat m) (drop (512 * unat first) pool)"
    if "unat first + unat m \<le> unat sector \<or> unat sector + unat n \<le> unat first" for first :: u64 and m :: u32
    using that by (intro g(3)) auto
  ultimately show ?thesis using pool by (intro exI [of _ s']) auto
qed

text \<open>The bound is checked on a sum that wraps around: a sector next to 2 ^ 64 passes and is outside of the pool.\<close>

lemma ramdisk_wraps:
  assumes "pool_ok s" and "length b = 512"
  shows "ramdisk_rw_sector True (- 1) (Some b) 1 s = None"
proof -
  have "unat ((- 1 :: u64) * of_nat RAMDISK_SECTOR_SIZE) = 2 ^ 64 - 512"
    by (simp add: RAMDISK_SECTOR_SIZE_def)
  then show ?thesis using assms by (auto simp: pool_ok_def ramdisk_rw_sector_def put_bytes_def)
qed

subsection \<open>What a loop device is bound to\<close>

text \<open>A device is bound once: the first call succeeds, and from then on it is busy for every other.\<close>

lemma loop_bound_once:
  assumes "length tab = 8" and "0 \<le> i" and "i < 8" and "\<not> is_configured (tab ! nat i)"
  shows "\<exists>tab'. loop_set_fd i fd len tab = Some (0, tab') \<and> length tab' = 8 \<and>
    (\<forall>fd' len'. loop_set_fd i fd' len' tab' = Some (- EBUSY, tab')) \<and>
    (\<forall>w first n. loop_transfer_block i w first n tab' = Some (if first + ucast n > len div 512 then - EIO else 0)) \<and>
    (\<forall>j. 0 \<le> j \<and> j < 8 \<and> j \<noteq> i \<longrightarrow> tab' ! nat j = tab ! nat j)"
proof -
  have i: "nat i < length tab" using assms by simp
  show ?thesis using assms i
    by (auto simp: loop_set_fd_def loop_transfer_block_def rd_Some wr_Some MAX_LOOP_DEVICES_def LOOP_SECTOR_SIZE_def nth_list_update)
qed

end
