(* ===== verification/Ansi.thy ===== *)
theory Ansi
  imports Vt100_Spec
begin

text \<open>
  The plain text console: video memory of the VGA in \<open>arch/x86/keyboard_io.c\<close>, and the terminal on top of it in
  \<open>drivers/video/ansi_tty.c\<close>, which has the escape sequences of theory \<open>Vt100\<close> once more, with other colours and
  without the check behind each character. A console is a record \<open>vt\<close> again: cursor, cells and cursor ports are those
  of the screen, the state, parameters and colour those of \<open>ansi_tty.c\<close>.
\<close>

subsection \<open>Video memory\<close>

definition WHITE_ON_BLACK :: u8 where "WHITE_ON_BLACK = 0x07"

definition scroll_screen :: "vt \<Rightarrow> vt option" where
  "scroll_screen v = do { m \<leftarrow> scroll_text WHITE_ON_BLACK (vt_text v); Some (v\<lparr>vt_text := m, vt_y := MAX_ROWS - 1\<rparr>) }"

definition update_cursor :: "vt \<Rightarrow> vt option" where
  "update_cursor v =
     do { q \<leftarrow> int32 (vt_y v * MAX_COLS);
          p \<leftarrow> int32 (q + vt_x v);
          let pos = (word_of_int p :: u16);
          Some (v\<lparr>vt_ports := vt_ports v @ [(0x3D4, 0x0F), (0x3D5, ucast (pos AND 0xFF)),
                                          (0x3D4, 0x0E), (0x3D5, ucast (drop_bit 8 pos AND 0xFF))]\<rparr>) }"

text \<open>\<open>inb\<close> is what a port returns and does to the keyboard controller.\<close>

definition arch_get_scancode :: "(u16 \<Rightarrow> 'd \<Rightarrow> u8 \<times> 'd) \<Rightarrow> 'd \<Rightarrow> u8 \<times> 'd" where
  "arch_get_scancode inb d = (let (st, d1) = inb 0x64 d in if st AND 1 \<noteq> 0 then inb 0x60 d1 else (0, d1))"

definition screen_at :: "vt \<Rightarrow> int option" where
  "screen_at v = do { q \<leftarrow> int32 (vt_y v * MAX_COLS); int32 (q + vt_x v) }"

definition arch_put_char :: "char \<Rightarrow> u32 \<Rightarrow> vt \<Rightarrow> vt option" where
  "arch_put_char c color v =
     do { let attribute = (ucast color :: u8);
          v1 \<leftarrow> (if c = LF then do { y \<leftarrow> int32 (vt_y v + 1); Some (v\<lparr>vt_x := 0, vt_y := y\<rparr>) }
                 else if c = BS
                 then do { let w = (if vt_x v > 0 then v\<lparr>vt_x := vt_x v - 1\<rparr>
                                    else if vt_y v > 0 then v\<lparr>vt_y := vt_y v - 1, vt_x := MAX_COLS - 1\<rparr> else v);
                           i \<leftarrow> screen_at w;
                           m \<leftarrow> set_cell i (cell (CHR '' '') attribute) (vt_text w);
                           Some (w\<lparr>vt_text := m\<rparr>) }
                 else do { i \<leftarrow> screen_at v;
                           m \<leftarrow> set_cell i (cell c attribute) (vt_text v);
                           x \<leftarrow> int32 (vt_x v + 1);
                           Some (v\<lparr>vt_text := m, vt_x := x\<rparr>) });
          v2 \<leftarrow> (if vt_x v1 \<ge> MAX_COLS then do { y \<leftarrow> int32 (vt_y v1 + 1); Some (v1\<lparr>vt_x := 0, vt_y := y\<rparr>) } else Some v1);
          v3 \<leftarrow> (if vt_y v2 \<ge> MAX_ROWS then scroll_screen v2 else Some v2);
          update_cursor v3 }"

subsection \<open>The terminal\<close>

definition WHITE :: u8 where "WHITE = 0x07"

definition ansi_colors :: "u8 list" where "ansi_colors = [0, 4, 2, 0x0E, 0x09, 5, 3, 0x08]"

definition ansi_tty_set_color :: "u8 \<Rightarrow> vt \<Rightarrow> vt" where
  "ansi_tty_set_color color v = v\<lparr>vt_color := color\<rparr>"

definition ansi_tty_init :: "vt \<Rightarrow> vt" where
  "ansi_tty_init v = v\<lparr>vt_state := STATE_NORMAL, vt_ptr := 0, vt_color := WHITE\<rparr>"

definition ansi_sgr :: "int \<Rightarrow> vt \<Rightarrow> vt" where
  "ansi_sgr p v =
     (if p = 0 then v\<lparr>vt_color := WHITE\<rparr>
      else if p = 1 then v\<lparr>vt_color := vt_color v OR 0x08\<rparr>
      else if 30 \<le> p \<and> p \<le> 37 then v\<lparr>vt_color := (vt_color v AND 0x08) OR ansi_colors ! nat (p - 30)\<rparr>
      else if 90 \<le> p \<and> p \<le> 97 then v\<lparr>vt_color := ansi_colors ! nat (p - 90) OR 0x08\<rparr>
      else v)"

definition handle_csi :: "char \<Rightarrow> vt \<Rightarrow> vt option" where
  "handle_csi command v =
     do { b \<leftarrow> wr (vt_param v) (vt_ptr v) NUL;
          (ps, k) \<leftarrow> csi_parse b [0, 0, 0, 0] 0;
          let v = v\<lparr>vt_param := b\<rparr>;
          let n = (if ps ! 0 \<noteq> 0 then ps ! 0 else 1);
          v' \<leftarrow> (if command = CHR ''m'' then for_up 0 (k + 1) (\<lambda>i v. do { p \<leftarrow> rd ps i; Some (ansi_sgr p v) }) v
                 else if command = CHR ''A'' then Some (v\<lparr>vt_y := if vt_y v > n then vt_y v - n else 0\<rparr>)
                 else if command = CHR ''B''
                 then do { y \<leftarrow> int32 (vt_y v + n); Some (v\<lparr>vt_y := if y < MAX_ROWS then y else MAX_ROWS - 1\<rparr>) }
                 else if command = CHR ''C''
                 then do { x \<leftarrow> int32 (vt_x v + n); Some (v\<lparr>vt_x := if x < MAX_COLS then x else MAX_COLS - 1\<rparr>) }
                 else if command = CHR ''D'' then Some (v\<lparr>vt_x := if vt_x v > n then vt_x v - n else 0\<rparr>)
                 else if command = CHR ''J'' then (if ps ! 0 = 2 then clear_screen v else Some v)
                 else if command = CHR ''H'' \<or> command = CHR ''f''
                 then Some (if k \<ge> 1
                            then v\<lparr>vt_y := if ps ! 0 > 0 then ps ! 0 - 1 else 0, vt_x := if ps ! 1 > 0 then ps ! 1 - 1 else 0\<rparr>
                            else v\<lparr>vt_x := 0, vt_y := 0\<rparr>)
                 else Some v);
          update_cursor v' }"

definition ansi_tty_putc :: "char \<Rightarrow> vt \<Rightarrow> vt option" where
  "ansi_tty_putc c v =
     (case vt_state v of
        STATE_NORMAL \<Rightarrow> if c = ESC then Some (v\<lparr>vt_state := STATE_ESC\<rparr>) else arch_put_char c (ucast (vt_color v)) v
      | STATE_ESC \<Rightarrow> Some (if c = CHR ''['' then v\<lparr>vt_state := STATE_CSI, vt_ptr := 0\<rparr> else v\<lparr>vt_state := STATE_NORMAL\<rparr>)
      | STATE_CSI \<Rightarrow>
          if is_digit c \<or> c = CHR '';''
          then (if vt_ptr v < 31
                then do { b \<leftarrow> wr (vt_param v) (vt_ptr v) c; Some (v\<lparr>vt_param := b, vt_ptr := vt_ptr v + 1\<rparr>) }
                else Some v)
          else do { v' \<leftarrow> handle_csi c v; Some (v'\<lparr>vt_state := STATE_NORMAL\<rparr>) })"

fun ansi_tty_puts :: "char list \<Rightarrow> vt \<Rightarrow> vt option" where
  "ansi_tty_puts [] v = None"
| "ansi_tty_puts (c # s) v = (if c = NUL then Some v else Option.bind (ansi_tty_putc c v) (ansi_tty_puts s))"

subsection \<open>Texts that stay on the screen\<close>

text \<open>Sequences that do not place the cursor; the other limits are those of \<open>polite\<close>.\<close>

fun unplaced :: "ansi_state \<Rightarrow> char list \<Rightarrow> bool" where
  "unplaced st [] = True"
| "unplaced STATE_NORMAL (c # s) = unplaced (if c = ESC then STATE_ESC else STATE_NORMAL) s"
| "unplaced STATE_ESC (c # s) = unplaced (if c = CHR ''['' then STATE_CSI else STATE_NORMAL) s"
| "unplaced STATE_CSI (c # s) =
     (if is_digit c \<or> c = CHR '';'' then unplaced STATE_CSI s else c \<notin> {CHR ''H'', CHR ''f''} \<and> unplaced STATE_NORMAL s)"

lemma update_cursor_ok:
  assumes "vt_ok v" and "\<not> vt_gui v"
  shows "\<exists>p. update_cursor v = Some (v\<lparr>vt_ports := p\<rparr>)"
proof -
  have "0 \<le> vt_x v" "vt_x v < 80" "0 \<le> vt_y v" "vt_y v < 25"
    using assms by (auto simp: vt_ok_def vt_cursor_def vt_limits)
  then have "int32 (vt_y v * 80) = Some (vt_y v * 80)" "int32 (vt_y v * 80 + vt_x v) = Some (vt_y v * 80 + vt_x v)"
    by (simp_all add: int32_def)
  then show ?thesis by (auto simp: update_cursor_def MAX_COLS_def Let_def)
qed

lemma scroll_screen_ok:
  assumes "vt_mem v" and "\<not> vt_gui v" and "0 \<le> vt_x v" and "vt_x v < 80"
  shows "\<exists>v'. scroll_screen v = Some v' \<and> vt_ok v' \<and> \<not> vt_gui v' \<and> vt_state v' = vt_state v"
proof -
  have "length (vt_text v) = 2000" using assms(1) by (simp add: vt_mem_def)
  then show ?thesis using assms
    by (simp add: scroll_screen_def scroll_text_run vt_ok_def vt_mem_def vt_cursor_def vt_limits)
qed

lemma arch_put_char_ok:
  assumes ok: "vt_ok v" and g: "\<not> vt_gui v"
  shows "\<exists>v'. arch_put_char c color v = Some v' \<and> vt_ok v' \<and> \<not> vt_gui v' \<and> vt_state v' = vt_state v"
proof -
  have cur: "0 \<le> vt_x v" "vt_x v < 80" "0 \<le> vt_y v" "vt_y v < 25"
    using ok g by (auto simp: vt_ok_def vt_cursor_def vt_limits)
  have mem: "vt_mem v" using ok by (simp add: vt_ok_def)
  have put: "\<exists>m. screen_at w = Some (vt_y w * 80 + vt_x w) \<and> set_cell (vt_y w * 80 + vt_x w) b (vt_text w) = Some m \<and> length m = 2000"
    if "vt_mem w" "0 \<le> vt_x w" "vt_x w < 80" "0 \<le> vt_y w" "vt_y w < 25" for w b
    using that by (auto simp: screen_at_def int32_def MAX_COLS_def set_cell_def vt_mem_def wr_def)
  define v1 where "v1 = (if c = LF then Some (v\<lparr>vt_x := 0, vt_y := vt_y v + 1\<rparr>)
                 else if c = BS
                 then do { let w = (if vt_x v > 0 then v\<lparr>vt_x := vt_x v - 1\<rparr>
                                    else if vt_y v > 0 then v\<lparr>vt_y := vt_y v - 1, vt_x := MAX_COLS - 1\<rparr> else v);
                           i \<leftarrow> screen_at w;
                           m \<leftarrow> set_cell i (cell (CHR '' '') (ucast color)) (vt_text w);
                           Some (w\<lparr>vt_text := m\<rparr>) }
                 else do { i \<leftarrow> screen_at v;
                           m \<leftarrow> set_cell i (cell c (ucast color)) (vt_text v);
                           x \<leftarrow> int32 (vt_x v + 1);
                           Some (v\<lparr>vt_text := m, vt_x := x\<rparr>) })"
  have "\<exists>u. v1 = Some u \<and> vt_mem u \<and> \<not> vt_gui u \<and> vt_state u = vt_state v \<and> 0 \<le> vt_x u \<and> vt_x u \<le> 80 \<and> 0 \<le> vt_y u \<and> vt_y u \<le> 25 \<and>
      (vt_x u = 80 \<longrightarrow> vt_y u < 25)"
  proof (cases "c = LF")
    case True
    then show ?thesis using mem g cur by (simp add: v1_def vt_mem_def)
  next
    case lf: False
    show ?thesis
    proof (cases "c = BS")
      case True
      define w where "w = (if vt_x v > 0 then v\<lparr>vt_x := vt_x v - 1\<rparr>
                           else if vt_y v > 0 then v\<lparr>vt_y := vt_y v - 1, vt_x := MAX_COLS - 1\<rparr> else v)"
      have w: "vt_mem w" "0 \<le> vt_x w" "vt_x w < 80" "0 \<le> vt_y w" "vt_y w < 25" "\<not> vt_gui w" "vt_state w = vt_state v"
        using mem g cur by (auto simp: w_def vt_mem_def MAX_COLS_def)
      obtain m where "screen_at w = Some (vt_y w * 80 + vt_x w)"
          "set_cell (vt_y w * 80 + vt_x w) (cell (CHR '' '') (ucast color)) (vt_text w) = Some m" "length m = 2000"
        using put [OF w(1-5)] by blast
      then have "v1 = Some (w\<lparr>vt_text := m\<rparr>)" "vt_mem (w\<lparr>vt_text := m\<rparr>)"
        using True lf w(1) by (simp_all add: v1_def w_def [symmetric] vt_mem_def)
      then show ?thesis using w by simp
    next
      case False
      obtain m where "screen_at v = Some (vt_y v * 80 + vt_x v)"
          "set_cell (vt_y v * 80 + vt_x v) (cell c (ucast color)) (vt_text v) = Some m" "length m = 2000"
        using put [OF mem cur] by blast
      moreover have "int32 (vt_x v + 1) = Some (vt_x v + 1)" using cur by (simp add: int32_def)
      ultimately have "v1 = Some (v\<lparr>vt_text := m, vt_x := vt_x v + 1\<rparr>)" "vt_mem (v\<lparr>vt_text := m, vt_x := vt_x v + 1\<rparr>)"
        using False lf mem by (simp_all add: v1_def vt_mem_def)
      then show ?thesis using cur g by simp
    qed
  qed
  then obtain u where u: "v1 = Some u" "vt_mem u" "\<not> vt_gui u" "vt_state u = vt_state v" "0 \<le> vt_x u" "vt_x u \<le> 80" "0 \<le> vt_y u"
      "vt_y u \<le> 25" "vt_x u = 80 \<longrightarrow> vt_y u < 25" by blast
  define u2 where "u2 = (if vt_x u \<ge> 80 then u\<lparr>vt_x := 0, vt_y := vt_y u + 1\<rparr> else u)"
  have u2: "vt_mem u2" "\<not> vt_gui u2" "vt_state u2 = vt_state v" "0 \<le> vt_x u2" "vt_x u2 < 80" "0 \<le> vt_y u2" "vt_y u2 \<le> 25"
    using u by (auto simp: u2_def vt_mem_def)
  have wrap: "(if vt_x u \<ge> MAX_COLS then do { y \<leftarrow> int32 (vt_y u + 1); Some (u\<lparr>vt_x := 0, vt_y := y\<rparr>) } else Some u) = Some u2"
    using u by (simp add: u2_def MAX_COLS_def int32_def)
  obtain u3 where u3: "(if vt_y u2 \<ge> MAX_ROWS then scroll_screen u2 else Some u2) = Some u3" "vt_ok u3" "\<not> vt_gui u3" "vt_state u3 = vt_state v"
  proof (cases "vt_y u2 \<ge> MAX_ROWS")
    case True
    with scroll_screen_ok [OF u2(1,2,4,5)] u2(3) that show ?thesis by auto
  next
    case False
    then have "vt_ok u2" using u2 by (simp add: vt_ok_def vt_cursor_def vt_cols_def vt_rows_def TEXT_MAX_COLS_def TEXT_MAX_ROWS_def MAX_ROWS_def)
    with False u2(2,3) that show ?thesis by simp
  qed
  obtain p where p: "update_cursor u3 = Some (u3\<lparr>vt_ports := p\<rparr>)" using update_cursor_ok [OF u3(2,3)] by blast
  have "int32 (vt_y v + 1) = Some (vt_y v + 1)" using cur by (simp add: int32_def)
  then have "arch_put_char c color v = do { v1 \<leftarrow> v1;
      v2 \<leftarrow> (if vt_x v1 \<ge> MAX_COLS then do { y \<leftarrow> int32 (vt_y v1 + 1); Some (v1\<lparr>vt_x := 0, vt_y := y\<rparr>) } else Some v1);
      v3 \<leftarrow> (if vt_y v2 \<ge> MAX_ROWS then scroll_screen v2 else Some v2);
      update_cursor v3 }" by (simp add: arch_put_char_def v1_def)
  then show ?thesis using u(1) wrap u3 p by simp
qed

lemma clear_screen_ok:
  assumes "vt_mem v" and "\<not> vt_gui v"
  shows "\<exists>v'. clear_screen v = Some v' \<and> vt_ok v' \<and> \<not> vt_gui v' \<and> vt_state v' = vt_state v"
proof -
  have "length (vt_text v) = 2000" using assms(1) by (simp add: vt_mem_def)
  then have m: "for_up 0 2000 (\<lambda>i m. wr m i w) (vt_text v) = Some (replicate 2000 w)" for w
    using fill_list_run [of 0 2000 "vt_text v" w] by simp
  obtain p where p: "set_cursor 0 0 (v\<lparr>vt_text := replicate 2000 (cell (CHR '' '') 0x07), vt_x := 0, vt_y := 0\<rparr>) =
      v\<lparr>vt_text := replicate 2000 (cell (CHR '' '') 0x07), vt_x := 0, vt_y := 0, vt_ports := p\<rparr>"
    using set_cursor_eq by blast
  have "clear_screen v = Some (v\<lparr>vt_text := replicate 2000 (cell (CHR '' '') 0x07), vt_x := 0, vt_y := 0, vt_ports := p\<rparr>)"
    using assms(2) m p by (simp add: clear_screen_def MAX_ROWS_def MAX_COLS_def Let_def)
  then show ?thesis using assms by (simp add: vt_ok_def vt_mem_def vt_cursor_def vt_limits)
qed

lemma ansi_sgr_keeps: "vt_ok (ansi_sgr p v) = vt_ok v" "vt_gui (ansi_sgr p v) = vt_gui v" "vt_state (ansi_sgr p v) = vt_state v"
  by (simp_all add: ansi_sgr_def vt_ok_def vt_mem_def vt_cursor_def vt_cols_def vt_rows_def)

lemma handle_csi_ok:
  assumes ok: "vt_ok v" and g: "\<not> vt_gui v" and c: "collected v d k" "k \<le> 3" and cmd: "command \<notin> {CHR ''H'', CHR ''f''}"
  shows "\<exists>v'. handle_csi command v = Some v' \<and> vt_ok v' \<and> \<not> vt_gui v' \<and> vt_state v' = vt_state v"
proof -
  have mem: "vt_mem v" and cur: "0 \<le> vt_x v" "vt_x v < 80" "0 \<le> vt_y v" "vt_y v < 25"
    using ok g by (auto simp: vt_ok_def vt_cursor_def vt_limits)
  let ?b = "(vt_param v)[vt_ptr v := NUL]"
  define u where "u = v\<lparr>vt_param := ?b\<rparr>"
  have b: "wr (vt_param v) (vt_ptr v) NUL = Some ?b" using mem by (simp add: vt_mem_def)
  have u: "vt_mem u" "vt_ok u" "\<not> vt_gui u" "vt_state u = vt_state v" "vt_x u = vt_x v" "vt_y u = vt_y v"
    using ok g by (simp_all add: u_def vt_ok_def vt_mem_def vt_cursor_def vt_cols_def vt_rows_def)
  obtain ps j where ps: "j \<le> k" "length ps = 4" "\<forall>p \<in> set ps. 0 \<le> p \<and> p < 10 ^ 9"
      "\<And>rest. csi_parse (take (vt_ptr v) (vt_param v) @ rest) [0, 0, 0, 0] 0 = csi_parse rest ps j"
    using c unfolding collected_def by blast
  have "?b = take (vt_ptr v) (vt_param v) @ NUL # drop (Suc (vt_ptr v)) (vt_param v)"
    using mem by (simp add: vt_mem_def upd_conv_take_nth_drop)
  then have parse: "csi_parse ?b [0, 0, 0, 0] 0 = Some (ps, j)" using ps(4) by simp
  define n where "n = (if ps ! 0 \<noteq> 0 then ps ! 0 else 1)"
  have n: "0 \<le> n" "n < 10 ^ 9" using ps(2,3) by (auto simp: n_def)
  have put: "vt_ok (u\<lparr>vt_x := x\<rparr>)" if "0 \<le> x" "x < 80" for x
    using that u by (simp add: vt_ok_def vt_mem_def vt_cursor_def vt_cols_def vt_rows_def TEXT_MAX_COLS_def)
  have puty: "vt_ok (u\<lparr>vt_y := y\<rparr>)" if "0 \<le> y" "y < 25" for y
    using that u by (simp add: vt_ok_def vt_mem_def vt_cursor_def vt_cols_def vt_rows_def TEXT_MAX_ROWS_def)
  have sgr: "\<exists>w. for_up 0 (j + 1) (\<lambda>i v. do { p \<leftarrow> rd ps i; Some (ansi_sgr p v) }) u = Some w \<and> (vt_ok w \<and> \<not> vt_gui w \<and> vt_state w = vt_state v)"
    by (rule for_up_rule [where I = "\<lambda>i w. vt_ok w \<and> \<not> vt_gui w \<and> vt_state w = vt_state v"])
      (use u ps(1,2) c(2) in \<open>auto simp: ansi_sgr_keeps\<close>)
  define r where "r =
     (if command = CHR ''m'' then for_up 0 (j + 1) (\<lambda>i v. do { p \<leftarrow> rd ps i; Some (ansi_sgr p v) }) u
      else if command = CHR ''A'' then Some (u\<lparr>vt_y := if vt_y v > n then vt_y v - n else 0\<rparr>)
      else if command = CHR ''B'' then Some (u\<lparr>vt_y := if vt_y v + n < 25 then vt_y v + n else 24\<rparr>)
      else if command = CHR ''C'' then Some (u\<lparr>vt_x := if vt_x v + n < 80 then vt_x v + n else 79\<rparr>)
      else if command = CHR ''D'' then Some (u\<lparr>vt_x := if vt_x v > n then vt_x v - n else 0\<rparr>)
      else if command = CHR ''J'' then (if ps ! 0 = 2 then clear_screen u else Some u)
      else Some u)"
  have "handle_csi command v = Option.bind r update_cursor"
    using cmd cur n u(5,6) by (simp add: handle_csi_def b parse Let_def n_def [symmetric] u_def [symmetric] r_def MAX_ROWS_def MAX_COLS_def int32_def)
  moreover have "\<exists>w. r = Some w \<and> vt_ok w \<and> \<not> vt_gui w \<and> vt_state w = vt_state v"
    using sgr clear_screen_ok [OF u(1,3)] put puty u cur n by (simp add: r_def)
  moreover have "\<exists>v'. update_cursor w = Some v' \<and> vt_ok v' \<and> \<not> vt_gui v' \<and> vt_state v' = vt_state w" if "vt_ok w" "\<not> vt_gui w" for w
    using update_cursor_ok [OF that] that by auto
  ultimately show ?thesis by fastforce
qed

lemma ansi_tty_putc_ok:
  assumes ok: "vt_ok v" and g: "\<not> vt_gui v" and t: "tracked v d k" and p: "polite False (vt_state v) d k (c # s)"
    and h: "unplaced (vt_state v) (c # s)"
  shows "\<exists>v' d' k'. ansi_tty_putc c v = Some v' \<and> vt_ok v' \<and> \<not> vt_gui v' \<and> tracked v' d' k' \<and>
    polite False (vt_state v') d' k' s \<and> unplaced (vt_state v') s"
proof (cases "vt_state v")
  case STATE_NORMAL
  show ?thesis
  proof (cases "c = ESC")
    case True
    define v' where "v' = v\<lparr>vt_state := STATE_ESC\<rparr>"
    have "ansi_tty_putc c v = Some v'" "vt_ok v'" "\<not> vt_gui v'" "vt_state v' = STATE_ESC" "tracked v' 0 0"
      using True STATE_NORMAL ok g by (simp_all add: ansi_tty_putc_def v'_def tracked_other vt_ok_def vt_mem_def vt_cursor_def vt_cols_def vt_rows_def)
    with p h STATE_NORMAL True show ?thesis by auto
  next
    case False
    from arch_put_char_ok [OF ok g] obtain v' where v': "arch_put_char c (ucast (vt_color v)) v = Some v'" "vt_ok v'" "\<not> vt_gui v'"
        "vt_state v' = STATE_NORMAL" using STATE_NORMAL by metis
    then have "ansi_tty_putc c v = Some v'" "tracked v' 0 0" using False STATE_NORMAL by (simp_all add: ansi_tty_putc_def tracked_other)
    with v' p h STATE_NORMAL False show ?thesis by auto
  qed
next
  case STATE_ESC
  define v' where "v' = (if c = CHR ''['' then v\<lparr>vt_state := STATE_CSI, vt_ptr := 0\<rparr> else v\<lparr>vt_state := STATE_NORMAL\<rparr>)"
  have "ansi_tty_putc c v = Some v'" "vt_ok v'" "\<not> vt_gui v'" "vt_state v' = (if c = CHR ''['' then STATE_CSI else STATE_NORMAL)"
      "tracked v' 0 0"
    using STATE_ESC ok g
    by (simp_all add: ansi_tty_putc_def v'_def tracked_def collected_start vt_ok_def vt_mem_def vt_cursor_def vt_cols_def vt_rows_def)
  with p h STATE_ESC show ?thesis by (intro exI [of _ v'] exI [of _ 0]) auto
next
  case STATE_CSI
  with t have coll: "collected v d k" "k \<le> 3" by (simp_all add: tracked_def)
  have mem: "vt_mem v" using ok by (simp add: vt_ok_def)
  show ?thesis
  proof (cases "is_digit c \<or> c = CHR '';''")
    case True
    define d' where "d' = (if is_digit c then d + 1 else 0)"
    define k' where "k' = (if is_digit c then k else k + 1)"
    have s: "polite False STATE_CSI d' k' s" "k' \<le> 3" "unplaced STATE_CSI s"
      and st: "is_digit c \<and> d < 9 \<and> d' = d + 1 \<and> k' = k \<or> c = CHR '';'' \<and> k < 3 \<and> d' = 0 \<and> k' = k + 1"
      using p h True STATE_CSI coll(2) by (auto simp: d'_def k'_def split: if_splits)
    define v' where "v' = (if vt_ptr v < 31 then v\<lparr>vt_param := (vt_param v)[vt_ptr v := c], vt_ptr := vt_ptr v + 1\<rparr> else v)"
    have "collected v' d' k'"
    proof (cases "vt_ptr v < 31")
      case True
      then show ?thesis using collected_char [OF coll mem True st] by (simp add: v'_def)
    next
      case False
      then have "vt_ptr v = 31" using mem by (simp add: vt_mem_def)
      moreover have "k \<le> k'" by (simp add: k'_def)
      ultimately show ?thesis using collected_full [OF coll(1)] by (simp add: v'_def)
    qed
    then have "tracked v' d' k'" using s(2) by (simp add: tracked_def)
    moreover have "ansi_tty_putc c v = Some v'" "vt_ok v'" "\<not> vt_gui v'" "vt_state v' = STATE_CSI"
      using True STATE_CSI ok g mem
      by (auto simp: ansi_tty_putc_def v'_def vt_ok_def vt_mem_def vt_cursor_def vt_cols_def vt_rows_def)
    ultimately show ?thesis using s by auto
  next
    case False
    then have s: "polite False STATE_NORMAL 0 0 s" "unplaced STATE_NORMAL s" "c \<notin> {CHR ''H'', CHR ''f''}"
      using p h STATE_CSI by simp_all
    from handle_csi_ok [OF ok g coll s(3)] obtain u where u: "handle_csi c v = Some u" "vt_ok u" "\<not> vt_gui u" by blast
    define v' where "v' = u\<lparr>vt_state := STATE_NORMAL\<rparr>"
    have "ansi_tty_putc c v = Some v'" "vt_ok v'" "\<not> vt_gui v'" "vt_state v' = STATE_NORMAL" "tracked v' 0 0"
      using u False STATE_CSI by (simp_all add: ansi_tty_putc_def v'_def tracked_other vt_ok_def vt_mem_def vt_cursor_def vt_cols_def vt_rows_def)
    with s show ?thesis by auto
  qed
qed

text \<open>
  A text whose sequences have at most three semicolons, numbers of at most nine digits and do not place the cursor
  is printed without leaving video memory, and the cursor stays on the screen.
\<close>

lemma ansi_tty_puts_stays:
  assumes "vt_ok v" and "\<not> vt_gui v" and "tracked v d k" and "polite False (vt_state v) d k s" and "unplaced (vt_state v) s"
    and "NUL \<notin> set s"
  shows "\<exists>v'. ansi_tty_puts (s @ NUL # r) v = Some v' \<and> vt_ok v'"
  using assms
proof (induction s arbitrary: v d k)
  case (Cons c s)
  obtain v1 d' k' where v1: "ansi_tty_putc c v = Some v1" "vt_ok v1" "\<not> vt_gui v1" "tracked v1 d' k'"
      "polite False (vt_state v1) d' k' s" "unplaced (vt_state v1) s"
    using ansi_tty_putc_ok [OF Cons.prems(1-5)] by blast
  from Cons.IH [OF v1(2-6)] v1(1) Cons.prems(6) show ?case by auto
qed simp

text \<open>A position is taken as it is: a character behind a line number of 27 is written behind video memory.\<close>

lemma arch_put_char_outside:
  assumes "length (vt_text v) = 2000" and "vt_x v = 0" and "vt_y v = 26"
  shows "arch_put_char (CHR ''a'') color v = None"
  using assms by (simp add: arch_put_char_def LF_def BS_def screen_at_def int32_def MAX_COLS_def set_cell_def wr_def)

lemma ansi_position_outside:
  assumes "vt_ok v" and "\<not> vt_gui v" and "vt_ptr v = 4" and "take 4 (vt_param v) = ''27;1''"
  shows "\<exists>v'. handle_csi (CHR ''H'') v = Some v' \<and> arch_put_char (CHR ''a'') color v' = None"
proof -
  have len: "length (vt_param v) = 32" "length (vt_text v) = 2000" using assms(1) by (simp_all add: vt_ok_def vt_mem_def)
  define b where "b = ''27;1'' @ NUL # drop 5 (vt_param v)"
  have w: "wr (vt_param v) 4 NUL = Some b"
    using len assms(4) by (simp add: wr_Some upd_conv_take_nth_drop b_def)
  have dig: "is_digit (CHR ''2'')" "is_digit (CHR ''7'')" "is_digit (CHR ''1'')" "\<not> is_digit (CHR '';'')" by code_simp+
  have parse: "csi_parse b [0, 0, 0, 0] 0 = Some ([27, 1, 0, 0], 1)"
    by (simp add: b_def dig int32_def)
  let ?u = "v\<lparr>vt_param := b, vt_y := 26, vt_x := 0\<rparr>"
  have "handle_csi (CHR ''H'') v = update_cursor ?u" using assms(3) w parse by (simp add: handle_csi_def Let_def)
  moreover obtain p where "update_cursor ?u = Some (?u\<lparr>vt_ports := p\<rparr>)"
    by (simp add: update_cursor_def MAX_COLS_def int32_def Let_def)
  moreover have "arch_put_char (CHR ''a'') color (?u\<lparr>vt_ports := p\<rparr>) = None"
    using len by (intro arch_put_char_outside) simp_all
  ultimately show ?thesis by auto
qed

end
