(* ===== verification/Net.thy ===== *)
theory Net
  imports Prelude
begin

text \<open>
  The checksum of the Internet protocols and the echo requests of the kernel, \<open>net/stack.c\<close> and the packet of
  \<open>kernel/ping.c\<close>. Packets are lists of bytes; the network card that sends them is left out.
\<close>

subsection \<open>Checksum\<close>

text \<open>The sum over the words, the low byte first; \<open>len\<close> is signed.\<close>

fun checksum_sum :: "u8 list \<Rightarrow> int \<Rightarrow> u32 \<Rightarrow> u32 option" where
  "checksum_sum (lo # hi # rest) len acc =
     (if len > 1 then checksum_sum rest (len - 2) (acc + (ucast lo OR push_bit 8 (ucast hi)))
      else if len > 0 then Some (acc + ucast lo) else Some acc)"
| "checksum_sum [b] len acc = (if len > 1 then None else if len > 0 then Some (acc + ucast b) else Some acc)"
| "checksum_sum [] len acc = (if len > 0 then None else Some acc)"

lemma low_half: "unat ((w :: u32) AND 0xFFFF) = unat w mod 65536"
proof -
  have m: "(0xFFFF :: u32) = mask 16" by (simp add: mask_eq_exp_minus_1)
  have "w AND 0xFFFF = take_bit 16 w" by (simp only: m take_bit_eq_mask)
  then show ?thesis by (simp add: unat_mod take_bit_eq_mod)
qed

lemma high_half: "unat (drop_bit 16 (w :: u32)) = unat w div 65536"
  by (simp add: drop_bit_eq_div unat_div)

lemma halves_less: "(n :: nat) < 4294967296 \<Longrightarrow> n mod 65536 + n div 65536 < 4294967296"
proof -
  assume "n < 4294967296"
  then have "n div 65536 < 65536" by (simp add: div_less_iff_less_mult)
  moreover have "n mod 65536 < 65536" by simp
  ultimately show ?thesis by linarith
qed

lemma halves_sum: "unat (((w :: u32) AND 0xFFFF) + drop_bit 16 w) = unat w mod 65536 + unat w div 65536"
proof -
  have "unat (w AND 0xFFFF) + unat (drop_bit 16 w) < 2 ^ LENGTH(32)"
    using halves_less [of "unat w"] by (simp add: low_half high_half)
  then show ?thesis by (simp add: unat_add_lem [THEN iffD1] low_half high_half)
qed

lemma halves_smaller: "65536 \<le> (n :: nat) \<Longrightarrow> n mod 65536 + n div 65536 < n"
proof -
  assume "65536 \<le> n"
  then have "1 \<le> n div 65536" by (simp add: Suc_le_eq div_greater_zero_iff)
  moreover have "65536 * (n div 65536) + n mod 65536 = n" by simp
  ultimately show ?thesis by linarith
qed

function fold_carry :: "u32 \<Rightarrow> u32" where
  "fold_carry acc = (if drop_bit 16 acc \<noteq> 0 then fold_carry ((acc AND 0xFFFF) + drop_bit 16 acc) else acc)"
  by pat_completeness auto
termination
proof (relation "measure unat")
  fix acc :: u32
  assume "drop_bit 16 acc \<noteq> 0"
  then have "unat acc div 65536 \<noteq> 0" using high_half [of acc] by (metis unat_0_iff)
  then have "65536 \<le> unat acc" by (simp add: div_eq_0_iff)
  then show "((acc AND 0xFFFF) + drop_bit 16 acc, acc) \<in> measure unat"
    by (simp add: halves_sum halves_smaller)
qed simp

declare fold_carry.simps [simp del]

definition calculate_checksum :: "u8 list \<Rightarrow> int \<Rightarrow> u16 option" where
  "calculate_checksum addr len = do { acc \<leftarrow> checksum_sum addr len 0; Some (ucast (NOT (fold_carry acc))) }"

subsection \<open>Echo requests\<close>

definition le16_bytes :: "u16 \<Rightarrow> u8 list" where "le16_bytes w = [ucast w, ucast (drop_bit 8 w)]"

definition le32_bytes_of :: "u32 \<Rightarrow> u8 list" where
  "le32_bytes_of w = [ucast w, ucast (drop_bit 8 w), ucast (drop_bit 16 w), ucast (drop_bit 24 w)]"

text \<open>The two headers, packed, and the payload.\<close>

definition ipv4_header :: "u32 \<Rightarrow> u8 list" where
  "ipv4_header target_ip = [0x45, 0] @ le16_bytes 52 @ le16_bytes 0x1234 @ le16_bytes 0 @ [64, 1] @ le16_bytes 0 @
     le32_bytes_of 0x0F02000A @ le32_bytes_of target_ip"

definition icmp_echo :: "u16 \<Rightarrow> u16 \<Rightarrow> u8 \<Rightarrow> u8 list" where
  "icmp_echo checksum ident letter = [8, 0] @ le16_bytes checksum @ le16_bytes ident @ le16_bytes 1 @ replicate 32 letter"

text \<open>Stores through a pointer into an array, one byte after the other.\<close>

definition store_at :: "nat \<Rightarrow> u8 list \<Rightarrow> u8 list \<Rightarrow> u8 list option" where
  "store_at i bs buf = for_up 0 (length bs) (\<lambda>j b. wr b (i + j) (bs ! j)) buf"

text \<open>The frame of 64 bytes that is sent.\<close>

definition send_raw_ping :: "u32 \<Rightarrow> u8 list option" where
  "send_raw_ping target_ip =
     do { f1 \<leftarrow> store_at 14 (ipv4_header target_ip) (replicate 64 0);
          f2 \<leftarrow> store_at 34 (icmp_echo 0 0xABCD 0x42) f1;
          ck \<leftarrow> calculate_checksum (drop 34 f2) 32;
          store_at 36 (le16_bytes ck) f2 }"

text \<open>The packet of \<open>run_real_ping\<close>; the checksum field is read before it is written, and then holds \<open>junk\<close>.\<close>

definition real_ping_packet :: "u16 \<Rightarrow> u8 list option" where
  "real_ping_packet junk =
     do { ck \<leftarrow> calculate_checksum (icmp_echo junk 0x1337 0x41) 40; Some (icmp_echo ck 0x1337 0x41) }"

subsection \<open>What the checksum is\<close>

text \<open>The sum of the words as a number, and the sum with its carries added back, which is a remainder modulo 65535.\<close>

fun word_sum :: "u8 list \<Rightarrow> nat" where
  "word_sum (lo # hi # rest) = unat lo + 256 * unat hi + word_sum rest"
| "word_sum [b] = unat b"
| "word_sum [] = 0"

definition ones_sum :: "nat \<Rightarrow> nat" where
  "ones_sum n = (if n = 0 then 0 else if n mod 65535 = 0 then 65535 else n mod 65535)"

lemma two_bytes: "unat ((ucast (lo :: u8) :: u32) OR push_bit 8 (ucast (hi :: u8))) = unat lo + 256 * unat hi"
proof -
  have "(ucast lo :: u32) AND push_bit 8 (ucast hi) = 0" by (rule bit_word_eqI) (auto simp: bit_simps dest: bit_imp_le_length)
  then have "(ucast lo :: u32) OR push_bit 8 (ucast hi) = ucast lo + push_bit 8 (ucast hi)"
    by (simp add: disjunctive_add_eq_or)
  moreover have u: "unat (ucast b :: u32) = unat b" for b :: u8
  proof -
    have "unat b < 2 ^ 32" by (rule order.strict_trans [OF unat_u8_lt]) simp
    then show ?thesis by (simp add: unsigned_ucast_eq take_bit_nat_eq_self)
  qed
  moreover have "unat (push_bit 8 (ucast hi :: u32)) = 256 * unat hi"
  proof -
    have "unat hi < 256" by (rule unat_u8_lt)
    then have "unat hi * 256 < 4294967296" by linarith
    then show ?thesis by (simp add: push_bit_eq_mult unat_word_ariths u mult.commute)
  qed
  moreover have "unat lo + 256 * unat hi < 2 ^ LENGTH(32)"
  proof -
    have "unat lo < 256" "unat hi < 256" by (rule unat_u8_lt)+
    then have "unat lo + 256 * unat hi < 4294967296" by linarith
    then show ?thesis by simp
  qed
  ultimately show ?thesis by (simp add: unat_add_lem [THEN iffD1])
qed

lemma checksum_sum_run:
  assumes "unat acc + word_sum bs < 2 ^ 32"
  shows "checksum_sum bs (int (length bs)) acc = Some (acc + of_nat (word_sum bs))"
  using assms
proof (induction bs arbitrary: acc rule: word_sum.induct)
  case (1 lo hi rest)
  let ?w = "(ucast lo :: u32) OR push_bit 8 (ucast hi)"
  have w: "unat ?w = unat lo + 256 * unat hi" by (rule two_bytes)
  have "unat acc + unat ?w < 2 ^ LENGTH(32)" using 1(2) w by simp
  then have "unat (acc + ?w) = unat acc + unat ?w" by (simp add: unat_add_lem [THEN iffD1])
  then have "unat (acc + ?w) + word_sum rest < 2 ^ 32" using 1(2) w by simp
  from 1(1) [OF this] have "checksum_sum rest (int (length rest)) (acc + ?w) = Some (acc + ?w + of_nat (word_sum rest))" .
  moreover have "?w = of_nat (unat lo + 256 * unat hi)" using w by (metis of_nat_unat ucast_id)
  ultimately show ?case by (simp add: add.assoc)
next
  case (2 b)
  have "(ucast b :: u32) = of_nat (unat b)" by (simp add: unsigned_word_eqI)
  then show ?case by simp
qed simp

lemma ones_sum_step: "65536 \<le> n \<Longrightarrow> ones_sum (n mod 65536 + n div 65536) = ones_sum n"
proof -
  assume n: "65536 \<le> n"
  define q where "q = n div 65536"
  define r where "r = n mod 65536"
  have e: "n = 65535 * q + (r + q)" by (simp add: q_def r_def algebra_simps)
  have "1 \<le> q" using n by (simp add: q_def Suc_le_eq div_greater_zero_iff)
  moreover have "n mod 65535 = (r + q) mod 65535" by (subst e) (simp only: mod_mult_self4)
  ultimately show ?thesis using n by (simp add: ones_sum_def q_def [symmetric] r_def [symmetric])
qed

lemma fold_carry_run: "unat (fold_carry acc) = ones_sum (unat acc)"
proof (induction acc rule: fold_carry.induct)
  case (1 acc)
  show ?case
  proof (cases "drop_bit 16 acc = 0")
    case True
    then have "unat acc div 65536 = 0" using high_half [of acc] by simp
    then have "unat acc < 65536" by (simp add: div_eq_0_iff)
    then show ?thesis using True by (subst fold_carry.simps) (auto simp: ones_sum_def mod_if)
  next
    case False
    then have "unat acc div 65536 \<noteq> 0" using high_half [of acc] by (metis unat_0_iff)
    then have "65536 \<le> unat acc" by (simp add: div_eq_0_iff)
    then show ?thesis using 1 [OF False] False by (subst fold_carry.simps) (simp add: halves_sum ones_sum_step)
  qed
qed

lemma ones_sum_less: "ones_sum n \<le> 65535"
  by (simp add: ones_sum_def less_imp_le)

lemma not_low_arith: "(a :: nat) < 65536 \<Longrightarrow> (4294967295 - a) mod 65536 = 65535 - a"
proof -
  assume "a < 65536"
  then have "4294967295 - a = (65535 - a) + 65535 * 65536" by linarith
  moreover have "((65535 - a) + 65535 * 65536) mod 65536 = 65535 - a"
    by (simp only: mod_mult_self1) simp
  ultimately show ?thesis by (simp only:)
qed

lemma unat_not_low: "unat (w :: u32) < 65536 \<Longrightarrow> unat (ucast (NOT w) :: u16) = 65535 - unat w"
proof -
  assume w: "unat w < 65536"
  have "NOT w = - 1 - w" by (simp add: not_eq_complement)
  moreover have "unat (- 1 - w) = unat (- 1 :: u32) - unat w" by (rule unat_sub) (rule word_order.extremum)
  moreover have "unat (- 1 :: u32) = 4294967295" by (simp add: unsigned_minus_1_eq_mask mask_eq_exp_minus_1)
  ultimately have n: "unat (NOT w) = 4294967295 - unat w" by simp
  have "unat (ucast (NOT w) :: u16) = (4294967295 - unat w) mod 65536" by (simp add: unsigned_ucast_eq take_bit_eq_mod n)
  with not_low_arith [OF w] show ?thesis by (simp only:)
qed

lemma calculate_checksum_run:
  assumes "word_sum bs < 2 ^ 32"
  shows "\<exists>ck. calculate_checksum bs (int (length bs)) = Some ck \<and> unat ck = 65535 - ones_sum (word_sum bs)"
proof -
  have s: "checksum_sum bs (int (length bs)) 0 = Some (of_nat (word_sum bs))" using checksum_sum_run [of 0 bs] assms by simp
  have u: "unat (of_nat (word_sum bs) :: u32) = word_sum bs" using assms by (simp add: unat_of_nat take_bit_eq_mod)
  have "unat (fold_carry (of_nat (word_sum bs))) < 65536"
    using ones_sum_less [of "word_sum bs"] by (simp add: fold_carry_run u)
  from unat_not_low [OF this] show ?thesis by (simp add: calculate_checksum_def s fold_carry_run u)
qed

lemma word_sum_append: "even (length p) \<Longrightarrow> word_sum (p @ q) = word_sum p + word_sum q"
  by (induction p rule: word_sum.induct) auto

lemma word_sum_bound: "word_sum bs \<le> 65535 * length bs"
proof (induction bs rule: word_sum.induct)
  case (1 lo hi rest)
  have "unat lo < 256" "unat hi < 256" by (rule unat_u8_lt)+
  moreover have "length (lo # hi # rest) = length rest + 2" by simp
  ultimately show ?case using 1 unfolding word_sum.simps by linarith
next
  case (2 b)
  have "unat b < 256" by (rule unat_u8_lt)
  then have "unat b \<le> 65535" by linarith
  then show ?case by simp
qed simp

lemma word_sum_le16: "word_sum (le16_bytes w) = unat w"
proof -
  have "unat (ucast w :: u8) = unat w mod 256" by (simp add: unsigned_ucast_eq take_bit_eq_mod)
  moreover have "unat (ucast (drop_bit 8 w) :: u8) = unat w div 256"
  proof -
    have "unat w < 65536" using unat_lt [of w] by simp
    then have "unat w div 256 < 256" by (simp add: div_less_iff_less_mult)
    then show ?thesis by (simp add: unsigned_ucast_eq take_bit_eq_mod drop_bit_eq_div unat_div)
  qed
  ultimately show ?thesis by (simp add: le16_bytes_def)
qed

lemma ones_sum_closed: "ones_sum (n + (65535 - ones_sum n)) = 65535"
proof (cases "n mod 65535 = 0")
  case False
  define q where "q = n div 65535"
  define r where "r = n mod 65535"
  have n: "n = 65535 * q + r" and r: "r \<le> 65535" by (simp_all add: q_def r_def less_imp_le)
  have "n + (65535 - r) = 65535 * q + (r + (65535 - r))" by (simp only: n add.assoc)
  also have "\<dots> = 65535 * (q + 1)" using le_add_diff_inverse [OF r] by (simp only: distrib_left mult_1_right)
  finally have "n + (65535 - r) = 65535 * (q + 1)" .
  then have "(n + (65535 - r)) mod 65535 = 0" "n + (65535 - r) \<noteq> 0" by simp_all
  with False show ?thesis by (auto simp: ones_sum_def r_def)
qed (auto simp: ones_sum_def)

text \<open>
  A packet checks. When the checksum of a packet whose field, at an even place, is zero is stored in the field, the
  checksum of the packet is zero, whatever the rest of it is.
\<close>

lemma checksum_verifies:
  assumes "even (length p)" and "length p + 2 + length r < 65536"
  shows "\<exists>ck. calculate_checksum (p @ le16_bytes 0 @ r) (int (length p + 2 + length r)) = Some ck \<and>
    calculate_checksum (p @ le16_bytes ck @ r) (int (length p + 2 + length r)) = Some 0"
proof -
  have len: "length (p @ le16_bytes w @ r) = length p + 2 + length r" for w by (simp add: le16_bytes_def)
  have "even (length (le16_bytes w))" for w by (simp add: le16_bytes_def)
  then have sum: "word_sum (p @ le16_bytes w @ r) = word_sum p + word_sum r + unat w" for w
    using assms(1) by (simp add: word_sum_append word_sum_le16)
  have b: "word_sum (p @ le16_bytes w @ r) < 2 ^ 32" for w
    using word_sum_bound [of "p @ le16_bytes w @ r"] assms(2) unfolding len by simp
  from calculate_checksum_run [OF b [of 0]] obtain ck where
      ck: "calculate_checksum (p @ le16_bytes 0 @ r) (int (length p + 2 + length r)) = Some ck"
        "unat ck = 65535 - ones_sum (word_sum p + word_sum r)"
    unfolding len sum by auto
  from calculate_checksum_run [OF b [of ck]] have
      "calculate_checksum (p @ le16_bytes ck @ r) (int (length p + 2 + length r)) = Some 0"
    unfolding len sum ck(2) ones_sum_closed by (auto simp: unat_eq_zero)
  with ck(1) show ?thesis by blast
qed

text \<open>The 40 bytes of the request do not fit behind the two headers of a frame of 64 bytes: the stack is overwritten.\<close>

lemma store_overrun:
  assumes "j \<le> length buf - i" and "i \<le> length buf" and "length buf < i + n"
  shows "for_up j n (\<lambda>j b. wr b (i + j) (f j)) buf = None"
  using assms
proof (induction "length buf - i - j" arbitrary: j buf)
  case 0
  then have "i + j = length buf" "j < n" by auto
  then show ?case by (subst for_up.simps) (simp add: wr_def)
next
  case (Suc k)
  then have "i + j < length buf" "j < n" by auto
  then have "for_up (Suc j) n (\<lambda>j b. wr b (i + j) (f j)) (buf[i + j := f j]) = None"
    using Suc(2-5) by (intro Suc(1)) auto
  with \<open>i + j < length buf\<close> \<open>j < n\<close> show ?case by (subst for_up.simps) (simp add: wr_Some)
qed

lemma store_length: "store_at i bs buf = Some b \<Longrightarrow> length b = length buf"
proof -
  have "for_up j n (\<lambda>j b. wr b (i + j) (bs ! j)) buf = Some b \<Longrightarrow> length b = length buf" for j n b
  proof (induction "n - j" arbitrary: j buf)
    case 0
    then show ?case by (subst (asm) for_up.simps) simp
  next
    case (Suc k)
    then have "j < n" by simp
    with Suc(3) obtain b1 where "wr buf (i + j) (bs ! j) = Some b1" "for_up (Suc j) n (\<lambda>j b. wr b (i + j) (bs ! j)) b1 = Some b"
      by (subst (asm) for_up.simps) (auto simp: bind_eq_Some_conv)
    with Suc(1) [of "Suc j" b1] Suc(2) show ?case by (auto simp: wr_def split: if_splits)
  qed
  then show "store_at i bs buf = Some b \<Longrightarrow> length b = length buf" unfolding store_at_def by blast
qed

lemma send_raw_ping_overruns: "send_raw_ping target_ip = None"
proof -
  have "store_at 34 (icmp_echo 0 0xABCD 0x42) f = None" if "length f = 64" for f
    unfolding store_at_def by (rule store_overrun) (simp_all add: that icmp_echo_def le16_bytes_def)
  then show ?thesis using store_length [of 14 "ipv4_header target_ip" "replicate 64 0"]
    by (cases "store_at 14 (ipv4_header target_ip) (replicate 64 0)") (simp_all add: send_raw_ping_def)
qed

end
